(* ===== verification/Prelude.thy ===== *)
theory Prelude
  imports Main "HOL-Library.Word"
begin

text \<open>
  Shared vocabulary of the development: the C++ standard-library operations that the
  sources call (\<open>std::string::find\<close>, \<open>rfind\<close>, \<open>substr\<close>, \<open>std::tolower\<close>,
  \<open>std::isspace\<close>, \<open>std::from_chars\<close>), the exceptions they throw, and the lemmas on
  them that the component theories share.  A \<open>std::string\<close> is a \<^typ>\<open>string\<close> (one
  \<^typ>\<open>char\<close> per byte), a \<open>std::vector<unsigned char>\<close> is a list of \<open>8 word\<close>, and
  \<open>std::string::npos\<close> is \<^term>\<open>None\<close>.
\<close>

named_theorems str_simps \<open>evaluation rules of the string primitives\<close>
named_theorems bounds_intros \<open>index bounds of the string primitives\<close>

section \<open>Machine integers\<close>

text \<open>The value of an \<open>int\<close> of 32 bits that holds \<open>v\<close> modulo \<open>2 ^ 32\<close>: \<open>static_cast<int>\<close>
  of a \<open>size_t\<close>, and the arithmetic that is done in \<open>int\<close>.\<close>

definition wrap32 :: "int \<Rightarrow> int" where
  "wrap32 v = sint (word_of_int v :: 32 word)"

lemma wrap32_id: "0 \<le> v \<Longrightarrow> v < 2 ^ 31 \<Longrightarrow> wrap32 v = v"
  by (simp add: wrap32_def signed_of_int signed_take_bit_int_eq_self)

section \<open>Exceptions\<close>

text \<open>The exceptions the modelled code lets the standard library throw.\<close>

datatype cpp_exn = OutOfRange | InvalidArgument | LengthError

type_synonym 'a res = "cpp_exn + 'a"

definition bind_res :: "'a res \<Rightarrow> ('a \<Rightarrow> 'b res) \<Rightarrow> 'b res" where
  "bind_res m f = (case m of Inl e \<Rightarrow> Inl e | Inr a \<Rightarrow> f a)"

lemma bind_res_simps [simp]:
  "bind_res (Inl e) f = Inl e"
  "bind_res (Inr a) f = f a"
  by (simp_all add: bind_res_def)

lemma bind_res_Inr_iff: "bind_res m f = Inr b \<longleftrightarrow> (\<exists>a. m = Inr a \<and> f a = Inr b)"
  by (cases m) auto

text \<open>A computation that may also fail to return: \<^term>\<open>None\<close> is "runs forever".\<close>

type_synonym 'a comp = "'a res option"

definition return_comp :: "'a \<Rightarrow> 'a comp" where
  "return_comp a = Some (Inr a)"

definition bind_comp :: "'a comp \<Rightarrow> ('a \<Rightarrow> 'b comp) \<Rightarrow> 'b comp" where
  "bind_comp m f = (case m of None \<Rightarrow> None | Some (Inl e) \<Rightarrow> Some (Inl e) | Some (Inr a) \<Rightarrow> f a)"

lemma bind_comp_simps [simp]:
  "bind_comp None f = None"
  "bind_comp (Some (Inl e)) f = Some (Inl e)"
  "bind_comp (Some (Inr a)) f = f a"
  "bind_comp (return_comp a) f = f a"
  by (simp_all add: bind_comp_def return_comp_def)

lemma bind_comp_returns_iff:
  "bind_comp m f = Some (Inr b) \<longleftrightarrow> (\<exists>a. m = Some (Inr a) \<and> f a = Some (Inr b))"
  by (auto simp: bind_comp_def split: option.split sum.split)

section \<open>Bytes and characters\<close>

text \<open>The largest \<open>int\<close>.\<close>

definition int_max :: int where "int_max = 2147483647"

type_synonym byte = "8 word"
type_synonym bytes = "byte list"

definition byte_of_char :: "char \<Rightarrow> byte" where
  "byte_of_char c = word_of_nat (of_char c)"

definition char_of_byte :: "byte \<Rightarrow> char" where
  "char_of_byte b = char_of (unat b)"

lemma of_char_less_256: "(of_char c :: nat) < 256"
  by simp

lemma char_of_byte_of_char [simp]: "char_of_byte (byte_of_char c) = c"
  by (simp add: byte_of_char_def char_of_byte_def unat_of_nat)

lemma byte_of_char_of_byte [simp]: "byte_of_char (char_of_byte b) = b"
proof -
  have "unat b < 256" using unsigned_less [of b] by simp
  then show ?thesis by (simp add: byte_of_char_def char_of_byte_def)
qed

text \<open>\<open>std::tolower\<close> in the C locale: only the ASCII capitals change.\<close>

definition ascii :: "char \<Rightarrow> nat" where
  "ascii c = of_char c"

lemma ascii_Char [simp]: "ascii (Char b0 b1 b2 b3 b4 b5 b6 b7) =
    of_bool b0 + 2 * (of_bool b1 + 2 * (of_bool b2 + 2 * (of_bool b3 +
    2 * (of_bool b4 + 2 * (of_bool b5 + 2 * (of_bool b6 + 2 * of_bool b7))))))"
  by (simp add: ascii_def)

lemma ascii_inject [simp]: "ascii c = ascii d \<longleftrightarrow> c = d"
  by (simp add: ascii_def)

lemma ascii_less [simp]: "ascii c < 256"
  by (simp add: ascii_def)

lemma ascii_char_of [simp]: "n < 256 \<Longrightarrow> ascii (char_of n) = n"
  by (simp add: ascii_def)

lemma char_of_ascii [simp]: "char_of (ascii c) = c"
  by (simp add: ascii_def)

definition tolower :: "char \<Rightarrow> char" where
  "tolower c = (if 65 \<le> ascii c \<and> ascii c \<le> 90 then char_of (ascii c + 32) else c)"

definition isspace :: "char \<Rightarrow> bool" where
  "isspace c \<longleftrightarrow> ascii c = 32 \<or> (9 \<le> ascii c \<and> ascii c \<le> 13)"

definition isdigit :: "char \<Rightarrow> bool" where
  "isdigit c \<longleftrightarrow> 48 \<le> ascii c \<and> ascii c \<le> 57"

definition isalpha :: "char \<Rightarrow> bool" where
  "isalpha c \<longleftrightarrow> (65 \<le> ascii c \<and> ascii c \<le> 90) \<or> (97 \<le> ascii c \<and> ascii c \<le> 122)"

definition isalnum :: "char \<Rightarrow> bool" where
  "isalnum c \<longleftrightarrow> isdigit c \<or> isalpha c"

definition lower :: "string \<Rightarrow> string" where
  "lower s = map tolower s"

lemma tolower_idem [simp]: "tolower (tolower c) = tolower c"
  by (simp add: tolower_def)

lemma lower_idem [simp]: "lower (lower s) = lower s"
  by (simp add: lower_def)

lemma lower_simps [simp]: "lower [] = []" "lower (c # s) = tolower c # lower s"
  by (simp_all add: lower_def)

lemma length_lower [simp]: "length (lower s) = length s"
  by (simp add: lower_def)

definition bytes_of_string :: "string \<Rightarrow> bytes" where
  "bytes_of_string s = map byte_of_char s"

definition string_of_bytes :: "bytes \<Rightarrow> string" where
  "string_of_bytes bs = map char_of_byte bs"

lemma string_of_bytes_of_string [simp]: "string_of_bytes (bytes_of_string s) = s"
  by (induction s) (simp_all add: string_of_bytes_def bytes_of_string_def)

lemma bytes_of_string_of_bytes [simp]: "bytes_of_string (string_of_bytes bs) = bs"
  by (induction bs) (simp_all add: string_of_bytes_def bytes_of_string_def)

section \<open>Searching a string\<close>

text \<open>\<open>std::string::starts_with\<close>.\<close>

fun is_prefix :: "'a list \<Rightarrow> 'a list \<Rightarrow> bool" where
  "is_prefix [] s = True"
| "is_prefix (p # ps) [] = False"
| "is_prefix (p # ps) (c # cs) = (p = c \<and> is_prefix ps cs)"

lemma is_prefix_iff: "is_prefix p s \<longleftrightarrow> (\<exists>t. s = p @ t)"
  by (induction p s rule: is_prefix.induct) auto

lemma is_prefix_take: "is_prefix p s \<longleftrightarrow> take (length p) s = p"
  by (induction p s rule: is_prefix.induct) auto

lemma is_prefix_append [simp]: "is_prefix p (p @ t)"
  by (auto simp: is_prefix_iff)

lemma is_prefix_length: "is_prefix p s \<Longrightarrow> length p \<le> length s"
  by (auto simp: is_prefix_iff)

lemma is_prefix_append_long: "length p \<le> length s \<Longrightarrow> is_prefix p (s @ t) = is_prefix p s"
  by (simp add: is_prefix_take)

lemma is_prefix_nth: "is_prefix p s \<Longrightarrow> i < length p \<Longrightarrow> s ! i = p ! i"
  by (auto simp: is_prefix_iff nth_append)

text \<open>\<open>ends_with\<close>.\<close>

definition is_suffix :: "'a list \<Rightarrow> 'a list \<Rightarrow> bool" where
  "is_suffix p s = is_prefix (rev p) (rev s)"

text \<open>\<open>find\<close> of a single character (or of any character of a set: \<open>find_first_of\<close>).\<close>

fun find_idx :: "('a \<Rightarrow> bool) \<Rightarrow> 'a list \<Rightarrow> nat option" where
  "find_idx P [] = None"
| "find_idx P (c # cs) = (if P c then Some 0 else map_option Suc (find_idx P cs))"

text \<open>\<open>find\<close> of a string.\<close>

fun find_sub :: "'a list \<Rightarrow> 'a list \<Rightarrow> nat option" where
  "find_sub p [] = (if p = [] then Some 0 else None)"
| "find_sub p (c # cs) =
     (if is_prefix p (c # cs) then Some 0 else map_option Suc (find_sub p cs))"

text \<open>\<open>rfind\<close> of a single character.\<close>

fun rfind_idx :: "('a \<Rightarrow> bool) \<Rightarrow> 'a list \<Rightarrow> nat option" where
  "rfind_idx P [] = None"
| "rfind_idx P (c # cs) =
     (case rfind_idx P cs of Some i \<Rightarrow> Some (Suc i) | None \<Rightarrow> if P c then Some 0 else None)"

text \<open>\<open>find\<close> with a start position; a start past the end finds nothing.\<close>

definition find_idx_from :: "('a \<Rightarrow> bool) \<Rightarrow> 'a list \<Rightarrow> nat \<Rightarrow> nat option" where
  "find_idx_from P s i = map_option (\<lambda>j. i + j) (find_idx P (drop i s))"

definition find_sub_from :: "'a list \<Rightarrow> 'a list \<Rightarrow> nat \<Rightarrow> nat option" where
  "find_sub_from p s i =
     (if i \<le> length s then map_option (\<lambda>j. i + j) (find_sub p (drop i s)) else None)"

text \<open>\<open>substr\<close> with a start position throws \<open>std::out_of_range\<close> past the end.\<close>

definition substr :: "'a list \<Rightarrow> nat \<Rightarrow> 'a list res" where
  "substr s i = (if i \<le> length s then Inr (drop i s) else Inl OutOfRange)"

text \<open>\<open>substr(0, pos)\<close> where \<open>pos\<close> may be \<open>npos\<close>: the prefix up to it.\<close>

definition take_opt :: "nat option \<Rightarrow> 'a list \<Rightarrow> 'a list" where
  "take_opt i s = (case i of None \<Rightarrow> s | Some n \<Rightarrow> take n s)"

lemma take_opt_simps [simp]: "take_opt None s = s" "take_opt (Some n) s = take n s"
  by (simp_all add: take_opt_def)

subsection \<open>Characterisations\<close>

lemma find_idx_Some_iff:
  "find_idx P s = Some i \<longleftrightarrow> i < length s \<and> P (s ! i) \<and> (\<forall>j<i. \<not> P (s ! j))"
proof (induction P s arbitrary: i rule: find_idx.induct)
  case (1 P)
  then show ?case by simp
next
  case (2 P c cs)
  show ?case
  proof (cases i)
    case 0
    then show ?thesis by auto
  next
    case (Suc k)
    then show ?thesis using 2
      by (auto simp: less_Suc_eq_0_disj)
  qed
qed

lemma find_idx_None_iff: "find_idx P s = None \<longleftrightarrow> (\<forall>c \<in> set s. \<not> P c)"
  by (induction P s rule: find_idx.induct) auto

lemma find_idx_less [bounds_intros]: "find_idx P s = Some i \<Longrightarrow> i < length s"
  by (simp add: find_idx_Some_iff)

lemma find_idx_append:
  "find_idx P (s @ t) = (case find_idx P s of Some i \<Rightarrow> Some i
     | None \<Rightarrow> map_option (\<lambda>j. length s + j) (find_idx P t))"
  by (cases "find_idx P t"; induction P s rule: find_idx.induct)
    (auto split: option.splits)

lemma find_idx_prefix_free:
  "find_idx P s = Some i \<Longrightarrow> c \<in> set (take i s) \<Longrightarrow> \<not> P c"
  by (auto simp: find_idx_Some_iff in_set_conv_nth)

lemma rfind_idx_None_iff: "rfind_idx P s = None \<longleftrightarrow> (\<forall>c \<in> set s. \<not> P c)"
  by (induction P s rule: rfind_idx.induct) (auto split: option.splits)

lemma rfind_idx_Some_iff:
  "rfind_idx P s = Some i \<longleftrightarrow> i < length s \<and> P (s ! i) \<and> (\<forall>j<length s. i < j \<longrightarrow> \<not> P (s ! j))"
proof (induction P s arbitrary: i rule: rfind_idx.induct)
  case (1 P)
  then show ?case by simp
next
  case (2 P c cs)
  have none: "(\<forall>j<length cs. \<not> P (cs ! j)) \<longleftrightarrow> rfind_idx P cs = None"
    by (simp add: rfind_idx_None_iff all_set_conv_all_nth)
  show ?case
  proof (cases i)
    case 0
    then show ?thesis using none by (auto split: option.splits simp: All_less_Suc2)
  next
    case (Suc k)
    have "rfind_idx P (c # cs) = Some (Suc k) \<longleftrightarrow> rfind_idx P cs = Some k"
      by (simp split: option.split)
    then show ?thesis using Suc 2 by (simp add: All_less_Suc2)
  qed
qed

lemma rfind_idx_less [bounds_intros]: "rfind_idx P s = Some i \<Longrightarrow> i < length s"
  by (simp add: rfind_idx_Some_iff)

lemma find_sub_Some_iff:
  "find_sub p s = Some i \<longleftrightarrow>
     i \<le> length s \<and> is_prefix p (drop i s) \<and> (\<forall>j<i. \<not> is_prefix p (drop j s))"
proof (induction p s arbitrary: i rule: find_sub.induct)
  case (1 p)
  then show ?case by (cases p) auto
next
  case (2 p c cs)
  show ?case
  proof (cases i)
    case 0
    then show ?thesis by auto
  next
    case (Suc k)
    have ex: "(\<forall>j<Suc k. \<not> is_prefix p (drop j (c # cs))) \<longleftrightarrow>
        \<not> is_prefix p (c # cs) \<and> (\<forall>j<k. \<not> is_prefix p (drop j cs))"
      by (simp add: All_less_Suc2)
    show ?thesis
      using Suc 2 ex by auto
  qed
qed

lemma find_sub_None_iff:
  "find_sub p s = None \<longleftrightarrow> (\<forall>j<Suc (length s). \<not> is_prefix p (drop j s))"
proof (induction p s rule: find_sub.induct)
  case (1 p)
  then show ?case by (cases p) auto
next
  case (2 p c cs)
  have "(\<forall>j<Suc (length (c # cs)). \<not> is_prefix p (drop j (c # cs))) \<longleftrightarrow>
      \<not> is_prefix p (c # cs) \<and> (\<forall>j<Suc (length cs). \<not> is_prefix p (drop j cs))"
    by (simp only: All_less_Suc2 list.size add_Suc_right add_0_right drop_Suc_Cons drop_0)
  then show ?case using 2 by auto
qed

lemma find_sub_bound [bounds_intros]: "find_sub p s = Some i \<Longrightarrow> i + length p \<le> length s"
  by (auto simp: find_sub_Some_iff dest!: is_prefix_length)

lemma find_sub_split:
  assumes "find_sub p s = Some i"
  shows "s = take i s @ p @ drop (i + length p) s"
proof -
  from assms have "is_prefix p (drop i s)"
    by (simp add: find_sub_Some_iff)
  then obtain t where t: "drop i s = p @ t"
    by (auto simp: is_prefix_iff)
  then have "drop (length p) (drop i s) = t" by simp
  then have "drop (i + length p) s = t" by (simp add: add.commute)
  with t show ?thesis
    by (metis append_take_drop_id)
qed

text \<open>Only the first part of a string decides where a pattern first occurs.\<close>

lemma find_sub_replace_tail:
  assumes "find_sub p (s @ t) = Some i" and "i + length p \<le> length s"
  shows "find_sub p (s @ t') = Some i"
proof -
  have same: "is_prefix p (drop j (s @ t')) = is_prefix p (drop j (s @ t))" if "j \<le> i" for j
  proof -
    from that assms(2) have "j + length p \<le> length s" by simp
    then have "take (length p) (drop j (s @ t')) = take (length p) (drop j (s @ t))"
      by (simp add: take_drop)
    then show ?thesis by (simp add: is_prefix_take)
  qed
  from assms(1) have *: "is_prefix p (drop i (s @ t))" "\<forall>j<i. \<not> is_prefix p (drop j (s @ t))"
    by (auto simp: find_sub_Some_iff)
  with same assms(2) show ?thesis
    by (auto simp: find_sub_Some_iff)
qed

section \<open>Trimming\<close>

text \<open>Dropping the characters of a class from both ends.\<close>

definition trim_by :: "(char \<Rightarrow> bool) \<Rightarrow> string \<Rightarrow> string" where
  "trim_by P s = rev (dropWhile P (rev (dropWhile P s)))"

lemma trim_by_Nil [simp]: "trim_by P [] = []"
  by (simp add: trim_by_def)

lemma trim_by_idem [simp]: "trim_by P (trim_by P s) = trim_by P s"
proof (cases "trim_by P s")
  case Nil
  then show ?thesis by simp
next
  case (Cons c cs)
  let ?d = "dropWhile P s"
  have pre: "\<exists>t. ?d = trim_by P s @ t"
    using takeWhile_dropWhile_id [of P "rev ?d"]
    by (metis (no_types) rev_append rev_rev_ident trim_by_def)
  then have "?d \<noteq> []" and hd: "hd ?d = c" using Cons by (metis append_Cons list.distinct(1), metis append_Cons list.sel(1))
  then have "\<not> P c" using hd_dropWhile by (metis (full_types))
  then have d1: "dropWhile P (trim_by P s) = trim_by P s"
    using Cons by simp
  have "dropWhile P (rev (trim_by P s)) = rev (trim_by P s)"
    by (simp add: trim_by_def)
  then show ?thesis
    by (simp add: trim_by_def [of P "trim_by P s"] d1)
qed

section \<open>Overwriting part of an array\<close>

text \<open>\<open>std::memcpy\<close> or a \<open>memset\<close> into an array, at an index.\<close>

definition overwrite :: "nat \<Rightarrow> 'a list \<Rightarrow> 'a list \<Rightarrow> 'a list" where
  "overwrite at data xs = take at xs @ data @ drop (at + length data) xs"

lemma length_overwrite [simp]: "at + length data \<le> length xs \<Longrightarrow> length (overwrite at data xs) = length xs"
  by (simp add: overwrite_def)

lemma nth_overwrite:
  "at + length data \<le> length xs \<Longrightarrow> i < length xs \<Longrightarrow>
    overwrite at data xs ! i = (if at \<le> i \<and> i < at + length data then data ! (i - at) else xs ! i)"
  by (auto simp: overwrite_def nth_append min_def not_le)

end
