(* ===== verification/Floating.thy ===== *)
theory Floating
  imports Prelude "HOL-Library.Log_Nat"
begin

text \<open>
  \<open>float\<close> and \<open>double\<close>: the IEEE 754 formats the sources compute in, with every result
  rounded to nearest, ties to even, as the C++ code does on the platforms it is built for.  A
  value is a rational number (zero among them), the negative zero, an infinity or not a number.
  The operations are computed exactly on rationals and rounded once.  \<open>std::strtod\<close> and
  \<open>std::strtof\<close> are here too: the longest numeral at the front of a text, correctly rounded,
  and what is left of the text.
\<close>

section \<open>Formats and rounding\<close>

datatype fp = Num rat | NegZero | Infinite bool | NotANumber

text \<open>A format is its precision, the exponent of its smallest positive number and the exponent
  at which numbers become infinite.\<close>

type_synonym fmt = "int \<times> int \<times> int"

definition single :: fmt where "single = (24, -149, 128)"
definition double :: fmt where "double = (53, -1074, 1024)"

definition pow2 :: "int \<Rightarrow> rat" where
  "pow2 e = (if 0 \<le> e then 2 ^ nat e else 1 / 2 ^ nat (- e))"

text \<open>The number of binary digits of a positive integer.\<close>

function bit_count :: "int \<Rightarrow> int" where
  "bit_count n = (if n \<le> 0 then 0 else 1 + bit_count (n div 2))"
  by pat_completeness auto
termination by (relation "measure nat") auto

declare bit_count.simps [simp del]

lemma bit_count_bitlen: "bit_count n = bitlen n"
proof (induction n rule: bit_count.induct)
  case (1 n)
  then show ?case by (subst bit_count.simps, subst compute_bitlen) simp
qed

text \<open>The exponent of the leading bit of a number that is not zero.\<close>

definition leading :: "rat \<Rightarrow> int" where
  "leading x =
     (let (n, d) = quotient_of \<bar>x\<bar>; k = bit_count n - bit_count d in
      if pow2 k \<le> \<bar>x\<bar> then k else k - 1)"

definition half_even :: "rat \<Rightarrow> int" where
  "half_even x =
     (let f = \<lfloor>x\<rfloor>; r = x - of_int f in
      if r < 1 / 2 then f else if 1 / 2 < r then f + 1 else if even f then f else f + 1)"

definition ulp :: "fmt \<Rightarrow> rat \<Rightarrow> rat" where
  "ulp f x = (case f of (p, emin, emax) \<Rightarrow> pow2 (max emin (leading x - p + 1)))"

definition fround :: "fmt \<Rightarrow> rat \<Rightarrow> fp" where
  "fround f x =
     (if x = 0 then Num 0
      else
        let u = ulp f x; v = of_int (half_even (x / u)) * u in
        if pow2 (snd (snd f)) \<le> \<bar>v\<bar> then Infinite (v < 0)
        else if v = 0 then (if x < 0 then NegZero else Num 0)
        else Num v)"

section \<open>Arithmetic\<close>

text \<open>Signs of zeros follow the standard: a sum of opposite numbers is the positive zero.\<close>

definition negative :: "fp \<Rightarrow> bool" where
  "negative a = (case a of Num x \<Rightarrow> x < 0 | NegZero \<Rightarrow> True | Infinite s \<Rightarrow> s | NotANumber \<Rightarrow> False)"

definition fvalue :: "fp \<Rightarrow> rat" where
  "fvalue a = (case a of Num x \<Rightarrow> x | _ \<Rightarrow> 0)"

definition signed_zero :: "bool \<Rightarrow> fp" where
  "signed_zero s = (if s then NegZero else Num 0)"

definition is_nan :: "fp \<Rightarrow> bool" where "is_nan a \<longleftrightarrow> a = NotANumber"

definition is_inf :: "fp \<Rightarrow> bool" where "is_inf a = (case a of Infinite _ \<Rightarrow> True | _ \<Rightarrow> False)"

definition fneg :: "fp \<Rightarrow> fp" where
  "fneg a = (case a of Num x \<Rightarrow> if x = 0 then NegZero else Num (- x) | NegZero \<Rightarrow> Num 0
             | Infinite s \<Rightarrow> Infinite (\<not> s) | NotANumber \<Rightarrow> NotANumber)"

definition fadd :: "fmt \<Rightarrow> fp \<Rightarrow> fp \<Rightarrow> fp" where
  "fadd f a b =
     (if is_nan a \<or> is_nan b then NotANumber
      else if is_inf a then (if is_inf b \<and> negative a \<noteq> negative b then NotANumber else a)
      else if is_inf b then b
      else if a = NegZero \<and> b = NegZero then NegZero
      else fround f (fvalue a + fvalue b))"

definition fsub :: "fmt \<Rightarrow> fp \<Rightarrow> fp \<Rightarrow> fp" where
  "fsub f a b = fadd f a (fneg b)"

definition is_zero :: "fp \<Rightarrow> bool" where
  "is_zero a \<longleftrightarrow> a = Num 0 \<or> a = NegZero"

definition fmul :: "fmt \<Rightarrow> fp \<Rightarrow> fp \<Rightarrow> fp" where
  "fmul f a b =
     (let s = (negative a \<noteq> negative b) in
      if is_nan a \<or> is_nan b then NotANumber
      else if is_inf a \<or> is_inf b then (if is_zero a \<or> is_zero b then NotANumber else Infinite s)
      else if is_zero a \<or> is_zero b then signed_zero s
      else fround f (fvalue a * fvalue b))"

definition fdiv :: "fmt \<Rightarrow> fp \<Rightarrow> fp \<Rightarrow> fp" where
  "fdiv f a b =
     (let s = (negative a \<noteq> negative b) in
      if is_nan a \<or> is_nan b then NotANumber
      else if is_inf a then (if is_inf b then NotANumber else Infinite s)
      else if is_inf b then signed_zero s
      else if is_zero b then (if is_zero a then NotANumber else Infinite s)
      else if is_zero a then signed_zero s
      else fround f (fvalue a / fvalue b))"

section \<open>Comparison\<close>

definition fless :: "fp \<Rightarrow> fp \<Rightarrow> bool" where
  "fless a b =
     (if is_nan a \<or> is_nan b then False
      else if is_inf a then negative a \<and> b \<noteq> a
      else if is_inf b then \<not> negative b
      else fvalue a < fvalue b)"

definition feq :: "fp \<Rightarrow> fp \<Rightarrow> bool" where
  "feq a b =
     (if is_nan a \<or> is_nan b then False
      else if is_inf a \<or> is_inf b then a = b
      else fvalue a = fvalue b)"

definition fle :: "fp \<Rightarrow> fp \<Rightarrow> bool" where
  "fle a b \<longleftrightarrow> fless a b \<or> feq a b"

text \<open>\<open>std::max\<close>, \<open>std::min\<close> and \<open>std::clamp\<close> answer their first argument unless the
  comparison holds.\<close>

definition fmax :: "fp \<Rightarrow> fp \<Rightarrow> fp" where "fmax a b = (if fless a b then b else a)"
definition fmin :: "fp \<Rightarrow> fp \<Rightarrow> fp" where "fmin a b = (if fless b a then b else a)"

definition fclamp :: "fp \<Rightarrow> fp \<Rightarrow> fp \<Rightarrow> fp" where
  "fclamp v lo hi = (if fless v lo then lo else if fless hi v then hi else v)"

lemma not_nan_cases [simp]:
  "\<not> is_nan (Num x)" "\<not> is_nan NegZero" "\<not> is_nan (Infinite s)" "is_nan NotANumber"
  by (simp_all add: is_nan_def)

lemma fle_refl [simp]: "fle a a \<longleftrightarrow> \<not> is_nan a"
  by (auto simp: fle_def fless_def feq_def)

lemma fle_trans: "fle a b \<Longrightarrow> fle b c \<Longrightarrow> fle a c"
  by (cases a; cases b; cases c)
    (auto simp: fle_def fless_def feq_def is_inf_def negative_def fvalue_def split: if_splits)

lemma not_fless_iff_fle: "\<not> is_nan a \<Longrightarrow> \<not> is_nan b \<Longrightarrow> \<not> fless a b \<longleftrightarrow> fle b a"
  by (cases a; cases b)
    (auto simp: fle_def fless_def feq_def is_inf_def negative_def fvalue_def)

lemma fless_imp_fle: "fless a b \<Longrightarrow> fle a b"
  by (simp add: fle_def)

lemma fle_not_nan: "fle a b \<Longrightarrow> \<not> is_nan a \<and> \<not> is_nan b"
  by (auto simp: fle_def fless_def feq_def split: if_splits)

lemma fmax_zero_ge: "fle (Num 0) (fmax (Num 0) b)"
  by (auto simp: fmax_def fless_imp_fle)

lemma fclamp_bounds:
  "\<not> is_nan v \<Longrightarrow> fle lo hi \<Longrightarrow> fle lo (fclamp v lo hi) \<and> fle (fclamp v lo hi) hi"
  using fle_not_nan [of lo hi] by (auto simp: fclamp_def fless_imp_fle not_fless_iff_fle)

section \<open>Conversions\<close>

definition ffloor :: "fp \<Rightarrow> fp" where
  "ffloor a = (case a of Num x \<Rightarrow> Num (of_int \<lfloor>x\<rfloor>) | _ \<Rightarrow> a)"

definition fceil :: "fp \<Rightarrow> fp" where
  "fceil a = (case a of Num x \<Rightarrow> if - 1 < x \<and> x < 0 then NegZero else Num (of_int \<lceil>x\<rceil>) | _ \<Rightarrow> a)"

text \<open>\<open>std::round\<close>: to the nearest whole number, halves away from zero.\<close>

definition cround :: "fp \<Rightarrow> fp" where
  "cround a =
     (case a of
        Num x \<Rightarrow>
          let i = (if x < 0 then - \<lfloor>1 / 2 - x\<rfloor> else \<lfloor>x + 1 / 2\<rfloor>)
          in if i = 0 \<and> x < 0 then NegZero else Num (of_int i)
      | _ \<Rightarrow> a)"

definition fabs :: "fp \<Rightarrow> fp" where
  "fabs a = (if negative a then fneg a else a)"

definition of_integer :: "fmt \<Rightarrow> int \<Rightarrow> fp" where
  "of_integer f i = fround f (of_int i)"

text \<open>A cast to an integer type truncates; out of range (or not finite) it is undefined.\<close>

definition truncate_to :: "int \<Rightarrow> int \<Rightarrow> fp \<Rightarrow> int option" where
  "truncate_to lo hi a =
     (case a of
        Num x \<Rightarrow> let i = (if x < 0 then - \<lfloor>- x\<rfloor> else \<lfloor>x\<rfloor>) in if lo \<le> i \<and> i \<le> hi then Some i else None
      | NegZero \<Rightarrow> Some 0
      | _ \<Rightarrow> None)"

section \<open>\<open>std::strtod\<close> and \<open>std::strtof\<close>\<close>

definition digit_value :: "char \<Rightarrow> nat" where
  "digit_value c = ascii c - 48"

definition is_hex :: "char \<Rightarrow> bool" where
  "is_hex c \<longleftrightarrow> isdigit c \<or> (97 \<le> ascii (tolower c) \<and> ascii (tolower c) \<le> 102)"

definition hex_digit_value :: "char \<Rightarrow> nat" where
  "hex_digit_value c = (if isdigit c then ascii c - 48 else ascii (tolower c) - 87)"

definition number_in :: "int \<Rightarrow> (char \<Rightarrow> nat) \<Rightarrow> string \<Rightarrow> int" where
  "number_in base value = foldl (\<lambda>n c. base * n + int (value c)) 0"

text \<open>Digits with a point: the digits before it, those after it, and the rest.\<close>

definition scan_digits :: "(char \<Rightarrow> bool) \<Rightarrow> string \<Rightarrow> string \<times> string \<times> string" where
  "scan_digits dig s =
     (let a = takeWhile dig s; r = dropWhile dig s in
      case r of
        [] \<Rightarrow> (a, [], [])
      | c # r' \<Rightarrow> if c = CHR ''.'' then (a, takeWhile dig r', dropWhile dig r') else (a, [], r))"

text \<open>A sign, if there is one.\<close>

definition scan_sign :: "string \<Rightarrow> bool \<times> string" where
  "scan_sign s =
     (case s of
        [] \<Rightarrow> (False, [])
      | c # r \<Rightarrow> if c = CHR ''-'' then (True, r) else if c = CHR ''+'' then (False, r) else (False, s))"

text \<open>An exponent introduced by \<open>marker\<close>; without a digit it does not belong to the numeral.\<close>

definition scan_exponent :: "char \<Rightarrow> string \<Rightarrow> int \<times> string" where
  "scan_exponent marker s =
     (case s of
        [] \<Rightarrow> (0, s)
      | c # r \<Rightarrow>
          if tolower c = marker then
            let (neg, r1) = scan_sign r; ds = takeWhile isdigit r1; e = number_in 10 digit_value ds in
            if ds = [] then (0, s) else (if neg then - e else e, dropWhile isdigit r1)
          else (0, s))"

definition power_of :: "rat \<Rightarrow> int \<Rightarrow> rat" where
  "power_of b e = (if 0 \<le> e then b ^ nat e else 1 / b ^ nat (- e))"

text \<open>A decimal or hexadecimal numeral without its sign: its exact value and the rest.\<close>

definition scan_decimal :: "string \<Rightarrow> (rat \<times> string) option" where
  "scan_decimal s =
     (let (a, b, r) = scan_digits isdigit s in
      if a = [] \<and> b = [] then None
      else let (e, r1) = scan_exponent (CHR ''e'') r in
        Some (of_int (number_in 10 digit_value (a @ b)) * power_of 10 (e - int (length b)), r1))"

definition scan_hex :: "string \<Rightarrow> (rat \<times> string) option" where
  "scan_hex s =
     (let (a, b, r) = scan_digits is_hex s in
      if a = [] \<and> b = [] then None
      else let (e, r1) = scan_exponent (CHR ''p'') r in
        Some (of_int (number_in 16 hex_digit_value (a @ b)) * power_of 2 (e - 4 * int (length b)), r1))"

definition scan_nan_tail :: "string \<Rightarrow> string" where
  "scan_nan_tail r =
     (case r of
        [] \<Rightarrow> []
      | c # r' \<Rightarrow>
          let body = dropWhile (\<lambda>c. isalnum c \<or> c = CHR ''_'') r' in
          if c = CHR ''('' \<and> body \<noteq> [] \<and> hd body = CHR '')'' then tl body else r)"

definition scan_magnitude :: "fmt \<Rightarrow> string \<Rightarrow> (fp \<times> string) option" where
  "scan_magnitude f s =
     (if lower (take 8 s) = ''infinity'' then Some (Infinite False, drop 8 s)
      else if lower (take 3 s) = ''inf'' then Some (Infinite False, drop 3 s)
      else if lower (take 3 s) = ''nan'' then Some (NotANumber, scan_nan_tail (drop 3 s))
      else
        case (if lower (take 2 s) = ''0x'' then scan_hex (drop 2 s) else None) of
          Some (v, r) \<Rightarrow> Some (fround f v, r)
        | None \<Rightarrow> map_option (\<lambda>(v, r). (fround f v, r)) (scan_decimal s))"

definition strto :: "fmt \<Rightarrow> string \<Rightarrow> (fp \<times> string) option" where
  "strto f s =
     (let (neg, r) = scan_sign (dropWhile isspace s) in
      map_option (\<lambda>(v, r1). (if neg then fneg v else v, r1)) (scan_magnitude f r))"

text \<open>The value alone: 0 when there is no numeral.\<close>

definition strto_value :: "fmt \<Rightarrow> string \<Rightarrow> fp" where
  "strto_value f s = (case strto f s of Some (v, r) \<Rightarrow> v | None \<Rightarrow> Num 0)"


section \<open>Numbers the formats hold exactly\<close>

lemma pow2_pos [simp]: "0 < pow2 e"
  by (simp add: pow2_def)

lemma pow2_add: "pow2 (a + b) = pow2 a * pow2 b"
proof -
  consider "0 \<le> a" "0 \<le> b" | "0 \<le> a" "b < 0" "0 \<le> a + b" | "0 \<le> a" "b < 0" "a + b < 0"
    | "a < 0" "0 \<le> b" "0 \<le> a + b" | "a < 0" "0 \<le> b" "a + b < 0" | "a < 0" "b < 0" by linarith
  then show ?thesis
  proof cases
    case 2
    then have "nat a = nat (a + b) + nat (- b)" by simp
    then have "(2 :: rat) ^ nat a = 2 ^ nat (a + b) * 2 ^ nat (- b)" by (simp only: power_add)
    then show ?thesis using 2 by (simp add: pow2_def)
  next
    case 3
    then have "nat (- b) = nat (- (a + b)) + nat a" by simp
    then have "(2 :: rat) ^ nat (- b) = 2 ^ nat (- (a + b)) * 2 ^ nat a" by (simp only: power_add)
    then show ?thesis using 3 by (simp add: pow2_def)
  next
    case 4
    then have "nat b = nat (a + b) + nat (- a)" by simp
    then have "(2 :: rat) ^ nat b = 2 ^ nat (a + b) * 2 ^ nat (- a)" by (simp only: power_add)
    then show ?thesis using 4 by (simp add: pow2_def)
  next
    case 5
    then have "nat (- a) = nat (- (a + b)) + nat b" by simp
    then have "(2 :: rat) ^ nat (- a) = 2 ^ nat (- (a + b)) * 2 ^ nat b" by (simp only: power_add)
    then show ?thesis using 5 by (simp add: pow2_def)
  next
    case 6
    then have "nat (- (a + b)) = nat (- a) + nat (- b)" by simp
    then have "(2 :: rat) ^ nat (- (a + b)) = 2 ^ nat (- a) * 2 ^ nat (- b)" by (simp only: power_add)
    then show ?thesis using 6 by (simp add: pow2_def)
  qed (simp add: pow2_def nat_add_distrib power_add)
qed

lemma pow2_mono: "a \<le> b \<Longrightarrow> pow2 a \<le> pow2 b"
proof -
  assume "a \<le> b"
  then have "pow2 b = pow2 a * pow2 (b - a)" "1 \<le> pow2 (b - a)"
    by (simp_all flip: pow2_add) (simp add: pow2_def)
  then show ?thesis using mult_left_mono [of 1 "pow2 (b - a)" "pow2 a"] by (simp add: order_less_imp_le)
qed

lemma pow2_less_cancel: "pow2 a < pow2 b \<Longrightarrow> a < b"
  using pow2_mono [of b a] by (metis not_less)

lemma pow2_nat [simp]: "pow2 (int n) = 2 ^ n"
  by (simp add: pow2_def)

lemma bit_count_bounds:
  "0 < n \<Longrightarrow> 0 < bit_count n \<and> pow2 (bit_count n - 1) \<le> of_int n \<and> of_int n < pow2 (bit_count n)"
proof -
  assume n: "0 < n"
  have "0 < bit_count n" using n bitlen_nonneg [of "n div 2"]
    by (subst bit_count.simps) (simp add: bit_count_bitlen)
  moreover have "2 ^ nat (bit_count n - 1) \<le> n" "n < 2 ^ nat (bit_count n)"
    using bitlen_bounds [OF n] by (simp_all add: bit_count_bitlen)
  then have "(of_int (2 ^ nat (bit_count n - 1)) :: rat) \<le> of_int n" "(of_int n :: rat) < of_int (2 ^ nat (bit_count n))"
    by (simp_all only: of_int_le_iff of_int_less_iff)
  ultimately show ?thesis by (simp add: pow2_def)
qed

lemma leading_bounds:
  assumes "x \<noteq> 0"
  shows "pow2 (leading x) \<le> \<bar>x\<bar>" and "\<bar>x\<bar> < pow2 (leading x + 1)"
proof -
  obtain n d where q: "quotient_of \<bar>x\<bar> = (n, d)" by fastforce
  have d: "0 < d" using quotient_of_denom_pos [OF q] .
  have x: "\<bar>x\<bar> = of_int n / of_int d" using quotient_of_div [OF q] .
  have "0 < \<bar>x\<bar>" using assms by simp
  then have n: "0 < n" unfolding x using d by (simp add: zero_less_divide_iff)
  let ?k = "bit_count n - bit_count d"
  note bn = bit_count_bounds [OF n] and bd = bit_count_bounds [OF d]
  have up: "\<bar>x\<bar> < pow2 (?k + 1)"
  proof -
    have "of_int n < pow2 (?k + 1) * pow2 (bit_count d - 1)" using bn by (simp flip: pow2_add)
    also have "\<dots> \<le> pow2 (?k + 1) * of_int d" using bd by (intro mult_left_mono) (auto simp: order_less_imp_le)
    finally show ?thesis unfolding x using d by (simp add: pos_divide_less_eq)
  qed
  have low: "pow2 (?k - 1) \<le> \<bar>x\<bar>"
  proof -
    have "pow2 (?k - 1) * of_int d \<le> pow2 (?k - 1) * pow2 (bit_count d)"
      using bd by (intro mult_left_mono) (auto simp: order_less_imp_le)
    also have "\<dots> = pow2 (bit_count n - 1)" by (simp flip: pow2_add add: algebra_simps)
    also have "\<dots> \<le> of_int n" using bn by simp
    finally show ?thesis unfolding x using d by (simp add: pos_le_divide_eq)
  qed
  show "pow2 (leading x) \<le> \<bar>x\<bar>" "\<bar>x\<bar> < pow2 (leading x + 1)"
    using low up by (auto simp: leading_def q Let_def not_le)
qed

lemma half_even_of_int [simp]: "half_even (of_int i) = i"
  by (simp add: half_even_def)

text \<open>A number of at most \<open>p\<close> significant bits is its own rounding.\<close>

lemma fround_exact:
  assumes "\<bar>m\<bar> < 2 ^ nat p" and "emin \<le> e" and "0 \<le> p" and "p + e \<le> emax" and "m \<noteq> 0"
  shows "fround (p, emin, emax) (of_int m * pow2 e) = Num (of_int m * pow2 e)"
proof -
  let ?x = "of_int m * pow2 e"
  have x0: "?x \<noteq> 0" using assms(5) by (simp add: less_imp_neq [OF pow2_pos, symmetric])
  have "\<bar>of_int m :: rat\<bar> < of_int (2 ^ nat p)" using assms(1) by (simp only: of_int_less_iff flip: of_int_abs)
  then have m: "\<bar>of_int m\<bar> < pow2 p" using assms(3) by (simp add: pow2_def)
  have ax: "\<bar>?x\<bar> < pow2 (p + e)" using m by (simp add: abs_mult pow2_add order_less_imp_le)
  then have "pow2 (leading ?x) < pow2 (p + e)" using leading_bounds(1) [OF x0] by simp
  then have "leading ?x < p + e" by (rule pow2_less_cancel)
  define q where "q = max emin (leading ?x - p + 1)"
  have q: "q \<le> e" unfolding q_def using \<open>leading ?x < p + e\<close> assms(2) by simp
  have u: "ulp (p, emin, emax) ?x = pow2 q" by (simp add: ulp_def q_def)
  have "?x / pow2 q = of_int m * pow2 (e - q)" by (simp add: field_simps less_imp_neq [OF pow2_pos, symmetric] flip: pow2_add)
  also have "pow2 (e - q) = of_int (2 ^ nat (e - q))" using q by (simp add: pow2_def)
  finally have d: "?x / pow2 q = of_int (m * 2 ^ nat (e - q))" by simp
  have v: "of_int (half_even (?x / pow2 q)) * pow2 q = ?x"
    unfolding d half_even_of_int by (subst d [symmetric]) (simp add: less_imp_neq [OF pow2_pos, symmetric])
  have big: "\<not> pow2 emax \<le> \<bar>?x\<bar>" using ax pow2_mono [OF assms(4)] by linarith
  show ?thesis
    unfolding fround_def Let_def u v using x0 big by simp
qed

lemma fround_zero [simp]: "fround f 0 = Num 0"
  by (simp add: fround_def)

lemma fround_single_int [simp]: "\<bar>i\<bar> < 2 ^ 24 \<Longrightarrow> fround single (of_int i) = Num (of_int i)"
  using fround_exact [of i 24 "-149" 0 128] by (cases "i = 0") (simp_all add: single_def pow2_def)

lemma fround_double_int [simp]: "\<bar>i\<bar> < 2 ^ 53 \<Longrightarrow> fround double (of_int i) = Num (of_int i)"
  using fround_exact [of i 53 "-1074" 0 1024] by (cases "i = 0") (simp_all add: double_def pow2_def)

end
