(* ===== verification/Geometry.thy ===== *)
theory Geometry
  imports Floating
begin

text \<open>
  Rectangles and what is computed on them: \<open>viewport.cpp\<close> (the scroll position of a page),
  \<open>geometry.hpp\<close>/\<open>geometry.cpp\<close> (rounded rectangles) and \<open>clip.cpp\<close> (the clip stack of the
  painter), all in \<open>float\<close>.
\<close>

section \<open>Single precision\<close>

abbreviation add32 :: "fp \<Rightarrow> fp \<Rightarrow> fp" where "add32 \<equiv> fadd single"
abbreviation sub32 :: "fp \<Rightarrow> fp \<Rightarrow> fp" where "sub32 \<equiv> fsub single"
abbreviation mul32 :: "fp \<Rightarrow> fp \<Rightarrow> fp" where "mul32 \<equiv> fmul single"
abbreviation div32 :: "fp \<Rightarrow> fp \<Rightarrow> fp" where "div32 \<equiv> fdiv single"

text \<open>A \<open>float\<close> literal of the sources.\<close>

abbreviation lit32 :: "rat \<Rightarrow> fp" where "lit32 \<equiv> fround single"

record layout_rect =
  rect_x :: fp
  rect_y :: fp
  rect_width :: fp
  rect_height :: fp

definition mk_rect :: "fp \<Rightarrow> fp \<Rightarrow> fp \<Rightarrow> fp \<Rightarrow> layout_rect" where
  "mk_rect x y w h = \<lparr> rect_x = x, rect_y = y, rect_width = w, rect_height = h \<rparr>"

definition zero_rect :: layout_rect where
  "zero_rect = mk_rect (Num 0) (Num 0) (Num 0) (Num 0)"

definition right_edge :: "layout_rect \<Rightarrow> fp" where
  "right_edge r = add32 (rect_x r) (rect_width r)"

definition bottom_edge :: "layout_rect \<Rightarrow> fp" where
  "bottom_edge r = add32 (rect_y r) (rect_height r)"


section \<open>The viewport\<close>

record viewport =
  vp_width :: fp
  vp_height :: fp
  document_width :: fp
  document_height :: fp
  scroll_x :: fp
  scroll_y :: fp

definition new_viewport :: viewport where
  "new_viewport = \<lparr> vp_width = Num 0, vp_height = Num 0, document_width = Num 0, document_height = Num 0,
     scroll_x = Num 0, scroll_y = Num 0 \<rparr>"

definition scroll_limit :: "fp \<Rightarrow> fp \<Rightarrow> fp" where
  "scroll_limit doc view = fmax (Num 0) (sub32 doc view)"

definition clamp_scroll :: "viewport \<Rightarrow> viewport" where
  "clamp_scroll v =
     v\<lparr> scroll_x := fclamp (scroll_x v) (Num 0) (scroll_limit (document_width v) (vp_width v)),
        scroll_y := fclamp (scroll_y v) (Num 0) (scroll_limit (document_height v) (vp_height v)) \<rparr>"

definition set_size :: "fp \<Rightarrow> fp \<Rightarrow> viewport \<Rightarrow> viewport" where
  "set_size w h v = clamp_scroll (v\<lparr> vp_width := fmax (Num 0) w, vp_height := fmax (Num 0) h \<rparr>)"

definition set_document_size :: "fp \<Rightarrow> fp \<Rightarrow> viewport \<Rightarrow> viewport" where
  "set_document_size w h v = clamp_scroll (v\<lparr> document_width := fmax (Num 0) w, document_height := fmax (Num 0) h \<rparr>)"

definition scroll_to :: "fp \<Rightarrow> fp \<Rightarrow> viewport \<Rightarrow> viewport" where
  "scroll_to x y v = clamp_scroll (v\<lparr> scroll_x := x, scroll_y := y \<rparr>)"

definition scroll_by :: "fp \<Rightarrow> fp \<Rightarrow> viewport \<Rightarrow> viewport" where
  "scroll_by dx dy v = scroll_to (add32 (scroll_x v) dx) (add32 (scroll_y v) dy) v"

definition to_document_coordinates :: "viewport \<Rightarrow> fp \<Rightarrow> fp \<Rightarrow> fp \<times> fp" where
  "to_document_coordinates v x y = (add32 x (scroll_x v), add32 y (scroll_y v))"

text \<open>The scroll position never shows anything outside the page, unless it is not a number at all:
  \<open>std::clamp\<close> lets a NaN through.\<close>

definition scroll_ok :: "viewport \<Rightarrow> bool" where
  "scroll_ok v \<longleftrightarrow>
     (is_nan (scroll_x v) \<or> fle (Num 0) (scroll_x v) \<and> fle (scroll_x v) (scroll_limit (document_width v) (vp_width v))) \<and>
     (is_nan (scroll_y v) \<or> fle (Num 0) (scroll_y v) \<and> fle (scroll_y v) (scroll_limit (document_height v) (vp_height v)))"

lemma scroll_limit_ge: "fle (Num 0) (scroll_limit d w)"
  by (simp add: scroll_limit_def fmax_zero_ge)

lemma fclamp_nan [simp]: "fclamp NotANumber lo hi = NotANumber"
  by (simp add: fclamp_def fless_def)

lemma clamp_scroll_ok: "scroll_ok (clamp_scroll v)"
proof -
  have "is_nan (fclamp s (Num 0) (scroll_limit d w)) \<or>
      fle (Num 0) (fclamp s (Num 0) (scroll_limit d w)) \<and> fle (fclamp s (Num 0) (scroll_limit d w)) (scroll_limit d w)" for s d w
    using fclamp_bounds [OF _ scroll_limit_ge, of s d w] by (cases "s = NotANumber") (auto simp: is_nan_def)
  then show ?thesis by (simp add: scroll_ok_def clamp_scroll_def)
qed

lemma viewport_operations_ok [intro]:
  "scroll_ok (set_size w h v)" "scroll_ok (set_document_size w h v)" "scroll_ok (scroll_to x y v)" "scroll_ok (scroll_by x y v)"
  by (simp_all add: set_size_def set_document_size_def scroll_by_def scroll_to_def clamp_scroll_ok)

lemma new_viewport_ok: "scroll_ok new_viewport"
  by (simp add: scroll_ok_def new_viewport_def scroll_limit_def fmax_def fle_def feq_def fless_def fsub_def
      fneg_def fadd_def is_inf_def fvalue_def)


section \<open>Rounded rectangles\<close>

record rounded_rect =
  rr_rect :: layout_rect
  rr_radius :: fp

definition normalized :: "rounded_rect \<Rightarrow> rounded_rect" where
  "normalized r =
     r\<lparr> rr_radius := fclamp (rr_radius r) (Num 0) (mul32 (fmin (rect_width (rr_rect r)) (rect_height (rr_rect r))) (lit32 (1 / 2))) \<rparr>"

text \<open>The guard of \<open>RoundedRect::contains\<close>: the point is past none of the four edges.\<close>

definition inside_rect :: "layout_rect \<Rightarrow> fp \<Rightarrow> fp \<Rightarrow> bool" where
  "inside_rect r x y \<longleftrightarrow> \<not> (fless x (rect_x r) \<or> fless y (rect_y r) \<or> fle (right_edge r) x \<or> fle (bottom_edge r) y)"

definition rounded_contains :: "rounded_rect \<Rightarrow> fp \<Rightarrow> fp \<Rightarrow> bool" where
  "rounded_contains rr x y =
     (let v = normalized rr; r = rr_rect v; radius = rr_radius v in
      if \<not> inside_rect r x y then False
      else if fle radius (Num 0) then True
      else
        let cx = fclamp x (add32 (rect_x r) radius) (sub32 (right_edge r) radius);
            cy = fclamp y (add32 (rect_y r) radius) (sub32 (bottom_edge r) radius);
            dx = sub32 x cx; dy = sub32 y cy
        in fle (add32 (mul32 dx dx) (mul32 dy dy)) (mul32 radius radius))"

definition intersect_rect :: "layout_rect \<Rightarrow> layout_rect \<Rightarrow> layout_rect" where
  "intersect_rect a b =
     (let l = fmax (rect_x a) (rect_x b); t = fmax (rect_y a) (rect_y b);
          r = fmin (right_edge a) (right_edge b); bt = fmin (bottom_edge a) (bottom_edge b)
      in if fle r l \<or> fle bt t then zero_rect else mk_rect l t (sub32 r l) (sub32 bt t))"


section \<open>The clip stack\<close>

type_synonym clip_stack = "rounded_rect list"

definition clip_current :: "clip_stack \<Rightarrow> rounded_rect option" where
  "clip_current s = (if s = [] then None else Some (last s))"

definition clip_push :: "layout_rect \<Rightarrow> fp \<Rightarrow> clip_stack \<Rightarrow> clip_stack" where
  "clip_push rect radius s =
     (let entry = (case clip_current s of
            None \<Rightarrow> \<lparr> rr_rect = rect, rr_radius = radius \<rparr>
          | Some parent \<Rightarrow> \<lparr> rr_rect = intersect_rect (rr_rect parent) rect, rr_radius = fmin (rr_radius parent) radius \<rparr>)
      in s @ [normalized entry])"

definition clip_pop :: "clip_stack \<Rightarrow> clip_stack" where
  "clip_pop s = (if s = [] then s else butlast s)"

text \<open>A pop undoes the push.\<close>

lemma clip_pop_push [simp]: "clip_pop (clip_push r radius s) = s"
  by (simp add: clip_pop_def clip_push_def Let_def)

lemma clip_current_push: "clip_current (clip_push r radius s) \<noteq> None"
  by (simp add: clip_current_def clip_push_def Let_def)



section \<open>Clipping on the pixel grid\<close>

text \<open>Whole numbers in the range of a screen are exact in \<open>float\<close>, and so is what the clip stack
  computes from them.\<close>

definition pixel :: "int \<Rightarrow> fp" where
  "pixel i = Num (of_int i)"

definition pixel_rect :: "int \<times> int \<times> int \<times> int \<Rightarrow> layout_rect" where
  "pixel_rect = (\<lambda>(l, t, w, h). mk_rect (pixel l) (pixel t) (pixel w) (pixel h))"

definition on_screen :: "int \<times> int \<times> int \<times> int \<Rightarrow> bool" where
  "on_screen = (\<lambda>(l, t, w, h). 0 \<le> w \<and> 0 \<le> h \<and> -4194304 \<le> l \<and> l + w \<le> 4194304 \<and> -4194304 \<le> t \<and> t + h \<le> 4194304)"

definition covers :: "int \<Rightarrow> int \<Rightarrow> int \<times> int \<times> int \<times> int \<Rightarrow> bool" where
  "covers x y = (\<lambda>(l, t, w, h). l \<le> x \<and> x < l + w \<and> t \<le> y \<and> y < t + h)"

definition push_all :: "(int \<times> int \<times> int \<times> int) list \<Rightarrow> clip_stack" where
  "push_all rs = fold (\<lambda>r s. clip_push (pixel_rect r) (pixel 0) s) rs []"

lemma pixel_add: "\<bar>a + b\<bar> < 2 ^ 24 \<Longrightarrow> add32 (pixel a) (pixel b) = pixel (a + b)"
  using fround_single_int [of "a + b"] by (simp add: pixel_def fadd_def is_inf_def fvalue_def)

lemma pixel_sub: "\<bar>a - b\<bar> < 2 ^ 24 \<Longrightarrow> sub32 (pixel a) (pixel b) = pixel (a - b)"
  using fround_single_int [of "a - b"]
  by (auto simp: pixel_def fsub_def fneg_def fadd_def is_inf_def fvalue_def)

lemma pixel_less [simp]: "fless (pixel a) (pixel b) \<longleftrightarrow> a < b" "fle (pixel a) (pixel b) \<longleftrightarrow> a \<le> b"
  by (auto simp: pixel_def fle_def fless_def feq_def is_inf_def fvalue_def)

lemma pixel_max [simp]: "fmax (pixel a) (pixel b) = pixel (max a b)" "fmin (pixel a) (pixel b) = pixel (min a b)"
  by (auto simp: fmax_def fmin_def max_def min_def)

lemma half_nonneg: "0 \<le> m \<Longrightarrow> m < 2 ^ 24 \<Longrightarrow> \<not> fless (mul32 (pixel m) (lit32 (1 / 2))) (pixel 0)"
proof -
  assume m: "0 \<le> m" "m < 2 ^ 24"
  have h: "lit32 (1 / 2) = Num (1 / 2)"
    using fround_exact [of 1 24 "-149" "-1" 128] by (simp add: single_def pow2_def)
  show ?thesis
  proof (cases "m = 0")
    case False
    then have "fround single (of_int m * (1 / 2)) = Num (of_int m * (1 / 2))"
      using fround_exact [of m 24 "-149" "-1" 128] m by (simp add: single_def pow2_def)
    then have "mul32 (pixel m) (Num (1 / 2)) = Num (of_int m * (1 / 2))" using False
      by (simp add: fmul_def pixel_def is_inf_def is_zero_def fvalue_def)
    then show ?thesis unfolding h using m by (simp add: pixel_def is_inf_def fvalue_def fless_def)
  qed (simp add: h fmul_def pixel_def is_inf_def is_zero_def fvalue_def fless_def signed_zero_def negative_def)
qed

lemma normalized_pixel:
  assumes "on_screen r"
  shows "normalized \<lparr> rr_rect = pixel_rect r, rr_radius = pixel 0 \<rparr> = \<lparr> rr_rect = pixel_rect r, rr_radius = pixel 0 \<rparr>"
proof -
  obtain l t w h where r: "r = (l, t, w, h)" by (cases r)
  have "\<not> fless (mul32 (pixel (min w h)) (lit32 (1 / 2))) (pixel 0)"
    by (rule half_nonneg) (use assms r in \<open>auto simp: on_screen_def\<close>)
  moreover have "\<not> fless (pixel 0) (pixel 0)" "Num 0 = pixel 0" by (simp, simp add: pixel_def)
  ultimately show ?thesis
    by (simp add: normalized_def r pixel_rect_def mk_rect_def fclamp_def)
qed

lemma edges_pixel:
  "on_screen (l, t, w, h) \<Longrightarrow> right_edge (pixel_rect (l, t, w, h)) = pixel (l + w)"
  "on_screen (l, t, w, h) \<Longrightarrow> bottom_edge (pixel_rect (l, t, w, h)) = pixel (t + h)"
  by (simp_all add: right_edge_def bottom_edge_def pixel_rect_def mk_rect_def) (auto simp: on_screen_def intro!: pixel_add)

lemma intersect_pixel:
  assumes "on_screen a" and "on_screen b"
  obtains c where "intersect_rect (pixel_rect a) (pixel_rect b) = pixel_rect c" "on_screen c"
    "\<And>x y. covers x y c \<longleftrightarrow> covers x y a \<and> covers x y b"
proof -
  obtain l t w h l' t' w' h' where r: "a = (l, t, w, h)" "b = (l', t', w', h')" by (cases a, cases b)
  note s = assms [unfolded r]
  let ?L = "max l l'" and ?T = "max t t'" and ?R = "min (l + w) (l' + w')" and ?B = "min (t + h) (t' + h')"
  have i: "intersect_rect (pixel_rect a) (pixel_rect b) =
      (if ?R \<le> ?L \<or> ?B \<le> ?T then zero_rect else mk_rect (pixel ?L) (pixel ?T) (sub32 (pixel ?R) (pixel ?L)) (sub32 (pixel ?B) (pixel ?T)))"
    unfolding intersect_rect_def r edges_pixel [OF s(1)] edges_pixel [OF s(2)] Let_def
    by (simp add: pixel_rect_def mk_rect_def)
  show ?thesis
  proof (cases "?R \<le> ?L \<or> ?B \<le> ?T")
    case True
    then have e: "intersect_rect (pixel_rect a) (pixel_rect b) = pixel_rect (0, 0, 0, 0)"
      using i by (simp add: zero_rect_def pixel_rect_def pixel_def)
    show ?thesis by (rule that [OF e]) (use True in \<open>auto simp: on_screen_def covers_def r\<close>)
  next
    case False
    have "sub32 (pixel ?R) (pixel ?L) = pixel (?R - ?L)" "sub32 (pixel ?B) (pixel ?T) = pixel (?B - ?T)"
      using s False by (auto simp: on_screen_def intro!: pixel_sub)
    then have e: "intersect_rect (pixel_rect a) (pixel_rect b) = pixel_rect (?L, ?T, ?R - ?L, ?B - ?T)"
      using i False by (simp add: pixel_rect_def)
    show ?thesis by (rule that [OF e]) (use s False in \<open>auto simp: on_screen_def covers_def r\<close>)
  qed
qed

lemma clip_push_pixel:
  assumes "on_screen r" and "s \<noteq> [] \<longrightarrow> (\<exists>c. clip_current s = Some \<lparr> rr_rect = pixel_rect c, rr_radius = pixel 0 \<rparr> \<and> on_screen c \<and>
      (\<forall>x y. covers x y c \<longleftrightarrow> (\<forall>r \<in> set rs. covers x y r)))" and "s = [] \<longleftrightarrow> rs = []"
  shows "\<exists>c. clip_current (clip_push (pixel_rect r) (pixel 0) s) = Some \<lparr> rr_rect = pixel_rect c, rr_radius = pixel 0 \<rparr> \<and> on_screen c \<and>
      (\<forall>x y. covers x y c \<longleftrightarrow> (\<forall>r \<in> set (rs @ [r]). covers x y r))"
proof (cases "s = []")
  case True
  then show ?thesis using assms(1,3) normalized_pixel [OF assms(1)]
    by (intro exI [of _ r]) (simp add: clip_push_def clip_current_def)
next
  case False
  then obtain c where c: "clip_current s = Some \<lparr> rr_rect = pixel_rect c, rr_radius = pixel 0 \<rparr>" "on_screen c"
    "\<And>x y. covers x y c \<longleftrightarrow> (\<forall>r \<in> set rs. covers x y r)" using assms(2) by blast
  obtain d where d: "intersect_rect (pixel_rect c) (pixel_rect r) = pixel_rect d" "on_screen d"
    "\<And>x y. covers x y d \<longleftrightarrow> covers x y c \<and> covers x y r"
    using intersect_pixel [OF c(2) assms(1)] by blast
  have "clip_current (clip_push (pixel_rect r) (pixel 0) s) = Some \<lparr> rr_rect = pixel_rect d, rr_radius = pixel 0 \<rparr>"
    using normalized_pixel [OF d(2)] by (simp add: clip_push_def clip_current_def [of "_ @ _"] c(1) d(1) Let_def)
  then show ?thesis using d(2,3) c(3) by (intro exI [of _ d]) auto
qed

lemma push_all_current:
  "list_all on_screen rs \<Longrightarrow> rs \<noteq> [] \<Longrightarrow>
    \<exists>c. clip_current (push_all rs) = Some \<lparr> rr_rect = pixel_rect c, rr_radius = pixel 0 \<rparr> \<and> on_screen c \<and>
      (\<forall>x y. covers x y c \<longleftrightarrow> (\<forall>r \<in> set rs. covers x y r))"
proof (induction rs rule: rev_induct)
  case (snoc r rs)
  have n: "push_all rs = [] \<longleftrightarrow> rs = []"
    by (cases rs rule: rev_cases) (simp_all add: push_all_def clip_push_def Let_def)
  have "push_all (rs @ [r]) = clip_push (pixel_rect r) (pixel 0) (push_all rs)" by (simp add: push_all_def)
  then show ?case using clip_push_pixel [OF _ _ n, of r] snoc n by auto
qed simp

lemma pixel_rect_contains:
  "on_screen c \<Longrightarrow> rounded_contains \<lparr> rr_rect = pixel_rect c, rr_radius = pixel 0 \<rparr> (pixel x) (pixel y) \<longleftrightarrow> covers x y c"
proof -
  assume c: "on_screen c"
  obtain l t w h where r: "c = (l, t, w, h)" by (cases c)
  have "fle (pixel 0) (Num 0)" by (simp add: pixel_def)
  then show ?thesis
    unfolding rounded_contains_def normalized_pixel [OF c] Let_def
    using c by (auto simp: inside_rect_def r edges_pixel covers_def) (auto simp: pixel_rect_def mk_rect_def)
qed

text \<open>What the painter may touch.  Whatever rectangles of whole pixels have been pushed, a pixel
  lies in the current clip of the stack exactly when it lies in every one of them: intersecting in
  \<open>float\<close> loses nothing, empty intersections included.\<close>

theorem clip_shows:
  assumes "list_all on_screen rs" and "rs \<noteq> []"
  shows "(case clip_current (push_all rs) of None \<Rightarrow> False | Some c \<Rightarrow> rounded_contains c (pixel x) (pixel y))
    \<longleftrightarrow> list_all (covers x y) rs"
  using push_all_current [OF assms] pixel_rect_contains by (auto simp: list_all_iff)

theorem clip_shows_witness:
  "(case clip_current (push_all [(0, 0, 100, 50), (90, -10, 30, 30)]) of None \<Rightarrow> False
    | Some c \<Rightarrow> rounded_contains c (pixel 95) (pixel 5)) \<longleftrightarrow> True"
  using clip_shows [of "[(0, 0, 100, 50), (90, -10, 30, 30)]" 95 5] by (simp add: on_screen_def covers_def)

end
