(* ===== verification/Dom.thy ===== *)
theory Dom
  imports Prelude "HOL-Library.AList"
begin

text \<open>
  The document tree of \<open>dom.hpp\<close>/\<open>dom.cpp\<close> and \<open>document.cpp\<close>.  A node owns its children
  (\<open>std::vector<std::unique_ptr<DomNode>>\<close>), so the tree is a value of a recursive datatype;
  a \<open>DomNode*\<close> into it is the path of child positions from the root, which stays valid
  because parsing only appends children.  The attribute table (\<open>std::unordered_map\<close>, whose
  iteration order nothing in these files uses) is an association list with
  \<open>insert_or_assign\<close> as \<^const>\<open>AList.update\<close>.
\<close>

datatype dom_node_type = DocumentNode | ElementNode | TextNode | CommentNode | DoctypeNode

datatype dom_node = DomNode
  (node_type: dom_node_type)
  (node_name: string)
  (node_data: string)
  (node_attributes: "(string \<times> string) list")
  (node_children: "dom_node list")

type_synonym node_path = "nat list"

text \<open>The constructors: \<open>DomNode()\<close> and \<open>DomNode(type, name, data)\<close>.\<close>

definition new_document :: dom_node where
  "new_document = DomNode DocumentNode [] [] [] []"

definition new_node :: "dom_node_type \<Rightarrow> string \<Rightarrow> string \<Rightarrow> dom_node" where
  "new_node ty name data = DomNode ty name data [] []"

definition append_child :: "dom_node \<Rightarrow> dom_node \<Rightarrow> dom_node" where
  "append_child parent child =
     DomNode (node_type parent) (node_name parent) (node_data parent) (node_attributes parent)
       (node_children parent @ [child])"

definition first_child :: "dom_node \<Rightarrow> dom_node option" where
  "first_child n = (case node_children n of [] \<Rightarrow> None | c # cs \<Rightarrow> Some c)"

definition attribute :: "dom_node \<Rightarrow> string \<Rightarrow> string option" where
  "attribute n k = map_of (node_attributes n) k"

definition has_attribute :: "dom_node \<Rightarrow> string \<Rightarrow> bool" where
  "has_attribute n k \<longleftrightarrow> attribute n k \<noteq> None"

section \<open>Nodes by path\<close>

fun node_at :: "dom_node \<Rightarrow> node_path \<Rightarrow> dom_node option" where
  "node_at n [] = Some n"
| "node_at n (i # p) =
     (if i < length (node_children n) then node_at (node_children n ! i) p else None)"

fun update_at :: "node_path \<Rightarrow> (dom_node \<Rightarrow> dom_node) \<Rightarrow> dom_node \<Rightarrow> dom_node" where
  "update_at [] f n = f n"
| "update_at (i # p) f n =
     (if i < length (node_children n)
      then DomNode (node_type n) (node_name n) (node_data n) (node_attributes n)
             ((node_children n)[i := update_at p f (node_children n ! i)])
      else n)"

text \<open>The \<open>parent\<close> pointer that \<open>append_child\<close> sets.\<close>

definition parent_path :: "node_path \<Rightarrow> node_path option" where
  "parent_path p = (if p = [] then None else Some (butlast p))"

lemma append_child_sel [simp]:
  "node_type (append_child n c) = node_type n"
  "node_name (append_child n c) = node_name n"
  "node_data (append_child n c) = node_data n"
  "node_attributes (append_child n c) = node_attributes n"
  "node_children (append_child n c) = node_children n @ [c]"
  by (simp_all add: append_child_def)

lemma node_at_append: "node_at n (p @ q) = (case node_at n p of None \<Rightarrow> None | Some m \<Rightarrow> node_at m q)"
  by (induction n p rule: node_at.induct) auto

lemma node_at_snoc:
  "node_at n (p @ [i]) = (case node_at n p of None \<Rightarrow> None
     | Some m \<Rightarrow> if i < length (node_children m) then Some (node_children m ! i) else None)"
  by (simp add: node_at_append split: option.split)

lemma node_at_parent: "node_at n p = Some m \<Longrightarrow> p \<noteq> [] \<Longrightarrow> \<exists>k. node_at n (butlast p) = Some k"
  by (cases p rule: rev_cases) (auto simp: node_at_snoc split: option.splits)

lemma node_at_update_same:
  "node_at n p = Some m \<Longrightarrow> node_at (update_at p f n) p = Some (f m)"
  by (induction p f n rule: update_at.induct) (auto split: if_splits)

text \<open>Appending children keeps every existing node where it was, and its name.\<close>

lemma node_at_append_child_name:
  assumes "node_at n q = Some m"
  shows "\<exists>m'. node_at (update_at p (\<lambda>x. append_child x c) n) q = Some m' \<and> node_name m' = node_name m
    \<and> node_type m' = node_type m"
  using assms
proof (induction n q arbitrary: p rule: node_at.induct)
  case (1 n)
  then show ?case by (cases p) (auto simp: append_child_def)
next
  case (2 n i q)
  show ?case
  proof (cases p)
    case Nil
    then show ?thesis using 2 by (auto simp: nth_append split: if_splits)
  next
    case (Cons j r)
    then show ?thesis using 2 by (cases "i = j") (auto split: if_splits)
  qed
qed

lemma node_at_append_child_new:
  assumes "node_at n p = Some m"
  shows "node_at (update_at p (\<lambda>x. append_child x c) n) (p @ [length (node_children m)]) = Some c"
  using node_at_update_same [OF assms, of "\<lambda>x. append_child x c"] by (simp add: node_at_snoc)

text \<open>Updates below a fixed node compose.\<close>

lemma update_at_compose:
  "node_at n p = Some m \<Longrightarrow> update_at p f (update_at p g n) = update_at p (f \<circ> g) n"
  by (induction p g n rule: update_at.induct) (auto split: if_splits)

lemma update_at_append:
  "node_at n p = Some m \<Longrightarrow> update_at (p @ q) f n = update_at p (update_at q f) n"
  by (induction p f n rule: update_at.induct) (auto split: if_splits)

lemma update_at_cong:
  "node_at n p = Some m \<Longrightarrow> f m = g m \<Longrightarrow> update_at p f n = update_at p g n"
  by (induction p f n rule: update_at.induct) (auto split: if_splits)

text \<open>A property of every node of a tree.\<close>

fun all_nodes :: "(dom_node \<Rightarrow> bool) \<Rightarrow> dom_node \<Rightarrow> bool" where
  "all_nodes P (DomNode ty n d a cs) = (P (DomNode ty n d a cs) \<and> (\<forall>c \<in> set cs. all_nodes P c))"

lemma all_nodes_unfold: "all_nodes P n \<longleftrightarrow> P n \<and> (\<forall>c \<in> set (node_children n). all_nodes P c)"
  by (cases n) simp

lemma all_nodes_update_at:
  assumes "all_nodes P n" and "node_at n p = Some m" and "all_nodes P (f m)"
    and "\<And>ty nm d a cs cs'. P (DomNode ty nm d a cs) \<Longrightarrow> length cs' = length cs \<Longrightarrow> P (DomNode ty nm d a cs')"
  shows "all_nodes P (update_at p f n)"
  using assms(1-3)
proof (induction p f n rule: update_at.induct)
  case (1 f n)
  then show ?case by simp
next
  case (2 i p f n)
  have i: "i < length (node_children n)" using 2 by (auto split: if_splits)
  then have mem: "node_children n ! i \<in> set (node_children n)" by simp
  have "all_nodes P (update_at p f (node_children n ! i))"
    using 2 i mem by (auto simp: all_nodes_unfold [of P n])
  moreover have "P (DomNode (node_type n) (node_name n) (node_data n) (node_attributes n)
      ((node_children n)[i := update_at p f (node_children n ! i)]))"
    using 2(2) assms(4) [of "node_type n" "node_name n" "node_data n" "node_attributes n" "node_children n"]
    by (simp add: all_nodes_unfold [of P n])
  moreover have "\<forall>c \<in> set (node_children n). all_nodes P c"
    using 2(2) all_nodes_unfold [of P n] by simp
  then have "\<forall>c \<in> set ((node_children n)[i := update_at p f (node_children n ! i)]). all_nodes P c"
    using calculation(1) set_update_subset_insert [of "node_children n" i] by blast
  ultimately show ?case using i by simp
qed

lemma all_nodes_node_at: "all_nodes P n \<Longrightarrow> node_at n p = Some m \<Longrightarrow> all_nodes P m"
proof (induction n p rule: node_at.induct)
  case (1 n)
  then show ?case by simp
next
  case (2 n i p)
  then have "all_nodes P (node_children n ! i)"
    using all_nodes_unfold [of P n] by (auto split: if_splits)
  then show ?case using 2 by (auto split: if_splits)
qed

end
