(* ===== verification/Visual_State.thy ===== *)
theory Visual_State
  imports Dom
begin

text \<open>
  \<open>visual_state.hpp\<close>/\<open>visual_state.cpp\<close>: which node the pointer hovers over, which is
  pressed and which has the focus, with the generation counter and the dirty flags that
  tell the host when to lay out and paint again.  A node pointer is a path, or
  \<^term>\<open>None\<close> for \<open>nullptr\<close>; the counter is a \<open>size_t\<close>.
\<close>

type_synonym size_t = "64 word"

record visual_state =
  hovered :: "node_path option"
  active :: "node_path option"
  focused :: "node_path option"
  generation :: size_t
  layout_dirty :: bool
  paint_dirty :: bool

definition new_visual_state :: visual_state where
  "new_visual_state = \<lparr> hovered = None, active = None, focused = None, generation = 0,
     layout_dirty = False, paint_dirty = False \<rparr>"

text \<open>\<open>set_node(slot, value, state)\<close>, with the slot given by its getter and its update.\<close>

definition set_node ::
  "(visual_state \<Rightarrow> node_path option) \<Rightarrow> (node_path option \<Rightarrow> visual_state \<Rightarrow> visual_state)
    \<Rightarrow> node_path option \<Rightarrow> visual_state \<Rightarrow> bool \<times> visual_state" where
  "set_node slot assign v st =
     (if slot st = v then (False, st)
      else (True, (assign v st)\<lparr> generation := generation st + 1, paint_dirty := True \<rparr>))"

definition set_hovered :: "node_path option \<Rightarrow> visual_state \<Rightarrow> bool \<times> visual_state" where
  "set_hovered n st = set_node hovered (\<lambda>v s. s\<lparr> hovered := v \<rparr>) n st"

definition set_active :: "node_path option \<Rightarrow> visual_state \<Rightarrow> bool \<times> visual_state" where
  "set_active n st = set_node active (\<lambda>v s. s\<lparr> active := v \<rparr>) n st"

definition set_focused :: "node_path option \<Rightarrow> visual_state \<Rightarrow> bool \<times> visual_state" where
  "set_focused n st = set_node focused (\<lambda>v s. s\<lparr> focused := v \<rparr>) n st"

definition mark_layout_dirty :: "visual_state \<Rightarrow> visual_state" where
  "mark_layout_dirty st =
     st\<lparr> layout_dirty := True, paint_dirty := True, generation := generation st + 1 \<rparr>"

definition consume_layout_dirty :: "visual_state \<Rightarrow> bool \<times> visual_state" where
  "consume_layout_dirty st = (layout_dirty st, st\<lparr> layout_dirty := False \<rparr>)"

definition consume_paint_dirty :: "visual_state \<Rightarrow> bool \<times> visual_state" where
  "consume_paint_dirty st = (paint_dirty st, st\<lparr> paint_dirty := False \<rparr>)"

text \<open>A setter reports a change exactly when there is one; then the generation moves on and
  the page is marked for painting.\<close>

lemma set_hovered_changes:
  "fst (set_hovered n st) \<longleftrightarrow> hovered st \<noteq> n"
  "hovered (snd (set_hovered n st)) = n"
  "fst (set_hovered n st) \<Longrightarrow> paint_dirty (snd (set_hovered n st))"
  "fst (set_hovered n st) \<Longrightarrow> generation (snd (set_hovered n st)) = generation st + 1"
  "focused (snd (set_hovered n st)) = focused st"
  by (auto simp: set_hovered_def set_node_def)

lemma set_focused_changes:
  "fst (set_focused n st) \<longleftrightarrow> focused st \<noteq> n"
  "focused (snd (set_focused n st)) = n"
  by (auto simp: set_focused_def set_node_def)

end
