(* ===== verification/Scan.thy ===== *)
theory Scan
  imports Prelude
begin

text \<open>
  The character cursor that both tokenizers of the engine are written over.  The classes
  \<open>HtmlTokenizer\<close> and \<open>CssTokenizer\<close> each keep their own position, line and column and
  their own \<open>consume\<close>; the interface \<open>scanner\<close> states what their loops rely on, and the
  lemmas on those loops are proved once from it: a loop consumes exactly the characters it
  collects, and the place it ends at is the place of the text consumed.
\<close>

text \<open>Line and column after one character, and after a text.\<close>

fun next_place :: "char \<Rightarrow> nat \<times> nat \<Rightarrow> nat \<times> nat" where
  "next_place c (l, k) = (if ascii c = 10 then (Suc l, 1) else (l, Suc k))"

definition place_after :: "string \<Rightarrow> nat \<times> nat \<Rightarrow> nat \<times> nat" where
  "place_after u p = fold next_place u p"

lemma place_after_simps [simp]:
  "place_after [] p = p"
  "place_after (c # u) p = place_after u (next_place c p)"
  "place_after (u @ v) p = place_after v (place_after u p)"
  by (simp_all add: place_after_def)

lemma place_after_line: "fst (place_after u p) = fst p + length (filter (\<lambda>c. ascii c = 10) u)"
  by (induction u arbitrary: p) (auto split: if_splits)

lemma place_after_column_same_line:
  "\<forall>c \<in> set u. ascii c \<noteq> 10 \<Longrightarrow> snd (place_after u p) = snd p + length u"
proof (induction u arbitrary: p)
  case Nil
  then show ?case by simp
next
  case (Cons c u)
  then show ?case by (cases p) simp
qed

locale scanner =
  fixes rest :: "'s \<Rightarrow> string"
    and place :: "'s \<Rightarrow> nat \<times> nat"
    and consume :: "'s \<Rightarrow> 's"
    and skip_while :: "('s \<Rightarrow> bool) \<Rightarrow> 's \<Rightarrow> 's"
    and take_while :: "('s \<Rightarrow> bool) \<Rightarrow> 's \<Rightarrow> string \<times> 's"
  assumes consume_end: "rest s = [] \<Longrightarrow> consume s = s"
    and consume_rest: "rest s = c # cs \<Longrightarrow> rest (consume s) = cs"
    and consume_place: "rest s = c # cs \<Longrightarrow> place (consume s) = next_place c (place s)"
    and skip_stop: "rest s = [] \<or> \<not> P s \<Longrightarrow> skip_while P s = s"
    and skip_go: "rest s \<noteq> [] \<Longrightarrow> P s \<Longrightarrow> skip_while P s = skip_while P (consume s)"
    and take_stop: "rest s = [] \<or> \<not> P s \<Longrightarrow> take_while P s = ([], s)"
    and take_go: "rest s \<noteq> [] \<Longrightarrow> P s \<Longrightarrow>
      take_while P s = (hd (rest s) # fst (take_while P (consume s)), snd (take_while P (consume s)))"
begin

text \<open>\<open>reaches s u t\<close>: consuming the text \<open>u\<close> leads from \<open>s\<close> to \<open>t\<close>.\<close>

inductive reaches :: "'s \<Rightarrow> string \<Rightarrow> 's \<Rightarrow> bool" where
  reaches_refl: "reaches s [] s"
| reaches_step: "rest s = c # cs \<Longrightarrow> reaches (consume s) u t \<Longrightarrow> reaches s (c # u) t"

lemma reaches_rest: "reaches s u t \<Longrightarrow> rest s = u @ rest t"
  by (induction rule: reaches.induct) (auto simp: consume_rest)

lemma reaches_place: "reaches s u t \<Longrightarrow> place t = place_after u (place s)"
  by (induction rule: reaches.induct) (auto simp: consume_place)

lemma reaches_trans: "reaches s u t \<Longrightarrow> reaches t v w \<Longrightarrow> reaches s (u @ v) w"
  by (induction rule: reaches.induct) (auto intro: reaches_step)

lemma reaches_consume: "reaches s (take 1 (rest s)) (consume s)"
  by (cases "rest s") (auto simp: consume_end intro: reaches_refl reaches_step)

lemma reaches_consume_Cons: "rest s = c # cs \<Longrightarrow> reaches s [c] (consume s)"
  by (auto intro: reaches_step reaches_refl)

lemma reaches_take_while: "reaches s (fst (take_while P s)) (snd (take_while P s))"
proof (induction "rest s" arbitrary: s)
  case Nil
  then show ?case by (simp add: take_stop reaches_refl)
next
  case (Cons c cs)
  show ?case
  proof (cases "P s")
    case True
    have "reaches (consume s) (fst (take_while P (consume s))) (snd (take_while P (consume s)))"
      by (rule Cons.hyps(1)) (simp add: consume_rest [OF Cons.hyps(2) [symmetric]])
    then show ?thesis using True Cons.hyps(2) [symmetric]
      by (simp add: take_go reaches_step)
  next
    case False
    then show ?thesis by (simp add: take_stop reaches_refl)
  qed
qed

lemma skip_while_take: "skip_while P s = snd (take_while P s)"
proof (induction "rest s" arbitrary: s)
  case Nil
  then show ?case by (simp add: take_stop skip_stop)
next
  case (Cons c cs)
  show ?case
  proof (cases "P s")
    case True
    have "skip_while P (consume s) = snd (take_while P (consume s))"
      by (rule Cons.hyps(1)) (simp add: consume_rest [OF Cons.hyps(2) [symmetric]])
    then show ?thesis using True Cons.hyps(2) [symmetric] by (simp add: take_go skip_go)
  next
    case False
    then show ?thesis by (simp add: take_stop skip_stop)
  qed
qed

lemma reaches_skip_while: "reaches s (fst (take_while P s)) (skip_while P s)"
  by (simp add: skip_while_take reaches_take_while)

lemma take_while_lossless: "rest s = fst (take_while P s) @ rest (snd (take_while P s))"
  by (rule reaches_rest [OF reaches_take_while])

lemma take_while_ends: "rest (snd (take_while P s)) = [] \<or> \<not> P (snd (take_while P s))"
proof (induction "rest s" arbitrary: s)
  case Nil
  then show ?case by (simp add: take_stop)
next
  case (Cons c cs)
  show ?case
  proof (cases "P s")
    case True
    have "rest (snd (take_while P (consume s))) = [] \<or> \<not> P (snd (take_while P (consume s)))"
      by (rule Cons.hyps(1)) (simp add: consume_rest [OF Cons.hyps(2) [symmetric]])
    then show ?thesis using True Cons.hyps(2) [symmetric] by (simp add: take_go)
  next
    case False
    then show ?thesis by (simp add: take_stop)
  qed
qed

text \<open>When the test only looks at the next character, the loop is \<^const>\<open>takeWhile\<close>.\<close>

lemma take_while_chars:
  assumes "\<And>t c cs. rest t = c # cs \<Longrightarrow> P t = Q c"
  shows "fst (take_while P s) = takeWhile Q (rest s)"
    and "rest (snd (take_while P s)) = dropWhile Q (rest s)"
proof (induction "rest s" arbitrary: s)
  case Nil
  {
    case 1
    then show ?case using Nil by (simp add: take_stop)
  next
    case 2
    then show ?case using Nil by (simp add: take_stop)
  }
next
  case (Cons c cs)
  have r: "rest s = c # cs" by (rule Cons.hyps(3) [symmetric])
  have n: "cs = rest (consume s)" by (simp add: consume_rest [OF r])
  have q: "P s = Q c" by (rule assms [OF r])
  {
    case 1
    then show ?case using r q n Cons.hyps(1) [OF n]
      by (cases "Q c") (simp_all add: take_stop take_go)
  next
    case 2
    then show ?case using r q n Cons.hyps(2) [OF n]
      by (cases "Q c") (simp_all add: take_stop take_go)
  }
qed

lemma take_while_text:
  assumes "\<And>t c cs. rest t = c # cs \<Longrightarrow> P t = Q c"
    and "rest s = u @ v" and "\<forall>c \<in> set u. Q c" and "v = [] \<or> \<not> Q (hd v)"
  shows "fst (take_while P s) = u \<and> rest (snd (take_while P s)) = v"
proof -
  have "takeWhile Q (u @ v) = u \<and> dropWhile Q (u @ v) = v"
    using assms(3,4) by (cases v) auto
  then show ?thesis
    using take_while_chars [where P = P and Q = Q and s = s, OF assms(1)] assms(2) by simp
qed

end

end
