(* ===== verification/Css_Tokenizer.thy ===== *)
theory Css_Tokenizer
  imports Scan
begin

text \<open>
  \<open>css_tokenizer.hpp\<close> and \<open>css_tokenizer.cpp\<close>.  The class keeps its own cursor; it is a
  second instance of the \<open>scanner\<close> interface.  The body of the loop of \<open>tokenize\<close> is
  \<open>css_step\<close>, the loop itself \<open>css_tokens\<close>.
\<close>

datatype css_token_type = Identifier | StringToken | Number | Colon | Semicolon | Comma
  | OpenBrace | CloseBrace | OpenParen | CloseParen | ChildCombinator | UniversalSelector
  | Delimiter | Whitespace | EndOfFile

record css_token =
  ctok_type :: css_token_type
  ctok_value :: string
  ctok_line :: nat
  ctok_column :: nat

record css_tokenizer =
  css_input :: string
  css_position :: nat
  css_line :: nat
  css_column :: nat

definition new_css_tokenizer :: "string \<Rightarrow> css_tokenizer" where
  "new_css_tokenizer input = \<lparr> css_input = input, css_position = 0, css_line = 1, css_column = 1 \<rparr>"

section \<open>Character classes\<close>

definition css_is_whitespace :: "char \<Rightarrow> bool" where
  "css_is_whitespace c \<longleftrightarrow> c = CHR '' '' \<or> c = CHR 0x09 \<or> c = CHR 0x0A \<or> c = CHR 0x0D \<or> c = CHR 0x0C"

definition is_identifier_start :: "char \<Rightarrow> bool" where
  "is_identifier_start c \<longleftrightarrow> (97 \<le> ascii c \<and> ascii c \<le> 122) \<or> (65 \<le> ascii c \<and> ascii c \<le> 90)
     \<or> c = CHR ''_'' \<or> c = CHR ''-'' \<or> c = CHR ''#'' \<or> c = CHR ''.''"

definition is_identifier_char :: "char \<Rightarrow> bool" where
  "is_identifier_char c \<longleftrightarrow> is_identifier_start c \<or> (48 \<le> ascii c \<and> ascii c \<le> 57)"

definition css_digit :: "char \<Rightarrow> bool" where
  "css_digit c \<longleftrightarrow> 48 \<le> ascii c \<and> ascii c \<le> 57"

section \<open>The cursor\<close>

definition css_eof :: "css_tokenizer \<Rightarrow> bool" where
  "css_eof s \<longleftrightarrow> length (css_input s) \<le> css_position s"

definition css_peek :: "css_tokenizer \<Rightarrow> nat \<Rightarrow> char" where
  "css_peek s offset =
     (let position = css_position s + offset
      in if position < length (css_input s) then css_input s ! position else CHR 0x00)"

definition css_consume :: "css_tokenizer \<Rightarrow> css_tokenizer" where
  "css_consume s =
     (if css_eof s then s
      else let s' = (if css_input s ! css_position s = CHR 0x0A
                     then s\<lparr> css_line := Suc (css_line s), css_column := 1 \<rparr>
                     else s\<lparr> css_column := Suc (css_column s) \<rparr>)
           in s'\<lparr> css_position := Suc (css_position s) \<rparr>)"

definition css_rest :: "css_tokenizer \<Rightarrow> string" where
  "css_rest s = drop (css_position s) (css_input s)"

definition css_place :: "css_tokenizer \<Rightarrow> nat \<times> nat" where
  "css_place s = (css_line s, css_column s)"

lemma css_eof_rest: "css_eof s \<longleftrightarrow> css_rest s = []"
  by (simp add: css_eof_def css_rest_def)

lemma css_peek_rest: "css_peek s n = (if n < length (css_rest s) then css_rest s ! n else CHR 0x00)"
  by (auto simp: css_peek_def css_rest_def Let_def)

lemma css_peek_0 [simp]: "css_rest s = c # cs \<Longrightarrow> css_peek s 0 = c"
  by (simp add: css_peek_rest)

lemma css_peek_1 [simp]: "css_rest s = c # d # cs \<Longrightarrow> css_peek s (Suc 0) = d"
  by (simp add: css_peek_rest)

lemma css_consume_position:
  "css_position (css_consume s) = (if css_eof s then css_position s else Suc (css_position s))"
  by (simp add: css_consume_def Let_def)

lemma css_consume_input [simp]: "css_input (css_consume s) = css_input s"
  by (simp add: css_consume_def Let_def)

function css_skip_while :: "(css_tokenizer \<Rightarrow> bool) \<Rightarrow> css_tokenizer \<Rightarrow> css_tokenizer" where
  "css_skip_while P s = (if \<not> css_eof s \<and> P s then css_skip_while P (css_consume s) else s)"
  by pat_completeness auto
termination
  by (relation "measure (\<lambda>(P, s). length (css_input s) - css_position s)")
    (auto simp: css_consume_position css_eof_def)

function css_take_while :: "(css_tokenizer \<Rightarrow> bool) \<Rightarrow> css_tokenizer \<Rightarrow> string \<times> css_tokenizer" where
  "css_take_while P s =
     (if \<not> css_eof s \<and> P s
      then let (d, t) = css_take_while P (css_consume s) in (css_peek s 0 # d, t)
      else ([], s))"
  by pat_completeness auto
termination
  by (relation "measure (\<lambda>(P, s). length (css_input s) - css_position s)")
    (auto simp: css_consume_position css_eof_def)

declare css_skip_while.simps [simp del] css_take_while.simps [simp del]

interpretation css: scanner css_rest css_place css_consume css_skip_while css_take_while
proof
  show "\<And>s. css_rest s = [] \<Longrightarrow> css_consume s = s"
    by (simp add: css_consume_def css_eof_rest)
  show "css_rest (css_consume s) = cs" if "css_rest s = c # cs" for s c cs
    using that by (auto simp: css_rest_def css_consume_position css_eof_def drop_Suc tl_drop [symmetric])
  show "css_place (css_consume s) = next_place c (css_place s)" if r: "css_rest s = c # cs" for s c cs
  proof -
    from r have "css_position s < length (css_input s)"
      by (metis drop_eq_Nil2 leI list.distinct(1) css_rest_def)
    moreover from r this have "css_input s ! css_position s = c"
      by (metis hd_drop_conv_nth list.sel(1) css_rest_def)
    ultimately show ?thesis
      using ascii_inject [of c "CHR 0x0A"]
      by (auto simp: css_consume_def css_eof_def css_place_def Let_def simp del: ascii_inject)
  qed
  show "\<And>s P. css_rest s = [] \<or> \<not> P s \<Longrightarrow> css_skip_while P s = s"
    by (subst css_skip_while.simps) (auto simp: css_eof_rest)
  show "\<And>s P. css_rest s \<noteq> [] \<Longrightarrow> P s \<Longrightarrow> css_skip_while P s = css_skip_while P (css_consume s)"
    by (subst css_skip_while.simps) (auto simp: css_eof_rest)
  show "\<And>s P. css_rest s = [] \<or> \<not> P s \<Longrightarrow> css_take_while P s = ([], s)"
    by (subst css_take_while.simps) (auto simp: css_eof_rest)
  show "\<And>s P. css_rest s \<noteq> [] \<Longrightarrow> P s \<Longrightarrow> css_take_while P s =
      (hd (css_rest s) # fst (css_take_while P (css_consume s)), snd (css_take_while P (css_consume s)))"
    by (subst css_take_while.simps) (auto simp: css_eof_rest css_peek_rest hd_conv_nth split: prod.split)
qed

section \<open>Token producers\<close>

definition css_make_token :: "css_token_type \<Rightarrow> string \<Rightarrow> nat \<Rightarrow> nat \<Rightarrow> css_token" where
  "css_make_token ty v line column =
     \<lparr> ctok_type = ty, ctok_value = v, ctok_line = line, ctok_column = column \<rparr>"

definition skip_comment :: "css_tokenizer \<Rightarrow> css_tokenizer" where
  "skip_comment s =
     (let s1 = css_consume (css_consume s);
          s2 = css_skip_while (\<lambda>t. \<not> (css_peek t 0 = CHR ''*'' \<and> css_peek t 1 = CHR ''/'')) s1
      in if \<not> css_eof s2 then css_consume (css_consume s2) else s2)"

definition consume_identifier :: "css_tokenizer \<Rightarrow> css_token \<times> css_tokenizer" where
  "consume_identifier s =
     (let (v, t) = css_take_while (\<lambda>t. is_identifier_char (css_peek t 0)) s
      in (css_make_token Identifier v (css_line s) (css_column s), t))"

definition consume_number :: "css_tokenizer \<Rightarrow> css_token \<times> css_tokenizer" where
  "consume_number s =
     (let (sign, s1) = (if css_peek s 0 = CHR ''+'' \<or> css_peek s 0 = CHR ''-''
                        then ([css_peek s 0], css_consume s) else ([], s));
          (v, s2) = css_take_while (\<lambda>t. css_digit (css_peek t 0) \<or> css_peek t 0 = CHR ''.'') s1
      in (css_make_token Number (sign @ v) (css_line s) (css_column s), s2))"

text \<open>The loop of \<open>consume_string\<close>: a backslash not followed by a NUL is dropped and the
  character after it taken as it is.\<close>

function string_loop :: "char \<Rightarrow> css_tokenizer \<Rightarrow> string \<times> css_tokenizer" where
  "string_loop quote s =
     (if \<not> css_eof s \<and> css_peek s 0 \<noteq> quote then
        let s1 = (if css_peek s 0 = CHR 0x5C \<and> css_peek s 1 \<noteq> CHR 0x00 then css_consume s else s);
            (v, t) = string_loop quote (css_consume s1)
        in (css_peek s1 0 # v, t)
      else ([], s))"
  by pat_completeness auto
termination
  by (relation "measure (\<lambda>(q, s). length (css_input s) - css_position s)")
    (auto simp: css_consume_position css_eof_def Let_def)

declare string_loop.simps [simp del]

definition consume_string :: "char \<Rightarrow> css_tokenizer \<Rightarrow> css_token \<times> css_tokenizer" where
  "consume_string quote s =
     (let (v, s1) = string_loop quote (css_consume s);
          s2 = (if \<not> css_eof s1 then css_consume s1 else s1)
      in (css_make_token StringToken v (css_line s) (css_column s), s2))"

definition delimiter_type :: "char \<Rightarrow> css_token_type" where
  "delimiter_type c =
     (if c = CHR '':'' then Colon else if c = CHR '';'' then Semicolon
      else if c = CHR '','' then Comma else if c = CHR ''{'' then OpenBrace
      else if c = CHR ''}'' then CloseBrace else if c = CHR ''('' then OpenParen
      else if c = CHR '')'' then CloseParen else if c = CHR ''>'' then ChildCombinator
      else if c = CHR ''*'' then UniversalSelector else Delimiter)"

definition starts_number :: "css_tokenizer \<Rightarrow> bool" where
  "starts_number s \<longleftrightarrow> css_digit (css_peek s 0) \<or>
     (css_peek s 0 = CHR ''+'' \<or> css_peek s 0 = CHR ''-'') \<and>
     (css_digit (css_peek s 1) \<or> css_peek s 1 = CHR ''.'')"

text \<open>One round of the loop of \<open>tokenize\<close>; a comment produces no token.\<close>

definition css_step :: "css_tokenizer \<Rightarrow> css_token option \<times> css_tokenizer" where
  "css_step s =
     (let c = css_peek s 0 in
      if c = CHR ''/'' \<and> css_peek s 1 = CHR ''*'' then (None, skip_comment s)
      else if css_is_whitespace c then
        let (v, t) = css_take_while (\<lambda>t. css_is_whitespace (css_peek t 0)) s
        in (Some (css_make_token Whitespace v (css_line s) (css_column s)), t)
      else if is_identifier_start c then apfst Some (consume_identifier s)
      else if starts_number s then apfst Some (consume_number s)
      else if c = CHR 0x22 \<or> c = CHR 0x27 then apfst Some (consume_string c s)
      else (Some (css_make_token (delimiter_type c) [c] (css_line s) (css_column s)), css_consume s))"

section \<open>Every round consumes input\<close>

definition css_left :: "css_tokenizer \<Rightarrow> nat" where
  "css_left s = length (css_rest s)"

lemma css_reaches_if_consume:
  "css.reaches s u t \<Longrightarrow> \<exists>u'. css.reaches s u' (if b then css_consume t else t)"
  using css.reaches_trans [OF _ css.reaches_consume] by (cases b) auto

lemma css_reaches_prepend:
  "css.reaches s u t \<Longrightarrow> \<exists>v. css.reaches t v w \<Longrightarrow> \<exists>v. css.reaches s (u @ v) w"
  using css.reaches_trans by blast

lemma css_reaches_string_loop: "\<exists>u. css.reaches s u (snd (string_loop quote s))"
proof (induction quote s rule: string_loop.induct)
  case (1 quote s)
  let ?s1 = "if css_peek s 0 = CHR 0x5C \<and> css_peek s 1 \<noteq> CHR 0x00 then css_consume s else s"
  show ?case
  proof (cases "\<not> css_eof s \<and> css_peek s 0 \<noteq> quote")
    case True
    obtain u where u: "css.reaches s u ?s1" using css_reaches_if_consume [OF css.reaches_refl] by blast
    have "\<exists>v. css.reaches (css_consume ?s1) v (snd (string_loop quote (css_consume ?s1)))"
      by (rule 1 [OF True refl])
    then have "\<exists>v. css.reaches s v (snd (string_loop quote (css_consume ?s1)))"
      using css_reaches_prepend [OF css.reaches_trans [OF u css.reaches_consume]] by blast
    then show ?thesis using True
      by (subst string_loop.simps) (simp only: if_P Let_def case_prod_unfold snd_conv simp_thms)
  next
    case False
    show ?thesis unfolding string_loop.simps [of quote s] if_not_P [OF False]
      by (auto intro: css.reaches_refl)
  qed
qed

lemma take_while_first:
  assumes "css_rest s = c # cs" and "P s"
  shows "\<exists>v. fst (css_take_while P s) = c # v"
  using assms by (simp add: css.take_go)

lemma css_reaches_step:
  assumes r: "css_rest s = c # cs"
  shows "\<exists>u. css.reaches s (c # u) (snd (css_step s))"
proof -
  have c1: "css.reaches s [c] (css_consume s)" by (rule css.reaches_consume_Cons [OF r])
  have tw: "\<exists>u. css.reaches s (c # u) (snd (css_take_while P s))" if "P s" for P
    using css.reaches_take_while [of s P] take_while_first [where P = P, OF r that] by auto
  have via: "\<exists>u. css.reaches s (c # u) w" if "\<exists>v. css.reaches (css_consume s) v w" for w
    using css_reaches_prepend [OF c1 that] by simp
  have comment: "\<exists>u. css.reaches s (c # u) (skip_comment s)"
  proof (rule via)
    let ?s2 = "css_skip_while (\<lambda>t. \<not> (css_peek t 0 = CHR ''*'' \<and> css_peek t 1 = CHR ''/'')) (css_consume (css_consume s))"
    obtain u where u: "css.reaches (css_consume s) u ?s2"
      using css.reaches_trans [OF css.reaches_consume css.reaches_skip_while] by blast
    have "\<exists>v. css.reaches (css_consume s) v (css_consume (css_consume ?s2))"
      using css.reaches_trans [OF u css.reaches_trans [OF css.reaches_consume css.reaches_consume]] by blast
    then show "\<exists>v. css.reaches (css_consume s) v (skip_comment s)"
      using u unfolding skip_comment_def Let_def by (cases "css_eof ?s2") auto
  qed
  have number: "\<exists>u. css.reaches s (c # u) (snd (consume_number s))" if "starts_number s"
  proof (cases "c = CHR ''+'' \<or> c = CHR ''-''")
    case True
    have "\<exists>u. css.reaches s (c # u) (snd (css_take_while P (css_consume s)))" for P
      by (rule via) (rule exI, rule css.reaches_take_while)
    then show ?thesis using True r
      by (simp add: consume_number_def Let_def case_prod_unfold)
  next
    case False
    then have "css_digit (css_peek s 0)" using that r by (auto simp: starts_number_def)
    then show ?thesis using False r tw [of "\<lambda>t. css_digit (css_peek t 0) \<or> css_peek t 0 = CHR ''.''"]
      by (simp add: consume_number_def Let_def case_prod_unfold)
  qed
  have string: "\<exists>u. css.reaches s (c # u) (snd (consume_string q s))" for q
  proof (rule via)
    obtain u where u: "css.reaches (css_consume s) u (snd (string_loop q (css_consume s)))"
      using css_reaches_string_loop by blast
    then show "\<exists>v. css.reaches (css_consume s) v (snd (consume_string q s))"
      using css_reaches_if_consume [OF u] by (simp add: consume_string_def Let_def case_prod_unfold)
  qed
  have ident: "\<exists>u. css.reaches s (c # u) (snd (consume_identifier s))" if "is_identifier_start c"
    using tw [of "\<lambda>t. is_identifier_char (css_peek t 0)"] that r
    by (simp add: consume_identifier_def case_prod_unfold Let_def is_identifier_char_def)
  have "\<exists>u. css.reaches s (c # u) (snd (css_take_while (\<lambda>t. css_is_whitespace (css_peek t 0)) s))"
    if "css_is_whitespace c"
    using tw [of "\<lambda>t. css_is_whitespace (css_peek t 0)"] that r by simp
  then show ?thesis using comment number string ident via [of "css_consume s"] css.reaches_refl r
    by (simp add: css_step_def Let_def case_prod_unfold) blast
qed

lemma css_left_step: "\<not> css_eof s \<Longrightarrow> css_left (snd (css_step s)) < css_left s"
proof -
  assume "\<not> css_eof s"
  then obtain c cs where r: "css_rest s = c # cs" by (cases "css_rest s") (auto simp: css_eof_rest)
  obtain u where "css.reaches s (c # u) (snd (css_step s))" using css_reaches_step [OF r] by blast
  then show ?thesis using css.reaches_rest by (fastforce simp: css_left_def)
qed

function css_tokens :: "css_tokenizer \<Rightarrow> css_token list" where
  "css_tokens s =
     (if \<not> css_eof s then
        case css_step s of (token, t) \<Rightarrow>
          (case token of None \<Rightarrow> css_tokens t | Some tok \<Rightarrow> tok # css_tokens t)
      else [css_make_token EndOfFile [] (css_line s) (css_column s)])"
  by pat_completeness auto
termination
proof (relation "measure css_left", simp)
qed (metis css_left_step in_measure snd_conv)+

declare css_tokens.simps [simp del]

definition css_tokenize :: "string \<Rightarrow> css_token list" where
  "css_tokenize input = css_tokens (new_css_tokenizer input)"

section \<open>Where tokens are\<close>

lemma css_make_token_sel [simp]:
  "ctok_type (css_make_token ty v l k) = ty" "ctok_value (css_make_token ty v l k) = v"
  "ctok_line (css_make_token ty v l k) = l" "ctok_column (css_make_token ty v l k) = k"
  by (simp_all add: css_make_token_def)

lemma delimiter_type_not_EOF: "delimiter_type c \<noteq> EndOfFile"
  by (simp add: delimiter_type_def)

lemma css_step_token:
  "case fst (css_step s) of None \<Rightarrow> True
   | Some t \<Rightarrow> (ctok_line t, ctok_column t) = css_place s \<and> ctok_type t \<noteq> EndOfFile"
  by (simp add: css_step_def consume_identifier_def consume_number_def consume_string_def css_place_def
      delimiter_type_not_EOF Let_def split: prod.split)

lemma css_tokens_offsets:
  assumes "css_rest s = v" and "css_place s = place_after u (1, 1)"
  shows "\<exists>offsets. sorted_wrt (<) offsets \<and> length u \<le> hd offsets \<and> offsets \<noteq> [] \<and>
    last offsets = length (u @ v) \<and>
    list_all2 (\<lambda>t k. (ctok_line t, ctok_column t) = place_after (take k (u @ v)) (1, 1))
      (css_tokens s) offsets \<and>
    map (\<lambda>t. ctok_type t = EndOfFile) (css_tokens s) = replicate (length offsets - 1) False @ [True]"
  using assms
proof (induction s arbitrary: u v rule: css_tokens.induct)
  case (1 s)
  show ?case
  proof (cases "css_rest s")
    case Nil
    then have "css_tokens s = [css_make_token EndOfFile [] (css_line s) (css_column s)]"
      by (subst css_tokens.simps) (simp add: css_eof_rest)
    then show ?thesis using Nil 1(3,4) by (intro exI [of _ "[length u]"]) (auto simp: css_place_def)
  next
    case (Cons c cs)
    then have live: "\<not> css_eof s" by (simp add: css_eof_rest)
    let ?s' = "snd (css_step s)"
    obtain w where w: "css.reaches s (c # w) ?s'" using css_reaches_step [OF Cons] by blast
    have v: "(u @ c # w) @ css_rest ?s' = u @ v" using css.reaches_rest [OF w] 1(3) by simp
    have pl: "css_place ?s' = place_after (u @ c # w) (1, 1)"
      using css.reaches_place [OF w] 1(4) by simp
    show ?thesis
    proof (cases "fst (css_step s)")
      case None
      have "css_tokens s = css_tokens ?s'"
        using live None by (subst css_tokens.simps) (simp add: case_prod_unfold)
      then show ?thesis
        using 1(1) [OF live prod.collapse None refl pl] unfolding v by fastforce
    next
      case (Some t)
      have run: "css_tokens s = t # css_tokens ?s'"
        using live Some by (subst css_tokens.simps) (simp add: case_prod_unfold)
      have t: "(ctok_line t, ctok_column t) = place_after u (1, 1)" "ctok_type t \<noteq> EndOfFile"
        using css_step_token [of s] Some 1(4) by simp_all
      obtain os where os: "sorted_wrt (<) os" "length (u @ c # w) \<le> hd os" "os \<noteq> []"
          "last os = length (u @ v)"
          "list_all2 (\<lambda>t k. (ctok_line t, ctok_column t) = place_after (take k (u @ v)) (1, 1))
             (css_tokens ?s') os"
          "map (\<lambda>t. ctok_type t = EndOfFile) (css_tokens ?s') = replicate (length os - 1) False @ [True]"
        using 1(2) [OF live prod.collapse Some refl pl] unfolding v by blast
      have "sorted_wrt (<) (length u # os)" using os(1-3) by (cases os) auto
      moreover have "replicate (length os) False = False # replicate (length os - 1) False"
        using os(3) by (cases os) auto
      ultimately show ?thesis using os run t by (intro exI [of _ "length u # os"]) simp
    qed
  qed
qed

text \<open>\<open>CssTokenizer::tokenize\<close> stops on every input with exactly one end-of-file token,
  the last, and each token's line and column are right: there are strictly increasing
  offsets, one per token and ending at the end of the input, such that each token carries
  the line and column of its offset.\<close>

theorem css_tokenize_places:
  "\<exists>offsets. sorted_wrt (<) offsets \<and> last offsets = length input \<and>
     list_all2 (\<lambda>t k. (ctok_line t, ctok_column t) = place_after (take k input) (1, 1))
       (css_tokenize input) offsets \<and>
     map (\<lambda>t. ctok_type t = EndOfFile) (css_tokenize input) = replicate (length offsets - 1) False @ [True]"
  using css_tokens_offsets [of "new_css_tokenizer input" input "[]"]
  by (auto simp: css_tokenize_def new_css_tokenizer_def css_rest_def css_place_def)

section \<open>Plain text between delimiters\<close>

definition css_structural :: "char \<Rightarrow> bool" where
  "css_structural c \<longleftrightarrow> c \<in> {CHR ''{'', CHR ''}'', CHR '':'', CHR '';'', CHR '',''}"

definition css_plain :: "char \<Rightarrow> bool" where
  "css_plain c \<longleftrightarrow> \<not> css_structural c \<and> c \<notin> {CHR 0x22, CHR 0x27, CHR ''/''}"

definition ordinary :: "css_token \<Rightarrow> bool" where
  "ordinary t \<longleftrightarrow> ctok_value t \<noteq> [] \<and> ctok_type t \<notin> {Colon, Semicolon, Comma, OpenBrace, CloseBrace, EndOfFile} \<and>
     (ctok_type t = Whitespace \<longrightarrow> list_all css_is_whitespace (ctok_value t))"

lemma css_structural_classes:
  assumes "css_structural c"
  shows "\<not> css_is_whitespace c" "\<not> is_identifier_char c" "\<not> css_digit c" "c \<noteq> CHR ''.''"
    "\<not> is_identifier_start c"
  using assms by (auto simp: css_structural_def css_is_whitespace_def is_identifier_char_def
      is_identifier_start_def css_digit_def)

lemma takeWhile_stop: "w = [] \<or> \<not> Q (hd w) \<Longrightarrow> takeWhile Q (u @ w) = takeWhile Q u"
  by (induction u) (cases w, auto)

lemma dropWhile_stop: "w = [] \<or> \<not> Q (hd w) \<Longrightarrow> dropWhile Q (u @ w) = dropWhile Q u @ w"
  by (induction u) (cases w, auto)

lemma css_take_plain:
  assumes "css_rest s = u @ w" and "w = [] \<or> \<not> Q (hd w)"
  shows "fst (css_take_while (\<lambda>t. Q (css_peek t 0)) s) = takeWhile Q u"
    and "css_rest (snd (css_take_while (\<lambda>t. Q (css_peek t 0)) s)) = dropWhile Q u @ w"
proof -
  have "fst (css_take_while (\<lambda>t. Q (css_peek t 0)) s) = takeWhile Q (css_rest s)"
    by (rule css.take_while_chars(1)) simp
  then show "fst (css_take_while (\<lambda>t. Q (css_peek t 0)) s) = takeWhile Q u"
    using assms takeWhile_stop by metis
  have "css_rest (snd (css_take_while (\<lambda>t. Q (css_peek t 0)) s)) = dropWhile Q (css_rest s)"
    by (rule css.take_while_chars(2)) simp
  then show "css_rest (snd (css_take_while (\<lambda>t. Q (css_peek t 0)) s)) = dropWhile Q u @ w"
    using assms dropWhile_stop by metis
qed

lemma css_step_plain:
  assumes r: "css_rest s = (c # u) @ w" and plain: "list_all css_plain (c # u)"
    and w: "w = [] \<or> css_structural (hd w)"
  shows "\<exists>t v u' s'. css_step s = (Some t, s') \<and> c # u = ctok_value t @ u' \<and> ctok_value t = c # v \<and>
    css_rest s' = u' @ w \<and> ordinary t"
proof -
  have stop: "w = [] \<or> \<not> css_is_whitespace (hd w)" "w = [] \<or> \<not> is_identifier_char (hd w)"
      "w = [] \<or> \<not> (css_digit (hd w) \<or> hd w = CHR ''.'')"
    using w css_structural_classes by auto
  have c: "css_peek s 0 = c" and nc: "css_plain c" using r plain by simp_all
  have r1: "css_rest (css_consume s) = u @ w" using r by (intro css.consume_rest) simp
  have no_comment: "c \<noteq> CHR ''/''" "c \<noteq> CHR 0x22" "c \<noteq> CHR 0x27" "\<not> css_structural c"
    using nc by (auto simp: css_plain_def)
  consider "css_is_whitespace c" | "\<not> css_is_whitespace c" "is_identifier_start c"
    | "\<not> css_is_whitespace c" "\<not> is_identifier_start c" "starts_number s"
    | "\<not> css_is_whitespace c" "\<not> is_identifier_start c" "\<not> starts_number s" by blast
  then show ?thesis
  proof cases
    case 1
    note tw = css_take_plain [where Q = css_is_whitespace, OF r stop(1)]
    have "css_step s = (Some (css_make_token Whitespace (takeWhile css_is_whitespace (c # u)) (css_line s) (css_column s)),
        snd (css_take_while (\<lambda>t. css_is_whitespace (css_peek t 0)) s))"
      using 1 c no_comment tw(1) by (simp add: css_step_def case_prod_unfold Let_def)
    then show ?thesis using tw(2) 1
      by (intro exI conjI) (auto simp: ordinary_def list_all_iff dest: set_takeWhileD)
  next
    case 2
    note tw = css_take_plain [where Q = is_identifier_char, OF r stop(2)]
    have "css_step s = (Some (css_make_token Identifier (takeWhile is_identifier_char (c # u)) (css_line s) (css_column s)),
        snd (css_take_while (\<lambda>t. is_identifier_char (css_peek t 0)) s))"
      using 2 c no_comment tw(1) by (simp add: css_step_def consume_identifier_def case_prod_unfold Let_def)
    moreover have "is_identifier_char c" using 2 by (simp add: is_identifier_char_def)
    ultimately show ?thesis using tw(2)
      by (intro exI conjI) (auto simp: ordinary_def)
  next
    case 3
    let ?Q = "\<lambda>c. css_digit c \<or> c = CHR ''.''"
    have ns: "c \<noteq> CHR ''-''" using 3(2) by (auto simp: is_identifier_start_def)
    show ?thesis
    proof (cases "c = CHR ''+''")
      case True
      note tw = css_take_plain [where Q = ?Q, OF r1 stop(3)]
      have "css_step s = (Some (css_make_token Number (c # takeWhile ?Q u) (css_line s) (css_column s)),
          snd (css_take_while (\<lambda>t. ?Q (css_peek t 0)) (css_consume s)))"
        using 3 c no_comment True tw(1) by (simp add: css_step_def consume_number_def case_prod_unfold Let_def)
      then show ?thesis using tw(2)
        by (intro exI conjI) (auto simp: ordinary_def)
    next
      case False
      note tw = css_take_plain [where Q = ?Q, OF r stop(3)]
      have "css_digit c" using 3 ns False c by (simp add: starts_number_def)
      moreover have "css_step s = (Some (css_make_token Number (takeWhile ?Q (c # u)) (css_line s) (css_column s)),
          snd (css_take_while (\<lambda>t. ?Q (css_peek t 0)) s))"
        using 3 c no_comment False ns tw(1) by (simp add: css_step_def consume_number_def case_prod_unfold Let_def)
      ultimately show ?thesis using tw(2)
        by (intro exI conjI) (auto simp: ordinary_def)
    qed
  next
    case 4
    let ?t = "css_make_token (delimiter_type c) [c] (css_line s) (css_column s)"
    have "css_step s = (Some ?t, css_consume s)"
      using 4 c no_comment by (simp add: css_step_def Let_def)
    moreover have "ordinary ?t"
      using no_comment(4) by (simp add: ordinary_def delimiter_type_def css_structural_def)
    ultimately show ?thesis using r1
      by (intro exI [of _ ?t] exI [of _ "[]"] exI [of _ u] exI [of _ "css_consume s"]) simp
  qed
qed

text \<open>Up to the next structural character the tokens spell exactly the text.\<close>

lemma css_tokens_plain:
  assumes "css_rest s = u @ w" and "list_all css_plain u" and "w = [] \<or> css_structural (hd w)"
  obtains ts t where "css_tokens s = ts @ css_tokens t" and "concat (map ctok_value ts) = u"
    and "css_rest t = w" and "list_all ordinary ts"
  using assms(1,2)
proof (induction "length u" arbitrary: u s thesis rule: less_induct)
  case less
  show ?case
  proof (cases u)
    case Nil
    then show ?thesis using less.prems by (intro less.prems(1) [of "[]" s]) simp_all
  next
    case (Cons c v)
    obtain t x u' s' where st: "css_step s = (Some t, s')" "c # v = ctok_value t @ u'" "ctok_value t = c # x"
        "css_rest s' = u' @ w" "ordinary t"
      using css_step_plain [of s c v w] less.prems Cons assms(3) by auto
    have "length u' < length u" using st(2,3) Cons by simp
    moreover have "list_all css_plain u'" using st(2) less.prems(3) Cons by (metis list_all_append)
    ultimately obtain ts s'' where ts: "css_tokens s' = ts @ css_tokens s''" "concat (map ctok_value ts) = u'"
        "css_rest s'' = w" "list_all ordinary ts"
      using less.hyps [of u' s'] st(4) by blast
    have "css_tokens s = t # css_tokens s'"
      using less.prems(2) Cons st(1) by (subst css_tokens.simps) (simp add: css_eof_rest)
    then show ?thesis using ts st Cons by (intro less.prems(1) [of "t # ts" s'']) simp_all
  qed
qed

lemma css_tokens_structural:
  assumes "css_rest s = d # w" and "css_structural d"
  shows "css_tokens s = css_make_token (delimiter_type d) [d] (css_line s) (css_column s) # css_tokens (css_consume s)"
    and "css_rest (css_consume s) = w"
proof -
  have "d \<noteq> CHR ''/''" "d \<noteq> CHR 0x22" "d \<noteq> CHR 0x27" "d \<noteq> CHR ''+''" "d \<noteq> CHR ''-''"
    using assms(2) by (auto simp: css_structural_def)
  then have "css_step s = (Some (css_make_token (delimiter_type d) [d] (css_line s) (css_column s)), css_consume s)"
    using assms css_structural_classes [OF assms(2)] by (simp add: css_step_def Let_def starts_number_def)
  then show "css_tokens s = css_make_token (delimiter_type d) [d] (css_line s) (css_column s) # css_tokens (css_consume s)"
    using assms(1) by (subst css_tokens.simps) (simp add: css_eof_rest)
  show "css_rest (css_consume s) = w" by (rule css.consume_rest [OF assms(1)])
qed

end
