(* ===== verification/Css_Parser.thy ===== *)
theory Css_Parser
  imports Css_Tokenizer
begin

text \<open>
  \<open>css_stylesheet.hpp\<close>, \<open>css_parser.hpp\<close> and \<open>css_parser.cpp\<close>.  The token vector and the
  index \<open>position\<close> are the list of the tokens from \<open>position\<close> on; \<open>++position\<close> is
  \<^const>\<open>tl\<close>, and every access of the code is guarded by \<open>position < tokens.size()\<close>, here
  \<open>\<noteq> []\<close>.  Shown: what every parsed style sheet satisfies, that parsing inverts rendering,
  and what a stray semicolon does to the declaration after it.
\<close>

record css_declaration =
  decl_property :: string
  decl_value :: string

record css_rule =
  rule_selectors :: "string list"
  rule_declarations :: "css_declaration list"
  rule_source_order :: nat

type_synonym css_stylesheet = "css_rule list"

definition css_trim :: "string \<Rightarrow> string" where
  "css_trim s = trim_by isspace s"

definition join_value :: "css_token list \<Rightarrow> string" where
  "join_value ts = concat (map ctok_value ts)"

definition is_significant :: "css_token \<Rightarrow> bool" where
  "is_significant t \<longleftrightarrow> ctok_type t \<noteq> Whitespace"

text \<open>The loop condition \<open>position < tokens.size() \<and> tokens[position].type != EndOfFile\<close>.\<close>

definition at_end :: "css_token list \<Rightarrow> bool" where
  "at_end ts \<longleftrightarrow> (case ts of [] \<Rightarrow> True | t # _ \<Rightarrow> ctok_type t = EndOfFile)"

definition push_selector :: "string \<Rightarrow> string list \<Rightarrow> string list" where
  "push_selector selector selectors =
     (let trimmed = css_trim selector in if trimmed \<noteq> [] then selectors @ [trimmed] else selectors)"

text \<open>The selector loop: \<open>(found_open_brace, selectors, remaining tokens)\<close>.\<close>

fun selector_loop :: "css_token list \<Rightarrow> string list \<Rightarrow> string \<Rightarrow> bool \<times> string list \<times> css_token list" where
  "selector_loop [] selectors selector = (False, selectors, [])"
| "selector_loop (token # ts) selectors selector =
     (if ctok_type token = EndOfFile then (False, selectors, token # ts)
      else if ctok_type token = OpenBrace then (True, push_selector selector selectors, ts)
      else if ctok_type token = Comma then selector_loop ts (push_selector selector selectors) []
      else selector_loop ts selectors (selector @ ctok_value token))"

definition stops_property :: "css_token \<Rightarrow> bool" where
  "stops_property t \<longleftrightarrow> ctok_type t = Colon \<or> ctok_type t = CloseBrace"

definition stops_value :: "css_token \<Rightarrow> bool" where
  "stops_value t \<longleftrightarrow> ctok_type t = Semicolon \<or> ctok_type t = CloseBrace"

text \<open>One round of the declaration loop: the declaration it adds, whether the loop goes on,
  and the remaining tokens.\<close>

definition declaration_step :: "css_token list \<Rightarrow> css_declaration option \<times> bool \<times> css_token list" where
  "declaration_step ts =
     (let ts1 = dropWhile (\<lambda>t. ctok_type t = Whitespace) ts in
      if ts1 = [] \<or> ctok_type (hd ts1) = CloseBrace then (None, False, tl ts1)
      else
        let property = css_trim (join_value (takeWhile (\<lambda>t. \<not> stops_property t) ts1));
            ts2 = dropWhile (\<lambda>t. \<not> stops_property t) ts1 in
        if ts2 = [] \<or> ctok_type (hd ts2) = CloseBrace then (None, False, tl ts2)
        else
          let ts3 = tl ts2;
              v = css_trim (join_value (takeWhile (\<lambda>t. \<not> stops_value t) ts3));
              ts4 = dropWhile (\<lambda>t. \<not> stops_value t) ts3;
              d = (if property \<noteq> [] then Some \<lparr> decl_property = property, decl_value = v \<rparr> else None) in
          if ts4 \<noteq> [] \<and> ctok_type (hd ts4) = Semicolon then (d, True, tl ts4)
          else if ts4 \<noteq> [] \<and> ctok_type (hd ts4) = CloseBrace then (d, False, tl ts4)
          else (d, True, ts4))"

lemma declaration_step_length:
  "length (snd (snd (declaration_step ts))) \<le> length ts"
  "fst (snd (declaration_step ts)) \<Longrightarrow> length (snd (snd (declaration_step ts))) < length ts"
proof -
  define ts1 where "ts1 = dropWhile (\<lambda>t. ctok_type t = Whitespace) ts"
  define ts2 where "ts2 = dropWhile (\<lambda>t. \<not> stops_property t) ts1"
  define ts4 where "ts4 = dropWhile (\<lambda>t. \<not> stops_value t) (tl ts2)"
  have le: "length ts1 \<le> length ts" "length ts2 \<le> length ts1" "length ts4 \<le> length ts2 - 1"
    unfolding ts1_def ts2_def ts4_def
    by (rule length_dropWhile_le, rule length_dropWhile_le, metis length_dropWhile_le length_tl)
  note defs = declaration_step_def Let_def ts1_def [symmetric] ts2_def [symmetric] ts4_def [symmetric]
  show "length (snd (snd (declaration_step ts))) \<le> length ts"
    unfolding defs using le by (auto simp del: dropWhile_eq_Nil_conv)
  show "length (snd (snd (declaration_step ts))) < length ts" if "fst (snd (declaration_step ts))"
  proof -
    have "length ts4 < length ts" if "ts2 \<noteq> []"
    proof -
      have "0 < length ts2" using that by simp
      then show ?thesis using le by linarith
    qed
    then show ?thesis
      using that unfolding defs by (auto simp del: dropWhile_eq_Nil_conv split: if_splits)
  qed
qed

definition add_declaration :: "css_declaration option \<Rightarrow> css_declaration list \<Rightarrow> css_declaration list" where
  "add_declaration d ds = (case d of None \<Rightarrow> ds | Some x \<Rightarrow> ds @ [x])"

function declaration_loop :: "css_token list \<Rightarrow> css_declaration list \<Rightarrow> css_declaration list \<times> css_token list" where
  "declaration_loop ts declarations =
     (if at_end ts then (declarations, ts)
      else let r = declaration_step ts; declarations' = add_declaration (fst r) declarations in
        if fst (snd r) then declaration_loop (snd (snd r)) declarations'
        else (declarations', snd (snd r)))"
  by pat_completeness auto
termination
  by (relation "measure (\<lambda>(ts, ds). length ts)") (simp_all add: declaration_step_length(2))

declare declaration_loop.simps [simp del]

lemma declaration_loop_length: "length (snd (declaration_loop ts ds)) \<le> length ts"
proof (induction ts ds rule: declaration_loop.induct)
  case (1 ts ds)
  show ?case using 1 [OF _ refl refl] declaration_step_length(1) [of ts]
    by (subst declaration_loop.simps) (auto simp: Let_def intro: order_trans)
qed

lemma selector_loop_length:
  "selector_loop ts ss sel = (found, ss', ts') \<Longrightarrow> length ts' \<le> length ts \<and> (found \<longrightarrow> length ts' < length ts)"
  by (induction ts ss sel rule: selector_loop.induct) (fastforce split: if_splits)+

text \<open>\<open>parse_tokens\<close>: the outer loop over rules.\<close>

function rule_loop :: "css_token list \<Rightarrow> nat \<Rightarrow> css_stylesheet \<Rightarrow> css_stylesheet" where
  "rule_loop ts source_order sheet =
     (if at_end ts then sheet
      else
        let ts1 = dropWhile (\<lambda>t. \<not> is_significant t) ts;
            r = selector_loop ts1 [] [] in
        if \<not> fst r then sheet
        else
          let d = declaration_loop (snd (snd r)) [];
              rule = \<lparr> rule_selectors = fst (snd r), rule_declarations = fst d, rule_source_order = source_order \<rparr>;
              sheet' = (if fst (snd r) \<noteq> [] then sheet @ [rule] else sheet) in
          rule_loop (snd d) (Suc source_order) sheet')"
  by pat_completeness auto
termination
proof (relation "measure (\<lambda>(ts, k, sheet). length ts)", simp, goal_cases)
  case (1 ts k sheet ts1 r d rule sheet')
  then have "length (snd (snd r)) < length ts1"
    using selector_loop_length [of ts1 "[]" "[]"] by (metis prod.collapse)
  moreover have "length (snd d) \<le> length (snd (snd r))" using 1 declaration_loop_length by simp
  moreover have "length ts1 \<le> length ts" using 1 length_dropWhile_le by simp
  ultimately show ?case by simp
qed

declare rule_loop.simps [simp del]

definition parse_tokens :: "css_token list \<Rightarrow> css_stylesheet" where
  "parse_tokens ts = rule_loop ts 0 []"

definition css_parse :: "string \<Rightarrow> css_stylesheet" where
  "css_parse input = parse_tokens (css_tokenize input)"

section \<open>What every parsed style sheet satisfies\<close>

definition trimmed_text :: "string \<Rightarrow> bool" where
  "trimmed_text s \<longleftrightarrow> s \<noteq> [] \<and> css_trim s = s"

lemma css_trim_idem [simp]: "css_trim (css_trim s) = css_trim s"
  by (simp add: css_trim_def)

lemma push_selector_trimmed:
  "list_all trimmed_text ss \<Longrightarrow> list_all trimmed_text (push_selector sel ss)"
  by (simp add: push_selector_def Let_def trimmed_text_def)

lemma selector_loop_trimmed:
  "list_all trimmed_text ss \<Longrightarrow> list_all trimmed_text (fst (snd (selector_loop ts ss sel)))"
  by (induction ts ss sel rule: selector_loop.induct) (simp_all add: push_selector_trimmed)

definition good_declaration :: "css_declaration \<Rightarrow> bool" where
  "good_declaration d \<longleftrightarrow> trimmed_text (decl_property d) \<and> css_trim (decl_value d) = decl_value d"

lemma declaration_step_good:
  "case fst (declaration_step ts) of None \<Rightarrow> True | Some d \<Rightarrow> good_declaration d"
  by (simp add: declaration_step_def good_declaration_def trimmed_text_def Let_def)

lemma declaration_loop_good:
  "list_all good_declaration ds \<Longrightarrow> list_all good_declaration (fst (declaration_loop ts ds))"
proof (induction ts ds rule: declaration_loop.induct)
  case (1 ts ds)
  have "list_all good_declaration (add_declaration (fst (declaration_step ts)) ds)"
    using declaration_step_good [of ts] 1(2) by (simp add: add_declaration_def split: option.splits)
  then show ?case using 1(1) [OF _ refl refl] 1(2)
    by (subst declaration_loop.simps) (simp add: Let_def)
qed

definition good_rule :: "css_rule \<Rightarrow> bool" where
  "good_rule r \<longleftrightarrow> rule_selectors r \<noteq> [] \<and> list_all trimmed_text (rule_selectors r) \<and>
     list_all good_declaration (rule_declarations r)"

lemma rule_loop_good:
  assumes "list_all good_rule sheet" and "sorted_wrt (<) (map rule_source_order sheet)"
    and "\<forall>r \<in> set sheet. rule_source_order r < k"
  shows "list_all good_rule (rule_loop ts k sheet) \<and>
    sorted_wrt (<) (map rule_source_order (rule_loop ts k sheet))"
  using assms
proof (induction ts k sheet rule: rule_loop.induct)
  case (1 ts k sheet)
  let ?ts1 = "dropWhile (\<lambda>t. \<not> is_significant t) ts"
  let ?r = "selector_loop ?ts1 [] []"
  let ?d = "declaration_loop (snd (snd ?r)) []"
  let ?rule = "\<lparr> rule_selectors = fst (snd ?r), rule_declarations = fst ?d, rule_source_order = k \<rparr>"
  let ?sheet = "if fst (snd ?r) \<noteq> [] then sheet @ [?rule] else sheet"
  show ?case
  proof (cases "at_end ts \<or> \<not> fst ?r")
    case True
    then show ?thesis using 1(2,3) by (subst (1 2) rule_loop.simps) (auto simp: Let_def)
  next
    case False
    then have e: "\<not> at_end ts" and f: "\<not> \<not> fst ?r" by auto
    have "rule_loop ts k sheet = rule_loop (snd ?d) (Suc k) ?sheet"
      using e f by (subst rule_loop.simps) (simp only: Let_def if_False)
    moreover have "list_all good_rule (rule_loop (snd ?d) (Suc k) ?sheet) \<and>
        sorted_wrt (<) (map rule_source_order (rule_loop (snd ?d) (Suc k) ?sheet))"
    proof (rule 1(1) [OF e refl refl f refl refl refl])
      show "list_all good_rule ?sheet"
        using 1(2) selector_loop_trimmed [of "[]" ?ts1 "[]"] declaration_loop_good [of "[]" "snd (snd ?r)"]
        by (simp add: good_rule_def [of ?rule])
      show "sorted_wrt (<) (map rule_source_order ?sheet)"
        using 1(3,4) by (simp add: sorted_wrt_append)
      show "\<forall>r \<in> set ?sheet. rule_source_order r < Suc k"
        using 1(4) by auto
    qed
    ultimately show ?thesis by simp
  qed
qed

text \<open>Every style sheet \<open>CssParser::parse\<close> returns, whatever the input: each rule has at
  least one selector; selectors and property names are non-empty and trimmed, values are
  trimmed; and the rules are in strictly increasing \<open>source_order\<close>, which the cascade
  relies on to break ties.\<close>

theorem css_parse_good:
  "list_all good_rule (css_parse input) \<and> sorted_wrt (<) (map rule_source_order (css_parse input))"
  using rule_loop_good [of "[]"] by (simp add: css_parse_def parse_tokens_def)

section \<open>Parsing a rendered style sheet\<close>

definition plain_text :: "string \<Rightarrow> bool" where
  "plain_text s \<longleftrightarrow> list_all css_plain s \<and> css_trim s = s"

fun render_selectors :: "string list \<Rightarrow> string" where
  "render_selectors [] = []"
| "render_selectors [s] = s"
| "render_selectors (s # t # ss) = s @ CHR '','' # render_selectors (t # ss)"

definition render_declaration :: "css_declaration \<Rightarrow> string" where
  "render_declaration d = decl_property d @ CHR '':'' # decl_value d @ [CHR '';'']"

definition render_rule :: "css_rule \<Rightarrow> string" where
  "render_rule r = render_selectors (rule_selectors r) @ CHR ''{'' #
     concat (map render_declaration (rule_declarations r)) @ [CHR ''}'']"

definition plain_rule :: "css_rule \<Rightarrow> bool" where
  "plain_rule r \<longleftrightarrow> rule_selectors r \<noteq> [] \<and>
     list_all (\<lambda>s. s \<noteq> [] \<and> plain_text s) (rule_selectors r) \<and>
     list_all (\<lambda>d. decl_property d \<noteq> [] \<and> plain_text (decl_property d) \<and> plain_text (decl_value d))
       (rule_declarations r)"

lemma css_trim_hd: "css_trim s = s \<Longrightarrow> s \<noteq> [] \<Longrightarrow> \<not> isspace (hd s)"
proof
  assume t: "css_trim s = s" and ne: "s \<noteq> []" and sp: "isspace (hd s)"
  then obtain c cs where s: "s = c # cs" by (cases s) auto
  have "length (css_trim s) \<le> length (dropWhile isspace s)"
    using length_dropWhile_le [of isspace "rev (dropWhile isspace s)"] by (simp add: css_trim_def trim_by_def)
  also have "\<dots> < length s" using sp s length_dropWhile_le [of isspace cs] by simp
  finally show False using t by simp
qed

lemma ordinary_whitespace_hd:
  "ordinary t \<Longrightarrow> ctok_type t = Whitespace \<Longrightarrow> isspace (hd (ctok_value t))"
  by (cases "ctok_value t") (auto simp: ordinary_def css_is_whitespace_def isspace_def)

text \<open>Tokens that spell a text without leading white space are not skipped.\<close>

lemma no_leading_whitespace:
  assumes "list_all ordinary ts" and "concat (map ctok_value ts) = u" and "u \<noteq> []" and "css_trim u = u"
  shows "\<exists>t ts'. ts = t # ts' \<and> ctok_type t \<noteq> Whitespace"
proof (cases ts)
  case Nil
  then show ?thesis using assms(2,3) by simp
next
  case (Cons t ts')
  have "hd u = hd (ctok_value t)" using assms(1,2) Cons by (cases "ctok_value t") (auto simp: ordinary_def)
  then have "ctok_type t \<noteq> Whitespace"
    using ordinary_whitespace_hd [of t] css_trim_hd [OF assms(4,3)] assms(1) Cons by auto
  then show ?thesis using Cons by simp
qed

lemma selector_loop_ordinary:
  "list_all ordinary ts \<Longrightarrow>
    selector_loop (ts @ ts') ss sel = selector_loop ts' ss (sel @ concat (map ctok_value ts))"
  by (induction ts arbitrary: sel) (auto simp: ordinary_def)

lemma dropWhile_ordinary:
  "list_all ordinary ts \<Longrightarrow> ctok_type t = Colon \<or> ctok_type t = CloseBrace \<Longrightarrow>
    dropWhile (\<lambda>t. \<not> stops_property t) (ts @ t # ts') = t # ts' \<and>
    takeWhile (\<lambda>t. \<not> stops_property t) (ts @ t # ts') = ts"
  "list_all ordinary ts \<Longrightarrow> ctok_type t = Semicolon \<or> ctok_type t = CloseBrace \<Longrightarrow>
    dropWhile (\<lambda>t. \<not> stops_value t) (ts @ t # ts') = t # ts' \<and>
    takeWhile (\<lambda>t. \<not> stops_value t) (ts @ t # ts') = ts"
  by (induction ts) (auto simp: ordinary_def stops_property_def stops_value_def)

text \<open>A plain text followed by a structural character, as tokens.\<close>

lemma css_tokens_chunk:
  assumes "css_rest s = u @ d # w" and "list_all css_plain u" and "css_structural d"
  shows "\<exists>ts tok t. css_tokens s = ts @ tok # css_tokens t \<and> concat (map ctok_value ts) = u \<and>
    list_all ordinary ts \<and> ctok_type tok = delimiter_type d \<and> css_rest t = w"
proof -
  obtain ts s' where ts: "css_tokens s = ts @ css_tokens s'" "concat (map ctok_value ts) = u"
      "css_rest s' = d # w" "list_all ordinary ts"
    by (rule css_tokens_plain [OF assms(1,2)]) (use assms(3) in auto)
  show ?thesis
    by (rule exI [of _ ts], rule exI [of _ "css_make_token (delimiter_type d) [d] (css_line s') (css_column s')"],
        rule exI [of _ "css_consume s'"])
      (use ts css_tokens_structural [OF ts(3) assms(3)] in simp)
qed

lemma structural_types [simp]:
  "delimiter_type (CHR ''{'') = OpenBrace" "delimiter_type (CHR ''}'') = CloseBrace"
  "delimiter_type (CHR '':'') = Colon" "delimiter_type (CHR '';'') = Semicolon"
  "delimiter_type (CHR '','') = Comma"
  "css_structural (CHR ''{'')" "css_structural (CHR ''}'')" "css_structural (CHR '':'')"
  "css_structural (CHR '';'')" "css_structural (CHR '','')"
  by (simp_all add: delimiter_type_def css_structural_def)

lemma selectors_parsed:
  assumes "css_rest s = render_selectors sels @ CHR ''{'' # w" and "sels \<noteq> []"
    and "list_all (\<lambda>s. s \<noteq> [] \<and> plain_text s) sels"
  shows "\<exists>t. css_rest t = w \<and> selector_loop (css_tokens s) ss [] = (True, ss @ sels, css_tokens t)"
  using assms
proof (induction sels arbitrary: s ss rule: render_selectors.induct)
  case 1
  then show ?case by simp
next
  case (2 x)
  obtain ts tok t where ts: "css_tokens s = ts @ tok # css_tokens t" "concat (map ctok_value ts) = x"
      "list_all ordinary ts" "ctok_type tok = OpenBrace" "css_rest t = w"
    using css_tokens_chunk [of s x "CHR ''{''" w] 2 by (auto simp: plain_text_def)
  then show ?case using 2 selector_loop_ordinary [OF ts(3)]
    by (auto simp: push_selector_def plain_text_def intro!: exI [of _ t])
next
  case (3 x y xs)
  obtain ts tok t where ts: "css_tokens s = ts @ tok # css_tokens t" "concat (map ctok_value ts) = x"
      "list_all ordinary ts" "ctok_type tok = Comma"
      "css_rest t = render_selectors (y # xs) @ CHR ''{'' # w"
    using css_tokens_chunk [of s x "CHR '',''" "render_selectors (y # xs) @ CHR ''{'' # w"] 3
    by (auto simp: plain_text_def)
  then show ?case using 3(1) [OF ts(5), of "ss @ [x]"] 3(3,4) selector_loop_ordinary [OF ts(3)]
    by (auto simp: push_selector_def plain_text_def)
qed

lemma selectors_significant:
  assumes "css_rest s = render_selectors sels @ CHR ''{'' # w" and "sels \<noteq> []"
    and "list_all (\<lambda>s. s \<noteq> [] \<and> plain_text s) sels"
  shows "dropWhile (\<lambda>t. \<not> is_significant t) (css_tokens s) = css_tokens s \<and> \<not> at_end (css_tokens s)"
proof -
  obtain x d w' where x: "css_rest s = x @ d # w'" "css_structural d" "x \<noteq> []" "plain_text x"
    using assms by (cases sels rule: render_selectors.cases) auto
  obtain ts tok t where ts: "css_tokens s = ts @ tok # css_tokens t" "concat (map ctok_value ts) = x"
      "list_all ordinary ts"
    using css_tokens_chunk [OF x(1) _ x(2)] x(4) by (auto simp: plain_text_def)
  obtain t' ts' where "ts = t' # ts'" "ctok_type t' \<noteq> Whitespace"
    using no_leading_whitespace [OF ts(3,2) x(3)] x(4) by (auto simp: plain_text_def)
  then show ?thesis using ts(1,3) by (auto simp: is_significant_def at_end_def ordinary_def)
qed

lemma declaration_parsed:
  assumes "css_rest s = p @ CHR '':'' # v @ e # w" and "p \<noteq> []" and "plain_text p" and "plain_text v"
    and "e = CHR '';'' \<or> e = CHR ''}''"
  shows "\<exists>t. css_rest t = w \<and> \<not> at_end (css_tokens s) \<and> declaration_step (css_tokens s) =
    (Some \<lparr> decl_property = p, decl_value = v \<rparr>, e = CHR '';'', css_tokens t)"
proof -
  obtain ps c s1 where ps: "css_tokens s = ps @ c # css_tokens s1" "concat (map ctok_value ps) = p"
      "list_all ordinary ps" "ctok_type c = Colon" "css_rest s1 = v @ e # w"
    using css_tokens_chunk [OF assms(1)] assms(3) by (auto simp: plain_text_def)
  have e: "css_structural e" using assms(5) by auto
  obtain vs f s2 where vs: "css_tokens s1 = vs @ f # css_tokens s2" "concat (map ctok_value vs) = v"
      "list_all ordinary vs" "ctok_type f = delimiter_type e" "css_rest s2 = w"
    using css_tokens_chunk [OF ps(5) _ e] assms(4) by (auto simp: plain_text_def)
  obtain t ts where t: "ps = t # ts" "ctok_type t \<noteq> Whitespace"
    using no_leading_whitespace [OF ps(3,2) assms(2)] assms(3) by (auto simp: plain_text_def)
  have d1: "dropWhile (\<lambda>t. ctok_type t = Whitespace) (css_tokens s) = ps @ c # css_tokens s1"
    using ps(1) t by simp
  have ne: "ps @ c # css_tokens s1 \<noteq> []" "ctok_type (hd (ps @ c # css_tokens s1)) \<noteq> CloseBrace"
    using t ps(3) by (auto simp: ordinary_def)
  have "\<not> at_end (css_tokens s)" using ps(1,3) t by (auto simp: at_end_def ordinary_def)
  moreover have "declaration_step (css_tokens s) =
    (Some \<lparr> decl_property = p, decl_value = v \<rparr>, e = CHR '';'', css_tokens s2)"
    unfolding declaration_step_def Let_def d1
    using ne dropWhile_ordinary(1) [OF ps(3), of c "css_tokens s1"]
      dropWhile_ordinary(2) [OF vs(3), of f "css_tokens s2"] ps(2,4) vs(1,2,4) assms
    by (auto simp: join_value_def plain_text_def)
  ultimately show ?thesis using vs(5) by blast
qed

lemma declarations_end:
  assumes "css_rest s = CHR ''}'' # w"
  shows "\<exists>t. css_rest t = w \<and> declaration_loop (css_tokens s) ds = (ds, css_tokens t)"
proof -
  have "css_tokens s = css_make_token CloseBrace [CHR ''}''] (css_line s) (css_column s) # css_tokens (css_consume s)"
    "css_rest (css_consume s) = w"
    using css_tokens_structural [OF assms] by simp_all
  then show ?thesis
    by (subst declaration_loop.simps)
      (auto simp: at_end_def declaration_step_def add_declaration_def intro!: exI [of _ "css_consume s"])
qed

lemma declarations_parsed:
  assumes "css_rest s = concat (map render_declaration xs) @ CHR ''}'' # w"
    and "list_all (\<lambda>d. decl_property d \<noteq> [] \<and> plain_text (decl_property d) \<and> plain_text (decl_value d)) xs"
  shows "\<exists>t. css_rest t = w \<and> declaration_loop (css_tokens s) ds = (ds @ xs, css_tokens t)"
  using assms
proof (induction xs arbitrary: s ds)
  case Nil
  then show ?case using declarations_end by simp
next
  case (Cons x xs)
  have "css_rest s = decl_property x @ CHR '':'' # decl_value x @ CHR '';'' #
      concat (map render_declaration xs) @ CHR ''}'' # w"
    using Cons.prems(1) by (simp add: render_declaration_def [of x])
  then obtain t where t: "css_rest t = concat (map render_declaration xs) @ CHR ''}'' # w"
      "\<not> at_end (css_tokens s)" "declaration_step (css_tokens s) = (Some x, True, css_tokens t)"
    using declaration_parsed [of s "decl_property x" "decl_value x" "CHR '';''"] Cons.prems(2) by auto
  have "declaration_loop (css_tokens s) ds = declaration_loop (css_tokens t) (ds @ [x])"
    using t(2,3) by (subst declaration_loop.simps) (simp add: add_declaration_def)
  then show ?case using Cons.IH [OF t(1), of "ds @ [x]"] Cons.prems(2) by simp
qed

text \<open>The source order a parsed rule gets is its position.\<close>

definition number_rules :: "nat \<Rightarrow> css_rule list \<Rightarrow> css_rule list" where
  "number_rules k rs = map (\<lambda>(i, r). r\<lparr> rule_source_order := i \<rparr>) (zip [k..<k + length rs] rs)"

lemma number_rules_simps [simp]:
  "number_rules k [] = []"
  "number_rules k (r # rs) = r\<lparr> rule_source_order := k \<rparr> # number_rules (Suc k) rs"
  by (simp_all add: number_rules_def upt_conv_Cons del: upt_Suc)

lemma rule_round:
  assumes "\<not> at_end ts" and "dropWhile (\<lambda>t. \<not> is_significant t) ts = ts"
    and "selector_loop ts [] [] = (True, sels, ts')" and "sels \<noteq> []"
    and "declaration_loop ts' [] = (ds, ts'')"
  shows "rule_loop ts k sheet = rule_loop ts'' (Suc k)
    (sheet @ [\<lparr> rule_selectors = sels, rule_declarations = ds, rule_source_order = k \<rparr>])"
  using assms by (subst rule_loop.simps) (simp add: Let_def)

lemma rule_parsed:
  assumes "css_rest s = render_rule r @ w" and "plain_rule r"
  shows "\<exists>t. css_rest t = w \<and>
    rule_loop (css_tokens s) k sheet = rule_loop (css_tokens t) (Suc k) (sheet @ [r\<lparr> rule_source_order := k \<rparr>])"
proof -
  have r: "css_rest s = render_selectors (rule_selectors r) @ CHR ''{'' #
      concat (map render_declaration (rule_declarations r)) @ CHR ''}'' # w"
    using assms(1) by (simp add: render_rule_def)
  have p: "rule_selectors r \<noteq> []" "list_all (\<lambda>s. s \<noteq> [] \<and> plain_text s) (rule_selectors r)"
    using assms(2) by (simp_all add: plain_rule_def)
  obtain t where t: "css_rest t = concat (map render_declaration (rule_declarations r)) @ CHR ''}'' # w"
      "selector_loop (css_tokens s) [] [] = (True, rule_selectors r, css_tokens t)"
    using selectors_parsed [OF r p, of "[]"] by auto
  obtain u where u: "css_rest u = w" "declaration_loop (css_tokens t) [] = (rule_declarations r, css_tokens u)"
    using declarations_parsed [OF t(1), of "[]"] assms(2) by (auto simp: plain_rule_def)
  have sig: "dropWhile (\<lambda>t. \<not> is_significant t) (css_tokens s) = css_tokens s" "\<not> at_end (css_tokens s)"
    using selectors_significant [OF r p] by simp_all
  have eq: "r\<lparr> rule_source_order := k \<rparr> = \<lparr> rule_selectors = rule_selectors r,
      rule_declarations = rule_declarations r, rule_source_order = k \<rparr>"
    by (cases r) simp
  show ?thesis unfolding eq
    using rule_round [OF sig(2,1) t(2) p(1) u(2), of k sheet] u(1) by (intro exI [of _ u]) simp
qed

lemma rule_loop_end: "css_rest s = [] \<Longrightarrow> rule_loop (css_tokens s) k sheet = sheet"
  by (subst rule_loop.simps, subst css_tokens.simps) (simp add: css_eof_rest at_end_def)

lemma rules_parsed:
  assumes "css_rest s = concat (map render_rule rs)" and "list_all plain_rule rs"
  shows "rule_loop (css_tokens s) k sheet = sheet @ number_rules k rs"
  using assms
proof (induction rs arbitrary: s k sheet)
  case Nil
  then show ?case by (simp add: rule_loop_end)
next
  case (Cons r rs)
  obtain t where t: "css_rest t = concat (map render_rule rs)" "rule_loop (css_tokens s) k sheet =
      rule_loop (css_tokens t) (Suc k) (sheet @ [r\<lparr> rule_source_order := k \<rparr>])"
    using rule_parsed [of s r "concat (map render_rule rs)" k sheet] Cons.prems by auto
  then show ?case using Cons.IH [OF t(1)] Cons.prems(2) by simp
qed

lemma new_css_tokenizer_rest [simp]: "css_rest (new_css_tokenizer input) = input"
  by (simp add: css_rest_def new_css_tokenizer_def)

text \<open>C9: Parsing inverts rendering: a style sheet of plain rules (no quotes, slashes or
  structural characters inside trimmed selectors, property names and values), written out
  and parsed again, comes back exactly, with the rules numbered in order.\<close>

theorem css_parse_render:
  assumes "list_all plain_rule rs"
  shows "css_parse (concat (map render_rule rs)) = number_rules 0 rs"
  using rules_parsed [OF _ assms, of "new_css_tokenizer (concat (map render_rule rs))" 0 "[]"]
  by (simp add: css_parse_def parse_tokens_def css_tokenize_def)

lemma plain_text_code:
  "plain_text s \<longleftrightarrow> list_all css_plain s \<and> (s = [] \<or> \<not> isspace (hd s) \<and> \<not> isspace (last s))"
proof (cases s rule: rev_cases)
  case Nil
  then show ?thesis by (simp add: plain_text_def css_trim_def)
next
  case (snoc u d)
  have "css_trim s = s" if "\<not> isspace (hd s)" "\<not> isspace (last s)"
  proof -
    have "dropWhile isspace s = s" using that(1) by (cases s) auto
    then show ?thesis using that(2) snoc by (simp add: css_trim_def trim_by_def)
  qed
  moreover have "\<not> isspace (last s)" if "css_trim s = s"
  proof
    assume "isspace (last s)"
    then have "last s = d" "isspace d" using snoc by simp_all
    have "length (dropWhile isspace (rev (dropWhile isspace s))) = length s"
      using that by (metis css_trim_def length_rev trim_by_def)
    moreover have "length (dropWhile isspace s) \<le> length s" by (rule length_dropWhile_le)
    moreover have "length (dropWhile isspace (rev (dropWhile isspace s))) \<le> length (dropWhile isspace s)"
      using length_dropWhile_le [of isspace "rev (dropWhile isspace s)"] by simp
    ultimately have "dropWhile isspace s = s"
      by (metis append_self_conv2 le_antisym length_append length_0_conv add_cancel_left_left takeWhile_dropWhile_id)
    then have "dropWhile isspace (rev s) = dropWhile isspace (rev u)"
      using snoc \<open>isspace d\<close> by simp
    then show False
      using length_dropWhile_le [of isspace "rev u"] snoc \<open>dropWhile isspace s = s\<close>
        \<open>length (dropWhile isspace (rev (dropWhile isspace s))) = length s\<close> by simp
  qed
  ultimately show ?thesis using css_trim_hd [of s] snoc by (auto simp: plain_text_def)
qed

lemma css_parse_render_witness:
  "css_parse ''h1,.x{color:red;margin:0 auto;}p{}'' =
    [\<lparr> rule_selectors = [''h1'', ''.x''],
       rule_declarations = [\<lparr> decl_property = ''color'', decl_value = ''red'' \<rparr>,
                            \<lparr> decl_property = ''margin'', decl_value = ''0 auto'' \<rparr>],
       rule_source_order = 0 \<rparr>,
     \<lparr> rule_selectors = [''p''], rule_declarations = [], rule_source_order = 1 \<rparr>]"
proof -
  let ?r = "\<lparr> rule_selectors = [''h1'', ''.x''],
       rule_declarations = [\<lparr> decl_property = ''color'', decl_value = ''red'' \<rparr>,
                            \<lparr> decl_property = ''margin'', decl_value = ''0 auto'' \<rparr>],
       rule_source_order = 0 \<rparr>"
  let ?q = "\<lparr> rule_selectors = [''p''], rule_declarations = [], rule_source_order = 1 \<rparr>"
  have "plain_rule ?r" "plain_rule ?q"
    by (simp_all add: plain_rule_def plain_text_code css_plain_def css_structural_def isspace_def)
  then show ?thesis using css_parse_render [of "[?r, ?q]"]
    by (simp add: render_rule_def render_declaration_def)
qed

text \<open>A stray semicolon swallows the declaration after it.  In a rule whose block starts
  with an empty declaration, \<open>sel { ; p : v }\<close>, the semicolon is taken as part of the next
  property name, so the rule declares \<open>;p\<close> and no \<open>p\<close>.\<close>

theorem stray_semicolon_swallows:
  assumes "sel \<noteq> []" and "plain_text sel" and "p \<noteq> []" and "plain_text p" and "plain_text v"
  shows "css_parse (sel @ CHR ''{'' # CHR '';'' # p @ CHR '':'' # v @ [CHR ''}'']) =
    [\<lparr> rule_selectors = [sel], rule_declarations = [\<lparr> decl_property = CHR '';'' # p, decl_value = v \<rparr>],
       rule_source_order = 0 \<rparr>]"
proof -
  let ?s = "new_css_tokenizer (sel @ CHR ''{'' # CHR '';'' # p @ CHR '':'' # v @ [CHR ''}''])"
  have r: "css_rest ?s = render_selectors [sel] @ CHR ''{'' # CHR '';'' # p @ CHR '':'' # v @ [CHR ''}'']" by simp
  have p: "[sel] \<noteq> []" "list_all (\<lambda>s. s \<noteq> [] \<and> plain_text s) [sel]" using assms by simp_all
  obtain t where t: "css_rest t = CHR '';'' # p @ CHR '':'' # v @ [CHR ''}'']"
      "selector_loop (css_tokens ?s) [] [] = (True, [sel], css_tokens t)"
    using selectors_parsed [OF r p, of "[]"] by auto
  let ?semi = "css_make_token Semicolon [CHR '';''] (css_line t) (css_column t)"
  let ?t = "css_consume t"
  have tt: "css_tokens t = ?semi # css_tokens ?t" "css_rest ?t = p @ CHR '':'' # v @ [CHR ''}'']"
    using css_tokens_structural [OF t(1)] by simp_all
  obtain ps c s1 where ps: "css_tokens ?t = ps @ c # css_tokens s1" "concat (map ctok_value ps) = p"
      "list_all ordinary ps" "ctok_type c = Colon" "css_rest s1 = v @ [CHR ''}'']"
    using css_tokens_chunk [OF tt(2)] assms(4) by (auto simp: plain_text_def)
  obtain vs f s2 where vs: "css_tokens s1 = vs @ f # css_tokens s2" "concat (map ctok_value vs) = v"
      "list_all ordinary vs" "ctok_type f = CloseBrace" "css_rest s2 = []"
    using css_tokens_chunk [OF ps(5)] assms(5) by (auto simp: plain_text_def)
  have tp: "css_trim (CHR '';'' # p) = CHR '';'' # p"
    using assms(3,4) plain_text_code [of p] by (cases p rule: rev_cases)
      (auto simp: css_trim_def trim_by_def isspace_def)
  have "declaration_step (css_tokens t) =
      (Some \<lparr> decl_property = CHR '';'' # p, decl_value = v \<rparr>, False, css_tokens s2)"
    unfolding declaration_step_def Let_def tt(1)
    using dropWhile_ordinary(1) [OF ps(3), of c "css_tokens s1"]
      dropWhile_ordinary(2) [OF vs(3), of f "css_tokens s2"] ps(1,2,4) vs(1,2,4) assms tp
    by (simp add: join_value_def plain_text_def stops_property_def)
  then have d: "declaration_loop (css_tokens t) [] =
      ([\<lparr> decl_property = CHR '';'' # p, decl_value = v \<rparr>], css_tokens s2)"
    using tt(1) by (subst declaration_loop.simps) (simp add: at_end_def add_declaration_def)
  have sig: "dropWhile (\<lambda>t. \<not> is_significant t) (css_tokens ?s) = css_tokens ?s" "\<not> at_end (css_tokens ?s)"
    using selectors_significant [OF r p] by simp_all
  show ?thesis
    using rule_round [OF sig(2,1) t(2) p(1) d, of 0 "[]"] rule_loop_end [OF vs(5)]
    by (simp add: css_parse_def parse_tokens_def css_tokenize_def)
qed

lemma stray_semicolon_swallows_witness:
  "css_parse ''p{;color:red}'' =
    [\<lparr> rule_selectors = [''p''], rule_declarations = [\<lparr> decl_property = '';color'', decl_value = ''red'' \<rparr>],
       rule_source_order = 0 \<rparr>]"
proof -
  have "plain_text ''p''" "plain_text ''color''" "plain_text ''red''"
    by (simp_all add: plain_text_code css_plain_def css_structural_def isspace_def)
  then show ?thesis using stray_semicolon_swallows [of "''p''" "''color''" "''red''"] by simp
qed

end
