(* ===== verification/Style.thy ===== *)
theory Style
  imports Visual_State Css_Parser "HOL-Library.Product_Lexorder"
begin

text \<open>
  \<open>style.hpp\<close> and \<open>style.cpp\<close>: selector matching, the cascade, inheritance and initial
  values.  Shown: that the greedy walk up the ancestors decides exactly the declarative
  meaning of the parsed selector; that the parsed selector is not always the written one
  (after a child combinator every later combinator is a child combinator); and who wins the
  cascade.
\<close>

section \<open>Computed properties\<close>

type_synonym style_properties = "(string \<times> string) list"

definition style_set :: "string \<Rightarrow> string \<Rightarrow> style_properties \<Rightarrow> style_properties" where
  "style_set property v ps = AList.update property v ps"

definition style_get :: "style_properties \<Rightarrow> string \<Rightarrow> string option" where
  "style_get ps property = map_of ps property"

definition style_contains :: "style_properties \<Rightarrow> string \<Rightarrow> bool" where
  "style_contains ps property \<longleftrightarrow> style_get ps property \<noteq> None"

definition inherited_properties :: "string list" where
  "inherited_properties =
     [''color'', ''font-family'', ''font-size'', ''font-weight'', ''line-height'', ''text-align'',
      ''text-decoration'', ''white-space'', ''letter-spacing'', ''word-spacing'']"

definition inherit_one :: "style_properties \<Rightarrow> string \<Rightarrow> style_properties \<Rightarrow> style_properties" where
  "inherit_one parent property ps =
     (if \<not> style_contains ps property
      then (case style_get parent property of Some v \<Rightarrow> style_set property v ps | None \<Rightarrow> ps)
      else ps)"

definition inherit_from :: "style_properties \<Rightarrow> style_properties \<Rightarrow> style_properties" where
  "inherit_from parent ps = fold (inherit_one parent) inherited_properties ps"

lemma style_get_set [simp]:
  "style_get (style_set p v ps) q = (if q = p then Some v else style_get ps q)"
  by (simp add: style_get_def style_set_def update_conv)

lemma style_get_Nil [simp]: "style_get [] q = None"
  by (simp add: style_get_def)

section \<open>Reading words and lines\<close>

text \<open>\<open>while (stream >> token)\<close> on an \<open>istringstream\<close>: the maximal runs without white space.\<close>

function stream_words :: "string \<Rightarrow> string list" where
  "stream_words s =
     (let s1 = dropWhile isspace s in
      if s1 = [] then []
      else takeWhile (\<lambda>c. \<not> isspace c) s1 # stream_words (dropWhile (\<lambda>c. \<not> isspace c) s1))"
  by pat_completeness auto
termination
proof (relation "measure length", simp)
  fix s s1 :: string
  assume s1: "s1 = dropWhile isspace s" "s1 \<noteq> []"
  then obtain c cs where c: "s1 = c # cs" "\<not> isspace c"
    by (cases s1) (metis hd_dropWhile list.sel(1))+
  have "length (dropWhile (\<lambda>c. \<not> isspace c) s1) < length s1"
    using c length_dropWhile_le [of "\<lambda>c. \<not> isspace c" cs] by simp
  also have "\<dots> \<le> length s" using s1(1) length_dropWhile_le by simp
  finally show "(dropWhile (\<lambda>c. \<not> isspace c) s1, s) \<in> measure length" by simp
qed

declare stream_words.simps [simp del]

text \<open>\<open>while (getline(stream, line, ';'))\<close>: no empty line after a final delimiter.\<close>

fun getlines :: "char \<Rightarrow> string \<Rightarrow> string \<Rightarrow> string list" where
  "getlines d acc [] = (if acc = [] then [] else [acc])"
| "getlines d acc (c # cs) = (if c = d then acc # getlines d [] cs else getlines d (acc @ [c]) cs)"

section \<open>Declarations\<close>

definition apply_four_sides :: "string \<Rightarrow> string \<Rightarrow> style_properties \<Rightarrow> style_properties" where
  "apply_four_sides base v ps =
     (let values = stream_words v in
      if values = [] then ps
      else
        let top = values ! 0;
            right = (if length values > 1 then values ! 1 else top);
            bottom = (if length values > 2 then values ! 2 else top);
            lft = (if length values > 3 then values ! 3 else right)
        in style_set (base @ ''-left'') lft (style_set (base @ ''-bottom'') bottom
             (style_set (base @ ''-right'') right (style_set (base @ ''-top'') top ps))))"

definition set_if :: "string \<Rightarrow> string option \<Rightarrow> style_properties \<Rightarrow> style_properties" where
  "set_if property v ps = (case v of None \<Rightarrow> ps | Some x \<Rightarrow> style_set property x ps)"

definition apply_border_token :: "string \<Rightarrow> style_properties \<Rightarrow> style_properties" where
  "apply_border_token token ps =
     (if token \<in> set [''solid'', ''dashed'', ''dotted'', ''none''] then style_set ''border-style'' token ps
      else if isdigit (hd token) \<or> hd token = CHR ''.'' then
        style_set ''border-left-width'' token (style_set ''border-bottom-width'' token
          (style_set ''border-right-width'' token (style_set ''border-top-width'' token ps)))
      else style_set ''border-color'' token ps)"

definition background_keywords :: "string list" where
  "background_keywords =
     [''repeat'', ''no-repeat'', ''repeat-x'', ''repeat-y'', ''center'', ''left'', ''right'', ''top'',
      ''bottom'', ''fixed'', ''scroll'', ''cover'', ''contain'']"

fun background_color :: "string list \<Rightarrow> string option" where
  "background_color [] = None"
| "background_color (token # ts) =
     (if find_sub ''url('' token \<noteq> None then background_color ts
      else if token \<in> set background_keywords then background_color ts
      else Some token)"

definition background_image :: "string \<Rightarrow> string option" where
  "background_image v =
     (case find_sub ''url('' v of None \<Rightarrow> None
      | Some url_pos \<Rightarrow>
          (case find_idx_from (\<lambda>c. c = CHR '')'') v url_pos of
             None \<Rightarrow> Some (drop url_pos v)
           | Some url_end \<Rightarrow> Some (take (url_end - url_pos + 1) (drop url_pos v))))"

definition apply_declaration :: "css_declaration \<Rightarrow> style_properties \<Rightarrow> style_properties" where
  "apply_declaration d ps =
     (let property = decl_property d; v = decl_value d in
      if property = ''margin'' \<or> property = ''padding'' then apply_four_sides property v ps
      else if property = ''border-width'' then
        let ps1 = apply_four_sides ''border'' v ps;
            top = style_get ps1 ''border-top''; right = style_get ps1 ''border-right'';
            bottom = style_get ps1 ''border-bottom''; lft = style_get ps1 ''border-left''
        in set_if ''border-left-width'' lft (set_if ''border-bottom-width'' bottom
             (set_if ''border-right-width'' right (set_if ''border-top-width'' top ps1)))
      else if property = ''border-radius'' then
        (case stream_words v of [] \<Rightarrow> ps | first # _ \<Rightarrow> style_set ''border-radius'' first ps)
      else if property = ''border'' then fold apply_border_token (stream_words v) ps
      else if property = ''background'' then
        let ps1 = set_if ''background-image'' (background_image v) ps
        in set_if ''background-color'' (background_color (stream_words v)) ps1
      else style_set property v ps)"

definition inline_blank :: "char \<Rightarrow> bool" where
  "inline_blank c \<longleftrightarrow> c = CHR '' '' \<or> c = CHR 0x09 \<or> c = CHR 0x0D \<or> c = CHR 0x0A"

definition inline_declaration :: "string \<Rightarrow> css_declaration option" where
  "inline_declaration declaration =
     (case find_idx (\<lambda>c. c = CHR '':'') declaration of None \<Rightarrow> None
      | Some colon \<Rightarrow>
          let property = trim_by inline_blank (take colon declaration);
              v = trim_by inline_blank (drop (colon + 1) declaration)
          in if property = [] \<or> v = [] then None
             else Some \<lparr> decl_property = property, decl_value = v \<rparr>)"

definition apply_inline_one :: "string \<Rightarrow> style_properties \<Rightarrow> style_properties" where
  "apply_inline_one declaration ps =
     (case inline_declaration declaration of None \<Rightarrow> ps | Some d \<Rightarrow> apply_declaration d ps)"

definition apply_inline :: "string \<Rightarrow> style_properties \<Rightarrow> style_properties" where
  "apply_inline s ps = fold apply_inline_one (getlines (CHR '';'') [] s) ps"

section \<open>Initial values\<close>

definition set_default :: "string \<Rightarrow> string \<Rightarrow> style_properties \<Rightarrow> style_properties" where
  "set_default key v ps = (if \<not> style_contains ps key then style_set key v ps else ps)"

definition is_form_control :: "dom_node \<Rightarrow> bool" where
  "is_form_control n \<longleftrightarrow> node_type n = ElementNode \<and>
     node_name n \<in> set [''input'', ''textarea'', ''select'', ''button'']"

definition initial_values :: "dom_node \<Rightarrow> (string \<times> string) list" where
  "initial_values n =
     [(''display'', if node_type n = TextNode then ''inline''
                    else if is_form_control n then ''inline-block'' else ''block''),
      (''color'', ''black''), (''font-size'', ''16px''), (''line-height'', ''normal''),
      (''white-space'', ''normal''), (''opacity'', ''1''), (''position'', ''static''),
      (''border-style'', ''solid''), (''border-radius'', ''0''), (''overflow'', ''visible''),
      (''z-index'', ''auto''), (''background-repeat'', ''repeat''), (''background-position'', ''0 0''),
      (''background-size'', ''auto''), (''object-fit'', ''fill'')] @
     (if is_form_control n
      then [(''border-width'', ''1px''), (''padding'', ''4px''), (''background-color'', ''white'')]
      else [])"

definition apply_initial_values :: "dom_node \<Rightarrow> style_properties \<Rightarrow> style_properties" where
  "apply_initial_values n ps = fold (\<lambda>(k, v). set_default k v) (initial_values n) ps"

section \<open>Selectors\<close>

definition part_marker :: "char \<Rightarrow> bool" where
  "part_marker c \<longleftrightarrow> c = CHR ''#'' \<or> c = CHR ''.'' \<or> c = CHR '':''"

text \<open>The parsed compound selector: tag, id, classes and pseudo-classes.\<close>

record compound =
  comp_tag :: string
  comp_id :: string
  comp_classes :: "string list"
  comp_pseudo :: "string list"

definition add_part :: "char \<Rightarrow> string \<Rightarrow> compound \<Rightarrow> compound" where
  "add_part marker v c =
     (if marker = CHR ''#'' then c\<lparr> comp_id := v \<rparr>
      else if marker = CHR ''.'' \<and> v \<noteq> [] then c\<lparr> comp_classes := comp_classes c @ [v] \<rparr>
      else if marker = CHR '':'' \<and> v \<noteq> [] then c\<lparr> comp_pseudo := comp_pseudo c @ [v] \<rparr>
      else c)"

function compound_loop :: "string \<Rightarrow> compound \<Rightarrow> compound" where
  "compound_loop [] c = c"
| "compound_loop (marker # cs) c =
     compound_loop (dropWhile (\<lambda>x. \<not> part_marker x) cs)
       (add_part marker (takeWhile (\<lambda>x. \<not> part_marker x) cs) c)"
  by pat_completeness auto
termination
  by (relation "measure (\<lambda>(cs, c). length cs)") (auto simp: less_Suc_eq_le length_dropWhile_le)

definition parse_compound :: "string \<Rightarrow> compound" where
  "parse_compound s =
     compound_loop (dropWhile (\<lambda>x. \<not> part_marker x) s)
       \<lparr> comp_tag = takeWhile (\<lambda>x. \<not> part_marker x) s, comp_id = [], comp_classes = [], comp_pseudo = [] \<rparr>"

definition matches_pseudo :: "visual_state option \<Rightarrow> node_path \<Rightarrow> string \<Rightarrow> bool" where
  "matches_pseudo vis p pseudo =
     (case vis of None \<Rightarrow> False
      | Some st \<Rightarrow>
          if pseudo = ''hover'' then hovered st = Some p
          else if pseudo = ''focus'' then focused st = Some p
          else if pseudo = ''active'' then active st = Some p
          else False)"

definition matches_simple :: "dom_node \<Rightarrow> visual_state option \<Rightarrow> string \<Rightarrow> node_path \<Rightarrow> bool" where
  "matches_simple doc vis selector p =
     (case node_at doc p of None \<Rightarrow> False
      | Some node \<Rightarrow>
          if node_type node \<noteq> ElementNode then False
          else if selector = [] then False
          else
            let c = parse_compound selector in
            if comp_tag c \<noteq> [] \<and> comp_tag c \<noteq> ''*'' \<and> node_name node \<noteq> comp_tag c then False
            else if comp_id c \<noteq> [] \<and> attribute node ''id'' \<noteq> Some (comp_id c) then False
            else if comp_classes c \<noteq> [] \<and>
              (case attribute node ''class'' of None \<Rightarrow> True
               | Some v \<Rightarrow> \<not> list_all (\<lambda>required. required \<in> set (stream_words v)) (comp_classes c)) then False
            else list_all (matches_pseudo vis p) (comp_pseudo c))"

text \<open>Splitting at combinators; the state is \<open>(parts, current, pending, have_part)\<close>.\<close>

type_synonym selector_part = "char \<times> string"

type_synonym split_state = "selector_part list \<times> string \<times> char \<times> bool"

definition is_combinator :: "char \<Rightarrow> bool" where
  "is_combinator c \<longleftrightarrow> c = CHR ''>'' \<or> isspace c"

fun flush_part :: "split_state \<Rightarrow> split_state" where
  "flush_part (parts, current, pending, have_part) =
     (if have_part then (parts @ [(pending, current)], [], pending, False)
      else (parts, current, pending, have_part))"

fun split_step :: "char \<Rightarrow> split_state \<Rightarrow> split_state" where
  "split_step c (parts, current, pending, have_part) =
     (if c = CHR ''>'' then
        (case flush_part (parts, current, pending, have_part) of (ps, cur, pend, hv) \<Rightarrow> (ps, cur, CHR ''>'', hv))
      else if isspace c then
        (case flush_part (parts, current, pending, have_part) of (ps, cur, pend, hv) \<Rightarrow>
           (ps, cur, if pend \<noteq> CHR ''>'' then CHR '' '' else pend, hv))
      else (parts, current @ [c], pending, True))"

definition selector_parts :: "string \<Rightarrow> selector_part list" where
  "selector_parts selector = fst (flush_part (fold split_step selector ([], [], CHR '' '', False)))"

text \<open>The first of \<open>p\<close> and its ancestors that satisfies the test.\<close>

function find_ancestor :: "(node_path \<Rightarrow> bool) \<Rightarrow> node_path \<Rightarrow> node_path option" where
  "find_ancestor P p =
     (if P p then Some p else if p = [] then None else find_ancestor P (butlast p))"
  by pat_completeness auto
termination by (relation "measure (\<lambda>(P, p). length p)") auto

declare find_ancestor.simps [simp del]

text \<open>The walk over the remaining parts, rightmost first; \<open>combinator\<close> is that of the part
  to the right.\<close>

fun walk_parts :: "(string \<Rightarrow> node_path \<Rightarrow> bool) \<Rightarrow> node_path \<Rightarrow> char \<Rightarrow> selector_part list \<Rightarrow> bool" where
  "walk_parts simple current combinator [] = True"
| "walk_parts simple current combinator ((c, t) # ps) =
     (if combinator = CHR ''>'' then
        (case parent_path current of None \<Rightarrow> False
         | Some parent \<Rightarrow> if simple t parent then walk_parts simple parent c ps else False)
      else
        (case parent_path current of None \<Rightarrow> False
         | Some parent \<Rightarrow>
             (case find_ancestor (simple t) parent of None \<Rightarrow> False
              | Some ancestor \<Rightarrow> walk_parts simple ancestor c ps)))"

definition has_combinator :: "string \<Rightarrow> bool" where
  "has_combinator selector \<longleftrightarrow> list_ex is_combinator selector"

definition selector_matches :: "dom_node \<Rightarrow> visual_state option \<Rightarrow> string \<Rightarrow> node_path \<Rightarrow> bool" where
  "selector_matches doc vis selector p =
     (if \<not> has_combinator selector then matches_simple doc vis selector p
      else
        case rev (selector_parts selector) of [] \<Rightarrow> False
        | (c, t) # ps \<Rightarrow>
            if \<not> matches_simple doc vis t p then False
            else walk_parts (matches_simple doc vis) p c ps)"

section \<open>Matching decides the declarative meaning\<close>

text \<open>The meaning of a sequence of compounds read from the right: a child combinator asks the
  parent, a descendant combinator some ancestor.\<close>

fun chain_meaning :: "(string \<Rightarrow> node_path \<Rightarrow> bool) \<Rightarrow> node_path \<Rightarrow> char \<Rightarrow> selector_part list \<Rightarrow> bool" where
  "chain_meaning simple p combinator [] = True"
| "chain_meaning simple p combinator ((c, t) # ps) =
     (if combinator = CHR ''>''
      then p \<noteq> [] \<and> simple t (butlast p) \<and> chain_meaning simple (butlast p) c ps
      else \<exists>k < length p. simple t (take k p) \<and> chain_meaning simple (take k p) c ps)"

lemma find_ancestor_Some:
  "find_ancestor P p = Some q \<Longrightarrow>
    \<exists>k \<le> length p. q = take k p \<and> P q \<and> (\<forall>j \<le> length p. k < j \<longrightarrow> \<not> P (take j p))"
proof (induction P p rule: find_ancestor.induct)
  case (1 P p)
  show ?case
  proof (cases "P p")
    case True
    then show ?thesis using 1(2) by (subst (asm) find_ancestor.simps) (auto intro: exI [of _ "length p"])
  next
    case False
    have "(if p = [] then None else find_ancestor P (butlast p)) = Some q"
      using 1(2) False by (subst (asm) find_ancestor.simps) simp
    then have ne: "p \<noteq> []" and fa: "find_ancestor P (butlast p) = Some q"
      by (simp_all split: if_splits)
    obtain k where k: "k \<le> length (butlast p)" "q = take k (butlast p)" "P q"
        "\<forall>j \<le> length (butlast p). k < j \<longrightarrow> \<not> P (take j (butlast p))"
      using 1(1) [OF False ne fa] by blast
    have tk: "take j (butlast p) = take j p" if "j \<le> length p - 1" for j
    proof -
      have "0 < length p" using ne by simp
      then have "j < length p" using that by linarith
      then show ?thesis by (rule take_butlast)
    qed
    have "\<not> P (take j p)" if "j \<le> length p" "k < j" for j
    proof (cases "j = length p")
      case True
      then show ?thesis using False by simp
    next
      case False
      then have "j \<le> length p - 1" using that by simp
      then show ?thesis using k(4) that(2) tk by simp
    qed
    then show ?thesis using k(1-3) tk [of k] by (intro exI [of _ k]) simp
  qed
qed

lemma find_ancestor_None: "find_ancestor P p = None \<Longrightarrow> k \<le> length p \<Longrightarrow> \<not> P (take k p)"
proof (induction P p arbitrary: k rule: find_ancestor.induct)
  case (1 P p)
  have np: "\<not> P p" using 1(2) by (subst (asm) find_ancestor.simps) (simp split: if_splits)
  show ?case
  proof (cases "k = length p")
    case True
    then show ?thesis using np by simp
  next
    case False
    then have k: "k \<le> length (butlast p)" "p \<noteq> []" using 1(3) by auto
    have "find_ancestor P (butlast p) = None"
      using 1(2) np k(2) by (subst (asm) find_ancestor.simps) simp
    then have "\<not> P (take k (butlast p))" using 1(1) np k by blast
    moreover have "k < length p" using False 1(3) by simp
    ultimately show ?thesis by (simp add: take_butlast)
  qed
qed

text \<open>Descendant combinators only: a deeper start can reach all that a higher one can.\<close>

lemma chain_descendants_mono:
  assumes "\<forall>part \<in> set ps. fst part \<noteq> CHR ''>''" and "c \<noteq> CHR ''>''" and "k \<le> j"
    and "chain_meaning simple (take k p) c ps"
  shows "chain_meaning simple (take j p) c ps"
proof (cases ps)
  case Nil
  then show ?thesis by simp
next
  case (Cons a qs)
  obtain c' t where a: "a = (c', t)" by (cases a)
  obtain i where i: "i < length (take k p)" "simple t (take i (take k p))"
      "chain_meaning simple (take i (take k p)) c' qs"
    using assms(2,4) Cons a by auto
  have "take i (take k p) = take i (take j p)" "i < length (take j p)"
    using i(1) assms(3) by (simp_all add: min.absorb1)
  then show ?thesis using i assms(2) Cons a by auto
qed

text \<open>Child combinators only on the right: then the greedy walk never misses a match.\<close>

definition child_suffix :: "char \<Rightarrow> selector_part list \<Rightarrow> bool" where
  "child_suffix c ps \<longleftrightarrow> sorted_wrt (\<lambda>a b. a \<noteq> CHR ''>'' \<longrightarrow> b \<noteq> CHR ''>'') (c # map fst ps)"

lemma walk_parts_meaning:
  "child_suffix c ps \<Longrightarrow> walk_parts simple p c ps = chain_meaning simple p c ps"
proof (induction ps arbitrary: p c)
  case Nil
  then show ?case by simp
next
  case (Cons a ps)
  obtain c' t where a: "a = (c', t)" by (cases a)
  have cs: "child_suffix c' ps" using Cons.prems a by (simp add: child_suffix_def)
  show ?case
  proof (cases "c = CHR ''>''")
    case True
    then show ?thesis using Cons.IH [OF cs] a by (simp add: parent_path_def)
  next
    case False
    have desc: "c' \<noteq> CHR ''>''" "\<forall>part \<in> set ps. fst part \<noteq> CHR ''>''"
      using Cons.prems False a by (auto simp: child_suffix_def)
    show ?thesis
    proof (cases "p = []")
      case True
      then show ?thesis using False a by (simp add: parent_path_def)
    next
      case ne: False
      have tk: "take k (butlast p) = take k p" if "k < length p" for k
        using that by (rule take_butlast)
      show ?thesis
      proof (cases "find_ancestor (simple t) (butlast p)")
        case None
        have "\<not> simple t (take k p)" if "k < length p" for k
          using find_ancestor_None [OF None, of k] tk [OF that] that by simp
        then show ?thesis using None False ne a by (auto simp: parent_path_def)
      next
        case (Some q)
        obtain k where k: "k \<le> length (butlast p)" "q = take k (butlast p)" "simple t q"
            "\<forall>j \<le> length (butlast p). k < j \<longrightarrow> \<not> simple t (take j (butlast p))"
          using find_ancestor_Some [OF Some] by blast
        have "0 < length p" using ne by simp
        then have lt: "k < length p" using k(1) unfolding length_butlast by linarith
        have w: "walk_parts simple p c (a # ps) = chain_meaning simple (take k p) c' ps"
          using Some False ne a Cons.IH [OF cs] k(2) tk [OF lt] by (simp add: parent_path_def)
        have "chain_meaning simple (take k p) c' ps"
          if "j < length p" "simple t (take j p)" "chain_meaning simple (take j p) c' ps" for j
        proof -
          have "j \<le> k" using k(4) that(1,2) tk [OF that(1)] by (metis One_nat_def Suc_pred leI length_butlast length_greater_0_conv less_Suc_eq_le ne)
          then show ?thesis by (rule chain_descendants_mono [OF desc(2,1) _ that(3)])
        qed
        then show ?thesis using w False a k(2,3) lt tk [OF lt] by auto
      qed
    qed
  qed
qed

text \<open>Splitting never produces a descendant combinator after a child combinator.\<close>

definition sticky :: "char list \<Rightarrow> bool" where
  "sticky cs \<longleftrightarrow> sorted_wrt (\<lambda>a b. a = CHR ''>'' \<longrightarrow> b = CHR ''>'') cs"

lemma sticky_snoc: "sticky (xs @ [p]) \<longleftrightarrow> sticky xs \<and> (CHR ''>'' \<in> set xs \<longrightarrow> p = CHR ''>'')"
  by (auto simp: sticky_def sorted_wrt_append)

lemma sticky_split_step:
  "split_step c (ps, cur, pend, hv) = (ps', cur', pend', hv') \<Longrightarrow>
    sticky (map fst ps @ [pend]) \<Longrightarrow> sticky (map fst ps' @ [pend'])"
  by (auto simp: sticky_snoc simp del: set_map split: if_splits)

lemma sticky_fold:
  "sticky (map fst (fst st) @ [fst (snd (snd st))]) \<Longrightarrow>
   sticky (map fst (fst (fold split_step s st)) @ [fst (snd (snd (fold split_step s st)))])"
proof (induction s arbitrary: st)
  case Nil
  then show ?case by simp
next
  case (Cons c s)
  obtain ps cur pend hv where st: "st = (ps, cur, pend, hv)" by (cases st)
  obtain ps' cur' pend' hv' where st': "split_step c st = (ps', cur', pend', hv')" by (cases "split_step c st")
  have "sticky (map fst ps' @ [pend'])"
    using sticky_split_step [of c ps cur pend hv] st st' Cons.prems by simp
  then show ?case using Cons.IH [of "split_step c st"] st' by simp
qed

lemma sticky_flush:
  "sticky (map fst (fst st) @ [fst (snd (snd st))]) \<Longrightarrow> sticky (map fst (fst (flush_part st)))"
  by (cases st) (auto simp: sticky_def sorted_wrt_append)

lemma selector_parts_sticky: "sticky (map fst (selector_parts s))"
  unfolding selector_parts_def
  by (intro sticky_flush sticky_fold) (simp add: sticky_def)

lemma sticky_rev_child_suffix:
  assumes "sticky (map fst (rev ((c, t) # ps)))"
  shows "child_suffix c ps"
proof -
  have "sorted_wrt (\<lambda>a b. a = CHR ''>'' \<longrightarrow> b = CHR ''>'') (rev (c # map fst ps))"
    using assms by (simp add: sticky_def rev_map)
  then have "sorted_wrt (\<lambda>a b. b = CHR ''>'' \<longrightarrow> a = CHR ''>'') (c # map fst ps)"
    by (simp only: sorted_wrt_rev)
  then show ?thesis unfolding child_suffix_def by (rule sorted_wrt_mono_rel [rotated]) auto
qed

definition read_selector :: "string \<Rightarrow> selector_part list" where
  "read_selector s = (if has_combinator s then selector_parts s else [(CHR '' '', s)])"

text \<open>C10: Selector matching is exact for the selector as parsed: \<open>StyleResolver::matches\<close>,
  which walks up the ancestors once and takes the nearest match of each descendant
  combinator without ever backtracking, answers yes exactly when some assignment of
  ancestors to the compounds satisfies every combinator.\<close>

theorem selector_matches_iff:
  "selector_matches doc vis s p \<longleftrightarrow>
    (case rev (read_selector s) of [] \<Rightarrow> False
     | (c, t) # ps \<Rightarrow> matches_simple doc vis t p \<and> chain_meaning (matches_simple doc vis) p c ps)"
proof (cases "has_combinator s")
  case False
  then show ?thesis by (simp add: selector_matches_def read_selector_def)
next
  case True
  show ?thesis
  proof (cases "rev (selector_parts s)")
    case Nil
    then show ?thesis using True by (simp add: selector_matches_def read_selector_def)
  next
    case (Cons a ps)
    obtain c t where a: "a = (c, t)" by (cases a)
    have "selector_parts s = rev ((c, t) # ps)" using Cons a by (metis rev_rev_ident)
    then have "child_suffix c ps" using selector_parts_sticky [of s] sticky_rev_child_suffix by metis
    then show ?thesis using True Cons a walk_parts_meaning
      by (simp add: selector_matches_def read_selector_def)
  qed
qed

lemma fold_split_word:
  "\<forall>c \<in> set w. \<not> is_combinator c \<Longrightarrow>
    fold split_step w (ps, cur, pend, hv) = (ps, cur @ w, pend, hv \<or> w \<noteq> [])"
  by (induction w arbitrary: cur hv) (auto simp: is_combinator_def)

lemma isspace_values [simp]: "isspace (CHR '' '')" "\<not> isspace (CHR ''>'')"
  by (simp_all add: isspace_def)

definition compound_word :: "string \<Rightarrow> bool" where
  "compound_word w \<longleftrightarrow> w \<noteq> [] \<and> list_all (\<lambda>c. \<not> is_combinator c) w"

lemma selector_parts_two:
  assumes "compound_word a" and "compound_word b" and "compound_word c"
  shows "selector_parts (a @ CHR ''>'' # b @ CHR '' '' # c) = [(CHR '' '', a), (CHR ''>'', b), (CHR ''>'', c)]"
    and "selector_parts (a @ CHR ''>'' # b @ CHR ''>'' # c) = [(CHR '' '', a), (CHR ''>'', b), (CHR ''>'', c)]"
  using assms by (simp_all add: selector_parts_def fold_split_word compound_word_def list_all_iff)

text \<open>A descendant combinator after a child combinator is read as a child combinator: for
  any compounds \<open>a\<close>, \<open>b\<close>, \<open>c\<close>, any document and any node, the selector \<open>a>b c\<close> matches
  exactly when \<open>a>b>c\<close> does.\<close>

theorem child_combinator_sticks:
  assumes "compound_word a" and "compound_word b" and "compound_word c"
  shows "selector_matches doc vis (a @ CHR ''>'' # b @ CHR '' '' # c) p =
    selector_matches doc vis (a @ CHR ''>'' # b @ CHR ''>'' # c) p"
proof -
  have "has_combinator (a @ CHR ''>'' # b @ x # c)" for x
    by (simp add: has_combinator_def is_combinator_def)
  then show ?thesis by (simp add: selector_matches_def selector_parts_two [OF assms])
qed

text \<open>A grandchild \<open>li\<close> under \<open>div>ul\<close> is not matched by \<open>div>ul b\<close>.\<close>

lemma child_combinator_sticks_witness:
  "\<not> selector_matches
      (DomNode DocumentNode [] [] [] [DomNode ElementNode ''div'' [] [] [DomNode ElementNode ''ul'' [] []
        [DomNode ElementNode ''li'' [] [] [DomNode ElementNode ''b'' [] [] []]]]])
      None ''div>ul b'' [0, 0, 0, 0]"
proof -
  let ?doc = "DomNode DocumentNode [] [] [] [DomNode ElementNode ''div'' [] [] [DomNode ElementNode ''ul'' [] []
        [DomNode ElementNode ''li'' [] [] [DomNode ElementNode ''b'' [] [] []]]]]"
  have w: "compound_word ''div''" "compound_word ''ul''" "compound_word ''b''"
    by (simp_all add: compound_word_def is_combinator_def isspace_def)
  have "\<not> selector_matches ?doc None ''div>ul>b'' [0, 0, 0, 0]"
    by (simp add: selector_matches_def has_combinator_def is_combinator_def selector_parts_def isspace_def
        matches_simple_def parse_compound_def part_marker_def parent_path_def)
  then show ?thesis using child_combinator_sticks [OF w, of ?doc None "[0, 0, 0, 0]"] by simp
qed

section \<open>The cascade\<close>

definition ident_char :: "char \<Rightarrow> bool" where
  "ident_char c \<longleftrightarrow> isalnum c \<or> c = CHR ''-'' \<or> c = CHR ''_''"

text \<open>The counting loop of \<open>specificity\<close>: \<open>(ids, classes, elements)\<close>.\<close>

function count_parts :: "string \<Rightarrow> int \<times> int \<times> int \<Rightarrow> int \<times> int \<times> int" where
  "count_parts [] n = n"
| "count_parts (c # cs) (ids, classes, elements) =
     (if c = CHR ''#'' then count_parts (dropWhile ident_char cs) (ids + 1, classes, elements)
      else if c = CHR ''.'' then count_parts (dropWhile ident_char cs) (ids, classes + 1, elements)
      else if c = CHR '':'' then
        let cs1 = (case cs of d # ds \<Rightarrow> (if d = CHR '':'' then ds else cs) | [] \<Rightarrow> cs)
        in count_parts (dropWhile ident_char cs1) (ids, classes + 1, elements)
      else if isspace c \<or> c \<in> {CHR ''>'', CHR ''+'', CHR ''~'', CHR ''*''} then
        count_parts cs (ids, classes, elements)
      else count_parts (dropWhile ident_char cs) (ids, classes, elements + 1))"
  by pat_completeness auto
termination
proof (relation "measure (\<lambda>(cs, n). length cs)", simp_all add: less_Suc_eq_le length_dropWhile_le)
  fix cs cs1 :: string
  assume cs1: "cs1 = (case cs of [] \<Rightarrow> cs | d # ds \<Rightarrow> if d = CHR '':'' then ds else cs)"
  then have "length cs1 \<le> length cs" by (simp split: list.split)
  then have "length (dropWhile ident_char cs1) \<le> length cs"
    using length_dropWhile_le [of ident_char cs1] by simp
  then show "length (dropWhile ident_char (case cs of [] \<Rightarrow> cs | d # ds \<Rightarrow> if d = CHR '':'' then ds else cs)) \<le> length cs"
    by (simp only: cs1)
qed

text \<open>The weights are added up in \<open>int\<close>; as the counts only enter the sum, reducing the result once
  is the same as reducing every step.\<close>

definition specificity :: "string \<Rightarrow> int" where
  "specificity s =
     (case count_parts s (0, 0, 0) of (ids, classes, elements) \<Rightarrow>
       wrap32 (ids * 10000 + classes * 100 + elements))"

record matched_declaration =
  match_specificity :: int
  match_order :: nat
  match_declaration :: css_declaration

definition matching_declarations ::
  "dom_node \<Rightarrow> visual_state option \<Rightarrow> node_path \<Rightarrow> css_stylesheet \<Rightarrow> matched_declaration list" where
  "matching_declarations doc vis p sheet =
     concat (map (\<lambda>rule. concat (map (\<lambda>selector.
       if selector_matches doc vis selector p
       then map (\<lambda>d. \<lparr> match_specificity = specificity selector, match_order = rule_source_order rule,
                       match_declaration = d \<rparr>) (rule_declarations rule)
       else []) (rule_selectors rule))) sheet)"

definition match_key :: "matched_declaration \<Rightarrow> int \<times> nat" where
  "match_key m = (match_specificity m, match_order m)"

text \<open>\<open>StyleResolver::resolve\<close>; the stable sort is \<^const>\<open>sort_key\<close>.\<close>

definition style_resolve ::
  "dom_node \<Rightarrow> visual_state option \<Rightarrow> node_path \<Rightarrow> css_stylesheet \<Rightarrow> style_properties option \<Rightarrow> style_properties" where
  "style_resolve doc vis p sheet parent_style =
     (let node = (case node_at doc p of Some n \<Rightarrow> n | None \<Rightarrow> new_document);
          ms = sort_key match_key (matching_declarations doc vis p sheet);
          ps1 = fold (\<lambda>m. apply_declaration (match_declaration m)) ms [];
          ps2 = (if node_type node = ElementNode then
                   (case attribute node ''style'' of Some s \<Rightarrow> apply_inline s ps1 | None \<Rightarrow> ps1)
                 else ps1);
          ps3 = (case parent_style of Some parent \<Rightarrow> inherit_from parent ps2 | None \<Rightarrow> ps2)
      in apply_initial_values node ps3)"

text \<open>What a declaration can write.\<close>

definition four_sides :: "string \<Rightarrow> string list" where
  "four_sides base = [base @ ''-top'', base @ ''-right'', base @ ''-bottom'', base @ ''-left'']"

definition border_width_sides :: "string list" where
  "border_width_sides =
     [''border-top-width'', ''border-right-width'', ''border-bottom-width'', ''border-left-width'']"

definition declaration_targets :: "css_declaration \<Rightarrow> string list" where
  "declaration_targets d =
     (let property = decl_property d in
      if property = ''margin'' \<or> property = ''padding'' then four_sides property
      else if property = ''border-width'' then four_sides ''border'' @ border_width_sides
      else if property = ''border'' then [''border-style'', ''border-color''] @ border_width_sides
      else if property = ''background'' then [''background-image'', ''background-color'']
      else [property])"

definition longhand :: "string \<Rightarrow> bool" where
  "longhand p \<longleftrightarrow>
     p \<notin> set [''margin'', ''padding'', ''border-width'', ''border-radius'', ''border'', ''background'']"

lemma four_sides_other:
  "q \<notin> set (four_sides base) \<Longrightarrow> style_get (apply_four_sides base v ps) q = style_get ps q"
  by (simp add: apply_four_sides_def four_sides_def Let_def)

lemma border_tokens_other:
  assumes "q \<notin> set ([''border-style'', ''border-color''] @ border_width_sides)"
  shows "style_get (fold apply_border_token ts ps) q = style_get ps q"
proof (induction ts arbitrary: ps)
  case Nil
  then show ?case by simp
next
  case (Cons t ts)
  have "style_get (apply_border_token t ps) q = style_get ps q"
    using assms by (simp add: apply_border_token_def border_width_sides_def)
  then show ?case using Cons [of "apply_border_token t ps"] by simp
qed

lemma style_get_set_if: "q \<noteq> p \<Longrightarrow> style_get (set_if p v ps) q = style_get ps q"
  by (simp add: set_if_def split: option.split)

lemma apply_declaration_other:
  assumes "q \<notin> set (declaration_targets d)"
  shows "style_get (apply_declaration d ps) q = style_get ps q"
proof -
  let ?p = "decl_property d" and ?v = "decl_value d"
  consider "?p = ''margin'' \<or> ?p = ''padding''" | "?p = ''border-width''" | "?p = ''border-radius''"
    | "?p = ''border''" | "?p = ''background''" | "longhand ?p"
    by (auto simp: longhand_def)
  then show ?thesis
  proof cases
    case 1
    then have "apply_declaration d ps = apply_four_sides ?p ?v ps" "q \<notin> set (four_sides ?p)"
      using assms by (auto simp: apply_declaration_def declaration_targets_def)
    then show ?thesis by (simp add: four_sides_other)
  next
    case 2
    then have q: "q \<notin> set (four_sides ''border'')" "q \<notin> set border_width_sides"
      using assms by (simp_all add: declaration_targets_def)
    then show ?thesis using 2
      by (simp add: apply_declaration_def Let_def style_get_set_if four_sides_other border_width_sides_def)
  next
    case 3
    then show ?thesis using assms
      by (simp add: apply_declaration_def declaration_targets_def split: list.split)
  next
    case 4
    then have "apply_declaration d ps = fold apply_border_token (stream_words ?v) ps"
      by (simp add: apply_declaration_def)
    moreover have "q \<notin> set ([''border-style'', ''border-color''] @ border_width_sides)"
      using assms 4 by (simp add: declaration_targets_def)
    ultimately show ?thesis using border_tokens_other by metis
  next
    case 5
    then show ?thesis using assms
      by (simp add: apply_declaration_def declaration_targets_def Let_def style_get_set_if)
  next
    case 6
    then show ?thesis using assms
      by (simp add: apply_declaration_def declaration_targets_def longhand_def Let_def)
  qed
qed

lemma apply_longhand:
  "longhand (decl_property d) \<Longrightarrow> apply_declaration d ps = style_set (decl_property d) (decl_value d) ps"
  by (simp add: apply_declaration_def longhand_def Let_def)

lemma fold_declarations_other:
  "\<forall>m \<in> set ms. q \<notin> set (declaration_targets (match_declaration m)) \<Longrightarrow>
    style_get (fold (\<lambda>m. apply_declaration (match_declaration m)) ms ps) q = style_get ps q"
  by (induction ms arbitrary: ps) (simp_all add: apply_declaration_other)

text \<open>The last writer in the sorted list wins, so the winner is the greatest key.\<close>

lemma sorted_cascade_winner:
  assumes "m \<in> set ms" and "longhand q" and "decl_property (match_declaration m) = q"
    and "\<forall>m' \<in> set ms. q \<in> set (declaration_targets (match_declaration m')) \<longrightarrow> m' = m \<or> match_key m' < match_key m"
  shows "style_get (fold (\<lambda>m. apply_declaration (match_declaration m)) (sort_key match_key ms) ps) q =
    Some (decl_value (match_declaration m))"
proof -
  have "m \<in> set (sort_key match_key ms)" using assms(1) by simp
  then obtain as bs where split: "sort_key match_key ms = as @ m # bs" "m \<notin> set bs"
    by (meson split_list_last)
  have sorted: "sorted (map match_key (as @ m # bs))"
    using split(1) by (metis sorted_sort_key)
  have "q \<notin> set (declaration_targets (match_declaration m'))" if "m' \<in> set bs" for m'
  proof
    assume t: "q \<in> set (declaration_targets (match_declaration m'))"
    have "m' \<in> set (sort_key match_key ms)" using that split(1) by simp
    then have "match_key m' < match_key m" using assms(4) t that split(2) by auto
    moreover have "match_key m \<le> match_key m'" using sorted that by (simp add: sorted_append)
    ultimately show False by simp
  qed
  then have "style_get (fold (\<lambda>m. apply_declaration (match_declaration m)) bs ps') q = style_get ps' q" for ps'
    by (simp add: fold_declarations_other)
  then show ?thesis using split(1) assms(2,3) by (simp add: apply_longhand)
qed

lemma inherit_one_set: "style_get ps q = Some v \<Longrightarrow> style_get (inherit_one parent p ps) q = Some v"
  by (auto simp: inherit_one_def style_contains_def split: option.split)

lemma inherit_from_set: "style_get ps q = Some v \<Longrightarrow> style_get (inherit_from parent ps) q = Some v"
proof -
  have "style_get (fold (inherit_one parent) qs ps) q = Some v" if "style_get ps q = Some v" for qs ps
    using that by (induction qs arbitrary: ps) (simp_all add: inherit_one_set)
  then show "style_get ps q = Some v \<Longrightarrow> style_get (inherit_from parent ps) q = Some v"
    by (simp add: inherit_from_def)
qed

lemma initial_values_set:
  "style_get ps q = Some v \<Longrightarrow> style_get (apply_initial_values n ps) q = Some v"
proof -
  have "style_get (fold (\<lambda>(k, v). set_default k v) kvs ps) q = Some v" if "style_get ps q = Some v" for kvs ps
    using that
  proof (induction kvs arbitrary: ps)
    case Nil
    then show ?case by simp
  next
    case (Cons kv kvs)
    have "style_get ((case kv of (k, v) \<Rightarrow> set_default k v) ps) q = Some v"
      using Cons.prems by (auto simp: set_default_def style_contains_def split: prod.split)
    then show ?case using Cons.IH by simp
  qed
  then show "style_get ps q = Some v \<Longrightarrow> style_get (apply_initial_values n ps) q = Some v"
    by (simp add: apply_initial_values_def)
qed

text \<open>The declarations of the \<open>style\<close> attribute of a node, which only an element has, in order.\<close>

definition inline_declarations :: "dom_node \<Rightarrow> css_declaration list" where
  "inline_declarations n =
     (if node_type n = ElementNode then
        (case attribute n ''style'' of None \<Rightarrow> []
         | Some s \<Rightarrow> List.map_filter inline_declaration (getlines (CHR '';'') [] s))
      else [])"

lemma apply_inline_declarations:
  "apply_inline s ps = fold apply_declaration (List.map_filter inline_declaration (getlines (CHR '';'') [] s)) ps"
proof -
  have "fold apply_inline_one ls ps = fold apply_declaration (List.map_filter inline_declaration ls) ps" for ls
    by (induction ls arbitrary: ps) (simp_all add: apply_inline_one_def map_filter_simps split: option.split)
  then show ?thesis by (simp add: apply_inline_def)
qed

lemma style_resolve_steps:
  assumes "node_at doc p = Some n"
    and "ps = fold (\<lambda>m. apply_declaration (match_declaration m)) (sort_key match_key (matching_declarations doc vis p sheet)) []"
    and "style_get (fold apply_declaration (inline_declarations n) ps) q = Some v"
  shows "style_get (style_resolve doc vis p sheet parent_style) q = Some v"
proof -
  have inl: "(if node_type n = ElementNode then
           (case attribute n ''style'' of Some s \<Rightarrow> apply_inline s ps | None \<Rightarrow> ps) else ps) =
        fold apply_declaration (inline_declarations n) ps"
    by (simp add: inline_declarations_def apply_inline_declarations split: option.split)
  show ?thesis
    unfolding style_resolve_def Let_def assms(1) option.case assms(2) [symmetric] inl
    using initial_values_set [OF assms(3)] initial_values_set [OF inherit_from_set [OF assms(3)]]
    by (simp split: option.split)
qed

lemma fold_apply_other:
  "\<forall>d \<in> set ds. q \<notin> set (declaration_targets d) \<Longrightarrow> style_get (fold apply_declaration ds ps) q = style_get ps q"
  by (induction ds arbitrary: ps) (simp_all add: apply_declaration_other)

lemma fold_apply_last:
  assumes "rev (filter (\<lambda>d. q \<in> set (declaration_targets d)) ds) = d # rest" and "longhand q" and "decl_property d = q"
  shows "style_get (fold apply_declaration ds ps) q = Some (decl_value d)"
  using assms(1)
proof (induction ds arbitrary: rest rule: rev_induct)
  case (snoc x xs)
  show ?case
  proof (cases "q \<in> set (declaration_targets x)")
    case True
    then have "x = d" using snoc.prems by simp
    then show ?thesis using assms(2,3) by (simp add: apply_longhand)
  next
    case False
    then show ?thesis using snoc by (simp add: apply_declaration_other)
  qed
qed simp

text \<open>C11: Who wins the cascade.  Let a matching declaration of a longhand property have a greater
  specificity than every other matching declaration that writes the property (directly or through
  a shorthand), or the same and a later rule.  If no declaration of the \<open>style\<close> attribute of the
  node writes the property, then it gives the computed value; otherwise the last declaration of
  the \<open>style\<close> attribute that writes it does, when it names the property itself.  The parent style and
  the initial values change neither.\<close>

theorem cascade_winner:
  assumes "node_at doc p = Some n"
    and "m \<in> set (matching_declarations doc vis p sheet)"
    and "decl_property (match_declaration m) = q" and "longhand q"
    and "\<forall>m' \<in> set (matching_declarations doc vis p sheet).
       q \<in> set (declaration_targets (match_declaration m')) \<longrightarrow> m' = m \<or> match_key m' < match_key m"
  shows "case rev (filter (\<lambda>d. q \<in> set (declaration_targets d)) (inline_declarations n)) of
      [] \<Rightarrow> style_get (style_resolve doc vis p sheet parent_style) q = Some (decl_value (match_declaration m))
    | d # _ \<Rightarrow> decl_property d = q \<longrightarrow> style_get (style_resolve doc vis p sheet parent_style) q = Some (decl_value d)"
proof -
  let ?ps = "fold (\<lambda>m. apply_declaration (match_declaration m))
    (sort_key match_key (matching_declarations doc vis p sheet)) []"
  note resolve = style_resolve_steps [OF assms(1) refl]
  have w: "style_get ?ps q = Some (decl_value (match_declaration m))"
    by (rule sorted_cascade_winner [OF assms(2,4,3,5)])
  show ?thesis
  proof (cases "rev (filter (\<lambda>d. q \<in> set (declaration_targets d)) (inline_declarations n))")
    case Nil
    then have "style_get (fold apply_declaration (inline_declarations n) ?ps) q = style_get ?ps q"
      by (intro fold_apply_other) (simp add: filter_empty_conv)
    then show ?thesis using Nil w resolve by simp
  next
    case (Cons d ds)
    then show ?thesis using fold_apply_last [OF Cons assms(4)] resolve by simp
  qed
qed

text \<open>Two rules for the colour and the background colour of an element, and its \<open>style\<close> attribute, which
  sets the colour: the colour is that of the attribute, the background that of the \<open>id\<close> selector.\<close>

definition cascade_sample :: css_stylesheet where
  "cascade_sample =
     [\<lparr> rule_selectors = [''#x''], rule_declarations = [\<lparr> decl_property = ''color'', decl_value = ''red'' \<rparr>,
          \<lparr> decl_property = ''background-color'', decl_value = ''red'' \<rparr>], rule_source_order = 0 \<rparr>,
      \<lparr> rule_selectors = [''p''], rule_declarations = [\<lparr> decl_property = ''background-color'', decl_value = ''blue'' \<rparr>],
         rule_source_order = 1 \<rparr>]"

lemma cascade_winner_witness:
  "(let doc = DomNode DocumentNode [] [] [] [DomNode ElementNode ''p'' [] [(''id'', ''x''), (''style'', ''color: green'')] []];
      computed = style_resolve doc None [0] cascade_sample None
    in style_get computed ''color'' = Some ''green'' \<and> style_get computed ''background-color'' = Some ''red'')"
proof -
  let ?n = "DomNode ElementNode ''p'' [] [(''id'', ''x''), (''style'', ''color: green'')] []"
  let ?doc = "DomNode DocumentNode [] [] [] [?n]"
  let ?m = "\<lambda>prop. \<lparr> match_specificity = 10000, match_order = 0,
      match_declaration = \<lparr> decl_property = prop, decl_value = ''red'' \<rparr> \<rparr>"
  have w: "wrap32 10000 = 10000" "wrap32 1 = 1" by (simp_all add: wrap32_id)
  have ms: "matching_declarations ?doc None [0] cascade_sample =
      [?m ''color'', ?m ''background-color'', \<lparr> match_specificity = 1, match_order = 1,
        match_declaration = \<lparr> decl_property = ''background-color'', decl_value = ''blue'' \<rparr> \<rparr>]"
    by (simp add: matching_declarations_def cascade_sample_def selector_matches_def has_combinator_def is_combinator_def
        isspace_def matches_simple_def parse_compound_def part_marker_def attribute_def specificity_def ident_char_def
        isalnum_def isdigit_def isalpha_def add_part_def w)
  have inl: "inline_declarations ?n = [\<lparr> decl_property = ''color'', decl_value = ''green'' \<rparr>]" by code_simp
  have t: "declaration_targets \<lparr> decl_property = ''color'', decl_value = ''green'' \<rparr> = [''color'']" by code_simp
  show ?thesis
    using cascade_winner [of ?doc "[0]" ?n "?m ''color''" None cascade_sample "''color''" None]
      cascade_winner [of ?doc "[0]" ?n "?m ''background-color''" None cascade_sample "''background-color''" None]
    unfolding ms inl by (simp add: t longhand_def match_key_def declaration_targets_def)
qed

end
