(* ===== verification/Text_Layout.thy ===== *)
theory Text_Layout
  imports Geometry Style
begin

text \<open>
  \<open>text_layout.cpp\<close> and \<open>font.cpp\<close>: how wide text is, where its lines break and where its words
  go.  Shown: no word is lost or moved by breaking lines, and a line of several words is never
  wider than the room there is.
\<close>

section \<open>Fonts\<close>

definition bitmap_advance :: "fp \<Rightarrow> fp" where
  "bitmap_advance px = fmax (Num 1) (cround (mul32 px (lit32 (6 / 10))))"

text \<open>\<open>num(value, fallback)\<close>.\<close>

definition number_or :: "string option \<Rightarrow> fp \<Rightarrow> fp" where
  "number_or v fallback =
     (case v of None \<Rightarrow> fallback | Some s \<Rightarrow> (case strto single s of None \<Rightarrow> fallback | Some (x, r) \<Rightarrow> x))"

record font_metrics =
  font_size :: fp
  ascent :: fp
  descent :: fp
  line_gap :: fp
  font_weight :: fp

definition font_from_style :: "style_properties \<Rightarrow> font_metrics" where
  "font_from_style s =
     (let px = number_or (style_get s ''font-size'') (Num 16) in
      \<lparr> font_size = px, ascent = mul32 px (lit32 (8 / 10)), descent = mul32 px (lit32 (2 / 10)),
        line_gap = mul32 px (lit32 (2 / 10)), font_weight = number_or (style_get s ''font-weight'') (Num 400) \<rparr>)"

definition char_advance :: "font_metrics \<Rightarrow> fp" where
  "char_advance f = bitmap_advance (font_size f)"

definition font_measure :: "font_metrics \<Rightarrow> string \<Rightarrow> fp" where
  "font_measure f s = fold (\<lambda>c n. add32 n (char_advance f)) s (Num 0)"


section \<open>Measuring\<close>

definition parse_px :: "string option \<Rightarrow> fp \<Rightarrow> fp" where
  "parse_px v fallback =
     (case v of None \<Rightarrow> fallback
      | Some s \<Rightarrow> if s = [] \<or> s = ''normal'' then fallback
                  else (case strto single s of None \<Rightarrow> fallback | Some (x, r) \<Rightarrow> x))"

text \<open>\<open>collapse_whitespace\<close>; the flag is \<open>pending\<close>.\<close>

fun collapse_loop :: "bool \<Rightarrow> string \<Rightarrow> string \<Rightarrow> string" where
  "collapse_loop pending result [] = result"
| "collapse_loop pending result (c # cs) =
     (if isspace c then collapse_loop (result \<noteq> []) result cs
      else collapse_loop False (result @ (if pending then '' '' else []) @ [c]) cs)"

definition collapse_whitespace :: "string \<Rightarrow> bool \<Rightarrow> string" where
  "collapse_whitespace s preserve = (if preserve then s else collapse_loop False [] s)"

definition text_size :: "style_properties \<Rightarrow> fp" where
  "text_size style = font_size (font_from_style style)"

definition line_height :: "style_properties \<Rightarrow> fp" where
  "line_height style =
     (let px = text_size style; usual = mul32 px (lit32 (12 / 10)) in
      case style_get style ''line-height'' of
        None \<Rightarrow> usual
      | Some v \<Rightarrow>
          if v = ''normal'' then usual
          else
            case strto single v of
              None \<Rightarrow> usual
            | Some (parsed, r) \<Rightarrow> if r = [] \<or> hd r = CHR 0x00 then mul32 parsed px else parsed)"

definition measure_text :: "style_properties \<Rightarrow> string \<Rightarrow> fp" where
  "measure_text style s =
     (let font = font_from_style style;
          letter = parse_px (style_get style ''letter-spacing'') (Num 0);
          word = parse_px (style_get style ''word-spacing'') (Num 0)
      in fmax (Num 0)
           (fold (\<lambda>c width.
              let w1 = add32 width (char_advance font);
                  w2 = (if c = CHR '' '' then add32 w1 word else w1)
              in add32 w2 letter) s (Num 0)))"


section \<open>Lines\<close>

text \<open>Cutting the text into words; the state is the finished lines, the line being filled and the
  word being read.\<close>

type_synonym cut_state = "string list list \<times> string list \<times> string"

definition flush_word :: "string list \<Rightarrow> string \<Rightarrow> string list" where
  "flush_word line token = (if token = [] then line else line @ [token])"

fun cut_step :: "bool \<Rightarrow> char \<Rightarrow> cut_state \<Rightarrow> cut_state" where
  "cut_step pre c (lines, line, token) =
     (if c = CHR 0x0A \<and> pre then (lines @ [flush_word line token], [], [])
      else if isspace c \<and> \<not> pre then (lines, flush_word line token, [])
      else if isspace c then (lines, flush_word line token @ ['' ''], [])
      else (lines, line, token @ [c]))"

definition cut_lines :: "bool \<Rightarrow> string \<Rightarrow> string list list" where
  "cut_lines pre s =
     (case fold (cut_step pre) s ([], [], []) of (lines, line, token) \<Rightarrow> lines @ [flush_word line token])"

text \<open>Breaking one line; the state is the broken lines, the current one and its width.\<close>

type_synonym wrap_state = "string list list \<times> string list \<times> fp"

fun wrap_step :: "(string \<Rightarrow> fp) \<Rightarrow> bool \<Rightarrow> fp \<Rightarrow> string \<Rightarrow> wrap_state \<Rightarrow> wrap_state" where
  "wrap_step measure_word fixed available word (wrapped, line, w) =
     (let ww = measure_word word;
          sp = (if line = [] then Num 0 else measure_word '' '');
          (wrapped, line, w, sp) =
            (if \<not> fixed \<and> line \<noteq> [] \<and> fless available (add32 (add32 w sp) ww)
             then (wrapped @ [line], [], Num 0, Num 0) else (wrapped, line, w, sp));
          (line, w) = (if line \<noteq> [] \<and> word \<noteq> '' '' then (line @ ['' ''], add32 w sp) else (line, w))
      in (wrapped, line @ [word], add32 w ww))"

definition wrap_line :: "(string \<Rightarrow> fp) \<Rightarrow> bool \<Rightarrow> fp \<Rightarrow> string list \<Rightarrow> string list list" where
  "wrap_line measure_word fixed available raw =
     (case fold (wrap_step measure_word fixed available) raw ([], [], Num 0) of (wrapped, line, w) \<Rightarrow> wrapped @ [line])"

record text_fragment =
  frag_text :: string
  frag_rect :: layout_rect
  frag_baseline :: fp

definition line_width :: "(string \<Rightarrow> fp) \<Rightarrow> string list \<Rightarrow> fp" where
  "line_width measure_word line = fold (\<lambda>t width. add32 width (measure_word t)) line (Num 0)"

definition line_start :: "string option \<Rightarrow> fp \<Rightarrow> fp \<Rightarrow> fp \<Rightarrow> fp" where
  "line_start align x available width =
     (if align = Some ''center'' then add32 x (fmax (Num 0) (div32 (sub32 available width) (Num 2)))
      else if align = Some ''right'' \<or> align = Some ''end'' then add32 x (fmax (Num 0) (sub32 available width))
      else x)"

fun place_line :: "(string \<Rightarrow> fp) \<Rightarrow> fp \<Rightarrow> fp \<Rightarrow> fp \<Rightarrow> fp \<Rightarrow> string list \<Rightarrow> text_fragment list" where
  "place_line measure_word px h cx cy [] = []"
| "place_line measure_word px h cx cy (t # ts) =
     (let w = measure_word t;
          rest = place_line measure_word px h (add32 cx w) cy ts
      in if t \<noteq> '' ''
         then \<lparr> frag_text = t, frag_rect = mk_rect cx cy w h, frag_baseline = add32 cy px \<rparr> # rest
         else rest)"

fun place_lines :: "(string \<Rightarrow> fp) \<Rightarrow> string option \<Rightarrow> fp \<Rightarrow> fp \<Rightarrow> fp \<Rightarrow> fp \<Rightarrow> fp \<Rightarrow> string list list \<Rightarrow> text_fragment list" where
  "place_lines measure_word align px h x available cy [] = []"
| "place_lines measure_word align px h x available cy (line # lines) =
     place_line measure_word px h (line_start align x available (line_width measure_word line)) cy line @
     place_lines measure_word align px h x available (add32 cy h) lines"

definition is_pre :: "style_properties \<Rightarrow> bool" where
  "is_pre style \<longleftrightarrow> style_get style ''white-space'' \<in> {Some ''pre'', Some ''pre-wrap''}"

text \<open>\<open>nowrap || prewrap\<close>: the lines stay as they are.\<close>

definition keeps_lines :: "style_properties \<Rightarrow> bool" where
  "keeps_lines style \<longleftrightarrow> style_get style ''white-space'' \<in> {Some ''nowrap'', Some ''pre'', Some ''pre-wrap''}"

definition broken_lines :: "string \<Rightarrow> fp \<Rightarrow> style_properties \<Rightarrow> string list list" where
  "broken_lines source available style =
     concat (map (wrap_line (measure_text style) (keeps_lines style) available)
       (cut_lines (is_pre style) (collapse_whitespace source (is_pre style))))"

definition text_layout :: "string \<Rightarrow> fp \<Rightarrow> fp \<Rightarrow> fp \<Rightarrow> style_properties \<Rightarrow> text_fragment list" where
  "text_layout source x y available style =
     (if collapse_whitespace source (is_pre style) = [] \<or> fle available (Num 0) then []
      else
        place_lines (measure_text style) (style_get style ''text-align'') (text_size style) (line_height style)
          x available y (broken_lines source available style))"


section \<open>No word is lost\<close>

lemma place_line_texts: "map frag_text (place_line m px h cx cy ts) = filter (\<lambda>t. t \<noteq> '' '') ts"
  by (induction ts arbitrary: cx) (auto simp: Let_def)

lemma place_lines_texts:
  "map frag_text (place_lines m align px h x available cy lines) = filter (\<lambda>t. t \<noteq> '' '') (concat lines)"
  by (induction lines arbitrary: cy) (auto simp: place_line_texts)

lemma wrap_step_words:
  assumes "wrap_step m fixed available word (wrapped, line, w) = (wrapped', line', w')"
  shows "filter (\<lambda>t. t \<noteq> '' '') (concat wrapped' @ line') =
    filter (\<lambda>t. t \<noteq> '' '') (concat wrapped @ line) @ filter (\<lambda>t. t \<noteq> '' '') [word]"
  using assms by (auto simp: Let_def split: if_splits prod.splits)

lemma wrap_fold_words:
  "fold (wrap_step m fixed available) raw (wrapped, line, w) = (wrapped', line', w') \<Longrightarrow>
    filter (\<lambda>t. t \<noteq> '' '') (concat wrapped' @ line') =
    filter (\<lambda>t. t \<noteq> '' '') (concat wrapped @ line) @ filter (\<lambda>t. t \<noteq> '' '') raw"
proof (induction raw arbitrary: wrapped line w)
  case (Cons word raw)
  obtain wrapped1 line1 w1 where s: "wrap_step m fixed available word (wrapped, line, w) = (wrapped1, line1, w1)"
    by (rule prod_cases3)
  have "fold (wrap_step m fixed available) raw (wrapped1, line1, w1) = (wrapped', line', w')" using Cons.prems s by simp
  from Cons.IH [OF this] show ?case unfolding wrap_step_words [OF s] by simp
qed simp

lemma wrap_line_words: "filter (\<lambda>t. t \<noteq> '' '') (concat (wrap_line m fixed available raw)) = filter (\<lambda>t. t \<noteq> '' '') raw"
proof -
  obtain wrapped line w where s: "fold (wrap_step m fixed available) raw ([], [], Num 0) = (wrapped, line, w)" by (rule prod_cases3)
  show ?thesis using wrap_fold_words [OF s] by (simp add: wrap_line_def s)
qed

text \<open>The words of a text, and those of the collapsed text.\<close>

fun words_of :: "string \<Rightarrow> string \<Rightarrow> string list" where
  "words_of token [] = flush_word [] token"
| "words_of token (c # cs) = (if isspace c then flush_word [] token @ words_of [] cs else words_of (token @ [c]) cs)"

lemma flush_word_append: "flush_word line token = line @ flush_word [] token"
  by (simp add: flush_word_def)

lemma cut_fold_words:
  "(case fold (cut_step False) s ([], line, token) of (lines, line, token) \<Rightarrow> lines @ [flush_word line token]) =
    [line @ words_of token s]"
proof (induction s arbitrary: line token)
  case Nil
  then show ?case by (simp add: flush_word_append [of line])
next
  case (Cons c s)
  then show ?case using flush_word_append [of line token] by simp
qed

lemma cut_lines_words: "cut_lines False s = [words_of [] s]"
  using cut_fold_words [of s "[]" "[]"] by (simp add: cut_lines_def)

lemma words_of_snoc_space: "isspace c \<Longrightarrow> words_of token (s @ [c]) = words_of token s"
  by (induction s arbitrary: token) (simp_all add: flush_word_def)

lemma words_of_append_space:
  "isspace c \<Longrightarrow> words_of token (s @ c # r) = words_of token s @ words_of [] r"
  by (induction s arbitrary: token) simp_all

lemma words_of_append_end:
  "words_of token (s @ [c]) = (if isspace c then words_of token s else words_of token (s @ [c]))"
  by (simp add: words_of_snoc_space)

text \<open>Collapsing keeps the words: what has been written so far, a space if one is due, and the
  rest.\<close>

lemma space_is_space [simp]: "isspace (CHR '' '')"
  by (simp add: isspace_def ascii_def)

lemma collapse_loop_words:
  "words_of [] (collapse_loop pending result s) = words_of [] (result @ (if pending then '' '' else []) @ s)"
proof (induction pending result s rule: collapse_loop.induct)
  case (1 pending result)
  then show ?case using words_of_snoc_space [of "CHR '' ''" "[]" result] by simp
next
  case (2 pending result c cs)
  show ?case
  proof (cases "isspace c")
    case True
    have e: "words_of [] (result @ c # cs) = words_of [] (result @ (if result \<noteq> [] then '' '' else []) @ cs)"
      using True words_of_append_space [of c "[]" result cs] words_of_append_space [of "CHR '' ''" "[]" result cs]
      by (auto simp: flush_word_def)
    have "words_of [] (result @ '' '' @ c # cs) = words_of [] (result @ c # cs)"
      using True by (simp add: words_of_append_space flush_word_def)
    then show ?thesis using 2 True e by simp
  next
    case False
    then show ?thesis using 2 by simp
  qed
qed

lemma words_of_stream: "words_of [] s = stream_words s"
proof (induction s rule: stream_words.induct)
  case (1 s)
  define s1 where "s1 = dropWhile isspace s"
  have skip: "words_of [] s = words_of [] s1"
    unfolding s1_def by (induction s) (simp_all add: flush_word_def)
  have run: "words_of token r = (if token @ takeWhile (\<lambda>c. \<not> isspace c) r = [] then [] else [token @ takeWhile (\<lambda>c. \<not> isspace c) r]) @
      words_of [] (dropWhile (\<lambda>c. \<not> isspace c) r)" for token r
    by (induction r arbitrary: token) (auto simp: flush_word_def)
  show ?case
  proof (cases "s1 = []")
    case True
    then have "words_of [] s = []" using skip by (simp add: flush_word_def)
    then show ?thesis using True by (subst stream_words.simps) (simp add: s1_def)
  next
    case False
    have "takeWhile (\<lambda>c. \<not> isspace c) s1 \<noteq> []"
      using False hd_dropWhile [of isspace s] by (cases s1) (auto simp: s1_def)
    moreover have "words_of [] (dropWhile (\<lambda>c. \<not> isspace c) s1) = stream_words (dropWhile (\<lambda>c. \<not> isspace c) s1)"
      using 1 [OF s1_def False] .
    ultimately show ?thesis using skip run [of "[]" s1] False
      by (subst stream_words.simps) (simp add: s1_def [symmetric] Let_def)
  qed
qed

lemma stream_words_no_space: "\<forall>w \<in> set (stream_words s). w \<noteq> '' ''"
proof (induction s rule: stream_words.induct)
  case (1 s)
  have "takeWhile (\<lambda>c. \<not> isspace c) r \<noteq> '' ''" for r
    using set_takeWhileD [of "CHR '' ''" "\<lambda>c. \<not> isspace c" r] by auto
  then show ?case using 1 by (subst stream_words.simps) (simp add: Let_def)
qed

text \<open>C25: Laying out text loses nothing.  Unless the style preserves white space (\<open>pre\<close>, \<open>pre-wrap\<close>), the
  fragments of a text are exactly its words, in order, whatever the font, the spacing, the alignment
  and the width, as long as that is positive: where the room available is zero or negative there are none.\<close>

theorem text_layout_words:
  assumes "\<not> is_pre style"
  shows "map frag_text (text_layout source x y available style) = (if fle available (Num 0) then [] else stream_words source)"
proof -
  have w: "words_of [] (collapse_whitespace source False) = stream_words source"
    using collapse_loop_words [of False "[]" source] words_of_stream by (simp add: collapse_whitespace_def)
  have "filter (\<lambda>t. t \<noteq> '' '') (concat (broken_lines source available style)) = stream_words source"
    using assms stream_words_no_space [of source]
    by (simp add: broken_lines_def cut_lines_words w wrap_line_words)
  moreover have "stream_words source = []" if "collapse_whitespace source False = []"
    using w that by (simp add: flush_word_def)
  ultimately show ?thesis using assms by (auto simp: text_layout_def place_lines_texts)
qed

lemma no_style_not_pre: "\<not> is_pre []"
  by (simp add: is_pre_def)

theorem text_layout_words_witness:
  "map frag_text (text_layout ''  a bc  d'' (Num 0) (Num 0) (Num 20) []) = [''a'', ''bc'', ''d'']"
proof -
  have "stream_words ''  a bc  d'' = [''a'', ''bc'', ''d'']" by code_simp
  moreover have "\<not> fle (Num 20) (Num 0)" by (simp add: fle_def fless_def feq_def is_inf_def fvalue_def)
  ultimately show ?thesis using text_layout_words [OF no_style_not_pre, of "''  a bc  d''" "Num 0" "Num 0" "Num 20"] by simp
qed



section \<open>Lines fit\<close>

definition line_fits :: "(string \<Rightarrow> fp) \<Rightarrow> fp \<Rightarrow> string list \<Rightarrow> bool" where
  "line_fits m available line \<longleftrightarrow> (1 < length line \<longrightarrow> \<not> fless available (line_width m line))"

lemma line_width_snoc: "line_width m (line @ [t]) = add32 (line_width m line) (m t)"
  by (simp add: line_width_def)

lemma line_width_Nil [simp]: "line_width m [] = Num 0"
  by (simp add: line_width_def)

lemma wrap_step_fits:
  assumes "word \<noteq> '' ''" and "wrap_step m False available word (wrapped, line, line_width m line) = (wrapped', line', w')"
    and "list_all (line_fits m available) (wrapped @ [line])"
  shows "list_all (line_fits m available) (wrapped' @ [line']) \<and> w' = line_width m line'"
proof (cases "line \<noteq> [] \<and> fless available (add32 (add32 (line_width m line) (m '' '')) (m word))")
  case True
  then show ?thesis using assms line_width_snoc [of m "[]" word] by (auto simp: line_fits_def)
next
  case False
  show ?thesis
  proof (cases "line = []")
    case True
    then show ?thesis using assms line_width_snoc [of m "[]" word] by (auto simp: line_fits_def)
  next
    case ne: False
    have w: "line_width m (line @ ['' '', word]) = add32 (add32 (line_width m line) (m '' '')) (m word)"
      using line_width_snoc [of m "line @ ['' '']" word] by (simp add: line_width_snoc)
    show ?thesis using assms False ne w by (auto simp: line_fits_def)
  qed
qed

lemma wrap_fold_fits:
  "\<forall>word \<in> set raw. word \<noteq> '' '' \<Longrightarrow> list_all (line_fits m available) (wrapped @ [line]) \<Longrightarrow>
    fold (wrap_step m False available) raw (wrapped, line, line_width m line) = (wrapped', line', w') \<Longrightarrow>
    list_all (line_fits m available) (wrapped' @ [line'])"
proof (induction raw arbitrary: wrapped line)
  case (Cons word raw)
  obtain wrapped1 line1 w1 where s: "wrap_step m False available word (wrapped, line, line_width m line) = (wrapped1, line1, w1)"
    by (rule prod_cases3)
  have f: "list_all (line_fits m available) (wrapped1 @ [line1]) \<and> w1 = line_width m line1"
    by (rule wrap_step_fits [OF _ s Cons.prems(2)]) (use Cons.prems(1) in simp)
  show ?case by (rule Cons.IH [of wrapped1 line1]) (use Cons.prems(1,3) s f in auto)
qed simp

lemma wrap_line_fits:
  assumes "\<forall>word \<in> set raw. word \<noteq> '' ''"
  shows "list_all (line_fits m available) (wrap_line m False available raw)"
proof -
  obtain wrapped line w where s: "fold (wrap_step m False available) raw ([], [], Num 0) = (wrapped, line, w)" by (rule prod_cases3)
  have "list_all (line_fits m available) (wrapped @ [line])"
    by (rule wrap_fold_fits [of raw m available "[]" "[]"]) (use assms s in \<open>simp_all add: line_fits_def\<close>)
  then show ?thesis by (simp add: wrap_line_def s)
qed

text \<open>C26: Lines fit.  Where lines may break (\<open>white-space\<close> is not \<open>nowrap\<close>, \<open>pre\<close> or \<open>pre-wrap\<close>), a line of more than
  one word is never wider, as the code measures and adds up its words and spaces in \<open>float\<close>, than
  the room available.\<close>

theorem broken_lines_fit:
  assumes "\<not> keeps_lines style"
  shows "list_all (line_fits (measure_text style) available) (broken_lines source available style)"
proof -
  have "\<not> is_pre style" using assms by (auto simp: keeps_lines_def is_pre_def)
  moreover have "\<forall>w \<in> set (words_of [] (collapse_whitespace source False)). w \<noteq> '' ''"
    using stream_words_no_space words_of_stream by metis
  ultimately show ?thesis
    using assms by (simp add: broken_lines_def cut_lines_words wrap_line_fits)
qed

theorem broken_lines_fit_witness:
  "list_all (line_fits (measure_text []) (Num 25)) (broken_lines ''to be or not'' (Num 25) [])"
  by (rule broken_lines_fit) (simp add: keeps_lines_def)

text \<open>Preserved text is wider than it was written: the space between two words is in the line already
  when the next word asks for one.\<close>

lemma preserved_space_doubled:
  "concat (broken_lines ''a b'' available [(''white-space'', ''pre'')]) = [''a'', '' '', '' '', ''b'']"
proof -
  have "cut_lines True ''a b'' = [[''a'', '' '', ''b'']]" by code_simp
  then show ?thesis
    by (simp add: broken_lines_def is_pre_def keeps_lines_def style_get_def collapse_whitespace_def wrap_line_def)
qed

end
