(* ===== verification/Layout.thy ===== *)
theory Layout
  imports Text_Layout
begin

text \<open>
  \<open>layout.hpp\<close> and \<open>layout.cpp\<close>: the tree of boxes and where each of them goes, in \<open>float\<close>.
  The engine changes the boxes in place and may lay a child out twice, so its functions return the
  changed box and leave the fields alone that the code leaves alone.  The recursion goes through
  boxes that have been changed already; its fuel is the height of the tree, which no step changes.
  The image pointers of a box, which the engine never reads, are left out.
\<close>

section \<open>Boxes\<close>

datatype layout_display = BlockBox | InlineBox | InlineBlockBox | FlexBox | GridBox | NoBox

record box_edges =
  edge_top :: fp
  edge_right :: fp
  edge_bottom :: fp
  edge_left :: fp

record box_model =
  content :: layout_rect
  margin :: box_edges
  padding :: box_edges
  border :: box_edges

definition zero_edges :: box_edges where
  "zero_edges = \<lparr> edge_top = Num 0, edge_right = Num 0, edge_bottom = Num 0, edge_left = Num 0 \<rparr>"

definition zero_box :: box_model where
  "zero_box = \<lparr> content = zero_rect, margin = zero_edges, padding = zero_edges, border = zero_edges \<rparr>"

text \<open>The members of a \<open>LayoutNode\<close> apart from its children; the node of the document is a path.\<close>

record layout_box =
  lb_dom :: node_path
  lb_style :: style_properties
  lb_display :: layout_display
  lb_rect :: layout_rect
  lb_box :: box_model
  lb_fragments :: "text_fragment list"

datatype layout_node = LayoutNode (ln_box: layout_box) (ln_children: "layout_node list")

abbreviation ln_style :: "layout_node \<Rightarrow> style_properties" where "ln_style n \<equiv> lb_style (ln_box n)"
abbreviation ln_display :: "layout_node \<Rightarrow> layout_display" where "ln_display n \<equiv> lb_display (ln_box n)"
abbreviation ln_rect :: "layout_node \<Rightarrow> layout_rect" where "ln_rect n \<equiv> lb_rect (ln_box n)"

definition change_box :: "(layout_box \<Rightarrow> layout_box) \<Rightarrow> layout_node \<Rightarrow> layout_node" where
  "change_box f n = LayoutNode (f (ln_box n)) (ln_children n)"

lemma change_box_sel [simp]: "ln_box (change_box f n) = f (ln_box n)" "ln_children (change_box f n) = ln_children n"
  by (simp_all add: change_box_def)


section \<open>Building the tree\<close>

definition display_for :: "dom_node \<Rightarrow> style_properties \<Rightarrow> layout_display" where
  "display_for node style =
     (let v = style_get style ''display'';
          usual = (if node_type node = TextNode then InlineBox else BlockBox)
      in case v of None \<Rightarrow> usual
         | Some s \<Rightarrow>
             if s = ''none'' then NoBox
             else if s = ''inline'' then InlineBox
             else if s = ''inline-block'' then InlineBlockBox
             else if s = ''flex'' \<or> s = ''inline-flex'' then FlexBox
             else if s = ''grid'' \<or> s = ''inline-grid'' then GridBox
             else usual)"

definition new_box :: "node_path \<Rightarrow> style_properties \<Rightarrow> layout_display \<Rightarrow> layout_box" where
  "new_box p style display =
     \<lparr> lb_dom = p, lb_style = style, lb_display = display, lb_rect = zero_rect, lb_box = zero_box, lb_fragments = [] \<rparr>"

text \<open>\<open>build_node\<close> returns the boxes it has appended to its parent (those of the children of a hidden
  element, which are built with the style of that element's parent) and its own box.\<close>

fun build_node :: "dom_node \<Rightarrow> css_stylesheet \<Rightarrow> visual_state option \<Rightarrow> dom_node \<Rightarrow> node_path \<Rightarrow> style_properties option
    \<Rightarrow> layout_node list \<times> layout_node"
and build_children :: "dom_node \<Rightarrow> css_stylesheet \<Rightarrow> visual_state option \<Rightarrow> dom_node list \<Rightarrow> node_path \<Rightarrow> nat \<Rightarrow> style_properties option
    \<Rightarrow> (layout_node list \<times> layout_node) list"
where
  "build_node doc sheet vis (DomNode ty name d attrs cs) p parent_style =
     (let style = style_resolve doc vis p sheet parent_style;
          display = display_for (DomNode ty name d attrs cs) style
      in if display = NoBox then
           (concat (map (\<lambda>(hoisted, c). hoisted @ (if ln_display c = NoBox then ln_children c else [c]))
              (build_children doc sheet vis cs p 0 parent_style)), LayoutNode (new_box p style display) [])
         else
           ([], LayoutNode (new_box p style display)
              (concat (map (\<lambda>(hoisted, c). hoisted @ [c]) (build_children doc sheet vis cs p 0 (Some style))))))"
| "build_children doc sheet vis [] p i parent_style = []"
| "build_children doc sheet vis (c # cs) p i parent_style =
     build_node doc sheet vis c (p @ [i]) parent_style # build_children doc sheet vis cs p (Suc i) parent_style"

text \<open>\<open>LayoutTreeBuilder::build\<close>; without a parent to append to, a hidden root with a visible
  child dereferences a null pointer (\<^term>\<open>None\<close>).\<close>

definition build_layout :: "dom_node \<Rightarrow> css_stylesheet \<Rightarrow> visual_state option \<Rightarrow> layout_node option" where
  "build_layout doc sheet vis =
     (case build_node doc sheet vis doc [] None of (hoisted, n) \<Rightarrow> if hoisted = [] then Some n else None)"


section \<open>Lengths\<close>

definition parse_length :: "string option \<Rightarrow> fp \<Rightarrow> fp \<Rightarrow> fp" where
  "parse_length v fallback base =
     (case v of None \<Rightarrow> fallback
      | Some s \<Rightarrow>
          if s = [] \<or> s = ''auto'' then fallback
          else
            case strto single s of
              None \<Rightarrow> fallback
            | Some (parsed, r) \<Rightarrow>
                if r \<noteq> [] \<and> hd r = CHR ''%'' then div32 (mul32 base parsed) (Num 100) else parsed)"

definition style_length :: "style_properties \<Rightarrow> string \<Rightarrow> fp \<Rightarrow> fp \<Rightarrow> fp" where
  "style_length style property base fallback = parse_length (style_get style property) fallback base"

definition edge_length :: "style_properties \<Rightarrow> string \<Rightarrow> fp \<Rightarrow> string \<Rightarrow> fp" where
  "edge_length style base percentage_base name =
     (let direct = style_get style (base @ ''-'' @ name);
          width = style_get style (''border-'' @ name @ ''-width'')
      in if direct \<noteq> None then parse_length direct (Num 0) percentage_base
         else if base = ''border'' \<and> width \<noteq> None then parse_length width (Num 0) percentage_base
         else Num 0)"

definition resolve_edges :: "style_properties \<Rightarrow> string \<Rightarrow> fp \<Rightarrow> box_edges" where
  "resolve_edges style base percentage_base =
     (let side = edge_length style base percentage_base in
      \<lparr> edge_top = side ''top'', edge_right = side ''right'', edge_bottom = side ''bottom'', edge_left = side ''left'' \<rparr>)"

definition is_positioned :: "layout_node \<Rightarrow> bool" where
  "is_positioned n \<longleftrightarrow> style_get (ln_style n) ''position'' \<in> {Some ''absolute'', Some ''fixed''}"

text \<open>Children that neither the flow nor a flex or grid container places.\<close>

definition out_of_flow :: "layout_node \<Rightarrow> bool" where
  "out_of_flow n \<longleftrightarrow> ln_display n = NoBox \<or> is_positioned n"

definition at_least_zero :: "fp \<Rightarrow> bool" where
  "at_least_zero a \<longleftrightarrow> fle (Num 0) a"

definition is_dom :: "dom_node \<Rightarrow> layout_node \<Rightarrow> (dom_node \<Rightarrow> bool) \<Rightarrow> bool" where
  "is_dom doc n P = (case node_at doc (lb_dom (ln_box n)) of None \<Rightarrow> False | Some d \<Rightarrow> P d)"

abbreviation is_text :: "dom_node \<Rightarrow> layout_node \<Rightarrow> bool" where
  "is_text doc n \<equiv> is_dom doc n (\<lambda>d. node_type d = TextNode)"

definition dom_data :: "dom_node \<Rightarrow> layout_node \<Rightarrow> string" where
  "dom_data doc n = (case node_at doc (lb_dom (ln_box n)) of None \<Rightarrow> [] | Some d \<Rightarrow> node_data d)"

definition dom_attribute :: "dom_node \<Rightarrow> layout_node \<Rightarrow> string \<Rightarrow> string option" where
  "dom_attribute doc n k = (case node_at doc (lb_dom (ln_box n)) of None \<Rightarrow> None | Some d \<Rightarrow> attribute d k)"



section \<open>Placing children\<close>

text \<open>The recursive call: a box, the place of its margin corner and the width available.\<close>

type_synonym placer = "layout_node \<Rightarrow> fp \<Rightarrow> fp \<Rightarrow> fp \<Rightarrow> layout_node"

text \<open>Blocks, one below the other.\<close>

fun layout_blocks :: "placer \<Rightarrow> fp \<Rightarrow> fp \<Rightarrow> fp \<Rightarrow> layout_node list \<Rightarrow> layout_node list \<times> fp" where
  "layout_blocks place x width cursor_y [] = ([], cursor_y)"
| "layout_blocks place x width cursor_y (c # cs) =
     (if out_of_flow c then
        (case layout_blocks place x width cursor_y cs of (cs', y) \<Rightarrow> (c # cs', y))
      else
        let c' = place c x cursor_y width
        in case layout_blocks place x width (bottom_edge (ln_rect c')) cs of (cs', y) \<Rightarrow> (c' # cs', y))"

text \<open>Inline children; the cursor is \<open>(cursor_x, cursor_y, max_bottom)\<close>.  A text takes the place of
  its last fragment.\<close>

type_synonym inline_cursor = "fp \<times> fp \<times> fp"

definition after_fragments :: "fp \<Rightarrow> fp \<Rightarrow> text_fragment list \<Rightarrow> inline_cursor \<Rightarrow> inline_cursor" where
  "after_fragments x height fragments =
     fold (\<lambda>f (cursor_x, cursor_y, max_bottom).
       (right_edge (frag_rect f), rect_y (frag_rect f), fmax max_bottom (bottom_edge (frag_rect f)))) fragments"

definition place_text :: "dom_node \<Rightarrow> fp \<Rightarrow> fp \<Rightarrow> fp \<Rightarrow> layout_node \<Rightarrow> inline_cursor \<Rightarrow> layout_node \<times> inline_cursor" where
  "place_text doc x available height c = (\<lambda>(cursor_x, cursor_y, max_bottom).
     (let room = fmax (Num 0) (sub32 (add32 x available) cursor_x);
          fragments = text_layout (dom_data doc c) cursor_x cursor_y room (ln_style c);
          (cx, cy, bottom) = after_fragments x height fragments (cursor_x, cursor_y, max_bottom);
          place1 = (\<lambda>b. b\<lparr> lb_box := (lb_box b)\<lparr> content := (content (lb_box b))\<lparr> rect_x := cursor_x, rect_y := cursor_y, rect_width := room \<rparr> \<rparr>,
                           lb_fragments := fragments \<rparr>);
          place2 = (\<lambda>b. let r = (content (lb_box b))\<lparr> rect_height := sub32 bottom cursor_y \<rparr>
                         in b\<lparr> lb_box := (lb_box b)\<lparr> content := r \<rparr>, lb_rect := r \<rparr>)
      in (change_box (if fragments = [] then place1 else place2 \<circ> place1) c, (cx, cy, bottom))))"

definition place_inline :: "placer \<Rightarrow> fp \<Rightarrow> fp \<Rightarrow> layout_node \<Rightarrow> inline_cursor \<Rightarrow> layout_node \<times> inline_cursor" where
  "place_inline place x available c = (\<lambda>(cursor_x, cursor_y, max_bottom).
     (let room = sub32 (add32 x available) cursor_x;
          c1 = place c cursor_x cursor_y room;
          (c2, cursor_y) =
            (if fless x cursor_x \<and> fless room (rect_width (ln_rect c1)) then (place c1 x max_bottom available, max_bottom)
             else (c1, cursor_y));
          cursor_x = right_edge (ln_rect c2);
          max_bottom = fmax max_bottom (bottom_edge (ln_rect c2))
      in (c2, if fle (add32 x available) cursor_x then (x, max_bottom, max_bottom) else (cursor_x, cursor_y, max_bottom))))"

fun inline_loop :: "dom_node \<Rightarrow> placer \<Rightarrow> fp \<Rightarrow> fp \<Rightarrow> fp \<Rightarrow> layout_node list \<Rightarrow> inline_cursor \<Rightarrow> layout_node list \<times> inline_cursor" where
  "inline_loop doc place x available height [] cursor = ([], cursor)"
| "inline_loop doc place x available height (c # cs) cursor =
     (let (c', cursor') =
        (if out_of_flow c then (c, cursor)
         else if ln_display c = InlineBox \<and> is_text doc c then place_text doc x available height c cursor
         else place_inline place x available c cursor)
      in case inline_loop doc place x available height cs cursor' of (cs', cur) \<Rightarrow> (c' # cs', cur))"

definition layout_inline :: "dom_node \<Rightarrow> placer \<Rightarrow> style_properties \<Rightarrow> fp \<Rightarrow> fp \<Rightarrow> fp \<Rightarrow> layout_node list \<Rightarrow> layout_node list \<times> fp" where
  "layout_inline doc place style x y available cs =
     (let height = line_height style in
      case inline_loop doc place x available height cs (x, y, y) of
        (cs', (cursor_x, cursor_y, max_bottom)) \<Rightarrow> (cs', fmax max_bottom (add32 cursor_y height)))"

text \<open>The items of a flex or grid container, as positions in the list of its children.\<close>

definition flow_items :: "layout_node list \<Rightarrow> nat list" where
  "flow_items cs = filter (\<lambda>i. \<not> out_of_flow (cs ! i)) [0..<length cs]"

text \<open>\<open>std::max(0, (int) n - 1)\<close> as a \<open>float\<close>.\<close>

definition gaps_between :: "nat \<Rightarrow> fp" where
  "gaps_between n = lit32 (of_nat (n - 1))"

definition column_step :: "placer \<Rightarrow> layout_rect \<Rightarrow> fp \<Rightarrow> fp \<Rightarrow> nat \<Rightarrow> layout_node list \<times> fp \<times> fp \<Rightarrow> layout_node list \<times> fp \<times> fp" where
  "column_step place area available gap i = (\<lambda>(cs, cursor, max_width).
     (let c = place (cs ! i) (rect_x area) cursor available
      in (cs[i := c], add32 (bottom_edge (ln_rect c)) gap, fmax max_width (rect_width (ln_rect c)))))"

definition flex_column :: "placer \<Rightarrow> layout_rect \<Rightarrow> fp \<Rightarrow> fp \<Rightarrow> nat list \<Rightarrow> layout_node list \<Rightarrow> layout_node list \<times> fp \<times> fp" where
  "flex_column place area available gap items cs =
     fold (column_step place area available gap) items (cs, rect_y area, Num 0)"

definition flex_grow :: "fp \<Rightarrow> layout_node \<Rightarrow> fp" where
  "flex_grow available c = fmax (Num 0) (parse_length (style_get (ln_style c) ''flex-grow'') (Num 0) available)"

definition flex_width :: "fp \<Rightarrow> layout_node \<Rightarrow> fp" where
  "flex_width available c = style_length (ln_style c) ''width'' available (Num (-1))"

definition shift_down :: "fp \<Rightarrow> layout_node \<Rightarrow> layout_node" where
  "shift_down d = change_box (\<lambda>b. b\<lparr> lb_rect := (lb_rect b)\<lparr> rect_y := add32 (rect_y (lb_rect b)) d \<rparr> \<rparr>)"

definition flex_start :: "string option \<Rightarrow> fp \<Rightarrow> nat \<Rightarrow> fp \<Rightarrow> fp \<times> fp" where
  "flex_start justify free n x =
     (if justify = Some ''center'' then (add32 x (div32 free (Num 2)), Num 0)
      else if justify = Some ''flex-end'' then (add32 x free, Num 0)
      else if justify = Some ''space-between'' \<and> 1 < n then (x, div32 free (lit32 (of_nat (n - 1))))
      else if justify = Some ''space-around'' then
        (let extra = div32 free (lit32 (of_nat n)) in (add32 x (div32 extra (Num 2)), extra))
      else (x, Num 0))"

text \<open>The share of the free space an item without a width takes.\<close>

definition item_width :: "fp \<Rightarrow> fp \<Rightarrow> fp \<Rightarrow> layout_node \<Rightarrow> fp" where
  "item_width available free total_grow c =
     (let own = flex_width available c in
      if fless own (Num 0)
      then if fless (Num 0) total_grow then div32 (mul32 free (flex_grow available c)) total_grow else Num 0
      else own)"

definition row_step :: "placer \<Rightarrow> string option \<Rightarrow> fp \<Rightarrow> (layout_node \<Rightarrow> fp) \<Rightarrow> fp \<Rightarrow> fp \<Rightarrow> nat
    \<Rightarrow> layout_node list \<times> fp \<times> fp \<Rightarrow> layout_node list \<times> fp \<times> fp" where
  "row_step place align y width gap extra_gap i = (\<lambda>(cs, cursor_x, max_height).
     (let c1 = place (cs ! i) cursor_x y (width (cs ! i));
          c = (if align = Some ''center''
               then shift_down (div32 (fmax (Num 0) (sub32 max_height (rect_height (ln_rect c1)))) (Num 2)) c1 else c1)
      in (cs[i := c], add32 (add32 (right_edge (ln_rect c)) gap) extra_gap, fmax max_height (rect_height (ln_rect c)))))"

definition to_bottom :: "fp \<Rightarrow> nat \<Rightarrow> layout_node list \<Rightarrow> layout_node list" where
  "to_bottom max_height i cs = cs[i := shift_down (sub32 max_height (rect_height (ln_rect (cs ! i)))) (cs ! i)]"

definition flex_row :: "placer \<Rightarrow> style_properties \<Rightarrow> layout_rect \<Rightarrow> fp \<Rightarrow> fp \<Rightarrow> nat list \<Rightarrow> layout_node list \<Rightarrow> layout_node list \<times> fp" where
  "flex_row place style area available gap items cs =
     (let total_grow = fold (\<lambda>i t. add32 t (flex_grow available (cs ! i))) items (Num 0);
          total_fixed = fold (\<lambda>i t. if at_least_zero (flex_width available (cs ! i)) then add32 t (flex_width available (cs ! i)) else t)
            items (mul32 gap (gaps_between (length items)));
          free = fmax (Num 0) (sub32 available total_fixed);
          align = style_get style ''align-items'';
          (start, extra_gap) = flex_start (style_get style ''justify-content'') free (length items) (rect_x area);
          (cs1, cursor_x, max_height) =
            fold (row_step place align (rect_y area) (item_width available free total_grow) gap extra_gap) items (cs, start, Num 0);
          cs2 = (if align = Some ''flex-end'' then fold (to_bottom max_height) items cs1 else cs1)
      in (cs2, add32 (rect_y area) max_height))"

text \<open>\<open>layout_flex_children\<close>: the children, the new width of the content and the cursor.\<close>

definition layout_flex :: "placer \<Rightarrow> style_properties \<Rightarrow> layout_rect \<Rightarrow> fp \<Rightarrow> fp \<Rightarrow> layout_node list \<Rightarrow> layout_node list \<times> fp \<times> fp" where
  "layout_flex place style area available cursor_y cs =
     (let items = flow_items cs;
          direction = style_get style ''flex-direction'';
          ordered = (if direction \<in> {Some ''row-reverse'', Some ''column-reverse''} then rev items else items);
          gap = parse_length (style_get style ''gap'') (Num 0) available
      in if items = [] then (cs, rect_width area, cursor_y)
         else if direction \<in> {Some ''column'', Some ''column-reverse''} then
           (case flex_column place area available gap ordered cs of
              (cs', cursor, max_width) \<Rightarrow> (cs', fmax (rect_width area) max_width, sub32 cursor gap))
         else (case flex_row place style area available gap ordered cs of (cs', y) \<Rightarrow> (cs', rect_width area, y)))"

text \<open>The tracks of a grid: the words of the value at spaces and tabs.\<close>

fun track_words :: "string \<Rightarrow> string \<Rightarrow> string list" where
  "track_words token [] = flush_word [] token"
| "track_words token (c # cs) =
     (if c = CHR '' '' \<or> c = CHR 0x09 then flush_word [] token @ track_words [] cs else track_words (token @ [c]) cs)"

definition is_fraction :: "string \<Rightarrow> bool" where
  "is_fraction token \<longleftrightarrow> 2 \<le> length token \<and> drop (length token - 2) token = ''fr''"

definition track_size :: "fp \<Rightarrow> string \<Rightarrow> fp" where
  "track_size available token =
     (if is_fraction token then fneg (fmax (Num 0) (strto_value single token))
      else parse_length (Some token) (Num 0) available)"

definition grid_gap :: "style_properties \<Rightarrow> string \<Rightarrow> fp \<Rightarrow> fp" where
  "grid_gap style own available =
     parse_length (style_get style own) (parse_length (style_get style ''gap'') (Num 0) available) available"

definition parse_tracks :: "style_properties \<Rightarrow> string option \<Rightarrow> fp \<Rightarrow> fp list" where
  "parse_tracks style v available =
     (case v of None \<Rightarrow> []
      | Some s \<Rightarrow>
          let tokens = track_words [] s;
              tracks = map (track_size available) tokens;
              fixed = fold (\<lambda>t f. if is_fraction t then f else add32 f (track_size available t)) tokens (Num 0);
              gap = grid_gap style ''column-gap'' available;
              remaining = fmax (Num 0) (sub32 (sub32 available fixed) (mul32 gap (gaps_between (length tracks))));
              total = fold (\<lambda>v t. if fless v (Num 0) then add32 t (fneg v) else t) tracks (Num 0)
          in map (\<lambda>v. if fless v (Num 0)
                      then if fless (Num 0) total then div32 (mul32 remaining (fneg v)) total else Num 0 else v) tracks)"

definition grid_columns :: "style_properties \<Rightarrow> fp \<Rightarrow> fp list" where
  "grid_columns style available =
     (let tracks = parse_tracks style (style_get style ''grid-template-columns'') available
      in if tracks = [] then [available] else tracks)"

text \<open>One item, in the next cell; the state is the children and the heights of the rows so far.\<close>

definition place_cell :: "placer \<Rightarrow> layout_rect \<Rightarrow> fp list \<Rightarrow> fp \<Rightarrow> fp \<Rightarrow> nat \<times> nat \<Rightarrow> layout_node list \<times> fp list \<Rightarrow> layout_node list \<times> fp list" where
  "place_cell place area columns gap_x gap_y = (\<lambda>(index, i) (cs, heights).
     (let col = index mod length columns; row = index div length columns;
          heights = heights @ replicate (Suc row - length heights) (Num 0);
          x = fold (\<lambda>w x. add32 x (add32 w gap_x)) (take col columns) (rect_x area);
          y = fold (\<lambda>h y. add32 y (add32 h gap_y)) (take row heights) (rect_y area);
          c = place (cs ! i) x y (columns ! col)
      in (cs[i := c], heights[row := fmax (heights ! row) (rect_height (ln_rect c))])))"

definition layout_grid :: "placer \<Rightarrow> style_properties \<Rightarrow> layout_rect \<Rightarrow> fp \<Rightarrow> fp \<Rightarrow> layout_node list \<Rightarrow> layout_node list \<times> fp" where
  "layout_grid place style area available cursor_y cs =
     (let items = flow_items cs; columns = grid_columns style available;
          gap_x = grid_gap style ''column-gap'' available; gap_y = grid_gap style ''row-gap'' available
      in if items = [] then (cs, cursor_y)
         else
           case fold (place_cell place area columns gap_x gap_y) (zip [0..<length items] items) (cs, []) of
             (cs', heights) \<Rightarrow>
               (cs', add32 (rect_y area)
                  (add32 (fold (\<lambda>h t. add32 t h) heights (Num 0)) (mul32 gap_y (gaps_between (length heights))))))"

text \<open>Absolutely positioned children.\<close>

definition place_absolute :: "placer \<Rightarrow> layout_rect \<Rightarrow> fp \<Rightarrow> layout_node \<Rightarrow> layout_node" where
  "place_absolute place area available c =
     (if \<not> is_positioned c then c
      else
        let fixed = (style_get (ln_style c) ''position'' = Some ''fixed'');
            width0 = style_length (ln_style c) ''width'' available (Num 0);
            l = parse_length (style_get (ln_style c) ''left'') (Num (-1)) available;
            r = parse_length (style_get (ln_style c) ''right'') (Num (-1)) available;
            width = (if fle width0 (Num 0) \<and> at_least_zero l \<and> at_least_zero r
                     then fmax (Num 0) (sub32 (sub32 available l) r) else width0);
            base_x = (if fixed then Num 0 else rect_x area);
            base_y = (if fixed then Num 0 else rect_y area);
            x = (if at_least_zero l then add32 base_x l
                 else if at_least_zero r then sub32 (sub32 (add32 base_x available) r) width else base_x);
            y = add32 base_y (parse_length (style_get (ln_style c) ''top'') (Num 0) (rect_height area))
        in place c x y available)"



section \<open>One box\<close>

definition has_inline :: "layout_node list \<Rightarrow> bool" where
  "has_inline cs \<longleftrightarrow> list_ex (\<lambda>c. \<not> is_positioned c \<and> (ln_display c = InlineBox \<or> ln_display c = InlineBlockBox)) cs"

text \<open>The width of the content, before an image has its say.\<close>

definition content_width :: "style_properties \<Rightarrow> fp \<Rightarrow> box_edges \<Rightarrow> box_edges \<Rightarrow> box_edges \<Rightarrow> fp" where
  "content_width style available m p b =
     (let specified = style_length style ''width'' available (Num (-1));
          min_width = style_length style ''min-width'' available (Num 0);
          max_width = style_length style ''max-width'' available (Num (-1));
          noncontent = add32 (add32 (add32 (add32 (add32 (edge_left m) (edge_right m)) (edge_left p)) (edge_right p)) (edge_left b)) (edge_right b);
          w0 = (if at_least_zero specified then specified else fmax (Num 0) (sub32 available noncontent));
          w1 = (if at_least_zero max_width then fmin w0 max_width else w0)
      in fmax w1 min_width)"

text \<open>An image: the width and the height of the content.\<close>

definition image_size :: "style_properties \<Rightarrow> fp \<Rightarrow> string option \<Rightarrow> string option \<Rightarrow> fp \<Rightarrow> fp \<times> fp" where
  "image_size style available width height w =
     (let iw = (case width of None \<Rightarrow> Num 0 | Some v \<Rightarrow> parse_length (Some v) (Num 0) available);
          ih = (case height of None \<Rightarrow> Num 0 | Some v \<Rightarrow> parse_length (Some v) (Num 0) available);
          w' = (if fless (style_length style ''width'' available (Num (-1))) (Num 0) \<and> fless (Num 0) iw then iw else w);
          ratio = (if fless (Num 0) iw \<and> fless (Num 0) ih then div32 ih iw else lit32 (3 / 4));
          specified = parse_length (style_get style ''height'') (Num (-1)) w'
      in (w', if at_least_zero specified then specified else if fless (Num 0) ih then ih else mul32 w' ratio))"

definition text_height :: "style_properties \<Rightarrow> fp \<Rightarrow> text_fragment list \<Rightarrow> fp" where
  "text_height style y fragments =
     (if fragments = [] then Num 0
      else sub32 (add32 (rect_y (frag_rect (last fragments))) (line_height style)) y)"

text \<open>The children in the flow of a container: the children, the width of the content and the
  cursor.\<close>

definition flow_children :: "dom_node \<Rightarrow> placer \<Rightarrow> style_properties \<Rightarrow> layout_display \<Rightarrow> layout_rect \<Rightarrow> fp \<Rightarrow> layout_node list
    \<Rightarrow> layout_node list \<times> fp \<times> fp" where
  "flow_children doc place style display area w cs =
     (let x = rect_x area; y = rect_y area in
      if display = FlexBox then layout_flex place style area w y cs
      else if display = GridBox then (case layout_grid place style area w y cs of (cs', y') \<Rightarrow> (cs', w, y'))
      else if has_inline cs then (case layout_inline doc place style x y w cs of (cs', y') \<Rightarrow> (cs', w, y'))
      else (case layout_blocks place x w y cs of (cs', y') \<Rightarrow> (cs', w, y')))"

definition aspect_height :: "style_properties \<Rightarrow> fp \<Rightarrow> fp \<Rightarrow> fp \<Rightarrow> fp" where
  "aspect_height style w specified height =
     (case style_get style ''aspect-ratio'' of None \<Rightarrow> height
      | Some ratio \<Rightarrow>
          let rw = strto_value single ratio;
              rh = (case find_idx (\<lambda>c. c = CHR ''/'') ratio of None \<Rightarrow> Num 1
                    | Some slash \<Rightarrow> strto_value single (drop (slash + 1) ratio))
          in if fless (Num 0) rw \<and> fless (Num 0) rh \<and> fless specified (Num 0)
             then div32 (mul32 w rh) rw else height)"

definition container_height :: "style_properties \<Rightarrow> fp \<Rightarrow> fp \<Rightarrow> fp" where
  "container_height style w height =
     (let specified = parse_length (style_get style ''height'') (Num (-1)) w;
          min_height = parse_length (style_get style ''min-height'') (Num 0) w;
          max_height = parse_length (style_get style ''max-height'') (Num (-1)) w;
          h0 = (if at_least_zero specified then specified else height);
          h1 = fmax (aspect_height style w specified h0) min_height
      in if at_least_zero max_height then fmin h1 max_height else h1)"

text \<open>The outer rectangle and what \<open>position: relative\<close> adds.\<close>

definition outer_rect :: "fp \<Rightarrow> fp \<Rightarrow> fp \<Rightarrow> box_model \<Rightarrow> layout_rect" where
  "outer_rect x y w box =
     mk_rect (add32 x (edge_left (margin box))) (add32 y (edge_top (margin box)))
       (add32 (add32 (add32 (add32 w (edge_left (padding box))) (edge_right (padding box))) (edge_left (border box))) (edge_right (border box)))
       (add32 (add32 (add32 (add32 (rect_height (content box)) (edge_top (padding box))) (edge_bottom (padding box))) (edge_top (border box))) (edge_bottom (border box)))"

definition relative_offset :: "style_properties \<Rightarrow> fp \<Rightarrow> string \<Rightarrow> string \<Rightarrow> fp" where
  "relative_offset style available near far =
     sub32 (parse_length (style_get style near) (Num 0) available) (parse_length (style_get style far) (Num 0) available)"

definition shift_rect :: "fp \<Rightarrow> fp \<Rightarrow> layout_rect \<Rightarrow> layout_rect" where
  "shift_rect dx dy r = r\<lparr> rect_x := add32 (rect_x r) dx, rect_y := add32 (rect_y r) dy \<rparr>"

definition shift_relative :: "fp \<Rightarrow> layout_box \<Rightarrow> layout_box" where
  "shift_relative available b =
     (let style = lb_style b;
          dx = relative_offset style available ''left'' ''right''; dy = relative_offset style available ''top'' ''bottom''
      in if style_get style ''position'' = Some ''relative''
         then b\<lparr> lb_rect := shift_rect dx dy (lb_rect b), lb_box := (lb_box b)\<lparr> content := shift_rect dx dy (content (lb_box b)) \<rparr> \<rparr>
         else b)"

definition finish_box :: "fp \<Rightarrow> fp \<Rightarrow> fp \<Rightarrow> fp \<Rightarrow> box_model \<Rightarrow> text_fragment list \<Rightarrow> layout_box \<Rightarrow> layout_box" where
  "finish_box x y available w box fragments b =
     shift_relative available (b\<lparr> lb_rect := outer_rect x y w box, lb_box := box, lb_fragments := fragments \<rparr>)"

definition hidden_box :: "layout_box \<Rightarrow> layout_box" where
  "hidden_box b = b\<lparr> lb_rect := zero_rect, lb_box := zero_box, lb_fragments := [] \<rparr>"

definition layout_container :: "dom_node \<Rightarrow> placer \<Rightarrow> layout_node \<Rightarrow> fp \<Rightarrow> fp \<Rightarrow> fp \<Rightarrow> fp \<Rightarrow> (fp \<Rightarrow> fp \<Rightarrow> box_model) \<Rightarrow> layout_node" where
  "layout_container doc place n x y available w box =
     (let style = ln_style n; area = content (box w (Num 0)) in
      case flow_children doc place style (ln_display n) area w (ln_children n) of
        (cs, cw, cursor_y) \<Rightarrow>
          let h = container_height style w (sub32 cursor_y (rect_y area));
              cs' = map (place_absolute place (content (box cw h)) w) cs
          in LayoutNode (finish_box x y available w (box cw h) (lb_fragments (ln_box n)) (ln_box n)) cs')"

definition layout_step :: "dom_node \<Rightarrow> placer \<Rightarrow> placer" where
  "layout_step doc place n x y available =
     (if ln_display n = NoBox then change_box hidden_box n
      else
        let style = ln_style n;
            m = resolve_edges style ''margin'' available;
            p = resolve_edges style ''padding'' available;
            b = resolve_edges style ''border'' available;
            w = content_width style available m p b;
            cx = add32 (add32 (add32 x (edge_left m)) (edge_left b)) (edge_left p);
            cy = add32 (add32 (add32 y (edge_top m)) (edge_top b)) (edge_top p);
            box = (\<lambda>cw h. \<lparr> content = mk_rect cx cy cw h, margin = m, padding = p, border = b \<rparr>)
        in
          if is_dom doc n (\<lambda>d. node_type d = ElementNode \<and> node_name d = ''img'') then
            (case image_size style available (dom_attribute doc n ''width'') (dom_attribute doc n ''height'') w of
               (w', h) \<Rightarrow> change_box (finish_box x y available w' (box w' h) (lb_fragments (ln_box n))) n)
          else if is_text doc n then
            (let fragments = text_layout (dom_data doc n) cx cy w style
             in change_box (finish_box x y available w (box w (text_height style cy fragments)) fragments) n)
          else
            layout_container doc place n x y available w box)"

fun layout_at :: "dom_node \<Rightarrow> nat \<Rightarrow> placer" where
  "layout_at doc 0 n x y available = n"
| "layout_at doc (Suc k) n x y available = layout_step doc (layout_at doc k) n x y available"

fun box_depth :: "layout_node \<Rightarrow> nat" where
  "box_depth (LayoutNode b cs) = Suc (foldr max (map (\<lambda>c. box_depth c) cs) 0)"

text \<open>\<open>LayoutEngine::layout\<close>.\<close>

definition layout :: "dom_node \<Rightarrow> layout_node \<Rightarrow> fp \<Rightarrow> layout_node" where
  "layout doc tree viewport_width = layout_at doc (box_depth tree) tree (Num 0) (Num 0) viewport_width"



section \<open>What layout keeps\<close>

text \<open>The tree without what layout computes: nodes, styles, displays and their arrangement.\<close>

fun shape :: "layout_node \<Rightarrow> layout_node" where
  "shape (LayoutNode b cs) = LayoutNode (hidden_box b) (map (\<lambda>c. shape c) cs)"

lemma shape_unfold: "shape n = LayoutNode (hidden_box (ln_box n)) (map shape (ln_children n))"
  by (cases n) simp

lemma hidden_box_sel [simp]:
  "lb_dom (hidden_box b) = lb_dom b" "lb_style (hidden_box b) = lb_style b" "lb_display (hidden_box b) = lb_display b"
  "hidden_box (hidden_box b) = hidden_box b"
  by (simp_all add: hidden_box_def)

lemma hidden_updates [simp]:
  "hidden_box (b\<lparr> lb_rect := r \<rparr>) = hidden_box b" "hidden_box (b\<lparr> lb_box := m \<rparr>) = hidden_box b"
  "hidden_box (b\<lparr> lb_fragments := fs \<rparr>) = hidden_box b"
  by (simp_all add: hidden_box_def)

lemma finish_box_hidden [simp]: "hidden_box (finish_box x y available w box fs b) = hidden_box b"
  by (simp add: finish_box_def shift_relative_def Let_def)

lemma shape_change_box [simp]: "(\<And>b. hidden_box (f b) = hidden_box b) \<Longrightarrow> shape (change_box f n) = shape n"
  by (simp add: shape_unfold)

lemma shape_shift_down [simp]: "shape (shift_down d n) = shape n"
  by (simp add: shift_down_def)

lemma same_shape_fields:
  assumes "shape n = shape n'"
  shows "lb_dom (ln_box n) = lb_dom (ln_box n')" "ln_style n = ln_style n'" "ln_display n = ln_display n'"
proof -
  have "hidden_box (ln_box n) = hidden_box (ln_box n')" using assms by (simp add: shape_unfold)
  then show "lb_dom (ln_box n) = lb_dom (ln_box n')" "ln_style n = ln_style n'" "ln_display n = ln_display n'"
    by (metis hidden_box_sel)+
qed

lemma box_depth_shape: "box_depth (shape n) = box_depth n"
proof (induction n rule: shape.induct)
  case (1 b cs)
  then have "map (\<lambda>x. box_depth (shape x)) cs = map box_depth cs" by simp
  from arg_cong [OF this, of "\<lambda>l. foldr max l 0"] show ?case by (simp add: comp_def)
qed

lemma foldr_max_less: "foldr max (map f cs) 0 < Suc k \<longleftrightarrow> (\<forall>c \<in> set cs. f c \<le> k)" for f :: "'a \<Rightarrow> nat"
  by (induction cs) (auto simp: less_Suc_eq_le)

lemma box_depth_children: "box_depth n \<le> Suc k \<longleftrightarrow> (\<forall>c \<in> set (ln_children n). box_depth c \<le> k)"
  using foldr_max_less [of box_depth "ln_children n" k] by (cases n) (auto simp: less_Suc_eq_le)

text \<open>A fold over the items of a container keeps the shapes of the children, and does the same with
  another step function that does the same.\<close>

lemma fold_shapes:
  assumes "\<And>i st. i \<in> set is \<Longrightarrow> map shape (fst st) = S \<Longrightarrow> g i st = f i st \<and> map shape (fst (f i st)) = S"
    and "map shape (fst st) = S"
  shows "fold g is st = fold f is st \<and> map shape (fst (fold f is st)) = S"
  using assms
proof (induction "is" arbitrary: st)
  case (Cons i "is")
  have h: "g i st = f i st" "map shape (fst (f i st)) = S" using Cons.prems(1) [of i st] Cons.prems(2) by simp_all
  have "fold g is (f i st) = fold f is (f i st) \<and> map shape (fst (fold f is (f i st))) = S"
    by (rule Cons.IH [OF Cons.prems(1) h(2)]) simp
  then show ?case using h by simp
qed simp

locale two_placers =
  fixes admitted :: "layout_node \<Rightarrow> bool" and place1 :: placer and place2 :: placer
  assumes agree: "admitted n \<Longrightarrow> place2 n x y w = place1 n x y w"
    and keeps: "admitted n \<Longrightarrow> shape (place1 n x y w) = shape n"
    and closed: "admitted n \<Longrightarrow> shape n' = shape n \<Longrightarrow> admitted n'"
begin

lemma blocks:
  "list_all admitted cs \<Longrightarrow> layout_blocks place2 x w y cs = layout_blocks place1 x w y cs \<and>
    map shape (fst (layout_blocks place1 x w y cs)) = map shape cs"
  by (induction cs arbitrary: y) (simp_all add: Let_def agree keeps case_prod_unfold)

lemma inline_child:
  assumes "admitted c"
  shows "place_inline place2 x available c cursor = place_inline place1 x available c cursor \<and>
    shape (fst (place_inline place1 x available c cursor)) = shape c"
proof -
  have "admitted (place1 c u v w)" for u v w using closed [OF assms] keeps [OF assms] by blast
  then show ?thesis using assms
    by (cases cursor) (auto simp: place_inline_def Let_def agree keeps split: prod.splits)
qed

lemma text_child: "shape (fst (place_text doc x available height c cursor)) = shape c"
  by (cases cursor) (auto simp: place_text_def Let_def split: prod.splits)

lemma inline_children:
  "list_all admitted cs \<Longrightarrow> inline_loop doc place2 x available height cs cursor = inline_loop doc place1 x available height cs cursor \<and>
    map shape (fst (inline_loop doc place1 x available height cs cursor)) = map shape cs"
proof (induction cs arbitrary: cursor)
  case (Cons c cs)
  define r1 where "r1 = (if out_of_flow c then (c, cursor)
    else if ln_display c = InlineBox \<and> is_text doc c then place_text doc x available height c cursor
    else place_inline place1 x available c cursor)"
  have e: "r1 = (if out_of_flow c then (c, cursor)
    else if ln_display c = InlineBox \<and> is_text doc c then place_text doc x available height c cursor
    else place_inline place2 x available c cursor)"
    using inline_child [of c x available cursor] Cons.prems by (auto simp: r1_def)
  have s: "shape (fst r1) = shape c" using inline_child [of c] Cons.prems text_child by (auto simp: r1_def)
  have u1: "inline_loop doc place1 x available height (c # cs) cursor =
      (case inline_loop doc place1 x available height cs (snd r1) of (cs', cur) \<Rightarrow> (fst r1 # cs', cur))"
    by (simp add: r1_def Let_def split: prod.splits)
  have u2: "inline_loop doc place2 x available height (c # cs) cursor =
      (case inline_loop doc place2 x available height cs (snd r1) of (cs', cur) \<Rightarrow> (fst r1 # cs', cur))"
    by (simp add: e Let_def split: prod.splits)
  show ?case unfolding u1 u2 using Cons.IH [of "snd r1"] Cons.prems s by (auto split: prod.splits)
qed simp

lemma item_within: "map shape cs = map shape cs0 \<Longrightarrow> list_all admitted cs0 \<Longrightarrow> i < length cs \<Longrightarrow> admitted (cs ! i)"
  using closed [of "cs0 ! i" "cs ! i"] by (metis length_map list_all_length nth_map)

lemma item_placed:
  assumes "map shape cs = map shape cs0" and "list_all admitted cs0" and "i < length cs"
  shows "place2 (cs ! i) x y w = place1 (cs ! i) x y w"
    and "shape c' = shape (place1 (cs ! i) x y w) \<Longrightarrow> map shape (cs[i := c']) = map shape cs0"
proof -
  have c: "admitted (cs ! i)" by (rule item_within [OF assms])
  show "place2 (cs ! i) x y w = place1 (cs ! i) x y w" by (rule agree [OF c])
  show "map shape (cs[i := c']) = map shape cs0" if "shape c' = shape (place1 (cs ! i) x y w)"
    using that keeps [OF c] assms(1,3) by (simp add: map_update) (metis list_update_id map_update)
qed

lemma same_length: "map shape cs = map shape cs0 \<Longrightarrow> length cs = length cs0"
  by (metis length_map)

lemma column:
  assumes "list_all admitted cs0" and "map shape cs = map shape cs0" and "\<forall>i \<in> set items. i < length cs0"
  shows "flex_column place2 area available gap items cs = flex_column place1 area available gap items cs \<and>
    map shape (fst (flex_column place1 area available gap items cs)) = map shape cs0"
  unfolding flex_column_def
proof (rule fold_shapes)
  fix i and st :: "layout_node list \<times> fp \<times> fp"
  assume h: "i \<in> set items" "map shape (fst st) = map shape cs0"
  then show "column_step place2 area available gap i st = column_step place1 area available gap i st \<and>
      map shape (fst (column_step place1 area available gap i st)) = map shape cs0"
    using item_placed [OF h(2) assms(1), of i] same_length [OF h(2)] assms(3)
    by (cases st) (auto simp: column_step_def Let_def)
qed (use assms in simp)

lemma rows:
  assumes "list_all admitted cs0" and "map shape cs = map shape cs0" and "\<forall>i \<in> set items. i < length cs0"
  shows "fold (row_step place2 align y width gap extra) items (cs, start, h) = fold (row_step place1 align y width gap extra) items (cs, start, h) \<and>
    map shape (fst (fold (row_step place1 align y width gap extra) items (cs, start, h))) = map shape cs0"
proof (rule fold_shapes)
  fix i and st :: "layout_node list \<times> fp \<times> fp"
  assume h: "i \<in> set items" "map shape (fst st) = map shape cs0"
  then show "row_step place2 align y width gap extra i st = row_step place1 align y width gap extra i st \<and>
      map shape (fst (row_step place1 align y width gap extra i st)) = map shape cs0"
    using item_placed [OF h(2) assms(1), of i] same_length [OF h(2)] assms(3)
    by (cases st) (auto simp: row_step_def Let_def)
qed (use assms in simp)

lemma bottom_shapes: "map shape (fold (to_bottom h) items cs) = map shape cs"
proof (induction items arbitrary: cs)
  case (Cons i items)
  have "map shape (to_bottom h i cs) = map shape cs"
  proof (cases "i < length cs")
    case True
    then have "map shape (to_bottom h i cs) = (map shape cs)[i := map shape cs ! i]" by (simp add: to_bottom_def map_update)
    then show ?thesis by simp
  qed (simp add: to_bottom_def list_update_beyond)
  then show ?case using Cons by simp
qed simp

lemma flow_items_bounds: "\<forall>i \<in> set (flow_items cs). i < length cs"
  by (simp add: flow_items_def)

lemma flex_children:
  assumes "list_all admitted cs"
  shows "layout_flex place2 style area available y cs = layout_flex place1 style area available y cs \<and>
    map shape (fst (layout_flex place1 style area available y cs)) = map shape cs"
proof -
  have r: "flex_row place2 style area available gap items cs = flex_row place1 style area available gap items cs \<and>
      map shape (fst (flex_row place1 style area available gap items cs)) = map shape cs"
    if "\<forall>i \<in> set items. i < length cs" for gap items
    using rows [OF assms refl that] bottom_shapes by (simp add: flex_row_def Let_def case_prod_unfold)
  have i: "\<forall>i \<in> set (flow_items cs). i < length cs" "\<forall>i \<in> set (rev (flow_items cs)). i < length cs"
    using flow_items_bounds [of cs] by simp_all
  note c = column [OF assms refl, of _ area available]
  show ?thesis
    using c [OF i(1)] c [OF i(2)] r [OF i(1)] r [OF i(2)] by (simp add: layout_flex_def Let_def case_prod_unfold)
qed

lemma grid_children:
  assumes "list_all admitted cs"
  shows "layout_grid place2 style area available y cs = layout_grid place1 style area available y cs \<and>
    map shape (fst (layout_grid place1 style area available y cs)) = map shape cs"
proof -
  let ?ps = "zip [0..<length (flow_items cs)] (flow_items cs)"
  have f: "fold (place_cell place2 area columns gx gy) ?ps (cs, []) = fold (place_cell place1 area columns gx gy) ?ps (cs, []) \<and>
      map shape (fst (fold (place_cell place1 area columns gx gy) ?ps (cs, []))) = map shape cs" for columns gx gy
  proof (rule fold_shapes)
    fix p and st :: "layout_node list \<times> fp list"
    assume h: "p \<in> set ?ps" "map shape (fst st) = map shape cs"
    obtain a i where p: "p = (a, i)" by (cases p)
    have "i \<in> set (flow_items cs)" using h(1) unfolding p by (rule set_zip_rightD)
    then have i: "snd p < length cs" using flow_items_bounds [of cs] p by simp
    then show "place_cell place2 area columns gx gy p st = place_cell place1 area columns gx gy p st \<and>
        map shape (fst (place_cell place1 area columns gx gy p st)) = map shape cs"
      using item_placed [OF h(2) assms, of "snd p"] same_length [OF h(2)]
      by (cases st; cases p) (auto simp: place_cell_def Let_def)
  qed simp
  then show ?thesis by (simp add: layout_grid_def Let_def case_prod_unfold)
qed

lemma flow:
  assumes "list_all admitted cs"
  shows "flow_children doc place2 style display area w cs = flow_children doc place1 style display area w cs \<and>
    map shape (fst (flow_children doc place1 style display area w cs)) = map shape cs"
  using flex_children [OF assms] grid_children [OF assms] blocks [OF assms] inline_children [OF assms]
  by (simp add: flow_children_def layout_inline_def Let_def case_prod_unfold)

lemma absolute: "admitted c \<Longrightarrow> place_absolute place2 area w c = place_absolute place1 area w c \<and> shape (place_absolute place1 area w c) = shape c"
  by (simp add: place_absolute_def Let_def agree keeps)

lemma step:
  assumes "list_all admitted (ln_children n)"
  shows "layout_step doc place2 n x y available = layout_step doc place1 n x y available \<and>
    shape (layout_step doc place1 n x y available) = shape n"
proof -
  have a: "map (place_absolute place2 area w) cs = map (place_absolute place1 area w) cs \<and>
      map shape (map (place_absolute place1 area w) cs) = map shape cs" if "map shape cs = map shape (ln_children n)" for area w cs
  proof -
    have "\<forall>c \<in> set cs. admitted c"
      using item_within [OF that assms] by (auto simp: in_set_conv_nth)
    then show ?thesis using absolute by auto
  qed
  have "layout_container doc place2 n x y available w box = layout_container doc place1 n x y available w box \<and>
      shape (layout_container doc place1 n x y available w box) = shape n" for w box
  proof -
    let ?area = "content (box w (Num 0))"
    obtain cs cw cursor where f: "flow_children doc place1 (ln_style n) (ln_display n) ?area w (ln_children n) = (cs, cw, cursor)"
      by (rule prod_cases3)
    then have g: "flow_children doc place2 (ln_style n) (ln_display n) ?area w (ln_children n) = (cs, cw, cursor)"
      "map shape cs = map shape (ln_children n)"
      using flow [OF assms, of doc "ln_style n" "ln_display n" ?area w] by simp_all
    show ?thesis using a [OF g(2)] g(2) unfolding layout_container_def f g(1) Let_def
      by (simp add: shape_unfold [of n] del: map_map)
  qed
  then show ?thesis by (simp add: layout_step_def Let_def case_prod_unfold)
qed

end


lemma layout_at_Suc: "layout_at doc (Suc k) = layout_step doc (layout_at doc k)"
  by (simp add: fun_eq_iff)

lemma box_depth_nonzero [simp]: "box_depth n \<noteq> 0"
  by (cases n) simp

text \<open>One more unit of fuel changes nothing once the fuel reaches the height of the tree.\<close>

lemma layout_at_placers: "two_placers (\<lambda>n. box_depth n \<le> k) (layout_at doc k) (layout_at doc (Suc k))"
proof (induction k)
  case 0
  show ?case by unfold_locales simp_all
next
  case (Suc k)
  have c: "list_all (\<lambda>n. box_depth n \<le> k) (ln_children n)" if "box_depth n \<le> Suc k" for n
    using that by (simp add: box_depth_children list_all_iff)
  note s = two_placers.step [OF Suc c]
  show ?case
  proof
    fix n n' x y w
    assume n: "box_depth n \<le> Suc k"
    show "layout_at doc (Suc (Suc k)) n x y w = layout_at doc (Suc k) n x y w"
      "shape (layout_at doc (Suc k) n x y w) = shape n"
      using s [OF n, of doc x y w] by (simp_all add: layout_at_Suc del: layout_at.simps)
    show "box_depth n' \<le> Suc k" if "shape n' = shape n"
      using that n box_depth_shape by metis
  qed
qed

interpretation engine: two_placers "\<lambda>n. box_depth n \<le> k" "layout_at doc k" "layout_at doc (Suc k)" for k doc
  by (rule layout_at_placers)

lemma layout_at_fuel: "box_depth n \<le> k \<Longrightarrow> layout_at doc (k + d) n x y w = layout_at doc k n x y w"
proof (induction d)
  case (Suc d)
  have "layout_at doc (Suc (k + d)) n x y w = layout_at doc (k + d) n x y w"
    by (rule engine.agree) (use Suc.prems in simp)
  then show ?case using Suc by simp
qed simp

text \<open>Layout ends, and its recursion never runs out of fuel.  With any fuel from the height of the
  tree on the result is the same, so that the fuel is no part of what the engine computes.\<close>

theorem layout_fuel_enough:
  assumes "box_depth tree \<le> k"
  shows "layout_at doc k tree (Num 0) (Num 0) width = layout doc tree width"
proof -
  obtain d where "k = box_depth tree + d" using assms nat_le_iff_add by blast
  then show ?thesis by (simp add: layout_def layout_at_fuel)
qed

theorem layout_fuel_enough_witness:
  "layout_at new_document 7 (LayoutNode (new_box [] [] BlockBox) []) (Num 0) (Num 0) (Num 100) =
    layout new_document (LayoutNode (new_box [] [] BlockBox) []) (Num 100)"
  by (rule layout_fuel_enough) simp

lemma layout_keeps_shape: "shape (layout doc tree width) = shape tree"
  unfolding layout_def by (rule engine.keeps) simp


section \<open>Which nodes have boxes\<close>

text \<open>The boxes of a tree in the order of the recursion, and the nodes of those that are shown.\<close>

fun boxes_of :: "layout_node \<Rightarrow> layout_node list" where
  "boxes_of (LayoutNode b cs) = LayoutNode b cs # concat (map boxes_of cs)"

abbreviation box_node :: "layout_node \<Rightarrow> node_path" where "box_node n \<equiv> lb_dom (ln_box n)"

definition shown_boxes :: "layout_node list \<Rightarrow> node_path list" where
  "shown_boxes ts = map box_node (filter (\<lambda>b. ln_display b \<noteq> NoBox) (concat (map boxes_of ts)))"

lemma boxes_of_shape: "map (\<lambda>b. hidden_box (ln_box b)) (boxes_of n) = map ln_box (boxes_of (shape n))"
proof (induction n rule: boxes_of.induct)
  case (1 b cs)

  then show ?case by (simp add: map_concat comp_def cong: map_cong)
qed

lemma layout_boxes:
  "map box_node (boxes_of (layout doc tree width)) = map box_node (boxes_of tree)"
  "shown_boxes [layout doc tree width] = shown_boxes [tree]"
proof -
  have h: "map (\<lambda>b. hidden_box (ln_box b)) (boxes_of (layout doc tree width)) = map (\<lambda>b. hidden_box (ln_box b)) (boxes_of tree)"
    by (simp only: boxes_of_shape layout_keeps_shape)
  have "map lb_dom (map (\<lambda>b. hidden_box (ln_box b)) bs) = map box_node bs" for bs by simp
  then show "map box_node (boxes_of (layout doc tree width)) = map box_node (boxes_of tree)" using h by metis
  have "map lb_dom (filter (\<lambda>b. lb_display b \<noteq> NoBox) (map (\<lambda>b. hidden_box (ln_box b)) bs)) =
      map box_node (filter (\<lambda>b. ln_display b \<noteq> NoBox) bs)" for bs
    by (simp add: filter_map comp_def)
  then show "shown_boxes [layout doc tree width] = shown_boxes [tree]" using h by (simp add: shown_boxes_def) metis
qed

text \<open>The nodes a page shows: those whose own computed display is not \<open>none\<close>, in document order.  A node
  under one that is hidden inherits from the nearest one that is not.\<close>

fun shown_nodes :: "dom_node \<Rightarrow> css_stylesheet \<Rightarrow> visual_state option \<Rightarrow> dom_node \<Rightarrow> node_path \<Rightarrow> style_properties option \<Rightarrow> node_path list"
and shown_in :: "dom_node \<Rightarrow> css_stylesheet \<Rightarrow> visual_state option \<Rightarrow> dom_node list \<Rightarrow> node_path \<Rightarrow> nat \<Rightarrow> style_properties option \<Rightarrow> node_path list"
where
  "shown_nodes doc sheet vis (DomNode ty name d attrs cs) p parent_style =
     (let style = style_resolve doc vis p sheet parent_style in
      if display_for (DomNode ty name d attrs cs) style = NoBox then shown_in doc sheet vis cs p 0 parent_style
      else p # shown_in doc sheet vis cs p 0 (Some style))"
| "shown_in doc sheet vis [] p i parent_style = []"
| "shown_in doc sheet vis (c # cs) p i parent_style =
     shown_nodes doc sheet vis c (p @ [i]) parent_style @ shown_in doc sheet vis cs p (Suc i) parent_style"

lemma shown_boxes_simps:
  "shown_boxes [] = []" "shown_boxes (ts @ us) = shown_boxes ts @ shown_boxes us"
  "shown_boxes (LayoutNode b cs # ts) = (if lb_display b = NoBox then [] else [lb_dom b]) @ shown_boxes cs @ shown_boxes ts"
  by (simp_all add: shown_boxes_def)

text \<open>The tree that is built has the boxes of these nodes: what a hidden element hands to its parent
  comes before the hidden box, which has no children.\<close>

lemma build_node_shown:
  "(\<lambda>(hoisted, c). shown_boxes (hoisted @ [c]) = shown_nodes doc sheet vis n p parent_style \<and> (ln_display c = NoBox \<longrightarrow> ln_children c = []))
    (build_node doc sheet vis n p parent_style)"
and build_children_shown:
  "shown_boxes (concat (map (\<lambda>(hoisted, c). hoisted @ [c]) (build_children doc sheet vis cs p i parent_style))) =
     shown_in doc sheet vis cs p i parent_style \<and>
   shown_boxes (concat (map (\<lambda>(hoisted, c). hoisted @ (if ln_display c = NoBox then ln_children c else [c]))
     (build_children doc sheet vis cs p i parent_style))) = shown_in doc sheet vis cs p i parent_style"
proof (induction doc sheet vis n p parent_style and doc sheet vis cs p i parent_style rule: build_node_build_children.induct)
  case (1 doc sheet vis ty name d attrs cs p parent_style)
  show ?case
  proof (cases "display_for (DomNode ty name d attrs cs) (style_resolve doc vis p sheet parent_style) = NoBox")
    case True
    then show ?thesis using 1(1) [OF refl refl True] by (simp add: Let_def shown_boxes_simps new_box_def)
  next
    case False
    then show ?thesis using 1(2) [OF refl refl False] by (simp add: Let_def shown_boxes_simps new_box_def)
  qed
next
  case (3 doc sheet vis c cs p i parent_style)
  obtain hoisted b where b: "build_node doc sheet vis c (p @ [i]) parent_style = (hoisted, b)" by fastforce
  obtain x ys where x: "b = LayoutNode x ys" by (cases b)
  show ?case using 3 b x by (auto simp: shown_boxes_simps split: if_splits)
qed (simp_all add: shown_boxes_simps)

text \<open>Every box, shown or not, is that of a node of the document.\<close>

definition boxes_within :: "dom_node \<Rightarrow> layout_node \<Rightarrow> bool" where
  "boxes_within whole t \<longleftrightarrow> (\<forall>b \<in> set (boxes_of t). node_at whole (box_node b) \<noteq> None)"

lemma boxes_within_node:
  "boxes_within whole (LayoutNode b cs) \<longleftrightarrow> node_at whole (lb_dom b) \<noteq> None \<and> (\<forall>c \<in> set cs. boxes_within whole c)"
  by (auto simp: boxes_within_def)

lemma boxes_within_children: "boxes_within whole t \<Longrightarrow> c \<in> set (ln_children t) \<Longrightarrow> boxes_within whole c"
  by (cases t) (simp add: boxes_within_node)

lemma build_node_nodes:
  "node_at whole p = Some n \<Longrightarrow>
    (\<lambda>(hoisted, c). \<forall>t \<in> set (hoisted @ [c]). boxes_within whole t) (build_node doc sheet vis n p parent_style)"
and build_children_nodes:
  "(\<And>k. k < length cs \<Longrightarrow> node_at whole (p @ [i + k]) = Some (cs ! k)) \<Longrightarrow>
    \<forall>(hoisted, c) \<in> set (build_children doc sheet vis cs p i parent_style). \<forall>t \<in> set (hoisted @ [c]). boxes_within whole t"
proof (induction doc sheet vis n p parent_style and doc sheet vis cs p i parent_style rule: build_node_build_children.induct)
  case (1 doc sheet vis ty name d attrs cs p parent_style)
  have at: "node_at whole (p @ [0 + k]) = Some (cs ! k)" if "k < length cs" for k
    using 1(3) that by (simp add: node_at_snoc)
  show ?case
  proof (cases "display_for (DomNode ty name d attrs cs) (style_resolve doc vis p sheet parent_style) = NoBox")
    case True
    let ?bc = "build_children doc sheet vis cs p 0 parent_style"
    note kids = 1(1) [OF refl refl True at]
    have "boxes_within whole t"
      if "(hoisted, c) \<in> set ?bc" "t \<in> set (hoisted @ (if ln_display c = NoBox then ln_children c else [c]))" for hoisted c t
    proof -
      have "\<forall>t \<in> set (hoisted @ [c]). boxes_within whole t" using bspec [OF kids that(1)] by simp
      then show ?thesis using that(2) boxes_within_children [of whole c t] by (auto split: if_splits)
    qed
    then have "\<forall>t \<in> set (concat (map (\<lambda>(hoisted, c). hoisted @ (if ln_display c = NoBox then ln_children c else [c])) ?bc)).
        boxes_within whole t"
      by fastforce
    then show ?thesis using True 1(3) by (simp add: Let_def new_box_def boxes_within_node)
  next
    case False
    let ?bc = "build_children doc sheet vis cs p 0 (Some (style_resolve doc vis p sheet parent_style))"
    note kids = 1(2) [OF refl refl False at]
    have "boxes_within whole t" if "(hoisted, c) \<in> set ?bc" "t \<in> set (hoisted @ [c])" for hoisted c t
      using bspec [OF kids that(1)] that(2) by auto
    then have "\<forall>t \<in> set (concat (map (\<lambda>(hoisted, c). hoisted @ [c]) ?bc)). boxes_within whole t" by fastforce
    then show ?thesis using False 1(3) by (simp add: Let_def new_box_def boxes_within_node)
  qed
next
  case (3 doc sheet vis c cs p i parent_style)
  have "node_at whole (p @ [i]) = Some c" using 3(3) [of 0] by simp
  moreover have "node_at whole (p @ [Suc i + k]) = Some (cs ! k)" if "k < length cs" for k
    using 3(3) [of "Suc k"] that by simp
  ultimately show ?case using 3(1,2) by auto
qed simp

lemma laid_out_nodes:
  assumes "build_layout doc sheet vis = Some tree" and "b \<in> set (boxes_of (layout doc tree width))"
  shows "node_at doc (box_node b) \<noteq> None"
proof -
  have "box_node b \<in> set (map box_node (boxes_of tree))"
    using assms(2) layout_boxes(1) [of doc tree width] by (metis image_eqI image_set)
  then show ?thesis
    using assms(1) build_node_nodes [of doc "[]" doc doc sheet vis None]
    by (auto simp: build_layout_def boxes_within_def split: prod.splits if_splits)
qed

text \<open>C24: Layout shows every node it should, once and in order.  Whatever the style sheet and the width, the
  boxes of the laid out page that are not hidden are those of the nodes whose own computed display
  is not \<open>none\<close>, in document order: none is lost, doubled or reordered, not even by a reversed flex
  container, an absolute position or a hidden parent (the descendants of an element with
  \<open>display: none\<close> are shown all the same).  And every box is that of a node of the document.\<close>

theorem laid_out_boxes:
  "case build_layout doc sheet vis of None \<Rightarrow> True
   | Some tree \<Rightarrow>
       map box_node (filter (\<lambda>b. ln_display b \<noteq> NoBox) (boxes_of (layout doc tree width))) = shown_nodes doc sheet vis doc [] None \<and>
       set (map box_node (boxes_of (layout doc tree width))) \<subseteq> {p. node_at doc p \<noteq> None}"
proof (cases "build_layout doc sheet vis")
  case (Some tree)
  have "shown_boxes [tree] = shown_nodes doc sheet vis doc [] None"
    using Some build_node_shown [of doc sheet vis doc "[]" None] by (auto simp: build_layout_def split: prod.splits if_splits)
  then have "map box_node (filter (\<lambda>b. ln_display b \<noteq> NoBox) (boxes_of (layout doc tree width))) = shown_nodes doc sheet vis doc [] None"
    using layout_boxes(2) [of doc tree width] by (simp add: shown_boxes_def)
  then show ?thesis using laid_out_nodes [OF Some] Some by auto
qed simp

end
