(* ===== verification/Color.thy ===== *)
theory Color
  imports Prelude
begin

text \<open>
  \<open>color.hpp\<close> and \<open>color.cpp\<close>: the colour record, its parser and the source-over blending of
  every paint operation.  The \<open>unsigned int\<close> intermediate values stay far below 2^32, so they
  are naturals; the final casts to \<open>uint8_t\<close> are written out, because one of them wraps.
\<close>

record color =
  red :: byte
  green :: byte
  blue :: byte
  alpha :: byte

definition rgba :: "byte \<Rightarrow> byte \<Rightarrow> byte \<Rightarrow> byte \<Rightarrow> color" where
  "rgba r g b a = \<lparr> red = r, green = g, blue = b, alpha = a \<rparr>"

text \<open>The default member initializers.\<close>

definition new_color :: color where
  "new_color = rgba 0 0 0 255"

section \<open>Parsing\<close>

definition hex_value :: "char \<Rightarrow> nat option" where
  "hex_value c =
     (let n = ascii c in
      if 48 \<le> n \<and> n \<le> 57 then Some (n - 48)
      else if 97 \<le> n \<and> n \<le> 102 then Some (n - 87)
      else if 65 \<le> n \<and> n \<le> 70 then Some (n - 55)
      else None)"

text \<open>\<open>std::from_chars\<close> with base 16 has to consume both characters.\<close>

definition hex_byte :: "string \<Rightarrow> byte option" where
  "hex_byte s =
     (case s of
        [c, d] \<Rightarrow>
          (case (hex_value c, hex_value d) of
             (Some x, Some y) \<Rightarrow> Some (of_nat (16 * x + y))
           | _ \<Rightarrow> None)
      | _ \<Rightarrow> None)"

definition named_colors :: "(string \<times> color) list" where
  "named_colors =
     [(''black'', rgba 0 0 0 255), (''white'', rgba 255 255 255 255), (''red'', rgba 255 0 0 255),
      (''green'', rgba 0 128 0 255), (''blue'', rgba 0 0 255 255), (''yellow'', rgba 255 255 0 255),
      (''gray'', rgba 128 128 128 255), (''grey'', rgba 128 128 128 255)]"

definition color_of :: "byte option \<Rightarrow> byte option \<Rightarrow> byte option \<Rightarrow> byte option \<Rightarrow> color option" where
  "color_of r g b a =
     (case (r, g, b, a) of
        (Some r, Some g, Some b, Some a) \<Rightarrow> Some (rgba r g b a)
      | _ \<Rightarrow> None)"

definition long_hex :: "string \<Rightarrow> color option" where
  "long_hex s =
     (if (length s = 7 \<or> length s = 9) \<and> s ! 0 = CHR ''#''
      then color_of (hex_byte (take 2 (drop 1 s))) (hex_byte (take 2 (drop 3 s))) (hex_byte (take 2 (drop 5 s)))
             (if length s = 9 then hex_byte (take 2 (drop 7 s)) else Some 255)
      else None)"

definition short_hex :: "string \<Rightarrow> color option" where
  "short_hex s =
     (if length s = 4 \<and> s ! 0 = CHR ''#''
      then color_of (hex_byte [s ! 1, s ! 1]) (hex_byte [s ! 2, s ! 2]) (hex_byte [s ! 3, s ! 3]) (Some 255)
      else None)"

definition parse_color :: "string \<Rightarrow> color option" where
  "parse_color s =
     (if s = ''transparent'' then Some (rgba 0 0 0 0)
      else case map_of named_colors s of
        Some c \<Rightarrow> Some c
      | None \<Rightarrow> (case short_hex s of Some c \<Rightarrow> Some c | None \<Rightarrow> long_hex s))"

section \<open>Blending\<close>

definition blend_alpha :: "nat \<Rightarrow> nat \<Rightarrow> nat" where
  "blend_alpha sa da = sa + (da * (255 - sa) + 127) div 255"

definition blend_channel :: "nat \<Rightarrow> nat \<Rightarrow> nat \<Rightarrow> nat \<Rightarrow> nat" where
  "blend_channel sa da sc dc =
     (let out = blend_alpha sa da; source = sc * sa; destination = dc * da * (255 - sa) div 255
      in (source + destination + out div 2) div out)"

definition blend_over :: "color \<Rightarrow> color \<Rightarrow> color" where
  "blend_over s d =
     (let sa = unat (alpha s); da = unat (alpha d); out = blend_alpha sa da in
      if out = 0 then rgba 0 0 0 0
      else rgba (of_nat (blend_channel sa da (unat (red s)) (unat (red d))))
                (of_nat (blend_channel sa da (unat (green s)) (unat (green d))))
                (of_nat (blend_channel sa da (unat (blue s)) (unat (blue d))))
                (of_nat out))"

section \<open>Correctness\<close>

lemma unat_byte: "unat (b :: byte) \<le> 255"
proof -
  have "unat b < 2 ^ LENGTH(8)" by (rule unsigned_less)
  then show ?thesis by simp
qed

lemma unat_of_nat_byte: "n < 256 \<Longrightarrow> unat (of_nat n :: byte) = n"
  by (simp add: unat_of_nat take_bit_nat_eq_self)

definition hex_char :: "nat \<Rightarrow> char" where
  "hex_char n = ''0123456789abcdef'' ! n"

definition hex_pair :: "byte \<Rightarrow> string" where
  "hex_pair b = [hex_char (unat b div 16), hex_char (unat b mod 16)]"

definition hex_text :: "color \<Rightarrow> string" where
  "hex_text c = ''#'' @ hex_pair (red c) @ hex_pair (green c) @ hex_pair (blue c) @ hex_pair (alpha c)"

lemma hex_value_char: "n < 16 \<Longrightarrow> hex_value (hex_char n) = Some n"
proof -
  have "list_all (\<lambda>n. hex_value (hex_char n) = Some n) [0..<16]" by code_simp
  then show "n < 16 \<Longrightarrow> hex_value (hex_char n) = Some n" by (simp add: list_all_iff)
qed

lemma hex_byte_pair [simp]: "hex_byte (hex_pair b) = Some b"
proof -
  have "unat b div 16 < 16" using unat_byte [of b] by simp
  moreover have "16 * (unat b div 16) + unat b mod 16 = unat b" by (rule mult_div_mod_eq)
  ultimately show ?thesis
    by (simp add: hex_byte_def hex_pair_def hex_value_char del: of_nat_add of_nat_mult)
qed

lemma hash_not_named: "map_of named_colors (CHR ''#'' # s) = None"
  by (simp add: named_colors_def)

text \<open>Colour notation round trip.  Writing any colour as \<open>#rrggbbaa\<close> and parsing it gives
  the colour back, all four channels included.\<close>

theorem parse_color_hex: "parse_color (hex_text c) = Some c"
proof -
  have p: "hex_pair b = [hex_char (unat b div 16), hex_char (unat b mod 16)]" for b
    by (simp add: hex_pair_def)
  have "long_hex (hex_text c) = Some c"
    using hex_byte_pair [of "red c", unfolded p] hex_byte_pair [of "green c", unfolded p]
      hex_byte_pair [of "blue c", unfolded p] hex_byte_pair [of "alpha c", unfolded p]
    by (simp add: long_hex_def hex_text_def p color_of_def rgba_def)
  moreover have "short_hex (hex_text c) = None" by (simp add: short_hex_def hex_text_def p)
  ultimately show ?thesis
    using hash_not_named by (simp add: parse_color_def hex_text_def)
qed

lemma blend_alpha_opaque: "sa \<le> 255 \<Longrightarrow> blend_alpha sa 255 = 255"
  by (simp add: blend_alpha_def)

lemma mix_between:
  fixes m M s d a :: nat
  assumes "m \<le> s" "m \<le> d" "s \<le> M" "d \<le> M" "a \<le> 255"
  shows "m \<le> (s * a + d * (255 - a) + 127) div 255" and "(s * a + d * (255 - a) + 127) div 255 \<le> M"
proof -
  have "m * a \<le> s * a" "m * (255 - a) \<le> d * (255 - a)" "s * a \<le> M * a" "d * (255 - a) \<le> M * (255 - a)"
    using assms by simp_all
  moreover have "m * a + m * (255 - a) = m * 255" "M * a + M * (255 - a) = M * 255"
    using assms(5) by (simp_all add: add_mult_distrib2 [symmetric])
  ultimately have "m * 255 \<le> s * a + d * (255 - a)" "s * a + d * (255 - a) \<le> M * 255" by linarith+
  then show "m \<le> (s * a + d * (255 - a) + 127) div 255" "(s * a + d * (255 - a) + 127) div 255 \<le> M" by simp_all
qed

text \<open>The rounded mix of two channels.\<close>

definition mix :: "byte \<Rightarrow> byte \<Rightarrow> byte \<Rightarrow> byte" where
  "mix a s d = of_nat ((unat s * unat a + unat d * (255 - unat a) + 127) div 255)"

lemma mix_bounds: "min s d \<le> mix a s d" "mix a s d \<le> max s d"
proof -
  let ?x = "(unat s * unat a + unat d * (255 - unat a) + 127) div 255"
  have b: "min (unat s) (unat d) \<le> ?x" "?x \<le> max (unat s) (unat d)"
    using mix_between [of "min (unat s) (unat d)" "unat s" "unat d" "max (unat s) (unat d)" "unat a"] unat_byte [of a] by auto
  then have "?x < 256" using unat_byte [of s] unat_byte [of d] by simp
  then have "unat (mix a s d) = ?x" unfolding mix_def by (rule unat_of_nat_byte)
  then show "min s d \<le> mix a s d" "mix a s d \<le> max s d"
    using b by (auto simp: word_le_nat_alt min_def max_def split: if_splits)
qed

lemma blend_channel_opaque:
  "of_nat (blend_channel (unat a) 255 (unat s) (unat d)) = mix a s d"
  using unat_byte [of a] by (simp add: blend_channel_def blend_alpha_opaque mix_def ac_simps)

text \<open>Blending onto an opaque surface is the rounded mix.  Over a destination of alpha 255
  the result is opaque, every channel is the rounded linear mix of the two, and it lies between them
  (nothing overflows).\<close>

theorem blend_over_opaque:
  "blend_over s (d\<lparr> alpha := 255 \<rparr>) =
     rgba (mix (alpha s) (red s) (red d)) (mix (alpha s) (green s) (green d)) (mix (alpha s) (blue s) (blue d)) 255 \<and>
   min (red s) (red d) \<le> red (blend_over s (d\<lparr> alpha := 255 \<rparr>)) \<and>
   red (blend_over s (d\<lparr> alpha := 255 \<rparr>)) \<le> max (red s) (red d) \<and>
   mix 255 (red s) (red d) = red s \<and> mix 0 (red s) (red d) = red d"
proof -
  have "blend_over s (d\<lparr> alpha := 255 \<rparr>) =
     rgba (mix (alpha s) (red s) (red d)) (mix (alpha s) (green s) (green d)) (mix (alpha s) (blue s) (blue d)) 255"
    using unat_byte [of "alpha s"]
    by (simp add: blend_over_def Let_def blend_alpha_opaque blend_channel_opaque)
  moreover have "mix 255 (red s) (red d) = red s" "mix 0 (red s) (red d) = red d"
    by (simp_all add: mix_def)
  ultimately show ?thesis using mix_bounds by (simp add: rgba_def)
qed

text \<open>Blending onto a translucent surface can wrap.  Painting white of alpha 1 over white of
  alpha 128 gives black: the rounded channel is 256 and the cast to \<open>uint8_t\<close> makes it 0.\<close>

theorem blend_over_wraps:
  "blend_over (rgba 255 255 255 1) (rgba 255 255 255 128) = rgba 0 0 0 128"
  by (simp add: blend_over_def blend_channel_def blend_alpha_def rgba_def)

end
