(* ===== verification/Inflate.thy ===== *)
theory Inflate
  imports Prelude
begin

unbundle bit_operations_syntax

text \<open>
  The DEFLATE decoder of \<open>png.cpp\<close> (its first half).  The state is the class \<open>Inflater\<close>:
  the input from the cursor on (it is only read forwards), the bit buffer (an \<open>unsigned long\<close>) with the number of
  valid bits, and the output.  The \<open>int\<close> results are negative on failure, as in the code;
  \<open>uint16_t\<close> tables hold numbers far below their bound and are lists of naturals.
\<close>

definition max_bits :: nat where "max_bits = 15"
definition max_lens :: nat where "max_lens = 288"
definition max_dists :: nat where "max_dists = 30"

record huffman =
  hf_count :: "nat list"
  hf_symbol :: "nat list"

definition new_huffman :: huffman where
  "new_huffman = \<lparr> hf_count = replicate 16 0, hf_symbol = replicate 288 0 \<rparr>"

record inflater =
  inf_rest :: bytes
  inf_buffer :: "64 word"
  inf_count :: nat
  inf_out :: bytes

section \<open>Reading bits\<close>

text \<open>The loop of \<open>bits\<close>; \<^term>\<open>None\<close> when the input runs out.\<close>

fun bits_loop :: "nat \<Rightarrow> 64 word \<Rightarrow> bytes \<Rightarrow> inflater \<Rightarrow> 64 word option \<times> inflater" where
  "bits_loop need v [] s = (if inf_count s < need then None else Some v, s)"
| "bits_loop need v (b # bs) s =
     (if inf_count s < need
      then bits_loop need (v OR push_bit (inf_count s) (ucast b)) bs
             (s\<lparr> inf_rest := bs, inf_count := inf_count s + 8 \<rparr>)
      else (Some v, s))"

definition bits :: "inflater \<Rightarrow> nat \<Rightarrow> int \<times> inflater" where
  "bits s need =
     (case bits_loop need (inf_buffer s) (inf_rest s) s of
        (None, s') \<Rightarrow> (-1, s')
      | (Some v, s') \<Rightarrow>
          (int (unat (v AND mask need)),
           s'\<lparr> inf_buffer := drop_bit need v, inf_count := inf_count s' - need \<rparr>))"

section \<open>Huffman tables\<close>

text \<open>The loop of \<open>decode_symbol\<close>; \<open>k\<close> rounds are left, so the length is \<open>16 - k\<close>.\<close>

primrec decode_loop :: "nat \<Rightarrow> huffman \<Rightarrow> int \<Rightarrow> int \<Rightarrow> int \<Rightarrow> inflater \<Rightarrow> int \<times> inflater" where
  "decode_loop 0 table code first index s = (-1, s)"
| "decode_loop (Suc k) table code first index s =
     (let (b, s1) = bits s 1 in
      if b < 0 then (b, s1)
      else
        let code = code OR b;
            count = int (hf_count table ! (15 - k)) in
        if code - count < first then (int (hf_symbol table ! nat (index + (code - first))), s1)
        else decode_loop k table (2 * code) (2 * (first + count)) (index + count) s1)"

definition decode_symbol :: "inflater \<Rightarrow> huffman \<Rightarrow> int \<times> inflater" where
  "decode_symbol s table = decode_loop 15 table 0 0 0 s"

definition count_lengths :: "nat list \<Rightarrow> nat \<Rightarrow> nat list" where
  "count_lengths lengths n =
     fold (\<lambda>symbol count. count[lengths ! symbol := count ! (lengths ! symbol) + 1]) [0..<n] (replicate 16 0)"

text \<open>The loop that subtracts the codes of each length from those available.\<close>

fun left_loop :: "nat list \<Rightarrow> int \<Rightarrow> int" where
  "left_loop [] left = left"
| "left_loop (c # cs) left = (let left = 2 * left - int c in if left < 0 then left else left_loop cs left)"

definition symbol_offsets :: "nat list \<Rightarrow> nat list" where
  "symbol_offsets count =
     fold (\<lambda>l offsets. offsets[l + 1 := offsets ! l + count ! l]) [1..<15] (replicate 16 0)"

definition place_symbol :: "nat list \<Rightarrow> nat \<Rightarrow> nat list \<times> nat list \<Rightarrow> nat list \<times> nat list" where
  "place_symbol lengths symbol st =
     (case st of (offsets, symbols) \<Rightarrow>
       let l = lengths ! symbol in
       if l \<noteq> 0 then (offsets[l := offsets ! l + 1], symbols[offsets ! l := symbol])
       else (offsets, symbols))"

definition construct :: "huffman \<Rightarrow> nat list \<Rightarrow> nat \<Rightarrow> int \<times> huffman" where
  "construct table lengths n =
     (let count = count_lengths lengths n; table1 = table\<lparr> hf_count := count \<rparr> in
      if count ! 0 = n then (0, table1)
      else
        let left = left_loop (drop 1 count) 1 in
        if left < 0 then (left, table1)
        else
          let symbols = snd (fold (place_symbol lengths) [0..<n] (symbol_offsets count, hf_symbol table))
          in (left, table1\<lparr> hf_symbol := symbols \<rparr>))"

section \<open>Blocks\<close>

definition length_base :: "nat list" where
  "length_base = [3, 4, 5, 6, 7, 8, 9, 10, 11, 13, 15, 17, 19, 23, 27, 31, 35, 43, 51, 59, 67, 83,
     99, 115, 131, 163, 195, 227, 258]"

definition length_extra :: "nat list" where
  "length_extra = [0, 0, 0, 0, 0, 0, 0, 0, 1, 1, 1, 1, 2, 2, 2, 2, 3, 3, 3, 3, 4, 4, 4, 4, 5, 5, 5, 5, 0]"

definition distance_base :: "nat list" where
  "distance_base = [1, 2, 3, 4, 5, 7, 9, 13, 17, 25, 33, 49, 65, 97, 129, 193, 257, 385, 513, 769, 1025,
     1537, 2049, 3073, 4097, 6145, 8193, 12289, 16385, 24577]"

definition distance_extra :: "nat list" where
  "distance_extra = [0, 0, 0, 0, 1, 1, 2, 2, 3, 3, 4, 4, 5, 5, 6, 6, 7, 7, 8, 8, 9, 9, 10, 10, 11, 11,
     12, 12, 13, 13]"

definition push_out :: "byte \<Rightarrow> inflater \<Rightarrow> inflater" where
  "push_out b s = s\<lparr> inf_out := inf_out s @ [b] \<rparr>"

primrec copy_match :: "nat \<Rightarrow> nat \<Rightarrow> inflater \<Rightarrow> inflater" where
  "copy_match 0 distance s = s"
| "copy_match (Suc n) distance s =
     copy_match n distance (push_out (inf_out s ! (length (inf_out s) - distance)) s)"

text \<open>The length and distance of a match and its copy: an error code, or 0 and the new state.  The
  distance is compared with \<open>static_cast<int>(state.out->size())\<close>, so that with an output of
  \<open>2 ^ 31\<close> bytes or more a match can be refused that lies within it.\<close>

definition match_step :: "nat \<Rightarrow> huffman \<Rightarrow> inflater \<Rightarrow> int \<times> inflater" where
  "match_step k distance_table s =
     (if 29 \<le> k then (-10, s)
      else let (extra, s1) = bits s (length_extra ! k) in
        if extra < 0 then (extra, s1)
        else
          let len = length_base ! k + nat extra;
              (d, s2) = decode_symbol s1 distance_table in
          if d < 0 then (d, s2)
          else if 30 \<le> d then (-11, s2)
          else let (dextra, s3) = bits s2 (distance_extra ! nat d) in
            if dextra < 0 then (dextra, s3)
            else let distance = distance_base ! nat d + nat dextra in
              if wrap32 (int (length (inf_out s3))) < int distance then (-12, s3)
              else (0, copy_match len distance s3))"

section \<open>Reading bits, least significant first\<close>

text \<open>The abstract side of the bit reader: the bits still to come, each byte from its least
  significant bit.\<close>

definition byte_bits :: "byte \<Rightarrow> bool list" where
  "byte_bits b = map (bit b) [0..<8]"

definition pending_with :: "64 word \<Rightarrow> inflater \<Rightarrow> bool list" where
  "pending_with v s = map (bit v) [0..<inf_count s] @ concat (map byte_bits (inf_rest s))"

definition pending :: "inflater \<Rightarrow> bool list" where
  "pending s = pending_with (inf_buffer s) s"

definition value_of_bits :: "bool list \<Rightarrow> nat" where
  "value_of_bits bs = horner_sum of_bool 2 bs"

text \<open>No bit beyond the valid ones is set in the buffer, and it has room for two more bytes.\<close>

definition clean :: "64 word \<Rightarrow> nat \<Rightarrow> bool" where
  "clean v n \<longleftrightarrow> n \<le> 40 \<and> (\<forall>i. bit v i \<longrightarrow> i < n)"

definition reader_ok :: "inflater \<Rightarrow> bool" where
  "reader_ok s \<longleftrightarrow> clean (inf_buffer s) (inf_count s)"

lemma length_byte_bits [simp]: "length (byte_bits b) = 8"
  by (simp add: byte_bits_def)

lemma pending_with_refill:
  assumes "clean v (inf_count s)" and "inf_count s \<le> 32" and "inf_rest s = b # bs"
  shows "pending_with (v OR push_bit (inf_count s) (ucast b)) (s\<lparr> inf_rest := bs, inf_count := inf_count s + 8 \<rparr>) =
    pending_with v s"
    and "clean (v OR push_bit (inf_count s) (ucast b)) (inf_count s + 8)"
proof -
  let ?n = "inf_count s" and ?w = "v OR push_bit (inf_count s) (ucast b :: 64 word)"
  have bit: "bit ?w i = (if i < ?n then bit v i else bit b (i - ?n))" if "i < 64" for i
    using that assms(1) by (auto simp: bit_or_iff bit_push_bit_iff bit_ucast_iff clean_def)
  have "map (bit ?w) [0..<?n + 8] = map (bit v) [0..<?n] @ byte_bits b"
    using bit assms(2) by (intro nth_equalityI) (auto simp: nth_append byte_bits_def)
  then show "pending_with ?w (s\<lparr> inf_rest := bs, inf_count := ?n + 8 \<rparr>) = pending_with v s"
    using assms(3) by (simp add: pending_with_def)
  have "i < ?n + 8" if "bit ?w i" for i
  proof -
    have "i < 64" using that bit_imp_le_length [of ?w i] by simp
    then show ?thesis using that bit [of i] bit_imp_le_length [of b "i - ?n"] by (auto split: if_splits)
  qed
  then show "clean ?w (?n + 8)" using assms(2) by (simp add: clean_def)
qed

lemma bits_loop_spec:
  assumes "clean v (inf_count s)" and "need \<le> 25" and "rs = inf_rest s"
  shows "case bits_loop need v rs s of
      (None, s') \<Rightarrow> length (pending_with v s) < need
    | (Some w, s') \<Rightarrow> need \<le> inf_count s' \<and> pending_with w s' = pending_with v s \<and> clean w (inf_count s') \<and>
        inf_out s' = inf_out s"
  using assms
proof (induction need v rs s rule: bits_loop.induct)
  case (1 need v s)
  then show ?case by (auto simp: pending_with_def)
next
  case (2 need v b bs s)
  show ?case
  proof (cases "inf_count s < need")
    case True
    then have n: "inf_count s \<le> 32" using 2(3) by simp
    note r = pending_with_refill [OF 2(2) n 2(4) [symmetric]]
    show ?thesis using 2(1) [OF True] r True 2(3) by (auto split: option.splits prod.splits)
  next
    case False
    then show ?thesis using 2(2) by simp
  qed
qed

lemma value_mask: "unat (v AND mask n) = value_of_bits (map (bit v) [0..<n])" if "n < 64" for v :: "64 word"
proof -
  have "unat (v AND mask n) = unat (take_bit n v)" by (simp add: take_bit_eq_mask)
  also have "\<dots> = take_bit n (unat v)" by (simp add: unsigned_take_bit_eq)
  also have "\<dots> = horner_sum of_bool 2 (map (bit (unat v)) [0..<n])" by (simp add: horner_sum_bit_eq_take_bit)
  also have "map (bit (unat v)) [0..<n] = map (bit v) [0..<n]"
    using that by (simp add: bit_unsigned_iff)
  finally show ?thesis by (simp add: value_of_bits_def)
qed

lemma pending_with_drop:
  assumes "need \<le> inf_count s" and "clean v (inf_count s)"
  shows "pending_with (drop_bit need v) (s\<lparr> inf_buffer := x, inf_count := inf_count s - need \<rparr>) = drop need (pending_with v s)"
    and "clean (drop_bit need v) (inf_count s - need)"
proof -
  have "map (bit (drop_bit need v)) [0..<inf_count s - need] = drop need (map (bit v) [0..<inf_count s])"
    using assms(1) by (intro nth_equalityI) (auto simp: bit_drop_bit_eq)
  then show "pending_with (drop_bit need v) (s\<lparr> inf_buffer := x, inf_count := inf_count s - need \<rparr>) = drop need (pending_with v s)"
    using assms(1) by (simp add: pending_with_def)
  show "clean (drop_bit need v) (inf_count s - need)"
    using assms by (auto simp: clean_def bit_drop_bit_eq)
qed

text \<open>The bit reader is exact.  As long as enough input is left, \<open>bits(need)\<close> returns the
  number made of the next \<open>need\<close> bits of the stream, least significant first, and leaves
  exactly the bits after them; otherwise it reports -1.  The output is never touched.\<close>

theorem bits_spec:
  assumes "reader_ok s" and "need \<le> 25"
  shows "if need \<le> length (pending s)
    then \<exists>s'. bits s need = (int (value_of_bits (take need (pending s))), s') \<and>
           pending s' = drop need (pending s) \<and> reader_ok s' \<and> inf_out s' = inf_out s
    else fst (bits s need) = -1"
proof -
  obtain r s1 where l: "bits_loop need (inf_buffer s) (inf_rest s) s = (r, s1)"
    by (cases "bits_loop need (inf_buffer s) (inf_rest s) s")
  note spec = bits_loop_spec [OF assms(1) [unfolded reader_ok_def] assms(2) refl, unfolded l]
  show ?thesis
  proof (cases r)
    case None
    then show ?thesis using spec l by (simp add: bits_def pending_def)
  next
    case (Some v)
    have v: "need \<le> inf_count s1" "pending_with v s1 = pending s" "clean v (inf_count s1)" "inf_out s1 = inf_out s"
      using spec Some by (simp_all add: pending_def)
    let ?s = "s1\<lparr> inf_buffer := drop_bit need v, inf_count := inf_count s1 - need \<rparr>"
    have b: "bits s need = (int (unat (v AND mask need)), ?s)" using l Some by (simp add: bits_def)
    have "take need (pending s) = map (bit v) [0..<need]"
      using v(1) by (simp add: v(2) [symmetric] pending_with_def take_map)
    then have "unat (v AND mask need) = value_of_bits (take need (pending s))"
      using assms(2) by (simp add: value_mask)
    moreover have "pending ?s = drop need (pending s)"
      using pending_with_drop(1) [OF v(1,3), of "drop_bit need v"] unfolding v(2) by (simp add: pending_def)
    moreover have "reader_ok ?s" using pending_with_drop(2) [OF v(1,3)] by (simp add: reader_ok_def)
    moreover have "need \<le> length (pending s)"
      using v(1) by (simp add: v(2) [symmetric] pending_with_def)
    ultimately show ?thesis using b v(4) by simp
  qed
qed

section \<open>Progress\<close>

definition bits_left :: "inflater \<Rightarrow> nat" where
  "bits_left s = inf_count s + 8 * length (inf_rest s)"

lemma bits_loop_left:
  "inf_rest s = rs \<Longrightarrow> bits_left (snd (bits_loop need v rs s)) = bits_left s \<and>
    (fst (bits_loop need v rs s) = None \<or> need \<le> inf_count (snd (bits_loop need v rs s)))"
  by (induction need v rs s rule: bits_loop.induct) (auto simp: bits_left_def)

lemma bits_left_bits:
  "bits_left (snd (bits s need)) \<le> bits_left s"
  "0 \<le> fst (bits s need) \<Longrightarrow> bits_left (snd (bits s need)) + need = bits_left s"
  using bits_loop_left [where s = s and need = need and v = "inf_buffer s", OF refl]
  by (auto simp: bits_def bits_left_def split: prod.splits option.splits)

lemma bits_left_decode_loop:
  "bits_left (snd (decode_loop k t code first index s)) \<le> bits_left s"
proof (induction k arbitrary: code first index s)
  case 0
  then show ?case by simp
next
  case (Suc k)
  have b: "bits_left (snd (bits s 1)) \<le> bits_left s" by (rule bits_left_bits(1))
  show ?case using b Suc [THEN order_trans, OF b]
    by (simp add: Let_def case_prod_unfold)
qed

lemma bits_left_decode_symbol:
  "bits_left (snd (decode_symbol s t)) \<le> bits_left s"
  "0 \<le> fst (decode_symbol s t) \<Longrightarrow> bits_left (snd (decode_symbol s t)) < bits_left s"
proof -
  show "bits_left (snd (decode_symbol s t)) \<le> bits_left s"
    by (simp add: decode_symbol_def bits_left_decode_loop)
  show "bits_left (snd (decode_symbol s t)) < bits_left s" if "0 \<le> fst (decode_symbol s t)"
  proof -
    have "decode_symbol s t = decode_loop (Suc 14) t 0 0 0 s"
      by (simp add: decode_symbol_def)
    note d = this [unfolded decode_loop.simps Let_def case_prod_unfold]
    have b: "0 \<le> fst (bits s 1)"
      using that unfolding d by (simp split: if_splits)
    have "bits_left (snd (bits s 1)) < bits_left s" using bits_left_bits(2) [OF b] by simp
    moreover have "bits_left (snd (decode_symbol s t)) \<le> bits_left (snd (bits s 1))"
      unfolding d by (simp add: bits_left_decode_loop)
    ultimately show ?thesis by simp
  qed
qed

lemma bits_left_copy [simp]: "bits_left (copy_match n d s) = bits_left s"
  by (induction n arbitrary: s) (simp_all add: push_out_def bits_left_def)

lemma bits_left_match: "bits_left (snd (match_step k t s)) \<le> bits_left s"
proof -
  have "bits_left (snd (bits (snd (decode_symbol (snd (bits s a)) t)) b)) \<le> bits_left s" for a b
    using order_trans [OF bits_left_bits(1) order_trans [OF bits_left_decode_symbol(1) bits_left_bits(1)]] .
  moreover have "bits_left (snd (decode_symbol (snd (bits s a)) t)) \<le> bits_left s" for a
    using order_trans [OF bits_left_decode_symbol(1) bits_left_bits(1)] .
  ultimately show ?thesis
    by (simp add: match_step_def Let_def case_prod_unfold bits_left_bits(1))
qed

section \<open>\<open>inflate_block\<close>\<close>

function inflate_block :: "huffman \<Rightarrow> huffman \<Rightarrow> inflater \<Rightarrow> int \<times> inflater" where
  "inflate_block length_table distance_table s =
     (let r = decode_symbol s length_table; symbol = fst r; s1 = snd r in
      if symbol < 0 then (symbol, s1)
      else if symbol < 256 then inflate_block length_table distance_table (push_out (of_int symbol) s1)
      else if 256 < symbol then
        let m = match_step (nat (symbol - 257)) distance_table s1 in
        if fst m \<noteq> 0 then m else inflate_block length_table distance_table (snd m)
      else (0, s1))"
  by pat_completeness auto
termination
proof (relation "measure (\<lambda>(t, d, s). bits_left s)", simp)
  fix t d s r symbol s1
  assume r: "r = decode_symbol s t" "symbol = fst r" "s1 = snd r" "\<not> symbol < 0" "symbol < 256"
  then have "bits_left s1 < bits_left s" using bits_left_decode_symbol(2) [of s t] by simp
  then show "((t, d, push_out (of_int symbol) s1), (t, d, s)) \<in> measure (\<lambda>(t, d, s). bits_left s)"
    by (simp add: push_out_def bits_left_def)
next
  fix t d s r symbol s1 m
  assume r: "r = decode_symbol s t" "symbol = fst r" "s1 = snd r" "\<not> symbol < 0"
    and m: "m = match_step (nat (symbol - 257)) d s1"
  then have "bits_left s1 < bits_left s" using bits_left_decode_symbol(2) [of s t] by simp
  then show "((t, d, snd m), (t, d, s)) \<in> measure (\<lambda>(t, d, s). bits_left s)"
    using bits_left_match [of "nat (symbol - 257)" d s1] m by simp
qed

declare inflate_block.simps [simp del]

lemma bits_left_inflate_block: "bits_left (snd (inflate_block t d s)) \<le> bits_left s"
proof (induction t d s rule: inflate_block.induct)
  case (1 t d s)
  let ?r = "decode_symbol s t"
  let ?m = "match_step (nat (fst ?r - 257)) d (snd ?r)"
  have r: "bits_left (snd ?r) \<le> bits_left s" by (rule bits_left_decode_symbol(1))
  then have m: "bits_left (snd ?m) \<le> bits_left s" using bits_left_match order_trans by blast
  have p: "bits_left (push_out b (snd ?r)) \<le> bits_left s" for b
    using r by (simp add: push_out_def bits_left_def)
  show ?case using r m 1(1) [OF refl refl refl, THEN order_trans, OF _ _ p]
      1(2) [OF refl refl refl _ _ _ refl, THEN order_trans, OF _ _ _ _ m]
    by (subst inflate_block.simps) (simp add: Let_def)
qed

section \<open>Dynamic blocks\<close>

definition code_order :: "nat list" where
  "code_order = [16, 17, 18, 0, 8, 7, 9, 6, 10, 5, 11, 4, 12, 3, 13, 2, 14, 1, 15]"

text \<open>The code length code lengths; the loop over \<open>hclen\<close>.\<close>

fun read_code_lengths :: "nat list \<Rightarrow> nat list \<Rightarrow> inflater \<Rightarrow> (int + nat list) \<times> inflater" where
  "read_code_lengths [] code_lengths s = (Inr code_lengths, s)"
| "read_code_lengths (i # order) code_lengths s =
     (let (v, s1) = bits s 3 in
      if v < 0 then (Inl v, s1)
      else read_code_lengths order (code_lengths[i := nat v]) s1)"

text \<open>One round of the length loop: a failure, or the value and how often it is repeated.\<close>

definition length_round :: "huffman \<Rightarrow> nat list \<Rightarrow> inflater \<Rightarrow> (int + nat \<times> nat) \<times> inflater" where
  "length_round code_table lengths s =
     (let (symbol, s1) = decode_symbol s code_table in
      if symbol < 0 then (Inl symbol, s1)
      else if symbol < 16 then (Inr (nat symbol, 1), s1)
      else if symbol = 16 then
        if lengths = [] then (Inl (-3), s1)
        else let (r, s2) = bits s1 2 in
          if r < 0 then (Inl r, s2) else (Inr (last lengths, nat r + 3), s2)
      else if symbol = 17 then
        let (r, s2) = bits s1 3 in if r < 0 then (Inl r, s2) else (Inr (0, nat r + 3), s2)
      else
        let (r, s2) = bits s1 7 in if r < 0 then (Inl r, s2) else (Inr (0, nat r + 11), s2))"

lemma length_round_repeats: "fst (length_round t ls s) = Inr (v, n) \<Longrightarrow> 0 < n"
  by (auto simp: length_round_def Let_def case_prod_unfold split: if_splits)

text \<open>The length loop; \<open>lengths[0..index)\<close> is the list read so far.\<close>

function read_lengths :: "huffman \<Rightarrow> nat \<Rightarrow> nat list \<Rightarrow> inflater \<Rightarrow> (int + nat list) \<times> inflater" where
  "read_lengths code_table wanted lengths s =
     (if length lengths < wanted then
        case length_round code_table lengths s of
          (Inl e, s1) \<Rightarrow> (Inl e, s1)
        | (Inr (v, repeat), s1) \<Rightarrow>
            if wanted < length lengths + repeat then (Inl (-4), s1)
            else read_lengths code_table wanted (lengths @ replicate repeat v) s1
      else (Inr lengths, s))"
  by pat_completeness auto
termination
proof (relation "measure (\<lambda>(t, wanted, ls, s). wanted - length ls)", simp)
  fix t wanted ls s y s1 z v n
  assume "length ls < wanted" "(y, s1) = length_round t ls s" "y = Inr z" "(v, n) = z"
  then have "length ls < wanted" "fst (length_round t ls s) = Inr (v, n)" by (auto, metis fst_conv)
  moreover from this(2) have "0 < n" by (rule length_round_repeats)
  ultimately show "((t, wanted, ls @ replicate n v, s1), (t, wanted, ls, s)) \<in> measure (\<lambda>(t, wanted, ls, s). wanted - length ls)"
    by simp
qed

declare read_lengths.simps [simp del]

text \<open>The tables of a dynamic block: a failure code, or the two tables.\<close>

definition dynamic_tables :: "huffman \<Rightarrow> huffman \<Rightarrow> inflater \<Rightarrow> (int + huffman \<times> huffman) \<times> inflater" where
  "dynamic_tables length_table distance_table s =
     (let (hlit, s1) = bits s 5; (hdist, s2) = bits s1 5; (hclen, s3) = bits s2 4 in
      if hlit < 0 \<or> hdist < 0 \<or> hclen < 0 then (Inl (-1), s3)
      else
        let hlit = nat hlit + 257; hdist = nat hdist + 1; hclen = nat hclen + 4 in
        if max_lens < hlit \<or> max_dists < hdist then (Inl (-2), s3)
        else case read_code_lengths (take hclen code_order) (replicate 19 0) s3 of
            (Inl e, s4) \<Rightarrow> (Inl e, s4)
          | (Inr code_lengths, s4) \<Rightarrow>
              let (r, code_table) = construct new_huffman code_lengths 19 in
              if r \<noteq> 0 then (Inl r, s4)
              else case read_lengths code_table (hlit + hdist) [] s4 of
                  (Inl e, s5) \<Rightarrow> (Inl e, s5)
                | (Inr lengths, s5) \<Rightarrow>
                    let (r1, lt) = construct length_table lengths hlit in
                    if r1 \<noteq> 0 then (Inl r1, s5)
                    else let (r2, dt) = construct distance_table (drop hlit lengths) hdist in
                      if r2 \<noteq> 0 then (Inl r2, s5) else (Inr (lt, dt), s5))"

section \<open>\<open>inflate_codes\<close>\<close>

definition fixed_lengths :: "nat list" where
  "fixed_lengths = replicate 144 8 @ replicate 112 9 @ replicate 24 7 @ replicate 8 8"

definition fixed_distances :: "nat list" where
  "fixed_distances = replicate 30 5"

text \<open>A stored block, from after its three header bits.\<close>

definition stored_block :: "inflater \<Rightarrow> int \<times> inflater" where
  "stored_block s =
     (let s1 = s\<lparr> inf_buffer := 0, inf_count := 0 \<rparr>; r = inf_rest s in
      if length r < 4 then (-5, s1)
      else
        let len = unat (r ! 0) + 256 * unat (r ! 1);
            nlen = unat (r ! 2) + 256 * unat (r ! 3);
            s2 = s1\<lparr> inf_rest := drop 4 r \<rparr> in
        if (len XOR 65535) \<noteq> nlen then (-6, s2)
        else if length (inf_rest s2) < len then (-7, s2)
        else (0, s2\<lparr> inf_rest := drop len (inf_rest s2), inf_out := inf_out s2 @ take len (inf_rest s2) \<rparr>))"

text \<open>One round of the block loop: the result, the \<open>last\<close> bit and the tables kept for the
  next block.\<close>

definition block_round :: "huffman \<times> huffman \<Rightarrow> inflater \<Rightarrow> int \<times> int \<times> (huffman \<times> huffman) \<times> inflater" where
  "block_round tables s =
     (let (lst, s1) = bits s 1 in
      if lst < 0 then (lst, lst, tables, s1)
      else let (type, s2) = bits s1 2 in
        if type < 0 then (type, lst, tables, s2)
        else if type = 0 then
          let (r, s3) = stored_block s2 in (r, lst, tables, s3)
        else if type = 1 then
          let lt = snd (construct (fst tables) fixed_lengths max_lens);
              dt = snd (construct (snd tables) fixed_distances max_dists);
              (r, s3) = inflate_block lt dt s2
          in (r, lst, (lt, dt), s3)
        else if type = 2 then
          case dynamic_tables (fst tables) (snd tables) s2 of
            (Inl e, s3) \<Rightarrow> (e, lst, tables, s3)
          | (Inr ts, s3) \<Rightarrow>
              let (r, s4) = inflate_block (fst ts) (snd ts) s3 in (r, lst, ts, s4)
        else (-8, lst, tables, s2))"

lemma bits_left_read_code_lengths: "bits_left (snd (read_code_lengths order cl s)) \<le> bits_left s"
proof (induction order cl s rule: read_code_lengths.induct)
  case (1 cl s)
  then show ?case by simp
next
  case (2 i order cl s)
  obtain v s1 where b: "bits s 3 = (v, s1)" by (cases "bits s 3")
  have "bits_left s1 \<le> bits_left s" using bits_left_bits(1) [of s 3] b by simp
  then show ?case using 2 [OF refl b [symmetric]] b by auto
qed

lemma bits_left_length_round: "bits_left (snd (length_round t ls s)) \<le> bits_left s"
  using order_trans [OF bits_left_bits(1) bits_left_decode_symbol(1)] bits_left_decode_symbol(1)
  by (simp add: length_round_def Let_def case_prod_unfold)

lemma bits_left_read_lengths: "bits_left (snd (read_lengths t wanted ls s)) \<le> bits_left s"
proof (induction t wanted ls s rule: read_lengths.induct)
  case (1 t wanted ls s)
  obtain r s1 where lr: "length_round t ls s = (r, s1)" by (cases "length_round t ls s")
  have s1: "bits_left s1 \<le> bits_left s" using bits_left_length_round [of t ls s] lr by simp
  show ?case
  proof (cases "length ls < wanted")
    case False
    then show ?thesis by (subst read_lengths.simps) simp
  next
    case True
    show ?thesis
    proof (cases r)
      case (Inl e)
      then show ?thesis using True lr s1 by (subst read_lengths.simps) simp
    next
      case (Inr vn)
      obtain v n where vn: "vn = (v, n)" by (cases vn)
      show ?thesis
      proof (cases "wanted < length ls + n")
        case True
        then show ?thesis using \<open>length ls < wanted\<close> Inr vn lr s1 by (subst read_lengths.simps) simp
      next
        case False
        have "bits_left (snd (read_lengths t wanted (ls @ replicate n v) s1)) \<le> bits_left s1"
          by (rule 1 [OF True lr [symmetric] Inr vn [symmetric] False])
        then show ?thesis using True False Inr vn lr s1 by (subst read_lengths.simps) simp
      qed
    qed
  qed
qed

lemma bits_left_dynamic_tables: "bits_left (snd (dynamic_tables lt dt s)) \<le> bits_left s"
proof -
  obtain a s1 b s2 c s3 where h: "bits s 5 = (a, s1)" "bits s1 5 = (b, s2)" "bits s2 4 = (c, s3)"
    by (metis surj_pair)
  have s3: "bits_left s3 \<le> bits_left s"
    using bits_left_bits(1) [of s 5] bits_left_bits(1) [of s1 5] bits_left_bits(1) [of s2 4] h by simp
  obtain r s4 where cl: "read_code_lengths (take (nat c + 4) code_order) (replicate 19 0) s3 = (r, s4)"
    by (cases "read_code_lengths (take (nat c + 4) code_order) (replicate 19 0) s3")
  have s4: "bits_left s4 \<le> bits_left s"
    using bits_left_read_code_lengths [of "take (nat c + 4) code_order" "replicate 19 0" s3] cl s3 by simp
  have rl: "bits_left (snd (read_lengths t w ls s4)) \<le> bits_left s" for t w ls
    using order_trans [OF bits_left_read_lengths s4] .
  show ?thesis using s3 s4 rl h
    by (auto simp: dynamic_tables_def Let_def cl case_prod_unfold split: sum.split)
qed

lemma bits_left_stored: "bits_left (snd (stored_block s)) \<le> bits_left s"
proof -
  have "8 * (length (inf_rest s) - k) \<le> inf_count s + 8 * length (inf_rest s)" for k by arith
  then show ?thesis by (simp add: stored_block_def Let_def bits_left_def del: diff_diff_left)
qed

lemma bits_left_block_round:
  "bits_left (snd (snd (snd (block_round tables s)))) \<le> bits_left s"
  "0 \<le> fst (snd (block_round tables s)) \<Longrightarrow> bits_left (snd (snd (snd (block_round tables s)))) < bits_left s"
proof -
  obtain lst s1 where b: "bits s (Suc 0) = (lst, s1)" by (cases "bits s (Suc 0)")
  have s1: "bits_left s1 \<le> bits_left s" "0 \<le> lst \<Longrightarrow> bits_left s1 < bits_left s"
    using bits_left_bits [of s "Suc 0"] b by auto
  obtain ty s2 where t: "bits s1 2 = (ty, s2)" by (cases "bits s1 2")
  have s2: "bits_left s2 \<le> bits_left s1" using bits_left_bits(1) [of s1 2] t by simp
  obtain r s3 where d: "dynamic_tables (fst tables) (snd tables) s2 = (r, s3)"
    by (cases "dynamic_tables (fst tables) (snd tables) s2")
  have s3: "bits_left s3 \<le> bits_left s1"
    using bits_left_dynamic_tables [of "fst tables" "snd tables" s2] d s2 by simp
  have st: "bits_left (snd (stored_block s2)) \<le> bits_left s1" using bits_left_stored [of s2] s2 by simp
  have ib: "bits_left (snd (inflate_block lt dt s2)) \<le> bits_left s1"
    "bits_left (snd (inflate_block lt dt s3)) \<le> bits_left s1" for lt dt
    using bits_left_inflate_block [of lt dt s2] bits_left_inflate_block [of lt dt s3] s2 s3 by simp_all
  have "bits_left (snd (snd (snd (block_round tables s)))) \<le> bits_left s1"
    using s2 s3 st ib
    by (simp add: block_round_def b t d Let_def case_prod_unfold split: sum.split)
  moreover have "fst (snd (block_round tables s)) = lst"
    by (simp add: block_round_def b t d Let_def case_prod_unfold split: sum.split)
  ultimately show "bits_left (snd (snd (snd (block_round tables s)))) \<le> bits_left s"
    "0 \<le> fst (snd (block_round tables s)) \<Longrightarrow> bits_left (snd (snd (snd (block_round tables s)))) < bits_left s"
    using s1 by auto
qed

function block_loop :: "huffman \<times> huffman \<Rightarrow> inflater \<Rightarrow> int \<times> inflater" where
  "block_loop tables s =
     (let r = block_round tables s; result = fst r; lst = fst (snd r); ts = fst (snd (snd r));
          s1 = snd (snd (snd r)) in
      if result \<noteq> 0 then (result, s1)
      else if lst = 0 then block_loop ts s1
      else (0, s1))"
  by pat_completeness auto
termination
proof (relation "measure (\<lambda>(tables, s). bits_left s)", simp)
  fix tables :: "huffman \<times> huffman" and s r result lst ts s1
  assume "r = block_round tables s" "lst = fst (snd r)" "s1 = snd (snd (snd r))" "lst = 0"
  then have "bits_left s1 < bits_left s" using bits_left_block_round(2) [of tables s] by simp
  then show "((ts, s1), (tables, s)) \<in> measure (\<lambda>(tables, s). bits_left s)" by simp
qed

declare block_loop.simps [simp del]

definition inflate_codes :: "bytes \<Rightarrow> int \<times> bytes" where
  "inflate_codes data =
     (let (r, s) = block_loop (new_huffman, new_huffman)
          \<lparr> inf_rest = data, inf_buffer = 0, inf_count = 0, inf_out = [] \<rparr>
      in (r, inf_out s))"

end
