(* ===== verification/Png.thy ===== *)
theory Png
  imports Color Inflate
begin

text \<open>
  \<open>png.cpp\<close>, second half: the PNG container.  The chunk loop only moves forwards, so its
  position is the list of bytes from it on.  \<open>int\<close> products that may exceed 2^31 - 1 (signed
  overflow, undefined behaviour) are the outcome \<open>Overflow\<close>; \<open>size_t\<close> values stay below 2^64
  and allocation is taken to succeed.
\<close>

record image =
  img_width :: int
  img_height :: int
  img_pixels :: "color list"

text \<open>\<open>Image::valid\<close> and \<open>Image::pixel\<close>.\<close>

definition image_valid :: "image \<Rightarrow> bool" where
  "image_valid i \<longleftrightarrow> 0 < img_width i \<and> 0 < img_height i \<and> int (length (img_pixels i)) = img_width i * img_height i"

definition image_pixel :: "image \<Rightarrow> int \<Rightarrow> int \<Rightarrow> color" where
  "image_pixel i x y =
     (if x < 0 \<or> y < 0 \<or> img_width i \<le> x \<or> img_height i \<le> y then new_color
      else img_pixels i ! nat (y * img_width i + x))"

section \<open>Helpers\<close>

definition read_u32 :: "bytes \<Rightarrow> 32 word" where
  "read_u32 p = push_bit 24 (ucast (p ! 0)) OR push_bit 16 (ucast (p ! 1)) OR push_bit 8 (ucast (p ! 2)) OR ucast (p ! 3)"

definition crc_round :: "32 word \<Rightarrow> 32 word" where
  "crc_round c = (if odd c then 0xEDB88320 XOR drop_bit 1 c else drop_bit 1 c)"

definition crc32 :: "bytes \<Rightarrow> 32 word" where
  "crc32 data =
     fold (\<lambda>b c. (crc_round ^^ 8) ((c XOR ucast b) AND 0xFF) XOR drop_bit 8 c) data 0xFFFFFFFF XOR 0xFFFFFFFF"

definition paeth :: "int \<Rightarrow> int \<Rightarrow> int \<Rightarrow> int" where
  "paeth a b c =
     (let p = a + b - c;
          pa = (if a < p then p - a else a - p);
          pb = (if b < p then p - b else b - p);
          pc = (if c < p then p - c else c - p) in
      if pa \<le> pb \<and> pa \<le> pc then a
      else if pb \<le> pc then b
      else c)"

definition png_signature :: bytes where
  "png_signature = [137, 80, 78, 71, 13, 10, 26, 10]"

definition is_png :: "bytes \<Rightarrow> bool" where
  "is_png bs \<longleftrightarrow> 8 \<le> length bs \<and> take 8 bs = png_signature"

section \<open>Chunks\<close>

record png_state =
  p_width :: int
  p_height :: int
  p_depth :: nat
  p_color :: nat
  p_interlace :: nat
  p_palette :: bytes
  p_alpha :: bytes
  p_idat :: bytes

definition new_png :: png_state where
  "new_png = \<lparr> p_width = 0, p_height = 0, p_depth = 0, p_color = 0, p_interlace = 0,
     p_palette = [], p_alpha = [], p_idat = [] \<rparr>"

definition tag_IHDR :: bytes where "tag_IHDR = [73, 72, 68, 82]"
definition tag_PLTE :: bytes where "tag_PLTE = [80, 76, 84, 69]"
definition tag_tRNS :: bytes where "tag_tRNS = [116, 82, 78, 83]"
definition tag_IDAT :: bytes where "tag_IDAT = [73, 68, 65, 84]"
definition tag_IEND :: bytes where "tag_IEND = [73, 69, 78, 68]"

definition apply_chunk :: "bytes \<Rightarrow> bytes \<Rightarrow> png_state \<Rightarrow> png_state" where
  "apply_chunk tag data s =
     (if tag = tag_IHDR \<and> 13 \<le> length data then
        s\<lparr> p_width := sint (read_u32 data), p_height := sint (read_u32 (drop 4 data)),
           p_depth := unat (data ! 8), p_color := unat (data ! 9), p_interlace := unat (data ! 12) \<rparr>
      else if tag = tag_PLTE then s\<lparr> p_palette := data \<rparr>
      else if tag = tag_tRNS then s\<lparr> p_alpha := data \<rparr>
      else if tag = tag_IDAT then s\<lparr> p_idat := p_idat s @ data \<rparr>
      else s)"

function chunk_loop :: "bytes \<Rightarrow> png_state \<Rightarrow> png_state option" where
  "chunk_loop rest s =
     (if length rest < 8 then Some s
      else
        let len = unat (read_u32 rest); tag = take 4 (drop 4 rest); data = take len (drop 8 rest) in
        if length rest < 8 + len + 4 then None
        else if tag = tag_IEND then Some s
        else chunk_loop (drop (8 + len + 4) rest) (apply_chunk tag data s))"
  by pat_completeness auto
termination by (relation "measure (\<lambda>(rest, s). length rest)") auto

declare chunk_loop.simps [simp del]

section \<open>Filters\<close>

definition predictor :: "nat \<Rightarrow> int \<Rightarrow> int \<Rightarrow> int \<Rightarrow> int option" where
  "predictor ft left up up_left =
     (if ft = 0 then Some 0
      else if ft = 1 then Some left
      else if ft = 2 then Some up
      else if ft = 3 then Some ((left + up) div 2)
      else if ft = 4 then Some (paeth left up up_left)
      else None)"

text \<open>The neighbours of byte \<open>i\<close>, from the bytes of the line already restored.\<close>

definition left_of :: "nat \<Rightarrow> bytes \<Rightarrow> nat \<Rightarrow> int" where
  "left_of bpp line i = (if bpp \<le> i then uint (line ! (i - bpp)) else 0)"

primrec unfilter_row :: "nat \<Rightarrow> nat \<Rightarrow> bytes \<Rightarrow> bytes \<Rightarrow> bytes \<Rightarrow> bytes option" where
  "unfilter_row ft bpp previous line [] = Some line"
| "unfilter_row ft bpp previous line (b # src) =
     (let i = length line in
      case predictor ft (left_of bpp line i) (uint (previous ! i)) (left_of bpp previous i) of
        None \<Rightarrow> None
      | Some p \<Rightarrow> unfilter_row ft bpp previous (line @ [of_int (uint b + p)]) src)"

text \<open>Copying a restored line into the image: whole when \<open>x_step\<close> is 1, else pixel by pixel.\<close>

definition place_row :: "nat \<Rightarrow> nat \<Rightarrow> nat \<Rightarrow> nat \<Rightarrow> nat \<Rightarrow> bytes \<Rightarrow> bytes \<Rightarrow> bytes" where
  "place_row target pass_width x0 x_step bytes_per_pixel line img =
     (if x_step = 1 then overwrite target line img
      else if 0 < bytes_per_pixel then
        fold (\<lambda>px. overwrite (target + (x0 + px * x_step) * bytes_per_pixel)
                      (take bytes_per_pixel (drop (px * bytes_per_pixel) line)))
          [0..<pass_width] img
      else img)"

record pass_geometry =
  pg_stride :: nat
  pg_width :: nat
  pg_x0 :: nat
  pg_y0 :: nat
  pg_x_step :: nat
  pg_y_step :: nat

text \<open>The rows of one pass; \<open>raw\<close> is what is left of the inflated data.\<close>

primrec unfilter_rows :: "nat \<Rightarrow> pass_geometry \<Rightarrow> nat \<Rightarrow> nat \<Rightarrow> nat \<Rightarrow> nat \<Rightarrow> bytes \<Rightarrow> bytes \<Rightarrow> bytes \<Rightarrow> (bytes \<times> bytes) option" where
  "unfilter_rows 0 g py bpp bytes_per_pixel full_stride previous raw img = Some (raw, img)"
| "unfilter_rows (Suc n) g py bpp bytes_per_pixel full_stride previous raw img =
     (case unfilter_row (unat (raw ! 0)) bpp previous [] (take (pg_stride g) (drop 1 raw)) of
        None \<Rightarrow> None
      | Some line \<Rightarrow>
          unfilter_rows n g (py + 1) bpp bytes_per_pixel full_stride line (drop (1 + pg_stride g) raw)
            (place_row ((pg_y0 g + py * pg_y_step g) * full_stride) (pg_width g) (pg_x0 g) (pg_x_step g)
               bytes_per_pixel line img))"

definition unfilter_pass :: "nat \<Rightarrow> nat \<Rightarrow> int \<Rightarrow> int \<Rightarrow> nat \<Rightarrow> nat \<Rightarrow> nat \<Rightarrow> nat \<Rightarrow> bytes \<times> bytes \<Rightarrow> (bytes \<times> bytes) option" where
  "unfilter_pass bits_per_pixel full_stride pass_width pass_height x0 y0 x_step y_step st =
     (if pass_width \<le> 0 \<or> pass_height \<le> 0 then Some st
      else
        let w = nat pass_width; h = nat pass_height; stride = (w * bits_per_pixel + 7) div 8 in
        if length (fst st) < h * (stride + 1) then None
        else unfilter_rows h
               \<lparr> pg_stride = stride, pg_width = w, pg_x0 = x0, pg_y0 = y0, pg_x_step = x_step, pg_y_step = y_step \<rparr>
               0 ((bits_per_pixel + 7) div 8) (bits_per_pixel div 8) full_stride (replicate stride 0) (fst st) (snd st))"

text \<open>The passes of Adam7: first column, first row, column step, row step.\<close>

definition adam7 :: "(nat \<times> nat \<times> nat \<times> nat) list" where
  "adam7 = [(0, 0, 8, 8), (4, 0, 8, 8), (0, 4, 4, 8), (2, 0, 4, 4), (0, 2, 2, 4), (1, 0, 2, 2), (0, 1, 1, 2)]"

primrec run_passes :: "nat \<Rightarrow> nat \<Rightarrow> int \<Rightarrow> int \<Rightarrow> (nat \<times> nat \<times> nat \<times> nat) list \<Rightarrow> bytes \<times> bytes \<Rightarrow> (bytes \<times> bytes) option" where
  "run_passes bits_per_pixel full_stride width height [] st = Some st"
| "run_passes bits_per_pixel full_stride width height (p # ps) st =
     (case p of (x0, y0, x_step, y_step) \<Rightarrow>
        case unfilter_pass bits_per_pixel full_stride
            ((width - int x0 + int x_step - 1) div int x_step) ((height - int y0 + int y_step - 1) div int y_step)
            x0 y0 x_step y_step st of
          None \<Rightarrow> None
        | Some st \<Rightarrow> run_passes bits_per_pixel full_stride width height ps st)"

section \<open>Samples and pixels\<close>

definition sample :: "nat \<Rightarrow> nat \<Rightarrow> nat \<Rightarrow> bytes \<Rightarrow> nat \<Rightarrow> nat \<Rightarrow> nat \<Rightarrow> byte" where
  "sample bit_depth bits_per_pixel full_stride img x y channel =
     (let bit_index = y * full_stride * 8 + x * bits_per_pixel + channel * bit_depth; b = img ! (bit_index div 8) in
      if bit_depth = 8 \<or> bit_depth = 16 then b
      else drop_bit (8 - bit_depth - bit_index mod 8) b AND mask bit_depth)"

definition pixel_color :: "nat \<Rightarrow> bytes \<Rightarrow> bytes \<Rightarrow> (nat \<Rightarrow> byte) \<Rightarrow> color option" where
  "pixel_color color_type palette palette_alpha smp =
     (if color_type = 0 then Some (rgba (smp 0) (smp 0) (smp 0) 255)
      else if color_type = 2 then Some (rgba (smp 0) (smp 1) (smp 2) 255)
      else if color_type = 3 then
        let index = unat (smp 0); base = index * 3 in
        if length palette \<le> base + 2 then None
        else Some (rgba (palette ! base) (palette ! (base + 1)) (palette ! (base + 2))
               (if index < length palette_alpha then palette_alpha ! index else 255))
      else if color_type = 4 then Some (rgba (smp 0) (smp 0) (smp 0) (smp 1))
      else Some (rgba (smp 0) (smp 1) (smp 2) (smp 3)))"

definition channels_of :: "nat \<Rightarrow> nat option" where
  "channels_of color_type =
     (if color_type = 0 then Some 1
      else if color_type = 2 then Some 3
      else if color_type = 3 then Some 1
      else if color_type = 4 then Some 2
      else if color_type = 6 then Some 4
      else None)"

section \<open>\<open>decode_png\<close>\<close>

datatype outcome = Decoded image | Rejected | Overflow

definition inflate_idat :: "bytes \<Rightarrow> bytes option" where
  "inflate_idat idat =
     (if idat = [] then Some []
      else if length idat < 2 then None
      else let (r, raw) = inflate_codes (drop 2 idat) in if r \<noteq> 0 then None else Some raw)"

definition header_ok :: "png_state \<Rightarrow> bool" where
  "header_ok s \<longleftrightarrow>
     0 < p_width s \<and> 0 < p_height s \<and>
     \<not> (p_interlace s \<noteq> 0 \<and> p_depth s < 8) \<and>
     (p_depth s = 8 \<or> p_depth s = 16 \<or> p_color s = 3 \<and> p_depth s \<in> {1, 2, 4})"

text \<open>From the inflated data to the image.\<close>

definition build_image :: "png_state \<Rightarrow> nat \<Rightarrow> bytes \<Rightarrow> outcome" where
  "build_image s channels raw =
     (let bpp = channels * p_depth s; width = p_width s; height = p_height s in
      if int_max < width * int bpp + 7 then Overflow
      else if p_interlace s = 1 \<and> int_max < height + 8 then Overflow
      else
        let full_stride = nat ((width * int bpp + 7) div 8);
            start = (raw, replicate (nat height * full_stride) 0) in
        case (if p_interlace s = 1 then run_passes bpp full_stride width height adam7 start
              else unfilter_pass bpp full_stride width height 0 0 1 1 start) of
          None \<Rightarrow> Rejected
        | Some (_, img) \<Rightarrow>
            (case those (concat (map (\<lambda>y. map (\<lambda>x.
                    pixel_color (p_color s) (p_palette s) (p_alpha s) (sample (p_depth s) bpp full_stride img x y))
                    [0..<nat width]) [0..<nat height])) of
               None \<Rightarrow> Rejected
             | Some pixels \<Rightarrow> Decoded \<lparr> img_width = width, img_height = height, img_pixels = pixels \<rparr>))"

definition decode_png :: "bytes \<Rightarrow> outcome" where
  "decode_png bs =
     (if \<not> is_png bs then Rejected
      else case chunk_loop (drop 8 bs) new_png of
        None \<Rightarrow> Rejected
      | Some s \<Rightarrow>
          if \<not> header_ok s then Rejected
          else case channels_of (p_color s) of
            None \<Rightarrow> Rejected
          | Some channels \<Rightarrow>
              (case inflate_idat (p_idat s) of
                 None \<Rightarrow> Rejected
               | Some raw \<Rightarrow> build_image s channels raw))"

end
