(* ===== verification/Effects.thy ===== *)
theory Effects
  imports Floating
begin

text \<open>
  What a call of the session layer can come to: a value, an exception that escapes, a loop that
  does not end (\<open>Url::resolve\<close>) or undefined behaviour (a signed overflow in an image
  decoder).  The components below it report these in their own types; here they meet.
\<close>

datatype 'a run = Returns 'a | Raises cpp_exn | Hangs | Undefined

definition bind_run :: "'a run \<Rightarrow> ('a \<Rightarrow> 'b run) \<Rightarrow> 'b run" where
  "bind_run m f = (case m of Returns a \<Rightarrow> f a | Raises e \<Rightarrow> Raises e | Hangs \<Rightarrow> Hangs | Undefined \<Rightarrow> Undefined)"

lemma bind_run_simps [simp]:
  "bind_run (Returns a) f = f a" "bind_run (Raises e) f = Raises e" "bind_run Hangs f = Hangs" "bind_run Undefined f = Undefined"
  by (simp_all add: bind_run_def)

lemma bind_run_Returns [simp]: "bind_run m Returns = m"
  by (cases m) simp_all

lemma bind_run_assoc: "bind_run (bind_run m f) g = bind_run m (\<lambda>a. bind_run (f a) g)"
  by (cases m) simp_all

lemma bind_run_Returns_iff: "bind_run m f = Returns b \<longleftrightarrow> (\<exists>a. m = Returns a \<and> f a = Returns b)"
  by (cases m) simp_all

definition of_comp :: "'a comp \<Rightarrow> 'a run" where
  "of_comp m = (case m of None \<Rightarrow> Hangs | Some (Inl e) \<Rightarrow> Raises e | Some (Inr a) \<Rightarrow> Returns a)"

lemma of_comp_simps [simp]:
  "of_comp None = Hangs" "of_comp (Some (Inl e)) = Raises e" "of_comp (Some (Inr a)) = Returns a"
  by (simp_all add: of_comp_def)

definition of_res :: "'a res \<Rightarrow> 'a run" where
  "of_res m = (case m of Inl e \<Rightarrow> Raises e | Inr a \<Rightarrow> Returns a)"

lemma of_res_simps [simp]: "of_res (Inl e) = Raises e" "of_res (Inr a) = Returns a"
  by (simp_all add: of_res_def)

text \<open>A loop that threads a state; what ends one round ends the loop.\<close>

fun fold_run :: "('a \<Rightarrow> 's \<Rightarrow> 's run) \<Rightarrow> 'a list \<Rightarrow> 's \<Rightarrow> 's run" where
  "fold_run f [] s = Returns s"
| "fold_run f (x # xs) s = bind_run (f x s) (\<lambda>s'. fold_run f xs s')"

text \<open>A property of whatever is returned.\<close>

definition returns_only :: "('a \<Rightarrow> bool) \<Rightarrow> 'a run \<Rightarrow> bool" where
  "returns_only P m = (case m of Returns a \<Rightarrow> P a | _ \<Rightarrow> True)"

lemma returns_only_simps [simp]:
  "returns_only P (Returns a) = P a" "returns_only P (Raises e)" "returns_only P Hangs" "returns_only P Undefined"
  by (simp_all add: returns_only_def)

lemma returns_only_iff: "returns_only P m \<longleftrightarrow> (\<forall>a. m = Returns a \<longrightarrow> P a)"
  by (cases m) simp_all

lemma returns_only_bind:
  "returns_only P m \<Longrightarrow> (\<And>a. P a \<Longrightarrow> returns_only Q (f a)) \<Longrightarrow> returns_only Q (bind_run m f)"
  by (cases m) simp_all

lemma returns_only_weaken: "returns_only P m \<Longrightarrow> (\<And>a. P a \<Longrightarrow> Q a) \<Longrightarrow> returns_only Q m"
  by (cases m) simp_all

lemma fold_run_invariant:
  "I s \<Longrightarrow> (\<And>x s. x \<in> set xs \<Longrightarrow> I s \<Longrightarrow> returns_only I (f x s)) \<Longrightarrow> returns_only I (fold_run f xs s)"
  by (induction xs arbitrary: s) (auto intro!: returns_only_bind)

section \<open>\<open>std::strtol\<close> and \<open>std::stoi\<close>\<close>

text \<open>Base 10, into a 64-bit \<open>long\<close>: \<^term>\<open>None\<close> without a digit; out of range the nearest
  value, with the flag that \<open>errno\<close> has been set.\<close>

definition decimal :: "string \<Rightarrow> int" where
  "decimal = foldl (\<lambda>n c. 10 * n + int (ascii c - 48)) 0"

definition strtol10 :: "string \<Rightarrow> (int \<times> bool) option" where
  "strtol10 s =
     (let r = dropWhile isspace s;
          neg = (r \<noteq> [] \<and> hd r = CHR ''-'');
          ds = takeWhile isdigit (if r \<noteq> [] \<and> (hd r = CHR ''-'' \<or> hd r = CHR ''+'') then tl r else r);
          v = (if neg then - decimal ds else decimal ds)
      in if ds = [] then None
         else if v < - (2 ^ 63) then Some (- (2 ^ 63), True)
         else if 2 ^ 63 - 1 < v then Some (2 ^ 63 - 1, True)
         else Some (v, False))"

definition stoi :: "string \<Rightarrow> int res" where
  "stoi s =
     (case strtol10 s of
        None \<Rightarrow> Inl InvalidArgument
      | Some (v, clipped) \<Rightarrow> if clipped \<or> v < - int_max - 1 \<or> int_max < v then Inl OutOfRange else Inr v)"

lemma stoi_range: "stoi s = Inr v \<Longrightarrow> - int_max - 1 \<le> v \<and> v \<le> int_max"
  by (auto simp: stoi_def split: option.splits prod.splits if_splits)

text \<open>\<open>int\<close> division truncates.\<close>

definition quotient :: "int \<Rightarrow> int \<Rightarrow> int" where
  "quotient a b = sgn a * sgn b * (\<bar>a\<bar> div \<bar>b\<bar>)"

section \<open>\<open>int\<close> values\<close>

text \<open>An \<open>int\<close> operation that overflows and a cast of a value that does not fit are undefined.\<close>

definition int_ok :: "int \<Rightarrow> bool" where
  "int_ok v \<longleftrightarrow> - int_max - 1 \<le> v \<and> v \<le> int_max"

definition check_int :: "int \<Rightarrow> int run" where
  "check_int v = (if int_ok v then Returns v else Undefined)"

definition to_int :: "fp \<Rightarrow> int run" where
  "to_int a = (case truncate_to (- int_max - 1) int_max a of None \<Rightarrow> Undefined | Some i \<Rightarrow> Returns i)"

end
