(* ===== verification/Surface.thy ===== *)
theory Surface
  imports Bitmap_Font Layout Png Effects
begin

text \<open>
  \<open>software_surface.hpp\<close>/\<open>software_surface.cpp\<close>: the pixels of the page and what is painted on them.
  A pixel is a 32-bit word; coordinates are \<open>int\<close>s computed from \<open>float\<close>s, so a cast of a value
  that does not fit and an \<open>int\<close> operation that overflows are \<^const>\<open>Undefined\<close>.
\<close>

section \<open>Integers from floats\<close>

text \<open>\<open>static_cast<int>(std::lround(a))\<close>: a 64-bit \<open>long\<close>, of which the low 32 bits are kept.\<close>

definition lround_int :: "fp \<Rightarrow> int run" where
  "lround_int a =
     (case truncate_to (- (2 ^ 63)) (2 ^ 63 - 1) (cround a) of
        None \<Rightarrow> Undefined
      | Some l \<Rightarrow> Returns (sint (word_of_int l :: 32 word)))"

definition clamp_int :: "int \<Rightarrow> int \<Rightarrow> int \<Rightarrow> int" where
  "clamp_int v lo hi = (if v < lo then lo else if hi < v then hi else v)"

abbreviation float_of :: "int \<Rightarrow> fp" where "float_of i \<equiv> of_integer single i"

text \<open>\<open>x + 0.5f\<close>.\<close>

definition centre :: "int \<Rightarrow> fp" where
  "centre x = add32 (float_of x) (lit32 (1 / 2))"


section \<open>Pixels\<close>

definition pack_color :: "color \<Rightarrow> 32 word" where
  "pack_color c = push_bit 24 (ucast (red c)) OR push_bit 16 (ucast (green c)) OR push_bit 8 (ucast (blue c)) OR ucast (alpha c)"

definition unpack_color :: "32 word \<Rightarrow> color" where
  "unpack_color w = rgba (ucast (drop_bit 24 w)) (ucast (drop_bit 16 w)) (ucast (drop_bit 8 w)) (ucast w)"

record surface =
  sf_width :: int
  sf_height :: int
  sf_pixels :: "32 word list"

definition new_surface :: "int \<Rightarrow> int \<Rightarrow> color \<Rightarrow> surface" where
  "new_surface w h c =
     \<lparr> sf_width = max w 0, sf_height = max h 0, sf_pixels = replicate (nat (max w 0) * nat (max h 0)) (pack_color c) \<rparr>"

definition clear_surface :: "color \<Rightarrow> surface \<Rightarrow> surface" where
  "clear_surface c s = s\<lparr> sf_pixels := map (\<lambda>p. pack_color c) (sf_pixels s) \<rparr>"

definition surface_contains :: "surface \<Rightarrow> int \<Rightarrow> int \<Rightarrow> bool" where
  "surface_contains s x y \<longleftrightarrow> 0 \<le> x \<and> 0 \<le> y \<and> x < sf_width s \<and> y < sf_height s"

definition pixel_index :: "surface \<Rightarrow> int \<Rightarrow> int \<Rightarrow> nat" where
  "pixel_index s x y = nat y * nat (sf_width s) + nat x"

definition blend_pixel :: "int \<Rightarrow> int \<Rightarrow> color \<Rightarrow> surface \<Rightarrow> surface" where
  "blend_pixel x y c s =
     (if \<not> surface_contains s x y then s
      else
        let i = pixel_index s x y
        in s\<lparr> sf_pixels := (sf_pixels s)[i := pack_color (blend_over c (unpack_color (sf_pixels s ! i)))] \<rparr>)"

definition surface_pixel :: "surface \<Rightarrow> int \<Rightarrow> int \<Rightarrow> color" where
  "surface_pixel s x y =
     (if \<not> surface_contains s x y then new_color else unpack_color (sf_pixels s ! pixel_index s x y))"

definition clipped_rect :: "layout_rect \<Rightarrow> rounded_rect option \<Rightarrow> layout_rect option" where
  "clipped_rect r clip =
     (case clip of
        None \<Rightarrow> Some r
      | Some c \<Rightarrow>
          let i = intersect_rect r (rr_rect c)
          in if fle (rect_width i) (Num 0) \<or> fle (rect_height i) (Num 0) then None else Some i)"

definition accepts :: "rounded_rect option \<Rightarrow> int \<Rightarrow> int \<Rightarrow> bool" where
  "accepts clip x y = (case clip of None \<Rightarrow> True | Some c \<Rightarrow> rounded_contains c (centre x) (centre y))"

text \<open>The double loop of every painting function.\<close>

definition for_pixels :: "int \<Rightarrow> int \<Rightarrow> int \<Rightarrow> int \<Rightarrow> (int \<Rightarrow> int \<Rightarrow> surface \<Rightarrow> surface run) \<Rightarrow> surface \<Rightarrow> surface run" where
  "for_pixels l r t b body = fold_run (\<lambda>y. fold_run (\<lambda>x. body x y) [l..r - 1]) [t..b - 1]"

text \<open>The pixels a rectangle touches, cut at the surface: left, top, right, bottom.\<close>

definition pixel_bounds :: "surface \<Rightarrow> layout_rect \<Rightarrow> (int \<times> int \<times> int \<times> int) run" where
  "pixel_bounds s r =
     bind_run (to_int (ffloor (rect_x r))) (\<lambda>l.
     bind_run (to_int (ffloor (rect_y r))) (\<lambda>t.
     bind_run (to_int (fceil (right_edge r))) (\<lambda>rt.
     bind_run (to_int (fceil (bottom_edge r))) (\<lambda>b.
       Returns (clamp_int l 0 (sf_width s), clamp_int t 0 (sf_height s), clamp_int rt 0 (sf_width s), clamp_int b 0 (sf_height s))))))"


section \<open>Rectangles\<close>

definition fill_rect :: "layout_rect \<Rightarrow> color \<Rightarrow> rounded_rect option \<Rightarrow> surface \<Rightarrow> surface run" where
  "fill_rect source c clip s =
     (case clipped_rect source clip of None \<Rightarrow> Returns s
      | Some r \<Rightarrow>
          bind_run (pixel_bounds s r) (\<lambda>(l, t, rt, b).
            for_pixels l rt t b (\<lambda>x y s. Returns (if accepts clip x y then blend_pixel x y c s else s)) s))"

definition fill_rounded_rect :: "layout_rect \<Rightarrow> fp \<Rightarrow> color \<Rightarrow> rounded_rect option \<Rightarrow> surface \<Rightarrow> surface run" where
  "fill_rounded_rect r radius c clip s =
     (let shape = \<lparr> rr_rect = r, rr_radius = radius \<rparr> in
      case clipped_rect r clip of None \<Rightarrow> Returns s
      | Some bounds \<Rightarrow>
          bind_run (pixel_bounds s bounds) (\<lambda>(l, t, rt, b).
            for_pixels l rt t b (\<lambda>x y s. Returns
              (if rounded_contains shape (centre x) (centre y) \<and> accepts clip x y then blend_pixel x y c s else s)) s))"

text \<open>\<open>((x + y + offset) / step) % 2 == 0\<close>.\<close>

definition dash_on :: "int \<Rightarrow> int \<Rightarrow> bool" where
  "dash_on v step = even (quotient v step)"

definition stroke_piece :: "layout_rect \<Rightarrow> int \<Rightarrow> color \<Rightarrow> rounded_rect option \<Rightarrow> string \<Rightarrow> surface \<Rightarrow> surface run" where
  "stroke_piece r offset c clip style s =
     (if style = ''dashed'' \<or> style = ''dotted'' then
        let step = (if style = ''dashed'' then 6 else 3) in
        bind_run (to_int (rect_y r)) (\<lambda>t. bind_run (to_int (bottom_edge r)) (\<lambda>b.
          if b \<le> t then Returns s
          else
            bind_run (to_int (rect_x r)) (\<lambda>l. bind_run (to_int (right_edge r)) (\<lambda>rt.
              for_pixels l rt t b (\<lambda>x y s.
                bind_run (check_int (x + y)) (\<lambda>v. bind_run (check_int (v + offset)) (\<lambda>v.
                  Returns (if dash_on v step \<and> accepts clip x y then blend_pixel x y c s else s)))) s))))
      else fill_rect r c clip s)"

definition stroke_rect :: "layout_rect \<Rightarrow> box_edges \<Rightarrow> color \<Rightarrow> rounded_rect option \<Rightarrow> string \<Rightarrow> surface \<Rightarrow> surface run" where
  "stroke_rect r e c clip style s =
     (let piece = (\<lambda>w rect offset s. if fless (Num 0) w then stroke_piece rect offset c clip style s else Returns s) in
      bind_run (piece (edge_top e) (mk_rect (rect_x r) (rect_y r) (rect_width r) (edge_top e)) 0 s) (\<lambda>s.
      bind_run (piece (edge_bottom e)
        (mk_rect (rect_x r) (sub32 (bottom_edge r) (edge_bottom e)) (rect_width r) (edge_bottom e)) 1 s) (\<lambda>s.
      bind_run (piece (edge_left e) (mk_rect (rect_x r) (rect_y r) (edge_left e) (rect_height r)) 2 s) (\<lambda>s.
        piece (edge_right e) (mk_rect (sub32 (right_edge r) (edge_right e)) (rect_y r) (edge_right e) (rect_height r)) 3 s))))"

definition widest_edge :: "box_edges \<Rightarrow> fp" where
  "widest_edge e = fold (\<lambda>a m. fmax m a) [edge_right e, edge_bottom e, edge_left e] (edge_top e)"

definition stroke_rounded_rect :: "layout_rect \<Rightarrow> fp \<Rightarrow> box_edges \<Rightarrow> color \<Rightarrow> rounded_rect option \<Rightarrow> string \<Rightarrow> surface \<Rightarrow> surface run" where
  "stroke_rounded_rect r radius e c clip style s =
     (let w = widest_edge e in
      if fle w (Num 0) then Returns s
      else
        let inside = mk_rect (add32 (rect_x r) w) (add32 (rect_y r) w)
              (fmax (Num 0) (sub32 (rect_width r) (mul32 (Num 2) w))) (fmax (Num 0) (sub32 (rect_height r) (mul32 (Num 2) w)));
            outer = \<lparr> rr_rect = r, rr_radius = radius \<rparr>;
            inner = \<lparr> rr_rect = inside, rr_radius = fmax (Num 0) (sub32 radius w) \<rparr>
        in
          bind_run (pixel_bounds s r) (\<lambda>(l, t, rt, b).
            for_pixels l rt t b (\<lambda>x y s.
              bind_run (if style = ''solid'' then Returns True
                        else bind_run (check_int (x + y)) (\<lambda>v. Returns (dash_on v (if style = ''dashed'' then 6 else 3)))) (\<lambda>dash.
                Returns (if dash \<and> rounded_contains outer (centre x) (centre y) \<and> \<not> rounded_contains inner (centre x) (centre y) \<and>
                    accepts clip x y then blend_pixel x y c s else s))) s))"


section \<open>Text\<close>

text \<open>The coverage of a pixel of a cell: how many of its 16 samples are set in the glyph.\<close>

definition sample_position :: "int \<Rightarrow> int \<Rightarrow> int \<Rightarrow> int run" where
  "sample_position d sub cell =
     bind_run (check_int (d * 4)) (\<lambda>a. bind_run (check_int (a + sub)) (\<lambda>a. bind_run (check_int (a * 8)) (\<lambda>a.
     bind_run (check_int (cell * 4)) (\<lambda>n. Returns (min 7 (quotient a n))))))"

definition glyph_hits :: "byte list \<Rightarrow> int \<Rightarrow> int \<Rightarrow> int \<Rightarrow> int \<Rightarrow> int run" where
  "glyph_hits glyph cell_width cell_height dx dy =
     fold_run (\<lambda>sy hits.
       bind_run (sample_position dy sy cell_height) (\<lambda>row.
         fold_run (\<lambda>sx hits.
           bind_run (sample_position dx sx cell_width) (\<lambda>col.
             Returns (if bit (glyph ! nat row) (7 - nat col) then hits + 1 else hits))) [0..3] hits)) [0..3] 0"

definition draw_glyph :: "byte list \<Rightarrow> int \<Rightarrow> int \<Rightarrow> int \<Rightarrow> int \<Rightarrow> color \<Rightarrow> rounded_rect option \<Rightarrow> surface \<Rightarrow> surface run" where
  "draw_glyph glyph cell_width cell_height pen_x pen_y c clip s =
     for_pixels 0 cell_width 0 cell_height (\<lambda>dx dy s.
       bind_run (check_int (pen_y + dy)) (\<lambda>py. bind_run (check_int (pen_x + dx)) (\<lambda>px.
       bind_run (glyph_hits glyph cell_width cell_height dx dy) (\<lambda>hits.
         Returns
           (if hits = 0 then s
            else if \<not> accepts clip px py then s
            else blend_pixel px py (c\<lparr> alpha := of_nat (unat (alpha c) * nat hits div 16) \<rparr>) s))))) s"

text \<open>The loop over the characters, with the pen.\<close>

fun draw_glyphs :: "int \<Rightarrow> int \<Rightarrow> int \<Rightarrow> color \<Rightarrow> rounded_rect option \<Rightarrow> string \<Rightarrow> int \<Rightarrow> surface \<Rightarrow> surface run" where
  "draw_glyphs cell_width cell_height pen_y c clip [] pen_x s = Returns s"
| "draw_glyphs cell_width cell_height pen_y c clip (ch # cs) pen_x s =
     bind_run (draw_glyph (bitmap_glyph_for ch) cell_width cell_height pen_x pen_y c clip s) (\<lambda>s.
     bind_run (check_int (pen_x + cell_width)) (\<lambda>pen_x.
       draw_glyphs cell_width cell_height pen_y c clip cs pen_x s))"

definition draw_text :: "layout_rect \<Rightarrow> string \<Rightarrow> fp \<Rightarrow> color \<Rightarrow> rounded_rect option \<Rightarrow> surface \<Rightarrow> surface run" where
  "draw_text r str px c clip s =
     (if str = [] \<or> fle px (Num 0) then Returns s
      else
        bind_run (lround_int (bitmap_advance px)) (\<lambda>cw. bind_run (lround_int (bitmap_cell_height px)) (\<lambda>ch.
        bind_run (lround_int (rect_x r)) (\<lambda>pen_x. bind_run (lround_int (rect_y r)) (\<lambda>pen_y.
          draw_glyphs (max 1 cw) (max 1 ch) pen_y c clip str pen_x s)))))"

definition draw_text_decoration :: "layout_rect \<Rightarrow> string \<Rightarrow> color \<Rightarrow> rounded_rect option \<Rightarrow> surface \<Rightarrow> surface run" where
  "draw_text_decoration r decoration c clip s =
     (if decoration = ''none'' \<or> decoration = [] then Returns s
      else
        let y = (if decoration = ''overline'' then rect_y r
                 else if decoration = ''line-through'' then add32 (rect_y r) (mul32 (rect_height r) (lit32 (1 / 2)))
                 else sub32 (bottom_edge r) (Num 1))
        in fill_rect (mk_rect (rect_x r) y (rect_width r) (Num 1)) c clip s)"


section \<open>Images and shadows\<close>

text \<open>The pixel of the image for a pixel of the target.\<close>

definition image_coordinate :: "int \<Rightarrow> fp \<Rightarrow> fp \<Rightarrow> int \<Rightarrow> int run" where
  "image_coordinate v start extent n =
     bind_run (to_int (div32 (mul32 (sub32 (float_of v) start) (float_of n)) extent)) (\<lambda>i. Returns (clamp_int i 0 (n - 1)))"

definition draw_image_at :: "layout_rect \<Rightarrow> image \<Rightarrow> rounded_rect option \<Rightarrow> surface \<Rightarrow> surface run" where
  "draw_image_at target i clip s =
     bind_run (to_int (ffloor (rect_x target))) (\<lambda>l. bind_run (to_int (ffloor (rect_y target))) (\<lambda>t.
     bind_run (to_int (fceil (right_edge target))) (\<lambda>r. bind_run (to_int (fceil (bottom_edge target))) (\<lambda>b.
       for_pixels (max 0 l) (min (sf_width s) r) (max 0 t) (min (sf_height s) b) (\<lambda>x y s.
         if \<not> accepts clip x y then Returns s
         else
           bind_run (image_coordinate x (rect_x target) (rect_width target) (img_width i)) (\<lambda>sx.
           bind_run (image_coordinate y (rect_y target) (rect_height target) (img_height i)) (\<lambda>sy.
             Returns (blend_pixel x y (image_pixel i sx sy) s)))) s))))"

definition drawable :: "layout_rect \<Rightarrow> image \<Rightarrow> bool" where
  "drawable r i \<longleftrightarrow> image_valid i \<and> \<not> fle (rect_width r) (Num 0) \<and> \<not> fle (rect_height r) (Num 0)"

definition draw_image_plain :: "layout_rect \<Rightarrow> image \<Rightarrow> rounded_rect option \<Rightarrow> surface \<Rightarrow> surface run" where
  "draw_image_plain r i clip s = (if \<not> drawable r i then Returns s else draw_image_at r i clip s)"

definition fit_rect :: "layout_rect \<Rightarrow> image \<Rightarrow> string \<Rightarrow> layout_rect" where
  "fit_rect r i fit =
     (if fit = ''contain'' \<or> fit = ''cover'' then
        let iw = float_of (img_width i); ih = float_of (img_height i);
            sx = div32 (rect_width r) iw; sy = div32 (rect_height r) ih;
            scale = (if fit = ''contain'' then fmin sx sy else fmax sx sy);
            w = mul32 iw scale; h = mul32 ih scale
        in mk_rect (add32 (rect_x r) (div32 (sub32 (rect_width r) w) (Num 2)))
             (add32 (rect_y r) (div32 (sub32 (rect_height r) h) (Num 2))) w h
      else r)"

definition draw_image :: "layout_rect \<Rightarrow> image \<Rightarrow> string \<Rightarrow> rounded_rect option \<Rightarrow> surface \<Rightarrow> surface run" where
  "draw_image r i fit clip s = (if \<not> drawable r i then Returns s else draw_image_at (fit_rect r i fit) i clip s)"

definition draw_shadow :: "layout_rect \<Rightarrow> fp \<Rightarrow> fp \<Rightarrow> fp \<Rightarrow> color \<Rightarrow> rounded_rect option \<Rightarrow> surface \<Rightarrow> surface run" where
  "draw_shadow r ox oy blur c clip s =
     bind_run (to_int (fceil blur)) (\<lambda>b.
       let spread = max 0 b in
       bind_run (check_int (2 * spread)) (\<lambda>double_spread. bind_run (check_int (spread + 1)) (\<lambda>n.
         fill_rect
           (mk_rect (sub32 (add32 (rect_x r) ox) (float_of spread)) (sub32 (add32 (rect_y r) oy) (float_of spread))
              (add32 (rect_width r) (float_of double_spread)) (add32 (rect_height r) (float_of double_spread)))
           (c\<lparr> alpha := of_nat (unat (alpha c) div nat n) \<rparr>) clip s)))"

definition tile_size :: "layout_rect \<Rightarrow> image \<Rightarrow> string \<Rightarrow> fp \<times> fp" where
  "tile_size r i size_value =
     (let w = float_of (img_width i); h = float_of (img_height i); sx = div32 (rect_width r) w; sy = div32 (rect_height r) h in
      if size_value = ''cover'' \<or> size_value = ''contain'' then
        let scale = (if size_value = ''cover'' then fmax sx sy else fmin sx sy) in (mul32 w scale, mul32 h scale)
      else if size_value = ''100% 100%'' then (rect_width r, rect_height r)
      else (w, h))"

definition tile_origin :: "layout_rect \<Rightarrow> fp \<Rightarrow> fp \<Rightarrow> string \<Rightarrow> fp \<times> fp" where
  "tile_origin r w h position =
     (if find_sub ''center'' position \<noteq> None then
        (add32 (rect_x r) (div32 (sub32 (rect_width r) w) (Num 2)), add32 (rect_y r) (div32 (sub32 (rect_height r) h) (Num 2)))
      else if find_sub ''right'' position \<noteq> None then (add32 (rect_x r) (sub32 (rect_width r) w), rect_y r)
      else if find_sub ''bottom'' position \<noteq> None then (rect_x r, add32 (rect_y r) (sub32 (rect_height r) h))
      else (rect_x r, rect_y r))"

definition tile_count :: "string \<Rightarrow> string \<Rightarrow> fp \<Rightarrow> fp \<Rightarrow> int run" where
  "tile_count axis repeat extent tile =
     (if repeat = ''repeat'' \<or> repeat = axis
      then bind_run (to_int (fceil (div32 extent tile))) (\<lambda>n. check_int (n + 2))
      else Returns 1)"

definition draw_background_image ::
  "layout_rect \<Rightarrow> image \<Rightarrow> string \<Rightarrow> string \<Rightarrow> string \<Rightarrow> rounded_rect option \<Rightarrow> surface \<Rightarrow> surface run" where
  "draw_background_image r i repeat position size_value clip s =
     (if \<not> drawable r i then Returns s
      else
        case tile_size r i size_value of (tile_w, tile_h) \<Rightarrow>
        case tile_origin r tile_w tile_h position of (ox, oy) \<Rightarrow>
          bind_run (tile_count ''repeat-x'' repeat (rect_width r) tile_w) (\<lambda>x_count.
          bind_run (tile_count ''repeat-y'' repeat (rect_height r) tile_h) (\<lambda>y_count.
            let effective = Some (case clip of None \<Rightarrow> \<lparr> rr_rect = r, rr_radius = Num 0 \<rparr> | Some c \<Rightarrow> c) in
            fold_run (\<lambda>yi. fold_run (\<lambda>xi.
                draw_image (mk_rect (add32 ox (mul32 (float_of xi) tile_w)) (add32 oy (mul32 (float_of yi) tile_h)) tile_w tile_h)
                  i ''fill'' effective) [0..x_count - 1]) [0..y_count - 1] s)))"



section \<open>What painting changes\<close>

text \<open>Painting under a clip keeps the size of the surface and the pixels the clip rejects.\<close>

definition paints_within :: "rounded_rect option \<Rightarrow> surface \<Rightarrow> surface \<Rightarrow> bool" where
  "paints_within clip s s' \<longleftrightarrow>
     sf_width s' = sf_width s \<and> sf_height s' = sf_height s \<and> length (sf_pixels s') = length (sf_pixels s) \<and>
     (\<forall>x y. \<not> accepts clip x y \<longrightarrow> surface_pixel s' x y = surface_pixel s x y)"

definition surface_ok :: "surface \<Rightarrow> bool" where
  "surface_ok s \<longleftrightarrow> 0 \<le> sf_width s \<and> 0 \<le> sf_height s \<and> length (sf_pixels s) = nat (sf_width s) * nat (sf_height s)"

lemma paints_within_refl [simp]: "paints_within clip s s"
  by (simp add: paints_within_def)

lemma paints_within_trans: "paints_within clip s s' \<Longrightarrow> paints_within clip s' s'' \<Longrightarrow> paints_within clip s s''"
  by (simp add: paints_within_def)

lemma paints_within_ok: "paints_within clip s s' \<Longrightarrow> surface_ok s \<Longrightarrow> surface_ok s'"
  by (simp add: paints_within_def surface_ok_def)

lemma new_surface_ok: "surface_ok (new_surface w h c)"
  by (simp add: surface_ok_def new_surface_def)

lemma pixel_index_inject:
  assumes "surface_contains s x y" "surface_contains s x' y'" "pixel_index s x y = pixel_index s x' y'"
  shows "x = x' \<and> y = y'"
proof -
  have x: "nat x < nat (sf_width s)" "nat x' < nat (sf_width s)" using assms(1,2) by (auto simp: surface_contains_def)
  have e: "nat x + nat y * nat (sf_width s) = nat x' + nat y' * nat (sf_width s)"
    using assms(3) by (simp add: pixel_index_def add.commute)
  have "nat x = nat x'" using arg_cong [OF e, of "\<lambda>v. v mod nat (sf_width s)"] x by simp
  moreover have "nat y = nat y'" using arg_cong [OF e, of "\<lambda>v. v div nat (sf_width s)"] x by simp
  ultimately show ?thesis using assms(1,2) by (auto simp: surface_contains_def eq_nat_nat_iff)
qed

lemma blend_pixel_elsewhere:
  assumes "(x', y') \<noteq> (x, y)"
  shows "surface_pixel (blend_pixel x y c s) x' y' = surface_pixel s x' y'"
proof (cases "surface_contains s x y \<and> surface_contains s x' y'")
  case True
  then have "pixel_index s x y \<noteq> pixel_index s x' y'" using pixel_index_inject assms by blast
  then show ?thesis using True
    by (simp add: surface_pixel_def blend_pixel_def surface_contains_def pixel_index_def Let_def)
next
  case False
  then show ?thesis by (auto simp: surface_pixel_def blend_pixel_def surface_contains_def pixel_index_def Let_def)
qed

lemma blend_pixel_size [simp]:
  "sf_width (blend_pixel x y c s) = sf_width s" "sf_height (blend_pixel x y c s) = sf_height s"
  "length (sf_pixels (blend_pixel x y c s)) = length (sf_pixels s)"
  by (simp_all add: blend_pixel_def Let_def)

lemma blend_pixel_within:
  assumes "accepts clip x y"
  shows "paints_within clip s (blend_pixel x y c s)"
proof -
  have "surface_pixel (blend_pixel x y c s) x' y' = surface_pixel s x' y'" if "\<not> accepts clip x' y'" for x' y'
    using blend_pixel_elsewhere [of x' y' x y] assms that by blast
  then show ?thesis by (simp add: paints_within_def)
qed

text \<open>A painting function does so whenever it returns.\<close>

abbreviation keeps_clip :: "rounded_rect option \<Rightarrow> surface \<Rightarrow> surface run \<Rightarrow> bool" where
  "keeps_clip clip s m \<equiv> returns_only (paints_within clip s) m"

lemma keeps_fold:
  assumes "\<And>x s. keeps_clip clip s (f x s)"
  shows "keeps_clip clip s (fold_run f xs s)"
proof (rule fold_run_invariant)
  show "returns_only (paints_within clip s) (f x s')" if "paints_within clip s s'" for x s'
    using that by (auto intro: returns_only_weaken [OF assms] paints_within_trans)
qed simp

lemma keeps_for_pixels: "(\<And>x y s. keeps_clip clip s (body x y s)) \<Longrightarrow> keeps_clip clip s (for_pixels l r t b body s)"
  unfolding for_pixels_def by (intro keeps_fold)

lemma keeps_bind: "(\<And>a. keeps_clip clip s (f a)) \<Longrightarrow> keeps_clip clip s (bind_run m f)"
  by (cases m) simp_all

lemma keeps_step:
  "keeps_clip clip s m \<Longrightarrow> (\<And>s'. keeps_clip clip s' (f s')) \<Longrightarrow> keeps_clip clip s (bind_run m f)"
  by (cases m) (auto intro: returns_only_weaken paints_within_trans)

lemma keeps_if: "(P \<Longrightarrow> keeps_clip clip s m) \<Longrightarrow> (\<not> P \<Longrightarrow> keeps_clip clip s m') \<Longrightarrow> keeps_clip clip s (if P then m else m')"
  by simp

lemma keeps_prod: "(\<And>a b. keeps_clip clip s (f a b)) \<Longrightarrow> keeps_clip clip s (case p of (a, b) \<Rightarrow> f a b)"
  by (cases p) simp

lemma keeps_option:
  "keeps_clip clip s m \<Longrightarrow> (\<And>a. keeps_clip clip s (f a)) \<Longrightarrow> keeps_clip clip s (case o' of None \<Rightarrow> m | Some a \<Rightarrow> f a)"
  by (cases o') simp_all

lemma keeps_blend: "P \<longrightarrow> accepts clip x y \<Longrightarrow> keeps_clip clip s (Returns (if P then blend_pixel x y c s else s))"
  by (simp add: blend_pixel_within)

lemma keeps_same: "keeps_clip clip s (Returns s)"
  by simp

lemmas keeping = keeps_for_pixels keeps_bind keeps_if keeps_prod keeps_option keeps_same

lemma fill_rect_within: "keeps_clip clip s (fill_rect r c clip s)"
  unfolding fill_rect_def by (intro keeping keeps_blend) simp

lemma fill_rounded_rect_within: "keeps_clip clip s (fill_rounded_rect r radius c clip s)"
  unfolding fill_rounded_rect_def Let_def by (intro keeping keeps_blend) simp

lemma stroke_piece_within: "keeps_clip clip s (stroke_piece r offset c clip style s)"
  unfolding stroke_piece_def Let_def by (intro keeping keeps_blend fill_rect_within) simp_all

lemma stroke_rect_within: "keeps_clip clip s (stroke_rect r e c clip style s)"
  unfolding stroke_rect_def Let_def by (intro keeps_step keeps_if stroke_piece_within keeps_same)

lemma stroke_rounded_rect_within: "keeps_clip clip s (stroke_rounded_rect r radius e c clip style s)"
  unfolding stroke_rounded_rect_def Let_def by (intro keeping keeps_blend) simp

lemma draw_glyph_within: "keeps_clip clip s (draw_glyph glyph w h px py c clip s)"
  unfolding draw_glyph_def by (intro keeps_for_pixels keeps_bind) (simp add: blend_pixel_within)

lemma draw_glyphs_within: "keeps_clip clip s (draw_glyphs w h py c clip cs px s)"
proof (induction cs arbitrary: px s)
  case (Cons ch cs)
  show ?case unfolding draw_glyphs.simps by (intro keeps_step [OF draw_glyph_within] keeps_bind Cons.IH)
qed simp

lemma draw_text_within: "keeps_clip clip s (draw_text r str px c clip s)"
  unfolding draw_text_def by (intro keeping draw_glyphs_within)

lemma draw_text_decoration_within: "keeps_clip clip s (draw_text_decoration r d c clip s)"
  by (simp add: draw_text_decoration_def fill_rect_within Let_def)

lemma draw_image_at_within: "keeps_clip clip s (draw_image_at r i clip s)"
  unfolding draw_image_at_def by (intro keeping) (simp add: blend_pixel_within)

lemma draw_image_within: "keeps_clip clip s (draw_image r i fit clip s)"
  by (simp add: draw_image_def draw_image_at_within)

lemma draw_shadow_within: "keeps_clip clip s (draw_shadow r ox oy blur c clip s)"
  unfolding draw_shadow_def Let_def by (intro keeping fill_rect_within)

lemma draw_background_image_within: "keeps_clip clip s (draw_background_image r i rep pos sz clip s)"
proof -
  let ?e = "Some (case clip of None \<Rightarrow> \<lparr> rr_rect = r, rr_radius = Num 0 \<rparr> | Some c \<Rightarrow> c)"
  have "paints_within ?e s s' \<Longrightarrow> paints_within clip s s'" for s s'
    by (cases clip) (simp_all add: paints_within_def accepts_def)
  then have "keeps_clip clip s (draw_image t i ''fill'' ?e s)" for t s
    using draw_image_within returns_only_weaken by blast
  then show ?thesis unfolding draw_background_image_def Let_def by (intro keeping keeps_fold)
qed

end
