(* ===== verification/Render_Tree.thy ===== *)
theory Render_Tree
  imports Layout Png Effects
begin

text \<open>
  \<open>render_tree.hpp\<close>/\<open>render_tree.cpp\<close>: the list of paint commands of a tree of boxes.  The images of
  the boxes, which \<open>RenderDocument\<close> attaches after layout, are given by the node they belong to.
\<close>

datatype paint_type = FillRect | FillRoundedRect | StrokeRect | StrokeRoundedRect | DrawText | DrawTextDecoration
  | DrawImage | DrawShadow | DrawOutline | PushStackingContext | PopStackingContext

record paint_command =
  pc_type :: paint_type
  pc_rect :: layout_rect
  pc_edges :: box_edges
  pc_text :: string
  pc_color :: string
  pc_border_style :: string
  pc_baseline :: fp
  pc_font_size :: fp
  pc_decoration :: string
  pc_radius :: fp
  pc_image :: "image option"
  pc_shadow_x :: fp
  pc_shadow_y :: fp
  pc_shadow_blur :: fp
  pc_image_fit :: string
  pc_repeat :: string
  pc_position :: string
  pc_background_size :: string
  pc_opacity :: fp
  pc_push_clip :: bool
  pc_pop_clip :: bool

text \<open>The default member initializers; \<open>z_index\<close>, which nothing sets or reads, is left out.\<close>

definition new_command :: paint_command where
  "new_command = \<lparr> pc_type = FillRect, pc_rect = zero_rect, pc_edges = zero_edges, pc_text = [], pc_color = [],
     pc_border_style = ''solid'', pc_baseline = Num 0, pc_font_size = Num 16, pc_decoration = ''none'', pc_radius = Num 0,
     pc_image = None, pc_shadow_x = Num 0, pc_shadow_y = Num 0, pc_shadow_blur = Num 0, pc_image_fit = ''fill'',
     pc_repeat = ''no-repeat'', pc_position = ''0 0'', pc_background_size = ''auto'', pc_opacity = Num 1,
     pc_push_clip = False, pc_pop_clip = False \<rparr>"

text \<open>The \<open>image\<close> and \<open>background_image\<close> members of the boxes.\<close>

record pictures =
  pic_image :: "node_path \<rightharpoonup> image"
  pic_background :: "node_path \<rightharpoonup> image"

definition no_pictures :: pictures where
  "no_pictures = \<lparr> pic_image = Map.empty, pic_background = Map.empty \<rparr>"

section \<open>Reading the style\<close>

text \<open>\<open>static_cast<int>\<close> of a \<open>long\<close> keeps the low 32 bits.\<close>

definition z_index :: "layout_node \<Rightarrow> int" where
  "z_index n =
     (case style_get (ln_style n) ''z-index'' of
        None \<Rightarrow> 0
      | Some v \<Rightarrow>
          if v = ''auto'' then 0
          else case strtol10 v of None \<Rightarrow> 0 | Some (l, clipped) \<Rightarrow> sint (word_of_int l :: 32 word))"

definition style_or :: "style_properties \<Rightarrow> string \<Rightarrow> string \<Rightarrow> string" where
  "style_or style k fallback = (case style_get style k of None \<Rightarrow> fallback | Some v \<Rightarrow> v)"

text \<open>The words \<open>operator>>\<close> takes out of a stream, and the \<open>i\<close>-th of them; one that is not there
  stays empty.\<close>

function stream_words :: "string \<Rightarrow> string list" where
  "stream_words s =
     (let r = dropWhile isspace s in
      if r = [] then [] else takeWhile (\<lambda>c. \<not> isspace c) r # stream_words (dropWhile (\<lambda>c. \<not> isspace c) r))"
  by pat_completeness auto
termination
proof (relation "measure length", simp)
  fix s r :: string
  assume r: "r = dropWhile isspace s" "r \<noteq> []"
  then have "\<not> isspace (hd r)" by (metis dropWhile_eq_Nil_conv hd_dropWhile)
  then have "length (dropWhile (\<lambda>c. \<not> isspace c) r) < length r"
    using r(2) by (cases r) (simp_all add: le_imp_less_Suc length_dropWhile_le)
  also have "length r \<le> length s" by (simp add: r(1) length_dropWhile_le)
  finally show "(dropWhile (\<lambda>c. \<not> isspace c) r, s) \<in> measure length" by simp
qed

declare stream_words.simps [simp del]

definition word_at :: "string list \<Rightarrow> nat \<Rightarrow> string" where
  "word_at ws i = (if i < length ws then ws ! i else [])"

definition non_empty_or :: "string \<Rightarrow> string \<Rightarrow> string" where
  "non_empty_or s fallback = (if s = [] then fallback else s)"


section \<open>The commands of one box\<close>

definition node_opacity :: "layout_node \<Rightarrow> fp \<Rightarrow> fp" where
  "node_opacity n inherited =
     fclamp (mul32 inherited (number_or (style_get (ln_style n) ''opacity'') (Num 1))) (Num 0) (Num 1)"

definition node_radius :: "layout_node \<Rightarrow> fp" where
  "node_radius n = fmax (Num 0) (number_or (style_get (ln_style n) ''border-radius'') (Num 0))"

definition clips_children :: "layout_node \<Rightarrow> bool" where
  "clips_children n \<longleftrightarrow> style_get (ln_style n) ''overflow'' \<in> {Some ''hidden'', Some ''clip''}"

definition text_commands :: "style_properties \<Rightarrow> fp \<Rightarrow> text_fragment \<Rightarrow> paint_command list" where
  "text_commands style opacity f =
     (let c = new_command\<lparr> pc_type := DrawText, pc_rect := frag_rect f, pc_baseline := frag_baseline f,
            pc_text := frag_text f, pc_opacity := opacity,
            pc_font_size := number_or (style_get style ''font-size'') (Num 16), pc_color := style_or style ''color'' [] \<rparr>
      in case style_get style ''text-decoration'' of
           None \<Rightarrow> [c]
         | Some d \<Rightarrow>
             if d = ''none'' then [c]
             else [c, new_command\<lparr> pc_type := DrawTextDecoration, pc_rect := frag_rect f, pc_decoration := d,
                       pc_opacity := opacity, pc_color := pc_color c \<rparr>])"

definition shadow_command :: "layout_node \<Rightarrow> fp \<Rightarrow> paint_command list" where
  "shadow_command n opacity =
     (case style_get (ln_style n) ''box-shadow'' of
        None \<Rightarrow> []
      | Some v \<Rightarrow>
          let ws = stream_words v in
          [new_command\<lparr> pc_type := DrawShadow, pc_rect := ln_rect n, pc_opacity := opacity,
             pc_shadow_x := number_or (Some (word_at ws 0)) (Num 0), pc_shadow_y := number_or (Some (word_at ws 1)) (Num 0),
             pc_shadow_blur := number_or (Some (word_at ws 2)) (Num 0), pc_color := non_empty_or (word_at ws 3) ''black'' \<rparr>])"

definition background_image_command :: "pictures \<Rightarrow> layout_node \<Rightarrow> fp \<Rightarrow> paint_command list" where
  "background_image_command pics n opacity =
     (case pic_background pics (lb_dom (ln_box n)) of
        None \<Rightarrow> []
      | Some i \<Rightarrow>
          [new_command\<lparr> pc_type := DrawImage, pc_rect := content (lb_box (ln_box n)), pc_image := Some i,
             pc_image_fit := ''fill'', pc_repeat := style_or (ln_style n) ''background-repeat'' ''repeat'',
             pc_position := style_or (ln_style n) ''background-position'' ''0 0'',
             pc_background_size := style_or (ln_style n) ''background-size'' ''auto'', pc_opacity := opacity \<rparr>])"

definition image_command :: "dom_node \<Rightarrow> pictures \<Rightarrow> layout_node \<Rightarrow> fp \<Rightarrow> paint_command list" where
  "image_command doc pics n opacity =
     (case pic_image pics (lb_dom (ln_box n)) of
        None \<Rightarrow> []
      | Some i \<Rightarrow>
          if is_dom doc n (\<lambda>d. node_name d = ''img'')
          then [new_command\<lparr> pc_type := DrawImage, pc_rect := content (lb_box (ln_box n)), pc_image := Some i,
                  pc_image_fit := style_or (ln_style n) ''object-fit'' ''fill'', pc_opacity := opacity \<rparr>]
          else [])"

definition outline_command :: "layout_node \<Rightarrow> fp \<Rightarrow> paint_command list" where
  "outline_command n opacity =
     (case style_get (ln_style n) ''outline'' of
        None \<Rightarrow> []
      | Some v \<Rightarrow>
          let ws = stream_words v; w = number_or (Some (word_at ws 0)) (Num 0) in
          [new_command\<lparr> pc_type := DrawOutline, pc_rect := ln_rect n,
             pc_edges := \<lparr> edge_top = w, edge_right = w, edge_bottom = w, edge_left = w \<rparr>,
             pc_border_style := non_empty_or (word_at ws 1) ''solid'', pc_color := non_empty_or (word_at ws 2) ''black'',
             pc_opacity := opacity \<rparr>])"

definition background_command :: "layout_node \<Rightarrow> fp \<Rightarrow> paint_command list" where
  "background_command n opacity =
     (case style_get (ln_style n) ''background-color'' of
        None \<Rightarrow> []
      | Some v \<Rightarrow>
          [new_command\<lparr> pc_type := (if fless (Num 0) (node_radius n) then FillRoundedRect else FillRect),
             pc_rect := ln_rect n, pc_radius := node_radius n, pc_color := v, pc_opacity := opacity \<rparr>])"

definition border_command :: "layout_node \<Rightarrow> fp \<Rightarrow> paint_command list" where
  "border_command n opacity =
     (let b = border (lb_box (ln_box n)) in
      if fless (Num 0) (edge_top b) \<or> fless (Num 0) (edge_right b) \<or> fless (Num 0) (edge_bottom b) \<or> fless (Num 0) (edge_left b)
      then [new_command\<lparr> pc_type := (if fless (Num 0) (node_radius n) then StrokeRoundedRect else StrokeRect),
              pc_rect := ln_rect n, pc_edges := b, pc_radius := node_radius n, pc_opacity := opacity,
              pc_border_style := style_or (ln_style n) ''border-style'' ''solid'',
              pc_color := style_or (ln_style n) ''border-color'' ''black'' \<rparr>]
      else [])"

definition own_commands :: "dom_node \<Rightarrow> pictures \<Rightarrow> layout_node \<Rightarrow> fp \<Rightarrow> paint_command list" where
  "own_commands doc pics n opacity =
     (if is_text doc n then concat (map (text_commands (ln_style n) opacity) (lb_fragments (ln_box n)))
      else if is_dom doc n (\<lambda>d. node_type d = ElementNode) then
        shadow_command n opacity @ background_image_command pics n opacity @ image_command doc pics n opacity @
        outline_command n opacity @ background_command n opacity @ border_command n opacity
      else [])"

definition push_command :: "layout_node \<Rightarrow> paint_command" where
  "push_command n =
     (let c = content (lb_box (ln_box n)); p = padding (lb_box (ln_box n)) in
      new_command\<lparr> pc_rect := mk_rect (sub32 (rect_x c) (edge_left p)) (sub32 (rect_y c) (edge_top p))
            (add32 (add32 (rect_width c) (edge_left p)) (edge_right p))
            (add32 (add32 (rect_height c) (edge_top p)) (edge_bottom p)),
          pc_radius := node_radius n, pc_push_clip := True \<rparr>)"

definition pop_command :: paint_command where
  "pop_command = new_command\<lparr> pc_pop_clip := True \<rparr>"


section \<open>The commands of the tree\<close>

text \<open>\<open>std::stable_sort\<close> by z-index; without a z-index other than 0 the order is left alone.\<close>

definition paint_order :: "layout_node list \<Rightarrow> layout_node list" where
  "paint_order cs = (if list_ex (\<lambda>c. z_index c \<noteq> 0) cs then sort_key z_index cs else cs)"

lemma set_paint_order [simp]: "set (paint_order cs) = set cs"
  by (simp add: paint_order_def)

function emit :: "dom_node \<Rightarrow> pictures \<Rightarrow> layout_node \<Rightarrow> fp \<Rightarrow> paint_command list" where
  "emit doc pics n inherited =
     (if ln_display n = NoBox then []
      else
        let opacity = node_opacity n inherited;
            below = concat (map (\<lambda>c. emit doc pics c opacity) (paint_order (ln_children n)))
        in own_commands doc pics n opacity @
           (if clips_children n then push_command n # below @ [pop_command] else below))"
  by pat_completeness auto
termination
proof (relation "measure (\<lambda>(doc, pics, n, o'). size n)", simp)
  fix n :: layout_node and c and doc :: dom_node and pics :: pictures and f g
  assume "c \<in> set (paint_order (ln_children n))"
  then have "size c < size n" by (cases n) (auto dest: size_list_estimation' [where f = size, OF _ order_refl] simp: less_Suc_eq_le)
  then show "((doc, pics, c, f), doc, pics, n, g) \<in> measure (\<lambda>(doc, pics, n, o'). size n)" by simp
qed

declare emit.simps [simp del]

text \<open>\<open>RenderTree::from_layout\<close>.\<close>

definition render_commands :: "dom_node \<Rightarrow> pictures \<Rightarrow> layout_node \<Rightarrow> paint_command list" where
  "render_commands doc pics tree = emit doc pics tree (Num 1)"

end
