(* ===== verification/Painter.thy ===== *)
theory Painter
  imports Surface Render_Tree
begin

text \<open>
  \<open>paint_executor.hpp\<close>/\<open>paint_executor.cpp\<close>: the paint commands carried out on a surface under a
  stack of clips.  Shown: the commands of a tree leave the clip stack as they found it, and what
  the descendants of a box with \<open>overflow: hidden\<close> paint stays inside its clip.
\<close>

definition command_color :: "paint_command \<Rightarrow> color run" where
  "command_color c =
     (let col = (case parse_color (pc_color c) of Some col \<Rightarrow> col | None \<Rightarrow> rgba 0 0 0 255) in
      case truncate_to 0 255 (mul32 (float_of (int (unat (alpha col)))) (fclamp (pc_opacity c) (Num 0) (Num 1))) of
        None \<Rightarrow> Undefined
      | Some a \<Rightarrow> Returns (col\<lparr> alpha := word_of_int a \<rparr>))"

definition paint_image :: "paint_command \<Rightarrow> rounded_rect option \<Rightarrow> surface \<Rightarrow> surface run" where
  "paint_image c clip s =
     (case pc_image c of None \<Rightarrow> Returns s
      | Some i \<Rightarrow>
          if pc_repeat c \<noteq> ''no-repeat'' \<or> pc_background_size c \<noteq> ''auto'' \<or> pc_position c \<noteq> ''0 0''
          then draw_background_image (pc_rect c) i (pc_repeat c) (pc_position c) (pc_background_size c) clip s
          else draw_image (pc_rect c) i (pc_image_fit c) clip s)"

definition paint_one :: "paint_command \<Rightarrow> rounded_rect option \<Rightarrow> surface \<Rightarrow> surface run" where
  "paint_one c clip s =
     bind_run (command_color c) (\<lambda>col.
       case pc_type c of
         FillRect \<Rightarrow> fill_rect (pc_rect c) col clip s
       | FillRoundedRect \<Rightarrow> fill_rounded_rect (pc_rect c) (pc_radius c) col clip s
       | StrokeRect \<Rightarrow> stroke_rect (pc_rect c) (pc_edges c) col clip (pc_border_style c) s
       | StrokeRoundedRect \<Rightarrow> stroke_rounded_rect (pc_rect c) (pc_radius c) (pc_edges c) col clip (pc_border_style c) s
       | DrawText \<Rightarrow> draw_text (pc_rect c) (pc_text c) (pc_font_size c) col clip s
       | DrawTextDecoration \<Rightarrow> draw_text_decoration (pc_rect c) (pc_decoration c) col clip s
       | DrawImage \<Rightarrow> paint_image c clip s
       | DrawShadow \<Rightarrow> draw_shadow (pc_rect c) (pc_shadow_x c) (pc_shadow_y c) (pc_shadow_blur c) col clip s
       | DrawOutline \<Rightarrow> stroke_rect (pc_rect c) (pc_edges c) col clip (pc_border_style c) s
       | PushStackingContext \<Rightarrow> Returns s
       | PopStackingContext \<Rightarrow> Returns s)"

text \<open>The loop of \<open>PaintExecutor::execute\<close>, with the clip stack it ends with.\<close>

fun execute_from :: "paint_command list \<Rightarrow> clip_stack \<times> surface \<Rightarrow> (clip_stack \<times> surface) run" where
  "execute_from [] st = Returns st"
| "execute_from (c # cs) (clips, s) =
     (if pc_push_clip c then execute_from cs (clip_push (pc_rect c) (pc_radius c) clips, s)
      else if pc_pop_clip c then execute_from cs (clip_pop clips, s)
      else bind_run (paint_one c (clip_current clips) s) (\<lambda>s'. execute_from cs (clips, s')))"

definition execute :: "paint_command list \<Rightarrow> surface \<Rightarrow> surface run" where
  "execute cs s = bind_run (execute_from cs ([], s)) (\<lambda>(clips, s'). Returns s')"

text \<open>\<open>RenderDocument::render_to_surface\<close>.\<close>

definition render_to_surface :: "paint_command list \<Rightarrow> int \<Rightarrow> int \<Rightarrow> color \<Rightarrow> surface run" where
  "render_to_surface cs w h c = execute cs (new_surface w h c)"


section \<open>One command\<close>

lemma paint_one_within: "keeps_clip clip s (paint_one c clip s)"
proof -
  have "keeps_clip clip s (paint_image c clip s)"
    by (simp add: paint_image_def draw_image_within draw_background_image_within split: option.split)
  then show ?thesis unfolding paint_one_def
    by (intro keeps_bind)
      (simp add: fill_rect_within fill_rounded_rect_within stroke_rect_within stroke_rounded_rect_within draw_text_within
        draw_text_decoration_within draw_shadow_within split: paint_type.split)
qed

lemma execute_append:
  "execute_from (xs @ ys) st = bind_run (execute_from xs st) (execute_from ys)"
proof (induction xs st rule: execute_from.induct)
  case (2 c cs clips s)
  then show ?case by (simp add: bind_run_assoc)
qed simp

definition plain_command :: "paint_command \<Rightarrow> bool" where
  "plain_command c \<longleftrightarrow> \<not> pc_push_clip c \<and> \<not> pc_pop_clip c"

text \<open>Commands that leave the clips alone paint inside the current one.\<close>

definition same_clips :: "clip_stack \<times> surface \<Rightarrow> clip_stack \<times> surface \<Rightarrow> bool" where
  "same_clips st st' \<longleftrightarrow> fst st' = fst st \<and> paints_within (clip_current (fst st)) (snd st) (snd st')"

lemma same_clips_refl [simp]: "same_clips st st"
  by (simp add: same_clips_def)

lemma same_clips_trans: "same_clips st st' \<Longrightarrow> same_clips st' st'' \<Longrightarrow> same_clips st st''"
  using paints_within_trans by (auto simp: same_clips_def)

lemma same_clips_step:
  "returns_only (same_clips st) m \<Longrightarrow> (\<And>st'. returns_only (same_clips st') (f st')) \<Longrightarrow> returns_only (same_clips st) (bind_run m f)"
  by (cases m) (auto intro: returns_only_weaken same_clips_trans)

lemma execute_plain: "list_all plain_command cs \<Longrightarrow> returns_only (same_clips st) (execute_from cs st)"
proof (induction cs st rule: execute_from.induct)
  case (2 c cs clips s)
  have "returns_only (same_clips (clips, s)) (execute_from cs (clips, s'))" if "paints_within (clip_current clips) s s'" for s'
  proof -
    have "returns_only (same_clips (clips, s')) (execute_from cs (clips, s'))"
      using 2 by (auto simp: plain_command_def)
    then show ?thesis by (rule returns_only_weaken) (use that paints_within_trans in \<open>auto simp: same_clips_def\<close>)
  qed
  then show ?case using 2(4) by (auto simp: plain_command_def intro: returns_only_bind [OF paint_one_within])
qed simp

section \<open>The commands of a tree\<close>

lemma new_command_plain: "\<not> pc_push_clip new_command" "\<not> pc_pop_clip new_command"
  by (simp_all add: new_command_def)

lemma own_commands_plain: "list_all plain_command (own_commands doc pics n o')"
  by (auto simp: own_commands_def text_commands_def shadow_command_def background_image_command_def image_command_def
      outline_command_def background_command_def border_command_def plain_command_def list_all_iff Let_def new_command_plain
      split: option.splits if_splits)

text \<open>Running the commands of a tree gives back the clip stack.\<close>

lemma execute_below:
  assumes "\<And>c st. c \<in> set cs \<Longrightarrow> returns_only (R st) (execute_from (g c) st)"
    and "\<And>st. R st st" and "\<And>st st' st''. R st st' \<Longrightarrow> R st' st'' \<Longrightarrow> R st st''"
  shows "returns_only (R st) (execute_from (concat (map g cs)) st)"
  using assms(1)
proof (induction cs arbitrary: st)
  case Nil
  then show ?case using assms(2) by simp
next
  case (Cons c cs)
  have "returns_only (R st) (execute_from (concat (map g cs)) st')" if "R st st'" for st'
    using Cons.IH [of st'] Cons.prems assms(3) [OF that] by (auto intro: returns_only_weaken)
  moreover have "returns_only (R st) (execute_from (g c) st)" using Cons.prems by simp
  ultimately show ?case by (simp add: execute_append returns_only_bind)
qed

lemma emit_balanced: "returns_only (\<lambda>st'. fst st' = fst st) (execute_from (emit doc pics n o') st)"
proof (induction doc pics n o' arbitrary: st rule: emit.induct)
  case (1 doc pics n o')
  let ?opacity = "node_opacity n o'"
  let ?below = "concat (map (\<lambda>c. emit doc pics c ?opacity) (paint_order (ln_children n)))"
  show ?case
  proof (cases "ln_display n = NoBox")
    case False
    have own: "returns_only (\<lambda>st'. fst st' = fst st) (execute_from (own_commands doc pics n ?opacity) st)" for st
      by (rule returns_only_weaken [OF execute_plain [OF own_commands_plain]]) (simp add: same_clips_def)
    have below: "returns_only (\<lambda>st'. fst st' = fst st) (execute_from ?below st)" for st
      by (rule execute_below [where R = "\<lambda>st st'. fst st' = fst st"]) (use 1 [OF False refl] in auto)
    have "returns_only (\<lambda>st'. fst st' = fst st) (execute_from (push_command n # ?below @ [pop_command]) st)" for st
    proof -
      have push: "pc_push_clip (push_command n)" by (simp add: push_command_def Let_def)
      have pop: "\<not> pc_push_clip pop_command" "pc_pop_clip pop_command" by (simp_all add: pop_command_def new_command_plain)
      have "returns_only (\<lambda>st'. fst st' = fst st) (execute_from [pop_command] st')"
        if "fst st' = clip_push (pc_rect (push_command n)) (pc_radius (push_command n)) (fst st)" for st'
        using that pop by (cases st') simp
      then show ?thesis using push below [of "(clip_push (pc_rect (push_command n)) (pc_radius (push_command n)) (fst st), snd st)"]
        by (cases st) (auto simp: execute_append intro!: returns_only_bind)
    qed
    then have "returns_only (\<lambda>st'. fst st' = fst st)
        (execute_from (if clips_children n then push_command n # ?below @ [pop_command] else ?below) st)" for st
      using below by simp
    then show ?thesis using False own [of st]
      by (subst emit.simps) (auto simp: Let_def execute_append intro!: returns_only_bind [OF own] elim: returns_only_weaken)
  qed (simp add: emit.simps)
qed


text \<open>Whatever the commands are, the picture has the size that was asked for.\<close>

lemma execute_keeps_size:
  "surface_ok s \<Longrightarrow> returns_only (\<lambda>(clips', s'). surface_ok s' \<and> sf_width s' = sf_width s \<and> sf_height s' = sf_height s)
    (execute_from cs (clips, s))"
proof (induction cs "(clips, s)" arbitrary: clips s rule: execute_from.induct)
  case (2 c cs clips s)
  have "returns_only (\<lambda>(clips', s'). surface_ok s' \<and> sf_width s' = sf_width s \<and> sf_height s' = sf_height s)
      (execute_from cs (clips, s'))"
    if "\<not> pc_push_clip c" "\<not> pc_pop_clip c" "paints_within (clip_current clips) s s'" for s'
    using 2(3) [OF that(1,2), of s'] paints_within_ok [OF that(3) 2(4)] that(3) by (simp add: paints_within_def)
  then show ?case using 2 by (auto intro: returns_only_bind [OF paint_one_within])
qed simp

lemma render_to_surface_size:
  "returns_only (\<lambda>s. surface_ok s \<and> sf_width s = max w 0 \<and> sf_height s = max h 0) (render_to_surface cs w h c)"
  unfolding render_to_surface_def execute_def
  by (rule returns_only_bind [OF execute_keeps_size [OF new_surface_ok]]) (auto simp: new_surface_def)


section \<open>Overflow\<close>

fun clips_nowhere :: "layout_node \<Rightarrow> bool" where
  "clips_nowhere (LayoutNode b cs) = (\<not> clips_children (LayoutNode b cs) \<and> (\<forall>c \<in> set cs. clips_nowhere c))"

lemma clips_nowhere_unfold: "clips_nowhere n \<longleftrightarrow> \<not> clips_children n \<and> (\<forall>c \<in> set (ln_children n). clips_nowhere c)"
  by (cases n) simp

lemma emit_without_clips: "clips_nowhere n \<Longrightarrow> returns_only (same_clips st) (execute_from (emit doc pics n o') st)"
proof (induction doc pics n o' arbitrary: st rule: emit.induct)
  case (1 doc pics n o')
  let ?opacity = "node_opacity n o'"
  let ?below = "concat (map (\<lambda>c. emit doc pics c ?opacity) (paint_order (ln_children n)))"
  show ?case
  proof (cases "ln_display n = NoBox")
    case False
    have "returns_only (same_clips st) (execute_from ?below st)" for st
      by (rule execute_below) (use 1 False same_clips_trans in \<open>auto simp: clips_nowhere_unfold [of n]\<close>)
    then have "returns_only (same_clips st) (execute_from (own_commands doc pics n ?opacity @ ?below) st)"
      unfolding execute_append by (rule same_clips_step [OF execute_plain [OF own_commands_plain]])
    moreover have "\<not> clips_children n" using 1(2) by (simp add: clips_nowhere_unfold [of n])
    ultimately show ?thesis using False by (subst emit.simps) (simp add: Let_def)
  qed (simp add: emit.simps)
qed

text \<open>C31: \<open>overflow: hidden\<close> hides, where clips are not nested.  When a box clips its children, and no box below it
  clips again, then carrying out its paint commands leaves the clip stack as it was, and after the
  box has painted itself nothing changes any pixel that the pushed clip, the padding box with its
  rounded corners cut to the clips around it, rejects.  (A clip inside the clip would lose the
  rounded corners of the outer one.)\<close>

theorem overflow_hidden_clips:
  assumes "ln_display n \<noteq> NoBox" and "clips_children n" and "list_all clips_nowhere (ln_children n)"
    and run: "execute_from (emit doc pics n inherited) (clips, s) = Returns (clips', s')"
  shows "clips' = clips \<and>
    (\<exists>s1. execute_from (own_commands doc pics n (node_opacity n inherited)) (clips, s) = Returns (clips, s1) \<and>
      paints_within (clip_current (clip_push (pc_rect (push_command n)) (node_radius n) clips)) s1 s')"
proof -
  let ?opacity = "node_opacity n inherited"
  let ?below = "concat (map (\<lambda>c. emit doc pics c ?opacity) (paint_order (ln_children n)))"
  let ?clips = "clip_push (pc_rect (push_command n)) (node_radius n) clips"
  have push: "pc_push_clip (push_command n)" "pc_radius (push_command n) = node_radius n" by (simp_all add: push_command_def Let_def)
  have pop: "\<not> pc_push_clip pop_command" "pc_pop_clip pop_command" by (simp_all add: pop_command_def new_command_plain)
  have e: "emit doc pics n inherited = own_commands doc pics n ?opacity @ push_command n # ?below @ [pop_command]"
    using assms(1,2) by (subst emit.simps) (simp add: Let_def)
  obtain clips1 s1 where own: "execute_from (own_commands doc pics n ?opacity) (clips, s) = Returns (clips1, s1)"
    using run unfolding e by (auto simp: execute_append bind_run_Returns_iff)
  have "clips1 = clips" using execute_plain [OF own_commands_plain, of "(clips, s)" doc pics n ?opacity] own
    by (simp add: same_clips_def)
  then have "bind_run (execute_from ?below (?clips, s1)) (execute_from [pop_command]) = Returns (clips', s')"
    using run own push unfolding e by (simp add: execute_append)
  then obtain clips2 where below: "execute_from ?below (?clips, s1) = Returns (clips2, s')" and c': "clips' = clip_pop clips2"
    using pop by (auto simp: bind_run_Returns_iff)
  have "returns_only (same_clips (?clips, s1)) (execute_from ?below (?clips, s1))"
    by (rule execute_below) (use assms(3) emit_without_clips same_clips_trans in \<open>auto simp: list_all_iff\<close>)
  then have "clips2 = ?clips" "paints_within (clip_current ?clips) s1 s'" using below by (simp_all add: same_clips_def)
  then show ?thesis using own c' \<open>clips1 = clips\<close> by simp
qed


text \<open>A faint box two pixels wide in a hidden overflow one pixel wide.\<close>

definition sample_page :: dom_node where
  "sample_page = DomNode DocumentNode [] [] [] [DomNode ElementNode ''p'' [] [] []]"

definition sample_overflow :: layout_node where
  "sample_overflow =
     LayoutNode ((new_box [] [(''overflow'', ''hidden'')] BlockBox)\<lparr> lb_box := zero_box\<lparr> content := mk_rect (Num 0) (Num 0) (Num 1) (Num 1) \<rparr> \<rparr>)
       [LayoutNode ((new_box [0] [(''background-color'', ''#01010101'')] BlockBox)\<lparr> lb_rect := mk_rect (Num 0) (Num 0) (Num 2) (Num 1) \<rparr>) []]"

lemma sample_overflow_painted:
  "execute_from (emit sample_page no_pictures sample_overflow (Num 1)) ([], new_surface 2 1 (rgba 0 0 0 0)) =
    Returns ([], \<lparr> sf_width = 2, sf_height = 1, sf_pixels = [0x01010101, 0] \<rparr>)"
  by code_simp

theorem overflow_hidden_clips_witness:
  "\<exists>s1. execute_from (own_commands sample_page no_pictures sample_overflow (node_opacity sample_overflow (Num 1)))
        ([], new_surface 2 1 (rgba 0 0 0 0)) = Returns ([], s1) \<and>
      paints_within (clip_current (clip_push (pc_rect (push_command sample_overflow)) (node_radius sample_overflow) [])) s1
        \<lparr> sf_width = 2, sf_height = 1, sf_pixels = [0x01010101, 0] \<rparr>"
proof -
  have "ln_display sample_overflow \<noteq> NoBox" "clips_children sample_overflow" "list_all clips_nowhere (ln_children sample_overflow)"
    by (simp_all add: sample_overflow_def new_box_def clips_children_def style_get_def)
  from overflow_hidden_clips [OF this sample_overflow_painted] show ?thesis by simp
qed

section \<open>The glyphs are drawn mirrored\<close>

text \<open>The table is one whose lowest bit is the leftmost pixel; read the other way round, as the
  header says and \<open>draw_text\<close> does, the stem of an F comes out on the right.\<close>

definition drawn_row :: "byte \<Rightarrow> string" where
  "drawn_row row = map (\<lambda>col. if bit row (7 - col) then CHR ''#'' else CHR ''.'') [0..<8]"

lemma glyph_F_mirrored:
  "map drawn_row (bitmap_glyph_for CHR ''F'') =
    [''.#######'',
     ''.#...##.'',
     ''...#.##.'',
     ''...####.'',
     ''...#.##.'',
     ''.....##.'',
     ''....####'',
     ''........'']"
  by (simp add: bitmap_glyph_for_def glyph_table_def drawn_row_def upt_conv_Cons)


section \<open>A nested clip forgets the round corners\<close>

text \<open>\<open>ClipStack::push\<close> keeps the smaller of the two radii: a square clip inside a round one shows
  what the round one cuts off.\<close>

lemma nested_clip_shows_corner:
  "accepts (clip_current (clip_push (mk_rect (Num 0) (Num 0) (Num 8) (Num 8)) (Num 4) [])) 0 0 = False"
  "accepts (clip_current (clip_push (mk_rect (Num 0) (Num 0) (Num 8) (Num 8)) (Num 0)
    (clip_push (mk_rect (Num 0) (Num 0) (Num 8) (Num 8)) (Num 4) []))) 0 0 = True"
  by code_simp+

end
