(* ===== verification/Gif.thy ===== *)
theory Gif
  imports Png
begin

text \<open>
  \<open>gif.cpp\<close>: the GIF decoder.  Positions in the file and in the bits of the compressed data are
  naturals; \<open>int\<close> values stay below 2^17, and the product of the two sides of the screen below 2^32, a
  \<open>size_t\<close> in the code.  Allocation is taken to succeed.
\<close>

definition read_u16_le :: "bytes \<Rightarrow> nat \<Rightarrow> nat" where
  "read_u16_le p i = unat (p ! i) OR push_bit 8 (unat (p ! (i + 1)))"

section \<open>LZW\<close>

text \<open>The variables of \<open>lzw_decode\<close>.  The code size is \<open>min_code_size + 1 + lz_growth\<close>.\<close>

record lzw_state =
  lz_dictionary :: "bytes list"
  lz_growth :: nat
  lz_next :: nat
  lz_position :: nat
  lz_previous :: bytes
  lz_out :: bytes

abbreviation clear_code :: "nat \<Rightarrow> nat" where "clear_code m \<equiv> 2 ^ m"
abbreviation end_code :: "nat \<Rightarrow> nat" where "end_code m \<equiv> 2 ^ m + 1"

definition code_size :: "nat \<Rightarrow> lzw_state \<Rightarrow> nat" where
  "code_size m s = m + 1 + lz_growth s"

definition first_dictionary :: "nat \<Rightarrow> bytes list" where
  "first_dictionary m = map (\<lambda>i. if i < clear_code m then [of_nat i] else []) [0..<4096]"

definition new_lzw :: "nat \<Rightarrow> lzw_state" where
  "new_lzw m = \<lparr> lz_dictionary = first_dictionary m, lz_growth = 0, lz_next = end_code m + 1, lz_position = 0,
     lz_previous = [], lz_out = [] \<rparr>"

text \<open>\<open>read_code\<close>, one bit at a time, the lowest first; \<^term>\<open>None\<close> for -1.\<close>

fun read_code_loop :: "bytes \<Rightarrow> nat \<Rightarrow> nat \<Rightarrow> nat \<Rightarrow> nat \<Rightarrow> nat option \<times> nat" where
  "read_code_loop data i 0 code pos = (Some code, pos)"
| "read_code_loop data i (Suc k) code pos =
     (if length data \<le> pos div 8 then (None, pos)
      else
        let b = (if bit (data ! (pos div 8)) (pos mod 8) then 1 else 0)
        in read_code_loop data (Suc i) k (code OR push_bit i b) (Suc pos))"

definition read_code :: "bytes \<Rightarrow> nat \<Rightarrow> nat \<Rightarrow> nat option \<times> nat" where
  "read_code data k pos = read_code_loop data 0 k 0 pos"

definition lzw_entry :: "lzw_state \<Rightarrow> nat \<Rightarrow> bytes option" where
  "lzw_entry s code =
     (if code < lz_next s \<and> lz_dictionary s ! code \<noteq> [] then Some (lz_dictionary s ! code)
      else if lz_previous s \<noteq> [] then Some (lz_previous s @ [hd (lz_previous s)])
      else None)"

definition lzw_learn :: "nat \<Rightarrow> bytes \<Rightarrow> lzw_state \<Rightarrow> lzw_state" where
  "lzw_learn m entry s =
     (if lz_previous s \<noteq> [] \<and> lz_next s < 4096
      then
        let n = lz_next s + 1
        in s\<lparr> lz_dictionary := (lz_dictionary s)[lz_next s := lz_previous s @ [hd entry]], lz_next := n,
              lz_growth := (if n = 2 ^ code_size m s \<and> code_size m s < 12 then lz_growth s + 1 else lz_growth s) \<rparr>
      else s)"

text \<open>One round of the loop; \<^term>\<open>None\<close> for \<open>break\<close>.\<close>

definition lzw_step :: "nat \<Rightarrow> bytes \<Rightarrow> lzw_state \<Rightarrow> lzw_state option" where
  "lzw_step m data s =
     (case read_code data (code_size m s) (lz_position s) of
        (None, pos) \<Rightarrow> None
      | (Some code, pos) \<Rightarrow>
          let s = s\<lparr> lz_position := pos \<rparr> in
          if code = clear_code m then Some (s\<lparr> lz_growth := 0, lz_next := end_code m + 1, lz_previous := [] \<rparr>)
          else if code = end_code m then None
          else
            case lzw_entry s code of None \<Rightarrow> None
            | Some entry \<Rightarrow>
                Some ((lzw_learn m entry (s\<lparr> lz_out := lz_out s @ entry \<rparr>))\<lparr> lz_previous := entry \<rparr>))"

lemma read_code_loop_position:
  "read_code_loop data i k code pos = (Some v, pos') \<Longrightarrow> pos' = pos + k \<and> (0 < k \<longrightarrow> pos < 8 * length data)"
proof (induction k arbitrary: i code pos)
  case (Suc k)
  have "\<not> length data \<le> pos div 8" using Suc.prems by (auto split: if_splits)
  moreover have "pos' = Suc pos + k"
    using Suc.prems by (auto simp: Let_def split: if_splits dest: Suc.IH)
  ultimately show ?case by auto
qed simp

lemma lzw_step_position:
  "lzw_step m data s = Some s' \<Longrightarrow> lz_position s < lz_position s' \<and> lz_position s < 8 * length data"
  using read_code_loop_position [of data 0 "code_size m s" 0 "lz_position s"]
  by (auto simp: lzw_step_def read_code_def lzw_learn_def Let_def code_size_def split: prod.splits option.splits if_splits)

function lzw_loop :: "nat \<Rightarrow> bytes \<Rightarrow> lzw_state \<Rightarrow> lzw_state" where
  "lzw_loop m data s = (case lzw_step m data s of None \<Rightarrow> s | Some s' \<Rightarrow> lzw_loop m data s')"
  by pat_completeness auto
termination
  by (relation "measure (\<lambda>(m, data, s). 8 * length data - lz_position s)")
    (auto dest!: lzw_step_position)

declare lzw_loop.simps [simp del]

definition lzw_decode :: "bytes \<Rightarrow> nat \<Rightarrow> bytes option" where
  "lzw_decode data m = (if m < 2 \<or> 8 < m then None else Some (lz_out (lzw_loop m data (new_lzw m))))"


section \<open>The file\<close>

definition read_color_table :: "bytes \<Rightarrow> nat \<Rightarrow> nat \<Rightarrow> color list" where
  "read_color_table bs pos n =
     map (\<lambda>i. rgba (bs ! (pos + i * 3)) (bs ! (pos + i * 3 + 1)) (bs ! (pos + i * 3 + 2)) 255) [0..<n]"

text \<open>\<open>read_sub_blocks\<close>: the data and the new position.\<close>

function read_sub_blocks :: "bytes \<Rightarrow> nat \<Rightarrow> bytes \<Rightarrow> (bytes \<times> nat) option" where
  "read_sub_blocks bs pos out =
     (if pos < length bs then
        let n = unat (bs ! pos); p = pos + 1 in
        if n = 0 then Some (out, p)
        else if length bs < p + n then None
        else read_sub_blocks bs (p + n) (out @ take n (drop p bs))
      else None)"
  by pat_completeness auto
termination by (relation "measure (\<lambda>(bs, pos, out). length bs - pos)") auto

declare read_sub_blocks.simps [simp del]

definition gif_signature :: "bytes \<Rightarrow> bool" where
  "gif_signature bs \<longleftrightarrow>
     6 \<le> length bs \<and> (take 6 bs = bytes_of_string ''GIF87a'' \<or> take 6 bs = bytes_of_string ''GIF89a'')"

function strided :: "nat \<Rightarrow> nat \<Rightarrow> nat \<Rightarrow> nat list" where
  "strided y step height = (if y < height \<and> 0 < step then y # strided (y + step) step height else [])"
  by pat_completeness auto
termination by (relation "measure (\<lambda>(y, step, height). height - y)") auto

declare strided.simps [simp del]

definition row_order :: "bool \<Rightarrow> nat \<Rightarrow> nat list" where
  "row_order interlaced height =
     (if interlaced then strided 0 8 height @ strided 4 8 height @ strided 2 4 height @ strided 1 2 height
      else strided 0 1 height)"

record gif_frame =
  gf_left :: nat
  gf_top :: nat
  gf_width :: nat
  gf_height :: nat
  gf_table :: "color list"
  gf_transparent :: "byte option"

text \<open>One pixel of the frame; those outside the screen, transparent ones and colours the table lacks
  leave the image alone.\<close>

definition draw_pixel :: "gif_frame \<Rightarrow> nat \<Rightarrow> nat \<Rightarrow> nat \<Rightarrow> nat \<Rightarrow> byte \<Rightarrow> color list \<Rightarrow> color list" where
  "draw_pixel f sw sh y x index pixels =
     (let px = gf_left f + x; py = gf_top f + y in
      if sw \<le> px \<or> sh \<le> py then pixels
      else if gf_transparent f = Some index then pixels
      else if unat index < length (gf_table f) then pixels[py * sw + px := gf_table f ! unat index]
      else pixels)"

fun draw_row :: "gif_frame \<Rightarrow> nat \<Rightarrow> nat \<Rightarrow> nat \<Rightarrow> nat list \<Rightarrow> bytes \<times> color list \<Rightarrow> bytes \<times> color list" where
  "draw_row f sw sh y [] st = st"
| "draw_row f sw sh y (x # xs) (indices, pixels) =
     (case indices of [] \<Rightarrow> ([], pixels)
      | i # rest \<Rightarrow> draw_row f sw sh y xs (rest, draw_pixel f sw sh y x i pixels))"

definition draw_frame :: "gif_frame \<Rightarrow> bool \<Rightarrow> nat \<Rightarrow> nat \<Rightarrow> bytes \<Rightarrow> image" where
  "draw_frame f interlaced sw sh indices =
     \<lparr> img_width = int sw, img_height = int sh,
       img_pixels = snd (fold (\<lambda>y. draw_row f sw sh y [0..<gf_width f]) (row_order interlaced (gf_height f))
         (indices, replicate (sw * sh) (rgba 0 0 0 0))) \<rparr>"

text \<open>The image descriptor, whose separator has been read.\<close>

definition read_frame :: "bytes \<Rightarrow> nat \<Rightarrow> nat \<Rightarrow> nat \<Rightarrow> color list \<Rightarrow> byte option \<Rightarrow> image option" where
  "read_frame bs pos sw sh global transparent =
     (if length bs < pos + 9 then None
      else
        let packed = bs ! (pos + 8);
            f = \<lparr> gf_left = read_u16_le bs pos, gf_top = read_u16_le bs (pos + 2), gf_width = read_u16_le bs (pos + 4),
                  gf_height = read_u16_le bs (pos + 6), gf_table = global, gf_transparent = transparent \<rparr>;
            n = 2 ^ (unat (packed AND 7) + 1);
            p = pos + 9
        in if gf_width f = 0 \<or> gf_height f = 0 then None
           else if bit packed 7 \<and> length bs < p + n * 3 then None
           else
             let local = (if bit packed 7 then read_color_table bs p n else []);
                 p = (if bit packed 7 then p + n * 3 else p)
             in if length bs \<le> p then None
                else
                  case read_sub_blocks bs (p + 1) [] of None \<Rightarrow> None
                  | Some (compressed, p') \<Rightarrow>
                      case lzw_decode compressed (unat (bs ! p)) of None \<Rightarrow> None
                      | Some indices \<Rightarrow>
                          Some (draw_frame (f\<lparr> gf_table := if local = [] then global else local \<rparr>) (bit packed 6) sw sh indices))"

text \<open>An extension, whose introducer has been read: the new position and transparent colour.\<close>

definition read_extension :: "bytes \<Rightarrow> nat \<Rightarrow> byte option \<Rightarrow> (nat \<times> byte option) option" where
  "read_extension bs pos transparent =
     (if length bs \<le> pos then None
      else
        let label = bs ! pos; p = pos + 1 in
        if label = 0xF9 then
          if length bs < p + 6 then None
          else
            let transparent' = (if bit (bs ! (p + 1)) 0 then Some (bs ! (p + 4)) else transparent);
                q = p + 1 + unat (bs ! p)
            in Some (if q < length bs \<and> bs ! q = 0 then q + 1 else q, transparent')
        else map_option (\<lambda>(ignored, q). (q, transparent)) (read_sub_blocks bs p []))"

lemma read_sub_blocks_position: "read_sub_blocks bs pos out = Some (d, q) \<Longrightarrow> pos < q"
proof (induction bs pos out rule: read_sub_blocks.induct)
  case (1 bs pos out)
  let ?n = "unat (bs ! pos)"
  show ?case
  proof (cases "pos < length bs \<and> ?n \<noteq> 0 \<and> \<not> length bs < pos + 1 + ?n")
    case True
    then have "read_sub_blocks bs (pos + 1 + ?n) (out @ take ?n (drop (pos + 1) bs)) = Some (d, q)"
      using 1(2) by (subst (asm) read_sub_blocks.simps) (simp add: Let_def)
    then have "pos + 1 + ?n < q" using 1(1) True by simp
    then show ?thesis by simp
  next
    case False
    then show ?thesis using 1(2) by (subst (asm) read_sub_blocks.simps) (auto simp: Let_def split: if_splits)
  qed
qed

lemma read_extension_position: "read_extension bs pos t = Some (q, t') \<Longrightarrow> pos < q"
  using read_sub_blocks_position [of bs "pos + 1" "[]"]
  by (fastforce simp: read_extension_def Let_def split: if_splits)

function gif_blocks :: "bytes \<Rightarrow> nat \<Rightarrow> nat \<Rightarrow> nat \<Rightarrow> color list \<Rightarrow> byte option \<Rightarrow> image option" where
  "gif_blocks bs pos sw sh global transparent =
     (if pos < length bs then
        let block = bs ! pos; p = pos + 1 in
        if block = 0x3B then None
        else if block = 0x21 then
          (case read_extension bs p transparent of None \<Rightarrow> None
           | Some (q, t) \<Rightarrow> gif_blocks bs q sw sh global t)
        else if block = 0x2C then read_frame bs p sw sh global transparent
        else None
      else None)"
  by pat_completeness auto
termination
  by (relation "measure (\<lambda>(bs, pos, sw, sh, g, t). length bs - pos)") (auto dest!: read_extension_position)

declare gif_blocks.simps [simp del]

definition decode_gif :: "bytes \<Rightarrow> image option" where
  "decode_gif bs =
     (if \<not> gif_signature bs then None
      else if length bs < 6 + 7 then None
      else
        let sw = read_u16_le bs 6; sh = read_u16_le bs 8; packed = bs ! 10;
            n = 2 ^ (unat (packed AND 7) + 1); p = 13
        in if sw = 0 \<or> sh = 0 then None
           else if bit packed 7 then
             if length bs < p + n * 3 then None
             else gif_blocks bs (p + n * 3) sw sh (read_color_table bs p n) None
           else gif_blocks bs p sw sh [] None)"

end
