(* ===== verification/Jpeg.thy ===== *)
theory Jpeg
  imports Surface
begin

text \<open>
  \<open>jpeg.hpp\<close>/\<open>jpeg.cpp\<close>: the JPEG decoder, baseline and progressive.  Reading past the end of a
  vector or of an array of the \<open>Decoder\<close>, shifting by 32 or more and overflowing an \<open>int\<close> are
  \<^const>\<open>Undefined\<close>; \<open>return false\<close> is \<open>None\<close>.  Values the code reads from unsigned bytes and never
  makes negative are \<open>nat\<close>s; the address of an empty segment's first byte is only taken, never read.
  Allocation succeeds, \<open>float\<close> operations are rounded one at a time, and \<open>std::cos\<close> on a \<open>float\<close>,
  whose accuracy the standard leaves open, is the parameter \<open>cosine\<close>.
\<close>

section \<open>Calls that give up\<close>

lemma bind_run_cong [fundef_cong]:
  "m = m' \<Longrightarrow> (\<And>a. m' = Returns a \<Longrightarrow> f a = g a) \<Longrightarrow> bind_run m f = bind_run m' g"
  by (cases m) (auto simp: bind_run_def)

definition bind_try :: "'a option run \<Rightarrow> ('a \<Rightarrow> 'b option run) \<Rightarrow> 'b option run" where
  "bind_try m f = bind_run m (\<lambda>x. case x of None \<Rightarrow> Returns None | Some a \<Rightarrow> f a)"

lemma bind_try_cong [fundef_cong]:
  "m = m' \<Longrightarrow> (\<And>a. m' = Returns (Some a) \<Longrightarrow> f a = g a) \<Longrightarrow> bind_try m f = bind_try m' g"
  by (cases m) (auto simp: bind_try_def split: option.split)

fun fold_try :: "('a \<Rightarrow> 's \<Rightarrow> 's option run) \<Rightarrow> 'a list \<Rightarrow> 's \<Rightarrow> 's option run" where
  "fold_try f [] s = Returns (Some s)"
| "fold_try f (x # xs) s = bind_try (f x s) (fold_try f xs)"

definition at_index :: "'a list \<Rightarrow> nat \<Rightarrow> 'a run" where
  "at_index xs i = (if i < length xs then Returns (xs ! i) else Undefined)"

definition put_index :: "'a list \<Rightarrow> nat \<Rightarrow> 'a \<Rightarrow> 'a list run" where
  "put_index xs i v = (if i < length xs then Returns (xs[i := v]) else Undefined)"

text \<open>Conversion to a 16-bit signed integer.\<close>

definition to_short :: "int \<Rightarrow> int" where
  "to_short v = sint (word_of_int v :: 16 word)"

section \<open>Tables and bits\<close>

definition zigzag :: "nat list" where
  "zigzag =
     [0, 1, 8, 16, 9, 2, 3, 10, 17, 24, 32, 25, 18, 11, 4, 5,
      12, 19, 26, 33, 40, 48, 41, 34, 27, 20, 13, 6, 7, 14, 21, 28,
      35, 42, 49, 56, 57, 50, 43, 36, 29, 22, 15, 23, 30, 37, 44, 51,
      58, 59, 52, 45, 38, 31, 39, 46, 53, 60, 61, 54, 47, 55, 62, 63]"

record huff_table =
  ht_min :: "int list"
  ht_max :: "int list"
  ht_ptr :: "int list"
  ht_values :: bytes

definition new_table :: huff_table where
  "new_table = \<lparr> ht_min = replicate 17 0, ht_max = replicate 18 0, ht_ptr = replicate 17 0, ht_values = [] \<rparr>"

record bit_reader =
  jr_pos :: nat
  jr_buffer :: "32 word"
  jr_bits :: nat

text \<open>A byte of the entropy coded data, or -1 at its end; \<open>FF 00\<close> stands for \<open>FF\<close>.\<close>

definition read_byte :: "bytes \<Rightarrow> bit_reader \<Rightarrow> int \<times> bit_reader" where
  "read_byte bs r =
     (let p = jr_pos r in
      if length bs \<le> p then (-1, r)
      else if bs ! p = 0xFF then
        (if length bs \<le> p + 1 then (-1, r)
         else if bs ! (p + 1) = 0 then (0xFF, r\<lparr> jr_pos := p + 2 \<rparr>)
         else (-1, r))
      else (uint (bs ! p), r\<lparr> jr_pos := p + 1 \<rparr>))"

definition shift_out :: "bit_reader \<Rightarrow> int \<times> bit_reader" where
  "shift_out r = (let n = jr_bits r - 1 in (uint (drop_bit n (jr_buffer r) AND 1), r\<lparr> jr_bits := n \<rparr>))"

definition read_bit :: "bytes \<Rightarrow> bit_reader \<Rightarrow> int \<times> bit_reader" where
  "read_bit bs r =
     (if jr_bits r = 0 then
        (case read_byte bs r of (b, r1) \<Rightarrow>
          if b < 0 then (-1, r1) else shift_out (r1\<lparr> jr_buffer := word_of_int b, jr_bits := 8 \<rparr>))
      else shift_out r)"

primrec read_bits_loop :: "bytes \<Rightarrow> nat \<Rightarrow> int \<Rightarrow> bit_reader \<Rightarrow> int \<times> bit_reader" where
  "read_bits_loop bs 0 v r = (v, r)"
| "read_bits_loop bs (Suc n) v r =
     (case read_bit bs r of (b, r1) \<Rightarrow>
       if b < 0 then (-1, r1) else read_bits_loop bs n (wrap32 (2 * v) OR b) r1)"

definition read_bits :: "bytes \<Rightarrow> nat \<Rightarrow> bit_reader \<Rightarrow> int \<times> bit_reader" where
  "read_bits bs n r = read_bits_loop bs n 0 r"

fun decode_huffman_loop :: "bytes \<Rightarrow> huff_table \<Rightarrow> nat list \<Rightarrow> int \<Rightarrow> bit_reader \<Rightarrow> int \<times> bit_reader" where
  "decode_huffman_loop bs t [] code r = (-1, r)"
| "decode_huffman_loop bs t (l # ls) code r =
     (case read_bit bs r of (b, r1) \<Rightarrow>
       if b < 0 then (-1, r1)
       else
         let code = 2 * code OR b in
         if 0 \<le> ht_max t ! l \<and> code \<le> ht_max t ! l then
           let i = ht_ptr t ! l + code - ht_min t ! l in
           (if 0 \<le> i \<and> i < int (length (ht_values t)) then uint (ht_values t ! nat i) else -1, r1)
         else decode_huffman_loop bs t ls code r1)"

definition decode_huffman :: "bytes \<Rightarrow> huff_table \<Rightarrow> bit_reader \<Rightarrow> int \<times> bit_reader" where
  "decode_huffman bs t r = decode_huffman_loop bs t [1..<17] 0 r"

text \<open>\<open>build_huffman\<close>: the table, the next code and the number of codes so far.\<close>

definition table_step :: "nat list \<Rightarrow> nat \<Rightarrow> huff_table \<times> int \<times> int \<Rightarrow> huff_table \<times> int \<times> int" where
  "table_step counts l st =
     (case st of (t, code, k) \<Rightarrow>
       let n = int (counts ! l) in
       if n = 0 then
         (t\<lparr> ht_max := (ht_max t)[l := -1], ht_min := (ht_min t)[l := 0], ht_ptr := (ht_ptr t)[l := 0] \<rparr>, 2 * code, k)
       else
         (t\<lparr> ht_max := (ht_max t)[l := code + n - 1], ht_min := (ht_min t)[l := code], ht_ptr := (ht_ptr t)[l := k] \<rparr>,
          2 * (code + n), k + n))"

definition build_huffman :: "huff_table \<Rightarrow> nat list \<Rightarrow> bytes \<Rightarrow> huff_table" where
  "build_huffman t counts values = fst (fold (table_step counts) [1..<17] (t\<lparr> ht_values := values \<rparr>, 0, 0))"

definition extend_value :: "int \<Rightarrow> nat \<Rightarrow> int run" where
  "extend_value v n =
     (if n = 0 then Returns 0
      else if 32 < n then Undefined
      else Returns (if v < wrap32 (2 ^ (n - 1)) then v + (- (2 ^ n) + 1) else v))"

section \<open>The decoder\<close>

record jpeg_component =
  jc_id :: nat
  jc_h :: nat
  jc_v :: nat
  jc_quant :: nat
  jc_dc :: nat
  jc_ac :: nat
  jc_blocks_w :: nat
  jc_blocks_h :: nat
  jc_plane_width :: nat
  jc_plane_height :: nat
  jc_pred :: int
  jc_coeffs :: "int list"
  jc_plane :: bytes

definition new_component :: jpeg_component where
  "new_component = \<lparr> jc_id = 0, jc_h = 1, jc_v = 1, jc_quant = 0, jc_dc = 0, jc_ac = 0, jc_blocks_w = 0, jc_blocks_h = 0,
     jc_plane_width = 0, jc_plane_height = 0, jc_pred = 0, jc_coeffs = [], jc_plane = [] \<rparr>"

record jpeg_decoder =
  jd_reader :: bit_reader
  jd_width :: nat
  jd_height :: nat
  jd_components :: nat
  jd_restart :: nat
  jd_max_h :: nat
  jd_max_v :: nat
  jd_mcus_x :: nat
  jd_mcus_y :: nat
  jd_progressive :: bool
  jd_quant :: "nat list list"
  jd_dc :: "huff_table list"
  jd_ac :: "huff_table list"
  jd_comp :: "jpeg_component list"
  jd_scan :: "nat list"
  jd_spec_start :: nat
  jd_spec_end :: nat
  jd_succ_high :: nat
  jd_succ_low :: nat
  jd_eob :: int

definition new_decoder :: jpeg_decoder where
  "new_decoder = \<lparr> jd_reader = \<lparr> jr_pos = 0, jr_buffer = 0, jr_bits = 0 \<rparr>, jd_width = 0, jd_height = 0,
     jd_components = 0, jd_restart = 0, jd_max_h = 1, jd_max_v = 1, jd_mcus_x = 0, jd_mcus_y = 0, jd_progressive = False,
     jd_quant = replicate 4 (replicate 64 0), jd_dc = replicate 4 new_table, jd_ac = replicate 4 new_table,
     jd_comp = replicate 4 new_component, jd_scan = [], jd_spec_start = 0, jd_spec_end = 0, jd_succ_high = 0,
     jd_succ_low = 0, jd_eob = 0 \<rparr>"

definition update_comp :: "nat \<Rightarrow> (jpeg_component \<Rightarrow> jpeg_component) \<Rightarrow> jpeg_decoder \<Rightarrow> jpeg_decoder" where
  "update_comp c f d = d\<lparr> jd_comp := (jd_comp d)[c := f (jd_comp d ! c)] \<rparr>"

section \<open>A block\<close>

definition decode_dc :: "bytes \<Rightarrow> nat \<Rightarrow> int list \<Rightarrow> jpeg_decoder \<Rightarrow> (int list \<times> jpeg_decoder) option run" where
  "decode_dc bs c block d =
     (if jd_succ_high d = 0 then
        bind_run (at_index (jd_dc d) (jc_dc (jd_comp d ! c))) (\<lambda>t.
          case decode_huffman bs t (jd_reader d) of (n, r1) \<Rightarrow>
            if n < 0 then Returns None
            else
              case (if n = 0 then (0, r1) else read_bits bs (nat n) r1) of (v, r2) \<Rightarrow>
                if n \<noteq> 0 \<and> v < 0 then Returns None
                else
                  bind_run (extend_value v (nat n)) (\<lambda>e.
                  bind_run (check_int (jc_pred (jd_comp d ! c) + e)) (\<lambda>p.
                    Returns (Some (block[0 := to_short (p * 2 ^ jd_succ_low d)],
                      (update_comp c (jc_pred_update (\<lambda>_. p)) d)\<lparr> jd_reader := r2 \<rparr>)))))
      else
        (case read_bit bs (jd_reader d) of (b, r1) \<Rightarrow>
          if b < 0 then Returns None
          else Returns (Some (if b = 0 then block else block[0 := block ! 0 OR to_short (2 ^ jd_succ_low d)],
            d\<lparr> jd_reader := r1 \<rparr>))))"

text \<open>The first pass over a band: from position \<open>k\<close>, the block, the run of empty bands and the
  reader.\<close>

function ac_first ::
  "bytes \<Rightarrow> huff_table \<Rightarrow> nat \<Rightarrow> nat \<Rightarrow> nat \<Rightarrow> int list \<Rightarrow> int \<Rightarrow> bit_reader \<Rightarrow> (int list \<times> int \<times> bit_reader) option run" where
  "ac_first bs t se low k block eob r =
     (case decode_huffman bs t r of (rs, r1) \<Rightarrow>
       if rs < 0 then Returns None
       else
         let zeros = nat rs div 16; n = nat rs mod 16 in
         if n = 0 then
           (if zeros < 15 then
              (case (if zeros = 0 then (0, r1) else read_bits bs zeros r1) of (rest, r2) \<Rightarrow>
                Returns (Some (block, 2 ^ zeros + rest - 1, r2)))
            else if k + 16 \<le> se then ac_first bs t se low (k + 16) block eob r1
            else Returns (Some (block, eob, r1)))
         else if se < k + zeros then Returns None
         else
           case read_bits bs n r1 of (v, r2) \<Rightarrow>
             if v < 0 then Returns None
             else
               bind_run (extend_value v n) (\<lambda>e.
               bind_run (at_index zigzag (k + zeros)) (\<lambda>i.
                 if k + zeros < se
                 then ac_first bs t se low (k + zeros + 1) (block[i := to_short (e * 2 ^ low)]) eob r2
                 else Returns (Some (block[i := to_short (e * 2 ^ low)], eob, r2)))))"
  by pat_completeness auto
termination by (relation "measure (\<lambda>(bs, t, se, low, k, _). se + 1 - k)") auto

declare ac_first.simps [simp del]

text \<open>The refinement of a coefficient that is not zero.\<close>

definition correct :: "bytes \<Rightarrow> int \<Rightarrow> int \<Rightarrow> bit_reader \<Rightarrow> (int \<times> bit_reader) option" where
  "correct bs bt p r =
     (case read_bit bs r of (b, r1) \<Rightarrow>
       if b < 0 then None
       else Some (if b \<noteq> 0 \<and> p AND bt = 0 then to_short (if 0 < p then p + bt else p - bt) else p, r1))"

definition correct_at :: "bytes \<Rightarrow> int \<Rightarrow> nat \<Rightarrow> int list \<times> bit_reader \<Rightarrow> (int list \<times> bit_reader) option run" where
  "correct_at bs bt k st =
     (case st of (block, r) \<Rightarrow>
       bind_run (at_index zigzag k) (\<lambda>i.
         if block ! i = 0 then Returns (Some (block, r))
         else Returns (map_option (\<lambda>(p, r1). (block[i := p], r1)) (correct bs bt (block ! i) r))))"

text \<open>The inner loop of a refinement: past \<open>zeros\<close> zeros, correcting what is not zero.\<close>

function refine_zeros ::
  "bytes \<Rightarrow> int \<Rightarrow> int \<Rightarrow> nat \<Rightarrow> nat \<Rightarrow> nat \<Rightarrow> int list \<Rightarrow> bit_reader \<Rightarrow> (nat \<times> int list \<times> bit_reader) option run" where
  "refine_zeros bs bt new_value se zeros k block r =
     (if se < k then Returns (Some (k, block, r))
      else
        bind_run (at_index zigzag k) (\<lambda>i.
          if block ! i \<noteq> 0 then
            (case correct bs bt (block ! i) r of
               None \<Rightarrow> Returns None
             | Some (p, r1) \<Rightarrow> refine_zeros bs bt new_value se zeros (k + 1) (block[i := p]) r1)
          else if zeros = 0 then Returns (Some (k + 1, block[i := to_short new_value], r))
          else refine_zeros bs bt new_value se (zeros - 1) (k + 1) block r))"
  by pat_completeness auto
termination by (relation "measure (\<lambda>(bs, bt, new_value, se, zeros, k, _). se + 1 - k)") auto

declare refine_zeros.simps [simp del]

lemma refine_zeros_moves:
  "refine_zeros bs bt new_value se zeros k block r = Returns (Some (k', block', r')) \<Longrightarrow> k \<le> k' \<and> (k \<le> se \<longrightarrow> k < k')"
proof (induction bs bt new_value se zeros k block r rule: refine_zeros.induct)
  case (1 bs bt new_value se zeros k block r)
  then show ?case
    by (subst (asm) (3) refine_zeros.simps)
      (fastforce simp: bind_run_Returns_iff split: if_splits option.splits prod.splits)
qed


text \<open>The refinement of a band: new coefficients are \<open>\<plusminus>bt\<close>.\<close>

function ac_refine ::
  "bytes \<Rightarrow> huff_table \<Rightarrow> int \<Rightarrow> nat \<Rightarrow> nat \<Rightarrow> int list \<Rightarrow> int \<Rightarrow> bit_reader \<Rightarrow> (int list \<times> int \<times> bit_reader) option run" where
  "ac_refine bs t bt se k block eob r =
     (case decode_huffman bs t r of (rs, r1) \<Rightarrow>
       if rs < 0 then Returns None
       else
         let zeros = nat rs div 16; n = nat rs mod 16 in
         if n = 0 \<and> zeros < 15 then
           (case (if zeros = 0 then (0, r1) else read_bits bs zeros r1) of (rest, r2) \<Rightarrow>
             Returns (Some (block, 2 ^ zeros + rest, r2)))
         else if 1 < n then Returns None
         else
           case (if n = 0 then (0, r1) else read_bit bs r1) of (sign, r2) \<Rightarrow>
             if sign < 0 then Returns None
             else
               case refine_zeros bs bt (if n = 0 then 0 else if sign = 0 then - bt else bt) se zeros k block r2 of
                 Returns (Some (k', block', r3)) \<Rightarrow>
                   if k' \<le> se then ac_refine bs t bt se k' block' eob r3 else Returns (Some (block', eob, r3))
               | Returns None \<Rightarrow> Returns None
               | Raises e \<Rightarrow> Raises e
               | Hangs \<Rightarrow> Hangs
               | Undefined \<Rightarrow> Undefined)"
  by pat_completeness auto
termination
  by (relation "measure (\<lambda>(bs, t, bt, se, k, _). se + 1 - k)") (auto dest: refine_zeros_moves)

declare ac_refine.simps [simp del]

definition decode_ac :: "bytes \<Rightarrow> nat \<Rightarrow> int list \<Rightarrow> jpeg_decoder \<Rightarrow> (int list \<times> jpeg_decoder) option run" where
  "decode_ac bs c block d =
     (let first = (if 0 < jd_spec_start d then jd_spec_start d else 1);
          table = at_index (jd_ac d) (jc_ac (jd_comp d ! c));
          finish = (\<lambda>(block', eob, r). Returns (Some (block', d\<lparr> jd_eob := eob, jd_reader := r \<rparr>)))
      in
      if jd_succ_high d = 0 then
        (if 0 < jd_eob d then Returns (Some (block, d\<lparr> jd_eob := jd_eob d - 1 \<rparr>))
         else bind_run table (\<lambda>t.
           bind_try (ac_first bs t (jd_spec_end d) (jd_succ_low d) first block (jd_eob d) (jd_reader d)) finish))
      else
        (if 0 < jd_eob d then
           bind_try (fold_try (correct_at bs (2 ^ jd_succ_low d)) [jd_spec_start d..<jd_spec_end d + 1] (block, jd_reader d))
             (\<lambda>(block', r). finish (block', jd_eob d - 1, r))
         else bind_run table (\<lambda>t.
           bind_try (ac_refine bs t (2 ^ jd_succ_low d) (jd_spec_end d) first block (jd_eob d) (jd_reader d)) finish)))"

section \<open>A scan\<close>

text \<open>One block: \<open>&component.coefficients[(block_y * blocks_w + block_x) * 64]\<close>.\<close>

definition decode_block :: "bytes \<Rightarrow> nat \<Rightarrow> nat \<Rightarrow> jpeg_decoder \<Rightarrow> jpeg_decoder option run" where
  "decode_block bs c n d =
     (let coeffs = jc_coeffs (jd_comp d ! c); block = take 64 (drop (64 * n) coeffs) in
      if length coeffs < 64 * n + 64 then Undefined
      else
        bind_try (if jd_spec_start d = 0 then decode_dc bs c block d else Returns (Some (block, d))) (\<lambda>(block1, d1).
        bind_try (if 0 < jd_spec_end d then decode_ac bs c block1 d1 else Returns (Some (block1, d1))) (\<lambda>(block2, d2).
          Returns (Some (update_comp c (jc_coeffs_update (overwrite (64 * n) block2)) d2)))))"

definition decode_unit :: "bytes \<Rightarrow> nat \<Rightarrow> nat \<Rightarrow> nat \<Rightarrow> jpeg_decoder \<Rightarrow> jpeg_decoder option run" where
  "decode_unit bs mx my c d =
     fold_try (\<lambda>by.
       fold_try (\<lambda>bx d.
         let comp = jd_comp d ! c; block_x = mx * jc_h comp + bx; block_y = my * jc_v comp + by in
         if jc_blocks_w comp \<le> block_x \<or> jc_blocks_h comp \<le> block_y then Returns (Some d)
         else decode_block bs c (block_y * jc_blocks_w comp + block_x) d)
       [0..<jc_h (jd_comp d ! c)])
     [0..<jc_v (jd_comp d ! c)] d"

text \<open>A restart marker, when one is due.\<close>

definition reset_predictors :: "jpeg_decoder \<Rightarrow> jpeg_decoder" where
  "reset_predictors d = fold (\<lambda>c. update_comp c (jc_pred_update (\<lambda>_. 0))) [0..<jd_components d] d"

definition restart :: "bytes \<Rightarrow> jpeg_decoder \<Rightarrow> jpeg_decoder" where
  "restart bs d =
     (let r = jd_reader d; p = jr_pos r;
          skip = (p + 1 < length bs \<and> bs ! p = 0xFF \<and> 0xD0 \<le> bs ! (p + 1) \<and> bs ! (p + 1) \<le> 0xD7)
      in (reset_predictors d)\<lparr> jd_reader := r\<lparr> jr_bits := 0, jr_pos := (if skip then p + 2 else p) \<rparr>, jd_eob := 0 \<rparr>)"

definition decode_mcu :: "bytes \<Rightarrow> nat \<Rightarrow> nat \<Rightarrow> nat \<Rightarrow> jpeg_decoder \<Rightarrow> jpeg_decoder option run" where
  "decode_mcu bs across my mx d =
     (let n = my * across + mx;
          d1 = (if jd_restart d \<noteq> 0 \<and> 0 < n \<and> n mod jd_restart d = 0 then restart bs d else d)
      in fold_try (decode_unit bs mx my) (jd_scan d) d1)"

definition decode_scan :: "bytes \<Rightarrow> jpeg_decoder \<Rightarrow> jpeg_decoder option run" where
  "decode_scan bs d =
     (let scan_h = fold (\<lambda>c. max (jc_h (jd_comp d ! c))) (jd_scan d) 1;
          scan_v = fold (\<lambda>c. max (jc_v (jd_comp d ! c))) (jd_scan d) 1;
          across = (jd_width d + 8 * scan_h - 1) div (8 * scan_h);
          down = (jd_height d + 8 * scan_v - 1) div (8 * scan_v);
          d0 = d\<lparr> jd_eob := 0, jd_reader := (jd_reader d)\<lparr> jr_bits := 0, jr_buffer := 0 \<rparr> \<rparr>
      in fold_try (\<lambda>my. fold_try (decode_mcu bs across my) [0..<across]) [0..<down] d0)"


section \<open>What a scan leaves alone\<close>

text \<open>A property of whatever is returned by a call that did not give up.\<close>

definition gives :: "('a \<Rightarrow> bool) \<Rightarrow> 'a option run \<Rightarrow> bool" where
  "gives P m \<longleftrightarrow> (\<forall>a. m = Returns (Some a) \<longrightarrow> P a)"

lemma gives_simps [simp]:
  "gives P (Returns None)" "gives P (Returns (Some a)) = P a" "gives P (Raises e)" "gives P Hangs" "gives P Undefined"
  by (auto simp: gives_def)

lemma gives_bind: "(\<And>a. m = Returns a \<Longrightarrow> gives P (f a)) \<Longrightarrow> gives P (bind_run m f)"
  by (cases m) simp_all

lemma gives_bind_try: "gives Q m \<Longrightarrow> (\<And>a. Q a \<Longrightarrow> gives P (f a)) \<Longrightarrow> gives P (bind_try m f)"
  by (auto simp: bind_try_def gives_def bind_run_Returns_iff split: option.splits)

lemma gives_weaken: "gives Q m \<Longrightarrow> (\<And>a. Q a \<Longrightarrow> P a) \<Longrightarrow> gives P m"
  by (auto simp: gives_def)

lemma fold_try_invariant:
  "I s \<Longrightarrow> (\<And>x s. x \<in> set xs \<Longrightarrow> I s \<Longrightarrow> gives I (f x s)) \<Longrightarrow> gives I (fold_try f xs s)"
  by (induction xs arbitrary: s) (auto intro!: gives_bind_try)

text \<open>No reader moves back.\<close>

definition ahead :: "bit_reader \<Rightarrow> bit_reader \<Rightarrow> bool" where
  "ahead r r' \<longleftrightarrow> jr_pos r \<le> jr_pos r'"

lemma ahead_refl [simp]: "ahead r r" and ahead_trans: "ahead r s \<Longrightarrow> ahead s t \<Longrightarrow> ahead r t"
  by (auto simp: ahead_def)

lemma read_bit_ahead: "ahead r (snd (read_bit bs r))"
  by (auto simp: read_bit_def read_byte_def shift_out_def ahead_def Let_def)

lemma read_bits_loop_ahead: "ahead r (snd (read_bits_loop bs n v r))"
proof (induction n arbitrary: v r)
  case (Suc n)
  obtain b s where e: "read_bit bs r = (b, s)" by (cases "read_bit bs r")
  have "ahead r s" using read_bit_ahead [of r bs] e by simp
  then show ?case using Suc [where r = s and v = "wrap32 (2 * v) OR b"] e by (auto intro: ahead_trans)
qed simp

lemma read_bits_ahead: "ahead r (snd (read_bits bs n r))"
  by (simp add: read_bits_def read_bits_loop_ahead)

lemma decode_huffman_loop_ahead: "ahead r (snd (decode_huffman_loop bs t ls code r))"
proof (induction bs t ls code r rule: decode_huffman_loop.induct)
  case (2 bs t l ls code r)
  obtain b s where e: "read_bit bs r = (b, s)" by (cases "read_bit bs r")
  have "ahead r s" using read_bit_ahead [of r bs] e by simp
  then show ?case using 2 e by (auto simp: Let_def intro: ahead_trans)
qed simp

lemma decode_huffman_ahead: "ahead r (snd (decode_huffman bs t r))"
  by (simp add: decode_huffman_def decode_huffman_loop_ahead)

lemma reads_ahead:
  "read_bit bs r = (v, s) \<Longrightarrow> ahead r s" "read_bits bs n r = (v, s) \<Longrightarrow> ahead r s" "decode_huffman bs t r = (v, s) \<Longrightarrow> ahead r s"
  using read_bit_ahead [of r bs] read_bits_ahead [of r bs n] decode_huffman_ahead [of r bs t] by auto

text \<open>The passes over a block move forwards and keep its size.\<close>

definition kept :: "int list \<Rightarrow> bit_reader \<Rightarrow> int list \<times> int \<times> bit_reader \<Rightarrow> bool" where
  "kept block r res \<longleftrightarrow> length (fst res) = length block \<and> ahead r (snd (snd res))"

lemma kept_trans: "kept block r res \<Longrightarrow> length block = length block0 \<Longrightarrow> ahead r0 r \<Longrightarrow> kept block0 r0 res"
  by (auto simp: kept_def intro: ahead_trans)

lemma ac_first_keeps: "gives (kept block r) (ac_first bs t se low k block eob r)"
proof (induction bs t se low k block eob r rule: ac_first.induct)
  case (1 bs t se low k block eob r)
  obtain rs r1 where rs: "decode_huffman bs t r = (rs, r1)" by (cases "decode_huffman bs t r")
  define n where "n = nat rs mod 16"
  define zeros where "zeros = nat rs div 16"
  obtain v r2 where v: "read_bits bs n r1 = (v, r2)" by (cases "read_bits bs n r1")
  obtain w r3 where w: "(if zeros = 0 then (0, r1) else read_bits bs zeros r1) = (w, r3)" by fastforce
  have ah: "ahead r r1" "ahead r r2" "ahead r r3"
    using reads_ahead(3) [OF rs] reads_ahead(2) [OF v] w by (auto intro: ahead_trans reads_ahead split: if_splits)
  have 2: "gives (kept block r) (ac_first bs t se low (k + 16) block eob r1)"
    if "\<not> rs < 0" "n = 0" "\<not> zeros < 15" "k + 16 \<le> se"
    by (rule gives_weaken [OF 1(1) [OF rs [symmetric] that(1) zeros_def n_def that(2-4)]]) (use ah in \<open>auto intro: kept_trans\<close>)
  have 3: "gives (kept block r) (ac_first bs t se low (k + zeros + 1) (block[i := to_short (e * 2 ^ low)]) eob r2)"
    if "\<not> rs < 0" "n \<noteq> 0" "\<not> se < k + zeros" "\<not> v < 0" "extend_value v n = Returns e"
      "at_index zigzag (k + zeros) = Returns i" "k + zeros < se" for e i
    by (rule gives_weaken [OF 1(2) [OF rs [symmetric] that(1) zeros_def n_def that(2,3) v [symmetric] that(4-7)]])
      (use ah in \<open>auto intro: kept_trans\<close>)
  have 4: "kept block r (b, e, r1)" "kept block r (b, e, r2)" "kept block r (b, e, r3)" if "length b = length block" for b e
    using ah that by (simp_all add: kept_def)
  show ?case
    by (subst ac_first.simps, simp only: rs prod.case Let_def n_def [symmetric] zeros_def [symmetric] v w)
      (use 2 3 4 in \<open>auto intro!: gives_bind\<close>)
qed

lemma correct_ahead: "correct bs bt p r = Some (q, r') \<Longrightarrow> ahead r r'"
  using read_bit_ahead [of r bs] by (auto simp: correct_def split: prod.splits if_splits)

lemma correct_at_keeps:
  "gives (\<lambda>(b, r'). length b = length block \<and> ahead r r') (correct_at bs bt k (block, r))"
  by (auto simp: correct_at_def map_option_case intro!: gives_bind split: option.split dest: correct_ahead)

lemma refine_zeros_keeps:
  "gives (\<lambda>(_, b, r'). length b = length block \<and> ahead r r') (refine_zeros bs bt new_value se zeros k block r)"
proof (induction bs bt new_value se zeros k block r rule: refine_zeros.induct)
  case (1 bs bt new_value se zeros k block r)
  let ?P = "\<lambda>(_, b, r'). length b = length block \<and> ahead r r'"
  have 2: "gives ?P (refine_zeros bs bt new_value se zeros (k + 1) (block[i := p]) r1)"
    if "\<not> se < k" "at_index zigzag k = Returns i" "block ! i \<noteq> 0" "correct bs bt (block ! i) r = Some (p, r1)" for i p r1
    by (rule gives_weaken [OF 1(1) [OF that(1-4) refl]]) (use correct_ahead [OF that(4)] in \<open>auto intro: ahead_trans\<close>)
  have 3: "gives ?P (refine_zeros bs bt new_value se (zeros - 1) (k + 1) block r)"
    if "\<not> se < k" "at_index zigzag k = Returns i" "\<not> block ! i \<noteq> 0" "zeros \<noteq> 0" for i
    by (rule 1(2) [OF that])
  have 4: "gives ?P (case correct bs bt (block ! i) r of None \<Rightarrow> Returns None
        | Some (p, r1) \<Rightarrow> refine_zeros bs bt new_value se zeros (k + 1) (block[i := p]) r1)"
    if "\<not> se < k" "at_index zigzag k = Returns i" "block ! i \<noteq> 0" for i
    using 2 [OF that] by (cases "correct bs bt (block ! i) r") auto
  show ?case
    by (subst refine_zeros.simps) (use 3 4 in \<open>auto intro!: gives_bind\<close>)
qed

lemma ac_refine_keeps: "gives (kept block r) (ac_refine bs t bt se k block eob r)"
proof (induction bs t bt se k block eob r rule: ac_refine.induct)
  case (1 bs t bt se k block eob r)
  obtain rs r1 where rs: "decode_huffman bs t r = (rs, r1)" by (cases "decode_huffman bs t r")
  define n where "n = nat rs mod 16"
  define zeros where "zeros = nat rs div 16"
  obtain v r2 where v: "(if n = 0 then (0, r1) else read_bit bs r1) = (v, r2)" by fastforce
  obtain w r3 where w: "(if zeros = 0 then (0, r1) else read_bits bs zeros r1) = (w, r3)" by fastforce
  have ah: "ahead r r1" "ahead r r2" "ahead r r3"
    using reads_ahead(3) [OF rs] v w by (auto intro: ahead_trans reads_ahead split: if_splits)
  define m where "m = refine_zeros bs bt (if n = 0 then 0 else if v = 0 then - bt else bt) se zeros k block r2"
  have z: "length b = length block" "ahead r s" if "m = Returns (Some (k', b, s))" for k' b s
    using refine_zeros_keeps [where block = block and r = r2] that ah(2) unfolding m_def gives_def by (fastforce intro: ahead_trans)+
  have 2: "gives (kept block r) (ac_refine bs t bt se k' b eob s)"
    if "\<not> rs < 0" "\<not> (n = 0 \<and> zeros < 15)" "\<not> 1 < n" "\<not> v < 0" "m = Returns (Some (k', b, s))" "k' \<le> se" for k' b s
    by (rule gives_weaken [OF 1 [OF rs [symmetric] that(1) zeros_def n_def that(2,3) v [symmetric] that(4)
            that(5) [unfolded m_def] refl refl refl that(6)]])
      (use z [OF that(5)] in \<open>auto intro: kept_trans\<close>)
  show ?case
    by (subst ac_refine.simps, simp only: rs prod.case Let_def n_def [symmetric] zeros_def [symmetric] v w m_def [symmetric])
      (use 2 z ah in \<open>auto simp: kept_def split: run.split option.split\<close>)
qed


text \<open>A scan only moves the reader and changes the run of empty bands, the predictors and the
  coefficients, in place.\<close>

definition comp_frame :: "jpeg_component \<Rightarrow> jpeg_component \<Rightarrow> bool" where
  "comp_frame c c' \<longleftrightarrow>
     c'\<lparr> jc_pred := jc_pred c, jc_coeffs := jc_coeffs c \<rparr> = c \<and> length (jc_coeffs c') = length (jc_coeffs c)"

definition scan_frame :: "jpeg_decoder \<Rightarrow> jpeg_decoder \<Rightarrow> bool" where
  "scan_frame d d' \<longleftrightarrow>
     ahead (jd_reader d) (jd_reader d') \<and>
     d'\<lparr> jd_reader := jd_reader d, jd_eob := jd_eob d, jd_comp := jd_comp d \<rparr> = d \<and>
     list_all2 comp_frame (jd_comp d) (jd_comp d')"

lemma comp_frame_refl [simp]: "comp_frame c c"
  by (simp add: comp_frame_def)

lemma comp_frame_trans: "comp_frame a b \<Longrightarrow> comp_frame b c \<Longrightarrow> comp_frame a c"
  by (cases a; cases b; cases c) (simp add: comp_frame_def)

lemma comp_frame_pred [simp]: "comp_frame c (c\<lparr> jc_pred := p \<rparr>)"
  by (simp add: comp_frame_def)

lemma comp_frame_coeffs: "length xs = length (jc_coeffs c) \<Longrightarrow> comp_frame c (c\<lparr> jc_coeffs := xs \<rparr>)"
  by (simp add: comp_frame_def)

lemma scan_frame_refl [simp]: "scan_frame d d"
  by (simp add: scan_frame_def list_all2_refl)

lemma scan_frame_trans: "scan_frame a b \<Longrightarrow> scan_frame b c \<Longrightarrow> scan_frame a c"
  by (cases a; cases b; cases c) (auto simp: scan_frame_def intro: ahead_trans list_all2_trans [OF comp_frame_trans])

lemma scan_frame_reader [simp]: "scan_frame d (d\<lparr> jd_reader := r \<rparr>) = ahead (jd_reader d) r"
  by (simp add: scan_frame_def list_all2_refl)

lemma scan_frame_eob [simp]: "scan_frame d (d\<lparr> jd_eob := e \<rparr>)"
  by (simp add: scan_frame_def list_all2_refl)

lemma scan_frame_update:
  assumes "comp_frame (jd_comp d ! c) (f (jd_comp d ! c))"
  shows "scan_frame d (update_comp c f d)"
proof -
  have "list_all2 comp_frame (jd_comp d) ((jd_comp d)[c := f (jd_comp d ! c)])"
    using assms by (cases "c < length (jd_comp d)") (auto simp: list_all2_conv_all_nth nth_list_update)
  then show ?thesis by (simp add: scan_frame_def update_comp_def)
qed

lemma scan_frame_comp: "scan_frame d d' \<Longrightarrow> c < length (jd_comp d) \<Longrightarrow> comp_frame (jd_comp d ! c) (jd_comp d' ! c)"
  by (auto simp: scan_frame_def dest: list_all2_nthD)

definition block_frame :: "int list \<Rightarrow> jpeg_decoder \<Rightarrow> int list \<times> jpeg_decoder \<Rightarrow> bool" where
  "block_frame block d res \<longleftrightarrow> length (fst res) = length block \<and> scan_frame d (snd res)"

lemma decode_dc_frame: "gives (block_frame block d) (decode_dc bs c block d)"
proof (cases "jd_succ_high d = 0")
  case True
  have "scan_frame d ((update_comp c (jc_pred_update (\<lambda>_. p)) d)\<lparr> jd_reader := r \<rparr>)" if "ahead (jd_reader d) r" for p r
  proof (rule scan_frame_trans)
    show "scan_frame d (update_comp c (jc_pred_update (\<lambda>_. p)) d)" by (rule scan_frame_update) simp
  qed (use that in \<open>simp add: update_comp_def\<close>)
  then have ret: "block_frame block d (block[0 := v], (update_comp c (jc_pred_update (\<lambda>_. p)) d)\<lparr> jd_reader := r \<rparr>)"
    if "ahead (jd_reader d) r" for v p r
    using that by (simp add: block_frame_def)
  have "ahead (jd_reader d) r2" if "decode_huffman bs t (jd_reader d) = (n, r1)" "read_bits bs k r1 = (v, r2)" for t n r1 k v r2
    using reads_ahead(3) [OF that(1)] reads_ahead(2) [OF that(2)] by (rule ahead_trans)
  then show ?thesis
    using True unfolding decode_dc_def
    by simp (intro gives_bind, auto split: prod.split if_split intro!: gives_bind ret dest: reads_ahead(3))
next
  case False
  then show ?thesis
    by (auto simp: decode_dc_def block_frame_def split: prod.split dest: reads_ahead(1))
qed

lemma decode_ac_frame: "gives (block_frame block d) (decode_ac bs c block d)"
proof -
  let ?fin = "\<lambda>(b, e, r). Returns (Some (b, d\<lparr> jd_eob := e, jd_reader := r \<rparr>))"
  have fin: "gives (block_frame block d) (?fin res)" if "kept block (jd_reader d) res" for res
    using that by (cases res) (simp add: block_frame_def kept_def scan_frame_def list_all2_refl)
  have "gives (\<lambda>(b, r). kept block (jd_reader d) (b, 0, r)) (fold_try (correct_at bs bt) ks (block, jd_reader d))" for bt ks
  proof (rule fold_try_invariant)
    show "gives (\<lambda>(b, r). kept block (jd_reader d) (b, 0, r)) (correct_at bs bt k s)"
      if "case s of (b, r) \<Rightarrow> kept block (jd_reader d) (b, 0, r)" for k s
      using that by (cases s) (auto simp: kept_def intro!: gives_weaken [OF correct_at_keeps] intro: ahead_trans)
  qed (simp add: kept_def)
  then have "gives (block_frame block d) (bind_try (fold_try (correct_at bs bt) ks (block, jd_reader d)) (\<lambda>(b, r). ?fin (b, e, r)))" for bt ks e
    by (rule gives_bind_try) (auto simp: block_frame_def kept_def scan_frame_def list_all2_refl)
  moreover have "gives (block_frame block d) (bind_try (ac_first bs t se low k block e (jd_reader d)) ?fin)" for t se low k e
    by (rule gives_bind_try [OF ac_first_keeps fin])
  moreover have "gives (block_frame block d) (bind_try (ac_refine bs t bt se k block e (jd_reader d)) ?fin)" for t bt se k e
    by (rule gives_bind_try [OF ac_refine_keeps fin])
  ultimately show ?thesis
    unfolding decode_ac_def Let_def by (auto simp: block_frame_def intro!: gives_bind)
qed

lemma length_overwrite_block: "length block = length (take 64 (drop k xs)) \<Longrightarrow> length (overwrite k block xs) = length xs"
  by (auto simp: overwrite_def min_def)

lemma decode_block_frame: "gives (scan_frame d) (decode_block bs c n d)"
proof -
  define block where "block = take 64 (drop (64 * n) (jc_coeffs (jd_comp d ! c)))"
  have 1: "gives (block_frame block d) (if jd_spec_start d = 0 then decode_dc bs c block d else Returns (Some (block, d)))"
    using decode_dc_frame by (simp add: block_frame_def)
  have 2: "gives (block_frame block d) (if 0 < jd_spec_end d then decode_ac bs c b d1 else Returns (Some (b, d1)))"
    if "block_frame block d (b, d1)" for b d1
    using gives_weaken [OF decode_ac_frame [of b d1 bs c], of "block_frame block d"] that
    by (auto simp: block_frame_def intro: scan_frame_trans)
  have 3: "scan_frame d (update_comp c (jc_coeffs_update (overwrite (64 * n) b)) d2)" if "block_frame block d (b, d2)" for b d2
  proof (cases "c < length (jd_comp d)")
    case True
    have f: "scan_frame d d2" using that by (simp add: block_frame_def)
    have "length (jc_coeffs (jd_comp d2 ! c)) = length (jc_coeffs (jd_comp d ! c))"
      using scan_frame_comp [OF f True] by (simp add: comp_frame_def)
    then have "length (overwrite (64 * n) b (jc_coeffs (jd_comp d2 ! c))) = length (jc_coeffs (jd_comp d2 ! c))"
      using that by (intro length_overwrite_block) (simp add: block_frame_def block_def)
    then have "scan_frame d2 (update_comp c (jc_coeffs_update (overwrite (64 * n) b)) d2)"
      by (intro scan_frame_update) (simp add: comp_frame_def)
    with f show ?thesis by (rule scan_frame_trans)
  next
    case False
    then have "length (jd_comp d2) \<le> c"
      using that by (auto simp: block_frame_def scan_frame_def dest: list_all2_lengthD)
    then have "update_comp c f d2 = d2" for f by (simp add: update_comp_def list_update_beyond)
    then show ?thesis using that by (simp add: block_frame_def)
  qed
  show ?thesis
    unfolding decode_block_def Let_def block_def [symmetric]
    by (cases "length (jc_coeffs (jd_comp d ! c)) < 64 * n + 64", simp, simp only: if_False,
        rule gives_bind_try [OF 1], clarify, rule gives_bind_try [OF 2], assumption, clarify, simp add: 3)
qed

lemma scan_frame_lengths:
  "scan_frame d d' \<Longrightarrow> length (jd_comp d') = length (jd_comp d) \<and> jd_scan d' = jd_scan d \<and> jd_components d' = jd_components d"
  by (cases d; cases d') (auto simp: scan_frame_def dest: list_all2_lengthD)

lemma reset_predictors_frame: "scan_frame d (reset_predictors d)"
proof -
  have "scan_frame d (fold (\<lambda>c. update_comp c (jc_pred_update (\<lambda>_. 0))) cs d)" for cs
  proof (induction cs arbitrary: d)
    case (Cons c cs)
    show ?case using scan_frame_trans [OF scan_frame_update Cons] by simp
  qed simp
  then show ?thesis by (simp add: reset_predictors_def)
qed

lemma restart_frame: "scan_frame d (restart bs d)"
proof -
  have "jd_reader (reset_predictors d) = jd_reader d"
  proof -
    have "jd_reader (fold (\<lambda>c. update_comp c (jc_pred_update (\<lambda>_. 0))) cs d) = jd_reader d" for cs
      by (induction cs arbitrary: d) (simp_all add: update_comp_def)
    then show ?thesis by (simp add: reset_predictors_def)
  qed
  then have "scan_frame (reset_predictors d) (restart bs d)"
    by (auto simp: restart_def Let_def scan_frame_def list_all2_refl ahead_def)
  with reset_predictors_frame show ?thesis by (rule scan_frame_trans)
qed

lemma decode_scan_frame: "gives (scan_frame d) (decode_scan bs d)"
proof -
  have block: "gives (scan_frame d) (decode_unit bs mx my c d1)" if "scan_frame d d1" for mx my c d1
    unfolding decode_unit_def
    by (intro fold_try_invariant that)
      (auto simp: Let_def intro!: gives_weaken [OF decode_block_frame] intro: scan_frame_trans)
  have mcu: "gives (scan_frame d) (decode_mcu bs across my mx d1)" if d1: "scan_frame d d1" for across my mx d1
  proof -
    define d2 where "d2 = (if jd_restart d1 \<noteq> 0 \<and> 0 < my * across + mx \<and> (my * across + mx) mod jd_restart d1 = 0 then restart bs d1 else d1)"
    have "scan_frame d d2" using d1 scan_frame_trans [OF d1 restart_frame] by (simp add: d2_def)
    then show ?thesis
      unfolding decode_mcu_def Let_def d2_def [symmetric] by (intro fold_try_invariant) (auto intro: block)
  qed
  show ?thesis
    unfolding decode_scan_def Let_def by (intro fold_try_invariant mcu) (simp_all add: scan_frame_def list_all2_refl ahead_def)
qed


section \<open>Segments\<close>

definition be16 :: "bytes \<Rightarrow> nat \<Rightarrow> nat" where
  "be16 seg i = 256 * unat (seg ! i) + unat (seg ! (i + 1))"

text \<open>\<open>DQT\<close>, over the bytes from the segment on: an entry may lie behind the segment.\<close>

definition quant_entry :: "bytes \<Rightarrow> nat \<Rightarrow> nat \<Rightarrow> nat \<times> nat list \<Rightarrow> (nat \<times> nat list) run" where
  "quant_entry rest precision i st =
     (case st of (offset, q) \<Rightarrow>
       bind_run (at_index rest offset) (\<lambda>a.
         if precision = 0 then Returns (offset + 1, q[zigzag ! i := unat a])
         else bind_run (at_index rest (offset + 1)) (\<lambda>b. Returns (offset + 2, q[zigzag ! i := 256 * unat a + unat b]))))"

lemma quant_entries_move:
  "fold_run (quant_entry rest precision) ks (offset, q) = Returns (offset', q') \<Longrightarrow> offset \<le> offset'"
proof (induction ks arbitrary: offset q)
  case (Cons k ks)
  then obtain o1 q1 where "quant_entry rest precision k (offset, q) = Returns (o1, q1)"
      and "fold_run (quant_entry rest precision) ks (o1, q1) = Returns (offset', q')"
    by (auto simp: bind_run_Returns_iff)
  moreover from this(1) have "offset \<le> o1" by (auto simp: quant_entry_def bind_run_Returns_iff split: if_splits)
  ultimately show ?case using Cons.IH [of o1 q1] by simp
qed simp

function read_quant :: "bytes \<Rightarrow> nat \<Rightarrow> nat \<Rightarrow> jpeg_decoder \<Rightarrow> jpeg_decoder option run" where
  "read_quant rest n offset d =
     (if n \<le> offset then Returns (Some d)
      else
        bind_run (at_index rest offset) (\<lambda>b.
          if 3 < unat b mod 16 then Returns None
          else
            bind_run (fold_run (quant_entry rest (unat b div 16)) [0..<64] (offset + 1, jd_quant d ! (unat b mod 16))) (\<lambda>(offset', q).
              read_quant rest n offset' (d\<lparr> jd_quant := (jd_quant d)[unat b mod 16 := q] \<rparr>))))"
  by pat_completeness auto
termination
  by (relation "measure (\<lambda>(rest, n, offset, d). n - offset)") (auto dest: quant_entries_move)

declare read_quant.simps [simp del]

text \<open>\<open>SOF0\<close>, \<open>SOF1\<close> and \<open>SOF2\<close>.\<close>

definition frame_component :: "bytes \<Rightarrow> nat \<Rightarrow> jpeg_decoder \<Rightarrow> jpeg_decoder option run" where
  "frame_component seg c d =
     (let base = 6 + c * 3 in
      if length seg \<le> base + 2 then Returns None
      else
        let h = unat (seg ! (base + 1)) div 16; v = unat (seg ! (base + 1)) mod 16 in
        if h < 1 \<or> v < 1 \<or> 4 < h \<or> 4 < v then Returns None
        else Returns (Some
          ((update_comp c (\<lambda>k. k\<lparr> jc_id := unat (seg ! base), jc_h := h, jc_v := v, jc_quant := unat (seg ! (base + 2)) \<rparr>) d)
            \<lparr> jd_max_h := max (jd_max_h d) h, jd_max_v := max (jd_max_v d) v \<rparr>)))"

definition place_component :: "nat \<Rightarrow> jpeg_decoder \<Rightarrow> jpeg_decoder" where
  "place_component c d =
     update_comp c (\<lambda>k. let w = jd_mcus_x d * jc_h k; h = jd_mcus_y d * jc_v k in
       k\<lparr> jc_blocks_w := w, jc_blocks_h := h, jc_plane_width := w * 8, jc_plane_height := h * 8,
          jc_coeffs := replicate (w * h * 64) 0, jc_pred := 0 \<rparr>) d"

definition start_frame :: "byte \<Rightarrow> bytes \<Rightarrow> jpeg_decoder \<Rightarrow> jpeg_decoder option run" where
  "start_frame marker seg d =
     (if length seg < 6 \<or> seg ! 0 \<noteq> 8 then Returns None
      else
        let d1 = d\<lparr> jd_progressive := (marker = 0xC2), jd_height := be16 seg 1, jd_width := be16 seg 3, jd_components := unat (seg ! 5) \<rparr> in
        if jd_width d1 = 0 \<or> jd_height d1 = 0 \<or> jd_components d1 < 1 \<or> 4 < jd_components d1 then Returns None
        else
          bind_try (fold_try (frame_component seg) [0..<jd_components d1] d1) (\<lambda>d2.
            let mcu_width = 8 * jd_max_h d2; mcu_height = 8 * jd_max_v d2;
                d3 = d2\<lparr> jd_mcus_x := (jd_width d2 + mcu_width - 1) div mcu_width,
                         jd_mcus_y := (jd_height d2 + mcu_height - 1) div mcu_height \<rparr>
            in Returns (Some (fold place_component [0..<jd_components d3] d3))))"

text \<open>\<open>DHT\<close>.\<close>

function read_tables :: "bytes \<Rightarrow> nat \<Rightarrow> jpeg_decoder \<Rightarrow> jpeg_decoder option run" where
  "read_tables seg offset d =
     (if length seg \<le> offset then Returns (Some d)
      else
        let tc = unat (seg ! offset) div 16; th = unat (seg ! offset) mod 16 in
        if 3 < th \<or> length seg < offset + 1 + 16 then Returns None
        else
          let counts = 0 # map unat (take 16 (drop (offset + 1) seg)); total = sum_list counts; start = offset + 17 in
          if length seg < start + total then Returns None
          else
            let values = take total (drop start seg) in
            read_tables seg (start + total)
              (if tc = 0 then d\<lparr> jd_dc := (jd_dc d)[th := build_huffman (jd_dc d ! th) counts values] \<rparr>
               else d\<lparr> jd_ac := (jd_ac d)[th := build_huffman (jd_ac d ! th) counts values] \<rparr>))"
  by pat_completeness auto
termination by (relation "measure (\<lambda>(seg, offset, d). length seg - offset)") auto

declare read_tables.simps [simp del]

text \<open>\<open>SOS\<close>.\<close>

definition scan_component :: "bytes \<Rightarrow> nat \<Rightarrow> jpeg_decoder \<Rightarrow> jpeg_decoder option run" where
  "scan_component seg i d =
     (let base = 1 + i * 2 in
      if length seg \<le> base + 1 then Returns None
      else
        let tables = unat (seg ! (base + 1)) in
        Returns (Some (fold (\<lambda>c d.
          if jc_id (jd_comp d ! c) = unat (seg ! base)
          then (update_comp c (\<lambda>k. k\<lparr> jc_dc := tables div 16, jc_ac := tables mod 16 \<rparr>) d)\<lparr> jd_scan := jd_scan d @ [c] \<rparr>
          else d) [0..<jd_components d] d)))"

definition start_scan :: "bytes \<Rightarrow> bool \<Rightarrow> jpeg_decoder \<Rightarrow> jpeg_decoder option run" where
  "start_scan seg ready d =
     (if \<not> ready \<or> seg = [] then Returns None
      else
        let n = unat (seg ! 0); tail = 1 + n * 2 in
        bind_try (fold_try (scan_component seg) [0..<n] (d\<lparr> jd_scan := [] \<rparr>)) (\<lambda>d1.
          let d2 =
            (if tail + 2 < length seg
             then d1\<lparr> jd_spec_start := unat (seg ! tail), jd_spec_end := unat (seg ! (tail + 1)),
                      jd_succ_high := unat (seg ! (tail + 2)) div 16, jd_succ_low := unat (seg ! (tail + 2)) mod 16 \<rparr>
             else d1\<lparr> jd_spec_start := 0, jd_spec_end := 63, jd_succ_high := 0, jd_succ_low := 0 \<rparr>)
          in if jd_scan d2 = [] then Returns None else Returns (Some d2)))"

text \<open>The segments other than a scan; with them, whether there is a frame.\<close>

definition read_segment :: "bytes \<Rightarrow> byte \<Rightarrow> bytes \<Rightarrow> bool \<Rightarrow> jpeg_decoder \<Rightarrow> (jpeg_decoder \<times> bool) option run" where
  "read_segment rest marker seg ready d =
     (if marker = 0xDB then bind_try (read_quant rest (length seg) 0 d) (\<lambda>d'. Returns (Some (d', ready)))
      else if marker = 0xC0 \<or> marker = 0xC1 \<or> marker = 0xC2 then bind_try (start_frame marker seg d) (\<lambda>d'. Returns (Some (d', True)))
      else if marker = 0xC4 then bind_try (read_tables seg 0 d) (\<lambda>d'. Returns (Some (d', ready)))
      else if marker = 0xDD then
        (if length seg < 2 then Returns None else Returns (Some (d\<lparr> jd_restart := be16 seg 0 \<rparr>, ready)))
      else Returns (Some (d, ready)))"

definition at_pos :: "nat \<Rightarrow> jpeg_decoder \<Rightarrow> jpeg_decoder" where
  "at_pos p d = d\<lparr> jd_reader := (jd_reader d)\<lparr> jr_pos := p \<rparr> \<rparr>"

lemma pos_at_pos [simp]: "jr_pos (jd_reader (at_pos p d)) = p"
  by (simp add: at_pos_def)

lemma decode_scan_ahead: "decode_scan bs (at_pos p d) = Returns (Some d') \<Longrightarrow> p \<le> jr_pos (jd_reader d')"
  using decode_scan_frame [of "at_pos p d" bs] by (simp add: scan_frame_def ahead_def)

text \<open>The marker loop of \<open>decode_jpeg\<close>; with the decoder, whether a scan has been seen.\<close>

function read_markers :: "bytes \<Rightarrow> bool \<Rightarrow> bool \<Rightarrow> jpeg_decoder \<Rightarrow> (jpeg_decoder \<times> bool) option run" where
  "read_markers bs ready saw d =
     (let p = jr_pos (jd_reader d) in
      if length bs \<le> p + 1 then Returns (Some (d, saw))
      else
        let marker = bs ! (p + 1) in
        if bs ! p \<noteq> 0xFF \<or> marker = 0xFF then read_markers bs ready saw (at_pos (p + 1) d)
        else if marker = 0xD9 then Returns (Some (at_pos (p + 2) d, saw))
        else if marker = 0xD8 \<or> (0xD0 \<le> marker \<and> marker \<le> 0xD7) then read_markers bs ready saw (at_pos (p + 2) d)
        else if length bs < p + 2 + 2 then Returns None
        else
          let len = be16 bs (p + 2) in
          if len < 2 \<or> length bs < p + 2 + len then Returns None
          else
            let rest = drop (p + 4) bs; seg = take (len - 2) rest in
            if marker = 0xDA then
              bind_try (start_scan seg ready d) (\<lambda>d1.
              bind_try (decode_scan bs (at_pos (p + 2 + len) d1)) (\<lambda>d2.
                read_markers bs ready True d2))
            else
              bind_try (read_segment rest marker seg ready d) (\<lambda>(d1, ready').
                read_markers bs ready' saw (at_pos (p + 2 + len) d1)))"
  by pat_completeness auto
termination
  by (relation "measure (\<lambda>(bs, ready, saw, d). length bs - jr_pos (jd_reader d))") (auto dest: decode_scan_ahead)

declare read_markers.simps [simp del]


section \<open>Pixels\<close>

definition dct_cosine :: "(fp \<Rightarrow> fp) \<Rightarrow> nat \<Rightarrow> nat \<Rightarrow> fp" where
  "dct_cosine cosine x u =
     mul32 (if u = 0 then lit32 (70710678 / 100000000) else Num 1)
       (cosine (div32 (mul32 (float_of (int ((2 * x + 1) * u))) (lit32 (314159265358979 / 100000000000000))) (Num 16)))"

definition dot8 :: "(nat \<Rightarrow> fp) \<Rightarrow> (nat \<Rightarrow> fp) \<Rightarrow> fp" where
  "dot8 f g = mul32 (fold (\<lambda>u sum. add32 sum (mul32 (f u) (g u))) [0..<8] (Num 0)) (lit32 (1 / 2))"

text \<open>Both passes; entry \<open>y * 8 + x\<close> of a block is at row \<open>y\<close> and column \<open>x\<close>.\<close>

definition idct :: "(fp \<Rightarrow> fp) \<Rightarrow> fp list \<Rightarrow> fp list" where
  "idct cosine block =
     (let temp = map (\<lambda>n. dot8 (dct_cosine cosine (n mod 8)) (\<lambda>u. block ! (n div 8 * 8 + u))) [0..<64]
      in map (\<lambda>n. dot8 (dct_cosine cosine (n div 8)) (\<lambda>v. temp ! (v * 8 + n mod 8))) [0..<64])"

definition clamp_byte :: "int \<Rightarrow> byte" where
  "clamp_byte v = word_of_int (clamp_int v 0 255)"

definition place_sample :: "fp list \<Rightarrow> nat \<Rightarrow> nat \<Rightarrow> nat \<Rightarrow> nat \<Rightarrow> bytes \<Rightarrow> bytes run" where
  "place_sample block width bx by n plane =
     bind_run (lround_int (block ! n)) (\<lambda>l.
     bind_run (check_int (l + 128)) (\<lambda>s.
       put_index plane ((by * 8 + n div 8) * width + (bx * 8 + n mod 8)) (clamp_byte s)))"

definition reconstruct_block :: "(fp \<Rightarrow> fp) \<Rightarrow> nat list list \<Rightarrow> jpeg_component \<Rightarrow> nat \<Rightarrow> nat \<Rightarrow> bytes \<Rightarrow> bytes run" where
  "reconstruct_block cosine quant cmp by bx plane =
     (let start = (by * jc_blocks_w cmp + bx) * 64 in
      if length (jc_coeffs cmp) < start + 64 then Undefined
      else
        bind_run (at_index quant (jc_quant cmp)) (\<lambda>q.
          let block = map (\<lambda>i. mul32 (float_of (jc_coeffs cmp ! (start + i))) (float_of (int (q ! i)))) [0..<64]
          in fold_run (place_sample (idct cosine block) (jc_plane_width cmp) bx by) [0..<64] plane))"

definition reconstruct_component :: "(fp \<Rightarrow> fp) \<Rightarrow> nat \<Rightarrow> jpeg_decoder \<Rightarrow> jpeg_decoder run" where
  "reconstruct_component cosine c d =
     (let comp = jd_comp d ! c in
      bind_run
        (fold_run (\<lambda>by. fold_run (reconstruct_block cosine (jd_quant d) comp by) [0..<jc_blocks_w comp]) [0..<jc_blocks_h comp]
          (replicate (jc_plane_width comp * jc_plane_height comp) 0))
        (\<lambda>plane. Returns (update_comp c (jc_plane_update (\<lambda>_. plane)) d)))"

definition reconstruct :: "(fp \<Rightarrow> fp) \<Rightarrow> jpeg_decoder \<Rightarrow> jpeg_decoder run" where
  "reconstruct cosine d = fold_run (reconstruct_component cosine) [0..<jd_components d] d"

definition sample :: "jpeg_decoder \<Rightarrow> nat \<Rightarrow> nat \<Rightarrow> nat \<Rightarrow> int run" where
  "sample d c x y =
     (let comp = jd_comp d ! c;
          sx = min (int (x * jc_h comp div jd_max_h d)) (int (jc_plane_width comp) - 1);
          sy = min (int (y * jc_v comp div jd_max_v d)) (int (jc_plane_height comp) - 1);
          i = sy * int (jc_plane_width comp) + sx
      in if i < 0 then Undefined else bind_run (at_index (jc_plane comp) (nat i)) (\<lambda>b. Returns (uint b)))"

text \<open>YCbCr to RGB.\<close>

definition ycc_color :: "int \<Rightarrow> int \<Rightarrow> int \<Rightarrow> color run" where
  "ycc_color luminance cb cr =
     bind_run (lround_int (add32 (float_of luminance) (mul32 (lit32 (1402 / 1000)) (float_of cr)))) (\<lambda>r.
     bind_run (lround_int (sub32 (sub32 (float_of luminance) (mul32 (lit32 (344136 / 1000000)) (float_of cb)))
         (mul32 (lit32 (714136 / 1000000)) (float_of cr)))) (\<lambda>g.
     bind_run (lround_int (add32 (float_of luminance) (mul32 (lit32 (1772 / 1000)) (float_of cb)))) (\<lambda>b.
       Returns (rgba (clamp_byte r) (clamp_byte g) (clamp_byte b) 255))))"

definition jpeg_color :: "jpeg_decoder \<Rightarrow> nat \<Rightarrow> nat \<Rightarrow> color run" where
  "jpeg_color d x y =
     (if jd_components d = 1 then
        bind_run (sample d 0 x y) (\<lambda>g. Returns (rgba (word_of_int g) (word_of_int g) (word_of_int g) 255))
      else
        bind_run (sample d 0 x y) (\<lambda>luminance.
        bind_run (sample d 1 x y) (\<lambda>cb.
        bind_run (sample d 2 x y) (\<lambda>cr.
          ycc_color luminance (cb - 128) (cr - 128)))))"

definition jpeg_image :: "jpeg_decoder \<Rightarrow> image run" where
  "jpeg_image d =
     bind_run
       (fold_run (\<lambda>y. fold_run (\<lambda>x px.
           bind_run (jpeg_color d x y) (\<lambda>c. put_index px (y * jd_width d + x) c)) [0..<jd_width d]) [0..<jd_height d]
         (replicate (jd_width d * jd_height d) new_color))
       (\<lambda>px. Returns \<lparr> img_width = int (jd_width d), img_height = int (jd_height d), img_pixels = px \<rparr>)"

definition is_jpeg :: "bytes \<Rightarrow> bool" where
  "is_jpeg bs \<longleftrightarrow> 2 \<le> length bs \<and> bs ! 0 = 0xFF \<and> bs ! 1 = 0xD8"

definition decode_jpeg :: "(fp \<Rightarrow> fp) \<Rightarrow> bytes \<Rightarrow> image option run" where
  "decode_jpeg cosine bs =
     (if \<not> is_jpeg bs then Returns None
      else
        bind_try (read_markers bs False False (at_pos 2 new_decoder)) (\<lambda>(d, saw).
          if \<not> saw then Returns None
          else bind_run (reconstruct cosine d) (\<lambda>d'. bind_run (jpeg_image d') (\<lambda>i. Returns (Some i)))))"

section \<open>What is decoded is an image\<close>

text \<open>Once there is a frame, the size is not empty.\<close>

definition sized :: "jpeg_decoder \<Rightarrow> bool" where
  "sized d \<longleftrightarrow> 0 < jd_width d \<and> 0 < jd_height d"

lemma sized_simps [simp]:
  "sized (at_pos p d) = sized d" "sized (update_comp c f d) = sized d" "sized (d\<lparr> jd_scan := xs \<rparr>) = sized d"
  "sized (d\<lparr> jd_restart := n \<rparr>) = sized d" "sized (d\<lparr> jd_quant := q \<rparr>) = sized d" "sized (d\<lparr> jd_dc := t \<rparr>) = sized d"
  "sized (d\<lparr> jd_ac := t \<rparr>) = sized d" "sized (d\<lparr> jd_max_h := m, jd_max_v := n \<rparr>) = sized d"
  "sized (d\<lparr> jd_mcus_x := m, jd_mcus_y := n \<rparr>) = sized d"
  by (simp_all add: sized_def at_pos_def update_comp_def)

lemma sized_scan: "scan_frame d d' \<Longrightarrow> sized d' = sized d"
  by (cases d; cases d') (simp add: sized_def scan_frame_def)

lemma read_quant_sized: "gives (\<lambda>d'. sized d' = sized d) (read_quant rest n offset d)"
proof (induction rest n offset d rule: read_quant.induct)
  case (1 rest n offset d)
  show ?case
    by (subst read_quant.simps) (auto intro!: gives_bind gives_weaken [OF 1])
qed

lemma read_tables_sized: "gives (\<lambda>d'. sized d' = sized d) (read_tables seg offset d)"
proof (induction seg offset d rule: read_tables.induct)
  case (1 seg offset d)
  define tc where "tc = unat (seg ! offset) div 16"
  define th where "th = unat (seg ! offset) mod 16"
  define counts where "counts = 0 # map unat (take 16 (drop (offset + 1) seg))"
  define total where "total = sum_list counts"
  define start where "start = offset + 17"
  define vals where "vals = take total (drop start seg)"
  define d1 where "d1 =
    (if tc = 0 then d\<lparr> jd_dc := (jd_dc d)[th := build_huffman (jd_dc d ! th) counts vals] \<rparr>
     else d\<lparr> jd_ac := (jd_ac d)[th := build_huffman (jd_ac d ! th) counts vals] \<rparr>)"
  have "sized d1 = sized d" by (simp add: d1_def)
  moreover have "gives (\<lambda>d'. sized d' = sized d1) (read_tables seg (start + total) d1)"
    if "\<not> length seg \<le> offset" "\<not> (3 < th \<or> length seg < offset + 1 + 16)" "\<not> length seg < start + total"
    unfolding d1_def by (rule 1 [OF that(1) tc_def th_def that(2) counts_def total_def start_def that(3) vals_def])
  ultimately show ?case
    by (subst read_tables.simps, simp only: Let_def tc_def [symmetric] th_def [symmetric] counts_def [symmetric] total_def [symmetric]
        start_def [symmetric] vals_def [symmetric] d1_def [symmetric]) simp
qed

lemma place_components_sized: "sized (fold place_component cs d) = sized d"
  by (induction cs arbitrary: d) (simp_all add: place_component_def)

lemma start_frame_sized: "gives sized (start_frame marker seg d)"
proof -
  have "gives sized (fold_try (frame_component seg) cs d1)" if "sized d1" for cs d1
    by (rule fold_try_invariant [where I = sized]) (use that in \<open>auto simp: frame_component_def Let_def\<close>)
  then show ?thesis
    unfolding start_frame_def Let_def
    by (auto intro!: gives_bind_try [where Q = sized] simp: place_components_sized) (simp_all add: sized_def)
qed

lemma start_scan_sized: "gives (\<lambda>d'. sized d' = sized d \<and> ready) (start_scan seg ready d)"
proof -
  have "gives (\<lambda>d'. sized d' = sized d) (scan_component seg i d1)" if "sized d1 = sized d" for i d1
  proof -
    have "sized (fold (\<lambda>c d. if P c d then (update_comp c f d)\<lparr> jd_scan := g c d \<rparr> else d) cs e) = sized e" for P f g cs e
      by (induction cs arbitrary: e) simp_all
    then show ?thesis using that by (simp add: scan_component_def Let_def)
  qed
  then have "gives (\<lambda>d'. sized d' = sized d) (fold_try (scan_component seg) is (d\<lparr> jd_scan := [] \<rparr>))" for "is"
    by (intro fold_try_invariant) simp_all
  then show ?thesis
    by (auto simp: start_scan_def Let_def intro!: gives_bind_try) (simp_all add: sized_def)
qed


lemma read_segment_sized:
  assumes "ready \<longrightarrow> sized d"
  shows "gives (\<lambda>(d', ready'). (sized d \<longrightarrow> sized d') \<and> (ready' \<longrightarrow> sized d')) (read_segment rest marker seg ready d)"
proof -
  let ?P = "\<lambda>(d', ready'). (sized d \<longrightarrow> sized d') \<and> (ready' \<longrightarrow> sized d')"
  have "gives ?P (bind_try m (\<lambda>d'. Returns (Some (d', ready))))" if "gives (\<lambda>d'. sized d' = sized d) m" for m
    by (rule gives_bind_try [OF that]) (use assms in simp)
  moreover have "gives ?P (bind_try (start_frame marker seg d) (\<lambda>d'. Returns (Some (d', True))))"
    by (rule gives_bind_try [OF start_frame_sized]) simp
  ultimately show ?thesis using assms by (simp add: read_segment_def read_quant_sized read_tables_sized)
qed

lemma read_markers_sized:
  "(ready \<longrightarrow> sized d) \<Longrightarrow> (saw \<longrightarrow> sized d) \<Longrightarrow> gives (\<lambda>(d', saw'). saw' \<longrightarrow> sized d') (read_markers bs ready saw d)"
proof (induction bs ready saw d rule: read_markers.induct)
  case (1 bs ready saw d)
  define p where "p = jr_pos (jd_reader d)"
  define marker where "marker = bs ! (p + 1)"
  define len where "len = be16 bs (p + 2)"
  define rest where "rest = drop (p + 4) bs"
  define seg where "seg = take (len - 2) rest"
  let ?P = "\<lambda>(d', saw'). saw' \<longrightarrow> sized d'"
  let ?segment = "\<not> length bs \<le> p + 1 \<and> \<not> (bs ! p \<noteq> 0xFF \<or> marker = 0xFF) \<and> marker \<noteq> 0xD9 \<and>
    \<not> (marker = 0xD8 \<or> 0xD0 \<le> marker \<and> marker \<le> 0xD7) \<and> \<not> length bs < p + 2 + 2 \<and> \<not> (len < 2 \<or> length bs < p + 2 + len)"
  have skip: "gives ?P (read_markers bs ready saw (at_pos (p + 1) d))"
    if "\<not> length bs \<le> p + 1" "bs ! p \<noteq> 0xFF \<or> marker = 0xFF"
    by (rule 1(1) [OF p_def that(1) marker_def that(2)]) (use 1(5,6) in simp_all)
  have bare: "gives ?P (read_markers bs ready saw (at_pos (p + 2) d))"
    if "\<not> length bs \<le> p + 1" "\<not> (bs ! p \<noteq> 0xFF \<or> marker = 0xFF)" "marker \<noteq> 0xD9"
      "marker = 0xD8 \<or> 0xD0 \<le> marker \<and> marker \<le> 0xD7"
    by (rule 1(2) [OF p_def that(1) marker_def that(2-4)]) (use 1(5,6) in simp_all)
  have scan: "gives ?P (bind_try (start_scan seg ready d) (\<lambda>d1.
      bind_try (decode_scan bs (at_pos (p + 2 + len) d1)) (read_markers bs ready True)))" if c: ?segment "marker = 0xDA"
  proof -
    have "gives ?P (read_markers bs ready True d2)"
      if "start_scan seg ready d = Returns (Some d1)" "decode_scan bs (at_pos (p + 2 + len) d1) = Returns (Some d2)" for d1 d2
    proof (rule 1(3) [OF p_def _ marker_def _ _ _ _ len_def _ rest_def seg_def _ that])
      have "sized d1" using start_scan_sized [of d ready seg] that(1) 1(5) by simp
      then show "ready \<longrightarrow> sized d2" "True \<longrightarrow> sized d2"
        using decode_scan_frame [of "at_pos (p + 2 + len) d1" bs] that(2) by (auto dest: sized_scan)
    qed (use c in auto)
    then show ?thesis by (auto simp: gives_def bind_try_def bind_run_Returns_iff split: option.splits)
  qed
  have segment: "gives ?P (bind_try (read_segment rest marker seg ready d) (\<lambda>(d1, ready').
      read_markers bs ready' saw (at_pos (p + 2 + len) d1)))" if c: ?segment "marker \<noteq> 0xDA"
  proof -
    have "gives ?P (read_markers bs r saw (at_pos (p + 2 + len) d1))"
      if e: "read_segment rest marker seg ready d = Returns (Some (d1, r))" for d1 r
    proof (rule 1(4) [OF p_def _ marker_def _ _ _ _ len_def _ rest_def seg_def _ e refl])
      show "r \<longrightarrow> sized (at_pos (p + 2 + len) d1)" "saw \<longrightarrow> sized (at_pos (p + 2 + len) d1)"
        using read_segment_sized [OF 1(5), of rest marker seg] e 1(6) by simp_all
    qed (use c in auto)
    then show ?thesis by (auto simp: gives_def bind_try_def bind_run_Returns_iff split: option.splits)
  qed
  show ?case
    by (subst read_markers.simps, simp only: Let_def p_def [symmetric] marker_def [symmetric] len_def [symmetric]
        rest_def [symmetric] seg_def [symmetric]) (use skip bare scan segment 1(6) in auto)
qed

lemma put_index_length: "returns_only (\<lambda>ys. length ys = length xs) (put_index xs i v)"
  by (simp add: put_index_def)

lemma jpeg_image_valid: "sized d \<Longrightarrow> returns_only image_valid (jpeg_image d)"
proof -
  let ?I = "\<lambda>px. length px = jd_width d * jd_height d"
  have "returns_only ?I (bind_run m (put_index px i))" if "?I px" for m i px
    by (rule returns_only_bind [where P = "\<lambda>_. True"])
      (use that in \<open>auto intro: returns_only_weaken [OF put_index_length] simp: returns_only_iff put_index_def split: if_splits\<close>)
  then have "returns_only ?I
      (fold_run (\<lambda>y. fold_run (\<lambda>x px. bind_run (jpeg_color d x y) (put_index px (y * jd_width d + x))) [0..<jd_width d])
        [0..<jd_height d] (replicate (jd_width d * jd_height d) new_color))"
    by (intro fold_run_invariant) simp_all
  then show "sized d \<Longrightarrow> returns_only image_valid (jpeg_image d)"
    unfolding jpeg_image_def by (rule returns_only_bind) (simp add: image_valid_def sized_def)
qed

lemma decode_jpeg_valid: "returns_only (\<lambda>i. case i of None \<Rightarrow> True | Some img \<Rightarrow> image_valid img) (decode_jpeg cosine bs)"
proof -
  have r: "returns_only (\<lambda>d'. sized d' = sized d) (reconstruct cosine d)" for d
    unfolding reconstruct_def
    by (rule fold_run_invariant) (auto simp: reconstruct_component_def Let_def returns_only_iff bind_run_Returns_iff)
  have "returns_only (\<lambda>i. case i of None \<Rightarrow> True | Some img \<Rightarrow> image_valid img)
      (bind_run (reconstruct cosine d) (\<lambda>d'. bind_run (jpeg_image d') (\<lambda>i. Returns (Some i))))" if "sized d" for d
    by (rule returns_only_bind [OF r], rule returns_only_bind [OF jpeg_image_valid]) (use that in simp_all)
  moreover have "gives (\<lambda>(d', saw'). saw' \<longrightarrow> sized d') (read_markers bs False False (at_pos 2 new_decoder))"
    by (rule read_markers_sized) simp_all
  ultimately show ?thesis
    by (cases "read_markers bs False False (at_pos 2 new_decoder)")
      (auto simp: decode_jpeg_def bind_try_def split: option.split)
qed

declare bind_run_cong [fundef_cong del]

end
