(* ===== verification/Png_Codec.thy ===== *)
theory Png_Codec
  imports Png
begin

text \<open>
  What the PNG decoder promises.  The abstract side is an encoder written from the PNG and
  DEFLATE specifications: it filters each row with the filter chosen for it, stores the result in
  uncompressed DEFLATE blocks and wraps it in chunks.  The decoder inverts it, whatever the
  filters are and whatever the check sums say.
\<close>

section \<open>Chunks\<close>

definition u32_bytes :: "32 word \<Rightarrow> bytes" where
  "u32_bytes w = [ucast (drop_bit 24 w), ucast (drop_bit 16 w), ucast (drop_bit 8 w), ucast w]"

definition png_chunk :: "(bytes \<Rightarrow> 32 word) \<Rightarrow> bytes \<Rightarrow> bytes \<Rightarrow> bytes" where
  "png_chunk crc tag data = u32_bytes (of_nat (length data)) @ tag @ data @ u32_bytes (crc (tag @ data))"

lemma length_u32_bytes [simp]: "length (u32_bytes w) = 4"
  by (simp add: u32_bytes_def)

lemma read_u32_bytes [simp]: "read_u32 (u32_bytes w @ rest) = w"
proof (rule bit_word_eqI)
  fix n
  assume "n < LENGTH(32)"
  then have n: "n < 32" by simp
  have "n < 8 \<or> 8 \<le> n \<and> n < 16 \<or> 16 \<le> n \<and> n < 24 \<or> 24 \<le> n \<and> n < 32" using n by linarith
  then show "bit (read_u32 (u32_bytes w @ rest)) n = bit w n"
    by (elim disjE) (auto simp: read_u32_def u32_bytes_def bit_or_iff bit_push_bit_iff bit_ucast_iff bit_drop_bit_eq
        dest: bit_imp_le_length)
qed

lemma chunk_loop_chunk:
  assumes "length tag = 4" and "length data < 2 ^ 32"
  shows "chunk_loop (png_chunk crc tag data @ rest) s =
    (if tag = tag_IEND then Some s else chunk_loop rest (apply_chunk tag data s))"
proof -
  let ?r = "png_chunk crc tag data @ rest"
  have r: "?r = u32_bytes (of_nat (length data)) @ tag @ data @ u32_bytes (crc (tag @ data)) @ rest"
    by (simp add: png_chunk_def)
  have "unat (read_u32 ?r) = length data"
    unfolding r using assms(2) by (simp add: unat_of_nat take_bit_nat_eq_self)
  moreover have "take 4 (drop 4 ?r) = tag" "take (length data) (drop 8 ?r) = data" "drop (8 + length data + 4) ?r = rest"
    "8 + length data + 4 \<le> length ?r"
    unfolding r using assms(1) by simp_all
  ultimately show ?thesis by (subst chunk_loop.simps) (simp add: Let_def)
qed

section \<open>Stored blocks\<close>

definition u16_bytes :: "nat \<Rightarrow> bytes" where
  "u16_bytes n = [of_nat (n mod 256), of_nat (n div 256)]"

definition stored_chunk :: "bool \<Rightarrow> bytes \<Rightarrow> bytes" where
  "stored_chunk final data = (if final then 1 else 0) # u16_bytes (length data) @ u16_bytes (65535 - length data) @ data"

function deflate_stored :: "bytes \<Rightarrow> bytes" where
  "deflate_stored data =
     (if length data \<le> 65535 then stored_chunk True data
      else stored_chunk False (take 65535 data) @ deflate_stored (drop 65535 data))"
  by pat_completeness auto
termination by (relation "measure length") auto

declare deflate_stored.simps [simp del]

lemma u16_value:
  assumes "n \<le> 65535"
  shows "unat (of_nat (n mod 256) :: byte) + 256 * unat (of_nat (n div 256) :: byte) = n"
proof -
  have "n div 256 < 256" "n mod 256 < 256" using assms by simp_all
  then show ?thesis by (simp add: unat_of_nat_byte)
qed

lemma complement_16: "n \<le> 65535 \<Longrightarrow> n XOR 65535 = 65535 - n" for n :: nat
proof -
  assume n: "n \<le> 65535"
  have m: "(65535 :: nat) = mask 16" by (simp add: mask_eq_exp_minus_1)
  have "take_bit 16 n = n" using n by (simp add: take_bit_nat_eq_self)
  have "(n XOR mask 16) + n = mask 16"
  proof -
    have d: "(n XOR mask 16) AND n = 0"
      using \<open>take_bit 16 n = n\<close> by (intro bit_eqI) (auto simp: bit_and_iff bit_xor_iff bit_mask_iff bit_take_bit_iff
          dest: arg_cong [of _ _ "\<lambda>x. bit x k" for k])
    have "(n XOR mask 16) + n = (n XOR mask 16) OR n" using d by (rule disjunctive_add_eq_or)
    also have "\<dots> = mask 16"
    proof (rule bit_eqI)
      fix k
      have "bit n k \<Longrightarrow> k < 16" using \<open>take_bit 16 n = n\<close> by (metis bit_take_bit_iff)
      then show "bit ((n XOR mask 16) OR n) k = bit (mask 16 :: nat) k"
        by (auto simp: bit_or_iff bit_xor_iff bit_mask_iff)
    qed
    finally show ?thesis .
  qed
  then show "n XOR 65535 = 65535 - n" unfolding m by linarith
qed

lemma stored_block_chunk:
  assumes "length data \<le> 65535" and "inf_rest s = u16_bytes (length data) @ u16_bytes (65535 - length data) @ data @ rest"
  shows "stored_block s = (0, s\<lparr> inf_buffer := 0, inf_count := 0, inf_rest := rest, inf_out := inf_out s @ data \<rparr>)"
proof -
  let ?n = "length data"
  let ?v = "\<lambda>n. unat (of_nat (n mod 256) :: byte) + 256 * unat (of_nat (n div 256) :: byte)"
  have r: "inf_rest s ! 0 = of_nat (?n mod 256)" "inf_rest s ! 1 = of_nat (?n div 256)"
    "inf_rest s ! 2 = of_nat ((65535 - ?n) mod 256)" "inf_rest s ! 3 = of_nat ((65535 - ?n) div 256)"
    "drop 4 (inf_rest s) = data @ rest" "4 \<le> length (inf_rest s)"
    using assms(2) by (simp_all add: u16_bytes_def)
  have len: "?v ?n = ?n" "?v (65535 - ?n) = 65535 - ?n" using assms(1) by (simp_all only: u16_value diff_le_self)
  show ?thesis
    unfolding stored_block_def Let_def r(1-5) len complement_16 [OF assms(1)] using r(6) by simp
qed

lemma bits_loop_enough: "need \<le> inf_count s \<Longrightarrow> bits_loop need v rs s = (Some v, s)"
  by (cases rs) simp_all

lemma bits_fresh:
  assumes "inf_rest s = b # r" and "inf_buffer s = 0" and "inf_count s = 0" and "0 < need" and "need \<le> 8"
  shows "bits s need = (int (unat (ucast b AND mask need :: 64 word)),
    s\<lparr> inf_rest := r, inf_buffer := drop_bit need (ucast b), inf_count := 8 - need \<rparr>)"
  using assms by (simp add: bits_def bits_loop_enough)

lemma bits_buffered:
  assumes "need \<le> inf_count s"
  shows "bits s need = (int (unat (inf_buffer s AND mask need)),
    s\<lparr> inf_buffer := drop_bit need (inf_buffer s), inf_count := inf_count s - need \<rparr>)"
  using assms by (simp add: bits_def bits_loop_enough)

lemma block_round_stored:
  assumes "inf_rest s = stored_chunk final data @ rest" and "inf_buffer s = 0" and "inf_count s = 0"
    and "length data \<le> 65535"
  shows "block_round tables s =
    (0, of_bool final, tables, s\<lparr> inf_rest := rest, inf_buffer := 0, inf_count := 0, inf_out := inf_out s @ data \<rparr>)"
proof -
  let ?r = "u16_bytes (length data) @ u16_bytes (65535 - length data) @ data @ rest"
  let ?b = "(if final then 1 else 0) :: byte"
  let ?s1 = "s\<lparr> inf_rest := ?r, inf_buffer := 0, inf_count := 7 \<rparr>"
  have "inf_rest s = ?b # ?r" using assms(1) by (simp add: stored_chunk_def)
  from bits_fresh [OF this assms(2,3), of "Suc 0"]
  have b1: "bits s (Suc 0) = (of_bool final, ?s1)" by (cases final) (simp_all add: mask_Suc_0)
  have b2: "bits ?s1 2 = (0, ?s1\<lparr> inf_buffer := 0, inf_count := 5 \<rparr>)"
    using bits_buffered [of 2 ?s1] by simp
  show ?thesis
    using stored_block_chunk [OF assms(4), of "?s1\<lparr> inf_buffer := 0, inf_count := 5 \<rparr>" rest]
    by (simp add: block_round_def b1 b2)
qed

lemma block_loop_stored:
  "inf_rest s = deflate_stored data @ rest \<Longrightarrow> inf_buffer s = 0 \<Longrightarrow> inf_count s = 0 \<Longrightarrow>
    block_loop tables s = (0, s\<lparr> inf_rest := rest, inf_buffer := 0, inf_count := 0, inf_out := inf_out s @ data \<rparr>)"
proof (induction data arbitrary: s rule: deflate_stored.induct)
  case (1 data)
  show ?case
  proof (cases "length data \<le> 65535")
    case True
    then have "inf_rest s = stored_chunk True data @ rest" using 1(2) by (simp add: deflate_stored.simps [of data])
    from block_round_stored [OF this 1(3,4) True, of tables] show ?thesis
      by (subst block_loop.simps) simp
  next
    case False
    let ?a = "take 65535 data" and ?d = "drop 65535 data"
    have "inf_rest s = stored_chunk False ?a @ deflate_stored ?d @ rest"
      using False 1(2) by (simp add: deflate_stored.simps [of data])
    from block_round_stored [OF this 1(3,4), of tables]
    have r: "block_round tables s = (0, 0, tables, s\<lparr> inf_rest := deflate_stored ?d @ rest, inf_buffer := 0,
        inf_count := 0, inf_out := inf_out s @ ?a \<rparr>)" by simp
    show ?thesis
      using 1(1) [OF False, of "s\<lparr> inf_rest := deflate_stored ?d @ rest, inf_buffer := 0,
        inf_count := 0, inf_out := inf_out s @ ?a \<rparr>"]
      by (subst block_loop.simps) (simp add: r)
  qed
qed

lemma inflate_stored [simp]: "inflate_codes (deflate_stored data @ rest) = (0, data)"
  by (simp add: inflate_codes_def block_loop_stored)

section \<open>Filters\<close>

text \<open>The filters as the PNG specification has them: the Paeth predictor is the first of the
  three neighbours that is nearest to \<open>a + b - c\<close>, and the bytes before a row are zero.\<close>

definition nearest :: "int \<Rightarrow> int list \<Rightarrow> int" where
  "nearest p xs = hd (filter (\<lambda>x. \<forall>y \<in> set xs. \<bar>p - x\<bar> \<le> \<bar>p - y\<bar>) xs)"

definition png_filter :: "nat \<Rightarrow> int \<Rightarrow> int \<Rightarrow> int \<Rightarrow> int" where
  "png_filter ft a b c = [0, a, b, (a + b) div 2, nearest (a + b - c) [a, b, c]] ! ft"

definition byte_before :: "nat \<Rightarrow> bytes \<Rightarrow> nat \<Rightarrow> int" where
  "byte_before bpp row i = (if i < bpp then 0 else uint (row ! (i - bpp)))"

definition filter_row :: "nat \<Rightarrow> nat \<Rightarrow> bytes \<Rightarrow> bytes \<Rightarrow> bytes" where
  "filter_row ft bpp previous row =
     map (\<lambda>i. of_int (uint (row ! i) - png_filter ft (byte_before bpp row i) (uint (previous ! i)) (byte_before bpp previous i)))
       [0..<length row]"

lemma paeth_nearest: "paeth a b c = nearest (a + b - c) [a, b, c]"
  by (simp add: paeth_def nearest_def Let_def)

lemma predictor_png_filter: "ft < 5 \<Longrightarrow> predictor ft a b c = Some (png_filter ft a b c)"
  by (cases "ft = 0"; cases "ft = 1"; cases "ft = 2"; cases "ft = 3"; cases "ft = 4")
    (auto simp: predictor_def png_filter_def paeth_nearest)

lemma length_filter_row [simp]: "length (filter_row ft bpp previous row) = length row"
  by (simp add: filter_row_def)

lemma left_of_take: "0 < bpp \<Longrightarrow> left_of bpp (take i row) i = byte_before bpp row i"
  by (simp add: left_of_def byte_before_def)

lemma left_of_before: "left_of bpp previous i = byte_before bpp previous i"
  by (simp add: left_of_def byte_before_def)

lemma unfilter_filter_from:
  assumes "ft < 5" and "0 < bpp"
  shows "k \<le> length row \<Longrightarrow>
    unfilter_row ft bpp previous (take k row) (drop k (filter_row ft bpp previous row)) = Some row"
proof (induction "length row - k" arbitrary: k)
  case 0
  then show ?case by simp
next
  case (Suc n)
  then have k: "k < length row" by simp
  then have d: "drop k (filter_row ft bpp previous row) = filter_row ft bpp previous row ! k # drop (Suc k) (filter_row ft bpp previous row)"
    by (simp add: Cons_nth_drop_Suc)
  let ?p = "png_filter ft (byte_before bpp row k) (uint (previous ! k)) (byte_before bpp previous k)"
  have f: "filter_row ft bpp previous row ! k = of_int (uint (row ! k) - ?p)" using k by (simp add: filter_row_def)
  have "of_int (uint (of_int (uint (row ! k) - ?p) :: byte) + ?p) = row ! k" by simp
  moreover have "take k row @ [row ! k] = take (Suc k) row" using k by (simp add: take_Suc_conv_app_nth)
  moreover have "left_of bpp (take k row) k = byte_before bpp row k" using assms(2) by (rule left_of_take)
  ultimately show ?case
    using Suc.hyps(1) [of "Suc k"] Suc.hyps(2) k
    unfolding d f by (simp add: Let_def left_of_before predictor_png_filter [OF assms(1)] min_absorb2)
qed

lemma unfilter_filter:
  "ft < 5 \<Longrightarrow> 0 < bpp \<Longrightarrow> unfilter_row ft bpp previous [] (filter_row ft bpp previous row) = Some row"
  using unfilter_filter_from [of ft bpp 0] by simp

text \<open>A row with the filter chosen for it.\<close>

fun filter_rows :: "nat \<Rightarrow> bytes \<Rightarrow> (nat \<times> bytes) list \<Rightarrow> bytes" where
  "filter_rows bpp previous [] = []"
| "filter_rows bpp previous ((ft, row) # rows) =
     of_nat ft # filter_row ft bpp previous row @ filter_rows bpp row rows"

lemma length_filter_rows:
  "list_all (\<lambda>(ft, row). length row = stride) rows \<Longrightarrow> length (filter_rows bpp previous rows) = length rows * (stride + 1)"
  by (induction bpp previous rows rule: filter_rows.induct) auto

lemma overwrite_next:
  assumes "length placed = at" and "length row = stride"
  shows "overwrite at row (placed @ replicate (stride + n) 0) = (placed @ row) @ replicate n 0"
  using assms by (simp add: overwrite_def drop_replicate)

lemma unfilter_rows_filter:
  assumes bpp: "0 < bpp" and g: "pg_stride g = stride" "pg_y0 g = 0" "pg_x_step g = 1" "pg_y_step g = 1"
  shows "list_all (\<lambda>(ft, row). ft < 5 \<and> length row = stride) rows \<Longrightarrow> length placed = py * stride \<Longrightarrow>
    unfilter_rows (length rows) g py bpp bytes_per_pixel stride previous (filter_rows bpp previous rows @ rest)
      (placed @ replicate (length rows * stride) 0) = Some (rest, placed @ concat (map snd rows))"
proof (induction rows arbitrary: previous py placed)
  case Nil
  then show ?case by simp
next
  case (Cons r rows)
  obtain ft row where r: "r = (ft, row)" by (cases r)
  have ft: "ft < 5" "length row = stride" using Cons.prems(1) r by simp_all
  then have "unat (of_nat ft :: byte) = ft" by (simp add: unat_of_nat_byte)
  then have raw: "unfilter_row (unat ((filter_rows bpp previous (r # rows) @ rest) ! 0)) bpp previous []
      (take stride (drop 1 (filter_rows bpp previous (r # rows) @ rest))) = Some row"
    using ft unfilter_filter [OF _ bpp, of ft previous row] r by simp
  have dr: "drop (1 + stride) (filter_rows bpp previous (r # rows) @ rest) = filter_rows bpp row rows @ rest"
    using ft r by simp
  have img: "place_row (py * stride) (pg_width g) (pg_x0 g) 1 bytes_per_pixel row
      (placed @ replicate (length (r # rows) * stride) 0) = (placed @ row) @ replicate (length rows * stride) 0"
    using overwrite_next [OF Cons.prems(2) ft(2), of "length rows * stride"] by (simp add: place_row_def)
  have "unfilter_rows (length rows) g (py + 1) bpp bytes_per_pixel stride row (filter_rows bpp row rows @ rest)
      ((placed @ row) @ replicate (length rows * stride) 0) = Some (rest, (placed @ row) @ concat (map snd rows))"
    by (rule Cons.IH) (use Cons.prems ft in auto)
  then show ?case
    using raw dr img g r by (simp del: filter_rows.simps)
qed

section \<open>Whole images\<close>

definition color_bytes :: "color \<Rightarrow> bytes" where
  "color_bytes c = [red c, green c, blue c, alpha c]"

definition row_bytes :: "color list \<Rightarrow> bytes" where
  "row_bytes cs = concat (map color_bytes cs)"

text \<open>An 8-bit RGBA image, each row with the filter to use for it.\<close>

definition image_data :: "nat \<Rightarrow> (nat \<times> color list) list \<Rightarrow> bytes" where
  "image_data w rows = filter_rows 4 (replicate (4 * w) 0) (map (\<lambda>(ft, cs). (ft, row_bytes cs)) rows)"

definition image_header :: "nat \<Rightarrow> nat \<Rightarrow> bytes" where
  "image_header w h = u32_bytes (of_nat w) @ u32_bytes (of_nat h) @ [8, 6, 0, 0, 0]"

definition encode_png :: "(bytes \<Rightarrow> 32 word) \<Rightarrow> (bytes \<Rightarrow> 32 word) \<Rightarrow> nat \<Rightarrow> (nat \<times> color list) list \<Rightarrow> bytes" where
  "encode_png crc adler w rows =
     png_signature @
     png_chunk crc tag_IHDR (image_header w (length rows)) @
     png_chunk crc tag_IDAT ([120, 1] @ deflate_stored (image_data w rows) @ u32_bytes (adler (image_data w rows))) @
     png_chunk crc tag_IEND []"

lemma length_deflate_stored: "length (deflate_stored data) \<le> 2 * length data + 5"
proof (induction data rule: deflate_stored.induct)
  case (1 data)
  show ?case
  proof (cases "length data \<le> 65535")
    case True
    then show ?thesis by (simp add: deflate_stored.simps [of data] stored_chunk_def u16_bytes_def)
  next
    case False
    then have "length (deflate_stored (drop 65535 data)) \<le> 2 * (length data - 65535) + 5" using 1 by simp
    then show ?thesis using False
      by (simp add: deflate_stored.simps [of data] stored_chunk_def u16_bytes_def)
  qed
qed

lemma length_row_bytes [simp]: "length (row_bytes cs) = 4 * length cs"
  by (induction cs) (simp_all add: row_bytes_def color_bytes_def)

lemma nth_concat_uniform:
  "list_all (\<lambda>x. length x = n) xs \<Longrightarrow> i < length xs \<Longrightarrow> j < n \<Longrightarrow> concat xs ! (i * n + j) = xs ! i ! j"
proof (induction xs arbitrary: i)
  case Nil
  then show ?case by simp
next
  case (Cons x xs)
  then show ?case by (cases i) (simp_all add: nth_append ac_simps)
qed

lemma row_bytes_nth: "x < length cs \<Longrightarrow> c < 4 \<Longrightarrow> row_bytes cs ! (x * 4 + c) = color_bytes (cs ! x) ! c"
  unfolding row_bytes_def
  by (subst nth_concat_uniform [of 4]) (simp_all add: list_all_length color_bytes_def)

lemma those_map_Some: "those (map Some xs) = Some xs"
  by (induction xs) simp_all

lemma sint_of_nat_32: "n < 2 ^ 31 \<Longrightarrow> sint (of_nat n :: 32 word) = int n"
  by (simp add: signed_of_nat signed_take_bit_int_eq_self)

lemma sample_rgba:
  assumes rows: "list_all (\<lambda>cs. length cs = w) rows" and "y < length rows" and "x < w" and "c < 4"
  shows "sample 8 32 (4 * w) (concat (map row_bytes rows)) x y c = color_bytes (rows ! y ! x) ! c"
proof -
  have len: "length (rows ! y) = w" using rows assms(2) by (simp add: list_all_length)
  have j: "x * 4 + c < 4 * w" using assms(3,4) by simp
  have idx: "(y * (4 * w) * 8 + x * 32 + c * 8) div 8 = y * (4 * w) + (x * 4 + c)" by simp
  have "sample 8 32 (4 * w) (concat (map row_bytes rows)) x y c = concat (map row_bytes rows) ! (y * (4 * w) + (x * 4 + c))"
    unfolding sample_def Let_def idx by simp
  moreover have "concat (map row_bytes rows) ! (y * (4 * w) + (x * 4 + c)) = map row_bytes rows ! y ! (x * 4 + c)"
    by (rule nth_concat_uniform) (use rows assms(2) j in \<open>auto simp: list_all_length\<close>)
  ultimately show ?thesis
    using assms len row_bytes_nth [of x "rows ! y" c] by simp
qed

lemma sampled_pixels:
  assumes "list_all (\<lambda>cs. length cs = w) rows"
  shows "concat (map (\<lambda>y. map (\<lambda>x. pixel_color 6 pal pala (sample 8 32 (4 * w) (concat (map row_bytes rows)) x y)) [0..<w])
      [0..<length rows]) = map Some (concat rows)"
proof -
  have "map (\<lambda>x. pixel_color 6 pal pala (sample 8 32 (4 * w) (concat (map row_bytes rows)) x y)) [0..<w] =
      map Some (rows ! y)" if y: "y < length rows" for y
  proof (rule nth_equalityI)
    show "length (map (\<lambda>x. pixel_color 6 pal pala (sample 8 32 (4 * w) (concat (map row_bytes rows)) x y)) [0..<w]) =
        length (map Some (rows ! y))" using assms y by (simp add: list_all_length)
    fix x
    assume "x < length (map (\<lambda>x. pixel_color 6 pal pala (sample 8 32 (4 * w) (concat (map row_bytes rows)) x y)) [0..<w])"
    then have x: "x < w" by simp
    moreover have "x < length (rows ! y)" using x assms y by (simp add: list_all_length)
    ultimately show "map (\<lambda>x. pixel_color 6 pal pala (sample 8 32 (4 * w) (concat (map row_bytes rows)) x y)) [0..<w] ! x =
        map Some (rows ! y) ! x"
      using sample_rgba [OF assms y x] by (simp add: pixel_color_def color_bytes_def rgba_def numeral_nat)
  qed
  then have "map (\<lambda>y. map (\<lambda>x. pixel_color 6 pal pala (sample 8 32 (4 * w) (concat (map row_bytes rows)) x y)) [0..<w])
      [0..<length rows] = map (\<lambda>y. map Some (rows ! y)) [0..<length rows]" by simp
  also have "\<dots> = map (map Some) rows" by (rule nth_equalityI) simp_all
  finally show ?thesis by (simp only: map_concat)
qed

lemma build_image_rows:
  assumes rows: "list_all (\<lambda>(ft, cs). ft < 5 \<and> length cs = w) rows" and "rows \<noteq> []" and "0 < w" and "w < 2 ^ 26"
    and s: "p_width s = int w" "p_height s = int (length rows)" "p_depth s = 8" "p_color s = 6" "p_interlace s = 0"
  shows "build_image s 4 (image_data w rows) =
    Decoded \<lparr> img_width = int w, img_height = int (length rows), img_pixels = concat (map snd rows) \<rparr>"
proof -
  let ?rows = "map (\<lambda>(ft, cs). (ft, row_bytes cs)) rows"
  have stride: "nat ((int w * 32 + 7) div 8) = 4 * w" "(w * 32 + 7) div 8 = 4 * w" by simp_all
  have fr: "list_all (\<lambda>(ft, row). ft < 5 \<and> length row = 4 * w) ?rows"
    using rows by (induction rows) auto
  then have len: "length (image_data w rows) = length rows * (4 * w + 1)"
    unfolding image_data_def by (subst length_filter_rows [where stride = "4 * w"]) (auto simp: list_all_iff)
  define g where "g = \<lparr> pg_stride = 4 * w, pg_width = w, pg_x0 = 0, pg_y0 = 0, pg_x_step = 1, pg_y_step = 1 \<rparr>"
  have e: "concat (map snd ?rows) = concat (map row_bytes (map snd rows))" by (induction rows) auto
  have "unfilter_rows (length ?rows) g 0 4 4 (4 * w) (replicate (4 * w) 0) (filter_rows 4 (replicate (4 * w) 0) ?rows @ [])
      ([] @ replicate (length ?rows * (4 * w)) 0) = Some ([], [] @ concat (map snd ?rows))"
    by (rule unfilter_rows_filter) (use fr in \<open>simp_all add: g_def\<close>)
  note this [unfolded e]
  then have u: "unfilter_pass 32 (4 * w) (int w) (int (length rows)) 0 0 (Suc 0) (Suc 0)
      (image_data w rows, replicate (length rows * (4 * w)) 0) = Some ([], concat (map row_bytes (map snd rows)))"
    using assms(2,3) len by (simp add: unfilter_pass_def stride g_def image_data_def)
  have "list_all (\<lambda>cs. length cs = w) (map snd rows)" using rows by (auto simp: list_all_iff)
  note px = sampled_pixels [OF this, of "p_palette s" "p_alpha s", unfolded length_map map_map]
  show ?thesis
    using assms(4) by (simp add: build_image_def s stride int_max_def u px those_map_Some Let_def)
qed

lemma decode_encoded:
  assumes rows: "list_all (\<lambda>(ft, cs). ft < 5 \<and> length cs = w) rows" "rows \<noteq> []" "0 < w" "w < 2 ^ 26"
    and size: "length rows * (4 * w + 1) \<le> 2 ^ 30"
  shows "decode_png (encode_png crc adler w rows) =
    Decoded \<lparr> img_width = int w, img_height = int (length rows), img_pixels = concat (map snd rows) \<rparr>"
proof -
  let ?data = "image_data w rows"
  let ?z = "[120, 1] @ deflate_stored ?data @ u32_bytes (adler ?data)"
  have "list_all (\<lambda>(ft, row). length row = 4 * w) (map (\<lambda>(ft, cs). (ft, row_bytes cs)) rows)"
    using rows(1) by (auto simp: list_all_iff)
  then have "length ?data = length rows * (4 * w + 1)"
    unfolding image_data_def by (subst length_filter_rows [where stride = "4 * w"]) simp_all
  then have z: "length ?z < 2 ^ 32" using length_deflate_stored [of ?data] size by simp
  have "length rows \<le> length rows * (4 * w + 1)" by simp
  then have "length rows \<le> 2 ^ 30" using size by (rule le_trans)
  then have h: "length rows < 2 ^ 31" by simp
  let ?h = "image_header w (length rows)"
  have sig: "is_png (encode_png crc adler w rows)"
    "drop 8 (encode_png crc adler w rows) = png_chunk crc tag_IHDR ?h @ png_chunk crc tag_IDAT ?z @ png_chunk crc tag_IEND [] @ []"
    by (simp_all add: is_png_def encode_png_def png_signature_def)
  have hl: "length ?h = 13" by (simp add: image_header_def)
  have d4: "drop 4 (u32_bytes a @ r) = r" for a r by simp
  have tags: "length tag_IHDR = 4" "length tag_IDAT = 4" "length tag_IEND = 4" "tag_IHDR \<noteq> tag_IEND" "tag_IDAT \<noteq> tag_IEND"
    "tag_IDAT \<noteq> tag_IHDR" "tag_IDAT \<noteq> tag_PLTE" "tag_IDAT \<noteq> tag_tRNS"
    by (simp_all add: tag_IHDR_def tag_IDAT_def tag_IEND_def tag_PLTE_def tag_tRNS_def)
  let ?s0 = "apply_chunk tag_IHDR ?h new_png"
  have s0: "p_width ?s0 = int w" "p_height ?s0 = int (length rows)" "p_depth ?s0 = 8" "p_color ?s0 = 6" "p_interlace ?s0 = 0"
    "p_idat ?s0 = []"
    using rows(4) h
    by (simp_all add: apply_chunk_def hl, simp_all add: image_header_def sint_of_nat_32 nth_append d4 new_png_def)
  let ?s = "apply_chunk tag_IDAT ?z ?s0"
  have s: "p_width ?s = int w" "p_height ?s = int (length rows)" "p_depth ?s = 8" "p_color ?s = 6" "p_interlace ?s = 0"
    "p_idat ?s = ?z"
    using tags s0 by (simp_all add: apply_chunk_def [of tag_IDAT])
  have "chunk_loop (drop 8 (encode_png crc adler w rows)) new_png = Some ?s"
    unfolding sig(2) using tags hl z chunk_loop_chunk [OF tags(3), of "[]" crc "[]"] by (simp add: chunk_loop_chunk)
  moreover have "header_ok ?s" using s rows(2,3) by (simp add: header_ok_def)
  moreover have "channels_of (p_color ?s) = Some 4" unfolding s(4) by (simp add: channels_of_def)
  moreover have "inflate_idat (p_idat ?s) = Some ?data" by (simp only: s(6)) (simp add: inflate_idat_def)
  moreover have "build_image ?s 4 ?data = Decoded \<lparr> img_width = int w, img_height = int (length rows), img_pixels = concat (map snd rows) \<rparr>"
    by (rule build_image_rows [OF rows s(1-5)])
  ultimately show ?thesis using sig(1) by (simp add: decode_png_def)
qed

text \<open>C15: The PNG decoder inverts a reference encoder.  For every 8-bit RGBA image (width below
  2^26, encoded data up to 2^30 bytes), every choice of one of the five filters per row and whatever
  the CRC and Adler-32 fields hold, decoding the encoded file yields exactly the image.\<close>

theorem png_roundtrip:
  assumes "list_all (\<lambda>(ft, cs). ft < 5 \<and> length cs = w) rows" and "rows \<noteq> []" and "0 < w" and "w < 2 ^ 26"
    and "length rows * (4 * w + 1) \<le> 2 ^ 30"
  shows "decode_png (encode_png crc adler w rows) =
    Decoded \<lparr> img_width = int w, img_height = int (length rows), img_pixels = concat (map snd rows) \<rparr>"
  by (rule decode_encoded [OF assms])

lemma png_roundtrip_witness:
  "decode_png (encode_png crc32 (\<lambda>_. 0) 2 [(4, [rgba 1 2 3 4, rgba 5 6 7 8]), (3, [rgba 9 9 9 9, rgba 0 0 0 255])]) =
    Decoded \<lparr> img_width = 2, img_height = 2, img_pixels = [rgba 1 2 3 4, rgba 5 6 7 8, rgba 9 9 9 9, rgba 0 0 0 255] \<rparr>"
  using png_roundtrip [of 2 "[(4, [rgba 1 2 3 4, rgba 5 6 7 8]), (3, [rgba 9 9 9 9, rgba 0 0 0 255])]" crc32 "\<lambda>_. 0"]
  by simp

lemma those_length: "those xs = Some ys \<Longrightarrow> length ys = length xs"
  by (induction xs arbitrary: ys) (auto split: option.splits)

lemma length_pixel_grid: "length (concat (map (\<lambda>y. map (f y) [0..<w]) [0..<h])) = h * w"
  by (induction h) simp_all

lemma build_image_valid:
  assumes "header_ok s" and "build_image s channels raw = Decoded i"
  shows "image_valid i \<and> img_width i = p_width s \<and> img_height i = p_height s"
proof -
  have pos: "0 < p_width s" "0 < p_height s" using assms(1) by (simp_all add: header_ok_def)
  obtain pixels f where "those (concat (map (\<lambda>y. map (f y) [0..<nat (p_width s)]) [0..<nat (p_height s)])) = Some pixels"
    and i: "i = \<lparr> img_width = p_width s, img_height = p_height s, img_pixels = pixels \<rparr>"
    using assms(2) by (auto simp: build_image_def Let_def split: if_splits option.splits)
  then have "length pixels = nat (p_height s) * nat (p_width s)"
    using those_length length_pixel_grid by metis
  then show ?thesis using i pos by (simp add: image_valid_def ac_simps)
qed

text \<open>Whatever the input bytes are, an image \<open>decode_png\<close> returns is valid: positive
  dimensions and exactly \<open>width * height\<close> pixels, so that \<open>Image::pixel\<close> never reads outside.\<close>

theorem decode_png_valid:
  "case decode_png bs of Decoded i \<Rightarrow> image_valid i | _ \<Rightarrow> True"
  using build_image_valid by (auto simp: decode_png_def split: option.splits outcome.split if_splits)

end
