(* ===== verification/Url.thy ===== *)
theory Url
  imports Prelude
begin

text \<open>
  \<open>src/rendering/url.hpp\<close> and \<open>url.cpp\<close>: the \<open>Url\<close> class.  \<open>parse_url\<close> is
  \<open>Url::parse\<close> with \<open>parse_components\<close>; \<open>resolve\<close> is \<open>Url::resolve\<close>.  Parsing can throw
  (\<open>substr\<close> past the end), so it returns a \<^typ>\<open>'a res\<close>; the loop that removes
  \<open>/../\<close> can run forever, so resolving returns an option whose \<^term>\<open>None\<close> is
  "does not return".
\<close>

section \<open>Definitions\<close>

record url =
  serialized :: string
  scheme :: string
  authority :: string
  path :: string
  fragment :: string

definition empty_url :: url where
  "empty_url = \<lparr>serialized = [], scheme = [], authority = [], path = [], fragment = []\<rparr>"

definition has_fragment :: "url \<Rightarrow> bool" where
  "has_fragment u \<longleftrightarrow> fragment u \<noteq> []"

definition is_absolute :: "url \<Rightarrow> bool" where
  "is_absolute u \<longleftrightarrow> scheme u \<noteq> []"

definition is_valid :: "url \<Rightarrow> bool" where
  "is_valid u \<longleftrightarrow> serialized u \<noteq> []"

definition parse_url :: "string \<Rightarrow> url res" where
  "parse_url s =
    (let hash = find_idx ((=) CHR ''#'') s;
         frag = (case hash of Some i \<Rightarrow> drop (Suc i) s | None \<Rightarrow> []);
         without_fragment = take_opt hash s
     in case find_sub ''://'' s of
          None \<Rightarrow> Inr \<lparr>serialized = s, scheme = [], authority = [],
                       path = without_fragment, fragment = frag\<rparr>
        | Some scheme_end \<Rightarrow>
            let authority_start = scheme_end + 3 in
            (case find_idx_from ((=) CHR ''/'') without_fragment authority_start of
               None \<Rightarrow> bind_res (substr without_fragment authority_start)
                 (\<lambda>a. Inr \<lparr>serialized = s, scheme = take scheme_end s, authority = a,
                           path = ''/'', fragment = frag\<rparr>)
             | Some path_start \<Rightarrow>
                 Inr \<lparr>serialized = s, scheme = take scheme_end s,
                      authority = take (path_start - authority_start)
                                    (drop authority_start without_fragment),
                      path = drop path_start without_fragment, fragment = frag\<rparr>))"

text \<open>The test of \<open>resolve\<close> for a reference with its own scheme; \<open>npos\<close> is the largest
  \<open>size_t\<close>, so a missing delimiter compares greater than any position.\<close>

definition has_own_scheme :: "string \<Rightarrow> bool" where
  "has_own_scheme ref =
    (case find_idx ((=) CHR '':'') ref of
       None \<Rightarrow> False
     | Some scheme_end \<Rightarrow> 0 < scheme_end \<and>
         (case find_idx (\<lambda>c. c \<in> set ''/?#'') ref of
            None \<Rightarrow> True | Some q \<Rightarrow> scheme_end < q))"

text \<open>The first normalisation loop: \<open>/./\<close> becomes \<open>/\<close>.\<close>

function collapse_dot :: "string \<Rightarrow> string" where
  "collapse_dot p =
    (case find_sub ''/./'' p of
       None \<Rightarrow> p
     | Some pos \<Rightarrow> collapse_dot (take pos p @ ''/'' @ drop (pos + 3) p))"
  by pat_completeness auto
termination
proof (relation "measure length")
  fix p pos
  assume "find_sub ''/./'' p = Some pos"
  then have "pos + 3 \<le> length p" using find_sub_bound by fastforce
  then show "(take pos p @ ''/'' @ drop (pos + 3) p, p) \<in> measure length" by simp
qed simp

declare collapse_dot.simps [simp del]

text \<open>\<open>size_t\<close> subtraction wraps around.\<close>

definition size_sub :: "nat \<Rightarrow> nat \<Rightarrow> nat" where
  "size_sub a b = (if b \<le> a then a - b else 2 ^ 64 - (b - a))"

text \<open>
  One round of the second loop, \<^term>\<open>None\<close> when it breaks.  \<open>rfind('/', pos - 1)\<close> searches
  up to \<open>pos - 1\<close>; for \<open>pos = 0\<close> the subtraction wraps to \<open>npos\<close> and the whole string is
  searched.  \<open>replace\<close> clamps its count to the end of the string, as \<open>drop\<close> does.
\<close>

definition dotdot_step :: "string \<Rightarrow> string option" where
  "dotdot_step p =
    (case find_sub ''/../'' p of
       None \<Rightarrow> None
     | Some pos \<Rightarrow>
         (case rfind_idx ((=) CHR ''/'') (if pos = 0 then p else take pos p) of
            None \<Rightarrow> None
          | Some previous \<Rightarrow>
              Some (take previous p @ ''/'' @ drop (previous + size_sub (pos + 4) previous) p)))"

partial_function (option) collapse_dotdot :: "string \<Rightarrow> string option" where
  "collapse_dotdot p =
    (case dotdot_step p of None \<Rightarrow> Some p | Some q \<Rightarrow> collapse_dotdot q)"

definition strip_fragment :: "string \<Rightarrow> string" where
  "strip_fragment s = take_opt (find_idx ((=) CHR ''#'') s) s"

definition base_directory :: "url \<Rightarrow> string" where
  "base_directory base =
    (case rfind_idx ((=) CHR ''/'') (path base) of
       None \<Rightarrow> ''/'' | Some slash \<Rightarrow> take (slash + 1) (path base))"

definition resolve :: "url \<Rightarrow> string \<Rightarrow> url res option" where
  "resolve base ref =
    (if ref = [] then Some (Inr base)
     else if hd ref = CHR ''#'' then Some (parse_url (strip_fragment (serialized base) @ ref))
     else if has_own_scheme ref then Some (parse_url ref)
     else if is_prefix ''//'' ref then
       (if scheme base = [] then Some (parse_url ref)
        else Some (parse_url (scheme base @ '':'' @ ref)))
     else if \<not> is_absolute base then Some (parse_url ref)
     else
       (let origin = scheme base @ ''://'' @ authority base in
        if hd ref = CHR ''/'' then Some (parse_url (origin @ ref))
        else map_option (\<lambda>p. parse_url (origin @ p))
               (collapse_dotdot (collapse_dot (base_directory base @ ref)))))"

section \<open>Parsing\<close>

text \<open>What a successful parse of an absolute URL guarantees about its parts.\<close>

definition wf_origin :: "string \<Rightarrow> string \<Rightarrow> bool" where
  "wf_origin sch auth \<longleftrightarrow> CHR ''#'' \<notin> set sch
     \<and> find_sub ''://'' (sch @ ''://'') = Some (length sch)
     \<and> CHR ''/'' \<notin> set auth \<and> CHR ''#'' \<notin> set auth"

lemma find_idx_eq_None [simp]: "find_idx ((=) c) s = None \<longleftrightarrow> c \<notin> set s"
  by (auto simp: find_idx_None_iff)

lemma find_idx_notin [simp]: "c \<notin> set s \<Longrightarrow> find_idx ((=) c) s = None"
  by simp

lemma find_idx_skip: "c \<notin> set s \<Longrightarrow> find_idx ((=) c) (s @ t) =
    map_option (\<lambda>j. length s + j) (find_idx ((=) c) t)"
  by (simp add: find_idx_append del: find_idx_eq_None)

lemma fragment_skip:
  "c \<notin> set s \<Longrightarrow>
    (case find_idx ((=) c) (s @ t) of Some i \<Rightarrow> drop (Suc i) (s @ t) | None \<Rightarrow> []) =
    (case find_idx ((=) c) t of Some i \<Rightarrow> drop (Suc i) t | None \<Rightarrow> [])"
  by (cases "find_idx ((=) c) t") (simp_all add: find_idx_skip del: find_idx_eq_None)

lemma notin_take_find: "find_idx ((=) c) s = Some i \<Longrightarrow> c \<notin> set (take i s)"
  using find_idx_prefix_free by fastforce

lemma strip_fragment_simps [simp]:
  "CHR ''#'' \<notin> set s \<Longrightarrow> strip_fragment (s @ t) = s @ strip_fragment t"
  by (cases "find_idx ((=) CHR ''#'') t") (simp_all add: strip_fragment_def find_idx_skip del: find_idx_eq_None)

lemma strip_fragment_hash [simp]: "CHR ''#'' \<notin> set (strip_fragment s)"
  by (auto simp: strip_fragment_def take_opt_def split: option.splits dest: notin_take_find)

lemma parse_url_origin:
  assumes wf: "wf_origin sch auth"
    and t: "t = [] \<or> hd t \<in> {CHR ''/'', CHR ''#''}"
  shows "parse_url (sch @ ''://'' @ auth @ t) =
    Inr \<lparr>serialized = sch @ ''://'' @ auth @ t, scheme = sch, authority = auth,
         path = (if t \<noteq> [] \<and> hd t = CHR ''/'' then strip_fragment t else ''/''),
         fragment = (case find_idx ((=) CHR ''#'') t of Some i \<Rightarrow> drop (Suc i) t | None \<Rightarrow> [])\<rparr>"
proof -
  let ?s = "sch @ ''://'' @ auth @ t"
  have scheme_end: "find_sub ''://'' ?s = Some (length sch)"
    using wf find_sub_replace_tail [of "''://''" "sch @ ''://''" "[]" "length sch" "auth @ t"]
    by (simp add: wf_origin_def)
  have nohash: "CHR ''#'' \<notin> set (sch @ ''://'' @ auth)"
    using wf by (simp add: wf_origin_def)
  have without: "take_opt (find_idx ((=) CHR ''#'') ?s) ?s = sch @ ''://'' @ auth @ strip_fragment t"
    using strip_fragment_simps [OF nohash, of t] by (simp add: strip_fragment_def)
  have auth: "CHR ''/'' \<notin> set auth" using wf by (simp add: wf_origin_def)
  have frag: "(case find_idx ((=) CHR ''#'') ?s of Some i \<Rightarrow> drop (Suc i) ?s | None \<Rightarrow> [])
      = (case find_idx ((=) CHR ''#'') t of Some i \<Rightarrow> drop (Suc i) t | None \<Rightarrow> [])"
    using fragment_skip [OF nohash, of t] by (simp only: append_assoc)
  define s where "s = ?s"
  define w where "w = sch @ ''://'' @ auth @ strip_fragment t"
  have s_facts: "find_sub ''://'' s = Some (length sch)"
    "take_opt (find_idx ((=) CHR ''#'') s) s = w"
    "(case find_idx ((=) CHR ''#'') s of Some i \<Rightarrow> drop (Suc i) s | None \<Rightarrow> [])
      = (case find_idx ((=) CHR ''#'') t of Some i \<Rightarrow> drop (Suc i) t | None \<Rightarrow> [])"
    "take (length sch) s = sch"
    unfolding s_def w_def by (rule scheme_end, rule without, rule frag, simp)
  have w_facts: "drop (length sch + 3) w = auth @ strip_fragment t"
    "length w = length sch + 3 + length auth + length (strip_fragment t)"
    by (simp_all add: w_def)
  have "parse_url s = Inr \<lparr>serialized = s, scheme = sch, authority = auth,
         path = (if t \<noteq> [] \<and> hd t = CHR ''/'' then strip_fragment t else ''/''),
         fragment = (case find_idx ((=) CHR ''#'') t of Some i \<Rightarrow> drop (Suc i) t | None \<Rightarrow> [])\<rparr>"
  proof (cases "t \<noteq> [] \<and> hd t = CHR ''/''")
    case True
    then obtain r where r: "t = CHR ''/'' # r" by (cases t) auto
    have st: "strip_fragment t = CHR ''/'' # strip_fragment r"
      using strip_fragment_simps [of "''/''" r] by (simp add: r)
    have "find_idx_from ((=) CHR ''/'') w (length sch + 3) = Some (length sch + 3 + length auth)"
      using auth by (simp add: find_idx_from_def w_facts st find_idx_skip)
    moreover have "drop (length sch + 3 + length auth) w = strip_fragment t"
      by (simp add: w_def numeral_3_eq_3)
    ultimately show ?thesis
      using True by (simp add: parse_url_def Let_def s_facts w_facts)
  next
    case False
    with t have st: "strip_fragment t = []"
      by (cases t) (auto simp: strip_fragment_def)
    have "find_idx_from ((=) CHR ''/'') w (length sch + 3) = None"
      using auth by (simp add: find_idx_from_def w_facts st)
    then show ?thesis
      using False st by (auto simp: parse_url_def Let_def s_facts w_facts substr_def)
  qed
  then show ?thesis by (simp only: s_def)
qed

lemma parse_url_absolute:
  assumes p: "parse_url s = Inr u" and e: "find_sub ''://'' s = Some e"
  shows "wf_origin (scheme u) (authority u) \<and> serialized u = s \<and>
    (\<exists>t. s = scheme u @ ''://'' @ authority u @ t \<and> (t = [] \<or> hd t \<in> {CHR ''/'', CHR ''#''}))"
proof -
  let ?w = "strip_fragment s"
  obtain r where split: "s = take e s @ ''://'' @ r"
    using find_sub_split [OF e] by blast
  have len: "e + 3 \<le> length s" using find_sub_bound [OF e] by simp
  then have le: "length (take e s) = e" by simp
  have nohash: "CHR ''#'' \<notin> set (take e s)"
  proof
    assume "CHR ''#'' \<in> set (take e s)"
    then obtain i where "find_idx ((=) CHR ''#'') (take e s) = Some i"
      by (metis find_idx_eq_None not_None_eq)
    then have i: "find_idx ((=) CHR ''#'') s = Some i" "i < e"
      using find_idx_append [of "(=) CHR ''#''" "take e s" "drop e s"] len
      by (auto dest: find_idx_less)
    then have "length ?w < e + 3" using len by (simp add: strip_fragment_def)
    with p e i show False
      by (simp add: parse_url_def Let_def strip_fragment_def find_idx_from_def substr_def)
  qed
  have w: "?w = take e s @ ''://'' @ strip_fragment r"
    using nohash strip_fragment_simps [of "take e s @ ''://''" r] arg_cong [OF split, of strip_fragment]
    by simp
  have wd: "drop (e + 3) ?w = strip_fragment r" using w le by simp
  have wt: "take_opt (find_idx ((=) CHR ''#'') s) s = ?w" by (simp add: strip_fragment_def)
  have sch: "find_sub ''://'' (take e s @ ''://'') = Some e"
    using find_sub_replace_tail [of "''://''" "take e s @ ''://''" r e "[]"] split e le by simp
  have r_split: "\<exists>t. r = strip_fragment r @ t \<and> (t = [] \<or> hd t = CHR ''#'')"
  proof (cases "find_idx ((=) CHR ''#'') r")
    case None
    then show ?thesis by (simp add: strip_fragment_def)
  next
    case (Some i)
    then have "r ! i = CHR ''#''" "i < length r" by (auto simp: find_idx_Some_iff)
    then have "hd (drop i r) = CHR ''#''" by (simp add: hd_drop_conv_nth)
    then show ?thesis using Some
      by (intro exI [of _ "drop i r"]) (simp add: strip_fragment_def)
  qed
  then obtain t where t: "r = strip_fragment r @ t" "t = [] \<or> hd t = CHR ''#''" by blast
  show ?thesis
  proof (cases "find_idx ((=) CHR ''/'') (strip_fragment r)")
    case None
    then have "find_idx_from ((=) CHR ''/'') ?w (e + 3) = None"
      by (simp add: find_idx_from_def wd)
    then have u: "scheme u = take e s" "authority u = strip_fragment r" "serialized u = s"
      using p e w le by (auto simp: parse_url_def Let_def wt wd substr_def bind_res_Inr_iff
          split: if_splits)
    then have "wf_origin (scheme u) (authority u)"
      using None nohash sch le by (auto simp: wf_origin_def)
    moreover have "s = scheme u @ ''://'' @ authority u @ t"
      using u split t(1) by (metis append_assoc)
    ultimately show ?thesis using u t(2) by blast
  next
    case (Some j)
    then have "find_idx_from ((=) CHR ''/'') ?w (e + 3) = Some (e + 3 + j)"
      by (simp add: find_idx_from_def wd)
    then have u: "scheme u = take e s" "authority u = take j (strip_fragment r)" "serialized u = s"
      using p e by (auto simp: parse_url_def Let_def wt wd)
    have j: "j < length (strip_fragment r)" "strip_fragment r ! j = CHR ''/''"
      using Some by (auto simp: find_idx_Some_iff)
    have "CHR ''#'' \<notin> set (take j (strip_fragment r))"
      using strip_fragment_hash in_set_takeD by metis
    then have "wf_origin (scheme u) (authority u)"
      using u nohash sch le notin_take_find [OF Some] by (simp add: wf_origin_def)
    moreover have "s = scheme u @ ''://'' @ authority u @ (drop j (strip_fragment r) @ t)"
      using u split t(1) by (metis append_assoc append_take_drop_id)
    moreover have "hd (drop j (strip_fragment r) @ t) = CHR ''/''"
      using j by (simp add: hd_drop_conv_nth)
    ultimately show ?thesis using u by blast
  qed
qed

lemma parse_url_scheme_find:
  "parse_url s = Inr u \<Longrightarrow> is_absolute u \<Longrightarrow> \<exists>e. find_sub ''://'' s = Some e"
  by (cases "find_sub ''://'' s") (auto simp: parse_url_def Let_def is_absolute_def)


section \<open>Resolving\<close>

lemma has_own_scheme_simps [simp]:
  "\<not> has_own_scheme (CHR ''/'' # r)" "\<not> has_own_scheme (CHR ''.'' # CHR ''.'' # CHR ''/'' # r)"
  by (auto simp: has_own_scheme_def split: option.splits)

text \<open>Both normalisation loops keep the leading slash of the path they work on.\<close>

lemma collapse_dot_hd:
  "p \<noteq> [] \<Longrightarrow> hd p = CHR ''/'' \<Longrightarrow> collapse_dot p \<noteq> [] \<and> hd (collapse_dot p) = CHR ''/''"
proof (induction p rule: collapse_dot.induct)
  case (1 p)
  show ?case
  proof (cases "find_sub ''/./'' p")
    case None
    then show ?thesis using 1 by (simp add: collapse_dot.simps [of p])
  next
    case (Some pos)
    then show ?thesis using 1
      by (cases pos) (simp_all add: collapse_dot.simps [of p] hd_append)
  qed
qed

lemma dotdot_step_hd:
  "dotdot_step p = Some q \<Longrightarrow> p \<noteq> [] \<Longrightarrow> hd p = CHR ''/'' \<Longrightarrow> q \<noteq> [] \<and> hd q = CHR ''/''"
  by (auto simp: dotdot_step_def hd_append split: option.splits if_splits)

lemma collapse_dotdot_hd:
  assumes ret: "collapse_dotdot p = Some q"
  shows "p \<noteq> [] \<longrightarrow> hd p = CHR ''/'' \<longrightarrow> q \<noteq> [] \<and> hd q = CHR ''/''"
proof (rule collapse_dotdot.raw_induct
    [where P = "\<lambda>p q. p \<noteq> [] \<longrightarrow> hd p = CHR ''/'' \<longrightarrow> q \<noteq> [] \<and> hd q = CHR ''/''", OF _ ret])
  fix f p q
  assume IH: "\<And>p q. f p = Some q \<Longrightarrow>
      p \<noteq> [] \<longrightarrow> hd p = CHR ''/'' \<longrightarrow> q \<noteq> [] \<and> hd q = CHR ''/''"
    and eq: "(case dotdot_step p of None \<Rightarrow> Some p | Some q \<Rightarrow> f q) = Some q"
  show "p \<noteq> [] \<longrightarrow> hd p = CHR ''/'' \<longrightarrow> q \<noteq> [] \<and> hd q = CHR ''/''"
    using eq IH dotdot_step_hd by (fastforce split: option.splits)
qed

lemma base_directory_hd:
  "path base \<noteq> [] \<Longrightarrow> hd (path base) = CHR ''/'' \<Longrightarrow>
    base_directory base \<noteq> [] \<and> hd (base_directory base) = CHR ''/''"
  by (cases "path base") (auto simp: base_directory_def split: option.splits)

subsection \<open>When the loop over \<open>/../\<close> returns\<close>

text \<open>The states the loop goes through.\<close>

fun dotdot_iter :: "nat \<Rightarrow> string \<Rightarrow> string option" where
  "dotdot_iter 0 p = Some p"
| "dotdot_iter (Suc n) p = (case dotdot_step p of None \<Rightarrow> None | Some q \<Rightarrow> dotdot_iter n q)"

lemma collapse_dotdot_iter:
  "dotdot_iter n p = Some q \<Longrightarrow> collapse_dotdot p = collapse_dotdot q"
proof (induction n arbitrary: p)
  case 0
  then show ?case by simp
next
  case (Suc n)
  then show ?case
    by (subst collapse_dotdot.simps) (auto split: option.splits)
qed

text \<open>A round at the root never leaves the root: the state keeps its leading \<open>/../\<close>.\<close>

lemma dotdot_step_root:
  assumes "is_prefix ''/../'' p"
  shows "\<exists>q. dotdot_step p = Some q \<and> is_prefix ''/../'' q"
proof -
  from assms obtain r where p: "p = ''/../'' @ r" by (auto simp: is_prefix_iff)
  obtain prev where prev: "rfind_idx ((=) CHR ''/'') p = Some prev"
  proof -
    have "CHR ''/'' \<in> set p" by (simp add: p)
    then show ?thesis using that by (metis not_None_eq rfind_idx_None_iff)
  qed
  have "3 \<le> prev"
  proof (rule ccontr)
    assume "\<not> 3 \<le> prev"
    moreover have "3 < length p" by (simp add: p)
    ultimately have "CHR ''/'' \<noteq> p ! 3"
      using prev unfolding rfind_idx_Some_iff by (metis not_le_imp_less)
    then show False by (simp add: p)
  qed
  then obtain k where k: "prev = 3 + k" using le_Suc_ex by blast
  have "find_sub ''/../'' p = Some 0" by (simp add: p)
  then have "dotdot_step p =
      Some (take prev p @ ''/'' @ drop (prev + size_sub 4 prev) p)"
    using prev by (simp add: dotdot_step_def)
  moreover have "is_prefix ''/../'' (take prev p @ ''/'' @ t)" for t
    by (cases k) (simp_all add: p k numeral_3_eq_3)
  ultimately show ?thesis by blast
qed

lemma collapse_dotdot_root:
  assumes "is_prefix ''/../'' p"
  shows "collapse_dotdot p = None"
proof (rule ccontr)
  assume "collapse_dotdot p \<noteq> None"
  then obtain q where ret: "collapse_dotdot p = Some q" by blast
  have "\<not> is_prefix ''/../'' p"
  proof (rule collapse_dotdot.raw_induct [where P = "\<lambda>p q. \<not> is_prefix ''/../'' p", OF _ ret])
    fix f p q
    assume IH: "\<And>p q. f p = Some q \<Longrightarrow> \<not> is_prefix ''/../'' p"
      and eq: "(case dotdot_step p of None \<Rightarrow> Some p | Some q \<Rightarrow> f q) = Some q"
    show "\<not> is_prefix ''/../'' p"
      using eq IH dotdot_step_root [of p] by (auto split: option.splits)
  qed
  with assms show False by simp
qed

text \<open>Away from the root every round shortens the path.\<close>

lemma dotdot_step_shorter:
  assumes "dotdot_step p = Some q" and "\<not> is_prefix ''/../'' p"
  shows "length q < length p"
proof -
  from assms(1) obtain pos where pos: "find_sub ''/../'' p = Some pos"
    by (auto simp: dotdot_step_def split: option.splits)
  have bound: "pos + 4 \<le> length p" using find_sub_bound [OF pos] by simp
  have "pos \<noteq> 0" using pos assms(2) by (metis drop_0 find_sub_Some_iff)
  then obtain prev where prev: "rfind_idx ((=) CHR ''/'') (take pos p) = Some prev"
    and q: "q = take prev p @ ''/'' @ drop (prev + size_sub (pos + 4) prev) p"
    using assms(1) pos by (auto simp: dotdot_step_def split: option.splits)
  have "prev < pos" using rfind_idx_less [OF prev] by simp
  then have "prev + size_sub (pos + 4) prev = pos + 4" by (simp add: size_sub_def)
  then show ?thesis using q bound \<open>prev < pos\<close> by simp
qed

lemma collapse_dotdot_returns_or_root:
  "collapse_dotdot p \<noteq> None \<or> (\<exists>n q. dotdot_iter n p = Some q \<and> is_prefix ''/../'' q)"
proof (induction p rule: length_induct)
  case (1 p)
  show ?case
  proof (cases "is_prefix ''/../'' p")
    case True
    then have "dotdot_iter 0 p = Some p \<and> is_prefix ''/../'' p" by simp
    then show ?thesis by blast
  next
    case False
    show ?thesis
    proof (cases "dotdot_step p")
      case None
      then show ?thesis by (subst collapse_dotdot.simps) simp
    next
      case (Some q)
      with False have "length q < length p" by (rule dotdot_step_shorter [rotated])
      with 1 consider "collapse_dotdot q \<noteq> None"
        | n r where "dotdot_iter n q = Some r" "is_prefix ''/../'' r" by blast
      then show ?thesis
      proof cases
        case 1
        then show ?thesis using Some by (subst collapse_dotdot.simps) simp
      next
        case 2
        then have "dotdot_iter (Suc n) p = Some r" using Some by simp
        with 2 show ?thesis by blast
      qed
    qed
  qed
qed

lemma collapse_dotdot_result:
  assumes ret: "collapse_dotdot p = Some q"
  shows "dotdot_step q = None"
  by (rule collapse_dotdot.raw_induct [where P = "\<lambda>p q. dotdot_step q = None", OF _ ret])
    (auto split: option.splits)


text \<open>The full description of a successful absolute parse.\<close>

lemma parse_url_form:
  assumes "parse_url s = Inr u" and "is_absolute u"
  obtains t where "wf_origin (scheme u) (authority u)"
    and "s = scheme u @ ''://'' @ authority u @ t"
    and "t = [] \<or> hd t \<in> {CHR ''/'', CHR ''#''}"
    and "path u = (if t \<noteq> [] \<and> hd t = CHR ''/'' then strip_fragment t else ''/'')"
    and "fragment u = (case find_idx ((=) CHR ''#'') t of Some i \<Rightarrow> drop (Suc i) t | None \<Rightarrow> [])"
    and "serialized u = s"
proof -
  obtain e where "find_sub ''://'' s = Some e"
    using parse_url_scheme_find [OF assms] by blast
  from parse_url_absolute [OF assms(1) this] obtain t where
    t: "wf_origin (scheme u) (authority u)" "s = scheme u @ ''://'' @ authority u @ t"
      "t = [] \<or> hd t \<in> {CHR ''/'', CHR ''#''}" "serialized u = s" by blast
  have "Inr u = parse_url (scheme u @ ''://'' @ authority u @ t)"
    using assms(1) t(2) by (simp only:)
  from trans [OF this parse_url_origin [OF t(1,3)], THEN sum.inject(2) [THEN iffD1]]
  have u: "u = \<lparr>serialized = scheme u @ ''://'' @ authority u @ t, scheme = scheme u,
      authority = authority u,
      path = (if t \<noteq> [] \<and> hd t = CHR ''/'' then strip_fragment t else ''/''),
      fragment = (case find_idx ((=) CHR ''#'') t of Some i \<Rightarrow> drop (Suc i) t | None \<Rightarrow> [])\<rparr>" .
  have "path u = (if t \<noteq> [] \<and> hd t = CHR ''/'' then strip_fragment t else ''/'')"
    "fragment u = (case find_idx ((=) CHR ''#'') t of Some i \<Rightarrow> drop (Suc i) t | None \<Rightarrow> [])"
    using arg_cong [OF u, of path] arg_cong [OF u, of fragment]
    by (simp_all only: url.select_convs)
  with t that show ?thesis by blast
qed

lemma path_hd:
  assumes "parse_url s = Inr u" and "is_absolute u"
  shows "path u \<noteq> [] \<and> hd (path u) = CHR ''/''"
proof -
  obtain t where t: "path u = (if t \<noteq> [] \<and> hd t = CHR ''/'' then strip_fragment t else ''/'')"
    using parse_url_form [OF assms] by metis
  show ?thesis
  proof (cases "t \<noteq> [] \<and> hd t = CHR ''/''")
    case True
    then obtain r where "t = ''/'' @ r" by (cases t) auto
    then show ?thesis using t strip_fragment_simps [of "''/''" r] by simp
  next
    case False
    then show ?thesis using t by auto
  qed
qed

section \<open>Properties\<close>

text \<open>\<open>Url::parse\<close> throws \<open>std::out_of_range\<close> exactly on the inputs that have a
  \<open>#\<close> before their first \<open>://\<close>, and on no other input.\<close>

theorem parse_url_throws_iff:
  "parse_url s = Inl x \<longleftrightarrow>
    x = OutOfRange \<and> (\<exists>e. find_sub ''://'' s = Some e \<and> CHR ''#'' \<in> set (take e s))"
proof (cases "find_sub ''://'' s")
  case None
  then show ?thesis by (simp add: parse_url_def Let_def)
next
  case (Some e)
  have len: "e + 3 \<le> length s" using find_sub_bound [OF Some] by simp
  show ?thesis
  proof (cases "CHR ''#'' \<in> set (take e s)")
    case True
    then obtain i where "find_idx ((=) CHR ''#'') (take e s) = Some i"
      by (metis find_idx_eq_None not_None_eq)
    then have i: "find_idx ((=) CHR ''#'') s = Some i" "i < e"
      using find_idx_append [of "(=) CHR ''#''" "take e s" "drop e s"] len
      by (auto dest: find_idx_less)
    then show ?thesis using True Some len
      by (auto simp: parse_url_def Let_def find_idx_from_def substr_def)
  next
    case False
    obtain r where split: "s = take e s @ ''://'' @ r"
      using find_sub_split [OF Some] by blast
    have "strip_fragment s = (take e s @ ''://'') @ strip_fragment r"
      using False strip_fragment_simps [of "take e s @ ''://''" r] arg_cong [OF split, of strip_fragment]
      by simp
    then have "e + 3 \<le> length (strip_fragment s)" using len by simp
    then have "parse_url s \<noteq> Inl x"
      using Some by (auto simp: parse_url_def Let_def strip_fragment_def substr_def
          split: option.splits)
    then show ?thesis using False Some by auto
  qed
qed

definition url_text :: "url \<Rightarrow> string" where
  "url_text u = scheme u @ ''://'' @ authority u @ path u @
     (if fragment u = [] then [] else CHR ''#'' # fragment u)"

text \<open>C3: Reassembling the components of an absolute URL and parsing again gives the same
  scheme, authority, path and fragment.\<close>

theorem parse_url_roundtrip:
  assumes "parse_url s = Inr u" and "is_absolute u"
  shows "parse_url (url_text u) = Inr (u\<lparr>serialized := url_text u\<rparr>)"
proof -
  let ?f = "if fragment u = [] then [] else CHR ''#'' # fragment u"
  obtain t where wf: "wf_origin (scheme u) (authority u)"
    and p: "path u = (if t \<noteq> [] \<and> hd t = CHR ''/'' then strip_fragment t else ''/'')"
    by (rule parse_url_form [OF assms])
  have hd: "path u @ ?f \<noteq> []" "hd (path u @ ?f) = CHR ''/''"
    using path_hd [OF assms] by auto
  have nohash: "CHR ''#'' \<notin> set (path u)" using p by simp
  have strip: "strip_fragment (path u @ ?f) = path u"
    using strip_fragment_simps [OF nohash, of ?f] by (simp add: strip_fragment_def)
  have frag: "(case find_idx ((=) CHR ''#'') (path u @ ?f) of
      Some i \<Rightarrow> drop (Suc i) (path u @ ?f) | None \<Rightarrow> []) = fragment u"
    using fragment_skip [OF nohash, of ?f] by simp
  have t: "path u @ ?f = [] \<or> hd (path u @ ?f) \<in> {CHR ''/'', CHR ''#''}" using hd by simp
  have url_text_eq: "url_text u = scheme u @ ''://'' @ authority u @ (path u @ ?f)"
    by (simp add: url_text_def)
  show ?thesis
    unfolding url_text_eq parse_url_origin [OF wf t] strip frag using hd by (cases u) simp
qed

theorem parse_url_roundtrip_witness:
  "parse_url (url_text \<lparr>serialized = ''http://h#f'', scheme = ''http'', authority = ''h'',
      path = ''/'', fragment = ''f''\<rparr>) =
    Inr \<lparr>serialized = ''http://h/#f'', scheme = ''http'', authority = ''h'',
      path = ''/'', fragment = ''f''\<rparr>"
proof -
  let ?u = "\<lparr>serialized = ''http://h#f'', scheme = ''http'', authority = ''h'',
      path = ''/'', fragment = ''f''\<rparr>"
  have "parse_url ''http://h#f'' = Inr ?u"
    by (simp add: parse_url_def find_idx_from_def substr_def)
  from parse_url_roundtrip [OF this] show ?thesis
    by (simp add: is_absolute_def url_text_def)
qed


lemma resolve_origin_tail:
  assumes "wf_origin (scheme base) (authority base)" and "t = [] \<or> hd t \<in> {CHR ''/'', CHR ''#''}"
  shows "\<exists>u. parse_url (scheme base @ ''://'' @ authority base @ t) = Inr u \<and>
    scheme u = scheme base \<and> authority u = authority base"
  using parse_url_origin [OF assms] by simp

text \<open>C1: A reference without a scheme and without a leading \<open>//\<close> never leaves the origin of
  an absolute base: if resolving returns at all, it does not throw, and scheme and authority
  are those of the base.\<close>

theorem resolve_same_origin:
  assumes base: "parse_url s = Inr base" "is_absolute base"
    and ref: "\<not> has_own_scheme ref" "\<not> is_prefix ''//'' ref"
    and ret: "resolve base ref = Some r"
  shows "\<exists>u. r = Inr u \<and> scheme u = scheme base \<and> authority u = authority base"
proof -
  obtain t where wf: "wf_origin (scheme base) (authority base)"
    and s: "s = scheme base @ ''://'' @ authority base @ t"
    and t: "t = [] \<or> hd t \<in> {CHR ''/'', CHR ''#''}" and ser: "serialized base = s"
    by (rule parse_url_form [OF base])
  note tail = resolve_origin_tail [OF wf]
  consider "ref = []" | "ref \<noteq> []" "hd ref = CHR ''#''" | "ref \<noteq> []" "hd ref = CHR ''/''"
    | "ref \<noteq> []" "hd ref \<noteq> CHR ''#''" "hd ref \<noteq> CHR ''/''" by blast
  then show ?thesis
  proof cases
    case 1
    then show ?thesis using ret by (auto simp: resolve_def)
  next
    case 2
    have nohash: "CHR ''#'' \<notin> set (scheme base @ ''://'' @ authority base)"
      using wf by (simp add: wf_origin_def)
    have strip: "strip_fragment (serialized base) =
        (scheme base @ ''://'' @ authority base) @ strip_fragment t"
      unfolding ser s using strip_fragment_simps [OF nohash, of t] by simp
    have hd: "strip_fragment t @ ref = [] \<or> hd (strip_fragment t @ ref) \<in> {CHR ''/'', CHR ''#''}"
      using t 2 by (cases t) (auto simp: hd_append strip_fragment_def take_opt_def split: option.splits)
    have "r = parse_url (scheme base @ ''://'' @ authority base @ strip_fragment t @ ref)"
      using 2 ret strip by (simp add: resolve_def)
    then show ?thesis using tail [OF hd] by simp
  next
    case 3
    then have "r = parse_url (scheme base @ ''://'' @ authority base @ ref)"
      using ret ref base(2) by (simp add: resolve_def Let_def)
    then show ?thesis using tail [of ref] 3 by simp
  next
    case 4
    let ?p = "collapse_dot (base_directory base @ ref)"
    from 4 ret ref base(2) obtain p where p: "collapse_dotdot ?p = Some p"
      and r: "r = parse_url (scheme base @ ''://'' @ authority base @ p)"
      by (auto simp: resolve_def Let_def)
    have "base_directory base \<noteq> []" "hd (base_directory base) = CHR ''/''"
      using base_directory_hd path_hd [OF base] by simp_all
    then have "?p \<noteq> [] \<and> hd ?p = CHR ''/''" by (intro collapse_dot_hd) simp_all
    then have "p \<noteq> [] \<and> hd p = CHR ''/''" using collapse_dotdot_hd [OF p] by simp
    then show ?thesis using tail [of p] r by simp
  qed
qed

lemma example_base:
  "parse_url ''http://h/a/b'' = Inr \<lparr>serialized = ''http://h/a/b'', scheme = ''http'',
      authority = ''h'', path = ''/a/b'', fragment = []\<rparr>"
  by (simp add: parse_url_def find_idx_from_def)

theorem resolve_same_origin_witness:
  "\<exists>u. parse_url ''http://h/c'' = Inr u \<and> scheme u = ''http'' \<and> authority u = ''h''"
proof -
  let ?b = "\<lparr>serialized = ''http://h/a/b'', scheme = ''http'',
      authority = ''h'', path = ''/a/b'', fragment = []\<rparr>"
  have dot: "collapse_dot ''/a/../c'' = ''/a/../c''" by (simp add: collapse_dot.simps)
  have dd: "collapse_dotdot ''/a/../c'' = Some ''/c''"
    by (simp add: collapse_dotdot.simps dotdot_step_def size_sub_def)
  have ret: "resolve ?b ''../c'' = Some (parse_url ''http://h/c'')"
    by (simp add: resolve_def is_absolute_def base_directory_def dot dd)
  show ?thesis
    using resolve_same_origin [OF example_base _ _ _ ret] by (simp add: is_absolute_def)
qed

text \<open>The loop that removes \<open>/../\<close> segments fails to return exactly when one of the paths
  it reaches begins with \<open>/../\<close>, that is, when the reference climbs above the root.\<close>

theorem collapse_dotdot_hangs_iff:
  "collapse_dotdot p = None \<longleftrightarrow>
    (\<exists>n q. dotdot_iter n p = Some q \<and> is_prefix ''/../'' q)"
  using collapse_dotdot_returns_or_root [of p] collapse_dotdot_iter collapse_dotdot_root
  by metis

lemma collapse_dot_root_parent:
  assumes "CHR ''/'' \<notin> set name"
  shows "collapse_dot (''/../'' @ name) = ''/../'' @ name"
proof -
  have "find_sub ''/./'' name = None" "\<not> is_prefix ''/'' name"
    using assms by (induction name) (auto simp: neq_Nil_conv)
  then have "find_sub ''/./'' (''/../'' @ name) = None"
    using assms by (cases name; cases "tl name") (auto simp: neq_Nil_conv)
  then show ?thesis using collapse_dot.simps [of "''/../'' @ name"] by (simp only: option.case)
qed

text \<open>C2: Resolving \<open>../name\<close> against any absolute URL whose document is at the root never
  returns (the page hangs the process).\<close>

theorem resolve_parent_of_root_hangs:
  assumes "parse_url s = Inr base" and "is_absolute base"
    and "path base = CHR ''/'' # doc" and "CHR ''/'' \<notin> set doc"
    and "CHR ''/'' \<notin> set name"
  shows "resolve base (''../'' @ name) = None"
proof -
  have "rfind_idx ((=) CHR ''/'') (path base) = Some 0"
    using assms(3,4) by (auto simp: rfind_idx_None_iff split: option.splits)
  then have dir: "base_directory base = ''/''"
    using assms(3) by (simp add: base_directory_def)
  have "collapse_dotdot (''/../'' @ name) = None" by (rule collapse_dotdot_root) simp
  with collapse_dot_root_parent [OF assms(5)] show ?thesis
    using assms(2) by (simp add: resolve_def dir Let_def)
qed

theorem resolve_parent_of_root_hangs_witness:
  "\<exists>base. parse_url ''http://h/'' = Inr base \<and> resolve base ''../style.css'' = None"
proof -
  let ?b = "\<lparr>serialized = ''http://h/'', scheme = ''http'', authority = ''h'',
      path = ''/'', fragment = []\<rparr>"
  have b: "parse_url ''http://h/'' = Inr ?b" by (simp add: parse_url_def find_idx_from_def)
  have "resolve ?b (''../'' @ ''style.css'') = None"
    by (rule resolve_parent_of_root_hangs [OF b, where doc = "[]"]) (simp_all add: is_absolute_def)
  then show ?thesis using b by simp
qed

lemma find_sub_take_None: "find_sub p s = None \<Longrightarrow> find_sub p (take n s) = None"
proof (rule ccontr)
  assume none: "find_sub p s = None" and "find_sub p (take n s) \<noteq> None"
  then obtain i where i: "find_sub p (take n s) = Some i" by blast
  from find_sub_split [OF i] have "s = (take i (take n s) @ p @ drop (i + length p) (take n s)) @ drop n s"
    by (metis append_take_drop_id)
  then have "is_prefix p (drop (length (take i (take n s))) s)"
    by (metis append_assoc append_eq_conv_conj is_prefix_append)
  moreover have "length (take i (take n s)) < Suc (length s)" by simp
  ultimately show False using none by (metis find_sub_None_iff)
qed

lemma dotdot_free:
  assumes "dotdot_step q = None" and "q \<noteq> []" and "hd q = CHR ''/''"
  shows "find_sub ''/../'' q = None"
proof (rule ccontr)
  assume "find_sub ''/../'' q \<noteq> None"
  then obtain pos where pos: "find_sub ''/../'' q = Some pos" by blast
  have "CHR ''/'' \<in> set (if pos = 0 then q else take pos q)"
    using assms(2,3) by (cases q; cases pos) auto
  then show False using pos assms(1)
    by (auto simp: dotdot_step_def rfind_idx_None_iff split: option.splits)
qed

text \<open>When resolving a path-relative reference against an absolute base returns, no
  \<open>/../\<close> is left in the path of the result.\<close>

theorem resolve_leaves_no_dotdot:
  assumes base: "parse_url s = Inr base" "is_absolute base"
    and ref: "ref \<noteq> []" "hd ref \<notin> {CHR ''#'', CHR ''/''}" "\<not> has_own_scheme ref"
    and ret: "resolve base ref = Some (Inr u)"
  shows "find_sub ''/../'' (path u) = None"
proof -
  let ?p = "collapse_dot (base_directory base @ ref)"
  have "\<not> is_prefix ''//'' ref" using ref by (cases ref) auto
  then obtain p where p: "collapse_dotdot ?p = Some p"
    and u: "parse_url (scheme base @ ''://'' @ authority base @ p) = Inr u"
    using ref ret base(2) by (auto simp: resolve_def Let_def)
  obtain t where wf: "wf_origin (scheme base) (authority base)"
    by (rule parse_url_form [OF base])
  have "base_directory base \<noteq> []" "hd (base_directory base) = CHR ''/''"
    using base_directory_hd path_hd [OF base] by simp_all
  then have "?p \<noteq> [] \<and> hd ?p = CHR ''/''" by (intro collapse_dot_hd) simp_all
  then have hd: "p \<noteq> []" "hd p = CHR ''/''" using collapse_dotdot_hd [OF p] by simp_all
  then have "path u = strip_fragment p"
    using u parse_url_origin [OF wf, of p] by auto
  moreover have "find_sub ''/../'' p = None"
    using collapse_dotdot_result [OF p] hd by (rule dotdot_free)
  ultimately show ?thesis
    by (simp add: strip_fragment_def take_opt_def find_sub_take_None split: option.split)
qed

theorem resolve_leaves_no_dotdot_witness:
  "find_sub ''/../'' (path \<lparr>serialized = ''http://h/c'', scheme = ''http'',
      authority = ''h'', path = ''/c'', fragment = []\<rparr>) = None"
proof -
  let ?b = "\<lparr>serialized = ''http://h/a/b'', scheme = ''http'',
      authority = ''h'', path = ''/a/b'', fragment = []\<rparr>"
  let ?u = "\<lparr>serialized = ''http://h/c'', scheme = ''http'',
      authority = ''h'', path = ''/c'', fragment = []\<rparr>"
  have dot: "collapse_dot ''/a/../c'' = ''/a/../c''" by (simp add: collapse_dot.simps)
  have dd: "collapse_dotdot ''/a/../c'' = Some ''/c''"
    by (simp add: collapse_dotdot.simps dotdot_step_def size_sub_def)
  have u: "parse_url ''http://h/c'' = Inr ?u" by (simp add: parse_url_def find_idx_from_def)
  have ret: "resolve ?b ''../c'' = Some (Inr ?u)"
    using u by (simp add: resolve_def is_absolute_def base_directory_def dot dd)
  have abs: "is_absolute ?b" by (simp add: is_absolute_def)
  show ?thesis by (rule resolve_leaves_no_dotdot [OF example_base abs _ _ _ ret]) simp_all
qed

end
