(* ===== verification/Resource.thy ===== *)
theory Resource
  imports Url
begin

text \<open>
  \<open>src/rendering/resource.hpp\<close>, \<open>resource.cpp\<close>, \<open>content_type.hpp\<close> and
  \<open>content_type.cpp\<close>: the resource model, the cache keyed by URL text and the
  classification of a resource by its declared type or its file extension.  The locale
  \<open>keyed_store\<close> is the contract the loader and the image cache rely on; it is interpreted
  on the resource cache.
\<close>

section \<open>The contract of a keyed store\<close>

locale keyed_store =
  fixes lookup :: "'s \<Rightarrow> 'k \<Rightarrow> 'v option"
    and insert_value :: "'v \<Rightarrow> 's \<Rightarrow> 's"
    and key :: "'v \<Rightarrow> 'k"
    and cleared :: "'s \<Rightarrow> 's"
  assumes lookup_insert: "lookup (insert_value v s) k = (if k = key v then Some v else lookup s k)"
    and lookup_cleared: "lookup (cleared s) k = None"
begin

text \<open>Every stored value is stored under its own key.\<close>

definition keys_agree :: "'s \<Rightarrow> bool" where
  "keys_agree s \<longleftrightarrow> (\<forall>k v. lookup s k = Some v \<longrightarrow> key v = k)"

lemma keys_agree_insert: "keys_agree s \<Longrightarrow> keys_agree (insert_value v s)"
  by (auto simp: keys_agree_def lookup_insert)

lemma keys_agree_cleared: "keys_agree (cleared s)"
  by (simp add: keys_agree_def lookup_cleared)

lemma keys_agree_fold: "keys_agree s \<Longrightarrow> keys_agree (fold insert_value vs s)"
  by (induction vs arbitrary: s) (simp_all add: keys_agree_insert)

text \<open>After a run of insertions a key holds the last value inserted under it.\<close>

lemma lookup_fold:
  "lookup (fold insert_value vs s) k =
    (case filter (\<lambda>v. key v = k) (rev vs) of [] \<Rightarrow> lookup s k | v # _ \<Rightarrow> Some v)"
proof (induction vs arbitrary: s rule: rev_induct)
  case Nil
  then show ?case by simp
next
  case (snoc v vs)
  then show ?case by (auto simp: lookup_insert)
qed

end

section \<open>Resources and their cache\<close>

datatype resource_type = Document | Stylesheet | ImageRes | Font | Binary

record resource_data =
  rtype :: resource_type
  rurl :: string
  rbytes :: bytes

type_synonym resource_cache = "string \<rightharpoonup> resource_data"

definition cache_put :: "resource_data \<Rightarrow> resource_cache \<Rightarrow> resource_cache" where
  "cache_put d c = c(rurl d \<mapsto> d)"

definition cache_put_text ::
    "resource_type \<Rightarrow> string \<Rightarrow> string \<Rightarrow> resource_cache \<Rightarrow> resource_cache" where
  "cache_put_text t u txt c =
    cache_put \<lparr>rtype = t, rurl = u, rbytes = bytes_of_string txt\<rparr> c"

definition cache_get :: "resource_cache \<Rightarrow> string \<Rightarrow> resource_data option" where
  "cache_get c u = c u"

definition cache_get_text :: "resource_cache \<Rightarrow> string \<Rightarrow> string" where
  "cache_get_text c u = (case cache_get c u of None \<Rightarrow> [] | Some d \<Rightarrow> string_of_bytes (rbytes d))"

definition cache_contains :: "resource_cache \<Rightarrow> string \<Rightarrow> bool" where
  "cache_contains c u \<longleftrightarrow> c u \<noteq> None"

definition cache_clear :: "resource_cache \<Rightarrow> resource_cache" where
  "cache_clear c = Map.empty"

interpretation rc: keyed_store cache_get cache_put rurl cache_clear
  by unfold_locales (auto simp: cache_get_def cache_put_def cache_clear_def)

lemma cache_contains_get: "cache_contains c u \<longleftrightarrow> cache_get c u \<noteq> None"
  by (simp add: cache_contains_def cache_get_def)

section \<open>Content types\<close>

record content_type =
  ct_type :: resource_type
  ct_mime :: string

definition mk_ct :: "resource_type \<Rightarrow> string \<Rightarrow> content_type" where
  "mk_ct t m = \<lparr>ct_type = t, ct_mime = m\<rparr>"

definition classify_mime :: "string \<Rightarrow> content_type" where
  "classify_mime value =
    (if value = ''text/html'' \<or> value = ''application/xhtml+xml'' then mk_ct Document ''text/html''
     else if value = ''text/css'' then mk_ct Stylesheet ''text/css''
     else if is_prefix ''image/'' value then mk_ct ImageRes ''image/*''
     else if is_prefix ''font/'' value \<or> value = ''application/font-woff''
       \<or> value = ''application/font-woff2'' then mk_ct Font ''font/*''
     else mk_ct Binary ''application/octet-stream'')"

definition classify_extension :: "string \<Rightarrow> content_type" where
  "classify_extension ext =
    (if ext \<in> {''html'', ''htm'', ''xhtml''} then mk_ct Document ''text/html''
     else if ext = ''css'' then mk_ct Stylesheet ''text/css''
     else if ext \<in> {''ppm'', ''png'', ''jpg'', ''jpeg'', ''gif'', ''webp''} then mk_ct ImageRes ''image/*''
     else if ext \<in> {''ttf'', ''otf'', ''woff'', ''woff2''} then mk_ct Font ''font/*''
     else mk_ct Binary ''application/octet-stream'')"

definition classify_content_type :: "url \<Rightarrow> string \<Rightarrow> content_type" where
  "classify_content_type u declared =
    (let mime = lower declared in
     if mime \<noteq> [] then classify_mime (take_opt (find_idx ((=) CHR '';'') mime) mime)
     else
       (let p = lower (path u);
            ext = (case rfind_idx ((=) CHR ''.'') p of None \<Rightarrow> [] | Some dot \<Rightarrow> drop (dot + 1) p)
        in classify_extension ext))"

section \<open>Lemmas\<close>

lemma classify_mime_consistent:
  "ct_mime (classify_mime v) = (case ct_type (classify_mime v) of
     Document \<Rightarrow> ''text/html'' | Stylesheet \<Rightarrow> ''text/css'' | ImageRes \<Rightarrow> ''image/*''
   | Font \<Rightarrow> ''font/*'' | Binary \<Rightarrow> ''application/octet-stream'')"
  by (simp add: classify_mime_def mk_ct_def)

lemma classify_extension_consistent:
  "ct_mime (classify_extension v) = (case ct_type (classify_extension v) of
     Document \<Rightarrow> ''text/html'' | Stylesheet \<Rightarrow> ''text/css'' | ImageRes \<Rightarrow> ''image/*''
   | Font \<Rightarrow> ''font/*'' | Binary \<Rightarrow> ''application/octet-stream'')"
  by (simp add: classify_extension_def mk_ct_def)

lemma cache_text_roundtrip: "cache_get_text (cache_put_text t u txt c) u = txt"
  by (simp add: cache_get_text_def cache_put_text_def rc.lookup_insert)

lemma cache_text_other:
  "u' \<noteq> u \<Longrightarrow> cache_get_text (cache_put_text t u txt c) u' = cache_get_text c u'"
  by (simp add: cache_get_text_def cache_put_text_def rc.lookup_insert)

text \<open>Classification does not depend on the case of the declared type, nor on its parameters.\<close>

lemma classify_declared_case:
  "classify_content_type u (lower d) = classify_content_type u d"
  by (simp add: classify_content_type_def Let_def)

lemma tolower_semicolon [simp]: "tolower c = CHR '';'' \<longleftrightarrow> c = CHR '';''"
proof
  assume "tolower c = CHR '';''"
  then show "c = CHR '';''"
    by (auto simp: tolower_def split: if_splits dest: arg_cong [of _ _ ascii])
qed (simp add: tolower_def)

lemma semicolon_tolower [simp]: "CHR '';'' = tolower c \<longleftrightarrow> c = CHR '';''"
  using tolower_semicolon by metis

lemma classify_declared_parameters:
  assumes "CHR '';'' \<notin> set d" and "d \<noteq> []"
  shows "classify_content_type u (d @ CHR '';'' # params) = classify_content_type u d"
proof -
  have "CHR '';'' \<notin> set (lower d)" using assms(1) by (auto simp: lower_def image_iff)
  moreover have "lower (d @ CHR '';'' # params) = lower d @ CHR '';'' # lower params"
    by (simp add: lower_def)
  moreover have "lower d \<noteq> []" using assms(2) by (simp add: lower_def)
  ultimately show ?thesis
    by (simp add: classify_content_type_def Let_def find_idx_append)
qed

end
