(* ===== verification/Image_Cache.thy ===== *)
theory Image_Cache
  imports Effects Gif Jpeg Png_Codec Resource
begin

text \<open>
  \<open>image.hpp\<close>/\<open>image.cpp\<close>: the PPM reader and the cache of decoded images.  The decoders that
  are not modelled (SVG and WebP, with their tests for the file type) are a parameter, and with them the
  cosine of the JPEG decoder; the PNG, JPEG and GIF decoders are the ones of \<open>Png\<close>, \<open>Jpeg\<close> and \<open>Gif\<close>.  The PPM reader lets the exceptions of
  \<open>std::stoi\<close> escape and multiplies in \<open>int\<close>.
\<close>

section \<open>PPM\<close>

function skip_blank :: "string \<Rightarrow> string" where
  "skip_blank s =
     (case s of
        [] \<Rightarrow> []
      | c # r \<Rightarrow>
          if c = CHR ''#'' then skip_blank (dropWhile (\<lambda>x. x \<noteq> CHR 0x0A) r)
          else if isspace c then skip_blank r
          else s)"
  by pat_completeness auto
termination
  by (relation "measure length") (auto simp: less_Suc_eq_le length_dropWhile_le)

declare skip_blank.simps [simp del]

lemma skip_blank_simps [simp]:
  "skip_blank [] = []"
  "skip_blank (c # r) =
    (if c = CHR ''#'' then skip_blank (dropWhile (\<lambda>x. x \<noteq> CHR 0x0A) r) else if isspace c then skip_blank r else c # r)"
  by (subst skip_blank.simps, simp)+

text \<open>\<open>token\<close>: the token and what follows it; the empty token is the failure.\<close>

definition ppm_token :: "string \<Rightarrow> string \<times> string" where
  "ppm_token s = (let r = skip_blank s in (takeWhile (\<lambda>c. \<not> isspace c) r, dropWhile (\<lambda>c. \<not> isspace c) r))"

text \<open>Three tokens in a row.\<close>

definition ppm_tokens3 :: "string \<Rightarrow> ((string \<times> string \<times> string) \<times> string) option" where
  "ppm_tokens3 s =
     (let (a, s1) = ppm_token s; (b, s2) = ppm_token s1; (c, s3) = ppm_token s2
      in if a = [] \<or> b = [] \<or> c = [] then None else Some ((a, b, c), s3))"

definition ppm_channel :: "int \<Rightarrow> string \<Rightarrow> byte run" where
  "ppm_channel maxv t =
     bind_run (of_res (stoi t)) (\<lambda>v.
       if int_max < v * 255 \<or> v * 255 < - int_max - 1 then Undefined
       else Returns (word_of_int (quotient (v * 255) maxv)))"

text \<open>The pixels still to be read, those read in reverse; \<^term>\<open>Returns None\<close> for a file cut short.\<close>

fun ppm_pixels :: "nat \<Rightarrow> int \<Rightarrow> string \<Rightarrow> color list \<Rightarrow> color list option run" where
  "ppm_pixels 0 maxv s out = Returns (Some (rev out))"
| "ppm_pixels (Suc n) maxv s out =
     (case ppm_tokens3 s of
        None \<Rightarrow> Returns None
      | Some ((r, g, b), s') \<Rightarrow>
          bind_run (ppm_channel maxv r) (\<lambda>red.
          bind_run (ppm_channel maxv g) (\<lambda>green.
          bind_run (ppm_channel maxv b) (\<lambda>blue.
            ppm_pixels n maxv s' (rgba red green blue 255 # out)))))"

text \<open>\<open>reserve\<close> throws when the room asked for exceeds \<open>max_size\<close>, and the loop bound overflows
  an \<open>int\<close> before that.\<close>

definition load_ppm :: "bytes \<Rightarrow> image option run" where
  "load_ppm bs =
     (if length bs < 3 then Returns None
      else
        let (t, s) = ppm_token (string_of_bytes bs) in
        if t \<noteq> ''P3'' then Returns None
        else
          case ppm_tokens3 s of
            None \<Rightarrow> Returns None
          | Some ((a, b, c), s') \<Rightarrow>
              bind_run (of_res (stoi a)) (\<lambda>w.
              bind_run (of_res (stoi b)) (\<lambda>h.
              bind_run (of_res (stoi c)) (\<lambda>maxv.
                if w \<le> 0 \<or> h \<le> 0 \<or> maxv \<le> 0 then Returns None
                else if 2 ^ 61 \<le> w * h then Raises LengthError
                else if int_max < w * h then Undefined
                else
                  bind_run (ppm_pixels (nat (w * h)) maxv s' []) (\<lambda>pixels.
                    Returns (map_option (\<lambda>p. \<lparr> img_width = w, img_height = h, img_pixels = p \<rparr>) pixels))))))"

section \<open>The cache\<close>

text \<open>\<open>std::cos\<close> on a \<open>float\<close>, and the decoders and file tests for the formats that are not modelled.\<close>

record decoders =
  float_cos :: "fp \<Rightarrow> fp"
  is_svg :: "bytes \<Rightarrow> bool"
  render_svg :: "bytes \<Rightarrow> image option run"
  is_webp :: "bytes \<Rightarrow> bool"
  decode_webp :: "bytes \<Rightarrow> image option run"

definition of_outcome :: "outcome \<Rightarrow> image option run" where
  "of_outcome r = (case r of Decoded i \<Rightarrow> Returns (Some i) | Rejected \<Rightarrow> Returns None | Overflow \<Rightarrow> Undefined)"

definition decode_image :: "decoders \<Rightarrow> bytes \<Rightarrow> image option run" where
  "decode_image dec bs =
     (if is_png bs then of_outcome (decode_png bs)
      else if is_jpeg bs then decode_jpeg (float_cos dec) bs
      else if gif_signature bs then Returns (decode_gif bs)
      else if is_svg dec bs then render_svg dec bs
      else if is_webp dec bs then decode_webp dec bs
      else load_ppm bs)"

type_synonym image_cache = "string \<rightharpoonup> image"

definition image_load :: "decoders \<Rightarrow> string \<Rightarrow> resource_cache \<Rightarrow> image_cache \<Rightarrow> (image option \<times> image_cache) run" where
  "image_load dec u resources images =
     (case images u of
        Some i \<Rightarrow> Returns (Some i, images)
      | None \<Rightarrow>
          case cache_get resources u of
            None \<Rightarrow> Returns (None, images)
          | Some d \<Rightarrow>
              if rtype d \<noteq> ImageRes then Returns (None, images)
              else
                bind_run (decode_image dec (rbytes d)) (\<lambda>i.
                  Returns (i, case i of None \<Rightarrow> images | Some img \<Rightarrow> images(u \<mapsto> img))))"

definition image_clear :: "image_cache \<Rightarrow> image_cache" where
  "image_clear images = Map.empty"

text \<open>The image cache is a keyed store of the pairs of a URL and its image.\<close>

interpretation images: keyed_store
  "\<lambda>c k. map_option (\<lambda>i. (k, i)) (c k)" "\<lambda>v c. c(fst v \<mapsto> snd v)" fst image_clear
  by unfold_locales (auto simp: image_clear_def)


section \<open>What is cached is an image\<close>

lemma length_draw_pixel [simp]: "length (draw_pixel f sw sh y x i pixels) = length pixels"
  by (simp add: draw_pixel_def Let_def)

lemma length_draw_row: "length (snd (draw_row f sw sh y xs st)) = length (snd st)"
  by (induction f sw sh y xs st rule: draw_row.induct) (simp_all split: list.split)

lemma draw_frame_valid: "0 < sw \<Longrightarrow> 0 < sh \<Longrightarrow> image_valid (draw_frame f interlaced sw sh indices)"
proof -
  have "length (snd (fold (\<lambda>y. draw_row f sw sh y xs) ys st)) = length (snd st)" for ys xs st
    by (induction ys arbitrary: st) (simp_all add: length_draw_row)
  then show "0 < sw \<Longrightarrow> 0 < sh \<Longrightarrow> image_valid (draw_frame f interlaced sw sh indices)"
    by (simp add: image_valid_def draw_frame_def)
qed

lemma read_frame_valid: "0 < sw \<Longrightarrow> 0 < sh \<Longrightarrow> read_frame bs p sw sh g t = Some i \<Longrightarrow> image_valid i"
  by (auto simp: read_frame_def Let_def draw_frame_valid split: if_splits option.splits prod.splits)

lemma gif_blocks_valid: "0 < sw \<Longrightarrow> 0 < sh \<Longrightarrow> gif_blocks bs p sw sh g t = Some i \<Longrightarrow> image_valid i"
proof (induction bs p sw sh g t rule: gif_blocks.induct)
  case (1 bs p sw sh g t)
  show ?case
  proof (cases "p < length bs \<and> bs ! p = 0x21")
    case True
    then obtain q u where e: "read_extension bs (p + 1) t = Some (q, u)"
      using 1(4) by (subst (asm) gif_blocks.simps) (auto simp: Let_def split: option.splits)
    then have "gif_blocks bs q sw sh g u = Some i" using 1(4) True by (subst (asm) gif_blocks.simps) (simp add: Let_def)
    then show ?thesis using 1(1) [OF _ refl refl _ _ e refl] 1(2,3) True by simp
  next
    case False
    then show ?thesis using 1(2-4) read_frame_valid
      by (subst (asm) gif_blocks.simps) (auto simp: Let_def split: if_splits)
  qed
qed

lemma decode_gif_valid: "decode_gif bs = Some i \<Longrightarrow> image_valid i"
  by (auto simp: decode_gif_def Let_def split: if_splits intro: gif_blocks_valid)

definition image_ok :: "image option \<Rightarrow> bool" where
  "image_ok i = (case i of None \<Rightarrow> True | Some img \<Rightarrow> image_valid img)"

lemma image_ok_simps [simp]: "image_ok None" "image_ok (Some i) = image_valid i"
  by (simp_all add: image_ok_def)

lemma ppm_pixels_length:
  "returns_only (\<lambda>p. case p of None \<Rightarrow> True | Some px \<Rightarrow> length px = n + length out) (ppm_pixels n maxv s out)"
proof (induction n maxv s out rule: ppm_pixels.induct)
  case (2 n maxv s out)
  show ?case
  proof (cases "ppm_tokens3 s")
    case (Some t)
    obtain r g b s' where t: "t = ((r, g, b), s')" by (cases t) auto
    have "returns_only (\<lambda>p. case p of None \<Rightarrow> True | Some px \<Rightarrow> length px = Suc n + length out)
        (ppm_pixels n maxv s' (rgba red green blue 255 # out))" for red green blue
      by (rule returns_only_weaken [OF 2 [OF Some [unfolded t] refl refl refl]]) (auto split: option.splits)
    then show ?thesis using Some t
      by (cases "ppm_channel maxv r"; cases "ppm_channel maxv g"; cases "ppm_channel maxv b") simp_all
  qed simp
qed simp

lemma load_ppm_valid: "returns_only image_ok (load_ppm bs)"
proof -
  have "returns_only image_ok (bind_run (ppm_pixels (nat (w * h)) maxv s [])
      (\<lambda>pixels. Returns (map_option (\<lambda>p. \<lparr> img_width = w, img_height = h, img_pixels = p \<rparr>) pixels)))"
    if "0 < w" "0 < h" for w h maxv s
    by (rule returns_only_bind [OF ppm_pixels_length])
      (use that in \<open>auto simp: image_valid_def split: option.splits\<close>)
  then show ?thesis
    by (auto simp: load_ppm_def Let_def not_le split: prod.splits option.split intro!: returns_only_bind [where P = "\<lambda>_. True"]
        simp del: bind_run_simps) (simp_all add: returns_only_iff)
qed

definition decoders_ok :: "decoders \<Rightarrow> bool" where
  "decoders_ok dec \<longleftrightarrow>
     (\<forall>bs. returns_only image_ok (render_svg dec bs) \<and> returns_only image_ok (decode_webp dec bs))"

lemma decode_jpeg_ok: "returns_only image_ok (decode_jpeg cosine bs)"
  by (rule returns_only_weaken [OF decode_jpeg_valid]) (simp add: image_ok_def)

lemma decode_image_valid: "decoders_ok dec \<Longrightarrow> returns_only image_ok (decode_image dec bs)"
  using decode_png_valid [of bs] decode_jpeg_ok
  by (auto simp: decode_image_def decoders_ok_def of_outcome_def load_ppm_valid image_ok_def decode_gif_valid
      split: outcome.split option.split)

definition images_ok :: "image_cache \<Rightarrow> bool" where
  "images_ok images \<longleftrightarrow> (\<forall>u i. images u = Some i \<longrightarrow> image_valid i)"

lemma images_ok_empty [simp]: "images_ok Map.empty"
  by (simp add: images_ok_def)

lemma image_load_ok:
  assumes "decoders_ok dec" and "images_ok images"
  shows "returns_only (\<lambda>(i, images'). image_ok i \<and> images_ok images' \<and>
      (\<forall>k v. images k = Some v \<longrightarrow> images' k = Some v)) (image_load dec u resources images)"
proof (cases "images u")
  case None
  have "returns_only (\<lambda>(i, images'). image_ok i \<and> images_ok images' \<and> (\<forall>k v. images k = Some v \<longrightarrow> images' k = Some v))
      (bind_run (decode_image dec bs) (\<lambda>i. Returns (i, case i of None \<Rightarrow> images | Some img \<Rightarrow> images(u \<mapsto> img))))" for bs
    by (rule returns_only_bind [OF decode_image_valid [OF assms(1)]])
      (use assms(2) None in \<open>auto simp: images_ok_def split: option.splits\<close>)
  then show ?thesis using None assms(2) by (simp add: image_load_def split: option.split)
next
  case (Some i)
  then show ?thesis using assms(2) by (auto simp: image_load_def images_ok_def)
qed

end
