(* ===== verification/Html_Tokenizer.thy ===== *)
theory Html_Tokenizer
  imports Scan "HOL-Library.AList"
begin

text \<open>
  \<open>html_tokenizer.hpp\<close> and \<open>html_tokenizer.cpp\<close>: the class \<open>HtmlTokenizer\<close> as a record of
  its members, one definition per member function, in the order of the file.  The
  tokenizer is proved to be an instance of the \<open>scanner\<close> interface; from it follow that no
  character is skipped or read twice, that lines and columns are those of the text
  consumed, and that \<open>next_token\<close> always makes progress.
\<close>

datatype html_token_type = Doctype | StartTag | EndTag | SelfClosingTag | TextToken | CommentToken | EOFToken

record html_token =
  token_type :: html_token_type
  token_data :: string
  token_attributes :: "(string \<times> string) list"
  token_line :: nat
  token_column :: nat
  is_self_closing :: bool

record html_tokenizer =
  m_input :: string
  m_position :: nat
  m_line :: nat
  m_column :: nat
  m_emitted_eof :: bool

definition new_tokenizer :: "string \<Rightarrow> html_tokenizer" where
  "new_tokenizer input =
     \<lparr> m_input = input, m_position = 0, m_line = 1, m_column = 1, m_emitted_eof = False \<rparr>"

section \<open>Character classes\<close>

definition is_whitespace :: "char \<Rightarrow> bool" where
  "is_whitespace c \<longleftrightarrow> c = CHR '' '' \<or> c = CHR 0x09 \<or> c = CHR 0x0A \<or> c = CHR 0x0D \<or> c = CHR 0x0C"

definition is_alpha :: "char \<Rightarrow> bool" where
  "is_alpha c \<longleftrightarrow> (97 \<le> ascii c \<and> ascii c \<le> 122) \<or> (65 \<le> ascii c \<and> ascii c \<le> 90)"

definition is_tag_name_char :: "char \<Rightarrow> bool" where
  "is_tag_name_char c \<longleftrightarrow> c \<noteq> CHR 0x00 \<and> \<not> is_whitespace c \<and> c \<noteq> CHR ''/'' \<and> c \<noteq> CHR ''>''"

definition is_attribute_name_char :: "char \<Rightarrow> bool" where
  "is_attribute_name_char c \<longleftrightarrow>
     c \<noteq> CHR 0x00 \<and> \<not> is_whitespace c \<and> c \<noteq> CHR ''='' \<and> c \<noteq> CHR ''/'' \<and> c \<noteq> CHR ''>''"

definition to_lower :: "char \<Rightarrow> char" where
  "to_lower c = (if 65 \<le> ascii c \<and> ascii c \<le> 90 then char_of (ascii c - 65 + 97) else c)"

definition to_lower_copy :: "string \<Rightarrow> string" where
  "to_lower_copy s = map to_lower s"

section \<open>The cursor\<close>

definition eof :: "html_tokenizer \<Rightarrow> bool" where
  "eof s \<longleftrightarrow> length (m_input s) \<le> m_position s"

definition peek :: "html_tokenizer \<Rightarrow> nat \<Rightarrow> char" where
  "peek s offset =
     (let position = m_position s + offset
      in if position < length (m_input s) then m_input s ! position else CHR 0x00)"

text \<open>\<open>m_input.substr(m_position, n) == text\<close>; the position never passes the end
  (\<open>reaches_wf\<close> below), so \<open>substr\<close> does not throw.\<close>

definition starts_with :: "html_tokenizer \<Rightarrow> string \<Rightarrow> bool" where
  "starts_with s p \<longleftrightarrow> take (length p) (drop (m_position s) (m_input s)) = p"

definition consume :: "html_tokenizer \<Rightarrow> html_tokenizer" where
  "consume s =
     (if eof s then s
      else let s' = (if m_input s ! m_position s = CHR 0x0A
                     then s\<lparr> m_line := Suc (m_line s), m_column := 1 \<rparr>
                     else s\<lparr> m_column := Suc (m_column s) \<rparr>)
           in s'\<lparr> m_position := Suc (m_position s) \<rparr>)"

text \<open>The remaining input: what the proofs see of the position.\<close>

definition rest :: "html_tokenizer \<Rightarrow> string" where
  "rest s = drop (m_position s) (m_input s)"

definition place :: "html_tokenizer \<Rightarrow> nat \<times> nat" where
  "place s = (m_line s, m_column s)"

lemma eof_rest: "eof s \<longleftrightarrow> rest s = []"
  by (simp add: eof_def rest_def)

lemma peek_rest: "peek s n = (if n < length (rest s) then rest s ! n else CHR 0x00)"
  by (auto simp: peek_def rest_def Let_def)

lemma peek_0 [simp]: "rest s = c # cs \<Longrightarrow> peek s 0 = c"
  by (simp add: peek_rest)

lemma peek_1 [simp]: "rest s = c # d # cs \<Longrightarrow> peek s (Suc 0) = d"
  by (simp add: peek_rest)

lemma peek_end [simp]: "rest s = [] \<Longrightarrow> peek s n = CHR 0x00"
  by (simp add: peek_rest)

lemma starts_with_rest: "starts_with s p \<longleftrightarrow> is_prefix p (rest s)"
  by (simp add: starts_with_def is_prefix_take rest_def)

lemma consume_emitted [simp]: "m_emitted_eof (consume s) = m_emitted_eof s"
  by (simp add: consume_def Let_def)

lemma consume_input [simp]: "m_input (consume s) = m_input s"
  by (simp add: consume_def Let_def)

lemma consume_position: "m_position (consume s) = (if eof s then m_position s else Suc (m_position s))"
  by (simp add: consume_def Let_def)

section \<open>The loops\<close>

text \<open>\<open>while (!eof() \<and> P) consume();\<close> and \<open>while (!eof() \<and> P) { x += peek(); consume(); }\<close>,
  where the test may look at any offset.\<close>

function skip_while :: "(html_tokenizer \<Rightarrow> bool) \<Rightarrow> html_tokenizer \<Rightarrow> html_tokenizer" where
  "skip_while P s = (if \<not> eof s \<and> P s then skip_while P (consume s) else s)"
  by pat_completeness auto
termination
  by (relation "measure (\<lambda>(P, s). length (m_input s) - m_position s)")
    (auto simp: consume_position eof_def)

function take_while :: "(html_tokenizer \<Rightarrow> bool) \<Rightarrow> html_tokenizer \<Rightarrow> string \<times> html_tokenizer" where
  "take_while P s =
     (if \<not> eof s \<and> P s
      then let (d, t) = take_while P (consume s) in (peek s 0 # d, t)
      else ([], s))"
  by pat_completeness auto
termination
  by (relation "measure (\<lambda>(P, s). length (m_input s) - m_position s)")
    (auto simp: consume_position eof_def)

declare skip_while.simps [simp del] take_while.simps [simp del]

definition skip_whitespace :: "html_tokenizer \<Rightarrow> html_tokenizer" where
  "skip_whitespace s = skip_while (\<lambda>t. is_whitespace (peek t 0)) s"

fun advance_text :: "string \<Rightarrow> html_tokenizer \<Rightarrow> html_tokenizer" where
  "advance_text [] s = s"
| "advance_text (c # p) s = (if eof s then s else advance_text p (consume s))"

interpretation html: scanner rest place consume skip_while take_while
proof
  show "\<And>s. rest s = [] \<Longrightarrow> consume s = s"
    by (simp add: consume_def eof_rest)
  show "rest (consume s) = cs" if "rest s = c # cs" for s c cs
    using that by (auto simp: rest_def consume_position eof_def drop_Suc tl_drop [symmetric])
  show "\<And>s c cs. rest s = c # cs \<Longrightarrow> place (consume s) = next_place c (place s)"
  proof -
    fix s c cs assume r: "rest s = c # cs"
    then have "m_position s < length (m_input s)" by (metis drop_eq_Nil2 leI list.distinct(1) rest_def)
    moreover from r this have "m_input s ! m_position s = c"
      by (metis hd_drop_conv_nth list.sel(1) rest_def)
    ultimately show "place (consume s) = next_place c (place s)"
      using ascii_inject [of c "CHR 0x0A"] by (auto simp: consume_def eof_def place_def Let_def simp del: ascii_inject)
  qed
  show "\<And>s P. rest s = [] \<or> \<not> P s \<Longrightarrow> skip_while P s = s"
    by (subst skip_while.simps) (auto simp: eof_rest)
  show "\<And>s P. rest s \<noteq> [] \<Longrightarrow> P s \<Longrightarrow> skip_while P s = skip_while P (consume s)"
    by (subst skip_while.simps) (auto simp: eof_rest)
  show "\<And>s P. rest s = [] \<or> \<not> P s \<Longrightarrow> take_while P s = ([], s)"
    by (subst take_while.simps) (auto simp: eof_rest)
  show "\<And>s P. rest s \<noteq> [] \<Longrightarrow> P s \<Longrightarrow> take_while P s =
      (hd (rest s) # fst (take_while P (consume s)), snd (take_while P (consume s)))"
    by (subst take_while.simps) (auto simp: eof_rest peek_rest hd_conv_nth split: prod.split)
qed

section \<open>The token producers\<close>

definition make_token :: "html_token_type \<Rightarrow> string \<Rightarrow> nat \<Rightarrow> nat \<Rightarrow> html_token" where
  "make_token ty data line column =
     \<lparr> token_type = ty, token_data = data, token_attributes = [],
       token_line = line, token_column = column, is_self_closing = False \<rparr>"

definition parse_text :: "html_tokenizer \<Rightarrow> html_token \<times> html_tokenizer" where
  "parse_text s =
     (let (d, t) = take_while (\<lambda>t. peek t 0 \<noteq> CHR ''<'') s
      in (make_token TextToken d (m_line s) (m_column s), t))"

definition parse_comment :: "html_tokenizer \<Rightarrow> nat \<Rightarrow> nat \<Rightarrow> html_token \<times> html_tokenizer" where
  "parse_comment s line column =
     (let s1 = advance_text ''<!--'' s;
          (data, s2) = take_while (\<lambda>t. \<not> starts_with t ''-->'') s1;
          s3 = (if starts_with s2 ''-->'' then advance_text ''-->'' s2 else s2)
      in (make_token CommentToken data line column, s3))"

definition parse_doctype :: "html_tokenizer \<Rightarrow> nat \<Rightarrow> nat \<Rightarrow> html_token \<times> html_tokenizer" where
  "parse_doctype s line column =
     (let s1 = advance_text ''<!'' s;
          s2 = skip_while (\<lambda>t. is_alpha (peek t 0)) s1;
          s3 = skip_whitespace s2;
          (name, s4) = take_while (\<lambda>t. peek t 0 \<noteq> CHR ''>'') s3;
          name' = rev (dropWhile is_whitespace (rev name));
          s5 = (if \<not> eof s4 \<and> peek s4 0 = CHR ''>'' then consume s4 else s4)
      in (make_token Doctype (to_lower_copy name') line column, s5))"

text \<open>The attribute value after the name: \<open>=\<close> and a quoted or unquoted text, or nothing.\<close>

definition attribute_value :: "html_tokenizer \<Rightarrow> string \<times> html_tokenizer" where
  "attribute_value s =
     (if peek s 0 = CHR ''='' then
        let s1 = skip_whitespace (consume s) in
        if peek s1 0 = CHR 0x22 \<or> peek s1 0 = CHR 0x27 then
          let quote = peek s1 0;
              (v, s2) = take_while (\<lambda>t. peek t 0 \<noteq> quote) (consume s1)
          in (v, if \<not> eof s2 then consume s2 else s2)
        else take_while (\<lambda>t. \<not> is_whitespace (peek t 0) \<and> peek t 0 \<noteq> CHR ''>'' \<and>
                             \<not> (peek t 0 = CHR ''/'' \<and> peek t 1 = CHR ''>'')) s1
      else ([], s))"

text \<open>Every step of the attribute loop is a run of \<open>consume\<close>; this measure is what is left.\<close>

definition left :: "html_tokenizer \<Rightarrow> nat" where
  "left s = length (rest s)"

lemma left_reaches: "html.reaches s u t \<Longrightarrow> left s = length u + left t"
  by (simp add: left_def html.reaches_rest)

lemma left_consume_le [bounds_intros]: "left (consume s) \<le> left s"
  using left_reaches [OF html.reaches_consume [of s]] by simp

lemma left_consume_less: "\<not> eof s \<Longrightarrow> left (consume s) < left s"
  using left_reaches [OF html.reaches_consume [of s]] by (cases "rest s") (auto simp: eof_rest)

lemma reaches_skip_whitespace:
  "html.reaches s (fst (take_while (\<lambda>t. is_whitespace (peek t 0)) s)) (skip_whitespace s)"
  by (simp add: skip_whitespace_def html.reaches_skip_while)

lemma left_skip_whitespace [bounds_intros]: "left (skip_whitespace s) \<le> left s"
  using left_reaches [OF reaches_skip_whitespace, of s] by simp

lemma left_take_while:
  "take_while P s = (d, t) \<Longrightarrow> left s = length d + left t"
  using left_reaches [OF html.reaches_take_while, of s P] by simp

lemma reaches_advance_text: "html.reaches s (take (length p) (rest s)) (advance_text p s)"
proof (induction p s rule: advance_text.induct)
  case (1 s)
  then show ?case by (simp add: html.reaches_refl)
next
  case (2 c p s)
  show ?case
  proof (cases "rest s")
    case Nil
    then show ?thesis by (simp add: eof_rest html.reaches_refl)
  next
    case (Cons d cs)
    then have "html.reaches (consume s) (take (length p) cs) (advance_text p (consume s))"
      using 2 by (simp add: eof_rest html.consume_rest)
    then show ?thesis using Cons by (simp add: eof_rest html.reaches_step)
  qed
qed

declare advance_text.simps [simp del]

lemma reaches_attribute_value: "\<exists>u. html.reaches s u (snd (attribute_value s))"
proof (cases "peek s 0 = CHR ''=''")
  case False
  then show ?thesis by (auto simp: attribute_value_def intro: html.reaches_refl)
next
  case True
  let ?s1 = "skip_whitespace (consume s)"
  obtain u where u: "html.reaches s u ?s1"
    using html.reaches_trans [OF html.reaches_consume reaches_skip_whitespace] by blast
  show ?thesis
  proof (cases "peek ?s1 0 = CHR 0x22 \<or> peek ?s1 0 = CHR 0x27")
    case q: True
    let ?tw = "take_while (\<lambda>t. peek t 0 \<noteq> peek ?s1 0) (consume ?s1)"
    have "html.reaches ?s1 (take 1 (rest ?s1) @ fst ?tw) (snd ?tw)"
      by (rule html.reaches_trans [OF html.reaches_consume html.reaches_take_while])
    then obtain v where v: "html.reaches s v (snd ?tw)" using html.reaches_trans [OF u] by blast
    have "\<exists>w. html.reaches s w (if \<not> eof (snd ?tw) then consume (snd ?tw) else snd ?tw)"
      using v html.reaches_trans [OF v html.reaches_consume] by auto
    then show ?thesis using True q
      by (simp add: attribute_value_def Let_def case_prod_unfold)
  next
    case False
    then show ?thesis using True html.reaches_trans [OF u html.reaches_take_while]
      by (auto simp: attribute_value_def Let_def)
  qed
qed

lemma left_attribute_value [bounds_intros]: "attribute_value s = (v, t) \<Longrightarrow> left t \<le> left s"
  using reaches_attribute_value [of s] left_reaches by (metis le_add2 snd_conv)

lemma attribute_loop_progress:
  assumes "\<not> eof s" and "skip_whitespace s = s0"
    and "(name, s1) = take_while (\<lambda>t. is_attribute_name_char (peek t 0)) s0"
  shows "name = [] \<Longrightarrow> left (consume s1) < left s"
    and "name \<noteq> [] \<Longrightarrow> (v, s2) = attribute_value (skip_whitespace s1) \<Longrightarrow> left s2 < left s"
proof -
  have s0: "left s0 \<le> left s" using left_skip_whitespace [of s] assms(2) by simp
  have s1: "left s0 = length name + left s1" by (rule left_take_while [OF assms(3) [symmetric]])
  show "left (consume s1) < left s" if "name = []"
  proof (cases "eof s1")
    case True
    have "0 < left s" using assms(1) by (simp add: left_def eof_rest)
    then show ?thesis using True left_consume_le [of s1] by (simp add: left_def eof_rest)
  next
    case False
    then show ?thesis using left_consume_less [OF False] s0 s1 by simp
  qed
  show "left s2 < left s" if "name \<noteq> []" "(v, s2) = attribute_value (skip_whitespace s1)"
  proof -
    have "left s2 \<le> left s1"
      using left_attribute_value [OF that(2) [symmetric]] left_skip_whitespace [of s1] by simp
    moreover have "0 < length name" using that(1) by simp
    ultimately show ?thesis using s0 s1 by linarith
  qed
qed

text \<open>The attribute loop of \<open>parse_tag\<close>.\<close>

function attribute_loop :: "html_tokenizer \<Rightarrow> html_token \<Rightarrow> html_token \<times> html_tokenizer" where
  "attribute_loop s token =
     (if eof s then (token, s)
      else let s = skip_whitespace s in
        if peek s 0 = CHR ''>'' then (token, consume s)
        else if peek s 0 = CHR ''/'' \<and> peek s 1 = CHR ''>'' then
          (token\<lparr> token_type := SelfClosingTag, is_self_closing := True \<rparr>, consume (consume s))
        else
          let (name, s1) = take_while (\<lambda>t. is_attribute_name_char (peek t 0)) s in
          if name = [] then attribute_loop (consume s1) token
          else
            let (value, s2) = attribute_value (skip_whitespace s1) in
            attribute_loop s2 (token\<lparr> token_attributes := AList.update (map to_lower name) value (token_attributes token) \<rparr>))"
  by pat_completeness auto

termination
proof (relation "measure (\<lambda>(s, token). left s)", simp)
qed (auto dest: attribute_loop_progress)

declare attribute_loop.simps [simp del]

definition parse_tag :: "html_tokenizer \<Rightarrow> bool \<Rightarrow> nat \<Rightarrow> nat \<Rightarrow> html_token \<times> html_tokenizer" where
  "parse_tag s is_end_tag line column =
     (let s1 = consume s;
          s2 = (if is_end_tag \<and> peek s1 0 = CHR ''/'' then consume s1 else s1);
          s3 = skip_whitespace s2;
          (name, s4) = take_while (\<lambda>t. is_tag_name_char (peek t 0)) s3;
          token = make_token (if is_end_tag then EndTag else StartTag) (map to_lower name) line column
      in if is_end_tag then
           let s5 = skip_while (\<lambda>t. peek t 0 \<noteq> CHR ''>'') s4
           in (token, if \<not> eof s5 then consume s5 else s5)
         else attribute_loop s4 token)"

definition next_token :: "html_tokenizer \<Rightarrow> html_token \<times> html_tokenizer" where
  "next_token s =
     (if m_emitted_eof s then (make_token EOFToken [] (m_line s) (m_column s), s)
      else if eof s then
        let s' = s\<lparr> m_emitted_eof := True \<rparr> in (make_token EOFToken [] (m_line s') (m_column s'), s')
      else if peek s 0 \<noteq> CHR ''<'' then parse_text s
      else if starts_with s ''<!--'' then parse_comment s (m_line s) (m_column s)
      else if starts_with s ''<!DOCTYPE'' \<or> starts_with s ''<!doctype'' then
        parse_doctype s (m_line s) (m_column s)
      else if peek s 1 = CHR ''/'' then parse_tag s True (m_line s) (m_column s)
      else if is_alpha (peek s 1) then parse_tag s False (m_line s) (m_column s)
      else (make_token TextToken ''<'' (m_line s) (m_column s), consume s))"

section \<open>Every token is a run of \<open>consume\<close>\<close>

lemma reaches_if_consume:
  "html.reaches s u t \<Longrightarrow> \<exists>u'. html.reaches s u' (if b then consume t else t)"
  using html.reaches_trans [OF _ html.reaches_consume] by (cases b) auto

lemma reaches_attribute_loop: "\<exists>u. html.reaches s u (snd (attribute_loop s token))"
proof (induction s token rule: attribute_loop.induct)
  case (1 s token)
  let ?s0 = "skip_whitespace s"
  obtain u0 where u0: "html.reaches s u0 ?s0" using reaches_skip_whitespace by blast
  obtain name s1 where tw: "take_while (\<lambda>t. is_attribute_name_char (peek t 0)) ?s0 = (name, s1)"
    by (cases "take_while (\<lambda>t. is_attribute_name_char (peek t 0)) ?s0")
  have "html.reaches ?s0 name s1"
    using html.reaches_take_while [of ?s0 "\<lambda>t. is_attribute_name_char (peek t 0)"] tw by simp
  then have u1: "html.reaches s (u0 @ name) s1" by (rule html.reaches_trans [OF u0])
  obtain v s2 where av: "attribute_value (skip_whitespace s1) = (v, s2)"
    by (cases "attribute_value (skip_whitespace s1)")
  obtain u2 where u2: "html.reaches s u2 s2"
    using html.reaches_trans [OF html.reaches_trans [OF u1 reaches_skip_whitespace]]
      reaches_attribute_value [of "skip_whitespace s1"] av by (metis snd_conv)
  obtain u3 where u3: "html.reaches s u3 (consume s1)"
    using html.reaches_trans [OF u1 html.reaches_consume] by blast
  show ?case
  proof (cases "eof s")
    case True
    then show ?thesis by (subst attribute_loop.simps) (auto intro: html.reaches_refl)
  next
    case open_: False
    show ?thesis
    proof (cases "peek ?s0 0 = CHR ''>'' \<or> peek ?s0 0 = CHR ''/'' \<and> peek ?s0 1 = CHR ''>''")
      case True
      have a: "\<exists>u. html.reaches s u (consume ?s0)"
        using html.reaches_trans [OF u0 html.reaches_consume] by blast
      then have "\<exists>u. html.reaches s u (consume (consume ?s0))"
        using html.reaches_trans [OF _ html.reaches_consume] by blast
      with a True open_ show ?thesis
        by (subst attribute_loop.simps) (auto simp: Let_def)
    next
      case False
      show ?thesis
      proof (cases "name = []")
        case True
        obtain u4 where "html.reaches (consume s1) u4 (snd (attribute_loop (consume s1) token))"
          using 1(1) [OF open_ refl _ _ tw [symmetric] refl True] False by blast
        then have "\<exists>u. html.reaches s u (snd (attribute_loop (consume s1) token))"
          using html.reaches_trans [OF u3] by blast
        then show ?thesis using open_ False True tw
          by (subst attribute_loop.simps) (auto simp: Let_def)
      next
        case named: False
        let ?t = "token\<lparr> token_attributes := AList.update (map to_lower name) v (token_attributes token) \<rparr>"
        obtain u4 where "html.reaches s2 u4 (snd (attribute_loop s2 ?t))"
          using 1(2) [OF open_ refl _ _ tw [symmetric] refl named av [symmetric] refl] False by blast
        then have "\<exists>u. html.reaches s u (snd (attribute_loop s2 ?t))"
          using html.reaches_trans [OF u2] by blast
        then show ?thesis using open_ False named tw av
          by (subst attribute_loop.simps) (auto simp: Let_def)
      qed
    qed
  qed
qed

lemma reaches_prepend:
  "html.reaches s u t \<Longrightarrow> \<exists>v. html.reaches t v w \<Longrightarrow> \<exists>v. html.reaches s (u @ v) w"
  using html.reaches_trans by blast

lemma reaches_parse_text:
  "rest s = c # cs \<Longrightarrow> c \<noteq> CHR ''<'' \<Longrightarrow> \<exists>u. html.reaches s (c # u) (snd (parse_text s))"
proof -
  assume r: "rest s = c # cs" and c: "c \<noteq> CHR ''<''"
  let ?P = "\<lambda>t. peek t 0 \<noteq> CHR ''<''"
  have "html.reaches s (fst (take_while ?P s)) (snd (take_while ?P s))"
    by (rule html.reaches_take_while)
  moreover have "fst (take_while ?P s) = c # fst (take_while ?P (consume s))"
    using r c by (simp add: html.take_go)
  ultimately show ?thesis by (auto simp: parse_text_def case_prod_unfold Let_def)
qed

lemma reaches_parse_comment:
  assumes "is_prefix ''<!--'' (rest s)"
  shows "\<exists>u. html.reaches s (''<!--'' @ u) (snd (parse_comment s l k))"
proof -
  let ?s1 = "advance_text ''<!--'' s"
  let ?s2 = "snd (take_while (\<lambda>t. \<not> starts_with t ''-->'') ?s1)"
  have s1: "html.reaches s ''<!--'' ?s1"
    using reaches_advance_text [of s "''<!--''"] assms by (simp only: is_prefix_take)
  have "\<exists>v. html.reaches ?s1 v (if starts_with ?s2 ''-->'' then advance_text ''-->'' ?s2 else ?s2)"
  proof (cases "starts_with ?s2 ''-->''")
    case True
    show ?thesis unfolding if_P [OF True]
      by (rule exI) (rule html.reaches_trans [OF html.reaches_take_while reaches_advance_text])
  next
    case False
    show ?thesis unfolding if_not_P [OF False] by (rule exI) (rule html.reaches_take_while)
  qed
  from reaches_prepend [OF s1 this] show ?thesis
    unfolding parse_comment_def Let_def case_prod_unfold by (simp only: snd_conv)
qed

lemma reaches_parse_doctype:
  assumes "is_prefix ''<!'' (rest s)"
  shows "\<exists>u. html.reaches s (''<!'' @ u) (snd (parse_doctype s l k))"
proof -
  let ?s1 = "advance_text ''<!'' s"
  let ?s3 = "skip_whitespace (skip_while (\<lambda>t. is_alpha (peek t 0)) ?s1)"
  let ?s4 = "snd (take_while (\<lambda>t. peek t 0 \<noteq> CHR ''>'') ?s3)"
  have s1: "html.reaches s ''<!'' ?s1"
    using reaches_advance_text [of s "''<!''"] assms by (simp only: is_prefix_take)
  have "\<exists>v. html.reaches ?s1 v ?s4"
    using html.reaches_trans [OF html.reaches_skip_while
        html.reaches_trans [OF reaches_skip_whitespace html.reaches_take_while]] by blast
  then have "\<exists>v. html.reaches ?s1 v (if \<not> eof ?s4 \<and> peek ?s4 0 = CHR ''>'' then consume ?s4 else ?s4)"
    using reaches_if_consume by blast
  from reaches_prepend [OF s1 this] show ?thesis
    unfolding parse_doctype_def Let_def case_prod_unfold by (simp only: snd_conv)
qed

lemma reaches_parse_tag:
  assumes "rest s = c # cs"
  shows "\<exists>u. html.reaches s (c # u) (snd (parse_tag s b l k))"
proof -
  let ?s1 = "consume s"
  let ?s2 = "if b \<and> peek ?s1 0 = CHR ''/'' then consume ?s1 else ?s1"
  let ?s4 = "snd (take_while (\<lambda>t. is_tag_name_char (peek t 0)) (skip_whitespace ?s2))"
  let ?s5 = "skip_while (\<lambda>t. peek t 0 \<noteq> CHR ''>'') ?s4"
  have s1: "html.reaches s [c] ?s1" by (rule html.reaches_consume_Cons [OF assms])
  obtain u2 where u2: "html.reaches ?s1 u2 ?s2" using reaches_if_consume [OF html.reaches_refl] by blast
  obtain u4 where u4: "html.reaches ?s1 u4 ?s4"
    using html.reaches_trans [OF u2
        html.reaches_trans [OF reaches_skip_whitespace html.reaches_take_while]] by blast
  have "\<exists>v. html.reaches ?s1 v (if \<not> eof ?s5 then consume ?s5 else ?s5)"
    using reaches_if_consume [OF html.reaches_trans [OF u4 html.reaches_skip_while]] by blast
  moreover have "\<exists>v. html.reaches ?s1 v (snd (attribute_loop ?s4 tok))" for tok
    using html.reaches_trans [OF u4] reaches_attribute_loop by blast
  ultimately have "\<exists>v. html.reaches ?s1 v (snd (parse_tag s b l k))"
    unfolding parse_tag_def Let_def case_prod_unfold
    by (cases b) (simp_all only: if_True if_False snd_conv)
  then show ?thesis using reaches_prepend [OF s1] by simp
qed

lemma next_token_reaches:
  assumes "\<not> m_emitted_eof s" and "rest s = c # cs"
  shows "\<exists>u. html.reaches s (c # u) (snd (next_token s))"
proof -
  have live: "\<not> eof s" using assms(2) by (simp add: eof_rest)
  consider "c \<noteq> CHR ''<''" | "c = CHR ''<''" "starts_with s ''<!--''"
    | "c = CHR ''<''" "\<not> starts_with s ''<!--''" "starts_with s ''<!DOCTYPE'' \<or> starts_with s ''<!doctype''"
    | "c = CHR ''<''" "\<not> starts_with s ''<!--''" "\<not> (starts_with s ''<!DOCTYPE'' \<or> starts_with s ''<!doctype'')"
    by blast
  then show ?thesis
  proof cases
    case 1
    then show ?thesis using assms live reaches_parse_text [OF assms(2)] by (simp add: next_token_def)
  next
    case 2
    then show ?thesis using assms live reaches_parse_comment [of s]
      by (auto simp: next_token_def starts_with_rest)
  next
    case 3
    then have "is_prefix ''<!'' (rest s)" by (auto simp: starts_with_rest is_prefix_iff)
    then show ?thesis using 3 assms live reaches_parse_doctype [of s]
      by (auto simp: next_token_def)
  next
    case 4
    then show ?thesis using assms live reaches_parse_tag [OF assms(2)]
        html.reaches_consume_Cons [OF assms(2)]
      by (auto simp: next_token_def)
  qed
qed

lemma left_next_token:
  "\<not> m_emitted_eof s \<Longrightarrow> \<not> eof s \<Longrightarrow> left (snd (next_token s)) < left s"
  using next_token_reaches [of s] left_reaches [of s] by (cases "rest s") (auto simp: eof_rest)

section \<open>Where tokens are\<close>

lemma make_token_sel [simp]:
  "token_type (make_token ty d l k) = ty" "token_data (make_token ty d l k) = d"
  "token_line (make_token ty d l k) = l" "token_column (make_token ty d l k) = k"
  "token_attributes (make_token ty d l k) = []" "is_self_closing (make_token ty d l k) = False"
  by (simp_all add: make_token_def)

lemma attribute_loop_token:
  "token_line (fst (attribute_loop s token)) = token_line token"
  "token_column (fst (attribute_loop s token)) = token_column token"
  "token_data (fst (attribute_loop s token)) = token_data token"
  "token_type token = StartTag \<Longrightarrow> token_type (fst (attribute_loop s token)) \<in> {StartTag, SelfClosingTag}"
  by (induction s token rule: attribute_loop.induct,
      (subst attribute_loop.simps, simp add: Let_def split: prod.split)+)

lemma next_token_place:
  "(token_line (fst (next_token s)), token_column (fst (next_token s))) = place s"
  by (simp add: next_token_def parse_text_def parse_comment_def parse_doctype_def parse_tag_def
      place_def Let_def attribute_loop_token split: prod.split)

lemma next_token_EOF_iff:
  "token_type (fst (next_token s)) = EOFToken \<longleftrightarrow> m_emitted_eof s \<or> eof s"
proof -
  have "token_type (fst (attribute_loop t (make_token StartTag d l k))) \<noteq> EOFToken" for t d l k
    using attribute_loop_token(4) [of "make_token StartTag d l k" t] by auto
  then show ?thesis
    by (simp add: next_token_def parse_text_def parse_comment_def parse_doctype_def parse_tag_def
        Let_def split: prod.split)
qed

lemma reaches_emitted: "html.reaches s u t \<Longrightarrow> m_emitted_eof t = m_emitted_eof s"
  by (induction rule: html.reaches.induct) simp_all

lemma next_token_emitted:
  assumes "\<not> m_emitted_eof s" and "\<not> eof s"
  shows "\<not> m_emitted_eof (snd (next_token s))"
proof -
  obtain c cs where "rest s = c # cs" using assms(2) by (cases "rest s") (auto simp: eof_rest)
  then show ?thesis using next_token_reaches [OF assms(1)] reaches_emitted assms(1) by blast
qed

text \<open>The tokens a caller sees that asks until the end-of-file token, as
  \<open>HtmlTreeBuilder::build\<close> does.\<close>

function token_run :: "html_tokenizer \<Rightarrow> html_token list" where
  "token_run s = (let (token, t) = next_token s in
     if token_type token = EOFToken then [token] else token # token_run t)"
  by pat_completeness auto
termination
proof (relation "measure left", simp)
  fix s x y t
  assume "x = next_token s" "(y, t) = x" "token_type y \<noteq> EOFToken"
  then have "y = fst (next_token s)" "t = snd (next_token s)" by (metis fst_conv, metis snd_conv)
  with \<open>token_type y \<noteq> EOFToken\<close> show "(t, s) \<in> measure left"
    using left_next_token [of s] by (simp add: next_token_EOF_iff)
qed

declare token_run.simps [simp del]

lemma token_run_offsets:
  assumes "\<not> m_emitted_eof s" and "rest s = v" and "place s = place_after u (1, 1)"
  shows "\<exists>offsets. sorted_wrt (<) offsets \<and> hd offsets = length u \<and> offsets \<noteq> [] \<and>
    last offsets = length (u @ v) \<and>
    list_all2 (\<lambda>t k. (token_line t, token_column t) = place_after (take k (u @ v)) (1, 1))
      (token_run s) offsets"
  using assms
proof (induction s arbitrary: u v rule: token_run.induct)
  case (1 s)
  let ?t = "fst (next_token s)" and ?s' = "snd (next_token s)"
  have pl: "(token_line ?t, token_column ?t) = place_after u (1, 1)"
    using next_token_place [of s] 1(4) by simp
  show ?case
  proof (cases "rest s")
    case Nil
    then have "token_run s = [?t]"
      by (subst token_run.simps) (simp add: case_prod_unfold next_token_EOF_iff eof_rest)
    then show ?thesis using Nil pl 1(3) by (intro exI [of _ "[length u]"]) simp
  next
    case (Cons c cs)
    then have live: "\<not> eof s" by (simp add: eof_rest)
    obtain w where w: "html.reaches s (c # w) ?s'" using next_token_reaches [OF 1(2) Cons] by blast
    have run: "token_run s = ?t # token_run ?s'"
      using 1(2) live by (subst token_run.simps) (simp add: case_prod_unfold next_token_EOF_iff Let_def)
    have v: "v = (c # w) @ rest ?s'" using html.reaches_rest [OF w] 1(3) by simp
    have pl': "place ?s' = place_after (u @ c # w) (1, 1)"
      using html.reaches_place [OF w] 1(4) by simp
    have ne: "token_type ?t \<noteq> EOFToken" using 1(2) live by (simp add: next_token_EOF_iff)
    obtain os where os: "sorted_wrt (<) os" "hd os = length (u @ c # w)" "os \<noteq> []"
        "last os = length ((u @ c # w) @ rest ?s')"
        "list_all2 (\<lambda>t k. (token_line t, token_column t) = place_after (take k ((u @ c # w) @ rest ?s')) (1, 1))
           (token_run ?s') os"
      using 1(1) [OF refl prod.collapse ne next_token_emitted [OF 1(2) live] refl pl'] by blast
    have "sorted_wrt (<) (length u # os)"
      using os(1-3) by (cases os) auto
    moreover have "(u @ c # w) @ rest ?s' = u @ v" using v by simp
    ultimately show ?thesis using os run pl by (intro exI [of _ "length u # os"]) simp
  qed
qed

text \<open>The places the tokenizer reports are right for every input: there are strictly
  increasing offsets, starting at 0 and ending at the end of the input, one per token, such
  that each token's line and column are those of its offset, counting newlines from line 1
  and characters from column 1.  In particular asking for tokens until the end-of-file
  token always stops, and every other token consumes at least one character.\<close>

theorem html_token_places:
  "\<exists>offsets. sorted_wrt (<) offsets \<and> hd offsets = 0 \<and> last offsets = length input \<and>
     list_all2 (\<lambda>t k. (token_line t, token_column t) = place_after (take k input) (1, 1))
       (token_run (new_tokenizer input)) offsets"
proof -
  have "rest (new_tokenizer input) = input" "place (new_tokenizer input) = place_after [] (1, 1)"
    "\<not> m_emitted_eof (new_tokenizer input)"
    by (simp_all add: new_tokenizer_def rest_def place_def)
  from token_run_offsets [OF this(3,1,2)] show ?thesis by auto
qed

section \<open>What is read from well-formed markup\<close>

lemma take_while_peek:
  assumes "rest s = u @ v" and "\<forall>c \<in> set u. Q c" and "v = [] \<or> \<not> Q (hd v)"
  obtains t where "take_while (\<lambda>t. Q (peek t 0)) s = (u, t)" and "rest t = v"
proof -
  have "fst (take_while (\<lambda>t. Q (peek t 0)) s) = u \<and> rest (snd (take_while (\<lambda>t. Q (peek t 0)) s)) = v"
    by (rule html.take_while_text [where Q = Q]) (use assms in auto)
  then show thesis using that by (metis prod.collapse)
qed

lemma skip_while_peek: "rest (skip_while (\<lambda>t. Q (peek t 0)) s) = dropWhile Q (rest s)"
proof -
  have "rest (snd (take_while (\<lambda>t. Q (peek t 0)) s)) = dropWhile Q (rest s)"
    by (rule html.take_while_chars(2)) simp
  then show ?thesis by (simp add: html.skip_while_take)
qed

lemma rest_skip_whitespace [simp]: "rest (skip_whitespace s) = dropWhile is_whitespace (rest s)"
  by (simp add: skip_whitespace_def skip_while_peek)

lemma rest_consume [simp]: "rest s = c # cs \<Longrightarrow> rest (consume s) = cs"
  by (rule html.consume_rest)

lemma rest_advance_text: "rest (advance_text p s) = drop (length p) (rest s)"
proof -
  have "rest s = take (length p) (rest s) @ rest (advance_text p s)"
    by (rule html.reaches_rest [OF reaches_advance_text])
  then show ?thesis by (metis append_take_drop_id same_append_eq)
qed

definition render_attribute :: "string \<times> string \<Rightarrow> string" where
  "render_attribute a = CHR '' '' # fst a @ CHR ''='' # CHR 0x22 # snd a @ [CHR 0x22]"

definition plain_attribute :: "string \<times> string \<Rightarrow> bool" where
  "plain_attribute a \<longleftrightarrow> fst a \<noteq> [] \<and> map to_lower (fst a) = fst a \<and>
     (\<forall>c \<in> set (fst a). is_attribute_name_char c) \<and> CHR 0x22 \<notin> set (snd a)"

lemma update_fresh: "k \<notin> fst ` set al \<Longrightarrow> AList.update k v al = al @ [(k, v)]"
  by (induction al) auto

lemma dropWhile_not_hd: "xs = [] \<or> \<not> P (hd xs) \<Longrightarrow> dropWhile P xs = xs"
  by (cases xs) auto

lemma attribute_value_quoted:
  assumes "rest s = CHR ''='' # CHR 0x22 # v @ CHR 0x22 # tail" and "CHR 0x22 \<notin> set v"
  obtains t where "attribute_value s = (v, t)" and "rest t = tail"
proof -
  let ?s1 = "skip_whitespace (consume s)"
  have s1: "rest ?s1 = CHR 0x22 # v @ CHR 0x22 # tail"
    using assms(1) by (simp add: is_whitespace_def)
  have "rest (consume ?s1) = v @ CHR 0x22 # tail" by (rule rest_consume [OF s1])
  then obtain t where t: "take_while (\<lambda>t. peek t 0 \<noteq> CHR 0x22) (consume ?s1) = (v, t)"
      "rest t = CHR 0x22 # tail"
    by (rule take_while_peek [where Q = "\<lambda>c. c \<noteq> CHR 0x22"]) (use assms(2) in auto)
  then have "attribute_value s = (v, consume t)"
    using assms(1) s1 by (simp add: attribute_value_def eof_rest)
  moreover have "rest (consume t) = tail" by (rule rest_consume [OF t(2)])
  ultimately show thesis by (rule that)
qed

lemma attribute_loop_rendered:
  assumes "rest s = concat (map render_attribute as) @ CHR ''>'' # tail"
    and "\<forall>a \<in> set as. plain_attribute a"
    and "distinct (map fst (token_attributes tok @ as))"
  shows "rest (snd (attribute_loop s tok)) = tail \<and>
    fst (attribute_loop s tok) = tok\<lparr> token_attributes := token_attributes tok @ as \<rparr>"
  using assms
proof (induction as arbitrary: s tok)
  case Nil
  then have "\<not> eof s" "rest (skip_whitespace s) = CHR ''>'' # tail"
    by (simp_all add: eof_rest is_whitespace_def)
  then show ?case by (subst (1 2) attribute_loop.simps) simp
next
  case (Cons a as)
  obtain k v where a: "a = (k, v)" by (cases a)
  let ?more = "concat (map render_attribute as) @ CHR ''>'' # tail"
  have k: "k \<noteq> []" "map to_lower k = k" "\<forall>c \<in> set k. is_attribute_name_char c" "CHR 0x22 \<notin> set v"
    using Cons.prems(2) a by (auto simp: plain_attribute_def)
  obtain c k' where kc: "k = c # k'" using k(1) by (cases k) auto
  have nc: "\<not> is_whitespace c" "c \<noteq> CHR ''>''" "c \<noteq> CHR ''/''"
    using k(3) kc by (auto simp: is_attribute_name_char_def)
  have r: "rest s = CHR '' '' # k @ CHR ''='' # CHR 0x22 # v @ CHR 0x22 # ?more"
  proof -
    have "render_attribute a = CHR '' '' # k @ CHR ''='' # CHR 0x22 # v @ [CHR 0x22]"
      by (simp add: render_attribute_def a)
    then show ?thesis using Cons.prems(1) by simp
  qed
  let ?s0 = "skip_whitespace s"
  have r0: "rest ?s0 = k @ CHR ''='' # CHR 0x22 # v @ CHR 0x22 # ?more"
    using r kc nc(1) by (simp add: is_whitespace_def)
  obtain s1 where s1: "take_while (\<lambda>t. is_attribute_name_char (peek t 0)) ?s0 = (k, s1)"
      "rest s1 = CHR ''='' # CHR 0x22 # v @ CHR 0x22 # ?more"
    by (rule take_while_peek [OF r0]) (use k(3) in \<open>auto simp: is_attribute_name_char_def\<close>)
  have "rest (skip_whitespace s1) = CHR ''='' # CHR 0x22 # v @ CHR 0x22 # ?more"
    using s1(2) by (simp add: is_whitespace_def)
  then obtain s2 where s2: "attribute_value (skip_whitespace s1) = (v, s2)" "rest s2 = ?more"
    by (rule attribute_value_quoted) (rule k(4))
  let ?tok = "tok\<lparr> token_attributes := token_attributes tok @ [(k, v)] \<rparr>"
  have "k \<notin> fst ` set (token_attributes tok)" using Cons.prems(3) a by auto
  then have upd: "AList.update (map to_lower k) v (token_attributes tok) = token_attributes tok @ [(k, v)]"
    using k(2) update_fresh by metis
  have "attribute_loop s tok = attribute_loop s2 ?tok"
    using r r0 kc nc s1(1) s2(1) k(1) upd
    by (subst attribute_loop.simps) (simp add: eof_rest Let_def)
  moreover have "rest (snd (attribute_loop s2 ?tok)) = tail \<and>
      fst (attribute_loop s2 ?tok) = ?tok\<lparr> token_attributes := token_attributes ?tok @ as \<rparr>"
    by (rule Cons.IH [OF s2(2)]) (use Cons.prems(2,3) a in auto)
  ultimately show ?case using a by simp
qed

definition plain_tag_name :: "string \<Rightarrow> bool" where
  "plain_tag_name n \<longleftrightarrow> n \<noteq> [] \<and> is_alpha (hd n) \<and> map to_lower n = n \<and> (\<forall>c \<in> set n. is_tag_name_char c)"

lemma next_token_text:
  assumes "\<not> m_emitted_eof s" and "rest s = d @ tail" and "d \<noteq> []" and "CHR ''<'' \<notin> set d"
    and "tail = [] \<or> hd tail = CHR ''<''"
  shows "rest (snd (next_token s)) = tail \<and> token_type (fst (next_token s)) = TextToken \<and>
    token_data (fst (next_token s)) = d"
proof -
  obtain c d' where d: "d = c # d'" using assms(3) by (cases d) auto
  obtain t where t: "take_while (\<lambda>t. peek t 0 \<noteq> CHR ''<'') s = (d, t)" "rest t = tail"
    by (rule take_while_peek [where Q = "\<lambda>c. c \<noteq> CHR ''<''", OF assms(2)])
       (use assms(4,5) in auto)
  have "c \<noteq> CHR ''<''" using assms(4) d by auto
  then have "next_token s = parse_text s"
    using assms(1,2) d by (simp add: next_token_def eof_rest)
  then show ?thesis using t by (simp add: parse_text_def)
qed

lemma next_token_start_tag:
  assumes "\<not> m_emitted_eof s"
    and "rest s = CHR ''<'' # n @ concat (map render_attribute as) @ CHR ''>'' # tail"
    and "plain_tag_name n" and "\<forall>a \<in> set as. plain_attribute a" and "distinct (map fst as)"
  shows "rest (snd (next_token s)) = tail \<and> token_type (fst (next_token s)) = StartTag \<and>
    token_data (fst (next_token s)) = n \<and> token_attributes (fst (next_token s)) = as"
proof -
  let ?as = "concat (map render_attribute as) @ CHR ''>'' # tail"
  obtain c n' where n: "n = c # n'" using assms(3) by (cases n) (auto simp: plain_tag_name_def)
  have c: "is_alpha c" "c \<noteq> CHR ''/''" "c \<noteq> CHR ''!''" "\<not> is_whitespace c"
    using assms(3) n by (auto simp: plain_tag_name_def is_alpha_def is_whitespace_def)
  have r: "rest s = CHR ''<'' # c # n' @ ?as" using assms(2) n by simp
  have "next_token s = parse_tag s False (m_line s) (m_column s)"
    using assms(1) r c by (simp add: next_token_def eof_rest starts_with_rest)
  moreover
  let ?s3 = "skip_whitespace (consume s)"
  have r3: "rest ?s3 = n @ ?as" using r c n by simp
  have "?as \<noteq> [] \<and> \<not> is_tag_name_char (hd ?as)"
    by (cases as) (auto simp: render_attribute_def is_tag_name_char_def is_whitespace_def)
  then obtain s4 where s4: "take_while (\<lambda>t. is_tag_name_char (peek t 0)) ?s3 = (n, s4)" "rest s4 = ?as"
    using take_while_peek [OF r3, of is_tag_name_char] assms(3) by (auto simp: plain_tag_name_def)
  let ?tok = "make_token StartTag n (m_line s) (m_column s)"
  have "parse_tag s False (m_line s) (m_column s) = attribute_loop s4 ?tok"
    using s4(1) assms(3) by (simp add: parse_tag_def plain_tag_name_def)
  moreover have "rest (snd (attribute_loop s4 ?tok)) = tail \<and>
      fst (attribute_loop s4 ?tok) = ?tok\<lparr> token_attributes := token_attributes ?tok @ as \<rparr>"
    by (rule attribute_loop_rendered [OF s4(2) assms(4)]) (use assms(5) in simp)
  ultimately show ?thesis by simp
qed

lemma next_token_end_tag:
  assumes "\<not> m_emitted_eof s" and "rest s = CHR ''<'' # CHR ''/'' # n @ CHR ''>'' # tail"
    and "plain_tag_name n"
  shows "rest (snd (next_token s)) = tail \<and> token_type (fst (next_token s)) = EndTag \<and>
    token_data (fst (next_token s)) = n"
proof -
  obtain c n' where n: "n = c # n'" using assms(3) by (cases n) (auto simp: plain_tag_name_def)
  have c: "\<not> is_whitespace c" using assms(3) n by (auto simp: plain_tag_name_def is_tag_name_char_def)
  have nt: "next_token s = parse_tag s True (m_line s) (m_column s)"
    using assms(1,2) by (simp add: next_token_def eof_rest starts_with_rest)
  have r1: "rest (consume s) = CHR ''/'' # n @ CHR ''>'' # tail"
    using assms(2) by simp
  let ?s3 = "skip_whitespace (consume (consume s))"
  have "rest (consume (consume s)) = n @ CHR ''>'' # tail" using r1 by simp
  then have r3: "rest ?s3 = n @ CHR ''>'' # tail" using n c by simp
  obtain s4 where s4: "take_while (\<lambda>t. is_tag_name_char (peek t 0)) ?s3 = (n, s4)"
      "rest s4 = CHR ''>'' # tail"
    by (rule take_while_peek [OF r3, of is_tag_name_char])
       (use assms(3) in \<open>auto simp: plain_tag_name_def is_tag_name_char_def\<close>)
  let ?s5 = "skip_while (\<lambda>t. peek t 0 \<noteq> CHR ''>'') s4"
  have "rest ?s5 = CHR ''>'' # tail"
    using skip_while_peek [of "\<lambda>c. c \<noteq> CHR ''>''" s4] s4(2) by simp
  then show ?thesis using nt r1 s4(1) assms(3)
    by (simp add: parse_tag_def plain_tag_name_def eof_rest)
qed

lemma next_token_comment:
  assumes "\<not> m_emitted_eof s" and "rest s = ''<!--'' @ d @ ''-->'' @ tail"
    and "find_sub ''-->'' (d @ ''-->'') = Some (length d)"
  shows "rest (snd (next_token s)) = tail \<and> token_type (fst (next_token s)) = CommentToken \<and>
    token_data (fst (next_token s)) = d"
proof -
  let ?P = "\<lambda>t. \<not> starts_with t ''-->''"
  have loop: "fst (take_while ?P t) = d \<and> rest (snd (take_while ?P t)) = ''-->'' @ tail"
    if "rest t = d @ ''-->'' @ tail" and "find_sub ''-->'' (d @ ''-->'') = Some (length d)" for t d
    using that
  proof (induction d arbitrary: t)
    case Nil
    then show ?case by (simp add: html.take_stop starts_with_rest)
  next
    case (Cons c d)
    have np: "\<not> is_prefix ''-->'' ((c # d) @ ''-->'')"
      and fs: "find_sub ''-->'' (d @ ''-->'') = Some (length d)"
      using Cons.prems(2) by (auto simp del: is_prefix.simps split: if_splits)
    have "is_prefix ''-->'' ((c # d) @ ''-->'' @ tail) = is_prefix ''-->'' ((c # d) @ ''-->'')"
      using is_prefix_append_long [of "''-->''" "(c # d) @ ''-->''" tail] by simp
    then have go: "?P t" using np Cons.prems(1) by (simp add: starts_with_rest del: is_prefix.simps)
    have "rest (consume t) = d @ ''-->'' @ tail" using Cons.prems(1) by simp
    from Cons.IH [OF this fs] go Cons.prems(1) show ?case by (simp add: html.take_go)
  qed
  have nt: "next_token s = parse_comment s (m_line s) (m_column s)"
    using assms(1,2) by (simp add: next_token_def eof_rest starts_with_rest)
  have "rest (advance_text ''<!--'' s) = d @ ''-->'' @ tail"
    using assms(2) by (simp add: rest_advance_text)
  from loop [OF this assms(3)] show ?thesis
    by (simp add: nt parse_comment_def Let_def case_prod_unfold starts_with_rest rest_advance_text)
qed

end
