(* ===== verification/Html_Tree.thy ===== *)
theory Html_Tree
  imports Html_Tokenizer Dom
begin

text \<open>
  \<open>html_tree_builder.cpp\<close> and \<open>Document::parse_html\<close>: the tree under construction is a
  document value, the stack of open elements a vector of paths into it (bottom first, as
  the code pushes).  Shown: the builder always returns a well-formed document (only the
  document and non-void elements have children, no text node is empty), and parsing the
  rendering of any well-formed markup gives back exactly the tree it was rendered from.
\<close>

definition is_void_element :: "string \<Rightarrow> bool" where
  "is_void_element name \<longleftrightarrow> name \<in> set
     [''area'', ''base'', ''br'', ''col'', ''embed'', ''hr'', ''img'',
      ''input'', ''link'', ''meta'', ''param'', ''source'', ''track'', ''wbr'']"

definition insert_node ::
  "node_path \<Rightarrow> dom_node \<Rightarrow> bool \<Rightarrow> dom_node \<times> node_path list \<Rightarrow> dom_node \<times> node_path list" where
  "insert_node parent node push_to_stack st =
     (case st of (doc, open_elements) \<Rightarrow>
       let index = (case node_at doc parent of Some n \<Rightarrow> length (node_children n) | None \<Rightarrow> 0);
           doc' = update_at parent (\<lambda>x. append_child x node) doc
       in (doc', if push_to_stack then open_elements @ [parent @ [index]] else open_elements))"

definition name_at :: "dom_node \<Rightarrow> node_path \<Rightarrow> string" where
  "name_at doc p = (case node_at doc p of Some n \<Rightarrow> node_name n | None \<Rightarrow> [])"

text \<open>The loop counts \<open>i\<close> down from the size while \<open>i > 1\<close>: the document stays open.\<close>

fun close_scan :: "dom_node \<Rightarrow> node_path list \<Rightarrow> string \<Rightarrow> nat \<Rightarrow> node_path list" where
  "close_scan doc open_elements name i =
     (if 1 < i then
        if name_at doc (open_elements ! (i - 1)) = name then take (i - 1) open_elements
        else close_scan doc open_elements name (i - 1)
      else open_elements)"

declare close_scan.simps [simp del]

definition close_element :: "dom_node \<Rightarrow> node_path list \<Rightarrow> string \<Rightarrow> node_path list" where
  "close_element doc open_elements name =
     close_scan doc open_elements name (length open_elements)"

definition insert_token :: "html_token \<Rightarrow> dom_node \<times> node_path list \<Rightarrow> dom_node \<times> node_path list" where
  "insert_token token st =
     (case st of (doc, open_elements) \<Rightarrow>
       let current = (if open_elements = [] then [] else last open_elements) in
       case token_type token of
         Doctype \<Rightarrow> insert_node current (new_node DoctypeNode [] (token_data token)) False st
       | CommentToken \<Rightarrow> insert_node current (new_node CommentNode [] (token_data token)) False st
       | TextToken \<Rightarrow>
           if token_data token \<noteq> []
           then insert_node current (new_node TextNode [] (token_data token)) False st else st
       | EndTag \<Rightarrow> (doc, close_element doc open_elements (token_data token))
       | EOFToken \<Rightarrow> st
       | ty \<Rightarrow>
           let node = DomNode ElementNode (token_data token) [] (token_attributes token) [];
               push_to_stack = (ty = StartTag \<and> \<not> is_void_element (token_data token))
           in insert_node current node push_to_stack st)"

function build_loop :: "html_tokenizer \<Rightarrow> dom_node \<times> node_path list \<Rightarrow> dom_node" where
  "build_loop s st =
     (let (token, t) = next_token s in
      if token_type token = EOFToken then fst st
      else build_loop t (insert_token token st))"
  by pat_completeness auto
termination
proof (relation "measure (\<lambda>(s, st). left s)", simp)
  fix s st x y t
  assume "x = next_token s" "(y, t) = x" "token_type y \<noteq> EOFToken"
  then have "y = fst (next_token s)" "t = snd (next_token s)" by (metis fst_conv, metis snd_conv)
  with \<open>token_type y \<noteq> EOFToken\<close> show "((t, insert_token y st), (s, st)) \<in> measure (\<lambda>(s, st). left s)"
    using left_next_token [of s] by (simp add: next_token_EOF_iff)
qed

declare build_loop.simps [simp del]

definition build :: "string \<Rightarrow> dom_node" where
  "build input = build_loop (new_tokenizer input) (new_document, [[]])"

definition parse_html :: "string \<Rightarrow> dom_node" where
  "parse_html input = build input"

section \<open>Well-formed documents\<close>

definition may_have_children :: "dom_node_type \<Rightarrow> string \<Rightarrow> bool" where
  "may_have_children ty name \<longleftrightarrow> ty = DocumentNode \<or> ty = ElementNode \<and> \<not> is_void_element name"

definition good_node :: "dom_node \<Rightarrow> bool" where
  "good_node n \<longleftrightarrow>
     (node_children n = [] \<or> may_have_children (node_type n) (node_name n)) \<and>
     (node_type n = TextNode \<longrightarrow> node_data n \<noteq> [])"

definition good_state :: "dom_node \<times> node_path list \<Rightarrow> bool" where
  "good_state st \<longleftrightarrow> (case st of (doc, open_elements) \<Rightarrow>
     all_nodes good_node doc \<and> node_type doc = DocumentNode \<and>
     open_elements \<noteq> [] \<and>
     (\<forall>p \<in> set open_elements. \<exists>n. node_at doc p = Some n \<and> may_have_children (node_type n) (node_name n)))"

lemma close_scan_prefix:
  "i \<le> length os \<Longrightarrow> \<exists>k. close_scan doc os name i = take k os \<and> (os = [] \<or> 0 < k)"
proof (induction doc os name i rule: close_scan.induct)
  case (1 doc os name i)
  then show ?case
    by (subst close_scan.simps) (auto intro: exI [of _ "i - 1"] exI [of _ "length os"])
qed

lemma good_state_close:
  assumes "good_state (doc, os)"
  shows "good_state (doc, close_element doc os name)"
proof -
  obtain k where k: "close_element doc os name = take k os" "0 < k"
    using close_scan_prefix [of "length os" os doc name] assms
    by (auto simp: close_element_def good_state_def)
  then show ?thesis using assms by (auto simp: good_state_def dest: in_set_takeD)
qed

lemma all_nodes_good_append:
  assumes "all_nodes good_node doc" and "node_at doc p = Some n"
    and "may_have_children (node_type n) (node_name n)" and "all_nodes good_node c"
  shows "all_nodes good_node (update_at p (\<lambda>x. append_child x c) doc)"
proof (rule all_nodes_update_at [OF assms(1,2)])
  show "all_nodes good_node (append_child n c)"
    using all_nodes_node_at [OF assms(1,2)] assms(3,4)
    by (auto simp: all_nodes_unfold [of good_node n] all_nodes_unfold [of good_node "append_child n c"] good_node_def)
qed (auto simp: good_node_def)

lemma good_state_insert_node:
  assumes "good_state (doc, os)" and "p \<in> set os" and "all_nodes good_node c"
    and "push \<Longrightarrow> may_have_children (node_type c) (node_name c)"
  shows "good_state (insert_node p c push (doc, os))"
proof -
  obtain n where n: "node_at doc p = Some n" "may_have_children (node_type n) (node_name n)"
    using assms(1,2) by (auto simp: good_state_def)
  let ?doc = "update_at p (\<lambda>x. append_child x c) doc"
  have "all_nodes good_node ?doc"
    using all_nodes_good_append [OF _ n assms(3)] assms(1) by (simp add: good_state_def)
  moreover have "node_type ?doc = DocumentNode"
    using assms(1) by (cases p) (auto simp: good_state_def)
  moreover have "\<exists>n. node_at ?doc q = Some n \<and> may_have_children (node_type n) (node_name n)"
    if "q \<in> set os" for q
  proof -
    have "\<exists>m. node_at doc q = Some m \<and> may_have_children (node_type m) (node_name m)"
      using assms(1) that by (simp add: good_state_def)
    then obtain m where "node_at doc q = Some m" "may_have_children (node_type m) (node_name m)"
      by blast
    then show ?thesis using node_at_append_child_name [of doc q m p c] by auto
  qed
  moreover have "node_at ?doc (p @ [length (node_children n)]) = Some c"
    by (rule node_at_append_child_new [OF n(1)])
  ultimately show ?thesis using assms(1,4) n(1)
    by (auto simp: insert_node_def good_state_def)
qed

lemma good_state_insert_token:
  assumes "good_state st"
  shows "good_state (insert_token token st)"
proof -
  obtain doc os where st: "st = (doc, os)" by (cases st)
  have os: "os \<noteq> []" "last os \<in> set os" using assms st by (auto simp: good_state_def)
  have leaf: "all_nodes good_node (DomNode ty n d a [])" if "ty = TextNode \<longrightarrow> d \<noteq> []" for ty n d a
    using that by (simp add: good_node_def)
  show ?thesis
    using assms os good_state_close [of doc os] leaf
    by (cases "token_type token")
       (auto simp: st insert_token_def new_node_def may_have_children_def
         intro!: good_state_insert_node)
qed

lemma good_state_build_loop: "good_state st \<Longrightarrow> all_nodes good_node (build_loop s st) \<and> node_type (build_loop s st) = DocumentNode"
proof (induction s st rule: build_loop.induct)
  case (1 s st)
  show ?case
  proof (cases "token_type (fst (next_token s)) = EOFToken")
    case True
    then show ?thesis using 1(2)
      by (subst (1 2) build_loop.simps) (auto simp: case_prod_unfold good_state_def)
  next
    case False
    have "build_loop s st = build_loop (snd (next_token s)) (insert_token (fst (next_token s)) st)"
      using False by (subst build_loop.simps) (simp add: case_prod_unfold Let_def)
    then show ?thesis
      using 1(1) [OF refl prod.collapse False good_state_insert_token [OF 1(2)]] by simp
  qed
qed

text \<open>Whatever the input, \<open>Document::parse_html\<close> returns a document node whose tree is
  well formed: only the document itself and non-void elements have children (never a text,
  comment or doctype node, never an \<open>img\<close> or \<open>br\<close>), and no text node is empty.\<close>

theorem parse_html_well_formed:
  "all_nodes good_node (parse_html input) \<and> node_type (parse_html input) = DocumentNode"
proof -
  have "good_state (new_document, [[]])"
    by (simp add: good_state_def new_document_def good_node_def may_have_children_def)
  then show ?thesis by (simp add: parse_html_def build_def good_state_build_loop)
qed

section \<open>Parsing rendered markup\<close>

text \<open>The abstract side: markup as a tree, its text, and the document it stands for.\<close>

datatype markup =
    Txt string
  | Cmt string
  | Void string "(string \<times> string) list"
  | Elem string "(string \<times> string) list" "markup list"

definition render_tag :: "string \<Rightarrow> (string \<times> string) list \<Rightarrow> string" where
  "render_tag n as = CHR ''<'' # n @ concat (map render_attribute as) @ [CHR ''>'']"

fun render :: "markup \<Rightarrow> string" where
  "render (Txt d) = d"
| "render (Cmt d) = ''<!--'' @ d @ ''-->''"
| "render (Void n as) = render_tag n as"
| "render (Elem n as ks) = render_tag n as @ concat (map render ks) @ ''</'' @ n @ ''>''"

fun tree_of :: "markup \<Rightarrow> dom_node" where
  "tree_of (Txt d) = DomNode TextNode [] d [] []"
| "tree_of (Cmt d) = DomNode CommentNode [] d [] []"
| "tree_of (Void n as) = DomNode ElementNode n [] as []"
| "tree_of (Elem n as ks) = DomNode ElementNode n [] as (map tree_of ks)"

fun is_txt :: "markup \<Rightarrow> bool" where
  "is_txt (Txt d) = True"
| "is_txt m = False"

fun separated :: "markup list \<Rightarrow> bool" where
  "separated (a # b # ms) = (\<not> (is_txt a \<and> is_txt b) \<and> separated (b # ms))"
| "separated ms = True"

definition plain_tag :: "string \<Rightarrow> (string \<times> string) list \<Rightarrow> bool" where
  "plain_tag n as \<longleftrightarrow> plain_tag_name n \<and> list_all plain_attribute as \<and> distinct (map fst as)"

fun plain_markup :: "markup \<Rightarrow> bool" where
  "plain_markup (Txt d) = (d \<noteq> [] \<and> CHR ''<'' \<notin> set d)"
| "plain_markup (Cmt d) = (find_sub ''-->'' (d @ ''-->'') = Some (length d))"
| "plain_markup (Void n as) = (plain_tag n as \<and> is_void_element n)"
| "plain_markup (Elem n as ks) =
     (plain_tag n as \<and> \<not> is_void_element n \<and> separated ks \<and> list_all plain_markup ks)"

definition append_children :: "dom_node \<Rightarrow> dom_node list \<Rightarrow> dom_node" where
  "append_children x cs =
     DomNode (node_type x) (node_name x) (node_data x) (node_attributes x) (node_children x @ cs)"

lemma build_loop_step:
  assumes "\<not> m_emitted_eof s" and "rest s \<noteq> []"
  shows "build_loop s st = build_loop (snd (next_token s)) (insert_token (fst (next_token s)) st)"
    and "\<not> m_emitted_eof (snd (next_token s))"
proof -
  have "token_type (fst (next_token s)) \<noteq> EOFToken"
    using assms by (simp add: next_token_EOF_iff eof_rest)
  then show "build_loop s st = build_loop (snd (next_token s)) (insert_token (fst (next_token s)) st)"
    by (subst build_loop.simps) (simp add: case_prod_unfold Let_def)
  show "\<not> m_emitted_eof (snd (next_token s))"
    using assms next_token_emitted by (simp add: eof_rest)
qed

lemma insert_node_leaf:
  "insert_node p c False (doc, os) = (update_at p (\<lambda>x. append_child x c) doc, os)"
  by (simp add: insert_node_def)

text \<open>What may follow a text, and what may follow any other markup.\<close>

definition text_end :: "string \<Rightarrow> bool" where
  "text_end tail \<longleftrightarrow> tail = [] \<or> hd tail = CHR ''<''"

definition anything :: "string \<Rightarrow> bool" where
  "anything tail \<longleftrightarrow> True"

text \<open>What one piece of markup does to a builder state: it appends its tree to the innermost
  open element and leaves the stack as it was.\<close>

definition builds :: "(string \<Rightarrow> bool) \<Rightarrow> markup list \<Rightarrow> bool" where
  "builds ok ms \<longleftrightarrow> (\<forall>s doc os n tail.
     \<not> m_emitted_eof s \<longrightarrow> rest s = concat (map render ms) @ tail \<longrightarrow>
     ok tail \<longrightarrow> os \<noteq> [] \<longrightarrow> node_at doc (last os) = Some n \<longrightarrow>
     (\<exists>t. \<not> m_emitted_eof t \<and> rest t = tail \<and>
        build_loop s (doc, os) =
        build_loop t (update_at (last os) (\<lambda>x. append_children x (map tree_of ms)) doc, os)))"

lemma buildsI:
  assumes "\<And>s doc os n tail. \<not> m_emitted_eof s \<Longrightarrow> rest s = concat (map render ms) @ tail \<Longrightarrow>
     ok tail \<Longrightarrow> os \<noteq> [] \<Longrightarrow> node_at doc (last os) = Some n \<Longrightarrow>
     \<exists>t. \<not> m_emitted_eof t \<and> rest t = tail \<and>
        build_loop s (doc, os) =
        build_loop t (update_at (last os) (\<lambda>x. append_children x (map tree_of ms)) doc, os)"
  shows "builds ok ms"
  using assms unfolding builds_def by blast

lemma buildsE:
  assumes "builds ok ms" and "\<not> m_emitted_eof s" and "rest s = concat (map render ms) @ tail"
    and "ok tail" and "os \<noteq> []" and "node_at doc (last os) = Some n"
  obtains t where "\<not> m_emitted_eof t" and "rest t = tail" and
    "build_loop s (doc, os) =
     build_loop t (update_at (last os) (\<lambda>x. append_children x (map tree_of ms)) doc, os)"
  using assms unfolding builds_def by blast

lemma update_at_id: "node_at n p = Some m \<Longrightarrow> f m = m \<Longrightarrow> update_at p f n = n"
proof (induction p f n rule: update_at.induct)
  case (1 f n)
  then show ?case by simp
next
  case (2 i p f n)
  then show ?case by (cases n) (auto split: if_splits)
qed

lemma builds_Nil: "builds ok []"
proof (rule buildsI)
  fix s doc and os :: "node_path list" and n tail
  assume s: "\<not> m_emitted_eof s" "rest s = concat (map render []) @ tail"
    and n: "node_at doc (last os) = Some n"
  have "update_at (last os) (\<lambda>x. append_children x []) doc = doc"
    by (rule update_at_id [OF n]) (simp add: append_children_def)
  then show "\<exists>t. \<not> m_emitted_eof t \<and> rest t = tail \<and> build_loop s (doc, os) =
      build_loop t (update_at (last os) (\<lambda>x. append_children x (map tree_of [])) doc, os)"
    using s by (intro exI [of _ s]) simp
qed

lemma builds_leaf:
  assumes "\<And>s tail. \<not> m_emitted_eof s \<Longrightarrow> rest s = render m @ tail \<Longrightarrow>
      ok tail \<Longrightarrow>
      rest s \<noteq> [] \<and> rest (snd (next_token s)) = tail \<and>
      (\<forall>doc os. os \<noteq> [] \<longrightarrow> insert_token (fst (next_token s)) (doc, os) =
         insert_node (last os) (tree_of m) False (doc, os))"
  shows "builds ok [m]"
proof (rule buildsI)
  fix s doc and os :: "node_path list" and n tail
  assume s: "\<not> m_emitted_eof s" "rest s = concat (map render [m]) @ tail"
      "ok tail" "os \<noteq> []"
  have "(\<lambda>x. append_children x [tree_of m]) = (\<lambda>x. append_child x (tree_of m))"
    by (simp add: fun_eq_iff append_children_def append_child_def)
  then show "\<exists>t. \<not> m_emitted_eof t \<and> rest t = tail \<and> build_loop s (doc, os) =
      build_loop t (update_at (last os) (\<lambda>x. append_children x (map tree_of [m])) doc, os)"
    using assms [of s tail] s build_loop_step [OF s(1)]
    by (intro exI [of _ "snd (next_token s)"]) (simp add: insert_node_leaf)
qed

lemma builds_Txt: "plain_markup (Txt d) \<Longrightarrow> builds text_end [Txt d]"
proof (rule builds_leaf)
  fix s tail
  assume d: "plain_markup (Txt d)" and s: "\<not> m_emitted_eof s" "rest s = render (Txt d) @ tail"
    "text_end tail"
  have "rest (snd (next_token s)) = tail \<and> token_type (fst (next_token s)) = TextToken \<and>
      token_data (fst (next_token s)) = d"
    by (rule next_token_text [OF s(1)]) (use s d in \<open>auto simp: text_end_def\<close>)
  then show "rest s \<noteq> [] \<and> rest (snd (next_token s)) = tail \<and>
      (\<forall>doc os. os \<noteq> [] \<longrightarrow> insert_token (fst (next_token s)) (doc, os) =
         insert_node (last os) (tree_of (Txt d)) False (doc, os))"
    using s d by (simp add: insert_token_def new_node_def)
qed

lemma builds_Cmt: "plain_markup (Cmt d) \<Longrightarrow> builds anything [Cmt d]"
proof (rule builds_leaf)
  fix s tail
  assume d: "plain_markup (Cmt d)" and s: "\<not> m_emitted_eof s" "rest s = render (Cmt d) @ tail"
  have "rest (snd (next_token s)) = tail \<and> token_type (fst (next_token s)) = CommentToken \<and>
      token_data (fst (next_token s)) = d"
    by (rule next_token_comment [OF s(1)]) (use s d in auto)
  then show "rest s \<noteq> [] \<and> rest (snd (next_token s)) = tail \<and>
      (\<forall>doc os. os \<noteq> [] \<longrightarrow> insert_token (fst (next_token s)) (doc, os) =
         insert_node (last os) (tree_of (Cmt d)) False (doc, os))"
    using s d by (simp add: insert_token_def new_node_def)
qed

lemma builds_Void: "plain_markup (Void n as) \<Longrightarrow> builds anything [Void n as]"
proof (rule builds_leaf)
  fix s tail
  assume d: "plain_markup (Void n as)" and s: "\<not> m_emitted_eof s" "rest s = render (Void n as) @ tail"
  have "rest (snd (next_token s)) = tail \<and> token_type (fst (next_token s)) = StartTag \<and>
      token_data (fst (next_token s)) = n \<and> token_attributes (fst (next_token s)) = as"
    by (rule next_token_start_tag [OF s(1)])
       (use s d in \<open>auto simp: render_tag_def plain_tag_def list_all_iff\<close>)
  then show "rest s \<noteq> [] \<and> rest (snd (next_token s)) = tail \<and>
      (\<forall>doc os. os \<noteq> [] \<longrightarrow> insert_token (fst (next_token s)) (doc, os) =
         insert_node (last os) (tree_of (Void n as)) False (doc, os))"
    using s d by (simp add: insert_token_def render_tag_def)
qed

lemma append_children_compose:
  "append_children (append_children x cs) ds = append_children x (cs @ ds)"
  by (simp add: append_children_def)

lemma append_children_append:
  "append_children x (cs @ ds) = append_children (append_children x cs) ds"
  by (simp add: append_children_def)

lemma builds_Cons:
  assumes m: "builds okm [m]" and ms: "builds ok ms"
    and ok: "\<And>tail. ok tail \<Longrightarrow> okm (concat (map render ms) @ tail)"
  shows "builds ok (m # ms)"
proof (rule buildsI)
  fix s doc and os :: "node_path list" and n tail
  assume s: "\<not> m_emitted_eof s" "rest s = concat (map render (m # ms)) @ tail" "ok tail" "os \<noteq> []"
    and n: "node_at doc (last os) = Some n"
  let ?doc = "update_at (last os) (\<lambda>x. append_children x (map tree_of [m])) doc"
  have r: "rest s = concat (map render [m]) @ concat (map render ms) @ tail" using s(2) by simp
  obtain t where t: "\<not> m_emitted_eof t" "rest t = concat (map render ms) @ tail"
      "build_loop s (doc, os) = build_loop t (?doc, os)"
    by (rule buildsE [OF m s(1) r ok [OF s(3)] s(4) n])
  have n': "node_at ?doc (last os) = Some (append_children n (map tree_of [m]))"
    by (rule node_at_update_same [OF n])
  obtain u where u: "\<not> m_emitted_eof u" "rest u = tail" "build_loop t (?doc, os) =
      build_loop u (update_at (last os) (\<lambda>x. append_children x (map tree_of ms)) ?doc, os)"
    by (rule buildsE [OF ms t(1,2) s(3,4) n'])
  have "(\<lambda>x. append_children x (map tree_of ms)) \<circ> (\<lambda>x. append_children x (map tree_of [m])) =
      (\<lambda>x. append_children x (map tree_of (m # ms)))"
    by (simp add: fun_eq_iff append_children_append [symmetric])
  then have "update_at (last os) (\<lambda>x. append_children x (map tree_of ms)) ?doc =
      update_at (last os) (\<lambda>x. append_children x (map tree_of (m # ms))) doc"
    using update_at_compose [OF n] by metis
  with t(3) u show "\<exists>t. \<not> m_emitted_eof t \<and> rest t = tail \<and> build_loop s (doc, os) =
      build_loop t (update_at (last os) (\<lambda>x. append_children x (map tree_of (m # ms))) doc, os)"
    by (intro exI [of _ u]) simp
qed

lemma close_top:
  assumes "os \<noteq> []" and "name_at doc p = name"
  shows "close_element doc (os @ [p]) name = os"
  using assms by (subst close_element_def, subst close_scan.simps) simp

text \<open>An element: open it, build its children inside, close it.\<close>

lemma builds_Elem:
  assumes e: "plain_markup (Elem nm as ks)" and ks: "builds text_end ks"
  shows "builds anything [Elem nm as ks]"
proof (rule buildsI)
  fix s doc and os :: "node_path list" and n tail
  assume s: "\<not> m_emitted_eof s" "rest s = concat (map render [Elem nm as ks]) @ tail" "os \<noteq> []"
    and n: "node_at doc (last os) = Some n"
  let ?p = "last os" and ?i = "length (node_children n)"
  let ?empty = "DomNode ElementNode nm [] as []"
  let ?inner = "concat (map render ks) @ CHR ''<'' # CHR ''/'' # nm @ CHR ''>'' # tail"
  let ?doc1 = "update_at ?p (\<lambda>x. append_child x ?empty) doc"
  let ?os1 = "os @ [?p @ [?i]]"
  have tag: "plain_tag_name nm" "\<forall>a \<in> set as. plain_attribute a" "distinct (map fst as)"
      "\<not> is_void_element nm"
    using e by (auto simp: plain_tag_def list_all_iff)
  have r: "rest s = CHR ''<'' # nm @ concat (map render_attribute as) @ CHR ''>'' # ?inner"
    using s(2) by (simp add: render_tag_def)
  have t1: "rest (snd (next_token s)) = ?inner \<and> token_type (fst (next_token s)) = StartTag \<and>
      token_data (fst (next_token s)) = nm \<and> token_attributes (fst (next_token s)) = as"
    by (rule next_token_start_tag [OF s(1) r tag(1-3)])
  have "rest s \<noteq> []" using r by simp
  note step1 = build_loop_step [OF s(1) this]
  have ins: "insert_token (fst (next_token s)) (doc, os) = (?doc1, ?os1)"
    using t1 s(3) n tag(4) by (simp add: insert_token_def insert_node_def Let_def)
  have n1: "node_at ?doc1 (last ?os1) = Some ?empty"
    using node_at_append_child_new [OF n, of ?empty] by simp
  let ?doc2 = "update_at (last ?os1) (\<lambda>x. append_children x (map tree_of ks)) ?doc1"
  obtain t where t: "\<not> m_emitted_eof t" "rest t = CHR ''<'' # CHR ''/'' # nm @ CHR ''>'' # tail"
      "build_loop (snd (next_token s)) (?doc1, ?os1) = build_loop t (?doc2, ?os1)"
    by (rule buildsE [OF ks step1(2) _ _ _ n1]) (use t1 in \<open>auto simp: text_end_def\<close>)
  have t2: "rest (snd (next_token t)) = tail \<and> token_type (fst (next_token t)) = EndTag \<and>
      token_data (fst (next_token t)) = nm"
    by (rule next_token_end_tag [OF t(1,2) tag(1)])
  have "rest t \<noteq> []" using t(2) by simp
  note step2 = build_loop_step [OF t(1) this]
  have "node_at ?doc2 (last ?os1) = Some (append_children ?empty (map tree_of ks))"
    by (rule node_at_update_same [OF n1])
  then have "close_element ?doc2 ?os1 nm = os"
    by (intro close_top [OF s(3)]) (simp add: name_at_def append_children_def)
  then have cl: "insert_token (fst (next_token t)) (?doc2, ?os1) = (?doc2, os)"
    using t2 by (simp add: insert_token_def)
  have "?doc2 = update_at ?p (update_at [?i] (\<lambda>x. append_children x (map tree_of ks))) ?doc1"
    using update_at_append [OF node_at_update_same [OF n]] by simp
  also have "\<dots> = update_at ?p (update_at [?i] (\<lambda>x. append_children x (map tree_of ks)) \<circ>
      (\<lambda>x. append_child x ?empty)) doc"
    by (rule update_at_compose [OF n])
  also have "\<dots> = update_at ?p (\<lambda>x. append_children x (map tree_of [Elem nm as ks])) doc"
    by (rule update_at_cong [OF n]) (simp add: append_children_def append_child_def)
  finally show "\<exists>t. \<not> m_emitted_eof t \<and> rest t = tail \<and> build_loop s (doc, os) =
      build_loop t (update_at (last os) (\<lambda>x. append_children x (map tree_of [Elem nm as ks])) doc, os)"
    using step1(1) step2 ins cl t(3) t2 by (intro exI [of _ "snd (next_token t)"]) simp
qed

lemma render_starts: "plain_markup m \<Longrightarrow> \<not> is_txt m \<Longrightarrow> text_end (render m @ tail)"
  by (cases m) (simp_all add: text_end_def render_tag_def)

lemma builds_list:
  assumes "separated ms" and "\<And>m. m \<in> set ms \<Longrightarrow> plain_markup m \<and> builds (if is_txt m then text_end else anything) [m]"
  shows "builds text_end ms"
  using assms
proof (induction ms)
  case Nil
  show ?case by (rule builds_Nil)
next
  case (Cons m ms)
  have "separated ms" using Cons.prems(1) by (cases ms) auto
  then have ms: "builds text_end ms" using Cons by simp
  have m: "builds (if is_txt m then text_end else anything) [m]" using Cons.prems(2) by simp
  have follow: "text_end (concat (map render ms) @ tail)" if "is_txt m" "text_end tail" for tail
  proof (cases ms)
    case Nil
    then show ?thesis using that(2) by simp
  next
    case (Cons m' ms')
    then have "\<not> is_txt m'" "plain_markup m'" using Cons.prems that(1) by auto
    then show ?thesis using Cons render_starts by simp
  qed
  show ?case by (rule builds_Cons [OF m ms]) (use follow in \<open>auto simp: anything_def\<close>)
qed

lemma builds_markup: "plain_markup m \<Longrightarrow> builds (if is_txt m then text_end else anything) [m]"
proof (induction m)
  case (Elem n as ks)
  have "builds text_end ks"
    by (rule builds_list) (use Elem in \<open>auto simp: list_all_iff\<close>)
  then show ?case using builds_Elem [OF Elem.prems] by simp
qed (simp_all add: builds_Txt builds_Cmt builds_Void del: plain_markup.simps)

text \<open>C8: Parsing inverts rendering.  For every list of well-formed markup (lower-case tag and
  attribute names, quoted attribute values, distinct attributes, non-void elements closed,
  void elements left open, no two adjacent texts, comments that end where they are closed)
  the document \<open>parse_html\<close> builds from its text is exactly the tree it was rendered from.\<close>

theorem parse_html_render:
  assumes "list_all plain_markup ms" and "separated ms"
  shows "parse_html (concat (map render ms)) = DomNode DocumentNode [] [] [] (map tree_of ms)"
proof -
  let ?s = "new_tokenizer (concat (map render ms))"
  have b: "builds text_end ms"
    by (rule builds_list [OF assms(2)]) (use assms(1) builds_markup in \<open>auto simp: list_all_iff\<close>)
  have s: "\<not> m_emitted_eof ?s" "rest ?s = concat (map render ms) @ []"
    by (simp_all add: new_tokenizer_def rest_def)
  obtain t where t: "\<not> m_emitted_eof t" "rest t = []"
      "build_loop ?s (new_document, [[]]) =
       build_loop t (update_at (last [[]]) (\<lambda>x. append_children x (map tree_of ms)) new_document, [[]])"
    by (rule buildsE [OF b s, of "[[]]" new_document new_document]) (auto simp: text_end_def)
  have "build_loop t st = fst st" for st
    using t(2) by (subst build_loop.simps) (simp add: case_prod_unfold next_token_EOF_iff eof_rest)
  then show ?thesis using t(3)
    by (simp add: parse_html_def build_def append_children_def new_document_def)
qed

lemma parse_html_render_witness:
  "parse_html ''<ul><li id=\"a\">one</li><br>two<!--x--></ul>'' =
    DomNode DocumentNode [] [] []
      [DomNode ElementNode ''ul'' [] []
        [DomNode ElementNode ''li'' [] [(''id'', ''a'')] [DomNode TextNode [] ''one'' [] []],
         DomNode ElementNode ''br'' [] [] [],
         DomNode TextNode [] ''two'' [] [],
         DomNode CommentNode [] ''x'' [] []]]"
proof -
  let ?m = "Elem ''ul'' [] [Elem ''li'' [(''id'', ''a'')] [Txt ''one''], Void ''br'' [], Txt ''two'', Cmt ''x'']"
  have "plain_markup ?m"
    by (simp add: plain_tag_def plain_tag_name_def plain_attribute_def is_alpha_def to_lower_def
        is_tag_name_char_def is_attribute_name_char_def is_whitespace_def is_void_element_def)
  then show ?thesis
    using parse_html_render [of "[?m]"] by (simp add: render_tag_def render_attribute_def)
qed

end
