(* ===== verification/Render_Document.thy ===== *)
theory Render_Document
  imports Painter Image_Cache Css_Parser Html_Tree
begin

text \<open>
  \<open>render_document.hpp\<close>/\<open>render_document.cpp\<close>: a page, from its text and style sheet to its paint
  commands.  The document, the boxes, the commands and a copy of the resource cache are values.
  The image members of the boxes are the \<open>pictures\<close> of the page, by node; the image decoders that are not modelled
  are the parameter \<open>dec\<close>.
\<close>

record render_document =
  rd_document :: dom_node
  rd_layout :: layout_node
  rd_commands :: "paint_command list"
  rd_stylesheet :: css_stylesheet
  rd_width :: fp
  rd_generation :: size_t
  rd_resources :: resource_cache
  rd_images :: image_cache
  rd_pictures :: pictures
  rd_source_url :: string

section \<open>Attaching the images\<close>

definition resolve_resource_key :: "string \<Rightarrow> string \<Rightarrow> string run" where
  "resolve_resource_key source_url reference =
     (if source_url = [] \<or> reference = [] then Returns reference
      else
        bind_run (of_res (parse_url source_url)) (\<lambda>base.
        bind_run (of_comp (resolve base reference)) (\<lambda>u.
          Returns (if is_valid u then serialized u else reference))))"

text \<open>The text between \<open>url(\<close> and the last parenthesis, without its quotes.\<close>

definition background_reference :: "string \<Rightarrow> string option" where
  "background_reference v =
     (case (find_sub ''url('' v, rfind_idx (\<lambda>c. c = CHR '')'') v) of
        (Some start, Some stop) \<Rightarrow>
          if start + 4 < stop then
            let u = take (stop - (start + 4)) (drop (start + 4) v) in
            Some (if u \<noteq> [] \<and> (hd u = CHR 0x22 \<or> hd u = CHR 0x27) then take (length u - 2) (drop 1 u) else u)
          else None
      | _ \<Rightarrow> None)"

definition load_picture :: "decoders \<Rightarrow> string \<Rightarrow> resource_cache \<Rightarrow> string \<Rightarrow> image_cache \<Rightarrow> (image option \<times> image_cache) run" where
  "load_picture dec source_url resources reference images =
     bind_run (resolve_resource_key source_url reference) (\<lambda>key. image_load dec key resources images)"

definition assign_picture :: "(image option \<times> image_cache) run \<Rightarrow> (image option \<Rightarrow> pictures) \<Rightarrow> (pictures \<times> image_cache) run" where
  "assign_picture m assign = bind_run m (\<lambda>(i, images). Returns (assign i, images))"

text \<open>One box of \<open>resolve_images\<close>.\<close>

definition resolve_box ::
  "decoders \<Rightarrow> dom_node \<Rightarrow> string \<Rightarrow> resource_cache \<Rightarrow> layout_node \<Rightarrow> pictures \<times> image_cache \<Rightarrow> (pictures \<times> image_cache) run" where
  "resolve_box dec doc source_url resources n st =
     bind_run
       (case (if is_dom doc n (\<lambda>d. node_type d = ElementNode \<and> node_name d = ''img'') then dom_attribute doc n ''src'' else None) of
          None \<Rightarrow> Returns st
        | Some src \<Rightarrow>
            assign_picture (load_picture dec source_url resources src (snd st))
              (\<lambda>i. (fst st)\<lparr> pic_image := (pic_image (fst st))(lb_dom (ln_box n) := i) \<rparr>))
       (\<lambda>st.
          case Option.bind (style_get (ln_style n) ''background-image'') background_reference of
            None \<Rightarrow> Returns st
          | Some u \<Rightarrow>
              assign_picture (load_picture dec source_url resources u (snd st))
                (\<lambda>i. (fst st)\<lparr> pic_background := (pic_background (fst st))(lb_dom (ln_box n) := i) \<rparr>))"

definition resolve_images ::
  "decoders \<Rightarrow> dom_node \<Rightarrow> string \<Rightarrow> resource_cache \<Rightarrow> layout_node \<Rightarrow> image_cache \<Rightarrow> (pictures \<times> image_cache) run" where
  "resolve_images dec doc source_url resources n images =
     fold_run (resolve_box dec doc source_url resources) (boxes_of n) (no_pictures, images)"


section \<open>Making a page\<close>

text \<open>Without a box for the document the code dereferences a null pointer.\<close>

definition build_or_crash :: "dom_node \<Rightarrow> css_stylesheet \<Rightarrow> visual_state option \<Rightarrow> layout_node run" where
  "build_or_crash doc sheet vis = (case build_layout doc sheet vis of None \<Rightarrow> Undefined | Some n \<Rightarrow> Returns n)"

definition create_from_document ::
  "decoders \<Rightarrow> dom_node \<Rightarrow> string \<Rightarrow> fp \<Rightarrow> resource_cache option \<Rightarrow> string \<Rightarrow> render_document run" where
  "create_from_document dec doc css width resources source_url =
     (let sheet = css_parse css; res = (case resources of None \<Rightarrow> Map.empty | Some r \<Rightarrow> r) in
      bind_run (build_or_crash doc sheet None) (\<lambda>tree.
        let laid = layout doc tree width in
        bind_run (resolve_images dec doc source_url res laid Map.empty) (\<lambda>(pics, images).
          Returns \<lparr> rd_document = doc, rd_layout = laid, rd_commands = render_commands doc pics laid, rd_stylesheet = sheet,
            rd_width = width, rd_generation = 0, rd_resources = res, rd_images = images, rd_pictures = pics,
            rd_source_url = source_url \<rparr>)))"

definition create :: "decoders \<Rightarrow> string \<Rightarrow> string \<Rightarrow> fp \<Rightarrow> resource_cache option \<Rightarrow> string \<Rightarrow> render_document run" where
  "create dec html css width resources source_url = create_from_document dec (parse_html html) css width resources source_url"

text \<open>\<open>create_from_resources\<close> with one style sheet, and with a list of them: \<^term>\<open>Returns None\<close> when a resource is missing
  or of another type.  The page gets its URL after it has been created.\<close>

definition create_from_sheet ::
  "decoders \<Rightarrow> string \<Rightarrow> string \<Rightarrow> fp \<Rightarrow> resource_cache \<Rightarrow> render_document option run" where
  "create_from_sheet dec document_url stylesheet_url width resources =
     (case (cache_get resources document_url, cache_get resources stylesheet_url) of
        (Some d, Some st) \<Rightarrow>
          if rtype d \<noteq> Document \<or> rtype st \<noteq> Stylesheet then Returns None
          else
            bind_run (create dec (cache_get_text resources (rurl d)) (cache_get_text resources (rurl st)) width (Some resources) [])
              (\<lambda>page. Returns (Some (page\<lparr> rd_source_url := document_url \<rparr>)))
      | _ \<Rightarrow> Returns None)"

fun join_sheets :: "resource_cache \<Rightarrow> string list \<Rightarrow> string \<Rightarrow> string option" where
  "join_sheets resources [] css = Some css"
| "join_sheets resources (u # us) css =
     (case cache_get resources u of None \<Rightarrow> None
      | Some st \<Rightarrow>
          if rtype st \<noteq> Stylesheet then None
          else join_sheets resources us (css @ (if css = [] then [] else [CHR 0x0A]) @ cache_get_text resources u))"

definition create_from_resources ::
  "decoders \<Rightarrow> string \<Rightarrow> string list \<Rightarrow> fp \<Rightarrow> resource_cache \<Rightarrow> render_document option run" where
  "create_from_resources dec document_url stylesheet_urls width resources =
     (case cache_get resources document_url of None \<Rightarrow> Returns None
      | Some d \<Rightarrow>
          if rtype d \<noteq> Document then Returns None
          else
            case join_sheets resources stylesheet_urls [] of None \<Rightarrow> Returns None
            | Some css \<Rightarrow>
                bind_run (create dec (cache_get_text resources (rurl d)) css width (Some resources) [])
                  (\<lambda>page. Returns (Some (page\<lparr> rd_source_url := document_url \<rparr>))))"


section \<open>Laying out again\<close>

definition rebuild :: "decoders \<Rightarrow> visual_state option \<Rightarrow> fp \<Rightarrow> render_document \<Rightarrow> render_document run" where
  "rebuild dec vis width page =
     bind_run (build_or_crash (rd_document page) (rd_stylesheet page) vis) (\<lambda>tree.
       let laid = layout (rd_document page) tree width in
       bind_run (resolve_images dec (rd_document page) (rd_source_url page) (rd_resources page) laid (rd_images page)) (\<lambda>(pics, images).
         Returns (page\<lparr> rd_layout := laid, rd_images := images, rd_pictures := pics,
           rd_commands := render_commands (rd_document page) pics laid \<rparr>)))"

definition relayout :: "decoders \<Rightarrow> render_document \<Rightarrow> render_document run" where
  "relayout dec page = rebuild dec None (rd_width page) page"

definition apply_visual_state :: "decoders \<Rightarrow> visual_state \<Rightarrow> fp \<Rightarrow> render_document \<Rightarrow> render_document run" where
  "apply_visual_state dec vis width page =
     (if rd_generation page = generation vis \<and> \<not> layout_dirty vis \<and> \<not> paint_dirty vis then Returns page
      else bind_run (rebuild dec (Some vis) width page) (\<lambda>page. Returns (page\<lparr> rd_generation := generation vis \<rparr>)))"

definition render_page :: "render_document \<Rightarrow> int \<Rightarrow> int \<Rightarrow> color \<Rightarrow> surface run" where
  "render_page page w h c = render_to_surface (rd_commands page) w h c"



section \<open>What a page is made of\<close>

text \<open>The commands are those of the boxes and pictures, every box is that of a node of the document, the
  pictures are decoded images, and every image comes from a resource.\<close>

definition images_backed :: "resource_cache \<Rightarrow> image_cache \<Rightarrow> bool" where
  "images_backed resources images \<longleftrightarrow> (\<forall>k i. images k = Some i \<longrightarrow> (\<exists>d. resources k = Some d \<and> rtype d = ImageRes))"

definition picture_ok :: "dom_node \<Rightarrow> string \<Rightarrow> resource_cache \<Rightarrow> node_path \<Rightarrow> bool" where
  "picture_ok doc source_url resources p \<longleftrightarrow>
     (\<exists>n src k d. node_at doc p = Some n \<and> node_name n = ''img'' \<and> attribute n ''src'' = Some src \<and>
        resolve_resource_key source_url src = Returns k \<and> resources k = Some d \<and> rtype d = ImageRes)"

definition pictures_ok :: "dom_node \<Rightarrow> string \<Rightarrow> resource_cache \<Rightarrow> pictures \<times> image_cache \<Rightarrow> bool" where
  "pictures_ok doc source_url resources st \<longleftrightarrow>
     images_backed resources (snd st) \<and>
     (\<forall>p i. pic_image (fst st) p = Some i \<longrightarrow> picture_ok doc source_url resources p)"

lemma image_load_backed:
  assumes "images_backed resources images"
  shows "returns_only (\<lambda>(i, images'). images_backed resources images' \<and>
    (i \<noteq> None \<longrightarrow> (\<exists>d. resources u = Some d \<and> rtype d = ImageRes))) (image_load dec u resources images)"
proof (cases "images u")
  case None
  show ?thesis
  proof (cases "resources u")
    case (Some d)
    then show ?thesis using None assms
      by (cases "decode_image dec (rbytes d)") (auto simp: image_load_def cache_get_def images_backed_def split: option.split)
  qed (use None assms in \<open>simp add: image_load_def cache_get_def\<close>)
next
  case (Some i)
  then show ?thesis using assms by (auto simp: image_load_def images_backed_def)
qed

lemma load_picture_backed:
  assumes "images_backed resources images"
  shows "returns_only (\<lambda>(i, images'). images_backed resources images' \<and>
    (i \<noteq> None \<longrightarrow> (\<exists>k d. resolve_resource_key source_url r = Returns k \<and> resources k = Some d \<and> rtype d = ImageRes)))
    (load_picture dec source_url resources r images)"
proof (cases "resolve_resource_key source_url r")
  case (Returns k)
  then show ?thesis using image_load_backed [OF assms, of k dec]
    by (auto simp: load_picture_def elim!: returns_only_weaken)
qed (simp_all add: load_picture_def)

lemma resolve_box_ok:
  assumes "pictures_ok doc source_url resources st"
  shows "returns_only (pictures_ok doc source_url resources) (resolve_box dec doc source_url resources n st)"
proof -
  let ?src = "if is_dom doc n (\<lambda>d. node_type d = ElementNode \<and> node_name d = ''img'') then dom_attribute doc n ''src'' else None"
  have 1: "returns_only (pictures_ok doc source_url resources)
      (case ?src of None \<Rightarrow> Returns st
        | Some src \<Rightarrow> assign_picture (load_picture dec source_url resources src (snd st))
            (\<lambda>i. (fst st)\<lparr> pic_image := (pic_image (fst st))(lb_dom (ln_box n) := i) \<rparr>))"
  proof (cases ?src)
    case (Some src)
    then obtain d where d: "node_at doc (lb_dom (ln_box n)) = Some d" "node_name d = ''img''" "attribute d ''src'' = Some src"
      by (auto simp: is_dom_def dom_attribute_def split: if_splits option.splits)
    have "images_backed resources (snd st)" using assms by (simp add: pictures_ok_def)
    from load_picture_backed [OF this] show ?thesis
      unfolding Some option.case assign_picture_def
      by (rule returns_only_bind) (use assms d in \<open>auto simp: pictures_ok_def picture_ok_def\<close>)
  qed (use assms in simp)
  have 2: "returns_only (pictures_ok doc source_url resources)
      (case Option.bind (style_get (ln_style n) ''background-image'') background_reference of
            None \<Rightarrow> Returns st
          | Some u \<Rightarrow> assign_picture (load_picture dec source_url resources u (snd st))
                (\<lambda>i. (fst st)\<lparr> pic_background := (pic_background (fst st))(lb_dom (ln_box n) := i) \<rparr>))"
    if "pictures_ok doc source_url resources st" for st
  proof (cases "Option.bind (style_get (ln_style n) ''background-image'') background_reference")
    case (Some u)
    have "images_backed resources (snd st)" using that by (simp add: pictures_ok_def)
    from load_picture_backed [OF this] show ?thesis
      unfolding Some option.case assign_picture_def
      by (rule returns_only_bind) (use that in \<open>auto simp: pictures_ok_def\<close>)
  qed (use that in simp)
  show ?thesis unfolding resolve_box_def by (rule returns_only_bind [OF 1 2])
qed

lemma resolve_images_ok:
  "images_backed resources images \<Longrightarrow>
    returns_only (pictures_ok doc source_url resources) (resolve_images dec doc source_url resources n images)"
  unfolding resolve_images_def
  by (rule fold_run_invariant [OF _ resolve_box_ok]) (simp_all add: pictures_ok_def no_pictures_def)

definition page_ok :: "render_document \<Rightarrow> bool" where
  "page_ok page \<longleftrightarrow>
     rd_commands page = render_commands (rd_document page) (rd_pictures page) (rd_layout page) \<and>
     (\<forall>b \<in> set (boxes_of (rd_layout page)). node_at (rd_document page) (box_node b) \<noteq> None) \<and>
     images_backed (rd_resources page) (rd_images page)"

lemma build_or_crash_returns: "build_or_crash doc sheet vis = Returns tree \<Longrightarrow> build_layout doc sheet vis = Some tree"
  by (simp add: build_or_crash_def split: option.splits)

lemma create_from_document_ok:
  "returns_only (\<lambda>page. page_ok page \<and> rd_document page = doc \<and> rd_source_url page = source_url \<and>
      rd_resources page = (case resources of None \<Rightarrow> Map.empty | Some r \<Rightarrow> r) \<and> rd_stylesheet page = css_parse css \<and> rd_width page = width \<and>
      pictures_ok doc source_url (rd_resources page) (rd_pictures page, rd_images page))
    (create_from_document dec doc css width resources source_url)"
proof (cases "build_or_crash doc (css_parse css) None")
  case (Returns tree)
  note nodes = laid_out_nodes [OF build_or_crash_returns [OF Returns]]
  have "images_backed r Map.empty" for r by (simp add: images_backed_def)
  from resolve_images_ok [OF this] show ?thesis
    unfolding create_from_document_def Let_def Returns bind_run_simps
    by (rule returns_only_bind) (auto simp: page_ok_def pictures_ok_def dest: nodes)
qed (simp_all add: create_from_document_def Let_def)

lemma rebuild_ok:
  assumes "page_ok page"
  shows "returns_only (\<lambda>page'. page_ok page' \<and> rd_document page' = rd_document page \<and> rd_source_url page' = rd_source_url page \<and>
      rd_resources page' = rd_resources page \<and> rd_stylesheet page' = rd_stylesheet page) (rebuild dec vis width page)"
proof (cases "build_or_crash (rd_document page) (rd_stylesheet page) vis")
  case (Returns tree)
  note nodes = laid_out_nodes [OF build_or_crash_returns [OF Returns]]
  have "images_backed (rd_resources page) (rd_images page)" using assms by (simp add: page_ok_def)
  from resolve_images_ok [OF this] show ?thesis
    unfolding rebuild_def Let_def Returns bind_run_simps
    by (rule returns_only_bind) (auto simp: page_ok_def pictures_ok_def dest: nodes)
qed (simp_all add: rebuild_def)

text \<open>A page made from resources: its document and style sheet are the texts the cache holds.\<close>

lemma create_from_resources_ok:
  "returns_only (\<lambda>p. case p of None \<Rightarrow> True | Some page \<Rightarrow>
      page_ok page \<and> rd_source_url page = document_url \<and> rd_resources page = resources \<and> rd_width page = width \<and>
      (\<exists>d. resources document_url = Some d \<and> rtype d = Document \<and>
        rd_document page = parse_html (cache_get_text resources (rurl d))) \<and>
      pictures_ok (rd_document page) [] resources (rd_pictures page, rd_images page))
    (create_from_resources dec document_url sheets width resources)"
proof -
  have "returns_only (\<lambda>p. case p of None \<Rightarrow> True | Some page \<Rightarrow>
      page_ok page \<and> rd_source_url page = document_url \<and> rd_resources page = resources \<and> rd_width page = width \<and>
      rd_document page = parse_html html \<and> pictures_ok (rd_document page) [] resources (rd_pictures page, rd_images page))
    (bind_run (create dec html css width (Some resources) []) (\<lambda>page. Returns (Some (page\<lparr> rd_source_url := document_url \<rparr>))))"
    for html css
    unfolding create_def by (rule returns_only_bind [OF create_from_document_ok]) (auto simp: page_ok_def)
  then show ?thesis
    unfolding create_from_resources_def cache_get_def
    by (auto split: option.split elim!: returns_only_weaken)
qed

text \<open>C34: a picture is looked up under the text of its \<open>src\<close> attribute: in a page made from
  resources, a node shows an image only when the resource cache holds an image under exactly that text.
  The loader stores resources under their absolute URL, so an image with a
  relative \<open>src\<close> that has been loaded for the page is not shown.\<close>

theorem picture_needs_literal_key:
  "returns_only
    (\<lambda>r. case r of None \<Rightarrow> True
      | Some page \<Rightarrow> dom (pic_image (rd_pictures page)) \<subseteq>
          {p. \<exists>n src d. node_at (rd_document page) p = Some n \<and> attribute n ''src'' = Some src \<and>
             resources src = Some d \<and> rtype d = ImageRes})
    (create_from_resources dec document_url sheets width resources)"
  by (rule returns_only_weaken [OF create_from_resources_ok])
    (fastforce simp: pictures_ok_def picture_ok_def resolve_resource_key_def split: option.splits)

end
