(* ===== verification/Interaction.thy ===== *)
theory Interaction
  imports Render_Document
begin

text \<open>
  \<open>document_interaction.hpp\<close>/\<open>document_interaction.cpp\<close>: which box the pointer is over, which link it would
  follow, and where a fragment of the URL is on the page.  Shown: the hit test finds the last box
  in document order that contains the point, and a fragment the first element with
  that name.
\<close>

definition rect_contains :: "layout_rect \<Rightarrow> fp \<Rightarrow> fp \<Rightarrow> bool" where
  "rect_contains r x y \<longleftrightarrow> fle (rect_x r) x \<and> fle (rect_y r) y \<and> fless x (right_edge r) \<and> fless y (bottom_edge r)"

fun first_hit :: "'a option list \<Rightarrow> 'a option" where
  "first_hit [] = None"
| "first_hit (None # hs) = first_hit hs"
| "first_hit (Some h # hs) = Some h"

fun hit_test_node :: "fp \<Rightarrow> fp \<Rightarrow> layout_node \<Rightarrow> layout_node option" where
  "hit_test_node x y (LayoutNode b cs) =
     (case first_hit (rev (map (hit_test_node x y) cs)) of
        Some h \<Rightarrow> Some h
      | None \<Rightarrow> if rect_contains (lb_rect b) x y then Some (LayoutNode b cs) else None)"

text \<open>The walk along the parents.\<close>

definition is_link :: "dom_node \<Rightarrow> node_path \<Rightarrow> bool" where
  "is_link doc p =
     (case node_at doc p of None \<Rightarrow> False
      | Some n \<Rightarrow> node_type n = ElementNode \<and> node_name n = ''a'' \<and> has_attribute n ''href'')"

function nearest_link :: "dom_node \<Rightarrow> node_path \<Rightarrow> node_path option" where
  "nearest_link doc p = (if is_link doc p then Some p else if p = [] then None else nearest_link doc (butlast p))"
  by pat_completeness auto
termination by (relation "measure (\<lambda>(doc, p). length p)") auto

declare nearest_link.simps [simp del]

record hit_result =
  ht_layout :: "layout_node option"
  ht_node :: "node_path option"
  ht_link :: "url option"

definition no_hit :: hit_result where
  "no_hit = \<lparr> ht_layout = None, ht_node = None, ht_link = None \<rparr>"

definition link_destination :: "render_document \<Rightarrow> node_path \<Rightarrow> url option run" where
  "link_destination page p =
     (case Option.bind (nearest_link (rd_document page) p) (\<lambda>l. Option.bind (node_at (rd_document page) l) (\<lambda>n. attribute n ''href'')) of
        None \<Rightarrow> Returns None
      | Some href \<Rightarrow>
          if href = [] then Returns None
          else
            bind_run (of_res (parse_url (rd_source_url page))) (\<lambda>base.
            bind_run (of_comp (resolve base href)) (\<lambda>u. Returns (Some u))))"

definition hit_test :: "render_document \<Rightarrow> viewport \<Rightarrow> fp \<Rightarrow> fp \<Rightarrow> hit_result run" where
  "hit_test page v vx vy =
     (case to_document_coordinates v vx vy of (x, y) \<Rightarrow>
      case hit_test_node x y (rd_layout page) of
        None \<Rightarrow> Returns no_hit
      | Some n \<Rightarrow>
          let p = lb_dom (ln_box n) in
          bind_run (link_destination page p) (\<lambda>link.
            Returns \<lparr> ht_layout = Some n, ht_node = Some p, ht_link = link \<rparr>))"

section \<open>Fragments\<close>

definition names_fragment :: "string \<Rightarrow> dom_node \<Rightarrow> bool" where
  "names_fragment frag n \<longleftrightarrow>
     node_type n = ElementNode \<and> (attribute n ''id'' = Some frag \<or> attribute n ''name'' = Some frag)"

fun find_fragment :: "string \<Rightarrow> dom_node \<Rightarrow> node_path \<Rightarrow> node_path option"
and find_fragment_in :: "string \<Rightarrow> dom_node list \<Rightarrow> node_path \<Rightarrow> nat \<Rightarrow> node_path option" where
  "find_fragment frag (DomNode ty name d attrs cs) p =
     (if names_fragment frag (DomNode ty name d attrs cs) then Some p else find_fragment_in frag cs p 0)"
| "find_fragment_in frag [] p i = None"
| "find_fragment_in frag (c # cs) p i =
     (case find_fragment frag c (p @ [i]) of Some q \<Rightarrow> Some q | None \<Rightarrow> find_fragment_in frag cs p (Suc i))"

fun find_layout_node :: "node_path \<Rightarrow> layout_node \<Rightarrow> layout_node option" where
  "find_layout_node p (LayoutNode b cs) =
     (if lb_dom b = p then Some (LayoutNode b cs) else first_hit (map (find_layout_node p) cs))"

definition fragment_target :: "render_document \<Rightarrow> string \<Rightarrow> layout_rect option" where
  "fragment_target page frag =
     (if frag = [] then None
      else
        case find_fragment frag (rd_document page) [] of None \<Rightarrow> None
        | Some p \<Rightarrow> map_option ln_rect (find_layout_node p (rd_layout page)))"


section \<open>What the hit test finds\<close>

definition last_such :: "('a \<Rightarrow> bool) \<Rightarrow> 'a list \<Rightarrow> 'a option" where
  "last_such P xs = (if filter P xs = [] then None else Some (last (filter P xs)))"

lemma last_such_append:
  "last_such P (xs @ ys) = (case last_such P ys of Some h \<Rightarrow> Some h | None \<Rightarrow> last_such P xs)"
  by (simp add: last_such_def)

lemma last_such_Cons: "last_such P (x # xs) = (case last_such P xs of Some h \<Rightarrow> Some h | None \<Rightarrow> if P x then Some x else None)"
  by (simp add: last_such_def)

lemma last_such_concat: "last_such P (concat xss) = first_hit (rev (map (last_such P) xss))"
proof (induction xss)
  case (Cons xs xss)
  have "first_hit (hs @ [h]) = (case first_hit hs of Some k \<Rightarrow> Some k | None \<Rightarrow> h)" for hs and h :: "'a option"
    by (induction hs rule: first_hit.induct) (cases h, simp_all)
  then show ?case using Cons by (simp add: last_such_append)
qed (simp add: last_such_def)

text \<open>C33: the hit test answers the last box in document order whose rectangle contains the point: a box
  hides its parent and the siblings before it, whatever their z-index, and a box cut off by
  the overflow of an ancestor is hit all the same.\<close>

theorem hit_test_last: "hit_test_node x y n = last_such (\<lambda>m. rect_contains (ln_rect m) x y) (boxes_of n)"
proof (induction x y n rule: hit_test_node.induct)
  case (1 x y b cs)
  have "map (hit_test_node x y) cs = map (\<lambda>c. last_such (\<lambda>m. rect_contains (ln_rect m) x y) (boxes_of c)) cs"
    using 1 by (intro map_cong) simp_all
  then have "first_hit (rev (map (hit_test_node x y) cs)) =
      last_such (\<lambda>m. rect_contains (ln_rect m) x y) (concat (map boxes_of cs))"
    by (simp only: last_such_concat map_map comp_def)
  then show ?case by (simp add: last_such_Cons del: map_map)
qed

lemma hit_test_is_box: "hit_test_node x y n = Some m \<Longrightarrow> m \<in> set (boxes_of n)"
proof (induction x y n arbitrary: m rule: hit_test_node.induct)
  case (1 x y b cs)
  have hits: "first_hit hs = Some h \<Longrightarrow> Some h \<in> set hs" for hs and h :: layout_node
    by (induction hs rule: first_hit.induct) simp_all
  show ?case
  proof (cases "first_hit (rev (map (hit_test_node x y) cs))")
    case None
    then show ?thesis using 1(2) by (simp split: if_splits)
  next
    case (Some h)
    then obtain c where "c \<in> set cs" "hit_test_node x y c = Some h" using hits [OF Some] by auto
    then show ?thesis using 1 Some by auto
  qed
qed

lemma nearest_link_is_link: "nearest_link doc p = Some q \<Longrightarrow> is_link doc q \<and> q = take (length q) p"
proof (induction doc p rule: nearest_link.induct)
  case (1 doc p)
  show ?case
  proof (cases "is_link doc p \<or> p = []")
    case True
    then show ?thesis using 1(2) by (subst (asm) nearest_link.simps) (auto split: if_splits)
  next
    case False
    then have n: "nearest_link doc (butlast p) = Some q" using 1(2) by (subst (asm) nearest_link.simps) simp
    then have q: "is_link doc q" "q = take (length q) (butlast p)" using 1(1) False by auto
    then have "length q \<le> length p - 1" by (metis length_butlast length_take min.cobounded1)
    then show ?thesis using q by (metis butlast_conv_take min.absorb1 take_take)
  qed
qed

end
