(* ===== verification/Security.thy ===== *)
theory Security
  imports Url
begin

text \<open>
  \<open>src/rendering/security_policy.hpp\<close> and \<open>security_policy.cpp\<close>: origins, supported
  schemes, mixed content and the decision whether a document may load a resource, with the
  reason the code reports.
\<close>

section \<open>Definitions\<close>

datatype request_context = CtxDocument | CtxSubresource | CtxScript | CtxStyle | CtxImage
  | CtxFormSubmission

definition origin :: "url \<Rightarrow> string" where
  "origin u =
    (if \<not> is_absolute u \<or> scheme u = [] \<or> authority u = [] then []
     else lower (scheme u) @ ''://'' @ lower (authority u))"

definition is_same_origin :: "url \<Rightarrow> url \<Rightarrow> bool" where
  "is_same_origin a b \<longleftrightarrow> origin a \<noteq> [] \<and> origin a = origin b"

definition is_secure_scheme :: "url \<Rightarrow> bool" where
  "is_secure_scheme u \<longleftrightarrow> lower (scheme u) = ''https''"

definition is_supported_scheme :: "url \<Rightarrow> bool" where
  "is_supported_scheme u \<longleftrightarrow> lower (scheme u) \<in> {''http'', ''https'', ''file''}"

definition allows_mixed_content :: "url \<Rightarrow> url \<Rightarrow> request_context \<Rightarrow> bool" where
  "allows_mixed_content doc res ctx \<longleftrightarrow>
    (if \<not> is_secure_scheme doc \<or> lower (scheme res) \<noteq> ''http'' then True else ctx = CtxImage)"

text \<open>\<open>allows_resource\<close> returns the verdict and writes a reason; here \<^term>\<open>Inl\<close> carries the
  reason of a refusal.\<close>

definition allows_resource :: "url \<Rightarrow> url \<Rightarrow> request_context \<Rightarrow> string + unit" where
  "allows_resource doc res ctx =
    (if \<not> is_valid res then Inl ''Invalid resource URL''
     else if \<not> is_supported_scheme res then Inl ''Unsupported resource scheme''
     else if \<not> allows_mixed_content doc res ctx
       then Inl ''Blocked insecure active content from a secure document''
     else if lower (scheme doc) = ''file'' \<and> is_absolute res \<and> lower (scheme res) \<noteq> ''file''
       then Inl ''Blocked network resource from file document''
     else Inr ())"

section \<open>Lemmas\<close>

text \<open>A supported scheme is never empty, so an allowed resource is absolute.\<close>

lemma supported_absolute: "is_supported_scheme u \<Longrightarrow> is_absolute u"
  by (auto simp: is_supported_scheme_def is_absolute_def)

lemma same_origin_sym: "is_same_origin a b \<Longrightarrow> is_same_origin b a"
  by (auto simp: is_same_origin_def)

lemma same_origin_trans: "is_same_origin a b \<Longrightarrow> is_same_origin b c \<Longrightarrow> is_same_origin a c"
  by (auto simp: is_same_origin_def)

lemma same_origin_refl: "is_same_origin a a \<longleftrightarrow> is_absolute a \<and> authority a \<noteq> []"
  by (auto simp: is_same_origin_def origin_def is_absolute_def)

section \<open>Properties\<close>

text \<open>C4: The whole policy in one table: what each kind of document may load.  A resource is
  allowed exactly when its URL is non-empty and its scheme, compared without case, is
  \<open>file\<close> or \<open>https\<close> or \<open>http\<close>, where a \<open>file\<close> document may load \<open>file\<close> only and an
  \<open>https\<close> document may load \<open>http\<close> for images only.\<close>

theorem allows_resource_iff:
  "allows_resource doc res ctx = Inr () \<longleftrightarrow>
    serialized res \<noteq> [] \<and>
    (lower (scheme res) = ''file''
     \<or> lower (scheme res) = ''https'' \<and> lower (scheme doc) \<noteq> ''file''
     \<or> lower (scheme res) = ''http'' \<and> lower (scheme doc) \<noteq> ''file''
         \<and> \<not> (lower (scheme doc) = ''https'' \<and> ctx \<noteq> CtxImage))"
  by (auto simp: allows_resource_def is_valid_def is_supported_scheme_def is_secure_scheme_def
      allows_mixed_content_def is_absolute_def)

end
