(* ===== verification/Cookies.thy ===== *)
theory Cookies
  imports Url
begin

text \<open>
  \<open>src/rendering/cookie_jar.hpp\<close> and \<open>cookie_jar.cpp\<close>: the cookie jar of the rendering
  library, a list of cookies per origin.
\<close>

section \<open>Definitions\<close>

record cookie =
  c_name :: string
  c_value :: string
  c_domain :: string
  c_path :: string
  c_secure :: bool

type_synonym cookie_jar = "string \<rightharpoonup> cookie list"

definition origin_key :: "url \<Rightarrow> string" where
  "origin_key u = scheme u @ ''://'' @ authority u"

definition jar_list :: "cookie_jar \<Rightarrow> string \<Rightarrow> cookie list" where
  "jar_list jar k = (case jar k of None \<Rightarrow> [] | Some v \<Rightarrow> v)"

text \<open>\<open>find_if\<close> for a cookie with the same name and path: replace it, or append.\<close>

definition same_cookie :: "cookie \<Rightarrow> cookie \<Rightarrow> bool" where
  "same_cookie c x \<longleftrightarrow> c_name x = c_name c \<and> c_path x = c_path c"

fun upsert :: "cookie \<Rightarrow> cookie list \<Rightarrow> cookie list" where
  "upsert c [] = [c]"
| "upsert c (x # xs) = (if same_cookie c x then c # xs else x # upsert c xs)"

definition set_cookie :: "url \<Rightarrow> cookie \<Rightarrow> cookie_jar \<Rightarrow> bool \<times> cookie_jar" where
  "set_cookie u c jar =
    (if \<not> is_valid u \<or> c_name c = [] then (False, jar)
     else
       (let c' = (if c_domain c = [] then c\<lparr>c_domain := authority u\<rparr> else c)
        in (True, jar(origin_key u \<mapsto> upsert c' (jar_list jar (origin_key u))))))"

text \<open>The attribute loop of \<open>set_from_header\<close>, over what is left of the header; attribute
  names are compared with their case, after leading blanks.\<close>

definition attribute_effect :: "string \<Rightarrow> cookie \<Rightarrow> cookie" where
  "attribute_effect part c =
    (let e = find_idx ((=) CHR ''='') part;
         key = dropWhile ((=) CHR '' '') (take_opt e part);
         val = (case e of None \<Rightarrow> [] | Some i \<Rightarrow> drop (i + 1) part);
         c1 = (if key = ''Path'' then c\<lparr>c_path := val\<rparr> else c)
     in if key = ''Secure'' then c1\<lparr>c_secure := True\<rparr> else c1)"

function header_attributes :: "string \<Rightarrow> cookie \<Rightarrow> cookie" where
  "header_attributes rest c =
    (if rest = [] then c
     else (case find_idx ((=) CHR '';'') rest of
             None \<Rightarrow> attribute_effect rest c
           | Some n \<Rightarrow> header_attributes (drop (n + 1) rest) (attribute_effect (take n rest) c)))"
  by pat_completeness auto
termination by (relation "measure (length \<circ> fst)") (auto dest: find_idx_less)

declare header_attributes.simps [simp del]

definition set_from_header :: "url \<Rightarrow> string \<Rightarrow> cookie_jar \<Rightarrow> bool \<times> cookie_jar" where
  "set_from_header u h jar =
    (let semi = find_idx ((=) CHR '';'') h; pair = take_opt semi h
     in case find_idx ((=) CHR ''='') pair of
          None \<Rightarrow> (False, jar)
        | Some eq \<Rightarrow>
            if eq = 0 then (False, jar)
            else
              (let c = \<lparr>c_name = take eq pair, c_value = drop (eq + 1) pair,
                        c_domain = authority u, c_path = ''/'', c_secure = False\<rparr>;
                   rest = (case semi of None \<Rightarrow> [] | Some i \<Rightarrow> drop (i + 1) h)
               in set_cookie u (header_attributes rest c) jar))"

definition cookies_for :: "url \<Rightarrow> cookie_jar \<Rightarrow> cookie list" where
  "cookies_for u jar =
    filter (\<lambda>c. (\<not> c_secure c \<or> scheme u = ''https'') \<and> is_prefix (c_path c) (path u))
      (jar_list jar (origin_key u))"

text \<open>The header joins the cookies with \<open>; \<close>, testing the accumulated text for emptiness.\<close>

fun join_cookies :: "string \<Rightarrow> cookie list \<Rightarrow> string" where
  "join_cookies out [] = out"
| "join_cookies out (c # cs) =
     join_cookies ((if out = [] then [] else out @ ''; '') @ c_name c @ ''='' @ c_value c) cs"

definition cookie_header :: "url \<Rightarrow> cookie_jar \<Rightarrow> string" where
  "cookie_header u jar = join_cookies [] (cookies_for u jar)"

section \<open>The jar's invariant\<close>

text \<open>No origin holds two cookies with one name and path.\<close>

definition cookie_id :: "cookie \<Rightarrow> string \<times> string" where
  "cookie_id c = (c_name c, c_path c)"

definition jar_ok :: "cookie_jar \<Rightarrow> bool" where
  "jar_ok jar \<longleftrightarrow> (\<forall>k v. jar k = Some v \<longrightarrow> distinct (map cookie_id v))"

lemma same_cookie_id: "same_cookie c x \<longleftrightarrow> cookie_id x = cookie_id c"
  by (auto simp: same_cookie_def cookie_id_def)

lemma upsert_ids: "set (map cookie_id (upsert c v)) = insert (cookie_id c) (set (map cookie_id v))"
  by (induction v) (auto simp: same_cookie_id)

lemma distinct_upsert: "distinct (map cookie_id v) \<Longrightarrow> distinct (map cookie_id (upsert c v))"
proof (induction v)
  case Nil
  then show ?case by simp
next
  case (Cons x v)
  then show ?case using upsert_ids [of c v] by (auto simp: same_cookie_id)
qed

lemma set_upsert:
  "distinct (map cookie_id v) \<Longrightarrow>
    set (upsert c v) = insert c {x \<in> set v. cookie_id x \<noteq> cookie_id c}"
  by (induction v) (auto simp: same_cookie_id image_iff)

lemma jar_list_distinct: "jar_ok jar \<Longrightarrow> distinct (map cookie_id (jar_list jar k))"
  by (auto simp: jar_ok_def jar_list_def split: option.split)

lemma jar_ok_empty: "jar_ok Map.empty"
  by (simp add: jar_ok_def)

lemma set_cookie_ok: "jar_ok jar \<Longrightarrow> jar_ok (snd (set_cookie u c jar))"
  using jar_list_distinct [of jar "origin_key u"]
  by (auto simp: set_cookie_def Let_def jar_ok_def intro!: distinct_upsert)

lemma set_from_header_ok: "jar_ok jar \<Longrightarrow> jar_ok (snd (set_from_header u h jar))"
  by (auto simp: set_from_header_def Let_def set_cookie_ok split: option.split)

lemma attribute_effect_name [simp]: "c_name (attribute_effect p c) = c_name c"
  by (simp add: attribute_effect_def Let_def)

lemma header_attributes_name [simp]: "c_name (header_attributes r c) = c_name c"
proof (induction r c rule: header_attributes.induct)
  case (1 r c)
  then show ?case
    by (simp add: header_attributes.simps [of r c] split: option.split)
qed

lemma set_cookie_other_origin:
  "origin_key v \<noteq> origin_key u \<Longrightarrow> cookies_for v (snd (set_cookie u c jar)) = cookies_for v jar"
  by (auto simp: set_cookie_def Let_def cookies_for_def jar_list_def)

lemma jar_list_set_cookie:
  assumes "is_valid u" and "c_name c \<noteq> []"
  shows "jar_list (snd (set_cookie u c jar)) (origin_key u) =
    upsert (if c_domain c = [] then c\<lparr>c_domain := authority u\<rparr> else c)
      (jar_list jar (origin_key u))"
  using assms by (simp add: set_cookie_def Let_def jar_list_def)

section \<open>Properties\<close>

text \<open>C7: A cookie set for a URL is the only cookie of its name and path that any URL of the
  same origin gets back, exactly when the secure flag and the path prefix allow it.\<close>

theorem cookie_set_get:
  assumes "jar_ok jar" and "is_valid u" and "c_name c \<noteq> []" and "origin_key v = origin_key u"
  shows "x \<in> set (cookies_for v (snd (set_cookie u c jar))) \<and> cookie_id x = cookie_id c \<longleftrightarrow>
    x = (if c_domain c = [] then c\<lparr>c_domain := authority u\<rparr> else c)
    \<and> (c_secure c \<longrightarrow> scheme v = ''https'') \<and> is_prefix (c_path c) (path v)"
proof -
  let ?c = "if c_domain c = [] then c\<lparr>c_domain := authority u\<rparr> else c"
  have id: "cookie_id ?c = cookie_id c" by (simp add: cookie_id_def)
  have "set (jar_list (snd (set_cookie u c jar)) (origin_key u)) =
      insert ?c {x \<in> set (jar_list jar (origin_key u)). cookie_id x \<noteq> cookie_id ?c}"
    unfolding jar_list_set_cookie [OF assms(2,3)]
    by (rule set_upsert [OF jar_list_distinct [OF assms(1)]])
  moreover have "c_secure ?c = c_secure c" "c_path ?c = c_path c" by simp_all
  ultimately show ?thesis
    using assms(4) id by (auto simp: cookies_for_def)
qed

theorem cookie_set_get_witness:
  "(\<lparr>c_name = ''a'', c_value = ''1'', c_domain = ''h'', c_path = ''/'', c_secure = True\<rparr>
      \<in> set (cookies_for
          \<lparr>serialized = ''https://h/x'', scheme = ''https'', authority = ''h'', path = ''/x'', fragment = []\<rparr>
          (snd (set_cookie
            \<lparr>serialized = ''https://h/x'', scheme = ''https'', authority = ''h'', path = ''/x'', fragment = []\<rparr>
            \<lparr>c_name = ''a'', c_value = ''1'', c_domain = [], c_path = ''/'', c_secure = True\<rparr>
            Map.empty))))"
proof -
  let ?u = "\<lparr>serialized = ''https://h/x'', scheme = ''https'', authority = ''h'', path = ''/x'', fragment = []\<rparr>"
  let ?c = "\<lparr>c_name = ''a'', c_value = ''1'', c_domain = [], c_path = ''/'', c_secure = True\<rparr>"
  let ?x = "\<lparr>c_name = ''a'', c_value = ''1'', c_domain = ''h'', c_path = ''/'', c_secure = True\<rparr>"
  have "is_valid ?u" and "c_name ?c \<noteq> []" by (simp_all add: is_valid_def)
  from cookie_set_get [OF jar_ok_empty this refl, of ?x] show ?thesis by simp
qed

end
