(* ===== verification/Loader.thy ===== *)
theory Loader
  imports Resource Security Cookies
begin

text \<open>
  The fetch side of the program: \<open>resource_backend.hpp\<close> (the backend interface, here the
  locale \<open>resource_backend\<close>), \<open>file_resource_backend.cpp\<close>, \<open>http_resource_backend.hpp/.cpp\<close>,
  \<open>resource_loader.hpp/.cpp\<close> and \<open>secure_resource_loader.cpp\<close>.  What a backend reads or
  changes outside the library (files, the network, the cookie jar) is a world state
  \<open>'w\<close> that is passed through every call.
\<close>

section \<open>Backends\<close>

datatype backend_state = BReady | BUnsupported | BMissing | BFailed

record backend_result =
  bstate :: backend_state
  bresource :: "resource_data option"
  bmessage :: string

definition backend_succeeded :: "backend_result \<Rightarrow> bool" where
  "backend_succeeded r \<longleftrightarrow> bstate r = BReady \<and> bresource r \<noteq> None"

record 'w backend =
  supports :: "url \<Rightarrow> bool"
  bload :: "url \<Rightarrow> 'w \<Rightarrow> backend_result \<times> 'w"

definition backend_error :: "backend_state \<Rightarrow> string \<Rightarrow> backend_result" where
  "backend_error st msg = \<lparr>bstate = st, bresource = None, bmessage = msg\<rparr>"

definition backend_ready :: "resource_data \<Rightarrow> backend_result" where
  "backend_ready d = \<lparr>bstate = BReady, bresource = Some d, bmessage = []\<rparr>"

text \<open>What every backend promises the loader: an unsupported URL is refused as such and has
  no effect, and "ready" always comes with a resource.\<close>

locale resource_backend =
  fixes sup :: "url \<Rightarrow> bool"
    and fetch :: "url \<Rightarrow> 'w \<Rightarrow> backend_result \<times> 'w"
  assumes unsupported: "\<not> sup u \<Longrightarrow> bstate (fst (fetch u w)) = BUnsupported \<and> snd (fetch u w) = w"
    and ready_resource: "bstate (fst (fetch u w)) = BReady \<Longrightarrow> bresource (fst (fetch u w)) \<noteq> None"
begin

lemma succeeded_supported: "backend_succeeded (fst (fetch u w)) \<Longrightarrow> sup u"
  using unsupported by (force simp: backend_succeeded_def)

lemma succeeded_iff: "backend_succeeded (fst (fetch u w)) \<longleftrightarrow> bstate (fst (fetch u w)) = BReady"
  using ready_resource by (auto simp: backend_succeeded_def)

text \<open>The loader's guard \<open>supports(url)\<close> is redundant for the outcome: without it the same
  fetches succeed and the same world results.\<close>

lemma guard_redundant:
  "(if sup u then fetch u w else (fst (fetch u w), w)) = fetch u w"
  using unsupported by (auto simp: prod_eq_iff)

end

subsection \<open>Files\<close>

text \<open>What the file system answers for a path: \<open>exists\<close>, \<open>is_regular_file\<close>, opening and
  reading, in the order the backend asks.\<close>

datatype fs_status = NoEntry | StatError | NotRegular | OpenFails | ReadFails | Contents bytes

definition file_supports :: "url \<Rightarrow> bool" where
  "file_supports u \<longleftrightarrow> scheme u = ''file''"

definition file_load :: "url \<Rightarrow> (string \<Rightarrow> fs_status) \<Rightarrow> backend_result \<times> (string \<Rightarrow> fs_status)" where
  "file_load u fs =
    (if \<not> file_supports u then (backend_error BUnsupported ''File backend only supports file:// URLs'', fs)
     else if path u = [] then (backend_error BMissing ''File URL has no path'', fs)
     else (case fs (path u) of
         NoEntry \<Rightarrow> (backend_error BMissing ''Requested file does not exist'', fs)
       | StatError \<Rightarrow> (backend_error BMissing ''Requested file does not exist'', fs)
       | NotRegular \<Rightarrow> (backend_error BFailed ''Requested file is not a regular file'', fs)
       | OpenFails \<Rightarrow> (backend_error BFailed ''Unable to open requested file'', fs)
       | ReadFails \<Rightarrow> (backend_error BFailed ''Unable to read requested file'', fs)
       | Contents bs \<Rightarrow>
           (backend_ready \<lparr>rtype = ct_type (classify_content_type u []),
                           rurl = serialized u, rbytes = bs\<rparr>, fs)))"

interpretation file_backend: resource_backend file_supports file_load
  by unfold_locales
    (auto simp: file_load_def backend_error_def backend_ready_def split: fs_status.splits if_splits)

subsection \<open>HTTP\<close>

record http_request =
  rq_url :: url
  rq_verb :: string
  rq_headers :: "string \<rightharpoonup> string"
  rq_body :: bytes

record http_response =
  rs_status :: int
  rs_final_url :: url
  rs_headers :: "string \<rightharpoonup> string"
  rs_body :: bytes
  rs_content_type :: string
  rs_message :: string

definition response_succeeded :: "http_response \<Rightarrow> bool" where
  "response_succeeded r \<longleftrightarrow> 200 \<le> rs_status r \<and> rs_status r < 400"

text \<open>The backend's world: the optional transport's own state and the optional cookie jar.\<close>

record 'n http_world =
  net :: 'n
  jar :: "cookie_jar option"

definition http_supports :: "url \<Rightarrow> bool" where
  "http_supports u \<longleftrightarrow> scheme u = ''http'' \<or> scheme u = ''https''"

definition infer_type :: "string \<Rightarrow> url \<Rightarrow> resource_type" where
  "infer_type ct u =
    (if find_sub ''text/css'' ct \<noteq> None \<or> is_suffix ''.css'' (path u) then Stylesheet
     else if is_prefix ''image/'' ct \<or> is_suffix ''.png'' (path u) \<or> is_suffix ''.jpg'' (path u)
       \<or> is_suffix ''.jpeg'' (path u) \<or> is_suffix ''.gif'' (path u) then ImageRes
     else Document)"

definition http_request_for :: "url \<Rightarrow> cookie_jar option \<Rightarrow> http_request" where
  "http_request_for u cookies =
    \<lparr>rq_url = u, rq_verb = ''GET'',
     rq_headers = (case cookies of
         None \<Rightarrow> Map.empty
       | Some j \<Rightarrow> (let h = cookie_header u j in
           if h \<noteq> [] then [''Cookie'' \<mapsto> h] else Map.empty)),
     rq_body = []\<rparr>"

definition final_url :: "url \<Rightarrow> http_response \<Rightarrow> url" where
  "final_url u r = (if is_valid (rs_final_url r) then rs_final_url r else u)"

definition http_load ::
    "(http_request \<Rightarrow> 'n \<Rightarrow> http_response \<times> 'n) option \<Rightarrow> url \<Rightarrow> 'n http_world
      \<Rightarrow> backend_result \<times> 'n http_world" where
  "http_load transport u w =
    (if \<not> http_supports u then (backend_error BUnsupported ''Unsupported URL scheme'', w)
     else (case transport of
         None \<Rightarrow> (backend_error BFailed ''No HTTP transport is configured'', w)
       | Some send \<Rightarrow>
           (let (response, n') = send (http_request_for u (jar w)) (net w); w1 = w\<lparr>net := n'\<rparr>
            in if \<not> response_succeeded response
               then (backend_error BMissing
                      (if rs_message response = [] then ''HTTP request failed'' else rs_message response), w1)
               else
                 (let w2 = (case jar w of
                       None \<Rightarrow> w1
                     | Some j \<Rightarrow> (case rs_headers response ''Set-Cookie'' of
                           None \<Rightarrow> w1
                         | Some h \<Rightarrow> w1\<lparr>jar := Some (snd (set_from_header (final_url u response) h j))\<rparr>));
                      final = final_url u response
                  in (backend_ready \<lparr>rtype = infer_type (rs_content_type response) final,
                                     rurl = serialized final, rbytes = rs_body response\<rparr>, w2)))))"

interpretation http_backend: resource_backend http_supports "http_load transport"
  by unfold_locales
    (auto simp: http_load_def backend_error_def backend_ready_def Let_def
      split: option.splits if_splits prod.splits)

text \<open>The jar keeps its invariant through a request.\<close>

lemma http_load_jar_ok:
  assumes "\<And>j. jar w = Some j \<Longrightarrow> jar_ok j" and "jar (snd (http_load transport u w)) = Some j'"
  shows "jar_ok j'"
  using assms
  by (auto simp: http_load_def backend_error_def Let_def set_from_header_ok
      split: option.splits if_splits prod.splits)

section \<open>The loader\<close>

datatype load_state = LReady | LMissing | LFailed

record load_result =
  lstate :: load_state
  lresource :: "resource_data option"
  lmessage :: string

definition load_succeeded :: "load_result \<Rightarrow> bool" where
  "load_succeeded r \<longleftrightarrow> lstate r = LReady \<and> lresource r \<noteq> None"

definition load_error :: "load_state \<Rightarrow> string \<Rightarrow> load_result" where
  "load_error st msg = \<lparr>lstate = st, lresource = None, lmessage = msg\<rparr>"

definition load_ready :: "resource_data option \<Rightarrow> load_result" where
  "load_ready d = \<lparr>lstate = LReady, lresource = d, lmessage = []\<rparr>"

text \<open>A backend pointer of the list may be null (\<^term>\<open>None\<close>).\<close>

record 'w loader =
  fetcher :: "(url \<Rightarrow> 'w \<Rightarrow> resource_data option \<times> 'w) option"
  backends :: "'w backend option list"

definition add_backend :: "'w backend option \<Rightarrow> 'w loader \<Rightarrow> 'w loader" where
  "add_backend b l = (case b of None \<Rightarrow> l | Some _ \<Rightarrow> l\<lparr>backends := backends l @ [b]\<rparr>)"

text \<open>What the loader does with a fetched resource: fill in a missing URL, refuse a
  different one, otherwise cache it and return what the cache then holds.\<close>

definition accept_fetched ::
    "url \<Rightarrow> resource_data \<Rightarrow> resource_cache \<times> 'w \<Rightarrow> load_result \<times> resource_cache \<times> 'w" where
  "accept_fetched u d st =
    (let d' = (if rurl d = [] then d\<lparr>rurl := serialized u\<rparr> else d) in
     if rurl d' \<noteq> serialized u
     then (load_error LFailed ''Loaded resource URL does not match request'', st)
     else (let c' = cache_put d' (fst st) in (load_ready (cache_get c' (serialized u)), c', snd st)))"

text \<open>The loop over the backends, with its flags \<open>supported\<close> and \<open>failure\<close>.\<close>

fun try_backends ::
    "'w backend option list \<Rightarrow> bool \<Rightarrow> string \<Rightarrow> url \<Rightarrow> resource_cache \<times> 'w
      \<Rightarrow> load_result \<times> resource_cache \<times> 'w" where
  "try_backends [] supported failure u st =
    (if \<not> supported
     then (load_error LMissing ''Resource is not cached and no backend supports the URL'', st)
     else (load_error LMissing
       (if failure = [] then ''Resource backend did not provide the requested resource'' else failure), st))"
| "try_backends (b # bs) supported failure u st =
    (case b of
       None \<Rightarrow> try_backends bs supported failure u st
     | Some be \<Rightarrow>
         (if \<not> supports be u then try_backends bs supported failure u st
          else
            (let (r, w') = bload be u (snd st) in
             if backend_succeeded r then accept_fetched u (the (bresource r)) (fst st, w')
             else try_backends bs True (if bmessage r \<noteq> [] then bmessage r else failure) u
                    (fst st, w'))))"

definition load ::
    "'w loader \<Rightarrow> url \<Rightarrow> resource_cache \<times> 'w \<Rightarrow> load_result \<times> resource_cache \<times> 'w" where
  "load l u st =
    (if \<not> is_valid u then (load_error LFailed ''Invalid resource URL'', st)
     else (case cache_get (fst st) (serialized u) of
         Some d \<Rightarrow> (load_ready (Some d), st)
       | None \<Rightarrow>
           (case fetcher l of
              None \<Rightarrow> try_backends (backends l) False [] u st
            | Some f \<Rightarrow>
                (let (fetched, w') = f u (snd st) in
                 case fetched of
                   Some d \<Rightarrow> accept_fetched u d (fst st, w')
                 | None \<Rightarrow> try_backends (backends l) False [] u (fst st, w')))))"

definition load_typed ::
    "'w loader \<Rightarrow> resource_type \<Rightarrow> url \<Rightarrow> resource_cache \<times> 'w \<Rightarrow> load_result \<times> resource_cache \<times> 'w" where
  "load_typed l expected u st =
    (let (r, st') = load l u st in
     if \<not> load_succeeded r then (r, st')
     else if rtype (the (lresource r)) \<noteq> expected
       then (load_error LFailed ''Loaded resource has an unexpected type'', st')
     else (r, st'))"

text \<open>The secure loader checks the policy first.\<close>

definition secure_load ::
    "'w loader \<Rightarrow> url \<Rightarrow> request_context \<Rightarrow> url \<Rightarrow> resource_cache \<times> 'w
      \<Rightarrow> load_result \<times> resource_cache \<times> 'w" where
  "secure_load l doc ctx u st =
    (case allows_resource doc u ctx of
       Inl reason \<Rightarrow> (load_error LFailed reason, st)
     | Inr _ \<Rightarrow> load l u st)"

subsection \<open>Dependency discovery\<close>

text \<open>
  The scan for \<open>href\<close> and \<open>src\<close> attributes.  The code gives \<open>std::regex\<close> the pattern
  \<^verbatim>\<open>(?:href|src)\s*=\s*[\"']([^\"']+)[\"']\<close> without case; every part of it is delimited by
  a character the part itself excludes, so the match at a position is unique and is computed
  directly: the captured text and what follows the match.
\<close>

definition is_quote :: "char \<Rightarrow> bool" where
  "is_quote c \<longleftrightarrow> c = CHR 0x22 \<or> c = CHR 0x27"

definition match_keyword :: "string \<Rightarrow> string option" where
  "match_keyword s =
    (if is_prefix ''href'' (lower s) then Some (drop 4 s)
     else if is_prefix ''src'' (lower s) then Some (drop 3 s) else None)"

definition match_reference :: "string \<Rightarrow> (string \<times> string) option" where
  "match_reference s =
    (case match_keyword s of
       None \<Rightarrow> None
     | Some a \<Rightarrow>
         (case dropWhile isspace a of
            [] \<Rightarrow> None
          | c # b \<Rightarrow>
              (if c \<noteq> CHR ''='' then None
               else (case dropWhile isspace b of
                   [] \<Rightarrow> None
                 | q # body \<Rightarrow>
                     (if \<not> is_quote q then None
                      else
                        (let v = takeWhile (\<lambda>x. \<not> is_quote x) body;
                             rest = dropWhile (\<lambda>x. \<not> is_quote x) body
                         in if v = [] \<or> rest = [] then None else Some (v, tl rest)))))))"

lemma match_reference_shorter: "match_reference s = Some (v, r) \<Longrightarrow> length r < length s"
proof -
  assume m: "match_reference s = Some (v, r)"
  obtain a where a: "match_keyword s = Some a" "length a < length s"
    using m by (cases s) (auto simp: match_reference_def match_keyword_def split: if_splits option.splits)
  obtain c b q body where
    b: "dropWhile isspace a = c # b" and q: "dropWhile isspace b = q # body"
    and r: "r = tl (dropWhile (\<lambda>x. \<not> is_quote x) body)"
    using m a by (auto simp: match_reference_def Let_def split: list.splits if_splits)
  have "length (c # b) \<le> length a" "length (q # body) \<le> length b"
    using length_dropWhile_le b q by metis+
  moreover have "length (dropWhile (\<lambda>x. \<not> is_quote x) body) \<le> length body"
    by (rule length_dropWhile_le)
  ultimately show ?thesis using r a by auto
qed

function scan_references :: "string \<Rightarrow> string list" where
  "scan_references s =
    (case s of
       [] \<Rightarrow> []
     | _ # rest \<Rightarrow>
         (case match_reference s of
            None \<Rightarrow> scan_references rest
          | Some (v, r) \<Rightarrow> v # scan_references r))"
  by pat_completeness auto
termination by (relation "measure length") (auto dest: match_reference_shorter)

declare scan_references.simps [simp del]

fun resolve_all :: "url \<Rightarrow> string list \<Rightarrow> url list comp" where
  "resolve_all base [] = return_comp []"
| "resolve_all base (raw # raws) =
    bind_comp (resolve base raw) (\<lambda>u.
      bind_comp (resolve_all base raws) (\<lambda>us.
        return_comp (if is_valid u then u # us else us)))"

definition discover_dependencies :: "resource_data \<Rightarrow> url \<Rightarrow> url list comp" where
  "discover_dependencies doc base =
    (if rtype doc \<noteq> Document then return_comp []
     else resolve_all base (scan_references (string_of_bytes (rbytes doc))))"

section \<open>Lemmas\<close>

lemmas load_defs = load_error_def load_ready_def load_succeeded_def

lemma accept_fetched_keys:
  "rc.keys_agree (fst st) \<Longrightarrow> rc.keys_agree (fst (snd (accept_fetched u d st)))"
  by (simp add: accept_fetched_def Let_def rc.keys_agree_insert)

lemma try_backends_keys:
  "rc.keys_agree (fst st) \<Longrightarrow> rc.keys_agree (fst (snd (try_backends bs b0 f u st)))"
proof (induction bs arbitrary: b0 f st)
  case Nil
  then show ?case by simp
next
  case (Cons b bs)
  then show ?case
    by (auto simp: Let_def accept_fetched_keys split: option.split prod.split)
qed

lemma load_keys: "rc.keys_agree (fst st) \<Longrightarrow> rc.keys_agree (fst (snd (load l u st)))"
  by (auto simp: load_def Let_def accept_fetched_keys try_backends_keys
      split: option.split prod.split)

text \<open>The resource an accepted load returns is the one the cache now holds for the URL.\<close>

definition returns_cached :: "url \<Rightarrow> load_result \<times> resource_cache \<times> 'w \<Rightarrow> bool" where
  "returns_cached u out \<longleftrightarrow>
    (lstate (fst out) = LReady \<longrightarrow>
      (\<exists>d. lresource (fst out) = Some d \<and> cache_get (fst (snd out)) (serialized u) = Some d))"

lemma accept_fetched_cached: "returns_cached u (accept_fetched u d st)"
  by (auto simp: returns_cached_def accept_fetched_def Let_def load_defs rc.lookup_insert)

lemma try_backends_cached: "returns_cached u (try_backends bs b0 f u st)"
proof (induction bs arbitrary: b0 f st)
  case Nil
  then show ?case by (simp add: returns_cached_def load_defs)
next
  case (Cons b bs)
  then show ?case by (auto simp: Let_def accept_fetched_cached split: option.split prod.split)
qed

lemma load_cached: "returns_cached u (load l u st)"
  by (auto simp: load_def Let_def accept_fetched_cached try_backends_cached
      split: option.split prod.split)
    (auto simp: returns_cached_def load_defs)

lemma load_succeeded_iff: "load_succeeded (fst (load l u st)) \<longleftrightarrow> lstate (fst (load l u st)) = LReady"
  using load_cached [of u l st] by (auto simp: returns_cached_def load_succeeded_def)

section \<open>Properties\<close>

text \<open>C5: A typed load that succeeds returns a resource of the expected type whose own URL is
  the requested one, and leaves exactly that resource in the cache under that URL.\<close>

theorem load_typed_correct:
  assumes keys: "rc.keys_agree (fst st)" and out: "load_typed l t u st = (r, c', w')"
    and ok: "load_succeeded r"
  shows "\<exists>d. lresource r = Some d \<and> rtype d = t \<and> rurl d = serialized u \<and>
    cache_get c' (serialized u) = Some d \<and> rc.keys_agree c'"
proof -
  obtain r0 c0 w0 where l: "load l u st = (r0, c0, w0)" by (metis prod_cases3)
  have r: "r = r0" "c' = c0" "rtype (the (lresource r)) = t"
    using out ok l by (auto simp: load_typed_def load_defs split: if_splits)
  have "rc.keys_agree c0" using load_keys [OF keys, of l u] l by simp
  moreover from ok r obtain d where "lresource r = Some d" "cache_get c0 (serialized u) = Some d"
    using load_cached [of u l st] l by (auto simp: returns_cached_def load_succeeded_def)
  ultimately show ?thesis using r by (auto simp: rc.keys_agree_def)
qed

theorem load_typed_correct_witness:
  "\<exists>d. load_typed \<lparr>fetcher = Some (\<lambda>u (w::unit). (Some \<lparr>rtype = Stylesheet, rurl = [], rbytes = []\<rparr>, w)),
        backends = []\<rparr> Stylesheet
        \<lparr>serialized = ''http://h/s'', scheme = ''http'', authority = ''h'', path = ''/s'', fragment = []\<rparr>
        (Map.empty, ()) = d
      \<and> rtype (the (lresource (fst d))) = Stylesheet \<and> rurl (the (lresource (fst d))) = ''http://h/s''"
proof -
  let ?l = "\<lparr>fetcher = Some (\<lambda>u (w::unit). (Some \<lparr>rtype = Stylesheet, rurl = [], rbytes = []\<rparr>, w)),
        backends = []\<rparr> :: unit loader"
  let ?u = "\<lparr>serialized = ''http://h/s'', scheme = ''http'', authority = ''h'', path = ''/s'', fragment = []\<rparr>"
  let ?d = "\<lparr>rtype = Stylesheet, rurl = ''http://h/s'', rbytes = []\<rparr>"
  have out: "load_typed ?l Stylesheet ?u (Map.empty, ()) =
      (load_ready (Some ?d), cache_put ?d Map.empty, ())"
    by (simp add: load_typed_def load_def is_valid_def accept_fetched_def load_defs Let_def
        cache_get_def cache_put_def)
  have "rc.keys_agree (fst (Map.empty :: resource_cache, ()))"
    by (simp add: rc.keys_agree_def cache_get_def)
  from load_typed_correct [OF this out] out show ?thesis by (auto simp: load_defs)
qed

text \<open>A refused request changes neither the cache nor the world behind the backends.\<close>

lemma secure_load_blocked:
  "allows_resource doc u ctx = Inl reason \<Longrightarrow> secure_load l doc ctx u st = (load_error LFailed reason, st)"
  by (simp add: secure_load_def)

text \<open>What loading a URL does to the cache: the old entries stay, and only the URL itself can be new.\<close>

definition extends_by :: "string \<Rightarrow> resource_cache \<Rightarrow> resource_cache \<Rightarrow> bool" where
  "extends_by k c c' \<longleftrightarrow> (\<forall>x. cache_get c' x = cache_get c x \<or>
     x = k \<and> cache_get c x = None \<and> (\<exists>d. cache_get c' x = Some d \<and> rurl d = k))"

lemma extends_by_refl: "extends_by k c c" by (simp add: extends_by_def)

lemma accept_fetched_extends:
  "cache_get (fst st) (serialized u) = None \<Longrightarrow> extends_by (serialized u) (fst st) (fst (snd (accept_fetched u d st)))"
  by (auto simp: accept_fetched_def extends_by_def Let_def rc.lookup_insert)

lemma try_backends_extends:
  "cache_get (fst st) (serialized u) = None \<Longrightarrow> extends_by (serialized u) (fst st) (fst (snd (try_backends bs b0 f u st)))"
proof (induction bs arbitrary: b0 f st)
  case (Cons b bs)
  have "extends_by (serialized u) (fst st) (fst (snd (try_backends bs b1 g u (fst st, w))))" for b1 g w
    using Cons.IH [of "(fst st, w)"] Cons.prems by simp
  moreover have "extends_by (serialized u) (fst st) (fst (snd (accept_fetched u d (fst st, w))))" for d w
    using accept_fetched_extends [of "(fst st, w)" u d] Cons.prems by simp
  ultimately show ?case using Cons by (auto simp: Let_def split: option.split prod.split)
qed (simp add: extends_by_refl)

lemma load_extends: "extends_by (serialized u) (fst st) (fst (snd (load l u st)))"
proof (cases "cache_get (fst st) (serialized u)")
  case None
  have "extends_by (serialized u) (fst st) (fst (snd (try_backends (backends l) False [] u (fst st, w))))" for w
    using try_backends_extends [of "(fst st, w)"] None by simp
  moreover have "extends_by (serialized u) (fst st) (fst (snd (accept_fetched u d (fst st, w))))" for d w
    using accept_fetched_extends [of "(fst st, w)" u d] None by simp
  ultimately show ?thesis
    using None try_backends_extends [OF None] by (auto simp: load_def extends_by_refl Let_def split: option.split prod.split)
qed (simp add: load_def extends_by_refl)

text \<open>A session of requests, each with the document that makes it and its context, and the requests of
  it that the policy table lets pass.\<close>

type_synonym secure_request = "url \<times> request_context \<times> url"

definition secure_run :: "'w loader \<Rightarrow> secure_request list \<Rightarrow> resource_cache \<times> 'w \<Rightarrow> resource_cache \<times> 'w" where
  "secure_run l rs = fold (\<lambda>(doc, ctx, u) st. snd (secure_load l doc ctx u st)) rs"

definition permitted :: "secure_request \<Rightarrow> bool" where
  "permitted r \<longleftrightarrow>
     (case r of (doc, ctx, u) \<Rightarrow> serialized u \<noteq> [] \<and>
       (lower (scheme u) = ''file''
        \<or> lower (scheme u) = ''https'' \<and> lower (scheme doc) \<noteq> ''file''
        \<or> lower (scheme u) = ''http'' \<and> lower (scheme doc) \<noteq> ''file''
            \<and> \<not> (lower (scheme doc) = ''https'' \<and> ctx \<noteq> CtxImage)))"

lemma permitted_allows: "permitted (doc, ctx, u) \<longleftrightarrow> (\<exists>v. allows_resource doc u ctx = Inr v)"
  by (auto simp: permitted_def allows_resource_def is_valid_def is_supported_scheme_def is_secure_scheme_def
      allows_mixed_content_def is_absolute_def)

lemma secure_load_step:
  "snd (secure_load l doc ctx u st) = (if permitted (doc, ctx, u) then snd (load l u st) else st)"
  by (cases "allows_resource doc u ctx") (auto simp: secure_load_def permitted_allows)

text \<open>C6: The security policy confines a whole session.  Whatever requests are made for whatever
  documents, the cache and the world behind the backends end as if only the permitted requests had
  been made (those of the table: \<open>file\<close> documents load only \<open>file\<close>, \<open>https\<close> documents load \<open>http\<close> only
  for images); everything in the cache before is still there unchanged, and everything new is stored
  under the URL of a permitted request and names that URL as its own.\<close>

theorem secure_run_confined:
  "secure_run l rs st = fold (\<lambda>(doc, ctx, u) st. snd (load l u st)) (filter permitted rs) st \<and>
   (\<forall>k. cache_get (fst (secure_run l rs st)) k = cache_get (fst st) k \<or>
      cache_get (fst st) k = None \<and>
      (\<exists>doc ctx u d. (doc, ctx, u) \<in> set rs \<and> permitted (doc, ctx, u) \<and> k = serialized u \<and>
         cache_get (fst (secure_run l rs st)) k = Some d \<and> rurl d = k))"
proof (induction rs arbitrary: st)
  case Nil
  then show ?case by (simp add: secure_run_def)
next
  case (Cons r rs)
  obtain doc ctx u where r: "r = (doc, ctx, u)" by (cases r)
  let ?st = "snd (secure_load l doc ctx u st)"
  have run: "secure_run l (r # rs) st = secure_run l rs ?st" by (simp add: secure_run_def r)
  note IH = Cons.IH [of ?st]
  have step: "cache_get (fst ?st) k = cache_get (fst st) k \<or>
      cache_get (fst st) k = None \<and> permitted r \<and> k = serialized u \<and> (\<exists>d. cache_get (fst ?st) k = Some d \<and> rurl d = k)" for k
    using load_extends [of u st l] unfolding secure_load_step r extends_by_def by auto
  have "cache_get (fst (secure_run l rs ?st)) k = cache_get (fst st) k \<or>
      cache_get (fst st) k = None \<and>
      (\<exists>doc ctx u d. (doc, ctx, u) \<in> set (r # rs) \<and> permitted (doc, ctx, u) \<and> k = serialized u \<and>
         cache_get (fst (secure_run l rs ?st)) k = Some d \<and> rurl d = k)" for k
    using step [of k] IH [THEN conjunct2, rule_format, of k] r by (elim disjE conjE exE) (simp_all, blast+)
  moreover have "secure_run l rs ?st = fold (\<lambda>(doc, ctx, u) st. snd (load l u st)) (filter permitted (r # rs)) st"
    using IH r by (simp add: secure_load_step)
  ultimately show ?case unfolding run by blast
qed

text \<open>A load of a URL that is already cached answers from the cache and consults neither
  the fetcher nor any backend; a load that does not succeed leaves the cache as it was.\<close>

theorem load_cache_behaviour:
  "(is_valid u \<and> cache_get (fst st) (serialized u) = Some d \<longrightarrow> load l u st = (load_ready (Some d), st))
   \<and> (\<not> load_succeeded (fst (load l u st)) \<longrightarrow> fst (snd (load l u st)) = fst st)"
proof -
  have accept: "\<not> load_succeeded (fst (accept_fetched u d st)) \<Longrightarrow>
      fst (snd (accept_fetched u d st)) = fst st" for d and st :: "resource_cache \<times> 'b"
    by (auto simp: accept_fetched_def Let_def load_defs rc.lookup_insert split: if_splits)
  have loop: "\<not> load_succeeded (fst (try_backends bs s f u st)) \<Longrightarrow>
      fst (snd (try_backends bs s f u st)) = fst st" for bs s f and st :: "resource_cache \<times> 'b"
    by (induction bs arbitrary: s f st)
      (auto simp: Let_def dest: accept split: option.splits prod.splits if_splits)
  show ?thesis
    by (auto simp: load_def Let_def dest!: accept loop split: option.splits prod.splits if_splits)
qed


theorem load_cache_behaviour_witness:
  "load \<lparr>fetcher = Some (\<lambda>u (w::unit). (None, w)), backends = []\<rparr>
      \<lparr>serialized = ''http://h/s'', scheme = ''http'', authority = ''h'', path = ''/s'', fragment = []\<rparr>
      ([''http://h/s'' \<mapsto> \<lparr>rtype = Font, rurl = ''http://h/s'', rbytes = []\<rparr>], ()) =
    (load_ready (Some \<lparr>rtype = Font, rurl = ''http://h/s'', rbytes = []\<rparr>),
      [''http://h/s'' \<mapsto> \<lparr>rtype = Font, rurl = ''http://h/s'', rbytes = []\<rparr>], ())"
  by (rule load_cache_behaviour [THEN conjunct1, THEN mp]) (simp add: is_valid_def cache_get_def)

end
