(* ===== verification/Navigation.thy ===== *)
theory Navigation
  imports Interaction Loader
begin

text \<open>
  \<open>navigation.hpp\<close>/\<open>navigation.cpp\<close> and \<open>page_lifecycle.hpp\<close>: from a URL to a page.  The resource
  loader is a value of \<open>Loader\<close> with its cache and the world behind its backends; an
  exception, a URL that does not resolve or undefined behaviour ends the program, so the state after it does not matter.
  Shown: a navigation either installs a page made of the resources the loader ended up with, or
  leaves everything but the lifecycle alone.
\<close>

datatype nav_error = NoError | InvalidUrl | MissingDocument | MissingStylesheet | InvalidResourceType | DocumentCreationFailed

record nav_request =
  rq_document :: url
  rq_stylesheet :: "url option"
  rq_width :: fp

record nav_result =
  nr_error :: nav_error
  nr_message :: string

definition nav_succeeded :: "nav_result \<Rightarrow> bool" where
  "nav_succeeded r \<longleftrightarrow> nr_error r = NoError"

definition nav_ok :: nav_result where "nav_ok = \<lparr> nr_error = NoError, nr_message = [] \<rparr>"
definition nav_failure :: "nav_error \<Rightarrow> string \<Rightarrow> nav_result" where "nav_failure e msg = \<lparr> nr_error = e, nr_message = msg \<rparr>"

datatype page_load_state = PageIdle | PageLoading | PageComplete | PageFailed

record page_lifecycle =
  lc_state :: page_load_state
  lc_url :: url
  lc_message :: string

record navigation =
  nav_document :: "render_document option"
  nav_url :: url
  nav_lifecycle :: page_lifecycle
  nav_last_request :: "nav_request option"

definition new_navigation :: navigation where
  "new_navigation = \<lparr> nav_document = None, nav_url = empty_url,
     nav_lifecycle = \<lparr> lc_state = PageIdle, lc_url = empty_url, lc_message = [] \<rparr>, nav_last_request = None \<rparr>"


section \<open>From the cache alone\<close>

text \<open>The style sheet of the request, resolved against the document.\<close>

definition requested_sheet :: "nav_request \<Rightarrow> url \<Rightarrow> url run" where
  "requested_sheet rq s = (if is_absolute s then Returns s else of_comp (resolve (rq_document rq) (serialized s)))"

definition navigate_cached :: "decoders \<Rightarrow> nav_request \<Rightarrow> resource_cache \<Rightarrow> navigation \<Rightarrow> (nav_result \<times> navigation) run" where
  "navigate_cached dec rq resources nav =
     (let fail = (\<lambda>e msg. Returns (nav_failure e msg, nav)) in
      if \<not> is_valid (rq_document rq) then fail InvalidUrl ''Navigation requires a document URL''
      else if fle (rq_width rq) (Num 0) then fail DocumentCreationFailed ''Navigation requires a positive viewport width''
      else
        case cache_get resources (serialized (rq_document rq)) of
          None \<Rightarrow> fail MissingDocument ''Document resource was not found''
        | Some d \<Rightarrow>
            if rtype d \<noteq> Document then fail InvalidResourceType ''Navigation target is not a document resource''
            else
              case rq_stylesheet rq of
                None \<Rightarrow> fail MissingStylesheet ''Navigation currently requires an explicit stylesheet resource''
              | Some s \<Rightarrow>
                  bind_run (requested_sheet rq s) (\<lambda>resolved.
                    case cache_get resources (serialized resolved) of
                      None \<Rightarrow> fail MissingStylesheet ''Stylesheet resource was not found''
                    | Some st \<Rightarrow>
                        if rtype st \<noteq> Stylesheet then fail InvalidResourceType ''Stylesheet target is not a stylesheet resource''
                        else
                          bind_run (create_from_sheet dec (serialized (rq_document rq)) (serialized resolved) (rq_width rq) resources)
                            (\<lambda>p. case p of
                                None \<Rightarrow> fail DocumentCreationFailed ''Unable to create render document from navigation resources''
                              | Some page \<Rightarrow>
                                  Returns (nav_ok, nav\<lparr> nav_document := Some page, nav_url := rq_document rq \<rparr>))))"


section \<open>With the loader\<close>

fun nodes_of :: "dom_node \<Rightarrow> dom_node list" where
  "nodes_of (DomNode ty name d attrs cs) = DomNode ty name d attrs cs # concat (map nodes_of cs)"

text \<open>The \<open>href\<close>s of the style sheet links and the \<open>src\<close>s of the images, in document order.\<close>

definition sheet_references :: "dom_node \<Rightarrow> string list" where
  "sheet_references doc =
     concat (map (\<lambda>n.
       if node_type n = ElementNode \<and> node_name n = ''link'' \<and> attribute n ''rel'' = Some ''stylesheet''
       then (case attribute n ''href'' of None \<Rightarrow> [] | Some h \<Rightarrow> [h]) else []) (nodes_of doc))"

definition image_references :: "dom_node \<Rightarrow> string list" where
  "image_references doc =
     concat (map (\<lambda>n.
       if node_type n = ElementNode \<and> node_name n = ''img''
       then (case attribute n ''src'' of None \<Rightarrow> [] | Some s \<Rightarrow> [s]) else []) (nodes_of doc))"

fun resolve_references :: "url \<Rightarrow> string list \<Rightarrow> url list run" where
  "resolve_references base [] = Returns []"
| "resolve_references base (r # rs) =
     bind_run (of_comp (resolve base r)) (\<lambda>u. bind_run (resolve_references base rs) (\<lambda>us. Returns (u # us)))"

text \<open>The loop over the style sheets: the message of the first that fails, or the URLs loaded.\<close>

type_synonym 'w load_world = "resource_cache \<times> 'w"

fun load_sheets :: "'w loader \<Rightarrow> url list \<Rightarrow> string list \<Rightarrow> 'w load_world \<Rightarrow> (string + string list) \<times> 'w load_world" where
  "load_sheets l [] loaded st = (Inr loaded, st)"
| "load_sheets l (u # us) loaded st =
     (if \<not> is_valid u \<or> serialized u \<in> set loaded then load_sheets l us loaded st
      else
        case load_typed l Stylesheet u st of (r, st') \<Rightarrow>
          if \<not> load_succeeded r then (Inl (lmessage r), st')
          else load_sheets l us (loaded @ [serialized u]) st')"

text \<open>The images: the message of the first that fails.\<close>

fun load_images :: "'w loader \<Rightarrow> url \<Rightarrow> string list \<Rightarrow> 'w load_world \<Rightarrow> (string option \<times> 'w load_world) run" where
  "load_images l base [] st = Returns (None, st)"
| "load_images l base (src # srcs) st =
     bind_run (of_comp (resolve base src)) (\<lambda>u.
       case load_typed l ImageRes u st of (r, st') \<Rightarrow>
         if \<not> load_succeeded r then Returns (Some (lmessage r), st') else load_images l base srcs st')"

definition document_text :: "nav_request \<Rightarrow> 'w load_world \<Rightarrow> string" where
  "document_text rq st = cache_get_text (fst st) (serialized (rq_document rq))"

definition wanted_sheets :: "nav_request \<Rightarrow> 'w load_world \<Rightarrow> url list run" where
  "wanted_sheets rq st =
     (case rq_stylesheet rq of
        Some s \<Rightarrow> bind_run (requested_sheet rq s) (\<lambda>u. Returns [u])
      | None \<Rightarrow> resolve_references (rq_document rq) (sheet_references (parse_html (document_text rq st))))"

type_synonym 'w nav_outcome = "nav_result \<times> navigation \<times> 'w load_world"

definition nav_fail :: "navigation \<Rightarrow> url \<Rightarrow> nav_error \<Rightarrow> string \<Rightarrow> 'w load_world \<Rightarrow> 'w nav_outcome run" where
  "nav_fail nav u e msg st =
     Returns (nav_failure e msg, nav\<lparr> nav_lifecycle := \<lparr> lc_state = PageFailed, lc_url = u, lc_message = msg \<rparr> \<rparr>, st)"

text \<open>The end of the navigation: the page, once everything is loaded.\<close>

definition install_page :: "decoders \<Rightarrow> nav_request \<Rightarrow> string list \<Rightarrow> navigation \<Rightarrow> 'w load_world \<Rightarrow> 'w nav_outcome run" where
  "install_page dec rq sheets nav st =
     bind_run (create_from_resources dec (serialized (rq_document rq)) sheets (rq_width rq) (fst st)) (\<lambda>p.
       case p of
         None \<Rightarrow> nav_fail nav (rq_document rq) DocumentCreationFailed ''Unable to create render document from navigation resources'' st
       | Some page \<Rightarrow>
           Returns (nav_ok,
             nav\<lparr> nav_document := Some page, nav_url := rq_document rq, nav_last_request := Some rq,
               nav_lifecycle := \<lparr> lc_state = PageComplete, lc_url = rq_document rq, lc_message = [] \<rparr> \<rparr>, st))"

definition navigate :: "decoders \<Rightarrow> 'w loader \<Rightarrow> nav_request \<Rightarrow> navigation \<Rightarrow> 'w load_world \<Rightarrow> 'w nav_outcome run" where
  "navigate dec l rq nav st =
     (let u = rq_document rq; fail = nav_fail nav u in
      if \<not> is_valid u then fail InvalidUrl ''Navigation requires a document URL'' st
      else if fle (rq_width rq) (Num 0) then fail DocumentCreationFailed ''Navigation requires a positive viewport width'' st
      else
        case load_typed l Document u st of (r, st) \<Rightarrow>
          if \<not> load_succeeded r then fail MissingDocument (lmessage r) st
          else
            bind_run (wanted_sheets rq st) (\<lambda>styles.
              case load_sheets l styles [] st of
                (Inl msg, st) \<Rightarrow> fail MissingStylesheet msg st
              | (Inr sheets, st) \<Rightarrow>
                  if sheets = [] then fail MissingStylesheet ''No stylesheet resources were discovered'' st
                  else
                    bind_run (load_images l u (image_references (parse_html (document_text rq st))) st) (\<lambda>(failed, st).
                      case failed of
                        Some msg \<Rightarrow> fail DocumentCreationFailed msg st
                      | None \<Rightarrow> install_page dec rq sheets nav st)))"

definition reload :: "decoders \<Rightarrow> 'w loader \<Rightarrow> navigation \<Rightarrow> 'w load_world \<Rightarrow> 'w nav_outcome run" where
  "reload dec l nav st =
     (case nav_last_request nav of
        None \<Rightarrow> Returns (nav_failure InvalidUrl ''No successful navigation is available to reload'', nav, st)
      | Some rq \<Rightarrow> navigate dec l rq nav st)"



section \<open>What a navigation comes to\<close>

definition page_of_request :: "nav_request \<Rightarrow> resource_cache \<Rightarrow> render_document \<Rightarrow> bool" where
  "page_of_request rq resources page \<longleftrightarrow>
     page_ok page \<and> rd_source_url page = serialized (rq_document rq) \<and> rd_resources page = resources \<and> rd_width page = rq_width rq \<and>
     (\<exists>d. resources (serialized (rq_document rq)) = Some d \<and> rtype d = Document \<and>
        rd_document page = parse_html (cache_get_text resources (rurl d)))"

definition navigation_outcome :: "nav_request \<Rightarrow> navigation \<Rightarrow> 'w nav_outcome \<Rightarrow> bool" where
  "navigation_outcome rq nav = (\<lambda>(r, nav', st').
     if nav_succeeded r then
       \<exists>page. page_of_request rq (fst st') page \<and>
         nav' = \<lparr> nav_document = Some page, nav_url = rq_document rq,
                 nav_lifecycle = \<lparr> lc_state = PageComplete, lc_url = rq_document rq, lc_message = [] \<rparr>, nav_last_request = Some rq \<rparr>
     else nav' = nav\<lparr> nav_lifecycle := \<lparr> lc_state = PageFailed, lc_url = rq_document rq, lc_message = nr_message r \<rparr> \<rparr>)"

lemma nav_fail_outcome: "e \<noteq> NoError \<Longrightarrow> returns_only (navigation_outcome rq nav) (nav_fail nav (rq_document rq) e msg st)"
  by (simp add: nav_fail_def navigation_outcome_def nav_succeeded_def nav_failure_def)

lemma install_page_outcome: "returns_only (navigation_outcome rq nav) (install_page dec rq sheets nav st)"
  unfolding install_page_def
  by (rule returns_only_bind [OF create_from_resources_ok])
    (auto simp: nav_fail_def nav_failure_def navigation_outcome_def nav_succeeded_def nav_ok_def page_of_request_def split: option.splits)

lemma navigate_outcome: "returns_only (navigation_outcome rq nav) (navigate dec l rq nav st)"
  unfolding navigate_def Let_def
  by (auto simp: nav_fail_outcome install_page_outcome split: prod.split sum.split option.split
      intro!: returns_only_bind [where P = "\<lambda>_. True"] simp: returns_only_iff [of "\<lambda>_. True"])

text \<open>The cache the loader ends up with still keeps every resource under its own URL.\<close>

definition good_world :: "'w load_world \<Rightarrow> bool" where
  "good_world st \<longleftrightarrow> rc.keys_agree (fst st)"

lemma load_typed_good: "good_world st \<Longrightarrow> good_world (snd (load_typed l t u st))"
  using load_keys [of st l u] by (auto simp: good_world_def load_typed_def split: prod.splits)

lemma load_sheets_good: "good_world st \<Longrightarrow> good_world (snd (load_sheets l us loaded st))"
  by (induction us arbitrary: loaded st) (auto dest: load_typed_good split: prod.splits, (metis load_typed_good snd_conv)+)

lemma load_images_good: "good_world st \<Longrightarrow> returns_only (\<lambda>(f, st'). good_world st') (load_images l base srcs st)"
proof (induction srcs arbitrary: st)
  case (Cons src srcs)
  have "returns_only (\<lambda>(f, st'). good_world st')
      (case load_typed l ImageRes u st of (r, st') \<Rightarrow> if \<not> load_succeeded r then Returns (Some (lmessage r), st') else load_images l base srcs st')" for u
    using load_typed_good [OF Cons.prems, of l ImageRes u] Cons.IH by (auto split: prod.split)
  then show ?case by (cases "of_comp (resolve base src)") simp_all
qed simp

lemma nav_fail_good: "good_world st \<Longrightarrow> returns_only (\<lambda>(r, nav', st'). good_world st') (nav_fail nav u e msg st)"
  by (simp add: nav_fail_def)

lemma install_page_good: "good_world st \<Longrightarrow> returns_only (\<lambda>(r, nav', st'). good_world st') (install_page dec rq sheets nav st)"
  unfolding install_page_def
  by (rule returns_only_bind [where P = "\<lambda>_. True"]) (auto simp: returns_only_iff [of "\<lambda>_. True"] nav_fail_good split: option.split)

lemma navigate_good:
  assumes "good_world st"
  shows "returns_only (\<lambda>(r, nav', st'). good_world st') (navigate dec l rq nav st)"
proof -
  let ?Q = "\<lambda>(r, nav', st'). good_world st'"
  have images: "returns_only ?Q (bind_run (load_images l u srcs st) (\<lambda>(failed, st).
      case failed of Some msg \<Rightarrow> nav_fail nav u' DocumentCreationFailed msg st | None \<Rightarrow> install_page dec rq sheets nav st))"
    if "good_world st" for u u' srcs st sheets
    by (rule returns_only_bind [OF load_images_good [OF that]]) (auto simp: nav_fail_good install_page_good split: option.split)
  have sheets: "returns_only ?Q (case load_sheets l styles [] st of
        (Inl msg, st) \<Rightarrow> nav_fail nav (rq_document rq) MissingStylesheet msg st
      | (Inr sheets, st) \<Rightarrow>
          if sheets = [] then nav_fail nav (rq_document rq) MissingStylesheet ''No stylesheet resources were discovered'' st
          else bind_run (load_images l (rq_document rq) (image_references (parse_html (document_text rq st))) st) (\<lambda>(failed, st).
              case failed of Some msg \<Rightarrow> nav_fail nav (rq_document rq) DocumentCreationFailed msg st
              | None \<Rightarrow> install_page dec rq sheets nav st))"
    if "good_world st" for styles st
    using load_sheets_good [OF that, of l styles "[]"] images
    by (cases "load_sheets l styles [] st"; cases "fst (load_sheets l styles [] st)") (auto simp: nav_fail_good)
  show ?thesis
    using load_typed_good [OF assms, of l Document "rq_document rq"] assms sheets
    by (cases "wanted_sheets rq (snd (load_typed l Document (rq_document rq) st))")
      (auto simp: navigate_def Let_def nav_fail_good split: prod.split)
qed

text \<open>C30: a navigation is all or nothing.  When it succeeds, the page shown is made from the document
  resource the loader's cache holds under exactly the requested URL, with the cache at the end of the
  loads, and URL, lifecycle and the request to reload agree with it.  When it fails, the page, its URL and
  the request to reload are untouched, and the lifecycle carries the message of the result.\<close>

theorem navigate_all_or_nothing:
  "returns_only (\<lambda>(r, nav', st').
      case nr_error r of
        NoError \<Rightarrow>
          nav_url nav' = rq_document rq \<and> nav_last_request nav' = Some rq \<and>
          nav_lifecycle nav' = \<lparr> lc_state = PageComplete, lc_url = rq_document rq, lc_message = [] \<rparr> \<and>
          (\<exists>page d. nav_document nav' = Some page \<and> rd_source_url page = serialized (rq_document rq) \<and>
             rd_resources page = fst st' \<and> rd_width page = rq_width rq \<and>
             fst st' (serialized (rq_document rq)) = Some d \<and> rtype d = Document \<and>
             rd_document page = parse_html (cache_get_text (fst st') (rurl d)) \<and>
             rd_commands page = render_commands (rd_document page) (rd_pictures page) (rd_layout page))
      | _ \<Rightarrow> nav' = nav\<lparr> nav_lifecycle := \<lparr> lc_state = PageFailed, lc_url = rq_document rq, lc_message = nr_message r \<rparr> \<rparr>)
    (navigate dec l rq nav st)"
  by (rule returns_only_weaken [OF navigate_outcome])
    (auto simp: navigation_outcome_def nav_succeeded_def page_of_request_def page_ok_def split: if_splits nav_error.split)

end
