(* ===== verification/Forms.thy ===== *)
theory Forms
  imports Html_Tree Url
begin

text \<open>
  \<open>form_runtime.hpp\<close> and \<open>form_runtime.cpp\<close>: the controls of a document, their state, and
  what a submission sends.  Node pointers are paths.  Shown: the submitted body decodes to
  exactly the successful controls of the form; focus and read-only state are invariants of
  every run of the user operations; a radio button is exclusive in its group; and two
  departures from HTML: a control after the first form always has an owner, and a
  \<open>textarea\<close> of a parsed document always starts empty.
\<close>

datatype form_control_kind = TextControl | PasswordControl | CheckboxControl | RadioControl
  | SubmitControl | ButtonControl | TextAreaControl | SelectControl

record form_control =
  ctl_node :: node_path
  ctl_kind :: form_control_kind
  ctl_name :: string
  ctl_value :: string
  ctl_checked :: bool
  ctl_disabled :: bool
  ctl_read_only :: bool
  ctl_focused :: bool
  ctl_options :: "string list"

datatype submission_method = GetMethod | PostMethod

record form_submission =
  sub_method :: submission_method
  sub_action :: url
  sub_body :: string

record form_runtime =
  fr_controls :: "form_control list"
  fr_forms :: "node_path list"
  fr_control_forms :: "nat option list"
  fr_focused :: "nat option"

section \<open>Discovering the controls\<close>

definition attribute_or :: "dom_node \<Rightarrow> string \<Rightarrow> string \<Rightarrow> string" where
  "attribute_or n k fallback = (case attribute n k of Some v \<Rightarrow> v | None \<Rightarrow> fallback)"

definition kind_for :: "dom_node \<Rightarrow> form_control_kind option" where
  "kind_for n =
     (if node_type n \<noteq> ElementNode then None
      else let name = lower (node_name n) in
        if name = ''textarea'' then Some TextAreaControl
        else if name = ''select'' then Some SelectControl
        else if name = ''button'' then
          Some (if lower (attribute_or n ''type'' ''submit'') = ''submit'' then SubmitControl else ButtonControl)
        else if name \<noteq> ''input'' then None
        else let ty = lower (attribute_or n ''type'' ''text'') in
          Some (if ty = ''password'' then PasswordControl
                else if ty = ''checkbox'' then CheckboxControl
                else if ty = ''radio'' then RadioControl
                else if ty = ''submit'' then SubmitControl
                else if ty = ''button'' then ButtonControl
                else TextControl))"

text \<open>The options of a \<open>select\<close>: \<open>(options, value)\<close> after the loop over its children.\<close>

fun scan_options :: "dom_node list \<Rightarrow> string list \<times> string \<Rightarrow> string list \<times> string" where
  "scan_options [] ov = ov"
| "scan_options (child # cs) (options, v) =
     (if node_type child = ElementNode \<and> lower (node_name child) = ''option'' then
        let w = attribute_or child ''value'' (node_data child)
        in scan_options cs (options @ [w], if has_attribute child ''selected'' then w else v)
      else scan_options cs (options, v))"

definition control_for :: "dom_node \<Rightarrow> node_path \<Rightarrow> form_control_kind \<Rightarrow> form_control" where
  "control_for n p kind =
     (let v0 = attribute_or n ''value'' [];
          v1 = (if kind = TextAreaControl then node_data n else v0);
          ov = (if kind = SelectControl then
                  (case scan_options (node_children n) ([], v1) of (options, v) \<Rightarrow>
                     (options, if v = [] \<and> options \<noteq> [] then hd options else v))
                else ([], v1))
      in \<lparr> ctl_node = p, ctl_kind = kind, ctl_name = attribute_or n ''name'' [], ctl_value = snd ov,
           ctl_checked = has_attribute n ''checked'', ctl_disabled = has_attribute n ''disabled'',
           ctl_read_only = has_attribute n ''readonly'', ctl_focused = False, ctl_options = fst ov \<rparr>)"

definition is_form :: "dom_node \<Rightarrow> bool" where
  "is_form n \<longleftrightarrow> node_type n = ElementNode \<and> lower (node_name n) = ''form''"

definition push_form :: "dom_node \<Rightarrow> node_path \<Rightarrow> form_runtime \<Rightarrow> form_runtime" where
  "push_form n p fr = (if is_form n then fr\<lparr> fr_forms := fr_forms fr @ [p] \<rparr> else fr)"

definition push_control :: "dom_node \<Rightarrow> node_path \<Rightarrow> form_runtime \<Rightarrow> form_runtime" where
  "push_control n p fr =
     (case kind_for n of None \<Rightarrow> fr
      | Some kind \<Rightarrow>
          fr\<lparr> fr_controls := fr_controls fr @ [control_for n p kind],
              fr_control_forms := fr_control_forms fr @
                [if fr_forms fr = [] then None else Some (length (fr_forms fr) - 1)] \<rparr>)"

text \<open>\<open>resize(form_count_before + 1)\<close> after the children of a form.\<close>

definition pop_forms :: "dom_node \<Rightarrow> nat \<Rightarrow> form_runtime \<Rightarrow> form_runtime" where
  "pop_forms n form_count_before fr =
     (if is_form n \<and> form_count_before < length (fr_forms fr)
      then fr\<lparr> fr_forms := take (form_count_before + 1) (fr_forms fr) \<rparr> else fr)"

fun discover :: "dom_node \<Rightarrow> node_path \<Rightarrow> form_runtime \<Rightarrow> form_runtime"
and discover_children :: "dom_node list \<Rightarrow> node_path \<Rightarrow> nat \<Rightarrow> form_runtime \<Rightarrow> form_runtime" where
  "discover (DomNode ty nm d as cs) p fr =
     (let n = DomNode ty nm d as cs;
          form_count_before = length (fr_forms fr);
          fr1 = push_control n p (push_form n p fr)
      in pop_forms n form_count_before (discover_children cs p 0 fr1))"
| "discover_children [] p i fr = fr"
| "discover_children (c # cs) p i fr = discover_children cs p (Suc i) (discover c (p @ [i]) fr)"

definition new_form_runtime :: "dom_node \<Rightarrow> form_runtime" where
  "new_form_runtime doc =
     discover doc [] \<lparr> fr_controls = [], fr_forms = [], fr_control_forms = [], fr_focused = None \<rparr>"

section \<open>User operations\<close>

definition control_at :: "form_runtime \<Rightarrow> nat \<Rightarrow> form_control option" where
  "control_at fr i = (if i < length (fr_controls fr) then Some (fr_controls fr ! i) else None)"

definition update_control :: "nat \<Rightarrow> (form_control \<Rightarrow> form_control) \<Rightarrow> form_runtime \<Rightarrow> form_runtime" where
  "update_control i f fr = fr\<lparr> fr_controls := (fr_controls fr)[i := f (fr_controls fr ! i)] \<rparr>"

definition focus :: "nat \<Rightarrow> form_runtime \<Rightarrow> bool \<times> form_runtime" where
  "focus i fr =
     (if length (fr_controls fr) \<le> i \<or> ctl_disabled (fr_controls fr ! i) then (False, fr)
      else
        let fr1 = (case fr_focused fr of None \<Rightarrow> fr
                   | Some j \<Rightarrow> update_control j (\<lambda>c. c\<lparr> ctl_focused := False \<rparr>) fr);
            fr2 = fr1\<lparr> fr_focused := Some i \<rparr>
        in (True, update_control i (\<lambda>c. c\<lparr> ctl_focused := True \<rparr>) fr2))"

definition takes_text :: "form_control \<Rightarrow> bool" where
  "takes_text c \<longleftrightarrow> ctl_kind c = TextControl \<or> ctl_kind c = PasswordControl \<or> ctl_kind c = TextAreaControl"

definition insert_text :: "string \<Rightarrow> form_runtime \<Rightarrow> bool \<times> form_runtime" where
  "insert_text s fr =
     (case fr_focused fr of None \<Rightarrow> (False, fr)
      | Some i \<Rightarrow>
          let c = fr_controls fr ! i in
          if ctl_disabled c \<or> ctl_read_only c \<or> \<not> takes_text c then (False, fr)
          else (True, update_control i (\<lambda>c. c\<lparr> ctl_value := ctl_value c @ s \<rparr>) fr))"

definition backspace :: "form_runtime \<Rightarrow> bool \<times> form_runtime" where
  "backspace fr =
     (case fr_focused fr of None \<Rightarrow> (False, fr)
      | Some i \<Rightarrow>
          let c = fr_controls fr ! i in
          if ctl_disabled c \<or> ctl_read_only c \<or> ctl_value c = [] then (False, fr)
          else if \<not> takes_text c then (False, fr)
          else (True, update_control i (\<lambda>c. c\<lparr> ctl_value := butlast (ctl_value c) \<rparr>) fr))"

definition set_value :: "nat \<Rightarrow> string \<Rightarrow> form_runtime \<Rightarrow> bool \<times> form_runtime" where
  "set_value i v fr =
     (if length (fr_controls fr) \<le> i then (False, fr)
      else let c = fr_controls fr ! i in
        if ctl_disabled c \<or> ctl_read_only c then (False, fr)
        else if ctl_kind c = SelectControl \<and> v \<notin> set (ctl_options c) then (False, fr)
        else (True, update_control i (\<lambda>c. c\<lparr> ctl_value := v \<rparr>) fr))"

definition form_owner :: "form_runtime \<Rightarrow> nat \<Rightarrow> nat option" where
  "form_owner fr i =
     (if length (fr_control_forms fr) \<le> i then None else fr_control_forms fr ! i)"

text \<open>One round of the loop over the radio group of control \<open>index\<close>.\<close>

definition radio_round :: "nat \<Rightarrow> nat \<Rightarrow> form_runtime \<Rightarrow> form_runtime" where
  "radio_round index i fr =
     (if i = index \<or> ctl_kind (fr_controls fr ! i) \<noteq> RadioControl
         \<or> ctl_name (fr_controls fr ! i) \<noteq> ctl_name (fr_controls fr ! index) then fr
      else if form_owner fr i = form_owner fr index
      then update_control i (\<lambda>c. c\<lparr> ctl_checked := False \<rparr>) fr else fr)"

definition activate :: "nat \<Rightarrow> form_runtime \<Rightarrow> bool \<times> form_runtime" where
  "activate i fr =
     (if length (fr_controls fr) \<le> i \<or> ctl_disabled (fr_controls fr ! i) then (False, fr)
      else let c = fr_controls fr ! i in
        if ctl_kind c = CheckboxControl then
          (True, update_control i (\<lambda>c. c\<lparr> ctl_checked := \<not> ctl_checked c \<rparr>) fr)
        else if ctl_kind c = RadioControl then
          let fr1 = fold (radio_round i) [0..<length (fr_controls fr)] fr
          in (True, update_control i (\<lambda>c. c\<lparr> ctl_checked := True \<rparr>) fr1)
        else (ctl_kind c = SubmitControl \<or> ctl_kind c = ButtonControl, fr))"

section \<open>Submission\<close>

definition is_successful :: "form_control \<Rightarrow> bool" where
  "is_successful c \<longleftrightarrow>
     (if ctl_disabled c \<or> ctl_name c = [] then False
      else if (ctl_kind c = CheckboxControl \<or> ctl_kind c = RadioControl) \<and> \<not> ctl_checked c then False
      else ctl_kind c \<noteq> ButtonControl \<and> ctl_kind c \<noteq> SubmitControl)"

definition collect_fields :: "form_runtime \<Rightarrow> nat \<Rightarrow> (string \<times> string) list" where
  "collect_fields fr index =
     concat (map (\<lambda>i. if form_owner fr i \<noteq> form_owner fr index \<or> \<not> is_successful (fr_controls fr ! i)
                      then [] else [(ctl_name (fr_controls fr ! i), ctl_value (fr_controls fr ! i))])
       [0..<length (fr_controls fr)])"

definition hex_digit :: "nat \<Rightarrow> char" where
  "hex_digit k = ''0123456789ABCDEF'' ! k"

definition unreserved :: "char \<Rightarrow> bool" where
  "unreserved c \<longleftrightarrow> isalnum c \<or> c = CHR ''-'' \<or> c = CHR ''_'' \<or> c = CHR ''.'' \<or> c = CHR ''~''"

definition encode_char :: "char \<Rightarrow> string" where
  "encode_char c =
     (if unreserved c then [c]
      else if c = CHR '' '' then ''+''
      else [CHR ''%'', hex_digit (ascii c div 16), hex_digit (ascii c mod 16)])"

definition url_encode :: "string \<Rightarrow> string" where
  "url_encode s = concat (map encode_char s)"

fun encode_fields :: "(string \<times> string) list \<Rightarrow> string" where
  "encode_fields [] = []"
| "encode_fields [(n, v)] = url_encode n @ CHR ''='' # url_encode v"
| "encode_fields ((n, v) # f # fs) = url_encode n @ CHR ''='' # url_encode v @ CHR ''&'' # encode_fields (f # fs)"

text \<open>\<open>submit\<close>; the action may throw or never return through \<open>Url::resolve\<close>.\<close>

definition submit :: "dom_node \<Rightarrow> form_runtime \<Rightarrow> nat \<Rightarrow> url \<Rightarrow> form_submission option comp" where
  "submit doc fr index document_url =
     (if length (fr_controls fr) \<le> index then return_comp None
      else let c = fr_controls fr ! index in
        if ctl_disabled c \<or> (ctl_kind c \<noteq> SubmitControl \<and> ctl_kind c \<noteq> ButtonControl) then return_comp None
        else
          let body = encode_fields (collect_fields fr index);
              form = (case form_owner fr index of None \<Rightarrow> None
                      | Some k \<Rightarrow> if k < length (fr_forms fr) then node_at doc (fr_forms fr ! k) else None)
          in case form of
               None \<Rightarrow> return_comp (Some \<lparr> sub_method = GetMethod, sub_action = document_url, sub_body = body \<rparr>)
             | Some f \<Rightarrow>
                 let m = (case attribute f ''method'' of
                            Some raw \<Rightarrow> if lower raw = ''post'' then PostMethod else GetMethod
                          | None \<Rightarrow> GetMethod)
                 in bind_comp
                      (case attribute f ''action'' of
                         Some raw \<Rightarrow> if raw \<noteq> [] then resolve document_url raw else return_comp document_url
                       | None \<Rightarrow> return_comp document_url)
                      (\<lambda>action. return_comp (Some \<lparr> sub_method = m, sub_action = action, sub_body = body \<rparr>)))"

section \<open>The submitted body\<close>

text \<open>The abstract side: what a server reads from an \<open>application/x-www-form-urlencoded\<close> body.\<close>

definition hex_value :: "char \<Rightarrow> nat" where
  "hex_value c = (if isdigit c then ascii c - 48 else ascii c - 55)"

fun url_decode :: "string \<Rightarrow> string" where
  "url_decode [] = []"
| "url_decode (c # cs) =
     (if c = CHR ''+'' then CHR '' '' # url_decode cs
      else if c = CHR ''%'' then
        (case cs of h # l # ds \<Rightarrow> char_of (16 * hex_value h + hex_value l) # url_decode ds
         | _ \<Rightarrow> c # url_decode cs)
      else c # url_decode cs)"

fun split_on :: "char \<Rightarrow> string \<Rightarrow> string list" where
  "split_on d [] = [[]]"
| "split_on d (c # cs) =
     (if c = d then [] # split_on d cs
      else case split_on d cs of [] \<Rightarrow> [[c]] | w # ws \<Rightarrow> (c # w) # ws)"

definition decode_field :: "string \<Rightarrow> string \<times> string" where
  "decode_field s =
     (url_decode (takeWhile (\<lambda>c. c \<noteq> CHR ''='') s), url_decode (drop 1 (dropWhile (\<lambda>c. c \<noteq> CHR ''='') s)))"

definition decode_fields :: "string \<Rightarrow> (string \<times> string) list" where
  "decode_fields body = (if body = [] then [] else map decode_field (split_on (CHR ''&'') body))"

lemma hex_round_trip: "k < 16 \<Longrightarrow> hex_value (hex_digit k) = k"
proof -
  have "list_all (\<lambda>k. hex_value (hex_digit k) = k) [0..<16]" by code_simp
  then show "k < 16 \<Longrightarrow> hex_value (hex_digit k) = k" by (simp add: list_all_iff)
qed

lemma hex_digit_plain: "k < 16 \<Longrightarrow> hex_digit k \<noteq> CHR ''&'' \<and> hex_digit k \<noteq> CHR ''=''"
proof -
  have "list_all (\<lambda>k. hex_digit k \<noteq> CHR ''&'' \<and> hex_digit k \<noteq> CHR ''='') [0..<16]" by code_simp
  then show "k < 16 \<Longrightarrow> hex_digit k \<noteq> CHR ''&'' \<and> hex_digit k \<noteq> CHR ''=''" by (simp add: list_all_iff)
qed

lemma ascii_halves: "ascii c div 16 < 16" "ascii c mod 16 < 16"
  by (rule less_mult_imp_div_less) (use ascii_less [of c] in simp_all)

lemma decode_encode_char: "url_decode (encode_char c @ t) = c # url_decode t"
proof (cases "unreserved c")
  case True
  then have "c \<noteq> CHR ''+''" "c \<noteq> CHR ''%''" by (auto simp: unreserved_def isalnum_def isdigit_def isalpha_def)
  then show ?thesis using True by (simp add: encode_char_def)
next
  case False
  have "16 * (ascii c div 16) + ascii c mod 16 = ascii c" by simp
  then show ?thesis using False
    by (simp add: encode_char_def hex_round_trip ascii_halves)
qed

lemma url_decode_encode: "url_decode (url_encode s) = s"
  by (induction s) (simp_all add: url_encode_def decode_encode_char)

lemma encode_char_plain: "c \<in> set (encode_char x) \<Longrightarrow> c \<noteq> CHR ''&'' \<and> c \<noteq> CHR ''=''"
proof (cases "unreserved x \<or> x = CHR '' ''")
  case True
  then show "c \<in> set (encode_char x) \<Longrightarrow> ?thesis"
    by (auto simp: encode_char_def unreserved_def isalnum_def isdigit_def isalpha_def)
next
  case False
  then have "set (encode_char x) = {CHR ''%'', hex_digit (ascii x div 16), hex_digit (ascii x mod 16)}"
    by (simp add: encode_char_def)
  then show "c \<in> set (encode_char x) \<Longrightarrow> ?thesis"
    using hex_digit_plain [OF ascii_halves(1) [of x]] hex_digit_plain [OF ascii_halves(2) [of x]] by auto
qed

lemma url_encode_plain: "c \<in> set (url_encode s) \<Longrightarrow> c \<noteq> CHR ''&'' \<and> c \<noteq> CHR ''=''"
  unfolding url_encode_def set_concat set_map using encode_char_plain by blast

lemma split_on_none: "d \<notin> set a \<Longrightarrow> split_on d a = [a]"
  by (induction a) auto

lemma split_on_first: "d \<notin> set a \<Longrightarrow> split_on d (a @ d # b) = a # split_on d b"
  by (induction a) auto

lemma decode_encode_field: "decode_field (url_encode n @ CHR ''='' # url_encode v) = (n, v)"
proof -
  have n: "\<forall>c \<in> set (url_encode n). c \<noteq> CHR ''=''" using url_encode_plain by blast
  then have "takeWhile (\<lambda>c. c \<noteq> CHR ''='') (url_encode n @ CHR ''='' # url_encode v) = url_encode n"
    "dropWhile (\<lambda>c. c \<noteq> CHR ''='') (url_encode n @ CHR ''='' # url_encode v) = CHR ''='' # url_encode v"
    by (simp_all add: takeWhile_append2 dropWhile_append2)
  then show ?thesis by (simp add: decode_field_def url_decode_encode)
qed

lemma encode_field_plain: "CHR ''&'' \<notin> set (url_encode n @ CHR ''='' # url_encode v)"
  using url_encode_plain by auto

lemma decode_encode_fields: "decode_fields (encode_fields fs) = fs"
proof -
  have ne: "fs \<noteq> [] \<Longrightarrow> encode_fields fs \<noteq> []" for fs by (cases fs rule: encode_fields.cases) auto
  have "fs \<noteq> [] \<Longrightarrow> map decode_field (split_on (CHR ''&'') (encode_fields fs)) = fs" for fs
  proof (induction fs rule: encode_fields.induct)
    case 1
    then show ?case by simp
  next
    case (2 n v)
    show ?case using split_on_none [OF encode_field_plain] by (simp add: decode_encode_field)
  next
    case (3 n v f fs)
    have "split_on (CHR ''&'') ((url_encode n @ CHR ''='' # url_encode v) @ CHR ''&'' # encode_fields (f # fs)) =
        (url_encode n @ CHR ''='' # url_encode v) # split_on (CHR ''&'') (encode_fields (f # fs))"
      by (rule split_on_first [OF encode_field_plain])
    then show ?case using 3 by (simp add: decode_encode_field)
  qed
  then show ?thesis using ne by (cases "fs = []") (simp_all add: decode_fields_def)
qed

lemma submit_body:
  "submit doc fr i u = Some (Inr (Some sub)) \<Longrightarrow> sub_body sub = encode_fields (collect_fields fr i)"
  by (auto simp: submit_def Let_def return_comp_def bind_comp_def split: if_splits option.splits sum.splits)

text \<open>C12: A submitted form arrives as it was filled in: whenever \<open>submit\<close> produces a
  submission, decoding its body gives back, in order, exactly the names and values of the
  successful controls with the same owner as the submit control, whatever characters they
  contain, and none of the names is empty.\<close>

theorem submit_decodes:
  assumes "submit doc fr i u = Some (Inr (Some sub))"
  shows "decode_fields (sub_body sub) = collect_fields fr i \<and>
    list_all (\<lambda>(n, v). n \<noteq> []) (decode_fields (sub_body sub))"
proof -
  have "list_all (\<lambda>(n, v). n \<noteq> []) (collect_fields fr i)"
    by (auto simp: collect_fields_def list_all_iff is_successful_def split: if_splits)
  then show ?thesis using submit_body [OF assms] decode_encode_fields by simp
qed

lemma submit_decodes_witness:
  "decode_fields ''q=a%26b&r=1+2'' = [(''q'', ''a&b''), (''r'', ''1 2'')]"
proof -
  let ?c = "\<lambda>k n v. \<lparr> ctl_node = [], ctl_kind = k, ctl_name = n, ctl_value = v, ctl_checked = False,
    ctl_disabled = False, ctl_read_only = False, ctl_focused = False, ctl_options = [] \<rparr>"
  let ?fr = "\<lparr> fr_controls = [?c TextControl ''q'' ''a&b'', ?c TextControl ''r'' ''1 2'', ?c SubmitControl [] []],
    fr_forms = [], fr_control_forms = [None, None, None], fr_focused = None \<rparr>"
  let ?sub = "\<lparr> sub_method = GetMethod, sub_action = empty_url, sub_body = ''q=a%26b&r=1+2'' \<rparr>"
  have fields: "collect_fields ?fr 2 = [(''q'', ''a&b''), (''r'', ''1 2'')]"
    by (simp add: collect_fields_def form_owner_def is_successful_def upt_rec numeral_2_eq_2 numeral_3_eq_3)
  have enc: "encode_fields [(''q'', ''a&b''), (''r'', ''1 2'')] = ''q=a%26b&r=1+2''"
    by code_simp
  have "submit new_document ?fr 2 empty_url = Some (Inr (Some ?sub))"
    unfolding submit_def Let_def fields enc by (simp add: form_owner_def return_comp_def)
  from submit_decodes [OF this] fields show ?thesis by simp
qed

section \<open>Radio groups\<close>

definition same_group :: "form_runtime \<Rightarrow> nat \<Rightarrow> nat \<Rightarrow> bool" where
  "same_group fr i j \<longleftrightarrow> ctl_kind (fr_controls fr ! j) = RadioControl \<and>
     ctl_name (fr_controls fr ! j) = ctl_name (fr_controls fr ! i) \<and> form_owner fr j = form_owner fr i"

lemma radio_round_frame:
  "fr_control_forms (radio_round i j fr) = fr_control_forms fr"
  "fr_forms (radio_round i j fr) = fr_forms fr" "fr_focused (radio_round i j fr) = fr_focused fr"
  "length (fr_controls (radio_round i j fr)) = length (fr_controls fr)"
  by (simp_all add: radio_round_def update_control_def)

lemma radio_round_controls:
  assumes "k < length (fr_controls fr)"
  shows "fr_controls (radio_round i j fr) ! k =
    (if k = j \<and> j \<noteq> i \<and> same_group fr i j then (fr_controls fr ! k)\<lparr> ctl_checked := False \<rparr> else fr_controls fr ! k)"
  using assms by (auto simp: radio_round_def update_control_def same_group_def)

lemma radio_round_same_group:
  assumes "i < length (fr_controls fr)" and "k < length (fr_controls fr)"
  shows "same_group (radio_round i j fr) i k = same_group fr i k"
proof -
  have "ctl_kind (fr_controls (radio_round i j fr) ! k) = ctl_kind (fr_controls fr ! k)"
    "ctl_name (fr_controls (radio_round i j fr) ! k) = ctl_name (fr_controls fr ! k)"
    "ctl_name (fr_controls (radio_round i j fr) ! i) = ctl_name (fr_controls fr ! i)"
    by (simp_all add: radio_round_controls [OF assms(1), of i j] radio_round_controls [OF assms(2), of i j])
  then show ?thesis by (simp add: same_group_def form_owner_def radio_round_frame)
qed

lemma radio_rounds:
  assumes "i < length (fr_controls fr)" and "m \<le> length (fr_controls fr)"
  shows "length (fr_controls (fold (radio_round i) [0..<m] fr)) = length (fr_controls fr) \<and>
    fr_control_forms (fold (radio_round i) [0..<m] fr) = fr_control_forms fr \<and>
    (\<forall>k < length (fr_controls fr).
      same_group (fold (radio_round i) [0..<m] fr) i k = same_group fr i k \<and>
      fr_controls (fold (radio_round i) [0..<m] fr) ! k =
      (if k < m \<and> k \<noteq> i \<and> same_group fr i k then (fr_controls fr ! k)\<lparr> ctl_checked := False \<rparr> else fr_controls fr ! k))"
  using assms(2)
proof (induction m)
  case 0
  then show ?case by simp
next
  case (Suc m)
  let ?f = "fold (radio_round i) [0..<m] fr"
  have IH: "length (fr_controls ?f) = length (fr_controls fr)" "fr_control_forms ?f = fr_control_forms fr"
    "\<And>k. k < length (fr_controls fr) \<Longrightarrow> same_group ?f i k = same_group fr i k"
    "\<And>k. k < length (fr_controls fr) \<Longrightarrow> fr_controls ?f ! k =
      (if k < m \<and> k \<noteq> i \<and> same_group fr i k then (fr_controls fr ! k)\<lparr> ctl_checked := False \<rparr> else fr_controls fr ! k)"
    using Suc by simp_all
  have f: "fold (radio_round i) [0..<Suc m] fr = radio_round i m ?f" by simp
  have "same_group (radio_round i m ?f) i k = same_group fr i k" if "k < length (fr_controls fr)" for k
    using radio_round_same_group [of i ?f k m] IH(1,3) assms(1) that by simp
  moreover have "fr_controls (radio_round i m ?f) ! k =
      (if k < Suc m \<and> k \<noteq> i \<and> same_group fr i k then (fr_controls fr ! k)\<lparr> ctl_checked := False \<rparr> else fr_controls fr ! k)"
    if "k < length (fr_controls fr)" for k
  proof -
    have "fr_controls (radio_round i m ?f) ! k = (if k = m \<and> m \<noteq> i \<and> same_group ?f i m
        then (fr_controls ?f ! k)\<lparr> ctl_checked := False \<rparr> else fr_controls ?f ! k)"
      by (rule radio_round_controls) (simp add: IH(1) that)
    moreover have "same_group ?f i m = same_group fr i m" using IH(3) Suc.prems by simp
    ultimately show ?thesis using IH(4) [OF that] by (cases "k = m"; cases "m = i") simp_all
  qed
  ultimately show ?case unfolding f using IH(1,2) by (simp add: radio_round_frame)
qed

text \<open>A radio button is exclusive in its group.  Activating an enabled radio button checks
  it, unchecks every other radio button of the same name and owner, and changes nothing
  else: no other control, and no other field of any control.\<close>

theorem radio_exclusive:
  assumes "i < length (fr_controls fr)" and "\<not> ctl_disabled (fr_controls fr ! i)"
    and "ctl_kind (fr_controls fr ! i) = RadioControl"
  shows "fst (activate i fr) \<and> fr_controls (snd (activate i fr)) =
    map (\<lambda>j. (fr_controls fr ! j)\<lparr> ctl_checked :=
          (if j = i then True else if same_group fr i j then False else ctl_checked (fr_controls fr ! j)) \<rparr>)
      [0..<length (fr_controls fr)]"
proof -
  let ?n = "length (fr_controls fr)"
  let ?f = "fold (radio_round i) [0..<?n] fr"
  note r = radio_rounds [OF assms(1) order_refl]
  have "activate i fr = (True, update_control i (\<lambda>c. c\<lparr> ctl_checked := True \<rparr>) ?f)"
    using assms by (simp add: activate_def Let_def)
  moreover have "fr_controls (update_control i (\<lambda>c. c\<lparr> ctl_checked := True \<rparr>) ?f) =
    map (\<lambda>j. (fr_controls fr ! j)\<lparr> ctl_checked :=
          (if j = i then True else if same_group fr i j then False else ctl_checked (fr_controls fr ! j)) \<rparr>) [0..<?n]"
    by (rule nth_equalityI) (use r assms(1) in \<open>auto simp: update_control_def nth_list_update\<close>)
  ultimately show ?thesis by simp
qed

lemma radio_exclusive_witness:
  "map ctl_checked (fr_controls (snd (activate 1
    (new_form_runtime (DomNode DocumentNode [] [] []
      [DomNode ElementNode ''input'' [] [(''type'', ''radio''), (''name'', ''a''), (''checked'', [])] [],
       DomNode ElementNode ''input'' [] [(''type'', ''radio''), (''name'', ''a'')] [],
       DomNode ElementNode ''input'' [] [(''type'', ''radio''), (''name'', ''b''), (''checked'', [])] []]))))) =
    [False, True, True]"
proof -
  let ?c = "\<lambda>p n b. \<lparr> ctl_node = p, ctl_kind = RadioControl, ctl_name = n, ctl_value = [], ctl_checked = b,
    ctl_disabled = False, ctl_read_only = False, ctl_focused = False, ctl_options = [] \<rparr>"
  let ?doc = "DomNode DocumentNode [] [] []
      [DomNode ElementNode ''input'' [] [(''type'', ''radio''), (''name'', ''a''), (''checked'', [])] [],
       DomNode ElementNode ''input'' [] [(''type'', ''radio''), (''name'', ''a'')] [],
       DomNode ElementNode ''input'' [] [(''type'', ''radio''), (''name'', ''b''), (''checked'', [])] []]"
  have fr: "new_form_runtime ?doc =
    \<lparr> fr_controls = [?c [0] ''a'' True, ?c [1] ''a'' False, ?c [2] ''b'' True], fr_forms = [],
      fr_control_forms = [None, None, None], fr_focused = None \<rparr>"
    by (simp add: new_form_runtime_def push_form_def is_form_def push_control_def kind_for_def
        attribute_or_def attribute_def has_attribute_def control_for_def pop_forms_def tolower_def
        eval_nat_numeral Let_def)
  show ?thesis unfolding fr
    using radio_exclusive [of 1 "\<lparr> fr_controls = [?c [0] ''a'' True, ?c [1] ''a'' False, ?c [2] ''b'' True],
      fr_forms = [], fr_control_forms = [None, None, None], fr_focused = None \<rparr>"]
    by (simp add: upt_rec same_group_def form_owner_def)
qed

section \<open>Runs of user operations\<close>

datatype form_op = FocusOp nat | InsertOp string | BackspaceOp | SetValueOp nat string | ActivateOp nat

fun form_step :: "form_op \<Rightarrow> form_runtime \<Rightarrow> form_runtime" where
  "form_step (FocusOp i) fr = snd (focus i fr)"
| "form_step (InsertOp s) fr = snd (insert_text s fr)"
| "form_step BackspaceOp fr = snd (backspace fr)"
| "form_step (SetValueOp i v) fr = snd (set_value i v fr)"
| "form_step (ActivateOp i) fr = snd (activate i fr)"

definition form_run :: "form_op list \<Rightarrow> form_runtime \<Rightarrow> form_runtime" where
  "form_run ops fr = fold form_step ops fr"

text \<open>At most the focused control has its flag set, and it is not disabled.\<close>

definition focus_ok :: "form_runtime \<Rightarrow> bool" where
  "focus_ok fr \<longleftrightarrow>
     map ctl_focused (fr_controls fr) = map (\<lambda>i. fr_focused fr = Some i) [0..<length (fr_controls fr)] \<and>
     (case fr_focused fr of None \<Rightarrow> True
      | Some i \<Rightarrow> i < length (fr_controls fr) \<and> \<not> ctl_disabled (fr_controls fr ! i))"

text \<open>What no user operation may change: the identity of every control, and the value of a
  disabled or read-only one.\<close>

definition frozen ::
  "form_control \<Rightarrow> (node_path \<times> form_control_kind \<times> string \<times> bool \<times> bool \<times> string list) \<times> string option" where
  "frozen c =
     ((ctl_node c, ctl_kind c, ctl_name c, ctl_disabled c, ctl_read_only c, ctl_options c),
      if ctl_disabled c \<or> ctl_read_only c then Some (ctl_value c) else None)"

lemma map_update_same: "i < length xs \<Longrightarrow> g (f (xs ! i)) = g (xs ! i) \<Longrightarrow> map g (xs[i := f (xs ! i)]) = map g xs"
  by (metis list_update_id map_update)

lemma update_control_frozen:
  "i < length (fr_controls fr) \<Longrightarrow> frozen (f (fr_controls fr ! i)) = frozen (fr_controls fr ! i) \<Longrightarrow>
    map frozen (fr_controls (update_control i f fr)) = map frozen (fr_controls fr)"
  by (simp add: update_control_def map_update_same)

lemma update_control_focus_ok:
  assumes "focus_ok fr" and "i < length (fr_controls fr)"
    and "ctl_focused (f (fr_controls fr ! i)) = ctl_focused (fr_controls fr ! i)"
    and "ctl_disabled (f (fr_controls fr ! i)) = ctl_disabled (fr_controls fr ! i)"
  shows "focus_ok (update_control i f fr)"
proof -
  have "map ctl_disabled ((fr_controls fr)[i := f (fr_controls fr ! i)]) = map ctl_disabled (fr_controls fr)"
    by (rule map_update_same [where g = ctl_disabled and f = f, OF assms(2,4)])
  then have "ctl_disabled ((fr_controls fr)[i := f (fr_controls fr ! i)] ! j) = ctl_disabled (fr_controls fr ! j)"
    if "j < length (fr_controls fr)" for j
    using that by (metis length_list_update nth_map)
  then show ?thesis using assms(1) map_update_same [where g = ctl_focused and f = f, OF assms(2,3)]
    by (simp add: focus_ok_def update_control_def split: option.splits)
qed

lemma focus_ok_bound: "focus_ok fr \<Longrightarrow> fr_focused fr = Some i \<Longrightarrow> i < length (fr_controls fr)"
  by (simp add: focus_ok_def)

lemma focus_ok_nth:
  assumes "focus_ok fr" and "k < length (fr_controls fr)"
  shows "ctl_focused (fr_controls fr ! k) = (fr_focused fr = Some k)"
proof -
  have "map ctl_focused (fr_controls fr) ! k = map (\<lambda>i. fr_focused fr = Some i) [0..<length (fr_controls fr)] ! k"
    using assms(1) by (simp add: focus_ok_def)
  then show ?thesis using assms(2) by simp
qed

definition step_ok :: "form_runtime \<Rightarrow> form_runtime \<Rightarrow> bool" where
  "step_ok fr fr' \<longleftrightarrow> focus_ok fr' \<and> map frozen (fr_controls fr') = map frozen (fr_controls fr)"

lemma step_ok_refl: "focus_ok fr \<Longrightarrow> step_ok fr fr"
  by (simp add: step_ok_def)

lemma step_ok_update:
  "focus_ok fr \<Longrightarrow> i < length (fr_controls fr) \<Longrightarrow>
    ctl_focused (f (fr_controls fr ! i)) = ctl_focused (fr_controls fr ! i) \<Longrightarrow>
    frozen (f (fr_controls fr ! i)) = frozen (fr_controls fr ! i) \<Longrightarrow>
    step_ok fr (update_control i f fr)"
  unfolding step_ok_def
  by (intro conjI update_control_frozen update_control_focus_ok) (auto simp: frozen_def)

lemma step_ok_focus:
  assumes "focus_ok fr"
  shows "step_ok fr (snd (focus i fr))"
proof (cases "length (fr_controls fr) \<le> i \<or> ctl_disabled (fr_controls fr ! i)")
  case True
  then show ?thesis using assms by (simp add: focus_def step_ok_refl)
next
  case False
  let ?n = "length (fr_controls fr)"
  let ?cs = "case fr_focused fr of None \<Rightarrow> fr_controls fr
    | Some j \<Rightarrow> (fr_controls fr)[j := (fr_controls fr ! j)\<lparr> ctl_focused := False \<rparr>]"
  have r: "fr_controls (snd (focus i fr)) = ?cs[i := (?cs ! i)\<lparr> ctl_focused := True \<rparr>]"
    "fr_focused (snd (focus i fr)) = Some i"
    using False by (simp_all add: focus_def Let_def update_control_def split: option.split)
  have len: "length ?cs = ?n" by (simp split: option.split)
  have fz: "map frozen ?cs = map frozen (fr_controls fr)"
    using focus_ok_bound [OF assms]
    by (auto simp: frozen_def map_update_same split: option.split)
  have off: "ctl_focused (?cs ! k) = False" if "k < ?n" for k
  proof -
    have "ctl_focused (fr_controls fr ! k) = (fr_focused fr = Some k)"
      by (rule focus_ok_nth [OF assms that])
    then show ?thesis using that by (auto simp: nth_list_update split: option.split)
  qed
  have i: "i < ?n" using False by simp
  have fz': "map frozen (?cs[i := (?cs ! i)\<lparr> ctl_focused := True \<rparr>]) = map frozen (fr_controls fr)"
    using fz i len by (simp add: map_update_same frozen_def)
  have "ctl_disabled (?cs ! i) = ctl_disabled (fr_controls fr ! i)"
  proof -
    have "map frozen ?cs ! i = map frozen (fr_controls fr) ! i" by (simp only: fz)
    then have "frozen (?cs ! i) = frozen (fr_controls fr ! i)" using i len by (simp only: nth_map)
    then show ?thesis by (simp only: frozen_def prod.inject)
  qed
  moreover have "map ctl_focused (?cs[i := (?cs ! i)\<lparr> ctl_focused := True \<rparr>]) = map (\<lambda>k. Some i = Some k) [0..<?n]"
    by (rule nth_equalityI) (use len off i in \<open>auto simp: nth_list_update\<close>)
  ultimately show ?thesis using r fz' False i len
    by (simp add: step_ok_def focus_ok_def)
qed

lemma radio_round_step_ok:
  "focus_ok fr \<Longrightarrow> j < length (fr_controls fr) \<Longrightarrow> step_ok fr (radio_round i j fr)"
  using step_ok_update [where f = "\<lambda>c. c\<lparr> ctl_checked := False \<rparr>"]
  by (auto simp: radio_round_def step_ok_refl frozen_def)

lemma radio_fold_step_ok:
  "focus_ok fr \<Longrightarrow> \<forall>j \<in> set js. j < length (fr_controls fr) \<Longrightarrow> step_ok fr (fold (radio_round i) js fr)"
proof (induction js arbitrary: fr)
  case Nil
  then show ?case by (simp add: step_ok_refl)
next
  case (Cons j js)
  have s: "step_ok fr (radio_round i j fr)" by (rule radio_round_step_ok) (use Cons.prems in auto)
  then have "step_ok (radio_round i j fr) (fold (radio_round i) js (radio_round i j fr))"
    using Cons by (simp add: step_ok_def radio_round_frame)
  then show ?case using s by (simp add: step_ok_def)
qed

lemma step_ok_activate:
  assumes "focus_ok fr"
  shows "step_ok fr (snd (activate i fr))"
proof (cases "length (fr_controls fr) \<le> i \<or> ctl_disabled (fr_controls fr ! i)")
  case True
  then show ?thesis using assms by (simp add: activate_def step_ok_refl)
next
  case False
  let ?f = "fold (radio_round i) [0..<length (fr_controls fr)] fr"
  have f: "step_ok fr ?f" by (rule radio_fold_step_ok [OF assms]) simp
  then have "length (fr_controls ?f) = length (fr_controls fr)"
    unfolding step_ok_def by (metis length_map)
  then have "step_ok ?f (update_control i (\<lambda>c. c\<lparr> ctl_checked := True \<rparr>) ?f)"
    using f False by (intro step_ok_update) (auto simp: step_ok_def frozen_def)
  then have "step_ok fr (update_control i (\<lambda>c. c\<lparr> ctl_checked := True \<rparr>) ?f)"
    using f by (simp add: step_ok_def)
  moreover have "step_ok fr (update_control i (\<lambda>c. c\<lparr> ctl_checked := \<not> ctl_checked c \<rparr>) fr)"
    using assms False by (intro step_ok_update) (auto simp: frozen_def)
  ultimately show ?thesis using False assms by (simp add: activate_def Let_def step_ok_refl)
qed

lemma step_ok_step: "focus_ok fr \<Longrightarrow> step_ok fr (form_step op fr)"
proof (cases op)
  case (FocusOp i)
  then show "focus_ok fr \<Longrightarrow> ?thesis" by (simp add: step_ok_focus)
next
  case (ActivateOp i)
  then show "focus_ok fr \<Longrightarrow> ?thesis" by (simp add: step_ok_activate)
next
  case (InsertOp s)
  then show "focus_ok fr \<Longrightarrow> ?thesis"
    by (auto simp: insert_text_def Let_def step_ok_refl focus_ok_bound frozen_def
        intro!: step_ok_update split: option.split)
next
  case BackspaceOp
  then show "focus_ok fr \<Longrightarrow> ?thesis"
    by (auto simp: backspace_def Let_def step_ok_refl focus_ok_bound frozen_def
        intro!: step_ok_update split: option.split)
next
  case (SetValueOp i v)
  then show "focus_ok fr \<Longrightarrow> ?thesis"
    by (auto simp: set_value_def Let_def step_ok_refl frozen_def intro!: step_ok_update)
qed

lemma form_run_ok: "focus_ok fr \<Longrightarrow> step_ok fr (form_run ops fr)"
proof (induction ops arbitrary: fr)
  case Nil
  then show ?case by (simp add: form_run_def step_ok_refl)
next
  case (Cons op ops)
  have s: "step_ok fr (form_step op fr)" by (rule step_ok_step [OF Cons.prems])
  then have "step_ok (form_step op fr) (form_run ops (form_step op fr))"
    by (intro Cons.IH) (simp add: step_ok_def)
  then show ?case using s by (simp add: form_run_def step_ok_def)
qed

text \<open>Facts about \<open>discover\<close> that hold of every prefix of the traversal.\<close>

lemma discover_invariant:
  assumes push: "\<And>n p fr. I fr \<Longrightarrow> I (push_control n p (push_form n p fr))"
    and pop: "\<And>n k fr. I fr \<Longrightarrow> k \<le> length (fr_forms fr) \<Longrightarrow> I (pop_forms n k fr)"
    and mono: "\<And>fr. I fr \<Longrightarrow> True"
  shows "I fr \<Longrightarrow> I (discover n p fr) \<and> length (fr_forms fr) \<le> length (fr_forms (discover n p fr))"
    and "I fr \<Longrightarrow> I (discover_children cs p i fr) \<and> length (fr_forms fr) \<le> length (fr_forms (discover_children cs p i fr))"
proof (induction n p fr and cs p i fr rule: discover_discover_children.induct)
  case (1 ty nm d as cs p fr)
  let ?n = "DomNode ty nm d as cs"
  let ?fr1 = "push_control ?n p (push_form ?n p fr)"
  have le: "length (fr_forms fr) \<le> length (fr_forms ?fr1)"
    by (simp add: push_control_def push_form_def split: option.split)
  have c: "I (discover_children cs p 0 ?fr1) \<and> length (fr_forms ?fr1) \<le> length (fr_forms (discover_children cs p 0 ?fr1))"
    by (rule 1(1) [OF refl refl refl push [OF 1(2)]])
  then have "I (pop_forms ?n (length (fr_forms fr)) (discover_children cs p 0 ?fr1))"
    using le by (intro pop) auto
  moreover have "length (fr_forms fr) \<le> length (fr_forms (pop_forms ?n (length (fr_forms fr)) (discover_children cs p 0 ?fr1)))"
    using c le by (simp add: pop_forms_def)
  ultimately show ?case by (simp add: Let_def)
next
  case (2 p i fr)
  then show ?case by simp
next
  case (3 c cs p i fr)
  then show ?case by (simp add: order_trans)
qed

lemma discover_focus: "focus_ok (new_form_runtime doc)"
proof -
  let ?I = "\<lambda>fr. fr_focused fr = None \<and> list_all (\<lambda>c. \<not> ctl_focused c) (fr_controls fr)"
  have "?I (new_form_runtime doc)"
    unfolding new_form_runtime_def
    by (rule discover_invariant(1) [where I = ?I, THEN conjunct1])
       (auto simp: push_control_def push_form_def pop_forms_def control_for_def Let_def split: option.split)
  then show ?thesis
    by (auto simp: focus_ok_def list_all_iff intro!: nth_equalityI)
qed

text \<open>C13: Whatever a user does to the form controls of a document, in any order: exactly the
  control the runtime reports as focused (at most one, never a disabled one) carries the
  focus flag; no control changes its identity, its options or its disabled and read-only
  state; and the value of a disabled or read-only control is the one it was created with.\<close>

theorem form_runs_safe:
  "focus_ok (form_run ops (new_form_runtime doc)) \<and>
   map frozen (fr_controls (form_run ops (new_form_runtime doc))) = map frozen (fr_controls (new_form_runtime doc))"
  using form_run_ok [OF discover_focus] by (simp add: step_ok_def)

section \<open>Owners and text areas\<close>

definition owners_sticky :: "form_runtime \<Rightarrow> bool" where
  "owners_sticky fr \<longleftrightarrow> list_all (\<lambda>w. w \<noteq> None) (dropWhile (\<lambda>w. w = None) (fr_control_forms fr)) \<and>
     (fr_forms fr = [] \<longrightarrow> list_all (\<lambda>w. w = None) (fr_control_forms fr))"

text \<open>Once a form has been seen, no control is ever without an owner: in document order
  the owners are first all absent and then all present, so a control after \<open></form>\<close>,
  outside every form, is given the form before it and is submitted with it.\<close>

theorem controls_after_form_owned:
  "list_all (\<lambda>owner. owner \<noteq> None) (dropWhile (\<lambda>owner. owner = None) (fr_control_forms (new_form_runtime doc)))"
proof -
  have app: "list_all (\<lambda>w. w = None) os \<Longrightarrow> dropWhile (\<lambda>w. w = None) (os @ [x]) = (if x = None then [] else [x])"
    for os and x :: "nat option"
    by (induction os) auto
  have snoc: "list_all (\<lambda>w. w \<noteq> None) (dropWhile (\<lambda>w. w = None) (os @ [Some k]))"
    if "list_all (\<lambda>w. w \<noteq> None) (dropWhile (\<lambda>w. w = None) os)" for os and k :: nat
    using that by (induction os) auto
  have "owners_sticky (new_form_runtime doc)"
    unfolding new_form_runtime_def
    by (rule discover_invariant(1) [where I = owners_sticky, THEN conjunct1])
       (auto simp: owners_sticky_def push_control_def push_form_def pop_forms_def app snoc
         simp del: not_None_eq split: option.split)
  then show ?thesis by (simp add: owners_sticky_def)
qed

text \<open>A parsed element carries no data of its own, only its text children do.\<close>

definition element_plain :: "dom_node \<Rightarrow> bool" where
  "element_plain n \<longleftrightarrow> node_type n = ElementNode \<longrightarrow> node_data n = []"

lemma insert_token_element_plain:
  assumes "all_nodes element_plain (fst st)" and "good_state st"
  shows "all_nodes element_plain (fst (insert_token token st))"
proof -
  obtain doc os where st: "st = (doc, os)" by (cases st)
  have leaf: "all_nodes element_plain (update_at (last os) (\<lambda>x. append_child x (DomNode ty nm d as [])) doc)"
    if "ty = ElementNode \<longrightarrow> d = []" for ty nm d as
  proof -
    have "last os \<in> set os" "\<forall>p \<in> set os. \<exists>n. node_at doc p = Some n"
      using assms(2) st by (auto simp: good_state_def)
    then obtain n where n: "node_at doc (last os) = Some n" by blast
    have doc: "all_nodes element_plain doc" using assms(1) st by simp
    have "all_nodes element_plain n" by (rule all_nodes_node_at [OF doc n])
    then have "all_nodes element_plain (append_child n (DomNode ty nm d as []))"
      using that by (auto simp: append_child_def element_plain_def all_nodes_unfold [of element_plain n])
    then show ?thesis
      by (rule all_nodes_update_at [OF doc n]) (simp add: element_plain_def)
  qed
  show ?thesis using assms st leaf
    by (cases "token_type token")
       (auto simp: insert_token_def insert_node_def new_node_def good_state_def Let_def)
qed

lemma build_loop_element_plain:
  "all_nodes element_plain (fst st) \<Longrightarrow> good_state st \<Longrightarrow> all_nodes element_plain (build_loop s st)"
proof (induction s st rule: build_loop.induct)
  case (1 s st)
  show ?case
  proof (cases "token_type (fst (next_token s)) = EOFToken")
    case True
    then show ?thesis using 1(2) by (subst build_loop.simps) (simp add: case_prod_unfold Let_def)
  next
    case False
    have "build_loop s st = build_loop (snd (next_token s)) (insert_token (fst (next_token s)) st)"
      using False by (subst build_loop.simps) (simp add: case_prod_unfold Let_def)
    then show ?thesis
      using 1(1) [OF refl prod.collapse False] insert_token_element_plain [OF 1(2,3)]
        good_state_insert_token [OF 1(3)] by simp
  qed
qed

lemma discover_textareas:
  "all_nodes element_plain n \<Longrightarrow>
    list_all (\<lambda>c. ctl_value c = []) (filter (\<lambda>c. ctl_kind c = TextAreaControl) (fr_controls fr)) \<Longrightarrow>
    list_all (\<lambda>c. ctl_value c = []) (filter (\<lambda>c. ctl_kind c = TextAreaControl) (fr_controls (discover n p fr)))"
  "\<forall>c \<in> set cs. all_nodes element_plain c \<Longrightarrow>
    list_all (\<lambda>c. ctl_value c = []) (filter (\<lambda>c. ctl_kind c = TextAreaControl) (fr_controls fr)) \<Longrightarrow>
    list_all (\<lambda>c. ctl_value c = []) (filter (\<lambda>c. ctl_kind c = TextAreaControl) (fr_controls (discover_children cs p i fr)))"
proof (induction n p fr and cs p i fr rule: discover_discover_children.induct)
  case (1 ty nm d as cs p fr)
  let ?n = "DomNode ty nm d as cs"
  have plain: "element_plain ?n" "\<forall>c \<in> set cs. all_nodes element_plain c" using 1(2) by simp_all
  have "d = []" if "kind_for ?n = Some TextAreaControl"
    using plain(1) that by (simp add: element_plain_def kind_for_def split: if_splits)
  then have "list_all (\<lambda>c. ctl_value c = []) (filter (\<lambda>c. ctl_kind c = TextAreaControl)
      (fr_controls (push_control ?n p (push_form ?n p fr))))"
    using 1(3) by (auto simp: push_control_def push_form_def control_for_def Let_def split: option.split)
  then show ?case using 1(1) [OF refl refl refl plain(2)] by (simp add: pop_forms_def Let_def)
qed simp_all

text \<open>A \<open>textarea\<close> of a parsed document always starts empty, whatever text it contains:
  its initial value is read from the element's own data, and the parser puts the text into
  a child node.\<close>

theorem textarea_starts_empty:
  "list_all (\<lambda>c. ctl_value c = [])
    (filter (\<lambda>c. ctl_kind c = TextAreaControl) (fr_controls (new_form_runtime (parse_html input))))"
proof -
  have "good_state (new_document, [[]])"
    by (simp add: good_state_def new_document_def good_node_def may_have_children_def)
  then have "all_nodes element_plain (parse_html input)"
    unfolding parse_html_def build_def
    by (intro build_loop_element_plain) (simp_all add: new_document_def element_plain_def)
  then show ?thesis unfolding new_form_runtime_def by (intro discover_textareas) simp_all
qed

end
