(* ===== verification/Session.thy ===== *)
theory Session
  imports Navigation Forms
begin

text \<open>
  \<open>browser_session.hpp\<close>/\<open>browser_session.cpp\<close>: one tab, with its history, scroll position, pointer
  state and form controls.  Operations that load take the loader and its world along.  Shown:
  the history index is an entry of the history in every reachable state, what each operation
  does to the history, and that typed text never reaches a control.
\<close>

record page_metadata =
  pm_url :: url
  pm_title :: string
  pm_lifecycle :: page_lifecycle

record history_entry =
  he_request :: nav_request
  he_metadata :: page_metadata

record session =
  se_navigation :: navigation
  se_history :: "history_entry list"
  se_index :: "nat option"
  se_page :: "page_metadata option"
  se_viewport :: viewport
  se_visual :: visual_state
  se_forms :: "form_runtime option"

definition new_session :: session where
  "new_session = \<lparr> se_navigation = new_navigation, se_history = [], se_index = None, se_page = None,
     se_viewport = new_viewport, se_visual = new_visual_state, se_forms = None \<rparr>"

definition can_go_back :: "session \<Rightarrow> bool" where
  "can_go_back s = (case se_index s of None \<Rightarrow> False | Some i \<Rightarrow> 0 < i)"

definition can_go_forward :: "session \<Rightarrow> bool" where
  "can_go_forward s = (case se_index s of None \<Rightarrow> False | Some i \<Rightarrow> i + 1 < length (se_history s))"


section \<open>The title\<close>

fun node_text :: "dom_node \<Rightarrow> string" where
  "node_text (DomNode ty name d attrs cs) = (if ty = TextNode then d else []) @ concat (map node_text cs)"

text \<open>The text of the first \<open>title\<close> element; nothing when there is none.\<close>

definition document_title :: "dom_node \<Rightarrow> string" where
  "document_title doc =
     (case filter (\<lambda>n. node_type n = ElementNode \<and> node_name n = ''title'') (nodes_of doc) of
        [] \<Rightarrow> []
      | n # ns \<Rightarrow> concat (map node_text (node_children n)))"

definition extract_title :: "resource_cache \<Rightarrow> url \<Rightarrow> string" where
  "extract_title resources u =
     (let source = cache_get_text resources (serialized u) in if source = [] then [] else document_title (parse_html source))"


section \<open>History\<close>

definition page_viewport :: "nav_request \<Rightarrow> render_document \<Rightarrow> viewport \<Rightarrow> viewport" where
  "page_viewport rq page v =
     (let r = ln_rect (rd_layout page); v = set_document_size (rect_width r) (rect_height r) v in
      if feq (vp_width v) (Num 0) then set_size (rq_width rq) (rect_height r) v else v)"

definition record_history :: "nav_request \<Rightarrow> page_metadata \<Rightarrow> bool \<Rightarrow> session \<Rightarrow> session" where
  "record_history rq meta append_history s =
     (if append_history then
        let kept = (case se_index s of
                None \<Rightarrow> se_history s
              | Some i \<Rightarrow> if i + 1 < length (se_history s) then take (i + 1) (se_history s) else se_history s);
            h = kept @ [\<lparr> he_request = rq, he_metadata = meta \<rparr>]
        in s\<lparr> se_history := h, se_index := Some (length h - 1) \<rparr>
      else
        case se_index s of
          None \<Rightarrow> s
        | Some i \<Rightarrow> s\<lparr> se_history := (se_history s)[i := (se_history s ! i)\<lparr> he_metadata := meta \<rparr>] \<rparr>)"

type_synonym 'w session_outcome = "nav_result \<times> session \<times> 'w load_world"

definition commit :: "decoders \<Rightarrow> 'w loader \<Rightarrow> nav_request \<Rightarrow> bool \<Rightarrow> session \<Rightarrow> 'w load_world \<Rightarrow> 'w session_outcome run" where
  "commit dec l rq append_history s st =
     bind_run (navigate dec l rq (se_navigation s) st) (\<lambda>(r, nav, st).
       let s = s\<lparr> se_navigation := nav \<rparr> in
       if \<not> nav_succeeded r then Returns (r, s, st)
       else
         let meta = \<lparr> pm_url = nav_url nav, pm_title = extract_title (fst st) (nav_url nav), pm_lifecycle = nav_lifecycle nav \<rparr>;
             s = (record_history rq meta append_history s)\<lparr> se_page := Some meta, se_visual := new_visual_state \<rparr>
         in case nav_document nav of
              None \<Rightarrow> Returns (r, s\<lparr> se_forms := None \<rparr>, st)
            | Some page \<Rightarrow>
                Returns (r, s\<lparr> se_forms := Some (new_form_runtime (rd_document page)),
                             se_viewport := page_viewport rq page (se_viewport s) \<rparr>, st))"

definition session_navigate :: "decoders \<Rightarrow> 'w loader \<Rightarrow> nav_request \<Rightarrow> session \<Rightarrow> 'w load_world \<Rightarrow> 'w session_outcome run" where
  "session_navigate dec l rq s st = commit dec l rq True s st"

definition refused :: "string \<Rightarrow> session \<Rightarrow> 'w load_world \<Rightarrow> 'w session_outcome run" where
  "refused msg s st = Returns (nav_failure InvalidUrl msg, s, st)"

definition session_reload :: "decoders \<Rightarrow> 'w loader \<Rightarrow> session \<Rightarrow> 'w load_world \<Rightarrow> 'w session_outcome run" where
  "session_reload dec l s st =
     (case se_index s of
        None \<Rightarrow> refused ''No successful navigation is available to reload'' s st
      | Some i \<Rightarrow> commit dec l (he_request (se_history s ! i)) False s st)"

text \<open>The common part of \<open>back\<close> and \<open>forward\<close>.\<close>

definition go_to :: "decoders \<Rightarrow> 'w loader \<Rightarrow> nat \<Rightarrow> session \<Rightarrow> 'w load_world \<Rightarrow> 'w session_outcome run" where
  "go_to dec l target s st =
     bind_run (commit dec l (he_request (se_history s ! target)) False s st) (\<lambda>(r, s, st).
       Returns (r, if nav_succeeded r then s\<lparr> se_index := Some target \<rparr> else s, st))"

definition session_back :: "decoders \<Rightarrow> 'w loader \<Rightarrow> session \<Rightarrow> 'w load_world \<Rightarrow> 'w session_outcome run" where
  "session_back dec l s st =
     (if \<not> can_go_back s then refused ''No previous history entry is available'' s st
      else go_to dec l (the (se_index s) - 1) s st)"

definition session_forward :: "decoders \<Rightarrow> 'w loader \<Rightarrow> session \<Rightarrow> 'w load_world \<Rightarrow> 'w session_outcome run" where
  "session_forward dec l s st =
     (if \<not> can_go_forward s then refused ''No forward history entry is available'' s st
      else go_to dec l (the (se_index s) + 1) s st)"


section \<open>Scrolling\<close>

definition session_set_viewport :: "fp \<Rightarrow> fp \<Rightarrow> session \<Rightarrow> session" where
  "session_set_viewport w h s =
     (let v = set_size w h (se_viewport s) in
      s\<lparr> se_viewport := (case nav_document (se_navigation s) of None \<Rightarrow> v
           | Some page \<Rightarrow> set_document_size (rect_width (ln_rect (rd_layout page))) (rect_height (ln_rect (rd_layout page))) v) \<rparr>)"

definition session_scroll_by :: "fp \<Rightarrow> fp \<Rightarrow> session \<Rightarrow> session" where
  "session_scroll_by dx dy s = s\<lparr> se_viewport := scroll_by dx dy (se_viewport s) \<rparr>"

definition session_scroll_to :: "fp \<Rightarrow> fp \<Rightarrow> session \<Rightarrow> session" where
  "session_scroll_to x y s = s\<lparr> se_viewport := scroll_to x y (se_viewport s) \<rparr>"

definition scroll_to_fragment :: "string \<Rightarrow> session \<Rightarrow> bool \<times> session" where
  "scroll_to_fragment frag s =
     (case nav_document (se_navigation s) of None \<Rightarrow> (False, s)
      | Some page \<Rightarrow>
          case fragment_target page frag of None \<Rightarrow> (False, s)
          | Some r \<Rightarrow> (True, session_scroll_to (rect_x r) (rect_y r) s))"


section \<open>The pointer\<close>

definition session_hit_test :: "session \<Rightarrow> fp \<Rightarrow> fp \<Rightarrow> hit_result run" where
  "session_hit_test s x y =
     (case nav_document (se_navigation s) of None \<Rightarrow> Returns no_hit | Some page \<Rightarrow> hit_test page (se_viewport s) x y)"

text \<open>A link to a fragment of the page shown scrolls; every other link navigates.\<close>

definition activate_at :: "decoders \<Rightarrow> 'w loader \<Rightarrow> fp \<Rightarrow> fp \<Rightarrow> session \<Rightarrow> 'w load_world \<Rightarrow> 'w session_outcome run" where
  "activate_at dec l x y s st =
     (case nav_document (se_navigation s) of
        None \<Rightarrow> refused ''No document is available for interaction'' s st
      | Some page \<Rightarrow>
          bind_run (hit_test page (se_viewport s) x y) (\<lambda>hit.
            case ht_link hit of
              None \<Rightarrow> refused ''No navigable hyperlink was activated'' s st
            | Some destination \<Rightarrow>
                if has_fragment destination \<and>
                    strip_fragment (serialized destination) = strip_fragment (serialized (nav_url (se_navigation s))) then
                  (case scroll_to_fragment (fragment destination) s of
                     (True, s) \<Rightarrow> Returns (nav_ok, s, st)
                   | (False, s) \<Rightarrow> refused ''Fragment target was not found'' s st)
                else
                  session_navigate dec l \<lparr> rq_document = destination, rq_stylesheet = None, rq_width = vp_width (se_viewport s) \<rparr> s st))"

definition hover_at :: "fp \<Rightarrow> fp \<Rightarrow> session \<Rightarrow> (bool \<times> session) run" where
  "hover_at x y s =
     bind_run (session_hit_test s x y) (\<lambda>hit.
       case set_hovered (ht_node hit) (se_visual s) of (b, v) \<Rightarrow> Returns (b, s\<lparr> se_visual := v \<rparr>))"

definition activate_control_at :: "fp \<Rightarrow> fp \<Rightarrow> session \<Rightarrow> (bool \<times> session) run" where
  "activate_control_at x y s =
     bind_run (session_hit_test s x y) (\<lambda>hit.
       case (ht_node hit, se_forms s) of
         (Some p, Some fr) \<Rightarrow>
           (case find_idx (\<lambda>c. ctl_node c = p) (fr_controls fr) of
              None \<Rightarrow> Returns (False, s)
            | Some i \<Rightarrow>
                case activate i fr of (done_, fr') \<Rightarrow>
                  if done_ then
                    Returns (True, s\<lparr> se_forms := Some fr', se_visual := mark_layout_dirty (snd (set_focused (Some p) (se_visual s))) \<rparr>)
                  else Returns (False, s\<lparr> se_forms := Some fr' \<rparr>))
       | _ \<Rightarrow> Returns (False, s))"



section \<open>Reachable sessions\<close>

datatype nav_op = Go nav_request | Reload | Back | Forward

definition session_nav :: "decoders \<Rightarrow> 'w loader \<Rightarrow> nav_op \<Rightarrow> session \<Rightarrow> 'w load_world \<Rightarrow> 'w session_outcome run" where
  "session_nav dec l op s st =
     (case op of
        Go rq \<Rightarrow> session_navigate dec l rq s st
      | Reload \<Rightarrow> session_reload dec l s st
      | Back \<Rightarrow> session_back dec l s st
      | Forward \<Rightarrow> session_forward dec l s st)"

datatype session_op = Navigates nav_op | FollowsLink fp fp | Hovers fp fp | PressesControl fp fp | JumpsTo string
  | ScrollsBy fp fp | ScrollsTo fp fp | Resizes fp fp

definition session_do :: "decoders \<Rightarrow> 'w loader \<Rightarrow> session_op \<Rightarrow> session \<times> 'w load_world \<Rightarrow> (session \<times> 'w load_world) run" where
  "session_do dec l op sw =
     (case sw of (s, st) \<Rightarrow>
      case op of
        Navigates n \<Rightarrow> bind_run (session_nav dec l n s st) (\<lambda>(r, s, st). Returns (s, st))
      | FollowsLink x y \<Rightarrow> bind_run (activate_at dec l x y s st) (\<lambda>(r, s, st). Returns (s, st))
      | Hovers x y \<Rightarrow> bind_run (hover_at x y s) (\<lambda>(b, s). Returns (s, st))
      | PressesControl x y \<Rightarrow> bind_run (activate_control_at x y s) (\<lambda>(b, s). Returns (s, st))
      | JumpsTo frag \<Rightarrow> Returns (snd (scroll_to_fragment frag s), st)
      | ScrollsBy dx dy \<Rightarrow> Returns (session_scroll_by dx dy s, st)
      | ScrollsTo x y \<Rightarrow> Returns (session_scroll_to x y s, st)
      | Resizes w h \<Rightarrow> Returns (session_set_viewport w h s, st))"

text \<open>The controls are those of the page shown, and none has the focus.\<close>

definition controls_of_page :: "form_runtime option \<Rightarrow> render_document option \<Rightarrow> bool" where
  "controls_of_page forms page =
     (case (forms, page) of
        (None, None) \<Rightarrow> True
      | (Some fr, Some p) \<Rightarrow>
          page_ok p \<and> map ctl_node (fr_controls fr) = map ctl_node (fr_controls (new_form_runtime (rd_document p))) \<and>
          fr_focused fr = None \<and> list_all (\<lambda>c. \<not> ctl_focused c) (fr_controls fr)
      | _ \<Rightarrow> False)"

text \<open>The node under the pointer and the focused node are nodes of the page shown, the focused one that of a
  control; nothing is ever pressed.\<close>

definition node_of_page :: "render_document option \<Rightarrow> node_path \<Rightarrow> bool" where
  "node_of_page page p = (case page of None \<Rightarrow> False | Some pg \<Rightarrow> node_at (rd_document pg) p \<noteq> None)"

definition visual_of_page :: "visual_state \<Rightarrow> form_runtime option \<Rightarrow> render_document option \<Rightarrow> bool" where
  "visual_of_page vis forms page \<longleftrightarrow>
     active vis = None \<and> (\<forall>p. hovered vis = Some p \<longrightarrow> node_of_page page p) \<and>
     (\<forall>p. focused vis = Some p \<longrightarrow> node_of_page page p \<and> (\<exists>fr. forms = Some fr \<and> p \<in> set (map ctl_node (fr_controls fr))))"

definition index_ok :: "session \<Rightarrow> bool" where
  "index_ok s = (case se_index s of None \<Rightarrow> se_history s = [] | Some i \<Rightarrow> i < length (se_history s))"

definition session_ok :: "session \<Rightarrow> bool" where
  "session_ok s \<longleftrightarrow>
     index_ok s \<and> scroll_ok (se_viewport s) \<and> (se_index s = None \<longleftrightarrow> nav_document (se_navigation s) = None) \<and>
     (se_page s = None \<longleftrightarrow> se_index s = None) \<and> controls_of_page (se_forms s) (nav_document (se_navigation s)) \<and>
     visual_of_page (se_visual s) (se_forms s) (nav_document (se_navigation s))"

lemma index_ok_updates [simp]:
  "index_ok (s\<lparr> se_viewport := v \<rparr>) = index_ok s" "index_ok (s\<lparr> se_visual := vis \<rparr>) = index_ok s"
  "index_ok (s\<lparr> se_forms := fs \<rparr>) = index_ok s" "index_ok (s\<lparr> se_forms := fs, se_visual := vis \<rparr>) = index_ok s"
  by (simp_all add: index_ok_def split: option.split)

lemma new_visual_of_page: "visual_of_page new_visual_state forms page"
  by (simp add: visual_of_page_def new_visual_state_def)

lemma new_session_ok: "session_ok new_session"
  by (simp add: session_ok_def index_ok_def new_session_def new_navigation_def controls_of_page_def new_viewport_ok new_visual_of_page)

definition unfocused :: "form_runtime \<Rightarrow> bool" where
  "unfocused fr \<longleftrightarrow> fr_focused fr = None \<and> list_all (\<lambda>c. \<not> ctl_focused c) (fr_controls fr)"

lemma update_control_unfocused:
  "unfocused fr \<Longrightarrow> (\<And>c. ctl_focused (f c) = ctl_focused c) \<Longrightarrow> (\<And>c. ctl_node (f c) = ctl_node c) \<Longrightarrow>
    unfocused (update_control i f fr) \<and>
    map ctl_node (fr_controls (update_control i f fr)) = map ctl_node (fr_controls fr)"
  by (cases "i < length (fr_controls fr)")
    (auto simp: unfocused_def update_control_def list_all_length nth_list_update map_update list_update_same_conv list_update_beyond)

lemma radio_round_unfocused:
  "unfocused fr \<Longrightarrow> unfocused (radio_round k i fr) \<and>
    map ctl_node (fr_controls (radio_round k i fr)) = map ctl_node (fr_controls fr)"
  by (simp add: radio_round_def update_control_unfocused)

lemma activate_unfocused:
  assumes "unfocused fr"
  shows "unfocused (snd (activate i fr)) \<and> map ctl_node (fr_controls (snd (activate i fr))) = map ctl_node (fr_controls fr)"
proof -
  have "unfocused (fold (radio_round i) ks fr) \<and>
      map ctl_node (fr_controls (fold (radio_round i) ks fr)) = map ctl_node (fr_controls fr)" for ks
    using assms by (induction ks rule: rev_induct) (simp_all add: radio_round_unfocused)
  then show ?thesis using assms update_control_unfocused by (simp add: activate_def Let_def)
qed

lemma discover_unfocused: "unfocused fr \<Longrightarrow> unfocused (discover n p fr)"
  and discover_children_unfocused: "unfocused fr \<Longrightarrow> unfocused (discover_children cs p i fr)"
proof (induction n p fr and cs p i fr rule: discover_discover_children.induct)
  case (1 ty nm d as cs p fr)
  have "unfocused (push_control (DomNode ty nm d as cs) p (push_form (DomNode ty nm d as cs) p fr))"
    using 1(2) by (auto simp: push_control_def push_form_def unfocused_def control_for_def Let_def split: option.split)
  then show ?case using 1 by (simp add: Let_def pop_forms_def unfocused_def)
qed simp_all

lemma new_form_runtime_unfocused: "unfocused (new_form_runtime doc)"
  unfolding new_form_runtime_def by (rule discover_unfocused) (simp add: unfocused_def)


subsection \<open>Every operation keeps the session in order\<close>

lemma controls_of_page_same_nodes:
  "controls_of_page (Some fr) page \<Longrightarrow> unfocused fr' \<Longrightarrow> map ctl_node (fr_controls fr') = map ctl_node (fr_controls fr) \<Longrightarrow>
    controls_of_page (Some fr') page"
  by (cases page) (auto simp: controls_of_page_def unfocused_def)

lemma controls_of_new_page: "page_ok page \<Longrightarrow> controls_of_page (Some (new_form_runtime (rd_document page))) (Some page)"
  using new_form_runtime_unfocused by (auto simp: controls_of_page_def unfocused_def)

text \<open>What a commit does, by the outcome of the navigation.\<close>

definition committed :: "nav_request \<Rightarrow> bool \<Rightarrow> session \<Rightarrow> 'w session_outcome \<Rightarrow> bool" where
  "committed rq append_history s = (\<lambda>(r, s', st').
     if nav_succeeded r then
       \<exists>page meta. page_ok page \<and> nav_document (se_navigation s') = Some page \<and> se_page s' = Some meta \<and>
         se_forms s' = Some (new_form_runtime (rd_document page)) \<and> scroll_ok (se_viewport s') \<and>
         se_visual s' = new_visual_state \<and>
         se_history s' = se_history (record_history rq meta append_history s) \<and>
         se_index s' = se_index (record_history rq meta append_history s)
     else
       se_history s' = se_history s \<and> se_index s' = se_index s \<and> se_page s' = se_page s \<and> se_forms s' = se_forms s \<and>
       se_viewport s' = se_viewport s \<and> se_visual s' = se_visual s \<and> nav_document (se_navigation s') = nav_document (se_navigation s))"

lemma record_history_fields:
  "se_viewport (record_history rq meta b s) = se_viewport s" "se_navigation (record_history rq meta b s) = se_navigation s"
  "se_history (record_history rq meta b (s\<lparr> se_navigation := nav \<rparr>)) = se_history (record_history rq meta b s)"
  "se_index (record_history rq meta b (s\<lparr> se_navigation := nav \<rparr>)) = se_index (record_history rq meta b s)"
  by (simp_all add: record_history_def Let_def split: option.split)

lemma page_viewport_ok: "scroll_ok (page_viewport rq page v)"
  by (auto simp: page_viewport_def Let_def)

lemma commit_committed: "returns_only (committed rq b s) (commit dec l rq b s st)"
  unfolding commit_def
proof (rule returns_only_bind [OF navigate_outcome], clarify)
  fix r nav st'
  assume n: "navigation_outcome rq (se_navigation s) (r, nav, st')"
  show "returns_only (committed rq b s)
      (let s = s\<lparr> se_navigation := nav \<rparr> in
       if \<not> nav_succeeded r then Returns (r, s, st')
       else
         let meta = \<lparr> pm_url = nav_url nav, pm_title = extract_title (fst st') (nav_url nav), pm_lifecycle = nav_lifecycle nav \<rparr>;
             s = (record_history rq meta b s)\<lparr> se_page := Some meta, se_visual := new_visual_state \<rparr>
         in case nav_document nav of
              None \<Rightarrow> Returns (r, s\<lparr> se_forms := None \<rparr>, st')
            | Some page \<Rightarrow>
                Returns (r, s\<lparr> se_forms := Some (new_form_runtime (rd_document page)),
                             se_viewport := page_viewport rq page (se_viewport s) \<rparr>, st'))"
  proof (cases "nav_succeeded r")
    case True
    then show ?thesis using n
      by (auto simp: navigation_outcome_def committed_def page_of_request_def Let_def record_history_fields page_viewport_ok)
  next
    case False
    then show ?thesis using n by (simp add: navigation_outcome_def committed_def Let_def)
  qed
qed

lemma record_history_index:
  "index_ok s \<Longrightarrow> b \<or> se_index s \<noteq> None \<Longrightarrow>
    index_ok (record_history rq meta b s) \<and> se_index (record_history rq meta b s) \<noteq> None \<and>
    (\<not> b \<longrightarrow> se_index (record_history rq meta b s) = se_index s \<and>
       length (se_history (record_history rq meta b s)) = length (se_history s))"
  by (auto simp: index_ok_def record_history_def Let_def split: option.splits)

lemma index_ok_cong: "se_history s' = se_history s \<Longrightarrow> se_index s' = se_index s \<Longrightarrow> index_ok s' = index_ok s"
  by (simp add: index_ok_def split: option.split)

lemma committed_ok:
  assumes "session_ok s" and "b \<or> se_index s \<noteq> None" and "committed rq b s (r, s', st')"
  shows "session_ok s' \<and> (nav_succeeded r \<longrightarrow> se_index s' \<noteq> None) \<and> (\<not> b \<longrightarrow> se_index s' = se_index s \<and> length (se_history s') = length (se_history s))"
proof (cases "nav_succeeded r")
  case True
  then obtain page meta where c: "page_ok page" "nav_document (se_navigation s') = Some page" "se_page s' = Some meta"
    "se_forms s' = Some (new_form_runtime (rd_document page))" "scroll_ok (se_viewport s')" "se_visual s' = new_visual_state"
    "se_history s' = se_history (record_history rq meta b s)" "se_index s' = se_index (record_history rq meta b s)"
    using assms(3) by (auto simp: committed_def)
  have "index_ok s" using assms(1) by (simp add: session_ok_def)
  note h = record_history_index [OF this assms(2), of rq meta]
  have "index_ok s'" using h index_ok_cong [OF c(7,8)] by simp
  then show ?thesis using c h controls_of_new_page new_visual_of_page by (auto simp: session_ok_def)
next
  case False
  then show ?thesis using assms(1,3) by (auto simp: committed_def session_ok_def index_ok_def split: option.splits)
qed

abbreviation ok_outcome :: "'w session_outcome run \<Rightarrow> bool" where
  "ok_outcome m \<equiv> returns_only (\<lambda>(r, s', st'). session_ok s') m"

lemma commit_ok: "session_ok s \<Longrightarrow> b \<or> se_index s \<noteq> None \<Longrightarrow> ok_outcome (commit dec l rq b s st)"
  by (rule returns_only_weaken [OF commit_committed]) (auto dest: committed_ok)

lemma go_to_ok:
  assumes "session_ok s" and "se_index s \<noteq> None" and "target < length (se_history s)"
  shows "ok_outcome (go_to dec l target s st)"
  unfolding go_to_def
proof (rule returns_only_bind [OF commit_committed], clarify)
  fix r s' st'
  assume "committed (he_request (se_history s ! target)) False s (r, s', st')"
  from committed_ok [OF assms(1) _ this] assms(2,3) show "ok_outcome (Returns (r, if nav_succeeded r then s'\<lparr> se_index := Some target \<rparr> else s', st'))"
    by (auto simp: session_ok_def index_ok_def split: option.splits)
qed

lemma session_nav_ok: "session_ok s \<Longrightarrow> ok_outcome (session_nav dec l op s st)"
proof -
  assume s: "session_ok s"
  have "can_go_back s \<Longrightarrow> se_index s \<noteq> None \<and> the (se_index s) - 1 < length (se_history s)"
    "can_go_forward s \<Longrightarrow> se_index s \<noteq> None \<and> the (se_index s) + 1 < length (se_history s)"
    using s by (auto simp: can_go_back_def can_go_forward_def session_ok_def index_ok_def split: option.splits)
  then have "ok_outcome (session_back dec l s st)" "ok_outcome (session_forward dec l s st)"
    using s go_to_ok [OF s, of "the (se_index s) - 1" dec l st] go_to_ok [OF s, of "the (se_index s) + 1" dec l st]
    by (simp_all add: session_back_def session_forward_def refused_def)
  moreover have "ok_outcome (session_reload dec l s st)" "ok_outcome (session_navigate dec l rq s st)" for rq
    using s by (auto simp: session_reload_def session_navigate_def refused_def split: option.split intro!: commit_ok)
  ultimately show ?thesis by (simp add: session_nav_def split: nav_op.split)
qed

lemma viewport_session_ok: "session_ok s \<Longrightarrow> scroll_ok v \<Longrightarrow> session_ok (s\<lparr> se_viewport := v \<rparr>)"
  by (simp add: session_ok_def)

lemma scroll_to_fragment_ok: "session_ok s \<Longrightarrow> session_ok (snd (scroll_to_fragment frag s))"
  by (auto simp: scroll_to_fragment_def session_scroll_to_def viewport_session_ok viewport_operations_ok split: option.split)

lemma activate_at_ok:
  assumes s: "session_ok s"
  shows "ok_outcome (activate_at dec l x y s st)"
proof (cases "nav_document (se_navigation s)")
  case (Some page)
  have jump: "session_ok s'" if "scroll_to_fragment frag s = (b, s')" for frag b s'
    using scroll_to_fragment_ok [OF s, of frag] that by simp
  have go: "ok_outcome (session_navigate dec l rq s st)" for rq
    using session_nav_ok [OF s, of dec l "Go rq" st] by (simp add: session_nav_def)
  show ?thesis unfolding activate_at_def Some option.case
    by (rule returns_only_bind [where P = "\<lambda>_. True"])
      (auto simp: returns_only_iff [of "\<lambda>_. True"] refused_def go s dest: jump split: option.split prod.split bool.split)
qed (use s in \<open>simp add: activate_at_def refused_def\<close>)

text \<open>The hit test answers nodes of the page shown.\<close>

lemma hit_node:
  assumes "session_ok s" and "session_hit_test s x y = Returns hit" and "ht_node hit = Some p"
  shows "node_of_page (nav_document (se_navigation s)) p"
proof (cases "nav_document (se_navigation s)")
  case None
  then show ?thesis using assms(2,3) by (auto simp: session_hit_test_def no_hit_def)
next
  case (Some page)
  obtain dx dy where d: "to_document_coordinates (se_viewport s) x y = (dx, dy)" by fastforce
  have "page_ok page" using assms(1) Some by (auto simp: session_ok_def controls_of_page_def split: option.splits)
  moreover obtain n where "hit_test_node dx dy (rd_layout page) = Some n" "p = box_node n"
    using assms(2,3) Some d
    by (auto simp: session_hit_test_def hit_test_def no_hit_def Let_def bind_run_Returns_iff split: option.splits)
  moreover from this have "n \<in> set (boxes_of (rd_layout page))" using hit_test_is_box by blast
  ultimately show ?thesis using Some by (auto simp: page_ok_def node_of_page_def)
qed

lemma activate_control_ok: "session_ok s \<Longrightarrow> returns_only (\<lambda>(b, s'). session_ok s') (activate_control_at x y s)"
proof -
  assume s: "session_ok s"
  show ?thesis
  proof (cases "session_hit_test s x y")
    case (Returns hit)
    have forms: "session_ok (s\<lparr> se_forms := Some (snd (activate i fr)) \<rparr>)"
      "p \<in> set (map ctl_node (fr_controls fr)) \<Longrightarrow> ht_node hit = Some p \<Longrightarrow>
        session_ok (s\<lparr> se_forms := Some (snd (activate i fr)), se_visual := mark_layout_dirty (snd (set_focused (Some p) (se_visual s))) \<rparr>)"
      if f: "se_forms s = Some fr" for i fr p
    proof -
      have c: "controls_of_page (Some fr) (nav_document (se_navigation s))" using s f by (simp add: session_ok_def)
      then have "unfocused fr" by (auto simp: controls_of_page_def unfocused_def split: option.splits)
      note u = activate_unfocused [OF this, of i]
      have same: "ctl_node ` set (fr_controls (snd (activate i fr))) = ctl_node ` set (fr_controls fr)"
        using u by (metis set_map)
      have c': "controls_of_page (Some (snd (activate i fr))) (nav_document (se_navigation s))"
        using controls_of_page_same_nodes [OF c] u by blast
      have v: "visual_of_page (se_visual s) (Some fr) (nav_document (se_navigation s))" using s f by (simp add: session_ok_def)
      then have "visual_of_page (se_visual s) (Some (snd (activate i fr))) (nav_document (se_navigation s))"
        using same by (simp add: visual_of_page_def)
      then show "session_ok (s\<lparr> se_forms := Some (snd (activate i fr)) \<rparr>)" using s c' by (simp add: session_ok_def)
      assume p: "p \<in> set (map ctl_node (fr_controls fr))" "ht_node hit = Some p"
      have "visual_of_page (mark_layout_dirty (snd (set_focused (Some p) (se_visual s)))) (Some (snd (activate i fr)))
          (nav_document (se_navigation s))"
        using v same p hit_node [OF s Returns p(2)]
        by (auto simp: visual_of_page_def mark_layout_dirty_def set_focused_def set_node_def)
      then show "session_ok (s\<lparr> se_forms := Some (snd (activate i fr)),
          se_visual := mark_layout_dirty (snd (set_focused (Some p) (se_visual s))) \<rparr>)"
        using s c' by (simp add: session_ok_def)
    qed
    have at: "p \<in> set (map ctl_node (fr_controls fr))" if "find_idx (\<lambda>c. ctl_node c = p) (fr_controls fr) = Some i" for p fr i
      using that by (auto simp: find_idx_Some_iff intro!: imageI nth_mem)
    have press: "returns_only (\<lambda>(b, s'). session_ok s')
        (case activate i fr of (done_, fr') \<Rightarrow>
           if done_ then Returns (True, s\<lparr> se_forms := Some fr', se_visual := mark_layout_dirty (snd (set_focused (Some p) (se_visual s))) \<rparr>)
           else Returns (False, s\<lparr> se_forms := Some fr' \<rparr>))"
      if "se_forms s = Some fr" "ht_node hit = Some p" "find_idx (\<lambda>c. ctl_node c = p) (fr_controls fr) = Some i" for fr p i
      using forms(1) [OF that(1), of i] forms(2) [OF that(1) at [OF that(3)] that(2), of i] by (cases "activate i fr") simp
    show ?thesis unfolding activate_control_at_def Returns bind_run_simps
      using s press by (simp split: option.split)
  qed (simp_all add: activate_control_at_def)
qed

lemma hover_at_ok: "session_ok s \<Longrightarrow> returns_only (\<lambda>(b, s'). session_ok s') (hover_at x y s)"
proof -
  assume s: "session_ok s"
  show ?thesis
  proof (cases "session_hit_test s x y")
    case (Returns hit)
    have "visual_of_page (snd (set_hovered (ht_node hit) (se_visual s))) (se_forms s) (nav_document (se_navigation s))"
      using s hit_node [OF s Returns] by (auto simp: session_ok_def visual_of_page_def set_hovered_def set_node_def)
    then show ?thesis using s by (simp add: hover_at_def Returns session_ok_def split: prod.split) (metis snd_conv)
  qed (simp_all add: hover_at_def)
qed

lemma session_do_ok: "session_ok (fst sw) \<Longrightarrow> returns_only (\<lambda>sw'. session_ok (fst sw')) (session_do dec l op sw)"
proof -
  obtain s st where sw: "sw = (s, st)" by (cases sw)
  assume "session_ok (fst sw)"
  then have s: "session_ok s" using sw by simp
  have nav: "returns_only (\<lambda>sw'. session_ok (fst sw')) (bind_run m (\<lambda>(r, s, st). Returns (s, st)))" if "ok_outcome m"
    for m :: "'a session_outcome run"
    by (rule returns_only_bind [OF that]) auto
  have nav': "returns_only (\<lambda>sw'. session_ok (fst sw')) (bind_run m (\<lambda>(r, y). Returns y))" if "ok_outcome m"
    for m :: "'a session_outcome run"
    by (rule returns_only_bind [OF that]) auto
  have b: "returns_only (\<lambda>sw'. session_ok (fst sw')) (bind_run m (\<lambda>(b, s). Returns (s, st)))" if "returns_only (\<lambda>(b, s'). session_ok s') m"
    for m :: "(bool \<times> session) run"
    by (rule returns_only_bind [OF that]) auto
  show ?thesis unfolding session_do_def sw prod.case
  proof (cases op)
    case (Navigates n)
    show "returns_only (\<lambda>sw'. session_ok (fst sw')) (case op of
        Navigates n \<Rightarrow> bind_run (session_nav dec l n s st) (\<lambda>(r, s, st). Returns (s, st))
      | FollowsLink x y \<Rightarrow> bind_run (activate_at dec l x y s st) (\<lambda>(r, s, st). Returns (s, st))
      | Hovers x y \<Rightarrow> bind_run (hover_at x y s) (\<lambda>(b, s). Returns (s, st))
      | PressesControl x y \<Rightarrow> bind_run (activate_control_at x y s) (\<lambda>(b, s). Returns (s, st))
      | JumpsTo frag \<Rightarrow> Returns (snd (scroll_to_fragment frag s), st)
      | ScrollsBy dx dy \<Rightarrow> Returns (session_scroll_by dx dy s, st)
      | ScrollsTo x y \<Rightarrow> Returns (session_scroll_to x y s, st)
      | Resizes w h \<Rightarrow> Returns (session_set_viewport w h s, st))"
      unfolding Navigates session_op.case by (rule nav [OF session_nav_ok [OF s]])
  qed (auto simp: s scroll_to_fragment_ok session_scroll_by_def session_scroll_to_def session_set_viewport_def Let_def
      intro!: nav' [OF activate_at_ok] b [OF hover_at_ok] b [OF activate_control_ok] viewport_session_ok viewport_operations_ok
      split: option.split)
qed

lemma reachable_session_ok: "returns_only (\<lambda>sw. session_ok (fst sw)) (fold_run (session_do dec l) ops (new_session, st))"
  by (rule fold_run_invariant) (simp_all add: new_session_ok session_do_ok)


section \<open>The history as a zipper\<close>

text \<open>What a history is to its user: the requests before the current one, the nearest first, the
  current one, and those after it.\<close>

type_synonym zipper = "(nav_request list \<times> nav_request \<times> nav_request list) option"

definition history_of :: "session \<Rightarrow> zipper" where
  "history_of s =
     (case se_index s of None \<Rightarrow> None
      | Some i \<Rightarrow>
          let rqs = map he_request (se_history s) in Some (rev (take i rqs), rqs ! i, drop (Suc i) rqs))"

fun move_history :: "nav_op \<Rightarrow> zipper \<Rightarrow> zipper" where
  "move_history (Go rq) None = Some ([], rq, [])"
| "move_history (Go rq) (Some (before, now, after)) = Some (now # before, rq, [])"
| "move_history Back (Some (b # before, now, after)) = Some (before, b, now # after)"
| "move_history Forward (Some (before, now, a # after)) = Some (now # before, a, after)"
| "move_history _ z = z"

lemma map_record_history:
  "index_ok s \<Longrightarrow> \<not> b \<Longrightarrow> map he_request (se_history (record_history rq meta b s)) = map he_request (se_history s)"
  by (auto simp: record_history_def index_ok_def map_update list_update_same_conv split: option.splits)

lemma commit_go_history:
  assumes "index_ok s" and "committed rq True s (r, s', st')"
  shows "history_of s' = (if nav_succeeded r then move_history (Go rq) (history_of s) else history_of s)"
proof (cases "nav_succeeded r")
  case True
  then obtain meta where h: "se_history s' = se_history (record_history rq meta True s)" "se_index s' = se_index (record_history rq meta True s)"
    using assms(2) by (auto simp: committed_def)
  show ?thesis
  proof (cases "se_index s")
    case None
    then show ?thesis using h True assms(1) by (simp add: history_of_def record_history_def index_ok_def Let_def)
  next
    case (Some i)
    then have i: "i < length (se_history s)" using assms(1) by (simp add: index_ok_def)
    then have "rev (take (Suc i) (map he_request (se_history s))) = he_request (se_history s ! i) # rev (take i (map he_request (se_history s)))"
      by (simp add: take_Suc_conv_app_nth)
    moreover have "(if i + 1 < length (se_history s) then take (i + 1) (se_history s) else se_history s) = take (Suc i) (se_history s)"
      using i by simp
    ultimately show ?thesis using h True Some i
      by (simp add: history_of_def record_history_def Let_def nth_append take_map)
  qed
next
  case False
  then show ?thesis using assms(2) by (cases "se_index s") (simp_all add: committed_def history_of_def)
qed

lemma commit_stay_history:
  assumes "index_ok s" and "committed rq False s (r, s', st')"
  shows "map he_request (se_history s') = map he_request (se_history s) \<and> se_index s' = se_index s"
  using assms map_record_history [OF assms(1), of False rq]
  by (auto simp: committed_def record_history_def split: option.splits if_splits)

lemma history_of_cong: "map he_request (se_history s') = map he_request (se_history s) \<Longrightarrow> se_index s' = se_index s \<Longrightarrow> history_of s' = history_of s"
  by (cases "se_index s") (simp_all add: history_of_def)

lemma history_back: "se_index s = Some (Suc i) \<Longrightarrow> index_ok s \<Longrightarrow> map he_request (se_history s') = map he_request (se_history s) \<Longrightarrow>
    se_index s' = Some i \<Longrightarrow> history_of s' = move_history Back (history_of s)"
  by (simp add: history_of_def index_ok_def Let_def take_Suc_conv_app_nth Cons_nth_drop_Suc [symmetric])

lemma history_forward: "se_index s = Some i \<Longrightarrow> Suc i < length (se_history s) \<Longrightarrow> map he_request (se_history s') = map he_request (se_history s) \<Longrightarrow>
    se_index s' = Some (Suc i) \<Longrightarrow> history_of s' = move_history Forward (history_of s)"
  by (simp add: history_of_def Let_def take_Suc_conv_app_nth Cons_nth_drop_Suc [symmetric])

definition refines_move :: "nav_op \<Rightarrow> session \<Rightarrow> 'w session_outcome \<Rightarrow> bool" where
  "refines_move op s = (\<lambda>(r, s', st').
     history_of s' = (if nav_succeeded r then move_history op (history_of s) else history_of s))"

lemma refused_refines: "returns_only (refines_move op s) (refused msg s st)"
  by (simp add: refused_def refines_move_def nav_succeeded_def nav_failure_def)

lemma go_to_refines:
  assumes "index_ok s"
    and "\<And>s'. map he_request (se_history s') = map he_request (se_history s) \<Longrightarrow> se_index s' = Some target \<Longrightarrow>
      history_of s' = move_history op (history_of s)"
  shows "returns_only (refines_move op s) (go_to dec l target s st)"
  unfolding go_to_def
proof (rule returns_only_bind [OF commit_committed], clarify)
  fix r s' st'
  assume "committed (he_request (se_history s ! target)) False s (r, s', st')"
  from commit_stay_history [OF assms(1) this] show "returns_only (refines_move op s)
      (Returns (r, if nav_succeeded r then s'\<lparr> se_index := Some target \<rparr> else s', st'))"
    using assms(2) [of "s'\<lparr> se_index := Some target \<rparr>"] history_of_cong [of s' s] by (simp add: refines_move_def)
qed

lemma session_nav_refines:
  assumes "session_ok s"
  shows "returns_only (refines_move op s) (session_nav dec l op s st)"
proof -
  have i: "index_ok s" using assms by (simp add: session_ok_def)
  show ?thesis
  proof (cases op)
    case (Go rq)
    show ?thesis unfolding Go session_nav_def nav_op.case session_navigate_def
    proof (rule returns_only_weaken [OF commit_committed])
      show "refines_move (Go rq) s out" if "committed rq True s out" for out :: "'a session_outcome"
        using commit_go_history [OF i, of rq "fst out" "fst (snd out)" "snd (snd out)"] that by (simp add: refines_move_def split_beta)
    qed
  next
    case Reload
    show ?thesis
    proof (cases "se_index s")
      case None
      then show ?thesis by (simp add: Reload session_nav_def session_reload_def refused_refines)
    next
      case (Some k)
      have "history_of s' = (if nav_succeeded r then move_history Reload (history_of s) else history_of s)"
        if "committed rq False s (r, s', st')" for rq r s' and st' :: "'a load_world"
        using history_of_cong [of s' s] commit_stay_history [OF i that] by (cases "history_of s") auto
      then show ?thesis unfolding Reload session_nav_def nav_op.case session_reload_def Some option.case
        by (intro returns_only_weaken [OF commit_committed]) (auto simp: refines_move_def)
    qed
  next
    case Back
    show ?thesis
    proof (cases "can_go_back s")
      case True
      then obtain k where k: "se_index s = Some (Suc k)" by (auto simp: can_go_back_def gr0_conv_Suc split: option.splits)
      show ?thesis unfolding Back session_nav_def nav_op.case session_back_def
        using True k by (auto intro!: go_to_refines [OF i] history_back [OF k i])
    qed (simp add: Back session_nav_def session_back_def refused_refines)
  next
    case Forward
    show ?thesis
    proof (cases "can_go_forward s")
      case True
      then obtain k where k: "se_index s = Some k" "Suc k < length (se_history s)" by (auto simp: can_go_forward_def split: option.splits)
      show ?thesis unfolding Forward session_nav_def nav_op.case session_forward_def
        using True k by (auto intro!: go_to_refines [OF i] history_forward [OF k])
    qed (simp add: Forward session_nav_def session_forward_def refused_refines)
  qed
qed

text \<open>C28: the session implements a history.  After any operations of the user on a new session, a
  navigation, reload, back or forward that succeeds changes the zipper of requests exactly as its name
  says (a navigation forgets what was ahead, going back and forward moves over one entry,
  reloading moves nothing), and one that fails or is refused leaves it alone.\<close>

theorem session_refines_history:
  "returns_only
    (\<lambda>(s, st). returns_only
      (\<lambda>(r, s', st'). history_of s' = (if nav_succeeded r then move_history op (history_of s) else history_of s))
      (session_nav dec l op s st))
    (fold_run (session_do dec l) ops (new_session, st0))"
  by (rule returns_only_weaken [OF reachable_session_ok]) (use session_nav_refines in \<open>auto simp: refines_move_def\<close>)

text \<open>C29: in every reachable session the history index is an entry of the history, there is a page,
  its metadata and its controls exactly when there is a current entry, the scroll position stays within the page, the
  controls are those of the page shown, the node under the pointer and the focused node are nodes of the document of
  this page, the focused one that of a control, so that no pointer to a node dangles, and no control ever
  has the focus of the forms, so that text typed or deleted reaches none.\<close>

theorem reachable_session:
  "returns_only
    (\<lambda>(s, st).
      (case se_index s of None \<Rightarrow> se_history s = [] | Some i \<Rightarrow> i < length (se_history s)) \<and>
      (se_page s = None \<longleftrightarrow> se_index s = None) \<and> scroll_ok (se_viewport s) \<and>
      (case (se_forms s, nav_document (se_navigation s)) of
         (None, None) \<Rightarrow> se_index s = None \<and> hovered (se_visual s) = None \<and> focused (se_visual s) = None
       | (Some fr, Some page) \<Rightarrow>
           se_index s \<noteq> None \<and> map ctl_node (fr_controls fr) = map ctl_node (fr_controls (new_form_runtime (rd_document page))) \<and>
           set_option (hovered (se_visual s)) \<union> set_option (focused (se_visual s)) \<subseteq> {p. node_at (rd_document page) p \<noteq> None} \<and>
           set_option (focused (se_visual s)) \<subseteq> set (map ctl_node (fr_controls fr)) \<and>
           insert_text str fr = (False, fr) \<and> backspace fr = (False, fr)
       | _ \<Rightarrow> False))
    (fold_run (session_do dec l) ops (new_session, st0))"
  by (rule returns_only_weaken [OF reachable_session_ok])
    (auto simp: session_ok_def index_ok_def controls_of_page_def visual_of_page_def node_of_page_def insert_text_def backspace_def
      split: option.splits)

text \<open>Going back writes the title and URL of the page gone to into the entry that is left.\<close>

lemma back_spoils_entry:
  assumes "session_ok s" and "se_index s = Some i" and "0 < i"
  shows "returns_only (\<lambda>(r, s', st'). nav_succeeded r \<longrightarrow>
      (\<exists>meta. se_page s' = Some meta \<and> he_metadata (se_history s' ! i) = meta \<and> he_metadata (se_history s' ! (i - 1)) = he_metadata (se_history s ! (i - 1))))
    (session_back dec l s st)"
proof -
  have i: "i < length (se_history s)" using assms(1,2) by (simp add: session_ok_def index_ok_def)
  show ?thesis
    using assms(2,3) unfolding session_back_def can_go_back_def go_to_def
    by simp (rule returns_only_bind [OF commit_committed],
      use i assms(2,3) in \<open>auto simp: committed_def record_history_def\<close>)
qed

end
