(* ===== verification/Application.thy ===== *)
theory Application
  imports Session
begin

text \<open>
  \<open>browser_application.hpp\<close>/\<open>browser_application.cpp\<close> (the tabs and the input events) and
  \<open>browser_chrome.hpp\<close>/\<open>browser_chrome.cpp\<close> (the address bar, its status line and page state).  The chrome
  holds a reference to the application, so its operations take and return both.  Shown: the
  active tab is always one of the tabs and every tab is in order; which tab is active after one has been closed;
  and the state of the chrome after a navigation.
\<close>

record application =
  ap_tabs :: "session list"
  ap_active :: "nat option"
  ap_width :: fp
  ap_height :: fp
  ap_pressed :: bool

datatype pointer_button = Primary | Secondary | Middle

section \<open>Tabs\<close>

definition new_tab :: "application \<Rightarrow> application" where
  "new_tab a =
     (let tabs = ap_tabs a @ [session_set_viewport (ap_width a) (ap_height a) new_session]
      in a\<lparr> ap_tabs := tabs, ap_active := Some (length tabs - 1) \<rparr>)"

definition new_application :: "fp \<Rightarrow> fp \<Rightarrow> application" where
  "new_application w h =
     new_tab \<lparr> ap_tabs = [], ap_active = None, ap_width = w, ap_height = h, ap_pressed = False \<rparr>"

text \<open>\<open>close_tab\<close> reads the active index without a test.\<close>

definition close_tab :: "nat \<Rightarrow> application \<Rightarrow> (bool \<times> application) run" where
  "close_tab i a =
     (if length (ap_tabs a) \<le> i then Returns (False, a)
      else
        let tabs = take i (ap_tabs a) @ drop (Suc i) (ap_tabs a); a = a\<lparr> ap_tabs := tabs \<rparr> in
        if tabs = [] then Returns (True, a\<lparr> ap_active := None \<rparr>)
        else
          case ap_active a of
            None \<Rightarrow> Undefined
          | Some k \<Rightarrow> Returns (True, if length tabs \<le> k then a\<lparr> ap_active := Some (length tabs - 1) \<rparr> else a))"

definition switch_to_tab :: "nat \<Rightarrow> application \<Rightarrow> bool \<times> application" where
  "switch_to_tab i a = (if length (ap_tabs a) \<le> i then (False, a) else (True, a\<lparr> ap_active := Some i \<rparr>))"

definition active_session :: "application \<Rightarrow> session option" where
  "active_session a = map_option (\<lambda>i. ap_tabs a ! i) (ap_active a)"

definition put_active :: "session \<Rightarrow> application \<Rightarrow> application" where
  "put_active s a = (case ap_active a of None \<Rightarrow> a | Some i \<Rightarrow> a\<lparr> ap_tabs := (ap_tabs a)[i := s] \<rparr>)"


section \<open>Operations on the active tab\<close>

type_synonym 'w app_outcome = "nav_result \<times> application \<times> 'w load_world"

text \<open>What \<open>navigate\<close>, \<open>reload\<close>, \<open>back\<close> and \<open>forward\<close> share.\<close>

definition on_active ::
  "(session \<Rightarrow> 'w load_world \<Rightarrow> 'w session_outcome run) \<Rightarrow> application \<Rightarrow> 'w load_world \<Rightarrow> 'w app_outcome run" where
  "on_active act a st =
     (case active_session a of
        None \<Rightarrow> Returns (nav_failure InvalidUrl ''No active tab'', a, st)
      | Some s \<Rightarrow> bind_run (act s st) (\<lambda>(r, s, st). Returns (r, put_active s a, st)))"

definition app_nav :: "decoders \<Rightarrow> 'w loader \<Rightarrow> nav_op \<Rightarrow> application \<Rightarrow> 'w load_world \<Rightarrow> 'w app_outcome run" where
  "app_nav dec l op = on_active (session_nav dec l op)"

definition pointer_move :: "fp \<Rightarrow> fp \<Rightarrow> application \<Rightarrow> (bool \<times> application) run" where
  "pointer_move x y a =
     (case active_session a of None \<Rightarrow> Returns (False, a)
      | Some s \<Rightarrow> bind_run (hover_at x y s) (\<lambda>(b, s). Returns (b, put_active s a)))"

definition press_session :: "decoders \<Rightarrow> 'w loader \<Rightarrow> fp \<Rightarrow> fp \<Rightarrow> session \<Rightarrow> 'w load_world \<Rightarrow> 'w session_outcome run" where
  "press_session dec l x y s st =
     bind_run (activate_control_at x y s) (\<lambda>(b, s). if b then Returns (nav_ok, s, st) else activate_at dec l x y s st)"

definition pointer_press ::
  "decoders \<Rightarrow> 'w loader \<Rightarrow> fp \<Rightarrow> fp \<Rightarrow> pointer_button \<Rightarrow> application \<Rightarrow> 'w load_world \<Rightarrow> 'w app_outcome run" where
  "pointer_press dec l x y b a st =
     (if b \<noteq> Primary then Returns (nav_ok, a, st)
      else on_active (press_session dec l x y) (a\<lparr> ap_pressed := True \<rparr>) st)"

definition pointer_release :: "pointer_button \<Rightarrow> application \<Rightarrow> bool \<times> application" where
  "pointer_release b a = (if b \<noteq> Primary then (False, a) else (ap_pressed a, a\<lparr> ap_pressed := False \<rparr>))"

text \<open>\<open>text_input\<close> and \<open>backspace\<close>: only when some control is marked as focused.\<close>

definition edit_active :: "(form_runtime \<Rightarrow> bool \<times> form_runtime) \<Rightarrow> application \<Rightarrow> bool \<times> application" where
  "edit_active edit a =
     (case active_session a of None \<Rightarrow> (False, a)
      | Some s \<Rightarrow>
          case se_forms s of None \<Rightarrow> (False, a)
          | Some fr \<Rightarrow>
              if list_ex ctl_focused (fr_controls fr)
              then (case edit fr of (b, fr') \<Rightarrow> (b, put_active (s\<lparr> se_forms := Some fr' \<rparr>) a))
              else (False, a))"

definition text_input :: "string \<Rightarrow> application \<Rightarrow> bool \<times> application" where
  "text_input str a = edit_active (insert_text str) a"

definition app_backspace :: "application \<Rightarrow> bool \<times> application" where
  "app_backspace a = edit_active backspace a"

definition resize :: "fp \<Rightarrow> fp \<Rightarrow> application \<Rightarrow> application" where
  "resize w h a = a\<lparr> ap_width := w, ap_height := h, ap_tabs := map (session_set_viewport w h) (ap_tabs a) \<rparr>"

definition app_scroll :: "fp \<Rightarrow> fp \<Rightarrow> application \<Rightarrow> application" where
  "app_scroll dx dy a = (case active_session a of None \<Rightarrow> a | Some s \<Rightarrow> put_active (session_scroll_by dx dy s) a)"


section \<open>The chrome\<close>

datatype page_state = Idle | Loading | Ready | Error

record chrome =
  ch_address :: string
  ch_status :: string
  ch_state :: page_state

definition new_chrome :: chrome where
  "new_chrome = \<lparr> ch_address = [], ch_status = ''Ready'', ch_state = Idle \<rparr>"

definition set_address :: "string \<Rightarrow> chrome \<Rightarrow> bool \<times> chrome" where
  "set_address address c = (if address = [] then (False, c) else (True, c\<lparr> ch_address := address \<rparr>))"

definition chrome_can_go_back :: "application \<Rightarrow> bool" where
  "chrome_can_go_back a = (case active_session a of None \<Rightarrow> False | Some s \<Rightarrow> can_go_back s)"

definition chrome_can_go_forward :: "application \<Rightarrow> bool" where
  "chrome_can_go_forward a = (case active_session a of None \<Rightarrow> False | Some s \<Rightarrow> can_go_forward s)"

definition close_active_tab :: "application \<Rightarrow> (bool \<times> application) run" where
  "close_active_tab a = (case ap_active a of None \<Rightarrow> Returns (False, a) | Some i \<Rightarrow> close_tab i a)"

definition sync_status :: "nav_result \<Rightarrow> chrome \<Rightarrow> chrome" where
  "sync_status r c =
     (if nr_error r = NoError then c\<lparr> ch_state := Ready, ch_status := ''Ready'' \<rparr>
      else c\<lparr> ch_state := Error, ch_status := (if nr_message r = [] then ''Navigation failed'' else nr_message r) \<rparr>)"

type_synonym 'w chrome_outcome = "nav_result \<times> chrome \<times> application \<times> 'w load_world"

definition chrome_run :: "decoders \<Rightarrow> 'w loader \<Rightarrow> nav_op \<Rightarrow> chrome \<Rightarrow> application \<Rightarrow> 'w load_world \<Rightarrow> 'w chrome_outcome run" where
  "chrome_run dec l op c a st =
     (let c = c\<lparr> ch_state := Loading \<rparr> in
      bind_run (app_nav dec l op a st) (\<lambda>(r, a, st). Returns (r, sync_status r c, a, st)))"

text \<open>The request of the address bar.\<close>

definition address_request :: "chrome \<Rightarrow> application \<Rightarrow> nav_request run" where
  "address_request c a =
     bind_run (of_res (parse_url (ch_address c))) (\<lambda>u.
       let w = (case active_session a of None \<Rightarrow> Num 1024
              | Some s \<Rightarrow> if fless (Num 0) (vp_width (se_viewport s)) then vp_width (se_viewport s) else Num 1024)
       in Returns \<lparr> rq_document = u, rq_stylesheet = None, rq_width = w \<rparr>)"

definition chrome_navigate :: "decoders \<Rightarrow> 'w loader \<Rightarrow> chrome \<Rightarrow> application \<Rightarrow> 'w load_world \<Rightarrow> 'w chrome_outcome run" where
  "chrome_navigate dec l c a st = bind_run (address_request c a) (\<lambda>rq. chrome_run dec l (Go rq) c a st)"

definition chrome_reload :: "decoders \<Rightarrow> 'w loader \<Rightarrow> chrome \<Rightarrow> application \<Rightarrow> 'w load_world \<Rightarrow> 'w chrome_outcome run" where
  "chrome_reload dec l = chrome_run dec l Reload"

definition chrome_back :: "decoders \<Rightarrow> 'w loader \<Rightarrow> chrome \<Rightarrow> application \<Rightarrow> 'w load_world \<Rightarrow> 'w chrome_outcome run" where
  "chrome_back dec l = chrome_run dec l Back"

definition chrome_forward :: "decoders \<Rightarrow> 'w loader \<Rightarrow> chrome \<Rightarrow> application \<Rightarrow> 'w load_world \<Rightarrow> 'w chrome_outcome run" where
  "chrome_forward dec l = chrome_run dec l Forward"


section \<open>Tabs stay in order\<close>

definition app_ok :: "application \<Rightarrow> bool" where
  "app_ok a \<longleftrightarrow>
     list_all session_ok (ap_tabs a) \<and>
     (case ap_active a of None \<Rightarrow> ap_tabs a = [] | Some i \<Rightarrow> i < length (ap_tabs a))"

lemma active_session_ok: "app_ok a \<Longrightarrow> active_session a = Some s \<Longrightarrow> session_ok s"
  by (auto simp: app_ok_def active_session_def list_all_length)

lemma put_active_ok: "app_ok a \<Longrightarrow> session_ok s \<Longrightarrow> app_ok (put_active s a)"
  by (auto simp: app_ok_def put_active_def list_all_length nth_list_update split: option.splits)

text \<open>An operation of the application that hands over to the active session, which keeps it in order.\<close>

locale handed_over =
  fixes act :: "session \<Rightarrow> 'w load_world \<Rightarrow> 'w session_outcome run"
  assumes keeps: "session_ok s \<Longrightarrow> ok_outcome (act s st)"
begin

lemma on_active_ok: "app_ok a \<Longrightarrow> returns_only (\<lambda>(r, a', st'). app_ok a') (on_active act a st)"
proof (cases "active_session a")
  case (Some s)
  assume "app_ok a"
  then show ?thesis unfolding on_active_def Some option.case
    by (intro returns_only_bind [OF keeps [OF active_session_ok [OF _ Some]]]) (auto simp: put_active_ok)
qed (simp add: on_active_def)

text \<open>It changes no other tab.\<close>

lemma on_active_others:
  "returns_only (\<lambda>(r, a', st'). ap_active a' = ap_active a \<and> length (ap_tabs a') = length (ap_tabs a) \<and>
      (\<forall>i. Some i \<noteq> ap_active a \<longrightarrow> ap_tabs a' ! i = ap_tabs a ! i)) (on_active act a st)"
  by (cases "active_session a"; cases "ap_active a")
    (auto simp: on_active_def put_active_def active_session_def intro!: returns_only_bind [where P = "\<lambda>_. True"]
      simp: returns_only_iff [of "\<lambda>_. True"])

end

interpretation navigating: handed_over "session_nav dec l op"
  by unfold_locales (rule session_nav_ok)

interpretation pressing: handed_over "press_session dec l x y"
proof
  show "ok_outcome (press_session dec l x y s st)" if "session_ok s" for s and st :: "'a load_world"
    unfolding press_session_def
    by (rule returns_only_bind [OF activate_control_ok [OF that]]) (auto simp: activate_at_ok)
qed



section \<open>Every run of the application\<close>

text \<open>The events of the window and the buttons of the chrome, on the application and the world.\<close>

datatype app_event = NewTab | CloseTab nat | SwitchTab nat | Navigation_Event nav_op | PointerMove fp fp
  | PointerPress fp fp pointer_button | PointerRelease pointer_button | TypeText string | EraseText | Resize fp fp | Scroll fp fp

definition app_do :: "decoders \<Rightarrow> 'w loader \<Rightarrow> app_event \<Rightarrow> application \<times> 'w load_world \<Rightarrow> (application \<times> 'w load_world) run" where
  "app_do dec l e aw =
     (let a = fst aw; st = snd aw in
      case e of
        NewTab \<Rightarrow> Returns (new_tab a, st)
      | CloseTab i \<Rightarrow> bind_run (close_tab i a) (\<lambda>r. Returns (snd r, st))
      | SwitchTab i \<Rightarrow> Returns (snd (switch_to_tab i a), st)
      | Navigation_Event op \<Rightarrow> bind_run (app_nav dec l op a st) (\<lambda>r. Returns (snd r))
      | PointerMove x y \<Rightarrow> bind_run (pointer_move x y a) (\<lambda>r. Returns (snd r, st))
      | PointerPress x y b \<Rightarrow> bind_run (pointer_press dec l x y b a st) (\<lambda>r. Returns (snd r))
      | PointerRelease b \<Rightarrow> Returns (snd (pointer_release b a), st)
      | TypeText str \<Rightarrow> Returns (snd (text_input str a), st)
      | EraseText \<Rightarrow> Returns (snd (app_backspace a), st)
      | Resize w h \<Rightarrow> Returns (resize w h a, st)
      | Scroll dx dy \<Rightarrow> Returns (app_scroll dx dy a, st))"

inductive app_reaches :: "decoders \<Rightarrow> 'w loader \<Rightarrow> application \<times> 'w load_world \<Rightarrow> bool" for dec l where
  start: "app_reaches dec l (new_application w h, st)"
| event: "app_reaches dec l aw \<Longrightarrow> app_do dec l e aw = Returns aw' \<Longrightarrow> app_reaches dec l aw'"

inductive_cases app_reachesE: "app_reaches dec l aw"

lemma session_set_viewport_ok: "session_ok s \<Longrightarrow> session_ok (session_set_viewport w h s)"
  by (auto simp: session_set_viewport_def Let_def viewport_session_ok viewport_operations_ok split: option.split)

lemma new_tab_ok: "list_all session_ok (ap_tabs a) \<Longrightarrow> app_ok (new_tab a)"
  by (simp add: app_ok_def new_tab_def Let_def session_set_viewport_ok new_session_ok)

lemma new_application_ok: "app_ok (new_application w h)"
  by (simp add: new_application_def new_tab_ok)

lemma tab_closed_ok:
  assumes "app_ok a"
  shows "\<exists>b a'. close_tab i a = Returns (b, a') \<and> app_ok a'"
proof -
  have "list_all session_ok (take i (ap_tabs a) @ drop (Suc i) (ap_tabs a))"
    using assms by (auto simp: app_ok_def list_all_iff dest: in_set_takeD in_set_dropD)
  then show ?thesis using assms
    by (auto simp: close_tab_def Let_def app_ok_def split: option.split)
qed

lemma unfocused_session: "session_ok s \<Longrightarrow> se_forms s = Some fr \<Longrightarrow> \<not> list_ex ctl_focused (fr_controls fr)"
  by (auto simp: session_ok_def controls_of_page_def list_all_iff list_ex_iff split: option.splits)

lemma edit_active_nothing: "app_ok a \<Longrightarrow> edit_active edit a = (False, a)"
  using active_session_ok unfocused_session by (auto simp: edit_active_def split: option.split)

lemma app_ok_pressed [simp]: "app_ok (a\<lparr> ap_pressed := b \<rparr>) = app_ok a"
  by (simp add: app_ok_def split: option.split)

lemma pointer_move_ok: "app_ok a \<Longrightarrow> returns_only (\<lambda>r. app_ok (snd r)) (pointer_move x y a)"
proof (cases "active_session a")
  case (Some s)
  assume a: "app_ok a"
  have "session_ok s" using active_session_ok [OF a Some] .
  then show ?thesis unfolding pointer_move_def Some option.case
    by (intro returns_only_bind [OF hover_at_ok]) (auto simp: put_active_ok [OF a])
qed (simp add: pointer_move_def)

lemma resize_ok: "app_ok a \<Longrightarrow> app_ok (resize w h a)"
  by (auto simp: app_ok_def resize_def list_all_iff session_set_viewport_ok split: option.splits)

lemma app_do_ok:
  assumes "app_ok (fst aw)"
  shows "returns_only (\<lambda>aw'. app_ok (fst aw')) (app_do dec l e aw)"
proof -
  obtain a st where aw: "aw = (a, st)" by (cases aw)
  then have a: "app_ok a" using assms by simp
  have nav: "returns_only (\<lambda>aw'. app_ok (fst aw')) (bind_run m (\<lambda>r. Returns (snd r)))"
    if "returns_only (\<lambda>(r, a', st'). app_ok a') m" for m :: "'a app_outcome run"
    by (rule returns_only_bind [OF that]) auto
  have "returns_only (\<lambda>aw'. app_ok (fst aw')) (bind_run (close_tab i a) (\<lambda>r. Returns (snd r, st)))" for i
    using tab_closed_ok [OF a, of i] by auto
  moreover have "returns_only (\<lambda>aw'. app_ok (fst aw')) (bind_run (pointer_move x y a) (\<lambda>r. Returns (snd r, st)))" for x y
    by (rule returns_only_bind [OF pointer_move_ok [OF a]]) simp
  moreover have "returns_only (\<lambda>aw'. app_ok (fst aw')) (bind_run (app_nav dec l op a st) (\<lambda>r. Returns (snd r)))" for op
    unfolding app_nav_def by (rule nav [OF navigating.on_active_ok [OF a]])
  moreover have "returns_only (\<lambda>aw'. app_ok (fst aw')) (bind_run (pointer_press dec l x y b a st) (\<lambda>r. Returns (snd r)))" for x y b
    using a nav [OF pressing.on_active_ok, of "a\<lparr> ap_pressed := True \<rparr>" dec l x y st] by (simp add: pointer_press_def)
  moreover have "app_ok (new_tab a)" using a by (intro new_tab_ok) (simp add: app_ok_def)
  moreover have "app_ok (snd (switch_to_tab i a))" for i using a by (auto simp: switch_to_tab_def app_ok_def split: option.splits)
  moreover have "app_ok (app_scroll dx dy a)" for dx dy
    using a active_session_ok [OF a] put_active_ok [OF a]
    by (auto simp: app_scroll_def session_scroll_by_def viewport_session_ok viewport_operations_ok split: option.split)
  ultimately show ?thesis
    using a edit_active_nothing [OF a] resize_ok [OF a]
    by (simp add: app_do_def aw pointer_release_def text_input_def app_backspace_def split: app_event.split)
qed

lemma reachable_app_ok: "app_reaches dec l aw \<Longrightarrow> app_ok (fst aw)"
proof (induction rule: app_reaches.induct)
  case (event aw e aw')
  then show ?case using app_do_ok [of aw dec l e] by simp
qed (simp add: new_application_ok)

text \<open>C32: in every state the events of a window and the buttons of the chrome can lead to, whatever loader
  and world are behind them, the active tab is one of the tabs (there is none exactly when all
  have been closed), closing a tab never reads a missing index, and typing or erasing text changes
  nothing and reports so, because no control can get the focus.\<close>

theorem reachable_application:
  assumes "app_reaches dec l (a, st)"
  shows "(case ap_active a of None \<Rightarrow> ap_tabs a = [] | Some i \<Rightarrow> i < length (ap_tabs a)) \<and>
    close_tab i a \<noteq> Undefined \<and> text_input str a = (False, a) \<and> app_backspace a = (False, a)"
proof -
  have a: "app_ok a" using reachable_app_ok [OF assms] by simp
  then have "close_tab i a \<noteq> Undefined" using tab_closed_ok [OF a, of i] by auto
  then show ?thesis using a edit_active_nothing [OF a] by (simp add: app_ok_def text_input_def app_backspace_def)
qed

theorem reachable_application_witness:
  "\<forall>dec l. \<exists>a. app_do dec l NewTab (new_application (Num 800) (Num 600), (Map.empty, ())) = Returns (a, (Map.empty, ())) \<and>
    length (ap_tabs a) = 2 \<and> ap_active a = Some 1 \<and> text_input ''x'' a = (False, a)"
proof (intro allI)
  fix dec :: decoders and l :: "unit loader"
  let ?a = "new_tab (new_application (Num 800) (Num 600))"
  have "app_do dec l NewTab (new_application (Num 800) (Num 600), (Map.empty, ())) = Returns (?a, (Map.empty, ()))"
    by (simp add: app_do_def)
  moreover from this have "app_reaches dec l (?a, (Map.empty, ()))" by (rule app_reaches.event [OF app_reaches.start])
  ultimately show "\<exists>a. app_do dec l NewTab (new_application (Num 800) (Num 600), (Map.empty, ())) = Returns (a, (Map.empty, ())) \<and>
    length (ap_tabs a) = 2 \<and> ap_active a = Some 1 \<and> text_input ''x'' a = (False, a)"
    using reachable_application [of dec l ?a "(Map.empty, ())" 0 "''x''"]
    by (simp add: new_application_def new_tab_def)
qed

text \<open>which tab is active after one has been closed.  The index stays where it is unless it is past
  the end: closing the active tab shows the next one, or the last; closing a tab after it changes
  nothing; but closing a tab before the active one moves the user to the tab after it.\<close>

theorem close_tab_shows:
  assumes "ap_active a = Some k" and "k < length (ap_tabs a)" and "i < length (ap_tabs a)" and "1 < length (ap_tabs a)"
  shows "\<exists>a'. close_tab i a = Returns (True, a') \<and>
    active_session a' = Some (ap_tabs a !
      (if k < i then k else if Suc k < length (ap_tabs a) then Suc k else if i < k then k else k - 1))"
proof -
  let ?tabs = "take i (ap_tabs a) @ drop (Suc i) (ap_tabs a)"
  have len: "length ?tabs = length (ap_tabs a) - 1" using assms(3) by simp
  have ne: "?tabs \<noteq> []" using len assms(4) by (metis list.size(3) less_numeral_extra(3) zero_less_diff)
  have nth: "?tabs ! j = ap_tabs a ! (if j < i then j else Suc j)" if "j < length ?tabs" for j
    using that assms(3) by (auto simp: nth_append min_def)
  have show_tab: "active_session (a\<lparr> ap_tabs := ts, ap_active := Some j \<rparr>) = Some (ts ! j)" for ts j
    by (simp add: active_session_def)
  define k' where "k' = (if length ?tabs \<le> k then length ?tabs - 1 else k)"
  have c: "close_tab i a = Returns (True, a\<lparr> ap_tabs := ?tabs, ap_active := Some k' \<rparr>)"
    using assms ne by (auto simp: close_tab_def Let_def k'_def)
  have k': "k' < length ?tabs" using len assms(2,4) by (auto simp: k'_def)
  have "(if k' < i then k' else Suc k') =
    (if k < i then k else if Suc k < length (ap_tabs a) then Suc k else if i < k then k else k - 1)"
    unfolding k'_def len using assms(2-4) by (cases "Suc k < length (ap_tabs a)") auto
  then have "?tabs ! k' = ap_tabs a !
    (if k < i then k else if Suc k < length (ap_tabs a) then Suc k else if i < k then k else k - 1)"
    using nth [OF k'] by presburger
  then have "active_session (a\<lparr> ap_tabs := ?tabs, ap_active := Some k' \<rparr>) = Some (ap_tabs a !
    (if k < i then k else if Suc k < length (ap_tabs a) then Suc k else if i < k then k else k - 1))"
    unfolding show_tab by (rule arg_cong)
  with c show ?thesis by blast
qed

text \<open>Three tabs, the second one active: closing the first shows the third.\<close>

theorem close_tab_shows_witness:
  "\<exists>a'. close_tab 0 (snd (switch_to_tab 1 (new_tab (new_tab (new_application (Num 800) (Num 600)))))) = Returns (True, a') \<and>
    active_session a' = Some (ap_tabs (new_tab (new_tab (new_application (Num 800) (Num 600)))) ! 2)"
  using close_tab_shows [of "snd (switch_to_tab 1 (new_tab (new_tab (new_application (Num 800) (Num 600)))))" 1 0]
  by (simp add: switch_to_tab_def new_tab_def new_application_def Let_def)

section \<open>The chrome after a navigation\<close>

text \<open>After each button of the chrome the page state is \<open>Ready\<close> or \<open>Error\<close>, never \<open>Loading\<close>, and it,
  the status line and the result agree; the address field, the number of tabs and which of them is
  the active one are left alone.\<close>

theorem chrome_run_agrees:
  "returns_only
    (\<lambda>(r, c', a', st').
      ch_address c' = ch_address c \<and> ap_active a' = ap_active a \<and> length (ap_tabs a') = length (ap_tabs a) \<and>
      (case nr_error r of
         NoError \<Rightarrow> ch_state c' = Ready \<and> ch_status c' = ''Ready''
       | _ \<Rightarrow> ch_state c' = Error \<and> ch_status c' \<noteq> []))
    (chrome_run dec l op c a st)"
  unfolding chrome_run_def app_nav_def Let_def
  by (rule returns_only_bind [OF navigating.on_active_others]) (auto simp: sync_status_def split: nav_error.split)

end
