(* ===== verification/Js_Lexer.thy ===== *)
theory Js_Lexer
  imports Floating
begin

text \<open>
  The lexer of the script engine (\<open>Lexer\<close> in \<open>js/js.hpp\<close> and \<open>js/js.cpp\<close>).  The position
  \<open>i\<close> is kept as the text from it on.  The properties: a sequence of tokens written out with
  blanks between them is read back exactly, whatever the strings contain.
\<close>

section \<open>Tokens\<close>

datatype js_token_type = EndOfInput | NumberToken | StringToken | IdentifierToken | KeywordToken | PunctuatorToken | RegexToken

record js_token =
  tk_type :: js_token_type
  tk_text :: string
  tk_flags :: string
  tk_number :: fp

definition new_token :: "js_token_type \<Rightarrow> string \<Rightarrow> js_token" where
  "new_token ty s = \<lparr> tk_type = ty, tk_text = s, tk_flags = [], tk_number = Num 0 \<rparr>"

definition is_identifier_start :: "char \<Rightarrow> bool" where
  "is_identifier_start c \<longleftrightarrow> isalpha c \<or> c = CHR ''_'' \<or> c = CHR ''$''"

definition is_identifier_part :: "char \<Rightarrow> bool" where
  "is_identifier_part c \<longleftrightarrow> isalnum c \<or> c = CHR ''_'' \<or> c = CHR ''$''"

definition js_keywords :: "string list" where
  "js_keywords =
     [''var'', ''let'', ''const'', ''function'', ''return'', ''if'', ''else'', ''while'', ''for'',
      ''break'', ''continue'', ''true'', ''false'', ''null'', ''undefined'', ''new'', ''typeof'', ''else'',
      ''instanceof'', ''class'', ''switch'', ''case'', ''default'', ''of'', ''async'', ''await'']"

definition is_keyword :: "string \<Rightarrow> bool" where
  "is_keyword s \<longleftrightarrow> s \<in> set js_keywords"

definition punctuators :: "string list" where
  "punctuators =
     [''==='', ''!=='', ''=='', ''!='', ''<='', ''>='', ''&&'', ''||'', ''++'', ''--'', ''+='', ''-='', ''*='', ''/='', ''%='',
      ''='', ''+'', ''-'', ''*'', ''/'', ''%'', ''<'', ''>'', ''!'', ''('', '')'', ''{'', ''}'', ''['', '']'', '','', '';'', '':'', ''.'', ''?'']"

section \<open>The pieces of the loop body\<close>

text \<open>Behind \<open>/*\<close>: up to the closing mark, or the end.\<close>

fun skip_block :: "string \<Rightarrow> string" where
  "skip_block (a # b # r) = (if a = CHR ''*'' \<and> b = CHR ''/'' then r else skip_block (b # r))"
| "skip_block s = []"

text \<open>A slash starts a regular expression unless the previous token can end an expression.\<close>

definition value_expected :: "js_token option \<Rightarrow> bool" where
  "value_expected previous =
     (case previous of
        None \<Rightarrow> True
      | Some t \<Rightarrow> \<not> (tk_type t \<in> {IdentifierToken, NumberToken, StringToken, RegexToken} \<or>
                   tk_type t = PunctuatorToken \<and> tk_text t \<in> {'')'', '']'', ''}''}))"

text \<open>The body of a regular expression and what follows its closing slash; \<^term>\<open>None\<close> when the
  input ends first.\<close>

fun regex_body :: "bool \<Rightarrow> string \<Rightarrow> (string \<times> string) option" where
  "regex_body in_class [] = None"
| "regex_body in_class (c # r) =
     (if c = CHR 0x5C then
        (case r of [] \<Rightarrow> None | d # r' \<Rightarrow> map_option (\<lambda>(b, t). (c # d # b, t)) (regex_body in_class r'))
      else if c = CHR ''['' then map_option (\<lambda>(b, t). (c # b, t)) (regex_body True r)
      else if c = CHR '']'' then map_option (\<lambda>(b, t). (c # b, t)) (regex_body False r)
      else if c = CHR ''/'' \<and> \<not> in_class then Some ([], r)
      else map_option (\<lambda>(b, t). (c # b, t)) (regex_body in_class r))"

definition regex_literal :: "js_token option \<Rightarrow> string \<Rightarrow> (js_token \<times> string) option" where
  "regex_literal previous r =
     (if value_expected previous then
        map_option (\<lambda>(body, rest).
            ((new_token RegexToken body)\<lparr> tk_flags := takeWhile isalpha rest \<rparr>, dropWhile isalpha rest))
          (regex_body False r)
      else None)"

text \<open>The characters of a number; a sign belongs to it only behind an \<open>e\<close>.\<close>

definition number_char :: "char option \<Rightarrow> char \<Rightarrow> bool" where
  "number_char previous c \<longleftrightarrow>
     isdigit c \<or> c = CHR ''.'' \<or> c = CHR ''e'' \<or> c = CHR ''E'' \<or>
     (c = CHR ''+'' \<or> c = CHR ''-'') \<and> (previous = Some (CHR ''e'') \<or> previous = Some (CHR ''E''))"

fun number_span :: "char option \<Rightarrow> string \<Rightarrow> string \<times> string" where
  "number_span previous [] = ([], [])"
| "number_span previous (c # r) =
     (if number_char previous c then let (a, b) = number_span (Some c) r in (c # a, b) else ([], c # r))"

definition number_start :: "string \<Rightarrow> bool" where
  "number_start s = (case s of [] \<Rightarrow> False | c # r \<Rightarrow> isdigit c \<or> c = CHR ''.'' \<and> r \<noteq> [] \<and> isdigit (hd r))"

definition number_token :: "string \<Rightarrow> js_token" where
  "number_token s = (new_token NumberToken s)\<lparr> tk_number := strto_value double s \<rparr>"

definition unescape :: "char \<Rightarrow> char" where
  "unescape c = (if c = CHR ''n'' then CHR 0x0A else if c = CHR ''t'' then CHR 0x09 else if c = CHR ''r'' then CHR 0x0D else c)"

text \<open>The value of a string literal and what follows its closing quote.\<close>

fun string_body :: "char \<Rightarrow> string \<Rightarrow> string \<times> string" where
  "string_body quote [] = ([], [])"
| "string_body quote (c # r) =
     (if c = quote then ([], r)
      else
        case r of
          d # r' \<Rightarrow>
            if c = CHR 0x5C then let (a, b) = string_body quote r' in (unescape d # a, b)
            else let (a, b) = string_body quote r in (c # a, b)
        | [] \<Rightarrow> ([c], []))"

declare string_body.simps(2) [simp del]

definition word_token :: "string \<Rightarrow> js_token" where
  "word_token s = new_token (if is_keyword s then KeywordToken else IdentifierToken) s"

text \<open>The last resort: a punctuator, or an unknown character that is skipped.\<close>

definition punctuator_step :: "string \<Rightarrow> js_token option \<times> string" where
  "punctuator_step s =
     (case find (\<lambda>p. is_prefix p s) punctuators of
        Some p \<Rightarrow> (Some (new_token PunctuatorToken p), drop (length p) s)
      | None \<Rightarrow> (None, drop 1 s))"

definition plain_step :: "string \<Rightarrow> js_token option \<times> string" where
  "plain_step s =
     (let c = hd s in
      if number_start s then let (a, b) = number_span None s in (Some (number_token a), b)
      else if c = CHR 0x22 \<or> c = CHR 0x27 then
        let (a, b) = string_body c (tl s) in (Some (new_token StringToken a), b)
      else if is_identifier_start c then
        (Some (word_token (takeWhile is_identifier_part s)), dropWhile is_identifier_part s)
      else punctuator_step s)"

text \<open>One round: the token it appends, if any, and the text left.\<close>

definition lex_step :: "js_token option \<Rightarrow> string \<Rightarrow> js_token option \<times> string" where
  "lex_step previous s =
     (let c = hd s in
      if isspace c then (None, tl s)
      else if c = CHR ''/'' \<and> is_prefix ''//'' s then (None, dropWhile (\<lambda>c. c \<noteq> CHR 0x0A) s)
      else if c = CHR ''/'' \<and> is_prefix ''/*'' s then (None, skip_block (drop 2 s))
      else
        case (if c = CHR ''/'' then regex_literal previous (tl s) else None) of
          Some (t, r) \<Rightarrow> (Some t, r)
        | None \<Rightarrow> plain_step s)"

section \<open>Every round consumes\<close>

lemma skip_block_length: "length (skip_block s) \<le> length s"
  by (induction s rule: skip_block.induct) auto

lemma regex_body_length: "regex_body b s = Some (a, r) \<Longrightarrow> length r < length s"
  by (induction b s arbitrary: a r rule: regex_body.induct)
    (auto split: if_splits list.splits, fastforce+)

lemma number_span_append: "number_span p s = (a, b) \<Longrightarrow> s = a @ b"
  by (induction p s arbitrary: a b rule: number_span.induct) (auto split: if_splits prod.splits)

lemma string_body_length: "length (snd (string_body q s)) \<le> length s"
proof (induction q s rule: string_body.induct)
  case (2 q c r)
  show ?case
  proof (cases r)
    case Nil
    then show ?thesis by (simp add: string_body.simps(2))
  next
    case (Cons d r')
    then show ?thesis using 2 by (subst string_body.simps(2)) (auto split: prod.splits)
  qed
qed (simp add: string_body.simps)

lemma punctuators_nonempty: "p \<in> set punctuators \<Longrightarrow> p \<noteq> []"
  by (auto simp: punctuators_def)

lemma punctuator_step_length: "s \<noteq> [] \<Longrightarrow> length (snd (punctuator_step s)) < length s"
proof -
  assume s: "s \<noteq> []"
  show ?thesis
  proof (cases "find (\<lambda>p. is_prefix p s) punctuators")
    case (Some p)
    then have "p \<in> set punctuators" by (auto simp: find_Some_iff in_set_conv_nth)
    then show ?thesis using Some s punctuators_nonempty [of p] by (simp add: punctuator_step_def)
  qed (use s in \<open>simp add: punctuator_step_def\<close>)
qed

lemma plain_step_length:
  assumes "s \<noteq> []"
  shows "length (snd (plain_step s)) < length s"
proof -
  obtain c r where s: "s = c # r" using assms by (cases s) auto
  have n: "length (snd (number_span None s)) < length s" if "number_start s"
  proof -
    obtain a b where ab: "number_span (Some c) r = (a, b)" by fastforce
    have "number_char None c" using that s by (auto simp: number_start_def number_char_def)
    then show ?thesis using number_span_append [OF ab] ab s by simp
  qed
  have i: "length (dropWhile is_identifier_part s) < length s" if "is_identifier_start c"
    using that s length_dropWhile_le [of is_identifier_part r]
    by (simp add: is_identifier_part_def is_identifier_start_def isalnum_def le_imp_less_Suc)
  have p: "plain_step s =
     (if number_start s then (Some (number_token (fst (number_span None s))), snd (number_span None s))
      else if c = CHR 0x22 \<or> c = CHR 0x27 then (Some (new_token StringToken (fst (string_body c r))), snd (string_body c r))
      else if is_identifier_start c then (Some (word_token (takeWhile is_identifier_part s)), dropWhile is_identifier_part s)
      else punctuator_step s)"
    by (simp add: plain_step_def s case_prod_beta del: number_span.simps)
  have "length (snd (string_body c r)) < length s" using string_body_length [of c r] s by simp
  then show ?thesis
    unfolding p using n i punctuator_step_length [OF assms] by (simp del: number_span.simps)
qed

lemma lex_step_length:
  assumes "s \<noteq> []"
  shows "length (snd (lex_step previous s)) < length s"
proof -
  obtain c r where s: "s = c # r" using assms by (cases s) auto
  have line: "length (dropWhile (\<lambda>c. c \<noteq> CHR 0x0A) s) < length s" if "c = CHR ''/''"
    using that s length_dropWhile_le [of "\<lambda>c. c \<noteq> CHR 0x0A" r] by (simp add: le_imp_less_Suc)
  have block: "length (skip_block (drop 2 s)) < length s"
    using skip_block_length [of "drop 2 s"] s by simp
  have regex: "length t < length s" if "regex_literal previous r = Some (k, t)" for k t
    using that s length_dropWhile_le [of isalpha]
    by (auto simp: regex_literal_def split: if_splits dest!: regex_body_length) (meson le_less_trans less_SucI)
  have h: "hd s = c" "tl s = r" using s by simp_all
  have tail: "length r < length s" using s by simp
  show ?thesis
  proof (cases "if c = CHR ''/'' then regex_literal previous r else None")
    case None
    then show ?thesis unfolding lex_step_def Let_def h
      using line block tail plain_step_length [OF assms] by simp
  next
    case (Some kt)
    obtain k t where kt: "kt = (k, t)" by (cases kt)
    then have "length t < length s" using Some regex [of k t] by (simp split: if_splits)
    then show ?thesis unfolding lex_step_def Let_def h Some kt
      using line block tail by simp
  qed
qed

section \<open>\<open>tokenize\<close>\<close>

definition push_token :: "js_token option \<Rightarrow> js_token list \<Rightarrow> js_token list" where
  "push_token t ts = (case t of None \<Rightarrow> ts | Some t \<Rightarrow> ts @ [t])"

definition back_of :: "js_token list \<Rightarrow> js_token option" where
  "back_of ts = (if ts = [] then None else Some (last ts))"

function lex_loop :: "js_token list \<Rightarrow> string \<Rightarrow> js_token list" where
  "lex_loop tokens s =
     (if s = [] then tokens
      else lex_loop (push_token (fst (lex_step (back_of tokens) s)) tokens) (snd (lex_step (back_of tokens) s)))"
  by pat_completeness auto
termination by (relation "measure (\<lambda>(tokens, s). length s)") (auto simp: lex_step_length)

declare lex_loop.simps [simp del]

definition js_tokenize :: "string \<Rightarrow> js_token list" where
  "js_tokenize s = lex_loop [] s @ [new_token EndOfInput []]"


section \<open>Reading back written tokens\<close>

definition quote_char :: "char \<Rightarrow> string" where
  "quote_char c =
     (if c = CHR 0x22 \<or> c = CHR 0x5C then [CHR 0x5C, c]
      else if c = CHR 0x0A then [CHR 0x5C, CHR ''n'']
      else if c = CHR 0x09 then [CHR 0x5C, CHR ''t'']
      else if c = CHR 0x0D then [CHR 0x5C, CHR ''r'']
      else [c])"

definition token_text :: "js_token \<Rightarrow> string" where
  "token_text t =
     (case tk_type t of
        StringToken \<Rightarrow> CHR 0x22 # concat (map quote_char (tk_text t)) @ [CHR 0x22]
      | RegexToken \<Rightarrow> CHR ''/'' # tk_text t @ CHR ''/'' # tk_flags t
      | _ \<Rightarrow> tk_text t)"

definition render_tokens :: "js_token list \<Rightarrow> string" where
  "render_tokens ts = concat (map (\<lambda>t. token_text t @ '' '') ts)"

text \<open>The tokens the lexer can produce at a place: a regular expression only where a value may
  start, a division only where none may.\<close>

definition token_ok :: "js_token option \<Rightarrow> js_token \<Rightarrow> bool" where
  "token_ok previous t =
     (let s = tk_text t in
      case tk_type t of
        EndOfInput \<Rightarrow> False
      | NumberToken \<Rightarrow> t = number_token s \<and> number_start s \<and> number_span None s = (s, [])
      | StringToken \<Rightarrow> t = new_token StringToken s
      | RegexToken \<Rightarrow> t = (new_token RegexToken s)\<lparr> tk_flags := tk_flags t \<rparr> \<and> value_expected previous \<and>
          s \<noteq> [] \<and> hd s \<noteq> CHR ''*'' \<and> regex_body False (s @ ''/'') = Some (s, []) \<and> list_all isalpha (tk_flags t)
      | PunctuatorToken \<Rightarrow> t = new_token PunctuatorToken s \<and> s \<in> set punctuators \<and>
          (hd s \<noteq> CHR ''/'' \<or> \<not> value_expected previous)
      | _ \<Rightarrow> t = word_token s \<and> s \<noteq> [] \<and> is_identifier_start (hd s) \<and> list_all is_identifier_part s)"

primrec tokens_ok :: "js_token option \<Rightarrow> js_token list \<Rightarrow> bool" where
  "tokens_ok previous [] = True"
| "tokens_ok previous (t # ts) = (token_ok previous t \<and> tokens_ok (Some t) ts)"

lemma number_span_blank:
  "number_span p s = (s, []) \<Longrightarrow> number_span p (s @ CHR '' '' # rest) = (s, CHR '' '' # rest)"
  by (induction p s rule: number_span.induct)
    (auto simp: number_char_def isdigit_def split: if_splits prod.splits)

lemma regex_body_append:
  "regex_body b s = Some (a, r) \<Longrightarrow> regex_body b (s @ x) = Some (a, r @ x)"
proof (induction b s arbitrary: a r rule: regex_body.induct)
  case (2 b c s)
  show ?case
  proof (cases "c = CHR 0x5C")
    case True
    then show ?thesis using 2 by (cases s) auto
  next
    case False
    then show ?thesis using 2 by (auto split: if_splits)
  qed
qed simp

lemma string_body_plain:
  "c \<noteq> q \<Longrightarrow> c \<noteq> CHR 0x5C \<Longrightarrow> t \<noteq> [] \<Longrightarrow> string_body q (c # t) = (c # fst (string_body q t), snd (string_body q t))"
  by (cases t) (simp_all add: string_body.simps(2) [of q c] split_beta Let_def)

lemma string_body_escape:
  "q \<noteq> CHR 0x5C \<Longrightarrow> string_body q (CHR 0x5C # d # t) = (unescape d # fst (string_body q t), snd (string_body q t))"
  by (simp add: string_body.simps(2) [of q "CHR 0x5C"] split_beta Let_def)

lemma quote_char_cases:
  "(\<exists>d. quote_char c = [CHR 0x5C, d] \<and> unescape d = c) \<or> quote_char c = [c] \<and> c \<noteq> CHR 0x22 \<and> c \<noteq> CHR 0x5C"
  by (auto simp: quote_char_def unescape_def)

lemma string_body_quote:
  "string_body (CHR 0x22) (concat (map quote_char s) @ CHR 0x22 # rest) = (s, rest)"
proof (induction s)
  case Nil
  then show ?case by (simp add: string_body.simps(2))
next
  case (Cons c s)
  show ?case
  proof (cases "quote_char c = [c] \<and> c \<noteq> CHR 0x22 \<and> c \<noteq> CHR 0x5C")
    case True
    then show ?thesis using Cons string_body_plain [of c "CHR 0x22"] by simp
  next
    case False
    then obtain d where "quote_char c = [CHR 0x5C, d]" "unescape d = c" using quote_char_cases [of c] by blast
    then show ?thesis using Cons string_body_escape [of "CHR 0x22" d] by simp
  qed
qed

lemma is_prefix_blank:
  "CHR '' '' \<notin> set q \<Longrightarrow> is_prefix q (p @ CHR '' '' # rest) = is_prefix q (p @ [CHR '' ''])"
proof (induction q arbitrary: p)
  case (Cons c q)
  then show ?case by (cases p) auto
qed simp

lemma punctuators_longest:
  "list_all (\<lambda>p. find (\<lambda>q. is_prefix q (p @ [CHR '' ''])) punctuators = Some p \<and> CHR '' '' \<notin> set p) punctuators"
  unfolding punctuators_def by simp

lemma punctuators_no_comment:
  "list_all (\<lambda>p. \<not> is_prefix ''//'' (p @ CHR '' '' # r) \<and> \<not> is_prefix ''/*'' (p @ CHR '' '' # r)) punctuators"
  unfolding punctuators_def by simp

lemma punctuators_no_quote: "list_all (\<lambda>p. hd p \<notin> {CHR 0x22, CHR 0x27}) punctuators"
  unfolding punctuators_def by simp

lemma punctuators_no_space: "list_all (\<lambda>p. \<not> isspace (hd p)) punctuators"
  unfolding punctuators_def by (simp add: isspace_def)

lemma punctuators_no_word: "list_all (\<lambda>p. \<not> is_identifier_start (hd p)) punctuators"
  unfolding punctuators_def by (simp add: is_identifier_start_def isalpha_def)

lemma punctuators_no_number: "list_all (\<lambda>p. \<not> number_start (p @ CHR '' '' # r)) punctuators"
  unfolding punctuators_def by (simp add: number_start_def isdigit_def)

lemma punctuator_found:
  assumes "p \<in> set punctuators"
  shows "find (\<lambda>q. is_prefix q (p @ CHR '' '' # rest)) punctuators = Some p"
proof -
  note f = punctuators_longest [unfolded list_all_iff, THEN bspec]
  have "find (\<lambda>q. is_prefix q (p @ CHR '' '' # rest)) punctuators = find (\<lambda>q. is_prefix q (p @ [CHR '' ''])) punctuators"
    by (rule find_cong [OF refl], rule is_prefix_blank, drule f, rule conjunct2)
  also have "\<dots> = Some p" using f [OF assms] by (rule conjunct1)
  finally show ?thesis .
qed

text \<open>What the first character of a word rules out.\<close>

lemma word_start_plain:
  "is_identifier_start c \<Longrightarrow> \<not> isspace c \<and> c \<noteq> CHR ''/'' \<and> c \<noteq> CHR 0x22 \<and> c \<noteq> CHR 0x27 \<and> \<not> isdigit c \<and> c \<noteq> CHR ''.''"
  by (auto simp: is_identifier_start_def isspace_def isalpha_def isdigit_def)

lemma number_start_plain:
  "number_start (c # s) \<Longrightarrow> \<not> isspace c \<and> c \<noteq> CHR ''/''"
  by (auto simp: number_start_def isspace_def isdigit_def)

lemma number_start_append: "number_start s \<Longrightarrow> number_start (s @ x)"
  by (cases s) (auto simp: number_start_def)

lemma parts_stop:
  "list_all is_identifier_part s \<Longrightarrow>
    takeWhile is_identifier_part (s @ CHR '' '' # rest) = s \<and>
    dropWhile is_identifier_part (s @ CHR '' '' # rest) = CHR '' '' # rest"
  by (induction s) (simp_all add: is_identifier_part_def isalnum_def isalpha_def isdigit_def)

lemma flags_stop:
  "list_all isalpha s \<Longrightarrow>
    takeWhile isalpha (s @ CHR '' '' # rest) = s \<and> dropWhile isalpha (s @ CHR '' '' # rest) = CHR '' '' # rest"
  by (induction s) (simp_all add: isalpha_def)

lemma lex_step_plain:
  "\<not> isspace (hd s) \<Longrightarrow> \<not> is_prefix ''//'' s \<Longrightarrow> \<not> is_prefix ''/*'' s \<Longrightarrow>
    hd s \<noteq> CHR ''/'' \<or> \<not> value_expected previous \<Longrightarrow> lex_step previous s = plain_step s"
  by (auto simp: lex_step_def Let_def regex_literal_def)

lemma lex_number:
  assumes "number_start s" and "number_span None s = (s, [])"
  shows "lex_step previous (s @ CHR '' '' # rest) = (Some (number_token s), CHR '' '' # rest)"
proof -
  obtain c r where s: "s = c # r" using assms(1) by (cases s) (auto simp: number_start_def)
  have "lex_step previous (s @ CHR '' '' # rest) = plain_step (s @ CHR '' '' # rest)"
    using number_start_plain [of c r] assms(1) by (intro lex_step_plain) (auto simp: s)
  also have "\<dots> = (Some (number_token s), CHR '' '' # rest)"
    unfolding plain_step_def Let_def number_span_blank [OF assms(2)] using number_start_append [OF assms(1)] by simp
  finally show ?thesis .
qed

lemma lex_string:
  "lex_step previous (CHR 0x22 # concat (map quote_char s) @ CHR 0x22 # rest) = (Some (new_token StringToken s), rest)"
  using string_body_quote [of s rest]
  by (subst lex_step_plain) (auto simp: plain_step_def number_start_def isspace_def isdigit_def)

lemma lex_word:
  assumes "s \<noteq> []" and "is_identifier_start (hd s)" and "list_all is_identifier_part s"
  shows "lex_step previous (s @ CHR '' '' # rest) = (Some (word_token s), CHR '' '' # rest)"
proof -
  obtain c r where s: "s = c # r" using assms(1) by (cases s) auto
  note c = word_start_plain [OF assms(2)]
  have "lex_step previous (s @ CHR '' '' # rest) = plain_step (s @ CHR '' '' # rest)"
    using c by (intro lex_step_plain) (auto simp: s)
  also have "\<dots> = (Some (word_token s), CHR '' '' # rest)"
    unfolding plain_step_def Let_def using parts_stop [OF assms(3), of rest] c assms(1,2)
    by (auto simp: number_start_def s)
  finally show ?thesis .
qed

lemma lex_punctuator:
  assumes "p \<in> set punctuators" and "hd p \<noteq> CHR ''/'' \<or> \<not> value_expected previous"
  shows "lex_step previous (p @ CHR '' '' # rest) = (Some (new_token PunctuatorToken p), CHR '' '' # rest)"
proof -
  have h: "hd (p @ CHR '' '' # rest) = hd p" using punctuators_nonempty [OF assms(1)] by simp
  have "lex_step previous (p @ CHR '' '' # rest) = plain_step (p @ CHR '' '' # rest)"
    using assms punctuators_no_comment [of rest] punctuators_no_space
    by (intro lex_step_plain) (auto simp: h list_all_iff)
  also have "\<dots> = (Some (new_token PunctuatorToken p), CHR '' '' # rest)"
    using assms(1) punctuators_no_number [of rest] punctuators_no_quote punctuators_no_word punctuator_found [OF assms(1), of rest]
    by (auto simp: plain_step_def h list_all_iff punctuator_step_def)
  finally show ?thesis .
qed

lemma lex_regex:
  assumes "value_expected previous" and "s \<noteq> []" and "hd s \<noteq> CHR ''*''"
    and "regex_body False (s @ ''/'') = Some (s, [])" and "list_all isalpha flags"
  shows "lex_step previous (CHR ''/'' # s @ CHR ''/'' # flags @ CHR '' '' # rest) =
    (Some ((new_token RegexToken s)\<lparr> tk_flags := flags \<rparr>), CHR '' '' # rest)"
proof -
  let ?r = "s @ CHR ''/'' # flags @ CHR '' '' # rest"
  have b: "regex_body False ?r = Some (s, flags @ CHR '' '' # rest)"
    using regex_body_append [OF assms(4), of "flags @ CHR '' '' # rest"] by simp
  obtain c t where s: "s = c # t" using assms(2) by (cases s) auto
  have c: "c \<noteq> CHR ''/''" using assms(4) by (auto simp: s)
  have "regex_literal previous ?r = Some ((new_token RegexToken s)\<lparr> tk_flags := flags \<rparr>, CHR '' '' # rest)"
    using assms(1) flags_stop [OF assms(5), of rest] by (simp add: regex_literal_def b)
  then show ?thesis using c assms(3) by (simp add: lex_step_def s isspace_def)
qed

lemma lex_step_token:
  assumes "token_ok previous t"
  shows "lex_step previous (token_text t @ CHR '' '' # rest) = (Some t, CHR '' '' # rest)"
proof (cases "tk_type t")
  case RegexToken
  then have t: "t = (new_token RegexToken (tk_text t))\<lparr> tk_flags := tk_flags t \<rparr>"
    using assms by (simp add: token_ok_def Let_def)
  have "lex_step previous (CHR ''/'' # tk_text t @ CHR ''/'' # tk_flags t @ CHR '' '' # rest) =
    (Some ((new_token RegexToken (tk_text t))\<lparr> tk_flags := tk_flags t \<rparr>), CHR '' '' # rest)"
    using assms RegexToken by (intro lex_regex) (simp_all add: token_ok_def Let_def)
  then show ?thesis using RegexToken t by (simp add: token_text_def)
next
  case StringToken
  then show ?thesis using assms lex_string [of previous "tk_text t" "CHR '' '' # rest"]
    by (simp add: token_ok_def token_text_def Let_def)
next
  case NumberToken
  then show ?thesis using assms lex_number [of "tk_text t" previous rest]
    by (simp add: token_ok_def token_text_def Let_def)
next
  case PunctuatorToken
  then show ?thesis using assms lex_punctuator [of "tk_text t" previous rest]
    by (simp add: token_ok_def token_text_def Let_def)
next
  case IdentifierToken
  then show ?thesis using assms lex_word [of "tk_text t" previous rest]
    by (simp add: token_ok_def token_text_def Let_def)
next
  case KeywordToken
  then show ?thesis using assms lex_word [of "tk_text t" previous rest]
    by (simp add: token_ok_def token_text_def Let_def)
next
  case EndOfInput
  then show ?thesis using assms by (simp add: token_ok_def)
qed

lemma token_text_nonempty: "token_ok previous t \<Longrightarrow> token_text t \<noteq> []"
  by (auto simp: token_ok_def token_text_def Let_def number_start_def punctuators_nonempty
      split: js_token_type.splits)

lemma lex_loop_render:
  "tokens_ok (back_of tokens) ts \<Longrightarrow> lex_loop tokens (render_tokens ts) = tokens @ ts"
proof (induction ts arbitrary: tokens)
  case Nil
  then show ?case by (simp add: render_tokens_def lex_loop.simps)
next
  case (Cons t ts)
  have ok: "token_ok (back_of tokens) t" "tokens_ok (Some t) ts" using Cons.prems by simp_all
  have r: "render_tokens (t # ts) = token_text t @ CHR '' '' # render_tokens ts"
    by (simp add: render_tokens_def)
  have b: "lex_step (Some t) (CHR '' '' # render_tokens ts) = (None, render_tokens ts)"
    by (simp add: lex_step_def isspace_def)
  have "lex_loop tokens (render_tokens (t # ts)) = lex_loop (tokens @ [t]) (CHR '' '' # render_tokens ts)"
    unfolding r using token_text_nonempty [OF ok(1)]
    by (subst lex_loop.simps) (simp add: lex_step_token [OF ok(1)] push_token_def)
  also have "\<dots> = lex_loop (tokens @ [t]) (render_tokens ts)"
    by (subst lex_loop.simps) (simp add: b back_of_def push_token_def)
  also have "\<dots> = tokens @ t # ts" using Cons.IH [of "tokens @ [t]"] ok(2) by (simp add: back_of_def)
  finally show ?case .
qed

lemma js_tokenize_render: "tokens_ok None ts \<Longrightarrow> js_tokenize (render_tokens ts) = ts @ [new_token EndOfInput []]"
  using lex_loop_render [of "[]" ts] by (simp add: js_tokenize_def back_of_def)

end
