(* ===== verification/Regex.thy ===== *)
theory Regex
  imports Prelude
begin

text \<open>
  The regular-expression engine \<open>js/regex.cpp\<close>: node tree, backtracking matcher, parser and the
  \<open>Regex\<close> class.  A continuation returns \<open>Some r\<close> for \<open>true\<close> with what it recorded and
  \<open>None\<close> for \<open>false\<close>.  The parser only moves forwards, so its position is the text from it on
  (a position past the end behaves like the end).
\<close>

datatype node =
    Literal char
  | Any
  | Class bool "(char \<times> char) list"
  | Start
  | End
  | Concat "node list"
  | Alt "node list"
  | Repeat node int int bool
  | Group node

section \<open>Characters\<close>

definition equal_char :: "char \<Rightarrow> char \<Rightarrow> bool \<Rightarrow> bool" where
  "equal_char a b ignore_case = (if ignore_case then tolower a = tolower b else a = b)"

text \<open>\<open>char\<close> is signed on the supported targets.\<close>

definition signed_char :: "char \<Rightarrow> int" where
  "signed_char c = (if ascii c < 128 then int (ascii c) else int (ascii c) - 256)"

definition in_range :: "bool \<Rightarrow> char \<Rightarrow> char \<times> char \<Rightarrow> bool" where
  "in_range ignore_case c r =
     (let f = (if ignore_case then tolower else (\<lambda>c. c)) in
      signed_char (f (fst r)) \<le> signed_char (f c) \<and> signed_char (f c) \<le> signed_char (f (snd r)))"

definition in_class :: "bool \<Rightarrow> (char \<times> char) list \<Rightarrow> char \<Rightarrow> bool \<Rightarrow> bool" where
  "in_class negated ranges c ignore_case =
     (let found = list_ex (in_range ignore_case c) ranges in if negated then \<not> found else found)"

section \<open>The matcher\<close>

type_synonym 'r continuation = "nat \<Rightarrow> 'r option"

text \<open>The closure \<open>repeat\<close> inside \<open>match_node\<close>, over the matcher of the child.  Every round moves
  forward, so the number of characters left bounds the rounds (\<open>repeat_loop_spec\<close>).\<close>

primrec repeat_loop ::
  "nat \<Rightarrow> (nat \<Rightarrow> 'r continuation \<Rightarrow> 'r option) \<Rightarrow> int \<Rightarrow> int \<Rightarrow> bool \<Rightarrow> nat \<Rightarrow> int \<Rightarrow> 'r continuation \<Rightarrow> 'r option" where
  "repeat_loop 0 m minimum maximum greedy at count continuation = None"
| "repeat_loop (Suc n) m minimum maximum greedy at count continuation =
     (let can_more = maximum < 0 \<or> count < maximum;
          again = (\<lambda>next. if next = at then None else repeat_loop n m minimum maximum greedy next (count + 1) continuation) in
      if count < minimum then (if can_more then m at again else None)
      else if greedy then
        (case (if can_more then m at again else None) of Some r \<Rightarrow> Some r | None \<Rightarrow> continuation at)
      else
        (case continuation at of Some r \<Rightarrow> Some r | None \<Rightarrow> if can_more then m at again else None))"

fun match_node :: "bool \<Rightarrow> string \<Rightarrow> node \<Rightarrow> nat \<Rightarrow> 'r continuation \<Rightarrow> 'r option"
and match_seq :: "bool \<Rightarrow> string \<Rightarrow> node list \<Rightarrow> nat \<Rightarrow> 'r continuation \<Rightarrow> 'r option"
and match_alt :: "bool \<Rightarrow> string \<Rightarrow> node list \<Rightarrow> nat \<Rightarrow> 'r continuation \<Rightarrow> 'r option"
where
  "match_node ic s (Literal c) p k = (if p < length s \<and> equal_char (s ! p) c ic then k (p + 1) else None)"
| "match_node ic s Any p k = (if p < length s \<and> s ! p \<noteq> CHR 0x0A then k (p + 1) else None)"
| "match_node ic s (Class neg ranges) p k = (if p < length s \<and> in_class neg ranges (s ! p) ic then k (p + 1) else None)"
| "match_node ic s Start p k = (if p = 0 then k p else None)"
| "match_node ic s End p k = (if p = length s then k p else None)"
| "match_node ic s (Group child) p k = match_node ic s child p k"
| "match_node ic s (Concat ns) p k = match_seq ic s ns p k"
| "match_node ic s (Alt ns) p k = match_alt ic s ns p k"
| "match_node ic s (Repeat child minimum maximum greedy) p k =
     repeat_loop (Suc (length s - p)) (match_node ic s child) minimum maximum greedy p 0 k"
| "match_seq ic s [] p k = k p"
| "match_seq ic s (n # ns) p k = match_node ic s n p (\<lambda>next. match_seq ic s ns next k)"
| "match_alt ic s [] p k = None"
| "match_alt ic s (n # ns) p k =
     (case match_node ic s n p k of Some r \<Rightarrow> Some r | None \<Rightarrow> match_alt ic s ns p k)"

section \<open>What matching means\<close>

text \<open>\<open>count\<close> rounds of the child, each of them moving.\<close>

primrec rounds :: "(nat \<Rightarrow> nat \<Rightarrow> bool) \<Rightarrow> nat \<Rightarrow> nat \<Rightarrow> nat \<Rightarrow> bool" where
  "rounds M 0 i j \<longleftrightarrow> i = j"
| "rounds M (Suc c) i j \<longleftrightarrow> (\<exists>l. M i l \<and> l \<noteq> i \<and> rounds M c l j)"

fun matches :: "bool \<Rightarrow> string \<Rightarrow> node \<Rightarrow> nat \<Rightarrow> nat \<Rightarrow> bool"
and matches_seq :: "bool \<Rightarrow> string \<Rightarrow> node list \<Rightarrow> nat \<Rightarrow> nat \<Rightarrow> bool"
and matches_alt :: "bool \<Rightarrow> string \<Rightarrow> node list \<Rightarrow> nat \<Rightarrow> nat \<Rightarrow> bool"
where
  "matches ic s (Literal c) i j \<longleftrightarrow> i < length s \<and> equal_char (s ! i) c ic \<and> j = Suc i"
| "matches ic s Any i j \<longleftrightarrow> i < length s \<and> s ! i \<noteq> CHR 0x0A \<and> j = Suc i"
| "matches ic s (Class neg ranges) i j \<longleftrightarrow> i < length s \<and> in_class neg ranges (s ! i) ic \<and> j = Suc i"
| "matches ic s Start i j \<longleftrightarrow> i = 0 \<and> j = i"
| "matches ic s End i j \<longleftrightarrow> i = length s \<and> j = i"
| "matches ic s (Group child) i j \<longleftrightarrow> matches ic s child i j"
| "matches ic s (Concat ns) i j \<longleftrightarrow> matches_seq ic s ns i j"
| "matches ic s (Alt ns) i j \<longleftrightarrow> matches_alt ic s ns i j"
| "matches ic s (Repeat child minimum maximum greedy) i j \<longleftrightarrow>
     (\<exists>c. minimum \<le> int c \<and> (maximum < 0 \<or> int c \<le> maximum) \<and> rounds (matches ic s child) c i j)"
| "matches_seq ic s [] i j \<longleftrightarrow> i = j"
| "matches_seq ic s (n # ns) i j \<longleftrightarrow> (\<exists>l. matches ic s n i l \<and> matches_seq ic s ns l j)"
| "matches_alt ic s [] i j \<longleftrightarrow> False"
| "matches_alt ic s (n # ns) i j \<longleftrightarrow> matches ic s n i j \<or> matches_alt ic s ns i j"

text \<open>A matcher decides a relation: it succeeds exactly when the continuation accepts an end, and then
  with the answer the continuation gave for one.\<close>

definition decides :: "(nat \<Rightarrow> 'r continuation \<Rightarrow> 'r option) \<Rightarrow> (nat \<Rightarrow> nat \<Rightarrow> bool) \<Rightarrow> nat \<Rightarrow> bool" where
  "decides m M i \<longleftrightarrow>
     (\<forall>k. (\<forall>r. m i k = Some r \<longrightarrow> (\<exists>j. M i j \<and> k j = Some r)) \<and> (\<forall>j. M i j \<longrightarrow> k j \<noteq> None \<longrightarrow> m i k \<noteq> None))"

definition forward :: "nat \<Rightarrow> (nat \<Rightarrow> nat \<Rightarrow> bool) \<Rightarrow> bool" where
  "forward n M \<longleftrightarrow> (\<forall>i j. M i j \<longrightarrow> i \<le> n \<longrightarrow> i \<le> j \<and> j \<le> n)"

lemma forwardD: "forward n M \<Longrightarrow> M i j \<Longrightarrow> i \<le> n \<Longrightarrow> i \<le> j \<and> j \<le> n"
  by (simp add: forward_def)

lemma forward_compose: "forward n M \<Longrightarrow> forward n N \<Longrightarrow> forward n (\<lambda>i j. \<exists>l. M i l \<and> N l j)"
  unfolding forward_def by (meson le_trans)

lemma rounds_forward: "forward n M \<Longrightarrow> forward n (rounds M c)"
proof (induction c)
  case 0
  then show ?case by (simp add: forward_def)
next
  case (Suc c)
  have "forward n (\<lambda>i l. M i l \<and> l \<noteq> i)" using Suc.prems unfolding forward_def by blast
  from forward_compose [OF this Suc.IH [OF Suc.prems]]
  show ?case by (simp add: forward_def conj_assoc)
qed

lemma seq_forward: "(\<And>n. n \<in> set ns \<Longrightarrow> forward (length s) (matches ic s n)) \<Longrightarrow> forward (length s) (matches_seq ic s ns)"
proof (induction ns)
  case Nil
  then show ?case by (simp add: forward_def)
next
  case (Cons n ns)
  have "forward (length s) (\<lambda>i j. \<exists>l. matches ic s n i l \<and> matches_seq ic s ns l j)"
    using Cons by (intro forward_compose) simp_all
  then show ?case by (simp add: forward_def)
qed

lemma alt_forward: "(\<And>n. n \<in> set ns \<Longrightarrow> forward (length s) (matches ic s n)) \<Longrightarrow> forward (length s) (matches_alt ic s ns)"
proof (induction ns)
  case Nil
  then show ?case by (simp add: forward_def)
next
  case (Cons n ns)
  then have "forward (length s) (matches ic s n)" "forward (length s) (matches_alt ic s ns)" by simp_all
  then show ?case unfolding forward_def by auto
qed

lemma matches_forward: "forward (length s) (matches ic s n)"
proof (induction n)
  case (Concat ns)
  then show ?case using seq_forward [of ns s ic] by (simp add: forward_def)
next
  case (Alt ns)
  then show ?case using alt_forward [of ns s ic] by (simp add: forward_def)
next
  case (Repeat n minimum maximum greedy)
  have "i \<le> j \<and> j \<le> length s" if "rounds (matches ic s n) c i j" "i \<le> length s" for c i j
    using forwardD [OF rounds_forward [OF Repeat.IH] that] .
  then show ?case unfolding forward_def matches.simps by blast
qed (auto simp: forward_def)

section \<open>The matcher decides the meaning\<close>

lemma decides_sound: "decides m M i \<Longrightarrow> m i k = Some r \<Longrightarrow> \<exists>j. M i j \<and> k j = Some r"
  by (simp add: decides_def)

lemma decides_complete: "decides m M i \<Longrightarrow> M i j \<Longrightarrow> k j \<noteq> None \<Longrightarrow> m i k \<noteq> None"
  by (simp add: decides_def)

text \<open>The rounds still possible after \<open>count\<close> of them.\<close>

definition remaining :: "(nat \<Rightarrow> nat \<Rightarrow> bool) \<Rightarrow> int \<Rightarrow> int \<Rightarrow> nat \<Rightarrow> nat \<Rightarrow> nat \<Rightarrow> bool" where
  "remaining M minimum maximum count i j \<longleftrightarrow>
     (\<exists>c. minimum \<le> int (count + c) \<and> (maximum < 0 \<or> int (count + c) \<le> maximum) \<and> rounds M c i j)"

lemma remaining_iff:
  assumes "maximum < 0 \<or> int count \<le> maximum"
  shows "remaining M minimum maximum count i j \<longleftrightarrow>
    minimum \<le> int count \<and> i = j \<or>
    (maximum < 0 \<or> int count < maximum) \<and> (\<exists>l. M i l \<and> l \<noteq> i \<and> remaining M minimum maximum (Suc count) l j)"
    (is "?l \<longleftrightarrow> ?r")
proof
  assume ?l
  then obtain c where c: "minimum \<le> int (count + c)" "maximum < 0 \<or> int (count + c) \<le> maximum" "rounds M c i j"
    by (auto simp: remaining_def)
  show ?r
  proof (cases c)
    case 0
    then show ?thesis using c by simp
  next
    case (Suc d)
    then obtain l where "M i l" "l \<noteq> i" "rounds M d l j" using c by auto
    then have "remaining M minimum maximum (Suc count) l j" "maximum < 0 \<or> int count < maximum"
      unfolding remaining_def using c Suc by (auto intro: exI [of _ d])
    then show ?thesis using \<open>M i l\<close> \<open>l \<noteq> i\<close> by blast
  qed
next
  assume ?r
  then show ?l
  proof
    assume "minimum \<le> int count \<and> i = j"
    then show ?l using assms by (auto simp: remaining_def intro!: exI [of _ 0])
  next
    assume "(maximum < 0 \<or> int count < maximum) \<and> (\<exists>l. M i l \<and> l \<noteq> i \<and> remaining M minimum maximum (Suc count) l j)"
    then obtain l c where "M i l" "l \<noteq> i" "minimum \<le> int (Suc count + c)" "maximum < 0 \<or> int (Suc count + c) \<le> maximum"
      "rounds M c l j" by (auto simp: remaining_def)
    then show ?l unfolding remaining_def by (intro exI [of _ "Suc c"]) auto
  qed
qed

lemma repeat_loop_decides:
  assumes dec: "\<And>i. i \<le> len \<Longrightarrow> decides (m :: nat \<Rightarrow> 'r continuation \<Rightarrow> 'r option) M i" and fwd: "forward len M"
  shows "i \<le> len \<Longrightarrow> len - i < n \<Longrightarrow> maximum < 0 \<or> int count \<le> maximum \<Longrightarrow>
    decides (\<lambda>i. repeat_loop n m minimum maximum greedy i (int count)) (remaining M minimum maximum count) i"
proof (induction n arbitrary: i count)
  case 0
  then show ?case by simp
next
  case (Suc n)
  show ?case unfolding decides_def
  proof (intro allI conjI impI)
    fix k :: "'r continuation"
    define again where "again = (\<lambda>next. if next = i then None else repeat_loop n m minimum maximum greedy next (int count + 1) k)"
    let ?more = "maximum < 0 \<or> int count < maximum"
    have step: "repeat_loop (Suc n) m minimum maximum greedy i (int count) k =
        (if int count < minimum then (if ?more then m i again else None)
         else if greedy then (case (if ?more then m i again else None) of Some r \<Rightarrow> Some r | None \<Rightarrow> k i)
         else (case k i of Some r \<Rightarrow> Some r | None \<Rightarrow> if ?more then m i again else None))"
      unfolding again_def repeat_loop.simps Let_def by (rule refl)
    have IH: "decides (\<lambda>i. repeat_loop n m minimum maximum greedy i (int (Suc count))) (remaining M minimum maximum (Suc count)) l"
      if "M i l" "l \<noteq> i" ?more for l
      using Suc.IH [of l "Suc count"] forwardD [OF fwd that(1) Suc.prems(1)] that Suc.prems by auto
    have more: "\<exists>j. remaining M minimum maximum count i j \<and> k j = Some r" if h: "m i again = Some r" ?more for r
    proof -
      obtain l where l: "M i l" "again l = Some r" using decides_sound [OF dec [OF Suc.prems(1)] h(1)] by blast
      then have "l \<noteq> i" "repeat_loop n m minimum maximum greedy l (int (Suc count)) k = Some r"
        by (auto simp: again_def ac_simps split: if_splits)
      then obtain j where "remaining M minimum maximum (Suc count) l j" "k j = Some r"
        using decides_sound [OF IH [OF l(1) _ h(2)]] by blast
      then show ?thesis using remaining_iff [OF Suc.prems(3), of M minimum i j] l(1) \<open>l \<noteq> i\<close> h(2) by blast
    qed
    have stop: "remaining M minimum maximum count i i" if "\<not> int count < minimum"
      using remaining_iff [OF Suc.prems(3), of M minimum i i] that by simp
    show "\<exists>j. remaining M minimum maximum count i j \<and> k j = Some r"
      if "repeat_loop (Suc n) m minimum maximum greedy i (int count) k = Some r" for r
      using that more stop unfolding step by (auto split: if_splits option.splits)
    fix j
    assume j: "remaining M minimum maximum count i j" "k j \<noteq> None"
    show "repeat_loop (Suc n) m minimum maximum greedy i (int count) k \<noteq> None"
    proof (cases "minimum \<le> int count \<and> i = j")
      case True
      then show ?thesis using j(2) unfolding step by (auto split: option.splits)
    next
      case False
      then obtain l where l: ?more "M i l" "l \<noteq> i" "remaining M minimum maximum (Suc count) l j"
        using j(1) remaining_iff [OF Suc.prems(3), of M minimum i j] by blast
      have "repeat_loop n m minimum maximum greedy l (int (Suc count)) k \<noteq> None"
        using decides_complete [OF IH [OF l(2,3,1)] l(4), of k] j(2) by simp
      then have "again l \<noteq> None" using l(3) by (simp add: again_def ac_simps)
      then have "m i again \<noteq> None" by (rule decides_complete [OF dec [OF Suc.prems(1)] l(2)])
      then show ?thesis using l(1) unfolding step by (auto split: option.splits)
    qed
  qed
qed

lemma match_seq_decides:
  "(\<And>n i. n \<in> set ns \<Longrightarrow> i \<le> length s \<Longrightarrow> decides (match_node ic s n :: nat \<Rightarrow> 'r continuation \<Rightarrow> 'r option) (matches ic s n) i) \<Longrightarrow>
    i \<le> length s \<Longrightarrow> decides (match_seq ic s ns :: nat \<Rightarrow> 'r continuation \<Rightarrow> 'r option) (matches_seq ic s ns) i"
proof (induction ns arbitrary: i)
  case Nil
  then show ?case by (simp add: decides_def)
next
  case (Cons n ns)
  have n: "decides (match_node ic s n :: nat \<Rightarrow> 'r continuation \<Rightarrow> 'r option) (matches ic s n) i" using Cons.prems by simp
  have ns: "decides (match_seq ic s ns :: nat \<Rightarrow> 'r continuation \<Rightarrow> 'r option) (matches_seq ic s ns) l" if "matches ic s n i l" for l
    using Cons.IH [of l] Cons.prems forwardD [OF matches_forward that Cons.prems(2)] by simp
  show ?case unfolding decides_def
  proof (intro allI conjI impI)
    fix k :: "'r continuation" and r j
    show "\<exists>j. matches_seq ic s (n # ns) i j \<and> k j = Some r" if "match_seq ic s (n # ns) i k = Some r"
      using decides_sound [OF n that [unfolded match_seq.simps]] decides_sound [OF ns] by (fastforce simp: matches_seq.simps)
    show "match_seq ic s (n # ns) i k \<noteq> None" if j: "matches_seq ic s (n # ns) i j" "k j \<noteq> None"
    proof -
      obtain l where l: "matches ic s n i l" "matches_seq ic s ns l j" using j(1) by auto
      have "match_seq ic s ns l k \<noteq> None" using decides_complete [OF ns [OF l(1)] l(2), of k] j(2) by simp
      then show ?thesis using decides_complete [OF n l(1), of "\<lambda>next. match_seq ic s ns next k"] by simp
    qed
  qed
qed

lemma match_alt_decides:
  "(\<And>n i. n \<in> set ns \<Longrightarrow> i \<le> length s \<Longrightarrow> decides (match_node ic s n :: nat \<Rightarrow> 'r continuation \<Rightarrow> 'r option) (matches ic s n) i) \<Longrightarrow>
    i \<le> length s \<Longrightarrow> decides (match_alt ic s ns :: nat \<Rightarrow> 'r continuation \<Rightarrow> 'r option) (matches_alt ic s ns) i"
proof (induction ns arbitrary: i)
  case Nil
  then show ?case by (simp add: decides_def)
next
  case (Cons n ns)
  have n: "decides (match_node ic s n :: nat \<Rightarrow> 'r continuation \<Rightarrow> 'r option) (matches ic s n) i"
    and ns: "decides (match_alt ic s ns :: nat \<Rightarrow> 'r continuation \<Rightarrow> 'r option) (matches_alt ic s ns) i"
    using Cons by simp_all
  show ?case unfolding decides_def
  proof (intro allI conjI impI)
    fix k :: "'r continuation" and r j
    show "\<exists>j. matches_alt ic s (n # ns) i j \<and> k j = Some r" if "match_alt ic s (n # ns) i k = Some r"
      using that decides_sound [OF n, of k] decides_sound [OF ns, of k] by (auto split: option.splits)
    show "match_alt ic s (n # ns) i k \<noteq> None" if j: "matches_alt ic s (n # ns) i j" "k j \<noteq> None"
      using j decides_complete [OF n, of j k] decides_complete [OF ns, of j k] by (auto split: option.splits)
  qed
qed

lemma match_node_decides:
  "i \<le> length s \<Longrightarrow> decides (match_node ic s n :: nat \<Rightarrow> 'r continuation \<Rightarrow> 'r option) (matches ic s n) i"
proof (induction n arbitrary: i)
  case (Concat ns)
  have "decides (match_seq ic s ns :: nat \<Rightarrow> 'r continuation \<Rightarrow> 'r option) (matches_seq ic s ns) i"
    by (rule match_seq_decides [OF Concat])
  then show ?case by (simp add: decides_def)
next
  case (Alt ns)
  have "decides (match_alt ic s ns :: nat \<Rightarrow> 'r continuation \<Rightarrow> 'r option) (matches_alt ic s ns) i"
    by (rule match_alt_decides [OF Alt])
  then show ?case by (simp add: decides_def)
next
  case (Repeat n minimum maximum greedy)
  have "decides (\<lambda>i. repeat_loop (Suc (length s - i0)) (match_node ic s n :: nat \<Rightarrow> 'r continuation \<Rightarrow> 'r option) minimum maximum greedy i (int 0))
      (remaining (matches ic s n) minimum maximum 0) i0" if "i0 \<le> length s" for i0
    using repeat_loop_decides [OF Repeat.IH matches_forward that, of "Suc (length s - i0)" maximum 0]
    by (cases "maximum < 0") simp_all
  from this [OF Repeat.prems] show ?case
    unfolding decides_def remaining_def by simp
qed (auto simp: decides_def)

section \<open>The parser\<close>

text \<open>How parsing ends: normally, by looping forever on a character it does not consume, or by
  overflowing the \<open>int\<close> of a quantifier.  \<open>Out_of_fuel\<close> is an artefact of the model and never
  happens (\<open>compile_total\<close>).\<close>

datatype 'a parsed = Parsed 'a | Hangs | Overflows | Out_of_fuel

definition bind_parsed :: "'a parsed \<Rightarrow> ('a \<Rightarrow> 'b parsed) \<Rightarrow> 'b parsed" where
  "bind_parsed m f = (case m of Parsed a \<Rightarrow> f a | Hangs \<Rightarrow> Hangs | Overflows \<Rightarrow> Overflows | Out_of_fuel \<Rightarrow> Out_of_fuel)"

lemma bind_parsed_simps [simp]:
  "bind_parsed (Parsed a) f = f a" "bind_parsed Hangs f = Hangs"
  "bind_parsed Overflows f = Overflows" "bind_parsed Out_of_fuel f = Out_of_fuel"
  by (simp_all add: bind_parsed_def)

definition peek :: "string \<Rightarrow> char" where
  "peek rest = (case rest of [] \<Rightarrow> CHR 0x00 | c # _ \<Rightarrow> c)"

definition consume :: "char \<Rightarrow> string \<Rightarrow> string option" where
  "consume c rest = (case rest of [] \<Rightarrow> None | d # r \<Rightarrow> if c = d then Some r else None)"

fun digits_loop :: "int \<Rightarrow> string \<Rightarrow> (int \<times> string) parsed" where
  "digits_loop v [] = Parsed (v, [])"
| "digits_loop v (c # rest) =
     (if isdigit c then
        let v = v * 10 + (int (ascii c) - 48) in
        if int_max < v then Overflows else digits_loop v rest
      else Parsed (v, c # rest))"

definition parse_int :: "string \<Rightarrow> (int \<times> string) option parsed" where
  "parse_int rest =
     (if isdigit (peek rest) then bind_parsed (digits_loop 0 rest) (\<lambda>r. Parsed (Some r)) else Parsed None)"

text \<open>One quantifier: minimum, maximum and the text after it, or \<open>None\<close> where the loop stops.\<close>

definition braces :: "string \<Rightarrow> (int \<times> int \<times> string) option parsed" where
  "braces rest =
     bind_parsed (parse_int rest) (\<lambda>r. case r of
        None \<Rightarrow> Parsed None
      | Some (minimum, r1) \<Rightarrow>
          bind_parsed
            (case consume (CHR '','') r1 of
               None \<Rightarrow> Parsed (minimum, r1)
             | Some r2 \<Rightarrow> bind_parsed (parse_int r2) (\<lambda>r. case r of
                   None \<Rightarrow> Parsed (-1, r2)
                 | Some (maximum, r3) \<Rightarrow> Parsed (maximum, r3)))
            (\<lambda>(maximum, r4). case consume (CHR ''}'') r4 of
                 None \<Rightarrow> Parsed None
               | Some r5 \<Rightarrow> Parsed (Some (minimum, maximum, r5))))"

definition quantifier :: "string \<Rightarrow> (int \<times> int \<times> string) option parsed" where
  "quantifier rest =
     (case rest of
        [] \<Rightarrow> Parsed None
      | c # r \<Rightarrow>
          if c = CHR ''*'' then Parsed (Some (0, -1, r))
          else if c = CHR ''+'' then Parsed (Some (1, -1, r))
          else if c = CHR ''?'' then Parsed (Some (0, 1, r))
          else if c = CHR ''{'' then braces r
          else Parsed None)"

lemma digits_loop_shorter: "digits_loop v rest = Parsed (w, r) \<Longrightarrow> length r \<le> length rest"
  by (induction v rest rule: digits_loop.induct) (auto simp: Let_def split: if_splits)

lemma parse_int_shorter: "parse_int rest = Parsed (Some (v, r)) \<Longrightarrow> length r \<le> length rest"
  by (auto simp: parse_int_def bind_parsed_def dest: digits_loop_shorter split: if_splits parsed.splits)

lemma consume_shorter: "consume c rest = Some r \<Longrightarrow> length r < length rest"
  by (auto simp: consume_def split: list.splits if_splits)

lemma quantifier_shorter: "quantifier rest = Parsed (Some (a, b, r)) \<Longrightarrow> length r < length rest"
  unfolding quantifier_def braces_def bind_parsed_def
  by (auto split: list.splits if_splits parsed.splits option.splits dest!: parse_int_shorter consume_shorter)

text \<open>The quantifier loop of \<open>parse_repetition\<close> around an atom.\<close>

function repetition_loop :: "node \<Rightarrow> string \<Rightarrow> (node \<times> string) parsed" where
  "repetition_loop atom rest =
     (case quantifier rest of
        Parsed None \<Rightarrow> Parsed (atom, rest)
      | Parsed (Some (minimum, maximum, r)) \<Rightarrow>
          (case consume (CHR ''?'') r of
             Some r1 \<Rightarrow> repetition_loop (Repeat atom minimum maximum False) r1
           | None \<Rightarrow> repetition_loop (Repeat atom minimum maximum True) r)
      | Hangs \<Rightarrow> Hangs
      | Overflows \<Rightarrow> Overflows
      | Out_of_fuel \<Rightarrow> Out_of_fuel)"
  by pat_completeness auto
termination
  by (relation "measure (\<lambda>(a, r). length r)") (auto dest!: quantifier_shorter consume_shorter)

declare repetition_loop.simps [simp del]

definition digit_ranges :: "(char \<times> char) list" where
  "digit_ranges = [(CHR ''0'', CHR ''9'')]"

definition word_ranges :: "(char \<times> char) list" where
  "word_ranges = [(CHR ''a'', CHR ''z''), (CHR ''A'', CHR ''Z''), (CHR ''0'', CHR ''9''), (CHR ''_'', CHR ''_'')]"

definition space_ranges :: "(char \<times> char) list" where
  "space_ranges = [(CHR '' '', CHR '' ''), (CHR 0x09, CHR 0x09), (CHR 0x0A, CHR 0x0A), (CHR 0x0D, CHR 0x0D),
     (CHR 0x0C, CHR 0x0C), (CHR 0x0B, CHR 0x0B)]"

definition control_char :: "char \<Rightarrow> char" where
  "control_char c =
     (if c = CHR ''n'' then CHR 0x0A else if c = CHR ''t'' then CHR 0x09 else if c = CHR ''r'' then CHR 0x0D else c)"

definition class_for_escape :: "char \<Rightarrow> node" where
  "class_for_escape e =
     (if e = CHR ''d'' then Class False digit_ranges
      else if e = CHR ''D'' then Class True digit_ranges
      else if e = CHR ''w'' then Class False word_ranges
      else if e = CHR ''W'' then Class True word_ranges
      else if e = CHR ''s'' then Class False space_ranges
      else if e = CHR ''S'' then Class True space_ranges
      else Literal (control_char e))"

text \<open>Inside brackets: the ranges of an escape that stands for several characters.\<close>

definition class_escape :: "char \<Rightarrow> (char \<times> char) list option" where
  "class_escape e =
     (if e = CHR ''d'' then Some digit_ranges
      else if e = CHR ''w'' then Some word_ranges
      else if e = CHR ''s'' then Some [(CHR '' '', CHR '' ''), (CHR 0x09, CHR 0x09)]
      else None)"

definition class_range :: "char \<Rightarrow> string \<Rightarrow> (char \<times> char) \<times> string" where
  "class_range low r =
     (if peek r = CHR ''-'' \<and> 1 < length r \<and> r ! 1 \<noteq> CHR '']'' then
        let high = peek (drop 1 r); r1 = drop 2 r in
        if high = CHR 0x5C then ((low, peek r1), drop 1 r1) else ((low, high), r1)
      else ((low, low), r))"

lemma class_range_shorter: "length (snd (class_range low r)) \<le> length r"
  by (simp add: class_range_def Let_def)

function class_loop :: "(char \<times> char) list \<Rightarrow> string \<Rightarrow> (char \<times> char) list \<times> string" where
  "class_loop ranges rest =
     (case rest of
        [] \<Rightarrow> (ranges, [])
      | low # r \<Rightarrow>
          if low = CHR '']'' then (ranges, rest)
          else if low = CHR 0x5C then
            (case class_escape (peek r) of
               Some rs \<Rightarrow> class_loop (ranges @ rs) (drop 1 r)
             | None \<Rightarrow>
                 let x = class_range (control_char (peek r)) (drop 1 r) in class_loop (ranges @ [fst x]) (snd x))
          else let x = class_range low r in class_loop (ranges @ [fst x]) (snd x))"
  by pat_completeness auto
termination
  by (relation "measure (\<lambda>(a, r). length r)")
    (auto simp: le_imp_less_Suc class_range_shorter intro!: le_imp_less_Suc le_trans [OF class_range_shorter])

declare class_loop.simps [simp del]

text \<open>The parser's state: the text left and the flag \<open>ok\<close>.\<close>

type_synonym pstate = "string \<times> bool"

definition parse_class :: "string \<Rightarrow> bool \<Rightarrow> node \<times> pstate" where
  "parse_class r ok =
     (let negated = (consume (CHR ''^'') r \<noteq> None);
          body = class_loop [] (if negated then drop 1 r else r) in
      (Class negated (fst body),
       case consume (CHR '']'') (snd body) of Some r1 \<Rightarrow> (r1, ok) | None \<Rightarrow> (snd body, False)))"

text \<open>\<open>parse_atom\<close> except for a group.\<close>

definition parse_simple_atom :: "pstate \<Rightarrow> node \<times> pstate" where
  "parse_simple_atom st =
     (let c = peek (fst st); r = drop 1 (fst st); ok = snd st in
      if c = CHR ''['' then parse_class r ok
      else if c = CHR ''.'' then (Any, r, ok)
      else if c = CHR ''^'' then (Start, r, ok)
      else if c = CHR ''$'' then (End, r, ok)
      else if c = CHR 0x5C then (class_for_escape (peek r), drop 1 r, ok)
      else if c = CHR 0x00 then (Literal (CHR 0x00), fst st, False)
      else (Literal c, r, ok))"

text \<open>The mutually recursive part, with fuel for the depth of the calls.  A round of the
  concatenation loop that consumes nothing is repeated forever.\<close>

fun parse_alternation :: "nat \<Rightarrow> pstate \<Rightarrow> (node \<times> pstate) parsed"
and alternation_loop :: "nat \<Rightarrow> node list \<Rightarrow> pstate \<Rightarrow> (node \<times> pstate) parsed"
and concatenation_loop :: "nat \<Rightarrow> node list \<Rightarrow> pstate \<Rightarrow> (node \<times> pstate) parsed"
and parse_atom :: "nat \<Rightarrow> pstate \<Rightarrow> (node \<times> pstate) parsed"
where
  "parse_alternation 0 st = Out_of_fuel"
| "parse_alternation (Suc n) st =
     bind_parsed (concatenation_loop n [] st) (\<lambda>(branch, st). alternation_loop n [branch] st)"
| "alternation_loop 0 branches st = Out_of_fuel"
| "alternation_loop (Suc n) branches st =
     (case consume (CHR ''|'') (fst st) of
        Some r \<Rightarrow>
          bind_parsed (concatenation_loop n [] (r, snd st))
            (\<lambda>(branch, st). alternation_loop n (branches @ [branch]) st)
      | None \<Rightarrow> Parsed (if length branches = 1 then hd branches else Alt branches, st))"
| "concatenation_loop 0 parts st = Out_of_fuel"
| "concatenation_loop (Suc n) parts st =
     (if fst st \<noteq> [] \<and> peek (fst st) \<noteq> CHR ''|'' \<and> peek (fst st) \<noteq> CHR '')'' then
        bind_parsed (parse_atom n st) (\<lambda>(atom, r, ok).
          bind_parsed (repetition_loop atom r) (\<lambda>(part, r).
            if length r < length (fst st) then concatenation_loop n (parts @ [part]) (r, ok) else Hangs))
      else Parsed (if length parts = 1 then hd parts else Concat parts, st))"
| "parse_atom 0 st = Out_of_fuel"
| "parse_atom (Suc n) st =
     (if peek (fst st) = CHR ''('' then
        bind_parsed (parse_alternation n (drop 1 (fst st), snd st)) (\<lambda>(inner, r, ok).
          case consume (CHR '')'') r of
            Some r \<Rightarrow> Parsed (Group inner, r, ok)
          | None \<Rightarrow> Parsed (Group inner, r, False))
      else Parsed (parse_simple_atom st))"

section \<open>\<open>Regex\<close>\<close>

record regex =
  rx_source :: string
  rx_flags :: string
  rx_global :: bool
  rx_ignore_case :: bool
  rx_root :: node

fun read_flags :: "string \<Rightarrow> bool \<Rightarrow> bool \<Rightarrow> (bool \<times> bool) option" where
  "read_flags [] g i = Some (g, i)"
| "read_flags (c # cs) g i =
     (if c = CHR ''g'' then read_flags cs True i
      else if c = CHR ''i'' then read_flags cs g True
      else if c = CHR ''m'' then read_flags cs g i
      else None)"

text \<open>The result of \<open>compile\<close>: an error message or the regex.\<close>

definition compile :: "string \<Rightarrow> string \<Rightarrow> (string + regex) parsed" where
  "compile pattern flags =
     (case read_flags flags False False of
        None \<Rightarrow> Parsed (Inl ''invalid regular expression flag'')
      | Some (g, i) \<Rightarrow>
          bind_parsed (parse_alternation (3 * length pattern + 3) (pattern, True)) (\<lambda>(root, rest, ok).
            if \<not> ok \<or> peek rest = CHR '')'' then Parsed (Inl ''invalid regular expression'')
            else Parsed (Inr \<lparr> rx_source = pattern, rx_flags = flags, rx_global = g, rx_ignore_case = i, rx_root = root \<rparr>)))"

primrec search_loop :: "regex \<Rightarrow> string \<Rightarrow> nat list \<Rightarrow> (nat \<times> nat) option" where
  "search_loop rx str [] = None"
| "search_loop rx str (p # ps) =
     (case match_node (rx_ignore_case rx) str (rx_root rx) p (\<lambda>at. Some at) of
        Some e \<Rightarrow> Some (p, e)
      | None \<Rightarrow> search_loop rx str ps)"

definition search :: "regex \<Rightarrow> string \<Rightarrow> nat \<Rightarrow> (nat \<times> nat) option" where
  "search rx str start = search_loop rx str [start..<Suc (length str)]"

definition regex_test :: "regex \<Rightarrow> string \<Rightarrow> bool" where
  "regex_test rx str = (search rx str 0 \<noteq> None)"

section \<open>Searching\<close>

definition matches_at :: "regex \<Rightarrow> string \<Rightarrow> nat \<Rightarrow> nat \<Rightarrow> bool" where
  "matches_at rx str i j = matches (rx_ignore_case rx) str (rx_root rx) i j"

lemma matches_at_eq: "matches_at rx str = matches (rx_ignore_case rx) str (rx_root rx)"
  by (intro ext) (simp add: matches_at_def)

lemma search_loop_Some:
  "list_all (\<lambda>p. p \<le> length str) ps \<Longrightarrow> search_loop rx str ps = Some (i, j) \<Longrightarrow>
    matches_at rx str i j \<and> (\<exists>qs rs. ps = qs @ i # rs \<and> list_all (\<lambda>q. \<forall>l. \<not> matches_at rx str q l) qs)"
proof (induction ps)
  case Nil
  then show ?case by simp
next
  case (Cons p ps)
  have d: "decides (match_node (rx_ignore_case rx) str (rx_root rx)) (matches_at rx str) p"
    using match_node_decides [of p str] Cons.prems(1) by (simp add: matches_at_eq)
  show ?case
  proof (cases "match_node (rx_ignore_case rx) str (rx_root rx) p (\<lambda>at. Some at)")
    case (Some e)
    then have "matches_at rx str p e" using decides_sound [OF d Some] by auto
    then show ?thesis using Some Cons.prems(2) by (auto intro: exI [of _ "[]"])
  next
    case None
    then have no: "\<forall>l. \<not> matches_at rx str p l" using decides_complete [OF d, of _ "\<lambda>at. Some at"] by auto
    from Cons None obtain qs rs where "matches_at rx str i j" "ps = qs @ i # rs"
      "list_all (\<lambda>q. \<forall>l. \<not> matches_at rx str q l) qs" by auto
    then have "p # ps = (p # qs) @ i # rs \<and> list_all (\<lambda>q. \<forall>l. \<not> matches_at rx str q l) (p # qs)" using no by simp
    then show ?thesis using \<open>matches_at rx str i j\<close> by blast
  qed
qed

lemma search_loop_None:
  "list_all (\<lambda>p. p \<le> length str) ps \<Longrightarrow> search_loop rx str ps = None \<Longrightarrow>
    list_all (\<lambda>q. \<forall>l. \<not> matches_at rx str q l) ps"
proof (induction ps)
  case Nil
  then show ?case by simp
next
  case (Cons p ps)
  have d: "decides (match_node (rx_ignore_case rx) str (rx_root rx)) (matches_at rx str) p"
    using match_node_decides [of p str] Cons.prems(1) by (simp add: matches_at_eq)
  show ?case using Cons decides_complete [OF d, of _ "\<lambda>at. Some at"] by (auto split: option.splits)
qed

lemma upt_split: "[a..<b] = qs @ i # rs \<Longrightarrow> set qs = {a..<i} \<and> a \<le> i \<and> i < b"
proof -
  assume h: "[a..<b] = qs @ i # rs"
  then have l: "length qs < length [a..<b]" by simp
  have "i = [a..<b] ! length qs" using h by simp
  then have i: "i = a + length qs" using l by simp
  have "qs = take (length qs) [a..<b]" using h by simp
  then have "qs = [a..<a + length qs]" using l by (simp add: take_upt)
  then show ?thesis using i l by (metis atLeastLessThan_upt le_add1 length_upt less_diff_conv add.commute)
qed

text \<open>C18: The backtracking search finds exactly the leftmost match.  \<open>search\<close> answers \<open>(i, j)\<close>
  only if the pattern matches the text from \<open>i\<close> to \<open>j\<close> and matches nowhere between
  \<open>start\<close> and \<open>i\<close>; it answers no only if the pattern matches nowhere from \<open>start\<close> on.  Here
  "matches" is the compositional meaning of the node tree (no continuations, no order), with every round of a
  repetition moving forward.\<close>

theorem search_leftmost:
  "case search rx str start of
     Some (i, j) \<Rightarrow> matches_at rx str i j \<and> start \<le> i \<and> i \<le> j \<and> j \<le> length str \<and>
       (\<nexists>q. start \<le> q \<and> q < i \<and> (\<exists>l. matches_at rx str q l))
   | None \<Rightarrow> (\<nexists>q. start \<le> q \<and> q \<le> length str \<and> (\<exists>l. matches_at rx str q l))"
proof -
  let ?ps = "[start..<Suc (length str)]"
  have ps: "list_all (\<lambda>p. p \<le> length str) ?ps" by (auto simp: list_all_iff)
  show ?thesis
  proof (cases "search_loop rx str ?ps")
    case None
    then show ?thesis using search_loop_None [OF ps None] unfolding search_def
      by (auto simp: list_all_iff simp del: upt_Suc)
  next
    case (Some m)
    obtain i j where m: "m = (i, j)" by (cases m)
    from search_loop_Some [OF ps Some [unfolded m]] obtain qs rs where
      r: "matches_at rx str i j" "?ps = qs @ i # rs" "list_all (\<lambda>q. \<forall>l. \<not> matches_at rx str q l) qs" by blast
    note u = upt_split [OF r(2)]
    have "i \<le> length str" using u by simp
    then have "i \<le> j \<and> j \<le> length str" using forwardD [OF matches_forward] r(1) by (simp add: matches_at_def)
    then show ?thesis unfolding search_def Some m using r u by (auto simp: list_all_iff)
  qed
qed

section \<open>The parser returns\<close>

text \<open>\<open>r\<close> is what is left of \<open>s\<close> after some of its front was consumed.\<close>

definition tail_of :: "string \<Rightarrow> string \<Rightarrow> bool" where
  "tail_of r s \<longleftrightarrow> (\<exists>n. r = drop n s)"

named_theorems tails \<open>what each parsing function leaves\<close>

lemma tail_of_refl [intro, simp]: "tail_of s s"
  unfolding tail_of_def by (rule exI [of _ 0]) simp

lemma tail_of_trans: "tail_of r s \<Longrightarrow> tail_of s t \<Longrightarrow> tail_of r t"
  unfolding tail_of_def by auto

lemma tail_of_drop [intro]: "tail_of r (drop n s) \<Longrightarrow> tail_of r s"
  unfolding tail_of_def by auto

lemma tail_of_Cons [intro]: "tail_of r s \<Longrightarrow> tail_of r (c # s)"
  using tail_of_drop [of r 1 "c # s"] by simp

lemma tail_of_drops [simp]: "m \<le> n \<Longrightarrow> tail_of (drop n s) (drop m s)"
  unfolding tail_of_def by (rule exI [of _ "n - m"]) simp

lemma tail_of_length: "tail_of r s \<Longrightarrow> length r \<le> length s"
  unfolding tail_of_def by auto

lemma tail_of_set: "tail_of r s \<Longrightarrow> set r \<subseteq> set s"
  unfolding tail_of_def by (auto dest: in_set_dropD)

lemma consume_tail [tails]: "consume c s = Some r \<Longrightarrow> tail_of r s"
  by (auto simp: consume_def split: list.splits if_splits)

lemma digits_loop_tail [tails]: "digits_loop v s = Parsed (w, r) \<Longrightarrow> tail_of r s"
  by (induction v s rule: digits_loop.induct) (auto simp: Let_def split: if_splits)

lemma parse_int_tail [tails]: "parse_int s = Parsed (Some (v, r)) \<Longrightarrow> tail_of r s"
  by (auto simp: parse_int_def bind_parsed_def dest: digits_loop_tail split: if_splits parsed.splits)

lemma quantifier_tail [tails]: "quantifier s = Parsed (Some (a, b, r)) \<Longrightarrow> tail_of r s"
  unfolding quantifier_def braces_def bind_parsed_def
  by (auto split: list.splits if_splits parsed.splits option.splits dest!: tails)
    (blast intro: tail_of_trans)+

lemma repetition_loop_tail [tails]: "repetition_loop a s = Parsed (n, r) \<Longrightarrow> tail_of r s"
proof (induction a s rule: repetition_loop.induct)
  case (1 a s)
  show ?case using 1(3) 1(1,2)
    by (subst (asm) repetition_loop.simps)
      (auto split: parsed.splits option.splits dest!: quantifier_tail consume_tail, (blast intro: tail_of_trans)+)
qed

lemma class_range_tail: "tail_of (snd (class_range low s)) s"
  by (auto simp: class_range_def Let_def)

lemma class_loop_tail: "tail_of (snd (class_loop rs s)) s"
proof (induction s arbitrary: rs rule: length_induct)
  case (1 s)
  show ?case
  proof (cases s)
    case Nil
    then show ?thesis by (subst class_loop.simps) simp
  next
    case (Cons low r)
    have IH: "tail_of (snd (class_loop rs t)) s" if t: "tail_of t r" for rs t
    proof -
      have "length t < length s" using tail_of_length [OF t] Cons by simp
      then have "tail_of (snd (class_loop rs t)) t" using 1 by blast
      then show ?thesis unfolding Cons using t tail_of_Cons tail_of_trans by blast
    qed
    have t: "tail_of (drop (Suc 0) r) r" "tail_of (snd (class_range c r)) r" for c
      using class_range_tail by auto
    have u: "tail_of (snd (class_range c (drop (Suc 0) r))) r" for c
      using class_range_tail [of c "drop (Suc 0) r"] by (rule tail_of_drop)
    show ?thesis
      using Cons IH [OF t(1)] IH [OF t(2)] IH [OF u]
      by (subst class_loop.simps) (auto simp: Let_def split: option.splits)
  qed
qed

lemma parse_class_tail: "parse_class s ok = (n, r, ok') \<Longrightarrow> tail_of r s"
proof -
  assume h: "parse_class s ok = (n, r, ok')"
  let ?s = "if consume (CHR ''^'') s \<noteq> None then drop 1 s else s"
  have b: "tail_of (snd (class_loop [] ?s)) s"
    using class_loop_tail [of "[]" ?s] by (auto dest: tail_of_drop split: if_splits)
  show ?thesis using h b
    by (auto simp: parse_class_def Let_def split: option.splits dest!: consume_tail intro: tail_of_trans)
qed

lemma simple_atom_tail:
  "parse_simple_atom (s, ok) = (n, r, ok') \<Longrightarrow> tail_of r s \<and> (s \<noteq> [] \<and> peek s \<noteq> CHR 0x00 \<longrightarrow> length r < length s)"
proof -
  assume h: "parse_simple_atom (s, ok) = (n, r, ok')"
  have "tail_of r (drop 1 s) \<or> (r = s \<and> peek s = CHR 0x00)"
    using h parse_class_tail [of "drop 1 s" ok n r ok']
    by (auto simp: parse_simple_atom_def Let_def split: if_splits)
  then show ?thesis using tail_of_length [of r "drop 1 s"] by (cases s) auto
qed

lemma parser_tails [tails]:
  "parse_alternation f st = Parsed (n, r, ok) \<Longrightarrow> tail_of r (fst st)"
  "alternation_loop f bs st = Parsed (n, r, ok) \<Longrightarrow> tail_of r (fst st)"
  "concatenation_loop f bs st = Parsed (n, r, ok) \<Longrightarrow> tail_of r (fst st)"
  "parse_atom f st = Parsed (n, r, ok) \<Longrightarrow> tail_of r (fst st)"
proof (induction f st and f bs st and f bs st and f st arbitrary: n r ok and n r ok and n r ok and n r ok
    rule: parse_alternation_alternation_loop_concatenation_loop_parse_atom.induct)
  case (2 f st)
  then show ?case by (auto simp: bind_parsed_def split: parsed.splits) (blast intro: tail_of_trans)
next
  case (4 f bs st)
  show ?case
  proof (cases "consume (CHR ''|'') (fst st)")
    case None
    then show ?thesis using 4(3) by simp
  next
    case (Some t)
    then obtain x u ok' where c: "concatenation_loop f [] (t, snd st) = Parsed (x, u, ok')"
      and l: "alternation_loop f (bs @ [x]) (u, ok') = Parsed (n, r, ok)"
      using 4(3) by (auto simp: bind_parsed_def split: parsed.splits)
    have "tail_of u t" using 4(1) [OF Some c] by simp
    moreover have "tail_of r u" using 4(2) [OF Some l] by simp
    ultimately show ?thesis using consume_tail [OF Some] tail_of_trans by blast
  qed
next
  case (6 f bs st)
  show ?case
  proof (cases "fst st \<noteq> [] \<and> peek (fst st) \<noteq> CHR ''|'' \<and> peek (fst st) \<noteq> CHR '')''")
    case False
    then show ?thesis using 6(3) by (auto split: if_splits)
  next
    case True
    then obtain atom t ok1 part u where p: "parse_atom f st = Parsed (atom, t, ok1)"
      "repetition_loop atom t = Parsed (part, u)" and l: "concatenation_loop f (bs @ [part]) (u, ok1) = Parsed (n, r, ok)"
      and lt: "length u < length (fst st)"
      using 6(3) by (auto simp: bind_parsed_def split: parsed.splits if_splits)
    have "tail_of t (fst st)" using 6(1) [OF True p(1)] by simp
    moreover have "tail_of r u" using 6(2) [OF True lt l] by simp
    ultimately show ?thesis using repetition_loop_tail [OF p(2)] tail_of_trans by blast
  qed
next
  case (8 f st)
  have d: "tail_of r (fst st)" if "tail_of r (drop (Suc 0) (fst st))" for r
    using that by (rule tail_of_drop)
  show ?case using 8 simple_atom_tail [of "fst st" "snd st" n r ok]
    by (auto simp: bind_parsed_def split: parsed.splits if_splits option.splits dest!: consume_tail d)
      (blast intro: tail_of_trans)+
qed simp_all

text \<open>Enough fuel: three calls per character left.\<close>

lemma digits_loop_returns: "digits_loop v s \<noteq> Out_of_fuel \<and> digits_loop v s \<noteq> Hangs"
  by (induction v s rule: digits_loop.induct) (auto simp: Let_def)

lemma parse_int_returns: "parse_int s \<noteq> Out_of_fuel \<and> parse_int s \<noteq> Hangs"
  using digits_loop_returns [of 0 s] by (auto simp: parse_int_def bind_parsed_def split: parsed.splits)

lemma quantifier_returns: "quantifier s \<noteq> Out_of_fuel \<and> quantifier s \<noteq> Hangs"
  using parse_int_returns
  by (auto simp: quantifier_def braces_def bind_parsed_def split: list.splits parsed.splits option.splits if_splits)

lemma repetition_loop_returns: "repetition_loop a s \<noteq> Out_of_fuel \<and> repetition_loop a s \<noteq> Hangs"
proof (induction a s rule: repetition_loop.induct)
  case (1 a s)
  show ?case using 1 quantifier_returns [of s]
    by (subst repetition_loop.simps, subst (2) repetition_loop.simps) (auto split: parsed.splits option.splits)
qed

text \<open>A result that is neither out of fuel nor, without NUL in the text, a hang.\<close>

definition fine :: "string \<Rightarrow> 'a parsed \<Rightarrow> bool" where
  "fine s x \<longleftrightarrow> x \<noteq> Out_of_fuel \<and> (x = Hangs \<longrightarrow> CHR 0x00 \<in> set s)"

lemma fine_simps [simp]: "fine s (Parsed a)" "fine s Overflows" "\<not> fine s Out_of_fuel"
  by (simp_all add: fine_def)

lemma fine_bind: "fine s m \<Longrightarrow> (\<And>a. m = Parsed a \<Longrightarrow> fine s (f a)) \<Longrightarrow> fine s (bind_parsed m f)"
  by (cases m) (simp_all add: fine_def)

lemma fine_tail: "fine r x \<Longrightarrow> tail_of r s \<Longrightarrow> fine s x"
  using tail_of_set by (fastforce simp: fine_def)

lemma parse_atom_consumes:
  assumes "parse_atom f (s, ok) = Parsed (n, r, ok')" and "s \<noteq> []" and "peek s \<noteq> CHR 0x00"
  shows "length r < length s"
proof (cases f)
  case 0
  then show ?thesis using assms by simp
next
  case (Suc f)
  show ?thesis
  proof (cases "peek s = CHR ''(''")
    case True
    then obtain inner t ok1 where a: "parse_alternation f (drop 1 s, ok) = Parsed (inner, t, ok1)" and r: "length r \<le> length t"
      using assms(1) Suc consume_shorter by (fastforce simp: bind_parsed_def split: parsed.splits option.splits)
    show ?thesis using tail_of_length [OF parser_tails(1) [OF a]] r assms(2) by (cases s) auto
  next
    case False
    then show ?thesis using assms Suc simple_atom_tail [of s ok n r ok'] by simp
  qed
qed

lemma parser_fine:
  "3 * length (fst st) + 3 \<le> f \<Longrightarrow> fine (fst st) (parse_alternation f st)"
  "3 * length (fst st) + 1 \<le> f \<Longrightarrow> fine (fst st) (alternation_loop f bs st)"
  "3 * length (fst st) + 2 \<le> f \<Longrightarrow> fine (fst st) (concatenation_loop f bs st)"
  "fst st \<noteq> [] \<Longrightarrow> 3 * length (fst st) + 1 \<le> f \<Longrightarrow> fine (fst st) (parse_atom f st)"
proof (induction f st and f bs st and f bs st and f st
    rule: parse_alternation_alternation_loop_concatenation_loop_parse_atom.induct)
  case (2 f st)
  have "fine (fst st) (alternation_loop f [x] (t, ok))" if c: "concatenation_loop f [] st = Parsed (x, t, ok)" for x t ok
  proof -
    have t: "tail_of t (fst st)" by (rule parser_tails(3) [OF c])
    have "fine t (alternation_loop f [x] (t, ok))"
      using 2(2) [where x = x and xa = "(t, ok)"] 2(3) tail_of_length [OF t] by simp
    then show ?thesis by (rule fine_tail [OF _ t])
  qed
  then show ?case using 2 by (auto intro!: fine_bind)
next
  case (4 f bs st)
  show ?case
  proof (cases "consume (CHR ''|'') (fst st)")
    case None
    then show ?thesis by simp
  next
    case (Some t)
    have t: "length t < length (fst st)" "tail_of t (fst st)"
      using consume_shorter [OF Some] consume_tail [OF Some] by auto
    have "fine t (concatenation_loop f [] (t, snd st))" using 4(1) [OF Some] 4(3) t by simp
    moreover have "fine (fst st) (alternation_loop f (bs @ [x]) (u, ok))"
      if c: "concatenation_loop f [] (t, snd st) = Parsed (x, u, ok)" for x u ok
    proof -
      have u: "tail_of u t" using parser_tails(3) [OF c] by simp
      have "fine u (alternation_loop f (bs @ [x]) (u, ok))"
        using 4(2) [OF Some, where x = x and xa = "(u, ok)"] 4(3) t tail_of_length [OF u] by simp
      then show ?thesis using fine_tail tail_of_trans [OF u t(2)] by blast
    qed
    ultimately show ?thesis using Some fine_tail [OF _ t(2)] by (auto intro!: fine_bind)
  qed
next
  case (6 f bs st)
  let ?s = "fst st"
  show ?case
  proof (cases "?s \<noteq> [] \<and> peek ?s \<noteq> CHR ''|'' \<and> peek ?s \<noteq> CHR '')''")
    case False
    then show ?thesis by auto
  next
    case True
    have a: "fine ?s (parse_atom f st)" using 6(1) [OF True] True 6(3) by simp
    have b: "fine ?s (if length u < length ?s then concatenation_loop f (bs @ [part]) (u, ok) else Hangs)"
      if p: "parse_atom f st = Parsed (atom, r, ok)" "repetition_loop atom r = Parsed (part, u)" for atom r ok part u
    proof (cases "length u < length ?s")
      case l: True
      have u: "tail_of u ?s" using parser_tails(4) [OF p(1)] repetition_loop_tail [OF p(2)] tail_of_trans by simp
      have "fine u (concatenation_loop f (bs @ [part]) (u, ok))"
        using 6(2) [OF True] l 6(3) by simp
      then show ?thesis using l fine_tail [OF _ u] by simp
    next
      case False
      have "length u \<le> length r" using repetition_loop_tail [OF p(2)] tail_of_length by simp
      then have "\<not> length r < length ?s" using False by simp
      then have "peek ?s = CHR 0x00" using parse_atom_consumes [of f ?s "snd st" atom r ok] p(1) True by auto
      then have "CHR 0x00 \<in> set ?s" using True by (cases ?s) (auto simp: peek_def)
      then show ?thesis using False by (simp add: fine_def)
    qed
    have "fine ?s (repetition_loop atom r)" for atom r using repetition_loop_returns [of atom r] by (simp add: fine_def)
    then show ?thesis using True a b by (auto intro!: fine_bind)
  qed
next
  case (8 f st)
  show ?case
  proof (cases "peek (fst st) = CHR ''(''")
    case True
    have "fine (drop 1 (fst st)) (parse_alternation f (drop 1 (fst st), snd st))"
      using 8(1) [OF True] 8(2,3) by (cases "fst st") auto
    then have "fine (fst st) (parse_alternation f (drop 1 (fst st), snd st))"
      by (rule fine_tail) auto
    then show ?thesis using True by (auto intro!: fine_bind split: option.splits)
  qed simp
qed simp_all

lemma compile_fine: "fine pattern (compile pattern flags)"
  using parser_fine(1) [of "(pattern, True)"]
  by (auto simp: compile_def split: option.splits intro!: fine_bind)

text \<open>The pattern parser returns.  \<open>compile\<close> never runs out of the model's fuel, and it
  loops forever only on patterns with a NUL character; a pattern that starts with one does hang it
  (\<open>parse_atom\<close> reports an error without consuming it).\<close>

theorem compile_total:
  "compile pattern flags \<noteq> Out_of_fuel \<and>
   \<not> (compile pattern flags = Hangs \<and> CHR 0x00 \<notin> set pattern) \<and>
   compile (CHR 0x00 # pattern) '''' = Hangs"
proof -
  have "parse_simple_atom (CHR 0x00 # pattern, True) = (Literal (CHR 0x00), CHR 0x00 # pattern, False)"
    by (simp add: parse_simple_atom_def peek_def Let_def)
  moreover have "repetition_loop (Literal (CHR 0x00)) (CHR 0x00 # pattern) = Parsed (Literal (CHR 0x00), CHR 0x00 # pattern)"
    by (subst repetition_loop.simps) (simp add: quantifier_def)
  ultimately have "concatenation_loop (Suc (Suc n)) [] (CHR 0x00 # pattern, True) = Hangs" for n
    by (simp add: peek_def)
  then have "parse_alternation (Suc (Suc (Suc n))) (CHR 0x00 # pattern, True) = Hangs" for n by simp
  from this [of "3 * length pattern + 3"]
  have "compile (CHR 0x00 # pattern) '''' = Hangs"
    by (simp add: compile_def numeral_3_eq_3)
  then show ?thesis using compile_fine [of pattern flags] by (simp add: fine_def)
qed

text \<open>Repetitions of empty matches are lost.  A round that does not move is refused even while
  the minimum is not reached, so \<open>(a*){2}\<close>, which matches the empty text, is reported not to match it.\<close>

lemma empty_rounds_fail:
  "case compile ''(a*){2}'' '''' of Parsed (Inr rx) \<Rightarrow> \<not> regex_test rx '''' | _ \<Rightarrow> False"
  by code_simp

end
