(* ===== verification/Js_Parser.thy ===== *)
theory Js_Parser
  imports Js_Lexer Regex "HOL-Library.Monad_Syntax"
begin

text \<open>
  The syntax tree and the recursive-descent parser of the script engine (\<open>Node\<close> and \<open>Parser\<close>
  in \<open>js/js.hpp\<close> and \<open>js/js.cpp\<close>).  Every production is a function of the productions it
  calls back into (\<open>expr\<close> for \<open>parse_assignment\<close>, \<open>stmt\<close> for \<open>parse_statement\<close>) and of
  fuel for its own loops; \<open>parse_expr\<close> and \<open>parse_stmt\<close> tie the knot.  The result
  \<^term>\<open>None\<close> means that the parser does not return: out of fuel, or a regular expression whose
  compilation hangs.
\<close>

section \<open>The syntax tree\<close>

datatype ast =
    NumberLiteral fp
  | StringLiteral string
  | BooleanLiteral bool
  | NullLiteral
  | Identifier string
  | ArrayLiteral "ast list"
  | ObjectLiteral "(string \<times> ast) list"
  | FunctionExpression string "string list" "ast option"
  | Unary string ast
  | Binary string ast ast
  | Logical string ast ast
  | Assignment string ast ast
  | Conditional ast ast ast
  | Call ast "ast list"
  | Member ast string "ast option"
  | New ast "ast list"
  | RegexLiteral "regex option"
  | Program "ast list"
  | ExpressionStatement ast
  | VariableDeclaration bool "(string \<times> ast option) list"
  | Block "ast list"
  | IfStatement ast ast "ast option"
  | WhileStatement ast ast
  | ForStatement "ast option" "ast option" "ast option" ast
  | ForOfStatement string ast ast
  | SwitchStatement ast "(ast option \<times> ast) list"
  | ReturnStatement "ast option"
  | BreakStatement
  | ContinueStatement
  | FunctionDeclaration string "string list" "ast option" bool
  | ClassDeclaration string "ast option" "(string \<times> ast) list"

section \<open>The parser's state\<close>

text \<open>The tokens from \<open>m_position\<close> on and the first error.  The position never passes the last
  token.\<close>

record js_parser =
  ps_tokens :: "js_token list"
  ps_error :: string

type_synonym 'a parser = "js_parser \<Rightarrow> ('a \<times> js_parser) option"

definition peek_at :: "nat \<Rightarrow> js_parser \<Rightarrow> js_token" where
  "peek_at k st = (if k < length (ps_tokens st) then ps_tokens st ! k else last (ps_tokens st))"

abbreviation peek :: "js_parser \<Rightarrow> js_token" where
  "peek st \<equiv> peek_at 0 st"

definition next_state :: "js_parser \<Rightarrow> js_parser" where
  "next_state st = (if 1 < length (ps_tokens st) then st\<lparr> ps_tokens := tl (ps_tokens st) \<rparr> else st)"

definition check :: "string \<Rightarrow> js_parser \<Rightarrow> bool" where
  "check s st \<longleftrightarrow> (tk_type (peek st) = PunctuatorToken \<or> tk_type (peek st) = KeywordToken) \<and> tk_text (peek st) = s"

definition at_end :: "js_parser \<Rightarrow> bool" where
  "at_end st \<longleftrightarrow> tk_type (peek st) = EndOfInput"

definition failed :: "js_parser \<Rightarrow> bool" where
  "failed st \<longleftrightarrow> ps_error st \<noteq> []"

definition set_error :: "string \<Rightarrow> js_parser \<Rightarrow> js_parser" where
  "set_error m st = (if ps_error st = [] then st\<lparr> ps_error := m \<rparr> else st)"

text \<open>\<open>match\<close> without its answer, and \<open>expect\<close>.\<close>

definition skip_if :: "string \<Rightarrow> js_parser \<Rightarrow> js_parser" where
  "skip_if s st = (if check s st then next_state st else st)"

definition expect :: "string \<Rightarrow> js_parser \<Rightarrow> js_parser" where
  "expect s st = (if check s st then next_state st else set_error (''expected '' @ [CHR 0x27] @ s @ [CHR 0x27]) st)"

definition is_identifier :: "js_parser \<Rightarrow> bool" where
  "is_identifier st \<longleftrightarrow> tk_type (peek st) = IdentifierToken"

definition is_name :: "js_parser \<Rightarrow> bool" where
  "is_name st \<longleftrightarrow> tk_type (peek st) = IdentifierToken \<or> tk_type (peek st) = KeywordToken"

section \<open>Loops shared by the productions\<close>

text \<open>A comma-separated list up to a closing mark; the argument loop of \<open>new\<close> also stops at
  errors.\<close>

primrec items_loop :: "nat \<Rightarrow> ast parser \<Rightarrow> bool \<Rightarrow> string \<Rightarrow> ast list \<Rightarrow> ast list parser" where
  "items_loop 0 expr guarded close acc st = None"
| "items_loop (Suc k) expr guarded close acc st =
     (if \<not> check close st \<and> \<not> at_end st \<and> \<not> (guarded \<and> failed st) then
        do {
          (e, st) \<leftarrow> expr st;
          if check '','' st then items_loop k expr guarded close (acc @ [e]) (next_state st)
          else Some (acc @ [e], st)
        }
      else Some (acc, st))"

primrec object_loop :: "nat \<Rightarrow> ast parser \<Rightarrow> (string \<times> ast) list \<Rightarrow> (string \<times> ast) list parser" where
  "object_loop 0 expr acc st = None"
| "object_loop (Suc k) expr acc st =
     (if \<not> check ''}'' st \<and> \<not> at_end st then
        if is_name st \<or> tk_type (peek st) = StringToken then
          do {
            (e, st') \<leftarrow> expr (expect '':'' (next_state st));
            let acc = acc @ [(tk_text (peek st), e)];
            if check '','' st' then object_loop k expr acc (next_state st') else Some (acc, st')
          }
        else Some (acc, set_error ''expected property key'' st)
      else Some (acc, st))"

primrec parameters_loop :: "nat \<Rightarrow> string list \<Rightarrow> string list parser" where
  "parameters_loop 0 acc st = None"
| "parameters_loop (Suc k) acc st =
     (if \<not> check '')'' st \<and> \<not> at_end st then
        if is_identifier st then
          let acc = acc @ [tk_text (peek st)]; st = next_state st in
          if check '','' st then parameters_loop k acc (next_state st) else Some (acc, st)
        else Some (acc, set_error ''expected parameter name'' st)
      else Some (acc, st))"

primrec block_loop :: "nat \<Rightarrow> ast parser \<Rightarrow> ast list \<Rightarrow> ast list parser" where
  "block_loop 0 stmt acc st = None"
| "block_loop (Suc k) stmt acc st =
     (if \<not> check ''}'' st \<and> \<not> at_end st \<and> \<not> failed st then
        do { (s, st) \<leftarrow> stmt st; block_loop k stmt (acc @ [s]) st }
      else Some (acc, st))"

section \<open>Functions and blocks\<close>

definition parse_block :: "nat \<Rightarrow> ast parser \<Rightarrow> ast parser" where
  "parse_block k stmt st =
     (if check ''{'' st then
        do { (ss, st) \<leftarrow> block_loop k stmt [] (next_state st); Some (Block ss, expect ''}'' st) }
      else Some (Block [], expect ''{'' st))"

definition function_node :: "bool \<Rightarrow> string \<Rightarrow> string list \<Rightarrow> ast option \<Rightarrow> ast" where
  "function_node is_declaration name ps body =
     (if is_declaration then FunctionDeclaration name ps body False else FunctionExpression name ps body)"

definition parse_function :: "nat \<Rightarrow> ast parser \<Rightarrow> bool \<Rightarrow> ast parser" where
  "parse_function k stmt is_declaration st =
     (if is_declaration \<and> \<not> is_identifier st then
        Some (function_node is_declaration [] [] None, set_error ''expected function name'' st)
      else
        let name = (if is_identifier st then tk_text (peek st) else []);
            st = (if is_identifier st then next_state st else st) in
        if \<not> check ''('' st then Some (function_node is_declaration name [] None, expect ''('' st)
        else
          do {
            (ps, st) \<leftarrow> parameters_loop k [] (next_state st);
            (body, st) \<leftarrow> parse_block k stmt (expect '')'' st);
            Some (function_node is_declaration name ps (Some body), st)
          })"

primrec class_loop :: "nat \<Rightarrow> ast parser \<Rightarrow> ast option \<Rightarrow> (string \<times> ast) list \<Rightarrow> (ast option \<times> (string \<times> ast) list) parser" where
  "class_loop 0 stmt ctor methods st = None"
| "class_loop (Suc k) stmt ctor methods st =
     (if \<not> check ''}'' st \<and> \<not> at_end st \<and> \<not> failed st then
        if is_name st then
          do {
            (f, st') \<leftarrow> parse_function k stmt False (next_state st);
            if tk_text (peek st) = ''constructor'' then class_loop k stmt (Some f) methods st'
            else class_loop k stmt ctor (methods @ [(tk_text (peek st), f)]) st'
          }
        else Some ((ctor, methods), set_error ''expected method name'' st)
      else Some ((ctor, methods), st))"

definition parse_class :: "nat \<Rightarrow> ast parser \<Rightarrow> ast parser" where
  "parse_class k stmt st =
     (if \<not> is_identifier st then Some (ClassDeclaration [] None [], set_error ''expected class name'' st)
      else
        let name = tk_text (peek st); st = next_state st in
        if \<not> check ''{'' st then Some (ClassDeclaration name None [], expect ''{'' st)
        else do {
          ((ctor, methods), st) \<leftarrow> class_loop k stmt None [] (next_state st);
          Some (ClassDeclaration name ctor methods, expect ''}'' st)
        })"

section \<open>Expressions\<close>

definition regex_node :: "js_token \<Rightarrow> js_parser \<Rightarrow> (ast \<times> js_parser) option" where
  "regex_node t st =
     (case compile (tk_text t) (tk_flags t) of
        Parsed (Inr rx) \<Rightarrow> Some (RegexLiteral (Some rx), st)
      | Parsed (Inl message) \<Rightarrow>
          Some (RegexLiteral None, set_error (if message = [] then ''invalid regular expression'' else message) st)
      | _ \<Rightarrow> None)"

definition parse_primary :: "nat \<Rightarrow> ast parser \<Rightarrow> ast parser \<Rightarrow> ast parser" where
  "parse_primary k expr stmt st =
     (let t = peek st; s = tk_text t in
      if tk_type t = NumberToken then Some (NumberLiteral (tk_number t), next_state st)
      else if tk_type t = RegexToken then regex_node t (next_state st)
      else if tk_type t = StringToken then Some (StringLiteral s, next_state st)
      else if s = ''true'' \<or> s = ''false'' then Some (BooleanLiteral (s = ''true''), next_state st)
      else if s = ''null'' then Some (NullLiteral, next_state st)
      else if s = ''undefined'' then Some (Identifier ''undefined'', next_state st)
      else if s = ''function'' then parse_function k stmt False (next_state st)
      else if is_name st then Some (Identifier s, next_state st)
      else if check ''('' st then do { (e, st) \<leftarrow> expr (next_state st); Some (e, expect '')'' st) }
      else if check ''['' st then
        do { (es, st) \<leftarrow> items_loop k expr False '']'' [] (next_state st); Some (ArrayLiteral es, expect '']'' st) }
      else if check ''{'' st then
        do { (ps, st) \<leftarrow> object_loop k expr [] (next_state st); Some (ObjectLiteral ps, expect ''}'' st) }
      else Some (NullLiteral, next_state (set_error (''unexpected token '' @ [CHR 0x27] @ s @ [CHR 0x27]) st)))"

primrec apply_postfix :: "nat \<Rightarrow> ast parser \<Rightarrow> ast \<Rightarrow> ast parser" where
  "apply_postfix 0 expr e st = None"
| "apply_postfix (Suc k) expr e st =
     (if check ''.'' st then
        let st = next_state st in
        if is_name st then apply_postfix k expr (Member e (tk_text (peek st)) None) (next_state st)
        else Some (e, set_error ''expected property name'' st)
      else if check ''['' st then
        do { (i, st) \<leftarrow> expr (next_state st); apply_postfix k expr (Member e [] (Some i)) (expect '']'' st) }
      else if check ''('' st then
        do { (es, st) \<leftarrow> items_loop k expr False '')'' [] (next_state st); apply_postfix k expr (Call e es) (expect '')'' st) }
      else if check ''++'' st \<or> check ''--'' st then
        apply_postfix k expr (Unary (tk_text (peek st)) e) (next_state st)
      else Some (e, st))"

text \<open>The callee of \<open>new\<close>: a primary with member and index accesses.\<close>

primrec new_callee :: "nat \<Rightarrow> ast parser \<Rightarrow> ast \<Rightarrow> ast parser" where
  "new_callee 0 expr e st = None"
| "new_callee (Suc k) expr e st =
     (if failed st then Some (e, st)
      else if check ''.'' st then
        let st = next_state st in
        if is_name st then new_callee k expr (Member e (tk_text (peek st)) None) (next_state st)
        else new_callee k expr (Member e [] None) (set_error ''expected property name'' st)
      else if check ''['' st then
        do { (i, st) \<leftarrow> expr (next_state st); new_callee k expr (Member e [] (Some i)) (expect '']'' st) }
      else Some (e, st))"

definition parse_new :: "nat \<Rightarrow> ast parser \<Rightarrow> ast parser \<Rightarrow> ast parser" where
  "parse_new k expr stmt st =
     do {
       (c, st) \<leftarrow> parse_primary k expr stmt st;
       (c, st) \<leftarrow> new_callee k expr c st;
       (es, st) \<leftarrow>
         (if check ''('' st then
            do { (es, st) \<leftarrow> items_loop k expr True '')'' [] (next_state st); Some (es, expect '')'' st) }
          else Some ([], st));
       apply_postfix k expr (New c es) st
     }"

definition unary_operators :: "string list" where
  "unary_operators = [''await'', ''!'', ''-'', ''+'', ''typeof'', ''++'', ''--'']"

primrec parse_unary :: "nat \<Rightarrow> nat \<Rightarrow> ast parser \<Rightarrow> ast parser \<Rightarrow> ast parser" where
  "parse_unary 0 k expr stmt st = None"
| "parse_unary (Suc d) k expr stmt st =
     (if check ''new'' st then parse_new k expr stmt (next_state st)
      else if list_ex (\<lambda>s. check s st) unary_operators then
        do { (e, st') \<leftarrow> parse_unary d k expr stmt (next_state st); Some (Unary (tk_text (peek st)) e, st') }
      else do { (e, st) \<leftarrow> parse_primary k expr stmt st; apply_postfix k expr e st })"

definition binary_precedence :: "string \<Rightarrow> nat" where
  "binary_precedence op =
     (if op = ''||'' then 1
      else if op = ''&&'' then 2
      else if op \<in> {''=='', ''!='', ''==='', ''!==''} then 3
      else if op \<in> {''<'', ''>'', ''<='', ''>='', ''instanceof''} then 4
      else if op \<in> {''+'', ''-''} then 5
      else if op \<in> {''*'', ''/'', ''%''} then 6
      else 0)"

definition binary_node :: "string \<Rightarrow> ast \<Rightarrow> ast \<Rightarrow> ast" where
  "binary_node op l r = (if op = ''&&'' \<or> op = ''||'' then Logical op l r else Binary op l r)"

fun parse_binary :: "nat \<Rightarrow> ast parser \<Rightarrow> nat \<Rightarrow> ast parser"
and binary_loop :: "nat \<Rightarrow> ast parser \<Rightarrow> nat \<Rightarrow> ast \<Rightarrow> ast parser"
where
  "parse_binary 0 unary m st = None"
| "parse_binary (Suc d) unary m st = do { (l, st) \<leftarrow> unary st; binary_loop d unary m l st }"
| "binary_loop 0 unary m l st = None"
| "binary_loop (Suc d) unary m l st =
     (let op = tk_text (peek st); p = binary_precedence op in
      if tk_type (peek st) \<noteq> PunctuatorToken \<and> tk_type (peek st) \<noteq> KeywordToken \<or> p = 0 \<or> p < m then Some (l, st)
      else do {
        (r, st) \<leftarrow> parse_binary d unary (p + 1) (next_state st);
        binary_loop d unary m (binary_node op l r) st
      })"

definition parse_conditional :: "nat \<Rightarrow> ast parser \<Rightarrow> ast parser \<Rightarrow> ast parser" where
  "parse_conditional k expr stmt st =
     do {
       (c, st) \<leftarrow> parse_binary k (parse_unary k k expr stmt) 1 st;
       if check ''?'' st then
         do {
           (a, st) \<leftarrow> expr (next_state st);
           (b, st) \<leftarrow> expr (expect '':'' st);
           Some (Conditional c a b, st)
         }
       else Some (c, st)
     }"

definition assignment_operators :: "string list" where
  "assignment_operators = [''='', ''+='', ''-='', ''*='', ''/='', ''%='']"

definition parse_assignment :: "nat \<Rightarrow> ast parser \<Rightarrow> ast parser \<Rightarrow> ast parser" where
  "parse_assignment k expr stmt st =
     do {
       (l, st) \<leftarrow> parse_conditional k expr stmt st;
       if list_ex (\<lambda>s. check s st) assignment_operators then
         do { (r, st') \<leftarrow> expr (next_state st); Some (Assignment (tk_text (peek st)) l r, st') }
       else Some (l, st)
     }"


section \<open>Statements\<close>

primrec declaration_loop :: "nat \<Rightarrow> ast parser \<Rightarrow> (string \<times> ast option) list \<Rightarrow> (string \<times> ast option) list parser" where
  "declaration_loop 0 expr acc st = None"
| "declaration_loop (Suc k) expr acc st =
     (if \<not> is_identifier st then Some (acc, set_error ''expected variable name'' st)
      else
        let name = tk_text (peek st); st = next_state st in
        do {
          (i, st) \<leftarrow>
            (if check ''='' st then do { (e, st) \<leftarrow> expr (next_state st); Some (Some e, st) } else Some (None, st));
          let acc = acc @ [(name, i)];
          if check '','' st then declaration_loop k expr acc (next_state st) else Some (acc, st)
        })"

definition parse_variables :: "nat \<Rightarrow> ast parser \<Rightarrow> ast parser" where
  "parse_variables k expr st =
     do {
       (ds, st') \<leftarrow> declaration_loop k expr [] (next_state st);
       Some (VariableDeclaration (\<not> check ''var'' st) ds, skip_if '';'' st')
     }"

definition set_async :: "ast \<Rightarrow> ast" where
  "set_async f = (case f of FunctionDeclaration name ps body a \<Rightarrow> FunctionDeclaration name ps body True | _ \<Rightarrow> f)"

definition parse_if :: "ast parser \<Rightarrow> ast parser \<Rightarrow> ast parser" where
  "parse_if expr stmt st =
     do {
       (t, st) \<leftarrow> expr (expect ''('' st);
       (b, st) \<leftarrow> stmt (expect '')'' st);
       if check ''else'' st then do { (a, st) \<leftarrow> stmt (next_state st); Some (IfStatement t b (Some a), st) }
       else Some (IfStatement t b None, st)
     }"

definition parse_while :: "ast parser \<Rightarrow> ast parser \<Rightarrow> ast parser" where
  "parse_while expr stmt st =
     do {
       (t, st) \<leftarrow> expr (expect ''('' st);
       (b, st) \<leftarrow> stmt (expect '')'' st);
       Some (WhileStatement t b, st)
     }"

definition is_declarator :: "js_parser \<Rightarrow> bool" where
  "is_declarator st \<longleftrightarrow> check ''var'' st \<or> check ''let'' st \<or> check ''const'' st"

text \<open>\<open>for (var x of \<dots>)\<close> is tried first; otherwise the position is restored.\<close>

definition starts_for_of :: "js_parser \<Rightarrow> bool" where
  "starts_for_of st \<longleftrightarrow> is_declarator st \<and> is_identifier (next_state st) \<and> check ''of'' (next_state (next_state st))"

definition parse_for_of :: "ast parser \<Rightarrow> ast parser \<Rightarrow> ast parser" where
  "parse_for_of expr stmt st =
     do {
       (r, st') \<leftarrow> expr (next_state (next_state (next_state st)));
       (b, st') \<leftarrow> stmt (expect '')'' st');
       Some (ForOfStatement (tk_text (peek (next_state st))) r b, st')
     }"

definition parse_for_init :: "ast parser \<Rightarrow> ast parser \<Rightarrow> ast option parser" where
  "parse_for_init expr stmt st =
     (if check ''var'' st \<or> check ''let'' st then do { (s, st) \<leftarrow> stmt st; Some (Some s, st) }
      else if \<not> check '';'' st then
        do { (e, st) \<leftarrow> expr st; Some (Some (ExpressionStatement e), skip_if '';'' st) }
      else Some (None, skip_if '';'' st))"

definition parse_optional :: "string \<Rightarrow> ast parser \<Rightarrow> ast option parser" where
  "parse_optional stop expr st =
     (if \<not> check stop st then do { (e, st) \<leftarrow> expr st; Some (Some e, st) } else Some (None, st))"

definition parse_for :: "ast parser \<Rightarrow> ast parser \<Rightarrow> ast parser" where
  "parse_for expr stmt st =
     (let st = expect ''('' st in
      if starts_for_of st then parse_for_of expr stmt st
      else do {
        (i, st) \<leftarrow> parse_for_init expr stmt st;
        (t, st) \<leftarrow> parse_optional '';'' expr st;
        (u, st) \<leftarrow> parse_optional '')'' expr (expect '';'' st);
        (b, st) \<leftarrow> stmt (expect '')'' st);
        Some (ForStatement i t u b, st)
      })"

definition parse_return :: "ast parser \<Rightarrow> ast parser" where
  "parse_return expr st =
     (if \<not> check '';'' st \<and> \<not> check ''}'' st \<and> \<not> at_end st then
        do { (e, st) \<leftarrow> expr st; Some (ReturnStatement (Some e), skip_if '';'' st) }
      else Some (ReturnStatement None, skip_if '';'' st))"

primrec case_loop :: "nat \<Rightarrow> ast parser \<Rightarrow> ast list \<Rightarrow> ast list parser" where
  "case_loop 0 stmt acc st = None"
| "case_loop (Suc k) stmt acc st =
     (if \<not> check ''case'' st \<and> \<not> check ''default'' st \<and> \<not> check ''}'' st \<and> \<not> at_end st then
        do { (s, st) \<leftarrow> stmt st; case_loop k stmt (acc @ [s]) st }
      else Some (acc, st))"

primrec switch_loop :: "nat \<Rightarrow> ast parser \<Rightarrow> ast parser \<Rightarrow> (ast option \<times> ast) list \<Rightarrow> (ast option \<times> ast) list parser" where
  "switch_loop 0 expr stmt acc st = None"
| "switch_loop (Suc k) expr stmt acc st =
     (if \<not> check ''}'' st \<and> \<not> at_end st \<and> \<not> failed st then
        if check ''case'' st \<or> check ''default'' st then
          do {
            (c, st) \<leftarrow>
              (if check ''case'' st then do { (e, st) \<leftarrow> expr (next_state st); Some (Some e, expect '':'' st) }
               else Some (None, expect '':'' (next_state st)));
            (ss, st) \<leftarrow> case_loop k stmt [] st;
            switch_loop k expr stmt (acc @ [(c, Block ss)]) st
          }
        else Some (acc, set_error (''expected '' @ [CHR 0x27] @ ''case'' @ [CHR 0x27] @ '' or '' @ [CHR 0x27] @ ''default'' @ [CHR 0x27]) st)
      else Some (acc, st))"

definition parse_switch :: "nat \<Rightarrow> ast parser \<Rightarrow> ast parser \<Rightarrow> ast parser" where
  "parse_switch k expr stmt st =
     do {
       (t, st) \<leftarrow> expr (expect ''('' st);
       (cs, st) \<leftarrow> switch_loop k expr stmt [] (expect ''{'' (expect '')'' st));
       Some (SwitchStatement t cs, expect ''}'' st)
     }"

definition parse_statement :: "nat \<Rightarrow> ast parser \<Rightarrow> ast parser \<Rightarrow> ast parser" where
  "parse_statement k expr stmt st =
     (if check ''{'' st then parse_block k stmt st
      else if is_declarator st then parse_variables k expr st
      else if check ''class'' st then parse_class k stmt (next_state st)
      else if check ''async'' st \<and> tk_text (peek_at 1 st) = ''function'' then
        do { (f, st) \<leftarrow> parse_function k stmt True (next_state (next_state st)); Some (set_async f, st) }
      else if check ''function'' st then parse_function k stmt True (next_state st)
      else if check ''if'' st then parse_if expr stmt (next_state st)
      else if check ''while'' st then parse_while expr stmt (next_state st)
      else if check ''for'' st then parse_for expr stmt (next_state st)
      else if check ''return'' st then parse_return expr (next_state st)
      else if check ''break'' st then Some (BreakStatement, skip_if '';'' (next_state st))
      else if check ''continue'' st then Some (ContinueStatement, skip_if '';'' (next_state st))
      else if check ''switch'' st then parse_switch k expr stmt (next_state st)
      else do { (e, st) \<leftarrow> expr st; Some (ExpressionStatement e, skip_if '';'' st) })"

section \<open>Tying the knot\<close>

fun parse_expr :: "nat \<Rightarrow> ast parser"
and parse_stmt :: "nat \<Rightarrow> ast parser"
where
  "parse_expr 0 st = None"
| "parse_expr (Suc n) st = parse_assignment n (\<lambda>st. parse_expr n st) (\<lambda>st. parse_stmt n st) st"
| "parse_stmt 0 st = None"
| "parse_stmt (Suc n) st = parse_statement n (\<lambda>st. parse_expr n st) (\<lambda>st. parse_stmt n st) st"

primrec program_loop :: "nat \<Rightarrow> ast parser \<Rightarrow> ast list \<Rightarrow> ast list parser" where
  "program_loop 0 stmt acc st = None"
| "program_loop (Suc k) stmt acc st =
     (if \<not> at_end st \<and> \<not> failed st then
        do { (s, st) \<leftarrow> stmt st; program_loop k stmt (acc @ [s]) st }
      else Some (acc, st))"

text \<open>\<open>Parser(tokens).parse_program()\<close> and the error it leaves.  Three times the number of tokens is fuel
  enough: see \<open>parse_program_returns\<close>.\<close>

definition parse_program :: "js_token list \<Rightarrow> (ast \<times> string) option" where
  "parse_program ts =
     (let n = 3 * length ts + 5 in
      do {
        (ss, st) \<leftarrow> program_loop n (parse_stmt n) [] \<lparr> ps_tokens = ts, ps_error = [] \<rparr>;
        Some (Program ss, ps_error st)
      })"

definition parse_source :: "string \<Rightarrow> (ast \<times> string) option" where
  "parse_source source = parse_program (js_tokenize source)"


section \<open>The parser returns\<close>

text \<open>What the lexer delivers: one end mark, at the end.  The regular expressions are those whose
  compilation returns, with an error or without.\<close>

definition regex_returns :: "js_token \<Rightarrow> bool" where
  "regex_returns t \<longleftrightarrow>
     tk_type t \<noteq> RegexToken \<or> (case compile (tk_text t) (tk_flags t) of Parsed _ \<Rightarrow> True | _ \<Rightarrow> False)"

definition token_clean :: "js_token \<Rightarrow> bool" where
  "token_clean t \<longleftrightarrow> tk_type t \<noteq> EndOfInput \<and> regex_returns t"

definition wf_state :: "js_parser \<Rightarrow> bool" where
  "wf_state st \<longleftrightarrow> ps_tokens st \<noteq> [] \<and> last (ps_tokens st) = new_token EndOfInput [] \<and>
     list_all token_clean (butlast (ps_tokens st))"

abbreviation left :: "js_parser \<Rightarrow> nat" where
  "left st \<equiv> length (ps_tokens st)"

text \<open>What is left after something that must consume a token unless none is left.\<close>

definition after :: "js_parser \<Rightarrow> nat" where
  "after st = (if at_end st then left st else left st - 1)"

definition yields :: "nat \<Rightarrow> ('a \<times> js_parser) option \<Rightarrow> bool" where
  "yields n r \<longleftrightarrow> (\<exists>x st. r = Some (x, st) \<and> wf_state st \<and> left st \<le> n)"

definition returns :: "nat \<Rightarrow> 'a parser \<Rightarrow> bool" where
  "returns n p \<longleftrightarrow> (\<forall>st. wf_state st \<and> left st \<le> n \<longrightarrow> yields (after st) (p st))"

lemma returnsD: "returns n p \<Longrightarrow> wf_state st \<Longrightarrow> left st \<le> n \<Longrightarrow> yields (after st) (p st)"
  by (simp add: returns_def)

lemma yields_Some [intro]: "wf_state st \<Longrightarrow> left st \<le> n \<Longrightarrow> yields n (Some (x, st))"
  by (simp add: yields_def)

lemma yields_mono: "yields m r \<Longrightarrow> m \<le> n \<Longrightarrow> yields n r"
  unfolding yields_def by (metis le_trans)

lemma yields_bind:
  assumes "yields n r" and "\<And>x st. wf_state st \<Longrightarrow> left st \<le> n \<Longrightarrow> yields n (f (x, st))"
  shows "yields n (Option.bind r f)"
  using assms unfolding yields_def [of n r] by auto

lemma yields_if: "(b \<Longrightarrow> yields n x) \<Longrightarrow> (\<not> b \<Longrightarrow> yields n y) \<Longrightarrow> yields n (if b then x else y)"
  by simp

lemma wf_left [simp]: "wf_state st \<Longrightarrow> 0 < left st"
  by (auto simp: wf_state_def)

lemma peek_hd: "wf_state st \<Longrightarrow> peek st = hd (ps_tokens st)"
  by (auto simp: peek_at_def wf_state_def hd_conv_nth)

lemma wf_next [simp, intro]: "wf_state st \<Longrightarrow> wf_state (next_state st)"
proof -
  assume w: "wf_state st"
  show ?thesis
  proof (cases "ps_tokens st")
    case (Cons t ts)
    then show ?thesis using w by (cases ts) (auto simp: wf_state_def next_state_def)
  qed (use w in \<open>simp add: wf_state_def\<close>)
qed

lemma left_next [simp]: "left (next_state st) \<le> left st"
  by (simp add: next_state_def)

lemma left_next_strict: "wf_state st \<Longrightarrow> \<not> at_end st \<Longrightarrow> left (next_state st) < left st"
proof -
  assume w: "wf_state st" and e: "\<not> at_end st"
  obtain t ts where ts: "ps_tokens st = t # ts" using w by (cases "ps_tokens st") (auto simp: wf_state_def)
  have "ts \<noteq> []" using w e ts by (auto simp: wf_state_def at_end_def peek_at_def new_token_def)
  then show ?thesis using ts by (simp add: next_state_def)
qed

lemma left_next_le: "wf_state st \<Longrightarrow> left (next_state st) \<le> after st"
  using left_next_strict [of st] by (auto simp: after_def)

lemma after_le [simp]: "after st \<le> left st"
  by (simp add: after_def)

lemma wf_set_error [simp]: "wf_state (set_error m st) = wf_state st"
  by (simp add: wf_state_def set_error_def)

lemma left_set_error [simp]: "left (set_error m st) = left st"
  by (simp add: set_error_def)

lemma at_end_set_error [simp]: "at_end (set_error m st) = at_end st"
  by (simp add: at_end_def peek_at_def set_error_def)

lemma wf_expect [simp, intro]: "wf_state st \<Longrightarrow> wf_state (expect s st)"
  by (simp add: expect_def)

lemma wf_skip_if [simp, intro]: "wf_state st \<Longrightarrow> wf_state (skip_if s st)"
  by (simp add: skip_if_def)

lemma check_not_end: "check s st \<Longrightarrow> \<not> at_end st"
  by (auto simp: check_def at_end_def)

lemma is_name_not_end: "is_name st \<Longrightarrow> \<not> at_end st"
  by (auto simp: is_name_def at_end_def)

lemma is_identifier_not_end: "is_identifier st \<Longrightarrow> \<not> at_end st"
  by (auto simp: is_identifier_def at_end_def)

lemmas not_end = check_not_end is_name_not_end is_identifier_not_end

text \<open>Bounds of the states reached by the elementary moves.\<close>

lemma left_moves [simp, intro]:
  "left st \<le> n \<Longrightarrow> left (next_state st) \<le> n"
  "left st \<le> n \<Longrightarrow> left (expect s st) \<le> n"
  "left st \<le> n \<Longrightarrow> left (skip_if s st) \<le> n"
  by (auto simp: expect_def skip_if_def intro: le_trans [OF left_next])

lemma left_consume: "wf_state st \<Longrightarrow> \<not> at_end st \<Longrightarrow> left st = Suc n \<Longrightarrow> left (next_state st) \<le> n"
  using left_next_strict [of st] by simp

lemma returns_weak: "returns L p \<Longrightarrow> wf_state st \<Longrightarrow> left st \<le> n \<Longrightarrow> n \<le> L \<Longrightarrow> yields n (p st)"
  using returnsD [of L p st] yields_mono [of "after st" "p st" n] after_le [of st] by linarith

lemma returns_strict:
  "returns L p \<Longrightarrow> wf_state st \<Longrightarrow> left st = Suc n \<Longrightarrow> n < L \<Longrightarrow> \<not> at_end st \<Longrightarrow> yields n (p st)"
  using returnsD [of L p st] by (simp add: after_def)

lemma wf_Suc: "wf_state st \<Longrightarrow> \<exists>n. left st = Suc n"
  by (cases "left st") (auto simp: wf_state_def)

lemmas stepping = yields_bind yields_Some

lemma items_loop_yields:
  assumes "returns L expr"
  shows "wf_state st \<Longrightarrow> left st \<le> n \<Longrightarrow> n \<le> L \<Longrightarrow> n \<le> k \<Longrightarrow> yields n (items_loop k expr g close acc st)"
proof (induction k arbitrary: n st acc)
  case 0
  then show ?case using wf_left [of st] by simp
next
  case (Suc k)
  show ?case
  proof (cases "\<not> check close st \<and> \<not> at_end st \<and> \<not> (g \<and> failed st)")
    case True
    obtain m where m: "left st = Suc m" "m \<le> L" "m \<le> k" "m \<le> n" "m < L" using wf_Suc Suc.prems by fastforce
    have e: "yields m (expr st)" using returns_strict [OF assms] Suc.prems m True by simp
    have "yields m (items_loop (Suc k) expr g close acc st)"
      using True Suc.IH [OF _ _ m(2,3)] by (auto intro!: stepping e)
    then show ?thesis using m(4) by (rule yields_mono)
  next
    case False
    then show ?thesis using Suc.prems by auto
  qed
qed


lemma object_loop_yields:
  assumes "returns L expr"
  shows "wf_state st \<Longrightarrow> left st \<le> n \<Longrightarrow> n \<le> L \<Longrightarrow> n \<le> k \<Longrightarrow> yields n (object_loop k expr acc st)"
proof (induction k arbitrary: n st acc)
  case 0
  then show ?case using wf_left [of st] by simp
next
  case (Suc k)
  show ?case
  proof (cases "\<not> check ''}'' st \<and> \<not> at_end st")
    case True
    obtain m where m: "left st = Suc m" "m \<le> L" "m \<le> k" "m \<le> n" using wf_Suc Suc.prems by fastforce
    note c = left_consume [OF Suc.prems(1) True [THEN conjunct2] m(1)]
    have e: "yields m (expr (expect '':'' (next_state st)))"
      by (rule returns_weak [OF assms]) (use Suc.prems m c in auto)
    show ?thesis
    proof (cases "is_name st \<or> tk_type (peek st) = StringToken")
      case key: True
      then have "yields m (object_loop (Suc k) expr acc st)"
        using True Suc.IH [OF _ _ m(2,3)] by (auto simp: Let_def intro!: stepping e)
      then show ?thesis using m(4) by (rule yields_mono)
    next
      case False
      then show ?thesis using True Suc.prems by auto
    qed
  next
    case False
    then show ?thesis using Suc.prems by auto
  qed
qed

lemma parameters_loop_yields:
  "wf_state st \<Longrightarrow> left st \<le> n \<Longrightarrow> n \<le> k \<Longrightarrow> yields n (parameters_loop k acc st)"
proof (induction k arbitrary: n st acc)
  case 0
  then show ?case using wf_left [of st] by simp
next
  case (Suc k)
  show ?case
  proof (cases "\<not> check '')'' st \<and> \<not> at_end st")
    case True
    obtain m where m: "left st = Suc m" "m \<le> k" "m \<le> n" using wf_Suc Suc.prems by fastforce
    note c = left_consume [OF Suc.prems(1) True [THEN conjunct2] m(1)]
    then have "left (next_state st) \<le> n" using m by simp
    then show ?thesis
      using True Suc.prems m c
      by (auto simp: Let_def intro!: yields_Some intro: yields_mono [OF Suc.IH m(3)])
  next
    case False
    then show ?thesis using Suc.prems by auto
  qed
qed

lemma block_loop_yields:
  assumes "returns L stmt"
  shows "wf_state st \<Longrightarrow> left st \<le> n \<Longrightarrow> n \<le> L \<Longrightarrow> n \<le> k \<Longrightarrow> yields n (block_loop k stmt acc st)"
proof (induction k arbitrary: n st acc)
  case 0
  then show ?case using wf_left [of st] by simp
next
  case (Suc k)
  show ?case
  proof (cases "\<not> check ''}'' st \<and> \<not> at_end st \<and> \<not> failed st")
    case True
    obtain m where m: "left st = Suc m" "m \<le> L" "m \<le> k" "m \<le> n" "m < L" using wf_Suc Suc.prems by fastforce
    have e: "yields m (stmt st)" using returns_strict [OF assms] Suc.prems m True by simp
    have "yields m (block_loop (Suc k) stmt acc st)"
      using True Suc.IH [OF _ _ m(2,3)] by (auto intro!: stepping e)
    then show ?thesis using m(4) by (rule yields_mono)
  next
    case False
    then show ?thesis using Suc.prems by auto
  qed
qed

lemma parse_block_yields:
  "returns L stmt \<Longrightarrow> wf_state st \<Longrightarrow> left st \<le> n \<Longrightarrow> n \<le> L \<Longrightarrow> n \<le> k \<Longrightarrow> yields n (parse_block k stmt st)"
  by (auto simp: parse_block_def intro!: stepping block_loop_yields)

lemma parse_function_yields:
  "returns L stmt \<Longrightarrow> wf_state st \<Longrightarrow> left st \<le> n \<Longrightarrow> n \<le> L \<Longrightarrow> n \<le> k \<Longrightarrow> yields n (parse_function k stmt d st)"
  by (auto simp: parse_function_def Let_def intro!: stepping parameters_loop_yields parse_block_yields)

lemma class_loop_yields:
  assumes "returns L stmt"
  shows "wf_state st \<Longrightarrow> left st \<le> n \<Longrightarrow> n \<le> L \<Longrightarrow> n \<le> k \<Longrightarrow> yields n (class_loop k stmt ctor ms st)"
proof (induction k arbitrary: n st ctor ms)
  case 0
  then show ?case using wf_left [of st] by simp
next
  case (Suc k)
  show ?case
  proof (cases "\<not> check ''}'' st \<and> \<not> at_end st \<and> \<not> failed st")
    case True
    obtain m where m: "left st = Suc m" "m \<le> L" "m \<le> k" "m \<le> n" using wf_Suc Suc.prems by fastforce
    have c: "left (next_state st) \<le> m" using left_consume [OF Suc.prems(1) _ m(1)] True by simp
    have f: "yields m (parse_function k stmt False (next_state st))"
      by (rule parse_function_yields [OF assms]) (use Suc.prems c m in auto)
    have i: "yields m (class_loop k stmt a b st')" if "wf_state st'" "left st' \<le> m" for a b st'
      using Suc.IH [OF that m(2,3)] .
    show ?thesis
    proof (cases "is_name st")
      case n: True
      have "yields m (class_loop (Suc k) stmt ctor ms st)" using True n by (auto intro!: stepping f i)
      then show ?thesis using m(4) by (rule yields_mono)
    next
      case False
      then show ?thesis using True Suc.prems by auto
    qed
  next
    case False
    then show ?thesis using Suc.prems by auto
  qed
qed

lemma parse_class_yields:
  "returns L stmt \<Longrightarrow> wf_state st \<Longrightarrow> left st \<le> n \<Longrightarrow> n \<le> L \<Longrightarrow> n \<le> k \<Longrightarrow> yields n (parse_class k stmt st)"
  unfolding parse_class_def Let_def
  by (auto intro!: stepping class_loop_yields split: prod.splits)


lemma at_end_peek: "wf_state st \<Longrightarrow> at_end st \<Longrightarrow> peek st = new_token EndOfInput []"
proof -
  assume w: "wf_state st" and e: "at_end st"
  obtain t ts where ts: "ps_tokens st = t # ts" using w by (cases "ps_tokens st") (auto simp: wf_state_def)
  then have "ts = []" using w e by (auto simp: wf_state_def at_end_def peek_at_def token_clean_def split: if_splits)
  then show ?thesis using w ts by (simp add: wf_state_def peek_at_def)
qed

lemma peek_clean: "wf_state st \<Longrightarrow> \<not> at_end st \<Longrightarrow> token_clean (peek st)"
proof -
  assume w: "wf_state st" and e: "\<not> at_end st"
  obtain t ts where ts: "ps_tokens st = t # ts" using w by (cases "ps_tokens st") (auto simp: wf_state_def)
  then have "ts \<noteq> []" using w e by (auto simp: wf_state_def at_end_def peek_at_def new_token_def)
  then show ?thesis using w ts by (simp add: wf_state_def peek_at_def)
qed

lemma left_next_error: "left (next_state (set_error msg st)) = left (next_state st)"
  by (simp add: next_state_def set_error_def)

lemma regex_node_yields:
  assumes "token_clean t" and "tk_type t = RegexToken" and "wf_state st" and "left st \<le> n"
  shows "yields n (regex_node t st)"
  using assms
  by (auto simp: regex_node_def token_clean_def regex_returns_def split: parsed.splits sum.splits)

lemma returnsI:
  assumes "\<And>st. wf_state st \<Longrightarrow> at_end st \<Longrightarrow> left st \<le> n \<Longrightarrow> yields (left st) (p st)"
    and "\<And>st m. wf_state st \<Longrightarrow> \<not> at_end st \<Longrightarrow> left st = Suc m \<Longrightarrow> m < n \<Longrightarrow> left (next_state st) \<le> m \<Longrightarrow> yields m (p st)"
  shows "returns n p"
  unfolding returns_def
proof (intro allI impI)
  fix st
  assume st: "wf_state st \<and> left st \<le> n"
  obtain m where m: "left st = Suc m" using wf_Suc st by blast
  show "yields (after st) (p st)"
    using assms(1) [of st] assms(2) [of st m] st m left_consume [of st m] by (auto simp: after_def)
qed

lemma not_at_end_type: "at_end st \<Longrightarrow> \<not> check s st \<and> \<not> is_name st \<and> \<not> is_identifier st"
  by (auto simp: at_end_def check_def is_name_def is_identifier_def)

lemma parse_primary_returns:
  assumes "returns M expr" and "returns M stmt" and "M < k"
  shows "returns (Suc M) (parse_primary k expr stmt)"
proof (rule returnsI)
  fix st
  assume st: "wf_state st" "at_end st" "left st \<le> Suc M"
  have "parse_primary k expr stmt st =
    Some (NullLiteral, next_state (set_error (''unexpected token '' @ [CHR 0x27] @ [] @ [CHR 0x27]) st))"
    using at_end_peek [OF st(1,2)] not_at_end_type [OF st(2)] by (simp add: parse_primary_def new_token_def Let_def)
  then show "yields (left st) (parse_primary k expr stmt st)" using st by auto
next
  fix st m
  assume st: "wf_state st" "\<not> at_end st" "left st = Suc m" "m < Suc M" "left (next_state st) \<le> m"
  have m: "m \<le> M" "m \<le> k" using st(4) assms(3) by simp_all
  have r: "yields m (regex_node (peek st) (next_state st))" if "tk_type (peek st) = RegexToken"
    using regex_node_yields [OF peek_clean [OF st(1,2)] that] st by auto
  have e: "yields m (expr (next_state st))" by (rule returns_weak [OF assms(1)]) (use st m in auto)
  have i: "yields m (items_loop k expr g c [] (next_state st))" for g c
    by (rule items_loop_yields [OF assms(1)]) (use st m in auto)
  have ob: "yields m (object_loop k expr [] (next_state st))"
    by (rule object_loop_yields [OF assms(1)]) (use st m in auto)
  have f: "yields m (parse_function k stmt False (next_state st))"
    by (rule parse_function_yields [OF assms(2)]) (use st m in auto)
  have x: "left (next_state (set_error msg st)) \<le> m" for msg
    using st(5) left_next_error [of msg st] by simp
  show "yields m (parse_primary k expr stmt st)"
    unfolding parse_primary_def Let_def using st r x by (auto intro!: stepping e i ob f)
qed

lemma apply_postfix_yields:
  assumes "returns L expr"
  shows "wf_state st \<Longrightarrow> left st \<le> n \<Longrightarrow> n \<le> L \<Longrightarrow> n \<le> k \<Longrightarrow> yields n (apply_postfix k expr e st)"
proof (induction k arbitrary: n st e)
  case 0
  then show ?case using wf_left [of st] by simp
next
  case (Suc k)
  obtain m where m: "left st = Suc m" "m \<le> L" "m \<le> k" "m \<le> n" using wf_Suc Suc.prems by fastforce
  show ?case
  proof (cases "check ''.'' st \<or> check ''['' st \<or> check ''('' st \<or> check ''++'' st \<or> check ''--'' st")
    case True
    then have "\<not> at_end st" using check_not_end by blast
    then have c: "left (next_state st) \<le> m" using left_consume [OF Suc.prems(1) _ m(1)] by blast
    note IH = Suc.IH [OF _ _ m(2,3)]
    have e: "yields m (expr (next_state st))" by (rule returns_weak [OF assms]) (use Suc.prems c m in auto)
    have i: "yields m (items_loop k expr g cl [] (next_state st))" for g cl
      by (rule items_loop_yields [OF assms]) (use Suc.prems c m in auto)
    have "yields m (apply_postfix (Suc k) expr e st)" if h: "\<not> (check ''.'' st \<and> \<not> is_name (next_state st))"
      using h True Suc.prems(1) c by (auto simp: Let_def intro!: stepping e i IH)
    moreover have "yields m (apply_postfix (Suc k) expr e st)" if h: "check ''.'' st" "\<not> is_name (next_state st)"
      using h Suc.prems(1) c by (auto simp: Let_def)
    ultimately show ?thesis using m(4) yields_mono by blast
  next
    case False
    then show ?thesis using Suc.prems by auto
  qed
qed


lemma new_callee_yields:
  assumes "returns L expr"
  shows "wf_state st \<Longrightarrow> left st \<le> n \<Longrightarrow> n \<le> L \<Longrightarrow> n < k \<Longrightarrow> yields n (new_callee k expr e st)"
proof (induction k arbitrary: n st e)
  case 0
  then show ?case by simp
next
  case (Suc k)
  obtain m where m: "left st = Suc m" "m \<le> L" "m < k" "m \<le> n" using wf_Suc Suc.prems by fastforce
  show ?case
  proof (cases "\<not> failed st \<and> (check ''.'' st \<or> check ''['' st)")
    case True
    then have "\<not> at_end st" using check_not_end by blast
    then have c: "left (next_state st) \<le> m" using left_consume [OF Suc.prems(1) _ m(1)] by blast
    note IH = Suc.IH [OF _ _ m(2,3)]
    have e: "yields m (expr (next_state st))" by (rule returns_weak [OF assms]) (use Suc.prems c m in auto)
    have "yields m (new_callee (Suc k) expr e st)"
      using True Suc.prems(1) c by (auto simp: Let_def intro!: stepping e IH)
    then show ?thesis using m(4) by (rule yields_mono)
  next
    case False
    then show ?thesis using Suc.prems by auto
  qed
qed

lemma parse_new_yields:
  assumes "returns M expr" and "returns M stmt" and "n \<le> M" and "M < k" and "wf_state st" and "left st \<le> n"
  shows "yields n (parse_new k expr stmt st)"
proof -
  have p: "yields n (parse_primary k expr stmt st)"
    by (rule returns_weak [OF parse_primary_returns [OF assms(1,2,4)]]) (use assms in auto)
  have c: "yields n (new_callee k expr e st')" if "wf_state st'" "left st' \<le> n" for e st'
    by (rule new_callee_yields [OF assms(1) that]) (use assms in auto)
  have i: "yields n (items_loop k expr g cl [] st')" if "wf_state st'" "left st' \<le> n" for g cl st'
    by (rule items_loop_yields [OF assms(1) that]) (use assms in auto)
  have a: "yields n (apply_postfix k expr e st')" if "wf_state st'" "left st' \<le> n" for e st'
    by (rule apply_postfix_yields [OF assms(1) that]) (use assms in auto)
  show ?thesis unfolding parse_new_def by (auto intro!: stepping p c i a)
qed

text \<open>At the end of the input an expression is an error and nothing is consumed.\<close>

definition unexpected_end :: "js_parser \<Rightarrow> js_parser" where
  "unexpected_end st = next_state (set_error (''unexpected token '' @ [CHR 0x27] @ [] @ [CHR 0x27]) st)"

lemma parse_primary_end:
  "wf_state st \<Longrightarrow> at_end st \<Longrightarrow> parse_primary k expr stmt st = Some (NullLiteral, unexpected_end st)"
  using at_end_peek [of st] not_at_end_type [of st] by (simp add: parse_primary_def new_token_def Let_def unexpected_end_def)

lemma unexpected_end [simp]:
  assumes "wf_state st" and "at_end st"
  shows "wf_state (unexpected_end st)" and "at_end (unexpected_end st)" and "left (unexpected_end st) = left st"
proof -
  obtain t ts where ts: "ps_tokens st = t # ts" using assms(1) by (cases "ps_tokens st") (auto simp: wf_state_def)
  then have "ts = []" using assms by (auto simp: wf_state_def at_end_def peek_at_def token_clean_def split: if_splits)
  then have "unexpected_end st = set_error (''unexpected token '' @ [CHR 0x27] @ [] @ [CHR 0x27]) st"
    using ts by (simp add: unexpected_end_def next_state_def set_error_def)
  then show "wf_state (unexpected_end st)" "at_end (unexpected_end st)" "left (unexpected_end st) = left st"
    using assms by simp_all
qed

lemma parse_unary_end:
  assumes "wf_state st" and "at_end st"
  shows "parse_unary (Suc d) (Suc k) expr stmt st = Some (NullLiteral, unexpected_end st)"
proof -
  have "\<not> list_ex (\<lambda>s. check s st) unary_operators" using not_at_end_type [OF assms(2)] by (simp add: list_ex_iff)
  then show ?thesis
    using parse_primary_end [OF assms] not_at_end_type [OF assms(2)] not_at_end_type [OF unexpected_end(2) [OF assms]] by simp
qed

lemma parse_unary_returns:
  assumes "returns M expr" and "returns M stmt" and "M < k"
  shows "n \<le> M \<Longrightarrow> Suc n \<le> d \<Longrightarrow> returns (Suc n) (parse_unary d k expr stmt)"
proof (induction d arbitrary: n)
  case 0
  then show ?case by simp
next
  case (Suc d)
  have prim: "returns (Suc M) (parse_primary k expr stmt)" by (rule parse_primary_returns [OF assms])
  obtain k' where k: "k = Suc k'" using assms(3) by (cases k) auto
  show ?case
  proof (rule returnsI)
    fix st
    assume st: "wf_state st" "at_end st" "left st \<le> Suc n"
    then show "yields (left st) (parse_unary (Suc d) k expr stmt st)"
      unfolding k using parse_unary_end [OF st(1,2)] unexpected_end [OF st(1,2)] by auto
  next
    fix st m
    assume st: "wf_state st" "\<not> at_end st" "left st = Suc m" "m < Suc n" "left (next_state st) \<le> m"
    have m: "m \<le> M" using st Suc.prems by simp
    have new: "yields m (parse_new k expr stmt (next_state st))"
      by (rule parse_new_yields [OF assms(1,2) m assms(3)]) (use st in auto)
    have u: "yields m (parse_unary d k expr stmt (next_state st))"
    proof (cases n)
      case 0
      then have "left (next_state st) \<le> 0" using st by simp
      then show ?thesis using wf_left [OF wf_next [OF st(1)]] by simp
    next
      case (Suc n')
      have "returns (Suc n') (parse_unary d k expr stmt)" by (rule Suc.IH) (use Suc Suc.prems in auto)
      then show ?thesis by (rule returns_weak) (use st Suc in auto)
    qed
    have p: "yields m (parse_primary k expr stmt st)" by (rule returns_strict [OF prim]) (use st m in auto)
    have a: "yields m (apply_postfix k expr e st')" if "wf_state st'" "left st' \<le> m" for e st'
      by (rule apply_postfix_yields [OF assms(1) that]) (use m assms(3) in auto)
    show "yields m (parse_unary (Suc d) k expr stmt st)"
      by (auto intro!: stepping new u p a)
  qed
qed

lemma binary_yields:
  assumes u: "returns L unary"
  shows "wf_state st \<Longrightarrow> left st \<le> j \<Longrightarrow> j \<le> L \<Longrightarrow> 2 * j + 1 < d \<Longrightarrow> yields j (parse_binary d unary m st)"
    and "wf_state st \<Longrightarrow> left st \<le> j \<Longrightarrow> j \<le> L \<Longrightarrow> 2 * j < d \<Longrightarrow> yields j (binary_loop d unary m l st)"
proof (induction d arbitrary: j st m l)
  case 0
  { case 1 then show ?case by simp }
  { case 2 then show ?case by simp }
next
  case (Suc d)
  have loop: "yields i (binary_loop d unary m l st')" if "wf_state st'" "left st' \<le> i" "i \<le> L" "2 * i < d" for i m l st'
    using Suc.IH(2) that by blast
  { case 1
    have "yields j (unary st)" by (rule returns_weak [OF u]) (use 1 in auto)
    then show ?case using 1 by (auto intro!: stepping loop) }
  { case 2
    show ?case
    proof (cases "tk_type (peek st) \<noteq> PunctuatorToken \<and> tk_type (peek st) \<noteq> KeywordToken")
      case True
      then show ?thesis using 2 by auto
    next
      case False
      then have e: "\<not> at_end st" by (auto simp: at_end_def)
      obtain i where i: "left st = Suc i" "i \<le> L" "i < j" using wf_Suc 2 by fastforce
      have "yields i (parse_binary d unary p (next_state st))" for p
        by (rule Suc.IH(1)) (use 2 i left_consume [OF 2(1) e i(1)] in auto)
      then have b: "yields j (parse_binary d unary p (next_state st))" for p using yields_mono i(3) less_imp_le by blast
      have l: "yields j (do { (r, st) \<leftarrow> parse_binary d unary p (next_state st); binary_loop d unary m (binary_node op l r) st })" for p op
        unfolding yields_def
      proof -
        from b [of p] have "yields i (parse_binary d unary p (next_state st))"
          using \<open>\<And>p. yields i (parse_binary d unary p (next_state st))\<close> by blast
        then obtain r st' where r: "parse_binary d unary p (next_state st) = Some (r, st')" "wf_state st'" "left st' \<le> i"
          by (auto simp: yields_def)
        have "yields i (binary_loop d unary m (binary_node op l r) st')" by (rule loop) (use r i 2 in auto)
        then have "yields j (binary_loop d unary m (binary_node op l r) st')" using i(3) yields_mono less_imp_le by blast
        then show "\<exists>x st''. do { (r, st) \<leftarrow> parse_binary d unary p (next_state st); binary_loop d unary m (binary_node op l r) st } = Some (x, st'') \<and>
            wf_state st'' \<and> left st'' \<le> j"
          unfolding yields_def r(1) by simp
      qed
      show ?thesis using 2 l by (auto simp: Let_def)
    qed }
qed

lemma parse_binary_strict:
  assumes "returns L unary" and "wf_state st" and "\<not> at_end st" and "left st = Suc i" and "i < L" and "2 * i + 1 < d"
  shows "yields i (parse_binary d unary m st)"
proof -
  obtain d' where d: "d = Suc d'" using assms(6) by (cases d) auto
  have "yields i (unary st)" by (rule returns_strict [OF assms(1)]) (use assms in auto)
  then show ?thesis unfolding d using assms d by (auto intro!: stepping binary_yields(2) [OF assms(1)])
qed

lemma parse_binary_end:
  assumes "wf_state st" and "at_end st"
  shows "parse_binary (Suc (Suc d)) (parse_unary (Suc d') (Suc k) expr stmt) m st = Some (NullLiteral, unexpected_end st)"
  using unexpected_end(2) [OF assms] by (simp add: parse_unary_end [OF assms] at_end_def Let_def del: parse_unary.simps)

lemma parse_assignment_returns:
  assumes "returns M expr" and "returns M stmt" and "2 * Suc M \<le> k"
  shows "returns (Suc M) (parse_assignment k expr stmt)"
proof (rule returnsI)
  fix st
  assume st: "wf_state st" "at_end st" "left st \<le> Suc M"
  obtain k' where k: "k = Suc (Suc k')" using assms(3) by (cases k; cases "k - 1") auto
  have "parse_assignment k expr stmt st = Some (NullLiteral, unexpected_end st)"
    using not_at_end_type [OF unexpected_end(2) [OF st(1,2)]]
    unfolding parse_assignment_def parse_conditional_def k by (simp add: parse_binary_end [OF st(1,2)] list_ex_iff del: parse_unary.simps parse_binary.simps)
  then show "yields (left st) (parse_assignment k expr stmt st)" using unexpected_end [OF st(1,2)] by auto
next
  fix st m
  assume st: "wf_state st" "\<not> at_end st" "left st = Suc m" "m < Suc M" "left (next_state st) \<le> m"
  have m: "m \<le> M" using st by simp
  have u: "returns (Suc M) (parse_unary k k expr stmt)"
    by (rule parse_unary_returns [OF assms(1,2)]) (use assms(3) in auto)
  have b: "yields m (parse_binary k (parse_unary k k expr stmt) (Suc 0) st)"
    by (rule parse_binary_strict [OF u st(1-3)]) (use st assms(3) in auto)
  have e: "yields m (expr st')" if "wf_state st'" "left st' \<le> m" for st'
    by (rule returns_weak [OF assms(1) that m])
  have c: "yields m (parse_conditional k expr stmt st)"
    unfolding parse_conditional_def by (auto intro!: stepping b e)
  show "yields m (parse_assignment k expr stmt st)"
    unfolding parse_assignment_def by (auto intro!: stepping c e)
qed


subsection \<open>Statements\<close>

lemma declaration_loop_yields:
  assumes "returns L expr"
  shows "wf_state st \<Longrightarrow> left st \<le> n \<Longrightarrow> n \<le> L \<Longrightarrow> n \<le> k \<Longrightarrow> yields n (declaration_loop k expr acc st)"
proof (induction k arbitrary: n st acc)
  case 0
  then show ?case using wf_left [of st] by simp
next
  case (Suc k)
  show ?case
  proof (cases "is_identifier st")
    case True
    obtain m where m: "left st = Suc m" "m \<le> L" "m \<le> k" "m \<le> n" using wf_Suc Suc.prems by fastforce
    have c: "left (next_state st) \<le> m" by (rule left_consume [OF Suc.prems(1) is_identifier_not_end [OF True] m(1)])
    have e: "yields m (expr st')" if "wf_state st'" "left st' \<le> m" for st'
      by (rule returns_weak [OF assms that m(2)])
    have "yields m (declaration_loop (Suc k) expr acc st)"
      using True Suc.prems(1) c Suc.IH [OF _ _ m(2,3)] by (auto simp: Let_def intro!: stepping e)
    then show ?thesis using m(4) by (rule yields_mono)
  next
    case False
    then show ?thesis using Suc.prems by auto
  qed
qed

lemma case_loop_yields:
  assumes "returns L stmt"
  shows "wf_state st \<Longrightarrow> left st \<le> n \<Longrightarrow> n \<le> L \<Longrightarrow> n \<le> k \<Longrightarrow> yields n (case_loop k stmt acc st)"
proof (induction k arbitrary: n st acc)
  case 0
  then show ?case using wf_left [of st] by simp
next
  case (Suc k)
  show ?case
  proof (cases "\<not> check ''case'' st \<and> \<not> check ''default'' st \<and> \<not> check ''}'' st \<and> \<not> at_end st")
    case True
    obtain m where m: "left st = Suc m" "m \<le> L" "m \<le> k" "m \<le> n" "m < L" using wf_Suc Suc.prems by fastforce
    have e: "yields m (stmt st)" using returns_strict [OF assms] Suc.prems m True by simp
    have "yields m (case_loop (Suc k) stmt acc st)"
      using True Suc.IH [OF _ _ m(2,3)] by (auto intro!: stepping e)
    then show ?thesis using m(4) by (rule yields_mono)
  next
    case False
    then show ?thesis using Suc.prems by auto
  qed
qed

lemma switch_loop_yields:
  assumes "returns L expr" and "returns L stmt"
  shows "wf_state st \<Longrightarrow> left st \<le> n \<Longrightarrow> n \<le> L \<Longrightarrow> n \<le> k \<Longrightarrow> yields n (switch_loop k expr stmt acc st)"
proof (induction k arbitrary: n st acc)
  case 0
  then show ?case using wf_left [of st] by simp
next
  case (Suc k)
  show ?case
  proof (cases "\<not> check ''}'' st \<and> \<not> at_end st \<and> \<not> failed st \<and> (check ''case'' st \<or> check ''default'' st)")
    case True
    obtain m where m: "left st = Suc m" "m \<le> L" "m \<le> k" "m \<le> n" using wf_Suc Suc.prems by fastforce
    have c: "left (next_state st) \<le> m" using left_consume [OF Suc.prems(1) _ m(1)] True by simp
    have e: "yields m (expr st')" if "wf_state st'" "left st' \<le> m" for st'
      by (rule returns_weak [OF assms(1) that m(2)])
    have l: "yields m (case_loop k stmt [] st')" if "wf_state st'" "left st' \<le> m" for st'
      by (rule case_loop_yields [OF assms(2) that m(2,3)])
    have "yields m (switch_loop (Suc k) expr stmt acc st)"
      using True Suc.prems(1) c Suc.IH [OF _ _ m(2,3)] by (auto intro!: stepping e l)
    then show ?thesis using m(4) by (rule yields_mono)
  next
    case False
    then show ?thesis using Suc.prems by auto
  qed
qed

text \<open>Statements that begin with a keyword, behind that keyword.\<close>

lemma keyword_statements_yield:
  assumes e: "returns M expr" and s: "returns M stmt" and k: "M \<le> k" and n: "n \<le> M"
    and st: "wf_state st" "left st \<le> n"
  shows "yields n (parse_if expr stmt st)" and "yields n (parse_while expr stmt st)"
    and "yields n (parse_for expr stmt st)" and "yields n (parse_return expr st)"
    and "yields n (parse_switch k expr stmt st)"
proof -
  have e': "yields n (expr st')" if "wf_state st'" "left st' \<le> n" for st'
    by (rule returns_weak [OF e that n])
  have s': "yields n (stmt st')" if "wf_state st'" "left st' \<le> n" for st'
    by (rule returns_weak [OF s that n])
  have w: "yields n (switch_loop k expr stmt [] st')" if "wf_state st'" "left st' \<le> n" for st'
    by (rule switch_loop_yields [OF e s that n]) (use n k in simp)
  have o: "yields n (parse_optional x expr st')" if "wf_state st'" "left st' \<le> n" for x st'
    using that by (auto simp: parse_optional_def intro!: stepping e')
  have i: "yields n (parse_for_init expr stmt st')" if "wf_state st'" "left st' \<le> n" for st'
    using that by (auto simp: parse_for_init_def intro!: stepping e' s')
  have f: "yields n (parse_for_of expr stmt st')" if "wf_state st'" "left st' \<le> n" for st'
    using that by (auto simp: parse_for_of_def intro!: stepping e' s')
  show "yields n (parse_if expr stmt st)" using st by (auto simp: parse_if_def intro!: stepping e' s')
  show "yields n (parse_while expr stmt st)" using st by (auto simp: parse_while_def intro!: stepping e' s')
  show "yields n (parse_for expr stmt st)" using st by (auto simp: parse_for_def Let_def intro!: stepping e' s' f i o)
  show "yields n (parse_return expr st)" using st by (auto simp: parse_return_def intro!: stepping e')
  show "yields n (parse_switch k expr stmt st)" using st by (auto simp: parse_switch_def intro!: stepping e' w)
qed

lemma parse_statement_returns:
  assumes e: "returns (Suc M) expr" and s: "returns M stmt" and k: "M \<le> k"
  shows "returns (Suc M) (parse_statement k expr stmt)"
proof (rule returnsI)
  fix st
  assume st: "wf_state st" "at_end st" "left st \<le> Suc M"
  have x: "yields (left st) (expr st)" by (rule returns_weak [OF e st(1)]) (use st in auto)
  show "yields (left st) (parse_statement k expr stmt st)"
    using not_at_end_type [OF st(2)] unfolding parse_statement_def is_declarator_def
    by (auto intro!: stepping x)
next
  fix st m
  assume st: "wf_state st" "\<not> at_end st" "left st = Suc m" "m < Suc M" "left (next_state st) \<le> m"
  have m: "m \<le> M" "m \<le> Suc M" "m \<le> k" using st(4) k by simp_all
  have n: "wf_state (next_state st)" using st(1) by simp
  have e': "returns M expr" using e by (simp add: returns_def)
  have x: "yields m (expr st)" by (rule returns_strict [OF e st(1,3) _ st(2)]) (use st(4) in simp)
  have bl: "yields m (block_loop k stmt [] (next_state st))" by (rule block_loop_yields [OF s n st(5) m(1,3)])
  have d: "yields m (declaration_loop k expr [] (next_state st))" by (rule declaration_loop_yields [OF e' n st(5) m(1,3)])
  have c: "yields m (parse_class k stmt (next_state st))" by (rule parse_class_yields [OF s n st(5) m(1,3)])
  have f: "yields m (parse_function k stmt True st')" if "wf_state st'" "left st' \<le> m" for st'
    by (rule parse_function_yields [OF s that m(1,3)])
  note kw = keyword_statements_yield [OF e' s k m(1) n st(5)]
  have v: "yields m (parse_variables k expr st)" unfolding parse_variables_def by (auto intro!: stepping d)
  show "yields m (parse_statement k expr stmt st)"
    unfolding parse_statement_def
    by (intro yields_if) (use n st(5) v c f kw in \<open>auto simp: parse_block_def intro!: stepping bl x\<close>)
qed

lemma parser_returns:
  "2 * L + 3 \<le> f \<Longrightarrow> returns L (\<lambda>st. parse_expr f st)"
  "2 * L + 4 \<le> f \<Longrightarrow> returns L (\<lambda>st. parse_stmt f st)"
proof (induction f arbitrary: L)
  case 0
  { case 1 then show ?case by simp }
  { case 2 then show ?case by simp }
next
  case (Suc n)
  have zero: "returns 0 p" for p :: "ast parser" using wf_left by (fastforce simp: returns_def)
  { case 1
    show ?case
    proof (cases L)
      case (Suc M)
      have "returns (Suc M) (parse_assignment n (\<lambda>st. parse_expr n st) (\<lambda>st. parse_stmt n st))"
        by (rule parse_assignment_returns [OF Suc.IH]) (use 1 Suc in auto)
      then show ?thesis using Suc by simp
    qed (simp only: zero) }
  { case 2
    show ?case
    proof (cases L)
      case (Suc M)
      have "returns (Suc M) (parse_statement n (\<lambda>st. parse_expr n st) (\<lambda>st. parse_stmt n st))"
        by (rule parse_statement_returns [OF Suc.IH]) (use 2 Suc in auto)
      then show ?thesis using Suc by simp
    qed (simp only: zero) }
qed

lemma program_loop_yields:
  assumes "returns L stmt"
  shows "wf_state st \<Longrightarrow> left st \<le> n \<Longrightarrow> n \<le> L \<Longrightarrow> n \<le> k \<Longrightarrow> yields n (program_loop k stmt acc st)"
proof (induction k arbitrary: n st acc)
  case 0
  then show ?case using wf_left [of st] by simp
next
  case (Suc k)
  show ?case
  proof (cases "\<not> at_end st \<and> \<not> failed st")
    case True
    obtain m where m: "left st = Suc m" "m \<le> L" "m \<le> k" "m \<le> n" "m < L" using wf_Suc Suc.prems by fastforce
    have e: "yields m (stmt st)" using returns_strict [OF assms] Suc.prems m True by simp
    have "yields m (program_loop (Suc k) stmt acc st)"
      using True Suc.IH [OF _ _ m(2,3)] by (auto intro!: stepping e)
    then show ?thesis using m(4) by (rule yields_mono)
  next
    case False
    then show ?thesis using Suc.prems by auto
  qed
qed


text \<open>What the lexer produces is well formed.\<close>

lemma lex_step_type:
  assumes "fst (lex_step previous s) = Some t"
  shows "tk_type t \<noteq> EndOfInput"
  using assms
  by (auto simp: lex_step_def plain_step_def punctuator_step_def regex_literal_def number_token_def word_token_def
      new_token_def Let_def split: if_splits option.splits prod.splits)

lemma lex_loop_types:
  "list_all (\<lambda>t. tk_type t \<noteq> EndOfInput) tokens \<Longrightarrow> list_all (\<lambda>t. tk_type t \<noteq> EndOfInput) (lex_loop tokens s)"
proof (induction tokens s rule: lex_loop.induct)
  case (1 tokens s)
  have "list_all (\<lambda>t. tk_type t \<noteq> EndOfInput) (push_token (fst (lex_step (back_of tokens) s)) tokens)"
    using 1(2) lex_step_type [of "back_of tokens" s] by (auto simp: push_token_def split: option.splits)
  then show ?case using 1 by (subst lex_loop.simps) simp
qed

lemma tokenize_wf:
  "list_all regex_returns (js_tokenize s) \<Longrightarrow> wf_state \<lparr> ps_tokens = js_tokenize s, ps_error = e \<rparr>"
  using lex_loop_types [of "[]" s]
  by (auto simp: wf_state_def js_tokenize_def butlast_append token_clean_def list_all_iff)

text \<open>C23: The parser always returns.  Whatever the script, \<open>parse_program\<close> returns a tree and at
  most one error message, as long as the regular expressions in the script compile; it never loops,
  not even where its loops do not test for an earlier error.\<close>

theorem parse_program_returns:
  "\<not> (list_all regex_returns (js_tokenize source) \<and> parse_source source = None)"
proof (rule notI, elim conjE)
  assume r: "list_all regex_returns (js_tokenize source)" and p: "parse_source source = None"
  let ?ts = "js_tokenize source"
  let ?n = "3 * length ?ts + 5"
  have "yields (length ?ts) (program_loop ?n (\<lambda>st. parse_stmt ?n st) [] \<lparr> ps_tokens = ?ts, ps_error = [] \<rparr>)"
    by (rule program_loop_yields [OF parser_returns(2) [of "length ?ts"]]) (use tokenize_wf [OF r] in auto)
  then show False using p by (auto simp: parse_source_def parse_program_def yields_def Let_def)
qed

end
