(* ===== verification/Numerals.thy ===== *)
theory Numerals
  imports Prelude
begin

text \<open>
  Decimal numbers as text and back: \<open>std::to_string\<close>, \<open>std::from_chars\<close> and the laws of
  positional notation (a locale, used for decimal numbers here and for hexadecimal ones by the
  HTTP client).
\<close>

text \<open>\<open>std::from_chars\<close> for an unsigned type: the longest prefix of digits, unless it is empty or
  its value exceeds the limit.\<close>

definition from_chars :: "(char \<Rightarrow> nat option) \<Rightarrow> nat \<Rightarrow> nat \<Rightarrow> string \<Rightarrow> nat option" where
  "from_chars digit base limit s =
     (let ds = takeWhile (\<lambda>c. digit c \<noteq> None) s; v = foldl (\<lambda>a c. base * a + the (digit c)) 0 ds in
      if ds = [] \<or> limit < v then None else Some v)"

definition dec_value :: "char \<Rightarrow> nat option" where
  "dec_value c = (if isdigit c then Some (ascii c - 48) else None)"

fun dec_text :: "nat \<Rightarrow> string" where
  "dec_text n = (if n < 10 then [char_of (48 + n)] else dec_text (n div 10) @ [char_of (48 + n mod 10)])"

declare dec_text.simps [simp del]

section \<open>Positional notation\<close>

text \<open>What writing and reading numbers have in common in every base.\<close>

locale positional =
  fixes base :: nat and digit :: "char \<Rightarrow> nat option" and symbol :: "nat \<Rightarrow> char" and shown :: "nat \<Rightarrow> string"
  assumes base: "2 \<le> base"
    and digit_symbol: "i < base \<Longrightarrow> digit (symbol i) = Some i"
    and shown_eq: "shown n = (if n < base then [symbol n] else shown (n div base) @ [symbol (n mod base)])"
begin

lemma shown_induct:
  assumes "\<And>n. n < base \<Longrightarrow> P n" and "\<And>n. base \<le> n \<Longrightarrow> P (n div base) \<Longrightarrow> P n"
  shows "P n"
proof (induction n rule: less_induct)
  case (less n)
  show ?case
  proof (cases "n < base")
    case True
    then show ?thesis by (rule assms(1))
  next
    case False
    have "n div base < n" using False base by simp
    then show ?thesis using False assms(2) less by simp
  qed
qed

lemma shown_not_empty: "shown n \<noteq> []"
  by (subst shown_eq) simp

lemma shown_digits: "list_all (\<lambda>c. digit c \<noteq> None) (shown n)"
proof (induction n rule: shown_induct)
  case (1 n)
  then show ?case by (subst shown_eq) (simp add: digit_symbol)
next
  case (2 n)
  have "n mod base < base" using base by simp
  then show ?case using 2 by (subst shown_eq) (simp add: digit_symbol)
qed

lemma shown_value: "foldl (\<lambda>a c. base * a + the (digit c)) 0 (shown n) = n"
proof (induction n rule: shown_induct)
  case (1 n)
  then show ?case by (subst shown_eq) (simp add: digit_symbol)
next
  case (2 n)
  have "n mod base < base" using base by simp
  then show ?case using 2 by (subst shown_eq) (simp add: digit_symbol)
qed

lemma from_chars_shown:
  assumes "n \<le> limit" and "s = [] \<or> digit (hd s) = None"
  shows "from_chars digit base limit (shown n @ s) = Some n"
proof -
  have "takeWhile (\<lambda>c. digit c \<noteq> None) (shown n @ s) = shown n @ takeWhile (\<lambda>c. digit c \<noteq> None) s"
    using shown_digits [of n] by (simp add: list_all_iff)
  also have "takeWhile (\<lambda>c. digit c \<noteq> None) s = []" using assms(2) by (cases s) auto
  finally show ?thesis using assms(1) shown_value shown_not_empty by (simp add: from_chars_def)
qed

end

lemma dec_value_symbol: "i < 10 \<Longrightarrow> dec_value (char_of (48 + i)) = Some i"
  by (simp add: dec_value_def isdigit_def)

interpretation dec: positional 10 dec_value "\<lambda>i. char_of (48 + i)" dec_text
proof unfold_locales
  show "dec_text n = (if n < 10 then [char_of (48 + n)] else dec_text (n div 10) @ [char_of (48 + n mod 10)])" for n
    by (rule dec_text.simps)
qed (simp_all add: dec_value_symbol)

lemma dec_text_safe: "list_all (\<lambda>c. c \<noteq> CHR 0x0D \<and> c \<noteq> CHR ''-'') (dec_text n)"
proof -
  have "dec_value (CHR 0x0D) = None" "dec_value (CHR ''-'') = None" by (simp_all add: dec_value_def isdigit_def)
  then show ?thesis using dec.shown_digits [of n] by (auto simp: list_all_iff)
qed

end
