(* ===== verification/Js_Numbers.thy ===== *)
theory Js_Numbers
  imports Effects Numerals
begin

text \<open>
  What the script engine (\<open>js/js.cpp\<close>) uses of the C and C++ libraries on numbers: formatted output
  of a \<open>double\<close> (\<open>operator<<\<close> with a precision of 15 digits, \<open>snprintf\<close>), \<open>std::fmod\<close>, \<open>std::sqrt\<close> and
  the calendar (\<open>gmtime_r\<close>).  All of them are exact functions of exact rationals, rounded once.
\<close>

abbreviation add64 :: "fp \<Rightarrow> fp \<Rightarrow> fp" where "add64 \<equiv> fadd double"
abbreviation sub64 :: "fp \<Rightarrow> fp \<Rightarrow> fp" where "sub64 \<equiv> fsub double"
abbreviation mul64 :: "fp \<Rightarrow> fp \<Rightarrow> fp" where "mul64 \<equiv> fmul double"
abbreviation div64 :: "fp \<Rightarrow> fp \<Rightarrow> fp" where "div64 \<equiv> fdiv double"
abbreviation double_of :: "int \<Rightarrow> fp" where "double_of \<equiv> of_integer double"

section \<open>Numbers as text\<close>

text \<open>The decimal digits of a number, as in \<^const>\<open>dec_text\<close>, by arithmetic on \<open>int\<close>.\<close>

function digits_of :: "int \<Rightarrow> string" where
  "digits_of n =
     (if n < 10 then [char_of (48 + nat n)] else digits_of (n div 10) @ [char_of (48 + nat (n mod 10))])"
  by pat_completeness auto
termination by (relation "measure nat") auto

declare digits_of.simps [simp del]

lemma digits_of_nat: "0 \<le> n \<Longrightarrow> digits_of n = dec_text (nat n)"
proof (induction n rule: digits_of.induct)
  case (1 n)
  then show ?case
    by (subst digits_of.simps, subst dec_text.simps) (auto simp: nat_div_distrib nat_mod_distrib)
qed

definition int_text :: "int \<Rightarrow> string" where
  "int_text i = (if i < 0 then CHR ''-'' # digits_of (- i) else digits_of i)"

text \<open>The power of ten below a positive number.\<close>

definition decimal_exponent :: "rat \<Rightarrow> int" where
  "decimal_exponent x =
     (if 1 \<le> x then int (length (digits_of \<lfloor>x\<rfloor>)) - 1
      else - int (length (digits_of (\<lceil>1 / x\<rceil> - 1))))"

text \<open>The first \<open>p\<close> significant digits, rounded, and the exponent of the first of them.\<close>

definition significant :: "nat \<Rightarrow> rat \<Rightarrow> string \<times> int" where
  "significant p x =
     (let e = decimal_exponent x; m = half_even (x / power_of 10 (e - int p + 1)) in
      if m = 10 ^ p then (digits_of (10 ^ (p - 1)), e + 1) else (digits_of m, e))"

definition strip_zeros :: "string \<Rightarrow> string" where
  "strip_zeros ds = rev (dropWhile (\<lambda>c. c = CHR ''0'') (rev ds))"

definition with_fraction :: "string \<Rightarrow> string \<Rightarrow> string" where
  "with_fraction a b = (if b = [] then a else a @ ''.'' @ b)"

definition zero_pad :: "nat \<Rightarrow> string \<Rightarrow> string" where
  "zero_pad w s = replicate (w - length s) (CHR ''0'') @ s"

text \<open>The format \<open>%g\<close> of a positive number.\<close>

definition general_format :: "nat \<Rightarrow> rat \<Rightarrow> string" where
  "general_format p x =
     (let (ds, e) = significant p x in
      if - 4 \<le> e \<and> e < int p then
        (if 0 \<le> e then with_fraction (take (nat e + 1) ds) (strip_zeros (drop (nat e + 1) ds))
         else with_fraction ''0'' (replicate (nat (- e) - 1) (CHR ''0'') @ strip_zeros ds))
      else
        with_fraction (take 1 ds) (strip_zeros (drop 1 ds)) @ (if e < 0 then ''e-'' else ''e+'') @
          zero_pad 2 (digits_of \<bar>e\<bar>))"

text \<open>The format \<open>%.*f\<close>.\<close>

definition fixed_format :: "nat \<Rightarrow> fp \<Rightarrow> string" where
  "fixed_format d a =
     (case a of
        NotANumber \<Rightarrow> ''nan''
      | Infinite s \<Rightarrow> if s then ''-inf'' else ''inf''
      | _ \<Rightarrow>
          let s = zero_pad (d + 1) (digits_of (half_even (\<bar>fvalue a\<bar> * 10 ^ d)));
              k = length s - d in
          (if negative a then ''-'' else []) @ with_fraction (take k s) (drop k s))"

text \<open>\<open>number_to_string\<close>.\<close>

definition number_to_string :: "fp \<Rightarrow> string" where
  "number_to_string v =
     (if is_nan v then ''NaN''
      else if is_inf v then (if negative v then ''-Infinity'' else ''Infinity'')
      else if is_zero v then ''0''
      else
        let x = fvalue v in
        if x = of_int \<lfloor>x\<rfloor> \<and> \<bar>x\<bar> < 10 ^ 15 then int_text \<lfloor>x\<rfloor>
        else (if x < 0 then ''-'' else []) @ general_format 15 \<bar>x\<bar>)"

section \<open>Functions of \<open>cmath\<close>\<close>

definition fmod64 :: "fp \<Rightarrow> fp \<Rightarrow> fp" where
  "fmod64 a b =
     (if is_nan a \<or> is_nan b \<or> is_inf a \<or> is_zero b then NotANumber
      else if is_inf b \<or> is_zero a then a
      else
        let x = \<bar>fvalue a\<bar>; y = \<bar>fvalue b\<bar>; r = x - of_int \<lfloor>x / y\<rfloor> * y in
        if r = 0 then signed_zero (negative a)
        else if negative a then Num (- r) else Num r)"

text \<open>The integer square root, two binary digits at a time.\<close>

function isqrt :: "int \<Rightarrow> int" where
  "isqrt n =
     (if n \<le> 0 then 0
      else let r = 2 * isqrt (n div 4) in if (r + 1) * (r + 1) \<le> n then r + 1 else r)"
  by pat_completeness auto
termination by (relation "measure nat") auto

declare isqrt.simps [simp del]

lemma isqrt_bounds:
  "0 \<le> n \<Longrightarrow> 0 \<le> isqrt n \<and> isqrt n * isqrt n \<le> n \<and> n < (isqrt n + 1) * (isqrt n + 1)"
proof (induction n rule: isqrt.induct)
  case (1 n)
  show ?case
  proof (cases "n = 0")
    case True
    then show ?thesis by (simp add: isqrt.simps)
  next
    case False
    let ?q = "isqrt (n div 4)"
    have q: "0 \<le> ?q" "?q * ?q \<le> n div 4" "n div 4 < (?q + 1) * (?q + 1)" using 1 False by auto
    have "4 * (?q * ?q) \<le> n" using q(2) by linarith
    moreover have "n < 4 * ((?q + 1) * (?q + 1))" using q(3) by linarith
    ultimately show ?thesis using q(1) False 1(2)
      by (subst (1 2 3 4 5) isqrt.simps) (auto simp: Let_def algebra_simps)
  qed
qed

text \<open>\<open>std::sqrt\<close>: enough digits to round, the last one raised when the root is not exact.\<close>

definition fsqrt64 :: "fp \<Rightarrow> fp" where
  "fsqrt64 a =
     (case a of
        Num x \<Rightarrow>
          if x = 0 then Num 0
          else if x < 0 then NotANumber
          else
            let t = 60 - leading x div 2; y = x * power_of 4 t; m = isqrt \<lfloor>y\<rfloor>;
                r = (if of_int (m * m) = y then of_int m else of_int m + 1 / 2)
            in fround double (r * power_of 2 (- t))
      | NegZero \<Rightarrow> NegZero
      | Infinite s \<Rightarrow> if s then NotANumber else a
      | NotANumber \<Rightarrow> NotANumber)"

definition ftrunc :: "fp \<Rightarrow> fp" where
  "ftrunc a =
     (case a of
        Num x \<Rightarrow> if x < 0 then (if \<lfloor>- x\<rfloor> = 0 then NegZero else Num (- of_int \<lfloor>- x\<rfloor>)) else Num (of_int \<lfloor>x\<rfloor>)
      | _ \<Rightarrow> a)"

text \<open>\<open>x > 0 ? 1.0 : (x < 0 ? -1.0 : 0.0)\<close>.\<close>

definition fsign :: "fp \<Rightarrow> fp" where
  "fsign a = (if fless (Num 0) a then Num 1 else if fless a (Num 0) then Num (- 1) else Num 0)"

section \<open>The calendar\<close>

text \<open>A \<open>std::tm\<close>: \<open>tm_year\<close>, \<open>tm_mon\<close>, \<open>tm_mday\<close>, \<open>tm_wday\<close>, \<open>tm_hour\<close>, \<open>tm_min\<close>, \<open>tm_sec\<close>.\<close>

record tm =
  tm_year :: int
  tm_mon :: int
  tm_mday :: int
  tm_wday :: int
  tm_hour :: int
  tm_min :: int
  tm_sec :: int

text \<open>The Gregorian date of a day counted from 1 January 1970: eras of 400 years that start in March.\<close>

definition civil_date :: "int \<Rightarrow> int \<times> int \<times> int" where
  "civil_date z =
     (let z = z + 719468; era = z div 146097; doe = z mod 146097;
          yoe = (doe - doe div 1460 + doe div 36524 - doe div 146096) div 365;
          doy = doe - (365 * yoe + yoe div 4 - yoe div 100); mp = (5 * doy + 2) div 153;
          m = (if mp < 10 then mp + 3 else mp - 9)
      in (yoe + era * 400 + (if m \<le> 2 then 1 else 0), m, doy - (153 * mp + 2) div 5 + 1))"

text \<open>\<open>gmtime_r\<close> leaves the result alone (all zero here) when the year does not fit.\<close>

definition gmtime :: "int \<Rightarrow> tm" where
  "gmtime s =
     (let days = s div 86400; t = s mod 86400; (y, m, d) = civil_date days in
      if int_ok (y - 1900) then
        \<lparr> tm_year = y - 1900, tm_mon = m - 1, tm_mday = d, tm_wday = (days + 4) mod 7,
          tm_hour = t div 3600, tm_min = t mod 3600 div 60, tm_sec = t mod 60 \<rparr>
      else \<lparr> tm_year = 0, tm_mon = 0, tm_mday = 0, tm_wday = 0, tm_hour = 0, tm_min = 0, tm_sec = 0 \<rparr>)"

text \<open>\<open>static_cast<std::time_t>(ms / 1000.0)\<close>, broken down.\<close>

definition broken_down :: "fp \<Rightarrow> tm run" where
  "broken_down ms =
     (case truncate_to (- (2 ^ 63)) (2 ^ 63 - 1) (div64 ms (Num 1000)) of
        None \<Rightarrow> Undefined
      | Some s \<Rightarrow> Returns (gmtime s))"

text \<open>The format \<open>%0wd\<close>: the sign counts.\<close>

definition padded :: "nat \<Rightarrow> int \<Rightarrow> string" where
  "padded w v = (if v < 0 then ''-'' @ zero_pad (w - 1) (digits_of (- v)) else zero_pad w (digits_of v))"

definition format_date :: "fp \<Rightarrow> bool \<Rightarrow> string run" where
  "format_date ms iso_format =
     bind_run (broken_down ms) (\<lambda>t.
       Returns (padded 4 (tm_year t + 1900) @ ''-'' @ padded 2 (tm_mon t + 1) @ ''-'' @ padded 2 (tm_mday t) @
         (if iso_format then ''T'' else '' '') @ padded 2 (tm_hour t) @ '':'' @ padded 2 (tm_min t) @ '':'' @ padded 2 (tm_sec t) @
         (if iso_format then ''.000Z'' else [])))"

text \<open>\<open>part(which)\<close> of \<open>make_date_object\<close>.\<close>

definition date_part :: "fp \<Rightarrow> nat \<Rightarrow> fp run" where
  "date_part ms which =
     bind_run (broken_down ms) (\<lambda>t.
       Returns (double_of
         (if which = 0 then tm_year t + 1900 else if which = 1 then tm_mon t else if which = 2 then tm_mday t
          else if which = 3 then tm_wday t else if which = 4 then tm_hour t else if which = 5 then tm_min t
          else tm_sec t)))"

end
