(* ===== verification/Js_Values.thy ===== *)
theory Js_Values
  imports Js_Parser Js_Numbers
begin

text \<open>
  The values and the store of the script interpreter (\<open>js/js.hpp\<close>, and the conversions of
  \<open>js/js.cpp\<close>).  A \<open>shared_ptr<Object>\<close> is an address in a list of objects that only grows, a
  \<open>shared_ptr<Environment>\<close> an address in a list of environments; what the reference counts free can
  no longer be reached, so nothing of it is seen.  The lambdas of native functions are the
  constructors of \<open>native\<close>, with what they capture.
\<close>

section \<open>Values\<close>

text \<open>The object of a value may be a null pointer.\<close>

datatype js_value = VUndefined | VNull | VBoolean bool | VNumber fp | VString string | VObject "nat option"

section \<open>Native functions\<close>

datatype math_function = MathFloor | MathCeil | MathRound | MathAbs | MathSqrt | MathTrunc | MathSign

datatype string_method =
    ToUpperCase | ToLowerCase | CharAt | StringIndexOf | StringSlice | Substring | StringSplit | StringReplace
  | StringSearch | StringMatch | StringRepeat | StringTrim | StringIncludes | StartsWith | EndsWith

datatype array_method =
    ArrayPush | ArrayPop | ArrayJoin | ArrayIndexOf | ArraySlice | ForEach | ArrayMap | ArrayFilter | ArrayReduce
  | ArrayReverse | ArraySort | ArrayIncludes | ArrayConcat

datatype map_method = MapSet | MapGet | MapHas | MapDelete | MapKeys | MapValues

datatype set_method = SetAdd | SetHas | SetDelete

datatype native =
    ConsoleLog | MathUnary math_function | MathMax | MathMin | MathPow | MathRandom
  | ParseInt | ParseFloat | GlobalString | GlobalNumber | IsNaN
  | ObjectConstructor | ObjectKeys | ArrayConstructor | ArrayIsArray | JsonStringify | JsonParse | RegExpConstructor
  | PromiseConstructor | PromiseResolve | PromiseReject | PromiseAll | DateConstructor | DateNow
  | MapConstructor | SetConstructor | ListenerRegistrar nat | DocumentWrite | GetElementById | CreateElement
  | RegexTest regex | RegexExec regex
  | PromiseThen nat | PromiseCatch nat | PromiseFinally nat | Settle nat bool
  | DatePart fp nat | DateTime fp | DateText fp bool
  | StringMethod string_method string | NumberToString fp | NumberToFixed fp
  | ArrayMethod array_method nat | MapMethod map_method nat | SetMethod set_method nat
  | HostFunction nat

section \<open>Objects, environments and the interpreter's state\<close>

datatype promise_status = Pending | Fulfilled | Rejected

record promise_data =
  pr_status :: promise_status
  pr_value :: js_value
  pr_handlers :: "(js_value \<times> js_value) list"

definition new_promise_data :: promise_data where
  "new_promise_data = \<lparr> pr_status = Pending, pr_value = VUndefined, pr_handlers = [] \<rparr>"

text \<open>\<open>properties\<close> is a \<open>std::map\<close>: an association list in the order of the keys.  A native function
  is an object with \<open>ob_native\<close>, a function of a script one with parameters, body and closure.\<close>

record js_object =
  ob_properties :: "(string \<times> js_value) list"
  ob_elements :: "js_value list"
  ob_prototype :: "nat option"
  ob_regex :: "regex option"
  ob_promise :: "promise_data option"
  ob_is_array :: bool
  ob_is_map :: bool
  ob_is_set :: bool
  ob_entries :: "(js_value \<times> js_value) list"
  ob_is_function :: bool
  ob_native :: "native option"
  ob_is_async :: bool
  ob_parameters :: "string list"
  ob_body :: "ast option"
  ob_closure :: "nat option"

definition new_object :: js_object where
  "new_object = \<lparr> ob_properties = [], ob_elements = [], ob_prototype = None, ob_regex = None, ob_promise = None,
     ob_is_array = False, ob_is_map = False, ob_is_set = False, ob_entries = [], ob_is_function = False,
     ob_native = None, ob_is_async = False, ob_parameters = [], ob_body = None, ob_closure = None \<rparr>"

definition native_object :: "native \<Rightarrow> js_object" where
  "native_object f = new_object\<lparr> ob_is_function := True, ob_native := Some f \<rparr>"

definition array_object :: "js_value list \<Rightarrow> js_object" where
  "array_object vs = new_object\<lparr> ob_is_array := True, ob_elements := vs \<rparr>"

record js_env =
  en_parent :: "nat option"
  en_variables :: "string \<rightharpoonup> js_value"

definition new_env :: js_env where
  "new_env = \<lparr> en_parent = None, en_variables = Map.empty \<rparr>"

text \<open>A queued callback is always a call of \<open>run_promise_handler\<close>: the derived promise, the handler,
  whether the promise was rejected, and the value.\<close>

record microtask =
  mt_derived :: nat
  mt_handler :: js_value
  mt_rejected :: bool
  mt_value :: js_value

text \<open>The first error is \<open>m_has_error\<close> with \<open>m_error\<close>.  \<open>'w\<close> is what lies behind the host hooks.\<close>

record 'w js_state =
  js_objects :: "js_object list"
  js_envs :: "js_env list"
  js_globals :: nat
  js_object_prototype :: nat
  js_window :: "nat option"
  js_document :: "nat option"
  js_microtasks :: "microtask list"
  js_error :: "string option"
  js_world :: 'w

text \<open>The hooks of the host (\<open>print_handler\<close>, \<open>write_handler\<close>, \<open>element_lookup\<close>, \<open>create_element\<close>, which may be
  unset), the native functions of the objects it hands out, the clock, \<open>std::rand\<close>, \<open>std::pow\<close> (which
  is not correctly rounded) and \<open>std::sort\<close> on values with their keys (which may put equal keys in any order).\<close>

record 'w host =
  ho_print :: "(string \<Rightarrow> 'w \<Rightarrow> 'w) option"
  ho_write :: "(string \<Rightarrow> 'w \<Rightarrow> 'w) option"
  ho_lookup :: "(string \<Rightarrow> 'w js_state \<Rightarrow> js_value \<times> 'w js_state) option"
  ho_create :: "(string \<Rightarrow> 'w js_state \<Rightarrow> js_value \<times> 'w js_state) option"
  ho_function :: "nat \<Rightarrow> js_value list \<Rightarrow> 'w js_state \<Rightarrow> js_value \<times> 'w js_state"
  ho_now :: "'w \<Rightarrow> int \<times> 'w"
  ho_random :: "'w \<Rightarrow> int \<times> 'w"
  ho_pow :: "fp \<Rightarrow> fp \<Rightarrow> fp"
  ho_sort :: "(string \<times> js_value) list \<Rightarrow> (string \<times> js_value) list"

section \<open>Ordered maps\<close>

text \<open>\<open>std::string\<close> compares its characters as unsigned.\<close>

fun text_less :: "string \<Rightarrow> string \<Rightarrow> bool" where
  "text_less _ [] = False"
| "text_less [] (d # ds) = True"
| "text_less (c # cs) (d # ds) = (ascii c < ascii d \<or> (c = d \<and> text_less cs ds))"

fun map_put :: "string \<Rightarrow> 'v \<Rightarrow> (string \<times> 'v) list \<Rightarrow> (string \<times> 'v) list" where
  "map_put k v [] = [(k, v)]"
| "map_put k v ((l, w) # m) =
     (if l = k then (k, v) # m
      else if text_less k l then (k, v) # (l, w) # m
      else (l, w) # map_put k v m)"

lemma map_of_map_put: "map_of (map_put k v m) = (map_of m)(k \<mapsto> v)"
  by (induction k v m rule: map_put.induct) (auto simp: fun_eq_iff)

lemma set_map_put: "set (map snd (map_put k v m)) \<subseteq> insert v (set (map snd m))"
  by (induction k v m rule: map_put.induct) auto

section \<open>The store\<close>

definition object_at :: "'w js_state \<Rightarrow> nat \<Rightarrow> js_object" where
  "object_at s a = js_objects s ! a"

text \<open>\<open>is_object() && object\<close>.\<close>

definition object_of :: "js_value \<Rightarrow> nat option" where
  "object_of v = (case v of VObject a \<Rightarrow> a | _ \<Rightarrow> None)"

definition allocate :: "js_object \<Rightarrow> 'w js_state \<Rightarrow> nat \<times> 'w js_state" where
  "allocate ob s = (length (js_objects s), s\<lparr> js_objects := js_objects s @ [ob] \<rparr>)"

definition update_object :: "nat \<Rightarrow> (js_object \<Rightarrow> js_object) \<Rightarrow> 'w js_state \<Rightarrow> 'w js_state" where
  "update_object a f s = s\<lparr> js_objects := (js_objects s)[a := f (js_objects s ! a)] \<rparr>"

definition put_property :: "nat \<Rightarrow> string \<Rightarrow> js_value \<Rightarrow> 'w js_state \<Rightarrow> 'w js_state" where
  "put_property a k v = update_object a (\<lambda>ob. ob\<lparr> ob_properties := map_put k v (ob_properties ob) \<rparr>)"

text \<open>\<open>make_native\<close>, and arrays without and with a prototype (\<open>make_array\<close>).\<close>

definition make_native :: "native \<Rightarrow> 'w js_state \<Rightarrow> js_value \<times> 'w js_state" where
  "make_native f s = (case allocate (native_object f) s of (a, s') \<Rightarrow> (VObject (Some a), s'))"

definition plain_array :: "js_value list \<Rightarrow> 'w js_state \<Rightarrow> js_value \<times> 'w js_state" where
  "plain_array vs s = (case allocate (array_object vs) s of (a, s') \<Rightarrow> (VObject (Some a), s'))"

definition make_array :: "js_value list \<Rightarrow> 'w js_state \<Rightarrow> js_value \<times> 'w js_state" where
  "make_array vs s =
     (case allocate ((array_object vs)\<lparr> ob_prototype := Some (js_object_prototype s) \<rparr>) s of (a, s') \<Rightarrow> (VObject (Some a), s'))"

definition js_fail :: "string \<Rightarrow> 'w js_state \<Rightarrow> 'w js_state" where
  "js_fail msg s = (case js_error s of None \<Rightarrow> s\<lparr> js_error := Some msg \<rparr> | Some _ \<Rightarrow> s)"

section \<open>Environments\<close>

definition extend_env :: "nat option \<Rightarrow> 'w js_state \<Rightarrow> nat \<times> 'w js_state" where
  "extend_env parent s = (length (js_envs s), s\<lparr> js_envs := js_envs s @ [new_env\<lparr> en_parent := parent \<rparr>] \<rparr>)"

definition declare_variable :: "nat \<Rightarrow> string \<Rightarrow> js_value \<Rightarrow> 'w js_state \<Rightarrow> 'w js_state" where
  "declare_variable e x v s =
     s\<lparr> js_envs := (js_envs s)[e := (js_envs s ! e)\<lparr> en_variables := (en_variables (js_envs s ! e))(x \<mapsto> v) \<rparr>] \<rparr>"

text \<open>\<open>Environment::find\<close>: the environment that holds the name.  Parents are older than their
  children, so the search needs no more steps than the address of the first.\<close>

fun find_from :: "nat \<Rightarrow> js_env list \<Rightarrow> nat \<Rightarrow> string \<Rightarrow> nat option" where
  "find_from n es e x =
     (if x \<in> dom (en_variables (es ! e)) then Some e
      else case en_parent (es ! e) of
        None \<Rightarrow> None
      | Some p \<Rightarrow> (case n of 0 \<Rightarrow> None | Suc n' \<Rightarrow> find_from n' es p x))"

declare find_from.simps [simp del]

definition find_variable :: "'w js_state \<Rightarrow> nat \<Rightarrow> string \<Rightarrow> nat option" where
  "find_variable s e x = find_from (length (js_envs s)) (js_envs s) e x"

definition variable_value :: "'w js_state \<Rightarrow> nat \<Rightarrow> string \<Rightarrow> js_value" where
  "variable_value s e x = the (en_variables (js_envs s ! e) x)"

section \<open>Conversions\<close>

definition to_boolean :: "js_value \<Rightarrow> bool" where
  "to_boolean v =
     (case v of
        VUndefined \<Rightarrow> False | VNull \<Rightarrow> False | VBoolean b \<Rightarrow> b
      | VNumber n \<Rightarrow> \<not> is_zero n \<and> \<not> is_nan n
      | VString t \<Rightarrow> t \<noteq> []
      | VObject _ \<Rightarrow> True)"

text \<open>Only the front of a string has to be a number; an embedded NUL ends it.\<close>

definition c_text :: "string \<Rightarrow> string" where
  "c_text = takeWhile (\<lambda>c. c \<noteq> CHR 0x00)"

definition to_number :: "js_value \<Rightarrow> fp" where
  "to_number v =
     (case v of
        VUndefined \<Rightarrow> NotANumber | VNull \<Rightarrow> Num 0 | VBoolean b \<Rightarrow> if b then Num 1 else Num 0
      | VNumber n \<Rightarrow> n
      | VString t \<Rightarrow>
          if t = [] then Num 0 else (case strto double (c_text t) of None \<Rightarrow> NotANumber | Some (n, _) \<Rightarrow> n)
      | VObject _ \<Rightarrow> NotANumber)"

text \<open>
  \<open>Value::to_string\<close>.  An array prints its elements, whatever they are; one that contains itself
  recurses until the stack overflows.  A path through arrays that visits no object twice is no
  longer than the store, so that fuel tells the two apart: \<^term>\<open>None\<close> is the overflow.
\<close>

fun join_text :: "string \<Rightarrow> string list \<Rightarrow> string" where
  "join_text sep [] = []"
| "join_text sep [t] = t"
| "join_text sep (t # u # ts) = t @ sep @ join_text sep (u # ts)"

fun text_at :: "nat \<Rightarrow> js_object list \<Rightarrow> js_value \<Rightarrow> string option" where
  "text_at n obs VUndefined = Some ''undefined''"
| "text_at n obs VNull = Some ''null''"
| "text_at n obs (VBoolean b) = Some (if b then ''true'' else ''false'')"
| "text_at n obs (VNumber x) = Some (number_to_string x)"
| "text_at n obs (VString t) = Some t"
| "text_at n obs (VObject None) = Some ''[object Object]''"
| "text_at n obs (VObject (Some a)) =
     (if ob_is_array (obs ! a) then
        (case n of
           0 \<Rightarrow> None
         | Suc n' \<Rightarrow>
             map_option (\<lambda>ts. ''['' @ join_text '','' ts @ '']'')
               (those (map (\<lambda>v. if v = VUndefined then Some [] else text_at n' obs v) (ob_elements (obs ! a)))))
      else if ob_is_function (obs ! a) then Some ''function''
      else Some ''[object Object]'')"

definition to_text :: "'w js_state \<Rightarrow> js_value \<Rightarrow> string run" where
  "to_text s v = (case text_at (length (js_objects s)) (js_objects s) v of None \<Rightarrow> Undefined | Some t \<Rightarrow> Returns t)"

text \<open>\<open>strict_equals\<close>, and \<open>same_value\<close>, which is the same function: NaN differs from itself in both.\<close>

definition strict_equals :: "js_value \<Rightarrow> js_value \<Rightarrow> bool" where
  "strict_equals a b =
     (case (a, b) of
        (VUndefined, VUndefined) \<Rightarrow> True | (VNull, VNull) \<Rightarrow> True
      | (VBoolean x, VBoolean y) \<Rightarrow> x = y
      | (VNumber x, VNumber y) \<Rightarrow> feq x y
      | (VString x, VString y) \<Rightarrow> x = y
      | (VObject x, VObject y) \<Rightarrow> x = y
      | _ \<Rightarrow> False)"

abbreviation same_value :: "js_value \<Rightarrow> js_value \<Rightarrow> bool" where "same_value \<equiv> strict_equals"

definition type_name :: "'w js_state \<Rightarrow> js_value \<Rightarrow> string" where
  "type_name s v =
     (case v of
        VUndefined \<Rightarrow> ''undefined'' | VNull \<Rightarrow> ''object'' | VBoolean _ \<Rightarrow> ''boolean'' | VNumber _ \<Rightarrow> ''number''
      | VString _ \<Rightarrow> ''string''
      | VObject a \<Rightarrow> (case a of None \<Rightarrow> ''object'' | Some i \<Rightarrow> if ob_is_function (object_at s i) then ''function'' else ''object''))"

section \<open>Calls\<close>

text \<open>\<open>value.object && value.object->is_function\<close> and the like.\<close>

definition function_of :: "'w js_state \<Rightarrow> js_value \<Rightarrow> nat option" where
  "function_of s v = (case object_of v of None \<Rightarrow> None | Some a \<Rightarrow> if ob_is_function (object_at s a) then Some a else None)"

definition promise_of :: "'w js_state \<Rightarrow> js_value \<Rightarrow> (nat \<times> promise_data) option" where
  "promise_of s v =
     (case object_of v of None \<Rightarrow> None | Some a \<Rightarrow> map_option (\<lambda>p. (a, p)) (ob_promise (object_at s a)))"

definition array_of :: "'w js_state \<Rightarrow> js_value \<Rightarrow> nat option" where
  "array_of s v = (case object_of v of None \<Rightarrow> None | Some a \<Rightarrow> if ob_is_array (object_at s a) then Some a else None)"

definition regex_of :: "'w js_state \<Rightarrow> js_value \<Rightarrow> regex option" where
  "regex_of s v = (case object_of v of None \<Rightarrow> None | Some a \<Rightarrow> ob_regex (object_at s a))"

definition argument :: "js_value list \<Rightarrow> nat \<Rightarrow> js_value" where
  "argument args i = (if i < length args then args ! i else VUndefined)"

end
