(* ===== verification/Js_Json.thy ===== *)
theory Js_Json
  imports Js_Values
begin

text \<open>
  \<open>JSON.stringify\<close> and \<open>JSON.parse\<close> of the script engine (\<open>json_escape\<close>, \<open>json_write\<close> and \<open>JsonParser\<close> in
  \<open>js/js.cpp\<close>).  A position in the text is the rest of it.  Shown: parsing always returns, and
  stringify gives back the text of every tree that parse has read.
\<close>

section \<open>Writing\<close>

definition escape_char :: "char \<Rightarrow> string" where
  "escape_char c =
     (if c = CHR 0x22 then [CHR 0x5C, CHR 0x22] else if c = CHR 0x5C then [CHR 0x5C, CHR 0x5C]
      else if c = CHR 0x0A then [CHR 0x5C, CHR ''n''] else if c = CHR 0x09 then [CHR 0x5C, CHR ''t'']
      else if c = CHR 0x0D then [CHR 0x5C, CHR ''r''] else [c])"

definition json_escape :: "string \<Rightarrow> string" where
  "json_escape t = CHR 0x22 # concat (map escape_char t) @ [CHR 0x22]"

definition json_member :: "string \<times> string \<Rightarrow> string" where
  "json_member m = json_escape (fst m) @ '':'' @ snd m"

text \<open>As in \<^const>\<open>text_at\<close>, \<^term>\<open>None\<close> is the stack overflow on a value that contains itself.\<close>

fun json_at :: "nat \<Rightarrow> js_object list \<Rightarrow> js_value \<Rightarrow> string option" where
  "json_at n obs VUndefined = Some ''null''"
| "json_at n obs VNull = Some ''null''"
| "json_at n obs (VBoolean b) = Some (if b then ''true'' else ''false'')"
| "json_at n obs (VNumber x) = Some (number_to_string x)"
| "json_at n obs (VString t) = Some (json_escape t)"
| "json_at n obs (VObject None) = Some ''null''"
| "json_at n obs (VObject (Some a)) =
     (if ob_is_function (obs ! a) then Some ''null''
      else
        case n of
          0 \<Rightarrow> None
        | Suc n' \<Rightarrow>
            if ob_is_array (obs ! a) then
              map_option (\<lambda>ts. ''['' @ join_text '','' ts @ '']'') (those (map (json_at n' obs) (ob_elements (obs ! a))))
            else
              map_option (\<lambda>ms. ''{'' @ join_text '','' ms @ ''}'')
                (those (map (\<lambda>(k, v). map_option (\<lambda>t. json_member (k, t)) (json_at n' obs v))
                  (filter (\<lambda>(k, v). case v of VObject (Some b) \<Rightarrow> \<not> ob_is_function (obs ! b) | _ \<Rightarrow> True)
                    (ob_properties (obs ! a))))))"

definition json_stringify :: "'w js_state \<Rightarrow> js_value \<Rightarrow> string run" where
  "json_stringify s v = (case json_at (length (js_objects s)) (js_objects s) v of None \<Rightarrow> Undefined | Some t \<Rightarrow> Returns t)"

section \<open>Reading\<close>

definition json_skip :: "string \<Rightarrow> string" where
  "json_skip = dropWhile isspace"

text \<open>The string after the opening quote.\<close>

fun json_string :: "string \<Rightarrow> string \<times> string" where
  "json_string [] = ([], [])"
| "json_string (c # r) =
     (if c = CHR 0x22 then ([], r)
      else if c = CHR 0x5C \<and> r \<noteq> [] then
        (let d = hd r; e = (if d = CHR ''n'' then CHR 0x0A else if d = CHR ''t'' then CHR 0x09 else if d = CHR ''r'' then CHR 0x0D else d)
         in case json_string (tl r) of (t, r') \<Rightarrow> (e # t, r'))
      else (case json_string r of (t, r') \<Rightarrow> (c # t, r')))"

text \<open>The parser threads the rest of the text, the flag \<open>ok\<close> and the store.  Every call consumes a
  character, so the length of the text bounds the depth of the calls; \<^term>\<open>None\<close> is never reached
  (\<open>json_parse_returns\<close>).\<close>

type_synonym 'w json_state = "string \<times> bool \<times> 'w js_state"

definition json_fail :: "'w json_state \<Rightarrow> (js_value \<times> 'w json_state) option" where
  "json_fail st = (case st of (r, ok, s) \<Rightarrow> Some (VUndefined, r, False, s))"

definition json_word :: "string \<Rightarrow> js_value \<Rightarrow> 'w json_state \<Rightarrow> (js_value \<times> 'w json_state) option" where
  "json_word w v st = (case st of (r, ok, s) \<Rightarrow> if is_prefix w r then Some (v, drop (length w) r, ok, s) else json_fail st)"

definition json_number :: "'w json_state \<Rightarrow> (js_value \<times> 'w json_state) option" where
  "json_number st =
     (case st of (r, ok, s) \<Rightarrow>
        (case strto double (c_text r) of
           None \<Rightarrow> json_fail st
         | Some (x, r1) \<Rightarrow> Some (VNumber x, drop (length (c_text r) - length r1) r, ok, s)))"

fun json_value :: "nat \<Rightarrow> 'w json_state \<Rightarrow> (js_value \<times> 'w json_state) option"
and json_members :: "nat \<Rightarrow> nat \<Rightarrow> 'w json_state \<Rightarrow> 'w json_state option"
and json_items :: "nat \<Rightarrow> nat \<Rightarrow> 'w json_state \<Rightarrow> 'w json_state option"
where
  "json_value 0 st = None"
| "json_value (Suc n) (r, ok, s) =
     (case json_skip r of
        [] \<Rightarrow> json_fail ([], ok, s)
      | c # r1 \<Rightarrow>
          if c = CHR ''{'' then
            (let (a, s1) = allocate new_object s; r2 = json_skip r1; v = VObject (Some a) in
             if is_prefix ''}'' r2 then Some (v, tl r2, ok, s1)
             else map_option (\<lambda>st. (v, st)) (json_members n a (r2, ok, s1)))
          else if c = CHR ''['' then
            (let (a, s1) = allocate (array_object []) s; r2 = json_skip r1; v = VObject (Some a) in
             if is_prefix '']'' r2 then Some (v, tl r2, ok, s1)
             else map_option (\<lambda>st. (v, st)) (json_items n a (r2, ok, s1)))
          else if c = CHR 0x22 then (case json_string r1 of (t, r2) \<Rightarrow> Some (VString t, r2, ok, s))
          else if c = CHR ''t'' then json_word ''true'' (VBoolean True) (c # r1, ok, s)
          else if c = CHR ''f'' then json_word ''false'' (VBoolean False) (c # r1, ok, s)
          else if c = CHR ''n'' then json_word ''null'' VNull (c # r1, ok, s)
          else json_number (c # r1, ok, s))"
| "json_members 0 a st = None"
| "json_members (Suc n) a (r, ok, s) =
     (if r = [] then Some (r, ok, s)
      else
        let r1 = json_skip r in
        if \<not> is_prefix [CHR 0x22] r1 then Some (r1, False, s)
        else
          case json_string (tl r1) of (key, r2) \<Rightarrow>
            let r3 = json_skip r2 in
            if \<not> is_prefix '':'' r3 then Some (r3, False, s)
            else
              case json_value n (tl r3, ok, s) of
                None \<Rightarrow> None
              | Some (v, r4, ok', s1) \<Rightarrow>
                  let s2 = put_property a key v s1; r5 = json_skip r4 in
                  if is_prefix '','' r5 then json_members n a (tl r5, ok', s2)
                  else if is_prefix ''}'' r5 then Some (tl r5, ok', s2)
                  else Some (r5, False, s2))"
| "json_items 0 a st = None"
| "json_items (Suc n) a (r, ok, s) =
     (if r = [] then Some (r, ok, s)
      else
        case json_value n (r, ok, s) of
          None \<Rightarrow> None
        | Some (v, r1, ok', s1) \<Rightarrow>
            let s2 = update_object a (\<lambda>ob. ob\<lparr> ob_elements := ob_elements ob @ [v] \<rparr>) s1; r2 = json_skip r1 in
            if is_prefix '','' r2 then json_items n a (tl r2, ok', s2)
            else if is_prefix '']'' r2 then Some (tl r2, ok', s2)
            else Some (r2, False, s2))"

text \<open>\<open>JSON.parse\<close>: what is left after the value is ignored.\<close>

definition json_parse :: "string \<Rightarrow> 'w js_state \<Rightarrow> (js_value \<times> 'w js_state) run" where
  "json_parse t s =
     (case json_value (2 * length t + 2) (t, True, s) of
        None \<Rightarrow> Undefined
      | Some (v, r, ok, s') \<Rightarrow> Returns (if ok then v else VUndefined, s'))"

section \<open>Parsing returns\<close>

definition ends_within :: "nat \<Rightarrow> (string \<times> 'b) option \<Rightarrow> bool" where
  "ends_within k m = (case m of None \<Rightarrow> False | Some (r, x) \<Rightarrow> length r \<le> k)"

lemma ends_within_simps [simp]: "ends_within k (Some (r, x)) = (length r \<le> k)" "\<not> ends_within k None"
  by (simp_all add: ends_within_def)

lemma ends_withinE: "ends_within k m \<Longrightarrow> (\<And>r x. m = Some (r, x) \<Longrightarrow> length r \<le> k \<Longrightarrow> P) \<Longrightarrow> P"
  by (auto simp: ends_within_def split: option.splits)

lemma ends_within_le: "ends_within k m \<Longrightarrow> k \<le> k' \<Longrightarrow> ends_within k' m"
  by (auto simp: ends_within_def split: option.splits)

lemma json_skip_length: "length (json_skip r) \<le> length r"
  unfolding json_skip_def by (rule length_dropWhile_le)

lemma json_string_length: "length (snd (json_string r)) \<le> length r"
proof (induction r rule: length_induct)
  case (1 r)
  show ?case
  proof (cases r)
    case (Cons c q)
    obtain t r' where t: "json_string q = (t, r')" by fastforce
    obtain u w where u: "json_string (tl q) = (u, w)" by fastforce
    have "length r' \<le> length q" using 1 Cons t by (metis length_Cons lessI snd_conv)
    moreover have "length w \<le> length (tl q)" using 1 Cons u by (metis length_Cons length_tl less_Suc_eq_le diff_le_self snd_conv)
    ultimately show ?thesis by (simp add: Cons t u Let_def) linarith
  qed simp
qed

lemma json_leaves_end:
  "length r \<le> k \<Longrightarrow> ends_within k (map_option snd (json_fail (r, ok, s)))"
  "length r \<le> k \<Longrightarrow> ends_within k (map_option snd (json_word w v (r, ok, s)))"
  "length r \<le> k \<Longrightarrow> ends_within k (map_option snd (json_number (r, ok, s)))"
  by (auto simp: json_fail_def json_word_def json_number_def split: option.splits)

lemma ends_within_if:
  "(b \<Longrightarrow> ends_within k (map_option f x)) \<Longrightarrow> (\<not> b \<Longrightarrow> ends_within k (map_option f y)) \<Longrightarrow>
    ends_within k (map_option f (if b then x else y))"
  by simp

lemma is_prefix_nonempty: "is_prefix (c # p) r \<Longrightarrow> r \<noteq> []"
  by (cases r) auto

lemma json_value_ends:
  assumes "\<And>r a ok s. 2 * length r + 2 \<le> n \<Longrightarrow> ends_within (length r) (json_members n a (r, ok, s :: 'w js_state))"
    and "\<And>r a ok s. 2 * length r + 2 \<le> n \<Longrightarrow> ends_within (length r) (json_items n a (r, ok, s :: 'w js_state))"
    and "2 * length r + 1 \<le> Suc n"
  shows "ends_within (length r) (map_option snd (json_value (Suc n) (r, ok, s :: 'w js_state)))"
proof (cases "json_skip r")
  case Nil
  then show ?thesis by (simp add: json_leaves_end)
next
  case (Cons c r1)
  have len: "Suc (length r1) \<le> length r" using json_skip_length [of r] Cons by simp
  have inner: "2 * length (json_skip r1) + 2 \<le> n" "length (json_skip r1) \<le> length r"
    using json_skip_length [of r1] len assms(3) by simp_all
  have loops: "ends_within (length r) (map_option snd (map_option (\<lambda>st. (v, st)) (json_members n a (json_skip r1, ok, s'))))"
    "ends_within (length r) (map_option snd (map_option (\<lambda>st. (v, st)) (json_items n a (json_skip r1, ok, s'))))"
    for v :: js_value and a and s' :: "'w js_state"
    using assms(1,2) [OF inner(1), THEN ends_within_le, OF inner(2)] by (simp_all add: option.map_comp comp_def option.map_ident)
  have str: "length (snd (json_string r1)) \<le> length r" using json_string_length [of r1] len by simp
  have leaves: "ends_within (length r) (map_option snd (json_word w v (c # r1, ok, s)))"
    "ends_within (length r) (map_option snd (json_number (c # r1, ok, s)))" for w v
    using len by (simp_all add: json_leaves_end)
  have tail: "ends_within (length r) (map_option snd (Some (v, tl (json_skip r1), ok, s')))" for v :: js_value and s' :: "'w js_state"
    using inner(2) by simp
  have quoted: "ends_within (length r) (map_option snd (case json_string r1 of (t, r2) \<Rightarrow> Some (VString t, r2, ok, s)))"
    using str by (simp add: split_beta)
  show ?thesis
    unfolding json_value.simps Cons list.case Let_def allocate_def prod.case
    by (intro ends_within_if loops leaves tail quoted)
qed

lemma json_members_end:
  assumes "\<And>r ok s. 2 * length r + 1 \<le> n \<Longrightarrow> ends_within (length r) (map_option snd (json_value n (r, ok, s :: 'w js_state)))"
    and "\<And>r a ok s. 2 * length r + 2 \<le> n \<Longrightarrow> ends_within (length r) (json_members n a (r, ok, s :: 'w js_state))"
    and "2 * length r + 2 \<le> Suc n"
  shows "ends_within (length r) (json_members (Suc n) a (r, ok, s :: 'w js_state))"
proof (cases "r = [] \<or> \<not> is_prefix [CHR 0x22] (json_skip r)")
  case True
  then show ?thesis using json_skip_length [of r] by auto
next
  case False
  then obtain q where q: "json_skip r = CHR 0x22 # q" "r \<noteq> []" by (cases "json_skip r") auto
  obtain key r2 where str: "json_string q = (key, r2)" by fastforce
  have l2: "length r2 < length r" using json_string_length [of q] json_skip_length [of r] by (simp add: str q)
  show ?thesis
  proof (cases "is_prefix '':'' (json_skip r2)")
    case False
    then show ?thesis using json_skip_length [of r2] l2 by (simp add: q str Let_def)
  next
    case True
    then obtain r3 where r3: "json_skip r2 = CHR '':'' # r3" by (cases "json_skip r2") auto
    have l3: "Suc (length r3) < length r" using json_skip_length [of r2] l2 by (simp add: r3)
    have "ends_within (length r3) (map_option snd (json_value n (r3, ok, s)))"
      using l3 assms(3) by (intro assms(1)) simp
    then obtain v r4 ok' s1 where v: "json_value n (r3, ok, s) = Some (v, r4, ok', s1)" "length r4 \<le> length r3"
      by (auto elim!: ends_withinE)
    let ?r5 = "json_skip r4"
    have l5: "length ?r5 < length r" using json_skip_length [of r4] v(2) l3 by simp
    have "ends_within (length r) (json_members n a (tl ?r5, ok', s2))" if "?r5 \<noteq> []" for s2 :: "'w js_state"
      using l5 assms(3) that by (intro ends_within_le [OF assms(2)]) auto
    then show ?thesis using l5 is_prefix_nonempty [of "CHR '',''" "[]" ?r5] q(2)
      by (simp add: q(1) str r3 v Let_def le_diff_conv)
  qed
qed

lemma json_items_end:
  assumes "\<And>r ok s. 2 * length r + 1 \<le> n \<Longrightarrow> ends_within (length r) (map_option snd (json_value n (r, ok, s :: 'w js_state)))"
    and "\<And>r a ok s. 2 * length r + 2 \<le> n \<Longrightarrow> ends_within (length r) (json_items n a (r, ok, s :: 'w js_state))"
    and "2 * length r + 2 \<le> Suc n"
  shows "ends_within (length r) (json_items (Suc n) a (r, ok, s :: 'w js_state))"
proof (cases "r = []")
  case False
  have "ends_within (length r) (map_option snd (json_value n (r, ok, s)))"
    using assms(3) by (intro assms(1)) simp
  then obtain v r1 ok' s1 where v: "json_value n (r, ok, s) = Some (v, r1, ok', s1)" "length r1 \<le> length r"
    by (auto elim!: ends_withinE)
  let ?r2 = "json_skip r1"
  have l2: "length ?r2 \<le> length r" using json_skip_length [of r1] v(2) by simp
  have "ends_within (length r) (json_items n a (tl ?r2, ok', s2))" if "?r2 \<noteq> []" for s2 :: "'w js_state"
  proof -
    have "length (tl ?r2) < length r" using l2 that by (cases "?r2") auto
    then show ?thesis using assms(3) by (intro ends_within_le [OF assms(2)]) auto
  qed
  then show ?thesis using l2 False is_prefix_nonempty [of "CHR '',''" "[]" ?r2] by (simp add: v Let_def le_diff_conv)
qed simp

lemma json_parser_ends:
  fixes s :: "'w js_state"
  shows "2 * length r + 1 \<le> n \<Longrightarrow> ends_within (length r) (map_option snd (json_value n (r, ok, s)))"
    and "2 * length r + 2 \<le> n \<Longrightarrow> ends_within (length r) (json_members n a (r, ok, s))"
    and "2 * length r + 2 \<le> n \<Longrightarrow> ends_within (length r) (json_items n a (r, ok, s))"
proof (induction n arbitrary: r ok s a)
  case (Suc n)
  { case 1 then show ?case using json_value_ends Suc.IH by blast }
  { case 2 then show ?case using json_members_end Suc.IH by blast }
  { case 3 then show ?case using json_items_end Suc.IH by blast }
qed simp_all

lemma json_parse_returns: "\<exists>v s'. json_parse t s = Returns (v, s')"
proof -
  have "ends_within (length t) (map_option snd (json_value (2 * length t + 2) (t, True, s)))"
    by (rule json_parser_ends(1)) simp
  then show ?thesis by (auto simp: json_parse_def elim!: ends_withinE)
qed

section \<open>Reading what was written\<close>

text \<open>JSON trees, with whole numbers, and their text.\<close>

datatype json = JNull | JBoolean bool | JNumber int | JString string | JArray "json list" | JObject "(string \<times> json) list"

fun json_text :: "json \<Rightarrow> string" where
  "json_text JNull = ''null''"
| "json_text (JBoolean b) = (if b then ''true'' else ''false'')"
| "json_text (JNumber i) = int_text i"
| "json_text (JString t) = json_escape t"
| "json_text (JArray js) = ''['' @ join_text '','' (map json_text js) @ '']''"
| "json_text (JObject ms) = ''{'' @ join_text '','' (map (\<lambda>(k, j). json_member (k, json_text j)) ms) @ ''}''"

fun json_ok :: "json \<Rightarrow> bool" where
  "json_ok (JNumber i) = (\<bar>i\<bar> < 10 ^ 15)"
| "json_ok (JArray js) = list_all json_ok js"
| "json_ok (JObject ms) = (sorted_wrt text_less (map fst ms) \<and> list_all (json_ok \<circ> snd) ms)"
| "json_ok _ = True"

lemma size_nth: "i < length xs \<Longrightarrow> f (xs ! i) < Suc (size_list f xs)"
  by (meson le_imp_less_Suc nth_mem order_refl size_list_estimation')

text \<open>A value of the store that a tree describes; the objects inside another one have greater addresses.\<close>

function denotes :: "nat \<Rightarrow> js_object list \<Rightarrow> js_value \<Rightarrow> json \<Rightarrow> bool" where
  "denotes lo obs v JNull = (v = VNull)"
| "denotes lo obs v (JBoolean b) = (v = VBoolean b)"
| "denotes lo obs v (JNumber i) = (v = VNumber (Num (of_int i)))"
| "denotes lo obs v (JString t) = (v = VString t)"
| "denotes lo obs v (JArray js) =
     (case v of
        VObject (Some a) \<Rightarrow>
          lo \<le> a \<and> a < length obs \<and> ob_is_array (obs ! a) \<and> \<not> ob_is_function (obs ! a) \<and>
          length (ob_elements (obs ! a)) = length js \<and>
          (\<forall>i < length js. denotes (Suc a) obs (ob_elements (obs ! a) ! i) (js ! i))
      | _ \<Rightarrow> False)"
| "denotes lo obs v (JObject ms) =
     (case v of
        VObject (Some a) \<Rightarrow>
          lo \<le> a \<and> a < length obs \<and> \<not> ob_is_array (obs ! a) \<and> \<not> ob_is_function (obs ! a) \<and>
          map fst (ob_properties (obs ! a)) = map fst ms \<and>
          (\<forall>i < length ms. denotes (Suc a) obs (snd (ob_properties (obs ! a) ! i)) (snd (ms ! i)))
      | _ \<Rightarrow> False)"
  by pat_completeness auto

termination
proof (relation "measure (\<lambda>(lo, obs, v, j). size j)", goal_cases)
  case (3 lo obs v ms x2 a x)
  then show ?case using size_nth [of x ms "size_prod (\<lambda>x. 0) size"] by (cases "ms ! x") simp
qed (auto intro: size_nth)

text \<open>It survives changes to the objects below \<open>lo\<close> and new objects.\<close>

lemma denotes_cong:
  "denotes lo obs v j \<Longrightarrow> length obs \<le> length obs' \<Longrightarrow> (\<And>b. lo \<le> b \<Longrightarrow> b < length obs \<Longrightarrow> obs' ! b = obs ! b) \<Longrightarrow>
    denotes lo obs' v j"
proof (induction j arbitrary: lo v)
  case (JArray js)
  then obtain a where a: "v = VObject (Some a)" "lo \<le> a" "a < length obs"
    by (auto split: js_value.splits option.splits)
  show ?case using JArray a by (auto simp: less_Suc_eq_le)
next
  case (JObject ms)
  then obtain a where a: "v = VObject (Some a)" "lo \<le> a" "a < length obs"
    by (auto split: js_value.splits option.splits)
  have "denotes (Suc a) obs' (snd (ob_properties (obs ! a) ! i)) (snd (ms ! i))" if "i < length ms" for i
    using JObject.prems a that by (intro JObject.IH [of "ms ! i"]) (auto simp: snds.simps)
  then show ?case using JObject.prems a by auto
qed auto

lemma denotes_lower: "denotes lo obs v j \<Longrightarrow> lo' \<le> lo \<Longrightarrow> denotes lo' obs v j"
  by (cases j) (auto split: js_value.splits option.splits)

subsection \<open>Numbers\<close>

lemma digits_of_digits: "0 \<le> n \<Longrightarrow> list_all isdigit (digits_of n)"
  using dec.shown_digits [of "nat n"] by (auto simp: digits_of_nat list_all_iff dec_value_def split: if_splits)

lemma digit_value_char: "isdigit c \<Longrightarrow> dec_value c = Some (digit_value c)"
  by (simp add: dec_value_def digit_value_def)

lemma number_in_digits: "0 \<le> n \<Longrightarrow> number_in 10 digit_value (digits_of n) = n"
proof (induction n rule: digits_of.induct)
  case (1 n)
  have c: "digit_value (char_of (48 + nat k)) = nat k" if "0 \<le> k" "k < 10" for k
    using that by (simp add: digit_value_def)
  show ?case
  proof (cases "n < 10")
    case True
    then show ?thesis using c 1(2) by (subst digits_of.simps) (simp add: number_in_def)
  next
    case False
    have "number_in 10 digit_value (digits_of (n div 10)) = n div 10" using 1 False by simp
    then show ?thesis using c [of "n mod 10"] False 
      by (subst digits_of.simps) (simp add: number_in_def)
  qed
qed

lemma digits_of_nonempty: "digits_of n \<noteq> []"
  by (subst digits_of.simps) simp

definition json_stops :: "string \<Rightarrow> bool" where
  "json_stops r \<longleftrightarrow> r = [] \<or> hd r = CHR '','' \<or> hd r = CHR '']'' \<or> hd r = CHR ''}''"

lemma json_stops_next: "json_stops r \<Longrightarrow> r \<noteq> [] \<Longrightarrow> \<not> isdigit (hd r) \<and> hd r \<noteq> CHR ''.'' \<and> tolower (hd r) \<noteq> CHR ''e'' \<and> tolower (hd r) \<noteq> CHR ''x''"
  by (auto simp: json_stops_def isdigit_def tolower_def)

lemma digit_not_letter: "isdigit c \<Longrightarrow> tolower c = c \<and> c \<noteq> CHR ''i'' \<and> c \<noteq> CHR ''n'' \<and> c \<noteq> CHR ''x'' \<and> c \<noteq> CHR ''-'' \<and> c \<noteq> CHR ''+''"
  by (auto simp: isdigit_def tolower_def)

lemma scan_magnitude_digits:
  assumes "0 \<le> n" and "json_stops r"
  shows "scan_magnitude double (digits_of n @ r) = Some (fround double (of_int n), r)"
proof -
  let ?ds = "digits_of n"
  obtain d ds where ds: "?ds = d # ds" using digits_of_nonempty [of n] by (cases ?ds) auto
  have dig: "list_all isdigit ?ds" by (rule digits_of_digits [OF assms(1)])
  then have d: "isdigit d" "list_all isdigit ds" by (simp_all add: ds)
  note low = digit_not_letter [OF d(1)]
  have words: "lower (take 8 (?ds @ r)) \<noteq> ''infinity''" "lower (take 3 (?ds @ r)) \<noteq> ''inf''" "lower (take 3 (?ds @ r)) \<noteq> ''nan''"
    using low by (simp_all add: ds lower_def)
  have "lower (take 2 (?ds @ r)) \<noteq> ''0x''"
    using d(2) digit_not_letter [of "hd ds"] json_stops_next [OF assms(2)]
    by (cases ds; cases r) (auto simp: ds lower_def)
  moreover have span: "takeWhile isdigit (?ds @ r) = ?ds" "dropWhile isdigit (?ds @ r) = r"
    using dig json_stops_next [OF assms(2)]
    by (simp_all add: list_all_iff takeWhile_append2 dropWhile_append2) (cases r; simp)+
  moreover have "scan_digits isdigit (?ds @ r) = (?ds, [], r)"
    unfolding scan_digits_def Let_def span using json_stops_next [OF assms(2)] by (cases r) simp_all
  moreover have "scan_exponent (CHR ''e'') r = (0, r)"
    using json_stops_next [OF assms(2)] by (cases r) (simp_all add: scan_exponent_def)
  ultimately show ?thesis using words
    by (simp add: scan_magnitude_def scan_decimal_def digits_of_nonempty number_in_digits [OF assms(1)] power_of_def)
qed

lemma int_text_head: "\<exists>c t. int_text i = c # t \<and> (isdigit c \<or> c = CHR ''-'')"
  using digits_of_nonempty digits_of_digits [of i] by (cases "digits_of i") (auto simp: int_text_def)

lemma strto_int:
  assumes "json_stops r" and "\<bar>i\<bar> < 10 ^ 15"
  shows "strto double (int_text i @ r) = Some (Num (of_int i), r)"
proof -
  have big: "\<bar>i\<bar> < 2 ^ 53" "\<bar>- i\<bar> < 2 ^ 53" using assms(2) by simp_all
  obtain c t where c: "digits_of i = c # t" using digits_of_nonempty [of i] by (cases "digits_of i") auto
  have c': "isdigit c" if "0 \<le> i" using digits_of_digits [OF that] c by simp
  have dig: "scan_sign (dropWhile isspace (digits_of i @ r)) = (False, digits_of i @ r)" if "0 \<le> i"
    using digit_not_letter [OF c' [OF that]] c' [OF that] by (simp add: c scan_sign_def isdigit_def isspace_def)
  have neg: "scan_sign (dropWhile isspace (CHR ''-'' # digits_of (- i) @ r)) = (True, digits_of (- i) @ r)"
    by (simp add: scan_sign_def isspace_def)
  have minus: "fround double (of_int (- i)) = Num (- of_int i)" using fround_double_int [OF big(2)] by simp
  show ?thesis
  proof (cases "i < 0")
    case True
    then show ?thesis using scan_magnitude_digits [of "- i" r] assms(1) neg minus
      by (simp add: int_text_def strto_def fneg_def del: of_int_minus)
  next
    case False
    then show ?thesis using scan_magnitude_digits [of i r] assms(1) dig fround_double_int [OF big(1)]
      by (simp add: int_text_def strto_def)
  qed
qed

lemma json_number_text:
  assumes "json_stops r" and "\<bar>i\<bar> < 10 ^ 15"
  shows "json_number (int_text i @ r, ok, s) = Some (VNumber (Num (of_int i)), r, ok, s)"
proof -
  have "CHR 0x00 \<notin> set (digits_of k)" if "0 \<le> k" for k
    using digits_of_digits [OF that] by (auto simp: list_all_iff isdigit_def)
  then have "CHR 0x00 \<notin> set (int_text i)" by (simp add: int_text_def)
  then have c: "c_text (int_text i @ r) = int_text i @ c_text r"
    unfolding c_text_def by (intro takeWhile_append2) auto
  have "json_stops (c_text r)" using assms(1) by (cases r) (auto simp: json_stops_def c_text_def)
  then show ?thesis using strto_int [of "c_text r" i] assms(2) by (simp add: json_number_def c)
qed

lemma number_to_string_int: "\<bar>i\<bar> < 10 ^ 15 \<Longrightarrow> number_to_string (Num (of_int i)) = int_text i"
proof -
  assume i: "\<bar>i\<bar> < 10 ^ 15"
  then have "\<bar>of_int i :: rat\<bar> < 10 ^ 15" by (metis of_int_abs of_int_less_iff of_int_numeral of_int_power)
  moreover have "int_text 0 = ''0''" by code_simp
  ultimately show ?thesis
    by (cases "i = 0") (simp_all add: number_to_string_def is_inf_def is_zero_def fvalue_def)
qed

subsection \<open>Strings\<close>

lemma json_string_escape: "json_string (concat (map escape_char t) @ CHR 0x22 # r) = (t, r)"
  by (induction t) (auto simp: escape_char_def)

lemma json_text_head: "\<exists>c t. json_text j = c # t \<and> \<not> isspace c \<and> c \<noteq> CHR '']'' \<and> c \<noteq> CHR ''}''"
proof (cases j)
  case (JNumber i)
  then show ?thesis using int_text_head [of i] by (auto simp: isdigit_def isspace_def)
qed (auto simp: json_escape_def isspace_def)

lemma json_skip_stop: "json_stops r \<Longrightarrow> json_skip r = r"
  by (cases r) (auto simp: json_stops_def json_skip_def isspace_def)

lemma json_skip_text [simp]: "json_skip (json_text j @ r) = json_text j @ r"
  using json_text_head [of j] by (auto simp: json_skip_def)

subsection \<open>Objects\<close>

lemma text_less_asym: "text_less a b \<Longrightarrow> \<not> text_less b a \<and> a \<noteq> b"
  by (induction a b rule: text_less.induct) auto

lemma map_put_last: "\<forall>l \<in> set (map fst m). text_less l k \<Longrightarrow> map_put k v m = m @ [(k, v)]"
proof (induction k v m rule: map_put.induct)
  case (2 k v l w m)
  then show ?case using text_less_asym [of l k] by auto
qed simp

text \<open>What reading leaves of the store: only the object in hand changes.\<close>

definition store_grows :: "nat option \<Rightarrow> 'w js_state \<Rightarrow> 'w js_state \<Rightarrow> bool" where
  "store_grows changing s s' \<longleftrightarrow>
     length (js_objects s) \<le> length (js_objects s') \<and>
     (\<forall>b < length (js_objects s). Some b \<noteq> changing \<longrightarrow> js_objects s' ! b = js_objects s ! b)"

lemma store_grows_trans: "store_grows c s s' \<Longrightarrow> store_grows c s' s'' \<Longrightarrow> store_grows c s s''"
  by (auto simp: store_grows_def)

lemma store_grows_any: "store_grows None s s' \<Longrightarrow> store_grows c s s'"
  by (auto simp: store_grows_def)

lemma store_grows_update [simp]: "store_grows (Some a) s (update_object a f s)"
  by (auto simp: store_grows_def update_object_def)

lemma store_grows_allocate: "allocate ob s = (a, s') \<Longrightarrow> store_grows None s s' \<and> a = length (js_objects s) \<and> a < length (js_objects s') \<and> js_objects s' ! a = ob"
  by (auto simp: store_grows_def allocate_def nth_append)

lemma denotes_grows:
  "denotes lo (js_objects s) v j \<Longrightarrow> store_grows (Some a) s s' \<Longrightarrow> a < lo \<Longrightarrow> denotes lo (js_objects s') v j"
  by (erule denotes_cong) (auto simp: store_grows_def)

definition reads_back :: "json \<Rightarrow> 'w js_state itself \<Rightarrow> bool" where
  "reads_back j T \<longleftrightarrow>
     (\<forall>n r ok (s :: 'w js_state). json_stops r \<longrightarrow> 2 * length (json_text j @ r) + 1 \<le> n \<longrightarrow>
        (\<exists>v s'. json_value n (json_text j @ r, ok, s) = Some (v, r, ok, s') \<and> store_grows None s s' \<and>
           denotes (length (js_objects s)) (js_objects s') v j))"

lemma reads_backE:
  fixes s :: "'w js_state"
  assumes "reads_back j TYPE('w js_state)" and "json_stops r" and "2 * length (json_text j @ r) + 1 \<le> n"
  obtains v s' where "json_value n (json_text j @ r, ok, s) = Some (v, r, ok, s')" and "store_grows None s s'"
    and "denotes (length (js_objects s)) (js_objects s') v j"
  using assms unfolding reads_back_def by blast

lemma json_items_read:
  fixes s :: "'w js_state"
  assumes "list_all (\<lambda>j. reads_back j TYPE('w js_state)) (j # js)" and "a < length (js_objects s)" and "json_stops r"
    and "2 * length (join_text '','' (map json_text (j # js)) @ '']'' @ r) + 2 \<le> n"
  shows "\<exists>s' vs. json_items n a (join_text '','' (map json_text (j # js)) @ '']'' @ r, ok, s) = Some (r, ok, s') \<and>
    store_grows (Some a) s s' \<and>
    js_objects s' ! a = (js_objects s ! a)\<lparr> ob_elements := ob_elements (js_objects s ! a) @ vs \<rparr> \<and>
    length vs = length (j # js) \<and>
    (\<forall>i < length (j # js). denotes (length (js_objects s)) (js_objects s') (vs ! i) ((j # js) ! i))"
  using assms
proof (induction js arbitrary: j n s)
  case Nil
  obtain m where n: "n = Suc m" using Nil.prems(4) by (cases n) auto
  obtain v s1 where v: "json_value m (json_text j @ '']'' @ r, ok, s) = Some (v, '']'' @ r, ok, s1)" "store_grows None s s1"
    "denotes (length (js_objects s)) (js_objects s1) v j"
    using reads_backE [of j "'']'' @ r" m ok s] Nil.prems(1,4) n by (auto simp: json_stops_def)
  let ?s' = "update_object a (\<lambda>ob. ob\<lparr> ob_elements := ob_elements ob @ [v] \<rparr>) s1"
  have "json_items n a (join_text '','' (map json_text [j]) @ '']'' @ r, ok, s) = Some (r, ok, ?s')"
    using json_text_head [of j] v(1) by (auto simp: n json_skip_stop json_stops_def Let_def)
  moreover have "store_grows (Some a) s ?s'" using store_grows_trans [OF store_grows_any [OF v(2)] store_grows_update] .
  moreover have "js_objects ?s' ! a = (js_objects s ! a)\<lparr> ob_elements := ob_elements (js_objects s ! a) @ [v] \<rparr>"
    using v(2) Nil.prems(2) by (simp add: update_object_def store_grows_def)
  moreover have "denotes (length (js_objects s)) (js_objects ?s') v j"
    using v(3) store_grows_update Nil.prems(2) by (rule denotes_grows)
  ultimately show ?case by (intro exI [of _ ?s'] exI [of _ "[v]"]) simp
next
  case (Cons k js)
  obtain m where n: "n = Suc m" using Cons.prems(4) by (cases n) auto
  let ?rest = "join_text '','' (map json_text (k # js)) @ '']'' @ r"
  obtain v s1 where v: "json_value m (json_text j @ '','' @ ?rest, ok, s) = Some (v, '','' @ ?rest, ok, s1)" "store_grows None s s1"
    "denotes (length (js_objects s)) (js_objects s1) v j"
    using reads_backE [of j "'','' @ ?rest" m ok s] Cons.prems(1,4) n by (auto simp: json_stops_def)
  let ?s2 = "update_object a (\<lambda>ob. ob\<lparr> ob_elements := ob_elements ob @ [v] \<rparr>) s1"
  have g: "store_grows (Some a) s ?s2" using store_grows_trans [OF store_grows_any [OF v(2)] store_grows_update] .
  have a2: "js_objects ?s2 ! a = (js_objects s ! a)\<lparr> ob_elements := ob_elements (js_objects s ! a) @ [v] \<rparr>"
    using v(2) Cons.prems(2) by (simp add: update_object_def store_grows_def)
  have "a < length (js_objects ?s2)" using g Cons.prems(2) by (simp add: store_grows_def)
  then obtain s' vs where s': "json_items m a (?rest, ok, ?s2) = Some (r, ok, s')" "store_grows (Some a) ?s2 s'"
    "js_objects s' ! a = (js_objects ?s2 ! a)\<lparr> ob_elements := ob_elements (js_objects ?s2 ! a) @ vs \<rparr>"
    "length vs = length (k # js)"
    "\<forall>i < length (k # js). denotes (length (js_objects ?s2)) (js_objects s') (vs ! i) ((k # js) ! i)"
    using Cons.IH [of k ?s2 m] Cons.prems n by auto
  have step: "json_items n a (join_text '','' (map json_text (j # k # js)) @ '']'' @ r, ok, s) = Some (r, ok, s')"
    using json_text_head [of j] v(1) s'(1) by (auto simp: n json_skip_stop json_stops_def Let_def)
  have "denotes (length (js_objects s)) (js_objects s') v j"
    using denotes_grows [OF denotes_grows [OF v(3) store_grows_update] s'(2)] Cons.prems(2) by simp
  moreover have "denotes (length (js_objects s)) (js_objects s') (vs ! i) ((k # js) ! i)" if "i < length (k # js)" for i
    using s'(5) that g denotes_lower by (auto simp: store_grows_def)
  ultimately have "\<forall>i < length (j # k # js). denotes (length (js_objects s)) (js_objects s') ((v # vs) ! i) ((j # k # js) ! i)"
    by (auto simp: nth_Cons split: nat.split)
  then show ?case using step store_grows_trans [OF g s'(2)] s'(3,4) a2
    by (intro exI [of _ s'] exI [of _ "v # vs"]) simp
qed

declare json_members.simps [simp del]

definition member_text :: "string \<times> json \<Rightarrow> string" where
  "member_text m = json_member (fst m, json_text (snd m))"

lemma member_text_eq: "member_text (k, j) = CHR 0x22 # concat (map escape_char k) @ CHR 0x22 # CHR '':'' # json_text j"
  by (simp add: member_text_def json_member_def json_escape_def)

lemma json_member_step:
  fixes s :: "'w js_state"
  assumes "reads_back j TYPE('w js_state)" and "json_stops (c # r)" and "2 * length (member_text (k, j) @ c # r) \<le> Suc n"
  obtains v s1 where "store_grows None s s1" and "denotes (length (js_objects s)) (js_objects s1) v j"
    and "json_members (Suc n) a (member_text (k, j) @ c # r, ok, s) =
      (let s2 = put_property a k v s1 in
       if c = CHR '','' then json_members n a (r, ok, s2)
       else if c = CHR ''}'' then Some (r, ok, s2) else Some (c # r, False, s2))"
proof -
  have "2 * length (json_text j @ c # r) + 1 \<le> n" using assms(3) by (simp add: member_text_eq)
  then obtain v s1 where v: "json_value n (json_text j @ c # r, ok, s) = Some (v, c # r, ok, s1)" "store_grows None s s1"
    "denotes (length (js_objects s)) (js_objects s1) v j"
    using reads_backE [OF assms(1,2), of n ok s] by blast
  have "json_skip (member_text (k, j) @ c # r) = member_text (k, j) @ c # r"
    by (simp add: member_text_eq json_skip_def isspace_def)
  moreover have "json_skip (CHR '':'' # q) = CHR '':'' # q" for q by (simp add: json_skip_def isspace_def)
  moreover have "json_string (tl (member_text (k, j) @ c # r)) = (k, CHR '':'' # json_text j @ c # r)"
    by (simp add: member_text_eq json_string_escape)
  moreover have "member_text (k, j) @ c # r \<noteq> []" "is_prefix [CHR 0x22] (member_text (k, j) @ c # r)"
    by (simp_all add: member_text_eq)
  ultimately have "json_members (Suc n) a (member_text (k, j) @ c # r, ok, s) =
      (let s2 = put_property a k v s1 in
       if c = CHR '','' then json_members n a (r, ok, s2)
       else if c = CHR ''}'' then Some (r, ok, s2) else Some (c # r, False, s2))"
    using v(1) json_skip_stop [OF assms(2)] by (auto simp: json_members.simps Let_def)
  with v(2,3) show ?thesis by (rule that)
qed

lemma put_last:
  assumes "a < length (js_objects s)" and "\<forall>l \<in> set (map fst (ob_properties (js_objects s ! a))). text_less l k"
  shows "js_objects (put_property a k v s) ! a = (js_objects s ! a)\<lparr> ob_properties := ob_properties (js_objects s ! a) @ [(k, v)] \<rparr>"
    and "store_grows (Some a) s (put_property a k v s)"
  using assms map_put_last [of "ob_properties (js_objects s ! a)" k v]
  by (auto simp: put_property_def update_object_def store_grows_def)

lemma json_members_read:
  fixes s :: "'w js_state"
  assumes "list_all (\<lambda>m. reads_back (snd m) TYPE('w js_state)) (m # ms)" and "a < length (js_objects s)" and "json_stops r"
    and "2 * length (join_text '','' (map member_text (m # ms)) @ ''}'' @ r) + 2 \<le> n"
    and "sorted_wrt text_less (map fst (ob_properties (js_objects s ! a)) @ map fst (m # ms))"
  shows "\<exists>s' vs. json_members n a (join_text '','' (map member_text (m # ms)) @ ''}'' @ r, ok, s) = Some (r, ok, s') \<and>
    store_grows (Some a) s s' \<and>
    js_objects s' ! a = (js_objects s ! a)\<lparr> ob_properties := ob_properties (js_objects s ! a) @ zip (map fst (m # ms)) vs \<rparr> \<and>
    length vs = length (m # ms) \<and>
    (\<forall>i < length (m # ms). denotes (length (js_objects s)) (js_objects s') (vs ! i) (snd ((m # ms) ! i)))"
  using assms
proof (induction ms arbitrary: m n s)
  case Nil
  obtain p where n: "n = Suc p" using Nil.prems(4) by (cases n) auto
  obtain k j where m: "m = (k, j)" by fastforce
  have "reads_back j TYPE('w js_state)" "json_stops (CHR ''}'' # r)" "2 * length (member_text (k, j) @ CHR ''}'' # r) \<le> Suc p"
    using Nil.prems(1,4) by (simp_all add: m n json_stops_def)
  from json_member_step [OF this, of s a ok] obtain v s1
    where v: "store_grows None s s1" "denotes (length (js_objects s)) (js_objects s1) v j"
      and "json_members (Suc p) a (member_text (k, j) @ CHR ''}'' # r, ok, s) =
        (let s2 = put_property a k v s1 in
         if CHR ''}'' = CHR '','' then json_members p a (r, ok, s2)
         else if CHR ''}'' = CHR ''}'' then Some (r, ok, s2) else Some (CHR ''}'' # r, False, s2))" .
  then have step: "json_members n a (join_text '','' (map member_text [m]) @ ''}'' @ r, ok, s) = Some (r, ok, put_property a k v s1)"
    by (simp add: m n Let_def)
  have a1: "a < length (js_objects s1)" "js_objects s1 ! a = js_objects s ! a"
    using v(1) Nil.prems(2) by (auto simp: store_grows_def)
  have "\<forall>l \<in> set (map fst (ob_properties (js_objects s1 ! a))). text_less l k"
    using Nil.prems(5) by (simp add: a1 m sorted_wrt_append)
  note put = put_last [OF a1(1) this, of v]
  have "denotes (length (js_objects s)) (js_objects (put_property a k v s1)) v j"
    by (rule denotes_grows [OF v(2) put(2) Nil.prems(2)])
  then show ?case using step put(1) store_grows_trans [OF store_grows_any [OF v(1)] put(2)] a1(2)
    by (intro exI [of _ "put_property a k v s1"] exI [of _ "[v]"]) (simp add: m)
next
  case (Cons m' ms)
  obtain p where n: "n = Suc p" using Cons.prems(4) by (cases n) auto
  obtain k j where m: "m = (k, j)" by fastforce
  let ?rest = "join_text '','' (map member_text (m' # ms)) @ ''}'' @ r"
  have whole: "join_text '','' (map member_text (m # m' # ms)) @ ''}'' @ r = member_text (k, j) @ CHR '','' # ?rest"
    by (simp add: m)
  have "reads_back j TYPE('w js_state)" "json_stops (CHR '','' # ?rest)" "2 * length (member_text (k, j) @ CHR '','' # ?rest) \<le> Suc p"
    using Cons.prems(1,4) unfolding whole n by (simp_all add: m json_stops_def)
  from json_member_step [OF this, of s a ok] obtain v s1
    where v: "store_grows None s s1" "denotes (length (js_objects s)) (js_objects s1) v j"
      and "json_members (Suc p) a (member_text (k, j) @ CHR '','' # ?rest, ok, s) =
        (let s2 = put_property a k v s1 in
         if CHR '','' = CHR '','' then json_members p a (?rest, ok, s2)
         else if CHR '','' = CHR ''}'' then Some (?rest, ok, s2) else Some (CHR '','' # ?rest, False, s2))" .
  then have step: "json_members n a (member_text (k, j) @ CHR '','' # ?rest, ok, s) = json_members p a (?rest, ok, put_property a k v s1)"
    by (simp only: n Let_def if_True refl)
  have a1: "a < length (js_objects s1)" "js_objects s1 ! a = js_objects s ! a"
    using v(1) Cons.prems(2) by (auto simp: store_grows_def)
  have "\<forall>l \<in> set (map fst (ob_properties (js_objects s1 ! a))). text_less l k"
    using Cons.prems(5) by (simp add: a1 m sorted_wrt_append)
  note put = put_last [OF a1(1) this, of v]
  let ?s2 = "put_property a k v s1"
  have g: "store_grows (Some a) s ?s2" using store_grows_trans [OF store_grows_any [OF v(1)] put(2)] .
  have a2: "js_objects ?s2 ! a = (js_objects s ! a)\<lparr> ob_properties := ob_properties (js_objects s ! a) @ [(k, v)] \<rparr>"
    using put(1) a1(2) by simp
  have len: "a < length (js_objects ?s2)" using g Cons.prems(2) by (simp add: store_grows_def)
  have "2 * length ?rest + 2 \<le> p" using Cons.prems(4) unfolding whole n by simp
  moreover have "sorted_wrt text_less (map fst (ob_properties (js_objects ?s2 ! a)) @ map fst (m' # ms))"
    using Cons.prems(5) by (simp add: a2 m)
  ultimately obtain s' vs where s': "json_members p a (?rest, ok, ?s2) = Some (r, ok, s')" "store_grows (Some a) ?s2 s'"
    "js_objects s' ! a = (js_objects ?s2 ! a)\<lparr> ob_properties := ob_properties (js_objects ?s2 ! a) @ zip (map fst (m' # ms)) vs \<rparr>"
    "length vs = length (m' # ms)"
    "\<forall>i < length (m' # ms). denotes (length (js_objects ?s2)) (js_objects s') (vs ! i) (snd ((m' # ms) ! i))"
    using Cons.IH [of m' ?s2 p] Cons.prems(1,3) len by auto
  have "denotes (length (js_objects s)) (js_objects s') v j"
    using denotes_grows [OF denotes_grows [OF v(2) put(2) Cons.prems(2)] s'(2) Cons.prems(2)] .
  moreover have "denotes (length (js_objects s)) (js_objects s') (vs ! i) (snd ((m' # ms) ! i))" if "i < length (m' # ms)" for i
    using s'(5) that g denotes_lower by (auto simp: store_grows_def)
  ultimately have "\<forall>i < length (m # m' # ms). denotes (length (js_objects s)) (js_objects s') ((v # vs) ! i) (snd ((m # m' # ms) ! i))"
    by (auto simp: nth_Cons m split: nat.split)
  then show ?case using step s'(1,3,4) store_grows_trans [OF g s'(2)] a2
    unfolding whole by (intro exI [of _ s'] exI [of _ "v # vs"]) (simp add: m)
qed

lemma json_text_object: "json_text (JObject ms) = ''{'' @ join_text '','' (map member_text ms) @ ''}''"
proof -
  have "(\<lambda>(k, j). json_member (k, json_text j)) = member_text" by (auto simp: member_text_def)
  then show ?thesis by simp
qed

lemma reads_back_array:
  assumes "list_all (\<lambda>j. reads_back j TYPE('w js_state)) js"
  shows "reads_back (JArray js) TYPE('w js_state)"
  unfolding reads_back_def
proof (intro allI impI)
  fix n r ok and s :: "'w js_state"
  assume r: "json_stops r" and n: "2 * length (json_text (JArray js) @ r) + 1 \<le> n"
  obtain m where m: "n = Suc m" using n by (cases n) auto
  obtain a s1 where a: "allocate (array_object []) s = (a, s1)" by fastforce
  have al: "store_grows None s s1" "length (js_objects s) = a" "a < length (js_objects s1)" "js_objects s1 ! a = array_object []"
    using store_grows_allocate [OF a] by auto
  have flags: "ob_is_array (array_object vs)" "\<not> ob_is_function (array_object vs)" "ob_elements (array_object vs) = vs" for vs
    by (simp_all add: array_object_def new_object_def)
  show "\<exists>v s'. json_value n (json_text (JArray js) @ r, ok, s) = Some (v, r, ok, s') \<and> store_grows None s s' \<and>
      denotes (length (js_objects s)) (js_objects s') v (JArray js)"
  proof (cases js)
    case Nil
    have "json_value n (json_text (JArray js) @ r, ok, s) = Some (VObject (Some a), r, ok, s1)"
      by (simp add: m Nil a json_skip_def isspace_def json_value.simps)
    then show ?thesis using al flags Nil by (intro exI [of _ "VObject (Some a)"] exI [of _ s1]) simp
  next
    case (Cons j js')
    let ?rest = "join_text '','' (map json_text (j # js')) @ '']'' @ r"
    have len: "a < length (js_objects s1)" using al by simp
    have "2 * length ?rest + 2 \<le> m" using n by (simp add: m Cons)
    then obtain s' vs where s': "json_items m a (?rest, ok, s1) = Some (r, ok, s')" "store_grows (Some a) s1 s'"
      "js_objects s' ! a = (js_objects s1 ! a)\<lparr> ob_elements := ob_elements (js_objects s1 ! a) @ vs \<rparr>"
      "length vs = length js" "\<forall>i < length js. denotes (length (js_objects s1)) (js_objects s') (vs ! i) (js ! i)"
      using json_items_read [of j js' a s1 r m ok] assms r len unfolding Cons by auto
    obtain c t where c: "json_text j = c # t" "\<not> isspace c" "c \<noteq> CHR '']''" using json_text_head by blast
    have head: "json_skip ?rest = ?rest" "\<not> is_prefix '']'' ?rest"
      using c by (cases js'; simp add: json_skip_def)+
    have "json_value n (json_text (JArray js) @ r, ok, s) = Some (VObject (Some a), r, ok, s')"
      using s'(1) head by (simp add: m Cons a json_value.simps Let_def)
        (simp add: a json_skip_def isspace_def)
    moreover have "store_grows None s s'" using al s'(2) by (auto simp: store_grows_def)
    moreover have "denotes (length (js_objects s)) (js_objects s') (VObject (Some a)) (JArray js)"
      using al flags s' len denotes_lower [where lo = "length (js_objects s1)" and lo' = "Suc a"]
      by (simp add: store_grows_def)
    ultimately show ?thesis by blast
  qed
qed

lemma reads_back_object:
  assumes "list_all (\<lambda>m. reads_back (snd m) TYPE('w js_state)) ms" and "sorted_wrt text_less (map fst ms)"
  shows "reads_back (JObject ms) TYPE('w js_state)"
  unfolding reads_back_def json_text_object
proof (intro allI impI)
  fix n r ok and s :: "'w js_state"
  assume r: "json_stops r" and n: "2 * length ((''{'' @ join_text '','' (map member_text ms) @ ''}'') @ r) + 1 \<le> n"
  obtain m where m: "n = Suc m" using n by (cases n) auto
  obtain a s1 where a: "allocate new_object s = (a, s1)" by fastforce
  have al: "store_grows None s s1" "length (js_objects s) = a" "a < length (js_objects s1)" "js_objects s1 ! a = new_object"
    using store_grows_allocate [OF a] by auto
  have flags: "\<not> ob_is_array new_object" "\<not> ob_is_function new_object" "ob_properties new_object = []"
    by (simp_all add: new_object_def)
  show "\<exists>v s'. json_value n ((''{'' @ join_text '','' (map member_text ms) @ ''}'') @ r, ok, s) = Some (v, r, ok, s') \<and>
      store_grows None s s' \<and> denotes (length (js_objects s)) (js_objects s') v (JObject ms)"
  proof (cases ms)
    case Nil
    have "json_value n ((''{'' @ join_text '','' (map member_text ms) @ ''}'') @ r, ok, s) = Some (VObject (Some a), r, ok, s1)"
      by (simp add: m Nil a json_skip_def isspace_def json_value.simps)
    then show ?thesis using al flags Nil by (intro exI [of _ "VObject (Some a)"] exI [of _ s1]) simp
  next
    case (Cons p ms')
    let ?rest = "join_text '','' (map member_text (p # ms')) @ ''}'' @ r"
    have len: "a < length (js_objects s1)" using al by simp
    have "2 * length ?rest + 2 \<le> m" using n by (simp add: m Cons)
    moreover have "sorted_wrt text_less (map fst (ob_properties (js_objects s1 ! a)) @ map fst (p # ms'))"
      using al flags assms(2) by (simp add: Cons)
    ultimately obtain s' vs where s': "json_members m a (?rest, ok, s1) = Some (r, ok, s')" "store_grows (Some a) s1 s'"
      "js_objects s' ! a = (js_objects s1 ! a)\<lparr> ob_properties := ob_properties (js_objects s1 ! a) @ zip (map fst ms) vs \<rparr>"
      "length vs = length ms" "\<forall>i < length ms. denotes (length (js_objects s1)) (js_objects s') (vs ! i) (snd (ms ! i))"
      using json_members_read [of p ms' a s1 r m ok] assms(1) r len unfolding Cons by auto
    obtain t where t: "?rest = CHR 0x22 # t" by (cases p; cases ms') (simp_all add: member_text_eq)
    have head: "json_skip ?rest = ?rest" "\<not> is_prefix ''}'' ?rest"
      unfolding t by (simp_all add: json_skip_def isspace_def)
    have "json_value n ((''{'' @ join_text '','' (map member_text ms) @ ''}'') @ r, ok, s) = Some (VObject (Some a), r, ok, s')"
      using s'(1) head by (simp add: m Cons a json_value.simps Let_def)
        (simp add: a json_skip_def isspace_def)
    moreover have "store_grows None s s'" using al s'(2) by (auto simp: store_grows_def)
    moreover have "denotes (length (js_objects s)) (js_objects s') (VObject (Some a)) (JObject ms)"
      using al flags s' len denotes_lower [where lo = "length (js_objects s1)" and lo' = "Suc a"]
      by (simp add: store_grows_def)
    ultimately show ?thesis by blast
  qed
qed

lemma json_value_words:
  "2 * k + 1 \<le> n \<Longrightarrow> json_value n (''null'' @ r, ok, s) = Some (VNull, r, ok, s)"
  "2 * k + 1 \<le> n \<Longrightarrow> json_value n (''true'' @ r, ok, s) = Some (VBoolean True, r, ok, s)"
  "2 * k + 1 \<le> n \<Longrightarrow> json_value n (''false'' @ r, ok, s) = Some (VBoolean False, r, ok, s)"
  by (cases n; simp add: json_value.simps json_skip_def isspace_def json_word_def)+

lemma json_reads_back: "json_ok j \<Longrightarrow> reads_back j TYPE('w js_state)"
proof (induction j)
  case (JNumber i)
  obtain c t where c: "int_text i = c # t" "isdigit c \<or> c = CHR ''-''" using int_text_head by blast
  have skip: "\<not> isspace c" "c \<notin> set ''{[tfn'' \<and> c \<noteq> CHR 0x22" using c(2) by (auto simp: isdigit_def isspace_def)
  have "json_value n (int_text i @ r, ok, s) = Some (VNumber (Num (of_int i)), r, ok, s)"
    if rr: "json_stops r" and nn: "2 * length (int_text i @ r) + 1 \<le> n" for n r ok and s :: "'w js_state"
  proof -
    obtain m where "n = Suc m" using nn by (cases n) auto
    then show ?thesis using json_number_text [of r i ok s] rr JNumber skip
      by (simp add: json_value.simps json_skip_def c(1))
  qed
  then show ?case unfolding reads_back_def by (auto simp: store_grows_def)
next
  case (JString t)
  have "json_value n (json_escape t @ r, ok, s) = Some (VString t, r, ok, s)"
    if "2 * length (json_escape t @ r) + 1 \<le> n" for n r ok and s :: "'w js_state"
    using that by (cases n) (simp_all add: json_value.simps json_escape_def json_skip_def isspace_def json_string_escape)
  then show ?case unfolding reads_back_def by (auto simp: store_grows_def)
next
  case (JArray js)
  then show ?case by (intro reads_back_array) (auto simp: list_all_iff)
next
  case (JObject ms)
  then show ?case by (intro reads_back_object) (auto simp: list_all_iff)
next
  case JNull
  have "json_value n (json_text JNull @ r, ok, s) = Some (VNull, r, ok, s)"
    if "2 * length (json_text JNull @ r) + 1 \<le> n" for n r ok and s :: "'w js_state"
    using json_value_words(1) [OF that, of r ok s] by simp
  then show ?case unfolding reads_back_def by (auto simp: store_grows_def)
next
  case (JBoolean b)
  have "json_value n (json_text (JBoolean b) @ r, ok, s) = Some (VBoolean b, r, ok, s)"
    if "2 * length (json_text (JBoolean b) @ r) + 1 \<le> n" for n r ok and s :: "'w js_state"
    using json_value_words(2,3) [OF that, of r ok s] by simp
  then show ?case unfolding reads_back_def by (auto simp: store_grows_def)
qed

text \<open>Writing a value that a tree describes gives the text of the tree; the addresses bound its depth.\<close>

lemma those_map_eq: "(\<And>x. x \<in> set xs \<Longrightarrow> f x = Some (g x)) \<Longrightarrow> those (map f xs) = Some (map g xs)"
  by (induction xs) auto

lemma denotes_not_function: "denotes lo obs (VObject (Some b)) j \<Longrightarrow> \<not> ob_is_function (obs ! b)"
  by (cases j) auto

lemma json_at_denotes:
  "json_ok j \<Longrightarrow> denotes lo obs v j \<Longrightarrow> length obs \<le> lo + n \<Longrightarrow> json_at n obs v = Some (json_text j)"
proof (induction j arbitrary: lo v n)
  case (JNumber i)
  then show ?case by (simp add: number_to_string_int)
next
  case (JArray js)
  then obtain a where v: "v = VObject (Some a)" by (auto split: js_value.splits option.splits)
  have a: "lo \<le> a" "a < length obs" "ob_is_array (obs ! a)" "\<not> ob_is_function (obs ! a)"
    "length (ob_elements (obs ! a)) = length js" "\<forall>i < length js. denotes (Suc a) obs (ob_elements (obs ! a) ! i) (js ! i)"
    using JArray.prems(2) by (simp_all add: v)
  obtain m where n: "n = Suc m" using JArray.prems(3) a(1,2) by (cases n) auto
  have "json_at m obs (ob_elements (obs ! a) ! i) = Some (json_text (js ! i))" if "i < length js" for i
    using JArray.prems(1,3) a(1,6) that n by (intro JArray.IH [of _ "Suc a"]) (auto simp: list_all_length)
  then have "map (json_at m obs) (ob_elements (obs ! a)) = map (\<lambda>j. Some (json_text j)) js"
    using a(5) by (intro nth_equalityI) auto
  then show ?case using a(3,4) those_map_eq [of js "\<lambda>j. Some (json_text j)" json_text] by (simp add: v n)
next
  case (JObject ms)
  then obtain a where v: "v = VObject (Some a)" by (auto split: js_value.splits option.splits)
  let ?ps = "ob_properties (obs ! a)"
  have a: "lo \<le> a" "a < length obs" "\<not> ob_is_array (obs ! a)" "\<not> ob_is_function (obs ! a)"
    "map fst ?ps = map fst ms" "\<forall>i < length ms. denotes (Suc a) obs (snd (?ps ! i)) (snd (ms ! i))"
    using JObject.prems(2) by (simp_all add: v)
  have len: "length ?ps = length ms" using a(5) by (metis length_map)
  obtain m where n: "n = Suc m" using JObject.prems(3) a(1,2) by (cases n) auto
  have all: "filter (\<lambda>(k, v). case v of VObject (Some b) \<Rightarrow> \<not> ob_is_function (obs ! b) | _ \<Rightarrow> True) ?ps = ?ps"
    using a(6) denotes_not_function len
    by (fastforce simp: filter_id_conv in_set_conv_nth split: js_value.splits option.splits)
  have one: "json_at m obs (snd (?ps ! i)) = Some (json_text (snd (ms ! i)))" if "i < length ms" for i
    using JObject.prems(1,3) a(1,6) that n by (intro JObject.IH [of "ms ! i" _ "Suc a"]) (auto simp: list_all_length snds.simps)
  have key: "fst (?ps ! i) = fst (ms ! i)" if "i < length ms" for i
    using a(5) len that by (metis nth_map)
  have "map (\<lambda>(k, v). map_option (\<lambda>t. json_member (k, t)) (json_at m obs v)) ?ps = map (\<lambda>p. Some (member_text p)) ms"
    using one key len by (intro nth_equalityI) (auto simp: split_beta member_text_def)
  then show ?case using a(3,4) those_map_eq [of ms "\<lambda>p. Some (member_text p)" member_text]
    by (simp add: v n all json_text_object del: json_text.simps)
qed auto

text \<open>C35: \<open>JSON.parse\<close> and \<open>JSON.stringify\<close> agree on canonical texts.  What \<open>JSON.parse\<close> makes of the text of a JSON
  tree, of nested arrays, objects whose keys are in ascending order, any strings, \<open>true\<close>, \<open>false\<close>, \<open>null\<close> and
  whole numbers below \<open>10 ^ 15\<close> in magnitude, is a value that \<open>JSON.stringify\<close> turns back into that text,
  whatever the store.  (Other orders of the keys are sorted, and fractions can be printed differently.)\<close>

theorem json_roundtrip:
  assumes "json_ok j"
  shows "\<exists>v s'. json_parse (json_text j) s = Returns (v, s') \<and> json_stringify s' v = Returns (json_text j)"
proof -
  have "json_stops []" "2 * length (json_text j @ []) + 1 \<le> 2 * length (json_text j) + 2" by (simp_all add: json_stops_def)
  from reads_backE [OF json_reads_back [OF assms] this, of True s]
  obtain v s' where "json_value (2 * length (json_text j) + 2) (json_text j @ [], True, s) = Some (v, [], True, s')"
    and v: "denotes (length (js_objects s)) (js_objects s') v j" .
  then have p: "json_parse (json_text j) s = Returns (v, s')"
    unfolding json_parse_def append_Nil2 by (simp only: option.case prod.case if_True)
  have "json_at (length (js_objects s')) (js_objects s') v = Some (json_text j)"
    by (rule json_at_denotes [OF assms v]) simp
  then show ?thesis using p by (simp add: json_stringify_def)
qed

text \<open>An object with an array, a number and strings with quotes in them.\<close>

theorem json_roundtrip_witness:
  "\<forall>s :: unit js_state. \<exists>v s'.
    json_parse (json_text (JObject [(''a'', JArray [JNumber (- 12), JNull]), (''b'', JString [CHR 0x22, CHR 0x5C])])) s = Returns (v, s') \<and>
    json_stringify s' v = Returns (json_text (JObject [(''a'', JArray [JNumber (- 12), JNull]), (''b'', JString [CHR 0x22, CHR 0x5C])]))"
  by (intro allI json_roundtrip) code_simp

end
