(* ===== verification/Js_Runtime.thy ===== *)
theory Js_Runtime
  imports Js_Json
begin

text \<open>
  The library of the script interpreter (\<open>js/js.cpp\<close>): promises, regular expression and date
  objects, the methods of strings, numbers, arrays, maps and sets, reading and writing properties,
  the operators, and the initial objects.  Methods that call back into a script are in the
  interpreter.  A cast of a number that does not fit an \<open>int\<close> is undefined, as is a value that
  prints itself; \<open>substr\<close> past the end raises.
\<close>

section \<open>Promises\<close>

definition put_native :: "nat \<Rightarrow> string \<times> native \<Rightarrow> 'w js_state \<Rightarrow> 'w js_state" where
  "put_native a m s = (case make_native (snd m) s of (v, s') \<Rightarrow> put_property a (fst m) v s')"

definition make_promise :: "'w js_state \<Rightarrow> nat \<times> 'w js_state" where
  "make_promise s =
     (case allocate (new_object\<lparr> ob_prototype := Some (js_object_prototype s), ob_promise := Some new_promise_data \<rparr>) s of
        (a, s1) \<Rightarrow>
          (a, fold (put_native a) [(''then'', PromiseThen a), (''catch'', PromiseCatch a), (''finally'', PromiseFinally a)] s1))"

definition schedule_microtask :: "microtask \<Rightarrow> 'w js_state \<Rightarrow> 'w js_state" where
  "schedule_microtask t s = s\<lparr> js_microtasks := js_microtasks s @ [t] \<rparr>"

definition handler_task :: "nat \<Rightarrow> bool \<Rightarrow> js_value \<Rightarrow> js_value \<times> js_value \<Rightarrow> microtask" where
  "handler_task a rejected v hs =
     \<lparr> mt_derived = a, mt_handler = (if rejected then snd hs else fst hs), mt_rejected = rejected, mt_value = v \<rparr>"

definition settled :: "bool \<Rightarrow> js_value \<Rightarrow> promise_data" where
  "settled rejected v = \<lparr> pr_status = (if rejected then Rejected else Fulfilled), pr_value = v, pr_handlers = [] \<rparr>"

text \<open>The handlers run for the promise itself, which is settled by then: a promise made by \<open>then\<close>
  on a pending one is never settled.\<close>

definition settle_promise :: "nat \<Rightarrow> bool \<Rightarrow> js_value \<Rightarrow> 'w js_state \<Rightarrow> 'w js_state" where
  "settle_promise a rejected v s =
     (case ob_promise (object_at s a) of
        None \<Rightarrow> s
      | Some p \<Rightarrow>
          if pr_status p \<noteq> Pending then s
          else fold schedule_microtask (map (handler_task a rejected v) (pr_handlers p))
                 (update_object a (\<lambda>ob. ob\<lparr> ob_promise := Some (settled rejected v) \<rparr>) s))"

definition add_handlers :: "nat \<Rightarrow> js_value \<times> js_value \<Rightarrow> 'w js_state \<Rightarrow> 'w js_state" where
  "add_handlers a hs =
     update_object a (\<lambda>ob. ob\<lparr> ob_promise := map_option (\<lambda>p. p\<lparr> pr_handlers := pr_handlers p @ [hs] \<rparr>) (ob_promise ob) \<rparr>)"

definition resolved_promise :: "bool \<Rightarrow> js_value \<Rightarrow> 'w js_state \<Rightarrow> js_value \<times> 'w js_state" where
  "resolved_promise rejected v s = (case make_promise s of (a, s') \<Rightarrow> (VObject (Some a), settle_promise a rejected v s'))"

text \<open>The lambdas of \<open>then\<close> and \<open>catch\<close>; \<open>a\<close> is the promise they belong to.\<close>

definition promise_data_at :: "'w js_state \<Rightarrow> nat \<Rightarrow> promise_data" where
  "promise_data_at s a = (case ob_promise (object_at s a) of None \<Rightarrow> new_promise_data | Some p \<Rightarrow> p)"

definition promise_then :: "nat \<Rightarrow> js_value list \<Rightarrow> 'w js_state \<Rightarrow> js_value \<times> 'w js_state" where
  "promise_then a args s =
     (case make_promise s of (d, s1) \<Rightarrow>
        let hs = (argument args 0, argument args 1); p = promise_data_at s1 a in
        (VObject (Some d),
         if pr_status p = Pending then add_handlers a hs s1
         else schedule_microtask (handler_task d (pr_status p = Rejected) (pr_value p) hs) s1))"

definition promise_catch :: "nat \<Rightarrow> js_value list \<Rightarrow> 'w js_state \<Rightarrow> js_value \<times> 'w js_state" where
  "promise_catch a args s =
     (case make_promise s of (d, s1) \<Rightarrow>
        let hs = (VUndefined, argument args 0); p = promise_data_at s1 a in
        (VObject (Some d),
         case pr_status p of
           Pending \<Rightarrow> add_handlers a hs s1
         | Rejected \<Rightarrow> schedule_microtask (handler_task d True (pr_value p) hs) s1
         | Fulfilled \<Rightarrow> settle_promise d False (pr_value p) s1))"

text \<open>\<open>Promise.all\<close> does not wait: a pending promise gives the value it does not have yet.\<close>

definition promise_item :: "'w js_state \<Rightarrow> js_value \<Rightarrow> js_value" where
  "promise_item s v = (case promise_of s v of None \<Rightarrow> v | Some (a, p) \<Rightarrow> pr_value p)"

definition elements_of :: "'w js_state \<Rightarrow> js_value \<Rightarrow> js_value list" where
  "elements_of s v = (case array_of s v of None \<Rightarrow> [] | Some a \<Rightarrow> ob_elements (object_at s a))"

definition promise_all :: "js_value list \<Rightarrow> 'w js_state \<Rightarrow> js_value \<times> 'w js_state" where
  "promise_all args s =
     (case make_promise s of (d, s1) \<Rightarrow>
      case plain_array (map (promise_item s1) (elements_of s1 (argument args 0))) s1 of (v, s2) \<Rightarrow>
        (VObject (Some d), settle_promise d False v s2))"

definition promise_resolve :: "js_value list \<Rightarrow> 'w js_state \<Rightarrow> js_value \<times> 'w js_state" where
  "promise_resolve args s =
     (case promise_of s (argument args 0) of
        Some _ \<Rightarrow> (argument args 0, s)
      | None \<Rightarrow> resolved_promise False (argument args 0) s)"

section \<open>Regular expressions and dates\<close>

definition make_regex_object :: "regex option \<Rightarrow> 'w js_state \<Rightarrow> js_value \<times> 'w js_state" where
  "make_regex_object r s =
     (case r of
        None \<Rightarrow> (VNull, s)
      | Some rx \<Rightarrow>
          (case allocate (new_object\<lparr> ob_regex := Some rx \<rparr>) s of (a, s1) \<Rightarrow>
             (VObject (Some a),
              fold (put_native a) [(''test'', RegexTest rx), (''exec'', RegexExec rx)]
                (put_property a ''global'' (VBoolean (rx_global rx))
                  (put_property a ''flags'' (VString (rx_flags rx))
                    (put_property a ''source'' (VString (rx_source rx)) s1))))))"

definition first_text :: "js_value list \<Rightarrow> 'w js_state \<Rightarrow> string run" where
  "first_text args s = (if args = [] then Returns [] else to_text s (args ! 0))"

definition slice_of :: "string \<Rightarrow> nat \<Rightarrow> nat \<Rightarrow> js_value" where
  "slice_of t i j = VString (take (j - i) (drop i t))"

definition regex_exec :: "regex \<Rightarrow> string \<Rightarrow> 'w js_state \<Rightarrow> js_value \<times> 'w js_state" where
  "regex_exec rx t s =
     (case search rx t 0 of
        None \<Rightarrow> (VNull, s)
      | Some (i, j) \<Rightarrow>
          (case allocate (array_object [slice_of t i j]) s of (a, s1) \<Rightarrow>
             (VObject (Some a), put_property a ''index'' (VNumber (double_of (int i))) s1)))"

definition make_regexp :: "js_value list \<Rightarrow> 'w js_state \<Rightarrow> (js_value \<times> 'w js_state) run" where
  "make_regexp args s =
     bind_run (first_text args s) (\<lambda>pattern.
     bind_run (first_text (drop 1 args) s) (\<lambda>flags.
       case compile pattern flags of
         Parsed (Inl e) \<Rightarrow> Returns (VNull, s)
       | Parsed (Inr rx) \<Rightarrow> Returns (make_regex_object (Some rx) s)
       | parsed.Hangs \<Rightarrow> run.Hangs
       | Overflows \<Rightarrow> Undefined
       | Out_of_fuel \<Rightarrow> Undefined))"

definition date_methods :: "fp \<Rightarrow> (string \<times> native) list" where
  "date_methods ms =
     [(''getFullYear'', DatePart ms 0), (''getMonth'', DatePart ms 1), (''getDate'', DatePart ms 2), (''getDay'', DatePart ms 3),
      (''getHours'', DatePart ms 4), (''getMinutes'', DatePart ms 5), (''getSeconds'', DatePart ms 6), (''getTime'', DateTime ms),
      (''toISOString'', DateText ms True), (''toString'', DateText ms False)]"

definition make_date_object :: "fp \<Rightarrow> 'w js_state \<Rightarrow> js_value \<times> 'w js_state" where
  "make_date_object ms s =
     (case allocate new_object s of (a, s1) \<Rightarrow> (VObject (Some a), fold (put_native a) (date_methods ms) s1))"

definition current_time_ms :: "'w host \<Rightarrow> 'w js_state \<Rightarrow> fp \<times> 'w js_state" where
  "current_time_ms h s = (case ho_now h (js_world s) of (t, w) \<Rightarrow> (double_of t, s\<lparr> js_world := w \<rparr>))"

section \<open>Strings and numbers\<close>

definition toupper :: "char \<Rightarrow> char" where
  "toupper c = (if 97 \<le> ascii c \<and> ascii c \<le> 122 then char_of (ascii c - 32) else c)"

definition size32 :: "'a list \<Rightarrow> int" where
  "size32 xs = (int (length xs) + 2 ^ 31) mod 2 ^ 32 - 2 ^ 31"

definition int_argument :: "js_value list \<Rightarrow> nat \<Rightarrow> int \<Rightarrow> int run" where
  "int_argument args i d = (if i < length args then to_int (to_number (args ! i)) else Returns d)"

text \<open>\<open>slice\<close> of strings and arrays: a negative index counts from the end, and both are clamped on
  one side only.\<close>

definition from_end :: "int \<Rightarrow> int \<Rightarrow> int run" where
  "from_end n i = (if i < 0 then check_int (n + i) else Returns i)"

definition slice_bounds :: "js_value list \<Rightarrow> int \<Rightarrow> (int \<times> int) run" where
  "slice_bounds args n =
     bind_run (int_argument args 0 0) (\<lambda>i.
     bind_run (int_argument args 1 n) (\<lambda>j.
     bind_run (from_end n i) (\<lambda>i.
     bind_run (from_end n j) (\<lambda>j. Returns (max 0 i, min j n)))))"

definition string_slice :: "string \<Rightarrow> js_value list \<Rightarrow> string run" where
  "string_slice r args =
     bind_run (slice_bounds args (size32 r)) (\<lambda>(i, j).
     bind_run (of_res (substr r (nat i))) (\<lambda>t. Returns (take (nat (j - i)) t)))"

definition string_substring :: "string \<Rightarrow> js_value list \<Rightarrow> string run" where
  "string_substring r args =
     (let n = size32 r; clamp = (\<lambda>i. max 0 (min n i)) in
      bind_run (int_argument args 0 0) (\<lambda>i.
      bind_run (int_argument args 1 n) (\<lambda>j.
        let i = (if args = [] then 0 else clamp i); j = (if 2 \<le> length args then clamp j else n);
            a = min i j; b = max i j in
        bind_run (of_res (substr r (nat a))) (\<lambda>t. Returns (take (nat (b - a)) t)))))"

definition char_at :: "string \<Rightarrow> js_value list \<Rightarrow> string run" where
  "char_at r args =
     bind_run (int_argument args 0 0) (\<lambda>i.
       Returns (if i < 0 \<or> size32 r \<le> i then [] else take 1 (drop (nat i) r)))"

definition index_value :: "nat option \<Rightarrow> js_value" where
  "index_value i = VNumber (case i of None \<Rightarrow> Num (- 1) | Some i \<Rightarrow> double_of (int i))"

text \<open>The loops of \<open>split\<close>, \<open>replace\<close> and \<open>match\<close>: where each match was looked for, where it is, and the
  position after the last one, which is past the end after an empty match there.\<close>

definition next_position :: "nat \<Rightarrow> nat \<Rightarrow> nat" where
  "next_position i j = (if i < j then j else i + 1)"

lemma search_loop_start: "search_loop rx t ps = Some (i, j) \<Longrightarrow> i \<in> set ps"
  by (induction ps) (auto split: option.splits)

lemma search_start: "search rx t k = Some (i, j) \<Longrightarrow> k \<le> i"
  by (auto simp: search_def dest: search_loop_start)

function scan_matches :: "regex \<Rightarrow> bool \<Rightarrow> string \<Rightarrow> nat \<Rightarrow> (nat \<times> nat \<times> nat) list \<times> nat" where
  "scan_matches rx every t p =
     (if length t < p then ([], p)
      else
        case search rx t p of
          None \<Rightarrow> ([], p)
        | Some (i, j) \<Rightarrow>
            if every then (case scan_matches rx every t (next_position i j) of (ms, q) \<Rightarrow> ((p, i, j) # ms, q))
            else ([(p, i, j)], next_position i j))"
  by pat_completeness auto
termination
  by (relation "measure (\<lambda>(rx, every, t, p). Suc (length t) - p)") (auto simp: next_position_def dest!: search_start)

declare scan_matches.simps [simp del]

definition split_regex :: "regex \<Rightarrow> string \<Rightarrow> js_value list run" where
  "split_regex rx t =
     (case scan_matches rx True t 0 of (ms, p) \<Rightarrow>
        bind_run (of_res (substr t p)) (\<lambda>end_of. Returns (map (\<lambda>(p, i, j). slice_of t p i) ms @ [VString end_of])))"

function split_text :: "string \<Rightarrow> string \<Rightarrow> string list" where
  "split_text separator t =
     (if separator = [] then map (\<lambda>c. [c]) t
      else case find_sub separator t of
        None \<Rightarrow> [t]
      | Some i \<Rightarrow> take i t # split_text separator (drop (i + length separator) t))"
  by pat_completeness auto
termination
  by (relation "measure (\<lambda>(separator, t). length t)") (auto simp: neq_Nil_conv dest!: find_sub_bound)

declare split_text.simps [simp del]

definition string_split :: "string \<Rightarrow> js_value list \<Rightarrow> 'w js_state \<Rightarrow> (js_value \<times> 'w js_state) run" where
  "string_split t args s =
     bind_run
       (if args = [] then Returns [VString t]
        else case regex_of s (args ! 0) of
          Some rx \<Rightarrow> split_regex rx t
        | None \<Rightarrow> bind_run (to_text s (args ! 0)) (\<lambda>separator. Returns (map VString (split_text separator t))))
       (\<lambda>parts. Returns (plain_array parts s))"

definition replace_regex :: "regex \<Rightarrow> string \<Rightarrow> string \<Rightarrow> string run" where
  "replace_regex rx replacement t =
     (case scan_matches rx (rx_global rx) t 0 of (ms, p) \<Rightarrow>
        bind_run (of_res (substr t p)) (\<lambda>end_of.
          Returns (concat (map (\<lambda>(p, i, j). take (i - p) (drop p t) @ replacement) ms) @ end_of)))"

definition string_replace :: "string \<Rightarrow> js_value list \<Rightarrow> 'w js_state \<Rightarrow> string run" where
  "string_replace t args s =
     (if length args < 2 then Returns t
      else bind_run (to_text s (args ! 1)) (\<lambda>replacement.
        case regex_of s (args ! 0) of
          Some rx \<Rightarrow> replace_regex rx replacement t
        | None \<Rightarrow> bind_run (to_text s (args ! 0)) (\<lambda>searched.
            Returns (case if searched = [] then None else find_sub searched t of
                       None \<Rightarrow> t
                     | Some i \<Rightarrow> take i t @ replacement @ drop (i + length searched) t))))"

definition string_match :: "string \<Rightarrow> js_value list \<Rightarrow> 'w js_state \<Rightarrow> js_value \<times> 'w js_state" where
  "string_match t args s =
     (case regex_of s (argument args 0) of
        None \<Rightarrow> (VNull, s)
      | Some rx \<Rightarrow>
          let ms = fst (scan_matches rx (rx_global rx) t 0) in
          if ms = [] then (VNull, s)
          else case allocate (array_object (map (\<lambda>(p, i, j). slice_of t i j) ms)) s of (a, s1) \<Rightarrow>
            (VObject (Some a),
             if rx_global rx then s1
             else put_property a ''index'' (VNumber (double_of (int (fst (snd (hd ms)))))) s1))"

definition is_blank :: "char \<Rightarrow> bool" where
  "is_blank c \<longleftrightarrow> c = CHR '' '' \<or> c = CHR 0x09 \<or> c = CHR 0x0D \<or> c = CHR 0x0A"

definition text_test :: "(string \<Rightarrow> bool) \<Rightarrow> js_value list \<Rightarrow> 'w js_state \<Rightarrow> (js_value \<times> 'w js_state) run" where
  "text_test P args s =
     (if args = [] then Returns (VBoolean False, s)
      else bind_run (to_text s (args ! 0)) (\<lambda>t. Returns (VBoolean (P t), s)))"

definition text_result :: "string run \<Rightarrow> 'w js_state \<Rightarrow> (js_value \<times> 'w js_state) run" where
  "text_result m s = bind_run m (\<lambda>t. Returns (VString t, s))"

definition string_method :: "string_method \<Rightarrow> string \<Rightarrow> js_value list \<Rightarrow> 'w js_state \<Rightarrow> (js_value \<times> 'w js_state) run" where
  "string_method m t args s =
     (case m of
        ToUpperCase \<Rightarrow> Returns (VString (map toupper t), s)
      | ToLowerCase \<Rightarrow> Returns (VString (map tolower t), s)
      | CharAt \<Rightarrow> text_result (char_at t args) s
      | StringIndexOf \<Rightarrow>
          if args = [] then Returns (VNumber (Num (- 1)), s)
          else bind_run (to_text s (args ! 0)) (\<lambda>p. Returns (index_value (find_sub p t), s))
      | StringSlice \<Rightarrow> text_result (string_slice t args) s
      | Substring \<Rightarrow> text_result (string_substring t args) s
      | StringSplit \<Rightarrow> string_split t args s
      | StringReplace \<Rightarrow> text_result (string_replace t args s) s
      | StringSearch \<Rightarrow>
          Returns (index_value (case regex_of s (argument args 0) of
                                  None \<Rightarrow> None | Some rx \<Rightarrow> map_option fst (search rx t 0)), s)
      | StringMatch \<Rightarrow> Returns (string_match t args s)
      | StringRepeat \<Rightarrow>
          text_result (bind_run (int_argument args 0 0) (\<lambda>n. Returns (concat (replicate (nat (max 0 n)) t)))) s
      | StringTrim \<Rightarrow> Returns (VString (trim_by is_blank t), s)
      | StringIncludes \<Rightarrow> text_test (\<lambda>p. find_sub p t \<noteq> None) args s
      | StartsWith \<Rightarrow> text_test (\<lambda>p. is_prefix p t) args s
      | EndsWith \<Rightarrow> text_test (\<lambda>p. is_suffix p t) args s)"

text \<open>The buffer of \<open>toFixed\<close> has 64 characters.\<close>

definition number_to_fixed :: "fp \<Rightarrow> js_value list \<Rightarrow> string run" where
  "number_to_fixed x args =
     bind_run (int_argument args 0 0) (\<lambda>d. Returns (take 63 (fixed_format (nat (max 0 (min 20 d))) x)))"

section \<open>Arrays\<close>

definition update_elements :: "nat \<Rightarrow> (js_value list \<Rightarrow> js_value list) \<Rightarrow> 'w js_state \<Rightarrow> 'w js_state" where
  "update_elements a f = update_object a (\<lambda>ob. ob\<lparr> ob_elements := f (ob_elements ob) \<rparr>)"

abbreviation elements_at :: "'w js_state \<Rightarrow> nat \<Rightarrow> js_value list" where
  "elements_at s a \<equiv> ob_elements (object_at s a)"

fun texts_of :: "'w js_state \<Rightarrow> js_value list \<Rightarrow> string list run" where
  "texts_of s [] = Returns []"
| "texts_of s (v # vs) = bind_run (to_text s v) (\<lambda>t. bind_run (texts_of s vs) (\<lambda>ts. Returns (t # ts)))"

definition array_join :: "nat \<Rightarrow> js_value list \<Rightarrow> 'w js_state \<Rightarrow> string run" where
  "array_join a args s =
     bind_run (if args = [] then Returns '','' else to_text s (args ! 0)) (\<lambda>separator.
     bind_run (texts_of s (elements_at s a)) (\<lambda>ts. Returns (join_text separator ts)))"

definition array_slice :: "nat \<Rightarrow> js_value list \<Rightarrow> 'w js_state \<Rightarrow> (js_value \<times> 'w js_state) run" where
  "array_slice a args s =
     (let vs = elements_at s a in
      bind_run (slice_bounds args (size32 vs)) (\<lambda>(i, j). Returns (plain_array (take (nat (j - i)) (drop (nat i) vs)) s)))"

text \<open>Less than two elements are not compared.\<close>

definition array_sort :: "'w host \<Rightarrow> nat \<Rightarrow> 'w js_state \<Rightarrow> (js_value \<times> 'w js_state) run" where
  "array_sort h a s =
     (let vs = elements_at s a in
      if length vs < 2 then Returns (VObject (Some a), s)
      else bind_run (texts_of s vs) (\<lambda>ts.
        Returns (VObject (Some a), update_elements a (\<lambda>_. map snd (ho_sort h (zip ts vs))) s)))"

definition array_concat :: "nat \<Rightarrow> js_value list \<Rightarrow> 'w js_state \<Rightarrow> js_value \<times> 'w js_state" where
  "array_concat a args s =
     plain_array
       (elements_at s a @ concat (map (\<lambda>v. case array_of s v of None \<Rightarrow> [v] | Some b \<Rightarrow> elements_at s b) args)) s"

text \<open>The methods that call no function of a script; the others are the last case.\<close>

definition array_method :: "'w host \<Rightarrow> array_method \<Rightarrow> nat \<Rightarrow> js_value list \<Rightarrow> 'w js_state \<Rightarrow> (js_value \<times> 'w js_state) run" where
  "array_method h m a args s =
     (let vs = elements_at s a in
      case m of
        ArrayPush \<Rightarrow>
          Returns (VNumber (double_of (int (length vs + length args))), update_elements a (\<lambda>vs. vs @ args) s)
      | ArrayPop \<Rightarrow> Returns (if vs = [] then (VUndefined, s) else (last vs, update_elements a butlast s))
      | ArrayJoin \<Rightarrow> text_result (array_join a args s) s
      | ArrayIndexOf \<Rightarrow>
          Returns (if args = [] then VNumber (Num (- 1)) else index_value (find_idx (\<lambda>v. strict_equals v (args ! 0)) vs), s)
      | ArraySlice \<Rightarrow> array_slice a args s
      | ArrayReverse \<Rightarrow> Returns (VObject (Some a), update_elements a rev s)
      | ArraySort \<Rightarrow> array_sort h a s
      | ArrayIncludes \<Rightarrow> Returns (VBoolean (args \<noteq> [] \<and> list_ex (\<lambda>v. same_value v (args ! 0)) vs), s)
      | ArrayConcat \<Rightarrow> Returns (array_concat a args s)
      | _ \<Rightarrow> Returns (VUndefined, s))"

section \<open>Maps and sets\<close>

fun entry_put :: "js_value \<Rightarrow> js_value \<Rightarrow> (js_value \<times> js_value) list \<Rightarrow> (js_value \<times> js_value) list" where
  "entry_put k v [] = [(k, v)]"
| "entry_put k v ((l, w) # es) = (if same_value l k then (l, v) # es else (l, w) # entry_put k v es)"

fun entry_get :: "js_value \<Rightarrow> (js_value \<times> js_value) list \<Rightarrow> js_value option" where
  "entry_get k [] = None"
| "entry_get k ((l, w) # es) = (if same_value l k then Some w else entry_get k es)"

fun erase_first :: "('a \<Rightarrow> bool) \<Rightarrow> 'a list \<Rightarrow> 'a list" where
  "erase_first P [] = []"
| "erase_first P (x # xs) = (if P x then xs else x # erase_first P xs)"

definition update_entries ::
  "nat \<Rightarrow> ((js_value \<times> js_value) list \<Rightarrow> (js_value \<times> js_value) list) \<Rightarrow> 'w js_state \<Rightarrow> 'w js_state" where
  "update_entries a f = update_object a (\<lambda>ob. ob\<lparr> ob_entries := f (ob_entries ob) \<rparr>)"

abbreviation entries_at :: "'w js_state \<Rightarrow> nat \<Rightarrow> (js_value \<times> js_value) list" where
  "entries_at s a \<equiv> ob_entries (object_at s a)"

definition map_method :: "map_method \<Rightarrow> nat \<Rightarrow> js_value list \<Rightarrow> 'w js_state \<Rightarrow> js_value \<times> 'w js_state" where
  "map_method m a args s =
     (let found = (if args = [] then None else entry_get (args ! 0) (entries_at s a)) in
      case m of
        MapSet \<Rightarrow> (VObject (Some a), if length args < 2 then s else update_entries a (entry_put (args ! 0) (args ! 1)) s)
      | MapGet \<Rightarrow> (case found of None \<Rightarrow> VUndefined | Some v \<Rightarrow> v, s)
      | MapHas \<Rightarrow> (VBoolean (found \<noteq> None), s)
      | MapDelete \<Rightarrow>
          (VBoolean (found \<noteq> None),
           if found = None then s else update_entries a (erase_first (\<lambda>e. same_value (fst e) (args ! 0))) s)
      | MapKeys \<Rightarrow> plain_array (map fst (entries_at s a)) s
      | MapValues \<Rightarrow> plain_array (map snd (entries_at s a)) s)"

definition set_method :: "set_method \<Rightarrow> nat \<Rightarrow> js_value list \<Rightarrow> 'w js_state \<Rightarrow> js_value \<times> 'w js_state" where
  "set_method m a args s =
     (let held = (args \<noteq> [] \<and> list_ex (\<lambda>v. same_value v (args ! 0)) (elements_at s a)) in
      case m of
        SetAdd \<Rightarrow> (VObject (Some a), if args = [] \<or> held then s else update_elements a (\<lambda>vs. vs @ [args ! 0]) s)
      | SetHas \<Rightarrow> (VBoolean held, s)
      | SetDelete \<Rightarrow> (VBoolean held, if held then update_elements a (erase_first (\<lambda>v. same_value v (args ! 0))) s else s))"

section \<open>Properties\<close>

text \<open>A prototype is older than its object, so the chain is no longer than the address.\<close>

fun chain_property :: "nat \<Rightarrow> js_object list \<Rightarrow> nat \<Rightarrow> string \<Rightarrow> js_value" where
  "chain_property n obs a k =
     (case map_of (ob_properties (obs ! a)) k of
        Some v \<Rightarrow> v
      | None \<Rightarrow>
          case ob_prototype (obs ! a) of
            None \<Rightarrow> VUndefined
          | Some p \<Rightarrow> (case n of 0 \<Rightarrow> VUndefined | Suc n' \<Rightarrow> chain_property n' obs p k))"

declare chain_property.simps [simp del]

definition get_property_from_chain :: "'w js_state \<Rightarrow> nat \<Rightarrow> string \<Rightarrow> js_value" where
  "get_property_from_chain s a k = chain_property (length (js_objects s)) (js_objects s) a k"

definition string_methods :: "(string \<times> string_method) list" where
  "string_methods =
     [(''toUpperCase'', ToUpperCase), (''toLowerCase'', ToLowerCase), (''charAt'', CharAt), (''indexOf'', StringIndexOf),
      (''slice'', StringSlice), (''substring'', Substring), (''split'', StringSplit), (''replace'', StringReplace),
      (''search'', StringSearch), (''match'', StringMatch), (''repeat'', StringRepeat), (''trim'', StringTrim),
      (''includes'', StringIncludes), (''startsWith'', StartsWith), (''endsWith'', EndsWith)]"

definition array_methods :: "(string \<times> array_method) list" where
  "array_methods =
     [(''push'', ArrayPush), (''pop'', ArrayPop), (''join'', ArrayJoin), (''indexOf'', ArrayIndexOf), (''slice'', ArraySlice),
      (''forEach'', ForEach), (''map'', ArrayMap), (''filter'', ArrayFilter), (''reduce'', ArrayReduce),
      (''reverse'', ArrayReverse), (''sort'', ArraySort), (''includes'', ArrayIncludes), (''concat'', ArrayConcat)]"

definition map_methods :: "(string \<times> map_method) list" where
  "map_methods =
     [(''set'', MapSet), (''get'', MapGet), (''has'', MapHas), (''delete'', MapDelete), (''keys'', MapKeys), (''values'', MapValues)]"

definition set_methods :: "(string \<times> set_method) list" where
  "set_methods = [(''add'', SetAdd), (''has'', SetHas), (''delete'', SetDelete)]"

text \<open>A name of digits is an index; \<open>strtoul\<close> gives a value past every length when it does not fit.\<close>

definition index_name :: "string \<Rightarrow> nat option" where
  "index_name k = (if k \<noteq> [] \<and> list_all isdigit k then Some (nat (decimal k)) else None)"

definition indexed :: "'a list \<Rightarrow> ('a \<Rightarrow> js_value) \<Rightarrow> nat \<Rightarrow> js_value" where
  "indexed xs f i = (if i < length xs then f (xs ! i) else VUndefined)"

definition size_value :: "'a list \<Rightarrow> js_value" where
  "size_value xs = VNumber (double_of (int (length xs)))"

definition string_property :: "string \<Rightarrow> string \<Rightarrow> 'w js_state \<Rightarrow> js_value \<times> 'w js_state" where
  "string_property t k s =
     (if k = ''length'' then (size_value t, s)
      else case map_of string_methods k of
        Some m \<Rightarrow> make_native (StringMethod m t) s
      | None \<Rightarrow> (case index_name k of None \<Rightarrow> VUndefined | Some i \<Rightarrow> indexed t (\<lambda>c. VString [c]) i, s))"

definition object_property :: "nat \<Rightarrow> string \<Rightarrow> 'w js_state \<Rightarrow> js_value \<times> 'w js_state" where
  "object_property a k s =
     (let ob = object_at s a; inherited = (get_property_from_chain s a k, s) in
      if ob_is_array ob then
        (if k = ''length'' then (size_value (ob_elements ob), s)
         else case map_of array_methods k of
           Some m \<Rightarrow> make_native (ArrayMethod m a) s
         | None \<Rightarrow> (case index_name k of None \<Rightarrow> inherited | Some i \<Rightarrow> (indexed (ob_elements ob) (\<lambda>v. v) i, s)))
      else if ob_is_map ob then
        (if k = ''size'' then (size_value (ob_entries ob), s)
         else case map_of map_methods k of Some m \<Rightarrow> make_native (MapMethod m a) s | None \<Rightarrow> inherited)
      else if ob_is_set ob then
        (if k = ''size'' then (size_value (ob_elements ob), s)
         else case map_of set_methods k of Some m \<Rightarrow> make_native (SetMethod m a) s | None \<Rightarrow> inherited)
      else inherited)"

definition get_property :: "js_value \<Rightarrow> string \<Rightarrow> 'w js_state \<Rightarrow> js_value \<times> 'w js_state" where
  "get_property v k s =
     (case v of
        VString t \<Rightarrow> string_property t k s
      | VNumber x \<Rightarrow>
          if k = ''toString'' then make_native (NumberToString x) s
          else if k = ''toFixed'' then make_native (NumberToFixed x) s
          else (VUndefined, s)
      | VObject (Some a) \<Rightarrow> object_property a k s
      | _ \<Rightarrow> (VUndefined, s))"

text \<open>\<open>strtol\<close> has to read the whole name of an index, which may start with blanks and a sign.\<close>

definition whole_number :: "string \<Rightarrow> int option" where
  "whole_number k =
     (let t = c_text k; r = dropWhile isspace t;
          ds = (if r \<noteq> [] \<and> (hd r = CHR ''-'' \<or> hd r = CHR ''+'') then tl r else r) in
      if ds \<noteq> [] \<and> list_all isdigit ds then map_option fst (strtol10 t) else None)"

definition max_elements :: int where "max_elements = 2 ^ 57 - 1"

definition set_element :: "nat \<Rightarrow> js_value \<Rightarrow> js_value list \<Rightarrow> js_value list" where
  "set_element i v vs = (vs @ replicate (Suc i - length vs) VUndefined)[i := v]"

definition set_property :: "js_value \<Rightarrow> string \<Rightarrow> js_value \<Rightarrow> 'w js_state \<Rightarrow> 'w js_state run" where
  "set_property target k v s =
     (case object_of target of
        None \<Rightarrow> Returns s
      | Some a \<Rightarrow>
          case (if ob_is_array (object_at s a) then whole_number k else None) of
            Some i \<Rightarrow>
              if i < 0 then Returns (put_property a k v s)
              else if i < int (length (elements_at s a)) then Returns (update_elements a (set_element (nat i) v) s)
              else if i = 2 ^ 63 - 1 then Undefined
              else if max_elements < i + 1 then Raises LengthError
              else Returns (update_elements a (set_element (nat i) v) s)
          | None \<Rightarrow> Returns (put_property a k v s))"

section \<open>Operators\<close>

fun in_chain :: "nat \<Rightarrow> js_object list \<Rightarrow> nat \<Rightarrow> nat \<Rightarrow> bool" where
  "in_chain n obs b a =
     (if a = b then True
      else case ob_prototype (obs ! a) of
        None \<Rightarrow> False
      | Some p \<Rightarrow> (case n of 0 \<Rightarrow> False | Suc n' \<Rightarrow> in_chain n' obs b p))"

declare in_chain.simps [simp del]

text \<open>Looking up \<open>prototype\<close> makes a native function on no object.\<close>

definition instance_of :: "'w js_state \<Rightarrow> js_value \<Rightarrow> js_value \<Rightarrow> bool" where
  "instance_of s u v =
     (case (object_of u, object_of v) of
        (Some a, Some b) \<Rightarrow>
          (case object_of (fst (object_property b ''prototype'' s)) of
             None \<Rightarrow> False
           | Some p \<Rightarrow> in_chain (length (js_objects s)) (js_objects s) p a)
      | _ \<Rightarrow> False)"

definition is_primitive :: "js_value \<Rightarrow> bool" where
  "is_primitive v = (case v of VNumber _ \<Rightarrow> True | VString _ \<Rightarrow> True | VBoolean _ \<Rightarrow> True | _ \<Rightarrow> False)"

definition is_text :: "js_value \<Rightarrow> bool" where
  "is_text v = (case v of VString _ \<Rightarrow> True | _ \<Rightarrow> False)"

definition loose_equals :: "'w js_state \<Rightarrow> js_value \<Rightarrow> js_value \<Rightarrow> bool run" where
  "loose_equals s a b =
     (if strict_equals a b then Returns True
      else if is_primitive a \<and> is_primitive b then
        (if feq (to_number a) (to_number b) then Returns True
         else bind_run (to_text s a) (\<lambda>t. bind_run (to_text s b) (\<lambda>u. Returns (t = u))))
      else Returns False)"

definition evaluate_binary :: "string \<Rightarrow> js_value \<Rightarrow> js_value \<Rightarrow> 'w js_state \<Rightarrow> js_value run" where
  "evaluate_binary op a b s =
     (if op = ''+'' then
        (if is_text a \<or> is_text b then bind_run (to_text s a) (\<lambda>t. bind_run (to_text s b) (\<lambda>u. Returns (VString (t @ u))))
         else Returns (VNumber (add64 (to_number a) (to_number b))))
      else if op = ''-'' then Returns (VNumber (sub64 (to_number a) (to_number b)))
      else if op = ''*'' then Returns (VNumber (mul64 (to_number a) (to_number b)))
      else if op = ''/'' then Returns (VNumber (div64 (to_number a) (to_number b)))
      else if op = ''%'' then Returns (VNumber (fmod64 (to_number a) (to_number b)))
      else if op = ''==='' then Returns (VBoolean (strict_equals a b))
      else if op = ''!=='' then Returns (VBoolean (\<not> strict_equals a b))
      else if op = ''=='' then bind_run (loose_equals s a b) (\<lambda>e. Returns (VBoolean e))
      else if op = ''!='' then bind_run (loose_equals s a b) (\<lambda>e. Returns (VBoolean (\<not> e)))
      else if op = ''<'' then Returns (VBoolean (fless (to_number a) (to_number b)))
      else if op = ''>'' then Returns (VBoolean (fless (to_number b) (to_number a)))
      else if op = ''<='' then Returns (VBoolean (fle (to_number a) (to_number b)))
      else if op = ''>='' then Returns (VBoolean (fle (to_number b) (to_number a)))
      else if op = ''instanceof'' then Returns (VBoolean (instance_of s a b))
      else Returns VUndefined)"

section \<open>The functions of the globals\<close>

definition math_unary :: "math_function \<Rightarrow> fp \<Rightarrow> fp" where
  "math_unary f =
     (case f of
        MathFloor \<Rightarrow> ffloor | MathCeil \<Rightarrow> fceil | MathRound \<Rightarrow> cround | MathAbs \<Rightarrow> fabs
      | MathSqrt \<Rightarrow> fsqrt64 | MathTrunc \<Rightarrow> ftrunc | MathSign \<Rightarrow> fsign)"

text \<open>A NaN is passed over by \<open>Math.max\<close> and \<open>Math.min\<close>; \<open>parseInt\<close> of what is no number is 0.\<close>

definition number_or :: "fp \<Rightarrow> (fp \<Rightarrow> fp) \<Rightarrow> js_value list \<Rightarrow> js_value" where
  "number_or d f args = VNumber (if args = [] then d else f (to_number (args ! 0)))"

definition global_function :: "'w host \<Rightarrow> native \<Rightarrow> js_value list \<Rightarrow> 'w js_state \<Rightarrow> (js_value \<times> 'w js_state) run" where
  "global_function h f args s =
     (case f of
        MathUnary g \<Rightarrow> Returns (number_or NotANumber (math_unary g) args, s)
      | MathMax \<Rightarrow> Returns (VNumber (foldl fmax (Infinite True) (map to_number args)), s)
      | MathMin \<Rightarrow> Returns (VNumber (foldl fmin (Infinite False) (map to_number args)), s)
      | MathPow \<Rightarrow>
          Returns (VNumber (if length args < 2 then NotANumber else ho_pow h (to_number (args ! 0)) (to_number (args ! 1))), s)
      | MathRandom \<Rightarrow>
          (case ho_random h (js_world s) of (r, w) \<Rightarrow>
             Returns (VNumber (div64 (double_of r) (double_of int_max)), s\<lparr> js_world := w \<rparr>))
      | ParseInt \<Rightarrow>
          if args = [] then Returns (VNumber NotANumber, s)
          else bind_run (to_text s (args ! 0)) (\<lambda>t.
            Returns (VNumber (double_of (case strtol10 (c_text t) of None \<Rightarrow> 0 | Some (i, _) \<Rightarrow> i)), s))
      | ParseFloat \<Rightarrow>
          if args = [] then Returns (VNumber NotANumber, s)
          else bind_run (to_text s (args ! 0)) (\<lambda>t. Returns (VNumber (strto_value double (c_text t)), s))
      | GlobalString \<Rightarrow> text_result (first_text args s) s
      | GlobalNumber \<Rightarrow> Returns (number_or (Num 0) (\<lambda>x. x) args, s)
      | IsNaN \<Rightarrow> Returns (VBoolean (args = [] \<or> is_nan (to_number (args ! 0))), s)
      | JsonStringify \<Rightarrow> text_result (json_stringify s (argument args 0)) s
      | JsonParse \<Rightarrow>
          if args = [] then Returns (VUndefined, s)
          else bind_run (to_text s (args ! 0)) (\<lambda>t. json_parse t s)
      | _ \<Rightarrow> Returns (VUndefined, s))"

definition new_value :: "js_object \<Rightarrow> 'w js_state \<Rightarrow> js_value \<times> 'w js_state" where
  "new_value ob s = (case allocate ob s of (a, s') \<Rightarrow> (VObject (Some a), s'))"

definition console_log :: "'w host \<Rightarrow> js_value list \<Rightarrow> 'w js_state \<Rightarrow> (js_value \<times> 'w js_state) run" where
  "console_log h args s =
     bind_run (texts_of s args) (\<lambda>ts.
       Returns (VUndefined,
         case ho_print h of None \<Rightarrow> s | Some f \<Rightarrow> s\<lparr> js_world := f (join_text '' '' ts) (js_world s) \<rparr>))"

definition document_write :: "'w host \<Rightarrow> js_value list \<Rightarrow> 'w js_state \<Rightarrow> (js_value \<times> 'w js_state) run" where
  "document_write h args s =
     bind_run
       (case ho_write h of
          None \<Rightarrow> Returns s
        | Some f \<Rightarrow> fold_run (\<lambda>v s. bind_run (to_text s v) (\<lambda>t. Returns (s\<lparr> js_world := f t (js_world s) \<rparr>))) args s)
       (\<lambda>s'. Returns (VUndefined, s'))"

definition element_function ::
  "(string \<Rightarrow> 'w js_state \<Rightarrow> js_value \<times> 'w js_state) option \<Rightarrow> js_value list \<Rightarrow> 'w js_state \<Rightarrow> (js_value \<times> 'w js_state) run" where
  "element_function f args s =
     (case f of
        None \<Rightarrow> Returns (VUndefined, s)
      | Some g \<Rightarrow>
          if args = [] then Returns (VUndefined, s)
          else bind_run (to_text s (args ! 0)) (\<lambda>t. Returns (g t s)))"

text \<open>\<open>addEventListener\<close> keeps the handlers of a type in an array under \<open>__handlers_\<close> and the type; any
  object that is there already serves.\<close>

definition add_listener :: "nat \<Rightarrow> js_value list \<Rightarrow> 'w js_state \<Rightarrow> (js_value \<times> 'w js_state) run" where
  "add_listener a args s =
     (if length args < 2 then Returns (VUndefined, s)
      else bind_run (to_text s (args ! 0)) (\<lambda>type_text.
        let key = ''__handlers_'' @ type_text; present = map_of (ob_properties (object_at s a)) key;
            (b, s1) = (case Option.bind present object_of of
                         Some b \<Rightarrow> (b, s)
                       | None \<Rightarrow> (case allocate (array_object []) s of (b, s') \<Rightarrow> (b, put_property a key (VObject (Some b)) s')))
        in Returns (VUndefined, update_elements b (\<lambda>vs. vs @ [args ! 1]) s1)))"

text \<open>The native functions that call no function of a script.\<close>

definition plain_native :: "'w host \<Rightarrow> native \<Rightarrow> js_value list \<Rightarrow> 'w js_state \<Rightarrow> (js_value \<times> 'w js_state) run" where
  "plain_native h f args s =
     (case f of
        ConsoleLog \<Rightarrow> console_log h args s
      | ObjectConstructor \<Rightarrow> Returns (if args = [] then new_value new_object s else (args ! 0, s))
      | ObjectKeys \<Rightarrow>
          Returns (plain_array
            (case object_of (argument args 0) of
               None \<Rightarrow> [] | Some a \<Rightarrow> map (\<lambda>m. VString (fst m)) (ob_properties (object_at s a))) s)
      | ArrayConstructor \<Rightarrow> Returns (plain_array [] s)
      | ArrayIsArray \<Rightarrow> Returns (VBoolean (array_of s (argument args 0) \<noteq> None), s)
      | RegExpConstructor \<Rightarrow> make_regexp args s
      | PromiseResolve \<Rightarrow> Returns (promise_resolve args s)
      | PromiseReject \<Rightarrow> Returns (resolved_promise True (argument args 0) s)
      | PromiseAll \<Rightarrow> Returns (promise_all args s)
      | PromiseThen a \<Rightarrow> Returns (promise_then a args s)
      | PromiseCatch a \<Rightarrow> Returns (promise_catch a args s)
      | Settle a rejected \<Rightarrow> Returns (VUndefined, settle_promise a rejected (argument args 0) s)
      | DateConstructor \<Rightarrow>
          Returns (if args = [] then (case current_time_ms h s of (ms, s') \<Rightarrow> make_date_object ms s')
                   else make_date_object (to_number (args ! 0)) s)
      | DateNow \<Rightarrow> Returns (case current_time_ms h s of (ms, s') \<Rightarrow> (VNumber ms, s'))
      | DatePart ms which \<Rightarrow> bind_run (date_part ms which) (\<lambda>x. Returns (VNumber x, s))
      | DateTime ms \<Rightarrow> Returns (VNumber ms, s)
      | DateText ms iso_format \<Rightarrow> text_result (format_date ms iso_format) s
      | MapConstructor \<Rightarrow> Returns (new_value (new_object\<lparr> ob_is_map := True \<rparr>) s)
      | SetConstructor \<Rightarrow> Returns (new_value (new_object\<lparr> ob_is_set := True \<rparr>) s)
      | ListenerRegistrar a \<Rightarrow> add_listener a args s
      | DocumentWrite \<Rightarrow> document_write h args s
      | GetElementById \<Rightarrow> element_function (ho_lookup h) args s
      | CreateElement \<Rightarrow> element_function (ho_create h) args s
      | RegexTest rx \<Rightarrow> text_test (regex_test rx) args s
      | RegexExec rx \<Rightarrow> bind_run (first_text args s) (\<lambda>t. Returns (regex_exec rx t s))
      | StringMethod m t \<Rightarrow> string_method m t args s
      | NumberToString x \<Rightarrow> Returns (VString (number_to_string x), s)
      | NumberToFixed x \<Rightarrow> text_result (number_to_fixed x args) s
      | ArrayMethod m a \<Rightarrow> array_method h m a args s
      | MapMethod m a \<Rightarrow> Returns (map_method m a args s)
      | SetMethod m a \<Rightarrow> Returns (set_method m a args s)
      | HostFunction i \<Rightarrow> Returns (ho_function h i args s)
      | _ \<Rightarrow> global_function h f args s)"

section \<open>The initial state\<close>

definition blank_state :: "'w \<Rightarrow> 'w js_state" where
  "blank_state w =
     \<lparr> js_objects = [], js_envs = [new_env], js_globals = 0, js_object_prototype = 0, js_window = None, js_document = None,
       js_microtasks = [], js_error = None, js_world = w \<rparr>"

definition declare_global :: "string \<Rightarrow> js_value \<times> 'w js_state \<Rightarrow> 'w js_state" where
  "declare_global x r = declare_variable (js_globals (snd r)) x (fst r) (snd r)"

text \<open>A global object or function with native properties.\<close>

definition global_object :: "string \<Rightarrow> js_object \<Rightarrow> (string \<times> native) list \<Rightarrow> 'w js_state \<Rightarrow> 'w js_state" where
  "global_object x ob ms s =
     (case allocate ob s of (a, s1) \<Rightarrow> declare_global x (VObject (Some a), fold (put_native a) ms s1))"

definition math_methods :: "(string \<times> native) list" where
  "math_methods =
     [(''floor'', MathUnary MathFloor), (''ceil'', MathUnary MathCeil), (''round'', MathUnary MathRound),
      (''abs'', MathUnary MathAbs), (''sqrt'', MathUnary MathSqrt), (''max'', MathMax), (''min'', MathMin), (''pow'', MathPow),
      (''random'', MathRandom), (''trunc'', MathUnary MathTrunc), (''sign'', MathUnary MathSign)]"

definition setup_math :: "'w js_state \<Rightarrow> 'w js_state" where
  "setup_math s =
     (case allocate new_object s of (a, s1) \<Rightarrow>
        declare_global ''Math''
          (VObject (Some a),
           put_property a ''PI'' (VNumber (fround double (3141592653589793 / 1000000000000000))) (fold (put_native a) math_methods s1)))"

definition setup_object :: "'w js_state \<Rightarrow> 'w js_state" where
  "setup_object s =
     (case allocate (native_object ObjectConstructor) s of (a, s1) \<Rightarrow>
        declare_global ''Object''
          (VObject (Some a),
           put_property a ''prototype'' (VObject (Some (js_object_prototype s1))) (put_native a (''keys'', ObjectKeys) s1)))"

definition setup_window :: "'w js_state \<Rightarrow> 'w js_state" where
  "setup_window s =
     (case allocate new_object s of (a, s1) \<Rightarrow>
        declare_global ''window''
          (VObject (Some a), (put_native a (''addEventListener'', ListenerRegistrar a) s1)\<lparr> js_window := Some a \<rparr>))"

definition setup_document :: "'w js_state \<Rightarrow> 'w js_state" where
  "setup_document s =
     (case allocate new_object s of (a, s1) \<Rightarrow>
      case make_native DocumentWrite s1 of (f, s2) \<Rightarrow>
        let s3 = put_property a ''writeln'' f (put_property a ''write'' f s2);
            s4 = fold (put_native a) [(''getElementById'', GetElementById), (''createElement'', CreateElement)] s3 in
        declare_global ''document''
          (VObject (Some a), put_native a (''addEventListener'', ListenerRegistrar a) (s4\<lparr> js_document := Some a \<rparr>)))"

definition setup_globals :: "'w js_state \<Rightarrow> 'w js_state" where
  "setup_globals s =
     (case allocate new_object s of (p, s0) \<Rightarrow>
        fold (\<lambda>f. f)
          [global_object ''console'' new_object [(''log'', ConsoleLog)],
           setup_math,
           global_object ''parseInt'' (native_object ParseInt) [],
           global_object ''parseFloat'' (native_object ParseFloat) [],
           global_object ''String'' (native_object GlobalString) [],
           global_object ''Number'' (native_object GlobalNumber) [],
           global_object ''isNaN'' (native_object IsNaN) [],
           setup_object,
           global_object ''Array'' (native_object ArrayConstructor) [(''isArray'', ArrayIsArray)],
           global_object ''JSON'' new_object [(''stringify'', JsonStringify), (''parse'', JsonParse)],
           global_object ''RegExp'' (native_object RegExpConstructor) [],
           global_object ''Promise'' (native_object PromiseConstructor)
             [(''resolve'', PromiseResolve), (''reject'', PromiseReject), (''all'', PromiseAll)],
           global_object ''Date'' (native_object DateConstructor) [(''now'', DateNow)],
           global_object ''Map'' (native_object MapConstructor) [],
           global_object ''Set'' (native_object SetConstructor) [],
           setup_window,
           setup_document]
          (s0\<lparr> js_object_prototype := p \<rparr>))"

text \<open>The constructor of \<open>Interpreter\<close>.\<close>

definition new_interpreter :: "'w \<Rightarrow> 'w js_state" where
  "new_interpreter w = setup_globals (blank_state w)"

end
