(* ===== verification/Js_Interpreter.thy ===== *)
theory Js_Interpreter
  imports Js_Runtime
begin

text \<open>
  The tree-walking interpreter of \<open>js/js.cpp\<close>: \<open>evaluate\<close>, \<open>execute\<close>, \<open>call_function\<close>, the native
  functions that call back, the microtask queue, \<open>run\<close> and \<open>dispatch_event\<close>.  Each is a
  function of a runner for the calls it makes; \<open>interp\<close> ties the knot with fuel, one unit for
  every nested call and for every round of a loop.  \<open>Hangs\<close> is a script that does not end, or one
  that nests deeper than the fuel; more fuel never changes another answer.
\<close>

section \<open>Requests\<close>

datatype completion_type = NormalCompletion | ReturnCompletion | BreakCompletion | ContinueCompletion

datatype request =
    DoEvaluate ast nat
  | DoExecute ast nat
  | DoCall js_value "js_value list" js_value
  | DoLoop "ast option" "ast option" ast nat
  | DoEach array_method nat nat js_value nat
  | DoReduce nat js_value js_value nat
  | DoDrain int

type_synonym 'w outcome = "(completion_type \<times> js_value \<times> 'w js_state) run"
type_synonym 'w runner = "request \<Rightarrow> 'w js_state \<Rightarrow> 'w outcome"
type_synonym 'w result = "(js_value \<times> 'w js_state) run"

definition evaluating :: "'w runner \<Rightarrow> ast \<Rightarrow> nat \<Rightarrow> 'w js_state \<Rightarrow> 'w result" where
  "evaluating r x e s = bind_run (r (DoEvaluate x e) s) (\<lambda>(t, v, s'). Returns (v, s'))"

definition calling :: "'w runner \<Rightarrow> js_value \<Rightarrow> js_value list \<Rightarrow> js_value \<Rightarrow> 'w js_state \<Rightarrow> 'w result" where
  "calling r f args this s = bind_run (r (DoCall f args this) s) (\<lambda>(t, v, s'). Returns (v, s'))"

definition draining :: "'w runner \<Rightarrow> int \<Rightarrow> 'w js_state \<Rightarrow> 'w js_state run" where
  "draining r n s = bind_run (r (DoDrain n) s) (\<lambda>(t, v, s'). Returns s')"

definition returning :: "'w result \<Rightarrow> 'w outcome" where
  "returning m = bind_run m (\<lambda>(v, s). Returns (NormalCompletion, v, s))"

definition normally :: "'w js_state \<Rightarrow> 'w outcome" where
  "normally s = Returns (NormalCompletion, VUndefined, s)"

section \<open>Functions\<close>

definition function_parts :: "ast option \<Rightarrow> string list \<times> ast option \<times> bool" where
  "function_parts x =
     (case x of
        Some (FunctionExpression _ ps b) \<Rightarrow> (ps, b, False)
      | Some (FunctionDeclaration _ ps b is_async) \<Rightarrow> (ps, b, is_async)
      | _ \<Rightarrow> ([], None, False))"

definition function_object :: "nat \<Rightarrow> ast option \<Rightarrow> nat \<Rightarrow> js_object" where
  "function_object proto x e =
     (case function_parts x of (ps, b, is_async) \<Rightarrow>
        new_object\<lparr> ob_prototype := Some proto, ob_is_function := True, ob_is_async := is_async, ob_parameters := ps,
          ob_body := b, ob_closure := Some e \<rparr>)"

definition make_function :: "ast option \<Rightarrow> nat \<Rightarrow> 'w js_state \<Rightarrow> nat \<times> 'w js_state" where
  "make_function x e s =
     (case allocate (function_object (js_object_prototype s) x e) s of (a, s1) \<Rightarrow>
      case allocate (new_object\<lparr> ob_prototype := Some (js_object_prototype s) \<rparr>) s1 of (p, s2) \<Rightarrow>
        (a, put_property a ''prototype'' (VObject (Some p)) s2))"

text \<open>The environment of a call: \<open>this\<close>, then the parameters, the last of the same name winning.\<close>

definition bind_parameters :: "nat \<Rightarrow> string list \<Rightarrow> js_value list \<Rightarrow> 'w js_state \<Rightarrow> 'w js_state" where
  "bind_parameters e ps args = fold (\<lambda>i. declare_variable e (ps ! i) (argument args i)) [0..<length ps]"

definition call_environment :: "js_object \<Rightarrow> js_value list \<Rightarrow> js_value \<Rightarrow> 'w js_state \<Rightarrow> nat \<times> 'w js_state" where
  "call_environment ob args this s =
     (case extend_env (Some (case ob_closure ob of None \<Rightarrow> js_globals s | Some c \<Rightarrow> c)) s of
        (e, s1) \<Rightarrow> (e, bind_parameters e (ob_parameters ob) args (declare_variable e ''this'' this s1)))"

section \<open>Native functions that call back\<close>

definition promise_constructor :: "'w runner \<Rightarrow> js_value list \<Rightarrow> 'w js_state \<Rightarrow> 'w result" where
  "promise_constructor r args s =
     (case make_promise s of (d, s1) \<Rightarrow>
        if function_of s1 (argument args 0) = None then Returns (VObject (Some d), s1)
        else
          case make_native (Settle d False) s1 of (resolve, s2) \<Rightarrow>
          case make_native (Settle d True) s2 of (reject, s3) \<Rightarrow>
            bind_run (calling r (args ! 0) [resolve, reject] VUndefined s3) (\<lambda>(_, s4). Returns (VObject (Some d), s4)))"

definition promise_finally :: "'w runner \<Rightarrow> nat \<Rightarrow> js_value list \<Rightarrow> 'w js_state \<Rightarrow> 'w result" where
  "promise_finally r a args s =
     (if function_of s (argument args 0) = None then Returns (VObject (Some a), s)
      else bind_run (calling r (args ! 0) [] VUndefined s) (\<lambda>(_, s1). Returns (VObject (Some a), s1)))"

definition array_each :: "'w runner \<Rightarrow> array_method \<Rightarrow> nat \<Rightarrow> js_value list \<Rightarrow> 'w js_state \<Rightarrow> 'w result" where
  "array_each r m a args s =
     (case allocate (array_object []) s of (b, s1) \<Rightarrow>
        if args = [] then Returns (VObject (Some b), s1)
        else bind_run (r (DoEach m a b (args ! 0) 0) s1) (\<lambda>(_, v, s2). Returns (v, s2)))"

text \<open>\<open>filter\<close> reads the element again after the callback, which may have shortened the array.\<close>

definition each_step :: "'w runner \<Rightarrow> array_method \<Rightarrow> nat \<Rightarrow> nat \<Rightarrow> js_value \<Rightarrow> nat \<Rightarrow> 'w js_state \<Rightarrow> 'w outcome" where
  "each_step r m a b cb i s =
     (if length (elements_at s a) \<le> i then Returns (NormalCompletion, VObject (Some b), s)
      else bind_run (calling r cb [elements_at s a ! i, VNumber (double_of (int i))] VUndefined s) (\<lambda>(v, s1).
        if m = ArrayMap then r (DoEach m a b cb (Suc i)) (update_elements b (\<lambda>vs. vs @ [v]) s1)
        else if m = ArrayFilter \<and> to_boolean v then
          (if length (elements_at s1 a) \<le> i then Undefined
           else r (DoEach m a b cb (Suc i)) (update_elements b (\<lambda>vs. vs @ [elements_at s1 a ! i]) s1))
        else r (DoEach m a b cb (Suc i)) s1))"

definition array_reduce :: "'w runner \<Rightarrow> nat \<Rightarrow> js_value list \<Rightarrow> 'w js_state \<Rightarrow> 'w result" where
  "array_reduce r a args s =
     (if args = [] \<or> (length args < 2 \<and> elements_at s a = []) then Returns (VUndefined, s)
      else
        bind_run
          (if length args < 2 then r (DoReduce a (args ! 0) (elements_at s a ! 0) 1) s
           else r (DoReduce a (args ! 0) (args ! 1) 0) s)
          (\<lambda>(_, v, s1). Returns (v, s1)))"

definition reduce_step :: "'w runner \<Rightarrow> nat \<Rightarrow> js_value \<Rightarrow> js_value \<Rightarrow> nat \<Rightarrow> 'w js_state \<Rightarrow> 'w outcome" where
  "reduce_step r a cb acc i s =
     (if length (elements_at s a) \<le> i then Returns (NormalCompletion, acc, s)
      else bind_run (calling r cb [acc, elements_at s a ! i, VNumber (double_of (int i))] VUndefined s) (\<lambda>(v, s1).
        r (DoReduce a cb v (Suc i)) s1))"

definition call_native :: "'w host \<Rightarrow> 'w runner \<Rightarrow> native \<Rightarrow> js_value list \<Rightarrow> 'w js_state \<Rightarrow> 'w result" where
  "call_native h r f args s =
     (case f of
        PromiseConstructor \<Rightarrow> promise_constructor r args s
      | PromiseFinally a \<Rightarrow> promise_finally r a args s
      | ArrayMethod m a \<Rightarrow>
          if m \<in> {ForEach, ArrayMap, ArrayFilter} then array_each r m a args s
          else if m = ArrayReduce then array_reduce r a args s
          else array_method h m a args s
      | _ \<Rightarrow> plain_native h f args s)"

section \<open>Calls\<close>

text \<open>After the body the reference to the function is read again: \<open>recheck\<close> tells whether the object it
  refers to by then is an async function.  An async body has run to its end before the call returns.\<close>

definition finish_call :: "bool \<Rightarrow> completion_type \<Rightarrow> js_value \<Rightarrow> 'w js_state \<Rightarrow> js_value \<times> 'w js_state" where
  "finish_call is_async t v s =
     (let w = (if t = ReturnCompletion then v else VUndefined) in
      if is_async then resolved_promise False w s else (w, s))"

definition call_function ::
  "'w host \<Rightarrow> 'w runner \<Rightarrow> nat \<Rightarrow> js_value list \<Rightarrow> js_value \<Rightarrow> ('w js_state \<Rightarrow> bool run) \<Rightarrow> 'w js_state \<Rightarrow> 'w result" where
  "call_function h r a args this recheck s =
     (let ob = object_at s a in
      case ob_native ob of
        Some f \<Rightarrow> call_native h r f args s
      | None \<Rightarrow>
          case call_environment ob args this s of (e, s1) \<Rightarrow>
            (case ob_body ob of
               None \<Rightarrow> Returns (finish_call (ob_is_async ob) NormalCompletion VUndefined s1)
             | Some b \<Rightarrow>
                 bind_run (r (DoExecute b e) s1) (\<lambda>(t, v, s2).
                 bind_run (recheck s2) (\<lambda>is_async. Returns (finish_call is_async t v s2)))))"

definition call_value ::
  "'w host \<Rightarrow> 'w runner \<Rightarrow> js_value \<Rightarrow> js_value list \<Rightarrow> js_value \<Rightarrow> ('w js_state \<Rightarrow> bool run) \<Rightarrow> 'w js_state \<Rightarrow> 'w result" where
  "call_value h r f args this recheck s =
     (case function_of s f of
        Some a \<Rightarrow> call_function h r a args this recheck s
      | None \<Rightarrow> Returns (VUndefined, js_fail ''value is not a function'' s))"

text \<open>\<open>is_async\<close> through the reference, which is null when no object is there any more.\<close>

definition recheck_value :: "js_value option \<Rightarrow> 'w js_state \<Rightarrow> bool run" where
  "recheck_value v s =
     (case Option.bind v object_of of None \<Rightarrow> Undefined | Some a \<Rightarrow> Returns (ob_is_async (object_at s a)))"

section \<open>Microtasks\<close>

definition run_promise_handler :: "'w runner \<Rightarrow> nat \<Rightarrow> js_value \<Rightarrow> bool \<Rightarrow> js_value \<Rightarrow> 'w js_state \<Rightarrow> 'w js_state run" where
  "run_promise_handler r d handler rejected v s =
     (if function_of s handler = None then Returns (settle_promise d rejected v s)
      else bind_run (calling r handler [v] VUndefined s) (\<lambda>(w, s1).
        case promise_of s1 w of
          None \<Rightarrow> Returns (settle_promise d False w s1)
        | Some (b, p) \<Rightarrow>
            if pr_status p = Pending then
              (case make_native (Settle d False) s1 of (fulfill, s2) \<Rightarrow>
               case make_native (Settle d True) s2 of (reject, s3) \<Rightarrow> Returns (add_handlers b (fulfill, reject) s3))
            else Returns (settle_promise d (pr_status p = Rejected) (pr_value p) s1)))"

definition drain_limit :: int where "drain_limit = 1000000"

definition drain_step :: "'w runner \<Rightarrow> int \<Rightarrow> 'w js_state \<Rightarrow> 'w outcome" where
  "drain_step r guard s =
     (case js_microtasks s of
        [] \<Rightarrow> normally s
      | t # ts \<Rightarrow>
          if drain_limit \<le> guard then normally s
          else bind_run (run_promise_handler r (mt_derived t) (mt_handler t) (mt_rejected t) (mt_value t) (s\<lparr> js_microtasks := ts \<rparr>))
            (\<lambda>s1. r (DoDrain (guard + 1)) s1))"

section \<open>Expressions\<close>

fun evaluate_list :: "'w runner \<Rightarrow> ast list \<Rightarrow> nat \<Rightarrow> 'w js_state \<Rightarrow> (js_value list \<times> 'w js_state) run" where
  "evaluate_list r [] e s = Returns ([], s)"
| "evaluate_list r (x # xs) e s =
     bind_run (evaluating r x e s) (\<lambda>(v, s1). bind_run (evaluate_list r xs e s1) (\<lambda>(vs, s2). Returns (v # vs, s2)))"

fun evaluate_members :: "'w runner \<Rightarrow> nat \<Rightarrow> (string \<times> ast) list \<Rightarrow> nat \<Rightarrow> 'w js_state \<Rightarrow> 'w js_state run" where
  "evaluate_members r a [] e s = Returns s"
| "evaluate_members r a ((k, x) # ms) e s =
     bind_run (evaluating r x e s) (\<lambda>(v, s1). evaluate_members r a ms e (put_property a k v s1))"

definition undefined_variable :: "string \<Rightarrow> string" where
  "undefined_variable x = ''undefined variable '' @ [CHR 0x27] @ x @ [CHR 0x27]"

definition evaluate_identifier :: "string \<Rightarrow> nat \<Rightarrow> 'w js_state \<Rightarrow> js_value \<times> 'w js_state" where
  "evaluate_identifier x e s =
     (case find_variable s e x of
        Some f \<Rightarrow> (variable_value s f x, s)
      | None \<Rightarrow> (VUndefined, js_fail (undefined_variable x) s))"

definition evaluate_class :: "ast option \<Rightarrow> (string \<times> ast) list \<Rightarrow> nat \<Rightarrow> 'w js_state \<Rightarrow> js_value \<times> 'w js_state" where
  "evaluate_class ctor methods e s =
     (case make_function ctor e s of (a, s1) \<Rightarrow>
        (VObject (Some a),
         fold (\<lambda>(k, m) s.
             case make_function (Some m) e s of (f, s') \<Rightarrow> put_property (Suc a) k (VObject (Some f)) s') methods s1))"

definition evaluate_await :: "'w runner \<Rightarrow> ast \<Rightarrow> nat \<Rightarrow> 'w js_state \<Rightarrow> 'w result" where
  "evaluate_await r x e s =
     bind_run (evaluating r x e s) (\<lambda>(v, s1).
     bind_run (draining r 0 s1) (\<lambda>s2.
       case promise_of s2 v of
         None \<Rightarrow> Returns (v, s2)
       | Some (a, p) \<Rightarrow>
           Returns (pr_value p, if pr_status p = Rejected then js_fail ''unhandled promise rejection'' s2 else s2)))"

text \<open>Both the prefix and the postfix operator give the old value.\<close>

definition evaluate_step :: "string \<Rightarrow> fp \<Rightarrow> nat \<Rightarrow> 'w js_state \<Rightarrow> js_value \<times> 'w js_state" where
  "evaluate_step x d e s =
     (case find_variable s e x of
        None \<Rightarrow> (VUndefined, js_fail (undefined_variable x) s)
      | Some f \<Rightarrow>
          let n = to_number (variable_value s f x) in
          (VNumber n, declare_variable f x (VNumber (add64 n d)) s))"

definition evaluate_unary :: "'w runner \<Rightarrow> string \<Rightarrow> ast \<Rightarrow> nat \<Rightarrow> 'w js_state \<Rightarrow> 'w result" where
  "evaluate_unary r op x e s =
     (if op = ''await'' then evaluate_await r x e s
      else if op = ''!'' then bind_run (evaluating r x e s) (\<lambda>(v, s1). Returns (VBoolean (\<not> to_boolean v), s1))
      else if op = ''-'' then bind_run (evaluating r x e s) (\<lambda>(v, s1). Returns (VNumber (fneg (to_number v)), s1))
      else if op = ''+'' then bind_run (evaluating r x e s) (\<lambda>(v, s1). Returns (VNumber (to_number v), s1))
      else if op = ''typeof'' then bind_run (evaluating r x e s) (\<lambda>(v, s1). Returns (VString (type_name s1 v), s1))
      else
        Returns (case x of
          Identifier y \<Rightarrow>
            if op = ''++'' then evaluate_step y (Num 1) e s
            else if op = ''--'' then evaluate_step y (Num (- 1)) e s
            else (VUndefined, s)
        | _ \<Rightarrow> (VUndefined, s)))"

definition member_name :: "'w runner \<Rightarrow> string \<Rightarrow> ast option \<Rightarrow> nat \<Rightarrow> 'w js_state \<Rightarrow> (string \<times> 'w js_state) run" where
  "member_name r k y e s =
     (case y of
        None \<Rightarrow> Returns (k, s)
      | Some x \<Rightarrow> bind_run (evaluating r x e s) (\<lambda>(v, s1). bind_run (to_text s1 v) (\<lambda>t. Returns (t, s1))))"

definition assign_variable :: "nat \<Rightarrow> string \<Rightarrow> js_value \<Rightarrow> 'w js_state \<Rightarrow> 'w js_state" where
  "assign_variable e x v s = declare_variable (case find_variable s e x of None \<Rightarrow> e | Some f \<Rightarrow> f) x v s"

definition store_to :: "'w runner \<Rightarrow> ast \<Rightarrow> js_value \<Rightarrow> nat \<Rightarrow> 'w js_state \<Rightarrow> 'w js_state run" where
  "store_to r target v e s =
     (case target of
        Identifier x \<Rightarrow> Returns (assign_variable e x v s)
      | Member x k y \<Rightarrow>
          bind_run (evaluating r x e s) (\<lambda>(ob, s1).
          bind_run (member_name r k y e s1) (\<lambda>(name, s2). set_property ob name v s2))
      | _ \<Rightarrow> Returns s)"

definition evaluate_assignment :: "'w runner \<Rightarrow> string \<Rightarrow> ast \<Rightarrow> ast \<Rightarrow> nat \<Rightarrow> 'w js_state \<Rightarrow> 'w result" where
  "evaluate_assignment r op target x e s =
     bind_run (evaluating r x e s) (\<lambda>(v, s1).
     bind_run
       (if op = ''='' then Returns (v, s1)
        else bind_run (evaluating r target e s1) (\<lambda>(current, s2).
          bind_run (evaluate_binary (take 1 op) current v s2) (\<lambda>w. Returns (w, s2))))
       (\<lambda>(w, s3). bind_run (store_to r target w e s3) (\<lambda>s4. Returns (w, s4))))"

definition evaluate_member :: "'w runner \<Rightarrow> ast \<Rightarrow> string \<Rightarrow> ast option \<Rightarrow> nat \<Rightarrow> 'w js_state \<Rightarrow> (js_value \<times> js_value \<times> 'w js_state) run" where
  "evaluate_member r x k y e s =
     bind_run (evaluating r x e s) (\<lambda>(ob, s1).
     bind_run (member_name r k y e s1) (\<lambda>(name, s2).
       case get_property ob name s2 of (v, s3) \<Rightarrow> Returns (ob, v, s3)))"

text \<open>The object a method is found on is its \<open>this\<close>.\<close>

definition evaluate_callee :: "'w runner \<Rightarrow> ast \<Rightarrow> nat \<Rightarrow> 'w js_state \<Rightarrow> (js_value \<times> js_value \<times> 'w js_state) run" where
  "evaluate_callee r f e s =
     (case f of
        Member x k y \<Rightarrow> evaluate_member r x k y e s
      | _ \<Rightarrow> bind_run (evaluating r f e s) (\<lambda>(v, s1). Returns (VUndefined, v, s1)))"

definition evaluate_call :: "'w runner \<Rightarrow> ast \<Rightarrow> ast list \<Rightarrow> nat \<Rightarrow> 'w js_state \<Rightarrow> 'w result" where
  "evaluate_call r f xs e s =
     bind_run (evaluate_callee r f e s) (\<lambda>(this, callee, s1).
     bind_run (evaluate_list r xs e s1) (\<lambda>(args, s2). calling r callee args this s2))"

definition instance_object :: "js_value \<Rightarrow> 'w js_state \<Rightarrow> js_object" where
  "instance_object proto s =
     new_object\<lparr> ob_prototype := Some (case object_of proto of None \<Rightarrow> js_object_prototype s | Some p \<Rightarrow> p) \<rparr>"

definition evaluate_new :: "'w runner \<Rightarrow> ast \<Rightarrow> ast list \<Rightarrow> nat \<Rightarrow> 'w js_state \<Rightarrow> 'w result" where
  "evaluate_new r f xs e s =
     bind_run (evaluating r f e s) (\<lambda>(ctor, s1).
     bind_run (evaluate_list r xs e s1) (\<lambda>(args, s2).
       case get_property ctor ''prototype'' s2 of (proto, s3) \<Rightarrow>
       case new_value (instance_object proto s3) s3 of (this, s4) \<Rightarrow>
         bind_run (calling r ctor args this s4) (\<lambda>(v, s5). Returns (if object_of v = None then this else v, s5))))"

definition evaluate :: "'w host \<Rightarrow> 'w runner \<Rightarrow> ast \<Rightarrow> nat \<Rightarrow> 'w js_state \<Rightarrow> 'w result" where
  "evaluate h r x e s =
     (if js_error s \<noteq> None then Returns (VUndefined, s)
      else
        case x of
          NumberLiteral n \<Rightarrow> Returns (VNumber n, s)
        | StringLiteral t \<Rightarrow> Returns (VString t, s)
        | BooleanLiteral b \<Rightarrow> Returns (VBoolean b, s)
        | NullLiteral \<Rightarrow> Returns (VNull, s)
        | Identifier y \<Rightarrow> Returns (evaluate_identifier y e s)
        | ArrayLiteral xs \<Rightarrow> bind_run (evaluate_list r xs e s) (\<lambda>(vs, s1). Returns (make_array vs s1))
        | ObjectLiteral ms \<Rightarrow>
            (case allocate (new_object\<lparr> ob_prototype := Some (js_object_prototype s) \<rparr>) s of (a, s1) \<Rightarrow>
               bind_run (evaluate_members r a ms e s1) (\<lambda>s2. Returns (VObject (Some a), s2)))
        | FunctionExpression name ps b \<Rightarrow> (case make_function (Some x) e s of (a, s1) \<Rightarrow> Returns (VObject (Some a), s1))
        | FunctionDeclaration name ps b is_async \<Rightarrow>
            (case make_function (Some x) e s of (a, s1) \<Rightarrow> Returns (VObject (Some a), s1))
        | ClassDeclaration name ctor methods \<Rightarrow> Returns (evaluate_class ctor methods e s)
        | Unary op y \<Rightarrow> evaluate_unary r op y e s
        | Binary op y z \<Rightarrow>
            bind_run (evaluating r y e s) (\<lambda>(v, s1).
            bind_run (evaluating r z e s1) (\<lambda>(w, s2).
            bind_run (evaluate_binary op v w s2) (\<lambda>u. Returns (u, s2))))
        | Logical op y z \<Rightarrow>
            bind_run (evaluating r y e s) (\<lambda>(v, s1).
              if to_boolean v = (op = ''&&'') then evaluating r z e s1 else Returns (v, s1))
        | Conditional y z w \<Rightarrow>
            bind_run (evaluating r y e s) (\<lambda>(v, s1). evaluating r (if to_boolean v then z else w) e s1)
        | Assignment op y z \<Rightarrow> evaluate_assignment r op y z e s
        | Member y k z \<Rightarrow> bind_run (evaluate_member r y k z e s) (\<lambda>(ob, v, s1). Returns (v, s1))
        | RegexLiteral rx \<Rightarrow> Returns (make_regex_object rx s)
        | Call f xs \<Rightarrow> evaluate_call r f xs e s
        | New f xs \<Rightarrow> evaluate_new r f xs e s
        | _ \<Rightarrow> Returns (VUndefined, s))"

section \<open>Statements\<close>

fun execute_all :: "'w runner \<Rightarrow> ast list \<Rightarrow> nat \<Rightarrow> js_value \<Rightarrow> 'w js_state \<Rightarrow> 'w outcome" where
  "execute_all r [] e v s = Returns (NormalCompletion, v, s)"
| "execute_all r (x # xs) e v s =
     bind_run (r (DoExecute x e) s) (\<lambda>(t, v', s1).
       if t \<noteq> NormalCompletion \<or> js_error s1 \<noteq> None then Returns (t, v', s1) else execute_all r xs e v' s1)"

fun execute_declarations :: "'w runner \<Rightarrow> (string \<times> ast option) list \<Rightarrow> nat \<Rightarrow> 'w js_state \<Rightarrow> 'w outcome" where
  "execute_declarations r [] e s = normally s"
| "execute_declarations r ((x, y) # ds) e s =
     bind_run (case y of None \<Rightarrow> Returns (VUndefined, s) | Some z \<Rightarrow> evaluating r z e s) (\<lambda>(v, s1).
       execute_declarations r ds e (declare_variable e x v s1))"

text \<open>The loop of \<open>while\<close> and \<open>for\<close>; \<open>continue\<close> is no case of its own.\<close>

definition loop_step :: "'w runner \<Rightarrow> ast option \<Rightarrow> ast option \<Rightarrow> ast \<Rightarrow> nat \<Rightarrow> 'w js_state \<Rightarrow> 'w outcome" where
  "loop_step r test update body e s =
     bind_run (case test of None \<Rightarrow> Returns (VBoolean True, s) | Some x \<Rightarrow> evaluating r x e s) (\<lambda>(c, s1).
       if \<not> to_boolean c \<or> js_error s1 \<noteq> None then normally s1
       else bind_run (r (DoExecute body e) s1) (\<lambda>(t, v, s2).
         if t = ReturnCompletion then Returns (t, v, s2)
         else if t = BreakCompletion then normally s2
         else bind_run (case update of None \<Rightarrow> Returns (VUndefined, s2) | Some x \<Rightarrow> evaluating r x e s2) (\<lambda>(_, s3).
           r (DoLoop test update body e) s3)))"

definition execute_for :: "'w runner \<Rightarrow> ast option \<Rightarrow> ast option \<Rightarrow> ast option \<Rightarrow> ast \<Rightarrow> nat \<Rightarrow> 'w js_state \<Rightarrow> 'w outcome" where
  "execute_for r init test update body e s =
     (case extend_env (Some e) s of (l, s1) \<Rightarrow>
        bind_run (case init of None \<Rightarrow> normally s1 | Some x \<Rightarrow> r (DoExecute x l) s1) (\<lambda>(t, v, s2).
          if t \<noteq> NormalCompletion then Returns (t, v, s2) else r (DoLoop test update body l) s2))"

text \<open>The items are taken before the first round; the variable is one of the surrounding scope.\<close>

fun execute_items :: "'w runner \<Rightarrow> string \<Rightarrow> ast \<Rightarrow> nat \<Rightarrow> js_value list \<Rightarrow> 'w js_state \<Rightarrow> 'w outcome" where
  "execute_items r x body e [] s = normally s"
| "execute_items r x body e (v # vs) s =
     bind_run (r (DoExecute body e) (declare_variable e x v s)) (\<lambda>(t, w, s1).
       if t = ReturnCompletion then Returns (t, w, s1)
       else if t = BreakCompletion then normally s1
       else execute_items r x body e vs s1)"

definition iterable_items :: "'w js_state \<Rightarrow> js_value \<Rightarrow> js_value list option" where
  "iterable_items s v =
     (case v of
        VString t \<Rightarrow> Some (map (\<lambda>c. VString [c]) t)
      | _ \<Rightarrow> map_option (elements_at s) (array_of s v))"

definition execute_for_of :: "'w runner \<Rightarrow> string \<Rightarrow> ast \<Rightarrow> ast \<Rightarrow> nat \<Rightarrow> 'w js_state \<Rightarrow> 'w outcome" where
  "execute_for_of r x y body e s =
     bind_run (evaluating r y e s) (\<lambda>(v, s1).
       case iterable_items s1 v of
         None \<Rightarrow> normally (js_fail ''value is not iterable'' s1)
       | Some vs \<Rightarrow> execute_items r x body e vs s1)"

text \<open>The first case whose value is the discriminant, and the bodies from there on; only a \<open>break\<close> or a
  \<open>return\<close> leaves the switch, so a \<open>continue\<close> falls into the next case.\<close>

fun matching_case :: "'w runner \<Rightarrow> js_value \<Rightarrow> (ast option \<times> ast) list \<Rightarrow> nat \<Rightarrow> 'w js_state \<Rightarrow> ((ast option \<times> ast) list \<times> 'w js_state) run" where
  "matching_case r d [] e s = Returns ([], s)"
| "matching_case r d ((None, b) # cs) e s = matching_case r d cs e s"
| "matching_case r d ((Some x, b) # cs) e s =
     bind_run (evaluating r x e s) (\<lambda>(v, s1).
       if strict_equals v d then Returns ((Some x, b) # cs, s1) else matching_case r d cs e s1)"

fun execute_cases :: "'w runner \<Rightarrow> (ast option \<times> ast) list \<Rightarrow> nat \<Rightarrow> 'w js_state \<Rightarrow> 'w outcome" where
  "execute_cases r [] e s = normally s"
| "execute_cases r ((x, b) # cs) e s =
     bind_run (r (DoExecute b e) s) (\<lambda>(t, v, s1).
       if t = ReturnCompletion then Returns (t, v, s1)
       else if t = BreakCompletion then normally s1
       else execute_cases r cs e s1)"

definition execute_switch :: "'w runner \<Rightarrow> ast \<Rightarrow> (ast option \<times> ast) list \<Rightarrow> nat \<Rightarrow> 'w js_state \<Rightarrow> 'w outcome" where
  "execute_switch r x cs e s =
     bind_run (evaluating r x e s) (\<lambda>(d, s1).
       case extend_env (Some e) s1 of (l, s2) \<Rightarrow>
         bind_run (matching_case r d cs e s2) (\<lambda>(found, s3).
           execute_cases r (if found = [] then dropWhile (\<lambda>c. fst c \<noteq> None) cs else found) l s3))"

definition execute :: "'w runner \<Rightarrow> ast \<Rightarrow> nat \<Rightarrow> 'w js_state \<Rightarrow> 'w outcome" where
  "execute r x e s =
     (if js_error s \<noteq> None then normally s
      else
        case x of
          Program xs \<Rightarrow> execute_all r xs e VUndefined s
        | Block xs \<Rightarrow> (case extend_env (Some e) s of (b, s1) \<Rightarrow> execute_all r xs b VUndefined s1)
        | ExpressionStatement y \<Rightarrow> returning (evaluating r y e s)
        | VariableDeclaration is_let ds \<Rightarrow> execute_declarations r ds e s
        | FunctionDeclaration name ps b is_async \<Rightarrow>
            bind_run (evaluating r x e s) (\<lambda>(v, s1). normally (declare_variable e name v s1))
        | ClassDeclaration name ctor methods \<Rightarrow>
            bind_run (evaluating r x e s) (\<lambda>(v, s1). normally (declare_variable e name v s1))
        | IfStatement c y z \<Rightarrow>
            bind_run (evaluating r c e s) (\<lambda>(v, s1).
              if to_boolean v then r (DoExecute y e) s1
              else case z of Some w \<Rightarrow> r (DoExecute w e) s1 | None \<Rightarrow> normally s1)
        | WhileStatement c y \<Rightarrow> r (DoLoop (Some c) None y e) s
        | ForStatement i c u y \<Rightarrow> execute_for r i c u y e s
        | ForOfStatement y z b \<Rightarrow> execute_for_of r y z b e s
        | SwitchStatement y cs \<Rightarrow> execute_switch r y cs e s
        | ReturnStatement y \<Rightarrow>
            bind_run (case y of None \<Rightarrow> Returns (VUndefined, s) | Some z \<Rightarrow> evaluating r z e s) (\<lambda>(v, s1).
              Returns (ReturnCompletion, v, s1))
        | BreakStatement \<Rightarrow> Returns (BreakCompletion, VUndefined, s)
        | ContinueStatement \<Rightarrow> Returns (ContinueCompletion, VUndefined, s)
        | _ \<Rightarrow> returning (evaluating r x e s))"

section \<open>The knot\<close>

definition perform :: "'w host \<Rightarrow> 'w runner \<Rightarrow> 'w runner" where
  "perform h r q s =
     (case q of
        DoEvaluate x e \<Rightarrow> returning (evaluate h r x e s)
      | DoExecute x e \<Rightarrow> execute r x e s
      | DoCall f args this \<Rightarrow>
          returning (call_value h r f args this (recheck_value (Some f)) s)
      | DoLoop test update body e \<Rightarrow> loop_step r test update body e s
      | DoEach m a b cb i \<Rightarrow> each_step r m a b cb i s
      | DoReduce a cb acc i \<Rightarrow> reduce_step r a cb acc i s
      | DoDrain guard \<Rightarrow> drain_step r guard s)"

primrec interp :: "'w host \<Rightarrow> nat \<Rightarrow> 'w runner" where
  "interp h 0 = (\<lambda>q s. Hangs)"
| "interp h (Suc n) = perform h (interp h n)"

section \<open>Scripts and events\<close>

text \<open>\<open>Interpreter::run\<close>: the value of the last statement, after the queue has been drained.\<close>

definition run_script :: "'w host \<Rightarrow> nat \<Rightarrow> string \<Rightarrow> 'w js_state \<Rightarrow> 'w result" where
  "run_script h n source s =
     (let s0 = s\<lparr> js_error := None \<rparr> in
      case parse_source source of
        None \<Rightarrow> Hangs
      | Some (program, error) \<Rightarrow>
          if error \<noteq> [] then Returns (VUndefined, js_fail (''parse error: '' @ error) s0)
          else bind_run (interp h n (DoExecute program (js_globals s0)) s0) (\<lambda>(t, v, s1).
            bind_run (draining (interp h n) 0 s1) (\<lambda>s2. Returns (v, s2))))"

definition property_at :: "'w js_state \<Rightarrow> nat \<Rightarrow> string \<Rightarrow> js_value option" where
  "property_at s a k = map_of (ob_properties (object_at s a)) k"

text \<open>The handler under \<open>on\<close> and the type is called through a reference into the object.  So are those of
  \<open>addEventListener\<close>, in a loop over an array that must stay as it is: a handler that adds one
  to it invalidates the iterators.\<close>

fun dispatch_handlers :: "'w host \<Rightarrow> 'w runner \<Rightarrow> nat \<Rightarrow> string \<Rightarrow> js_value \<Rightarrow> nat \<Rightarrow> nat list \<Rightarrow> 'w js_state \<Rightarrow> 'w js_state run" where
  "dispatch_handlers h r a key target b [] s = Returns s"
| "dispatch_handlers h r a key target b (i # is) s =
     (let count = length (elements_at s b);
          intact = (\<lambda>s'. property_at s' a key = Some (VObject (Some b)) \<and> length (elements_at s' b) = count) in
      bind_run
        (call_value h r (elements_at s b ! i) [] target
           (\<lambda>s'. if intact s' then recheck_value (Some (elements_at s' b ! i)) s' else Undefined) s)
        (\<lambda>(v, s1). if intact s1 then dispatch_handlers h r a key target b is s1 else Undefined))"

definition dispatch_event_to :: "'w host \<Rightarrow> 'w runner \<Rightarrow> js_value \<Rightarrow> string \<Rightarrow> 'w js_state \<Rightarrow> 'w js_state run" where
  "dispatch_event_to h r target type_text s =
     (case object_of target of
        None \<Rightarrow> Returns s
      | Some a \<Rightarrow>
          bind_run
            (case property_at s a (''on'' @ type_text) of
               None \<Rightarrow> Returns s
             | Some f \<Rightarrow>
                 bind_run (call_value h r f [] target (\<lambda>s'. recheck_value (property_at s' a (''on'' @ type_text)) s') s)
                   (\<lambda>(v, s1). Returns s1))
            (\<lambda>s1.
              let key = ''__handlers_'' @ type_text in
              case Option.bind (property_at s1 a key) (array_of s1) of
                None \<Rightarrow> Returns s1
              | Some b \<Rightarrow> dispatch_handlers h r a key target b [0..<length (elements_at s1 b)] s1))"

definition dispatch_event :: "'w host \<Rightarrow> nat \<Rightarrow> string \<Rightarrow> 'w js_state \<Rightarrow> 'w js_state run" where
  "dispatch_event h n type_text s =
     bind_run (dispatch_event_to h (interp h n) (VObject (js_document s)) type_text s) (\<lambda>s1.
     bind_run (dispatch_event_to h (interp h n) (VObject (js_window s1)) type_text s1) (\<lambda>s2.
       draining (interp h n) 0 s2))"

end
