(* ===== verification/Js_Safety.thy ===== *)
theory Js_Safety
  imports Js_Interpreter "HOL-Library.Multiset"
begin

text \<open>
  What holds of the interpreter's store at every moment: \<open>good\<close> (every address and every environment
  in it is in range, prototypes and enclosing scopes are older, what the natives of a promise
  refer to is a promise) and \<open>evolves\<close> (objects and scopes are never taken away, their kind and
  prototype never change, a settled promise and the first error stay as they are).  Both are
  shown of every request, and so of every sequence of scripts and events.
\<close>

section \<open>Stores that grow\<close>

definition promise_evolves :: "promise_data option \<Rightarrow> promise_data option \<Rightarrow> bool" where
  "promise_evolves p q \<longleftrightarrow>
     (p = None \<longleftrightarrow> q = None) \<and> (\<forall>d. p = Some d \<longrightarrow> pr_status d \<noteq> Pending \<longrightarrow> q = Some d)"

definition same_kind :: "js_object \<Rightarrow> js_object \<Rightarrow> bool" where
  "same_kind ob ob' \<longleftrightarrow>
     ob_prototype ob' = ob_prototype ob \<and> ob_regex ob' = ob_regex ob \<and>
     ob_is_array ob' = ob_is_array ob \<and> ob_is_map ob' = ob_is_map ob \<and> ob_is_set ob' = ob_is_set ob \<and>
     ob_is_function ob' = ob_is_function ob \<and> ob_native ob' = ob_native ob \<and> ob_is_async ob' = ob_is_async ob \<and>
     ob_parameters ob' = ob_parameters ob \<and> ob_body ob' = ob_body ob \<and> ob_closure ob' = ob_closure ob"

definition object_evolves :: "js_object \<Rightarrow> js_object \<Rightarrow> bool" where
  "object_evolves ob ob' \<longleftrightarrow> same_kind ob ob' \<and> promise_evolves (ob_promise ob) (ob_promise ob')"

definition evolves :: "'w js_state \<Rightarrow> 'w js_state \<Rightarrow> bool" where
  "evolves s s' \<longleftrightarrow>
     length (js_objects s) \<le> length (js_objects s') \<and>
     (\<forall>a<length (js_objects s). object_evolves (object_at s a) (object_at s' a)) \<and>
     length (js_envs s) \<le> length (js_envs s') \<and>
     (\<forall>e<length (js_envs s). en_parent (js_envs s' ! e) = en_parent (js_envs s ! e)) \<and>
     js_globals s' = js_globals s \<and> js_object_prototype s' = js_object_prototype s \<and>
     js_window s' = js_window s \<and> js_document s' = js_document s \<and>
     (js_error s \<noteq> None \<longrightarrow> js_error s' = js_error s)"

lemma promise_evolves_refl [simp]: "promise_evolves p p"
  by (simp add: promise_evolves_def)

lemma object_evolves_refl [simp]: "object_evolves ob ob"
  by (simp add: object_evolves_def same_kind_def)

lemma object_evolves_trans: "object_evolves x y \<Longrightarrow> object_evolves y z \<Longrightarrow> object_evolves x z"
  unfolding object_evolves_def same_kind_def promise_evolves_def by (elim conjE) (intro conjI; (simp; fail | blast))

lemma evolves_refl [simp]: "evolves s s"
  by (simp add: evolves_def)

lemma evolves_trans:
  assumes "evolves s t" and "evolves t u"
  shows "evolves s u"
  unfolding evolves_def
proof (intro conjI allI impI)
  fix a
  assume "a < length (js_objects s)"
  moreover from this assms(1) have "a < length (js_objects t)" by (simp add: evolves_def)
  ultimately show "object_evolves (object_at s a) (object_at u a)"
    using assms unfolding evolves_def by (blast intro: object_evolves_trans)
next
  fix e
  assume "e < length (js_envs s)"
  then show "en_parent (js_envs u ! e) = en_parent (js_envs s ! e)"
    using assms by (simp add: evolves_def)
qed (use assms in \<open>auto simp: evolves_def\<close>)

section \<open>References in range\<close>

definition value_ok :: "js_object list \<Rightarrow> js_value \<Rightarrow> bool" where
  "value_ok obs v = (case object_of v of None \<Rightarrow> True | Some a \<Rightarrow> a < length obs)"

definition is_promise :: "js_object list \<Rightarrow> nat \<Rightarrow> bool" where
  "is_promise obs a \<longleftrightarrow> a < length obs \<and> ob_promise (obs ! a) \<noteq> None"

definition native_ok :: "js_object list \<Rightarrow> native \<Rightarrow> bool" where
  "native_ok obs f =
     (case f of
        ListenerRegistrar a \<Rightarrow> a < length obs
      | PromiseThen a \<Rightarrow> is_promise obs a | PromiseCatch a \<Rightarrow> is_promise obs a | PromiseFinally a \<Rightarrow> is_promise obs a
      | Settle a b \<Rightarrow> is_promise obs a
      | ArrayMethod m a \<Rightarrow> a < length obs | MapMethod m a \<Rightarrow> a < length obs | SetMethod m a \<Rightarrow> a < length obs
      | _ \<Rightarrow> True)"

definition pairs_ok :: "js_object list \<Rightarrow> (js_value \<times> js_value) list \<Rightarrow> bool" where
  "pairs_ok obs ps = list_all (\<lambda>(u, v). value_ok obs u \<and> value_ok obs v) ps"

definition promise_ok :: "js_object list \<Rightarrow> promise_data \<Rightarrow> bool" where
  "promise_ok obs p \<longleftrightarrow> value_ok obs (pr_value p) \<and> pairs_ok obs (pr_handlers p)"

definition object_ok :: "js_object list \<Rightarrow> nat \<Rightarrow> nat \<Rightarrow> js_object \<Rightarrow> bool" where
  "object_ok obs m a ob \<longleftrightarrow>
     list_all (\<lambda>p. value_ok obs (snd p)) (ob_properties ob) \<and>
     list_all (value_ok obs) (ob_elements ob) \<and>
     pairs_ok obs (ob_entries ob) \<and>
     pred_option (\<lambda>p. p < a) (ob_prototype ob) \<and>
     pred_option (promise_ok obs) (ob_promise ob) \<and>
     pred_option (native_ok obs) (ob_native ob) \<and>
     pred_option (\<lambda>c. c < m) (ob_closure ob)"

definition env_ok :: "js_object list \<Rightarrow> nat \<Rightarrow> js_env \<Rightarrow> bool" where
  "env_ok obs e en \<longleftrightarrow>
     pred_option (\<lambda>p. p < e) (en_parent en) \<and> (\<forall>v\<in>ran (en_variables en). value_ok obs v)"

definition task_ok :: "js_object list \<Rightarrow> microtask \<Rightarrow> bool" where
  "task_ok obs t \<longleftrightarrow> is_promise obs (mt_derived t) \<and> value_ok obs (mt_handler t) \<and> value_ok obs (mt_value t)"

definition good :: "'w js_state \<Rightarrow> bool" where
  "good s \<longleftrightarrow>
     (\<forall>a<length (js_objects s). object_ok (js_objects s) (length (js_envs s)) a (js_objects s ! a)) \<and>
     (\<forall>e<length (js_envs s). env_ok (js_objects s) e (js_envs s ! e)) \<and>
     js_globals s < length (js_envs s) \<and> js_object_prototype s < length (js_objects s) \<and>
     pred_option (\<lambda>a. a < length (js_objects s)) (js_window s) \<and>
     pred_option (\<lambda>a. a < length (js_objects s)) (js_document s) \<and>
     list_all (task_ok (js_objects s)) (js_microtasks s)"

text \<open>A reference stays in range when the store grows.\<close>

definition grows :: "js_object list \<Rightarrow> js_object list \<Rightarrow> bool" where
  "grows obs obs' \<longleftrightarrow>
     length obs \<le> length obs' \<and> (\<forall>a<length obs. ob_promise (obs ! a) \<noteq> None \<longrightarrow> ob_promise (obs' ! a) \<noteq> None)"

lemma evolves_grows: "evolves s s' \<Longrightarrow> grows (js_objects s) (js_objects s')"
  by (auto simp: evolves_def grows_def object_evolves_def promise_evolves_def object_at_def)

lemma value_ok_grows: "value_ok obs v \<Longrightarrow> grows obs obs' \<Longrightarrow> value_ok obs' v"
  by (auto simp: value_ok_def grows_def split: option.splits)

lemma is_promise_grows: "is_promise obs a \<Longrightarrow> grows obs obs' \<Longrightarrow> is_promise obs' a"
  by (auto simp: is_promise_def grows_def)

lemma native_ok_grows: "native_ok obs f \<Longrightarrow> grows obs obs' \<Longrightarrow> native_ok obs' f"
  by (cases f) (auto simp: native_ok_def is_promise_def grows_def)

lemma pairs_ok_grows: "pairs_ok obs ps \<Longrightarrow> grows obs obs' \<Longrightarrow> pairs_ok obs' ps"
  by (auto simp: pairs_ok_def list_all_iff intro: value_ok_grows)

lemma promise_ok_grows: "promise_ok obs p \<Longrightarrow> grows obs obs' \<Longrightarrow> promise_ok obs' p"
  by (auto simp: promise_ok_def intro: value_ok_grows pairs_ok_grows)

lemma task_ok_grows: "task_ok obs t \<Longrightarrow> grows obs obs' \<Longrightarrow> task_ok obs' t"
  by (auto simp: task_ok_def intro: value_ok_grows is_promise_grows)

lemma env_ok_grows: "env_ok obs e en \<Longrightarrow> grows obs obs' \<Longrightarrow> env_ok obs' e en"
  by (auto simp: env_ok_def intro: value_ok_grows)

lemma object_ok_grows: "object_ok obs m a ob \<Longrightarrow> grows obs obs' \<Longrightarrow> m \<le> m' \<Longrightarrow> object_ok obs' m' a ob"
  unfolding object_ok_def
  by (auto simp: list_all_iff pairs_ok_def option.pred_set intro: value_ok_grows promise_ok_grows native_ok_grows)

section \<open>One step after another\<close>

definition follows :: "'w js_state \<Rightarrow> 'w js_state \<Rightarrow> bool" where
  "follows s s' \<longleftrightarrow> good s' \<and> evolves s s'"

abbreviation val :: "'w js_state \<Rightarrow> js_value \<Rightarrow> bool" where
  "val s \<equiv> value_ok (js_objects s)"

lemma follows_refl: "good s \<Longrightarrow> follows s s"
  by (simp add: follows_def)

lemma follows_trans: "follows s t \<Longrightarrow> follows t u \<Longrightarrow> follows s u"
  by (auto simp: follows_def intro: evolves_trans)

lemma follows_good: "follows s s' \<Longrightarrow> good s'"
  by (simp add: follows_def)

lemma val_follows: "val s v \<Longrightarrow> follows s s' \<Longrightarrow> val s' v"
  by (auto simp: follows_def intro: value_ok_grows evolves_grows)

lemma promise_follows: "is_promise (js_objects s) a \<Longrightarrow> follows s s' \<Longrightarrow> is_promise (js_objects s') a"
  by (auto simp: follows_def intro: is_promise_grows evolves_grows)

lemma address_follows: "a < length (js_objects s) \<Longrightarrow> follows s s' \<Longrightarrow> a < length (js_objects s')"
  by (auto simp: follows_def evolves_def)

lemma env_follows: "e < length (js_envs s) \<Longrightarrow> follows s s' \<Longrightarrow> e < length (js_envs s')"
  by (auto simp: follows_def evolves_def)

lemma vals_follow: "list_all (val s) vs \<Longrightarrow> follows s s' \<Longrightarrow> list_all (val s') vs"
  by (auto simp: list_all_iff intro: val_follows)

lemma val_simps [simp]:
  "value_ok obs VUndefined" "value_ok obs VNull" "value_ok obs (VBoolean b)" "value_ok obs (VNumber x)"
  "value_ok obs (VString t)" "value_ok obs (VObject None)" "value_ok obs (VObject (Some a)) \<longleftrightarrow> a < length obs"
  by (simp_all add: value_ok_def object_of_def)

section \<open>The store's operations\<close>

lemma nth_updated: "xs[i := y] ! j = (if i = j \<and> j < length xs then y else xs ! j)"
  by (cases "i < length xs") (auto simp: not_less list_update_beyond)

lemma follows_allocate:
  assumes "good s" and "object_ok (js_objects s) (length (js_envs s)) (length (js_objects s)) ob"
  shows "follows s (snd (allocate ob s))"
proof -
  have g: "grows (js_objects s) (js_objects s @ [ob])" by (simp add: grows_def nth_append)
  have "good (snd (allocate ob s))"
    unfolding good_def
  proof (intro conjI allI impI)
    fix a
    assume "a < length (js_objects (snd (allocate ob s)))"
    then show "object_ok (js_objects (snd (allocate ob s))) (length (js_envs (snd (allocate ob s)))) a (js_objects (snd (allocate ob s)) ! a)"
      using assms g by (auto simp: allocate_def good_def nth_append less_Suc_eq intro: object_ok_grows)
  qed (use assms g in \<open>auto simp: allocate_def good_def option.pred_set list_all_iff intro: env_ok_grows task_ok_grows\<close>)
  moreover have "evolves s (snd (allocate ob s))"
    by (simp add: evolves_def allocate_def object_at_def nth_append)
  ultimately show ?thesis by (simp add: follows_def)
qed

lemma follows_update:
  assumes "good s"
    and "a < length (js_objects s) \<Longrightarrow> object_evolves (js_objects s ! a) (f (js_objects s ! a))"
    and "a < length (js_objects s) \<Longrightarrow>
      object_ok (js_objects s) (length (js_envs s)) a (js_objects s ! a) \<Longrightarrow>
      object_ok (js_objects s) (length (js_envs s)) a (f (js_objects s ! a))"
  shows "follows s (update_object a f s)"
proof -
  let ?obs = "(js_objects s)[a := f (js_objects s ! a)]"
  have g: "grows (js_objects s) ?obs"
    using assms(2) by (auto simp: grows_def nth_updated object_evolves_def promise_evolves_def)
  have "good (update_object a f s)"
    unfolding good_def
  proof (intro conjI allI impI)
    fix b
    assume "b < length (js_objects (update_object a f s))"
    then show "object_ok (js_objects (update_object a f s)) (length (js_envs (update_object a f s))) b (js_objects (update_object a f s) ! b)"
      using assms g by (auto simp: update_object_def good_def nth_updated intro: object_ok_grows)
  qed (use assms g in \<open>auto simp: update_object_def good_def option.pred_set list_all_iff intro: env_ok_grows task_ok_grows\<close>)
  moreover have "evolves s (update_object a f s)"
    using assms(2) by (auto simp: evolves_def update_object_def object_at_def nth_updated)
  ultimately show ?thesis by (simp add: follows_def)
qed

lemma follows_put_property: "good s \<Longrightarrow> val s v \<Longrightarrow> follows s (put_property a k v s)"
  unfolding put_property_def
  by (rule follows_update)
    (use set_map_put in \<open>fastforce simp: object_evolves_def same_kind_def object_ok_def list_all_iff\<close>)+

lemma follows_elements:
  assumes "good s" and "\<And>vs. list_all (val s) vs \<Longrightarrow> list_all (val s) (f vs)"
  shows "follows s (update_elements a f s)"
  unfolding update_elements_def
  by (rule follows_update) (use assms in \<open>auto simp: object_evolves_def same_kind_def object_ok_def\<close>)

lemma follows_entries:
  assumes "good s" and "\<And>es. pairs_ok (js_objects s) es \<Longrightarrow> pairs_ok (js_objects s) (f es)"
  shows "follows s (update_entries a f s)"
  unfolding update_entries_def
  by (rule follows_update) (use assms in \<open>auto simp: object_evolves_def same_kind_def object_ok_def\<close>)

lemma follows_world: "good s \<Longrightarrow> follows s (s\<lparr> js_world := w \<rparr>)"
  by (simp add: follows_def good_def evolves_def object_at_def)

lemma follows_fail: "good s \<Longrightarrow> follows s (js_fail e s)"
  by (auto simp: js_fail_def follows_def good_def evolves_def object_at_def split: option.splits)

lemma follows_extend: "good s \<Longrightarrow> pred_option (\<lambda>p. p < length (js_envs s)) p \<Longrightarrow> follows s (snd (extend_env p s))"
  by (auto simp: extend_env_def follows_def good_def evolves_def object_at_def nth_append less_Suc_eq env_ok_def new_env_def
      intro: object_ok_grows simp: grows_def)

lemma extend_env_address: "fst (extend_env p s) = length (js_envs s)" "length (js_envs (snd (extend_env p s))) = Suc (length (js_envs s))"
  by (simp_all add: extend_env_def)

lemma follows_declare: "good s \<Longrightarrow> val s v \<Longrightarrow> follows s (declare_variable e x v s)"
  by (auto simp: declare_variable_def follows_def good_def evolves_def object_at_def nth_updated env_ok_def ran_def
      split: if_splits)

lemma follows_schedule: "good s \<Longrightarrow> task_ok (js_objects s) t \<Longrightarrow> follows s (schedule_microtask t s)"
  by (simp add: schedule_microtask_def follows_def good_def evolves_def object_at_def)

section \<open>Results\<close>

definition pair_ok :: "'w js_state \<Rightarrow> js_value \<times> 'w js_state \<Rightarrow> bool" where
  "pair_ok s p \<longleftrightarrow> follows s (snd p) \<and> val (snd p) (fst p)"

definition out_ok :: "'w js_state \<Rightarrow> completion_type \<times> js_value \<times> 'w js_state \<Rightarrow> bool" where
  "out_ok s p = pair_ok s (snd p)"

definition list_ok :: "'w js_state \<Rightarrow> js_value list \<times> 'w js_state \<Rightarrow> bool" where
  "list_ok s p \<longleftrightarrow> follows s (snd p) \<and> list_all (val (snd p)) (fst p)"

definition with_ok :: "'w js_state \<Rightarrow> 'a \<times> 'w js_state \<Rightarrow> bool" where
  "with_ok s p = follows s (snd p)"

definition member_ok :: "'w js_state \<Rightarrow> js_value \<times> js_value \<times> 'w js_state \<Rightarrow> bool" where
  "member_ok s p \<longleftrightarrow> pair_ok s (snd p) \<and> val (snd (snd p)) (fst p)"

lemma pair_ok_iff [simp]: "pair_ok s (v, s') \<longleftrightarrow> follows s s' \<and> val s' v"
  by (simp add: pair_ok_def)

lemma out_ok_iff [simp]: "out_ok s (t, v, s') \<longleftrightarrow> follows s s' \<and> val s' v"
  by (simp add: out_ok_def)

lemma list_ok_iff [simp]: "list_ok s (vs, s') \<longleftrightarrow> follows s s' \<and> list_all (val s') vs"
  by (simp add: list_ok_def)

lemma with_ok_iff [simp]: "with_ok s (x, s') = follows s s'"
  by (simp add: with_ok_def)

lemma member_ok_iff [simp]: "member_ok s (u, v, s') \<longleftrightarrow> follows s s' \<and> val s' v \<and> val s' u"
  by (auto simp: member_ok_def)

text \<open>What a later state satisfies it satisfies for an earlier one.\<close>

definition lifts :: "('w js_state \<Rightarrow> 'a \<Rightarrow> bool) \<Rightarrow> bool" where
  "lifts Q \<longleftrightarrow> (\<forall>s s' x. follows s s' \<longrightarrow> Q s' x \<longrightarrow> Q s x)"

lemma lifts_follows [intro!]: "lifts follows"
  unfolding lifts_def by (blast intro: follows_trans)

lemma lifts_pair [intro!]: "lifts pair_ok" and lifts_out [intro!]: "lifts out_ok"
  and lifts_list [intro!]: "lifts list_ok" and lifts_with [intro!]: "lifts with_ok" and lifts_member [intro!]: "lifts member_ok"
  unfolding lifts_def pair_ok_def out_ok_def list_ok_def with_ok_def member_ok_def by (blast intro: follows_trans)+

lemma lift: "lifts Q \<Longrightarrow> follows s s' \<Longrightarrow> returns_only (Q s') m \<Longrightarrow> returns_only (Q s) m"
  unfolding lifts_def by (blast intro: returns_only_weaken)

lemma chain_state:
  assumes "lifts Q" and "returns_only (follows s) m"
    and "\<And>s'. follows s s' \<Longrightarrow> good s' \<Longrightarrow> returns_only (Q s') (f s')"
  shows "returns_only (Q s) (bind_run m f)"
  using assms(2) by (rule returns_only_bind) (blast intro: lift assms follows_good)

lemma chain_pair:
  assumes "lifts Q" and "returns_only (pair_ok s) m"
    and "\<And>v s'. follows s s' \<Longrightarrow> good s' \<Longrightarrow> val s' v \<Longrightarrow> returns_only (Q s') (f v s')"
  shows "returns_only (Q s) (bind_run m (\<lambda>(v, s'). f v s'))"
  using assms(2) by (rule returns_only_bind) (clarsimp, blast intro: lift assms follows_good)

lemma chain_out:
  assumes "lifts Q" and "returns_only (out_ok s) m"
    and "\<And>t v s'. follows s s' \<Longrightarrow> good s' \<Longrightarrow> val s' v \<Longrightarrow> returns_only (Q s') (f t v s')"
  shows "returns_only (Q s) (bind_run m (\<lambda>(t, v, s'). f t v s'))"
  using assms(2) by (rule returns_only_bind) (clarsimp, blast intro: lift assms follows_good)

lemma chain_list:
  assumes "lifts Q" and "returns_only (list_ok s) m"
    and "\<And>vs s'. follows s s' \<Longrightarrow> good s' \<Longrightarrow> list_all (val s') vs \<Longrightarrow> returns_only (Q s') (f vs s')"
  shows "returns_only (Q s) (bind_run m (\<lambda>(vs, s'). f vs s'))"
  using assms(2) by (rule returns_only_bind) (clarsimp, blast intro: lift assms follows_good)

lemma chain_with:
  assumes "lifts Q" and "returns_only (with_ok s) m"
    and "\<And>x s'. follows s s' \<Longrightarrow> good s' \<Longrightarrow> returns_only (Q s') (f x s')"
  shows "returns_only (Q s) (bind_run m (\<lambda>(x, s'). f x s'))"
  using assms(2) by (rule returns_only_bind) (clarsimp, blast intro: lift assms follows_good)

lemma chain_member:
  assumes "lifts Q" and "returns_only (member_ok s) m"
    and "\<And>u v s'. follows s s' \<Longrightarrow> good s' \<Longrightarrow> val s' u \<Longrightarrow> val s' v \<Longrightarrow> returns_only (Q s') (f u v s')"
  shows "returns_only (Q s) (bind_run m (\<lambda>(u, v, s'). f u v s'))"
  using assms(2) by (rule returns_only_bind) (clarsimp, blast intro: lift assms follows_good)

text \<open>A value that has no state of its own.\<close>

lemma chain_plain:
  assumes "\<And>x. m = Returns x \<Longrightarrow> returns_only P (f x)"
  shows "returns_only P (bind_run m f)"
  using assms by (cases m) simp_all

section \<open>Objects\<close>

lemma object_ok_new [simp]: "object_ok obs m a new_object"
  by (simp add: object_ok_def new_object_def pairs_ok_def)

lemma object_ok_native [simp]: "object_ok obs m a (native_object f) = native_ok obs f"
  by (simp add: object_ok_def new_object_def native_object_def pairs_ok_def)

lemma object_ok_array [simp]: "object_ok obs m a (array_object vs) = list_all (value_ok obs) vs"
  by (simp add: object_ok_def new_object_def array_object_def pairs_ok_def)

lemma good_object: "good s \<Longrightarrow> a < length (js_objects s) \<Longrightarrow> object_ok (js_objects s) (length (js_envs s)) a (object_at s a)"
  by (simp add: good_def object_at_def)

lemma good_elements: "good s \<Longrightarrow> a < length (js_objects s) \<Longrightarrow> list_all (val s) (elements_at s a)"
  by (drule (1) good_object) (simp add: object_ok_def)

lemma good_entries: "good s \<Longrightarrow> a < length (js_objects s) \<Longrightarrow> pairs_ok (js_objects s) (entries_at s a)"
  by (drule (1) good_object) (simp add: object_ok_def)

lemma good_globals: "good s \<Longrightarrow> js_globals s < length (js_envs s)" "good s \<Longrightarrow> js_object_prototype s < length (js_objects s)"
  by (simp_all add: good_def)

lemma allocate_address: "fst (allocate ob s) = length (js_objects s)" "js_objects (snd (allocate ob s)) = js_objects s @ [ob]"
  by (simp_all add: allocate_def)

text \<open>An object made with older references only.\<close>

lemma new_value_ok:
  "good s \<Longrightarrow> object_ok (js_objects s) (length (js_envs s)) (length (js_objects s)) ob \<Longrightarrow> pair_ok s (new_value ob s)"
  by (drule (1) follows_allocate) (simp add: new_value_def allocate_def)

lemma make_native_value: "make_native f s = new_value (native_object f) s"
  by (simp add: make_native_def new_value_def)

lemma plain_array_value: "plain_array vs s = new_value (array_object vs) s"
  by (simp add: plain_array_def new_value_def)

lemma make_native_ok: "good s \<Longrightarrow> native_ok (js_objects s) f \<Longrightarrow> pair_ok s (make_native f s)"
  unfolding make_native_value by (rule new_value_ok) simp_all

lemma plain_array_ok: "good s \<Longrightarrow> list_all (val s) vs \<Longrightarrow> pair_ok s (plain_array vs s)"
  unfolding plain_array_value by (rule new_value_ok) simp_all

lemma make_array_ok: "good s \<Longrightarrow> list_all (val s) vs \<Longrightarrow> pair_ok s (make_array vs s)"
  unfolding make_array_def new_value_def [symmetric]
  by (rule new_value_ok) (auto simp: object_ok_def array_object_def new_object_def pairs_ok_def dest: good_globals)

lemma put_native_ok:
  assumes "good s" and "native_ok (js_objects s) (snd m)"
  shows "follows s (put_native a m s)"
proof -
  obtain v s' where p: "make_native (snd m) s = (v, s')" by (cases "make_native (snd m) s")
  with make_native_ok [OF assms] have "follows s s'" "val s' v" by simp_all
  then show ?thesis
    using follows_put_property [of s' v] by (auto simp: put_native_def p dest: follows_good intro: follows_trans)
qed

lemma put_natives_ok:
  "good s \<Longrightarrow> list_all (\<lambda>m. native_ok (js_objects s) (snd m)) ms \<Longrightarrow> follows s (fold (put_native a) ms s)"
proof (induction ms arbitrary: s)
  case Nil
  then show ?case by (simp add: follows_refl)
next
  case (Cons m ms)
  then have f: "follows s (put_native a m s)" by (simp add: put_native_ok)
  then have "list_all (\<lambda>k. native_ok (js_objects (put_native a m s)) (snd k)) ms"
    using Cons.prems(2) by (auto simp: list_all_iff follows_def intro: native_ok_grows evolves_grows)
  with Cons.IH [OF follows_good [OF f]] have "follows (put_native a m s) (fold (put_native a) ms (put_native a m s))" .
  with f show ?case by (simp add: follows_trans)
qed

section \<open>Promises\<close>

definition promise_made :: "'w js_state \<Rightarrow> nat \<times> 'w js_state \<Rightarrow> bool" where
  "promise_made s p \<longleftrightarrow> follows s (snd p) \<and> is_promise (js_objects (snd p)) (fst p)"

lemma make_promise_ok:
  assumes "good s"
  shows "promise_made s (make_promise s)"
proof -
  let ?ob = "new_object\<lparr> ob_prototype := Some (js_object_prototype s), ob_promise := Some new_promise_data \<rparr>"
  let ?s = "snd (allocate ?ob s)" and ?a = "length (js_objects s)"
  have f: "follows s ?s"
    by (rule follows_allocate [OF assms])
      (auto simp: object_ok_def new_object_def pairs_ok_def promise_ok_def new_promise_data_def intro: good_globals assms)
  have p: "is_promise (js_objects ?s) ?a" by (simp add: is_promise_def allocate_def)
  let ?t = "fold (put_native ?a) [(''then'', PromiseThen ?a), (''catch'', PromiseCatch ?a), (''finally'', PromiseFinally ?a)] ?s"
  have g: "follows ?s ?t"
    by (rule put_natives_ok [OF follows_good [OF f]]) (simp add: native_ok_def p)
  have m: "make_promise s = (?a, ?t)" by (simp add: make_promise_def allocate_def)
  show ?thesis
    unfolding promise_made_def m using follows_trans [OF f g] promise_follows [OF p g] by simp
qed

lemma make_promiseE:
  assumes "good s" and "make_promise s = (a, s')"
  shows "follows s s'" and "good s'" and "is_promise (js_objects s') a"
  using make_promise_ok [OF assms(1)] by (simp_all add: promise_made_def assms(2) follows_def)

lemma promise_address: "is_promise obs a \<Longrightarrow> a < length obs"
  by (simp add: is_promise_def)

lemma schedule_all_ok:
  "good s \<Longrightarrow> list_all (task_ok (js_objects s)) ts \<Longrightarrow> follows s (fold schedule_microtask ts s)"
proof (induction ts arbitrary: s)
  case Nil
  then show ?case by (simp add: follows_refl)
next
  case (Cons t ts)
  then have "follows s (schedule_microtask t s)" by (simp add: follows_schedule)
  moreover have "follows (schedule_microtask t s) (fold schedule_microtask ts (schedule_microtask t s))"
    by (rule Cons.IH) (use Cons.prems calculation in \<open>auto simp: follows_def schedule_microtask_def\<close>)
  ultimately show ?case by (simp add: follows_trans)
qed

lemma handler_task_ok: "is_promise obs a \<Longrightarrow> value_ok obs v \<Longrightarrow> value_ok obs (fst hs) \<Longrightarrow> value_ok obs (snd hs) \<Longrightarrow> task_ok obs (handler_task a b v hs)"
  by (simp add: handler_task_def task_ok_def)

lemma settle_promise_ok:
  assumes "good s" and "is_promise (js_objects s) a" and "val s v"
  shows "follows s (settle_promise a b v s)"
proof (cases "ob_promise (object_at s a)")
  case None
  then show ?thesis using assms by (simp add: settle_promise_def follows_refl)
next
  case (Some p)
  show ?thesis
  proof (cases "pr_status p = Pending")
    case False
    then show ?thesis using Some assms by (simp add: settle_promise_def follows_refl)
  next
    case True
    let ?s = "update_object a (\<lambda>ob. ob\<lparr> ob_promise := Some (settled b v) \<rparr>) s"
    have f: "follows s ?s"
      by (rule follows_update [OF assms(1)])
        (use Some True assms(3) in \<open>auto simp: object_evolves_def same_kind_def promise_evolves_def object_at_def object_ok_def
          promise_ok_def settled_def pairs_ok_def\<close>)
    have "pairs_ok (js_objects s) (pr_handlers p)"
      using good_object [OF assms(1) promise_address [OF assms(2)]] Some by (simp add: object_ok_def promise_ok_def)
    then have "list_all (task_ok (js_objects s)) (map (handler_task a b v) (pr_handlers p))"
      using assms(2,3) by (auto simp: list_all_iff pairs_ok_def intro!: handler_task_ok)
    then have "list_all (task_ok (js_objects ?s)) (map (handler_task a b v) (pr_handlers p))"
      using evolves_grows [of s ?s] f unfolding list_all_iff follows_def by (blast intro: task_ok_grows)
    from follows_trans [OF f schedule_all_ok [OF follows_good [OF f] this]] show ?thesis
      by (simp add: settle_promise_def Some True)
  qed
qed

lemma add_handlers_ok:
  assumes "good s" and "pr_status (promise_data_at s a) = Pending" and "val s (fst hs)" and "val s (snd hs)"
  shows "follows s (add_handlers a hs s)"
  unfolding add_handlers_def
  by (rule follows_update [OF assms(1)])
    (use assms(2-) in \<open>auto simp: object_evolves_def same_kind_def promise_evolves_def promise_data_at_def object_at_def
      object_ok_def promise_ok_def pairs_ok_def option.pred_set split: option.splits\<close>)

lemma argument_ok: "list_all (value_ok obs) args \<Longrightarrow> value_ok obs (argument args i)"
  by (simp add: argument_def list_all_length)

lemma nth_ok: "list_all (value_ok obs) vs \<Longrightarrow> i < length vs \<Longrightarrow> value_ok obs (vs ! i)"
  by (simp add: list_all_length)

lemma promise_data_ok: "good s \<Longrightarrow> is_promise (js_objects s) a \<Longrightarrow> promise_ok (js_objects s) (promise_data_at s a)"
  by (frule good_object [OF _ promise_address], assumption)
    (auto simp: object_ok_def promise_data_at_def is_promise_def object_at_def split: option.splits)

lemma promise_of_ok:
  assumes "good s" and "val s v" and "promise_of s v = Some (a, p)"
  shows "is_promise (js_objects s) a" and "promise_data_at s a = p" and "val s (pr_value p)"
proof -
  from assms(2,3) show a: "is_promise (js_objects s) a"
    by (auto simp: promise_of_def is_promise_def value_ok_def object_at_def split: option.splits)
  from assms(3) show "promise_data_at s a = p"
    by (auto simp: promise_of_def promise_data_at_def split: option.splits)
  with promise_data_ok [OF assms(1) a] show "val s (pr_value p)" by (simp add: promise_ok_def)
qed

lemma promise_then_ok:
  assumes "good s" and "is_promise (js_objects s) a" and "list_all (val s) args"
  shows "pair_ok s (promise_then a args s)"
proof -
  obtain d t where m: "make_promise s = (d, t)" by (cases "make_promise s")
  note t = make_promiseE [OF assms(1) m]
  let ?hs = "(argument args 0, argument args 1)" and ?p = "promise_data_at t a"
  have a: "is_promise (js_objects t) a" and args: "list_all (val t) args"
    using assms t by (blast intro: promise_follows vals_follow)+
  have "follows t (if pr_status ?p = Pending then add_handlers a ?hs t
      else schedule_microtask (handler_task d (pr_status ?p = Rejected) (pr_value ?p) ?hs) t)"
    using promise_data_ok [OF t(2) a]
    by (auto intro!: add_handlers_ok follows_schedule handler_task_ok argument_ok t args simp: promise_ok_def)
  with t show ?thesis
    by (auto simp: promise_then_def m Let_def dest: promise_address intro: follows_trans address_follows)
qed

lemma promise_catch_ok:
  assumes "good s" and "is_promise (js_objects s) a" and "list_all (val s) args"
  shows "pair_ok s (promise_catch a args s)"
proof -
  obtain d t where m: "make_promise s = (d, t)" by (cases "make_promise s")
  note t = make_promiseE [OF assms(1) m]
  let ?hs = "(VUndefined, argument args 0)" and ?p = "promise_data_at t a"
  have a: "is_promise (js_objects t) a" and args: "list_all (val t) args"
    using assms t by (blast intro: promise_follows vals_follow)+
  have "follows t (case pr_status ?p of
           Pending \<Rightarrow> add_handlers a ?hs t
         | Rejected \<Rightarrow> schedule_microtask (handler_task d True (pr_value ?p) ?hs) t
         | Fulfilled \<Rightarrow> settle_promise d False (pr_value ?p) t)"
    using promise_data_ok [OF t(2) a]
    by (auto intro!: add_handlers_ok follows_schedule handler_task_ok argument_ok settle_promise_ok t args
        simp: promise_ok_def split: promise_status.splits)
  with t show ?thesis
    by (auto simp: promise_catch_def m Let_def dest: promise_address intro: follows_trans address_follows)
qed

lemma resolved_promise_ok: "good s \<Longrightarrow> val s v \<Longrightarrow> pair_ok s (resolved_promise b v s)"
proof -
  assume g: "good s" and v: "val s v"
  obtain d t where m: "make_promise s = (d, t)" by (cases "make_promise s")
  note t = make_promiseE [OF g m]
  have "follows t (settle_promise d b v t)"
    by (rule settle_promise_ok) (use t v in \<open>blast intro: val_follows\<close>)+
  with t show ?thesis
    by (auto simp: resolved_promise_def m dest: promise_address intro: follows_trans address_follows)
qed

lemma elements_of_ok: "good s \<Longrightarrow> val s v \<Longrightarrow> list_all (val s) (elements_of s v)"
  by (auto simp: elements_of_def array_of_def value_ok_def split: option.splits dest: good_elements)

lemma promise_item_ok: "good s \<Longrightarrow> val s v \<Longrightarrow> val s (promise_item s v)"
  by (auto simp: promise_item_def split: option.splits dest: promise_of_ok(3))

lemma promise_all_ok:
  assumes "good s" and "list_all (val s) args"
  shows "pair_ok s (promise_all args s)"
proof -
  obtain d t where m: "make_promise s = (d, t)" by (cases "make_promise s")
  note t = make_promiseE [OF assms(1) m]
  have "list_all (val t) (elements_of t (argument args 0))"
    by (intro elements_of_ok t argument_ok vals_follow [OF assms(2)])
  then have items: "list_all (val t) (map (promise_item t) (elements_of t (argument args 0)))"
    by (auto simp: list_all_iff intro: promise_item_ok t)
  obtain v u where n: "plain_array (map (promise_item t) (elements_of t (argument args 0))) t = (v, u)"
    by (cases "plain_array (map (promise_item t) (elements_of t (argument args 0))) t")
  from plain_array_ok [OF t(2) items] have u: "follows t u" "val u v" by (simp_all add: n)
  have "follows u (settle_promise d False v u)"
    by (rule settle_promise_ok) (use u t in \<open>blast intro: follows_good promise_follows\<close>)+
  with t u show ?thesis
    by (auto simp: promise_all_def m n dest: promise_address intro: follows_trans address_follows)
qed

lemma promise_resolve_ok: "good s \<Longrightarrow> list_all (val s) args \<Longrightarrow> pair_ok s (promise_resolve args s)"
  unfolding promise_resolve_def
  by (auto split: option.split intro!: argument_ok resolved_promise_ok follows_refl)

section \<open>Library functions\<close>

lemma unchanged_ok: "good s \<Longrightarrow> val s v \<Longrightarrow> pair_ok s (v, s)"
  by (simp add: follows_refl)

lemma text_result_ok: "good s \<Longrightarrow> returns_only (pair_ok s) (text_result m s)"
  unfolding text_result_def by (rule chain_plain) (simp add: follows_refl)

lemma text_test_ok: "good s \<Longrightarrow> returns_only (pair_ok s) (text_test P args s)"
  unfolding text_test_def by (auto intro!: chain_plain simp: follows_refl)

text \<open>A new object that is dressed up afterwards.\<close>

lemma dressed_ok:
  assumes "good s" and "object_ok (js_objects s) (length (js_envs s)) (length (js_objects s)) ob"
    and "good (snd (allocate ob s)) \<Longrightarrow> follows (snd (allocate ob s)) t"
  shows "pair_ok s (VObject (Some (length (js_objects s))), t)"
proof -
  have f: "follows s (snd (allocate ob s))" by (rule follows_allocate [OF assms(1,2)])
  have t: "follows (snd (allocate ob s)) t" by (rule assms(3) [OF follows_good [OF f]])
  have "length (js_objects s) < length (js_objects (snd (allocate ob s)))" by (simp add: allocate_def)
  with f t show ?thesis by (simp add: follows_trans [OF f t] address_follows)
qed

lemma later_property: "follows s t \<Longrightarrow> val t v \<Longrightarrow> follows s (put_property a k v t)"
  by (blast intro: follows_trans follows_put_property follows_good)

lemma later_natives:
  "follows s t \<Longrightarrow> list_all (\<lambda>m. native_ok (js_objects t) (snd m)) ms \<Longrightarrow> follows s (fold (put_native a) ms t)"
  by (blast intro: follows_trans put_natives_ok follows_good)

lemma allocated: "(case allocate ob s of (a, t) \<Rightarrow> f a t) = f (length (js_objects s)) (snd (allocate ob s))"
  by (simp add: allocate_def)

lemma make_regex_object_ok:
  assumes "good s"
  shows "pair_ok s (make_regex_object r s)"
proof (cases r)
  case None
  then show ?thesis using assms by (simp add: make_regex_object_def follows_refl)
next
  case (Some rx)
  show ?thesis
    unfolding make_regex_object_def Some option.case allocated
    by (rule dressed_ok [OF assms, where ob = "new_object\<lparr> ob_regex := Some rx \<rparr>"])
      (simp add: object_ok_def new_object_def pairs_ok_def, intro later_natives later_property follows_refl, simp_all add: native_ok_def)
qed

lemma regex_exec_ok:
  assumes "good s"
  shows "pair_ok s (regex_exec rx t s)"
proof (cases "search rx t 0")
  case None
  then show ?thesis using assms by (simp add: regex_exec_def follows_refl)
next
  case (Some m)
  obtain i j where m: "m = (i, j)" by (cases m)
  show ?thesis
    unfolding regex_exec_def Some m option.case prod.case allocated
    by (rule dressed_ok [OF assms, where ob = "array_object [slice_of t i j]"])
      (simp add: slice_of_def, intro later_property follows_refl, simp_all)
qed

lemma make_regexp_ok: "good s \<Longrightarrow> returns_only (pair_ok s) (make_regexp args s)"
  unfolding make_regexp_def
  by (intro chain_plain) (auto simp: follows_refl intro: make_regex_object_ok split: parsed.split sum.split)

lemma make_date_object_ok: "good s \<Longrightarrow> pair_ok s (make_date_object ms s)"
  unfolding make_date_object_def allocated
  by (rule dressed_ok [where ob = new_object]) (assumption, simp, intro later_natives follows_refl, simp_all add: date_methods_def native_ok_def)

lemma string_split_ok: "good s \<Longrightarrow> returns_only (pair_ok s) (string_split t args s)"
proof -
  assume g: "good s"
  have parts: "returns_only (list_all (val s))
       (if args = [] then Returns [VString t]
        else case regex_of s (args ! 0) of
          Some rx \<Rightarrow> split_regex rx t
        | None \<Rightarrow> bind_run (to_text s (args ! 0)) (\<lambda>separator. Returns (map VString (split_text separator t))))"
    by (auto simp: split_regex_def slice_of_def list_all_iff split: option.split prod.split intro!: chain_plain)
  show ?thesis
    unfolding string_split_def by (rule returns_only_bind [OF parts]) (simp add: plain_array_ok g)
qed

lemma string_match_ok:
  assumes "good s"
  shows "pair_ok s (string_match t args s)"
proof (cases "regex_of s (argument args 0)")
  case None
  then show ?thesis using assms by (simp add: string_match_def follows_refl)
next
  case (Some rx)
  define ms where "ms = fst (scan_matches rx (rx_global rx) t 0)"
  have "pair_ok s (VObject (Some (length (js_objects s))),
      if rx_global rx then snd (allocate (array_object (map (\<lambda>(p, i, j). slice_of t i j) ms)) s)
      else put_property (length (js_objects s)) ''index'' (VNumber (double_of (int (fst (snd (hd ms))))))
        (snd (allocate (array_object (map (\<lambda>(p, i, j). slice_of t i j) ms)) s)))"
    by (rule dressed_ok [OF assms, where ob = "array_object (map (\<lambda>(p, i, j). slice_of t i j) ms)"])
      (auto simp: slice_of_def list_all_iff intro: later_property follows_refl)
  then show ?thesis
    unfolding string_match_def Some option.case Let_def allocated ms_def [symmetric] using assms by (simp add: follows_refl)
qed

lemma string_method_ok: "good s \<Longrightarrow> returns_only (pair_ok s) (string_method m t args s)"
  by (cases m)
    (auto simp: string_method_def index_value_def follows_refl
      intro!: text_result_ok text_test_ok string_split_ok string_match_ok chain_plain)

definition json_result_ok :: "'w js_state \<Rightarrow> (js_value \<times> 'w json_state) option \<Rightarrow> bool" where
  "json_result_ok s m = (case m of None \<Rightarrow> True | Some (v, r, ok, s') \<Rightarrow> follows s s' \<and> val s' v)"

definition json_state_ok :: "'w js_state \<Rightarrow> 'w json_state option \<Rightarrow> bool" where
  "json_state_ok s m = (case m of None \<Rightarrow> True | Some (r, ok, s') \<Rightarrow> follows s s')"

lemma json_state_ok_Some [simp]: "json_state_ok s (Some (r, ok, s')) = follows s s'" "json_state_ok s None"
  by (simp_all add: json_state_ok_def)

lemma json_result_ok_Some [simp]: "json_result_ok s (Some (v, r, ok, s')) \<longleftrightarrow> follows s s' \<and> val s' v" "json_result_ok s None"
  by (simp_all add: json_result_ok_def)

lemma json_leaves_ok:
  "good s \<Longrightarrow> json_result_ok s (json_fail (r, ok, s))"
  "good s \<Longrightarrow> val s v \<Longrightarrow> json_result_ok s (json_word w v (r, ok, s))"
  "good s \<Longrightarrow> json_result_ok s (json_number (r, ok, s))"
  by (auto simp: json_fail_def json_word_def json_number_def follows_refl split: option.split)

lemma json_state_later: "follows s t \<Longrightarrow> json_state_ok t m \<Longrightarrow> json_state_ok s m"
  by (auto simp: json_state_ok_def split: option.split intro: follows_trans)

lemma json_container_ok:
  assumes "good s" and "object_ok (js_objects s) (length (js_envs s)) (length (js_objects s)) ob"
    and "good (snd (allocate ob s)) \<Longrightarrow> json_state_ok (snd (allocate ob s)) m"
  shows "json_result_ok s (map_option (\<lambda>st. (VObject (Some (length (js_objects s))), st)) m)"
proof (cases m)
  case (Some st)
  obtain r ok t where st: "st = (r, ok, t)" by (cases st)
  with assms(3) Some have "follows (snd (allocate ob s)) t" if "good (snd (allocate ob s))" using that by simp
  from dressed_ok [OF assms(1,2) this] show ?thesis by (simp add: Some st)
qed simp

lemma json_empty_ok:
  "good s \<Longrightarrow> object_ok (js_objects s) (length (js_envs s)) (length (js_objects s)) ob \<Longrightarrow>
    json_result_ok s (Some (VObject (Some (length (js_objects s))), r, ok, snd (allocate ob s)))"
  using dressed_ok [of s ob "snd (allocate ob s)"] by (simp add: follows_refl)

lemma json_if: "json_result_ok s m \<Longrightarrow> json_result_ok s n \<Longrightarrow> json_result_ok s (if c then m else n)"
  by simp

declare json_value.simps [simp del] json_members.simps [simp del] json_items.simps [simp del]

lemma json_parts_ok:
  fixes s :: "'w js_state"
  shows "good s \<Longrightarrow> json_result_ok s (json_value n (r, ok, s))"
    and "good s \<Longrightarrow> json_state_ok s (json_members n a (r, ok, s))"
    and "good s \<Longrightarrow> json_state_ok s (json_items n a (r, ok, s))"
proof (induction n arbitrary: r ok s a)
  case 0
  { case 1 then show ?case by (simp add: json_value.simps) next
    case 2 then show ?case by (simp add: json_members.simps) next
    case 3 then show ?case by (simp add: json_items.simps) }
next
  case (Suc n)
  { case 1
    show ?case
    proof (cases "json_skip r")
      case Nil
      then show ?thesis using 1 by (simp add: json_value.simps json_leaves_ok)
    next
      case (Cons c r1)
      have q: "json_result_ok s (case json_string r1 of (t, r2) \<Rightarrow> Some (VString t, r2, ok, s))"
        using 1 by (cases "json_string r1") (simp add: follows_refl)
      show ?thesis
        unfolding json_value.simps Let_def allocated Cons list.case
        by (intro json_if q json_leaves_ok json_empty_ok json_container_ok [where ob = new_object]
            json_container_ok [where ob = "array_object []"] Suc.IH 1) (simp_all add: Suc.IH)
    qed
  next
    case 2
    obtain k r2 where k: "json_string (tl (json_skip r)) = (k, r2)" by (cases "json_string (tl (json_skip r))")
    show ?case
    proof (cases "json_value n (tl (json_skip r2), ok, s)")
      case None
      then show ?thesis using 2 by (simp add: json_members.simps k Let_def follows_refl)
    next
      case (Some p)
      obtain v r1 ok1 t where p: "p = (v, r1, ok1, t)" by (cases p)
      have t: "follows s t" "val t v" using Suc.IH(1) [OF 2] Some p by (metis json_result_ok_Some(1))+
      let ?t = "put_property a k v t"
      have u: "follows s ?t" by (rule later_property [OF t])
      have "json_state_ok s (json_members n a (r3, ok2, ?t))" for r3 ok2
        by (rule json_state_later [OF u Suc.IH(2) [OF follows_good [OF u]]])
      with u 2 show ?thesis
        using Some p by (simp add: json_members.simps k Let_def follows_refl)
    qed
  next
    case 3
    show ?case
    proof (cases "json_value n (r, ok, s)")
      case None
      then show ?thesis using 3 by (simp add: json_items.simps follows_refl)
    next
      case (Some p)
      obtain v r1 ok1 t where p: "p = (v, r1, ok1, t)" by (cases p)
      have t: "follows s t" "val t v" using Suc.IH(1) [OF 3] Some p by (metis json_result_ok_Some(1))+
      let ?t = "update_object a (\<lambda>ob. ob\<lparr> ob_elements := ob_elements ob @ [v] \<rparr>) t"
      have "follows t ?t"
        using follows_elements [OF follows_good [OF t(1)], of "\<lambda>vs. vs @ [v]" a] t(2) by (simp add: update_elements_def)
      then have u: "follows s ?t" by (rule follows_trans [OF t(1)])
      have "json_state_ok s (json_items n a (r2, ok2, ?t))" for r2 ok2
        by (rule json_state_later [OF u Suc.IH(3) [OF follows_good [OF u]]])
      with u 3 show ?thesis
        using Some p by (simp add: json_items.simps Let_def follows_refl)
    qed }
qed

lemma json_parse_ok:
  assumes "good s"
  shows "returns_only (pair_ok s) (json_parse t s)"
  using json_parts_ok(1) [OF assms, of "2 * length t + 2" t True]
  by (auto simp: json_parse_def json_result_ok_def split: option.splits)

lemma array_sort_ok:
  assumes "good s" and "a < length (js_objects s)" and "\<And>xs. mset (ho_sort h xs) = mset xs"
  shows "returns_only (pair_ok s) (array_sort h a s)"
proof -
  have sorted: "set (map snd (ho_sort h (zip ts vs))) \<subseteq> set vs" for ts vs
    using mset_eq_setD [OF assms(3), of "zip ts vs"] by (auto dest: set_zip_rightD)
  have "list_all (val s) (map snd (ho_sort h (zip ts (elements_at s a))))" for ts
    using sorted [of ts "elements_at s a"] good_elements [OF assms(1,2)] unfolding list_all_iff by blast
  then have "pair_ok s (VObject (Some a), update_elements a (\<lambda>_. map snd (ho_sort h (zip ts (elements_at s a)))) s)" for ts
    using follows_elements [of s "\<lambda>_. map snd (ho_sort h (zip ts (elements_at s a)))" a] assms(1,2)
    by (simp add: address_follows)
  then show ?thesis
    unfolding array_sort_def Let_def using assms(1,2) by (auto intro!: chain_plain unchanged_ok simp del: pair_ok_iff)
qed

lemma list_all_concat_map: "list_all P (concat (map f xs)) = list_all (\<lambda>x. list_all P (f x)) xs"
  by (induction xs) auto

lemma array_of_ok: "val s v \<Longrightarrow> array_of s v = Some a \<Longrightarrow> a < length (js_objects s)"
  by (auto simp: array_of_def value_ok_def split: option.splits if_splits)

lemma array_concat_ok:
  assumes "good s" and "a < length (js_objects s)" and "list_all (val s) args"
  shows "pair_ok s (array_concat a args s)"
proof -
  have "list_all (val s) (case array_of s v of None \<Rightarrow> [v] | Some b \<Rightarrow> elements_at s b)" if "val s v" for v
    using that assms(1) by (auto split: option.split dest: array_of_ok intro: good_elements)
  then have "list_all (\<lambda>v. list_all (val s) (case array_of s v of None \<Rightarrow> [v] | Some b \<Rightarrow> elements_at s b)) args"
    using assms(3) unfolding list_all_iff by blast
  then show ?thesis
    unfolding array_concat_def by (intro plain_array_ok) (simp_all add: assms good_elements list_all_concat_map)
qed

lemma array_slice_ok:
  assumes "good s" and "a < length (js_objects s)"
  shows "returns_only (pair_ok s) (array_slice a args s)"
proof -
  have "list_all (val s) (take m (drop n (elements_at s a)))" for m n
    using good_elements [OF assms] by (auto simp: list_all_iff dest!: in_set_takeD in_set_dropD)
  then show ?thesis
    unfolding array_slice_def Let_def by (intro chain_plain) (auto intro!: plain_array_ok assms split: prod.split simp del: pair_ok_iff)
qed

lemma later_elements:
  "good s \<Longrightarrow> (\<And>vs. list_all (val s) vs \<Longrightarrow> list_all (val s) (f vs)) \<Longrightarrow> a < length (js_objects s) \<Longrightarrow>
    follows s (update_elements b f s) \<and> a < length (js_objects (update_elements b f s))"
  by (blast intro: follows_elements address_follows)

lemma array_method_ok:
  assumes "good s" and "a < length (js_objects s)" and "list_all (val s) args" and "\<And>xs. mset (ho_sort h xs) = mset xs"
  shows "returns_only (pair_ok s) (array_method h m a args s)"
proof (cases m)
  case ArrayPush
  then show ?thesis using assms by (simp add: array_method_def follows_elements)
next
  case ArrayPop
  have "list_all (val s) vs \<Longrightarrow> list_all (val s) (butlast vs)" for vs
    by (auto simp: list_all_iff dest: in_set_butlastD)
  then have f: "follows s (update_elements a butlast s)" by (rule follows_elements [OF assms(1)])
  have "val s (last (elements_at s a))" if "elements_at s a \<noteq> []"
    using good_elements [OF assms(1,2)] that by (simp add: list_all_iff)
  with val_follows [OF _ f] f show ?thesis
    using ArrayPop assms(1) by (simp add: array_method_def Let_def follows_refl)
next
  case ArrayReverse
  then show ?thesis using assms by (simp add: array_method_def later_elements)
qed (use assms in \<open>simp_all add: array_method_def unchanged_ok index_value_def text_result_ok array_slice_ok array_sort_ok
    array_concat_ok del: pair_ok_iff\<close>)

lemma pairs_ok_simps [simp]:
  "pairs_ok obs []" "pairs_ok obs ((u, v) # ps) \<longleftrightarrow> value_ok obs u \<and> value_ok obs v \<and> pairs_ok obs ps"
  by (simp_all add: pairs_ok_def)

lemma entry_put_ok: "pairs_ok obs es \<Longrightarrow> value_ok obs k \<Longrightarrow> value_ok obs v \<Longrightarrow> pairs_ok obs (entry_put k v es)"
  by (induction k v es rule: entry_put.induct) auto

lemma entry_get_ok: "pairs_ok obs es \<Longrightarrow> entry_get k es = Some v \<Longrightarrow> value_ok obs v"
  by (induction k es rule: entry_get.induct) (auto split: if_splits)

lemma set_erase_first: "set (erase_first P xs) \<subseteq> set xs"
  by (induction P xs rule: erase_first.induct) auto

lemma erase_first_ok: "list_all P xs \<Longrightarrow> list_all P (erase_first Q xs)" "pairs_ok obs es \<Longrightarrow> pairs_ok obs (erase_first R es)"
  using set_erase_first unfolding pairs_ok_def list_all_iff by fastforce+

lemma pairs_ok_maps: "pairs_ok obs es \<Longrightarrow> list_all (value_ok obs) (map fst es)" "pairs_ok obs es \<Longrightarrow> list_all (value_ok obs) (map snd es)"
  by (auto simp: pairs_ok_def list_all_iff)

lemma later_entries:
  "good s \<Longrightarrow> (\<And>es. pairs_ok (js_objects s) es \<Longrightarrow> pairs_ok (js_objects s) (f es)) \<Longrightarrow> a < length (js_objects s) \<Longrightarrow>
    follows s (update_entries b f s) \<and> a < length (js_objects (update_entries b f s))"
  by (blast intro: follows_entries address_follows)

lemma map_method_ok:
  assumes "good s" and "a < length (js_objects s)" and "list_all (val s) args"
  shows "pair_ok s (map_method m a args s)"
proof -
  note es = good_entries [OF assms(1,2)]
  show ?thesis
  proof (cases m)
    case MapSet
    have "follows s (update_entries a (entry_put (args ! 0) (args ! 1)) s) \<and>
        a < length (js_objects (update_entries a (entry_put (args ! 0) (args ! 1)) s))" if "2 \<le> length args"
      by (rule later_entries) (use that assms in \<open>auto intro!: entry_put_ok nth_ok\<close>)
    then show ?thesis using MapSet assms by (auto simp: map_method_def follows_refl)
  next
    case MapGet
    then show ?thesis
      using assms es by (auto simp: map_method_def follows_refl split: option.split intro: entry_get_ok)
  next
    case MapDelete
    then show ?thesis using assms by (auto simp: map_method_def Let_def follows_refl intro!: follows_entries erase_first_ok)
  qed (use assms es in \<open>simp_all add: map_method_def unchanged_ok pairs_ok_maps plain_array_ok del: pair_ok_iff\<close>)
qed

lemma set_method_ok:
  assumes "good s" and "a < length (js_objects s)" and "list_all (val s) args"
  shows "pair_ok s (set_method m a args s)"
proof (cases m)
  case SetAdd
  have "follows s (update_elements a (\<lambda>vs. vs @ [args ! 0]) s) \<and>
      a < length (js_objects (update_elements a (\<lambda>vs. vs @ [args ! 0]) s))" if "args \<noteq> []"
    by (rule later_elements) (use that assms in \<open>auto intro!: nth_ok\<close>)
  then show ?thesis using SetAdd assms by (auto simp: set_method_def follows_refl)
next
  case SetHas
  then show ?thesis using assms by (simp add: set_method_def follows_refl)
next
  case SetDelete
  then show ?thesis using assms by (auto simp: set_method_def Let_def follows_refl intro!: follows_elements erase_first_ok)
qed

section \<open>Properties and the plain natives\<close>

lemma map_of_ok: "list_all (\<lambda>p. value_ok obs (snd p)) m \<Longrightarrow> map_of m k = Some v \<Longrightarrow> value_ok obs v"
  by (auto simp: list_all_iff dest!: map_of_SomeD)

lemma property_value_ok: "good s \<Longrightarrow> a < length (js_objects s) \<Longrightarrow> map_of (ob_properties (js_objects s ! a)) k = Some v \<Longrightarrow> val s v"
  by (auto simp: good_def object_ok_def intro: map_of_ok)

lemma chain_property_ok: "good s \<Longrightarrow> a < length (js_objects s) \<Longrightarrow> val s (chain_property n (js_objects s) a k)"
proof (induction n arbitrary: a)
  case 0
  then show ?case by (auto simp: chain_property.simps [of 0] split: option.split intro: property_value_ok)
next
  case (Suc n)
  have "p < length (js_objects s)" if "ob_prototype (js_objects s ! a) = Some p" for p
    using good_object [OF Suc.prems] that Suc.prems(2) by (simp add: object_ok_def object_at_def)
  with Suc show ?case by (auto simp: chain_property.simps [of "Suc n"] split: option.split intro: property_value_ok)
qed

lemma indexed_ok: "list_all (value_ok obs) xs \<Longrightarrow> value_ok obs (indexed xs (\<lambda>v. v) i)"
  by (simp add: indexed_def list_all_length)

lemma pair_if: "pair_ok s p \<Longrightarrow> pair_ok s q \<Longrightarrow> pair_ok s (if c then p else q)"
  by simp

lemma pair_option: "pair_ok s p \<Longrightarrow> (\<And>x. pair_ok s (f x)) \<Longrightarrow> pair_ok s (case m of None \<Rightarrow> p | Some x \<Rightarrow> f x)"
  by (cases m) simp_all

lemma object_property_ok:
  assumes "good s" and "a < length (js_objects s)"
  shows "pair_ok s (object_property a k s)"
proof -
  have inherited: "pair_ok s (get_property_from_chain s a k, s)"
    unfolding get_property_from_chain_def by (intro unchanged_ok chain_property_ok assms)
  have "pair_ok s (indexed (elements_at s a) (\<lambda>v. v) i, s)" for i
    by (intro unchanged_ok indexed_ok good_elements assms)
  with inherited show ?thesis
    unfolding object_property_def Let_def
    by (intro pair_if pair_option unchanged_ok make_native_ok assms(1)) (simp_all add: size_value_def native_ok_def assms(2))
qed

lemma string_property_ok:
  assumes "good s"
  shows "pair_ok s (string_property t k s)"
proof -
  have i: "val s (case index_name k of None \<Rightarrow> VUndefined | Some i \<Rightarrow> indexed t (\<lambda>c. VString [c]) i)"
    by (simp add: indexed_def split: option.split)
  show ?thesis
    unfolding string_property_def
    by (simp add: size_value_def unchanged_ok [OF assms] make_native_ok [OF assms] native_ok_def i del: pair_ok_iff split: option.split)
qed

lemma get_property_ok:
  assumes "good s" and "val s v"
  shows "pair_ok s (get_property v k s)"
proof (cases v)
  case (VNumber x)
  then show ?thesis
    by (auto simp: get_property_def native_ok_def simp del: pair_ok_iff intro!: unchanged_ok make_native_ok assms(1))
next
  case (VObject p)
  then show ?thesis
    using assms by (cases p) (simp_all add: get_property_def unchanged_ok object_property_ok del: pair_ok_iff)
qed (simp_all add: get_property_def unchanged_ok string_property_ok assms(1) del: pair_ok_iff)

lemma set_element_ok: "list_all P vs \<Longrightarrow> P v \<Longrightarrow> P VUndefined \<Longrightarrow> list_all P (set_element i v vs)"
  unfolding set_element_def list_all_iff using set_update_subset_insert by fastforce

lemma set_property_ok: "good s \<Longrightarrow> val s v \<Longrightarrow> returns_only (follows s) (set_property target k v s)"
  by (auto simp: set_property_def follows_refl split: option.split
      intro!: follows_put_property follows_elements set_element_ok)

text \<open>What the host's hooks must keep; a sort may only permute.\<close>

definition host_ok :: "'w host \<Rightarrow> bool" where
  "host_ok h \<longleftrightarrow>
     (\<forall>xs. mset (ho_sort h xs) = mset xs) \<and>
     pred_option (\<lambda>g. \<forall>t s. good s \<longrightarrow> pair_ok s (g t s)) (ho_lookup h) \<and>
     pred_option (\<lambda>g. \<forall>t s. good s \<longrightarrow> pair_ok s (g t s)) (ho_create h) \<and>
     (\<forall>i args s. good s \<longrightarrow> list_all (val s) args \<longrightarrow> pair_ok s (ho_function h i args s))"

lemma element_function_ok:
  "good s \<Longrightarrow> pred_option (\<lambda>g. \<forall>t s. good s \<longrightarrow> pair_ok s (g t s)) f \<Longrightarrow> returns_only (pair_ok s) (element_function f args s)"
  by (auto simp: element_function_def simp del: pair_ok_iff split: option.split intro!: unchanged_ok chain_plain)

lemma current_time_ok: "good s \<Longrightarrow> follows s (snd (current_time_ms h s))"
  by (simp add: current_time_ms_def follows_world split: prod.split)

lemma document_write_ok:
  assumes "good s"
  shows "returns_only (pair_ok s) (document_write h args s)"
proof -
  have step: "returns_only (follows s) (bind_run (to_text t v) (\<lambda>x. Returns (t\<lparr> js_world := f x (js_world t) \<rparr>)))"
    if "follows s t" for f v and t :: "'a js_state"
    by (rule chain_plain) (use that in \<open>auto intro: follows_trans follows_world follows_good\<close>)
  have "returns_only (follows s)
      (case ho_write h of
         None \<Rightarrow> Returns s
       | Some f \<Rightarrow> fold_run (\<lambda>v s. bind_run (to_text s v) (\<lambda>t. Returns (s\<lparr> js_world := f t (js_world s) \<rparr>))) args s)"
    by (cases "ho_write h") (auto simp: follows_refl assms intro!: fold_run_invariant step)
  then show ?thesis
    unfolding document_write_def by (rule returns_only_bind) simp
qed

lemma console_log_ok: "good s \<Longrightarrow> returns_only (pair_ok s) (console_log h args s)"
  unfolding console_log_def by (rule chain_plain) (auto simp: follows_refl follows_world split: option.split)

lemma pair_later: "follows s t \<Longrightarrow> pair_ok t p \<Longrightarrow> pair_ok s p"
  by (auto simp: pair_ok_def intro: follows_trans)

lemma add_listener_ok:
  assumes "good s" and "list_all (val s) args"
  shows "returns_only (pair_ok s) (add_listener a args s)"
proof -
  have g: "follows s (update_elements b (\<lambda>vs. vs @ [args ! 1]) t)" if "follows s t" "2 \<le> length args" for b and t :: "'a js_state"
  proof -
    have "val t (args ! 1)" by (rule val_follows [OF nth_ok [OF assms(2)] that(1)]) (use that(2) in simp)
    then show ?thesis
      by (intro follows_trans [OF that(1)] follows_elements [OF follows_good [OF that(1)]]) simp
  qed
  have n: "follows s (put_property a key (VObject (Some (length (js_objects s)))) (snd (allocate (array_object []) s)))" for key
    using dressed_ok [OF assms(1), of "array_object []" "put_property a key (VObject (Some (length (js_objects s)))) (snd (allocate (array_object []) s))"]
    by (simp add: follows_put_property allocate_def)
  have p: "follows s t \<Longrightarrow> 2 \<le> length args \<Longrightarrow> pair_ok s (VUndefined, update_elements b (\<lambda>vs. vs @ [args ! 1]) t)"
    for b and t :: "'a js_state"
    using g by simp
  show ?thesis
  proof (cases "length args < 2")
    case True
    then show ?thesis by (simp add: add_listener_def unchanged_ok [OF assms(1)] del: pair_ok_iff)
  next
    case False
    then show ?thesis
      unfolding add_listener_def Let_def allocated
      by (auto intro!: chain_plain p n follows_refl assms(1) simp del: pair_ok_iff One_nat_def split: option.split)
  qed
qed

lemma global_function_ok: "good s \<Longrightarrow> returns_only (pair_ok s) (global_function h f args s)"
  by (cases f)
    (auto simp: global_function_def number_or_def follows_refl follows_world split: prod.split
      intro!: chain_plain text_result_ok json_parse_ok)

lemma plain_native_ok:
  assumes h: "host_ok h" and g: "good s" and n: "native_ok (js_objects s) f" and args: "list_all (val s) args"
  shows "returns_only (pair_ok s) (plain_native h f args s)"
proof -
  note a = argument_ok [OF args, of 0]
  have time: "pair_ok s (case current_time_ms h s of (ms, s') \<Rightarrow> make_date_object ms s')"
    "pair_ok s (case current_time_ms h s of (ms, s') \<Rightarrow> (VNumber ms, s'))"
    using current_time_ok [OF g, of h]
    by (auto split: prod.split simp del: pair_ok_iff simp: unchanged_ok follows_good intro!: make_date_object_ok intro: pair_later)
  have made: "pair_ok s (new_value new_object s)" "pair_ok s (new_value (new_object\<lparr> ob_is_map := True \<rparr>) s)"
    "pair_ok s (new_value (new_object\<lparr> ob_is_set := True \<rparr>) s)"
    by (auto intro!: new_value_ok g simp: object_ok_def new_object_def pairs_ok_def)
  have settle: "pair_ok s (VUndefined, settle_promise b r (argument args 0) s)" if "is_promise (js_objects s) b" for b r
    using settle_promise_ok [OF g that a] by simp
  note rules = unchanged_ok [OF g] text_result_ok [OF g] text_test_ok [OF g] console_log_ok [OF g] document_write_ok [OF g]
    add_listener_ok [OF g args] element_function_ok [OF g] global_function_ok [OF g] string_method_ok [OF g]
    make_regexp_ok [OF g] promise_resolve_ok [OF g args] promise_all_ok [OF g args] resolved_promise_ok [OF g a]
    make_date_object_ok [OF g] time made settle plain_array_ok [OF g] regex_exec_ok [OF g]
  show ?thesis
    by (cases f)
      (use n h args g in \<open>auto simp: plain_native_def native_ok_def host_ok_def list_all_iff simp del: pair_ok_iff
        intro!: rules chain_plain promise_then_ok promise_catch_ok array_method_ok map_method_ok set_method_ok
        intro: args [unfolded list_all_iff, rule_format] split: option.split\<close>)
qed

section \<open>Requests\<close>

definition request_ok :: "'w js_state \<Rightarrow> request \<Rightarrow> bool" where
  "request_ok s q =
     (case q of
        DoEvaluate x e \<Rightarrow> e < length (js_envs s)
      | DoExecute x e \<Rightarrow> e < length (js_envs s)
      | DoCall f args this \<Rightarrow> val s f \<and> list_all (val s) args \<and> val s this
      | DoLoop test update body e \<Rightarrow> e < length (js_envs s)
      | DoEach m a b cb i \<Rightarrow> a < length (js_objects s) \<and> b < length (js_objects s) \<and> val s cb
      | DoReduce a cb acc i \<Rightarrow> a < length (js_objects s) \<and> val s cb \<and> val s acc
      | DoDrain guard \<Rightarrow> True)"

definition runner_ok :: "'w runner \<Rightarrow> bool" where
  "runner_ok r \<longleftrightarrow> (\<forall>q s. good s \<longrightarrow> request_ok s q \<longrightarrow> returns_only (out_ok s) (r q s))"

lemma runner_okD: "runner_ok r \<Longrightarrow> good s \<Longrightarrow> request_ok s q \<Longrightarrow> returns_only (out_ok s) (r q s)"
  by (simp add: runner_ok_def)

lemma request_ok_simps [simp]:
  "request_ok s (DoEvaluate x e) = (e < length (js_envs s))"
  "request_ok s (DoExecute x e) = (e < length (js_envs s))"
  "request_ok s (DoCall f args this) = (val s f \<and> list_all (val s) args \<and> val s this)"
  "request_ok s (DoLoop test update body e) = (e < length (js_envs s))"
  "request_ok s (DoEach m a b cb i) = (a < length (js_objects s) \<and> b < length (js_objects s) \<and> val s cb)"
  "request_ok s (DoReduce a cb acc i) = (a < length (js_objects s) \<and> val s cb \<and> val s acc)"
  "request_ok s (DoDrain guard)"
  by (simp_all add: request_ok_def)

text \<open>References of an earlier state, with the step first.\<close>

lemma env_later: "follows s s' \<Longrightarrow> e < length (js_envs s) \<Longrightarrow> e < length (js_envs s')"
  by (rule env_follows)

lemma val_later: "follows s s' \<Longrightarrow> val s v \<Longrightarrow> val s' v"
  by (rule val_follows)

lemma vals_later: "follows s s' \<Longrightarrow> list_all (val s) vs \<Longrightarrow> list_all (val s') vs"
  by (rule vals_follow)

lemma address_later: "follows s s' \<Longrightarrow> a < length (js_objects s) \<Longrightarrow> a < length (js_objects s')"
  by (rule address_follows)

lemma promise_later: "follows s s' \<Longrightarrow> is_promise (js_objects s) a \<Longrightarrow> is_promise (js_objects s') a"
  by (rule promise_follows)

lemmas later = env_later val_later vals_later address_later promise_later

lemma evaluating_ok: "runner_ok r \<Longrightarrow> good s \<Longrightarrow> e < length (js_envs s) \<Longrightarrow> returns_only (pair_ok s) (evaluating r x e s)"
  unfolding evaluating_def by (rule returns_only_bind [OF runner_okD]) auto

lemma calling_ok:
  "runner_ok r \<Longrightarrow> good s \<Longrightarrow> val s f \<Longrightarrow> list_all (val s) args \<Longrightarrow> val s this \<Longrightarrow> returns_only (pair_ok s) (calling r f args this s)"
  unfolding calling_def by (rule returns_only_bind [OF runner_okD]) auto

lemma draining_ok: "runner_ok r \<Longrightarrow> good s \<Longrightarrow> returns_only (follows s) (draining r n s)"
  unfolding draining_def by (rule returns_only_bind [OF runner_okD]) auto

lemma returning_ok: "returns_only (pair_ok s) m \<Longrightarrow> returns_only (out_ok s) (returning m)"
  unfolding returning_def by (erule returns_only_bind) auto

lemma normally_ok: "good s \<Longrightarrow> returns_only (out_ok s) (normally s)"
  by (simp add: normally_def follows_refl)

lemma forget_ok: "returns_only (out_ok s) m \<Longrightarrow> returns_only (pair_ok s) (bind_run m (\<lambda>(t, v, s'). Returns (v, s')))"
  by (erule returns_only_bind) auto

lemma forget_type_ok: "returns_only (out_ok s) m \<Longrightarrow> returns_only (pair_ok s) (bind_run m (\<lambda>(t, p). Returns p))"
  by (erule returns_only_bind) auto

section \<open>Callbacks\<close>

lemma function_of_ok: "val s v \<Longrightarrow> function_of s v = Some a \<Longrightarrow> a < length (js_objects s)"
  by (auto simp: function_of_def value_ok_def split: option.splits if_splits)

lemma make_native_follows:
  assumes "good s" and "native_ok (js_objects s) f" and "make_native f s = (v, s')"
  shows "follows s s'" and "good s'" and "val s' v"
  using make_native_ok [OF assms(1,2)] by (simp_all add: assms(3) follows_def)

lemma settle_ok: "is_promise obs a \<Longrightarrow> native_ok obs (Settle a b)"
  by (simp add: native_ok_def)

lemma promise_constructor_ok:
  assumes "runner_ok r" and "good s" and "list_all (val s) args"
  shows "returns_only (pair_ok s) (promise_constructor r args s)"
proof -
  obtain d s1 where m: "make_promise s = (d, s1)" by (cases "make_promise s")
  note s1 = make_promiseE [OF assms(2) m]
  obtain v s2 where n: "make_native (Settle d False) s1 = (v, s2)" by (cases "make_native (Settle d False) s1")
  note s2 = make_native_follows [OF s1(2) settle_ok [OF s1(3)] n]
  obtain w s3 where k: "make_native (Settle d True) s2 = (w, s3)" by (cases "make_native (Settle d True) s2")
  note s3 = make_native_follows [OF s2(2) settle_ok [OF promise_later [OF s2(1) s1(3)]] k]
  have d: "d < length (js_objects s1)" by (rule promise_address [OF s1(3)])
  show ?thesis
  proof (cases "function_of s1 (argument args 0)")
    case None
    then show ?thesis using d s1 by (simp add: promise_constructor_def m)
  next
    case (Some f)
    then have a: "args \<noteq> []" by (auto simp: argument_def function_of_def object_of_def)
    have c: "val s3 (args ! 0)"
      by (rule val_later [OF follows_trans [OF s1(1) follows_trans [OF s2(1) s3(1)]] nth_ok [OF assms(3)]]) (use a in simp)
    have "returns_only (pair_ok s3) (bind_run (calling r (args ! 0) [v, w] VUndefined s3) (\<lambda>(_, s4). Returns (VObject (Some d), s4)))"
      by (rule chain_pair [OF lifts_pair calling_ok])
        (use assms(1) s2 s3 c d in \<open>auto simp: follows_refl intro: later\<close>)
    then show ?thesis
      using lift [OF lifts_pair follows_trans [OF s1(1) follows_trans [OF s2(1) s3(1)]]]
      by (simp add: promise_constructor_def m n k Some)
  qed
qed

lemma promise_finally_ok:
  assumes "runner_ok r" and "good s" and "list_all (val s) args" and "a < length (js_objects s)"
  shows "returns_only (pair_ok s) (promise_finally r a args s)"
proof (cases "function_of s (argument args 0)")
  case None
  then show ?thesis using assms by (simp add: promise_finally_def follows_refl)
next
  case (Some f)
  then have "args \<noteq> []" by (auto simp: argument_def function_of_def object_of_def)
  with nth_ok [OF assms(3), of 0] have "val s (args ! 0)" by simp
  then show ?thesis
    unfolding promise_finally_def using Some
    by (auto simp: follows_refl intro!: chain_pair [OF lifts_pair calling_ok] assms intro: later assms)
qed

lemma push_ok:
  assumes "good s" and "val s v"
  shows "follows s (update_elements b (\<lambda>vs. vs @ [v]) s)"
  by (rule follows_elements) (use assms in simp_all)

lemma array_each_ok:
  assumes "runner_ok r" and "good s" and "list_all (val s) args" and "a < length (js_objects s)"
  shows "returns_only (pair_ok s) (array_each r m a args s)"
proof -
  let ?s = "snd (allocate (array_object []) s)" and ?b = "length (js_objects s)"
  have f: "follows s ?s" by (rule follows_allocate) (simp_all add: assms)
  have b: "?b < length (js_objects ?s)" by (simp add: allocate_def)
  have "returns_only (pair_ok ?s) (bind_run (r (DoEach m a ?b (args ! 0) 0) ?s) (\<lambda>(_, v, s2). Returns (v, s2)))" if "args \<noteq> []"
    by (rule forget_ok, rule runner_okD [OF assms(1) follows_good [OF f]])
      (use that b assms nth_ok [OF assms(3), of 0] in \<open>auto intro: later f\<close>)
  with f b show ?thesis
    unfolding array_each_def allocated by (auto intro: lift [OF lifts_pair f])
qed

lemma each_step_ok:
  assumes r: "runner_ok r" and g: "good s" and a: "a < length (js_objects s)" and b: "b < length (js_objects s)" and cb: "val s cb"
  shows "returns_only (out_ok s) (each_step r m a b cb i s)"
proof (cases "length (elements_at s a) \<le> i")
  case True
  then show ?thesis using g b by (simp add: each_step_def follows_refl)
next
  case False
  have next_round: "returns_only (out_ok s1) (r (DoEach k a b cb (Suc i)) t)" if "follows s s1" "follows s1 t" for s1 t k
    by (rule lift [OF lifts_out that(2)], rule runner_okD [OF r follows_good [OF that(2)]])
      (use a b cb follows_trans [OF that] in \<open>auto intro: later\<close>)
  have e: "val s (elements_at s a ! i)" using good_elements [OF g a] False by (auto intro: nth_ok)
  have e1: "val s1 (elements_at s1 a ! i)" if "follows s s1" "i < length (elements_at s1 a)" for s1
    by (rule nth_ok [OF good_elements [OF follows_good [OF that(1)] address_later [OF that(1) a]] that(2)])
  have pushed: "returns_only (out_ok s1) (r (DoEach k a b cb (Suc i)) (update_elements b (\<lambda>vs. vs @ [v]) s1))"
    if "follows s s1" "val s1 v" for s1 k v
    by (rule next_round [OF that(1) push_ok [OF follows_good [OF that(1)] that(2)]])
  have call: "returns_only (pair_ok s) (calling r cb [elements_at s a ! i, VNumber (double_of (int i))] VUndefined s)"
    by (rule calling_ok [OF r g cb]) (simp_all add: e)
  show ?thesis
    unfolding each_step_def using False
    by (auto simp: not_le intro!: chain_pair [OF lifts_out call] pushed e1 next_round [OF _ follows_refl])
qed

lemma array_reduce_ok:
  assumes "runner_ok r" and "good s" and "list_all (val s) args" and "a < length (js_objects s)"
  shows "returns_only (pair_ok s) (array_reduce r a args s)"
proof -
  have "val s (elements_at s a ! 0)" if "elements_at s a \<noteq> []"
    using nth_ok [OF good_elements [OF assms(2,4)], of 0] that by simp
  moreover have "val s (args ! i)" if "i < length args" for i
    using nth_ok [OF assms(3) that] .
  ultimately show ?thesis
    unfolding array_reduce_def
    by (auto simp: follows_refl assms not_less intro!: forget_type_ok runner_okD [OF assms(1,2)])
qed

lemma reduce_step_ok:
  assumes r: "runner_ok r" and g: "good s" and a: "a < length (js_objects s)" and cb: "val s cb" and acc: "val s acc"
  shows "returns_only (out_ok s) (reduce_step r a cb acc i s)"
proof (cases "length (elements_at s a) \<le> i")
  case True
  then show ?thesis using g acc by (simp add: reduce_step_def follows_refl)
next
  case False
  have e: "val s (elements_at s a ! i)" using good_elements [OF g a] False by (auto intro: nth_ok)
  have call: "returns_only (pair_ok s) (calling r cb [acc, elements_at s a ! i, VNumber (double_of (int i))] VUndefined s)"
    by (rule calling_ok [OF r g cb]) (simp_all add: e acc)
  show ?thesis
    unfolding reduce_step_def using False
    by (auto intro!: chain_pair [OF lifts_out call] runner_okD [OF r]) (blast intro: later a cb)+
qed

lemma call_native_ok:
  assumes "host_ok h" and "runner_ok r" and "good s" and "native_ok (js_objects s) f" and "list_all (val s) args"
  shows "returns_only (pair_ok s) (call_native h r f args s)"
proof (cases f)
  case (PromiseFinally a)
  then show ?thesis
    using assms by (simp add: call_native_def native_ok_def promise_address promise_finally_ok)
next
  case (ArrayMethod m a)
  with assms have a: "a < length (js_objects s)" by (simp add: native_ok_def)
  have "returns_only (pair_ok s) (array_method h m a args s)"
    by (rule array_method_ok) (use assms a in \<open>simp_all add: host_ok_def\<close>)
  then show ?thesis
    using ArrayMethod assms a by (simp add: call_native_def array_each_ok array_reduce_ok)
qed (use assms in \<open>simp_all add: call_native_def promise_constructor_ok plain_native_ok\<close>)

section \<open>Calls and microtasks\<close>

lemma bind_parameters_ok:
  assumes "good s" and "list_all (val s) args"
  shows "follows s (bind_parameters e ps args s)"
proof -
  have "follows s (fold (\<lambda>i. declare_variable e (ps ! i) (argument args i)) is t)" if "follows s t" for "is" and t :: "'a js_state"
    using that
  proof (induction "is" arbitrary: t)
    case (Cons i "is")
    have "follows t (declare_variable e (ps ! i) (argument args i) t)"
      by (rule follows_declare [OF follows_good [OF Cons.prems]], rule argument_ok, rule vals_later [OF Cons.prems assms(2)])
    from follows_trans [OF Cons.prems this] show ?case by (simp add: Cons.IH)
  qed simp
  from this [OF follows_refl [OF assms(1)]] show ?thesis by (simp add: bind_parameters_def)
qed

lemma call_environment_ok:
  assumes "good s" and "list_all (val s) args" and "val s this" and "pred_option (\<lambda>c. c < length (js_envs s)) (ob_closure ob)"
    and "call_environment ob args this s = (e, s')"
  shows "follows s s'" and "good s'" and "e < length (js_envs s')"
proof -
  let ?p = "Some (case ob_closure ob of None \<Rightarrow> js_globals s | Some c \<Rightarrow> c)" and ?e = "length (js_envs s)"
  let ?s = "snd (extend_env ?p s)"
  let ?t = "declare_variable ?e ''this'' this ?s"
  have s: "follows s ?s"
    by (rule follows_extend) (use assms(1,4) in \<open>auto simp: good_globals split: option.split\<close>)
  have t: "follows ?s ?t" by (rule follows_declare [OF follows_good [OF s] val_later [OF s assms(3)]])
  have st: "follows s ?t" by (rule follows_trans [OF s t])
  have u: "follows ?t (bind_parameters ?e (ob_parameters ob) args ?t)"
    by (rule bind_parameters_ok [OF follows_good [OF st] vals_later [OF st assms(2)]])
  have r: "e = ?e" "s' = bind_parameters ?e (ob_parameters ob) args ?t"
    using assms(5) by (auto simp: call_environment_def extend_env_def)
  show f: "follows s s'" unfolding r(2) by (rule follows_trans [OF st u])
  show "good s'" by (rule follows_good [OF f])
  have "?e < length (js_envs ?s)" by (simp add: extend_env_def)
  then show "e < length (js_envs s')" unfolding r by (rule env_later [OF follows_trans [OF t u]])
qed

lemma finish_call_ok: "good s \<Longrightarrow> val s v \<Longrightarrow> pair_ok s (finish_call b t v s)"
  by (simp add: finish_call_def Let_def unchanged_ok resolved_promise_ok del: pair_ok_iff)

lemma call_function_ok:
  assumes h: "host_ok h" and r: "runner_ok r" and g: "good s" and a: "a < length (js_objects s)"
    and args: "list_all (val s) args" and self: "val s this"
  shows "returns_only (pair_ok s) (call_function h r a args this recheck s)"
proof (cases "ob_native (object_at s a)")
  case (Some f)
  with good_object [OF g a] have "native_ok (js_objects s) f" by (simp add: object_ok_def)
  then show ?thesis by (simp add: call_function_def Some call_native_ok [OF h r g _ args])
next
  case None
  have "pred_option (\<lambda>c. c < length (js_envs s)) (ob_closure (object_at s a))"
    using good_object [OF g a] by (simp add: object_ok_def)
  moreover obtain e s1 where e: "call_environment (object_at s a) args this s = (e, s1)"
    by (cases "call_environment (object_at s a) args this s")
  ultimately have s1: "follows s s1" "good s1" "e < length (js_envs s1)"
    using call_environment_ok [OF g args self] by blast+
  have "returns_only (pair_ok s1) (bind_run (r (DoExecute b e) s1) (\<lambda>(t, v, s2).
      bind_run (recheck s2) (\<lambda>is_async. Returns (finish_call is_async t v s2))))" for b
    by (rule chain_out [OF lifts_pair runner_okD [OF r s1(2)]])
      (auto simp: s1(3) intro!: chain_plain finish_call_ok simp del: pair_ok_iff)
  with pair_later [OF s1(1) finish_call_ok [OF s1(2), of VUndefined]] show ?thesis
    by (auto simp: call_function_def Let_def None e simp del: pair_ok_iff split: option.split intro: lift [OF lifts_pair s1(1)])
qed

lemma call_value_ok:
  assumes "host_ok h" and "runner_ok r" and "good s" and "val s f" and "list_all (val s) args" and "val s this"
  shows "returns_only (pair_ok s) (call_value h r f args this recheck s)"
  unfolding call_value_def
  by (auto split: option.split simp: follows_fail assms intro!: call_function_ok assms function_of_ok [OF assms(4)])

lemma run_promise_handler_ok:
  assumes r: "runner_ok r" and g: "good s" and d: "is_promise (js_objects s) d" and k: "val s handler" and v: "val s v"
  shows "returns_only (follows s) (run_promise_handler r d handler b v s)"
proof (cases "function_of s handler")
  case None
  then show ?thesis by (simp add: run_promise_handler_def settle_promise_ok g d v)
next
  case (Some f)
  have linked: "follows s1 (case make_native (Settle d False) s1 of (fulfill, s2) \<Rightarrow>
       case make_native (Settle d True) s2 of (reject, s3) \<Rightarrow> add_handlers c (fulfill, reject) s3)"
    if s1: "follows s s1" "good s1" "is_promise (js_objects s1) c" "pr_status (promise_data_at s1 c) = Pending" for s1 c
  proof -
    obtain x s2 where n: "make_native (Settle d False) s1 = (x, s2)" by (cases "make_native (Settle d False) s1")
    note s2 = make_native_follows [OF s1(2) settle_ok [OF promise_later [OF s1(1) d]] n]
    obtain y s3 where m: "make_native (Settle d True) s2 = (y, s3)" by (cases "make_native (Settle d True) s2")
    note s3 = make_native_follows [OF s2(2) settle_ok [OF promise_later [OF follows_trans [OF s1(1) s2(1)] d]] m]
    have "promise_data_at s3 c = promise_data_at s1 c"
      using n m promise_address [OF s1(3)]
      by (auto simp: make_native_def allocate_def promise_data_at_def object_at_def nth_append)
    then have "follows s3 (add_handlers c (x, y) s3)"
      using s1(4) by (intro add_handlers_ok) (auto simp: s3 intro: val_later [OF s3(1) s2(3)])
    with s2(1) s3(1) show ?thesis by (simp add: n m) (blast intro: follows_trans)
  qed
  have call: "returns_only (pair_ok s) (calling r handler [v] VUndefined s)"
    by (rule calling_ok [OF r g k]) (simp_all add: v)
  have rest: "returns_only (follows s1) (case promise_of s1 w of
          None \<Rightarrow> Returns (settle_promise d False w s1)
        | Some (c, p) \<Rightarrow>
            if pr_status p = Pending then
              (case make_native (Settle d False) s1 of (fulfill, s2) \<Rightarrow>
               case make_native (Settle d True) s2 of (reject, s3) \<Rightarrow> Returns (add_handlers c (fulfill, reject) s3))
            else Returns (settle_promise d (pr_status p = Rejected) (pr_value p) s1))"
    if s1: "follows s s1" "good s1" "val s1 w" for w s1
  proof (cases "promise_of s1 w")
    case None
    then show ?thesis using s1 by (simp add: settle_promise_ok promise_later [OF s1(1) d])
  next
    case (Some q)
    obtain c p where q: "q = (c, p)" by (cases q)
    note p = promise_of_ok [OF s1(2,3) Some [unfolded q]]
    show ?thesis
      using linked [OF s1(1,2) p(1)] p settle_promise_ok [OF s1(2) promise_later [OF s1(1) d] p(3)]
      by (auto simp: Some q split: prod.splits)
  qed
  show ?thesis
    unfolding run_promise_handler_def using Some by (simp add: chain_pair [OF lifts_follows call] rest)
qed

lemma drain_step_ok:
  assumes r: "runner_ok r" and g: "good s"
  shows "returns_only (out_ok s) (drain_step r guard s)"
proof (cases "js_microtasks s")
  case Nil
  then show ?thesis by (simp add: drain_step_def normally_ok g)
next
  case (Cons t ts)
  have f: "follows s (s\<lparr> js_microtasks := ts \<rparr>)"
    using g by (simp add: follows_def good_def evolves_def object_at_def Cons)
  have t: "task_ok (js_objects s) t" using g by (simp add: good_def Cons)
  have "returns_only (follows (s\<lparr> js_microtasks := ts \<rparr>))
      (run_promise_handler r (mt_derived t) (mt_handler t) (mt_rejected t) (mt_value t) (s\<lparr> js_microtasks := ts \<rparr>))"
    using t by (intro run_promise_handler_ok [OF r follows_good [OF f]]) (simp_all add: task_ok_def)
  then have "returns_only (out_ok (s\<lparr> js_microtasks := ts \<rparr>))
      (bind_run (run_promise_handler r (mt_derived t) (mt_handler t) (mt_rejected t) (mt_value t) (s\<lparr> js_microtasks := ts \<rparr>))
         (\<lambda>s1. r (DoDrain (guard + 1)) s1))"
    by (rule chain_state [OF lifts_out]) (simp add: runner_okD [OF r])
  with f show ?thesis
    by (simp add: drain_step_def Cons normally_ok g lift [OF lifts_out f])
qed

section \<open>Expressions\<close>

lemma evaluate_list_ok:
  "runner_ok r \<Longrightarrow> good s \<Longrightarrow> e < length (js_envs s) \<Longrightarrow> returns_only (list_ok s) (evaluate_list r xs e s)"
proof (induction xs arbitrary: s)
  case Nil
  then show ?case by (simp add: follows_refl)
next
  case (Cons x xs)
  show ?case
    unfolding evaluate_list.simps
  proof (rule chain_pair [OF lifts_list evaluating_ok [OF Cons.prems]])
    fix v s1
    assume 1: "follows s s1" "good s1" "val s1 v"
    show "returns_only (list_ok s1) (bind_run (evaluate_list r xs e s1) (\<lambda>(vs, s2). Returns (v # vs, s2)))"
      by (rule chain_list [OF lifts_list Cons.IH [OF Cons.prems(1) 1(2) env_later [OF 1(1) Cons.prems(3)]]])
        (use 1 in \<open>auto simp: follows_refl intro: val_later\<close>)
  qed
qed

lemma evaluate_members_ok:
  "runner_ok r \<Longrightarrow> good s \<Longrightarrow> e < length (js_envs s) \<Longrightarrow> returns_only (follows s) (evaluate_members r a ms e s)"
proof (induction ms arbitrary: s)
  case Nil
  then show ?case by (simp add: follows_refl)
next
  case (Cons m ms)
  obtain k x where m: "m = (k, x)" by (cases m)
  show ?case
    unfolding m evaluate_members.simps
  proof (rule chain_pair [OF lifts_follows evaluating_ok [OF Cons.prems]])
    fix v s1
    assume 1: "follows s s1" "good s1" "val s1 v"
    have f: "follows s1 (put_property a k v s1)" by (rule follows_put_property [OF 1(2,3)])
    show "returns_only (follows s1) (evaluate_members r a ms e (put_property a k v s1))"
      by (rule lift [OF lifts_follows f], rule Cons.IH [OF Cons.prems(1) follows_good [OF f]])
        (rule env_later [OF follows_trans [OF 1(1) f] Cons.prems(3)])
  qed
qed

lemma variable_value_ok:
  assumes "good s" and "e < length (js_envs s)" and "find_variable s e x = Some f"
  shows "val s (variable_value s f x)"
proof -
  have "find_from n (js_envs s) e x = Some f \<Longrightarrow> e < length (js_envs s) \<Longrightarrow>
      f < length (js_envs s) \<and> x \<in> dom (en_variables (js_envs s ! f))" for n
  proof (induction n arbitrary: e)
    case 0
    then show ?case by (auto simp: find_from.simps [of 0] split: if_splits option.splits)
  next
    case (Suc n)
    have "p < length (js_envs s)" if "en_parent (js_envs s ! e) = Some p" for p
      using assms(1) Suc.prems(2) that by (auto simp: good_def env_ok_def)
    with Suc show ?case by (auto simp: find_from.simps [of "Suc n"] split: if_splits option.splits)
  qed
  with assms have "f < length (js_envs s)" "x \<in> dom (en_variables (js_envs s ! f))" by (auto simp: find_variable_def)
  moreover from this(1) assms(1) have "\<forall>v\<in>ran (en_variables (js_envs s ! f)). val s v" by (simp add: good_def env_ok_def)
  ultimately show ?thesis by (auto simp: variable_value_def ran_def)
qed

lemma evaluate_identifier_ok: "good s \<Longrightarrow> e < length (js_envs s) \<Longrightarrow> pair_ok s (evaluate_identifier x e s)"
  by (auto simp: evaluate_identifier_def follows_refl follows_fail split: option.split intro: variable_value_ok)

lemma make_function_ok:
  assumes "good s" and "e < length (js_envs s)" and "make_function x e s = (a, s')"
  shows "follows s s'" and "good s'" and "a < length (js_objects s')"
proof -
  let ?s = "snd (allocate (function_object (js_object_prototype s) x e) s)" and ?a = "length (js_objects s)"
  let ?ob = "new_object\<lparr> ob_prototype := Some (js_object_prototype s) \<rparr>"
  let ?t = "snd (allocate ?ob ?s)"
  have p: "js_object_prototype s < ?a" by (rule good_globals(2) [OF assms(1)])
  have s: "follows s ?s"
    by (rule follows_allocate [OF assms(1)])
      (use assms p in \<open>simp add: function_object_def object_ok_def new_object_def pairs_ok_def split: prod.split\<close>)
  have t: "follows ?s ?t"
    by (rule follows_allocate [OF follows_good [OF s]])
      (use p in \<open>simp add: object_ok_def new_object_def pairs_ok_def allocate_def\<close>)
  have "Suc ?a < length (js_objects ?t)" by (simp add: allocate_def)
  then have u: "follows ?t (put_property ?a ''prototype'' (VObject (Some (Suc ?a))) ?t)"
    by (intro follows_put_property follows_good [OF t]) simp
  have r: "a = ?a" "s' = put_property ?a ''prototype'' (VObject (Some (Suc ?a))) ?t"
    using assms(3) by (auto simp: make_function_def allocate_def)
  show f: "follows s s'" unfolding r(2) by (rule follows_trans [OF follows_trans [OF s t] u])
  show "good s'" by (rule follows_good [OF f])
  have "?a < length (js_objects ?s)" by (simp add: allocate_def)
  then show "a < length (js_objects s')" unfolding r by (rule address_later [OF follows_trans [OF t u]])
qed

lemma function_value_ok:
  "good s \<Longrightarrow> e < length (js_envs s) \<Longrightarrow> returns_only (pair_ok s) (case make_function x e s of (a, s1) \<Rightarrow> Returns (VObject (Some a), s1))"
  using make_function_ok [of s e x] by (auto split: prod.split)

lemma evaluate_class_ok:
  assumes "good s" and "e < length (js_envs s)"
  shows "pair_ok s (evaluate_class ctor methods e s)"
proof -
  obtain a s1 where m: "make_function ctor e s = (a, s1)" by (cases "make_function ctor e s")
  note s1 = make_function_ok [OF assms m]
  let ?step = "\<lambda>(k, m) s. case make_function (Some m) e s of (f, s') \<Rightarrow> put_property (Suc a) k (VObject (Some f)) s'"
  have "follows s1 (fold ?step ms t)" if "follows s1 t" for ms and t :: "'a js_state"
    using that
  proof (induction ms arbitrary: t)
    case (Cons p ms)
    obtain k x where p: "p = (k, x)" by (cases p)
    obtain f u where u: "make_function (Some x) e t = (f, u)" by (cases "make_function (Some x) e t")
    note u' = make_function_ok [OF follows_good [OF Cons.prems] env_later [OF follows_trans [OF s1(1) Cons.prems] assms(2)] u]
    have "follows s1 (put_property (Suc a) k (VObject (Some f)) u)"
      by (rule later_property [OF follows_trans [OF Cons.prems u'(1)]]) (simp add: u'(3))
    then show ?case by (simp add: p u Cons.IH)
  qed simp
  from this [OF follows_refl [OF s1(2)], of methods] show ?thesis
    using s1 by (auto simp: evaluate_class_def m intro: follows_trans later)
qed

lemma evaluate_await_ok:
  assumes r: "runner_ok r" and g: "good s" and e: "e < length (js_envs s)"
  shows "returns_only (pair_ok s) (evaluate_await r x e s)"
  unfolding evaluate_await_def
proof (rule chain_pair [OF lifts_pair evaluating_ok [OF r g e]])
  fix v s1
  assume 1: "follows s s1" "good s1" "val s1 v"
  show "returns_only (pair_ok s1) (bind_run (draining r 0 s1) (\<lambda>s2.
       case promise_of s2 v of
         None \<Rightarrow> Returns (v, s2)
       | Some (a, p) \<Rightarrow>
           Returns (pr_value p, if pr_status p = Rejected then js_fail ''unhandled promise rejection'' s2 else s2)))"
  proof (rule chain_state [OF lifts_pair draining_ok [OF r 1(2)]])
    fix s2
    assume 2: "follows s1 s2" "good s2"
    have v: "val s2 v" by (rule val_later [OF 2(1) 1(3)])
    show "returns_only (pair_ok s2) (case promise_of s2 v of
         None \<Rightarrow> Returns (v, s2)
       | Some (a, p) \<Rightarrow>
           Returns (pr_value p, if pr_status p = Rejected then js_fail ''unhandled promise rejection'' s2 else s2))"
      using promise_of_ok(3) [OF 2(2) v]
      by (auto split: option.split simp: follows_refl 2(2) v intro: follows_fail val_later [OF follows_fail])
  qed
qed

lemma evaluate_step_ok: "good s \<Longrightarrow> pair_ok s (evaluate_step x d e s)"
  by (auto simp: evaluate_step_def Let_def follows_fail follows_declare split: option.split)

lemma evaluate_unary_ok:
  assumes "runner_ok r" and "good s" and "e < length (js_envs s)"
  shows "returns_only (pair_ok s) (evaluate_unary r op x e s)"
proof -
  have u: "pair_ok s (VUndefined, s)" by (rule unchanged_ok [OF assms(2)]) simp
  have other: "pair_ok s (case x of
          Identifier y \<Rightarrow>
            if op = ''++'' then evaluate_step y (Num 1) e s
            else if op = ''--'' then evaluate_step y (Num (- 1)) e s
            else (VUndefined, s)
        | _ \<Rightarrow> (VUndefined, s))"
    by (cases x) (simp_all add: u evaluate_step_ok [OF assms(2)] del: pair_ok_iff)
  have read: "returns_only (pair_ok s) (bind_run (evaluating r x e s) (\<lambda>(v, s1). Returns (f v s1, s1)))"
    if "\<And>v s1. val s1 (f v s1)" for f
    by (rule chain_pair [OF lifts_pair evaluating_ok [OF assms]]) (simp add: follows_refl that)
  show ?thesis
    unfolding evaluate_unary_def
    by (simp add: evaluate_await_ok [OF assms] read other del: pair_ok_iff)
qed

lemma member_name_ok:
  assumes "runner_ok r" and "good s" and "e < length (js_envs s)"
  shows "returns_only (with_ok s) (member_name r k y e s)"
proof (cases y)
  case None
  then show ?thesis by (simp add: member_name_def follows_refl assms)
next
  case (Some z)
  have "returns_only (with_ok s) (bind_run (evaluating r z e s) (\<lambda>(v, s1). bind_run (to_text s1 v) (\<lambda>t. Returns (t, s1))))"
    by (rule chain_pair [OF lifts_with evaluating_ok [OF assms]], rule chain_plain) (simp add: follows_refl)
  then show ?thesis by (simp add: member_name_def Some)
qed

lemma store_to_ok:
  assumes r: "runner_ok r" and g: "good s" and e: "e < length (js_envs s)" and v: "val s v"
  shows "returns_only (follows s) (store_to r target v e s)"
proof (cases target)
  case (Identifier x)
  then show ?thesis by (simp add: store_to_def assign_variable_def follows_declare g v)
next
  case (Member x k y)
  have "returns_only (follows s) (bind_run (evaluating r x e s) (\<lambda>(ob, s1).
      bind_run (member_name r k y e s1) (\<lambda>(name, s2). set_property ob name v s2)))"
  proof (rule chain_pair [OF lifts_follows evaluating_ok [OF r g e]])
    fix ob s1
    assume 1: "follows s s1" "good s1" "val s1 ob"
    show "returns_only (follows s1) (bind_run (member_name r k y e s1) (\<lambda>(name, s2). set_property ob name v s2))"
      by (rule chain_with [OF lifts_follows member_name_ok [OF r 1(2) env_later [OF 1(1) e]]])
        (blast intro: set_property_ok later v 1)
  qed
  then show ?thesis by (simp add: store_to_def Member)
qed (simp_all add: store_to_def follows_refl g)

lemma evaluate_binary_ok: "evaluate_binary op a b s = Returns v \<Longrightarrow> value_ok obs v"
  by (auto simp: evaluate_binary_def bind_run_Returns_iff split: if_splits)

lemma evaluate_assignment_ok:
  assumes r: "runner_ok r" and g: "good s" and e: "e < length (js_envs s)"
  shows "returns_only (pair_ok s) (evaluate_assignment r op target x e s)"
  unfolding evaluate_assignment_def
proof (rule chain_pair [OF lifts_pair evaluating_ok [OF r g e]])
  fix v s1
  assume 1: "follows s s1" "good s1" "val s1 v"
  note e1 = env_later [OF 1(1) e]
  have w: "returns_only (pair_ok s1) (if op = ''='' then Returns (v, s1)
      else bind_run (evaluating r target e s1) (\<lambda>(current, s2).
        bind_run (evaluate_binary (take 1 op) current v s2) (\<lambda>w. Returns (w, s2))))"
  proof (cases "op = ''=''")
    case False
    have "returns_only (pair_ok s1) (bind_run (evaluating r target e s1) (\<lambda>(current, s2).
        bind_run (evaluate_binary (take 1 op) current v s2) (\<lambda>w. Returns (w, s2))))"
      by (rule chain_pair [OF lifts_pair evaluating_ok [OF r 1(2) e1]], rule chain_plain)
        (auto simp: follows_refl intro: evaluate_binary_ok)
    with False show ?thesis by simp
  qed (simp add: 1 follows_refl)
  show "returns_only (pair_ok s1) (bind_run (if op = ''='' then Returns (v, s1)
      else bind_run (evaluating r target e s1) (\<lambda>(current, s2).
        bind_run (evaluate_binary (take 1 op) current v s2) (\<lambda>w. Returns (w, s2))))
      (\<lambda>(w, s3). bind_run (store_to r target w e s3) (\<lambda>s4. Returns (w, s4))))"
  proof (rule chain_pair [OF lifts_pair w])
    fix w s3
    assume 3: "follows s1 s3" "good s3" "val s3 w"
    show "returns_only (pair_ok s3) (bind_run (store_to r target w e s3) (\<lambda>s4. Returns (w, s4)))"
      by (rule chain_state [OF lifts_pair store_to_ok [OF r 3(2) env_later [OF 3(1) e1] 3(3)]])
        (auto simp: follows_refl intro: val_later 3(3))
  qed
qed

lemma evaluate_member_ok:
  assumes r: "runner_ok r" and g: "good s" and e: "e < length (js_envs s)"
  shows "returns_only (member_ok s) (evaluate_member r x k y e s)"
  unfolding evaluate_member_def
proof (rule chain_pair [OF lifts_member evaluating_ok [OF r g e]])
  fix ob s1
  assume 1: "follows s s1" "good s1" "val s1 ob"
  show "returns_only (member_ok s1) (bind_run (member_name r k y e s1) (\<lambda>(name, s2).
       case get_property ob name s2 of (v, s3) \<Rightarrow> Returns (ob, v, s3)))"
  proof (rule chain_with [OF lifts_member member_name_ok [OF r 1(2) env_later [OF 1(1) e]]])
    fix name s2
    assume 2: "follows s1 s2" "good s2"
    from get_property_ok [OF 2(2) val_later [OF 2(1) 1(3)], of name]
    have "follows s2 (snd (get_property ob name s2))" "val (snd (get_property ob name s2)) (fst (get_property ob name s2))"
      by (simp_all add: pair_ok_def)
    then show "returns_only (member_ok s2) (case get_property ob name s2 of (v, s3) \<Rightarrow> Returns (ob, v, s3))"
      using val_later [OF _ val_later [OF 2(1) 1(3)]] by (cases "get_property ob name s2") simp
  qed
qed

lemma evaluate_callee_ok:
  assumes "runner_ok r" and "good s" and "e < length (js_envs s)"
  shows "returns_only (member_ok s) (evaluate_callee r f e s)"
  unfolding evaluate_callee_def
  by (cases f) (auto simp: evaluate_member_ok assms follows_refl intro!: chain_pair [OF lifts_member evaluating_ok [OF assms]])

lemma evaluate_call_ok:
  assumes r: "runner_ok r" and g: "good s" and e: "e < length (js_envs s)"
  shows "returns_only (pair_ok s) (evaluate_call r f xs e s)"
  unfolding evaluate_call_def
proof (rule chain_member [OF lifts_pair evaluate_callee_ok [OF r g e]])
  fix self callee s1
  assume 1: "follows s s1" "good s1" "val s1 self" "val s1 callee"
  show "returns_only (pair_ok s1) (bind_run (evaluate_list r xs e s1) (\<lambda>(args, s2). calling r callee args self s2))"
    by (rule chain_list [OF lifts_pair evaluate_list_ok [OF r 1(2) env_later [OF 1(1) e]]])
      (blast intro: calling_ok r val_later 1)
qed

lemma instance_object_ok:
  "good s \<Longrightarrow> val s proto \<Longrightarrow> object_ok (js_objects s) (length (js_envs s)) (length (js_objects s)) (instance_object proto s)"
  by (auto simp: instance_object_def object_ok_def new_object_def pairs_ok_def value_ok_def good_globals split: option.split)

lemma evaluate_new_ok:
  assumes r: "runner_ok r" and g: "good s" and e: "e < length (js_envs s)"
  shows "returns_only (pair_ok s) (evaluate_new r f xs e s)"
  unfolding evaluate_new_def
proof (rule chain_pair [OF lifts_pair evaluating_ok [OF r g e]])
  fix ctor s1
  assume 1: "follows s s1" "good s1" "val s1 ctor"
  show "returns_only (pair_ok s1) (bind_run (evaluate_list r xs e s1) (\<lambda>(args, s2).
       case get_property ctor ''prototype'' s2 of (proto, s3) \<Rightarrow>
       case new_value (instance_object proto s3) s3 of (this, s4) \<Rightarrow>
         bind_run (calling r ctor args this s4) (\<lambda>(v, s5). Returns (if object_of v = None then this else v, s5))))"
  proof (rule chain_list [OF lifts_pair evaluate_list_ok [OF r 1(2) env_later [OF 1(1) e]]])
    fix args s2
    assume 2: "follows s1 s2" "good s2" "list_all (val s2) args"
    have c2: "val s2 ctor" by (rule val_later [OF 2(1) 1(3)])
    obtain proto s3 where p: "get_property ctor ''prototype'' s2 = (proto, s3)" by (cases "get_property ctor ''prototype'' s2")
    have 3: "follows s2 s3" "val s3 proto" using get_property_ok [OF 2(2) c2, of "''prototype''"] by (simp_all add: p)
    note g3 = follows_good [OF 3(1)]
    obtain self s4 where n: "new_value (instance_object proto s3) s3 = (self, s4)" by (cases "new_value (instance_object proto s3) s3")
    have 4: "follows s3 s4" "val s4 self" using new_value_ok [OF g3 instance_object_ok [OF g3 3(2)]] by (simp_all add: n)
    note s4 = follows_trans [OF 3(1) 4(1)]
    have "returns_only (pair_ok s4) (bind_run (calling r ctor args self s4)
        (\<lambda>(v, s5). Returns (if object_of v = None then self else v, s5)))"
      by (rule chain_pair [OF lifts_pair calling_ok [OF r follows_good [OF s4] val_later [OF s4 c2] vals_later [OF s4 2(3)] 4(2)]])
        (auto simp: follows_refl intro: val_later [OF _ 4(2)])
    from lift [OF lifts_pair s4 this]
    show "returns_only (pair_ok s2) (case get_property ctor ''prototype'' s2 of (proto, s3) \<Rightarrow>
       case new_value (instance_object proto s3) s3 of (this, s4) \<Rightarrow>
         bind_run (calling r ctor args this s4) (\<lambda>(v, s5). Returns (if object_of v = None then this else v, s5)))"
      by (simp add: p n)
  qed
qed

lemma evaluate_binary_node_ok:
  assumes r: "runner_ok r" and g: "good s" and e: "e < length (js_envs s)"
  shows "returns_only (pair_ok s) (bind_run (evaluating r y e s) (\<lambda>(v, s1).
     bind_run (evaluating r z e s1) (\<lambda>(w, s2). bind_run (evaluate_binary op v w s2) (\<lambda>u. Returns (u, s2)))))"
proof (rule chain_pair [OF lifts_pair evaluating_ok [OF r g e]])
  fix v s1
  assume 1: "follows s s1" "good s1"
  show "returns_only (pair_ok s1) (bind_run (evaluating r z e s1) (\<lambda>(w, s2). bind_run (evaluate_binary op v w s2) (\<lambda>u. Returns (u, s2))))"
    by (rule chain_pair [OF lifts_pair evaluating_ok [OF r 1(2) env_later [OF 1(1) e]]], rule chain_plain)
      (auto simp: follows_refl intro: evaluate_binary_ok)
qed

lemma evaluate_literal_ok:
  assumes r: "runner_ok r" and g: "good s" and e: "e < length (js_envs s)"
  shows "returns_only (pair_ok s) (case allocate (new_object\<lparr> ob_prototype := Some (js_object_prototype s) \<rparr>) s of (a, s1) \<Rightarrow>
     bind_run (evaluate_members r a ms e s1) (\<lambda>s2. Returns (VObject (Some a), s2)))"
proof -
  let ?ob = "new_object\<lparr> ob_prototype := Some (js_object_prototype s) \<rparr>"
  have f: "follows s (snd (allocate ?ob s))"
    by (rule follows_allocate [OF g]) (simp add: object_ok_def new_object_def pairs_ok_def good_globals(2) [OF g])
  have a: "length (js_objects s) < length (js_objects (snd (allocate ?ob s)))" by (simp add: allocate_def)
  show ?thesis
    unfolding allocated
    by (rule lift [OF lifts_pair f],
        rule chain_state [OF lifts_pair evaluate_members_ok [OF r follows_good [OF f] env_later [OF f e]]])
      (simp add: follows_refl address_later [OF _ a])
qed

lemma evaluate_ok:
  assumes h: "host_ok h" and r: "runner_ok r" and g: "good s" and e: "e < length (js_envs s)"
  shows "returns_only (pair_ok s) (evaluate h r x e s)"
proof (cases "js_error s")
  case (Some m)
  then show ?thesis by (simp add: evaluate_def follows_refl g)
next
  case None
  have rest: "returns_only (pair_ok s1) (evaluating r z e s1)" if "follows s s1" "good s1" for z s1
    by (rule evaluating_ok [OF r that(2) env_later [OF that(1) e]])
  note node = chain_pair [OF lifts_pair evaluating_ok [OF r g e]]
  have member: "returns_only (pair_ok s) (bind_run (evaluate_member r y k z e s) (\<lambda>(ob, p). Returns p))" for y k z
    by (rule returns_only_bind [OF evaluate_member_ok [OF r g e]]) auto
  show ?thesis
    unfolding evaluate_def
    by (cases x)
      (auto simp: None follows_refl g evaluate_unary_ok [OF r g e] evaluate_assignment_ok [OF r g e] evaluate_call_ok [OF r g e]
        evaluate_new_ok [OF r g e] evaluate_binary_node_ok [OF r g e] evaluate_literal_ok [OF r g e] function_value_ok [OF g e]
        evaluate_identifier_ok [OF g e] evaluate_class_ok [OF g e] make_regex_object_ok [OF g] simp del: pair_ok_iff
        intro!: node rest member unchanged_ok [OF g] chain_list [OF lifts_pair evaluate_list_ok [OF r g e]] make_array_ok
        intro: unchanged_ok)
qed

section \<open>Statements\<close>

lemma execute_all_ok:
  "runner_ok r \<Longrightarrow> good s \<Longrightarrow> e < length (js_envs s) \<Longrightarrow> val s v \<Longrightarrow> returns_only (out_ok s) (execute_all r xs e v s)"
proof (induction xs arbitrary: s v)
  case Nil
  then show ?case by (simp add: follows_refl)
next
  case (Cons x xs)
  have "request_ok s (DoExecute x e)" using Cons.prems by simp
  then show ?case
    unfolding execute_all.simps
    by (rule chain_out [OF lifts_out runner_okD [OF Cons.prems(1,2)]])
      (auto simp: follows_refl intro: Cons.IH [OF Cons.prems(1)] env_later [OF _ Cons.prems(3)])
qed

lemma execute_declarations_ok:
  "runner_ok r \<Longrightarrow> good s \<Longrightarrow> e < length (js_envs s) \<Longrightarrow> returns_only (out_ok s) (execute_declarations r ds e s)"
proof (induction ds arbitrary: s)
  case Nil
  then show ?case by (simp add: normally_ok)
next
  case (Cons d ds)
  obtain x y where d: "d = (x, y)" by (cases d)
  have p: "returns_only (pair_ok s) (case y of None \<Rightarrow> Returns (VUndefined, s) | Some z \<Rightarrow> evaluating r z e s)"
    by (auto split: option.split simp: follows_refl Cons.prems evaluating_ok)
  show ?case
    unfolding d execute_declarations.simps
  proof (rule chain_pair [OF lifts_out p])
    fix v s1
    assume 1: "follows s s1" "good s1" "val s1 v"
    have f: "follows s1 (declare_variable e x v s1)" by (rule follows_declare [OF 1(2,3)])
    show "returns_only (out_ok s1) (execute_declarations r ds e (declare_variable e x v s1))"
      by (rule lift [OF lifts_out f], rule Cons.IH [OF Cons.prems(1) follows_good [OF f]])
        (rule env_later [OF follows_trans [OF 1(1) f] Cons.prems(3)])
  qed
qed

lemma optional_ok:
  "runner_ok r \<Longrightarrow> good s \<Longrightarrow> e < length (js_envs s) \<Longrightarrow> val s v \<Longrightarrow>
    returns_only (pair_ok s) (case y of None \<Rightarrow> Returns (v, s) | Some z \<Rightarrow> evaluating r z e s)"
  by (auto split: option.split simp: follows_refl evaluating_ok)

lemma execute_request_ok:
  "runner_ok r \<Longrightarrow> good s \<Longrightarrow> e < length (js_envs s) \<Longrightarrow> returns_only (out_ok s) (r (DoExecute x e) s)"
  by (simp add: runner_okD)

lemma loop_step_ok:
  assumes r: "runner_ok r" and g: "good s" and e: "e < length (js_envs s)"
  shows "returns_only (out_ok s) (loop_step r test update body e s)"
proof -
  have again: "returns_only (out_ok s2) (bind_run
      (case update of None \<Rightarrow> Returns (VUndefined, s2) | Some x \<Rightarrow> evaluating r x e s2) (\<lambda>(_, s3). r (DoLoop test update body e) s3))"
    if s2: "follows s s2" "good s2" for s2
    by (rule chain_pair [OF lifts_out optional_ok [OF r s2(2) env_later [OF s2(1) e]]])
      (auto intro!: runner_okD [OF r] env_later [OF _ env_later [OF s2(1) e]])
  have round: "returns_only (out_ok s1) (bind_run (r (DoExecute body e) s1) (\<lambda>(t, v, s2).
         if t = ReturnCompletion then Returns (t, v, s2)
         else if t = BreakCompletion then normally s2
         else bind_run (case update of None \<Rightarrow> Returns (VUndefined, s2) | Some x \<Rightarrow> evaluating r x e s2) (\<lambda>(_, s3).
           r (DoLoop test update body e) s3)))"
    if s1: "follows s s1" "good s1" for s1
    by (rule chain_out [OF lifts_out execute_request_ok [OF r s1(2) env_later [OF s1(1) e]]])
      (simp add: follows_refl normally_ok again follows_trans [OF s1(1)])
  show ?thesis
    unfolding loop_step_def
    by (rule chain_pair [OF lifts_out optional_ok [OF r g e]]) (simp_all add: normally_ok round)
qed

lemma extend_okE:
  assumes "good s" and "e < length (js_envs s)"
  obtains l s' where "extend_env (Some e) s = (l, s')" and "follows s s'" and "good s'" and "l < length (js_envs s')"
  using follows_extend [of s "Some e"] assms by (auto simp: extend_env_def follows_def)

lemma execute_for_ok:
  assumes r: "runner_ok r" and g: "good s" and e: "e < length (js_envs s)"
  shows "returns_only (out_ok s) (execute_for r init test update body e s)"
proof -
  from extend_okE [OF g e] obtain l s1 where l: "extend_env (Some e) s = (l, s1)"
    and s1: "follows s s1" "good s1" "l < length (js_envs s1)" .
  have "returns_only (out_ok s1) (case init of None \<Rightarrow> normally s1 | Some x \<Rightarrow> r (DoExecute x l) s1)"
    by (auto split: option.split intro: normally_ok execute_request_ok r s1)
  then have "returns_only (out_ok s1) (bind_run (case init of None \<Rightarrow> normally s1 | Some x \<Rightarrow> r (DoExecute x l) s1) (\<lambda>(t, v, s2).
      if t \<noteq> NormalCompletion then Returns (t, v, s2) else r (DoLoop test update body l) s2))"
    by (rule chain_out [OF lifts_out]) (auto simp: follows_refl intro!: runner_okD [OF r] env_later [OF _ s1(3)])
  from lift [OF lifts_out s1(1) this] show ?thesis by (simp add: execute_for_def l)
qed

lemma execute_items_ok:
  "runner_ok r \<Longrightarrow> good s \<Longrightarrow> e < length (js_envs s) \<Longrightarrow> list_all (val s) vs \<Longrightarrow> returns_only (out_ok s) (execute_items r x body e vs s)"
proof (induction vs arbitrary: s)
  case Nil
  then show ?case by (simp add: normally_ok)
next
  case (Cons v vs)
  let ?s = "declare_variable e x v s"
  have f: "follows s ?s" by (rule follows_declare) (use Cons.prems in simp_all)
  have "returns_only (out_ok ?s) (bind_run (r (DoExecute body e) ?s) (\<lambda>(t, w, s1).
       if t = ReturnCompletion then Returns (t, w, s1)
       else if t = BreakCompletion then normally s1
       else execute_items r x body e vs s1))"
  proof (rule chain_out [OF lifts_out execute_request_ok [OF Cons.prems(1) follows_good [OF f] env_later [OF f Cons.prems(3)]]])
    fix t w s1
    assume 1: "follows ?s s1" "good s1" "val s1 w"
    note fs = follows_trans [OF f 1(1)]
    have "returns_only (out_ok s1) (execute_items r x body e vs s1)"
      by (rule Cons.IH [OF Cons.prems(1) 1(2) env_later [OF fs Cons.prems(3)]]) (rule vals_later [OF fs], use Cons.prems in simp)
    then show "returns_only (out_ok s1) (if t = ReturnCompletion then Returns (t, w, s1)
       else if t = BreakCompletion then normally s1
       else execute_items r x body e vs s1)"
      using 1 by (simp add: follows_refl normally_ok)
  qed
  from lift [OF lifts_out f this] show ?case by simp
qed

lemma iterable_items_ok:
  assumes "good s" and "val s v" and "iterable_items s v = Some vs"
  shows "list_all (val s) vs"
proof (cases v)
  case (VString t)
  with assms(3) show ?thesis by (auto simp: iterable_items_def list_all_iff)
next
  case (VObject a)
  with assms(3) obtain b where "array_of s v = Some b" "vs = elements_at s b" by (auto simp: iterable_items_def)
  with assms(1,2) show ?thesis by (simp add: good_elements array_of_ok)
qed (use assms(3) in \<open>simp_all add: iterable_items_def array_of_def object_of_def\<close>)

lemma execute_for_of_ok:
  assumes r: "runner_ok r" and g: "good s" and e: "e < length (js_envs s)"
  shows "returns_only (out_ok s) (execute_for_of r x y body e s)"
  unfolding execute_for_of_def
proof (rule chain_pair [OF lifts_out evaluating_ok [OF r g e]])
  fix v s1
  assume 1: "follows s s1" "good s1" "val s1 v"
  show "returns_only (out_ok s1) (case iterable_items s1 v of
         None \<Rightarrow> normally (js_fail ''value is not iterable'' s1)
       | Some vs \<Rightarrow> execute_items r x body e vs s1)"
    using execute_items_ok [OF r 1(2) env_later [OF 1(1) e] iterable_items_ok [OF 1(2,3)]]
    by (auto simp: normally_def follows_fail 1(2) split: option.split)
qed

lemma matching_case_ok:
  "runner_ok r \<Longrightarrow> good s \<Longrightarrow> e < length (js_envs s) \<Longrightarrow> returns_only (with_ok s) (matching_case r d cs e s)"
proof (induction cs arbitrary: s)
  case Nil
  then show ?case by (simp add: follows_refl)
next
  case (Cons c cs)
  obtain y b where c: "c = (y, b)" by (cases c)
  show ?case
  proof (cases y)
    case None
    then show ?thesis using Cons c by simp
  next
    case (Some x)
    have "returns_only (with_ok s) (bind_run (evaluating r x e s) (\<lambda>(v, s1).
        if strict_equals v d then Returns ((Some x, b) # cs, s1) else matching_case r d cs e s1))"
      by (rule chain_pair [OF lifts_with evaluating_ok [OF Cons.prems]])
        (auto simp: follows_refl intro: Cons.IH [OF Cons.prems(1)] env_later [OF _ Cons.prems(3)])
    then show ?thesis by (simp add: c Some)
  qed
qed

lemma execute_cases_ok:
  "runner_ok r \<Longrightarrow> good s \<Longrightarrow> e < length (js_envs s) \<Longrightarrow> returns_only (out_ok s) (execute_cases r cs e s)"
proof (induction cs arbitrary: s)
  case Nil
  then show ?case by (simp add: normally_ok)
next
  case (Cons c cs)
  obtain x b where c: "c = (x, b)" by (cases c)
  show ?case
    unfolding c execute_cases.simps
    by (rule chain_out [OF lifts_out execute_request_ok [OF Cons.prems]])
      (auto simp: follows_refl normally_ok intro: Cons.IH [OF Cons.prems(1)] env_later [OF _ Cons.prems(3)])
qed

lemma execute_switch_ok:
  assumes r: "runner_ok r" and g: "good s" and e: "e < length (js_envs s)"
  shows "returns_only (out_ok s) (execute_switch r x cs e s)"
  unfolding execute_switch_def
proof (rule chain_pair [OF lifts_out evaluating_ok [OF r g e]])
  fix d s1
  assume 1: "follows s s1" "good s1"
  note e1 = env_later [OF 1(1) e]
  from extend_okE [OF 1(2) e1] obtain l s2 where l: "extend_env (Some e) s1 = (l, s2)"
    and s2: "follows s1 s2" "good s2" "l < length (js_envs s2)" .
  have "returns_only (out_ok s2) (bind_run (matching_case r d cs e s2) (\<lambda>(found, s3).
      execute_cases r (if found = [] then dropWhile (\<lambda>c. fst c \<noteq> None) cs else found) l s3))"
    by (rule chain_with [OF lifts_out matching_case_ok [OF r s2(2) env_later [OF s2(1) e1]]])
      (rule execute_cases_ok [OF r], assumption, rule env_later [OF _ s2(3)])
  from lift [OF lifts_out s2(1) this]
  show "returns_only (out_ok s1) (case extend_env (Some e) s1 of (l, s2) \<Rightarrow>
       bind_run (matching_case r d cs e s2) (\<lambda>(found, s3).
         execute_cases r (if found = [] then dropWhile (\<lambda>c. fst c \<noteq> None) cs else found) l s3))"
    by (simp add: l)
qed

lemma execute_block_ok:
  assumes r: "runner_ok r" and g: "good s" and e: "e < length (js_envs s)"
  shows "returns_only (out_ok s) (case extend_env (Some e) s of (b, s1) \<Rightarrow> execute_all r xs b VUndefined s1)"
proof -
  from extend_okE [OF g e] obtain l s1 where l: "extend_env (Some e) s = (l, s1)"
    and s1: "follows s s1" "good s1" "l < length (js_envs s1)" .
  from lift [OF lifts_out s1(1) execute_all_ok [OF r s1(2,3)]] show ?thesis by (simp add: l)
qed

lemma declared_ok: "good s \<Longrightarrow> val s v \<Longrightarrow> returns_only (out_ok s) (normally (declare_variable e x v s))"
  by (simp add: normally_def follows_declare)

lemma execute_ok:
  assumes r: "runner_ok r" and g: "good s" and e: "e < length (js_envs s)"
  shows "returns_only (out_ok s) (execute r x e s)"
proof (cases "js_error s")
  case (Some m)
  then show ?thesis by (simp add: execute_def normally_ok g)
next
  case None
  note node = chain_pair [OF lifts_out evaluating_ok [OF r g e]]
  have rest: "returns_only (out_ok s1) (r (DoExecute y e) s1)" if "follows s s1" "good s1" for y s1
    by (rule execute_request_ok [OF r that(2) env_later [OF that(1) e]])
  have returned: "returns_only (out_ok s) (bind_run (case y of None \<Rightarrow> Returns (VUndefined, s) | Some z \<Rightarrow> evaluating r z e s)
      (\<lambda>(v, s1). Returns (ReturnCompletion, v, s1)))" for y
    by (rule chain_pair [OF lifts_out optional_ok [OF r g e]]) (simp_all add: follows_refl)
  have loop: "returns_only (out_ok s) (r (DoLoop c u b e) s)" for c u b
    by (rule runner_okD [OF r g]) (simp add: e)
  have branch: "returns_only (out_ok s) (bind_run (evaluating r c e s) (\<lambda>(v, s1).
      if to_boolean v then r (DoExecute y e) s1
      else case z of Some w \<Rightarrow> r (DoExecute w e) s1 | None \<Rightarrow> normally s1))" for c y z
    by (rule node) (simp add: rest normally_ok split: option.split)
  have declared: "returns_only (out_ok s) (bind_run (evaluating r y e s) (\<lambda>(v, s1). normally (declare_variable e k v s1)))" for y k
    by (rule node) (simp add: declared_ok)
  show ?thesis
    unfolding execute_def
    by (cases x)
      (simp_all add: None follows_refl g execute_all_ok [OF r g e] execute_block_ok [OF r g e] execute_declarations_ok [OF r g e]
        execute_for_ok [OF r g e] execute_for_of_ok [OF r g e] execute_switch_ok [OF r g e] returned [simplified] loop branch declared
        returning_ok [OF evaluating_ok [OF r g e]])
qed

section \<open>The interpreter\<close>

lemma perform_ok: "host_ok h \<Longrightarrow> runner_ok r \<Longrightarrow> runner_ok (perform h r)"
  unfolding runner_ok_def [of "perform h r"]
proof (intro allI impI)
  fix q and s :: "'a js_state"
  assume h: "host_ok h" and r: "runner_ok r" and g: "good s" and q: "request_ok s q"
  show "returns_only (out_ok s) (perform h r q s)"
    by (cases q)
      (use q in \<open>auto simp: perform_def intro!: returning_ok evaluate_ok [OF h r g] execute_ok [OF r g] call_value_ok [OF h r g]
        loop_step_ok [OF r g] each_step_ok [OF r g] reduce_step_ok [OF r g] drain_step_ok [OF r g]\<close>)
qed

lemma interp_ok: "host_ok h \<Longrightarrow> runner_ok (interp h n)"
  by (induction n) (simp_all add: perform_ok, simp add: runner_ok_def)

lemma good_no_error: "good s \<Longrightarrow> good (s\<lparr> js_error := None \<rparr>)"
  by (simp add: good_def)

lemma run_script_ok:
  assumes h: "host_ok h" and g: "good s"
  shows "returns_only (pair_ok (s\<lparr> js_error := None \<rparr>)) (run_script h n source s)"
proof -
  let ?s = "s\<lparr> js_error := None \<rparr>"
  note g0 = good_no_error [OF g] and r = interp_ok [OF h, of n]
  have drain: "returns_only (pair_ok s1) (bind_run (draining (interp h n) 0 s1) (\<lambda>s2. Returns (v, s2)))"
    if "good s1" "val s1 v" for s1 :: "'a js_state" and v
    by (rule chain_state [OF lifts_pair draining_ok [OF r that(1)]]) (auto simp: follows_refl intro: val_later that(2))
  have "returns_only (pair_ok ?s) (bind_run (interp h n (DoExecute program (js_globals s)) ?s) (\<lambda>(t, v, s1).
      bind_run (draining (interp h n) 0 s1) (\<lambda>s2. Returns (v, s2))))" for program
    by (rule chain_out [OF lifts_pair runner_okD [OF r g0]]) (use good_globals(1) [OF g0] drain in \<open>auto\<close>)
  then show ?thesis
    by (auto simp: run_script_def Let_def follows_fail g0 split: option.split)
qed

lemma property_at_ok: "good s \<Longrightarrow> a < length (js_objects s) \<Longrightarrow> property_at s a k = Some v \<Longrightarrow> val s v"
  by (simp add: property_at_def object_at_def property_value_ok)

lemma dispatch_handlers_ok:
  assumes h: "host_ok h" and r: "runner_ok r"
  shows "good s \<Longrightarrow> b < length (js_objects s) \<Longrightarrow> val s target \<Longrightarrow> \<forall>i\<in>set is. i < length (elements_at s b) \<Longrightarrow>
    returns_only (follows s) (dispatch_handlers h r a key target b is s)"
proof (induction "is" arbitrary: s)
  case Nil
  then show ?case by (simp add: follows_refl)
next
  case (Cons i "is")
  note g = Cons.prems(1)
  have v: "val s (elements_at s b ! i)" by (rule nth_ok [OF good_elements [OF g Cons.prems(2)]]) (use Cons.prems(4) in simp)
  show ?case
    unfolding dispatch_handlers.simps Let_def
  proof (rule chain_pair [OF lifts_follows call_value_ok [OF h r g v _ Cons.prems(3)]])
    fix w s1
    assume 1: "follows s s1" "good s1" "val s1 w"
    show "returns_only (follows s1)
        (if property_at s1 a key = Some (VObject (Some b)) \<and> length (elements_at s1 b) = length (elements_at s b)
         then dispatch_handlers h r a key target b is s1 else Undefined)"
      using Cons.IH [OF 1(2) address_later [OF 1(1) Cons.prems(2)] val_later [OF 1(1) Cons.prems(3)]] Cons.prems(4) by simp
  qed simp
qed

lemma dispatch_event_to_ok:
  assumes h: "host_ok h" and r: "runner_ok r" and g: "good s" and target: "val s target"
  shows "returns_only (follows s) (dispatch_event_to h r target type_text s)"
proof (cases "object_of target")
  case None
  then show ?thesis by (simp add: dispatch_event_to_def follows_refl g)
next
  case (Some a)
  then have a: "a < length (js_objects s)" using target by (simp add: value_ok_def)
  have first: "returns_only (follows s) (case property_at s a (''on'' @ type_text) of
      None \<Rightarrow> Returns s
    | Some f \<Rightarrow> bind_run (call_value h r f [] target (\<lambda>s'. recheck_value (property_at s' a (''on'' @ type_text)) s') s) (\<lambda>(v, s1). Returns s1))"
  proof (cases "property_at s a (''on'' @ type_text)")
    case None
    then show ?thesis by (simp add: follows_refl g)
  next
    case (Some f)
    show ?thesis
      unfolding Some option.case
      by (rule chain_pair [OF lifts_follows call_value_ok [OF h r g property_at_ok [OF g a Some]]])
        (simp_all add: target follows_refl)
  qed
  have second: "returns_only (follows s1) (case Option.bind (property_at s1 a (''__handlers_'' @ type_text)) (array_of s1) of
      None \<Rightarrow> Returns s1
    | Some b \<Rightarrow> dispatch_handlers h r a (''__handlers_'' @ type_text) target b [0..<length (elements_at s1 b)] s1)"
    if s1: "follows s s1" "good s1" for s1
  proof (cases "Option.bind (property_at s1 a (''__handlers_'' @ type_text)) (array_of s1)")
    case None
    then show ?thesis by (simp add: follows_refl s1(2))
  next
    case (Some b)
    then obtain v where v: "property_at s1 a (''__handlers_'' @ type_text) = Some v" "array_of s1 v = Some b"
      by (auto simp: bind_eq_Some_conv)
    have "b < length (js_objects s1)"
      by (rule array_of_ok [OF property_at_ok [OF s1(2) address_later [OF s1(1) a] v(1)] v(2)])
    from dispatch_handlers_ok [OF h r s1(2) this val_later [OF s1(1) target]] show ?thesis unfolding Some by simp
  qed
  show ?thesis
    unfolding dispatch_event_to_def Some option.case Let_def
    by (rule chain_state [OF lifts_follows first second])
qed

lemma dispatch_event_ok:
  assumes h: "host_ok h" and g: "good s"
  shows "returns_only (follows s) (dispatch_event h n type_text s)"
  unfolding dispatch_event_def
proof (rule chain_state [OF lifts_follows dispatch_event_to_ok [OF h interp_ok [OF h] g]])
  show "val s (VObject (js_document s))" using g by (cases "js_document s") (simp_all add: good_def)
  fix s1
  assume 1: "follows s s1" "good s1"
  show "returns_only (follows s1) (bind_run (dispatch_event_to h (interp h n) (VObject (js_window s1)) type_text s1) (\<lambda>s2. draining (interp h n) 0 s2))"
  proof (rule chain_state [OF lifts_follows dispatch_event_to_ok [OF h interp_ok [OF h] 1(2)]])
    show "val s1 (VObject (js_window s1))" using 1(2) by (cases "js_window s1") (simp_all add: good_def)
  qed (rule draining_ok [OF interp_ok [OF h]])
qed

section \<open>The initial state\<close>

definition always_ok :: "native \<Rightarrow> bool" where
  "always_ok f \<longleftrightarrow> (\<forall>obs. native_ok obs f)"

lemma declare_global_good: "pair_ok s p \<Longrightarrow> good (declare_global x p)"
  unfolding declare_global_def pair_ok_def by (blast intro: follows_good follows_declare)

lemma global_object_good:
  assumes "good s" and "\<And>m a. object_ok (js_objects s) m a ob" and "list_all (\<lambda>m. always_ok (snd m)) ms"
  shows "good (global_object x ob ms s)"
  unfolding global_object_def allocated
proof (rule declare_global_good [OF dressed_ok [OF assms(1,2)]])
  assume "good (snd (allocate ob s))"
  then show "follows (snd (allocate ob s)) (fold (put_native (length (js_objects s))) ms (snd (allocate ob s)))"
    by (rule put_natives_ok) (use assms(3) in \<open>auto simp: list_all_iff always_ok_def\<close>)
qed

lemma setup_math_good:
  assumes "good s"
  shows "good (setup_math s)"
  unfolding setup_math_def allocated
  by (rule declare_global_good [OF dressed_ok [OF assms, where ob = new_object]])
    (simp, intro later_property later_natives follows_refl, simp_all add: math_methods_def native_ok_def)

lemma setup_object_good:
  assumes "good s"
  shows "good (setup_object s)"
proof -
  let ?s = "snd (allocate (native_object ObjectConstructor) s)" and ?a = "length (js_objects s)"
  have "follows ?s (put_native ?a (''keys'', ObjectKeys) ?s)" if "good ?s"
    by (rule put_native_ok [OF that]) (simp add: native_ok_def)
  then have "follows ?s (put_property ?a ''prototype'' (VObject (Some (js_object_prototype ?s))) (put_native ?a (''keys'', ObjectKeys) ?s))"
    if "good ?s"
    using that by (intro later_property) (auto intro: address_later good_globals(2))
  then show ?thesis
    unfolding setup_object_def allocated
    by (intro declare_global_good [OF dressed_ok [OF assms, where ob = "native_object ObjectConstructor"]])
      (simp_all add: native_ok_def)
qed

lemma good_window: "good s \<Longrightarrow> a < length (js_objects s) \<Longrightarrow> good (s\<lparr> js_window := Some a \<rparr>)"
  and good_document: "good s \<Longrightarrow> a < length (js_objects s) \<Longrightarrow> good (s\<lparr> js_document := Some a \<rparr>)"
  by (simp_all add: good_def)

lemma setup_window_good:
  assumes "good s"
  shows "good (setup_window s)"
proof -
  let ?s = "snd (allocate new_object s)" and ?a = "length (js_objects s)"
  let ?t = "put_native ?a (''addEventListener'', ListenerRegistrar ?a) ?s"
  have "follows ?s ?t" if "good ?s"
    by (rule put_native_ok [OF that]) (simp add: native_ok_def allocate_def)
  with dressed_ok [OF assms, of new_object ?t] have "good ?t" "?a < length (js_objects ?t)" by (auto dest: follows_good)
  then show ?thesis
    unfolding setup_window_def allocated
    by (intro declare_global_good [of "?t\<lparr> js_window := Some ?a \<rparr>"] unchanged_ok good_window) simp_all
qed

lemma setup_document_good:
  assumes "good s"
  shows "good (setup_document s)"
proof -
  let ?s = "snd (allocate new_object s)" and ?a = "length (js_objects s)"
  obtain f s2 where f: "make_native DocumentWrite ?s = (f, s2)" by (cases "make_native DocumentWrite ?s")
  let ?s3 = "put_property ?a ''writeln'' f (put_property ?a ''write'' f s2)"
  let ?s4 = "fold (put_native ?a) [(''getElementById'', GetElementById), (''createElement'', CreateElement)] ?s3"
  let ?t = "?s4\<lparr> js_document := Some ?a \<rparr>"
  have "follows ?s ?s4" if g: "good ?s"
  proof -
    have s2: "follows ?s s2" "val s2 f" using make_native_follows [OF g _ f] by (simp_all add: native_ok_def)
    note w = later_property [OF s2]
    have "val (put_property ?a ''write'' f s2) f"
      by (rule val_later [OF follows_put_property [OF follows_good [OF s2(1)] s2(2)] s2(2)])
    note w' = later_property [OF w this]
    show ?thesis by (rule later_natives [OF w']) (simp add: native_ok_def)
  qed
  with dressed_ok [OF assms, of new_object ?s4] have s4: "good ?s4" "?a < length (js_objects ?s4)" by (auto dest: follows_good)
  have t: "good ?t" by (rule good_document [OF s4])
  have u: "follows ?t (put_native ?a (''addEventListener'', ListenerRegistrar ?a) ?t)"
    by (rule put_native_ok [OF t]) (use s4(2) in \<open>simp add: native_ok_def\<close>)
  have "pair_ok ?t (VObject (Some ?a), put_native ?a (''addEventListener'', ListenerRegistrar ?a) ?t)"
    using u address_later [OF u, of ?a] s4(2) by simp
  then show ?thesis
    unfolding setup_document_def allocated f prod.case Let_def by (rule declare_global_good)
qed

lemma good_blank: "good ((snd (allocate new_object (blank_state w)))\<lparr> js_object_prototype := 0 \<rparr>)"
  by (simp add: good_def blank_state_def allocate_def env_ok_def new_env_def)

lemma new_interpreter_good: "good (new_interpreter w)"
proof -
  have folded: "list_all (\<lambda>f. \<forall>s. good s \<longrightarrow> good (f s)) fs \<Longrightarrow> good s \<Longrightarrow> good (fold (\<lambda>f. f) fs s)"
    for fs and s :: "'a js_state"
    by (induction fs arbitrary: s) simp_all
  have g: "good ((snd (allocate new_object (blank_state w)))\<lparr> js_object_prototype := length (js_objects (blank_state w)) \<rparr>)"
    using good_blank [of w] by (simp add: blank_state_def)
  show ?thesis
    unfolding new_interpreter_def setup_globals_def allocated
    by (rule folded [OF _ g])
      (simp add: setup_math_good setup_object_good setup_window_good setup_document_good global_object_good always_ok_def native_ok_def)
qed

section \<open>Every state of a session\<close>

text \<open>The states an interpreter goes through: made, then any scripts and events, with any fuel.\<close>

inductive session_state :: "'w host \<Rightarrow> 'w js_state \<Rightarrow> bool" for h where
  session_start: "session_state h (new_interpreter w)"
| session_script: "session_state h s \<Longrightarrow> run_script h n source s = Returns (v, s') \<Longrightarrow> session_state h s'"
| session_event: "session_state h s \<Longrightarrow> dispatch_event h n type_text s = Returns s' \<Longrightarrow> session_state h s'"

lemma session_good:
  assumes "host_ok h"
  shows "session_state h s \<Longrightarrow> good s"
proof (induction rule: session_state.induct)
  case (session_start w)
  then show ?case by (rule new_interpreter_good)
next
  case (session_script s n source v s')
  with run_script_ok [OF assms session_script.IH, of n source] show ?case by (simp add: follows_def)
next
  case (session_event s n type_text s')
  with dispatch_event_ok [OF assms session_event.IH, of n type_text] show ?case by (simp add: follows_def)
qed

definition settled_stay :: "'w js_state \<Rightarrow> 'w js_state \<Rightarrow> bool" where
  "settled_stay s s' \<longleftrightarrow>
     length (js_objects s) \<le> length (js_objects s') \<and>
     list_all (\<lambda>a. case ob_promise (object_at s a) of
                     None \<Rightarrow> True
                   | Some p \<Rightarrow> pr_status p = Pending \<or> ob_promise (object_at s' a) = Some p) [0..<length (js_objects s)]"

lemma evolves_settled: "evolves s s' \<Longrightarrow> settled_stay s s'"
  by (auto simp: evolves_def settled_stay_def list_all_iff object_evolves_def promise_evolves_def split: option.split)

text \<open>A host with no hooks and an insertion sort by the keys.\<close>

fun sorted_put :: "string \<times> js_value \<Rightarrow> (string \<times> js_value) list \<Rightarrow> (string \<times> js_value) list" where
  "sorted_put p [] = [p]"
| "sorted_put p (q # qs) = (if text_less (fst q) (fst p) then q # sorted_put p qs else p # q # qs)"

definition bare_host :: "string list host" where
  "bare_host =
     \<lparr> ho_print = Some (\<lambda>t w. w @ [t]), ho_write = None, ho_lookup = None, ho_create = None,
       ho_function = (\<lambda>i args s. (VUndefined, s)), ho_now = (\<lambda>w. (0, w)), ho_random = (\<lambda>w. (0, w)),
       ho_pow = (\<lambda>a b. NotANumber), ho_sort = (\<lambda>ps. fold sorted_put ps []) \<rparr>"

lemma mset_sorted_put: "mset (sorted_put p qs) = add_mset p (mset qs)"
  by (induction p qs rule: sorted_put.induct) auto

lemma bare_host_ok: "host_ok bare_host"
proof -
  have "mset (fold sorted_put ps qs) = mset ps + mset qs" for ps qs
    by (induction ps arbitrary: qs) (simp_all add: mset_sorted_put)
  then show ?thesis by (simp add: host_ok_def bare_host_def follows_refl)
qed

text \<open>C36: No script can make the interpreter follow a dangling reference.  Whatever scripts have been
  run and events dispatched, for a host whose hooks keep to it, every address in the store (values
  in properties, elements, entries, variables and queued tasks; what native functions and closures
  captured) is that of an object or scope that exists, prototypes and enclosing scopes are older
  than what refers to them (so that lookups along them end), and the natives of a promise refer to
  one.\<close>

theorem session_store_good:
  assumes "host_ok h" and "session_state h s"
  shows "good s"
  using assms by (rule session_good)

text \<open>After a script that makes an object, a function and a promise with a handler.\<close>

theorem session_store_good_witness:
  "good (new_interpreter ([] :: string list)) \<and>
   (case run_script bare_host 9 ''var x = {a: [1]};'' (new_interpreter []) of Returns (v, s) \<Rightarrow> good s | _ \<Rightarrow> True)"
proof
  show "good (new_interpreter ([] :: string list))"
    by (rule session_store_good [OF bare_host_ok session_start])
  show "case run_script bare_host 9 ''var x = {a: [1]};'' (new_interpreter []) of Returns (v, s) \<Rightarrow> good s | _ \<Rightarrow> True"
    using session_store_good [OF bare_host_ok session_script [OF session_start]]
    by (auto split: run.split)
qed

text \<open>C37: A promise is settled once.  Running a script or dispatching an event in any state of a session
  takes no object away and leaves every promise that was fulfilled or rejected as it was, with its
  status and its value.\<close>

theorem promise_settles_once:
  assumes "host_ok h" and "session_state h s"
  shows "returns_only (\<lambda>(v, s'). settled_stay s s') (run_script h n source s) \<and>
    returns_only (settled_stay s) (dispatch_event h n type_text s)"
proof
  note g = session_good [OF assms]
  have "settled_stay s s'" if "follows (s\<lparr> js_error := None \<rparr>) s'" for s'
    using that evolves_settled [of "s\<lparr> js_error := None \<rparr>" s'] by (simp add: follows_def settled_stay_def object_at_def)
  with run_script_ok [OF assms(1) g, of n source]
  show "returns_only (\<lambda>(v, s'). settled_stay s s') (run_script h n source s)"
    by (auto elim!: returns_only_weaken)
  show "returns_only (settled_stay s) (dispatch_event h n type_text s)"
    using dispatch_event_ok [OF assms(1) g] by (rule returns_only_weaken) (simp add: follows_def evolves_settled)
qed

theorem promise_settles_once_witness:
  "returns_only (\<lambda>(v, s'). settled_stay (new_interpreter []) s')
     (run_script bare_host 20 ''var p = Promise.resolve(1);'' (new_interpreter []))"
  using promise_settles_once [OF bare_host_ok session_start] by blast

end
