(* ===== verification/Js_Fuel.thy ===== *)
theory Js_Fuel
  imports Js_Interpreter
begin

text \<open>
  The fuel of the interpreter only decides whether a request is answered: what it returns, raises
  or leaves undefined with some fuel it does with more.  So the answer to a request is a property
  of the script alone.
\<close>

section \<open>Runs with less fuel\<close>

definition below :: "'a run \<Rightarrow> 'a run \<Rightarrow> bool" where
  "below m m' \<longleftrightarrow> m = Hangs \<or> m' = m"

lemma below_refl: "below m m"
  by (simp add: below_def)

lemma below_bind: "below m m' \<Longrightarrow> (\<And>x. below (f x) (f' x)) \<Longrightarrow> below (bind_run m f) (bind_run m' f')"
  by (cases m) (auto simp: below_def)

lemma below_if: "below m m' \<Longrightarrow> below n n' \<Longrightarrow> below (if c then m else n) (if c then m' else n')"
  by simp

lemma below_prod: "(\<And>x y. below (f x y) (f' x y)) \<Longrightarrow> below (case p of (x, y) \<Rightarrow> f x y) (case p of (x, y) \<Rightarrow> f' x y)"
  by (cases p) simp

lemma below_option:
  "below m m' \<Longrightarrow> (\<And>x. below (f x) (f' x)) \<Longrightarrow>
    below (case c of None \<Rightarrow> m | Some x \<Rightarrow> f x) (case c of None \<Rightarrow> m' | Some x \<Rightarrow> f' x)"
  by (cases c) simp_all

lemma below_list:
  "below m m' \<Longrightarrow> (\<And>x xs. below (f x xs) (f' x xs)) \<Longrightarrow>
    below (case c of [] \<Rightarrow> m | x # xs \<Rightarrow> f x xs) (case c of [] \<Rightarrow> m' | x # xs \<Rightarrow> f' x xs)"
  by (cases c) simp_all

lemma below_let: "(\<And>x. below (f x) (f' x)) \<Longrightarrow> below (let x = v in f x) (let x = v in f' x)"
  by simp

definition runner_below :: "'w runner \<Rightarrow> 'w runner \<Rightarrow> bool" where
  "runner_below r r' \<longleftrightarrow> (\<forall>q s. below (r q s) (r' q s))"

lemma below_runner: "runner_below r r' \<Longrightarrow> below (r q s) (r' q s)"
  by (simp add: runner_below_def)

named_theorems below_rules

lemmas below_structure [below_rules] = below_bind below_if below_prod below_option below_list below_let

lemma below_evaluating [below_rules]: "runner_below r r' \<Longrightarrow> below (evaluating r x e s) (evaluating r' x e s)"
  unfolding evaluating_def by (rule below_refl | rule below_rules | (rule below_runner, assumption) | assumption)+

lemma below_calling [below_rules]: "runner_below r r' \<Longrightarrow> below (calling r f args self s) (calling r' f args self s)"
  unfolding calling_def by (rule below_refl | rule below_rules | (rule below_runner, assumption) | assumption)+

lemma below_draining [below_rules]: "runner_below r r' \<Longrightarrow> below (draining r n s) (draining r' n s)"
  unfolding draining_def by (rule below_refl | rule below_rules | (rule below_runner, assumption) | assumption)+

lemma below_returning [below_rules]: "below m m' \<Longrightarrow> below (returning m) (returning m')"
  unfolding returning_def by (rule below_refl | rule below_rules | (rule below_runner, assumption) | assumption)+

section \<open>Calls\<close>

lemma below_call_native [below_rules]: "runner_below r r' \<Longrightarrow> below (call_native h r f args s) (call_native h r' f args s)"
  unfolding call_native_def promise_constructor_def promise_finally_def array_each_def array_reduce_def
  by (cases f) (simp_all only: native.case, (rule below_refl | rule below_rules | (rule below_runner, assumption) | assumption)+)

lemma below_each [below_rules]: "runner_below r r' \<Longrightarrow> below (each_step r m a b cb i s) (each_step r' m a b cb i s)"
  unfolding each_step_def by (rule below_refl | rule below_rules | (rule below_runner, assumption) | assumption)+

lemma below_reduce [below_rules]: "runner_below r r' \<Longrightarrow> below (reduce_step r a cb acc i s) (reduce_step r' a cb acc i s)"
  unfolding reduce_step_def by (rule below_refl | rule below_rules | (rule below_runner, assumption) | assumption)+

lemma below_call [below_rules]:
  "runner_below r r' \<Longrightarrow> below (call_value h r f args self recheck s) (call_value h r' f args self recheck s)"
  unfolding call_value_def call_function_def by (rule below_refl | rule below_rules | (rule below_runner, assumption) | assumption)+

lemma below_drain [below_rules]: "runner_below r r' \<Longrightarrow> below (drain_step r n s) (drain_step r' n s)"
  unfolding drain_step_def run_promise_handler_def by (rule below_refl | rule below_rules | (rule below_runner, assumption) | assumption)+

section \<open>Expressions and statements\<close>

lemma below_list_of [below_rules]: "runner_below r r' \<Longrightarrow> below (evaluate_list r xs e s) (evaluate_list r' xs e s)"
proof (induction xs arbitrary: s)
  case (Cons z zs)
  note IH = Cons.IH [OF Cons.prems]
  show ?case
    unfolding evaluate_list.simps by (insert Cons.prems, (rule IH | rule below_refl | rule below_rules | (rule below_runner, assumption) | assumption)+)
qed (simp add: below_refl normally_def)

lemma below_members [below_rules]: "runner_below r r' \<Longrightarrow> below (evaluate_members r a ms e s) (evaluate_members r' a ms e s)"
proof (induction ms arbitrary: s)
  case (Cons z zs)
  note IH = Cons.IH [OF Cons.prems]
  obtain k w where z: "z = (k, w)" by (cases z)
  show ?case
    unfolding z evaluate_members.simps by (insert Cons.prems, (rule IH | rule below_refl | rule below_rules | (rule below_runner, assumption) | assumption)+)
qed (simp add: below_refl normally_def)

lemma below_name [below_rules]: "runner_below r r' \<Longrightarrow> below (member_name r k y e s) (member_name r' k y e s)"
  unfolding member_name_def by (rule below_refl | rule below_rules | (rule below_runner, assumption) | assumption)+

lemma below_member [below_rules]: "runner_below r r' \<Longrightarrow> below (evaluate_member r x k y e s) (evaluate_member r' x k y e s)"
  unfolding evaluate_member_def by (rule below_refl | rule below_rules | (rule below_runner, assumption) | assumption)+

lemma below_callee [below_rules]: "runner_below r r' \<Longrightarrow> below (evaluate_callee r f e s) (evaluate_callee r' f e s)"
  unfolding evaluate_callee_def by (cases f) (simp_all only: ast.case, (rule below_refl | rule below_rules | (rule below_runner, assumption) | assumption)+)

lemma below_store [below_rules]: "runner_below r r' \<Longrightarrow> below (store_to r target v e s) (store_to r' target v e s)"
  unfolding store_to_def by (cases target) (simp_all only: ast.case, (rule below_refl | rule below_rules | (rule below_runner, assumption) | assumption)+)

lemma below_unary [below_rules]: "runner_below r r' \<Longrightarrow> below (evaluate_unary r op x e s) (evaluate_unary r' op x e s)"
  unfolding evaluate_unary_def evaluate_await_def by (rule below_refl | rule below_rules | (rule below_runner, assumption) | assumption)+

lemma below_evaluate [below_rules]: "runner_below r r' \<Longrightarrow> below (evaluate h r x e s) (evaluate h r' x e s)"
  unfolding evaluate_def evaluate_assignment_def evaluate_call_def evaluate_new_def
  by (cases x) (simp_all only: ast.case, (rule below_refl | rule below_rules | (rule below_runner, assumption) | assumption)+)

lemma below_all [below_rules]: "runner_below r r' \<Longrightarrow> below (execute_all r xs e v s) (execute_all r' xs e v s)"
proof (induction xs arbitrary: v s)
  case (Cons z zs)
  note IH = Cons.IH [OF Cons.prems]
  show ?case
    unfolding execute_all.simps by (insert Cons.prems, (rule IH | rule below_refl | rule below_rules | (rule below_runner, assumption) | assumption)+)
qed (simp add: below_refl normally_def)

lemma below_declarations [below_rules]:
  "runner_below r r' \<Longrightarrow> below (execute_declarations r ds e s) (execute_declarations r' ds e s)"
proof (induction ds arbitrary: s)
  case (Cons z zs)
  note IH = Cons.IH [OF Cons.prems]
  obtain k w where z: "z = (k, w)" by (cases z)
  show ?case
    unfolding z execute_declarations.simps by (insert Cons.prems, (rule IH | rule below_refl | rule below_rules | (rule below_runner, assumption) | assumption)+)
qed (simp add: below_refl normally_def)

lemma below_loop [below_rules]: "runner_below r r' \<Longrightarrow> below (loop_step r test u b e s) (loop_step r' test u b e s)"
  unfolding loop_step_def by (rule below_refl | rule below_rules | (rule below_runner, assumption) | assumption)+

lemma below_items [below_rules]: "runner_below r r' \<Longrightarrow> below (execute_items r x b e vs s) (execute_items r' x b e vs s)"
proof (induction vs arbitrary: s)
  case (Cons z zs)
  note IH = Cons.IH [OF Cons.prems]
  show ?case
    unfolding execute_items.simps by (insert Cons.prems, (rule IH | rule below_refl | rule below_rules | (rule below_runner, assumption) | assumption)+)
qed (simp add: below_refl normally_def)

lemma below_matching [below_rules]: "runner_below r r' \<Longrightarrow> below (matching_case r d cs e s) (matching_case r' d cs e s)"
proof (induction cs arbitrary: s)
  case (Cons c cs)
  note IH = Cons.IH [OF Cons.prems]
  obtain x b where c: "c = (x, b)" by (cases c)
  show ?case
    using Cons.prems unfolding c
    by (cases x) (simp_all only: matching_case.simps,
      (rule IH | rule below_refl | rule below_rules | (rule below_runner, assumption) | assumption)+)
qed (simp add: below_refl)

lemma below_cases [below_rules]: "runner_below r r' \<Longrightarrow> below (execute_cases r cs e s) (execute_cases r' cs e s)"
proof (induction cs arbitrary: s)
  case (Cons z zs)
  note IH = Cons.IH [OF Cons.prems]
  obtain k w where z: "z = (k, w)" by (cases z)
  show ?case
    unfolding z execute_cases.simps by (insert Cons.prems, (rule IH | rule below_refl | rule below_rules | (rule below_runner, assumption) | assumption)+)
qed (simp add: below_refl normally_def)

lemma below_execute [below_rules]: "runner_below r r' \<Longrightarrow> below (execute r x e s) (execute r' x e s)"
  unfolding execute_def execute_for_def execute_for_of_def execute_switch_def
  by (cases x) (simp_all only: ast.case, (rule below_refl | rule below_rules | (rule below_runner, assumption) | assumption)+)

section \<open>The interpreter\<close>

lemma below_perform: "runner_below r r' \<Longrightarrow> runner_below (perform h r) (perform h r')"
  unfolding runner_below_def [of "perform h r"]
proof (intro allI)
  fix q and s :: "'a js_state"
  assume "runner_below r r'"
  then show "below (perform h r q s) (perform h r' q s)"
    unfolding perform_def by (cases q) (simp_all only: request.case, (rule below_refl | rule below_rules | (rule below_runner, assumption) | assumption)+)
qed

lemma interp_below: "runner_below (interp h n) (interp h (n + k))"
proof (induction n)
  case 0
  then show ?case by (simp add: runner_below_def below_def)
next
  case (Suc n)
  then show ?case by (simp add: below_perform)
qed

lemma below_handlers [below_rules]:
  "runner_below r r' \<Longrightarrow> below (dispatch_handlers h r a key target b is s) (dispatch_handlers h r' a key target b is s)"
proof (induction "is" arbitrary: s)
  case (Cons z zs)
  note IH = Cons.IH [OF Cons.prems]
  show ?case
    unfolding dispatch_handlers.simps by (insert Cons.prems, (rule IH | rule below_refl | rule below_rules | (rule below_runner, assumption) | assumption)+)
qed (simp add: below_refl normally_def)

lemma below_dispatch [below_rules]:
  "runner_below r r' \<Longrightarrow> below (dispatch_event_to h r target type_text s) (dispatch_event_to h r' target type_text s)"
  unfolding dispatch_event_to_def by (rule below_refl | rule below_rules | (rule below_runner, assumption) | assumption)+

text \<open>What a script does is decided by the script.  If running it, or dispatching an event, comes to an
  answer with some fuel (a value, an exception, undefined behaviour), it comes to the same answer
  with any more.\<close>

theorem fuel_does_not_matter:
  "(run_script h n source s = Hangs \<or> run_script h (n + k) source s = run_script h n source s) \<and>
   (dispatch_event h n type_text s = Hangs \<or> dispatch_event h (n + k) type_text s = dispatch_event h n type_text s)"
proof -
  have b: "runner_below (interp h n) (interp h (n + k))" by (rule interp_below)
  have "below (run_script h n source s) (run_script h (n + k) source s)"
    unfolding run_script_def using b by - (rule below_refl | rule below_rules | (rule below_runner, assumption) | assumption)+
  moreover have "below (dispatch_event h n type_text s) (dispatch_event h (n + k) type_text s)"
    unfolding dispatch_event_def using b by - (rule below_refl | rule below_rules | (rule below_runner, assumption) | assumption)+
  ultimately show ?thesis by (simp add: below_def)
qed

end
