(* ===== verification/Js_Library.thy ===== *)
theory Js_Library
  imports Js_Interpreter
begin

text \<open>
  What the script library promises: dictionaries (the properties of objects and the entries of
  \<open>Map\<close>), and splitting and joining.
\<close>

section \<open>Dictionaries\<close>

locale dictionary =
  fixes put :: "'k \<Rightarrow> 'v \<Rightarrow> 'm \<Rightarrow> 'm"
    and get :: "'k \<Rightarrow> 'm \<Rightarrow> 'v option"
    and same :: "'k \<Rightarrow> 'k \<Rightarrow> bool"
  assumes get_put: "get l (put k v m) = (if same k l then Some v else get l m)"
begin

lemma get_puts:
  "get l (fold (\<lambda>(k, v). put k v) ps m) =
     (case filter (\<lambda>p. same (fst p) l) ps of [] \<Rightarrow> get l m | q # qs \<Rightarrow> Some (snd (last (q # qs))))"
proof (induction ps arbitrary: m)
  case (Cons p ps)
  obtain k v where p: "p = (k, v)" by (cases p)
  show ?case
    by (simp add: p Cons get_put split: list.split)
qed simp

lemma put_twice: "get l (put k v (put k w m)) = get l (put k v m)"
  by (simp add: get_put)

end

interpretation properties: dictionary map_put "\<lambda>k m. map_of m k" "(=)"
  by unfold_locales (auto simp: map_of_map_put)

lemma feq_sym: "feq a b \<Longrightarrow> feq b a"
  by (auto simp: feq_def split: if_splits)

lemma feq_trans: "feq a b \<Longrightarrow> feq b c \<Longrightarrow> feq a c"
  by (auto simp: feq_def split: if_splits)

lemma strict_equals_sym: "strict_equals a b \<Longrightarrow> strict_equals b a"
  by (cases a; cases b) (simp_all add: strict_equals_def feq_sym)

lemma strict_equals_trans: "strict_equals a b \<Longrightarrow> strict_equals b c \<Longrightarrow> strict_equals a c"
  by (cases a; cases b; cases c) (auto simp: strict_equals_def intro: feq_trans)

interpretation entries: dictionary entry_put entry_get same_value
proof
  fix l k v m
  show "entry_get l (entry_put k v m) = (if same_value k l then Some v else entry_get l m)"
    by (induction k v m rule: entry_put.induct) (auto intro: strict_equals_trans strict_equals_sym)
qed

text \<open>A \<open>Map\<close> holds the last value set under an equal key.  After any sequence of \<open>set\<close> calls on a map,
  \<open>get\<close> gives the value of the last of them whose key equals the one asked for (\<open>===\<close>, so a NaN is
  never found), and what the map held before if there is none.\<close>

theorem map_get_after_sets:
  fixes s :: "'w js_state"
  assumes "a < length (js_objects s)"
  shows "map_method MapGet a [l] (fold (\<lambda>(k, v) s. snd (map_method MapSet a [k, v] s)) ps s) =
    (case filter (\<lambda>p. same_value (fst p) l) ps of
       [] \<Rightarrow> (case entry_get l (entries_at s a) of None \<Rightarrow> VUndefined | Some v \<Rightarrow> v)
     | q # qs \<Rightarrow> snd (last (q # qs)),
     fold (\<lambda>(k, v) s. snd (map_method MapSet a [k, v] s)) ps s)"
proof -
  have "entries_at (fold (\<lambda>(k, v) s. snd (map_method MapSet a [k, v] s)) ps s) a = fold (\<lambda>(k, v). entry_put k v) ps (entries_at s a)"
    using assms
  proof (induction ps arbitrary: s)
    case (Cons p ps)
    obtain k v where p: "p = (k, v)" by (cases p)
    have "snd (map_method MapSet a [k, v] s) = update_entries a (entry_put k v) s" by (simp add: map_method_def)
    moreover have "entries_at (update_entries a (entry_put k v) s) a = entry_put k v (entries_at s a)"
      using Cons.prems by (simp add: update_entries_def update_object_def object_at_def)
    moreover have "a < length (js_objects (update_entries a (entry_put k v) s))"
      using Cons.prems by (simp add: update_entries_def update_object_def)
    ultimately show ?case using Cons.IH [of "update_entries a (entry_put k v) s"] by (simp add: p)
  qed simp
  then show ?thesis
    using entries.get_puts [of l ps "entries_at s a"] by (simp add: map_method_def split: list.splits)
qed

text \<open>A key set twice, another one, and a NaN.\<close>

theorem map_get_after_sets_witness:
  "fst (map_method MapGet 0 [VNumber (Num 1)]
     (fold (\<lambda>(k, v) s. snd (map_method MapSet 0 [k, v] s))
       [(VNumber (Num 1), VNull), (VString ''1'', VString ''a''), (VNumber (Num 1), VString ''b''), (VNumber NotANumber, VNull)]
       (snd (new_value (new_object\<lparr> ob_is_map := True \<rparr>) (blank_state ()))))) = VString ''b''"
  by (subst map_get_after_sets) (simp_all add: new_value_def allocate_def blank_state_def strict_equals_def feq_def)

section \<open>Splitting and joining\<close>

lemma join_text_Cons: "ts \<noteq> [] \<Longrightarrow> join_text sep (t # ts) = t @ sep @ join_text sep ts"
  by (cases ts) simp_all

lemma split_text_nonempty: "sep \<noteq> [] \<Longrightarrow> split_text sep t \<noteq> []"
  by (subst split_text.simps) (simp split: option.split)

lemma join_split_text: "join_text sep (split_text sep t) = t"
proof (induction sep t rule: split_text.induct)
  case (1 sep t)
  show ?case
  proof (cases "sep = []")
    case True
    have "join_text [] (map (\<lambda>c. [c]) t) = t"
    proof (induction t)
      case (Cons c t)
      then show ?case by (cases t) simp_all
    qed simp
    with True show ?thesis by (simp add: split_text.simps [of "[]"])
  next
    case False
    show ?thesis
    proof (cases "find_sub sep t")
      case None
      with False show ?thesis by (simp add: split_text.simps [of sep t])
    next
      case (Some i)
      have "join_text sep (split_text sep (drop (i + length sep) t)) = drop (i + length sep) t"
        by (rule 1 [OF False Some])
      with False Some find_sub_split [OF Some] show ?thesis
        by (simp add: split_text.simps [of sep t] join_text_Cons split_text_nonempty)
    qed
  qed
qed

lemma texts_of_strings: "texts_of s (map VString ts) = Returns ts"
  by (induction ts) (simp_all add: to_text_def)

text \<open>C39: Joining undoes splitting.  For every string and every separator, the empty one and the one that does
  not occur included, \<open>t.split(sep).join(sep)\<close> is \<open>t\<close> again.\<close>

theorem split_join_roundtrip:
  "bind_run (string_split t [VString sep] s) (\<lambda>(v, s').
     case object_of v of None \<Rightarrow> Undefined | Some a \<Rightarrow> array_join a [VString sep] s') = Returns t"
proof -
  let ?vs = "map VString (split_text sep t)"
  have "string_split t [VString sep] s = Returns (plain_array ?vs s)"
    by (simp add: string_split_def regex_of_def object_of_def to_text_def)
  moreover have "plain_array ?vs s = (VObject (Some (length (js_objects s))), snd (allocate (array_object ?vs) s))"
    by (simp add: plain_array_def allocate_def)
  moreover have "elements_at (snd (allocate (array_object ?vs) s)) (length (js_objects s)) = ?vs"
    by (simp add: allocate_def object_at_def array_object_def)
  ultimately show ?thesis
    by (simp add: object_of_def array_join_def to_text_def texts_of_strings join_split_text)
qed

end
