(* ===== verification/Js_Core.thy ===== *)
theory Js_Core
  imports Js_Library
begin

text \<open>
  What a script of the everyday part of the language means.  The first half is a language of its own,
  with a semantics that knows nothing of the interpreter: integers of mathematics (a computation
  that leaves the 53 bits of a double has no meaning), truth values and texts; expressions;
  \<open>let\<close>, assignment, blocks with their own scope, \<open>if\<close>, \<open>while\<close>, \<open>for\<close>, \<open>break\<close> and \<open>continue\<close>.  The
  second half shows that the interpreter of \<open>js/js.cpp\<close> computes exactly that: a big-step execution
  of a program is a run of its syntax tree that ends, with the same variables in the same scopes.
\<close>

section \<open>The core language\<close>

datatype core_value = Whole int | Flag bool | Words string

datatype arith = Plus | Minus | Times | Remainder

datatype relation = Less | AtMost | More | AtLeast | Same | Different

datatype expr =
    ENat nat
  | EWords string
  | EFlag bool
  | EName string
  | EMinus expr
  | ENot expr
  | EArith arith expr expr
  | ECompare relation expr expr
  | EAnd expr expr
  | EOr expr expr
  | EChoose expr expr expr

datatype cmd =
    CLet string expr
  | CAssign string "arith option" expr
  | CBlock "cmd list"
  | CIf expr cmd "cmd option"
  | CWhile expr cmd
  | CFor string expr expr string "arith option" expr cmd
  | CBreak
  | CContinue

datatype result_kind = Finished | Broken | Continued

subsection \<open>Expressions\<close>

type_synonym scope = "string \<rightharpoonup> core_value"

text \<open>The innermost scope comes first.\<close>

fun look_up :: "scope list \<Rightarrow> string \<Rightarrow> core_value option" where
  "look_up [] x = None"
| "look_up (m # ms) x = (case m x of Some v \<Rightarrow> Some v | None \<Rightarrow> look_up ms x)"

fun rebind :: "string \<Rightarrow> core_value \<Rightarrow> scope list \<Rightarrow> scope list" where
  "rebind x v [] = []"
| "rebind x v (m # ms) = (if m x = None then m # rebind x v ms else m(x \<mapsto> v) # ms)"

fun truth :: "core_value \<Rightarrow> bool" where
  "truth (Whole i) = (i \<noteq> 0)"
| "truth (Flag b) = b"
| "truth (Words t) = (t \<noteq> [])"

definition exact :: "int \<Rightarrow> core_value option" where
  "exact i = (if \<bar>i\<bar> < 2 ^ 53 then Some (Whole i) else None)"

text \<open>The remainder has the sign of the dividend.\<close>

fun arith_value :: "arith \<Rightarrow> core_value \<Rightarrow> core_value \<Rightarrow> core_value option" where
  "arith_value Plus (Whole i) (Whole j) = exact (i + j)"
| "arith_value Plus (Words t) (Words u) = Some (Words (t @ u))"
| "arith_value Minus (Whole i) (Whole j) = exact (i - j)"
| "arith_value Times (Whole i) (Whole j) = exact (i * j)"
| "arith_value Remainder (Whole i) (Whole j) = (if j = 0 then None else Some (Whole (sgn i * (\<bar>i\<bar> mod \<bar>j\<bar>))))"
| "arith_value _ _ _ = None"

fun relation_value :: "relation \<Rightarrow> core_value \<Rightarrow> core_value \<Rightarrow> bool option" where
  "relation_value Same a b = Some (a = b)"
| "relation_value Different a b = Some (a \<noteq> b)"
| "relation_value Less (Whole i) (Whole j) = Some (i < j)"
| "relation_value AtMost (Whole i) (Whole j) = Some (i \<le> j)"
| "relation_value More (Whole i) (Whole j) = Some (j < i)"
| "relation_value AtLeast (Whole i) (Whole j) = Some (j \<le> i)"
| "relation_value _ _ _ = None"

fun denote :: "scope list \<Rightarrow> expr \<Rightarrow> core_value option" where
  "denote ms (ENat n) = Some (Whole (int n))"
| "denote ms (EWords t) = Some (Words t)"
| "denote ms (EFlag b) = Some (Flag b)"
| "denote ms (EName x) = look_up ms x"
| "denote ms (EMinus x) = (case denote ms x of Some (Whole i) \<Rightarrow> Some (Whole (- i)) | _ \<Rightarrow> None)"
| "denote ms (ENot x) = map_option (\<lambda>v. Flag (\<not> truth v)) (denote ms x)"
| "denote ms (EArith op x y) = Option.bind (denote ms x) (\<lambda>a. Option.bind (denote ms y) (arith_value op a))"
| "denote ms (ECompare op x y) =
     Option.bind (denote ms x) (\<lambda>a. Option.bind (denote ms y) (\<lambda>b. map_option Flag (relation_value op a b)))"
| "denote ms (EAnd x y) = Option.bind (denote ms x) (\<lambda>a. if truth a then denote ms y else Some a)"
| "denote ms (EOr x y) = Option.bind (denote ms x) (\<lambda>a. if truth a then Some a else denote ms y)"
| "denote ms (EChoose x y z) = Option.bind (denote ms x) (\<lambda>a. if truth a then denote ms y else denote ms z)"

text \<open>\<open>x = e\<close> and \<open>x op= e\<close>, for a variable that has been declared.\<close>

definition assigned :: "scope list \<Rightarrow> string \<Rightarrow> arith option \<Rightarrow> expr \<Rightarrow> scope list option" where
  "assigned ms x op y =
     Option.bind (look_up ms x) (\<lambda>a. Option.bind (denote ms y) (\<lambda>b.
       map_option (\<lambda>v. rebind x v ms) (case op of None \<Rightarrow> Some b | Some f \<Rightarrow> arith_value f a b)))"

subsection \<open>Statements\<close>

text \<open>\<open>runs cs ms k ms'\<close>: the statements \<open>cs\<close>, started with the scopes \<open>ms\<close>, end as \<open>k\<close> with \<open>ms'\<close>;
  \<open>loops\<close> is the loop with its test, its update and its body.\<close>

inductive
  steps :: "cmd \<Rightarrow> scope list \<Rightarrow> result_kind \<Rightarrow> scope list \<Rightarrow> bool" and
  runs :: "cmd list \<Rightarrow> scope list \<Rightarrow> result_kind \<Rightarrow> scope list \<Rightarrow> bool" and
  loops :: "expr \<Rightarrow> (string \<times> arith option \<times> expr) option \<Rightarrow> cmd \<Rightarrow> scope list \<Rightarrow> scope list \<Rightarrow> bool"
where
  Let_Step: "denote (m # ms) y = Some v \<Longrightarrow> steps (CLet x y) (m # ms) Finished (m(x \<mapsto> v) # ms)"
| Assign_Step: "assigned ms x op y = Some ms' \<Longrightarrow> steps (CAssign x op y) ms Finished ms'"
| Block_Step: "runs cs (Map.empty # ms) k (m # ms') \<Longrightarrow> steps (CBlock cs) ms k ms'"
| If_True: "denote ms x = Some v \<Longrightarrow> truth v \<Longrightarrow> steps c ms k ms' \<Longrightarrow> steps (CIf x c d) ms k ms'"
| If_False: "denote ms x = Some v \<Longrightarrow> \<not> truth v \<Longrightarrow> steps d ms k ms' \<Longrightarrow> steps (CIf x c (Some d)) ms k ms'"
| If_Skip: "denote ms x = Some v \<Longrightarrow> \<not> truth v \<Longrightarrow> steps (CIf x c None) ms Finished ms"
| While_Step: "loops x None c ms ms' \<Longrightarrow> steps (CWhile x c) ms Finished ms'"
| For_Step: "denote (Map.empty # ms) y = Some v \<Longrightarrow> loops z (Some (u, op, w)) c ([x \<mapsto> v] # ms) (m # ms') \<Longrightarrow>
    steps (CFor x y z u op w c) ms Finished ms'"
| Break_Step: "steps CBreak ms Broken ms"
| Continue_Step: "steps CContinue ms Continued ms"
| Runs_End: "runs [] ms Finished ms"
| Runs_Next: "steps c ms Finished ms1 \<Longrightarrow> runs cs ms1 k ms2 \<Longrightarrow> runs (c # cs) ms k ms2"
| Runs_Stop: "steps c ms k ms1 \<Longrightarrow> k \<noteq> Finished \<Longrightarrow> runs (c # cs) ms k ms1"
| Loop_End: "denote ms x = Some v \<Longrightarrow> \<not> truth v \<Longrightarrow> loops x u c ms ms"
| Loop_Break: "denote ms x = Some v \<Longrightarrow> truth v \<Longrightarrow> steps c ms Broken ms' \<Longrightarrow> loops x u c ms ms'"
| Loop_Next: "denote ms x = Some v \<Longrightarrow> truth v \<Longrightarrow> steps c ms k ms1 \<Longrightarrow> k \<noteq> Broken \<Longrightarrow>
    (case u of None \<Rightarrow> Some ms1 | Some (y, op, z) \<Rightarrow> assigned ms1 y op z) = Some ms2 \<Longrightarrow>
    loops x u c ms2 ms3 \<Longrightarrow> loops x u c ms ms3"

subsection \<open>The program as a syntax tree\<close>

fun arith_sign :: "arith \<Rightarrow> string" where
  "arith_sign Plus = ''+''" | "arith_sign Minus = ''-''" | "arith_sign Times = ''*''" | "arith_sign Remainder = ''%''"

fun relation_sign :: "relation \<Rightarrow> string" where
  "relation_sign Less = ''<''" | "relation_sign AtMost = ''<=''" | "relation_sign More = ''>''"
| "relation_sign AtLeast = ''>=''" | "relation_sign Same = ''===''" | "relation_sign Different = ''!==''"

fun expr_tree :: "expr \<Rightarrow> ast" where
  "expr_tree (ENat n) = NumberLiteral (Num (of_nat n))"
| "expr_tree (EWords t) = StringLiteral t"
| "expr_tree (EFlag b) = BooleanLiteral b"
| "expr_tree (EName x) = Identifier x"
| "expr_tree (EMinus x) = Unary ''-'' (expr_tree x)"
| "expr_tree (ENot x) = Unary ''!'' (expr_tree x)"
| "expr_tree (EArith op x y) = Binary (arith_sign op) (expr_tree x) (expr_tree y)"
| "expr_tree (ECompare op x y) = Binary (relation_sign op) (expr_tree x) (expr_tree y)"
| "expr_tree (EAnd x y) = Logical ''&&'' (expr_tree x) (expr_tree y)"
| "expr_tree (EOr x y) = Logical ''||'' (expr_tree x) (expr_tree y)"
| "expr_tree (EChoose x y z) = Conditional (expr_tree x) (expr_tree y) (expr_tree z)"

fun assign_tree :: "string \<times> arith option \<times> expr \<Rightarrow> ast" where
  "assign_tree (x, op, y) =
     Assignment (case op of None \<Rightarrow> ''='' | Some f \<Rightarrow> arith_sign f @ ''='') (Identifier x) (expr_tree y)"

definition let_tree :: "string \<Rightarrow> expr \<Rightarrow> ast" where
  "let_tree x y = VariableDeclaration True [(x, Some (expr_tree y))]"

fun cmd_tree :: "cmd \<Rightarrow> ast" where
  "cmd_tree (CLet x y) = let_tree x y"
| "cmd_tree (CAssign x op y) = ExpressionStatement (assign_tree (x, op, y))"
| "cmd_tree (CBlock cs) = Block (map cmd_tree cs)"
| "cmd_tree (CIf x c d) = IfStatement (expr_tree x) (cmd_tree c) (map_option cmd_tree d)"
| "cmd_tree (CWhile x c) = WhileStatement (expr_tree x) (cmd_tree c)"
| "cmd_tree (CFor x y z u op w c) =
     ForStatement (Some (let_tree x y)) (Some (expr_tree z)) (Some (assign_tree (u, op, w))) (cmd_tree c)"
| "cmd_tree CBreak = BreakStatement"
| "cmd_tree CContinue = ContinueStatement"

section \<open>Values of the core language in the interpreter\<close>

definition is_whole :: "int \<Rightarrow> fp \<Rightarrow> bool" where
  "is_whole i a \<longleftrightarrow> a = Num (of_int i) \<or> i = 0 \<and> a = NegZero"

fun stands_for :: "core_value \<Rightarrow> js_value \<Rightarrow> bool" where
  "stands_for (Whole i) (VNumber a) = is_whole i a"
| "stands_for (Flag b) (VBoolean c) = (b = c)"
| "stands_for (Words t) (VString u) = (t = u)"
| "stands_for _ _ = False"

lemma stands_for_whole [simp]: "stands_for (Whole i) v \<longleftrightarrow> (\<exists>a. v = VNumber a \<and> is_whole i a)"
  by (cases v) simp_all

lemma stands_for_flag [simp]: "stands_for (Flag b) v \<longleftrightarrow> v = VBoolean b"
  by (cases v) auto

lemma stands_for_words [simp]: "stands_for (Words t) v \<longleftrightarrow> v = VString t"
  by (cases v) auto

lemma is_whole_facts:
  "is_whole i a \<Longrightarrow> \<not> is_nan a \<and> \<not> is_inf a \<and> fvalue a = of_int i \<and> (is_zero a \<longleftrightarrow> i = 0)"
  by (auto simp: is_whole_def is_inf_def fvalue_def is_zero_def)

lemma is_whole_round: "\<bar>i\<bar> < 2 ^ 53 \<Longrightarrow> is_whole i (fround double (of_int i))"
  by (simp add: is_whole_def)

lemma add_whole: "is_whole i a \<Longrightarrow> is_whole j b \<Longrightarrow> \<bar>i + j\<bar> < 2 ^ 53 \<Longrightarrow> is_whole (i + j) (add64 a b)"
  using is_whole_facts [of i a] is_whole_facts [of j b] is_whole_round [of "i + j"]
  by (auto simp: fadd_def) (auto simp: is_whole_def)

lemma neg_whole: "is_whole i a \<Longrightarrow> is_whole (- i) (fneg a)"
  by (cases "i = 0") (auto simp: is_whole_def fneg_def)

lemma sub_whole: "is_whole i a \<Longrightarrow> is_whole j b \<Longrightarrow> \<bar>i - j\<bar> < 2 ^ 53 \<Longrightarrow> is_whole (i - j) (sub64 a b)"
  using add_whole [of i a "- j" "fneg b"] by (simp add: fsub_def neg_whole)

lemma signed_zero_whole: "is_whole 0 (signed_zero b)"
  by (simp add: is_whole_def signed_zero_def)

lemma mul_whole: "is_whole i a \<Longrightarrow> is_whole j b \<Longrightarrow> \<bar>i * j\<bar> < 2 ^ 53 \<Longrightarrow> is_whole (i * j) (mul64 a b)"
  using is_whole_facts [of i a] is_whole_facts [of j b] is_whole_round [of "i * j"] signed_zero_whole
  by (auto simp: fmul_def Let_def)

lemma mod_whole:
  assumes "is_whole i a" and "is_whole j b" and "j \<noteq> 0"
  shows "is_whole (sgn i * (\<bar>i\<bar> mod \<bar>j\<bar>)) (fmod64 a b)"
proof (cases "i = 0")
  case True
  with assms show ?thesis using is_whole_facts [OF assms(1)] is_whole_facts [OF assms(2)] by (auto simp: fmod64_def)
next
  case False
  have a: "a = Num (of_int i)" using assms(1) False by (simp add: is_whole_def)
  have f: "\<lfloor>\<bar>of_int i\<bar> / \<bar>of_int j\<bar> :: rat\<rfloor> = \<bar>i\<bar> div \<bar>j\<bar>"
    using floor_divide_of_int_eq [of "\<bar>i\<bar>" "\<bar>j\<bar>", where ?'a = rat] by simp
  have "(\<bar>of_int i\<bar> - of_int (\<bar>i\<bar> div \<bar>j\<bar>) * \<bar>of_int j\<bar> :: rat) = of_int (\<bar>i\<bar> - (\<bar>i\<bar> div \<bar>j\<bar>) * \<bar>j\<bar>)" by simp
  also have "\<bar>i\<bar> - (\<bar>i\<bar> div \<bar>j\<bar>) * \<bar>j\<bar> = \<bar>i\<bar> mod \<bar>j\<bar>" by (rule minus_div_mult_eq_mod)
  finally have r: "(\<bar>of_int i\<bar> - of_int (\<bar>i\<bar> div \<bar>j\<bar>) * \<bar>of_int j\<bar> :: rat) = of_int (\<bar>i\<bar> mod \<bar>j\<bar>)" .
  have n: "negative a \<longleftrightarrow> i < 0" by (simp add: a negative_def)
  have z: "is_nan a = False" "is_nan b = False" "is_inf a = False" "is_inf b = False" "is_zero a = False" "is_zero b = False"
      "fvalue a = of_int i" "fvalue b = of_int j"
    using is_whole_facts [OF assms(1)] is_whole_facts [OF assms(2)] False assms(3) by simp_all
  have m: "fmod64 a b = (let r = (of_int (\<bar>i\<bar> mod \<bar>j\<bar>) :: rat) in
      if r = 0 then signed_zero (negative a) else if negative a then Num (- r) else Num r)"
    by (simp only: fmod64_def Let_def z f r if_False simp_thms)
  show ?thesis
    unfolding m n Let_def using False by (cases "i < 0") (simp_all add: is_whole_def signed_zero_def)
qed

lemma truth_whole: "stands_for v w \<Longrightarrow> to_boolean w = truth v"
  by (cases v) (auto simp: to_boolean_def is_whole_facts)

lemma arith_correct:
  assumes "arith_value op a b = Some v" and "stands_for a x" and "stands_for b y"
  shows "\<exists>w. evaluate_binary (arith_sign op) x y s = Returns w \<and> stands_for v w"
  using assms
  by (induction op a b rule: arith_value.induct)
    (auto simp: evaluate_binary_def is_text_def to_number_def to_text_def exact_def
      intro: add_whole [simplified] sub_whole [simplified] mul_whole [simplified] mod_whole split: if_splits)

lemma strict_equals_core: "stands_for a x \<Longrightarrow> stands_for b y \<Longrightarrow> strict_equals x y \<longleftrightarrow> a = b"
  by (cases a; cases b) (auto simp: strict_equals_def feq_def dest!: is_whole_facts)

lemma relation_correct:
  assumes "relation_value op a b = Some v" and "stands_for a x" and "stands_for b y"
  shows "evaluate_binary (relation_sign op) x y s = Returns (VBoolean v)"
  using assms
  by (induction op a b rule: relation_value.induct)
    (auto simp: evaluate_binary_def strict_equals_core to_number_def fless_def fle_def feq_def dest!: is_whole_facts)

section \<open>Scopes and environments\<close>

text \<open>The environments \<open>as\<close>, each the parent of the one before, hold the scopes.  Only the outermost may
  hold other names too, the globals.\<close>

fun chained :: "js_env list \<Rightarrow> nat list \<Rightarrow> scope list \<Rightarrow> bool" where
  "chained es [] [] = True"
| "chained es (a # as) (m # ms) =
     (a < length es \<and> (\<forall>x v. m x = Some v \<longrightarrow> (\<exists>w. en_variables (es ! a) x = Some w \<and> stands_for v w)) \<and>
      (as \<noteq> [] \<longrightarrow> en_parent (es ! a) = Some (hd as) \<and> hd as < a \<and> dom (en_variables (es ! a)) \<subseteq> dom m) \<and>
      chained es as ms)"
| "chained es _ _ = False"

definition bind_name :: "nat \<Rightarrow> string \<Rightarrow> js_value \<Rightarrow> js_env list \<Rightarrow> js_env list" where
  "bind_name e x w es = es[e := (es ! e)\<lparr> en_variables := (en_variables (es ! e))(x \<mapsto> w) \<rparr>]"

lemma declare_variable_envs: "declare_variable e x w s = s\<lparr> js_envs := bind_name e x w (js_envs s) \<rparr>"
  by (simp add: declare_variable_def bind_name_def)

lemma length_bind_name [simp]: "length (bind_name e x w es) = length es"
  by (simp add: bind_name_def)

lemma chained_append: "chained es as ms \<Longrightarrow> chained (es @ [E]) as ms"
  by (induction es as ms rule: chained.induct) (auto simp: nth_append)

lemma chained_older: "chained es (a # as) ms \<Longrightarrow> b \<in> set as \<Longrightarrow> b < a"
proof (induction as arbitrary: a ms)
  case (Cons c as)
  obtain m n ns where ms: "ms = m # n # ns"
    using Cons.prems(1) by (cases ms; cases "tl ms") auto
  have "c < a" "chained es (c # as) (n # ns)" using Cons.prems(1) by (auto simp: ms)
  with Cons show ?case by (metis less_trans set_ConsD)
qed simp

lemma chained_elsewhere: "chained es as ms \<Longrightarrow> b \<notin> set as \<Longrightarrow> chained (bind_name b x w es) as ms"
  by (induction es as ms rule: chained.induct) (auto simp: bind_name_def)

lemma chained_bind:
  assumes "chained es (a # as) (m # ms)" and "stands_for v w"
  shows "chained (bind_name a x w es) (a # as) (m(x \<mapsto> v) # ms)"
proof -
  have "a \<notin> set as" using chained_older [OF assms(1)] by blast
  with assms have "chained (bind_name a x w es) as ms" by (simp add: chained_elsewhere)
  with assms show ?thesis by (auto simp: bind_name_def)
qed

text \<open>The search of the interpreter finds the scope that \<open>look_up\<close> and \<open>rebind\<close> find.\<close>

lemma chained_find:
  "chained es (a # as) ms \<Longrightarrow> look_up ms x = Some v \<Longrightarrow> a \<le> n \<Longrightarrow>
    \<exists>b w. find_from n es a x = Some b \<and> b < length es \<and> en_variables (es ! b) x = Some w \<and> stands_for v w \<and> b \<in> set (a # as) \<and>
      (\<forall>v' w'. stands_for v' w' \<longrightarrow> chained (bind_name b x w' es) (a # as) (rebind x v' ms))"
proof (induction ms arbitrary: a as n)
  case (Cons m ms)
  show ?case
  proof (cases "m x")
    case (Some u)
    then obtain w where w: "en_variables (es ! a) x = Some w" "stands_for u w" using Cons.prems(1) by simp (metis Some)
    moreover have "find_from n es a x = Some a" by (subst find_from.simps) (simp add: w(1) domI)
    moreover have "chained (bind_name a x w' es) (a # as) (m(x \<mapsto> v') # ms)" if "stands_for v' w'" for v' w'
      using chained_bind [OF Cons.prems(1) that] .
    ultimately show ?thesis using Cons.prems Some by auto
  next
    case None
    with Cons.prems(2) have l: "look_up ms x = Some v" by simp
    then obtain c cs where as: "as = c # cs" using Cons.prems(1) by (cases as; cases ms) auto
    have c: "chained es (c # cs) ms" "c < a" "en_parent (es ! a) = Some c" "dom (en_variables (es ! a)) \<subseteq> dom m"
      using Cons.prems(1) by (auto simp: as)
    obtain k where n: "n = Suc k" "c \<le> k" using c(2) Cons.prems(3) by (cases n) auto
    obtain b w where b: "find_from k es c x = Some b" "b < length es" "en_variables (es ! b) x = Some w" "stands_for v w"
        "b \<in> set (c # cs)"
        "\<And>v' w'. stands_for v' w' \<Longrightarrow> chained (bind_name b x w' es) (c # cs) (rebind x v' ms)"
      using Cons.IH [OF c(1) l n(2)] by blast
    have x: "x \<notin> dom (en_variables (es ! a))" using c(4) None by auto
    have f: "find_from n es a x = Some b" unfolding n by (subst find_from.simps) (simp add: c(3) b(1) x)
    have "b < a" using chained_older [OF Cons.prems(1)] b(5) as by simp
    then have "chained (bind_name b x w' es) (a # as) (m # rebind x v' ms)" if "stands_for v' w'" for v' w'
      using Cons.prems(1) b(6) [OF that] as by (auto simp: bind_name_def)
    with f b None as show ?thesis by (intro exI [of _ b] exI [of _ w]) simp
  qed
qed simp

lemma chained_extend:
  "chained es (a # as) ms \<Longrightarrow> chained (es @ [new_env\<lparr> en_parent := Some a \<rparr>]) (length es # a # as) (Map.empty # ms)"
proof -
  assume c: "chained es (a # as) ms"
  then have "a < length es" by (cases ms) auto
  with chained_append [OF c] show ?thesis by (simp add: nth_append new_env_def)
qed

section \<open>Runs of the interpreter\<close>

text \<open>With enough fuel the answer is \<open>a\<close>, however much more there is.\<close>

definition ends :: "(nat \<Rightarrow> 'a run) \<Rightarrow> 'a \<Rightarrow> bool" where
  "ends f a \<longleftrightarrow> (\<exists>n. \<forall>m \<ge> n. f m = Returns a)"

lemma ends_now: "ends (\<lambda>n. Returns a) a"
  by (simp add: ends_def)

lemma ends_bind: "ends f a \<Longrightarrow> ends (\<lambda>n. g n a) b \<Longrightarrow> ends (\<lambda>n. bind_run (f n) (g n)) b"
proof -
  assume "ends f a" and "ends (\<lambda>n. g n a) b"
  then obtain n k where "\<forall>m \<ge> n. f m = Returns a" "\<forall>m \<ge> k. g m a = Returns b" by (auto simp: ends_def)
  then show ?thesis by (auto simp: ends_def intro!: exI [of _ "max n k"])
qed

lemma ends_interp: "ends (\<lambda>n. perform h (interp h n) q s) a \<Longrightarrow> ends (\<lambda>n. interp h n q s) a"
proof -
  assume "ends (\<lambda>n. perform h (interp h n) q s) a"
  then obtain n where n: "\<forall>m \<ge> n. perform h (interp h m) q s = Returns a" by (auto simp: ends_def)
  have "interp h m q s = Returns a" if "Suc n \<le> m" for m
    using that n by (cases m) simp_all
  then show ?thesis by (auto simp: ends_def)
qed

text \<open>What a statement may change: the environments, and they hold the scopes again.\<close>

definition holding :: "'w js_state \<Rightarrow> 'w js_state \<Rightarrow> nat list \<Rightarrow> scope list \<Rightarrow> bool" where
  "holding s s' as ms \<longleftrightarrow> s' = s\<lparr> js_envs := js_envs s' \<rparr> \<and> chained (js_envs s') as ms"

lemma holding_trans: "holding s s1 as ms \<Longrightarrow> holding s1 s2 as' ms' \<Longrightarrow> holding s s2 as' ms'"
  unfolding holding_def by (cases s; cases s1; cases s2) simp

lemma holding_error: "holding s s' as ms \<Longrightarrow> js_error s' = js_error s"
  unfolding holding_def by (cases s; cases s') simp

lemma holding_tail: "holding s s' (a # as) (m # ms) \<Longrightarrow> holding s s' as ms"
  by (simp add: holding_def)

subsection \<open>Expressions\<close>

lemma ends_evaluating: "ends (\<lambda>n. evaluate h (interp h n) x e s) (w, s') \<Longrightarrow> ends (\<lambda>n. evaluating (interp h n) x e s) (w, s')"
  unfolding evaluating_def
  by (rule ends_bind [where a = "(NormalCompletion, w, s')"], rule ends_interp)
    (auto simp: perform_def returning_def intro: ends_bind ends_now)

lemma evaluate_core:
  assumes "js_error s = None"
  shows "evaluate h r (NumberLiteral k) e s = Returns (VNumber k, s)"
    and "evaluate h r (StringLiteral t) e s = Returns (VString t, s)"
    and "evaluate h r (BooleanLiteral b) e s = Returns (VBoolean b, s)"
    and "evaluate h r (Identifier name) e s = Returns (evaluate_identifier name e s)"
    and "evaluate h r (Unary op x) e s = evaluate_unary r op x e s"
    and "evaluate h r (Binary op x y) e s =
      bind_run (evaluating r x e s) (\<lambda>(v, s1). bind_run (evaluating r y e s1) (\<lambda>(w, s2).
        bind_run (evaluate_binary op v w s2) (\<lambda>u. Returns (u, s2))))"
    and "evaluate h r (Logical op x y) e s =
      bind_run (evaluating r x e s) (\<lambda>(v, s1). if to_boolean v = (op = ''&&'') then evaluating r y e s1 else Returns (v, s1))"
    and "evaluate h r (Conditional x y z) e s =
      bind_run (evaluating r x e s) (\<lambda>(v, s1). evaluating r (if to_boolean v then y else z) e s1)"
    and "evaluate h r (Assignment op x y) e s = evaluate_assignment r op x y e s"
  using assms by (simp_all add: evaluate_def)

lemma name_evaluates:
  assumes "look_up ms x = Some v" and "chained (js_envs s) (e # as) ms"
  obtains b w where "find_variable s e x = Some b" and "variable_value s b x = w" and "stands_for v w"
    and "\<And>v' w'. stands_for v' w' \<Longrightarrow> chained (bind_name b x w' (js_envs s)) (e # as) (rebind x v' ms)"
proof -
  have "e \<le> length (js_envs s)" using assms(2) by (cases ms) auto
  from chained_find [OF assms(2,1) this] that show ?thesis
    by (auto simp: find_variable_def variable_value_def)
qed

text \<open>An expression is evaluated to its value and changes nothing.\<close>

abbreviation evaluates :: "'w host \<Rightarrow> ast \<Rightarrow> nat \<Rightarrow> 'w js_state \<Rightarrow> js_value \<Rightarrow> bool" where
  "evaluates h x e s w \<equiv> ends (\<lambda>n. evaluating (interp h n) x e s) (w, s)"

lemma expr_evaluates:
  assumes "denote ms x = Some v" and c: "chained (js_envs s) (e # as) ms" and err: "js_error s = None"
  shows "\<exists>w. stands_for v w \<and> evaluates h (expr_tree x) e s w"
  using assms(1)
proof (induction x arbitrary: v)
  case (EName y)
  then have "look_up ms y = Some v" by simp
  then obtain b w where w: "find_variable s e y = Some b" "variable_value s b y = w" "stands_for v w"
    using name_evaluates [OF _ c] by metis
  then have "evaluates h (Identifier y) e s w"
    by (intro ends_evaluating) (simp add: evaluate_core [OF err] evaluate_identifier_def ends_now)
  with w(3) show ?case by auto
next
  case (EMinus x)
  then obtain i where i: "denote ms x = Some (Whole i)" "v = Whole (- i)"
    by (auto split: option.splits core_value.splits)
  with EMinus.IH obtain w where w: "stands_for (Whole i) w" "evaluates h (expr_tree x) e s w" by blast
  then have "evaluates h (expr_tree (EMinus x)) e s (VNumber (fneg (to_number w)))"
    by (intro ends_evaluating) (auto simp: evaluate_core [OF err] evaluate_unary_def intro!: ends_bind ends_now)
  moreover have "stands_for v (VNumber (fneg (to_number w)))" using w(1) i(2) by (auto simp: to_number_def neg_whole)
  ultimately show ?case by blast
next
  case (ENot x)
  then obtain a where a: "denote ms x = Some a" "v = Flag (\<not> truth a)" by auto
  with ENot.IH obtain w where w: "stands_for a w" "evaluates h (expr_tree x) e s w" by blast
  then have "evaluates h (expr_tree (ENot x)) e s (VBoolean (\<not> to_boolean w))"
    by (intro ends_evaluating) (auto simp: evaluate_core [OF err] evaluate_unary_def intro!: ends_bind ends_now)
  then show ?case using a(2) truth_whole [OF w(1)] by (intro exI) simp
next
  case (EArith op x y)
  then obtain a b where ab: "denote ms x = Some a" "denote ms y = Some b" "arith_value op a b = Some v"
    by (auto simp: bind_eq_Some_conv)
  from EArith.IH ab obtain w u where w: "stands_for a w" "evaluates h (expr_tree x) e s w"
    and u: "stands_for b u" "evaluates h (expr_tree y) e s u" by blast
  from arith_correct [OF ab(3) w(1) u(1), of s] obtain z where z: "evaluate_binary (arith_sign op) w u s = Returns z" "stands_for v z"
    by blast
  from w u have "evaluates h (expr_tree (EArith op x y)) e s z"
    by (intro ends_evaluating) (auto simp: evaluate_core [OF err] z(1) intro!: ends_bind ends_now)
  with z(2) show ?case by blast
next
  case (ECompare op x y)
  then obtain a b z where ab: "denote ms x = Some a" "denote ms y = Some b" "relation_value op a b = Some z" "v = Flag z"
    by (auto simp: bind_eq_Some_conv)
  from ECompare.IH ab obtain w u where w: "stands_for a w" "evaluates h (expr_tree x) e s w"
    and u: "stands_for b u" "evaluates h (expr_tree y) e s u" by blast
  from w u have "evaluates h (expr_tree (ECompare op x y)) e s (VBoolean z)"
    by (intro ends_evaluating)
      (auto simp: evaluate_core [OF err] relation_correct [OF ab(3) w(1) u(1)] intro!: ends_bind ends_now)
  with ab(4) show ?case by auto
next
  case (EAnd x y)
  then obtain a where a: "denote ms x = Some a" "(if truth a then denote ms y else Some a) = Some v"
    by (auto simp: bind_eq_Some_conv)
  from EAnd.IH(1) [OF a(1)] obtain w where w: "stands_for a w" "evaluates h (expr_tree x) e s w" by blast
  obtain u where u: "stands_for v u" "if truth a then evaluates h (expr_tree y) e s u else u = w"
    using EAnd.IH(2) [of v] a(2) w(1) by (auto split: if_splits)
  with w have "evaluates h (expr_tree (EAnd x y)) e s u"
    by (intro ends_evaluating)
      (auto simp: evaluate_core [OF err] truth_whole [OF w(1)] intro!: ends_bind ends_now split: if_splits)
  with u(1) show ?case by blast
next
  case (EOr x y)
  then obtain a where a: "denote ms x = Some a" "(if truth a then Some a else denote ms y) = Some v"
    by (auto simp: bind_eq_Some_conv)
  from EOr.IH(1) [OF a(1)] obtain w where w: "stands_for a w" "evaluates h (expr_tree x) e s w" by blast
  obtain u where u: "stands_for v u" "if truth a then u = w else evaluates h (expr_tree y) e s u"
    using EOr.IH(2) [of v] a(2) w(1) by (auto split: if_splits)
  with w have "evaluates h (expr_tree (EOr x y)) e s u"
    by (intro ends_evaluating)
      (auto simp: evaluate_core [OF err] truth_whole [OF w(1)] intro!: ends_bind ends_now split: if_splits)
  with u(1) show ?case by blast
next
  case (EChoose x y z)
  then obtain a where a: "denote ms x = Some a" "(if truth a then denote ms y else denote ms z) = Some v"
    by (auto simp: bind_eq_Some_conv)
  from EChoose.IH(1) [OF a(1)] obtain w where w: "stands_for a w" "evaluates h (expr_tree x) e s w" by blast
  obtain u where u: "stands_for v u" "evaluates h (expr_tree (if truth a then y else z)) e s u"
    using EChoose.IH(2,3) [of v] a(2) by (auto split: if_splits)
  with w have "evaluates h (expr_tree (EChoose x y z)) e s u"
    by (intro ends_evaluating)
      (auto simp: evaluate_core [OF err] truth_whole [OF w(1)] intro!: ends_bind split: if_splits)
  with u(1) show ?case by blast
qed (auto simp: evaluate_core [OF err] is_whole_def intro!: exI ends_evaluating ends_now)

subsection \<open>Assignments\<close>

lemma assign_evaluates:
  assumes "assigned ms x op y = Some ms'" and c: "chained (js_envs s) (e # as) ms" and err: "js_error s = None"
  shows "\<exists>w s'. ends (\<lambda>n. evaluating (interp h n) (assign_tree (x, op, y)) e s) (w, s') \<and> holding s s' (e # as) ms'"
proof -
  obtain a b v where ab: "look_up ms x = Some a" "denote ms y = Some b"
      "(case op of None \<Rightarrow> Some b | Some f \<Rightarrow> arith_value f a b) = Some v" "ms' = rebind x v ms"
    using assms(1) by (auto simp: assigned_def bind_eq_Some_conv)
  obtain u where u: "stands_for b u" "evaluates h (expr_tree y) e s u"
    using expr_evaluates [OF ab(2) c err] by blast
  obtain f w where f: "find_variable s e x = Some f" "variable_value s f x = w" "stands_for a w"
      "\<And>v' w'. stands_for v' w' \<Longrightarrow> chained (bind_name f x w' (js_envs s)) (e # as) (rebind x v' ms)"
    using name_evaluates [OF ab(1) c] by metis
  have n: "evaluates h (Identifier x) e s w"
    by (intro ends_evaluating) (simp add: evaluate_core [OF err] evaluate_identifier_def f ends_now)
  obtain z where z: "stands_for v z"
      "ends (\<lambda>n. if (case op of None \<Rightarrow> ''='' | Some f \<Rightarrow> arith_sign f @ ''='') = ''='' then Returns (u, s)
        else bind_run (evaluating (interp h n) (Identifier x) e s) (\<lambda>(current, s2).
          bind_run (evaluate_binary (take 1 (case op of None \<Rightarrow> ''='' | Some f \<Rightarrow> arith_sign f @ ''='')) current u s2)
            (\<lambda>w. Returns (w, s2)))) (z, s)"
  proof (cases op)
    case None
    with that [of u] ab(3) u(1) show ?thesis by (simp add: ends_now)
  next
    case (Some g)
    then obtain z where "evaluate_binary (arith_sign g) w u s = Returns z" "stands_for v z"
      using arith_correct [OF _ f(3) u(1), of g v s] ab(3) by auto
    moreover have "take 1 (arith_sign g @ ''='') = arith_sign g" "arith_sign g @ ''='' \<noteq> ''=''" by (cases g; simp)+
    ultimately show ?thesis using n by (intro that [of z]) (auto simp: Some intro!: ends_bind ends_now)
  qed
  let ?s' = "declare_variable f x z s"
  have "ends (\<lambda>n. evaluating (interp h n) (assign_tree (x, op, y)) e s) (z, ?s')"
    using u(2) z(2)
    by (intro ends_evaluating)
      (auto simp: evaluate_core [OF err] evaluate_assignment_def store_to_def assign_variable_def f(1)
        simp del: evaluate_binary_def intro!: ends_bind ends_now)
  moreover have "holding s ?s' (e # as) ms'"
    using f(4) [OF z(1)] by (simp add: holding_def declare_variable_envs ab(4))
  ultimately show ?thesis by blast
qed

subsection \<open>Statements\<close>

lemma execute_core:
  assumes "js_error s = None"
  shows "execute r (Program xs) e s = execute_all r xs e VUndefined s"
    and "execute r (Block xs) e s = (case extend_env (Some e) s of (b, s1) \<Rightarrow> execute_all r xs b VUndefined s1)"
    and "execute r (ExpressionStatement x) e s = returning (evaluating r x e s)"
    and "execute r (VariableDeclaration l ds) e s = execute_declarations r ds e s"
    and "execute r (IfStatement x y z) e s =
      bind_run (evaluating r x e s) (\<lambda>(v, s1).
        if to_boolean v then r (DoExecute y e) s1
        else case z of Some w \<Rightarrow> r (DoExecute w e) s1 | None \<Rightarrow> normally s1)"
    and "execute r (WhileStatement x y) e s = r (DoLoop (Some x) None y e) s"
    and "execute r (ForStatement i c u y) e s = execute_for r i c u y e s"
    and "execute r BreakStatement e s = Returns (BreakCompletion, VUndefined, s)"
    and "execute r ContinueStatement e s = Returns (ContinueCompletion, VUndefined, s)"
  using assms by (simp_all add: execute_def)

fun completion_of :: "result_kind \<Rightarrow> completion_type" where
  "completion_of Finished = NormalCompletion" | "completion_of Broken = BreakCompletion"
| "completion_of Continued = ContinueCompletion"

lemma completion_of_iff [simp]:
  "completion_of k = NormalCompletion \<longleftrightarrow> k = Finished" "completion_of k = BreakCompletion \<longleftrightarrow> k = Broken"
  "completion_of k \<noteq> ReturnCompletion"
  by (cases k; simp)+

text \<open>A request is answered as the core language says.\<close>

definition answered :: "'w host \<Rightarrow> request \<Rightarrow> 'w js_state \<Rightarrow> result_kind \<Rightarrow> nat list \<Rightarrow> scope list \<Rightarrow> bool" where
  "answered h q s k as ms \<longleftrightarrow> (\<exists>v s'. ends (\<lambda>n. interp h n q s) (completion_of k, v, s') \<and> holding s s' as ms)"

lemma answered_execute:
  "ends (\<lambda>n. execute (interp h n) x e s) (completion_of k, v, s') \<Longrightarrow> holding s s' as ms \<Longrightarrow>
    answered h (DoExecute x e) s k as ms"
  unfolding answered_def by (intro exI conjI, rule ends_interp) (simp add: perform_def)

lemma answered_loop:
  "ends (\<lambda>n. loop_step (interp h n) test update body e s) (completion_of k, v, s') \<Longrightarrow> holding s s' as ms \<Longrightarrow>
    answered h (DoLoop test update body e) s k as ms"
  unfolding answered_def by (intro exI conjI, rule ends_interp) (simp add: perform_def)

lemma let_answered:
  assumes "denote (m # ms) y = Some v" and c: "chained (js_envs s) (e # as) (m # ms)" and err: "js_error s = None"
  shows "\<exists>s'. ends (\<lambda>n. interp h n (DoExecute (let_tree x y) e) s) (NormalCompletion, VUndefined, s') \<and>
    holding s s' (e # as) (m(x \<mapsto> v) # ms)"
proof -
  obtain w where w: "stands_for v w" "evaluates h (expr_tree y) e s w" using expr_evaluates [OF assms(1) c err] by blast
  let ?s' = "declare_variable e x w s"
  have "ends (\<lambda>n. interp h n (DoExecute (let_tree x y) e) s) (NormalCompletion, VUndefined, ?s')"
    using w(2)
    by (intro ends_interp) (auto simp: perform_def let_tree_def execute_core [OF err] normally_def intro!: ends_bind ends_now)
  moreover have "holding s ?s' (e # as) (m(x \<mapsto> v) # ms)"
    using chained_bind [OF c w(1)] by (simp add: holding_def declare_variable_envs del: chained.simps)
  ultimately show ?thesis by blast
qed

lemma entered:
  assumes "chained (js_envs s) (e # as) ms" and "extend_env (Some e) s = (b, s1)"
  shows "holding s s1 (b # e # as) (Map.empty # ms)"
  using assms chained_extend [OF assms(1)] by (auto simp: extend_env_def holding_def)

lemma answered_after:
  assumes "holding s s1 as0 ms0" and "answered h q s1 k as ms"
  shows "\<exists>v s'. ends (\<lambda>n. interp h n q s1) (completion_of k, v, s') \<and> holding s s' as ms"
  using assms unfolding answered_def by (blast intro: holding_trans)

lemma loop_core:
  assumes "evaluates h x e s w"
  shows "\<not> to_boolean w \<Longrightarrow> ends (\<lambda>n. loop_step (interp h n) (Some x) u c e s) (NormalCompletion, VUndefined, s)"
    and "to_boolean w \<Longrightarrow> js_error s = None \<Longrightarrow> ends (\<lambda>n. interp h n (DoExecute c e) s) (BreakCompletion, v, s1) \<Longrightarrow>
      ends (\<lambda>n. loop_step (interp h n) (Some x) u c e s) (NormalCompletion, VUndefined, s1)"
    and "to_boolean w \<Longrightarrow> js_error s = None \<Longrightarrow> ends (\<lambda>n. interp h n (DoExecute c e) s) (t, v, s1) \<Longrightarrow>
      t = NormalCompletion \<or> t = ContinueCompletion \<Longrightarrow>
      ends (\<lambda>n. case u of None \<Rightarrow> Returns (VUndefined, s1) | Some z \<Rightarrow> evaluating (interp h n) z e s1) (z, s2) \<Longrightarrow>
      ends (\<lambda>n. interp h n (DoLoop (Some x) u c e) s2) a \<Longrightarrow>
      ends (\<lambda>n. loop_step (interp h n) (Some x) u c e s) a"
  using assms by (auto simp: loop_step_def normally_def intro!: ends_bind ends_now)

lemma core_runs:
  "steps c ms k ms' \<Longrightarrow> chained (js_envs s) (e # as) ms \<Longrightarrow> js_error s = None \<Longrightarrow>
    answered h (DoExecute (cmd_tree c) e) s k (e # as) ms'"
  "runs cs ms k ms' \<Longrightarrow> chained (js_envs s) (e # as) ms \<Longrightarrow> js_error s = None \<Longrightarrow>
    \<exists>v s'. ends (\<lambda>n. execute_all (interp h n) (map cmd_tree cs) e u s) (completion_of k, v, s') \<and> holding s s' (e # as) ms'"
  "loops x w c ms ms' \<Longrightarrow> chained (js_envs s) (e # as) ms \<Longrightarrow> js_error s = None \<Longrightarrow>
    \<exists>s'. ends (\<lambda>n. interp h n (DoLoop (Some (expr_tree x)) (map_option assign_tree w) (cmd_tree c) e) s)
        (NormalCompletion, VUndefined, s') \<and> holding s s' (e # as) ms'"
proof (induction arbitrary: s e as and s e as u and s e as rule: steps_runs_loops.inducts)
  case (Let_Step m ms y v x)
  from let_answered [OF this] obtain s' where
    "ends (\<lambda>n. interp h n (DoExecute (let_tree x y) e) s) (NormalCompletion, VUndefined, s')"
    "holding s s' (e # as) (m(x \<mapsto> v) # ms)" by blast
  then show ?case by (auto simp: answered_def)
next
  case (Assign_Step ms x op y ms')
  from assign_evaluates [OF this] obtain w s' where
    "ends (\<lambda>n. evaluating (interp h n) (assign_tree (x, op, y)) e s) (w, s')" "holding s s' (e # as) ms'" by blast
  then show ?case
    using Assign_Step.prems(2)
    by (intro answered_execute) (auto simp: execute_core returning_def simp del: assign_tree.simps intro!: ends_bind ends_now)
next
  case (Block_Step cs ms k m ms')
  obtain b s1 where b: "extend_env (Some e) s = (b, s1)" by (cases "extend_env (Some e) s")
  note h1 = entered [OF Block_Step.prems(1) b]
  from Block_Step.IH [of s1 b "e # as" VUndefined] h1 holding_error [OF h1] Block_Step.prems(2)
  obtain v s' where s': "ends (\<lambda>n. execute_all (interp h n) (map cmd_tree cs) b VUndefined s1) (completion_of k, v, s')"
      "holding s1 s' (b # e # as) (m # ms')" by (auto simp: holding_def)
  show ?case
    using s' holding_tail [OF holding_trans [OF h1 s'(2)]] Block_Step.prems(2)
    by (intro answered_execute) (auto simp: execute_core b)
next
  case (If_True ms x v c k ms' d)
  from expr_evaluates [OF If_True.hyps(1) If_True.prems] obtain w where
    w: "stands_for v w" "evaluates h (expr_tree x) e s w" by blast
  from If_True.IH [OF If_True.prems] obtain r s' where
    r: "ends (\<lambda>n. interp h n (DoExecute (cmd_tree c) e) s) (completion_of k, r, s')" "holding s s' (e # as) ms'"
    by (auto simp: answered_def)
  with w If_True truth_whole [OF w(1)] show ?case
    by (intro answered_execute) (auto simp: execute_core intro!: ends_bind)
next
  case (If_False ms x v d k ms' c)
  from expr_evaluates [OF If_False.hyps(1) If_False.prems] obtain w where
    w: "stands_for v w" "evaluates h (expr_tree x) e s w" by blast
  from If_False.IH [OF If_False.prems] obtain r s' where
    r: "ends (\<lambda>n. interp h n (DoExecute (cmd_tree d) e) s) (completion_of k, r, s')" "holding s s' (e # as) ms'"
    by (auto simp: answered_def)
  with w If_False truth_whole [OF w(1)] show ?case
    by (intro answered_execute) (auto simp: execute_core intro!: ends_bind)
next
  case (If_Skip ms x v c)
  from expr_evaluates [OF If_Skip.hyps(1) If_Skip.prems] obtain w where
    w: "stands_for v w" "evaluates h (expr_tree x) e s w" by blast
  have "holding s s (e # as) ms" using If_Skip.prems(1) by (simp add: holding_def)
  with w If_Skip truth_whole [OF w(1)] show ?case
    by (intro answered_execute) (auto simp: execute_core normally_def intro!: ends_bind ends_now)
next
  case (While_Step x c ms ms')
  from While_Step.IH [OF While_Step.prems] obtain s' where
    "ends (\<lambda>n. interp h n (DoLoop (Some (expr_tree x)) None (cmd_tree c) e) s) (NormalCompletion, VUndefined, s')"
    "holding s s' (e # as) ms'" by auto
  with While_Step.prems(2) show ?case by (intro answered_execute) (auto simp: execute_core)
next
  case (For_Step ms y v z u op w c x m ms')
  obtain b s1 where b: "extend_env (Some e) s = (b, s1)" by (cases "extend_env (Some e) s")
  note h1 = entered [OF For_Step.prems(1) b]
  have e1: "js_error s1 = None" using holding_error [OF h1] For_Step.prems(2) by simp
  from let_answered [OF For_Step.hyps(1) _ e1, of b "e # as" h x] h1 obtain s2 where
    l: "ends (\<lambda>n. interp h n (DoExecute (let_tree x y) b) s1) (NormalCompletion, VUndefined, s2)"
      "holding s1 s2 (b # e # as) ([x \<mapsto> v] # ms)" by (auto simp: holding_def)
  from For_Step.IH [of s2 b "e # as"] l(2) holding_error [OF l(2)] e1 obtain s' where
    s': "ends (\<lambda>n. interp h n (DoLoop (Some (expr_tree z)) (Some (assign_tree (u, op, w))) (cmd_tree c) b) s2)
        (NormalCompletion, VUndefined, s')" "holding s2 s' (b # e # as) (m # ms')" by (auto simp: holding_def)
  have "ends (\<lambda>n. execute (interp h n) (cmd_tree (CFor x y z u op w c)) e s) (NormalCompletion, VUndefined, s')"
    using For_Step.prems(2) l(1) s'(1)
    by (auto simp: execute_core execute_for_def b simp del: assign_tree.simps intro!: ends_bind)
  then show ?case
    using holding_tail [OF holding_trans [OF holding_trans [OF h1 l(2)] s'(2)]] by (intro answered_execute) auto
next
  case (Break_Step ms)
  then show ?case by (intro answered_execute) (auto simp: execute_core holding_def intro!: ends_now)
next
  case (Continue_Step ms)
  then show ?case by (intro answered_execute) (auto simp: execute_core holding_def intro!: ends_now)
next
  case (Runs_End ms)
  then show ?case by (auto simp: holding_def intro!: ends_now exI)
next
  case (Runs_Next c ms ms1 cs k ms2)
  from Runs_Next.IH(1) [OF Runs_Next.prems] obtain v s1 where
    v: "ends (\<lambda>n. interp h n (DoExecute (cmd_tree c) e) s) (NormalCompletion, v, s1)" "holding s s1 (e # as) ms1"
    by (auto simp: answered_def)
  from Runs_Next.IH(2) [of s1 e as v] v(2) holding_error [OF v(2)] Runs_Next.prems(2) obtain r s' where
    "ends (\<lambda>n. execute_all (interp h n) (map cmd_tree cs) e v s1) (completion_of k, r, s')" "holding s1 s' (e # as) ms2"
    by (auto simp: holding_def)
  with v holding_trans [OF v(2)] holding_error [OF v(2)] Runs_Next.prems(2) show ?case
    by (intro exI [of _ r] exI [of _ s'] conjI) (auto intro!: ends_bind)
next
  case (Runs_Stop c ms k ms1 cs)
  from Runs_Stop.IH [OF Runs_Stop.prems] obtain v s1 where
    v: "ends (\<lambda>n. interp h n (DoExecute (cmd_tree c) e) s) (completion_of k, v, s1)" "holding s s1 (e # as) ms1"
    by (auto simp: answered_def)
  with Runs_Stop.hyps show ?case
    by (intro exI [of _ v] exI [of _ s1] conjI) (auto intro!: ends_bind ends_now)
next
  case (Loop_End ms x v u c)
  from expr_evaluates [OF Loop_End.hyps(1) Loop_End.prems] obtain w where
    w: "stands_for v w" "evaluates h (expr_tree x) e s w" by blast
  with Loop_End truth_whole [OF w(1)] show ?case
    by (intro exI [of _ s] conjI ends_interp) (auto simp: perform_def holding_def intro!: loop_core(1))
next
  case (Loop_Break ms x v c ms' u)
  from expr_evaluates [OF Loop_Break.hyps(1) Loop_Break.prems] obtain w where
    w: "stands_for v w" "evaluates h (expr_tree x) e s w" by blast
  from Loop_Break.IH [OF Loop_Break.prems] obtain r s' where
    r: "ends (\<lambda>n. interp h n (DoExecute (cmd_tree c) e) s) (BreakCompletion, r, s')" "holding s s' (e # as) ms'"
    by (auto simp: answered_def)
  with w Loop_Break truth_whole [OF w(1)] show ?case
    by (intro exI [of _ s'] conjI ends_interp) (auto simp: perform_def intro!: loop_core(2))
next
  case (Loop_Next ms x v c k ms1 u ms2 ms3)
  from expr_evaluates [OF Loop_Next.hyps(1) Loop_Next.prems] obtain w where
    w: "stands_for v w" "evaluates h (expr_tree x) e s w" by blast
  from Loop_Next.IH(1) [OF Loop_Next.prems] obtain r s1 where
    r: "ends (\<lambda>n. interp h n (DoExecute (cmd_tree c) e) s) (completion_of k, r, s1)" "holding s s1 (e # as) ms1"
    by (auto simp: answered_def)
  have k: "completion_of k = NormalCompletion \<or> completion_of k = ContinueCompletion"
    using Loop_Next.hyps by (cases k) simp_all
  have e1: "js_error s1 = None" using holding_error [OF r(2)] Loop_Next.prems(2) by simp
  obtain z s2 where z: "ends (\<lambda>n. case map_option assign_tree u of None \<Rightarrow> Returns (VUndefined, s1)
      | Some z \<Rightarrow> evaluating (interp h n) z e s1) (z, s2)" "holding s1 s2 (e # as) ms2"
  proof (cases u)
    case None
    with Loop_Next.hyps r(2) that [of VUndefined s1] show ?thesis by (auto simp: holding_def intro: ends_now)
  next
    case (Some a)
    obtain y op t where a: "a = (y, op, t)" by (cases a)
    have "chained (js_envs s1) (e # as) ms1" using r(2) by (simp add: holding_def)
    from assign_evaluates [OF _ this e1, of y op t ms2 h] Loop_Next.hyps Some that show ?thesis
      by (auto simp: a simp del: assign_tree.simps)
  qed
  have "chained (js_envs s2) (e # as) ms2" "js_error s2 = None"
    using z(2) holding_error [OF z(2)] e1 by (simp_all add: holding_def)
  from Loop_Next.IH(2) [OF this] obtain s' where
    s': "ends (\<lambda>n. interp h n (DoLoop (Some (expr_tree x)) (map_option assign_tree u) (cmd_tree c) e) s2)
        (NormalCompletion, VUndefined, s')" "holding s2 s' (e # as) ms3" by blast
  have t: "to_boolean w" using truth_whole [OF w(1)] Loop_Next.hyps by simp
  have "ends (\<lambda>n. loop_step (interp h n) (Some (expr_tree x)) (map_option assign_tree u) (cmd_tree c) e s)
      (NormalCompletion, VUndefined, s')"
    by (rule loop_core(3) [OF w(2) t Loop_Next.prems(2) r(1) k z(1) s'(1)])
  then show ?case
    using holding_trans [OF holding_trans [OF r(2) z(2)] s'(2)]
    by (intro exI [of _ s'] conjI ends_interp) (simp_all add: perform_def)
qed

section \<open>Scripts\<close>

text \<open>The globals of the interpreter hold the variables \<open>m\<close>, and perhaps others.\<close>

definition globals_hold :: "'w js_state \<Rightarrow> scope \<Rightarrow> bool" where
  "globals_hold s m \<longleftrightarrow> js_globals s < length (js_envs s) \<and>
     (\<forall>x v. m x = Some v \<longrightarrow> (\<exists>w. en_variables (js_envs s ! js_globals s) x = Some w \<and> stands_for v w))"

lemma globals_hold_chained: "globals_hold s m \<longleftrightarrow> chained (js_envs s) [js_globals s] [m]"
  by (simp add: globals_hold_def)

text \<open>C38: The interpreter computes what the core language means.  A program of \<open>let\<close>, assignments (\<open>=\<close> and
  \<open>+=\<close>, \<open>-=\<close>, \<open>*=\<close>, \<open>%=\<close>), blocks, \<open>if\<close>, \<open>while\<close>, \<open>for\<close>, \<open>break\<close> and \<open>continue\<close> over integers, truth values and
  texts that ends with the global variables \<open>m'\<close> by the big-step rules, started with \<open>m\<close>: any script
  that parses to it, run in any interpreter whose globals hold \<open>m\<close> and whose queue is empty, returns
  with enough fuel, always with the same result, no error, the globals holding \<open>m'\<close>, and nothing
  else changed but scopes.\<close>

theorem core_script_runs:
  assumes "runs cs [m] Finished [m']" and "parse_source source = Some (Program (map cmd_tree cs), [])"
    and "globals_hold s m" and "js_microtasks s = []"
  shows "\<exists>n v s'. (\<forall>k. run_script h (n + k) source s = Returns (v, s')) \<and> globals_hold s' m' \<and>
    s' = s\<lparr> js_error := None, js_envs := js_envs s' \<rparr>"
proof -
  let ?s = "s\<lparr> js_error := None \<rparr>" and ?p = "Program (map cmd_tree cs)"
  have c: "chained (js_envs ?s) [js_globals ?s] [m]" using assms(3) by (simp add: globals_hold_chained)
  from core_runs(2) [OF assms(1) c, of h VUndefined] obtain v s' where
    v: "ends (\<lambda>n. execute_all (interp h n) (map cmd_tree cs) (js_globals ?s) VUndefined ?s) (NormalCompletion, v, s')"
      "holding ?s s' [js_globals ?s] [m']" by auto
  have s': "s' = ?s\<lparr> js_envs := js_envs s' \<rparr>" using v(2) by (simp add: holding_def)
  have q: "js_microtasks s' = []" "js_globals s' = js_globals s" by (subst s', simp add: assms(4))+
  have r: "ends (\<lambda>n. interp h n (DoExecute ?p (js_globals ?s)) ?s) (NormalCompletion, v, s')"
    using v(1) by (intro ends_interp) (simp add: perform_def execute_core)
  have d: "ends (\<lambda>n. draining (interp h n) 0 s') s'"
    unfolding draining_def
    by (rule ends_bind [where a = "(NormalCompletion, VUndefined, s')"], rule ends_interp)
      (simp_all add: perform_def drain_step_def q normally_def ends_now)
  have "ends (\<lambda>n. run_script h n source s) (v, s')"
    using r d by (auto simp: run_script_def assms(2) intro!: ends_bind ends_now)
  then obtain n where n: "\<forall>j \<ge> n. run_script h j source s = Returns (v, s')" by (auto simp: ends_def)
  have "globals_hold s' m'" using v(2) by (simp add: globals_hold_chained holding_def q)
  moreover have "s' = s\<lparr> js_error := None, js_envs := js_envs s' \<rparr>" using s' by simp
  ultimately show ?thesis using n by (intro exI [of _ n] exI [of _ v] exI [of _ s']) simp
qed

text \<open>Euclid's algorithm, in an interpreter whose globals are its two numbers.\<close>

definition euclid :: "cmd list" where
  "euclid =
     [CWhile (EName ''b'')
        (CBlock [CLet ''t'' (EArith Remainder (EName ''a'') (EName ''b'')), CAssign ''a'' None (EName ''b''),
                 CAssign ''b'' None (EName ''t'')])]"

definition two_numbers :: "int \<Rightarrow> int \<Rightarrow> unit js_state" where
  "two_numbers i j =
     (blank_state ())\<lparr> js_envs := [new_env\<lparr> en_variables :=
        [''a'' \<mapsto> VNumber (Num (of_int i)), ''b'' \<mapsto> VNumber (Num (of_int j))] \<rparr>] \<rparr>"

lemma euclid_runs:
  "\<exists>m. runs euclid [[''a'' \<mapsto> Whole 4, ''b'' \<mapsto> Whole 6]] Finished [m] \<and> m ''a'' = Some (Whole 2)"
  unfolding euclid_def
  by (rule exI, rule conjI, (rule steps_runs_loops.intros | (simp add: assigned_def; fail))+)

lemma euclid_parses:
  "parse_source ''while (b) { let t = a % b; a = b; b = t; }'' = Some (Program (map cmd_tree euclid), [])"
  by code_simp

theorem core_script_runs_witness:
  "\<forall>h :: unit host. \<exists>n v s'.
     (\<forall>k. run_script h (n + k) ''while (b) { let t = a % b; a = b; b = t; }'' (two_numbers 4 6) = Returns (v, s')) \<and>
     en_variables (js_envs s' ! 0) ''a'' = Some (VNumber (Num 2))"
proof
  fix h :: "unit host"
  obtain m where m: "runs euclid [[''a'' \<mapsto> Whole 4, ''b'' \<mapsto> Whole 6]] Finished [m]" "m ''a'' = Some (Whole 2)"
    using euclid_runs by blast
  have g: "globals_hold (two_numbers 4 6) [''a'' \<mapsto> Whole 4, ''b'' \<mapsto> Whole 6]" "js_microtasks (two_numbers 4 6) = []"
    by (simp_all add: globals_hold_def two_numbers_def blank_state_def new_env_def is_whole_def)
  obtain n v s' where r: "\<forall>k. run_script h (n + k) ''while (b) { let t = a % b; a = b; b = t; }'' (two_numbers 4 6) = Returns (v, s')"
      "globals_hold s' m" "s' = two_numbers 4 6\<lparr> js_error := None, js_envs := js_envs s' \<rparr>"
    using core_script_runs [OF m(1) euclid_parses g, of h] by blast
  have "js_globals s' = 0" by (subst r(3)) (simp add: two_numbers_def blank_state_def)
  with r(2) m(2) have "en_variables (js_envs s' ! 0) ''a'' = Some (VNumber (Num 2))"
    by (force simp: globals_hold_def is_whole_def)
  with r(1) show "\<exists>n v s'.
     (\<forall>k. run_script h (n + k) ''while (b) { let t = a % b; a = b; b = t; }'' (two_numbers 4 6) = Returns (v, s')) \<and>
     en_variables (js_envs s' ! 0) ''a'' = Some (VNumber (Num 2))" by blast
qed

end
