(* ===== verification/Huffman_Code.thy ===== *)
theory Huffman_Code
  imports Inflate
begin

text \<open>
  Why the Huffman decoder of \<open>png.cpp\<close> is right.  The abstract side is the canonical code of
  RFC 1951: symbols of the same length get consecutive code words in symbol order, shorter
  words before longer ones.  \<open>construct\<close> and \<open>decode_symbol\<close> are proved to implement it:
  whenever the lengths do not over-subscribe the code, decoding the code word of a symbol
  gives back the symbol and consumes exactly the word.
\<close>

section \<open>The canonical code\<close>

definition count_of :: "nat list \<Rightarrow> nat \<Rightarrow> nat \<Rightarrow> nat" where
  "count_of ls n l = length (filter (\<lambda>t. ls ! t = l) [0..<n])"

primrec first_code :: "nat list \<Rightarrow> nat \<Rightarrow> nat \<Rightarrow> nat" where
  "first_code ls n 0 = 0"
| "first_code ls n (Suc l) = (if l = 0 then 0 else 2 * (first_code ls n l + count_of ls n l))"

text \<open>How many symbols have a shorter code, and the rank among those of the same length.\<close>

primrec base_index :: "nat list \<Rightarrow> nat \<Rightarrow> nat \<Rightarrow> nat" where
  "base_index ls n 0 = 0"
| "base_index ls n (Suc l) = (if l = 0 then 0 else base_index ls n l + count_of ls n l)"

definition code_value :: "nat list \<Rightarrow> nat \<Rightarrow> nat \<Rightarrow> nat" where
  "code_value ls n t = first_code ls n (ls ! t) + count_of ls t (ls ! t)"

text \<open>The bits of a code word in stream order: most significant first.\<close>

definition code_bits :: "nat \<Rightarrow> nat \<Rightarrow> bool list" where
  "code_bits v len = map (\<lambda>i. odd (v div 2 ^ (len - 1 - i))) [0..<len]"

section \<open>The tables\<close>

lemma count_of_Suc: "count_of ls (Suc m) l = count_of ls m l + of_bool (ls ! m = l)"
  by (simp add: count_of_def)

lemma count_of_less: "t < n \<Longrightarrow> count_of ls t (ls ! t) < count_of ls n (ls ! t)"
proof (induction n)
  case 0
  then show ?case by simp
next
  case (Suc n)
  then show ?case by (cases "t = n") (auto simp: count_of_Suc less_SucI intro: less_le_trans)
qed

lemma count_of_mono: "m \<le> n \<Longrightarrow> count_of ls m l \<le> count_of ls n l"
  by (induction n) (auto simp: count_of_Suc le_Suc_eq)

lemma length_count_lengths [simp]: "length (count_lengths ls n) = 16"
proof -
  have "length (fold (\<lambda>t c. c[ls ! t := c ! (ls ! t) + 1]) ts c) = length c" for ts and c :: "nat list"
    by (induction ts arbitrary: c) simp_all
  then show ?thesis by (simp add: count_lengths_def)
qed

lemma count_lengths_correct:
  assumes "\<forall>t < n. ls ! t \<le> 15" and "l \<le> 15"
  shows "count_lengths ls n ! l = count_of ls n l"
  using assms(1)
proof (induction n)
  case 0
  then show ?case using assms(2) by (simp add: count_lengths_def count_of_def)
next
  case (Suc n)
  have len: "length (count_lengths ls n) = 16" by simp
  have "count_lengths ls (Suc n) = (count_lengths ls n)[ls ! n := count_lengths ls n ! (ls ! n) + 1]"
    by (simp add: count_lengths_def)
  then show ?case using Suc assms(2) len by (auto simp: count_of_Suc nth_list_update)
qed

lemma symbol_offsets_correct:
  assumes "\<And>l. l \<le> 15 \<Longrightarrow> c ! l = count_of ls n l" and "1 \<le> l" and "l \<le> 15"
  shows "length (symbol_offsets c) = 16 \<and> symbol_offsets c ! l = base_index ls n l"
proof -
  let ?f = "\<lambda>m. fold (\<lambda>l offsets. offsets[l + 1 := offsets ! l + c ! l]) [1..<m] (replicate 16 0)"
  have "length (?f m) = 16 \<and> (\<forall>l. 1 \<le> l \<and> l \<le> m \<longrightarrow> ?f m ! l = base_index ls n l)"
    if "1 \<le> m" "m \<le> 15" for m
    using that
  proof (induction m)
    case 0
    then show ?case by simp
  next
    case (Suc m)
    show ?case
    proof (cases "m = 0")
      case True
      then show ?thesis by (auto simp: le_Suc_eq)
    next
      case False
      then have IH: "length (?f m) = 16" "\<And>l. 1 \<le> l \<Longrightarrow> l \<le> m \<Longrightarrow> ?f m ! l = base_index ls n l"
        using Suc by simp_all
      have f: "?f (Suc m) = (?f m)[m + 1 := ?f m ! m + c ! m]" using False by simp
      have "?f m ! m = base_index ls n m" using IH(2) False by simp
      then have "?f (Suc m) ! Suc m = base_index ls n (Suc m)"
        unfolding f using IH(1) Suc.prems False assms(1) by simp
      moreover have "?f (Suc m) ! l = base_index ls n l" if "1 \<le> l" "l \<le> m" for l
        unfolding f using that IH(2) by simp
      ultimately show ?thesis using IH(1) unfolding f by (auto simp: le_Suc_eq)
    qed
  qed
  from this [of 15] assms(2,3) show ?thesis by (simp add: symbol_offsets_def)
qed

lemma base_index_step: "1 \<le> l \<Longrightarrow> l < m \<Longrightarrow> base_index ls n l + count_of ls n l \<le> base_index ls n m"
proof (induction m)
  case 0
  then show ?case by simp
next
  case (Suc m)
  then show ?case by (cases "l = m") auto
qed

lemma slots_distinct:
  assumes "1 \<le> l" and "1 \<le> m" and "i < count_of ls n l" and "j < count_of ls n m"
    and "base_index ls n l + i = base_index ls n m + j"
  shows "l = m \<and> i = j"
  using assms base_index_step [of l m ls n] base_index_step [of m l ls n]
  by (cases l m rule: linorder_cases) auto

lemma base_index_bound: "base_index ls n l \<le> n"
proof -
  have "base_index ls n l \<le> length (filter (\<lambda>t. 1 \<le> ls ! t \<and> ls ! t < l) [0..<n])"
  proof (induction l)
    case 0
    then show ?case by simp
  next
    case (Suc l)
    have "length (filter (\<lambda>t. 1 \<le> ls ! t \<and> ls ! t < Suc l) ts) =
        length (filter (\<lambda>t. 1 \<le> ls ! t \<and> ls ! t < l) ts) + length (filter (\<lambda>t. ls ! t = l) ts)"
      if "l \<noteq> 0" for ts
      using that by (induction ts) auto
    then show ?case using Suc by (simp add: count_of_def)
  qed
  also have "\<dots> \<le> n" by (metis diff_zero length_filter_le length_upt)
  finally show ?thesis .
qed

text \<open>The symbol table holds each symbol at its slot.\<close>

lemma place_symbols_correct:
  assumes ls: "\<forall>t < n. ls ! t \<le> 15" and szs: "length syms0 = sz" "n \<le> sz"
    and off: "length offs0 = 16" "\<And>l. 1 \<le> l \<Longrightarrow> l \<le> 15 \<Longrightarrow> offs0 ! l = base_index ls n l"
    and m: "m \<le> n"
  shows "case fold (place_symbol ls) [0..<m] (offs0, syms0) of (offs, syms) \<Rightarrow>
    length offs = 16 \<and> length syms = sz \<and>
    (\<forall>l. 1 \<le> l \<and> l \<le> 15 \<longrightarrow> offs ! l = base_index ls n l + count_of ls m l) \<and>
    (\<forall>t < m. ls ! t \<noteq> 0 \<longrightarrow> syms ! (base_index ls n (ls ! t) + count_of ls t (ls ! t)) = t)"
  using m
proof (induction m)
  case 0
  then show ?case using szs off by (simp add: count_of_def)
next
  case (Suc m)
  obtain offs syms where st: "fold (place_symbol ls) [0..<m] (offs0, syms0) = (offs, syms)"
    by (cases "fold (place_symbol ls) [0..<m] (offs0, syms0)")
  have IH: "length offs = 16" "length syms = sz"
    "\<And>l. 1 \<le> l \<Longrightarrow> l \<le> 15 \<Longrightarrow> offs ! l = base_index ls n l + count_of ls m l"
    "\<And>t. t < m \<Longrightarrow> ls ! t \<noteq> 0 \<Longrightarrow> syms ! (base_index ls n (ls ! t) + count_of ls t (ls ! t)) = t"
    using Suc st by simp_all
  have f: "fold (place_symbol ls) [0..<Suc m] (offs0, syms0) = place_symbol ls m (offs, syms)"
    using st by simp
  show ?case
  proof (cases "ls ! m = 0")
    case True
    then show ?thesis unfolding f using IH
      by (auto simp: place_symbol_def count_of_Suc less_Suc_eq)
  next
    case False
    let ?l = "ls ! m"
    have l: "1 \<le> ?l" "?l \<le> 15" using False ls Suc.prems by auto
    have slot: "offs ! ?l = base_index ls n ?l + count_of ls m ?l" using IH(3) l by simp
    have r: "count_of ls m ?l < count_of ls n ?l" using count_of_less [of m n ls] Suc.prems by simp
    have "offs ! ?l < base_index ls n (Suc ?l)" using slot r l(1) by simp
    then have bound: "offs ! ?l < sz" using base_index_bound [of ls n "Suc ?l"] szs(2) by simp
    have p: "place_symbol ls m (offs, syms) = (offs[?l := offs ! ?l + 1], syms[offs ! ?l := m])"
      using False by (simp add: place_symbol_def Let_def)
    have "syms[offs ! ?l := m] ! (base_index ls n (ls ! t) + count_of ls t (ls ! t)) = t"
      if "t < Suc m" "ls ! t \<noteq> 0" for t
    proof (cases "t = m")
      case True
      then show ?thesis using slot bound IH(2) by simp
    next
      case neq: False
      then have t: "t < m" using that(1) by simp
      have rt: "count_of ls t (ls ! t) < count_of ls n (ls ! t)"
        using count_of_less [of t n ls] t Suc.prems by simp
      have "base_index ls n (ls ! t) + count_of ls t (ls ! t) \<noteq> offs ! ?l"
      proof
        assume "base_index ls n (ls ! t) + count_of ls t (ls ! t) = offs ! ?l"
        then have "ls ! t = ?l \<and> count_of ls t (ls ! t) = count_of ls m ?l"
          using slots_distinct [of "ls ! t" ?l _ ls n _] slot rt r that(2) l(1) by simp
        moreover have "count_of ls t (ls ! t) < count_of ls m (ls ! t)" by (rule count_of_less [OF t])
        ultimately show False by (metis less_irrefl)
      qed
      then show ?thesis using IH(4) [OF t that(2)] by simp
    qed
    moreover have "offs[?l := offs ! ?l + 1] ! k = base_index ls n k + count_of ls (Suc m) k"
      if "1 \<le> k" "k \<le> 15" for k
      using IH(1,3) that slot by (auto simp: nth_list_update count_of_Suc)
    ultimately show ?thesis unfolding f p using IH(1,2) by simp
  qed
qed

text \<open>The Kraft inequality, from \<open>construct\<close> not reporting an over-subscribed code.\<close>

lemma left_loop_kraft:
  assumes "0 \<le> left_loop cs left" and "k < length cs"
  shows "0 \<le> left_loop (take (Suc k) cs) left"
  using assms
proof (induction cs left arbitrary: k rule: left_loop.induct)
  case (1 left)
  then show ?case by simp
next
  case (2 c cs left)
  then show ?case by (cases k) (auto simp: Let_def split: if_splits)
qed

lemma left_loop_snoc:
  "0 \<le> left_loop cs left \<Longrightarrow> 0 \<le> left_loop (cs @ [c]) left \<Longrightarrow>
    left_loop (cs @ [c]) left = 2 * left_loop cs left - int c"
  by (induction cs left rule: left_loop.induct) (auto simp: Let_def split: if_splits)

lemma kraft:
  assumes "0 \<le> left_loop (drop 1 c) 1" and "length c = 16" and "\<And>l. l \<le> 15 \<Longrightarrow> c ! l = count_of ls n l"
    and "1 \<le> l" and "l \<le> 15"
  shows "first_code ls n l + count_of ls n l \<le> 2 ^ l"
proof -
  have pos: "0 \<le> left_loop (take l (drop 1 c)) 1" if "l \<le> 15" for l
    using left_loop_kraft [OF assms(1), of "l - 1"] assms(2) that by (cases l) auto
  have "left_loop (take l (drop 1 c)) 1 = 2 ^ l - int (first_code ls n l) - int (count_of ls n l)"
    using assms(4,5)
  proof (induction l)
    case 0
    then show ?case by simp
  next
    case (Suc l)
    have tk: "take (Suc l) (drop 1 c) = take l (drop 1 c) @ [c ! Suc l]"
      using Suc.prems assms(2) by (simp add: take_Suc_conv_app_nth)
    have "left_loop (take (Suc l) (drop 1 c)) 1 = 2 * left_loop (take l (drop 1 c)) 1 - int (c ! Suc l)"
      unfolding tk by (rule left_loop_snoc) (use pos [of l] pos [of "Suc l"] tk Suc.prems in simp_all)
    then show ?case using Suc assms(3) by (cases "l = 0") (simp_all add: Let_def)
  qed
  then have "int (first_code ls n l + count_of ls n l) \<le> int (2 ^ l)" using pos [OF assms(5)] by simp
  then show ?thesis by (simp only: of_nat_le_iff)
qed

section \<open>Decoding\<close>

text \<open>What \<open>construct\<close> leaves in the table, for a code that is not over-subscribed.\<close>

definition table_for :: "huffman \<Rightarrow> nat list \<Rightarrow> nat \<Rightarrow> bool" where
  "table_for t ls n \<longleftrightarrow>
     (\<forall>l. 1 \<le> l \<and> l \<le> 15 \<longrightarrow> hf_count t ! l = count_of ls n l \<and> first_code ls n l + count_of ls n l \<le> 2 ^ l) \<and>
     (\<forall>s < n. ls ! s \<le> 15) \<and>
     (\<forall>s < n. ls ! s \<noteq> 0 \<longrightarrow> hf_symbol t ! (base_index ls n (ls ! s) + count_of ls s (ls ! s)) = s)"

lemma construct_table:
  assumes "fst (construct table ls n) \<ge> 0" and "\<forall>t < n. ls ! t \<le> 15" and "length (hf_symbol table) = 288"
    and "n \<le> 288"
  shows "table_for (snd (construct table ls n)) ls n"
proof (cases "\<exists>t < n. ls ! t \<noteq> 0")
  case False
  have c: "count_lengths ls n ! l = count_of ls n l" if "l \<le> 15" for l
    by (rule count_lengths_correct [OF assms(2) that])
  have z: "count_of ls n l = (if l = 0 then n else 0)" for l
    using False by (auto simp: count_of_def filter_empty_conv)
  have "first_code ls n l = 0" for l by (induction l) (simp_all add: z)
  then show ?thesis using False c c [of 0] assms(2) by (auto simp: table_for_def construct_def z)
next
  case True
  let ?c = "count_lengths ls n"
  have c: "?c ! l = count_of ls n l" if "l \<le> 15" for l
    by (rule count_lengths_correct [OF assms(2) that])
  obtain t where t: "t < n" "ls ! t \<noteq> 0" using True by blast
  have "length (filter (\<lambda>t. ls ! t = 0) [0..<n]) < length [0..<n]"
    by (rule length_filter_less [of t]) (use t in auto)
  then have n0: "?c ! 0 \<noteq> n" using c [of 0] by (simp add: count_of_def)
  have left: "0 \<le> left_loop (drop 1 ?c) 1"
    using assms(1) n0 by (auto simp: construct_def Let_def split: if_splits)
  have offs: "length (symbol_offsets ?c) = 16" "\<And>l. 1 \<le> l \<Longrightarrow> l \<le> 15 \<Longrightarrow> symbol_offsets ?c ! l = base_index ls n l"
    using symbol_offsets_correct [of ?c ls n, OF c] symbol_offsets_correct [of ?c ls n 1, OF c] by auto
  let ?syms = "snd (fold (place_symbol ls) [0..<n] (symbol_offsets ?c, hf_symbol table))"
  have "construct table ls n = (left_loop (drop 1 ?c) 1, table\<lparr> hf_count := ?c, hf_symbol := ?syms \<rparr>)"
    using n0 left by (simp add: construct_def Let_def)
  moreover have "?syms ! (base_index ls n (ls ! s) + count_of ls s (ls ! s)) = s" if "s < n" "ls ! s \<noteq> 0" for s
    using place_symbols_correct [OF assms(2) assms(3) assms(4) offs order_refl] that
    by (simp add: case_prod_unfold)
  ultimately show ?thesis
    using c kraft [OF left _ c] assms(2) by (simp add: table_for_def)
qed

lemma first_code_step:
  "1 \<le> l \<Longrightarrow> l < m \<Longrightarrow> (first_code ls n l + count_of ls n l) * 2 ^ (m - l) \<le> first_code ls n m"
proof (induction m)
  case 0
  then show ?case by simp
next
  case (Suc m)
  show ?case
  proof (cases "l = m")
    case True
    then show ?thesis using Suc.prems by simp
  next
    case False
    then have "(first_code ls n l + count_of ls n l) * 2 ^ (m - l) \<le> first_code ls n m" using Suc by simp
    then show ?thesis using False Suc.prems by (simp add: Suc_diff_le)
  qed
qed

lemma even_or_bit: "(2 * int a) OR of_bool p = int (2 * a + of_bool p)"
  by (cases p) (simp_all add: or_one_eq)

lemma bits_one:
  assumes "reader_ok s" and "pending s = p # ps"
  obtains s' where "bits s (Suc 0) = (of_bool p, s')" "pending s' = ps" "reader_ok s'" "inf_out s' = inf_out s"
proof -
  have "\<exists>s'. bits s 1 = (int (value_of_bits [p]), s') \<and> pending s' = ps \<and> reader_ok s' \<and> inf_out s' = inf_out s"
    using bits_spec [OF assms(1), of 1] assms(2) by simp
  then show thesis using that by (auto simp: value_of_bits_def)
qed

text \<open>The bits of \<open>v\<close> from position \<open>l\<close> on.\<close>

definition tail_bits :: "nat \<Rightarrow> nat \<Rightarrow> nat \<Rightarrow> bool list" where
  "tail_bits v len l = map (\<lambda>i. odd (v div 2 ^ (len - 1 - i))) [l..<len]"

lemma decode_loop_finds:
  assumes tab: "table_for t ls n" and y: "y < n" "ls ! y = len" "len \<noteq> 0" and v: "v = code_value ls n y"
  shows "l = 15 - k \<Longrightarrow> k \<le> 14 \<Longrightarrow> l \<le> len \<Longrightarrow> reader_ok s \<Longrightarrow> pending s = tail_bits v len (l - 1) @ rest \<Longrightarrow>
    \<exists>s'. decode_loop (Suc k) t (int (2 * (v div 2 ^ Suc (len - l)))) (int (first_code ls n l)) (int (base_index ls n l)) s =
           (int y, s') \<and> pending s' = rest \<and> reader_ok s' \<and> inf_out s' = inf_out s"
proof (induction k arbitrary: l s)
  have len: "len \<le> 15" "1 \<le> len" using tab y by (auto simp: table_for_def)
  have cnt: "hf_count t ! l = count_of ls n l" if "1 \<le> l" "l \<le> 15" for l
    using tab that by (simp add: table_for_def)
  have at: "hf_symbol t ! (base_index ls n len + count_of ls y len) = y"
    using tab y by (auto simp: table_for_def)
  have vc: "v = first_code ls n len + count_of ls y len" "count_of ls y len < count_of ls n len"
    using v y count_of_less [of y n ls] by (auto simp: code_value_def)
  have step: "\<exists>s1. pending s1 = tail_bits v len l @ rest \<and> reader_ok s1 \<and> inf_out s1 = inf_out s \<and>
      decode_loop (Suc k) t (int (2 * (v div 2 ^ Suc (len - l)))) (int (first_code ls n l)) (int (base_index ls n l)) s =
      (if l = len then (int y, s1)
       else decode_loop k t (int (2 * (v div 2 ^ Suc (len - Suc l)))) (int (first_code ls n (Suc l))) (int (base_index ls n (Suc l))) s1)"
    if h: "l = 15 - k" "k \<le> 14" "l \<le> len" "reader_ok s" "pending s = tail_bits v len (l - 1) @ rest" for k l s
  proof -
    have l: "1 \<le> l" "l \<le> 15" using h by auto
    define q where "q = v div 2 ^ (len - l)"
    have "[l - 1..<len] = (l - 1) # [l..<len]" using l h(3) by (metis Suc_diff_1 Suc_le_eq less_eq_Suc_le upt_conv_Cons One_nat_def)
    then have "pending s = odd q # tail_bits v len l @ rest"
      using h(5) l by (simp add: tail_bits_def q_def)
    then obtain s1 where s1: "bits s (Suc 0) = (of_bool (odd q), s1)" "pending s1 = tail_bits v len l @ rest"
      "reader_ok s1" "inf_out s1 = inf_out s"
      using bits_one [OF h(4)] by blast
    have "v div 2 ^ Suc (len - l) = q div 2" by (simp only: q_def power_Suc2 div_mult2_eq)
    then have q: "int (2 * (v div 2 ^ Suc (len - l))) OR of_bool (odd q) = int q"
      using even_or_bit [of "q div 2" "odd q"] by (simp add: odd_two_times_div_two_nat [symmetric] mod_2_eq_odd [symmetric])
    have c: "hf_count t ! (15 - k) = count_of ls n l" using cnt l h(1) by simp
    show ?thesis
    proof (cases "l = len")
      case True
      have "nat (int (base_index ls n l) + (int q - int (first_code ls n l))) = base_index ls n len + count_of ls y len"
        using True vc by (simp add: q_def)
      moreover have "int q - int (count_of ls n l) < int (first_code ls n l)"
        using True vc by (simp add: q_def)
      ultimately show ?thesis
        using s1 q c True at by (intro exI [of _ s1]) (simp add: Let_def)
    next
      case False
      then have "(first_code ls n l + count_of ls n l) * 2 ^ (len - l) \<le> v"
        using first_code_step [of l len ls n] l h(3) vc(1) by simp
      then have "first_code ls n l + count_of ls n l \<le> q"
        using div_le_mono [of _ v "2 ^ (len - l)"] by (fastforce simp: q_def)
      moreover have "len - l = Suc (len - Suc l)" using False h(3) by simp
      then have "q = v div 2 ^ Suc (len - Suc l)" by (simp add: q_def)
      ultimately show ?thesis
        using s1 q c False l by (intro exI [of _ s1]) (simp add: Let_def ring_distribs)
    qed
  qed
  {
    case (0 l s)
    from step [OF 0] obtain s1 where s1: "pending s1 = tail_bits v len l @ rest" "reader_ok s1" "inf_out s1 = inf_out s"
      "decode_loop (Suc 0) t (int (2 * (v div 2 ^ Suc (len - l)))) (int (first_code ls n l)) (int (base_index ls n l)) s =
       (if l = len then (int y, s1)
       else decode_loop 0 t (int (2 * (v div 2 ^ Suc (len - Suc l)))) (int (first_code ls n (Suc l))) (int (base_index ls n (Suc l))) s1)"
      by blast
    have "l = len" using 0 len by simp
    then show ?case using s1 by (simp add: tail_bits_def del: decode_loop.simps)
  next
    case (Suc k l s)
    from step [OF Suc(2-6)] obtain s1 where s1: "pending s1 = tail_bits v len l @ rest" "reader_ok s1" "inf_out s1 = inf_out s"
      "decode_loop (Suc (Suc k)) t (int (2 * (v div 2 ^ Suc (len - l)))) (int (first_code ls n l)) (int (base_index ls n l)) s =
       (if l = len then (int y, s1)
       else decode_loop (Suc k) t (int (2 * (v div 2 ^ Suc (len - Suc l)))) (int (first_code ls n (Suc l))) (int (base_index ls n (Suc l))) s1)"
      by blast
    show ?case
    proof (cases "l = len")
      case True
      then show ?thesis using s1 by (simp add: tail_bits_def del: decode_loop.simps)
    next
      case False
      have "\<exists>s'. decode_loop (Suc k) t (int (2 * (v div 2 ^ Suc (len - Suc l)))) (int (first_code ls n (Suc l))) (int (base_index ls n (Suc l))) s1 =
          (int y, s') \<and> pending s' = rest \<and> reader_ok s' \<and> inf_out s' = inf_out s1"
        by (rule Suc.IH) (use Suc.prems False s1 in auto)
      then show ?thesis using s1 False by (simp del: decode_loop.simps)
    qed
  }
qed

text \<open>The code word of a symbol, in stream order.\<close>

definition symbol_bits :: "nat list \<Rightarrow> nat \<Rightarrow> nat \<Rightarrow> bool list" where
  "symbol_bits ls n y = code_bits (code_value ls n y) (ls ! y)"

lemma decode_symbol_finds:
  assumes "table_for t ls n" and "y < n" and "ls ! y \<noteq> 0" and "reader_ok s"
    and "pending s = symbol_bits ls n y @ rest"
  obtains s' where "decode_symbol s t = (int y, s')" "pending s' = rest" "reader_ok s'" "inf_out s' = inf_out s"
proof -
  let ?len = "ls ! y" and ?v = "code_value ls n y"
  have len: "1 \<le> ?len" "?len \<le> 15" using assms(1,2,3) by (auto simp: table_for_def)
  have "?v < first_code ls n ?len + count_of ls n ?len"
    using count_of_less [OF assms(2), of ls] by (simp add: code_value_def)
  also have "\<dots> \<le> 2 ^ ?len" using assms(1) len by (simp add: table_for_def)
  finally have "?v < 2 ^ ?len" .
  then have z: "?v div 2 ^ Suc (?len - 1) = 0" using len by simp
  have "pending s = tail_bits ?v ?len (1 - 1) @ rest"
    using assms(5) by (simp add: symbol_bits_def code_bits_def tail_bits_def)
  from decode_loop_finds [OF assms(1,2) refl assms(3) refl, of 1 14, OF _ _ len(1) assms(4) this]
  have "\<exists>s'. decode_loop 15 t 0 0 0 s = (int y, s') \<and> pending s' = rest \<and> reader_ok s' \<and> inf_out s' = inf_out s"
    using z by (simp del: decode_loop.simps power_Suc)
  then show thesis using that by (auto simp: decode_symbol_def)
qed

section \<open>Blocks of literals and matches\<close>

text \<open>What a compressed block says: a literal byte, or a match given by its length symbol, the
  extra length, its distance symbol and the extra distance.\<close>

datatype token = Literal byte | Match nat nat nat nat

primrec token_bits :: "nat list \<Rightarrow> nat \<Rightarrow> nat list \<Rightarrow> nat \<Rightarrow> token \<Rightarrow> bool list" where
  "token_bits ls n ds m (Literal b) = symbol_bits ls n (unat b)"
| "token_bits ls n ds m (Match k e d x) =
     symbol_bits ls n (257 + k) @ map (bit e) [0..<length_extra ! k] @
     symbol_bits ds m d @ map (bit x) [0..<distance_extra ! d]"

text \<open>The code has a word for each symbol of the token and the extra bits have room.\<close>

primrec token_ok :: "nat list \<Rightarrow> nat \<Rightarrow> nat list \<Rightarrow> nat \<Rightarrow> token \<Rightarrow> bool" where
  "token_ok ls n ds m (Literal b) = (unat b < n \<and> ls ! unat b \<noteq> 0)"
| "token_ok ls n ds m (Match k e d x) =
     (k < 29 \<and> 257 + k < n \<and> ls ! (257 + k) \<noteq> 0 \<and> e < 2 ^ (length_extra ! k) \<and>
      d < 30 \<and> d < m \<and> ds ! d \<noteq> 0 \<and> x < 2 ^ (distance_extra ! d))"

text \<open>A match repeats the last \<open>distance\<close> bytes of the output for as long as its length says.\<close>

definition repeated :: "bytes \<Rightarrow> nat \<Rightarrow> nat \<Rightarrow> bytes" where
  "repeated out distance len = map (\<lambda>i. out ! (length out - distance + i mod distance)) [0..<len]"

primrec expand_token :: "token \<Rightarrow> bytes \<Rightarrow> bytes option" where
  "expand_token (Literal b) out = Some (out @ [b])"
| "expand_token (Match k e d x) out =
     (let distance = distance_base ! d + x in
      if length out < distance then None else Some (out @ repeated out distance (length_base ! k + e)))"

primrec expand :: "token list \<Rightarrow> bytes \<Rightarrow> bytes option" where
  "expand [] out = Some out"
| "expand (t # ts) out = (case expand_token t out of None \<Rightarrow> None | Some out \<Rightarrow> expand ts out)"

lemma repeated_Suc:
  assumes "0 < d" and "d \<le> length out"
  shows "repeated out d (Suc len) = out ! (length out - d) # repeated (out @ [out ! (length out - d)]) d len"
proof (rule nth_equalityI)
  fix i
  assume i: "i < length (repeated out d (Suc len))"
  show "repeated out d (Suc len) ! i = (out ! (length out - d) # repeated (out @ [out ! (length out - d)]) d len) ! i"
  proof (cases i)
    case 0
    then show ?thesis by (simp add: repeated_def del: upt_Suc)
  next
    case (Suc j)
    have j: "j < len" using i Suc by (simp add: repeated_def)
    have l: "repeated out d (Suc len) ! i = out ! (length out - d + Suc j mod d)"
      using j Suc by (simp add: repeated_def del: upt_Suc)
    have r: "repeated (out @ [out ! (length out - d)]) d len ! j =
        (out @ [out ! (length out - d)]) ! (Suc (length out) - d + j mod d)"
      using j by (simp add: repeated_def)
    show ?thesis
    proof (cases "Suc (j mod d) = d")
      case True
      then have "Suc j mod d = 0" "Suc (length out) - d + j mod d = length out"
        using assms by (simp_all add: mod_Suc)
      then show ?thesis using l r Suc by (simp add: nth_append)
    next
      case False
      have "Suc (j mod d) < d" using False mod_less_divisor [OF assms(1), of j] by linarith
      then have "Suc j mod d = Suc (j mod d)" "Suc (length out) - d + j mod d = length out - d + Suc (j mod d)"
        "length out - d + Suc (j mod d) < length out"
        using assms by (simp add: mod_Suc, linarith, linarith)
      then show ?thesis using l r Suc by (simp add: nth_append)
    qed
  qed
qed (simp add: repeated_def)

lemma copy_match_repeats:
  "0 < d \<Longrightarrow> d \<le> length (inf_out s) \<Longrightarrow>
    copy_match len d s = s\<lparr> inf_out := inf_out s @ repeated (inf_out s) d len \<rparr>"
proof (induction len arbitrary: s)
  case 0
  then show ?case by (simp add: repeated_def)
next
  case (Suc len)
  show ?case using Suc.prems Suc.IH [of "push_out (inf_out s ! (length (inf_out s) - d)) s"]
    by (simp add: push_out_def repeated_Suc)
qed

lemma distance_base_pos: "d < 30 \<Longrightarrow> 0 < distance_base ! d"
proof -
  have "list_all (\<lambda>b. 0 < b) distance_base" by (simp add: distance_base_def)
  moreover have "length distance_base = 30" by (simp add: distance_base_def)
  ultimately show "d < 30 \<Longrightarrow> 0 < distance_base ! d" by (simp add: list_all_length)
qed

lemma extra_bound: "k < 29 \<Longrightarrow> length_extra ! k \<le> 25" "d < 30 \<Longrightarrow> distance_extra ! d \<le> 25"
proof -
  have "list_all (\<lambda>b. b \<le> 25) length_extra" "length length_extra = 29"
    "list_all (\<lambda>b. b \<le> 25) distance_extra" "length distance_extra = 30"
    by (simp_all add: length_extra_def distance_extra_def)
  then show "k < 29 \<Longrightarrow> length_extra ! k \<le> 25" "d < 30 \<Longrightarrow> distance_extra ! d \<le> 25"
    by (simp_all add: list_all_length)
qed

lemma bits_number:
  assumes "reader_ok s" and "need \<le> 25" and "x < 2 ^ need" and "pending s = map (bit x) [0..<need] @ rest"
  obtains s' where "bits s need = (int x, s')" "pending s' = rest" "reader_ok s'" "inf_out s' = inf_out s"
proof -
  have "value_of_bits (map (bit x) [0..<need]) = x"
    using assms(3) by (simp add: value_of_bits_def horner_sum_bit_eq_take_bit take_bit_nat_eq_self)
  then have "\<exists>s'. bits s need = (int x, s') \<and> pending s' = rest \<and> reader_ok s' \<and> inf_out s' = inf_out s"
    using bits_spec [OF assms(1,2)] assms(4) by simp
  then show thesis using that by blast
qed

lemma expand_token_longer: "expand_token t out = Some out' \<Longrightarrow> length out \<le> length out'"
  by (cases t) (auto simp: Let_def split: if_splits)

lemma expand_longer: "expand ts out = Some out' \<Longrightarrow> length out \<le> length out'"
  by (induction ts arbitrary: out) (fastforce split: option.splits dest: expand_token_longer)+

lemma match_step_expands:
  assumes ok: "token_ok ls n ds m (Match k e d x)" and tab: "table_for dt ds m" and r: "reader_ok s"
    and p: "pending s = map (bit e) [0..<length_extra ! k] @ symbol_bits ds m d @ map (bit x) [0..<distance_extra ! d] @ rest"
    and ex: "expand_token (Match k e d x) (inf_out s) = Some out" and len: "length out < 2 ^ 31"
  obtains s' where "match_step k dt s = (0, s')" "pending s' = rest" "reader_ok s'" "inf_out s' = out"
proof -
  have h: "k < 29" "e < 2 ^ (length_extra ! k)" "d < 30" "d < m" "ds ! d \<noteq> 0" "x < 2 ^ (distance_extra ! d)"
    using ok by simp_all
  obtain s1 where s1: "bits s (length_extra ! k) = (int e, s1)"
    "pending s1 = symbol_bits ds m d @ map (bit x) [0..<distance_extra ! d] @ rest" "reader_ok s1" "inf_out s1 = inf_out s"
    using bits_number [OF r extra_bound(1) [OF h(1)] h(2) p] .
  obtain s2 where s2: "decode_symbol s1 dt = (int d, s2)" "pending s2 = map (bit x) [0..<distance_extra ! d] @ rest"
    "reader_ok s2" "inf_out s2 = inf_out s1"
    using decode_symbol_finds [OF tab h(4,5) s1(3,2)] .
  obtain s3 where s3: "bits s2 (distance_extra ! d) = (int x, s3)" "pending s3 = rest" "reader_ok s3" "inf_out s3 = inf_out s2"
    using bits_number [OF s2(3) extra_bound(2) [OF h(3)] h(6) s2(2)] .
  let ?d = "distance_base ! d + x"
  have d: "0 < ?d" "?d \<le> length (inf_out s3)"
    using distance_base_pos [OF h(3)] ex s1 s2 s3 by (auto simp: Let_def split: if_splits)
  have "length (inf_out s3) \<le> length out"
    using ex s1(4) s2(4) s3(4) by (auto simp: Let_def split: if_splits)
  then have w: "wrap32 (int (length (inf_out s))) = int (length (inf_out s))"
    using len s1(4) s2(4) s3(4) by (intro wrap32_id) simp_all
  have "match_step k dt s = (0, copy_match (length_base ! k + e) ?d s3)"
    using h s1 s2 s3 d by (simp add: match_step_def Let_def w)
  also have "\<dots> = (0, s3\<lparr> inf_out := out \<rparr>)"
    using ex s1(4) s2(4) s3(4) copy_match_repeats [OF d] by (auto simp: Let_def split: if_splits)
  finally show thesis using that s3 by (simp add: pending_def pending_with_def reader_ok_def)
qed

text \<open>C14: \<open>inflate_block\<close> implements LZ77 over canonical Huffman codes.  Let the two tables be
  what \<open>construct\<close> builds from code lengths (at most 15, the distance code may be empty) that do not
  over-subscribe their codes, with a code for the end of the block, and let the input hold the code words and extra bits of any sequence of literals and matches
  followed by the end-of-block symbol.  Then the decoder stops exactly behind that block with result 0
  and has appended the expansion of the sequence, in which a match repeats the last
  \<open>distance\<close> bytes of the output periodically (also where it overlaps its own output).  The
  expansion is shorter than \<open>2 ^ 31\<close> bytes: the decoder compares distances with the size of its
  output as an \<open>int\<close>.\<close>

theorem inflate_block_expands:
  assumes "0 \<le> fst (construct new_huffman ls n)" and "list_all (\<lambda>l. l \<le> 15) (take n ls)" and "n \<le> 288" and "n \<le> length ls"
    and "0 \<le> fst (construct new_huffman ds m)" and "list_all (\<lambda>l. l \<le> 15) (take m ds)" and "m \<le> 288" and "m \<le> length ds"
    and "256 < n" and "ls ! 256 \<noteq> 0"
    and "list_all (token_ok ls n ds m) tokens" and "expand tokens (inf_out s) = Some out" and "length out < 2 ^ 31"
    and "reader_ok s" and "pending s = concat (map (token_bits ls n ds m) tokens) @ symbol_bits ls n 256 @ rest"
  shows "\<exists>s'. inflate_block (snd (construct new_huffman ls n)) (snd (construct new_huffman ds m)) s = (0, s') \<and>
    inf_out s' = out \<and> pending s' = rest \<and> reader_ok s'"
proof -
  let ?lt = "snd (construct new_huffman ls n)" and ?dt = "snd (construct new_huffman ds m)"
  have lt: "table_for ?lt ls n"
    by (rule construct_table [OF assms(1)]) (use assms(2,3,4) in \<open>auto simp: list_all_length new_huffman_def\<close>)
  have dt: "table_for ?dt ds m"
    by (rule construct_table [OF assms(5)]) (use assms(6,7,8) in \<open>auto simp: list_all_length new_huffman_def\<close>)
  show ?thesis using assms(11,12,14,15)
  proof (induction tokens arbitrary: s)
    case Nil
    obtain s1 where "decode_symbol s ?lt = (int 256, s1)" "pending s1 = rest" "reader_ok s1" "inf_out s1 = inf_out s"
      using decode_symbol_finds [OF lt assms(9,10) Nil(3)] Nil(4) by auto
    then show ?case using Nil(2) by (subst inflate_block.simps) simp
  next
    case (Cons t ts)
    let ?rest = "concat (map (token_bits ls n ds m) ts) @ symbol_bits ls n 256 @ rest"
    obtain out1 where out1: "expand_token t (inf_out s) = Some out1" "expand ts out1 = Some out"
      using Cons.prems(2) by (auto split: option.splits)
    show ?case
    proof (cases t)
      case (Literal b)
      obtain s1 where s1: "decode_symbol s ?lt = (int (unat b), s1)" "pending s1 = ?rest" "reader_ok s1" "inf_out s1 = inf_out s"
        using decode_symbol_finds [OF lt _ _ Cons.prems(3), of "unat b" ?rest] Cons.prems(1,4) Literal by auto
      have "uint b < 2 ^ LENGTH(8)" by (rule unsigned_less)
      then have lit: "uint b < 256" by simp
      have "inflate_block ?lt ?dt s = inflate_block ?lt ?dt (push_out b s1)"
        using s1(1) lit by (subst inflate_block.simps) simp
      moreover have "\<exists>s'. inflate_block ?lt ?dt (push_out b s1) = (0, s') \<and> inf_out s' = out \<and> pending s' = rest \<and> reader_ok s'"
        using s1 Cons.prems(1) out1 Literal
        by (intro Cons.IH) (simp_all add: push_out_def pending_def pending_with_def reader_ok_def)
      ultimately show ?thesis by simp
    next
      case (Match k e d x)
      let ?extra = "map (bit e) [0..<length_extra ! k] @ symbol_bits ds m d @ map (bit x) [0..<distance_extra ! d] @ ?rest"
      have ok: "token_ok ls n ds m (Match k e d x)" using Cons.prems(1) Match by simp
      obtain s1 where s1: "decode_symbol s ?lt = (int (257 + k), s1)" "pending s1 = ?extra" "reader_ok s1" "inf_out s1 = inf_out s"
        using decode_symbol_finds [OF lt _ _ Cons.prems(3), of "257 + k" ?extra] Cons.prems(4) ok Match by auto
      obtain s2 where s2: "match_step k ?dt s1 = (0, s2)" "pending s2 = ?rest" "reader_ok s2" "inf_out s2 = out1"
        using match_step_expands [OF ok dt s1(3,2)] out1(1) Match s1(4) expand_longer [OF out1(2)] assms(13)
        by (metis le_less_trans)
      have "nat (int (257 + k) - 257) = k" by simp
      then have "inflate_block ?lt ?dt s = inflate_block ?lt ?dt s2"
        using s1(1) s2(1) by (subst inflate_block.simps) (simp add: Let_def)
      moreover have "\<exists>s'. inflate_block ?lt ?dt s2 = (0, s') \<and> inf_out s' = out \<and> pending s' = rest \<and> reader_ok s'"
        using s2 Cons.prems(1) out1 by (intro Cons.IH) simp_all
      ultimately show ?thesis by simp
    qed
  qed
qed

text \<open>The byte 0x16 holds the block of the literal \<open>a\<close> and a match of length 3 at distance 1.\<close>

definition sample_lengths :: "nat list" where
  "sample_lengths = replicate 97 0 @ [1] @ replicate 158 0 @ [2, 2]"

definition sample_state :: inflater where
  "sample_state = \<lparr> inf_rest = [22], inf_buffer = 0, inf_count = 0, inf_out = [] \<rparr>"

lemma count_of_take: "n \<le> length ls \<Longrightarrow> count_of ls n l = length (filter (\<lambda>x. x = l) (take n ls))"
  by (induction n) (simp_all add: count_of_Suc take_Suc_conv_app_nth, simp add: count_of_def)

lemma sample_code:
  "symbol_bits sample_lengths 258 97 = [False]"
  "symbol_bits sample_lengths 258 256 = [True, False]"
  "symbol_bits sample_lengths 258 257 = [True, True]"
  by (simp_all add: symbol_bits_def code_value_def code_bits_def count_of_take sample_lengths_def nth_append
      numeral_2_eq_2 filter_replicate, simp_all add: numeral_2_eq_2 [symmetric])

lemma sample_pending: "pending sample_state = concat (map (token_bits sample_lengths 258 [1] 1) [Literal 97, Match 0 0 0 0]) @
      symbol_bits sample_lengths 258 256 @ [False, False]"
proof -
  have "symbol_bits [1] 1 0 = [False]" by code_simp
  moreover have "pending sample_state = [False, True, True, False, True, False, False, False]" by code_simp
  moreover have "length_extra ! 0 = 0" "distance_extra ! 0 = 0" by code_simp+
  ultimately show ?thesis by (simp add: sample_code)
qed

lemma inflate_block_expands_witness:
  "\<exists>s'. inflate_block (snd (construct new_huffman sample_lengths 258)) (snd (construct new_huffman [1] 1)) sample_state = (0, s') \<and>
    inf_out s' = [97, 97, 97, 97] \<and> pending s' = [False, False] \<and> reader_ok s'"
proof (rule inflate_block_expands [where tokens = "[Literal 97, Match 0 0 0 0]"])
  show "0 \<le> fst (construct new_huffman sample_lengths 258)" by code_simp
  show "list_all (\<lambda>l. l \<le> 15) (take 258 sample_lengths)" by code_simp
  show "258 \<le> length sample_lengths" by code_simp
  show "0 \<le> fst (construct new_huffman [1] 1)" by code_simp
  show "list_all (token_ok sample_lengths 258 [1] 1) [Literal 97, Match 0 0 0 0]" by code_simp
  show "pending sample_state = concat (map (token_bits sample_lengths 258 [1] 1) [Literal 97, Match 0 0 0 0]) @
      symbol_bits sample_lengths 258 256 @ [False, False]" by (rule sample_pending)
  show "expand [Literal 97, Match 0 0 0 0] (inf_out sample_state) = Some [97, 97, 97, 97]" 
    by (simp add: Let_def distance_base_def length_base_def repeated_def sample_state_def upt_rec)
  show "sample_lengths ! 256 \<noteq> 0" by code_simp
qed (simp_all add: sample_state_def reader_ok_def clean_def)

end
