(* ===== verification/Gif_Codec.thy ===== *)
theory Gif_Codec
  imports Gif
begin

text \<open>
  The LZW half of what the GIF decoder promises.  The abstract side is an encoder from the
  GIF89a specification: it keeps its own table of strings, looks for the longest one that
  starts the rest of the data, and widens its codes when the table asks for it.  The decoder,
  whose table is always one string behind, returns the data.
\<close>

section \<open>Codes as bits\<close>

definition data_bits :: "bytes \<Rightarrow> bool list" where
  "data_bits data = concat (map (\<lambda>b. map (bit b) [0..<8]) data)"

lemma length_data_bits [simp]: "length (data_bits data) = 8 * length data"
  by (induction data) (simp_all add: data_bits_def)

lemma nth_data_bits: "p < 8 * length data \<Longrightarrow> data_bits data ! p = bit (data ! (p div 8)) (p mod 8)"
proof (induction data arbitrary: p)
  case (Cons b data)
  have c: "data_bits (b # data) = map (bit b) [0..<8] @ data_bits data" by (simp add: data_bits_def)
  show ?case
  proof (cases "p < 8")
    case True
    then show ?thesis unfolding c by (simp add: nth_append)
  next
    case False
    then have "data_bits (b # data) ! p = data_bits data ! (p - 8)" unfolding c by (simp add: nth_append)
    also have "\<dots> = bit (data ! ((p - 8) div 8)) ((p - 8) mod 8)" using Cons False by simp
    also have "\<dots> = bit ((b # data) ! (p div 8)) (p mod 8)" using False by (simp add: nth_Cons' le_div_geq le_mod_geq)
    finally show ?thesis .
  qed
qed simp

definition low_bits :: "nat \<Rightarrow> nat \<Rightarrow> bool list" where
  "low_bits width code = map (bit code) [0..<width]"

lemma add_bit: "take_bit i c OR push_bit i (if bit c i then 1 else 0) = take_bit (Suc i) c" for c :: nat
proof (rule bit_eqI)
  fix j
  show "bit (take_bit i c OR push_bit i (if bit c i then 1 else 0)) j = bit (take_bit (Suc i) c) j"
    by (cases j i rule: linorder_cases) (auto simp: bit_simps less_Suc_eq)
qed

lemma read_code_loop_bits:
  "drop pos (data_bits data) = map (bit c) [i..<i + k] @ rest \<Longrightarrow>
    read_code_loop data i k (take_bit i c) pos = (Some (take_bit (i + k) c), pos + k)"
proof (induction k arbitrary: i pos)
  case (Suc k)
  have d: "drop pos (data_bits data) = bit c i # map (bit c) [Suc i..<Suc i + k] @ rest"
    using Suc.prems upt_conv_Cons [of i "i + Suc k"] by (simp del: upt_Suc)
  then have p: "pos < 8 * length data" using drop_all [of "data_bits data" pos] by (metis length_data_bits list.distinct(1) not_less)
  have "data_bits data ! pos = bit c i" using d p by (metis Cons_nth_drop_Suc length_data_bits list.inject)
  then have b: "bit (data ! (pos div 8)) (pos mod 8) = bit c i" using nth_data_bits [OF p] by simp
  have "drop (Suc pos) (data_bits data) = map (bit c) [Suc i..<Suc i + k] @ rest"
    using d by (metis drop_Suc tl_drop list.sel(3))
  from Suc.IH [OF this] show ?case using p b add_bit [of i c] by (simp add: Let_def)
qed simp

lemma read_code_bits:
  assumes "drop pos (data_bits data) = low_bits w c @ rest" and "c < 2 ^ w"
  shows "read_code data w pos = (Some c, pos + w)"
  using read_code_loop_bits [of pos data c 0 w rest] assms
  by (simp add: read_code_def low_bits_def take_bit_nat_eq_self)

fun pack_bits :: "bool list \<Rightarrow> bytes" where
  "pack_bits [] = []"
| "pack_bits (b # bs) = horner_sum of_bool 2 (take 8 (b # bs)) # pack_bits (drop 8 (b # bs))"

lemma byte_bits: "map (bit (horner_sum of_bool 2 bs :: byte)) [0..<8] = take 8 (bs @ replicate 8 False)"
proof (rule nth_equalityI)
  fix i
  assume "i < length (map (bit (horner_sum of_bool 2 bs :: byte)) [0..<8])"
  then show "map (bit (horner_sum of_bool 2 bs :: byte)) [0..<8] ! i = take 8 (bs @ replicate 8 False) ! i"
    by (auto simp: bit_horner_sum_bit_iff nth_append)
qed simp

lemma pack_bits_bits: "\<exists>pad. data_bits (pack_bits bs) = bs @ pad"
proof (induction bs rule: pack_bits.induct)
  case (2 b bs)
  let ?bs = "b # bs"
  obtain pad where pad: "data_bits (pack_bits (drop 8 ?bs)) = drop 8 ?bs @ pad" using 2 by blast
  have d: "data_bits (pack_bits ?bs) = take 8 (take 8 ?bs @ replicate 8 False) @ drop 8 ?bs @ pad"
    using pad byte_bits [of "take 8 ?bs"] by (simp add: data_bits_def del: take_append)
  show ?case
  proof (cases "8 \<le> length ?bs")
    case True
    then have "take 8 (take 8 ?bs @ replicate 8 False) = take 8 ?bs" by simp
    then show ?thesis unfolding d using append_take_drop_id [of 8 ?bs] by (metis append.assoc)
  next
    case False
    then have "take 8 (take 8 ?bs @ replicate 8 False) = ?bs @ replicate (8 - length ?bs) False" "drop 8 ?bs = []" by simp_all
    then show ?thesis unfolding d by simp
  qed
qed (simp add: data_bits_def)


section \<open>LZW, from the specification\<close>

text \<open>The table of strings; the codes for "clear" and "end" stand for nothing.\<close>

definition first_table :: "nat \<Rightarrow> bytes list" where
  "first_table m = map (\<lambda>i. [of_nat i]) [0..<2 ^ m] @ [[], []]"

text \<open>The width of a code when \<open>n\<close> codes have a meaning for the decoder: from \<open>m + 1\<close> bits on, until
  all of them and the next fit, but never more than 12 bits.\<close>

function width_from :: "nat \<Rightarrow> nat \<Rightarrow> nat" where
  "width_from w n = (if w < 12 \<and> 2 ^ w \<le> n then width_from (Suc w) n else w)"
  by pat_completeness auto
termination by (relation "measure (\<lambda>(w, n). 12 - w)") auto

declare width_from.simps [simp del]

definition code_width :: "nat \<Rightarrow> nat \<Rightarrow> nat" where
  "code_width m n = width_from (m + 1) n"

lemma width_more: "w < 12 \<Longrightarrow> 2 ^ w \<le> n \<Longrightarrow> width_from w n = width_from (Suc w) n"
  by (subst width_from.simps) simp

lemma width_stop: "w < 12 \<longrightarrow> n < 2 ^ w \<Longrightarrow> width_from w n = w"
  by (subst width_from.simps) auto

lemma width_from_bounds: "w \<le> 12 \<Longrightarrow> w \<le> width_from w n \<and> width_from w n \<le> 12 \<and> (width_from w n = 12 \<or> n < 2 ^ width_from w n)"
proof (induction w n rule: width_from.induct)
  case (1 w n)
  then show ?case by (cases "w < 12 \<and> 2 ^ w \<le> n") (auto simp: width_more width_stop)
qed

lemma width_from_Suc:
  "w \<le> 12 \<Longrightarrow> width_from w (Suc n) =
    (if Suc n = 2 ^ width_from w n \<and> width_from w n < 12 then Suc (width_from w n) else width_from w n)"
proof (induction w n rule: width_from.induct)
  case (1 w n)
  consider (more) "w < 12" "2 ^ w \<le> n" | (edge) "w < 12" "Suc n = 2 ^ w" | (stop) "w < 12 \<longrightarrow> Suc n < 2 ^ w"
    by linarith
  then show ?case
  proof cases
    case more
    then show ?thesis using 1 by (simp add: width_more)
  next
    case edge
    then have "width_from w (Suc n) = width_from (Suc w) (Suc n)" by (simp add: width_more)
    also have "\<dots> = Suc w" using edge by (simp add: width_stop)
    finally show ?thesis using edge by (simp add: width_stop)
  next
    case stop
    then have "width_from w n = w" "width_from w (Suc n) = w" by (auto intro: width_stop)
    then show ?thesis using stop by auto
  qed
qed

text \<open>The longest string of the table that starts the data.\<close>

definition longest_match :: "bytes list \<Rightarrow> bytes \<Rightarrow> bytes" where
  "longest_match T data =
     (let ns = filter (\<lambda>n. take n data \<in> set T) [1..<Suc (length data)] in take (if ns = [] then 1 else last ns) data)"

lemma longest_match_prefix: "longest_match T data = take (length (longest_match T data)) data"
  by (simp add: longest_match_def Let_def min_def)

lemma longest_match_nonempty: "data \<noteq> [] \<Longrightarrow> longest_match T data \<noteq> []"
  using last_in_set [of "filter (\<lambda>n. take n data \<in> set T) [1..<Suc (length data)]"]
  by (auto simp: longest_match_def Let_def)

lemma longest_match_known:
  assumes "data \<noteq> []" and "[hd data] \<in> set T"
  shows "longest_match T data \<in> set T"
proof -
  let ?ns = "filter (\<lambda>n. take n data \<in> set T) [1..<Suc (length data)]"
  have "take 1 data \<in> set T" using assms by (cases data) simp_all
  then have "1 \<in> set ?ns" using assms(1) by (cases data) (auto simp del: upt_Suc)
  then have "?ns \<noteq> []" by (metis empty_iff list.set(1))
  then show ?thesis using last_in_set [of ?ns] by (auto simp: longest_match_def Let_def simp del: upt_Suc)
qed

definition code_of :: "bytes list \<Rightarrow> bytes \<Rightarrow> nat" where
  "code_of T w = length (takeWhile (\<lambda>x. x \<noteq> w) T)"

lemma code_of_known: "w \<in> set T \<Longrightarrow> code_of T w < length T \<and> T ! code_of T w = w"
proof (induction T)
  case (Cons x T)
  then show ?case by (cases "x = w") (simp_all add: code_of_def)
qed simp

text \<open>The bits of the data and of the end code; \<open>known\<close> is the number of codes the decoder can read.\<close>

function lzw_encode :: "nat \<Rightarrow> bytes list \<Rightarrow> nat \<Rightarrow> bytes \<Rightarrow> bool list" where
  "lzw_encode m T known data =
     (if data = [] then low_bits (code_width m known) (2 ^ m + 1)
      else
        let w = longest_match T data; rest = drop (length w) data;
            T' = (if rest \<noteq> [] \<and> length T < 4096 then T @ [w @ [hd rest]] else T)
        in low_bits (code_width m known) (code_of T w) @ lzw_encode m T' (length T) rest)"
  by pat_completeness auto
termination
  by (relation "measure (\<lambda>(m, T, known, data). length data)") (auto simp: longest_match_nonempty)

declare lzw_encode.simps [simp del]

text \<open>The compressed data: a clear code, the codes of the data, the end code.\<close>

definition lzw_pack :: "nat \<Rightarrow> bytes \<Rightarrow> bytes" where
  "lzw_pack m data = pack_bits (low_bits (m + 1) (2 ^ m) @ lzw_encode m (first_table m) (2 ^ m + 2) data)"


section \<open>The decoder undoes the encoder\<close>

text \<open>What the decoder knows when the encoder has the table \<open>T\<close> and \<open>data\<close> left: all strings but
  perhaps the last one, which is the previous string and the first symbol to come.\<close>

definition lzw_follows :: "nat \<Rightarrow> bytes list \<Rightarrow> nat \<Rightarrow> bytes \<Rightarrow> lzw_state \<Rightarrow> bool" where
  "lzw_follows m T known data s \<longleftrightarrow>
     lz_next s = known \<and> length (lz_dictionary s) = 4096 \<and> code_size m s = code_width m known \<and>
     known \<le> length T \<and> length T \<le> 4096 \<and> (\<forall>i<known. lz_dictionary s ! i = T ! i) \<and>
     (lz_previous s = [] \<longrightarrow> known = length T) \<and>
     (lz_previous s \<noteq> [] \<and> data \<noteq> [] \<and> known < 4096 \<longrightarrow>
        length T = Suc known \<and> T ! known = lz_previous s @ [hd data])"

definition good_table :: "nat \<Rightarrow> bytes list \<Rightarrow> bool" where
  "good_table m T \<longleftrightarrow> 2 ^ m + 2 \<le> length T \<and> T ! (2 ^ m) = [] \<and> T ! (2 ^ m + 1) = [] \<and> (\<forall>i<2 ^ m. T ! i = [of_nat i])"

lemma good_table_first: "good_table m (first_table m)"
  by (auto simp: good_table_def first_table_def nth_append)

lemma good_table_append: "good_table m T \<Longrightarrow> good_table m (T @ U)"
  by (auto simp: good_table_def nth_append)

lemma good_table_symbol: "good_table m T \<Longrightarrow> unat b < 2 ^ m \<Longrightarrow> [b] \<in> set T"
  using nth_mem [of "unat b" T] by (simp add: good_table_def)

lemma lzw_entry_follows:
  assumes f: "lzw_follows m T known data s" and d: "data \<noteq> []"
    and c: "c < length T" "T ! c = w" "w \<noteq> []" "w = take (length w) data"
  shows "lzw_entry s c = Some w"
proof (cases "c < known")
  case True
  then show ?thesis using f c by (simp add: lzw_entry_def lzw_follows_def)
next
  case False
  then have k: "c = known" "lz_previous s \<noteq> []" "T ! known = lz_previous s @ [hd data]"
    using f c(1) d by (auto simp: lzw_follows_def)
  have w: "w = lz_previous s @ [hd data]" using k c(2) by simp
  have "hd data = hd w" using c(3,4) by (metis hd_take length_greater_0_conv)
  then have "hd data = hd (lz_previous s)" using k(2) w by simp
  then show ?thesis using k w f by (simp add: lzw_entry_def lzw_follows_def)
qed
lemma lzw_learn_follows:
  assumes f: "lzw_follows m T known data s" and d: "data \<noteq> []" and m: "m \<le> 8" and w: "hd w = hd data"
  defines "s' \<equiv> lzw_learn m w s"
  shows "lz_next s' = length T" and "length (lz_dictionary s') = 4096" and "code_size m s' = code_width m (length T)"
    and "\<forall>i<length T. lz_dictionary s' ! i = T ! i"
proof -
  have "lz_next s' = length T \<and> length (lz_dictionary s') = 4096 \<and> code_size m s' = code_width m (length T)
    \<and> (\<forall>i<length T. lz_dictionary s' ! i = T ! i)"
  proof (cases "lz_previous s \<noteq> [] \<and> known < 4096")
    case True
    then have k: "length T = Suc known" "T ! known = lz_previous s @ [hd data]" using f d by (auto simp: lzw_follows_def)
    have "code_width m (Suc known) = (if Suc known = 2 ^ code_width m known \<and> code_width m known < 12
        then Suc (code_width m known) else code_width m known)"
      using m by (simp add: code_width_def width_from_Suc)
    then show ?thesis using f True k w
      by (auto simp: s'_def lzw_learn_def lzw_follows_def code_size_def less_Suc_eq nth_list_update)
  next
    case False
    then have "known = length T" using f by (auto simp: lzw_follows_def)
    then show ?thesis using f False by (auto simp: s'_def lzw_learn_def lzw_follows_def)
  qed
  then show "lz_next s' = length T" "length (lz_dictionary s') = 4096" "code_size m s' = code_width m (length T)"
    "\<forall>i<length T. lz_dictionary s' ! i = T ! i" by blast+
qed

lemma lzw_learn_position [simp]: "lz_position (lzw_learn m w s) = lz_position s" "lz_out (lzw_learn m w s) = lz_out s"
  by (simp_all add: lzw_learn_def Let_def)

lemma lzw_entry_position [simp]: "lzw_entry (s\<lparr> lz_position := p \<rparr>) c = lzw_entry s c"
  by (simp add: lzw_entry_def)

lemma lzw_follows_output [simp]:
  "lzw_follows m T known data (s\<lparr> lz_out := x, lz_position := p \<rparr>) = lzw_follows m T known data s"
  by (simp add: lzw_follows_def code_size_def)

lemma code_width_fits:
  assumes "lzw_follows m T known data s" and "m \<le> 8" and "c < length T" "data \<noteq> []"
  shows "c < 2 ^ code_width m known"
proof (cases "code_width m known = 12")
  case True
  have "c < 4096" using assms(1,3) unfolding lzw_follows_def by linarith
  then show ?thesis unfolding True by simp
next
  case False
  then have "known < 2 ^ code_width m known"
    using width_from_bounds [of "m + 1" known] assms(2) by (simp add: code_width_def)
  moreover have "length T \<le> Suc known"
  proof -
    have "lz_previous s = [] \<longrightarrow> known = length T" "lz_previous s \<noteq> [] \<and> known < 4096 \<longrightarrow> length T = Suc known"
      "length T \<le> 4096"
      using assms(1,4) unfolding lzw_follows_def by blast+
    then show ?thesis by linarith
  qed
  ultimately show ?thesis using assms(3) by linarith
qed

lemma lzw_loop_stop: "lzw_step m data s = None \<Longrightarrow> lzw_loop m data s = s"
  by (subst lzw_loop.simps) simp

lemma lzw_loop_more: "lzw_step m data s = Some s' \<Longrightarrow> lzw_loop m data s = lzw_loop m data s'"
  by (subst lzw_loop.simps) simp

lemma lzw_loop_decodes:
  "lzw_follows m T known data s \<Longrightarrow> good_table m T \<Longrightarrow> 2 \<le> m \<Longrightarrow> m \<le> 8 \<Longrightarrow> list_all (\<lambda>b. unat b < 2 ^ m) data \<Longrightarrow>
    drop (lz_position s) (data_bits bytes) = lzw_encode m T known data @ rest \<Longrightarrow>
    lz_out (lzw_loop m bytes s) = lz_out s @ data"
proof (induction m T known data arbitrary: s rule: lzw_encode.induct)
  case (1 m T known data)
  note f = 1(2) and T = 1(3) and m = 1(4,5)
  have size: "code_size m s = code_width m known" using f by (simp add: lzw_follows_def)
  show ?case
  proof (cases "data = []")
    case True
    have "2 ^ m + 1 < (2::nat) ^ code_width m known"
    proof -
      have "m + 1 \<le> code_width m known" using m width_from_bounds [of "m + 1" known] by (simp add: code_width_def)
      then have "(2::nat) ^ (m + 1) \<le> 2 ^ code_width m known" by (rule power_increasing) simp
      moreover have "(2::nat) ^ 2 \<le> 2 ^ m" using m(1) by (rule power_increasing) simp
      ultimately show ?thesis by simp
    qed
    then have "read_code bytes (code_width m known) (lz_position s) = (Some (2 ^ m + 1), lz_position s + code_width m known)"
      using 1(7) True by (intro read_code_bits [where rest = rest]) (simp_all add: lzw_encode.simps)
    then have "lzw_step m bytes s = None" using size by (simp add: lzw_step_def Let_def)
    then show ?thesis using True by (simp add: lzw_loop_stop)
  next
    case False
    define w where "w = longest_match T data"
    define left where "left = drop (length w) data"
    define T' where "T' = (if left \<noteq> [] \<and> length T < 4096 then T @ [w @ [hd left]] else T)"
    define p where "p = lz_position s + code_width m known"
    define s' where "s' = (lzw_learn m w (s\<lparr>lz_position := p, lz_out := lz_out s @ w\<rparr>))\<lparr>lz_previous := w\<rparr>"
    have w: "w \<noteq> []" "w = take (length w) data"
      using longest_match_nonempty [OF False] longest_match_prefix by (auto simp: w_def)
    have d: "data = w @ left" using w(2) append_take_drop_id [of "length w" data] by (simp add: left_def)
    have "w \<in> set T" unfolding w_def using 1(6) False T
      by (intro longest_match_known good_table_symbol) (auto simp: list_all_iff)
    then have c: "code_of T w < length T" "T ! code_of T w = w" using code_of_known by auto
    have enc: "lzw_encode m T known data = low_bits (code_width m known) (code_of T w) @ lzw_encode m T' (length T) left"
      using False by (subst lzw_encode.simps) (simp add: Let_def w_def left_def T'_def)
    have r: "read_code bytes (code_width m known) (lz_position s) = (Some (code_of T w), p)"
      unfolding p_def using 1(7) enc code_width_fits [OF f m(2) c(1) False] by (intro read_code_bits) simp_all
    have "code_of T w \<noteq> 2 ^ m" "code_of T w \<noteq> 2 ^ m + 1" using c w(1) T by (auto simp: good_table_def)
    then have step: "lzw_step m bytes s = Some s'"
      using r size lzw_entry_follows [OF f False c w]
      by (simp add: lzw_step_def s'_def Let_def)
    have h: "hd w = hd data" using d w(1) by simp
    note l = lzw_learn_follows [of m T known data "s\<lparr>lz_position := p, lz_out := lz_out s @ w\<rparr>" w]
    have f': "lzw_follows m T' (length T) left s'"
      unfolding lzw_follows_def s'_def T'_def using l f False h m w(1)
      by (auto simp: lzw_follows_def code_size_def nth_append)
    have "good_table m T'" using T good_table_append by (simp add: T'_def)
    moreover have "drop (lz_position s') (data_bits bytes) = lzw_encode m T' (length T) left @ rest"
    proof -
      have "drop p (data_bits bytes) = drop (code_width m known) (drop (lz_position s) (data_bits bytes))"
        by (simp add: p_def add.commute)
      then show ?thesis using 1(7) enc by (simp add: s'_def low_bits_def)
    qed
    ultimately have "lz_out (lzw_loop m bytes s') = lz_out s' @ left"
      using 1(1) [OF False w_def left_def T'_def f'] m 1(6) d by simp
    then show ?thesis using step d by (simp add: lzw_loop_more [OF step] s'_def)
  qed
qed


lemma pow_byte: "m \<le> 8 \<Longrightarrow> (2::nat) ^ m \<le> 256"
  using power_increasing [of m 8 "2::nat"] by simp

text \<open>The LZW decoder undoes the encoder: whatever the code size from 2 to 8 and whatever
  the data of that size, when the table fills up and when the encoder uses a string the
  decoder does not have yet included, the decoder returns the data.\<close>

lemma lzw_decode_pack:
  assumes "2 \<le> m" and "m \<le> 8" and "list_all (\<lambda>b. unat b < 2 ^ m) data"
  shows "lzw_decode (lzw_pack m data) m = Some data"
proof -
  let ?bytes = "lzw_pack m data" and ?s = "(new_lzw m)\<lparr> lz_position := m + 1 \<rparr>"
  obtain pad where bits: "data_bits ?bytes = low_bits (m + 1) (2 ^ m) @ lzw_encode m (first_table m) (2 ^ m + 2) data @ pad"
    using pack_bits_bits [of "low_bits (m + 1) (2 ^ m) @ lzw_encode m (first_table m) (2 ^ m + 2) data"]
    by (auto simp: lzw_pack_def)
  have "read_code ?bytes (m + 1) 0 = (Some (2 ^ m), 0 + (m + 1))"
    using bits by (intro read_code_bits) simp_all
  then have step: "lzw_step m ?bytes (new_lzw m) = Some ?s"
    by (simp add: lzw_step_def new_lzw_def code_size_def)
  have dict: "\<forall>i<2 ^ m + 2. first_dictionary m ! i = first_table m ! i"
    using pow_byte [OF assms(2)] by (auto simp: first_dictionary_def first_table_def nth_append less_Suc_eq)
  have w: "code_width m (2 ^ m + 2) = m + 1"
    using power_increasing [OF assms(1), of "2::nat"] by (simp add: code_width_def width_stop)
  have "lzw_follows m (first_table m) (2 ^ m + 2) data ?s"
    unfolding lzw_follows_def using dict w pow_byte [OF assms(2)]
    by (simp add: new_lzw_def code_size_def first_dictionary_def [of m] first_table_def [of m])
  moreover have "drop (lz_position ?s) (data_bits ?bytes) = lzw_encode m (first_table m) (2 ^ m + 2) data @ pad"
    using bits by (simp add: low_bits_def)
  ultimately have "lz_out (lzw_loop m ?bytes ?s) = lz_out ?s @ data"
    using good_table_first assms by (intro lzw_loop_decodes)
  then show ?thesis using step assms(1,2) by (simp add: lzw_decode_def lzw_loop_more new_lzw_def)
qed

end
