(* ===== verification/Gif_File.thy ===== *)
theory Gif_File
  imports Gif_Codec Png_Codec
begin

text \<open>
  What the GIF decoder promises of a file.  The abstract side writes a GIF89a file with one
  frame that fills the screen, its colours in the global table, its rows in order or
  interlaced, its compressed data in sub-blocks.  The decoder gives back the image.
\<close>

section \<open>The order of the rows\<close>

lemma strided_filter: "0 < step \<Longrightarrow> strided y step h = filter (\<lambda>z. z mod step = y mod step) [y..<h]"
proof (induction y step h rule: strided.induct)
  case (1 y step h)
  show ?case
  proof (cases "y < h \<and> 0 < step")
    case True
    have "filter (\<lambda>z. z mod step = y mod step) [Suc y..<min (y + step) h] = []"
    proof -
      have "z mod step \<noteq> y mod step" if "Suc y \<le> z" "z < y + step" for z
      proof
        assume "z mod step = y mod step"
        then have "step dvd z - y" using that mod_eq_dvd_iff_nat [of y z step] by simp
        then show False using that by (auto dest: dvd_imp_le)
      qed
      then show ?thesis by (simp add: filter_empty_conv)
    qed
    moreover have "[y..<h] = y # [Suc y..<min (y + step) h] @ [y + step..<h]"
    proof -
      have "[Suc y..<h] = [Suc y..<min (y + step) h] @ [y + step..<h]"
      proof (cases "y + step \<le> h")
        case True
        then show ?thesis using upt_add_eq_append [of "Suc y" "y + step" "h - (y + step)"] \<open>y < h \<and> 0 < step\<close> by (simp add: Suc_le_eq)
      qed simp
      then show ?thesis using True by (simp add: upt_conv_Cons)
    qed
    ultimately show ?thesis using 1 True by (subst strided.simps) simp
  next
    case False
    then show ?thesis using 1(2) by (subst strided.simps) auto
  qed
qed

text \<open>The rows of an interlaced image, in the order of the specification: every eighth row
  from row 0, every eighth from row 4, every fourth from row 2, every second from row 1.\<close>

definition interlaced_rows :: "nat \<Rightarrow> nat list" where
  "interlaced_rows h =
     filter (\<lambda>y. 8 dvd y) [0..<h] @ filter (\<lambda>y. 8 dvd y + 4) [0..<h] @ filter (\<lambda>y. 4 dvd y + 2) [0..<h] @
     filter (\<lambda>y. odd y) [0..<h]"

definition file_rows :: "bool \<Rightarrow> nat \<Rightarrow> nat list" where
  "file_rows interlaced h = (if interlaced then interlaced_rows h else [0..<h])"

lemma strided_from: "k < step \<Longrightarrow> strided k step h = filter (\<lambda>z. z mod step = k) [0..<h]"
proof -
  assume k: "k < step"
  have "filter (\<lambda>z. z mod step = k) [0..<k] = []" using k by (auto simp: filter_empty_conv)
  moreover have "[0..<h] = [0..<min k h] @ [k..<h]"
    using upt_add_eq_append [of 0 k "h - k"] by (cases "k \<le> h") simp_all
  ultimately show ?thesis using k strided_filter [of step k h] by (cases "k \<le> h") (auto simp: min_def filter_empty_conv)
qed

lemma row_order_file_rows: "row_order interlaced h = file_rows interlaced h"
proof -
  have "z mod 8 = 4 \<longleftrightarrow> 8 dvd z + 4" "z mod 4 = 2 \<longleftrightarrow> 4 dvd z + 2" for z :: nat by presburger+
  then show ?thesis
    by (simp add: row_order_def file_rows_def interlaced_rows_def strided_from strided_filter
        dvd_eq_mod_eq_0 [of 8] odd_iff_mod_2_eq_one)
qed

lemma set_file_rows [simp]: "set (file_rows interlaced h) = {..<h}"
proof -
  have "8 dvd y \<or> 8 dvd y + 4 \<or> 4 dvd y + 2 \<or> odd y" for y :: nat by presburger
  then show ?thesis by (auto simp: file_rows_def interlaced_rows_def)
qed


section \<open>Drawing a frame\<close>

text \<open>The rows in the order of the file.\<close>

definition file_indices :: "bool \<Rightarrow> nat \<Rightarrow> nat \<Rightarrow> 'a list \<Rightarrow> 'a list" where
  "file_indices interlaced w h img = concat (map (\<lambda>y. take w (drop (y * w) img)) (file_rows interlaced h))"

definition whole_frame :: "gif_frame \<Rightarrow> bool" where
  "whole_frame f \<longleftrightarrow> gf_left f = 0 \<and> gf_top f = 0 \<and> gf_transparent f = None"

lemma draw_row_whole:
  "whole_frame f \<Longrightarrow> y < h \<Longrightarrow> x \<le> w \<Longrightarrow> length row = w - x \<Longrightarrow> length pixels = w * h \<Longrightarrow>
    list_all (\<lambda>i. unat i < length (gf_table f)) row \<Longrightarrow>
    draw_row f w h y [x..<w] (row @ rest, pixels) =
      (rest, take (y * w + x) pixels @ map (\<lambda>i. gf_table f ! unat i) row @ drop (y * w + w) pixels)"
proof (induction row arbitrary: x pixels)
  case (Cons i row)
  have x: "x < w" using Cons.prems(4) by simp
  have "y * w + x < Suc y * w" using x by simp
  also have "Suc y * w \<le> h * w" using Cons.prems(2) by (intro mult_right_mono) simp_all
  finally have k: "y * w + x < length pixels" using Cons.prems(5) by (simp add: mult.commute)
  let ?p = "pixels[y * w + x := gf_table f ! unat i]"
  have "draw_pixel f w h y x i pixels = ?p"
    using Cons.prems(1,2,6) x by (simp add: draw_pixel_def whole_frame_def)
  moreover have "take (y * w + Suc x) ?p = take (y * w + x) pixels @ [gf_table f ! unat i]"
    using k by (simp add: take_Suc_conv_app_nth)
  moreover have "drop (y * w + w) ?p = drop (y * w + w) pixels" using x by simp
  ultimately show ?case using Cons.IH [of "Suc x" ?p] Cons.prems x by (simp add: upt_conv_Cons)
qed simp

lemma draw_rows_whole:
  assumes f: "whole_frame f" "gf_width f = w" and img: "length img = w * h" "list_all (\<lambda>i. unat i < length (gf_table f)) img"
  shows "list_all (\<lambda>y. y < h) ys \<Longrightarrow> length pixels = w * h \<Longrightarrow>
    \<exists>pixels'. fold (\<lambda>y. draw_row f w h y [0..<w]) ys (concat (map (\<lambda>y. take w (drop (y * w) img)) ys) @ rest, pixels) = (rest, pixels') \<and>
      length pixels' = w * h \<and>
      (\<forall>j<w * h. pixels' ! j = (if j div w \<in> set ys then gf_table f ! unat (img ! j) else pixels ! j))"
proof (induction ys arbitrary: pixels)
  case (Cons y ys)
  let ?row = "take w (drop (y * w) img)"
  let ?p = "take (y * w) pixels @ map (\<lambda>i. gf_table f ! unat i) ?row @ drop (y * w + w) pixels"
  have y: "y < h" "list_all (\<lambda>y. y < h) ys" using Cons.prems by auto
  have le: "y * w + w \<le> w * h" using y(1) mult_le_mono1 [of "Suc y" h w] by (simp add: mult.commute)
  then have row: "length ?row = w" using img(1) by simp
  have "list_all (\<lambda>i. unat i < length (gf_table f)) ?row"
    using img(2) by (auto simp: list_all_iff dest!: in_set_takeD in_set_dropD)
  then have one: "draw_row f w h y [0..<w] (?row @ r, pixels) = (r, ?p)" for r
    using draw_row_whole [OF f(1) y(1), of 0 w ?row pixels r] row Cons.prems(2) by simp
  have len: "length ?p = w * h" using row le Cons.prems(2) by simp
  have nth: "?p ! j = (if j div w = y then gf_table f ! unat (img ! j) else pixels ! j)" if "j < w * h" for j
  proof -
    have w: "0 < w" using that by (cases w) simp_all
    have "j < y * w \<Longrightarrow> j div w \<noteq> y" using w by (metis div_mult_self_is_m div_less_iff_less_mult less_irrefl)
    moreover have "y * w + w \<le> j \<Longrightarrow> j div w \<noteq> y"
      using w by (metis add.commute div_less_iff_less_mult lessI mult_Suc not_less)
    moreover have "y * w \<le> j \<Longrightarrow> j < y * w + w \<Longrightarrow> j div w = y"
      by (metis add.commute div_nat_eqI mult.commute mult_Suc_right)
    moreover have "min (w * h) (y * w) = y * w" using le by simp
    moreover have "y * w \<le> length img" using le img(1) by linarith
    then have "y * w \<le> j \<Longrightarrow> drop (y * w) img ! (j - y * w) = img ! j" by simp
    ultimately show ?thesis using that le Cons.prems(2) row img(1)
      by (cases "j < y * w"; cases "j < y * w + w") (auto simp: nth_append)
  qed
  obtain pixels' where p': "fold (\<lambda>y. draw_row f w h y [0..<w]) ys (concat (map (\<lambda>y. take w (drop (y * w) img)) ys) @ rest, ?p) = (rest, pixels')"
    "length pixels' = w * h" "\<forall>j<w * h. pixels' ! j = (if j div w \<in> set ys then gf_table f ! unat (img ! j) else ?p ! j)"
    using Cons.IH [OF y(2) len] by blast
  have "fold (\<lambda>y. draw_row f w h y [0..<w]) (y # ys) (concat (map (\<lambda>y. take w (drop (y * w) img)) (y # ys)) @ rest, pixels) = (rest, pixels')"
    using one p'(1) by simp
  then show ?case using p'(2,3) nth by (intro exI [of _ pixels'] conjI allI impI) auto
qed simp

lemma draw_frame_whole:
  assumes "whole_frame f" "gf_width f = w" "gf_height f = h" "length img = w * h"
    and "list_all (\<lambda>i. unat i < length (gf_table f)) img"
  shows "draw_frame f interlaced w h (file_indices interlaced w h img) =
    \<lparr> img_width = int w, img_height = int h, img_pixels = map (\<lambda>i. gf_table f ! unat i) img \<rparr>"
proof -
  let ?ys = "file_rows interlaced h"
  have "list_all (\<lambda>y. y < h) ?ys" by (simp add: list_all_iff)
  from draw_rows_whole [OF assms(1,2,4,5) this, of "replicate (w * h) (rgba 0 0 0 0)" "[]"]
  obtain pixels where p: "fold (\<lambda>y. draw_row f w h y [0..<w]) ?ys (file_indices interlaced w h img, replicate (w * h) (rgba 0 0 0 0)) = ([], pixels)"
    "length pixels = w * h" "\<forall>j<w * h. pixels ! j = (if j div w < h then gf_table f ! unat (img ! j) else rgba 0 0 0 0)"
    by (auto simp: file_indices_def)
  have "j div w < h" if "j < w * h" for j using that by (simp add: less_mult_imp_div_less mult.commute)
  then have "pixels = map (\<lambda>i. gf_table f ! unat i) img" using p(2,3) assms(4) by (intro nth_equalityI) simp_all
  then show ?thesis using p(1) assms(2,3) by (simp add: draw_frame_def row_order_file_rows)
qed


section \<open>The file\<close>

function sub_blocks :: "bytes \<Rightarrow> bytes" where
  "sub_blocks data =
     (if data = [] then [0] else of_nat (length (take 255 data)) # take 255 data @ sub_blocks (drop 255 data))"
  by pat_completeness auto
termination by (relation "measure length") auto

declare sub_blocks.simps [simp del]

definition color_bytes :: "color \<Rightarrow> bytes" where
  "color_bytes c = [red c, green c, blue c]"

definition encode_gif :: "nat \<Rightarrow> bool \<Rightarrow> nat \<Rightarrow> nat \<Rightarrow> color list \<Rightarrow> bytes \<Rightarrow> bytes" where
  "encode_gif m interlaced w h table img =
     bytes_of_string ''GIF89a'' @ u16_bytes w @ u16_bytes h @ [0x80 OR of_nat (m - 1), 0, 0] @
     concat (map color_bytes table) @
     [0x2C, 0, 0, 0, 0] @ u16_bytes w @ u16_bytes h @ [if interlaced then 0x40 else 0, of_nat m] @
     sub_blocks (lzw_pack m (file_indices interlaced w h img)) @ [0x3B]"

lemma read_sub_blocks_written:
  "drop pos bs = sub_blocks data @ rest \<Longrightarrow> read_sub_blocks bs pos out = Some (out @ data, pos + length (sub_blocks data))"
proof (induction data arbitrary: pos out rule: sub_blocks.induct)
  case (1 data)
  have pos: "pos < length bs"
    using 1(2) drop_all [of bs pos] by (subst (asm) sub_blocks.simps) (auto split: if_splits simp: not_le [symmetric])
  show ?case
  proof (cases "data = []")
    case True
    then have "bs ! pos = 0" using 1(2) pos Cons_nth_drop_Suc [OF pos] by (simp add: sub_blocks.simps)
    then show ?thesis using True pos by (simp add: read_sub_blocks.simps sub_blocks.simps)
  next
    case False
    let ?n = "length (take 255 data)"
    have d: "drop pos bs = of_nat ?n # take 255 data @ sub_blocks (drop 255 data) @ rest"
      using 1(2) False by (subst (asm) sub_blocks.simps) simp
    have n: "unat (bs ! pos) = ?n"
      using d Cons_nth_drop_Suc [OF pos] by (simp add: unat_of_nat_byte)
    have n0: "?n \<noteq> 0" using False by simp
    have tl: "drop (pos + 1) bs = take 255 data @ sub_blocks (drop 255 data) @ rest"
      using d Cons_nth_drop_Suc [OF pos] by simp
    have fits: "\<not> length bs < pos + 1 + ?n" using arg_cong [OF tl, of length] pos by simp
    have t: "take ?n (drop (pos + 1) bs) = take 255 data" unfolding tl by (simp add: min_def)
    have "drop (pos + 1 + ?n) bs = drop ?n (drop (pos + 1) bs)" by (simp add: add.commute)
    also have "\<dots> = sub_blocks (drop 255 data) @ rest" unfolding tl by simp
    finally have "read_sub_blocks bs (pos + 1 + ?n) (out @ take 255 data) =
        Some ((out @ take 255 data) @ drop 255 data, pos + 1 + ?n + length (sub_blocks (drop 255 data)))"
      using 1(1) False by blast
    moreover have "read_sub_blocks bs pos out = read_sub_blocks bs (pos + 1 + ?n) (out @ take 255 data)"
      using pos n n0 fits t by (subst read_sub_blocks.simps) (simp add: Let_def del: length_take)
    moreover have "length (sub_blocks data) = 1 + ?n + length (sub_blocks (drop 255 data))"
      using False by (subst sub_blocks.simps) simp
    ultimately show ?thesis by simp
  qed
qed

lemma nth_after_drop: "drop p bs = xs @ rest \<Longrightarrow> i < length xs \<Longrightarrow> bs ! (p + i) = xs ! i"
  by (metis length_append nth_append nth_drop nat_le_linear drop_all less_nat_zero_code trans_less_add1 list.size(3))

lemma read_u16_written: "n < 65536 \<Longrightarrow> drop p bs = u16_bytes n @ rest \<Longrightarrow> read_u16_le bs p = n"
proof -
  assume n: "n < 65536" and d: "drop p bs = u16_bytes n @ rest"
  have "n div 256 < 256" using n by simp
  moreover have "(n mod 256) OR push_bit 8 (n div 256) = n"
  proof -
    have "n mod 256 = take_bit 8 n" "n div 256 = drop_bit 8 n" by (simp_all add: take_bit_eq_mod drop_bit_eq_div)
    moreover have "take_bit 8 n OR push_bit 8 (drop_bit 8 n) = n"
    proof (rule bit_eqI)
      show "bit (take_bit 8 n OR push_bit 8 (drop_bit 8 n)) i = bit n i" for i
        by (cases "i < 8") (simp_all add: bit_or_iff bit_push_bit_iff bit_take_bit_iff bit_drop_bit_eq)
    qed
    ultimately show ?thesis by simp
  qed
  ultimately show "read_u16_le bs p = n"
    using nth_after_drop [OF d, of 0] nth_after_drop [OF d, of 1]
    by (simp add: read_u16_le_def u16_bytes_def unat_of_nat_byte)
qed

lemma nth_colors: "i < length table \<Longrightarrow> j < 3 \<Longrightarrow> concat (map color_bytes table) ! (i * 3 + j) = color_bytes (table ! i) ! j"
  for i j :: nat
proof (induction table arbitrary: i)
  case (Cons c table)
  have "length (color_bytes c) = 3" by (simp add: color_bytes_def)
  then show ?case using Cons by (cases i) (simp_all add: nth_append)
qed simp

lemma length_colors [simp]: "length (concat (map color_bytes table)) = length table * 3"
  by (induction table) (simp_all add: color_bytes_def)

lemma read_color_table_written:
  assumes d: "drop p bs = concat (map color_bytes table) @ rest" and a: "list_all (\<lambda>c. alpha c = 255) table"
  shows "read_color_table bs p (length table) = table"
proof (rule nth_equalityI)
  fix i
  assume i: "i < length (read_color_table bs p (length table))"
  have "bs ! (p + (i * 3 + j)) = color_bytes (table ! i) ! j" if "j < 3" for j
    using nth_after_drop [OF d, of "i * 3 + j"] nth_colors [of i table j] i that by (simp add: read_color_table_def)
  from this [of 0] this [of 1] this [of 2] show "read_color_table bs p (length table) ! i = table ! i"
    using i a by (simp add: read_color_table_def color_bytes_def rgba_def list_all_length add.assoc)
qed (simp add: read_color_table_def)


section \<open>The file is read back\<close>

lemma whole_file_frame:
  assumes d: "drop p bs = [0, 0, 0, 0] @ u16_bytes w @ u16_bytes h @ [if interlaced then 0x40 else 0, of_nat m] @
      sub_blocks (lzw_pack m (file_indices interlaced w h img)) @ rest"
    and m: "2 \<le> m" "m \<le> 8" and wh: "0 < w" "w < 65536" "0 < h" "h < 65536"
    and img: "length img = w * h" "list_all (\<lambda>i. unat i < 2 ^ m) img" and table: "length table = 2 ^ m"
  shows "read_frame bs p w h table None =
    Some \<lparr> img_width = int w, img_height = int h, img_pixels = map (\<lambda>i. table ! unat i) img \<rparr>"
proof -
  let ?flags = "if interlaced then 0x40 else 0 :: byte" and ?data = "lzw_pack m (file_indices interlaced w h img)"
  have u: "length (u16_bytes n) = 2" for n by (simp add: u16_bytes_def)
  have z: "u16_bytes 0 = [0, 0]" by (simp add: u16_bytes_def)
  have dd: "drop (p + k) bs = drop k ([0, 0, 0, 0] @ u16_bytes w @ u16_bytes h @ [?flags, of_nat m] @ sub_blocks ?data @ rest)" for k
    using d by (metis add.commute drop_drop)
  have x: "read_u16_le bs p = 0" using dd [of 0] z by (intro read_u16_written) (simp_all)
  have y: "read_u16_le bs (p + 2) = 0" using dd [of 2] z by (intro read_u16_written) (simp_all)
  have ww: "read_u16_le bs (p + 4) = w" using dd [of 4] wh by (intro read_u16_written) (simp_all)
  have hh: "read_u16_le bs (p + 6) = h" using dd [of 6] wh u by (intro read_u16_written) (simp_all)
  have fl: "bs ! (p + 8) = ?flags" and mm: "bs ! (p + 9) = of_nat m"
    using nth_after_drop [of "p + 8" bs "[?flags, of_nat m]" _ 0] nth_after_drop [of "p + 8" bs "[?flags, of_nat m]" _ 1] dd [of 8] u
    by (simp_all add: add.commute)
  have blocks: "drop (p + 10) bs = sub_blocks ?data @ rest" using dd [of 10] u by simp
  have long: "p + 10 < length bs"
    using blocks drop_all [of bs "p + 10"] by (subst (asm) (1) sub_blocks.simps) (auto split: if_splits simp: not_le [symmetric])
  have "list_all (\<lambda>i. unat i < 2 ^ m) (file_indices interlaced w h img)"
    using img(2) by (auto simp: file_indices_def list_all_iff dest!: in_set_takeD in_set_dropD)
  then have dec: "lzw_decode ?data m = Some (file_indices interlaced w h img)" using m by (rule lzw_decode_pack [rotated 2])
  have "bit ?flags 7 = False" "bit ?flags 6 = interlaced" by simp_all
  moreover have "unat (of_nat m :: byte) = m" using m by (intro unat_of_nat_byte) simp
  moreover have "read_sub_blocks bs (10 + p) [] = Some (?data, p + 10 + length (sub_blocks ?data))"
    using read_sub_blocks_written [OF blocks] by (simp add: add.commute)
  moreover have "draw_frame \<lparr> gf_left = 0, gf_top = 0, gf_width = w, gf_height = h, gf_table = table, gf_transparent = None \<rparr>
      interlaced w h (file_indices interlaced w h img) =
    \<lparr> img_width = int w, img_height = int h, img_pixels = map (\<lambda>i. table ! unat i) img \<rparr>"
    using img table by (subst draw_frame_whole) (simp_all add: whole_frame_def)
  ultimately show ?thesis
    using x y ww hh fl mm long dec wh by (cases interlaced) (simp_all add: read_frame_def Let_def)
qed


lemma flag_bits: "2 \<le> m \<Longrightarrow> m \<le> 8 \<Longrightarrow>
    bit (0x80 OR of_nat (m - 1) :: byte) 7 \<and> unat ((0x80 OR of_nat (m - 1) :: byte) AND 7) = m - 1"
proof -
  assume "2 \<le> m" "m \<le> 8"
  then have "m = 2 \<or> m = 3 \<or> m = 4 \<or> m = 5 \<or> m = 6 \<or> m = 7 \<or> m = 8" by linarith
  then show ?thesis by (elim disjE) simp_all
qed

text \<open>C27: the decoder gives back every image: whatever its size below 65536 by 65536, its colours
  and the size of their table, in order or interlaced, a file with one frame that fills
  the screen, compressed as the specification says and cut into sub-blocks, is
  decoded to the image whose pixels are the colours of the indices.\<close>

theorem decode_gif_encode:
  assumes m: "2 \<le> m" "m \<le> 8" and wh: "0 < w" "w < 65536" "0 < h" "h < 65536"
    and table: "length table = 2 ^ m" "list_all (\<lambda>c. alpha c = 255) table"
    and img: "length img = w * h" "list_all (\<lambda>i. unat i < 2 ^ m) img"
  shows "decode_gif (encode_gif m interlaced w h table img) =
    Some \<lparr> img_width = int w, img_height = int h, img_pixels = map (\<lambda>i. table ! unat i) img \<rparr>"
proof -
  define bs where "bs = encode_gif m interlaced w h table img"
  define rest where "rest = [0, 0, 0, 0] @ u16_bytes w @ u16_bytes h @ [if interlaced then 0x40 else 0, of_nat m] @
     sub_blocks (lzw_pack m (file_indices interlaced w h img)) @ [0x3B :: byte]"
  have u: "length (u16_bytes n) = 2" for n by (simp add: u16_bytes_def)
  have sig: "length (bytes_of_string ''GIF89a'') = 6" by (simp add: bytes_of_string_def)
  have bs: "bs = bytes_of_string ''GIF89a'' @ u16_bytes w @ u16_bytes h @ [0x80 OR of_nat (m - 1), 0, 0] @
     concat (map color_bytes table) @ 0x2C # rest"
    by (simp add: bs_def encode_gif_def rest_def)
  have w: "read_u16_le bs 6 = w" using wh by (intro read_u16_written) (simp_all add: bs sig)
  have h: "read_u16_le bs 8 = h" using wh by (intro read_u16_written) (simp_all add: bs sig u)
  have packed: "bs ! 10 = 0x80 OR of_nat (m - 1)" by (simp add: bs nth_append sig u)
  have colors: "drop 13 bs = concat (map color_bytes table) @ 0x2C # rest" by (simp add: bs sig u)
  have tab: "read_color_table bs 13 (2 ^ m) = table" using read_color_table_written [OF colors table(2)] table(1) by simp
  define p :: nat where "p = 13 + 2 ^ m * 3"
  have "drop p bs = drop (2 ^ m * 3) (drop 13 bs)" by (simp add: p_def add.commute)
  also have "\<dots> = 0x2C # rest" unfolding colors using table(1) by simp
  finally have dp: "drop p bs = 0x2C # rest" .
  then have lt: "p < length bs" using drop_all [of bs p] by (auto simp: not_le [symmetric])
  then have "bs ! p = 0x2C" "drop (p + 1) bs = rest" using dp Cons_nth_drop_Suc [OF lt] by simp_all
  moreover have "read_frame bs (p + 1) w h table None =
      Some \<lparr> img_width = int w, img_height = int h, img_pixels = map (\<lambda>i. table ! unat i) img \<rparr>"
    using whole_file_frame [OF _ m wh img table(1), of "p + 1" bs interlaced "[0x3B]"] \<open>drop (p + 1) bs = rest\<close>
    by (simp add: rest_def)
  ultimately have blocks: "gif_blocks bs p w h table None =
      Some \<lparr> img_width = int w, img_height = int h, img_pixels = map (\<lambda>i. table ! unat i) img \<rparr>"
    using lt by (subst gif_blocks.simps) (simp add: Let_def)
  have "gif_signature bs" unfolding gif_signature_def using sig by (simp add: bs)
  moreover obtain k where k: "m = Suc k" using m(1) by (cases m) simp_all
  moreover have "\<not> length bs < p" "\<not> length bs < 13" using lt p_def by simp_all
  ultimately show ?thesis
    unfolding bs_def [symmetric] decode_gif_def
    using w h packed flag_bits [OF m] tab blocks wh(1,3) by (simp add: Let_def p_def k)
qed

text \<open>A 3 by 2 image, interlaced, with four colours.\<close>

theorem decode_gif_encode_witness:
  "decode_gif (encode_gif 2 True 3 2 [rgba 0 0 0 255, rgba 255 0 0 255, rgba 0 255 0 255, rgba 1 2 3 255] [1, 1, 1, 0, 2, 3]) =
    Some \<lparr> img_width = 3, img_height = 2, img_pixels =
      [rgba 255 0 0 255, rgba 255 0 0 255, rgba 255 0 0 255, rgba 0 0 0 255, rgba 0 255 0 255, rgba 1 2 3 255] \<rparr>"
proof -
  have "list_all (\<lambda>c. alpha c = 255) [rgba 0 0 0 255, rgba 255 0 0 255, rgba 0 255 0 255, rgba 1 2 3 255]"
    by (simp add: rgba_def)
  from decode_gif_encode [of 2 3 2, OF _ _ _ _ _ _ _ this, of "[1, 1, 1, 0, 2, 3]" True] show ?thesis by simp
qed

end
