(* ===== verification/Jpeg_Block.thy ===== *)
theory Jpeg_Block
  imports Jpeg Huffman_Code
begin

text \<open>
  Why the block decoder of \<open>jpeg.cpp\<close> is right.  The abstract side is the baseline coding of ITU-T
  T.81: stuffed bytes read most significant bit first, the canonical code of a table of counts
  and values (Annex C), the difference of the first coefficient and the run lengths of the others
  (Annex F).  A block written that way is decoded to itself, and reading stops right behind it.
\<close>

section \<open>The bits of the entropy coded data\<close>

fun unstuff :: "bytes \<Rightarrow> bytes" where
  "unstuff [] = []"
| "unstuff (b # bs) = (if b = 0xFF then (case bs of [] \<Rightarrow> [] | c # cs \<Rightarrow> if c = 0 then 0xFF # unstuff cs else []) else b # unstuff bs)"

definition msb_bits :: "byte \<Rightarrow> bool list" where
  "msb_bits b = map (\<lambda>i. bit b (7 - i)) [0..<8]"

definition buffered :: "32 word \<Rightarrow> nat \<Rightarrow> bool list" where
  "buffered w n = map (\<lambda>i. bit w (n - 1 - i)) [0..<n]"

definition stream :: "bytes \<Rightarrow> bit_reader \<Rightarrow> bool list" where
  "stream bs r = buffered (jr_buffer r) (jr_bits r) @ concat (map msb_bits (unstuff (drop (jr_pos r) bs)))"

definition fed :: "bytes \<Rightarrow> bool list \<Rightarrow> bit_reader \<Rightarrow> bool" where
  "fed bs xs r \<longleftrightarrow> stream bs r = xs \<and> jr_bits r \<le> 8"

lemma buffered_Suc: "buffered w (Suc n) = bit w n # buffered w n"
  by (simp add: buffered_def upt_conv_Cons map_Suc_upt [symmetric] del: upt_Suc)

lemma buffered_byte: "buffered (ucast (b :: byte)) 8 = msb_bits b"
  by (auto simp: buffered_def msb_bits_def bit_ucast_iff)

lemma shift_out_spec:
  assumes "jr_bits r = Suc n"
  shows "shift_out r = (of_bool (bit (jr_buffer r) n), r\<lparr> jr_bits := n \<rparr>)"
  using assms by (simp add: shift_out_def and_one_eq bit_iff_odd_drop_bit mod_2_eq_odd)

lemma read_byte_spec:
  assumes "concat (map msb_bits (unstuff (drop (jr_pos r) bs))) \<noteq> []"
  shows "\<exists>b p. read_byte bs r = (uint b, r\<lparr> jr_pos := p \<rparr>) \<and> unstuff (drop (jr_pos r) bs) = b # unstuff (drop p bs)"
proof -
  let ?p = "jr_pos r"
  have ne: "unstuff (drop ?p bs) \<noteq> []" using assms by auto
  have p: "?p < length bs" using assms by (cases "?p < length bs") simp_all
  then have d: "drop ?p bs = bs ! ?p # drop (?p + 1) bs" by (simp add: Cons_nth_drop_Suc)
  show ?thesis
  proof (cases "bs ! ?p = 0xFF")
    case True
    then have q: "?p + 1 < length bs" using ne by (cases "?p + 1 < length bs") (simp_all add: d)
    then have e: "drop (Suc ?p) bs = bs ! Suc ?p # drop (Suc (Suc ?p)) bs" by (simp add: Cons_nth_drop_Suc)
    have "bs ! (?p + 1) = 0" using ne True by (simp add: d e split: if_splits)
    then show ?thesis using True p q
      by (intro exI [of _ "0xFF"] exI [of _ "?p + 2"]) (simp add: read_byte_def d e)
  next
    case False
    then show ?thesis using p by (intro exI [of _ "bs ! ?p"] exI [of _ "?p + 1"]) (simp add: read_byte_def Let_def d)
  qed
qed

lemma read_bit_spec:
  assumes "fed bs (x # xs) r"
  shows "\<exists>r'. read_bit bs r = (of_bool x, r') \<and> fed bs xs r'"
proof (cases "jr_bits r")
  case 0
  then have "concat (map msb_bits (unstuff (drop (jr_pos r) bs))) = x # xs"
    using assms by (simp add: fed_def stream_def buffered_def)
  moreover from this obtain b p where b: "read_byte bs r = (uint b, r\<lparr> jr_pos := p \<rparr>)"
      "unstuff (drop (jr_pos r) bs) = b # unstuff (drop p bs)"
    using read_byte_spec [of r bs] by auto
  ultimately have s: "buffered (ucast b) 8 @ concat (map msb_bits (unstuff (drop p bs))) = x # xs"
    by (simp add: buffered_byte)
  have "\<not> uint b < 0" by simp
  then have "read_bit bs r = (of_bool (bit (ucast b :: 32 word) 7), r\<lparr> jr_pos := p, jr_buffer := ucast b, jr_bits := 7 \<rparr>)"
    using 0 b(1) by (simp add: read_bit_def shift_out_spec [where n = 7])
  then show ?thesis
    using s buffered_Suc [of "ucast b" 7] by (simp add: fed_def stream_def)
next
  case (Suc n)
  then show ?thesis
    using assms by (auto simp: fed_def stream_def read_bit_def shift_out_spec buffered_Suc)
qed

section \<open>Several bits\<close>

definition msb_value :: "nat \<Rightarrow> bool list \<Rightarrow> nat" where
  "msb_value v xs = foldl (\<lambda>v b. 2 * v + of_bool b) v xs"

lemma msb_value_bound: "msb_value v xs < (v + 1) * 2 ^ length xs"
proof (induction xs arbitrary: v)
  case (Cons x xs)
  have "msb_value (2 * v + of_bool x) xs < (2 * v + of_bool x + 1) * 2 ^ length xs" by (rule Cons.IH)
  also have "\<dots> \<le> (2 * v + 2) * 2 ^ length xs" by (intro mult_right_mono) auto
  finally show ?case by (simp add: msb_value_def algebra_simps)
qed (simp add: msb_value_def)

lemma read_bits_loop_spec:
  assumes "fed bs (xs @ ys) r" and "(v + 1) * 2 ^ length xs \<le> 2 ^ 31"
  shows "\<exists>r'. read_bits_loop bs (length xs) (int v) r = (int (msb_value v xs), r') \<and> fed bs ys r'"
  using assms
proof (induction xs arbitrary: v r)
  case (Cons x xs)
  obtain r1 where r1: "read_bit bs r = (of_bool x, r1)" "fed bs (xs @ ys) r1"
    using read_bit_spec Cons.prems(1) by fastforce
  have "(v + 1) * 2 * 1 \<le> (v + 1) * 2 * 2 ^ length xs" by (intro mult_left_mono) auto
  then have "2 * v < 2 ^ 31" using Cons.prems(2) by simp
  then have w: "wrap32 (2 * int v) OR of_bool x = int (2 * v + of_bool x)"
    using wrap32_id [of "2 * int v"] even_or_bit [of v x] by simp
  have "(2 * v + of_bool x + 1) * 2 ^ length xs \<le> (2 * v + 2) * 2 ^ length xs" by (intro mult_right_mono) auto
  also have "\<dots> \<le> 2 ^ 31" using Cons.prems(2) by (simp add: algebra_simps)
  finally show ?case
    using Cons.IH [OF r1(2), of "2 * v + of_bool x"] r1(1) w by (simp add: msb_value_def)
qed (simp add: msb_value_def)

lemma read_bits_spec:
  assumes "fed bs (xs @ ys) r" and "length xs \<le> 31"
  shows "\<exists>r'. read_bits bs (length xs) r = (int (msb_value 0 xs), r') \<and> fed bs ys r'"
  using read_bits_loop_spec [OF assms(1), of 0] power_increasing [OF assms(2), of "2 :: nat"] by (simp add: read_bits_def)

lemma msb_value_code_bits: "v < 2 ^ n \<Longrightarrow> msb_value 0 (code_bits v n) = v"
proof (induction n arbitrary: v)
  case (Suc n)
  have "code_bits v (Suc n) = code_bits (v div 2) n @ [odd v]"
  proof -
    have "v div 2 ^ (n - i) = v div 2 div 2 ^ (n - 1 - i)" if "i < n" for i
      using that by (simp add: div_mult2_eq [symmetric] power_Suc [symmetric] Suc_diff_Suc del: power_Suc)
    then show ?thesis by (simp add: code_bits_def)
  qed
  moreover have "msb_value 0 (code_bits (v div 2) n) = v div 2" using Suc by simp
  ultimately show ?case by (simp add: msb_value_def)
qed (simp add: msb_value_def code_bits_def)

lemma length_code_bits [simp]: "length (code_bits v n) = n"
  by (simp add: code_bits_def)


section \<open>The canonical code\<close>

text \<open>The first code of each length and how many values have a shorter one.\<close>

primrec first_word :: "nat list \<Rightarrow> nat \<Rightarrow> nat" where
  "first_word counts 0 = 0"
| "first_word counts (Suc l) = (if l = 0 then 0 else 2 * (first_word counts l + counts ! l))"

primrec words_before :: "nat list \<Rightarrow> nat \<Rightarrow> nat" where
  "words_before counts 0 = 0"
| "words_before counts (Suc l) = (if l = 0 then 0 else words_before counts l + counts ! l)"

text \<open>The code is not over-subscribed and every code word has a value.\<close>

definition code_ok :: "nat list \<Rightarrow> bytes \<Rightarrow> bool" where
  "code_ok counts vals \<longleftrightarrow>
     length vals = words_before counts 17 \<and> list_all (\<lambda>l. first_word counts l + counts ! l \<le> 2 ^ l) [1..<17]"

text \<open>The code word of a value: the length is the one whose codes its position lies in.\<close>

definition position :: "bytes \<Rightarrow> byte \<Rightarrow> nat" where
  "position vals s = length (takeWhile (\<lambda>x. x \<noteq> s) vals)"

definition word_length :: "nat list \<Rightarrow> nat \<Rightarrow> nat" where
  "word_length counts j = hd (filter (\<lambda>l. j < words_before counts (Suc l)) [1..<17])"

definition code_word :: "nat list \<Rightarrow> bytes \<Rightarrow> byte \<Rightarrow> bool list" where
  "code_word counts vals s =
     (let j = position vals s; l = word_length counts j
      in code_bits (first_word counts l + (j - words_before counts l)) l)"

text \<open>What \<open>build_huffman\<close> makes of a code.\<close>

definition built :: "nat list \<Rightarrow> bytes \<Rightarrow> huff_table \<Rightarrow> bool" where
  "built counts vals t \<longleftrightarrow>
     ht_values t = vals \<and>
     (\<forall>l. 1 \<le> l \<and> l < 17 \<longrightarrow>
       ht_max t ! l = (if counts ! l = 0 then -1 else int (first_word counts l + counts ! l) - 1) \<and>
       (counts ! l \<noteq> 0 \<longrightarrow> ht_min t ! l = int (first_word counts l) \<and> ht_ptr t ! l = int (words_before counts l)))"

definition shaped :: "huff_table \<Rightarrow> bool" where
  "shaped t \<longleftrightarrow> length (ht_min t) = 17 \<and> length (ht_max t) = 18 \<and> length (ht_ptr t) = 17"

lemma build_huffman_built:
  assumes "shaped t"
  shows "built counts vals (build_huffman t counts vals)"
proof -
  let ?f = "\<lambda>m. fold (table_step counts) [1..<m] (t\<lparr> ht_values := vals \<rparr>, 0, 0)"
  have "case ?f m of (u, code, k) \<Rightarrow> shaped u \<and> ht_values u = vals \<and> code = int (first_word counts m) \<and> k = int (words_before counts m) \<and>
      (\<forall>l. 1 \<le> l \<and> l < m \<longrightarrow>
        ht_max u ! l = (if counts ! l = 0 then -1 else int (first_word counts l + counts ! l) - 1) \<and>
        (counts ! l \<noteq> 0 \<longrightarrow> ht_min u ! l = int (first_word counts l) \<and> ht_ptr u ! l = int (words_before counts l)))"
    if "1 \<le> m" "m \<le> 17" for m
    using that
  proof (induction m rule: nat_induct_at_least)
    case base
    then show ?case using assms by (simp add: shaped_def)
  next
    case (Suc m)
    obtain u code k where u: "?f m = (u, code, k)" by (cases "?f m")
    have f: "?f (Suc m) = table_step counts m (u, code, k)" using Suc.hyps u by simp
    have sh: "shaped u" "ht_values u = vals" and ck: "code = int (first_word counts m)" "k = int (words_before counts m)"
      and ih: "\<And>l. 1 \<le> l \<Longrightarrow> l < m \<Longrightarrow> ht_max u ! l = (if counts ! l = 0 then -1 else int (first_word counts l + counts ! l) - 1)"
        "\<And>l. 1 \<le> l \<Longrightarrow> l < m \<Longrightarrow> counts ! l \<noteq> 0 \<Longrightarrow> ht_min u ! l = int (first_word counts l) \<and> ht_ptr u ! l = int (words_before counts l)"
      using Suc.IH Suc.prems u by simp_all
    have m: "m < 17" "m \<noteq> 0" using Suc.prems Suc.hyps by simp_all
    have len: "length (ht_max u) = 18" "length (ht_min u) = 17" "length (ht_ptr u) = 17" using sh by (simp_all add: shaped_def)
    show ?case
      unfolding f by (cases "counts ! m = 0") (use sh ck ih m len in \<open>auto simp: table_step_def Let_def shaped_def nth_list_update less_Suc_eq\<close>)
  qed
  from this [of 17] show ?thesis by (auto simp: built_def build_huffman_def split: prod.splits)
qed

lemma first_word_step:
  "1 \<le> l \<Longrightarrow> l < m \<Longrightarrow> (first_word counts l + counts ! l) * 2 ^ (m - l) \<le> first_word counts m"
proof (induction m)
  case (Suc m)
  show ?case
  proof (cases "l = m")
    case False
    then have "(first_word counts l + counts ! l) * 2 ^ (m - l) \<le> first_word counts m" using Suc by simp
    then show ?thesis using False Suc.prems by (simp add: Suc_diff_le)
  qed (use Suc.prems in simp)
qed simp

lemma decode_huffman_loop_finds:
  assumes t: "built counts vals t" and len: "1 \<le> len" "len < 17" and i: "i < counts ! len" "words_before counts len + i < length vals"
    and v: "v = first_word counts len + i"
  shows "l = 17 - length ls \<Longrightarrow> ls = [l..<17] \<Longrightarrow> 1 \<le> l \<Longrightarrow> l \<le> len \<Longrightarrow> fed bs (tail_bits v len (l - 1) @ rest) r \<Longrightarrow>
    \<exists>r'. decode_huffman_loop bs t ls (int (v div 2 ^ Suc (len - l))) r = (uint (vals ! (words_before counts len + i)), r') \<and> fed bs rest r'"
proof (induction ls arbitrary: l r)
  case Nil
  then show ?case using len by simp
next
  case (Cons m ls)
  have m: "m = l" "ls = [Suc l..<17]" using Cons.prems(2,4) len by (simp_all add: upt_conv_Cons)
  define q where "q = v div 2 ^ (len - l)"
  have "[l - 1..<len] = (l - 1) # [l..<len]" using Cons.prems(3,4) by (simp add: upt_conv_Cons)
  then have "fed bs (odd q # tail_bits v len l @ rest) r"
    using Cons.prems(3-5) by (simp add: tail_bits_def q_def)
  then obtain r1 where r1: "read_bit bs r = (of_bool (odd q), r1)" "fed bs (tail_bits v len l @ rest) r1"
    using read_bit_spec by blast
  have "v div 2 ^ Suc (len - l) = q div 2" by (simp only: q_def power_Suc2 div_mult2_eq)
  then have q: "2 * int (v div 2 ^ Suc (len - l)) OR of_bool (odd q) = int q"
    using even_or_bit [of "q div 2" "odd q"] by (simp add: odd_two_times_div_two_nat [symmetric] mod_2_eq_odd [symmetric])
  have max: "ht_max t ! l = (if counts ! l = 0 then -1 else int (first_word counts l + counts ! l) - 1)"
    using t Cons.prems(3,4) len by (simp add: built_def)
  have step: "decode_huffman_loop bs t (m # ls) (int (v div 2 ^ Suc (len - l))) r =
      (if 0 \<le> ht_max t ! l \<and> int q \<le> ht_max t ! l then
         (if 0 \<le> ht_ptr t ! l + int q - ht_min t ! l \<and> ht_ptr t ! l + int q - ht_min t ! l < int (length (ht_values t))
          then uint (ht_values t ! nat (ht_ptr t ! l + int q - ht_min t ! l)) else -1, r1)
       else decode_huffman_loop bs t ls (int q) r1)"
    by (simp only: decode_huffman_loop.simps r1(1) prod.case Let_def q m(1)) simp
  show ?case
  proof (cases "l = len")
    case True
    then have "q = v" by (simp add: q_def)
    moreover have "ht_min t ! l = int (first_word counts len)" "ht_ptr t ! l = int (words_before counts len)" "ht_values t = vals"
      using True t len i(1) by (auto simp: built_def)
    ultimately show ?thesis
      unfolding step using r1(2) max True v i by (intro exI [of _ r1]) (simp add: tail_bits_def nat_add_distrib)
  next
    case False
    then have lt: "l < len" using Cons.prems(4) by simp
    have "(first_word counts l + counts ! l) * 2 ^ (len - l) \<le> v"
      using first_word_step [OF Cons.prems(3) lt, of counts] v by simp
    then have "first_word counts l + counts ! l \<le> q"
      using div_le_mono [of _ v "2 ^ (len - l)"] by (fastforce simp: q_def)
    then have no: "\<not> (0 \<le> ht_max t ! l \<and> int q \<le> ht_max t ! l)" using max by auto
    have e: "q = v div 2 ^ Suc (len - Suc l)" using lt by (simp add: q_def Suc_diff_Suc del: power_Suc)
    have "\<exists>r'. decode_huffman_loop bs t ls (int (v div 2 ^ Suc (len - Suc l))) r1 =
        (uint (vals ! (words_before counts len + i)), r') \<and> fed bs rest r'"
      by (rule Cons.IH) (use m lt len r1 in simp_all)
    then show ?thesis unfolding step e [symmetric] by (simp only: no if_False)
  qed
qed

lemma word_length_spec:
  assumes "j < words_before counts 17" and "l = word_length counts j"
  shows "1 \<le> l \<and> l < 17 \<and> words_before counts l \<le> j \<and> j < words_before counts l + counts ! l"
proof -
  let ?P = "\<lambda>l. j < words_before counts (Suc l)"
  let ?xs = "filter ?P [1..<17]"
  have "words_before counts 17 = words_before counts 16 + counts ! 16"
    using words_before.simps(2) [of counts 16] by (simp del: words_before.simps)
  then have "16 \<in> set ?xs" using assms(1) by simp
  then have ne: "?xs \<noteq> []" by (metis empty_iff list.set(1))
  have lh: "l = hd ?xs" by (simp only: assms(2) word_length_def)
  have "l \<in> set ?xs" unfolding lh using ne by (rule hd_in_set)
  then have l: "1 \<le> l" "l < 17" "?P l" by (simp_all only: set_filter mem_Collect_eq set_upt atLeastLessThan_iff)
  have "words_before counts l \<le> j"
  proof (rule ccontr)
    assume n: "\<not> words_before counts l \<le> j"
    then have "l \<noteq> 1" by auto
    then have "Suc (l - 1) = l" "1 \<le> l - 1" "l - 1 < 17" using l by simp_all
    then have "l - 1 \<in> set ?xs"
      using n by (simp only: set_filter mem_Collect_eq set_upt atLeastLessThan_iff not_le)
    moreover have "sorted ?xs" using sorted_wrt_filter [OF sorted_upt] by blast
    ultimately have "hd ?xs \<le> l - 1" using ne by (metis hd_Cons_tl set_ConsD order_refl sorted_simps(2))
    then show False using lh l(1) by simp
  qed
  then show ?thesis using l by simp
qed

lemma position_spec:
  assumes "s \<in> set vals"
  shows "position vals s < length vals \<and> vals ! position vals s = s"
proof -
  have "length (takeWhile (\<lambda>x. x \<noteq> s) vals) < length vals" using assms by (induction vals) auto
  then show ?thesis using nth_length_takeWhile [of "\<lambda>x. x \<noteq> s" vals] by (simp add: position_def)
qed

lemma decode_huffman_spec:
  assumes "built counts vals t" and "code_ok counts vals" and "s \<in> set vals" and "fed bs (code_word counts vals s @ rest) r"
  shows "\<exists>r'. decode_huffman bs t r = (uint s, r') \<and> fed bs rest r'"
proof -
  define j where "j = position vals s"
  define l where "l = word_length counts j"
  define i where "i = j - words_before counts l"
  have j: "j < length vals" "vals ! j = s" using position_spec [OF assms(3)] by (simp_all add: j_def)
  then have l: "1 \<le> l" "l < 17" "words_before counts l \<le> j" "j < words_before counts l + counts ! l"
    using word_length_spec [OF _ l_def] assms(2) by (simp_all add: code_ok_def)
  let ?v = "first_word counts l + i"
  have v: "?v < 2 ^ l"
  proof -
    have "first_word counts l + counts ! l \<le> 2 ^ l" using assms(2) l(1,2) by (simp add: code_ok_def list_all_iff)
    moreover have "i < counts ! l" using l(3,4) by (simp add: i_def)
    ultimately show ?thesis by simp
  qed
  have "code_word counts vals s = tail_bits ?v l 0"
    by (simp add: code_word_def Let_def code_bits_def tail_bits_def j_def [symmetric] l_def [symmetric] i_def [symmetric])
  moreover have "?v div 2 ^ Suc (l - 1) = 0" using v l(1) by simp
  ultimately show ?thesis
    using decode_huffman_loop_finds [OF assms(1) l(1,2), of i ?v 1 "[1..<17]" bs rest r] l j assms(4)
    by (simp add: decode_huffman_def i_def)
qed


section \<open>Coefficients\<close>

definition category :: "int \<Rightarrow> nat" where
  "category v = nat (bit_count \<bar>v\<bar>)"

definition magnitude_bits :: "int \<Rightarrow> bool list" where
  "magnitude_bits v = code_bits (nat (if 0 \<le> v then v else v + 2 ^ category v - 1)) (category v)"

lemma category_0 [simp]: "category 0 = 0"
  by (simp add: category_def bit_count.simps)

lemma category_bounds: "v \<noteq> 0 \<Longrightarrow> 0 < category v \<and> 2 ^ (category v - 1) \<le> \<bar>v\<bar> \<and> \<bar>v\<bar> < 2 ^ category v"
proof -
  assume v: "v \<noteq> 0"
  have b: "2 ^ nat (bitlen \<bar>v\<bar> - 1) \<le> \<bar>v\<bar> \<and> \<bar>v\<bar> < 2 ^ nat (bitlen \<bar>v\<bar>)" using bitlen_bounds [of "\<bar>v\<bar>"] v by simp
  moreover have "0 < category v"
  proof (rule ccontr)
    assume "\<not> 0 < category v"
    then have "nat (bitlen \<bar>v\<bar>) = 0" by (simp add: category_def bit_count_bitlen)
    then show False using b v by simp
  qed
  moreover have "nat (bitlen \<bar>v\<bar> - 1) = category v - 1" by (simp add: category_def bit_count_bitlen nat_diff_distrib')
  ultimately show ?thesis by (simp add: category_def bit_count_bitlen)
qed

lemma category_le: "\<bar>v\<bar> < 2 ^ n \<Longrightarrow> category v \<le> n"
proof (cases "v = 0")
  case False
  assume "\<bar>v\<bar> < 2 ^ n"
  then have "(2 :: int) ^ (category v - 1) < 2 ^ n" using category_bounds [OF False] by linarith
  then have "category v - 1 < n" by (simp only: power_strict_increasing_iff)
  then show ?thesis using category_bounds [OF False] by linarith
qed simp

lemma length_magnitude_bits [simp]: "length (magnitude_bits v) = category v"
  by (simp add: magnitude_bits_def)

lemma magnitude_read:
  assumes "fed bs (magnitude_bits v @ rest) r" and "category v \<le> 31"
  shows "\<exists>m r'. read_bits bs (category v) r = (m, r') \<and> 0 \<le> m \<and> extend_value m (category v) = Returns v \<and> fed bs rest r'"
proof -
  define n where "n = category v"
  define m where "m = nat (if 0 \<le> v then v else v + 2 ^ n - 1)"
  obtain r' where r': "read_bits bs n r = (int (msb_value 0 (magnitude_bits v)), r')" "fed bs rest r'"
    using read_bits_spec [OF assms(1)] assms(2) by (auto simp: n_def)
  show ?thesis
  proof (cases "v = 0")
    case True
    then show ?thesis using assms(1) by (simp add: read_bits_def extend_value_def magnitude_bits_def code_bits_def)
  next
    case False
    have b: "0 < n" "2 ^ (n - 1) \<le> \<bar>v\<bar>" "\<bar>v\<bar> < 2 ^ n" using category_bounds [OF False] by (simp_all add: n_def)
    have p: "(2 :: int) ^ n = 2 * 2 ^ (n - 1)" using b(1) by (cases n) simp_all
    have im: "int m = (if 0 \<le> v then v else v + 2 ^ n - 1)"
    proof -
      have "- (2 ^ n) < v" using b(3) by linarith
      then show ?thesis by (simp add: m_def)
    qed
    have "int m < 2 ^ n"
    proof (cases "0 \<le> v")
      case True
      then have "int m = v" by (simp only: im if_True)
      then show ?thesis using b(3) by linarith
    next
      case False
      then have "int m = v + 2 ^ n - 1" by (simp only: im if_False)
      then show ?thesis using False by linarith
    qed
    then have "m < 2 ^ n" using of_nat_less_iff [of m "2 ^ n", where 'a = int] by simp
    moreover have "magnitude_bits v = code_bits m n" by (simp only: magnitude_bits_def m_def n_def)
    ultimately have "msb_value 0 (magnitude_bits v) = m" by (simp only: msb_value_code_bits)
    moreover have "extend_value (int m) n = Returns v"
    proof -
      have "(2 :: int) ^ (n - 1) \<le> 2 ^ 30" using assms(2) by (intro power_increasing) (simp_all add: n_def)
      then have w: "wrap32 (2 ^ (n - 1)) = 2 ^ (n - 1)" by (intro wrap32_id) simp_all
      show ?thesis
      proof (cases "0 \<le> v")
        case True
        then show ?thesis using im b p w assms(2) by (simp add: extend_value_def n_def [symmetric])
      next
        case False
        then have "\<not> 2 ^ (n - 1) \<le> v + 2 ^ n - 1" using b p by simp
        then show ?thesis using False im b w assms(2) by (simp add: extend_value_def n_def [symmetric])
      qed
    qed
    ultimately show ?thesis using r' by (auto simp: n_def)
  qed
qed

lemma to_short_id: "\<bar>v\<bar> < 2 ^ 15 \<Longrightarrow> to_short v = v"
  by (simp add: to_short_def signed_of_int signed_take_bit_int_eq_self)

section \<open>The coding of a block\<close>

definition dc_symbol :: "int \<Rightarrow> byte \<times> bool list" where
  "dc_symbol v = (of_nat (category v), magnitude_bits v)"

text \<open>Run lengths: \<open>0xF0\<close> stands for 16 zeros, 0 for the zeros up to the end.\<close>

fun ac_symbols :: "int list \<Rightarrow> nat \<Rightarrow> (byte \<times> bool list) list" where
  "ac_symbols [] zeros = (if zeros = 0 then [] else [(0, [])])"
| "ac_symbols (v # vs) zeros =
     (if v = 0 then ac_symbols vs (zeros + 1)
      else replicate (zeros div 16) (0xF0, []) @ (of_nat (16 * (zeros mod 16) + category v), magnitude_bits v) # ac_symbols vs 0)"

type_synonym code = "nat list \<times> bytes"

definition coded :: "code \<Rightarrow> (byte \<times> bool list) list \<Rightarrow> bool list" where
  "coded h syms = concat (map (\<lambda>(s, m). code_word (fst h) (snd h) s @ m) syms)"

definition zigzagged :: "int list \<Rightarrow> int list" where
  "zigzagged block = map (\<lambda>i. block ! i) zigzag"

definition block_bits :: "code \<Rightarrow> code \<Rightarrow> int \<Rightarrow> int list \<Rightarrow> bool list" where
  "block_bits dc ac pred block = coded dc [dc_symbol (block ! 0 - pred)] @ coded ac (ac_symbols (tl (zigzagged block)) 0)"

text \<open>The codes have a word for every symbol of the block.\<close>

definition covers :: "code \<Rightarrow> (byte \<times> bool list) list \<Rightarrow> bool" where
  "covers h syms \<longleftrightarrow> list_all (\<lambda>(s, m). s \<in> set (snd h)) syms"

definition block_covered :: "code \<Rightarrow> code \<Rightarrow> int \<Rightarrow> int list \<Rightarrow> bool" where
  "block_covered dc ac pred block \<longleftrightarrow>
     covers dc [dc_symbol (block ! 0 - pred)] \<and> covers ac (ac_symbols (tl (zigzagged block)) 0)"

definition small_block :: "int list \<Rightarrow> bool" where
  "small_block block \<longleftrightarrow> length block = 64 \<and> list_all (\<lambda>v. \<bar>v\<bar> < 2 ^ 15) block"

section \<open>The other coefficients\<close>

lemma zigzag_perm: "length zigzag = 64" "distinct zigzag" "set zigzag = {..<64}"
proof -
  show l: "length zigzag = 64" and d: "distinct zigzag" by (simp_all add: zigzag_def)
  have "set zigzag \<subseteq> {..<64}" by (simp add: zigzag_def)
  then show "set zigzag = {..<64}" using distinct_card [OF d] l by (intro card_subset_eq) simp_all
qed

text \<open>The first \<open>m\<close> coefficients in zigzag order are there, the others are still zero.\<close>

definition partial :: "int list \<Rightarrow> int list \<Rightarrow> nat \<Rightarrow> bool" where
  "partial block b m \<longleftrightarrow> length b = 64 \<and> (\<forall>j < 64. b ! (zigzag ! j) = (if j < m then block ! (zigzag ! j) else 0))"

lemma partial_all:
  assumes "length block = 64" and "partial block b m" and "64 \<le> m"
  shows "b = block"
proof (rule nth_equalityI)
  fix i assume "i < length b"
  then obtain j where "j < 64" "i = zigzag ! j"
    using assms(2) zigzag_perm by (metis in_set_conv_nth lessThan_iff partial_def)
  then show "b ! i = block ! i" using assms by (simp add: partial_def)
qed (use assms in \<open>simp add: partial_def\<close>)

lemma partial_zero: "partial block b m \<Longrightarrow> block ! (zigzag ! m) = 0 \<Longrightarrow> partial block b (m + 1)"
  by (auto simp: partial_def less_Suc_eq)

lemma partial_update:
  assumes "partial block b m" and "m < 64" and "v = block ! (zigzag ! m)"
  shows "partial block (b[zigzag ! m := v]) (m + 1)"
proof -
  have "zigzag ! m = zigzag ! j \<longleftrightarrow> j = m" if "j < 64" for j
    using that assms(2) zigzag_perm by (auto simp: nth_eq_iff_index_eq)
  moreover have "zigzag ! m < 64" using zigzag_perm assms(2) by (metis lessThan_iff nth_mem)
  moreover have "j < m + 1 \<longleftrightarrow> j < m \<or> j = m" for j by auto
  ultimately show ?thesis using assms by (auto simp: partial_def nth_list_update simp del: Suc_eq_plus1 add_Suc_right One_nat_def)
qed

definition decodes :: "code \<Rightarrow> huff_table \<Rightarrow> bool" where
  "decodes h t \<longleftrightarrow> built (fst h) (snd h) t \<and> code_ok (fst h) (snd h)"

lemma symbol_read:
  assumes "decodes h t" and "covers h ((s, m) # syms)" and "fed bs (coded h ((s, m) # syms) @ rest) r"
  shows "\<exists>r'. decode_huffman bs t r = (uint s, r') \<and> fed bs (m @ coded h syms @ rest) r' \<and> covers h syms"
  using assms decode_huffman_spec [of "fst h" "snd h" t s bs "m @ coded h syms @ rest" r]
  by (simp add: decodes_def covers_def coded_def)

lemma zeros_read:
  assumes "decodes h t"
  shows "k + 16 * m \<le> 63 \<Longrightarrow> covers h (replicate m (0xF0, []) @ syms) \<Longrightarrow> fed bs (coded h (replicate m (0xF0, []) @ syms) @ rest) r \<Longrightarrow>
    \<exists>r'. ac_first bs t 63 0 k b eob r = ac_first bs t 63 0 (k + 16 * m) b eob r' \<and> fed bs (coded h syms @ rest) r' \<and> covers h syms"
proof (induction m arbitrary: k r)
  case (Suc m)
  obtain r1 where r1: "decode_huffman bs t r = (0xF0, r1)" "fed bs (coded h (replicate m (0xF0, []) @ syms) @ rest) r1"
      "covers h (replicate m (0xF0, []) @ syms)"
    using symbol_read [OF assms, of "0xF0" "[]" "replicate m (0xF0, []) @ syms" bs rest r] Suc.prems(2,3) by auto
  then have "ac_first bs t 63 0 k b eob r = ac_first bs t 63 0 (k + 16) b eob r1"
    using Suc.prems(1) by (subst ac_first.simps) simp
  then show ?case using Suc.IH [of "k + 16" r1] Suc.prems(1) r1 by (simp add: add.assoc)
qed auto


lemma uint_of_small: "n < 256 \<Longrightarrow> uint (of_nat n :: byte) = int n"
  by (simp add: unsigned_of_nat take_bit_nat_eq_self)

lemma symbol_parts: "n < 16 \<Longrightarrow> m < 16 \<Longrightarrow> uint (of_nat (16 * m + n) :: byte) = int (16 * m + n)"
  by (rule uint_of_small) simp

lemma ac_first_decodes:
  assumes h: "decodes h t" and small: "small_block block"
  shows "k \<le> 63 \<Longrightarrow> k + zeros \<le> 64 \<Longrightarrow> vs = drop (k + zeros) (zigzagged block) \<Longrightarrow> partial block b (k + zeros) \<Longrightarrow>
    covers h (ac_symbols vs zeros) \<Longrightarrow> fed bs (coded h (ac_symbols vs zeros) @ rest) r \<Longrightarrow>
    \<exists>r'. ac_first bs t 63 0 k b 0 r = Returns (Some (block, 0, r')) \<and> fed bs rest r'"
proof (induction vs zeros arbitrary: k b r rule: ac_symbols.induct)
  case (1 zeros)
  have len: "length (zigzagged block) = 64" "length block = 64" using small by (simp_all add: zigzagged_def zigzag_perm small_block_def)
  have "k + zeros = 64" using 1(2) drop_eq_Nil [of "k + zeros" "zigzagged block"] 1(3) len by simp
  then have z: "zeros \<noteq> 0" and b: "b = block" using 1(1,4) partial_all [OF len(2)] by auto
  obtain r1 where "decode_huffman bs t r = (0, r1)" "fed bs rest r1"
    using symbol_read [OF h, of 0 "[]" "[]" bs rest r] 1(5,6) z by (auto simp: coded_def)
  then show ?case by (subst ac_first.simps) (simp add: b)
next
  case (2 v vs zeros)
  let ?p = "k + zeros"
  have len: "length (zigzagged block) = 64" "length block = 64" using small by (simp_all add: zigzagged_def zigzag_perm small_block_def)
  have p: "?p < 64" using 2(5) len by (cases "?p < 64") simp_all
  have vs: "v = block ! (zigzag ! ?p)" "vs = drop (?p + 1) (zigzagged block)"
  proof -
    have "drop ?p (zigzagged block) = zigzagged block ! ?p # drop (Suc ?p) (zigzagged block)"
      using p len by (simp add: Cons_nth_drop_Suc)
    moreover have "zigzagged block ! ?p = block ! (zigzag ! ?p)" using p by (simp add: zigzagged_def zigzag_perm)
    ultimately show "v = block ! (zigzag ! ?p)" "vs = drop (?p + 1) (zigzagged block)" using 2(5) by simp_all
  qed
  show ?case
  proof (cases "v = 0")
    case True
    have "\<exists>r'. ac_first bs t 63 0 k b 0 r = Returns (Some (block, 0, r')) \<and> fed bs rest r'"
    proof (rule 2(1) [OF True 2(3)])
      show "partial block b (k + (zeros + 1))" using partial_zero [OF 2(6)] vs True by (simp add: add.assoc)
    qed (use 2(7,8) p vs True in \<open>simp_all add: add.assoc\<close>)
    then show ?thesis .
  next
    case False
    let ?n = "category v" and ?m = "zeros div 16" and ?z = "zeros mod 16"
    have "\<bar>v\<bar> < 2 ^ 15"
      using small vs(1) p zigzag_perm nth_mem [of ?p zigzag] by (auto simp: small_block_def list_all_length)
    then have n: "0 < ?n" "?n < 16" and short: "to_short v = v"
      using category_bounds [OF False] category_le [of v 15] to_short_id by auto
    let ?k = "k + 16 * ?m"
    have kz: "?k + ?z = ?p" by simp
    have k: "?k \<le> 63" using kz p by linarith
    obtain r1 where r1: "ac_first bs t 63 0 k b 0 r = ac_first bs t 63 0 ?k b 0 r1"
        "fed bs (coded h ((of_nat (16 * ?z + ?n), magnitude_bits v) # ac_symbols vs 0) @ rest) r1"
        "covers h ((of_nat (16 * ?z + ?n), magnitude_bits v) # ac_symbols vs 0)"
      using zeros_read [OF h k] 2(7,8) False by fastforce
    obtain r2 where r2: "decode_huffman bs t r1 = (int (16 * ?z + ?n), r2)"
        "fed bs (magnitude_bits v @ coded h (ac_symbols vs 0) @ rest) r2" "covers h (ac_symbols vs 0)"
      using symbol_read [OF h r1(3,2)] symbol_parts [of ?n ?z] n by auto
    obtain m r3 where r3: "read_bits bs ?n r2 = (m, r3)" "0 \<le> m" "extend_value m ?n = Returns v"
        "fed bs (coded h (ac_symbols vs 0) @ rest) r3"
      using magnitude_read [OF r2(2)] n by auto
    let ?b = "b[zigzag ! ?p := v]"
    have part: "partial block ?b (?p + 1)" using partial_update [OF 2(6) p] vs by simp
    have "(16 * ?z + ?n) div 16 = ?z" "(16 * ?z + ?n) mod 16 = ?n" using n by simp_all
    then have "nat (int (16 * ?z + ?n)) div 16 = ?z" "nat (int (16 * ?z + ?n)) mod 16 = ?n" by (simp_all only: nat_int)
    then have step: "ac_first bs t 63 0 ?k b 0 r1 =
        (if ?p < 63 then ac_first bs t 63 0 (?p + 1) ?b 0 r3 else Returns (Some (?b, 0, r3)))"
      using r2(1) r3(1-3) n p kz zigzag_perm
      by (subst ac_first.simps) (simp add: Let_def at_index_def short not_less add.commute [of zeros k] del: of_nat_add of_nat_mult)
    show ?thesis
    proof (cases "?p < 63")
      case True
      have "\<exists>r'. ac_first bs t 63 0 (?p + 1) ?b 0 r3 = Returns (Some (block, 0, r')) \<and> fed bs rest r'"
        by (rule 2(2) [OF False]) (use True part vs r2(3) r3(4) in simp_all)
      then show ?thesis using r1(1) step True by simp
    next
      case last: False
      then have "vs = []" "?p + 1 = 64" using p vs len by simp_all
      moreover have "?b = block" using partial_all [OF len(2) part] \<open>?p + 1 = 64\<close> by simp
      ultimately show ?thesis using r1(1) step last r3(4) by (simp add: coded_def)
    qed
  qed
qed

section \<open>A whole block\<close>

text \<open>The parameters of a baseline scan.\<close>

definition baseline :: "jpeg_decoder \<Rightarrow> bool" where
  "baseline d \<longleftrightarrow> jd_spec_start d = 0 \<and> jd_spec_end d = 63 \<and> jd_succ_high d = 0 \<and> jd_succ_low d = 0 \<and> jd_eob d = 0"

text \<open>The tables of a component have been built from its codes.\<close>

definition holds_code :: "code \<Rightarrow> huff_table list \<Rightarrow> nat \<Rightarrow> bool" where
  "holds_code h tables i \<longleftrightarrow>
     i < length tables \<and> tables ! i = build_huffman new_table (fst h) (snd h) \<and> code_ok (fst h) (snd h)"

definition has_codes :: "code \<Rightarrow> code \<Rightarrow> nat \<Rightarrow> jpeg_decoder \<Rightarrow> bool" where
  "has_codes dc ac c d \<longleftrightarrow>
     holds_code dc (jd_dc d) (jc_dc (jd_comp d ! c)) \<and> holds_code ac (jd_ac d) (jc_ac (jd_comp d ! c))"

lemma holds_code_decodes:
  assumes "holds_code h tables i"
  shows "at_index tables i = Returns (tables ! i) \<and> decodes h (tables ! i)"
  using assms build_huffman_built [of new_table "fst h" "snd h"]
  by (simp add: holds_code_def decodes_def at_index_def shaped_def new_table_def)

lemma decode_dc_decodes:
  assumes "baseline d" and "has_codes dc ac c d" and "\<bar>v\<bar> < 2 ^ 15" and "\<bar>jc_pred (jd_comp d ! c)\<bar> < 2 ^ 15"
    and "covers dc [dc_symbol (v - jc_pred (jd_comp d ! c))]"
    and "fed bs (coded dc [dc_symbol (v - jc_pred (jd_comp d ! c))] @ rest) (jd_reader d)"
  shows "\<exists>r'. decode_dc bs c block d =
      Returns (Some (block[0 := v], (update_comp c (jc_pred_update (\<lambda>_. v)) d)\<lparr> jd_reader := r' \<rparr>)) \<and> fed bs rest r'"
proof -
  let ?e = "v - jc_pred (jd_comp d ! c)"
  have "\<bar>?e\<bar> < 2 ^ 16" using assms(3,4) by (simp add: abs_less_iff)
  then have n: "category ?e \<le> 16" by (rule category_le)
  let ?t = "jd_dc d ! jc_dc (jd_comp d ! c)"
  have t: "at_index (jd_dc d) (jc_dc (jd_comp d ! c)) = Returns ?t" "decodes dc ?t"
    using assms(2) holds_code_decodes unfolding has_codes_def by blast+
  have "uint (of_nat (category ?e) :: byte) = int (category ?e)" using n by (intro uint_of_small) simp
  then obtain r1 where r1: "decode_huffman bs ?t (jd_reader d) = (int (category ?e), r1)" "fed bs (magnitude_bits ?e @ rest) r1"
    using symbol_read [OF t(2), of _ _ "[]"] assms(5,6) unfolding dc_symbol_def by (fastforce simp: coded_def)
  obtain m r2 where r2: "read_bits bs (category ?e) r1 = (m, r2)" "0 \<le> m" "extend_value m (category ?e) = Returns ?e" "fed bs rest r2"
    using magnitude_read [OF r1(2)] n by auto
  have z: "m = 0 \<and> r2 = r1" if "category ?e = 0" using r2(1) that by (simp add: read_bits_def)
  have "check_int v = Returns v" using assms(3) by (auto simp: check_int_def int_ok_def int_max_def abs_less_iff)
  then show ?thesis
    using assms(1) t(1) r1(1) r2 z to_short_id [OF assms(3)]
    by (intro exI [of _ r2]) (cases "category ?e = 0", auto simp: decode_dc_def baseline_def)
qed

text \<open>What reading a block is to leave behind.\<close>

definition decoded :: "nat \<Rightarrow> nat \<Rightarrow> int list \<Rightarrow> jpeg_decoder \<Rightarrow> jpeg_decoder" where
  "decoded c n block = update_comp c (\<lambda>k. k\<lparr> jc_pred := block ! 0, jc_coeffs := overwrite (64 * n) block (jc_coeffs k) \<rparr>)"

text \<open>C40: A block of a baseline scan decodes to itself: reading the Huffman coded DC difference and
  run lengths of any block of 64 coefficients below 2^15, with any tables built from codes that are
  not over-subscribed and have a word for each of its symbols, into a block of zeros, stores exactly
  that block and its DC value as the predictor, changes nothing else of the decoder and stops right
  behind the last bit, whatever follows and however the bytes are stuffed.\<close>

theorem decode_block_decodes:
  assumes "baseline d" and "has_codes dc ac c d" and "c < length (jd_comp d)" and "small_block block"
    and "\<bar>jc_pred (jd_comp d ! c)\<bar> < 2 ^ 15"
    and "take 64 (drop (64 * n) (jc_coeffs (jd_comp d ! c))) = replicate 64 0"
    and "block_covered dc ac (jc_pred (jd_comp d ! c)) block"
    and "fed bs (block_bits dc ac (jc_pred (jd_comp d ! c)) block @ rest) (jd_reader d)"
  shows "\<exists>r'. decode_block bs c n d = Returns (Some ((decoded c n block d)\<lparr> jd_reader := r' \<rparr>)) \<and> fed bs rest r'"
proof -
  have len: "length block = 64" and v: "\<bar>block ! 0\<bar> < 2 ^ 15"
    using assms(4) by (auto simp: small_block_def list_all_length)
  have size: "\<not> length (jc_coeffs (jd_comp d ! c)) < 64 * n + 64"
    using arg_cong [OF assms(6), of length] by (simp add: min_def split: if_splits)
  let ?d1 = "\<lambda>r. (update_comp c (jc_pred_update (\<lambda>_. block ! 0)) d)\<lparr> jd_reader := r \<rparr>"
  obtain r1 where r1: "decode_dc bs c (replicate 64 0) d = Returns (Some ((replicate 64 0)[0 := block ! 0], ?d1 r1))"
      "fed bs (coded ac (ac_symbols (tl (zigzagged block)) 0) @ rest) r1"
    using decode_dc_decodes [OF assms(1,2) v assms(5)] assms(7,8) by (fastforce simp: block_covered_def block_bits_def)
  let ?t = "jd_ac d ! jc_ac (jd_comp d ! c)"
  have t: "at_index (jd_ac d) (jc_ac (jd_comp d ! c)) = Returns ?t" "decodes ac ?t"
    using assms(2) holds_code_decodes unfolding has_codes_def by blast+
  have z0: "zigzag ! 0 = 0" by (simp add: zigzag_def)
  have "partial block (replicate 64 0) 0"
    using zigzag_perm nth_mem [of _ zigzag] by (fastforce simp: partial_def)
  then have part: "partial block ((replicate 64 0)[0 := block ! 0]) 1" using partial_update [of block _ 0] z0 by fastforce
  obtain r2 where r2: "ac_first bs ?t 63 0 1 ((replicate 64 0)[0 := block ! 0]) 0 r1 = Returns (Some (block, 0, r2))" "fed bs rest r2"
    using ac_first_decodes [OF t(2) assms(4), of 1 0 "tl (zigzagged block)", OF _ _ _ _ _ r1(2)] part assms(7)
    by (auto simp: block_covered_def drop_Suc)
  have d1: "jd_ac (?d1 r1) = jd_ac d" "jc_ac (jd_comp (?d1 r1) ! c) = jc_ac (jd_comp d ! c)" "baseline (?d1 r1)" "jd_reader (?d1 r1) = r1"
    using assms(1,3) by (simp_all add: update_comp_def baseline_def)
  have ac: "decode_ac bs c ((replicate 64 0)[0 := block ! 0]) (?d1 r1) = Returns (Some (block, (?d1 r1)\<lparr> jd_eob := 0, jd_reader := r2 \<rparr>))"
    using d1(3) r2(1) t(1) unfolding decode_ac_def d1(1,2,4) Let_def by (simp add: baseline_def bind_try_def)
  have "update_comp c (jc_coeffs_update (overwrite (64 * n) block)) ((?d1 r1)\<lparr> jd_eob := 0, jd_reader := r2 \<rparr>) =
      (decoded c n block d)\<lparr> jd_reader := r2 \<rparr>"
    using assms(1,3) by (cases d) (simp add: decoded_def update_comp_def baseline_def,
        rule arg_cong [where f = "list_update _ c"], simp)
  then show ?thesis
    using assms(1) size r1(1) ac r2(2)
    by (intro exI [of _ r2]) (simp add: decode_block_def Let_def assms(6) baseline_def bind_try_def)
qed


section \<open>An example\<close>

definition example_dc :: code where
  "example_dc = ((replicate 17 0)[2 := 3], [0, 2, 3])"

definition example_ac :: code where
  "example_ac = ((replicate 17 0)[2 := 3], [0, 1, 0x11])"

definition example_block :: "int list" where
  "example_block = (replicate 64 0)[0 := 2, 1 := 1, 16 := -1]"

definition example_decoder :: jpeg_decoder where
  "example_decoder = new_decoder\<lparr> jd_spec_end := 63,
     jd_dc := replicate 4 (build_huffman new_table (fst example_dc) (snd example_dc)),
     jd_ac := replicate 4 (build_huffman new_table (fst example_ac) (snd example_ac)),
     jd_comp := [new_component\<lparr> jc_coeffs := replicate 64 0 \<rparr>] \<rparr>"

lemma word_numerals:
  "first_word counts (numeral k) = (if pred_numeral k = 0 then 0 else 2 * (first_word counts (pred_numeral k) + counts ! pred_numeral k))"
  "words_before counts (numeral k) = (if pred_numeral k = 0 then 0 else words_before counts (pred_numeral k) + counts ! pred_numeral k)"
  by (simp_all add: numeral_eq_Suc)

lemma code_lengths: "[Suc 0..<17] = [1, 2, 3, 4, 5, 6, 7, 8, 9, 10, 11, 12, 13, 14, 15, 16]"
  by (simp add: upt_rec)

lemma example_codes: "has_codes example_dc example_ac 0 example_decoder"
proof -
  have "code_ok (fst example_dc) (snd example_dc)" "code_ok (fst example_ac) (snd example_ac)"
    by (simp_all add: code_ok_def example_dc_def example_ac_def word_numerals code_lengths)
  then show ?thesis by (simp add: has_codes_def holds_code_def example_decoder_def new_component_def)
qed

lemma example_fed:
  "fed [0x67, 0x0F] (block_bits example_dc example_ac 0 example_block @ [True, True, True, True]) (jd_reader example_decoder)"
proof -
  have "stream [0x67, 0x0F] \<lparr> jr_pos = 0, jr_buffer = 0, jr_bits = 0 \<rparr> = block_bits example_dc example_ac 0 example_block @ [True, True, True, True]"
    by code_simp
  then show ?thesis by (simp add: fed_def example_decoder_def new_decoder_def)
qed

lemma decode_block_decodes_witness:
  "\<exists>r'. decode_block [0x67, 0x0F] 0 0 example_decoder = Returns (Some ((decoded 0 0 example_block example_decoder)\<lparr> jd_reader := r' \<rparr>)) \<and>
     fed [0x67, 0x0F] [True, True, True, True] r'"
proof (rule decode_block_decodes [OF _ example_codes])
  show "block_covered example_dc example_ac (jc_pred (jd_comp example_decoder ! 0)) example_block"
  proof -
    have "block_covered example_dc example_ac 0 example_block" by code_simp
    then show ?thesis by (simp add: example_decoder_def new_component_def)
  qed
  show "small_block example_block" by code_simp
  show "fed [0x67, 0x0F] (block_bits example_dc example_ac (jc_pred (jd_comp example_decoder ! 0)) example_block @ [True, True, True, True])
      (jd_reader example_decoder)"
    using example_fed by (simp add: example_decoder_def new_component_def)
qed (simp_all add: example_decoder_def new_component_def new_decoder_def baseline_def)

end
