(* ===== verification/Js_Roundtrip.thy ===== *)
theory Js_Roundtrip
  imports Js_Parser
begin

text \<open>
  What the parser of the script engine promises: a printer for syntax trees that puts
  parentheses only where the precedences ask for them, and the proof that lexer and parser
  together invert it.
\<close>

section \<open>The printer\<close>

abbreviation pt :: "string \<Rightarrow> js_token" where "pt s \<equiv> new_token PunctuatorToken s"
abbreviation kw :: "string \<Rightarrow> js_token" where "kw s \<equiv> new_token KeywordToken s"
abbreviation idt :: "string \<Rightarrow> js_token" where "idt s \<equiv> new_token IdentifierToken s"

definition parens :: "bool \<Rightarrow> js_token list \<Rightarrow> js_token list" where
  "parens b ts = (if b then pt ''('' # ts @ [pt '')''] else ts)"

fun commas :: "js_token list list \<Rightarrow> js_token list" where
  "commas [] = []"
| "commas [t] = t"
| "commas (t # u # ts) = t @ pt '','' # commas (u # ts)"

text \<open>An operator is a keyword or a punctuator.\<close>

definition operator_token :: "string \<Rightarrow> js_token" where
  "operator_token s = (if is_keyword s then kw s else pt s)"

definition parameter_tokens :: "string list \<Rightarrow> js_token list" where
  "parameter_tokens ps = pt ''('' # commas (map (\<lambda>p. [idt p]) ps) @ [pt '')'']"

definition name_tokens :: "string \<Rightarrow> js_token list" where
  "name_tokens s = (if s = [] then [] else [idt s])"

text \<open>The levels of the grammar: 0 for assignments, 1 to 6 for the binary operators, 7 for unary
  ones, 8 for calls, 10 for the callee of \<open>new\<close>, 11 for primaries.\<close>

fun ast_tokens :: "(fp \<Rightarrow> string) \<Rightarrow> nat \<Rightarrow> ast \<Rightarrow> js_token list" where
  "ast_tokens num p (NumberLiteral v) = [number_token (num v)]"
| "ast_tokens num p (StringLiteral s) = [new_token StringToken s]"
| "ast_tokens num p (BooleanLiteral b) = [kw (if b then ''true'' else ''false'')]"
| "ast_tokens num p NullLiteral = [kw ''null'']"
| "ast_tokens num p (Identifier s) = [word_token s]"
| "ast_tokens num p (ArrayLiteral es) = pt ''['' # commas (map (\<lambda>e. ast_tokens num 0 e) es) @ [pt '']'']"
| "ast_tokens num p (ObjectLiteral ps) =
     pt ''{'' # commas (map (\<lambda>(k, e). new_token StringToken k # pt '':'' # ast_tokens num 0 e) ps) @ [pt ''}'']"
| "ast_tokens num p (FunctionExpression name ps body) =
     kw ''function'' # name_tokens name @ parameter_tokens ps @ (case body of None \<Rightarrow> [] | Some b \<Rightarrow> ast_tokens num 0 b)"
| "ast_tokens num p (Unary op e) = parens (7 < p) (operator_token op # ast_tokens num 7 e)"
| "ast_tokens num p (Binary op l r) =
     parens (binary_precedence op < p)
       (ast_tokens num (binary_precedence op) l @ operator_token op # ast_tokens num (binary_precedence op + 1) r)"
| "ast_tokens num p (Logical op l r) =
     parens (binary_precedence op < p)
       (ast_tokens num (binary_precedence op) l @ operator_token op # ast_tokens num (binary_precedence op + 1) r)"
| "ast_tokens num p (Assignment op l r) = parens (0 < p) (ast_tokens num 1 l @ pt op # ast_tokens num 0 r)"
| "ast_tokens num p (Conditional c a b) =
     parens (0 < p) (ast_tokens num 1 c @ pt ''?'' # ast_tokens num 0 a @ pt '':'' # ast_tokens num 0 b)"
| "ast_tokens num p (Call e es) =
     parens (8 < p) (ast_tokens num 8 e @ pt ''('' # commas (map (\<lambda>e. ast_tokens num 0 e) es) @ [pt '')''])"
| "ast_tokens num p (Member e name None) =
     parens (10 < p) (ast_tokens num (if p = 10 then 10 else 8) e @ [pt ''.'', word_token name])"
| "ast_tokens num p (Member e name (Some i)) =
     parens (10 < p) (ast_tokens num (if p = 10 then 10 else 8) e @ pt ''['' # ast_tokens num 0 i @ [pt '']''])"
| "ast_tokens num p (New e es) =
     parens (8 < p) (kw ''new'' # ast_tokens num 10 e @ pt ''('' # commas (map (\<lambda>e. ast_tokens num 0 e) es) @ [pt '')''])"
| "ast_tokens num p (RegexLiteral rx) =
     (case rx of None \<Rightarrow> [] | Some rx \<Rightarrow> [(new_token RegexToken (rx_source rx))\<lparr> tk_flags := rx_flags rx \<rparr>])"
| "ast_tokens num p (Program ss) = concat (map (\<lambda>s. ast_tokens num 0 s) ss)"
| "ast_tokens num p (ExpressionStatement e) =
     (let ts = ast_tokens num 0 e in
      parens (hd ts = pt ''{'' \<or> hd ts = kw ''function'') ts @ [pt '';''])"
| "ast_tokens num p (VariableDeclaration is_let ds) =
     kw (if is_let then ''let'' else ''var'') #
       commas (map (\<lambda>(name, i). idt name # (case i of None \<Rightarrow> [] | Some e \<Rightarrow> pt ''='' # ast_tokens num 0 e)) ds) @ [pt '';'']"
| "ast_tokens num p (Block ss) = pt ''{'' # concat (map (\<lambda>s. ast_tokens num 0 s) ss) @ [pt ''}'']"
| "ast_tokens num p (IfStatement t b a) =
     [kw ''if'', pt ''(''] @ ast_tokens num 0 t @ pt '')'' # ast_tokens num 0 b @
       (case a of None \<Rightarrow> [] | Some s \<Rightarrow> kw ''else'' # ast_tokens num 0 s)"
| "ast_tokens num p (WhileStatement t b) = [kw ''while'', pt ''(''] @ ast_tokens num 0 t @ pt '')'' # ast_tokens num 0 b"
| "ast_tokens num p (ForStatement i t u b) =
     [kw ''for'', pt ''(''] @
       (case i of None \<Rightarrow> [pt '';''] | Some (ExpressionStatement e) \<Rightarrow> ast_tokens num 0 e @ [pt '';''] | Some s \<Rightarrow> ast_tokens num 0 s) @
       (case t of None \<Rightarrow> [] | Some e \<Rightarrow> ast_tokens num 0 e) @ pt '';'' #
       (case u of None \<Rightarrow> [] | Some e \<Rightarrow> ast_tokens num 0 e) @ pt '')'' # ast_tokens num 0 b"
| "ast_tokens num p (ForOfStatement name e b) =
     [kw ''for'', pt ''('', kw ''let'', idt name, kw ''of''] @ ast_tokens num 0 e @ pt '')'' # ast_tokens num 0 b"
| "ast_tokens num p (SwitchStatement t cs) =
     [kw ''switch'', pt ''(''] @ ast_tokens num 0 t @ [pt '')'', pt ''{''] @
       concat (map (\<lambda>(c, b). (case c of None \<Rightarrow> [kw ''default''] | Some e \<Rightarrow> kw ''case'' # ast_tokens num 0 e) @
          pt '':'' # (case b of Block ss \<Rightarrow> concat (map (\<lambda>s. ast_tokens num 0 s) ss) | _ \<Rightarrow> [])) cs) @ [pt ''}'']"
| "ast_tokens num p (ReturnStatement e) =
     kw ''return'' # (case e of None \<Rightarrow> [] | Some e \<Rightarrow> ast_tokens num 0 e) @ [pt '';'']"
| "ast_tokens num p BreakStatement = [kw ''break'', pt '';'']"
| "ast_tokens num p ContinueStatement = [kw ''continue'', pt '';'']"
| "ast_tokens num p (FunctionDeclaration name ps body is_async) =
     (if is_async then [kw ''async''] else []) @ kw ''function'' # idt name # parameter_tokens ps @
       (case body of None \<Rightarrow> [] | Some b \<Rightarrow> ast_tokens num 0 b)"
| "ast_tokens num p (ClassDeclaration name ctor ms) =
     kw ''class'' # idt name # pt ''{'' #
       (case ctor of None \<Rightarrow> [] | Some f \<Rightarrow> idt ''constructor'' # tl (ast_tokens num 0 f)) @
       concat (map (\<lambda>(m, f). word_token m # tl (ast_tokens num 0 f)) ms) @ [pt ''}'']"


section \<open>Trees the printer is for\<close>

fun open_if :: "ast \<Rightarrow> bool" where
  "open_if (IfStatement t b None) = True"
| "open_if (IfStatement t b (Some a)) = open_if a"
| "open_if (WhileStatement t b) = open_if b"
| "open_if (ForStatement i t u b) = open_if b"
| "open_if (ForOfStatement name e b) = open_if b"
| "open_if s = False"

text \<open>The trees the parser can return without an error: no branch is missing, every operator is one
  of its kind, and an \<open>else\<close> cannot be taken by an inner \<open>if\<close>.\<close>

fun ok_expr :: "(fp \<Rightarrow> string) \<Rightarrow> ast \<Rightarrow> bool"
and ok_stmt :: "(fp \<Rightarrow> string) \<Rightarrow> ast \<Rightarrow> bool"
where
  "ok_expr num (NumberLiteral v) = (strto_value double (num v) = v)"
| "ok_expr num (StringLiteral s) = True"
| "ok_expr num (BooleanLiteral b) = True"
| "ok_expr num NullLiteral = True"
| "ok_expr num (Identifier s) = (\<not> is_keyword s \<or> s = ''undefined'')"
| "ok_expr num (ArrayLiteral es) = list_all (\<lambda>e. ok_expr num e) es"
| "ok_expr num (ObjectLiteral ps) = list_all (\<lambda>(k, e). ok_expr num e) ps"
| "ok_expr num (FunctionExpression name ps body) = (case body of Some (Block ss) \<Rightarrow> list_all (\<lambda>s. ok_stmt num s) ss | _ \<Rightarrow> False)"
| "ok_expr num (Unary op e) = (op \<in> set unary_operators \<and> ok_expr num e)"
| "ok_expr num (Binary op l r) =
     (binary_precedence op \<noteq> 0 \<and> op \<noteq> ''&&'' \<and> op \<noteq> ''||'' \<and> ok_expr num l \<and> ok_expr num r)"
| "ok_expr num (Logical op l r) = ((op = ''&&'' \<or> op = ''||'') \<and> ok_expr num l \<and> ok_expr num r)"
| "ok_expr num (Assignment op l r) = (op \<in> set assignment_operators \<and> ok_expr num l \<and> ok_expr num r)"
| "ok_expr num (Conditional c a b) = (ok_expr num c \<and> ok_expr num a \<and> ok_expr num b)"
| "ok_expr num (Call e es) = (ok_expr num e \<and> list_all (\<lambda>e. ok_expr num e) es)"
| "ok_expr num (Member e name i) = (ok_expr num e \<and> (case i of None \<Rightarrow> True | Some x \<Rightarrow> name = [] \<and> ok_expr num x))"
| "ok_expr num (New e es) = (ok_expr num e \<and> list_all (\<lambda>e. ok_expr num e) es)"
| "ok_expr num (RegexLiteral rx) =
     (case rx of None \<Rightarrow> False | Some rx \<Rightarrow> compile (rx_source rx) (rx_flags rx) = Parsed (Inr rx))"
| "ok_expr num _ = False"
| "ok_stmt num (ExpressionStatement e) = ok_expr num e"
| "ok_stmt num (VariableDeclaration is_let ds) =
     (ds \<noteq> [] \<and> list_all (\<lambda>(name, i). case i of None \<Rightarrow> True | Some e \<Rightarrow> ok_expr num e) ds)"
| "ok_stmt num (Block ss) = list_all (\<lambda>s. ok_stmt num s) ss"
| "ok_stmt num (IfStatement t b a) =
     (ok_expr num t \<and> ok_stmt num b \<and> (case a of None \<Rightarrow> True | Some s \<Rightarrow> \<not> open_if b \<and> ok_stmt num s))"
| "ok_stmt num (WhileStatement t b) = (ok_expr num t \<and> ok_stmt num b)"
| "ok_stmt num (ForStatement i t u b) =
     ((case i of None \<Rightarrow> True | Some (ExpressionStatement e) \<Rightarrow> ok_expr num e
       | Some (VariableDeclaration is_let ds) \<Rightarrow>
           ds \<noteq> [] \<and> list_all (\<lambda>(name, i). case i of None \<Rightarrow> True | Some e \<Rightarrow> ok_expr num e) ds
       | _ \<Rightarrow> False) \<and>
      (case t of None \<Rightarrow> True | Some e \<Rightarrow> ok_expr num e) \<and> (case u of None \<Rightarrow> True | Some e \<Rightarrow> ok_expr num e) \<and> ok_stmt num b)"
| "ok_stmt num (ForOfStatement name e b) = (ok_expr num e \<and> ok_stmt num b)"
| "ok_stmt num (SwitchStatement t cs) =
     (ok_expr num t \<and> list_all (\<lambda>(c, b). (case c of None \<Rightarrow> True | Some e \<Rightarrow> ok_expr num e) \<and>
        (case b of Block ss \<Rightarrow> list_all (\<lambda>s. ok_stmt num s) ss | _ \<Rightarrow> False)) cs)"
| "ok_stmt num (ReturnStatement e) = (case e of None \<Rightarrow> True | Some e \<Rightarrow> ok_expr num e)"
| "ok_stmt num BreakStatement = True"
| "ok_stmt num ContinueStatement = True"
| "ok_stmt num (FunctionDeclaration name ps body is_async) =
     (case body of Some (Block ss) \<Rightarrow> list_all (\<lambda>s. ok_stmt num s) ss | _ \<Rightarrow> False)"
| "ok_stmt num (ClassDeclaration name ctor ms) =
     ((case ctor of None \<Rightarrow> True | Some (FunctionExpression n ps (Some (Block ss))) \<Rightarrow> list_all (\<lambda>s. ok_stmt num s) ss | _ \<Rightarrow> False) \<and>
      list_all (\<lambda>(m, f). m \<noteq> ''constructor'' \<and> (case f of FunctionExpression n ps (Some (Block ss)) \<Rightarrow> list_all (\<lambda>s. ok_stmt num s) ss | _ \<Rightarrow> False)) ms)"
| "ok_stmt num _ = False"


section \<open>Parsing the text of a tree: expressions\<close>

abbreviation S :: "js_token list \<Rightarrow> js_parser" where
  "S ts \<equiv> \<lparr> ps_tokens = ts, ps_error = [] \<rparr>"

abbreviation E :: "nat \<Rightarrow> ast parser" where "E n \<equiv> (\<lambda>st. parse_expr n st)"
abbreviation Q :: "nat \<Rightarrow> ast parser" where "Q n \<equiv> (\<lambda>st. parse_stmt n st)"

definition is_symbol :: "js_token \<Rightarrow> bool" where
  "is_symbol t \<longleftrightarrow> tk_type t = PunctuatorToken \<or> tk_type t = KeywordToken"

lemma state_moves [simp]:
  "peek (S (t # ts)) = t"
  "ts \<noteq> [] \<Longrightarrow> next_state (S (t # ts)) = S ts"
  "check s (S (t # ts)) \<longleftrightarrow> is_symbol t \<and> tk_text t = s"
  "at_end (S (t # ts)) \<longleftrightarrow> tk_type t = EndOfInput"
  "\<not> failed (S ts)"
  "is_name (S (t # ts)) \<longleftrightarrow> tk_type t = IdentifierToken \<or> tk_type t = KeywordToken"
  "is_identifier (S (t # ts)) \<longleftrightarrow> tk_type t = IdentifierToken"
  by (simp_all add: peek_at_def next_state_def check_def at_end_def failed_def is_name_def is_identifier_def is_symbol_def)

lemma expect_S [simp]:
  "is_symbol t \<Longrightarrow> tk_text t = s \<Longrightarrow> ts \<noteq> [] \<Longrightarrow> expect s (S (t # ts)) = S ts"
  by (simp add: expect_def)

lemma skip_if_S [simp]:
  "is_symbol t \<Longrightarrow> tk_text t = s \<Longrightarrow> ts \<noteq> [] \<Longrightarrow> skip_if s (S (t # ts)) = S ts"
  by (simp add: skip_if_def)

lemma token_fields [simp]:
  "tk_type (new_token ty s) = ty" "tk_text (new_token ty s) = s"
  "is_symbol (new_token ty s) \<longleftrightarrow> ty = PunctuatorToken \<or> ty = KeywordToken"
  "tk_type (number_token s) = NumberToken" "\<not> is_symbol (number_token s)"
  "tk_number (number_token s) = strto_value double s"
  "tk_text (word_token s) = s"
  by (simp_all add: new_token_def number_token_def word_token_def is_symbol_def)

lemma word_token_name [simp]: "tk_type (word_token s) = IdentifierToken \<or> tk_type (word_token s) = KeywordToken"
  by (simp add: word_token_def)

lemma new_token_inject [simp]: "new_token a s = new_token b t \<longleftrightarrow> a = b \<and> s = t"
  by (auto simp: new_token_def)

text \<open>What may follow a complete operand, a complete operator expression and a complete
  expression.\<close>

definition no_postfix :: "js_token list \<Rightarrow> bool" where
  "no_postfix ts \<longleftrightarrow> ts \<noteq> [] \<and> \<not> (is_symbol (hd ts) \<and> tk_text (hd ts) \<in> {''.'', ''['', ''('', ''++'', ''--''})"

definition next_precedence :: "js_token list \<Rightarrow> nat" where
  "next_precedence ts = (if is_symbol (hd ts) then binary_precedence (tk_text (hd ts)) else 0)"

definition stops :: "js_token list \<Rightarrow> bool" where
  "stops ts \<longleftrightarrow> no_postfix ts \<and> next_precedence ts = 0 \<and>
     \<not> (is_symbol (hd ts) \<and> (tk_text (hd ts) = ''?'' \<or> tk_text (hd ts) \<in> set assignment_operators))"

text \<open>\<open>T\<close> is read as \<open>e\<close> at each level of the grammar.\<close>

definition prim :: "js_token list \<Rightarrow> ast \<Rightarrow> bool" where
  "prim T e \<longleftrightarrow> (\<forall>n rest. rest \<noteq> [] \<longrightarrow> 3 * length T \<le> n \<longrightarrow> parse_primary n (E n) (Q n) (S (T @ rest)) = Some (e, S rest))"

definition callee :: "js_token list \<Rightarrow> ast \<Rightarrow> bool" where
  "callee T e \<longleftrightarrow> (\<forall>n d rest r. rest \<noteq> [] \<longrightarrow> new_callee d (E n) e (S rest) = Some r \<longrightarrow> d + 3 * length T \<le> n \<longrightarrow>
     do { (c, st) \<leftarrow> parse_primary n (E n) (Q n) (S (T @ rest)); new_callee n (E n) c st } = Some r)"

definition post :: "js_token list \<Rightarrow> ast \<Rightarrow> bool" where
  "post T e \<longleftrightarrow> (\<forall>n d rest r. rest \<noteq> [] \<longrightarrow> apply_postfix d (E n) e (S rest) = Some r \<longrightarrow> d + 3 * length T \<le> n \<longrightarrow>
     parse_unary (Suc 0) n (E n) (Q n) (S (T @ rest)) = Some r)"

definition una :: "js_token list \<Rightarrow> ast \<Rightarrow> bool" where
  "una T e \<longleftrightarrow> (\<forall>n D rest. no_postfix rest \<longrightarrow> length T \<le> D \<longrightarrow> 3 * length T + 1 \<le> n \<longrightarrow>
     parse_unary D n (E n) (Q n) (S (T @ rest)) = Some (e, S rest))"

definition bin :: "nat \<Rightarrow> js_token list \<Rightarrow> ast \<Rightarrow> bool" where
  "bin p T e \<longleftrightarrow> (\<forall>n D d m rest r. no_postfix rest \<longrightarrow> next_precedence rest \<le> p \<longrightarrow> m \<le> p \<longrightarrow>
     binary_loop d (parse_unary n n (E n) (Q n)) m e (S rest) = Some r \<longrightarrow> d + length T \<le> D \<longrightarrow> 3 * length T + 1 \<le> n \<longrightarrow>
     parse_binary D (parse_unary n n (E n) (Q n)) m (S (T @ rest)) = Some r)"

definition asg :: "js_token list \<Rightarrow> ast \<Rightarrow> bool" where
  "asg T e \<longleftrightarrow> (\<forall>n rest. stops rest \<longrightarrow> 3 * length T + 3 \<le> n \<longrightarrow> parse_expr n (S (T @ rest)) = Some (e, S rest))"

text \<open>More fuel for a loop does not change what it returns.\<close>

lemma items_loop_mono:
  "items_loop d ex g c acc st = Some r \<Longrightarrow> d \<le> D \<Longrightarrow> items_loop D ex g c acc st = Some r"
proof (induction d arbitrary: acc st D)
  case (Suc d)
  then obtain D' where D: "D = Suc D'" "d \<le> D'" by (cases D) auto
  show ?case
    using Suc.prems Suc.IH [OF _ D(2)] unfolding D(1)
    by (auto simp: bind_eq_Some_conv split: if_splits)
qed simp

lemma apply_postfix_mono:
  "apply_postfix d ex e st = Some r \<Longrightarrow> d \<le> D \<Longrightarrow> apply_postfix D ex e st = Some r"
proof (induction d arbitrary: e st D)
  case (Suc d)
  then obtain D' where D: "D = Suc D'" "d \<le> D'" by (cases D) auto
  show ?case
    using Suc.prems Suc.IH [OF _ D(2)] items_loop_mono [OF _ D(2)] unfolding D(1)
    by (auto simp: Let_def bind_eq_Some_conv split: if_splits)
qed simp

lemma new_callee_mono:
  "new_callee d ex e st = Some r \<Longrightarrow> d \<le> D \<Longrightarrow> new_callee D ex e st = Some r"
proof (induction d arbitrary: e st D)
  case (Suc d)
  then obtain D' where D: "D = Suc D'" "d \<le> D'" by (cases D) auto
  show ?case
    using Suc.prems Suc.IH [OF _ D(2)] unfolding D(1)
    by (auto simp: Let_def bind_eq_Some_conv split: if_splits)
qed simp

lemma binary_mono:
  "parse_binary d u m st = Some r \<Longrightarrow> d \<le> D \<Longrightarrow> parse_binary D u m st = Some r"
  "binary_loop d u m l st = Some r \<Longrightarrow> d \<le> D \<Longrightarrow> binary_loop D u m l st = Some r"
proof (induction d arbitrary: m st r D l)
  case 0
  { case 1 then show ?case by simp }
  { case 2 then show ?case by simp }
next
  case (Suc d)
  { case 1
    then obtain D' where D: "D = Suc D'" "d \<le> D'" by (cases D) auto
    show ?case using 1 Suc.IH(2) [OF _ D(2)] unfolding D(1) by (cases r) (auto simp: bind_eq_Some_conv) }
  { case 2
    then obtain D' where D: "D = Suc D'" "d \<le> D'" by (cases D) auto
    show ?case using 2 Suc.IH [OF _ D(2)] unfolding D(1)
      by (cases r) (auto simp: Let_def bind_eq_Some_conv split: if_splits) }
qed

lemma parse_unary_mono:
  "parse_unary d k ex s st = Some r \<Longrightarrow> d \<le> D \<Longrightarrow> parse_unary D k ex s st = Some r"
proof (induction d arbitrary: st r D)
  case (Suc d)
  then obtain D' where D: "D = Suc D'" "d \<le> D'" by (cases D) auto
  show ?case
    using Suc.prems Suc.IH [OF _ D(2)] unfolding D(1)
    by (auto simp: bind_eq_Some_conv split: if_splits)
qed simp


subsection \<open>From one level to the next\<close>

lemma primD:
  "prim T e \<Longrightarrow> rest \<noteq> [] \<Longrightarrow> 3 * length T \<le> n \<Longrightarrow> parse_primary n (E n) (Q n) (S (T @ rest)) = Some (e, S rest)"
  by (simp add: prim_def)

text \<open>The first token of an operand that is no unary operator and no \<open>new\<close>.\<close>

definition plain_start :: "js_token list \<Rightarrow> bool" where
  "plain_start T \<longleftrightarrow> T \<noteq> [] \<and> \<not> (is_symbol (hd T) \<and> (tk_text (hd T) = ''new'' \<or> tk_text (hd T) \<in> set unary_operators))"

lemma parse_unary_plain:
  "plain_start T \<Longrightarrow> parse_unary (Suc d) k ex s (S (T @ rest)) =
    do { (e, st) \<leftarrow> parse_primary k ex s (S (T @ rest)); apply_postfix k ex e st }"
  by (cases T) (auto simp: plain_start_def list_ex_iff)

lemma prim_callee: "prim T e \<Longrightarrow> callee T e"
  unfolding callee_def by (intro allI impI) (simp add: primD, erule new_callee_mono, simp)

lemma prim_post: "prim T e \<Longrightarrow> plain_start T \<Longrightarrow> post T e"
  unfolding post_def
  by (intro allI impI) (simp add: primD parse_unary_plain del: parse_unary.simps, erule apply_postfix_mono, simp)

lemma post_una:
  assumes "post T e" and "T \<noteq> []"
  shows "una T e"
  unfolding una_def
proof (intro allI impI)
  fix n D rest
  assume h: "no_postfix rest" "length T \<le> D" "3 * length T + 1 \<le> n"
  obtain t ts where rest: "rest = t # ts" using h(1) by (cases rest) (auto simp: no_postfix_def)
  have "apply_postfix 1 (E n) e (S rest) = Some (e, S rest)"
    using h(1) by (auto simp: rest no_postfix_def)
  then have "parse_unary (Suc 0) n (E n) (Q n) (S (T @ rest)) = Some (e, S rest)"
    using assms(1) h(3) rest unfolding post_def by (metis add.commute list.discI)
  moreover have "Suc 0 \<le> D" using h(2) assms(2) by (cases T) auto
  ultimately show "parse_unary D n (E n) (Q n) (S (T @ rest)) = Some (e, S rest)" by (rule parse_unary_mono)
qed

lemma una_bin:
  assumes "una T e" and "T \<noteq> []"
  shows "bin p T e"
  unfolding bin_def
proof (intro allI impI)
  fix n D d m rest r
  let ?u = "parse_unary n n (E n) (Q n)"
  assume h: "no_postfix rest" "next_precedence rest \<le> p" "m \<le> p" "binary_loop d ?u m e (S rest) = Some r"
    "d + length T \<le> D" "3 * length T + 1 \<le> n"
  have "1 \<le> length T" using assms(2) by (cases T) auto
  then obtain D' where D: "D = Suc D'" "d \<le> D'" using h(5) by (cases D) auto
  have "?u (S (T @ rest)) = Some (e, S rest)" using assms(1) h by (simp add: una_def)
  then show "parse_binary D ?u m (S (T @ rest)) = Some r"
    unfolding D(1) using binary_mono(2) [OF h(4) D(2)] by simp
qed

lemma bin_mono: "bin p T e \<Longrightarrow> q \<le> p \<Longrightarrow> bin q T e"
  unfolding bin_def by (meson le_trans)

lemma stopsD: "stops rest \<Longrightarrow> no_postfix rest \<and> next_precedence rest = 0 \<and>
    (\<forall>s \<in> insert ''?'' (set assignment_operators). \<not> check s (S rest))"
  by (cases rest) (auto simp: stops_def no_postfix_def)

lemma binary_loop_stop:
  "rest \<noteq> [] \<Longrightarrow> next_precedence rest = 0 \<or> next_precedence rest < m \<Longrightarrow> binary_loop (Suc d) u m e (S rest) = Some (e, S rest)"
  by (cases rest) (auto simp: next_precedence_def is_symbol_def Let_def)

lemma binD_stop:
  assumes "bin p T e" and "no_postfix rest" and "next_precedence rest < m" and "m \<le> p" and "length T < D" and "3 * length T + 1 \<le> n"
  shows "parse_binary D (parse_unary n n (E n) (Q n)) m (S (T @ rest)) = Some (e, S rest)"
proof -
  let ?u = "parse_unary n n (E n) (Q n)"
  have "binary_loop (Suc 0) ?u m e (S rest) = Some (e, S rest)"
    by (rule binary_loop_stop) (use assms in \<open>auto simp: no_postfix_def\<close>)
  moreover have "Suc 0 + length T \<le> D" "next_precedence rest \<le> p" using assms(3-5) by simp_all
  ultimately show ?thesis
    using assms(1) [unfolded bin_def, rule_format, OF assms(2) _ assms(4) _ _ assms(6)] by blast
qed

lemma bin_conditional:
  assumes "bin 1 T e" and "no_postfix rest" and "next_precedence rest = 0" and "\<not> check ''?'' (S rest)" and "3 * length T + 2 \<le> n"
  shows "parse_conditional n (E n) (Q n) (S (T @ rest)) = Some (e, S rest)"
proof -
  have "parse_binary n (parse_unary n n (E n) (Q n)) 1 (S (T @ rest)) = Some (e, S rest)"
    by (rule binD_stop [OF assms(1)]) (use assms in auto)
  then show ?thesis using assms(4) by (simp add: parse_conditional_def)
qed

lemma bin_asg:
  assumes "bin 1 T e"
  shows "asg T e"
  unfolding asg_def
proof (intro allI impI)
  fix n rest
  assume h: "stops rest" "3 * length T + 3 \<le> n"
  obtain n' where n: "n = Suc n'" "3 * length T + 2 \<le> n'" using h(2) by (cases n) auto
  have c: "parse_conditional n' (E n') (Q n') (S (T @ rest)) = Some (e, S rest)"
    by (rule bin_conditional [OF assms]) (use stopsD [OF h(1)] n in auto)
  show "parse_expr n (S (T @ rest)) = Some (e, S rest)"
    unfolding n(1) parse_expr.simps parse_assignment_def c using stopsD [OF h(1)] by (auto simp: list_ex_iff)
qed

lemma asgD: "asg T e \<Longrightarrow> stops rest \<Longrightarrow> 3 * length T + 3 \<le> n \<Longrightarrow> parse_expr n (S (T @ rest)) = Some (e, S rest)"
  by (simp add: asg_def)

text \<open>A closing mark stops every expression.\<close>

lemma stops_closing [simp]:
  "stops (pt '')'' # rest)" "stops (pt '']'' # rest)" "stops (pt ''}'' # rest)"
  "stops (pt '','' # rest)" "stops (pt '';'' # rest)" "stops (pt '':'' # rest)"
  by (simp_all add: stops_def no_postfix_def next_precedence_def binary_precedence_def assignment_operators_def)

lemma prim_parens: "asg T e \<Longrightarrow> prim (pt ''('' # T @ [pt '')'']) e"
proof -
  assume a: "asg T e"
  show ?thesis unfolding prim_def
  proof (intro allI impI)
    fix n :: nat and rest :: "js_token list"
    assume h: "rest \<noteq> []" "3 * length (pt ''('' # T @ [pt '')'']) \<le> n"
    have "parse_expr n (S (T @ pt '')'' # rest)) = Some (e, S (pt '')'' # rest))"
      by (rule asgD [OF a]) (use h in auto)
    then show "parse_primary n (E n) (Q n) (S ((pt ''('' # T @ [pt '')'']) @ rest)) = Some (e, S rest)"
      using h(1) by (simp add: parse_primary_def Let_def)
  qed
qed


subsection \<open>First tokens\<close>

text \<open>Tokens no expression begins with, and those no statement begins with.\<close>

definition stop_words :: "string list" where
  "stop_words = ['')'', '']'', ''}'', '';'', '','', '':'', ''case'', ''default'', ''else'', ''var'', ''let'', ''const'',
     ''class'', ''async'', ''if'', ''while'', ''for'', ''return'', ''break'', ''continue'', ''switch'']"

definition expr_start :: "js_token list \<Rightarrow> bool" where
  "expr_start T \<longleftrightarrow> T \<noteq> [] \<and> tk_type (hd T) \<noteq> EndOfInput \<and> (is_symbol (hd T) \<longrightarrow> tk_text (hd T) \<notin> set stop_words \<and>
       (tk_text (hd T) = ''{'' \<longrightarrow> hd T = pt ''{'') \<and> (tk_text (hd T) = ''function'' \<longrightarrow> hd T = kw ''function''))"

definition stmt_start :: "js_token list \<Rightarrow> bool" where
  "stmt_start T \<longleftrightarrow> T \<noteq> [] \<and> tk_type (hd T) \<noteq> EndOfInput \<and>
     (is_symbol (hd T) \<longrightarrow> tk_text (hd T) \<notin> {''}'', ''case'', ''default'', ''else''})"

lemma expr_start_append [simp]: "T \<noteq> [] \<Longrightarrow> expr_start (T @ U) = expr_start T"
  by (simp add: expr_start_def)

lemma expr_start_nonempty: "expr_start T \<Longrightarrow> T \<noteq> []"
  by (simp add: expr_start_def)

lemma expr_startD:
  "expr_start T \<Longrightarrow> \<not> at_end (S (T @ rest)) \<and> (s \<in> set stop_words \<longrightarrow> \<not> check s (S (T @ rest)))"
  by (cases T) (auto simp: expr_start_def)

lemma stmt_startD:
  "stmt_start T \<Longrightarrow> \<not> at_end (S (T @ rest)) \<and> (s \<in> {''}'', ''case'', ''default'', ''else''} \<longrightarrow> \<not> check s (S (T @ rest)))"
  by (cases T) (auto simp: stmt_start_def)

lemma in_stop_words [simp]:
  "'')'' \<in> set stop_words" "'']'' \<in> set stop_words" "''}'' \<in> set stop_words" "'';'' \<in> set stop_words"
  by (simp_all add: stop_words_def)

subsection \<open>Lists\<close>

lemma items_loop_commas:
  assumes "list_all2 asg Ts es" and "list_all expr_start Ts" and "close \<in> {'')'', '']''}" and "rest \<noteq> []"
    and "3 * length (commas Ts) + 3 \<le> n" and "length (commas Ts) < d"
  shows "items_loop d (E n) g close acc (S (commas Ts @ pt close # rest)) = Some (acc @ es, S (pt close # rest))"
  using assms
proof (induction Ts arbitrary: es acc d rule: commas.induct)
  case 1
  then show ?case by (cases d) auto
next
  case (2 T)
  then obtain e where e: "es = [e]" "asg T e" by (auto simp: list_all2_Cons1)
  obtain d' where d: "d = Suc d'" using 2 by (cases d) auto
  have T: "expr_start T" using 2 by simp
  have st: "stops (pt close # rest)" using 2(3) by auto
  have "parse_expr n (S (T @ pt close # rest)) = Some (e, S (pt close # rest))"
    by (rule asgD [OF e(2) st]) (use 2 in auto)
  moreover have "\<not> check close (S (T @ pt close # rest)) \<and> \<not> at_end (S (T @ pt close # rest))"
    using expr_startD [OF T, of "pt close # rest" close] 2(3) by auto
  ultimately show ?case using 2(3) unfolding d e(1) by auto
next
  case (3 T U Ts)
  then obtain e es' where e: "es = e # es'" "asg T e" "list_all2 asg (U # Ts) es'" by (auto simp: list_all2_Cons1)
  obtain d' where d: "d = Suc d'" using 3 by (cases d) auto
  have T: "expr_start T" using 3 by simp
  let ?r = "commas (U # Ts) @ pt close # rest"
  have "parse_expr n (S (T @ pt '','' # ?r)) = Some (e, S (pt '','' # ?r))"
    by (rule asgD [OF e(2)]) (use 3 in auto)
  moreover have "\<not> check close (S (T @ pt '','' # ?r)) \<and> \<not> at_end (S (T @ pt '','' # ?r))"
    using expr_startD [OF T, of "pt '','' # ?r" close] 3(4) by auto
  moreover have "items_loop d' (E n) g close (acc @ [e]) (S ?r) = Some ((acc @ [e]) @ es', S (pt close # rest))"
    by (rule "3.IH" [OF e(3)]) (use 3 d in auto)
  ultimately show ?case unfolding d e(1) by simp
qed

subsection \<open>Postfix expressions\<close>

lemma postD:
  "post T e \<Longrightarrow> rest \<noteq> [] \<Longrightarrow> apply_postfix d (E n) e (S rest) = Some r \<Longrightarrow> d + 3 * length T \<le> n \<Longrightarrow>
    parse_unary (Suc 0) n (E n) (Q n) (S (T @ rest)) = Some r"
  unfolding post_def by blast

lemma calleeD:
  "callee T e \<Longrightarrow> rest \<noteq> [] \<Longrightarrow> new_callee d (E n) e (S rest) = Some r \<Longrightarrow> d + 3 * length T \<le> n \<Longrightarrow>
    do { (c, st) \<leftarrow> parse_primary n (E n) (Q n) (S (T @ rest)); new_callee n (E n) c st } = Some r"
  unfolding callee_def by blast

lemma post_intro:
  assumes "post T e"
    and "\<And>n d rest r. rest \<noteq> [] \<Longrightarrow> apply_postfix d (E n) e' (S rest) = Some r \<Longrightarrow> d + 3 * length (T @ U) \<le> n \<Longrightarrow>
      \<exists>k. apply_postfix k (E n) e (S (U @ rest)) = Some r \<and> k + 3 * length T \<le> n"
  shows "post (T @ U) e'"
  unfolding post_def
proof (intro allI impI)
  fix n d :: nat and rest :: "js_token list" and r
  assume h: "rest \<noteq> []" "apply_postfix d (E n) e' (S rest) = Some r" "d + 3 * length (T @ U) \<le> n"
  from assms(2) [OF this] obtain k where "apply_postfix k (E n) e (S (U @ rest)) = Some r" "k + 3 * length T \<le> n" by blast
  then show "parse_unary (Suc 0) n (E n) (Q n) (S ((T @ U) @ rest)) = Some r"
    unfolding append_assoc by (intro postD [OF assms(1)]) (use h in auto)
qed

lemma post_member: "post T e \<Longrightarrow> post (T @ [pt ''.'', word_token name]) (Member e name None)"
proof (erule post_intro)
  fix n d rest r
  assume "rest \<noteq> []" "apply_postfix d (E n) (Member e name None) (S rest) = Some r" "d + 3 * length (T @ [pt ''.'', word_token name]) \<le> n"
  then have "apply_postfix (Suc d) (E n) e (S ([pt ''.'', word_token name] @ rest)) = Some r \<and> Suc d + 3 * length T \<le> n"
    by simp
  then show "\<exists>k. apply_postfix k (E n) e (S ([pt ''.'', word_token name] @ rest)) = Some r \<and> k + 3 * length T \<le> n" by blast
qed

lemma post_index: "post T e \<Longrightarrow> asg I i \<Longrightarrow> post (T @ pt ''['' # I @ [pt '']'']) (Member e [] (Some i))"
proof (erule post_intro)
  fix n d rest r
  assume i: "asg I i" and h: "rest \<noteq> []" "apply_postfix d (E n) (Member e [] (Some i)) (S rest) = Some r"
    "d + 3 * length (T @ pt ''['' # I @ [pt '']'']) \<le> n"
  have "parse_expr n (S (I @ pt '']'' # rest)) = Some (i, S (pt '']'' # rest))"
    by (rule asgD [OF i]) (use h in auto)
  then have "apply_postfix (Suc d) (E n) e (S ((pt ''['' # I @ [pt '']'']) @ rest)) = Some r \<and> Suc d + 3 * length T \<le> n"
    using h by simp
  then show "\<exists>k. apply_postfix k (E n) e (S ((pt ''['' # I @ [pt '']'']) @ rest)) = Some r \<and> k + 3 * length T \<le> n" by blast
qed

lemma apply_postfix_pos: "apply_postfix d ex e st = Some r \<Longrightarrow> 0 < d"
  by (cases d) auto

lemma post_call:
  assumes "post T e" and "list_all2 asg Ts es" and "list_all expr_start Ts"
  shows "post (T @ pt ''('' # commas Ts @ [pt '')'']) (Call e es)"
  using assms(1)
proof (rule post_intro)
  fix n d rest r
  let ?U = "pt ''('' # commas Ts @ [pt '')'']"
  assume h: "rest \<noteq> []" "apply_postfix d (E n) (Call e es) (S rest) = Some r" "d + 3 * length (T @ ?U) \<le> n"
  let ?k = "d + length (commas Ts)"
  have i: "items_loop ?k (E n) False '')'' [] (S (commas Ts @ pt '')'' # rest)) = Some ([] @ es, S (pt '')'' # rest))"
    by (rule items_loop_commas [OF assms(2,3)]) (use h apply_postfix_pos [OF h(2)] in auto)
  have "apply_postfix ?k (E n) (Call e es) (S rest) = Some r" using apply_postfix_mono [OF h(2), of ?k] by simp
  then have "apply_postfix (Suc ?k) (E n) e (S (?U @ rest)) = Some r" using i h(1) by simp
  moreover have "Suc ?k + 3 * length T \<le> n" using h(3) by simp
  ultimately show "\<exists>k. apply_postfix k (E n) e (S (?U @ rest)) = Some r \<and> k + 3 * length T \<le> n" by blast
qed

lemma callee_intro:
  assumes "callee T e"
    and "\<And>n d rest r. rest \<noteq> [] \<Longrightarrow> new_callee d (E n) e' (S rest) = Some r \<Longrightarrow> d + 3 * length (T @ U) \<le> n \<Longrightarrow>
      \<exists>k. new_callee k (E n) e (S (U @ rest)) = Some r \<and> k + 3 * length T \<le> n"
  shows "callee (T @ U) e'"
  unfolding callee_def
proof (intro allI impI)
  fix n d :: nat and rest :: "js_token list" and r
  assume h: "rest \<noteq> []" "new_callee d (E n) e' (S rest) = Some r" "d + 3 * length (T @ U) \<le> n"
  from assms(2) [OF this] obtain k where "new_callee k (E n) e (S (U @ rest)) = Some r" "k + 3 * length T \<le> n" by blast
  then show "do { (c, st) \<leftarrow> parse_primary n (E n) (Q n) (S ((T @ U) @ rest)); new_callee n (E n) c st } = Some r"
    unfolding append_assoc by (intro calleeD [OF assms(1)]) (use h in auto)
qed

lemma callee_member: "callee T e \<Longrightarrow> callee (T @ [pt ''.'', word_token name]) (Member e name None)"
proof (erule callee_intro)
  fix n d rest r
  assume "rest \<noteq> []" "new_callee d (E n) (Member e name None) (S rest) = Some r" "d + 3 * length (T @ [pt ''.'', word_token name]) \<le> n"
  then have "new_callee (Suc d) (E n) e (S ([pt ''.'', word_token name] @ rest)) = Some r \<and> Suc d + 3 * length T \<le> n"
    by simp
  then show "\<exists>k. new_callee k (E n) e (S ([pt ''.'', word_token name] @ rest)) = Some r \<and> k + 3 * length T \<le> n" by blast
qed

lemma callee_index: "callee T e \<Longrightarrow> asg I i \<Longrightarrow> callee (T @ pt ''['' # I @ [pt '']'']) (Member e [] (Some i))"
proof (erule callee_intro)
  fix n d rest r
  assume i: "asg I i" and h: "rest \<noteq> []" "new_callee d (E n) (Member e [] (Some i)) (S rest) = Some r"
    "d + 3 * length (T @ pt ''['' # I @ [pt '']'']) \<le> n"
  have "parse_expr n (S (I @ pt '']'' # rest)) = Some (i, S (pt '']'' # rest))"
    by (rule asgD [OF i]) (use h in auto)
  then have "new_callee (Suc d) (E n) e (S ((pt ''['' # I @ [pt '']'']) @ rest)) = Some r \<and> Suc d + 3 * length T \<le> n"
    using h by simp
  then show "\<exists>k. new_callee k (E n) e (S ((pt ''['' # I @ [pt '']'']) @ rest)) = Some r \<and> k + 3 * length T \<le> n" by blast
qed

lemma post_new:
  assumes "callee T e" and "list_all2 asg Ts es" and "list_all expr_start Ts"
  shows "post (kw ''new'' # T @ pt ''('' # commas Ts @ [pt '')'']) (New e es)"
  unfolding post_def
proof (intro allI impI)
  fix n d :: nat and rest :: "js_token list" and r
  let ?T = "kw ''new'' # T @ pt ''('' # commas Ts @ [pt '')'']"
  let ?a = "pt ''('' # commas Ts @ pt '')'' # rest"
  assume h: "rest \<noteq> []" "apply_postfix d (E n) (New e es) (S rest) = Some r" "d + 3 * length ?T \<le> n"
  have "new_callee 1 (E n) e (S ?a) = Some (e, S ?a)" by simp
  then have "do { (c, st) \<leftarrow> parse_primary n (E n) (Q n) (S (T @ ?a)); new_callee n (E n) c st } = Some (e, S ?a)"
    using assms(1) [unfolded callee_def, rule_format, of ?a 1 n] h(3) by simp
  then obtain c st where c: "parse_primary n (E n) (Q n) (S (T @ ?a)) = Some (c, st)" "new_callee n (E n) c st = Some (e, S ?a)"
    by (auto simp: bind_eq_Some_conv)
  have i: "items_loop n (E n) True '')'' [] (S (commas Ts @ pt '')'' # rest)) = Some ([] @ es, S (pt '')'' # rest))"
    by (rule items_loop_commas [OF assms(2,3)]) (use h in auto)
  have "apply_postfix n (E n) (New e es) (S rest) = Some r" by (rule apply_postfix_mono [OF h(2)]) (use h in simp)
  then show "parse_unary (Suc 0) n (E n) (Q n) (S (?T @ rest)) = Some r"
    using c i h(1) by (simp add: parse_new_def)
qed


subsection \<open>Operators\<close>

lemma operator_token_simps [simp]: "is_symbol (operator_token s)" "tk_text (operator_token s) = s"
  "tk_type (operator_token s) \<noteq> EndOfInput"
  by (simp_all add: operator_token_def)

lemma una_unary:
  assumes "una T e" and "op \<in> set unary_operators"
  shows "una (operator_token op # T) (Unary op e)"
  unfolding una_def
proof (intro allI impI)
  fix n D rest
  assume h: "no_postfix rest" "length (operator_token op # T) \<le> D" "3 * length (operator_token op # T) + 1 \<le> n"
  obtain D' where D: "D = Suc D'" "length T \<le> D'" using h(2) by (cases D) auto
  have r: "T @ rest \<noteq> []" using h(1) by (simp add: no_postfix_def)
  have "parse_unary D' n (E n) (Q n) (S (T @ rest)) = Some (e, S rest)"
    using assms(1) h D by (simp add: una_def)
  moreover have "op \<noteq> ''new''" using assms(2) by (auto simp: unary_operators_def)
  ultimately show "parse_unary D n (E n) (Q n) (S ((operator_token op # T) @ rest)) = Some (Unary op e, S rest)"
    using assms(2) r unfolding D(1) by (auto simp: list_ex_iff)
qed

definition binary_operators :: "string list" where
  "binary_operators = [''||'', ''&&'', ''=='', ''!='', ''==='', ''!=='', ''<'', ''>'', ''<='', ''>='', ''instanceof'', ''+'', ''-'', ''*'', ''/'', ''%'']"

definition postfix_marks :: "string list" where
  "postfix_marks = [''.'', ''['', ''('', ''++'', ''--'']"

lemma binary_operators_iff: "binary_precedence op \<noteq> 0 \<longleftrightarrow> op \<in> set binary_operators"
  by (simp add: binary_precedence_def binary_operators_def)

lemma binary_operators_facts:
  "list_all (\<lambda>op. op \<notin> set postfix_marks) binary_operators"
  "list_all (\<lambda>op. op \<notin> set stop_words) binary_operators"
  "list_all (\<lambda>op. op \<notin> set postfix_marks) assignment_operators"
  "list_all (\<lambda>op. op \<notin> set binary_operators) assignment_operators"
  "list_all (\<lambda>op. op \<noteq> ''?'') assignment_operators"
  by (simp_all add: binary_operators_def postfix_marks_def stop_words_def assignment_operators_def)

lemma precedence_facts:
  assumes "binary_precedence op \<noteq> 0"
  shows "op \<notin> {''.'', ''['', ''('', ''++'', ''--''}" and "op \<notin> set stop_words"
  using assms binary_operators_facts(1,2) unfolding binary_operators_iff list_all_iff postfix_marks_def by force+

lemma bin_binary:
  assumes L: "bin p L l" and R: "bin (p + 1) R r" and p: "binary_precedence op = p" "p \<noteq> 0" and q: "q \<le> p"
  shows "bin q (L @ operator_token op # R) (binary_node op l r)"
  unfolding bin_def
proof (intro allI impI)
  fix n D d m rest res
  let ?u = "parse_unary n n (E n) (Q n)"
  let ?T = "L @ operator_token op # R"
  assume h: "no_postfix rest" "next_precedence rest \<le> q" "m \<le> q"
    "binary_loop d ?u m (binary_node op l r) (S rest) = Some res" "d + length ?T \<le> D" "3 * length ?T + 1 \<le> n"
  have ne: "rest \<noteq> []" using h(1) by (simp add: no_postfix_def)
  have d: "0 < d" using h(4) by (cases d) auto
  let ?d = "d + length R"
  have r: "parse_binary ?d ?u (p + 1) (S (R @ rest)) = Some (r, S rest)"
    by (rule binD_stop [OF R h(1)]) (use h q d in auto)
  have "binary_loop ?d ?u m (binary_node op l r) (S rest) = Some res" by (rule binary_mono(2) [OF h(4)]) simp
  then have loop: "binary_loop (Suc ?d) ?u m l (S (operator_token op # R @ rest)) = Some res"
    using r p ne h(3) q by (simp add: Let_def operator_token_def split: if_splits)
  have "parse_binary D ?u m (S (L @ operator_token op # R @ rest)) = Some res"
  proof (rule L [unfolded bin_def, rule_format, OF _ _ _ loop])
    show "no_postfix (operator_token op # R @ rest)" using precedence_facts(1) [of op] p by (simp add: no_postfix_def)
    show "next_precedence (operator_token op # R @ rest) \<le> p" using p by (simp add: next_precedence_def)
  qed (use h q in auto)
  then show "parse_binary D ?u m (S (?T @ rest)) = Some res" by simp
qed

lemma assignment_no_postfix:
  "op \<in> set assignment_operators \<Longrightarrow> no_postfix (pt op # ts) \<and> next_precedence (pt op # ts) = 0 \<and> op \<noteq> ''?''"
proof -
  assume a: "op \<in> set assignment_operators"
  then have "op \<notin> set postfix_marks" "op \<notin> set binary_operators" "op \<noteq> ''?''"
    using binary_operators_facts(3-5) unfolding list_all_iff by blast+
  then show ?thesis
    using binary_operators_iff [of op] by (simp add: no_postfix_def next_precedence_def postfix_marks_def)
qed

lemma asg_assignment:
  assumes "bin 1 L l" and "asg R r" and "op \<in> set assignment_operators"
  shows "asg (L @ pt op # R) (Assignment op l r)"
  unfolding asg_def
proof (intro allI impI)
  fix n rest
  assume h: "stops rest" "3 * length (L @ pt op # R) + 3 \<le> n"
  obtain n' where n: "n = Suc n'" "3 * length (L @ pt op # R) + 2 \<le> n'" using h(2) by (cases n) auto
  have ne: "rest \<noteq> []" using h(1) by (simp add: stops_def no_postfix_def)
  have c: "parse_conditional n' (E n') (Q n') (S (L @ pt op # R @ rest)) = Some (l, S (pt op # R @ rest))"
    by (rule bin_conditional [OF assms(1)]) (use assignment_no_postfix [OF assms(3)] n in auto)
  have "parse_expr n' (S (R @ rest)) = Some (r, S rest)" by (rule asgD [OF assms(2) h(1)]) (use n in auto)
  then show "parse_expr n (S ((L @ pt op # R) @ rest)) = Some (Assignment op l r, S rest)"
    using assms(3) c ne unfolding n(1) by (auto simp: parse_assignment_def list_ex_iff)
qed

lemma asg_conditional:
  assumes "bin 1 C c" and "asg A a" and "asg B b"
  shows "asg (C @ pt ''?'' # A @ pt '':'' # B) (Conditional c a b)"
  unfolding asg_def
proof (intro allI impI)
  fix n rest
  let ?T = "C @ pt ''?'' # A @ pt '':'' # B"
  assume h: "stops rest" "3 * length ?T + 3 \<le> n"
  obtain n' where n: "n = Suc n'" "3 * length ?T + 2 \<le> n'" using h(2) by (cases n) auto
  have ne: "rest \<noteq> []" using h(1) by (simp add: stops_def no_postfix_def)
  let ?r = "pt ''?'' # A @ pt '':'' # B @ rest"
  have q: "no_postfix ?r \<and> next_precedence ?r = 0" by (simp add: no_postfix_def next_precedence_def binary_precedence_def)
  have c: "parse_binary n' (parse_unary n' n' (E n') (Q n')) 1 (S (C @ ?r)) = Some (c, S ?r)"
    by (rule binD_stop [OF assms(1)]) (use q n in auto)
  have a: "parse_expr n' (S (A @ pt '':'' # B @ rest)) = Some (a, S (pt '':'' # B @ rest))"
    by (rule asgD [OF assms(2)]) (use n in auto)
  have b: "parse_expr n' (S (B @ rest)) = Some (b, S rest)" by (rule asgD [OF assms(3) h(1)]) (use n in auto)
  have "parse_conditional n' (E n') (Q n') (S (?T @ rest)) = Some (Conditional c a b, S rest)"
    using c a b ne by (simp add: parse_conditional_def)
  then show "parse_expr n (S (?T @ rest)) = Some (Conditional c a b, S rest)"
    unfolding n(1) parse_expr.simps parse_assignment_def using stopsD [OF h(1)] by (auto simp: list_ex_iff)
qed

subsection \<open>Primaries\<close>

lemma prim_number: "strto_value double s = v \<Longrightarrow> prim [number_token s] (NumberLiteral v)"
  by (simp add: prim_def parse_primary_def Let_def)

lemma prim_string: "prim [new_token StringToken s] (StringLiteral s)"
  by (simp add: prim_def parse_primary_def Let_def)

lemma prim_boolean: "prim [kw (if b then ''true'' else ''false'')] (BooleanLiteral b)"
  by (simp add: prim_def parse_primary_def Let_def)

lemma prim_null: "prim [kw ''null''] NullLiteral"
  by (simp add: prim_def parse_primary_def Let_def)

lemma prim_identifier: "\<not> is_keyword s \<or> s = ''undefined'' \<Longrightarrow> prim [word_token s] (Identifier s)"
  by (auto simp: prim_def parse_primary_def Let_def word_token_def is_keyword_def js_keywords_def)

lemma prim_regex:
  "compile (rx_source rx) (rx_flags rx) = Parsed (Inr rx) \<Longrightarrow>
    prim [(new_token RegexToken (rx_source rx))\<lparr> tk_flags := rx_flags rx \<rparr>] (RegexLiteral (Some rx))"
  by (simp add: prim_def parse_primary_def Let_def regex_node_def new_token_def)

lemma prim_array:
  assumes "list_all2 asg Ts es" and "list_all expr_start Ts"
  shows "prim (pt ''['' # commas Ts @ [pt '']'']) (ArrayLiteral es)"
  unfolding prim_def
proof (intro allI impI)
  fix n :: nat and rest :: "js_token list"
  assume h: "rest \<noteq> []" "3 * length (pt ''['' # commas Ts @ [pt '']'']) \<le> n"
  have "items_loop n (E n) False '']'' [] (S (commas Ts @ pt '']'' # rest)) = Some ([] @ es, S (pt '']'' # rest))"
    by (rule items_loop_commas [OF assms]) (use h in auto)
  then show "parse_primary n (E n) (Q n) (S ((pt ''['' # commas Ts @ [pt '']'']) @ rest)) = Some (ArrayLiteral es, S rest)"
    using h(1) by (simp add: parse_primary_def Let_def)
qed

lemma object_loop_commas:
  assumes "list_all2 (\<lambda>T (k, e). \<exists>U. T = new_token StringToken k # pt '':'' # U \<and> asg U e) Ts ps" and "rest \<noteq> []"
    and "3 * length (commas Ts) + 3 \<le> n" and "length (commas Ts) < d"
  shows "object_loop d (E n) acc (S (commas Ts @ pt ''}'' # rest)) = Some (acc @ ps, S (pt ''}'' # rest))"
  using assms
proof (induction Ts arbitrary: ps acc d rule: commas.induct)
  case 1
  then show ?case by (cases d) auto
next
  case (2 T)
  then obtain k e U where e: "ps = [(k, e)]" "T = new_token StringToken k # pt '':'' # U" "asg U e"
    by (auto simp: list_all2_Cons1)
  obtain d' where d: "d = Suc d'" using 2 by (cases d) auto
  have "parse_expr n (S (U @ pt ''}'' # rest)) = Some (e, S (pt ''}'' # rest))"
    by (rule asgD [OF e(3)]) (use 2 e in auto)
  then show ?case unfolding d e(1,2) by (simp add: Let_def)
next
  case (3 T V Ts)
  then obtain k e U ps' where e: "ps = (k, e) # ps'" "T = new_token StringToken k # pt '':'' # U" "asg U e"
    "list_all2 (\<lambda>T (k, e). \<exists>U. T = new_token StringToken k # pt '':'' # U \<and> asg U e) (V # Ts) ps'"
    by (auto simp: list_all2_Cons1 [of _ T])
  obtain d' where d: "d = Suc d'" using 3 by (cases d) auto
  let ?r = "commas (V # Ts) @ pt ''}'' # rest"
  have "parse_expr n (S (U @ pt '','' # ?r)) = Some (e, S (pt '','' # ?r))"
    by (rule asgD [OF e(3)]) (use 3 e in auto)
  moreover have "object_loop d' (E n) (acc @ [(k, e)]) (S ?r) = Some ((acc @ [(k, e)]) @ ps', S (pt ''}'' # rest))"
    by (rule "3.IH" [OF e(4)]) (use 3 d e(2) in auto)
  ultimately show ?case unfolding d e(1,2) by (simp add: Let_def)
qed

lemma prim_object:
  assumes "list_all2 (\<lambda>T (k, e). \<exists>U. T = new_token StringToken k # pt '':'' # U \<and> asg U e) Ts ps"
  shows "prim (pt ''{'' # commas Ts @ [pt ''}'']) (ObjectLiteral ps)"
  unfolding prim_def
proof (intro allI impI)
  fix n :: nat and rest :: "js_token list"
  assume h: "rest \<noteq> []" "3 * length (pt ''{'' # commas Ts @ [pt ''}'']) \<le> n"
  have "object_loop n (E n) [] (S (commas Ts @ pt ''}'' # rest)) = Some ([] @ ps, S (pt ''}'' # rest))"
    by (rule object_loop_commas [OF assms]) (use h in auto)
  then show "parse_primary n (E n) (Q n) (S ((pt ''{'' # commas Ts @ [pt ''}'']) @ rest)) = Some (ObjectLiteral ps, S rest)"
    using h(1) by (simp add: parse_primary_def Let_def)
qed


subsection \<open>Blocks and functions\<close>

definition stm :: "js_token list \<Rightarrow> ast \<Rightarrow> bool" where
  "stm T s \<longleftrightarrow> (\<forall>n rest. rest \<noteq> [] \<longrightarrow> (open_if s \<longrightarrow> \<not> check ''else'' (S rest)) \<longrightarrow> 3 * length T + 4 \<le> n \<longrightarrow>
     parse_stmt n (S (T @ rest)) = Some (s, S rest))"

lemma stmD:
  "stm T s \<Longrightarrow> rest \<noteq> [] \<Longrightarrow> \<not> (open_if s \<and> check ''else'' (S rest)) \<Longrightarrow> 3 * length T + 4 \<le> n \<Longrightarrow>
    parse_stmt n (S (T @ rest)) = Some (s, S rest)"
  unfolding stm_def by blast

lemma no_else_next:
  "list_all stmt_start Ts \<Longrightarrow> t \<in> {pt ''}'', kw ''case'', kw ''default''} \<Longrightarrow> \<not> check ''else'' (S (concat Ts @ t # rest))"
  by (cases Ts) (auto dest: stmt_startD [where s = "''else''"])

lemma block_loop_statements:
  assumes "list_all2 stm Ts ss" and "list_all stmt_start Ts"
    and "3 * length (concat Ts) + 4 \<le> n" and "length (concat Ts) < d"
  shows "block_loop d (Q n) acc (S (concat Ts @ pt ''}'' # rest)) = Some (acc @ ss, S (pt ''}'' # rest))"
  using assms
proof (induction Ts arbitrary: ss acc d)
  case Nil
  then show ?case by (cases d) auto
next
  case (Cons T Ts)
  then obtain s ss' where s: "ss = s # ss'" "stm T s" "list_all2 stm Ts ss'" by (auto simp: list_all2_Cons1)
  obtain d' where d: "d = Suc d'" using Cons.prems by (cases d) auto
  have T: "stmt_start T" "T \<noteq> []" using Cons.prems by (simp_all add: stmt_start_def)
  let ?r = "concat Ts @ pt ''}'' # rest"
  have "parse_stmt n (S (T @ ?r)) = Some (s, S ?r)"
    by (rule stmD [OF s(2)]) (use Cons.prems no_else_next [of Ts "pt ''}''" rest] in auto)
  moreover have "block_loop d' (Q n) (acc @ [s]) (S ?r) = Some ((acc @ [s]) @ ss', S (pt ''}'' # rest))"
    by (rule Cons.IH [OF s(3)]) (use Cons.prems d T(2) in \<open>auto simp: neq_Nil_conv\<close>)
  ultimately show ?case using stmt_startD [OF T(1), of ?r "''}''"] unfolding d s(1) by simp
qed

lemma case_loop_statements:
  assumes "list_all2 stm Ts ss" and "list_all stmt_start Ts" and "t \<in> {pt ''}'', kw ''case'', kw ''default''}"
    and "3 * length (concat Ts) + 4 \<le> n" and "length (concat Ts) < d"
  shows "case_loop d (Q n) acc (S (concat Ts @ t # rest)) = Some (acc @ ss, S (t # rest))"
  using assms
proof (induction Ts arbitrary: ss acc d)
  case Nil
  then show ?case by (cases d) auto
next
  case (Cons T Ts)
  then obtain s ss' where s: "ss = s # ss'" "stm T s" "list_all2 stm Ts ss'" by (auto simp: list_all2_Cons1)
  obtain d' where d: "d = Suc d'" using Cons.prems by (cases d) auto
  have T: "stmt_start T" "T \<noteq> []" using Cons.prems by (simp_all add: stmt_start_def)
  let ?r = "concat Ts @ t # rest"
  have "parse_stmt n (S (T @ ?r)) = Some (s, S ?r)"
    by (rule stmD [OF s(2)]) (use Cons.prems no_else_next [of Ts t rest] in auto)
  moreover have "case_loop d' (Q n) (acc @ [s]) (S ?r) = Some ((acc @ [s]) @ ss', S (t # rest))"
    by (rule Cons.IH [OF s(3)]) (use Cons.prems d T(2) in \<open>auto simp: neq_Nil_conv\<close>)
  moreover have "\<not> check x (S (T @ ?r))" if "x \<in> {''}'', ''case'', ''default''}" for x
    using stmt_startD [OF T(1), of ?r x] that by auto
  moreover have "\<not> at_end (S (T @ ?r))" using stmt_startD [OF T(1), of ?r] by blast
  ultimately show ?case unfolding d s(1) by simp
qed

definition block_tokens :: "js_token list list \<Rightarrow> js_token list" where
  "block_tokens Ts = pt ''{'' # concat Ts @ [pt ''}'']"

lemma parse_block_tokens:
  assumes "list_all2 stm Ts ss" and "list_all stmt_start Ts" and "rest \<noteq> []" and "3 * length (block_tokens Ts) \<le> n"
    and "length (block_tokens Ts) \<le> k"
  shows "parse_block k (Q n) (S (block_tokens Ts @ rest)) = Some (Block ss, S rest)"
proof -
  have "block_loop k (Q n) [] (S (concat Ts @ pt ''}'' # rest)) = Some ([] @ ss, S (pt ''}'' # rest))"
    by (rule block_loop_statements [OF assms(1,2)]) (use assms(4,5) in \<open>auto simp: block_tokens_def\<close>)
  then show ?thesis using assms(3) by (simp add: parse_block_def block_tokens_def)
qed

lemma parameters_loop_commas:
  "length (commas (map (\<lambda>p. [idt p]) ps)) < d \<Longrightarrow>
    parameters_loop d acc (S (commas (map (\<lambda>p. [idt p]) ps) @ pt '')'' # rest)) = Some (acc @ ps, S (pt '')'' # rest))"
proof (induction ps arbitrary: acc d rule: induct_list012)
  case 1
  then show ?case by (cases d) auto
next
  case (2 x)
  then show ?case by (cases d) (auto simp: Let_def)
next
  case (3 x y zs)
  then obtain d' where d: "d = Suc d'" by (cases d) auto
  have "parameters_loop d' (acc @ [x]) (S (commas (map (\<lambda>p. [idt p]) (y # zs)) @ pt '')'' # rest)) =
    Some ((acc @ [x]) @ y # zs, S (pt '')'' # rest))"
    by (rule "3.IH"(2)) (use 3 d in auto)
  then show ?case unfolding d by (simp add: Let_def)
qed

lemma parse_function_tokens:
  assumes "list_all2 stm Ts ss" and "list_all stmt_start Ts" and "rest \<noteq> []"
    and "N = (if decl then [idt name] else name_tokens name)"
    and "3 * length (N @ parameter_tokens ps @ block_tokens Ts) \<le> n"
    and "length (N @ parameter_tokens ps @ block_tokens Ts) \<le> k"
  shows "parse_function k (Q n) decl (S (N @ parameter_tokens ps @ block_tokens Ts @ rest)) =
    Some (function_node decl name ps (Some (Block ss)), S rest)"
proof -
  let ?B = "block_tokens Ts @ rest"
  have b: "parse_block k (Q n) (S ?B) = Some (Block ss, S rest)"
    by (rule parse_block_tokens [OF assms(1-3)]) (use assms(5,6) in simp_all)
  have p: "parameters_loop k [] (S (commas (map (\<lambda>p. [idt p]) ps) @ pt '')'' # ?B)) = Some ([] @ ps, S (pt '')'' # ?B))"
    by (rule parameters_loop_commas) (use assms(6) in \<open>auto simp: parameter_tokens_def\<close>)
  have ne: "?B \<noteq> []" using assms(3) by simp
  show ?thesis
    using b p ne assms(4) by (auto simp: parse_function_def Let_def parameter_tokens_def name_tokens_def)
qed

lemma prim_function:
  assumes "list_all2 stm Ts ss" and "list_all stmt_start Ts"
  shows "prim (kw ''function'' # name_tokens name @ parameter_tokens ps @ block_tokens Ts) (FunctionExpression name ps (Some (Block ss)))"
  unfolding prim_def
proof (intro allI impI)
  fix n :: nat and rest :: "js_token list"
  let ?T = "name_tokens name @ parameter_tokens ps @ block_tokens Ts"
  assume h: "rest \<noteq> []" "3 * length (kw ''function'' # ?T) \<le> n"
  have "parse_function n (Q n) False (S (name_tokens name @ parameter_tokens ps @ block_tokens Ts @ rest)) =
    Some (function_node False name ps (Some (Block ss)), S rest)"
    by (rule parse_function_tokens [OF assms h(1)]) (use h in auto)
  then show "parse_primary n (E n) (Q n) (S ((kw ''function'' # ?T) @ rest)) = Some (FunctionExpression name ps (Some (Block ss)), S rest)"
    using h(1) by (simp add: parse_primary_def Let_def function_node_def)
qed


subsection \<open>Statements\<close>

lemma stmI:
  assumes "\<And>n rest. rest \<noteq> [] \<Longrightarrow> \<not> (open_if s \<and> check ''else'' (S rest)) \<Longrightarrow> 3 * length T + 3 \<le> n \<Longrightarrow>
    parse_statement n (E n) (Q n) (S (T @ rest)) = Some (s, S rest)"
  shows "stm T s"
  unfolding stm_def
proof (intro allI impI)
  fix n :: nat and rest :: "js_token list"
  assume h: "rest \<noteq> []" "open_if s \<longrightarrow> \<not> check ''else'' (S rest)" "3 * length T + 4 \<le> n"
  then obtain n' where n: "n = Suc n'" "3 * length T + 3 \<le> n'" by (cases n) auto
  show "parse_stmt n (S (T @ rest)) = Some (s, S rest)"
    unfolding n(1) using assms [OF h(1) _ n(2)] h(2) by simp
qed

lemma stop_words_in [simp]:
  "''var'' \<in> set stop_words" "''let'' \<in> set stop_words" "''const'' \<in> set stop_words" "''class'' \<in> set stop_words"
  "''async'' \<in> set stop_words" "''if'' \<in> set stop_words" "''while'' \<in> set stop_words" "''for'' \<in> set stop_words"
  "''return'' \<in> set stop_words" "''break'' \<in> set stop_words" "''continue'' \<in> set stop_words" "''switch'' \<in> set stop_words"
  by (simp_all add: stop_words_def)

lemma stm_expression:
  assumes "asg T e" and "expr_start T" and "hd T \<noteq> pt ''{''" and "hd T \<noteq> kw ''function''"
  shows "stm (T @ [pt '';'']) (ExpressionStatement e)"
proof (rule stmI)
  fix n :: nat and rest :: "js_token list"
  assume h: "rest \<noteq> []" "3 * length (T @ [pt '';'']) + 3 \<le> n"
  let ?st = "S (T @ pt '';'' # rest)"
  have e: "parse_expr n ?st = Some (e, S (pt '';'' # rest))" by (rule asgD [OF assms(1)]) (use h in auto)
  have w: "\<not> check s ?st" if "s \<in> set stop_words" for s using expr_startD [OF assms(2), of "pt '';'' # rest" s] that by blast
  obtain t T' where T: "T = t # T'" using assms(2) by (cases T) (auto simp: expr_start_def)
  have "\<not> check ''{'' ?st" "\<not> check ''function'' ?st" using assms(2-4) by (auto simp: T expr_start_def)
  then show "parse_statement n (E n) (Q n) (S ((T @ [pt '';'']) @ rest)) = Some (ExpressionStatement e, S rest)"
    using e w h(1) by (simp add: parse_statement_def is_declarator_def)
qed

definition declaration_tokens :: "string \<Rightarrow> js_token list option \<Rightarrow> js_token list" where
  "declaration_tokens name i = idt name # (case i of None \<Rightarrow> [] | Some T \<Rightarrow> pt ''='' # T)"

lemma declaration_loop_commas:
  assumes "list_all2 (\<lambda>T (name, i). \<exists>I. T = declaration_tokens name I \<and> rel_option asg I i) Ts ds" and "Ts \<noteq> []" and "rest \<noteq> []"
    and "3 * length (commas Ts) + 3 \<le> n" and "length (commas Ts) \<le> d"
  shows "declaration_loop d (E n) acc (S (commas Ts @ pt '';'' # rest)) = Some (acc @ ds, S (pt '';'' # rest))"
  using assms
proof (induction Ts arbitrary: ds acc d rule: commas.induct)
  case 1
  then show ?case by simp
next
  case (2 T)
  then obtain name i I where e: "ds = [(name, i)]" "T = declaration_tokens name I" "rel_option asg I i"
    by (auto simp: list_all2_Cons1)
  obtain d' where d: "d = Suc d'" using 2 e(2) by (cases d) (auto simp: declaration_tokens_def)
  have "parse_expr n (S (U @ pt '';'' # rest)) = Some (x, S (pt '';'' # rest))" if "I = Some U" "i = Some x" for U x
    by (rule asgD) (use that 2 e in \<open>auto simp: declaration_tokens_def\<close>)
  then show ?case using e(3) unfolding d e(1,2)
    by (cases I; cases i) (auto simp: Let_def declaration_tokens_def)
next
  case (3 T V Ts)
  then obtain name i I ds' where e: "ds = (name, i) # ds'" "T = declaration_tokens name I" "rel_option asg I i"
    "list_all2 (\<lambda>T (name, i). \<exists>I. T = declaration_tokens name I \<and> rel_option asg I i) (V # Ts) ds'"
    by (auto simp: list_all2_Cons1 [of _ T])
  obtain d' where d: "d = Suc d'" using 3 e(2) by (cases d) (auto simp: declaration_tokens_def)
  let ?r = "commas (V # Ts) @ pt '';'' # rest"
  have "parse_expr n (S (U @ pt '','' # ?r)) = Some (x, S (pt '','' # ?r))" if "I = Some U" "i = Some x" for U x
    by (rule asgD) (use that 3 e in \<open>auto simp: declaration_tokens_def\<close>)
  moreover have "declaration_loop d' (E n) (acc @ [(name, i)]) (S ?r) = Some ((acc @ [(name, i)]) @ ds', S (pt '';'' # rest))"
    by (rule "3.IH" [OF e(4)]) (use 3 d e(2) in \<open>auto simp: declaration_tokens_def\<close>)
  ultimately show ?case using e(3) unfolding d e(1,2)
    by (cases I; cases i) (auto simp: Let_def declaration_tokens_def)
qed

lemma stm_variables:
  assumes "list_all2 (\<lambda>T (name, i). \<exists>I. T = declaration_tokens name I \<and> rel_option asg I i) Ts ds" and "Ts \<noteq> []"
  shows "stm (kw (if is_let then ''let'' else ''var'') # commas Ts @ [pt '';'']) (VariableDeclaration is_let ds)"
proof (rule stmI)
  fix n :: nat and rest :: "js_token list"
  let ?k = "kw (if is_let then ''let'' else ''var'')"
  assume h: "rest \<noteq> []" "3 * length (?k # commas Ts @ [pt '';'']) + 3 \<le> n"
  have "declaration_loop n (E n) [] (S (commas Ts @ pt '';'' # rest)) = Some ([] @ ds, S (pt '';'' # rest))"
    by (rule declaration_loop_commas [OF assms h(1)]) (use h in auto)
  then show "parse_statement n (E n) (Q n) (S ((?k # commas Ts @ [pt '';'']) @ rest)) = Some (VariableDeclaration is_let ds, S rest)"
    using h(1) by (cases is_let) (simp_all add: parse_statement_def is_declarator_def parse_variables_def)
qed

lemma stm_block:
  assumes "list_all2 stm Ts ss" and "list_all stmt_start Ts"
  shows "stm (block_tokens Ts) (Block ss)"
proof (rule stmI)
  fix n :: nat and rest :: "js_token list"
  assume h: "rest \<noteq> []" "3 * length (block_tokens Ts) + 3 \<le> n"
  have "parse_block n (Q n) (S (block_tokens Ts @ rest)) = Some (Block ss, S rest)"
    by (rule parse_block_tokens [OF assms h(1)]) (use h in simp_all)
  then show "parse_statement n (E n) (Q n) (S (block_tokens Ts @ rest)) = Some (Block ss, S rest)"
    by (simp add: parse_statement_def block_tokens_def)
qed

lemma stm_if:
  assumes "asg T t" and "stm B b" and "rel_option stm A a" and "\<not> (a \<noteq> None \<and> open_if b)" and "B \<noteq> []"
  shows "stm ([kw ''if'', pt ''(''] @ T @ pt '')'' # B @ (case A of None \<Rightarrow> [] | Some U \<Rightarrow> kw ''else'' # U)) (IfStatement t b a)"
    (is "stm ?T _")
proof (rule stmI)
  fix n :: nat and rest :: "js_token list"
  let ?A = "case A of None \<Rightarrow> [] | Some U \<Rightarrow> kw ''else'' # U"
  assume h: "rest \<noteq> []" "\<not> (open_if (IfStatement t b a) \<and> check ''else'' (S rest))" "3 * length ?T + 3 \<le> n"
  have t: "parse_expr n (S (T @ pt '')'' # B @ ?A @ rest)) = Some (t, S (pt '')'' # B @ ?A @ rest))"
    by (rule asgD [OF assms(1)]) (use h in auto)
  have b: "parse_stmt n (S (B @ ?A @ rest)) = Some (b, S (?A @ rest))"
    by (rule stmD [OF assms(2)]) (use h assms(3,4) in \<open>auto split: option.splits\<close>)
  have a: "parse_stmt n (S (U @ rest)) = Some (s, S rest)" if "A = Some U" "a = Some s" for U s
    by (rule stmD) (use that h assms(3) in auto)
  have s: "parse_statement n (E n) (Q n) (S (kw ''if'' # pt ''('' # R)) = parse_if (E n) (Q n) (S (pt ''('' # R))" for R
    by (simp add: parse_statement_def is_declarator_def)
  show "parse_statement n (E n) (Q n) (S (?T @ rest)) = Some (IfStatement t b a, S rest)"
    using t b a h(1,2) assms(3,5) by (cases A; cases a) (auto simp: s parse_if_def)
qed

lemma stm_while:
  assumes "asg T t" and "stm B b" and "B \<noteq> []"
  shows "stm ([kw ''while'', pt ''(''] @ T @ pt '')'' # B) (WhileStatement t b)" (is "stm ?T _")
proof (rule stmI)
  fix n :: nat and rest :: "js_token list"
  assume h: "rest \<noteq> []" "\<not> (open_if (WhileStatement t b) \<and> check ''else'' (S rest))" "3 * length ?T + 3 \<le> n"
  have t: "parse_expr n (S (T @ pt '')'' # B @ rest)) = Some (t, S (pt '')'' # B @ rest))"
    by (rule asgD [OF assms(1)]) (use h in auto)
  have b: "parse_stmt n (S (B @ rest)) = Some (b, S rest)"
    by (rule stmD [OF assms(2)]) (use h in auto)
  show "parse_statement n (E n) (Q n) (S (?T @ rest)) = Some (WhileStatement t b, S rest)"
    using t b h(1) assms(3) by (simp add: parse_statement_def is_declarator_def parse_while_def)
qed


definition for_init :: "js_token list \<Rightarrow> ast option \<Rightarrow> bool" where
  "for_init I i \<longleftrightarrow>
     (i = None \<and> I = [pt '';'']) \<or>
     (\<exists>T e. i = Some (ExpressionStatement e) \<and> I = T @ [pt '';''] \<and> asg T e \<and> expr_start T) \<or>
     (\<exists>Ts ds is_let. i = Some (VariableDeclaration is_let ds) \<and>
        I = kw (if is_let then ''let'' else ''var'') # commas Ts @ [pt '';''] \<and> Ts \<noteq> [] \<and>
        list_all2 (\<lambda>T (name, i). \<exists>I. T = declaration_tokens name I \<and> rel_option asg I i) Ts ds)"

lemma declarations_start:
  assumes "list_all2 (\<lambda>T (name, i). \<exists>I. T = declaration_tokens name I \<and> rel_option asg I i) Ts ds" and "Ts \<noteq> []"
  obtains name t r where "commas Ts @ [pt '';''] = idt name # pt t # r" "t \<noteq> ''of''"
proof -
  obtain T Ts' where Ts: "Ts = T # Ts'" using assms(2) by (cases Ts) auto
  then obtain name I where T: "T = declaration_tokens name I" using assms(1) by (auto simp: list_all2_Cons1)
  show ?thesis
  proof (cases I)
    case None
    then show ?thesis using that T Ts by (cases Ts') (auto simp: declaration_tokens_def)
  next
    case (Some U)
    then show ?thesis using that T Ts by (cases Ts') (auto simp: declaration_tokens_def)
  qed
qed

lemma for_init_parses:
  assumes "for_init I i" and "rest \<noteq> []" and "3 * length I + 4 \<le> n" and "\<not> check ''else'' (S rest)"
  shows "\<not> starts_for_of (S (I @ rest)) \<and> parse_for_init (E n) (Q n) (S (I @ rest)) = Some (i, S rest)"
  using assms(1) unfolding for_init_def
proof (elim disjE exE conjE)
  assume i: "i = None" "I = [pt '';'']"
  then show ?thesis using assms(2) by (simp add: starts_for_of_def is_declarator_def parse_for_init_def)
next
  fix T e
  assume i: "i = Some (ExpressionStatement e)" "I = T @ [pt '';'']" "asg T e" "expr_start T"
  have "parse_expr n (S (T @ pt '';'' # rest)) = Some (e, S (pt '';'' # rest))"
    by (rule asgD [OF i(3)]) (use i assms(3) in auto)
  moreover have "\<not> check s (S (T @ pt '';'' # rest))" if "s \<in> set stop_words" for s
    using expr_startD [OF i(4), of "pt '';'' # rest" s] that by blast
  ultimately show ?thesis using i assms(2) by (simp add: starts_for_of_def is_declarator_def parse_for_init_def)
next
  fix Ts ds is_let
  assume i: "i = Some (VariableDeclaration is_let ds)" "I = kw (if is_let then ''let'' else ''var'') # commas Ts @ [pt '';'']"
    "Ts \<noteq> []" "list_all2 (\<lambda>T (name, i). \<exists>I. T = declaration_tokens name I \<and> rel_option asg I i) Ts ds"
  obtain name t r where s: "commas Ts @ [pt '';''] = idt name # pt t # r" "t \<noteq> ''of''"
    by (rule declarations_start [OF i(4,3)])
  have "parse_stmt n (S (I @ rest)) = Some (VariableDeclaration is_let ds, S rest)"
    unfolding i(2) by (rule stmD [OF stm_variables [OF i(4,3)]]) (use assms i in auto)
  then show ?thesis unfolding i(1,2) s(1) using s(2)
    by (cases is_let) (simp_all add: starts_for_of_def is_declarator_def parse_for_init_def)
qed

lemma parse_optional_tokens:
  assumes "rel_option asg T t" and "list_all expr_start (case T of None \<Rightarrow> [] | Some U \<Rightarrow> [U])"
    and "stop \<in> {'';'', '')''}" and "3 * length (case T of None \<Rightarrow> [] | Some U \<Rightarrow> U) + 3 \<le> n"
  shows "parse_optional stop (E n) (S ((case T of None \<Rightarrow> [] | Some U \<Rightarrow> U) @ pt stop # rest)) = Some (t, S (pt stop # rest))"
proof (cases T)
  case None
  then show ?thesis using assms(1) by (simp add: parse_optional_def)
next
  case (Some U)
  then obtain e where e: "t = Some e" "asg U e" using assms(1) by (cases t) auto
  have "stops (pt stop # rest)" using assms(3) by auto
  then have "parse_expr n (S (U @ pt stop # rest)) = Some (e, S (pt stop # rest))"
    by (rule asgD [OF e(2)]) (use assms Some in auto)
  moreover have "\<not> check stop (S (U @ pt stop # rest))"
    using expr_startD [of U "pt stop # rest" stop] assms(2,3) Some by auto
  ultimately show ?thesis using Some e(1) by (simp add: parse_optional_def)
qed

lemma stm_for:
  assumes "for_init I i" and "rel_option asg T t" and "list_all expr_start (case T of None \<Rightarrow> [] | Some X \<Rightarrow> [X])"
    and "rel_option asg U u" and "list_all expr_start (case U of None \<Rightarrow> [] | Some X \<Rightarrow> [X])" and "stm B b" and "B \<noteq> []"
  shows "stm ([kw ''for'', pt ''(''] @ I @ (case T of None \<Rightarrow> [] | Some X \<Rightarrow> X) @ pt '';'' #
      (case U of None \<Rightarrow> [] | Some X \<Rightarrow> X) @ pt '')'' # B) (ForStatement i t u b)" (is "stm ?T _")
proof (rule stmI)
  fix n :: nat and rest :: "js_token list"
  assume h: "rest \<noteq> []" "\<not> (open_if (ForStatement i t u b) \<and> check ''else'' (S rest))" "3 * length ?T + 3 \<le> n"
  let ?U = "(case U of None \<Rightarrow> [] | Some X \<Rightarrow> X) @ pt '')'' # B @ rest"
  let ?t = "(case T of None \<Rightarrow> [] | Some X \<Rightarrow> X) @ pt '';'' # ?U"
  have e: "\<not> check ''else'' (S ?t)"
  proof (cases T)
    case (Some X)
    then show ?thesis using assms(3) expr_startD [of X "pt '';'' # ?U" "''else''"] by (simp add: stop_words_def)
  qed simp
  have i: "\<not> starts_for_of (S (I @ ?t)) \<and> parse_for_init (E n) (Q n) (S (I @ ?t)) = Some (i, S ?t)"
    by (rule for_init_parses [OF assms(1) _ _ e]) (use h in auto)
  have t: "parse_optional '';'' (E n) (S ?t) = Some (t, S (pt '';'' # ?U))"
    by (rule parse_optional_tokens [OF assms(2,3)]) (use h in auto)
  have u: "parse_optional '')'' (E n) (S ?U) = Some (u, S (pt '')'' # B @ rest))"
    by (rule parse_optional_tokens [OF assms(4,5)]) (use h in auto)
  have b: "parse_stmt n (S (B @ rest)) = Some (b, S rest)"
    by (rule stmD [OF assms(6)]) (use h in auto)
  have I: "I @ ?t \<noteq> []" by simp
  show "parse_statement n (E n) (Q n) (S (?T @ rest)) = Some (ForStatement i t u b, S rest)"
    using i t u b h(1) assms(7) by (simp add: parse_statement_def is_declarator_def parse_for_def Let_def)
qed

lemma stm_for_of:
  assumes "asg T t" and "stm B b" and "B \<noteq> []"
  shows "stm ([kw ''for'', pt ''('', kw ''let'', idt name, kw ''of''] @ T @ pt '')'' # B) (ForOfStatement name t b)" (is "stm ?T _")
proof (rule stmI)
  fix n :: nat and rest :: "js_token list"
  assume h: "rest \<noteq> []" "\<not> (open_if (ForOfStatement name t b) \<and> check ''else'' (S rest))" "3 * length ?T + 3 \<le> n"
  have t: "parse_expr n (S (T @ pt '')'' # B @ rest)) = Some (t, S (pt '')'' # B @ rest))"
    by (rule asgD [OF assms(1)]) (use h in auto)
  have b: "parse_stmt n (S (B @ rest)) = Some (b, S rest)"
    by (rule stmD [OF assms(2)]) (use h in auto)
  show "parse_statement n (E n) (Q n) (S (?T @ rest)) = Some (ForOfStatement name t b, S rest)"
    using t b h(1) assms(3)
    by (simp add: parse_statement_def is_declarator_def parse_for_def starts_for_of_def parse_for_of_def)
qed

definition case_tokens :: "js_token list option \<Rightarrow> js_token list list \<Rightarrow> js_token list" where
  "case_tokens C Ts = (case C of None \<Rightarrow> [kw ''default''] | Some T \<Rightarrow> kw ''case'' # T) @ pt '':'' # concat Ts"

definition case_reads :: "js_token list \<Rightarrow> ast option \<times> ast \<Rightarrow> bool" where
  "case_reads T cb \<longleftrightarrow> (\<exists>C Ts ss. T = case_tokens C Ts \<and> snd cb = Block ss \<and> rel_option asg C (fst cb) \<and>
     list_all2 stm Ts ss \<and> list_all stmt_start Ts)"

lemma switch_loop_cases:
  assumes "list_all2 case_reads Cs cs" and "3 * length (concat Cs) + 3 \<le> n" and "length (concat Cs) < d"
  shows "switch_loop d (E n) (Q n) acc (S (concat Cs @ pt ''}'' # rest)) = Some (acc @ cs, S (pt ''}'' # rest))"
  using assms
proof (induction Cs arbitrary: cs acc d)
  case Nil
  then show ?case by (cases d) auto
next
  case (Cons T Cs)
  then obtain c b cs' where c: "cs = (c, b) # cs'" "case_reads T (c, b)" "list_all2 case_reads Cs cs'"
    by (auto simp: list_all2_Cons1)
  then obtain C Ts ss where T: "T = case_tokens C Ts" "b = Block ss" "rel_option asg C c" "list_all2 stm Ts ss" "list_all stmt_start Ts"
    by (auto simp: case_reads_def)
  obtain d' where d: "d = Suc d'" using Cons.prems by (cases d) auto
  have "\<exists>t r. t \<in> {pt ''}'', kw ''case'', kw ''default''} \<and> concat Cs @ pt ''}'' # rest = t # r"
  proof (cases Cs)
    case (Cons T' Cs')
    then have "case_reads T' (hd cs')" using c(3) by (auto simp: list_all2_Cons1)
    then obtain C' Us where "T' = case_tokens C' Us" by (auto simp: case_reads_def)
    then show ?thesis using Cons by (cases C') (auto simp: case_tokens_def)
  qed auto
  then obtain t r where t: "t \<in> {pt ''}'', kw ''case'', kw ''default''}" "concat Cs @ pt ''}'' # rest = t # r" by blast
  have e: "parse_expr n (S (U @ pt '':'' # concat Ts @ t # r)) = Some (x, S (pt '':'' # concat Ts @ t # r))"
    if "C = Some U" "c = Some x" for U x
    by (rule asgD) (use that T Cons.prems in \<open>auto simp: case_tokens_def\<close>)
  have s: "case_loop d' (Q n) [] (S (concat Ts @ t # r)) = Some ([] @ ss, S (t # r))"
    by (rule case_loop_statements [OF T(4,5) t(1)]) (use Cons.prems d T(1) in \<open>auto simp: case_tokens_def split: option.splits\<close>)
  have l: "switch_loop d' (E n) (Q n) (acc @ [(c, Block ss)]) (S (t # r)) = Some ((acc @ [(c, Block ss)]) @ cs', S (pt ''}'' # rest))"
    unfolding t(2) [symmetric] by (rule Cons.IH [OF c(3)]) (use Cons.prems d T(1) in \<open>auto simp: case_tokens_def split: option.splits\<close>)
  have "switch_loop d (E n) (Q n) acc (S (T @ t # r)) = Some (acc @ cs, S (pt ''}'' # rest))"
    unfolding d T(1,2) c(1) using e s l T(3) by (cases C; cases c) (auto simp: case_tokens_def)
  then show ?case using t(2) by simp
qed

lemma stm_switch:
  assumes "asg T t" and "list_all2 case_reads Cs cs"
  shows "stm ([kw ''switch'', pt ''(''] @ T @ [pt '')'', pt ''{''] @ concat Cs @ [pt ''}'']) (SwitchStatement t cs)" (is "stm ?T _")
proof (rule stmI)
  fix n :: nat and rest :: "js_token list"
  assume h: "rest \<noteq> []" "3 * length ?T + 3 \<le> n"
  have t: "parse_expr n (S (T @ [pt '')'', pt ''{''] @ concat Cs @ pt ''}'' # rest)) = Some (t, S ([pt '')'', pt ''{''] @ concat Cs @ pt ''}'' # rest))"
    by (simp, rule asgD [OF assms(1)]) (use h in auto)
  have c: "switch_loop n (E n) (Q n) [] (S (concat Cs @ pt ''}'' # rest)) = Some ([] @ cs, S (pt ''}'' # rest))"
    by (rule switch_loop_cases [OF assms(2)]) (use h in auto)
  show "parse_statement n (E n) (Q n) (S (?T @ rest)) = Some (SwitchStatement t cs, S rest)"
    using t c h(1) by (simp add: parse_statement_def is_declarator_def parse_switch_def)
qed

lemma stm_return:
  assumes "rel_option asg T t" and "list_all expr_start (case T of None \<Rightarrow> [] | Some X \<Rightarrow> [X])"
  shows "stm (kw ''return'' # (case T of None \<Rightarrow> [] | Some X \<Rightarrow> X) @ [pt '';'']) (ReturnStatement t)" (is "stm ?T _")
proof (rule stmI)
  fix n :: nat and rest :: "js_token list"
  assume h: "rest \<noteq> []" "3 * length ?T + 3 \<le> n"
  show "parse_statement n (E n) (Q n) (S (?T @ rest)) = Some (ReturnStatement t, S rest)"
  proof (cases T)
    case None
    then show ?thesis using assms(1) h(1) by (simp add: parse_statement_def is_declarator_def parse_return_def)
  next
    case (Some X)
    then obtain e where e: "t = Some e" "asg X e" using assms(1) by (cases t) auto
    have x: "expr_start X" using assms(2) Some by simp
    have "parse_expr n (S (X @ pt '';'' # rest)) = Some (e, S (pt '';'' # rest))"
      by (rule asgD [OF e(2)]) (use h Some in auto)
    moreover have "\<not> check s (S (X @ pt '';'' # rest))" if "s \<in> set stop_words" for s
      using expr_startD [OF x, of "pt '';'' # rest" s] that by blast
    moreover have "\<not> at_end (S (X @ pt '';'' # rest))" using expr_startD [OF x, of "pt '';'' # rest"] by blast
    ultimately show ?thesis using Some e(1) h(1)
      by (simp add: parse_statement_def is_declarator_def parse_return_def)
  qed
qed

lemma stm_break: "stm [kw ''break'', pt '';''] BreakStatement"
  by (rule stmI) (simp add: parse_statement_def is_declarator_def)

lemma stm_continue: "stm [kw ''continue'', pt '';''] ContinueStatement"
  by (rule stmI) (simp add: parse_statement_def is_declarator_def)


lemma stm_function:
  assumes "list_all2 stm Ts ss" and "list_all stmt_start Ts"
  shows "stm ((if is_async then [kw ''async''] else []) @ kw ''function'' # idt name # parameter_tokens ps @ block_tokens Ts)
    (FunctionDeclaration name ps (Some (Block ss)) is_async)" (is "stm ?T _")
proof (rule stmI)
  fix n :: nat and rest :: "js_token list"
  assume h: "rest \<noteq> []" "3 * length ?T + 3 \<le> n"
  have "parse_function n (Q n) True (S ([idt name] @ parameter_tokens ps @ block_tokens Ts @ rest)) =
    Some (function_node True name ps (Some (Block ss)), S rest)"
    by (rule parse_function_tokens [OF assms h(1)]) (use h in auto)
  then show "parse_statement n (E n) (Q n) (S (?T @ rest)) = Some (FunctionDeclaration name ps (Some (Block ss)) is_async, S rest)"
    by (cases is_async) (simp_all add: parse_statement_def is_declarator_def peek_at_def function_node_def set_async_def)
qed

text \<open>A method: everything of a function but the word \<open>function\<close>.\<close>

definition method_reads :: "js_token list \<Rightarrow> ast \<Rightarrow> bool" where
  "method_reads F f \<longleftrightarrow> (\<forall>n k rest. rest \<noteq> [] \<longrightarrow> 3 * length F \<le> n \<longrightarrow> length F \<le> k \<longrightarrow>
     parse_function k (Q n) False (S (F @ rest)) = Some (f, S rest))"

lemma method_readsD:
  "method_reads F f \<Longrightarrow> rest \<noteq> [] \<Longrightarrow> 3 * length F \<le> n \<Longrightarrow> length F \<le> k \<Longrightarrow>
    parse_function k (Q n) False (S (F @ rest)) = Some (f, S rest)"
  unfolding method_reads_def by blast

lemma method_reads_function:
  assumes "list_all2 stm Ts ss" and "list_all stmt_start Ts"
  shows "method_reads (name_tokens name @ parameter_tokens ps @ block_tokens Ts) (FunctionExpression name ps (Some (Block ss)))"
  unfolding method_reads_def
proof (intro allI impI)
  fix n k :: nat and rest :: "js_token list"
  let ?F = "name_tokens name @ parameter_tokens ps @ block_tokens Ts"
  assume h: "rest \<noteq> []" "3 * length ?F \<le> n" "length ?F \<le> k"
  have "parse_function k (Q n) False (S (name_tokens name @ parameter_tokens ps @ block_tokens Ts @ rest)) =
    Some (function_node False name ps (Some (Block ss)), S rest)"
    by (rule parse_function_tokens [OF assms h(1)]) (use h in auto)
  then show "parse_function k (Q n) False (S (?F @ rest)) = Some (FunctionExpression name ps (Some (Block ss)), S rest)"
    by (simp add: function_node_def)
qed

lemma word_token_not_closing [simp]: "\<not> (is_symbol (word_token s) \<and> s = ''}'')"
  by (auto simp: word_token_def is_keyword_def js_keywords_def)

lemma word_token_not_end [simp]: "tk_type (word_token s) \<noteq> EndOfInput"
  by (simp add: word_token_def)

definition methods_read :: "js_token list list \<Rightarrow> (string \<times> ast) list \<Rightarrow> bool" where
  "methods_read = list_all2 (\<lambda>T (m, f). \<exists>F. T = word_token m # F \<and> method_reads F f \<and> m \<noteq> ''constructor'')"

lemma class_step:
  assumes "method_reads F f" and "rest \<noteq> []" and "3 * length F \<le> n" and "length F \<le> d"
  shows "class_loop (Suc d) (Q n) ctor acc (S (word_token m # F @ rest)) =
    (if m = ''constructor'' then class_loop d (Q n) (Some f) acc (S rest) else class_loop d (Q n) ctor (acc @ [(m, f)]) (S rest))"
  using method_readsD [OF assms] assms(2) word_token_not_closing [of m] by auto

lemma class_loop_methods:
  assumes "methods_read Ms ms" and "3 * length (concat Ms) \<le> n" and "length (concat Ms) < d"
  shows "class_loop d (Q n) ctor acc (S (concat Ms @ pt ''}'' # rest)) = Some ((ctor, acc @ ms), S (pt ''}'' # rest))"
  using assms
proof (induction Ms arbitrary: ms acc d)
  case Nil
  then show ?case by (cases d) (auto simp: methods_read_def)
next
  case (Cons T Ms)
  obtain m f F ms' where T: "ms = (m, f) # ms'" "T = word_token m # F" "method_reads F f" "m \<noteq> ''constructor''"
    "methods_read Ms ms'"
    using Cons.prems(1) by (auto simp: list_all2_Cons1 methods_read_def)
  obtain d' where d: "d = Suc d'" using Cons.prems by (cases d) auto
  have "class_loop d' (Q n) ctor (acc @ [(m, f)]) (S (concat Ms @ pt ''}'' # rest)) = Some ((ctor, (acc @ [(m, f)]) @ ms'), S (pt ''}'' # rest))"
    by (rule Cons.IH [OF T(5)]) (use Cons.prems d T(2) in auto)
  moreover have "class_loop (Suc d') (Q n) ctor acc (S (word_token m # F @ concat Ms @ pt ''}'' # rest)) =
      class_loop d' (Q n) ctor (acc @ [(m, f)]) (S (concat Ms @ pt ''}'' # rest))"
    by (subst class_step [OF T(3)]) (use Cons.prems d T(2,4) in auto)
  ultimately show ?case unfolding d T(1,2) by simp
qed

lemma stm_class:
  assumes "rel_option method_reads C ctor" and "methods_read Ms ms"
  shows "stm (kw ''class'' # idt name # pt ''{'' # (case C of None \<Rightarrow> [] | Some F \<Rightarrow> word_token ''constructor'' # F) @ concat Ms @ [pt ''}''])
    (ClassDeclaration name ctor ms)" (is "stm ?T _")
proof (rule stmI)
  fix n :: nat and rest :: "js_token list"
  let ?C = "case C of None \<Rightarrow> [] | Some F \<Rightarrow> word_token ''constructor'' # F"
  assume h: "rest \<noteq> []" "3 * length ?T + 3 \<le> n"
  have l: "class_loop d (Q n) c [] (S (concat Ms @ pt ''}'' # rest)) = Some ((c, [] @ ms), S (pt ''}'' # rest))"
    if "length (concat Ms) < d" for d c
    by (rule class_loop_methods [OF assms(2)]) (use h that in auto)
  have c: "class_loop n (Q n) None [] (S (?C @ concat Ms @ pt ''}'' # rest)) = Some ((ctor, ms), S (pt ''}'' # rest))"
  proof (cases C)
    case None
    then show ?thesis using assms(1) l [of n None] h by simp
  next
    case (Some F)
    then obtain f where f: "ctor = Some f" "method_reads F f" using assms(1) by (cases ctor) auto
    obtain n' where n: "n = Suc n'" using h(2) by (cases n) auto
    have "class_loop (Suc n') (Q n) None [] (S (word_token ''constructor'' # F @ concat Ms @ pt ''}'' # rest)) =
        class_loop n' (Q n) (Some f) [] (S (concat Ms @ pt ''}'' # rest))"
      by (subst class_step [OF f(2)]) (use h Some n in auto)
    also have "\<dots> = Some ((ctor, ms), S (pt ''}'' # rest))" using l [of n' "Some f"] h(2) f(1) n Some by simp
    finally show ?thesis using Some n by simp
  qed
  have p: "parse_statement n (E n) (Q n) (S (kw ''class'' # R)) = parse_class n (Q n) (S R)" if "R \<noteq> []" for R
    using that by (simp add: parse_statement_def is_declarator_def)
  show "parse_statement n (E n) (Q n) (S (?T @ rest)) = Some (ClassDeclaration name ctor ms, S rest)"
    using c h(1) by (simp add: p parse_class_def Let_def)
qed


section \<open>Every tree is read back\<close>

definition level :: "nat \<Rightarrow> js_token list \<Rightarrow> ast \<Rightarrow> bool" where
  "level p T e =
     (if p = 0 then asg T e else if p \<le> 6 then bin p T e else if p = 7 then una T e
      else if p \<le> 9 then post T e else if p = 10 then callee T e else prim T e)"

lemma at_bin: "bin q T e \<Longrightarrow> 0 < q \<Longrightarrow> p \<le> q \<Longrightarrow> p \<le> 6 \<Longrightarrow> level p T e"
  by (auto simp: level_def intro: bin_mono bin_asg [OF bin_mono [of q _ _ 1]])

lemma at_una: "una T e \<Longrightarrow> T \<noteq> [] \<Longrightarrow> p \<le> 7 \<Longrightarrow> level p T e"
  using una_bin [of T e] by (auto simp: level_def intro: bin_asg)

lemma at_post: "post T e \<Longrightarrow> T \<noteq> [] \<Longrightarrow> p \<le> 9 \<Longrightarrow> level p T e"
  using at_una [OF post_una [of T e], of p] by (auto simp: level_def)

lemma plain_nonempty: "plain_start T \<Longrightarrow> T \<noteq> []"
  by (simp add: plain_start_def)

lemma at_prim: "prim T e \<Longrightarrow> plain_start T \<Longrightarrow> level p T e"
  using at_post [OF prim_post [of T e] plain_nonempty, of p] prim_callee [of T e] by (auto simp: level_def)

lemma at_parens: "asg T e \<Longrightarrow> level p (pt ''('' # T @ [pt '')'']) e"
  by (rule at_prim [OF prim_parens]) (simp_all add: plain_start_def unary_operators_def)

lemma at_asg: "level 0 T e = asg T e"
  by (simp add: level_def)

lemma expr_start_parens: "T \<noteq> [] \<Longrightarrow> expr_start T \<Longrightarrow> expr_start (parens b T)"
  by (auto simp: parens_def expr_start_def stop_words_def)

definition reads :: "(fp \<Rightarrow> string) \<Rightarrow> ast \<Rightarrow> bool" where
  "reads num e \<longleftrightarrow> (\<forall>p. level p (ast_tokens num p e) e \<and> expr_start (ast_tokens num p e))"

lemma readsD: "reads num e \<Longrightarrow> level p (ast_tokens num p e) e" "reads num e \<Longrightarrow> expr_start (ast_tokens num p e)"
  "reads num e \<Longrightarrow> asg (ast_tokens num 0 e) e" "reads num e \<Longrightarrow> ast_tokens num p e \<noteq> []"
  by (auto simp: reads_def at_asg [symmetric] expr_start_def)

lemma reads_list:
  "\<forall>e \<in> set es. reads num e \<Longrightarrow>
    list_all2 asg (map (\<lambda>e. ast_tokens num 0 e) es) es \<and> list_all expr_start (map (\<lambda>e. ast_tokens num 0 e) es)"
  by (auto simp: list_all2_map1 list_all2_same list_all_iff readsD)

lemma reads_prim:
  assumes "\<And>p. ast_tokens num p e = T" and "prim T e" and "plain_start T" and "expr_start T"
  shows "reads num e"
  unfolding reads_def assms(1) using at_prim [OF assms(2,3)] assms(4) by blast

lemma reads_parens:
  assumes "\<And>p. ast_tokens num p e = parens (L < p) T" and "\<And>p. p \<le> L \<Longrightarrow> level p T e" and "expr_start T"
  shows "reads num e"
proof -
  have "asg T e" using assms(2) [of 0] by (simp add: level_def)
  then have "level p (parens (L < p) T) e" for p using assms(2) [of p] at_parens by (cases "L < p") (simp_all add: parens_def)
  then show ?thesis unfolding reads_def assms(1) using expr_start_parens expr_start_nonempty assms(3) by blast
qed

lemma start_simps [simp]:
  "expr_start (pt s # T) \<longleftrightarrow> s \<notin> set stop_words \<and> s \<noteq> ''function''"
  "expr_start (kw s # T) \<longleftrightarrow> s \<notin> set stop_words \<and> s \<noteq> ''{''"
  "expr_start (number_token x # T)" "expr_start (new_token StringToken x # T)"
  "plain_start (pt s # T) \<longleftrightarrow> s \<noteq> ''new'' \<and> s \<notin> set unary_operators"
  "plain_start (kw s # T) \<longleftrightarrow> s \<noteq> ''new'' \<and> s \<notin> set unary_operators"
  "plain_start (number_token x # T)" "plain_start (new_token StringToken x # T)"
  by (auto simp: expr_start_def plain_start_def)

lemma reads_simple:
  "strto_value double (num v) = v \<Longrightarrow> reads num (NumberLiteral v)"
  "reads num (StringLiteral s)" "reads num (BooleanLiteral b)" "reads num NullLiteral"
  "\<not> is_keyword x \<or> x = ''undefined'' \<Longrightarrow> reads num (Identifier x)"
  "compile (rx_source rx) (rx_flags rx) = Parsed (Inr rx) \<Longrightarrow> reads num (RegexLiteral (Some rx))"
proof -
  show "strto_value double (num v) = v \<Longrightarrow> reads num (NumberLiteral v)"
    by (rule reads_prim [OF _ prim_number]) simp_all
  show "reads num (StringLiteral s)" by (rule reads_prim [OF _ prim_string]) simp_all
  show "reads num (BooleanLiteral b)"
    by (rule reads_prim [OF _ prim_boolean]) (simp_all add: unary_operators_def stop_words_def)
  show "reads num NullLiteral"
    by (rule reads_prim [OF _ prim_null]) (simp_all add: unary_operators_def stop_words_def)
  show "reads num (Identifier x)" if x: "\<not> is_keyword x \<or> x = ''undefined''"
  proof (rule reads_prim [OF _ prim_identifier [OF x]])
    show "plain_start [word_token x]" using x by (auto simp: word_token_def unary_operators_def plain_start_def)
    show "expr_start [word_token x]" using x by (auto simp: word_token_def stop_words_def expr_start_def)
  qed simp
  show "reads num (RegexLiteral (Some rx))" if x: "compile (rx_source rx) (rx_flags rx) = Parsed (Inr rx)"
    by (rule reads_prim [OF _ prim_regex [OF x]])
      (simp_all add: plain_start_def expr_start_def is_symbol_def new_token_def)
qed

lemma reads_array:
  assumes "\<forall>e \<in> set es. reads num e"
  shows "reads num (ArrayLiteral es)"
proof (rule reads_prim [OF _ prim_array])
  show "\<And>p. ast_tokens num p (ArrayLiteral es) = pt ''['' # commas (map (\<lambda>e. ast_tokens num 0 e) es) @ [pt '']'']" by simp
qed (use reads_list [OF assms] in \<open>simp_all add: unary_operators_def stop_words_def\<close>)

lemma reads_object:
  assumes "\<forall>(k, e) \<in> set ps. reads num e"
  shows "reads num (ObjectLiteral ps)"
proof (rule reads_prim [OF _ prim_object])
  let ?f = "\<lambda>(k, e). new_token StringToken k # pt '':'' # ast_tokens num 0 e"
  show "\<And>p. ast_tokens num p (ObjectLiteral ps) = pt ''{'' # commas (map ?f ps) @ [pt ''}'']" by simp
  show "list_all2 (\<lambda>T (k, e). \<exists>U. T = new_token StringToken k # pt '':'' # U \<and> asg U e) (map ?f ps) ps"
    unfolding list_all2_map1 list_all2_same using assms readsD(3) by fastforce
qed (simp_all add: unary_operators_def stop_words_def)

lemma unary_operators_start:
  "list_all (\<lambda>op. op \<notin> set stop_words \<and> op \<noteq> ''function'' \<and> op \<noteq> ''{'') unary_operators"
  by (simp add: unary_operators_def stop_words_def)

lemma operator_start: "op \<notin> set stop_words \<Longrightarrow> op \<noteq> ''function'' \<Longrightarrow> op \<noteq> ''{'' \<Longrightarrow> expr_start (operator_token op # T)"
  by (auto simp: operator_token_def)

lemma reads_unary:
  assumes "op \<in> set unary_operators" and "reads num e"
  shows "reads num (Unary op e)"
proof (rule reads_parens [where L = 7])
  have u: "una (operator_token op # ast_tokens num 7 e) (Unary op e)"
    using readsD(1) [OF assms(2), of 7] assms(1) by (intro una_unary) (simp_all add: level_def)
  show "\<And>p. p \<le> 7 \<Longrightarrow> level p (operator_token op # ast_tokens num 7 e) (Unary op e)"
    by (rule at_una [OF u]) simp_all
  show "expr_start (operator_token op # ast_tokens num 7 e)"
    using assms(1) unary_operators_start by (auto simp: list_all_iff intro!: operator_start)
qed simp


lemma reads_binary:
  assumes "reads num l" and "reads num r" and "binary_precedence op \<noteq> 0"
  shows "reads num (binary_node op l r)"
proof -
  let ?q = "binary_precedence op"
  let ?L = "ast_tokens num ?q l" and ?R = "ast_tokens num (?q + 1) r"
  have q: "?q \<le> 6" by (simp add: binary_precedence_def)
  have l: "bin ?q ?L l" using readsD(1) [OF assms(1), of ?q] assms(3) q by (simp add: level_def)
  have r: "bin (?q + 1) ?R r"
  proof (cases "?q = 6")
    case True
    then show ?thesis using readsD(1) [OF assms(2), of 7] readsD(4) [OF assms(2)] una_bin by (simp add: level_def)
  next
    case False
    then show ?thesis using readsD(1) [OF assms(2), of "?q + 1"] q by (simp add: level_def)
  qed
  have b: "bin p (?L @ operator_token op # ?R) (binary_node op l r)" if "p \<le> ?q" for p
    by (rule bin_binary [OF l r refl assms(3) that])
  show ?thesis
  proof (rule reads_parens [where L = ?q])
    show "\<And>p. ast_tokens num p (binary_node op l r) = parens (?q < p) (?L @ operator_token op # ?R)"
      by (simp add: binary_node_def)
    show "\<And>p. p \<le> ?q \<Longrightarrow> level p (?L @ operator_token op # ?R) (binary_node op l r)"
      using at_bin [OF b [OF order_refl]] assms(3) q by simp
    show "expr_start (?L @ operator_token op # ?R)" using readsD(2,4) [OF assms(1)] by simp
  qed
qed

lemma reads_assignment:
  assumes "reads num l" and "reads num r" and "op \<in> set assignment_operators"
  shows "reads num (Assignment op l r)"
proof (rule reads_parens [where L = 0])
  have "bin 1 (ast_tokens num 1 l) l" using readsD(1) [OF assms(1), of 1] by (simp add: level_def)
  then show "\<And>p. p \<le> 0 \<Longrightarrow> level p (ast_tokens num 1 l @ pt op # ast_tokens num 0 r) (Assignment op l r)"
    using asg_assignment [OF _ readsD(3) [OF assms(2)] assms(3)] by (simp add: level_def)
qed (use readsD(2,4) [OF assms(1)] in simp_all)

lemma reads_conditional:
  assumes "reads num c" and "reads num a" and "reads num b"
  shows "reads num (Conditional c a b)"
proof (rule reads_parens [where L = 0])
  have "bin 1 (ast_tokens num 1 c) c" using readsD(1) [OF assms(1), of 1] by (simp add: level_def)
  then show "\<And>p. p \<le> 0 \<Longrightarrow> level p (ast_tokens num 1 c @ pt ''?'' # ast_tokens num 0 a @ pt '':'' # ast_tokens num 0 b) (Conditional c a b)"
    using asg_conditional [OF _ readsD(3) [OF assms(2)] readsD(3) [OF assms(3)]] by (simp add: level_def)
qed (use readsD(2,4) [OF assms(1)] in simp_all)

lemma reads_call:
  assumes "reads num e" and "\<forall>e \<in> set es. reads num e"
  shows "reads num (Call e es)"
proof (rule reads_parens [where L = 8])
  let ?T = "ast_tokens num 8 e @ pt ''('' # commas (map (\<lambda>e. ast_tokens num 0 e) es) @ [pt '')'']"
  have "post (ast_tokens num 8 e) e" using readsD(1) [OF assms(1), of 8] by (simp add: level_def)
  then have "post ?T (Call e es)" using reads_list [OF assms(2)] by (intro post_call) auto
  then show "\<And>p. p \<le> 8 \<Longrightarrow> level p ?T (Call e es)" by (rule at_post) simp_all
  show "\<And>p. ast_tokens num p (Call e es) = parens (8 < p) ?T" by simp
qed (use readsD(2,4) [OF assms(1)] in simp)

lemma reads_new:
  assumes "reads num e" and "\<forall>e \<in> set es. reads num e"
  shows "reads num (New e es)"
proof (rule reads_parens [where L = 8])
  let ?T = "kw ''new'' # ast_tokens num 10 e @ pt ''('' # commas (map (\<lambda>e. ast_tokens num 0 e) es) @ [pt '')'']"
  have "callee (ast_tokens num 10 e) e" using readsD(1) [OF assms(1), of 10] by (simp add: level_def)
  then have "post ?T (New e es)" using reads_list [OF assms(2)] by (intro post_new) auto
  then show "\<And>p. p \<le> 8 \<Longrightarrow> level p ?T (New e es)" by (rule at_post) simp_all
  show "\<And>p. ast_tokens num p (New e es) = parens (8 < p) ?T" by simp
qed (simp add: stop_words_def)

text \<open>A member access is printed in two ways: below \<open>new\<close> its operand is a callee too.\<close>

lemma reads_access:
  assumes "reads num e"
    and p: "\<And>p. ast_tokens num p m = parens (10 < p) (ast_tokens num (if p = 10 then 10 else 8) e @ U)"
    and post: "\<And>T. post T e \<Longrightarrow> post (T @ U) m" and callee: "\<And>T. callee T e \<Longrightarrow> callee (T @ U) m"
  shows "reads num m"
  unfolding reads_def
proof (intro allI conjI)
  fix p :: nat
  let ?T = "ast_tokens num 8 e @ U"
  have P: "post ?T m" using readsD(1) [OF assms(1), of 8] post by (simp add: level_def)
  have ne: "?T \<noteq> []" using readsD(4) [OF assms(1)] by simp
  have a: "asg ?T m" using at_post [OF P ne, of 0] by (simp add: level_def)
  consider "p \<le> 9" | "p = 10" | "10 < p" by linarith
  then show "level p (ast_tokens num p m) m"
  proof cases
    case 1
    then show ?thesis unfolding p using at_post [OF P ne] by (simp add: parens_def)
  next
    case 2
    have "callee (ast_tokens num 10 e) e" using readsD(1) [OF assms(1), of 10] by (simp add: level_def)
    then show ?thesis unfolding p using 2 callee by (simp add: level_def parens_def)
  next
    case 3
    then show ?thesis unfolding p using at_parens [OF a] by (simp add: parens_def)
  qed
  show "expr_start (ast_tokens num p m)"
    unfolding p using readsD(2,4) [OF assms(1)] by (intro expr_start_parens) simp_all
qed

lemma reads_member: "reads num e \<Longrightarrow> reads num (Member e name None)"
  by (rule reads_access [where U = "[pt ''.'', word_token name]"]) (simp, simp, erule post_member, erule callee_member)

lemma reads_index: "reads num e \<Longrightarrow> reads num i \<Longrightarrow> reads num (Member e [] (Some i))"
  by (rule reads_access [where U = "pt ''['' # ast_tokens num 0 i @ [pt '']'']"])
    (simp, simp, erule post_index, erule readsD(3), erule callee_index, erule readsD(3))

definition states :: "(fp \<Rightarrow> string) \<Rightarrow> ast \<Rightarrow> bool" where
  "states num s \<longleftrightarrow> stm (ast_tokens num 0 s) s \<and> stmt_start (ast_tokens num 0 s)"

lemma states_list:
  "\<forall>s \<in> set ss. states num s \<Longrightarrow>
    list_all2 stm (map (\<lambda>s. ast_tokens num 0 s) ss) ss \<and> list_all stmt_start (map (\<lambda>s. ast_tokens num 0 s) ss)"
  by (auto simp: list_all2_map1 list_all2_same list_all_iff states_def)

lemma block_ast_tokens: "ast_tokens num p (Block ss) = block_tokens (map (\<lambda>s. ast_tokens num 0 s) ss)"
  by (simp add: block_tokens_def)

lemma reads_function:
  assumes "\<forall>s \<in> set ss. states num s"
  shows "reads num (FunctionExpression name ps (Some (Block ss)))"
proof (rule reads_prim [OF _ prim_function])
  show "\<And>p. ast_tokens num p (FunctionExpression name ps (Some (Block ss))) =
    kw ''function'' # name_tokens name @ parameter_tokens ps @ block_tokens (map (\<lambda>s. ast_tokens num 0 s) ss)"
    by (simp add: block_tokens_def)
qed (use states_list [OF assms] in \<open>simp_all add: unary_operators_def stop_words_def\<close>)


lemma statesD:
  "states num s \<Longrightarrow> stm (ast_tokens num 0 s) s" "states num s \<Longrightarrow> stmt_start (ast_tokens num 0 s)"
  "states num s \<Longrightarrow> ast_tokens num 0 s \<noteq> []"
  by (auto simp: states_def stmt_start_def)

lemma stmt_start_tokens [simp]:
  "stmt_start (kw s # T) \<longleftrightarrow> s \<notin> {''}'', ''case'', ''default'', ''else''}"
  "stmt_start (pt s # T) \<longleftrightarrow> s \<notin> {''}'', ''case'', ''default'', ''else''}"
  by (auto simp: stmt_start_def)

lemma expr_stmt_start: "expr_start T \<Longrightarrow> stmt_start (T @ U)"
  by (cases T) (auto simp: expr_start_def stmt_start_def stop_words_def)

lemma states_expression:
  assumes "reads num e"
  shows "states num (ExpressionStatement e)"
proof -
  let ?T = "ast_tokens num 0 e"
  let ?b = "hd ?T = pt ''{'' \<or> hd ?T = kw ''function''"
  have a: "asg (parens ?b ?T) e"
    using readsD(3) [OF assms] at_asg at_parens [of ?T e 0] by (auto simp: parens_def)
  have s: "expr_start (parens ?b ?T)" using readsD(2,4) [OF assms] by (intro expr_start_parens)
  have "hd (parens ?b ?T) \<noteq> pt ''{''" "hd (parens ?b ?T) \<noteq> kw ''function''" by (auto simp: parens_def)
  then show ?thesis
    using stm_expression [OF a s] expr_stmt_start [OF s] by (simp add: states_def Let_def)
qed

text \<open>The variables of a declaration.\<close>

definition declared_reads :: "(fp \<Rightarrow> string) \<Rightarrow> (string \<times> ast option) list \<Rightarrow> bool" where
  "declared_reads num ds \<longleftrightarrow> (\<forall>(name, i) \<in> set ds. \<forall>e. i = Some e \<longrightarrow> reads num e)"

definition declared_tokens :: "(fp \<Rightarrow> string) \<Rightarrow> (string \<times> ast option) list \<Rightarrow> js_token list list" where
  "declared_tokens num ds =
     map (\<lambda>(name, i). idt name # (case i of None \<Rightarrow> [] | Some e \<Rightarrow> pt ''='' # ast_tokens num 0 e)) ds"

lemma declared_tokens_read:
  assumes "declared_reads num ds"
  shows "list_all2 (\<lambda>T (name, i). \<exists>I. T = declaration_tokens name I \<and> rel_option asg I i) (declared_tokens num ds) ds"
proof -
  have "\<exists>I. idt name # (case i of None \<Rightarrow> [] | Some e \<Rightarrow> pt ''='' # ast_tokens num 0 e) = declaration_tokens name I \<and> rel_option asg I i"
    if "(name, i) \<in> set ds" for name i
    by (rule exI [of _ "map_option (\<lambda>e. ast_tokens num 0 e) i"])
      (use that assms in \<open>auto simp: declared_reads_def declaration_tokens_def readsD(3) split: option.splits\<close>)
  then show ?thesis unfolding declared_tokens_def list_all2_map1 list_all2_same by clarsimp
qed

lemma states_variables:
  assumes "declared_reads num ds" and "ds \<noteq> []"
  shows "states num (VariableDeclaration is_let ds)"
  using stm_variables [OF declared_tokens_read [OF assms(1)], of is_let] assms(2)
  by (simp add: states_def declared_tokens_def)

lemma states_block: "\<forall>s \<in> set ss. states num s \<Longrightarrow> states num (Block ss)"
  using stm_block [of "map (\<lambda>s. ast_tokens num 0 s) ss" ss] states_list [of ss num]
  by (simp add: states_def block_tokens_def)

lemma states_if:
  assumes "reads num t" and "states num b" and "\<forall>s. a = Some s \<longrightarrow> \<not> open_if b \<and> states num s"
  shows "states num (IfStatement t b a)"
proof -
  have "rel_option stm (map_option (\<lambda>s. ast_tokens num 0 s) a) a" using assms(3) statesD(1) by (cases a) auto
  then show ?thesis
    using stm_if [OF readsD(3) [OF assms(1)] statesD(1) [OF assms(2)] _ _ statesD(3) [OF assms(2)]] assms(3)
    by (cases a) (fastforce simp: states_def)+
qed

lemma states_while: "reads num t \<Longrightarrow> states num b \<Longrightarrow> states num (WhileStatement t b)"
  using stm_while [OF readsD(3) statesD(1,3)] by (simp add: states_def)

lemma states_for_of: "reads num e \<Longrightarrow> states num b \<Longrightarrow> states num (ForOfStatement name e b)"
  using stm_for_of [OF readsD(3) statesD(1,3)] by (simp add: states_def)

text \<open>The three optional parts of a \<open>for\<close>.\<close>

definition init_reads :: "(fp \<Rightarrow> string) \<Rightarrow> ast option \<Rightarrow> bool" where
  "init_reads num i \<longleftrightarrow> i = None \<or> (\<exists>e. i = Some (ExpressionStatement e) \<and> reads num e) \<or>
     (\<exists>is_let ds. i = Some (VariableDeclaration is_let ds) \<and> declared_reads num ds \<and> ds \<noteq> [])"

definition init_tokens :: "(fp \<Rightarrow> string) \<Rightarrow> ast option \<Rightarrow> js_token list" where
  "init_tokens num i = (case i of None \<Rightarrow> [pt '';''] | Some (ExpressionStatement e) \<Rightarrow> ast_tokens num 0 e @ [pt '';'']
     | Some s \<Rightarrow> ast_tokens num 0 s)"

lemma init_tokens_read:
  assumes "init_reads num i"
  shows "for_init (init_tokens num i) i"
  using assms unfolding init_reads_def
proof (elim disjE exE conjE)
  fix e
  assume "i = Some (ExpressionStatement e)" "reads num e"
  then show ?thesis using readsD(2,3) by (auto simp: for_init_def init_tokens_def)
next
  fix is_let ds
  assume "i = Some (VariableDeclaration is_let ds)" "declared_reads num ds" "ds \<noteq> []"
  then show ?thesis using declared_tokens_read
    by (auto simp: for_init_def init_tokens_def declared_tokens_def intro!: exI [of _ "declared_tokens num ds"])
qed (simp add: for_init_def init_tokens_def)

definition option_reads :: "(fp \<Rightarrow> string) \<Rightarrow> ast option \<Rightarrow> bool" where
  "option_reads num t \<longleftrightarrow> (\<forall>e. t = Some e \<longrightarrow> reads num e)"

lemma option_tokens_read:
  assumes "option_reads num t"
  obtains T where "rel_option asg T t" "list_all expr_start (case T of None \<Rightarrow> [] | Some X \<Rightarrow> [X])"
    "(case T of None \<Rightarrow> [] | Some X \<Rightarrow> X) = (case t of None \<Rightarrow> [] | Some e \<Rightarrow> ast_tokens num 0 e)"
proof (cases t)
  case None
  then show ?thesis using that [of None] by simp
next
  case (Some e)
  then show ?thesis using that [of "Some (ast_tokens num 0 e)"] assms readsD(2,3) by (simp add: option_reads_def)
qed

lemma states_for:
  assumes "init_reads num i" and "option_reads num t" and "option_reads num u" and "states num b"
  shows "states num (ForStatement i t u b)"
proof -
  obtain T where T: "rel_option asg T t" "list_all expr_start (case T of None \<Rightarrow> [] | Some X \<Rightarrow> [X])"
    "(case T of None \<Rightarrow> [] | Some X \<Rightarrow> X) = (case t of None \<Rightarrow> [] | Some e \<Rightarrow> ast_tokens num 0 e)"
    by (rule option_tokens_read [OF assms(2)])
  obtain U where U: "rel_option asg U u" "list_all expr_start (case U of None \<Rightarrow> [] | Some X \<Rightarrow> [X])"
    "(case U of None \<Rightarrow> [] | Some X \<Rightarrow> X) = (case u of None \<Rightarrow> [] | Some e \<Rightarrow> ast_tokens num 0 e)"
    by (rule option_tokens_read [OF assms(3)])
  have "stm (ast_tokens num 0 (ForStatement i t u b)) (ForStatement i t u b)"
    using stm_for [OF init_tokens_read [OF assms(1)] T(1,2) U(1,2) statesD(1,3) [OF assms(4)]]
    by (simp add: T(3) U(3) init_tokens_def)
  then show ?thesis by (simp add: states_def)
qed

lemma states_return: "option_reads num t \<Longrightarrow> states num (ReturnStatement t)"
  by (rule option_tokens_read [of num t], assumption) (use stm_return in \<open>fastforce simp: states_def\<close>)

lemma states_jump: "states num BreakStatement" "states num ContinueStatement"
  using stm_break stm_continue by (simp_all add: states_def)

lemma states_function:
  "\<forall>s \<in> set ss. states num s \<Longrightarrow> states num (FunctionDeclaration name ps (Some (Block ss)) is_async)"
  using stm_function [of "map (\<lambda>s. ast_tokens num 0 s) ss" ss is_async name ps] states_list [of ss num]
  by (cases is_async) (simp_all add: states_def block_tokens_def)


text \<open>The cases of a \<open>switch\<close> and the methods of a class.\<close>

definition case_ok :: "(fp \<Rightarrow> string) \<Rightarrow> ast option \<times> ast \<Rightarrow> bool" where
  "case_ok num cb \<longleftrightarrow> option_reads num (fst cb) \<and> (\<exists>ss. snd cb = Block ss \<and> (\<forall>s \<in> set ss. states num s))"

definition case_text :: "(fp \<Rightarrow> string) \<Rightarrow> ast option \<times> ast \<Rightarrow> js_token list" where
  "case_text num = (\<lambda>(c, b). (case c of None \<Rightarrow> [kw ''default''] | Some e \<Rightarrow> kw ''case'' # ast_tokens num 0 e) @
     pt '':'' # (case b of Block ss \<Rightarrow> concat (map (\<lambda>s. ast_tokens num 0 s) ss) | _ \<Rightarrow> []))"

lemma case_text_reads:
  assumes "case_ok num cb"
  shows "case_reads (case_text num cb) cb"
proof -
  obtain c b where cb: "cb = (c, b)" by (cases cb)
  obtain ss where b: "b = Block ss" "\<forall>s \<in> set ss. states num s" using assms cb by (auto simp: case_ok_def)
  let ?C = "map_option (\<lambda>e. ast_tokens num 0 e) c"
  have "case_text num cb = case_tokens ?C (map (\<lambda>s. ast_tokens num 0 s) ss)"
    unfolding cb b(1) by (cases c) (simp_all add: case_text_def case_tokens_def)
  moreover have "rel_option asg ?C c" using assms cb readsD(3) by (cases c) (auto simp: case_ok_def option_reads_def)
  ultimately show ?thesis unfolding case_reads_def using states_list [OF b(2)] cb b(1) by auto
qed

lemma states_switch:
  assumes "reads num t" and "\<forall>c \<in> set cs. case_ok num c"
  shows "states num (SwitchStatement t cs)"
proof -
  have "list_all2 case_reads (map (case_text num) cs) cs"
    unfolding list_all2_map1 list_all2_same using assms(2) case_text_reads by blast
  then show ?thesis using stm_switch [OF readsD(3) [OF assms(1)]] by (simp add: states_def case_text_def)
qed

definition method_ok :: "(fp \<Rightarrow> string) \<Rightarrow> ast \<Rightarrow> bool" where
  "method_ok num f \<longleftrightarrow> (\<exists>name ps ss. f = FunctionExpression name ps (Some (Block ss)) \<and> (\<forall>s \<in> set ss. states num s))"

lemma method_ok_reads: "method_ok num f \<Longrightarrow> method_reads (tl (ast_tokens num 0 f)) f"
  using method_reads_function states_list by (fastforce simp: method_ok_def block_tokens_def)

lemma states_class:
  assumes "\<forall>f. ctor = Some f \<longrightarrow> method_ok num f" and "\<forall>(m, f) \<in> set ms. m \<noteq> ''constructor'' \<and> method_ok num f"
  shows "states num (ClassDeclaration name ctor ms)"
proof -
  let ?C = "map_option (\<lambda>f. tl (ast_tokens num 0 f)) ctor"
  have c: "rel_option method_reads ?C ctor" using assms(1) method_ok_reads by (cases ctor) auto
  have "methods_read (map (\<lambda>(m, f). word_token m # tl (ast_tokens num 0 f)) ms) ms"
    unfolding methods_read_def list_all2_map1 list_all2_same using assms(2) method_ok_reads by fastforce
  from stm_class [OF c this, of name] show ?thesis
    by (cases ctor) (simp_all add: states_def word_token_def is_keyword_def js_keywords_def)
qed

subsection \<open>All trees\<close>

lemma binary_logical: "binary_precedence ''&&'' \<noteq> 0" "binary_precedence ''||'' \<noteq> 0"
  by (simp_all add: binary_precedence_def)

lemma every_tree_read:
  "ok_expr num e \<Longrightarrow> reads num e"
  "ok_stmt num s \<Longrightarrow> states num s"
proof (induction num e and num s rule: ok_expr_ok_stmt.induct)
  case (6 num es)
  then show ?case by (intro reads_array) (auto simp: list_all_iff)
next
  case (7 num ps)
  then show ?case by (intro reads_object) (auto simp: list_all_iff)
next
  case (8 num name ps body)
  then obtain ss where "body = Some (Block ss)" "\<forall>s \<in> set ss. ok_stmt num s"
    by (auto simp: list_all_iff split: option.splits ast.splits)
  then show ?case using 8 by (auto intro!: reads_function)
next
  case (10 num op l r)
  then show ?case using reads_binary [of num l r op] by (simp add: binary_node_def)
next
  case (11 num op l r)
  then show ?case using reads_binary [of num l r op] binary_logical by (auto simp: binary_node_def)
next
  case (14 num e es)
  then show ?case by (intro reads_call) (auto simp: list_all_iff)
next
  case (15 num e name i)
  then show ?case by (cases i) (auto intro: reads_member reads_index)
next
  case (16 num e es)
  then show ?case by (intro reads_new) (auto simp: list_all_iff)
next
  case (17 num rx)
  then show ?case by (cases rx) (auto intro: reads_simple)
next
  case (20 num is_let ds)
  then have "declared_reads num ds" by (fastforce simp: declared_reads_def list_all_iff)
  then show ?case using 20 by (auto intro: states_variables)
next
  case (21 num ss)
  then show ?case by (intro states_block) (auto simp: list_all_iff)
next
  case (22 num t b a)
  then show ?case by (intro states_if) auto
next
  case (24 num i t u b)
  have "init_reads num i"
  proof (cases i)
    case (Some s)
    have "case s of ExpressionStatement e \<Rightarrow> ok_expr num e | VariableDeclaration is_let ds \<Rightarrow>
        ds \<noteq> [] \<and> list_all (\<lambda>(name, i). case i of None \<Rightarrow> True | Some e \<Rightarrow> ok_expr num e) ds | _ \<Rightarrow> False"
      using "24.prems" Some by simp
    then consider (expression) e where "s = ExpressionStatement e" "ok_expr num e"
      | (variables) is_let ds where "s = VariableDeclaration is_let ds" "ds \<noteq> []"
          "list_all (\<lambda>(name, i). case i of None \<Rightarrow> True | Some e \<Rightarrow> ok_expr num e) ds"
      by (cases s) simp_all
    then show ?thesis
    proof cases
      case expression
      then show ?thesis using Some "24.IH"(1) by (auto simp: init_reads_def)
    next
      case variables
      then have "declared_reads num ds" using Some "24.IH"(2)
        by (auto simp: declared_reads_def list_all_iff)
      then show ?thesis using Some variables by (auto simp: init_reads_def)
    qed
  qed (simp add: init_reads_def)
  moreover have "option_reads num t" "option_reads num u" using 24 by (auto simp: option_reads_def)
  ultimately show ?case using 24 by (intro states_for) auto
next
  case (26 num t cs)
  have "case_ok num cb" if "cb \<in> set cs" for cb
  proof -
    obtain c b where cb: "cb = (c, b)" by (cases cb)
    have ok: "case c of None \<Rightarrow> True | Some e \<Rightarrow> ok_expr num e"
      "case b of Block ss \<Rightarrow> list_all (\<lambda>s. ok_stmt num s) ss | _ \<Rightarrow> False"
      using "26.prems" that cb by (auto simp: list_all_iff)
    obtain ss where ss: "b = Block ss" "\<forall>s \<in> set ss. ok_stmt num s" using ok(2) by (cases b) (auto simp: list_all_iff)
    have "option_reads num c" using "26.IH"(2) [OF that cb [symmetric]] ok(1) by (auto simp: option_reads_def)
    moreover have "\<forall>s \<in> set ss. states num s" using "26.IH"(3) [OF that cb [symmetric] ss(1)] ss(2) by blast
    ultimately show ?thesis using cb ss(1) by (auto simp: case_ok_def)
  qed
  then show ?case using 26 by (intro states_switch) auto
next
  case (27 num t)
  then show ?case by (intro states_return) (auto simp: option_reads_def)
next
  case (30 num name ps body is_async)
  then obtain ss where "body = Some (Block ss)" "\<forall>s \<in> set ss. ok_stmt num s"
    by (auto simp: list_all_iff split: option.splits ast.splits)
  then show ?case using 30 by (auto intro!: states_function)
next
  case (31 num name ctor ms)
  let ?ok = "\<lambda>f. case f of FunctionExpression n ps (Some (Block ss)) \<Rightarrow> list_all (\<lambda>s. ok_stmt num s) ss | _ \<Rightarrow> False"
  have f: "\<exists>n ps ss. f = FunctionExpression n ps (Some (Block ss)) \<and> (\<forall>s \<in> set ss. ok_stmt num s)" if ok: "?ok f" for f
  proof -
    obtain n ps body where g: "f = FunctionExpression n ps body" using ok by (cases f) simp_all
    then obtain b where b: "body = Some b" using ok by (cases body) simp_all
    show ?thesis using ok unfolding g b by (cases b) (simp_all add: list_all_iff)
  qed
  have "method_ok num f" if "ctor = Some f" for f
    using f [of f] "31.prems" that "31.IH"(1) by (fastforce simp: method_ok_def)
  moreover have "m \<noteq> ''constructor'' \<and> method_ok num f" if "(m, f) \<in> set ms" for m f
    using f [of f] "31.prems" that "31.IH"(2) by (fastforce simp: method_ok_def list_all_iff)
  ultimately show ?case by (intro states_class) auto
qed (auto intro: reads_simple reads_unary reads_assignment reads_conditional states_expression states_while states_for_of states_jump)


lemma program_loop_statements:
  assumes "\<forall>s \<in> set ss. states num s" and "3 * length (concat (map (\<lambda>s. ast_tokens num 0 s) ss)) + 5 \<le> n"
    and "length (concat (map (\<lambda>s. ast_tokens num 0 s) ss)) < k"
  shows "program_loop k (Q n) acc (S (concat (map (\<lambda>s. ast_tokens num 0 s) ss) @ [new_token EndOfInput []])) =
    Some (acc @ ss, S [new_token EndOfInput []])"
  using assms
proof (induction ss arbitrary: acc k)
  case Nil
  then show ?case by (cases k) auto
next
  case (Cons s ss)
  let ?r = "concat (map (\<lambda>s. ast_tokens num 0 s) ss) @ [new_token EndOfInput []]"
  obtain k' where k: "k = Suc k'" using Cons.prems by (cases k) auto
  have s: "states num s" using Cons.prems(1) by simp
  have e: "\<not> check ''else'' (S ?r)"
  proof (cases ss)
    case (Cons s' ss')
    then have "stmt_start (ast_tokens num 0 s')" using Cons.prems(1) statesD(2) by simp
    then show ?thesis using Cons stmt_startD [of "ast_tokens num 0 s'" _ "''else''"] by auto
  qed (simp add: check_def peek_at_def)
  have "parse_stmt n (S (ast_tokens num 0 s @ ?r)) = Some (s, S ?r)"
    by (rule stmD [OF statesD(1) [OF s]]) (use Cons.prems e in auto)
  moreover have "program_loop k' (Q n) (acc @ [s]) (S ?r) = Some ((acc @ [s]) @ ss, S [new_token EndOfInput []])"
    by (rule Cons.IH) (use Cons.prems k statesD(3) [OF s] in \<open>auto simp: neq_Nil_conv\<close>)
  moreover have "\<not> at_end (S (ast_tokens num 0 s @ ?r))" using stmt_startD [OF statesD(2) [OF s]] by blast
  ultimately show ?case unfolding k by simp
qed

lemma parse_program_tokens:
  assumes "list_all (ok_stmt num) ss"
  shows "parse_program (ast_tokens num 0 (Program ss) @ [new_token EndOfInput []]) = Some (Program ss, [])"
proof -
  let ?T = "concat (map (\<lambda>s. ast_tokens num 0 s) ss)"
  let ?n = "3 * length (?T @ [new_token EndOfInput []]) + 5"
  have "\<forall>s \<in> set ss. states num s" using assms every_tree_read(2) by (auto simp: list_all_iff)
  then have "program_loop ?n (Q ?n) [] (S (?T @ [new_token EndOfInput []])) = Some ([] @ ss, S [new_token EndOfInput []])"
    by (rule program_loop_statements) auto
  then show ?thesis by (simp add: parse_program_def Let_def)
qed

section \<open>Writing the tokens of a tree as text\<close>

text \<open>What the text of a tree needs beyond its grammar, tree by tree: names that are names, numbers that
  are read back as one token, bodies of regular expressions that end where they should; in front of a
  division a token that ends a value, which the keywords \<open>true\<close>, \<open>false\<close>, \<open>null\<close> and
  \<open>undefined\<close> do not for the lexer; and no statement that starts with a regular expression.\<close>

definition word_ok :: "string \<Rightarrow> bool" where
  "word_ok s \<longleftrightarrow> s \<noteq> [] \<and> is_identifier_start (hd s) \<and> list_all is_identifier_part s"

definition name_ok :: "string \<Rightarrow> bool" where
  "name_ok s \<longleftrightarrow> word_ok s \<and> \<not> is_keyword s"

definition regex_text_ok :: "regex \<Rightarrow> bool" where
  "regex_text_ok rx \<longleftrightarrow> rx_source rx \<noteq> [] \<and> hd (rx_source rx) \<noteq> CHR ''*'' \<and>
     regex_body False (rx_source rx @ ''/'') = Some (rx_source rx, []) \<and> list_all isalpha (rx_flags rx)"

definition ends_value :: "js_token list \<Rightarrow> bool" where
  "ends_value ts \<longleftrightarrow> tk_type (last ts) \<noteq> KeywordToken"

fun lexical :: "(fp \<Rightarrow> string) \<Rightarrow> ast \<Rightarrow> bool" where
  "lexical num (NumberLiteral v) = (number_start (num v) \<and> number_span None (num v) = (num v, []))"
| "lexical num (Identifier s) = word_ok s"
| "lexical num (ArrayLiteral es) = list_all (\<lambda>e. lexical num e) es"
| "lexical num (ObjectLiteral ps) = list_all (\<lambda>(k, e). lexical num e) ps"
| "lexical num (FunctionExpression name ps body) =
     ((name = [] \<or> name_ok name) \<and> list_all name_ok ps \<and> (case body of None \<Rightarrow> True | Some b \<Rightarrow> lexical num b))"
| "lexical num (Unary op e) = lexical num e"
| "lexical num (Binary op l r) = ((op = ''/'' \<longrightarrow> ends_value (ast_tokens num 6 l)) \<and> lexical num l \<and> lexical num r)"
| "lexical num (Logical op l r) = (lexical num l \<and> lexical num r)"
| "lexical num (Assignment op l r) = ((op = ''/='' \<longrightarrow> ends_value (ast_tokens num 1 l)) \<and> lexical num l \<and> lexical num r)"
| "lexical num (Conditional c a b) = (lexical num c \<and> lexical num a \<and> lexical num b)"
| "lexical num (Call e es) = (lexical num e \<and> list_all (\<lambda>e. lexical num e) es)"
| "lexical num (Member e name i) = (lexical num e \<and> (case i of None \<Rightarrow> word_ok name | Some x \<Rightarrow> lexical num x))"
| "lexical num (New e es) = (lexical num e \<and> list_all (\<lambda>e. lexical num e) es)"
| "lexical num (RegexLiteral rx) = (case rx of None \<Rightarrow> True | Some rx \<Rightarrow> regex_text_ok rx)"
| "lexical num (ExpressionStatement e) = (tk_type (hd (ast_tokens num 0 e)) \<noteq> RegexToken \<and> lexical num e)"
| "lexical num (VariableDeclaration is_let ds) =
     list_all (\<lambda>(name, i). name_ok name \<and> (case i of None \<Rightarrow> True | Some e \<Rightarrow> lexical num e)) ds"
| "lexical num (Block ss) = list_all (\<lambda>s. lexical num s) ss"
| "lexical num (IfStatement t b a) = (lexical num t \<and> lexical num b \<and> (case a of None \<Rightarrow> True | Some s \<Rightarrow> lexical num s))"
| "lexical num (WhileStatement t b) = (lexical num t \<and> lexical num b)"
| "lexical num (ForStatement i t u b) =
     ((case i of None \<Rightarrow> True | Some s \<Rightarrow> lexical num s) \<and> (case t of None \<Rightarrow> True | Some e \<Rightarrow> lexical num e) \<and>
      (case u of None \<Rightarrow> True | Some e \<Rightarrow> lexical num e) \<and> lexical num b)"
| "lexical num (ForOfStatement name e b) = (name_ok name \<and> lexical num e \<and> lexical num b)"
| "lexical num (SwitchStatement t cs) =
     (lexical num t \<and> list_all (\<lambda>(c, b). (case c of None \<Rightarrow> True | Some e \<Rightarrow> lexical num e) \<and> lexical num b) cs)"
| "lexical num (ReturnStatement e) = (case e of None \<Rightarrow> True | Some e \<Rightarrow> lexical num e)"
| "lexical num (FunctionDeclaration name ps body is_async) =
     (name_ok name \<and> list_all name_ok ps \<and> (case body of None \<Rightarrow> True | Some b \<Rightarrow> lexical num b))"
| "lexical num (ClassDeclaration name ctor ms) =
     (name_ok name \<and> (case ctor of None \<Rightarrow> True | Some f \<Rightarrow> lexical num f) \<and>
      list_all (\<lambda>(m, f). word_ok m \<and> lexical num f) ms)"
| "lexical num _ = True"

text \<open>A token that may stand anywhere; only slashes and regular expressions may not.\<close>

definition harmless :: "js_token \<Rightarrow> bool" where
  "harmless t \<longleftrightarrow> (\<forall>previous. token_ok previous t)"

lemma harmlessD [simp]: "harmless t \<Longrightarrow> token_ok previous t" by (simp add: harmless_def)

lemma harmless_punctuator: "s \<in> set punctuators \<Longrightarrow> hd s \<noteq> CHR ''/'' \<Longrightarrow> harmless (pt s)"
  by (simp add: harmless_def token_ok_def)

lemma harmless_word: "word_ok s \<Longrightarrow> harmless (word_token s)"
  by (auto simp: harmless_def token_ok_def word_ok_def word_token_def new_token_def)

lemma harmless_name: "name_ok s \<Longrightarrow> harmless (idt s)"
  using harmless_word [of s] by (simp add: name_ok_def word_token_def)

lemma harmless_keyword: "is_keyword s \<Longrightarrow> word_ok s \<Longrightarrow> harmless (kw s)"
  using harmless_word [of s] by (simp add: word_token_def)

lemma harmless_string [simp]: "harmless (new_token StringToken s)"
  by (simp add: harmless_def token_ok_def)

lemma harmless_number: "number_start s \<Longrightarrow> number_span None s = (s, []) \<Longrightarrow> harmless (number_token s)"
  by (simp add: harmless_def token_ok_def number_token_def new_token_def)

lemma harmless_puncts [simp]:
  "harmless (pt ''('')" "harmless (pt '')'')" "harmless (pt ''['')" "harmless (pt '']'')" "harmless (pt ''{'')" "harmless (pt ''}'')"
  "harmless (pt '','')" "harmless (pt '';'')" "harmless (pt '':'')" "harmless (pt ''.'')" "harmless (pt ''?'')" "harmless (pt ''='')"
  by (rule harmless_punctuator; simp add: punctuators_def)+

lemma harmless_keywords [simp]:
  "harmless (kw ''true'')" "harmless (kw ''false'')" "harmless (kw ''null'')" "harmless (kw ''function'')" "harmless (kw ''new'')"
  "harmless (kw ''let'')" "harmless (kw ''var'')" "harmless (kw ''if'')" "harmless (kw ''else'')" "harmless (kw ''while'')"
  "harmless (kw ''for'')" "harmless (kw ''of'')" "harmless (kw ''switch'')" "harmless (kw ''case'')" "harmless (kw ''default'')"
  "harmless (kw ''return'')" "harmless (kw ''break'')" "harmless (kw ''continue'')" "harmless (kw ''async'')" "harmless (kw ''class'')"
  "harmless (idt ''constructor'')"
  by (rule harmless_keyword harmless_name; code_simp)+

lemma value_expected_simps [simp]:
  "value_expected None" "value_expected (Some (kw s))"
  "value_expected (Some (pt s)) \<longleftrightarrow> s \<notin> {'')'', '']'', ''}''}"
  by (simp_all add: value_expected_def)

definition after :: "js_token option \<Rightarrow> js_token list \<Rightarrow> js_token option" where
  "after previous ts = (if ts = [] then previous else Some (last ts))"

lemma tokens_ok_append: "tokens_ok previous (A @ B) \<longleftrightarrow> tokens_ok previous A \<and> tokens_ok (after previous A) B"
  by (induction A arbitrary: previous) (auto simp: after_def)

lemma tokens_ok_harmless [simp]:
  "harmless t \<Longrightarrow> tokens_ok previous (A @ t # B) \<longleftrightarrow> tokens_ok previous A \<and> tokens_ok (Some t) B"
  by (simp add: tokens_ok_append)

text \<open>Tokens that may stand anywhere, and tokens that may stand where a value is expected.\<close>

definition anywhere :: "js_token list \<Rightarrow> bool" where
  "anywhere ts \<longleftrightarrow> (\<forall>previous. tokens_ok previous ts)"

definition at_value :: "js_token list \<Rightarrow> bool" where
  "at_value ts \<longleftrightarrow> (\<forall>previous. value_expected previous \<longrightarrow> tokens_ok previous ts)"

lemma anywhereD: "anywhere ts \<Longrightarrow> tokens_ok previous ts" by (simp add: anywhere_def)

lemma at_valueD: "at_value ts \<Longrightarrow> value_expected previous \<Longrightarrow> tokens_ok previous ts" by (simp add: at_value_def)

lemma anywhere_at_value: "anywhere ts \<Longrightarrow> at_value ts" by (simp add: anywhere_def at_value_def)

lemma anywhere_append: "anywhere A \<Longrightarrow> anywhere B \<Longrightarrow> anywhere (A @ B)"
  by (simp add: anywhere_def tokens_ok_append)

lemma anywhere_concat: "\<forall>T \<in> set Ts. anywhere T \<Longrightarrow> anywhere (concat Ts)"
  by (induction Ts) (simp_all add: anywhere_append, simp add: anywhere_def)

lemma commas_ok: "\<forall>T \<in> set Ts. at_value T \<Longrightarrow> at_value (commas Ts)"
proof (induction Ts rule: commas.induct)
  case (3 t u ts)
  then have "at_value (commas (u # ts))" "at_value t" by simp_all
  then show ?case by (simp add: at_value_def)
qed (simp_all add: at_value_def)

text \<open>An expression may stand where a value is expected, and anywhere when it does not start with a regular
  expression.\<close>

definition writes :: "(fp \<Rightarrow> string) \<Rightarrow> ast \<Rightarrow> bool" where
  "writes num e \<longleftrightarrow> (\<forall>p. at_value (ast_tokens num p e) \<and>
     (tk_type (hd (ast_tokens num p e)) \<noteq> RegexToken \<longrightarrow> anywhere (ast_tokens num p e)))"

lemma writesD: "writes num e \<Longrightarrow> at_value (ast_tokens num p e)" by (simp add: writes_def)

lemma writes_anywhere: "(\<And>p. anywhere (ast_tokens num p e)) \<Longrightarrow> writes num e"
  by (simp add: writes_def anywhere_at_value)

text \<open>What starts with the tokens of an operand.\<close>

lemma starts_operand:
  assumes "writes num e" and "ast_tokens num p e \<noteq> []"
    and "\<And>previous. tokens_ok previous (ast_tokens num p e) \<Longrightarrow> tokens_ok previous (ast_tokens num p e @ B)"
  shows "at_value (ast_tokens num p e @ B) \<and>
    (tk_type (hd (ast_tokens num p e @ B)) \<noteq> RegexToken \<longrightarrow> anywhere (ast_tokens num p e @ B))"
  using assms by (simp add: writes_def at_value_def anywhere_def)

lemma writes_parens:
  assumes "at_value T" and "tk_type (hd T) \<noteq> RegexToken \<longrightarrow> anywhere T"
  shows "at_value (parens b T) \<and> (tk_type (hd (parens b T)) \<noteq> RegexToken \<longrightarrow> anywhere (parens b T))"
  using assms by (simp add: parens_def at_value_def anywhere_def)

lemma writes_simple:
  "strto_value double (num v) = v \<Longrightarrow> lexical num (NumberLiteral v) \<Longrightarrow> writes num (NumberLiteral v)"
  "writes num (StringLiteral s)" "writes num (BooleanLiteral b)" "writes num NullLiteral"
  "lexical num (Identifier s) \<Longrightarrow> writes num (Identifier s)"
  by (auto intro!: writes_anywhere simp: anywhere_def harmless_number harmless_word)

lemma writes_regex:
  assumes "lexical num (RegexLiteral (Some rx))"
  shows "writes num (RegexLiteral (Some rx))"
  using assms by (simp add: writes_def at_value_def token_ok_def regex_text_ok_def new_token_def)

lemma list_at_value: "\<forall>e \<in> set es. writes num e \<Longrightarrow> \<forall>T \<in> set (map (\<lambda>e. ast_tokens num 0 e) es). at_value T"
  by (auto dest: writesD)

lemma writes_array: "\<forall>e \<in> set es. writes num e \<Longrightarrow> writes num (ArrayLiteral es)"
  using commas_ok [OF list_at_value] by (intro writes_anywhere) (simp add: anywhere_def at_valueD)

lemma writes_object:
  assumes "\<forall>(k, e) \<in> set ps. writes num e"
  shows "writes num (ObjectLiteral ps)"
proof -
  have "\<forall>T \<in> set (map (\<lambda>(k, e). new_token StringToken k # pt '':'' # ast_tokens num 0 e) ps). at_value T"
    using assms at_valueD [OF writesD] by (auto simp: at_value_def)
  from commas_ok [OF this] show ?thesis by (intro writes_anywhere) (simp add: anywhere_def at_valueD)
qed

lemma parameters_anywhere: "list_all name_ok ps \<Longrightarrow> tokens_ok previous (parameter_tokens ps @ B) = tokens_ok (Some (pt '')'')) B"
proof -
  assume "list_all name_ok ps"
  then have "\<forall>T \<in> set (map (\<lambda>p. [idt p]) ps). at_value T" by (auto simp: at_value_def list_all_iff harmless_name)
  from commas_ok [OF this] show ?thesis by (simp add: parameter_tokens_def at_valueD)
qed

lemma function_anywhere:
  assumes "name = [] \<or> name_ok name" and "list_all name_ok ps" and "anywhere B"
  shows "anywhere (name_tokens name @ parameter_tokens ps @ B)"
  using assms parameters_anywhere [OF assms(2)] by (auto simp: anywhere_def name_tokens_def harmless_name)

lemma anywhere_harmless: "harmless t \<Longrightarrow> anywhere B \<Longrightarrow> anywhere (t # B)" by (simp add: anywhere_def)

lemma block_anywhere: "\<forall>s \<in> set ss. anywhere (ast_tokens num 0 s) \<Longrightarrow> anywhere (ast_tokens num p (Block ss))"
proof -
  assume "\<forall>s \<in> set ss. anywhere (ast_tokens num 0 s)"
  then have "anywhere (concat (map (\<lambda>s. ast_tokens num 0 s) ss))" by (intro anywhere_concat) simp
  then show ?thesis by (simp add: anywhere_def)
qed

lemma writes_function:
  "name = [] \<or> name_ok name \<Longrightarrow> list_all name_ok ps \<Longrightarrow> anywhere (ast_tokens num 0 b) \<Longrightarrow>
    writes num (FunctionExpression name ps (Some b))"
  by (intro writes_anywhere) (simp add: anywhere_harmless function_anywhere)

lemma operator_harmless:
  "op \<in> set unary_operators \<Longrightarrow> harmless (operator_token op)"
  "op \<in> set binary_operators \<Longrightarrow> op \<noteq> ''/'' \<Longrightarrow> harmless (operator_token op)"
  "op \<in> set assignment_operators \<Longrightarrow> op \<noteq> ''/='' \<Longrightarrow> harmless (pt op)"
proof -
  have u: "list_all (\<lambda>op. if is_keyword op then word_ok op else op \<in> set punctuators \<and> hd op \<noteq> CHR ''/'') unary_operators"
    "list_all (\<lambda>op. op = ''/'' \<or> (if is_keyword op then word_ok op else op \<in> set punctuators \<and> hd op \<noteq> CHR ''/'')) binary_operators"
    "list_all (\<lambda>op. op = ''/='' \<or> op \<in> set punctuators \<and> hd op \<noteq> CHR ''/'') assignment_operators"
    by code_simp+
  show "op \<in> set unary_operators \<Longrightarrow> harmless (operator_token op)"
    "op \<in> set binary_operators \<Longrightarrow> op \<noteq> ''/'' \<Longrightarrow> harmless (operator_token op)"
    "op \<in> set assignment_operators \<Longrightarrow> op \<noteq> ''/='' \<Longrightarrow> harmless (pt op)"
    using u harmless_keyword [of op] harmless_punctuator [of op]
    by (auto simp: list_all_iff operator_token_def split: if_splits dest!: bspec)
qed

lemma operator_value: "op \<in> set unary_operators \<or> op \<in> set binary_operators \<Longrightarrow> value_expected (Some (operator_token op))"
  "op \<in> set assignment_operators \<Longrightarrow> value_expected (Some (pt op))"
  by (auto simp: operator_token_def unary_operators_def binary_operators_def assignment_operators_def)

text \<open>An expression ends with a token that ends a value for the lexer, or with a keyword.\<close>

definition closes :: "js_token list \<Rightarrow> bool" where
  "closes ts \<longleftrightarrow> tk_type (last ts) = KeywordToken \<or> \<not> value_expected (Some (last ts))"

lemma closes_simps [simp]:
  "closes (A @ [pt '')''])" "closes (A @ [pt '']''])" "closes (A @ [pt ''}''])" "closes (A @ [word_token s])"
  "closes [word_token s]" "closes [pt '')'']"
  "B \<noteq> [] \<Longrightarrow> closes (A @ B) = closes B" "B \<noteq> [] \<Longrightarrow> closes (t # B) = closes B"
  by (simp_all add: closes_def value_expected_def word_token_def)

lemma closes_parens: "T \<noteq> [] \<Longrightarrow> closes T \<Longrightarrow> closes (parens b T)"
  by (simp add: parens_def)

lemma expr_nonempty [simp]: "ok_expr num e \<Longrightarrow> ast_tokens num p e \<noteq> []"
  using expr_start_nonempty [OF readsD(2) [OF every_tree_read(1)]] .

lemma every_expression_closes: "ok_expr num e \<Longrightarrow> closes (ast_tokens num p e)" and "ok_stmt num s \<Longrightarrow> True"
proof (induction num e and num s arbitrary: p rule: ok_expr_ok_stmt.induct)
  case (1 num v)
  then show ?case by (simp add: closes_def value_expected_def)
next
  case (2 num s)
  then show ?case by (simp add: closes_def value_expected_def)
next
  case (8 num name ps body)
  then obtain ss where "body = Some (Block ss)" by (auto split: option.splits ast.splits)
  then show ?case by simp
next
  case (15 num e name i)
  then show ?case by (cases i) (auto intro!: closes_parens)
next
  case (17 num rx)
  then show ?case by (cases rx) (simp_all add: closes_def value_expected_def new_token_def)
qed (auto intro!: closes_parens simp: closes_def [of "[kw _]"])

lemma slash_ok: "ok_expr num l \<Longrightarrow> ends_value (ast_tokens num p l) \<Longrightarrow> s \<in> {''/'', ''/=''} \<Longrightarrow> token_ok (Some (last (ast_tokens num p l))) (pt s)"
  using every_expression_closes [of num l p] by (auto simp: closes_def ends_value_def token_ok_def punctuators_def)

lemma writes_unary:
  assumes "op \<in> set unary_operators" and "writes num e"
  shows "writes num (Unary op e)"
proof (rule writes_anywhere)
  have "anywhere (operator_token op # ast_tokens num 7 e)"
    using at_valueD [OF writesD [OF assms(2)]] operator_harmless(1) [OF assms(1)] operator_value(1) [of op] assms(1)
    by (simp add: anywhere_def)
  then show "anywhere (ast_tokens num p (Unary op e))" for p by (simp add: parens_def anywhere_def)
qed

text \<open>An operand, an operator and another operand.\<close>

lemma writes_infix:
  fixes p q :: nat and l r :: ast
  assumes "ok_expr num l" and "writes num l" and "writes num r" and "value_expected (Some t)"
    and "token_ok (Some (last (ast_tokens num p l))) t"
  defines "T \<equiv> ast_tokens num p l @ t # ast_tokens num q r"
  shows "at_value (parens b T) \<and> (tk_type (hd (parens b T)) \<noteq> RegexToken \<longrightarrow> anywhere (parens b T))"
proof -
  have "at_value T \<and> (tk_type (hd T) \<noteq> RegexToken \<longrightarrow> anywhere T)"
    unfolding T_def
  proof (rule starts_operand [OF assms(2)])
    fix previous
    assume "tokens_ok previous (ast_tokens num p l)"
    then show "tokens_ok previous (ast_tokens num p l @ t # ast_tokens num q r)"
      using assms(1,4,5) at_valueD [OF writesD [OF assms(3)]] by (simp add: tokens_ok_append after_def)
  qed (use assms(1) in simp)
  then show ?thesis by (intro writes_parens) simp_all
qed

lemma writes_binary:
  assumes "op \<in> set binary_operators" and "op = ''/'' \<Longrightarrow> ends_value (ast_tokens num 6 l)"
    and "ok_expr num l" and "writes num l" and "writes num r"
  shows "writes num (Binary op l r)" "writes num (Logical op l r)"
proof -
  have "token_ok (Some (last (ast_tokens num (binary_precedence op) l))) (operator_token op)"
  proof (cases "op = ''/''")
    case True
    then have "binary_precedence op = 6" "operator_token op = pt ''/''"
      by (simp_all add: binary_precedence_def operator_token_def is_keyword_def js_keywords_def)
    then show ?thesis using slash_ok [OF assms(3) assms(2)] True by simp
  next
    case False
    then show ?thesis using operator_harmless(2) [OF assms(1)] by simp
  qed
  from writes_infix [OF assms(3-5) operator_value(1) this] assms(1)
  show "writes num (Binary op l r)" "writes num (Logical op l r)" by (simp_all add: writes_def)
qed

lemma writes_assignment:
  assumes "op \<in> set assignment_operators" and "op = ''/='' \<Longrightarrow> ends_value (ast_tokens num 1 l)"
    and "ok_expr num l" and "writes num l" and "writes num r"
  shows "writes num (Assignment op l r)"
proof -
  have "token_ok (Some (last (ast_tokens num 1 l))) (pt op)"
    using slash_ok [OF assms(3) assms(2)] operator_harmless(3) [OF assms(1)] by (cases "op = ''/=''") simp_all
  from writes_infix [OF assms(3-5) operator_value(2) [OF assms(1)] this] show ?thesis by (simp add: writes_def)
qed

text \<open>An operand and tokens that start with a harmless one.\<close>

lemma writes_postfix:
  assumes "ok_expr num e" and "writes num e" and "harmless t" and "tokens_ok (Some t) B"
  shows "at_value (parens b (ast_tokens num p e @ t # B)) \<and>
    (tk_type (hd (parens b (ast_tokens num p e @ t # B))) \<noteq> RegexToken \<longrightarrow> anywhere (parens b (ast_tokens num p e @ t # B)))"
  using starts_operand [OF assms(2), of p "t # B"] assms(1,3,4) by (intro writes_parens) simp_all

lemma arguments_ok: "\<forall>e \<in> set es. writes num e \<Longrightarrow> value_expected previous \<Longrightarrow>
    tokens_ok previous (commas (map (\<lambda>e. ast_tokens num 0 e) es) @ [pt '')''])"
  using at_valueD [OF commas_ok [OF list_at_value]] by simp

lemma writes_operands:
  assumes "ok_expr num e" and "writes num e"
  shows "writes num a \<Longrightarrow> writes num b \<Longrightarrow> writes num (Conditional e a b)"
    and "\<forall>e \<in> set es. writes num e \<Longrightarrow> writes num (Call e es)"
    and "word_ok name \<Longrightarrow> writes num (Member e name None)"
    and "writes num i \<Longrightarrow> writes num (Member e name (Some i))"
    and "\<forall>e \<in> set es. writes num e \<Longrightarrow> writes num (New e es)"
proof -
  note post = writes_postfix [OF assms]
  show "writes num (Conditional e a b)" if "writes num a" "writes num b"
  proof -
    have "tokens_ok (Some (pt ''?'')) (ast_tokens num 0 a @ pt '':'' # ast_tokens num 0 b)"
      using at_valueD [OF writesD [OF that(1)]] at_valueD [OF writesD [OF that(2)]] by simp
    from post [OF _ this] show ?thesis by (simp add: writes_def)
  qed
  show "writes num (Call e es)" if "\<forall>e \<in> set es. writes num e"
    using post [OF _ arguments_ok [OF that]] by (simp add: writes_def)
  show "writes num (Member e name None)" if "word_ok name"
    using post [of "pt ''.''" "[word_token name]"] that by (simp add: writes_def harmless_word)
  show "writes num (Member e name (Some i))" if "writes num i"
    using post [of "pt ''[''" "ast_tokens num 0 i @ [pt '']'']"] at_valueD [OF writesD [OF that]] by (simp add: writes_def)
  show "writes num (New e es)" if "\<forall>e \<in> set es. writes num e"
    using arguments_ok [OF that] at_valueD [OF writesD [OF assms(2)]]
    by (intro writes_anywhere) (simp add: anywhere_def parens_def)
qed

subsection \<open>Statements\<close>

abbreviation spells :: "(fp \<Rightarrow> string) \<Rightarrow> ast \<Rightarrow> bool" where
  "spells num s \<equiv> anywhere (ast_tokens num 0 s)"

lemmas value_tokens = at_valueD [OF writesD]

lemma anywhere_tokens [simp]: "anywhere A \<Longrightarrow> tokens_ok previous A" "anywhere A \<Longrightarrow> tokens_ok previous (A @ B) = tokens_ok (after previous A) B"
  by (simp_all add: anywhere_def tokens_ok_append)

lemma spells_expression: "writes num e \<Longrightarrow> tk_type (hd (ast_tokens num 0 e)) \<noteq> RegexToken \<Longrightarrow> spells num (ExpressionStatement e)"
  by (auto simp: writes_def anywhere_def parens_def Let_def)

definition declares :: "(fp \<Rightarrow> string) \<Rightarrow> (string \<times> ast option) list \<Rightarrow> bool" where
  "declares num ds \<longleftrightarrow> (\<forall>(name, i) \<in> set ds. name_ok name \<and> (case i of None \<Rightarrow> True | Some e \<Rightarrow> writes num e))"

lemma spells_variables:
  assumes "declares num ds"
  shows "spells num (VariableDeclaration is_let ds)"
proof -
  have "at_value (idt name # (case i of None \<Rightarrow> [] | Some e \<Rightarrow> pt ''='' # ast_tokens num 0 e))" if "(name, i) \<in> set ds" for name i
    using assms that by (auto simp: declares_def at_value_def harmless_name value_tokens split: option.splits)
  then have "\<forall>T \<in> set (map (\<lambda>(name, i). idt name # (case i of None \<Rightarrow> [] | Some e \<Rightarrow> pt ''='' # ast_tokens num 0 e)) ds). at_value T"
    by auto
  from at_valueD [OF commas_ok [OF this]] show ?thesis by (auto simp: anywhere_def)
qed

definition opt_writes :: "(fp \<Rightarrow> string) \<Rightarrow> ast option \<Rightarrow> bool" where
  "opt_writes num i \<longleftrightarrow> (case i of None \<Rightarrow> True | Some e \<Rightarrow> writes num e)"

lemma opt_value: "opt_writes num i \<Longrightarrow> value_expected previous \<Longrightarrow>
    tokens_ok previous (case i of None \<Rightarrow> [] | Some e \<Rightarrow> ast_tokens num 0 e)"
  by (auto simp: opt_writes_def value_tokens split: option.split)

lemma spells_control:
  assumes "writes num t" and "spells num b"
  shows "spells num (IfStatement t b None)" and "spells num a \<Longrightarrow> spells num (IfStatement t b (Some a))"
    and "spells num (WhileStatement t b)" and "name_ok name \<Longrightarrow> spells num (ForOfStatement name t b)"
  using assms by (simp_all add: anywhere_def value_tokens harmless_name)

lemma spells_return: "opt_writes num t \<Longrightarrow> spells num (ReturnStatement t)"
  using opt_value [of num t "Some (kw ''return'')"] by (simp add: anywhere_def)

definition init_writes :: "(fp \<Rightarrow> string) \<Rightarrow> ast option \<Rightarrow> bool" where
  "init_writes num i \<longleftrightarrow> (case i of None \<Rightarrow> True | Some (ExpressionStatement e) \<Rightarrow> writes num e
     | Some (VariableDeclaration is_let ds) \<Rightarrow> declares num ds | _ \<Rightarrow> False)"

lemma declared_tokens_end: "\<exists>A. ast_tokens num p (VariableDeclaration is_let ds) = A @ [pt '';'']"
  by simp

lemma init_ok: "init_writes num i \<Longrightarrow> tokens_ok (Some (pt ''('')) (init_tokens num i @ B) \<longleftrightarrow> tokens_ok (Some (pt '';'')) B"
proof (cases i)
  case (Some s)
  assume i: "init_writes num i"
  show ?thesis
  proof (cases s)
    case (VariableDeclaration is_let ds)
    then have "declares num ds" using i Some by (simp add: init_writes_def)
    from anywhereD [OF spells_variables [OF this]] show ?thesis
      unfolding init_tokens_def Some VariableDeclaration option.case ast.case
      using declared_tokens_end [of num 0 is_let ds] by (auto simp: tokens_ok_append after_def simp del: ast_tokens.simps)
  next
    case (ExpressionStatement e)
    then show ?thesis using i Some by (simp add: init_writes_def init_tokens_def value_tokens)
  qed (use i Some in \<open>simp_all add: init_writes_def\<close>)
qed (simp add: init_tokens_def)

lemma spells_for:
  assumes "init_writes num i" and "opt_writes num t" and "opt_writes num u" and "spells num b"
  shows "spells num (ForStatement i t u b)"
proof -
  let ?rest = "(case t of None \<Rightarrow> [] | Some e \<Rightarrow> ast_tokens num 0 e) @ pt '';'' #
       (case u of None \<Rightarrow> [] | Some e \<Rightarrow> ast_tokens num 0 e) @ pt '')'' # ast_tokens num 0 b"
  have tokens: "ast_tokens num 0 (ForStatement i t u b) = kw ''for'' # pt ''('' # init_tokens num i @ ?rest"
    by (simp add: init_tokens_def)
  have "tokens_ok (Some (pt '';'')) ?rest" using opt_value assms(2-4) by simp
  then have "tokens_ok (Some (pt ''('')) (init_tokens num i @ ?rest)" using init_ok [OF assms(1)] by simp
  then show ?thesis unfolding tokens by (simp only: anywhere_def tokens_ok.simps harmlessD harmless_keywords harmless_puncts simp_thms)
qed

lemma spells_switch:
  assumes "writes num t" and "\<forall>(c, b) \<in> set cs. opt_writes num c \<and> (\<exists>ss. b = Block ss \<and> (\<forall>s \<in> set ss. spells num s))"
  shows "spells num (SwitchStatement t cs)"
proof -
  have "anywhere ((case c of None \<Rightarrow> [kw ''default''] | Some e \<Rightarrow> kw ''case'' # ast_tokens num 0 e) @
          pt '':'' # (case b of Block ss \<Rightarrow> concat (map (\<lambda>s. ast_tokens num 0 s) ss) | _ \<Rightarrow> []))" if cb: "(c, b) \<in> set cs" for c b
  proof -
    obtain ss where b: "b = Block ss" "\<forall>s \<in> set ss. spells num s" and c: "opt_writes num c" using assms(2) cb by blast
    have "anywhere (concat (map (\<lambda>s. ast_tokens num 0 s) ss))" using b(2) by (intro anywhere_concat) simp
    then show ?thesis using c b(1) by (auto simp: anywhere_def opt_writes_def value_tokens split: option.splits)
  qed
  then have "anywhere (concat (map (\<lambda>(c, b). (case c of None \<Rightarrow> [kw ''default''] | Some e \<Rightarrow> kw ''case'' # ast_tokens num 0 e) @
          pt '':'' # (case b of Block ss \<Rightarrow> concat (map (\<lambda>s. ast_tokens num 0 s) ss) | _ \<Rightarrow> [])) cs))"
    by (intro anywhere_concat) auto
  then show ?thesis using assms(1) by (simp add: anywhere_def value_tokens)
qed

lemma spells_function: "name_ok name \<Longrightarrow> list_all name_ok ps \<Longrightarrow> spells num b \<Longrightarrow>
    spells num (FunctionDeclaration name ps (Some b) is_async)"
  using parameters_anywhere [of ps _ "ast_tokens num 0 b"] by (simp add: anywhere_def harmless_name)

text \<open>A method is a function without its first keyword.\<close>

definition method_spells :: "(fp \<Rightarrow> string) \<Rightarrow> ast \<Rightarrow> bool" where
  "method_spells num f \<longleftrightarrow> anywhere (tl (ast_tokens num 0 f))"

lemma method_function: "name = [] \<or> name_ok name \<Longrightarrow> list_all name_ok ps \<Longrightarrow> spells num b \<Longrightarrow>
    method_spells num (FunctionExpression name ps (Some b))"
  by (simp add: method_spells_def function_anywhere)

lemma spells_class:
  assumes "name_ok name" and "\<And>f. ctor = Some f \<Longrightarrow> method_spells num f"
    and "\<And>m f. (m, f) \<in> set ms \<Longrightarrow> word_ok m \<and> method_spells num f"
  shows "spells num (ClassDeclaration name ctor ms)"
proof -
  have "anywhere (concat (map (\<lambda>(m, f). word_token m # tl (ast_tokens num 0 f)) ms))"
    using assms(3) by (intro anywhere_concat) (auto simp: method_spells_def anywhere_harmless harmless_word)
  moreover have "anywhere (case ctor of None \<Rightarrow> [] | Some f \<Rightarrow> idt ''constructor'' # tl (ast_tokens num 0 f))"
    using assms(2) by (auto simp: method_spells_def anywhere_harmless anywhere_def split: option.split)
  ultimately show ?thesis using assms(1) by (simp add: anywhere_def harmless_name tokens_ok_append)
qed

lemma every_tree_written:
  "ok_expr num e \<Longrightarrow> lexical num e \<Longrightarrow> writes num e"
  "ok_stmt num s \<Longrightarrow> lexical num s \<Longrightarrow> spells num s"
proof (induction num e and num s rule: ok_expr_ok_stmt.induct)
  case (6 num es)
  then show ?case by (intro writes_array) (auto simp: list_all_iff)
next
  case (7 num ps)
  then show ?case by (intro writes_object) (fastforce simp: list_all_iff)
next
  case (8 num name ps body)
  then obtain ss where ss: "body = Some (Block ss)" "\<forall>s \<in> set ss. ok_stmt num s"
    by (auto simp: list_all_iff split: option.splits ast.splits)
  then have "\<forall>s \<in> set ss. spells num s" using 8 by (auto simp: list_all_iff)
  then show ?case using ss 8 by (auto intro!: writes_function block_anywhere)
next
  case (9 num op e)
  then show ?case by (intro writes_unary) auto
next
  case (10 num op l r)
  then show ?case by (intro writes_binary(1)) (auto simp: binary_operators_iff [symmetric])
next
  case (11 num op l r)
  then show ?case by (intro writes_binary(2)) (auto simp: binary_operators_def)
next
  case (12 num op l r)
  then show ?case by (intro writes_assignment) auto
next
  case (13 num c a b)
  then show ?case by (intro writes_operands(1)) auto
next
  case (14 num e es)
  then show ?case by (intro writes_operands(2)) (auto simp: list_all_iff)
next
  case (15 num e name i)
  then show ?case by (cases i) (auto intro: writes_operands(3,4))
next
  case (16 num e es)
  then show ?case by (intro writes_operands(5)) (auto simp: list_all_iff)
next
  case (17 num rx)
  then show ?case by (cases rx) (auto intro: writes_regex)
next
  case (19 num e)
  then show ?case by (intro spells_expression) auto
next
  case (20 num is_let ds)
  then have "declares num ds" by (fastforce simp: declares_def list_all_iff split: option.splits)
  then show ?case by (rule spells_variables)
next
  case (21 num ss)
  then show ?case by (intro block_anywhere) (auto simp: list_all_iff)
next
  case (22 num t b a)
  then have "writes num t" "spells num b" by simp_all
  then show ?case using 22 spells_control(1,2) [of num t b] by (cases a) simp_all
next
  case (23 num t b)
  then show ?case by (intro spells_control(3)) auto
next
  case (25 num name e b)
  then show ?case by (intro spells_control(4)) auto
next
  case (24 num i t u b)
  have "init_writes num i"
  proof (cases i)
    case (Some s)
    have "case s of ExpressionStatement e \<Rightarrow> ok_expr num e | VariableDeclaration is_let ds \<Rightarrow>
        ds \<noteq> [] \<and> list_all (\<lambda>(name, i). case i of None \<Rightarrow> True | Some e \<Rightarrow> ok_expr num e) ds | _ \<Rightarrow> False"
      using "24.prems"(1) Some by simp
    then consider (expression) e where "s = ExpressionStatement e" "ok_expr num e"
      | (variables) is_let ds where "s = VariableDeclaration is_let ds"
          "list_all (\<lambda>(name, i). case i of None \<Rightarrow> True | Some e \<Rightarrow> ok_expr num e) ds"
      by (cases s) simp_all
    then show ?thesis
    proof cases
      case expression
      then show ?thesis using Some "24.IH"(1) "24.prems"(2) by (auto simp: init_writes_def)
    next
      case variables
      then have "declares num ds" using Some "24.IH"(2) "24.prems"(2)
        by (fastforce simp: declares_def list_all_iff split: option.splits)
      then show ?thesis using Some variables by (auto simp: init_writes_def)
    qed
  qed (simp add: init_writes_def)
  moreover have "opt_writes num t" "opt_writes num u" using 24 by (auto simp: opt_writes_def split: option.split)
  ultimately show ?case using 24 by (intro spells_for) auto
next
  case (26 num t cs)
  have "opt_writes num c \<and> (\<exists>ss. b = Block ss \<and> (\<forall>s \<in> set ss. spells num s))" if cb: "(c, b) \<in> set cs" for c b
  proof -
    have ok: "case c of None \<Rightarrow> True | Some e \<Rightarrow> ok_expr num e" "case b of Block ss \<Rightarrow> list_all (\<lambda>s. ok_stmt num s) ss | _ \<Rightarrow> False"
      and lex: "case c of None \<Rightarrow> True | Some e \<Rightarrow> lexical num e" "lexical num b"
      using "26.prems" cb by (auto simp: list_all_iff)
    obtain ss where ss: "b = Block ss" "\<forall>s \<in> set ss. ok_stmt num s" using ok(2) by (cases b) (auto simp: list_all_iff)
    have "opt_writes num c" using "26.IH"(2) [OF cb refl] ok(1) lex(1) by (auto simp: opt_writes_def split: option.splits)
    moreover have "\<forall>s \<in> set ss. spells num s"
      using "26.IH"(3) [OF cb refl ss(1)] ss lex(2) by (auto simp: list_all_iff)
    ultimately show ?thesis using ss(1) by blast
  qed
  then show ?case using 26 by (intro spells_switch) auto
next
  case (27 num t)
  then show ?case by (intro spells_return) (auto simp: opt_writes_def split: option.split)
next
  case (28 num)
  show ?case by (simp add: anywhere_def)
next
  case (29 num)
  show ?case by (simp add: anywhere_def)
next
  case (30 num name ps body is_async)
  then obtain ss where ss: "body = Some (Block ss)" "\<forall>s \<in> set ss. ok_stmt num s"
    by (auto simp: list_all_iff split: option.splits ast.splits)
  then have "\<forall>s \<in> set ss. spells num s" using 30 by (auto simp: list_all_iff)
  then have "spells num (Block ss)" by (rule block_anywhere)
  moreover have "name_ok name" "list_all name_ok ps" using 30 by simp_all
  ultimately show ?case unfolding ss(1) using spells_function by blast
next
  case (31 num name ctor ms)
  let ?ok = "\<lambda>f. case f of FunctionExpression n ps (Some (Block ss)) \<Rightarrow> list_all (\<lambda>s. ok_stmt num s) ss | _ \<Rightarrow> False"
  have f: "\<exists>n ps ss. f = FunctionExpression n ps (Some (Block ss)) \<and> (\<forall>s \<in> set ss. ok_stmt num s)" if ok: "?ok f" for f
  proof -
    obtain n ps body where g: "f = FunctionExpression n ps body" using ok by (cases f) simp_all
    then obtain b where b: "body = Some b" using ok by (cases body) simp_all
    show ?thesis using ok unfolding g b by (cases b) (simp_all add: list_all_iff)
  qed
  have "method_spells num f" if c: "ctor = Some f" for f
  proof -
    have "?ok f" using "31.prems"(1) c by simp
    then obtain n ps ss where g: "f = FunctionExpression n ps (Some (Block ss))" "\<forall>s \<in> set ss. ok_stmt num s" using f by blast
    then have l: "n = [] \<or> name_ok n" "list_all name_ok ps" "\<forall>s \<in> set ss. lexical num s"
      using "31.prems"(2) c by (auto simp: list_all_iff)
    have "\<forall>s \<in> set ss. spells num s" using "31.IH"(1) [OF c] g l(3) by simp
    then show ?thesis unfolding g(1) using l(1,2) by (intro method_function block_anywhere)
  qed
  moreover have "word_ok m \<and> method_spells num f" if mf: "(m, f) \<in> set ms" for m f
  proof -
    have "?ok f" "word_ok m" "lexical num f" using "31.prems" mf by (auto simp: list_all_iff)
    then obtain n ps ss where g: "f = FunctionExpression n ps (Some (Block ss))" "\<forall>s \<in> set ss. ok_stmt num s" using f by blast
    then have l: "n = [] \<or> name_ok n" "list_all name_ok ps" "\<forall>s \<in> set ss. lexical num s"
      using \<open>lexical num f\<close> by (auto simp: list_all_iff)
    have "\<forall>s \<in> set ss. spells num s" using "31.IH"(2) [OF mf refl] g l(3) by simp
    then show ?thesis unfolding g(1) using l(1,2) \<open>word_ok m\<close> method_function block_anywhere by blast
  qed
  ultimately show ?case using "31.prems"(2) by (intro spells_class) auto
qed (auto intro: writes_simple)

lemma program_tokens_ok:
  assumes "list_all (ok_stmt num) ss" and "list_all (lexical num) ss"
  shows "tokens_ok previous (ast_tokens num 0 (Program ss))"
proof -
  have "anywhere (concat (map (\<lambda>s. ast_tokens num 0 s) ss))"
    using assms every_tree_written(2) by (intro anywhere_concat) (auto simp: list_all_iff)
  then show ?thesis by simp
qed

text \<open>C22: The engine reads scripts back.  For every list of well formed statements the text that
  the printer gives, with parentheses only where the precedences of \<open>binary_precedence\<close> and the levels of
  the grammar ask for them, is lexed and parsed to exactly those statements, with no error: the
  precedences, the associativity, the places where a regular expression and not a division begins and
  the branch an \<open>else\<close> belongs to are those the tree says.  Names and numbers are printed as single
  tokens and regular expressions as their source.  Two kinds of script are left out (predicate
  \<open>lexical\<close>), because the lexer gets them wrong: those with a division (\<open>/\<close> or \<open>/=\<close>) whose left operand ends with a
  keyword, such as \<open>true / 2\<close>, and those with a statement that starts with a regular expression.\<close>

theorem parse_source_render:
  assumes "list_all (ok_stmt num) ss" and "list_all (lexical num) ss"
  shows "parse_source (render_tokens (ast_tokens num 0 (Program ss))) = Some (Program ss, [])"
  unfolding parse_source_def js_tokenize_render [OF program_tokens_ok [OF assms]] by (rule parse_program_tokens [OF assms(1)])

text \<open>A script with an assignment that needs parentheses, a division, an \<open>else\<close>, a call and a member access.\<close>

definition sample_script :: "ast list" where
  "sample_script =
     [IfStatement (Identifier ''a'')
        (Block [ExpressionStatement (Assignment ''='' (Identifier ''x'')
           (Binary ''/'' (Binary ''+'' (Identifier ''a'') (Identifier ''b'')) (Identifier ''c'')))])
        (Some (ReturnStatement (Some (Call (Member (Identifier ''f'') ''g'' None) [Unary ''-'' (Identifier ''a'')]))))]"

theorem parse_source_render_witness:
  "parse_source ''if ( a ) { x = ( a + b ) / c ; } else return f . g ( - a ) ; '' = Some (Program sample_script, [])"
proof -
  let ?num = "\<lambda>v :: fp. [] :: string"
  have "list_all (ok_stmt ?num) sample_script"
    by (simp add: sample_script_def binary_precedence_def is_keyword_def js_keywords_def unary_operators_def assignment_operators_def)
  moreover have "list_all (lexical ?num) sample_script" by code_simp
  moreover have "render_tokens (ast_tokens ?num 0 (Program sample_script)) =
      ''if ( a ) { x = ( a + b ) / c ; } else return f . g ( - a ) ; ''" by code_simp
  ultimately show ?thesis using parse_source_render [of ?num sample_script] by simp
qed

end
