(* ===== verification/Lz4_Shim.thy ===== *)
theory Lz4_Shim
  imports Prelude
begin

unbundle bit_operations_syntax

text \<open>
  \<open>cmake/fallback/include/lz4.h\<close>: the run-length codec that stands in for LZ4 when no LZ4 is
  installed.  A run of 4 to 258 equal bytes is written as \<open>0x80\<close>, the length less 3 and the byte;
  the bytes between runs are written behind a byte with their number, up to 255 at a time.  The
  decoder takes a first byte with the high bit set for a run, so it misreads the literal runs of 128
  bytes and more that the encoder writes.  The last section proves what that means: the codec always
  fits into its own bound, and it gives its input back exactly when no literal run is that long.
\<close>

section \<open>The functions\<close>

definition shim_bound :: "int \<Rightarrow> int" where
  "shim_bound isize = (if isize < 0 then 0 else wrap32 (isize + isize div 255 + 16))"

text \<open>The loop that counts equal bytes, up to a limit: \<open>b\<close> is the byte compared with.\<close>

fun count_run :: "nat \<Rightarrow> byte \<Rightarrow> bytes \<Rightarrow> nat \<Rightarrow> nat" where
  "count_run limit b [] run = run"
| "count_run limit b (x # xs) run = (if run < limit \<and> x = b then count_run limit b xs (Suc run) else run)"

text \<open>The loop that gathers literals: it stops in front of four equal bytes and at 255.\<close>

fun literal_run :: "bytes \<Rightarrow> nat \<Rightarrow> nat" where
  "literal_run [] n = n"
| "literal_run (b # bs) n =
     (if 4 \<le> count_run 4 b bs 1 then n else if n + 1 = 255 then n + 1 else literal_run bs (n + 1))"

lemma count_run_ge: "run \<le> count_run limit b xs run"
  by (induction limit b xs run rule: count_run.induct) auto

text \<open>The loop over the source: what is written so far and what is left to read.\<close>

function compress_loop :: "int \<Rightarrow> bytes \<Rightarrow> bytes \<Rightarrow> int \<times> bytes" where
  "compress_loop cap out [] = (int (length out), out)"
| "compress_loop cap out (b # bs) =
     (let run = count_run 258 b bs 1 in
      if 4 \<le> run then
        if cap < int (length out) + 2 then (0, out)
        else
          let out1 = out @ [0x80, of_nat (run - 3), b] in
          if cap < int (length out1) + 1 then (0, out1) else compress_loop cap out1 (drop run (b # bs))
      else
        let gathered = literal_run (b # bs) 0;
            lit_count = (if gathered = 0 then 1 else gathered) in
        if cap < int (length out) + 1 + int lit_count then (0, out)
        else compress_loop cap (out @ of_nat lit_count # take lit_count (b # bs)) (drop lit_count (b # bs)))"
  by pat_completeness auto
termination by (relation "measure (\<lambda>(cap, out, rest). length rest)") auto

definition shim_compress :: "bytes \<Rightarrow> int \<Rightarrow> int \<Rightarrow> int \<times> bytes" where
  "shim_compress src src_size max_dst =
     (if src_size < 0 \<or> max_dst \<le> 0 then (0, []) else compress_loop max_dst [] (take (nat src_size) src))"

function decompress_loop :: "int \<Rightarrow> bytes \<Rightarrow> bytes \<Rightarrow> int \<times> bytes" where
  "decompress_loop cap out [] = (int (length out), out)"
| "decompress_loop cap out (token # rest) =
     (if token AND 0x80 \<noteq> 0 then
        (case rest of
           n # v # rest1 \<Rightarrow>
             if cap < int (length out + (unat n + 3)) then (-1, out)
             else decompress_loop cap (out @ replicate (unat n + 3) v) rest1
         | _ \<Rightarrow> (-1, out))
      else
        let n = unat token in
        if n = 0 \<or> length rest < n \<or> cap < int (length out + n) then (-1, out)
        else decompress_loop cap (out @ take n rest) (drop n rest))"
  by pat_completeness auto
termination by (relation "measure (\<lambda>(cap, out, rest). length rest)") auto

definition shim_decompress :: "bytes \<Rightarrow> int \<Rightarrow> int \<times> bytes" where
  "shim_decompress src max_dst = (if max_dst < 0 then (-1, []) else decompress_loop max_dst [] src)"

text \<open>A run is tested for two bytes of room and takes three, so a caller with a tight buffer gets a
  byte written behind it, and then the answer 0.\<close>

lemma run_overflows_tight_buffer: "shim_compress [0, 0, 0, 0] 4 2 = (0, [0x80, 1, 0])"
  by code_simp

section \<open>Segments\<close>

text \<open>The abstract side: how the data is cut into runs and literals.\<close>

datatype segment = Run nat byte | Literals bytes

definition starts_run :: "bytes \<Rightarrow> bool" where
  "starts_run xs \<longleftrightarrow> 4 \<le> length xs \<and> take 4 xs = replicate 4 (hd xs)"

definition leading :: "bytes \<Rightarrow> nat" where
  "leading xs = min 258 (length (takeWhile (\<lambda>x. x = hd xs) xs))"

primrec before_run :: "bytes \<Rightarrow> bytes" where
  "before_run [] = []"
| "before_run (b # bs) = (if starts_run (b # bs) then [] else b # before_run bs)"

lemma before_run_empty: "before_run xs = [] \<longleftrightarrow> xs = [] \<or> starts_run xs"
  by (cases xs) simp_all

lemma leading_pos: "xs \<noteq> [] \<Longrightarrow> 0 < leading xs" by (cases xs) (simp_all add: leading_def)

function segments :: "bytes \<Rightarrow> segment list" where
  "segments xs =
     (if xs = [] then []
      else if starts_run xs then Run (leading xs) (hd xs) # segments (drop (leading xs) xs)
      else Literals (take 255 (before_run xs)) # segments (drop (length (take 255 (before_run xs))) xs))"
  by pat_completeness auto
termination by (relation "measure length") (auto simp: leading_pos before_run_empty)

declare segments.simps [simp del]

primrec segment_code :: "segment \<Rightarrow> bytes" where
  "segment_code (Run n b) = [0x80, of_nat (n - 3), b]"
| "segment_code (Literals bs) = of_nat (length bs) # bs"

primrec segment_data :: "segment \<Rightarrow> bytes" where
  "segment_data (Run n b) = replicate n b"
| "segment_data (Literals bs) = bs"

lemma count_run_takeWhile:
  "run \<le> limit \<Longrightarrow> count_run limit b xs run = min limit (run + length (takeWhile (\<lambda>x. x = b) xs))"
  by (induction limit b xs run rule: count_run.induct) auto

lemma count_run_leading: "count_run 258 b bs 1 = leading (b # bs)"
  by (simp add: count_run_takeWhile leading_def)

lemma replicate_prefix:
  "length (takeWhile (\<lambda>x. x = b) xs) \<ge> n \<longleftrightarrow> n \<le> length xs \<and> take n xs = replicate n b"
proof (induction n arbitrary: xs)
  case (Suc n)
  then show ?case by (cases xs) auto
qed simp

lemma starts_run_takeWhile: "starts_run (b # bs) \<longleftrightarrow> 3 \<le> length (takeWhile (\<lambda>x. x = b) bs)"
  using replicate_prefix [of 4 b "b # bs"] by (simp add: starts_run_def)

lemma starts_run_count: "4 \<le> count_run 4 b bs 1 \<longleftrightarrow> starts_run (b # bs)" "4 \<le> count_run 258 b bs 1 \<longleftrightarrow> starts_run (b # bs)"
  by (simp_all add: count_run_takeWhile starts_run_takeWhile)

declare starts_run_count [unfolded One_nat_def, simp]

lemma literal_run_before: "n < 255 \<Longrightarrow> literal_run xs n = n + length (take (255 - n) (before_run xs))"
proof (induction xs n rule: literal_run.induct)
  case (2 b bs n)
  have "255 - n = Suc (254 - n)" using 2(2) by simp
  moreover have "min (254 - n) m = 0" if "n = 254" for m :: nat using that by simp
  ultimately show ?case using 2 by (auto simp del: count_run.simps)
qed simp

lemma before_run_prefix: "take (length (before_run xs)) xs = before_run xs"
  by (induction xs) simp_all

lemma take_before_run: "take (length (take k (before_run xs))) xs = take k (before_run xs)"
  by (metis before_run_prefix length_take take_take min.commute)

lemma drop_before_run: "drop (length (before_run xs)) xs = [] \<or> starts_run (drop (length (before_run xs)) xs)"
  by (induction xs) simp_all

lemma leading_replicate: "take (leading xs) xs = replicate (leading xs) (hd xs)" "leading xs \<le> length xs"
  using replicate_prefix [of "leading xs" "hd xs" xs] by (simp_all add: leading_def)

lemma starts_run_leading: "starts_run xs \<Longrightarrow> 4 \<le> leading xs"
proof (cases xs)
  case Nil
  then show "starts_run xs \<Longrightarrow> 4 \<le> leading xs" by (simp add: starts_run_def)
qed (simp add: starts_run_takeWhile leading_def)

text \<open>The segments are the data.\<close>

lemma segments_data: "concat (map segment_data (segments xs)) = xs"
proof (induction xs rule: segments.induct)
  case (1 xs)
  show ?case
  proof (cases "xs = [] \<or> starts_run xs")
    case True
    then show ?thesis
      using 1(1) leading_replicate(1) [of xs] by (subst segments.simps) (auto, metis append_take_drop_id)
  next
    case False
    then show ?thesis
      using 1(2) take_before_run [of 255 xs] by (subst segments.simps) (auto, metis append_take_drop_id)
  qed
qed

abbreviation "shim_code xs \<equiv> concat (map segment_code (segments xs))"

text \<open>The code of \<open>n\<close> bytes has at most \<open>n + n div 255 + 1\<close> bytes.\<close>

lemma shim_code_length:
  "length (shim_code xs) \<le> length xs + length xs div 255 + of_bool (xs \<noteq> [] \<and> \<not> starts_run xs)"
proof (induction xs rule: segments.induct)
  case (1 xs)
  let ?n = "length xs"
  consider "xs = []" | "starts_run xs" "xs \<noteq> []" | "\<not> starts_run xs" "xs \<noteq> []" by blast
  then show ?case
  proof cases
    case 2
    let ?r = "drop (leading xs) xs"
    have "4 \<le> leading xs" "leading xs \<le> ?n" using 2 starts_run_leading leading_replicate(2) by blast+
    moreover have "length ?r div 255 \<le> ?n div 255" by (intro div_le_mono) simp
    moreover have "length (shim_code ?r) \<le> length ?r + length ?r div 255 + 1"
      by (rule order_trans [OF 1(1)]) (use 2 in auto)
    ultimately show ?thesis using 2 by (subst segments.simps) simp
  next
    case 3
    let ?l = "take 255 (before_run xs)"
    let ?r = "drop (length ?l) xs"
    have code: "length (shim_code xs) = 1 + length ?l + length (shim_code ?r)" using 3 by (subst segments.simps) simp
    have l: "length ?l \<le> ?n" using take_before_run [of 255 xs] by (metis length_take min.cobounded1 nat_le_linear take_all)
    have IH: "length (shim_code ?r) \<le> length ?r + length ?r div 255 + of_bool (?r \<noteq> [] \<and> \<not> starts_run ?r)"
      using 1(2) 3 by simp
    show ?thesis
    proof (cases "255 \<le> length (before_run xs)")
      case True
      then have "length ?l = 255" by simp
      moreover have "?n div 255 = Suc ((?n - 255) div 255)" using l calculation by (simp add: le_div_geq)
      moreover have "of_bool (?r \<noteq> [] \<and> \<not> starts_run ?r) \<le> (1 :: nat)" by simp
      ultimately show ?thesis using code IH l 3 by simp
    next
      case False
      then have "?l = before_run xs" by simp
      then have "?r = [] \<or> starts_run ?r" using drop_before_run [of xs] by metis
      then have "length (shim_code ?r) \<le> length ?r + length ?r div 255" using IH by auto
      moreover have "length ?r div 255 \<le> ?n div 255" by (intro div_le_mono) simp
      moreover have "length ?r = ?n - length ?l" by simp
      ultimately have "length (shim_code xs) \<le> ?n + ?n div 255 + 1" using code l by linarith
      then show ?thesis using 3 by simp
    qed
  qed (simp add: segments.simps)
qed

text \<open>With room to spare the encoder writes the code of the segments.\<close>

lemma compress_loop_code:
  "int (length out + length (shim_code xs)) < cap \<Longrightarrow>
    compress_loop cap out xs = (int (length out + length (shim_code xs)), out @ shim_code xs)"
proof (induction xs arbitrary: out rule: segments.induct)
  case (1 xs)
  show ?case
  proof (cases xs)
    case Nil
    then show ?thesis by (simp add: segments.simps)
  next
    case (Cons b bs)
    show ?thesis
    proof (cases "starts_run xs")
      case True
      then have seg: "segments xs = Run (leading xs) b # segments (drop (leading xs) xs)"
        using Cons by (subst segments.simps) simp
      have r: "4 \<le> count_run 258 b bs 1" "count_run 258 b bs 1 = leading xs"
        using True Cons starts_run_count(2) [of b bs] by (simp_all only: count_run_leading)
      have "compress_loop cap out xs = compress_loop cap (out @ [0x80, of_nat (leading xs - 3), b]) (drop (leading xs) xs)"
        using r starts_run_leading [OF True] 1(3) seg Cons by (simp add: Let_def)
      then show ?thesis using 1(1) [of "out @ [0x80, of_nat (leading xs - 3), b]"] True Cons 1(3) seg by simp
    next
      case False
      let ?l = "take 255 (before_run xs)"
      have seg: "segments xs = Literals ?l # segments (drop (length ?l) xs)"
        using Cons False by (subst segments.simps) simp
      have g: "literal_run xs 0 = length ?l" by (simp add: literal_run_before)
      have pos: "0 < length ?l" using False Cons by (simp add: before_run_empty del: before_run.simps)
      define k where "k = length ?l"
      have k: "literal_run (b # bs) 0 = k" "0 < k" "take k (b # bs) = ?l" "int (length out) + 1 + int k \<le> cap"
        using g pos 1(3) seg take_before_run [of 255 xs] Cons unfolding k_def by simp_all
      have "\<not> 4 \<le> count_run 258 b bs 1" using False Cons by simp
      then have "compress_loop cap out xs = compress_loop cap (out @ of_nat k # ?l) (drop k xs)"
        unfolding Cons compress_loop.simps Let_def using k Cons by simp
      then show ?thesis unfolding k_def
        using 1(2) [of "out @ of_nat (length ?l) # ?l"] False Cons 1(3) seg by (simp del: before_run.simps)
    qed
  qed
qed

section \<open>What the decoder makes of it\<close>

lemma high_bit: "t AND 0x80 \<noteq> 0 \<longleftrightarrow> 128 \<le> unat t" for t :: byte
proof -
  have l: "unat t < 256" using unsigned_less [of t, where 'a = nat] by simp
  have "(0x80 :: byte) = 2 ^ 7" by simp
  then have "t AND 0x80 \<noteq> 0 \<longleftrightarrow> bit t 7" using and_exp_eq_0_iff_not_bit [of t 7] by simp
  also have "\<dots> \<longleftrightarrow> odd (unat t div 128)"
    using bit_unsigned_iff [where 'a = nat and w = t and n = 7] bit_iff_odd [of "unat t" 7] by simp
  also have "unat t div 128 = of_bool (128 \<le> unat t)" using l by (cases "128 \<le> unat t") (simp_all add: le_div_geq)
  also have "odd (of_bool (128 \<le> unat t) :: nat) \<longleftrightarrow> 128 \<le> unat t" by simp
  finally show ?thesis .
qed

lemma decompress_extends: "\<exists>e. snd (decompress_loop cap out src) = out @ e"
proof (induction cap out src rule: decompress_loop.induct)
  case (2 cap out token rest)
  then show ?case by (auto simp: Let_def split: list.split) (metis append.assoc)+
qed simp

primrec readable :: "segment \<Rightarrow> bool" where
  "readable (Run n b) = True"
| "readable (Literals bs) = (length bs < 128)"

text \<open>A literal run of 128 bytes or more is taken for a run of its second byte.\<close>

lemma misread:
  assumes "128 \<le> length l" and "length l \<le> 255" and "\<not> starts_run xs" and "take (length l) xs = l" and k: "0 \<le> k"
  shows "decompress_loop cap out (of_nat (length l) # l @ code) \<noteq> (k, out @ xs)"
proof
  assume d: "decompress_loop cap out (of_nat (length l) # l @ code) = (k, out @ xs)"
  obtain n v w l' where l: "l = n # v # w # l'"
    using assms(1) by (cases l; cases "tl l"; cases "tl (tl l)") auto
  have t: "(of_nat (length l) :: byte) AND 0x80 \<noteq> 0"
    unfolding high_bit using assms(1,2) by (simp add: unat_of_nat)
  have d1: "decompress_loop cap (out @ replicate (unat n + 3) v) (w # l' @ code) = (k, out @ xs)"
    using d t k unfolding l by (simp only: decompress_loop.simps append.simps if_True list.case) (auto split: if_splits)
  obtain e where "out @ xs = (out @ replicate (unat n + 3) v) @ e"
    using decompress_extends [of cap "out @ replicate (unat n + 3) v" "w # l' @ code"] unfolding d1 by auto
  then have xs: "xs = replicate (unat n + 3) v @ e" by simp
  have "xs = l @ drop (length l) xs" using assms(4) by (metis append_take_drop_id)
  then have "n # v # w # l' @ drop (length l) xs = replicate (unat n + 3) v @ e" using l xs by simp
  then have eq: "n = v" "w = v" by (simp_all add: numeral_3_eq_3)
  show False
  proof (cases "unat n = 0")
    case True
    then have "w = 0" using eq by (simp add: unat_eq_zero)
    then show False using d1 k by simp
  next
    case False
    then obtain m where "unat n = Suc m" by (cases "unat n") simp_all
    then have "unat n + 3 = 4 + m" by simp
    then have "starts_run xs" unfolding xs by (simp add: starts_run_def replicate_add numeral_eq_Suc)
    then show False using assms(3) by simp
  qed
qed

lemma read_literals:
  assumes "0 < length l" and "length l < 128" and "int (length out + length l) \<le> cap"
  shows "decompress_loop cap out (of_nat (length l) # l @ code) = decompress_loop cap (out @ l) code"
proof -
  have u: "unat (of_nat (length l) :: byte) = length l" using assms(2) by (simp add: unat_of_nat)
  then have "\<not> (of_nat (length l) :: byte) AND 0x80 \<noteq> 0" unfolding high_bit using assms(2) by simp
  then show ?thesis using u assms by (simp add: Let_def)
qed

lemma decompress_code:
  "int (length out + length xs) \<le> cap \<Longrightarrow>
    decompress_loop cap out (shim_code xs) = (int (length out + length xs), out @ xs) \<longleftrightarrow> list_all readable (segments xs)"
proof (induction xs arbitrary: out rule: segments.induct)
  case (1 xs)
  consider "xs = []" | "starts_run xs" "xs \<noteq> []" | "\<not> starts_run xs" "xs \<noteq> []" by blast
  then show ?case
  proof cases
    case 2
    let ?n = "leading xs" and ?r = "drop (leading xs) xs"
    have n: "4 \<le> ?n" "?n \<le> 258" "?n \<le> length xs"
      using starts_run_leading [OF 2(1)] leading_replicate(2) [of xs] by (simp_all add: leading_def)
    have u: "unat (of_nat (?n - 3) :: byte) = ?n - 3"
      using n unat_of_nat [of "?n - 3", where 'a = 8] by (simp del: of_nat_diff)
    have seg: "segments xs = Run ?n (hd xs) # segments ?r" using 2 by (subst segments.simps) simp
    have xs: "xs = replicate ?n (hd xs) @ ?r" using leading_replicate(1) [of xs] by (metis append_take_drop_id)
    have "(0x80 :: byte) AND 0x80 \<noteq> 0" by code_simp
    moreover have "int (length out) + int ?n \<le> cap" using 1(3) n by simp
    ultimately have "decompress_loop cap out (shim_code xs) = decompress_loop cap (out @ replicate ?n (hd xs)) (shim_code ?r)"
      unfolding seg using n u by (simp add: Let_def)
    moreover have "int (length (out @ replicate ?n (hd xs)) + length ?r) \<le> cap" using 1(3) n by simp
    moreover have "int (length (out @ replicate ?n (hd xs)) + length ?r) = int (length out + length xs)"
      "(out @ replicate ?n (hd xs)) @ ?r = out @ xs"
      using n by simp (metis append.assoc xs)
    moreover have "list_all readable (segments xs) = list_all readable (segments ?r)" by (simp add: seg)
    ultimately show ?thesis using 1(1) [of "out @ replicate ?n (hd xs)"] 2 by metis
  next
    case 3
    let ?l = "take 255 (before_run xs)"
    let ?r = "drop (length ?l) xs"
    have seg: "segments xs = Literals ?l # segments ?r" using 3 by (subst segments.simps) simp
    have l: "0 < length ?l" "length ?l \<le> 255" using 3 by (simp_all add: before_run_empty)
    have xs: "xs = ?l @ ?r" using take_before_run [of 255 xs] by (metis append_take_drop_id)
    show ?thesis
    proof (cases "length ?l < 128")
      case False
      have "decompress_loop cap out (shim_code xs) \<noteq> (int (length out + length xs), out @ xs)"
        unfolding seg using misread [OF _ l(2) 3(1) take_before_run] False by simp
      then show ?thesis using False seg by simp
    next
      case True
      have le: "length ?l \<le> length xs" using take_before_run [of 255 xs] by (metis length_take min.cobounded1 nat_le_linear take_all)
      have "decompress_loop cap out (shim_code xs) = decompress_loop cap (out @ ?l) (shim_code ?r)"
        unfolding seg using read_literals [OF l(1) True] 1(3) le by simp
      moreover have "int (length (out @ ?l) + length ?r) \<le> cap" using 1(3) le by simp
      moreover have "int (length (out @ ?l) + length ?r) = int (length out + length xs)" "(out @ ?l) @ ?r = out @ xs"
        using le by simp (metis append.assoc xs)
      moreover have "list_all readable (segments xs) = list_all readable (segments ?r)"
        unfolding seg list.pred_inject readable.simps using True by blast
      ultimately show ?thesis using 1(2) [of "out @ ?l"] 3 by metis
    qed
  qed (simp add: segments.simps)
qed

lemma shim_compress_code:
  fixes data :: bytes
  assumes "0 \<le> n" and "shim_bound n = n + n div 255 + 16"
  defines "code \<equiv> shim_code (take (nat n) data)"
  shows "int (length code) < shim_bound n" "shim_compress data n (shim_bound n) = (int (length code), code)"
proof -
  let ?m = "length (take (nat n) data)"
  have "length code \<le> ?m + ?m div 255 + 1" unfolding code_def by (rule order_trans [OF shim_code_length]) simp
  also have "\<dots> \<le> nat n + nat n div 255 + 1" by (intro add_mono div_le_mono) simp_all
  finally have "int (length code) \<le> n + n div 255 + 1" using assms(1) by (simp add: zdiv_int nat_div_distrib)
  then show le: "int (length code) < shim_bound n" using assms(2) by simp
  moreover have "0 \<le> n div 255" using assms(1) by (simp add: pos_imp_zdiv_nonneg_iff)
  ultimately show "shim_compress data n (shim_bound n) = (int (length code), code)"
    using compress_loop_code [of "[]" "take (nat n) data" "shim_bound n"] assms(1,2)
    by (simp add: shim_compress_def code_def)
qed

lemma shim_bound_eq: "0 \<le> n \<Longrightarrow> n \<le> 0x7E000000 \<Longrightarrow> shim_bound n = n + n div 255 + 16"
proof -
  assume n: "0 \<le> n" "n \<le> 0x7E000000"
  have "n div 255 \<le> 0x7E000000 div 255" by (rule zdiv_mono1) (use n in simp_all)
  moreover have "0 \<le> n div 255" using n by (simp add: pos_imp_zdiv_nonneg_iff)
  ultimately show "shim_bound n = n + n div 255 + 16" using n by (simp add: shim_bound_def wrap32_id)
qed

lemma shim_facts:
  assumes "length data \<le> 0x7E000000"
  defines "n \<equiv> int (length data)"
  shows "let cap = shim_bound n; (r, out) = shim_compress data n cap in
    r = int (length out) \<and> r < cap \<and> (r = 0 \<longleftrightarrow> data = []) \<and>
    (shim_decompress out n = (n, data) \<longleftrightarrow> list_all readable (segments data))"
proof -
  have b: "shim_bound n = n + n div 255 + 16" using assms by (intro shim_bound_eq) simp_all
  have "shim_code data = [] \<longleftrightarrow> data = []"
    by (cases data) (simp_all add: segments.simps)
  moreover have "shim_decompress (shim_code data) n = (n, data) \<longleftrightarrow> list_all readable (segments data)"
    using decompress_code [of "[]" data n] by (simp add: shim_decompress_def n_def)
  ultimately show ?thesis using shim_compress_code [OF _ b, of data] by (simp add: Let_def n_def)
qed

text \<open>C21: The bundled codec.  For data of at most \<open>LZ4_MAX_INPUT_SIZE\<close> bytes, compression with the room
  that \<open>LZ4_compressBound\<close> asks for succeeds, writes nothing beyond it, and answers the number of
  bytes written, which is 0 for empty data.  Decompression into the original size gives the data back
  exactly when the encoder wrote no literal run of 128 bytes or more.\<close>

theorem shim_restores_iff:
  assumes "length data \<le> 0x7E000000"
  shows "let n = int (length data); cap = shim_bound n; (r, out) = shim_compress data n cap in
    r = int (length out) \<and> r < cap \<and> (r = 0 \<longleftrightarrow> data = []) \<and>
    (shim_decompress out n = (n, data) \<longleftrightarrow> list_all readable (segments data))"
  using shim_facts [OF assms] by (simp only: Let_def)

text \<open>Seven bytes with a run of four: a literal, the run, two literals.\<close>

lemma shim_restores_iff_witness:
  "(let data = [5, 9, 9, 9, 9, 1, 2]; n = 7; cap = shim_bound n; (r, out) = shim_compress data n cap in
    r = int (length out) \<and> r < cap \<and> shim_decompress out n = (n, data))"
proof -
  have "segments [5, 9, 9, 9, 9, 1, 2] = [Literals [5], Run 4 9, Literals [1, 2]]" by code_simp
  then show ?thesis using shim_restores_iff [of "[5, 9, 9, 9, 9, 1, 2]"] by (simp add: Let_def split: prod.splits)
qed

end
