(* ===== verification/Ghost_Cache.thy ===== *)
theory Ghost_Cache
  imports Lz4_Shim
begin

text \<open>
  \<open>cache/ghost_cache.hpp\<close>: the block pool \<open>StaticMemoryPool\<close> (its template arguments are the
  first two arguments of every operation) and the \<open>GhostCache\<close> on top of it.  The build links an
  installed LZ4 or, when there is none, the codec of \<open>Lz4_Shim\<close>; so the three functions of LZ4 are a
  parameter of the model, and \<open>shim_lz4\<close> is the instance the repository brings along.  What the
  cache relies on is that a compression stays within its bound (\<open>lz4_bounded\<close>) and, for the data that
  is stored, that decompression undoes it (\<open>restores\<close>); the shim keeps the first promise always and the
  second for data without long literal runs.  The two statistics that return a \<open>float\<close> are left out.
\<close>

section \<open>The block pool\<close>

record pool =
  pl_mem :: bytes
  pl_used :: "bool list"
  pl_sizes :: "nat list"
  pl_count :: "64 word"

definition new_pool :: "nat \<Rightarrow> nat \<Rightarrow> pool" where
  "new_pool bs mb = \<lparr> pl_mem = replicate (bs * mb) 0, pl_used = replicate mb False, pl_sizes = replicate mb 0, pl_count = 0 \<rparr>"

definition allocate :: "nat \<Rightarrow> nat \<Rightarrow> nat \<Rightarrow> pool \<Rightarrow> nat option \<times> pool" where
  "allocate bs mb size_bytes p =
     (if size_bytes = 0 \<or> bs < size_bytes then (None, p)
      else case find_idx Not (pl_used p) of
        None \<Rightarrow> (None, p)
      | Some i \<Rightarrow> (Some i, p\<lparr> pl_used := (pl_used p)[i := True], pl_sizes := (pl_sizes p)[i := size_bytes],
                             pl_count := pl_count p + 1 \<rparr>))"

definition wipe :: "nat \<Rightarrow> nat \<Rightarrow> pool \<Rightarrow> pool" where
  "wipe bs i p = p\<lparr> pl_mem := overwrite (i * bs) (replicate (pl_sizes p ! i) 0) (pl_mem p) \<rparr>"

definition is_block_allocated :: "nat \<Rightarrow> nat \<Rightarrow> pool \<Rightarrow> bool" where
  "is_block_allocated mb i p = (i < mb \<and> pl_used p ! i)"

definition deallocate :: "nat \<Rightarrow> nat \<Rightarrow> nat \<Rightarrow> pool \<Rightarrow> pool" where
  "deallocate bs mb i p =
     (if mb \<le> i \<or> \<not> pl_used p ! i then p
      else (wipe bs i p)\<lparr> pl_used := (pl_used p)[i := False], pl_sizes := (pl_sizes p)[i := 0], pl_count := pl_count p - 1 \<rparr>)"

definition get_block_size :: "nat \<Rightarrow> nat \<Rightarrow> pool \<Rightarrow> nat" where
  "get_block_size mb i p = (if mb \<le> i then 0 else pl_sizes p ! i)"

definition free_blocks :: "nat \<Rightarrow> pool \<Rightarrow> 64 word" where
  "free_blocks mb p = of_nat mb - pl_count p"

definition clear_block :: "nat \<Rightarrow> nat \<Rightarrow> pool \<Rightarrow> pool" where
  "clear_block bs i p =
     (if pl_used p ! i then wipe bs i p else p)\<lparr> pl_used := (pl_used p)[i := False], pl_sizes := (pl_sizes p)[i := 0] \<rparr>"

definition clear_secure :: "nat \<Rightarrow> nat \<Rightarrow> pool \<Rightarrow> pool" where
  "clear_secure bs mb p = (fold (clear_block bs) [0..<mb] p)\<lparr> pl_count := 0 \<rparr>"

text \<open>The bytes at a block pointer, and a span over an allocated block.\<close>

definition block_bytes :: "nat \<Rightarrow> nat \<Rightarrow> pool \<Rightarrow> bytes" where
  "block_bytes bs i p = take bs (drop (i * bs) (pl_mem p))"

definition get_block_span :: "nat \<Rightarrow> nat \<Rightarrow> nat \<Rightarrow> pool \<Rightarrow> bytes" where
  "get_block_span bs mb i p = (if mb \<le> i \<or> \<not> pl_used p ! i then [] else take (pl_sizes p ! i) (block_bytes bs i p))"

section \<open>The invariant of the pool\<close>

text \<open>The bookkeeping arrays agree, and memory outside the allocated part of the blocks is zero.\<close>

definition pool_ok :: "nat \<Rightarrow> nat \<Rightarrow> pool \<Rightarrow> bool" where
  "pool_ok bs mb p \<longleftrightarrow>
     length (pl_mem p) = mb * bs \<and> length (pl_used p) = mb \<and> length (pl_sizes p) = mb \<and>
     pl_count p = of_nat (length (filter (\<lambda>u. u) (pl_used p))) \<and>
     (\<forall>i < mb. pl_sizes p ! i \<le> bs \<and> (pl_used p ! i \<or> pl_sizes p ! i = 0)) \<and>
     (\<forall>i < mb. \<forall>k < bs. pl_sizes p ! i \<le> k \<longrightarrow> pl_mem p ! (i * bs + k) = 0)"

lemma address_bound: "i < mb \<Longrightarrow> k \<le> bs \<Longrightarrow> i * bs + k \<le> mb * bs" for bs :: nat
  using mult_le_mono1 [of "Suc i" mb bs] by simp

lemma address_less: "i < mb \<Longrightarrow> k < bs \<Longrightarrow> i * bs + k < mb * bs" for bs :: nat
  using mult_le_mono1 [of "Suc i" mb bs] by simp

lemma new_pool_ok: "pool_ok bs mb (new_pool bs mb)"
  by (simp add: pool_ok_def new_pool_def mult.commute [of bs mb] address_less)

lemma other_block:
  fixes bs :: nat
  assumes "i \<noteq> j" and "k < bs" and "n \<le> bs"
  shows "\<not> (j * bs \<le> i * bs + k \<and> i * bs + k < j * bs + n)"
proof (cases "i < j")
  case True
  then show ?thesis using mult_le_mono1 [of "Suc i" j bs] assms by simp
next
  case False
  then show ?thesis using mult_le_mono1 [of "Suc j" i bs] assms by simp
qed

lemma count_set:
  "i < length us \<Longrightarrow> int (length (filter (\<lambda>u. u) (us[i := b]))) =
    int (length (filter (\<lambda>u. u) us)) + of_bool b - of_bool (us ! i)"
proof (induction us arbitrary: i)
  case Nil
  then show ?case by simp
next
  case (Cons u us)
  then show ?case by (cases i) auto
qed

lemma allocate_ok:
  assumes "pool_ok bs mb p"
  shows "pool_ok bs mb (snd (allocate bs mb n p))"
proof (cases "find_idx Not (pl_used p)")
  case None
  then show ?thesis using assms by (simp add: allocate_def)
next
  case (Some i)
  then have i: "i < mb" "\<not> pl_used p ! i" using assms by (auto simp: pool_ok_def find_idx_Some_iff)
  have "int (length (filter (\<lambda>u. u) ((pl_used p)[i := True]))) = int (length (filter (\<lambda>u. u) (pl_used p))) + 1"
    using count_set [of i "pl_used p" True] i assms by (simp add: pool_ok_def)
  then have "length (filter (\<lambda>u. u) ((pl_used p)[i := True])) = Suc (length (filter (\<lambda>u. u) (pl_used p)))" by linarith
  then show ?thesis using assms i Some
    by (auto simp: pool_ok_def allocate_def nth_list_update)
qed

text \<open>Filling a block up to its size leaves the invariant alone.\<close>

definition write_block :: "nat \<Rightarrow> nat \<Rightarrow> bytes \<Rightarrow> pool \<Rightarrow> pool" where
  "write_block bs i data p = p\<lparr> pl_mem := overwrite (i * bs) data (pl_mem p) \<rparr>"

lemma write_block_nth:
  assumes "pool_ok bs mb p" and "i < mb" and "length data \<le> bs" and "j < mb" and "k < bs"
  shows "pl_mem (write_block bs i data p) ! (j * bs + k) =
    (if j = i \<and> k < length data then data ! k else pl_mem p ! (j * bs + k))"
proof -
  have l: "length (pl_mem p) = mb * bs" using assms(1) by (simp add: pool_ok_def)
  have "i * bs + length data \<le> length (pl_mem p)" "j * bs + k < length (pl_mem p)"
    unfolding l by (rule address_bound [OF assms(2,3)], rule address_less [OF assms(4,5)])
  then have "pl_mem (write_block bs i data p) ! (j * bs + k) =
      (if i * bs \<le> j * bs + k \<and> j * bs + k < i * bs + length data then data ! (j * bs + k - i * bs) else pl_mem p ! (j * bs + k))"
    unfolding write_block_def by (simp add: nth_overwrite)
  then show ?thesis using other_block [of j i k bs "length data"] assms(3,5) by (cases "j = i") auto
qed

lemma write_block_ok:
  assumes "pool_ok bs mb p" and "i < mb" and "length data \<le> pl_sizes p ! i"
  shows "pool_ok bs mb (write_block bs i data p)"
proof -
  have s: "length data \<le> bs" using assms by (force simp: pool_ok_def)
  have l: "length (pl_mem p) = mb * bs" using assms(1) by (simp add: pool_ok_def)
  have "length (pl_mem (write_block bs i data p)) = mb * bs"
    using address_bound [OF assms(2) s] l by (simp add: write_block_def)
  moreover have "\<forall>j < mb. \<forall>k < bs. pl_sizes p ! j \<le> k \<longrightarrow> pl_mem (write_block bs i data p) ! (j * bs + k) = 0"
    using write_block_nth [OF assms(1,2) s] assms by (auto simp: pool_ok_def)
  ultimately show ?thesis using assms(1) by (simp add: pool_ok_def write_block_def)
qed

lemma wipe_is_write: "wipe bs i p = write_block bs i (replicate (pl_sizes p ! i) 0) p"
  by (simp add: wipe_def write_block_def)

text \<open>After wiping, nothing is left of the block.\<close>

lemma wipe_zero:
  assumes "pool_ok bs mb p" and "i < mb" and "k < bs"
  shows "pl_mem (wipe bs i p) ! (i * bs + k) = 0"
  using write_block_nth [OF assms(1,2) _ assms(2,3), of "replicate (pl_sizes p ! i) 0"] assms
  by (auto simp: wipe_is_write pool_ok_def)

lemma wipe_ok: "pool_ok bs mb p \<Longrightarrow> i < mb \<Longrightarrow> pool_ok bs mb (wipe bs i p)"
  unfolding wipe_is_write by (rule write_block_ok) simp_all

lemma release_ok:
  assumes "pool_ok bs mb p" and "i < mb" and "pl_used p ! i"
  shows "pool_ok bs mb ((wipe bs i p)\<lparr> pl_used := (pl_used p)[i := False], pl_sizes := (pl_sizes p)[i := 0], pl_count := pl_count p - 1 \<rparr>)"
proof -
  have "int (length (filter (\<lambda>u. u) (pl_used p))) = int (length (filter (\<lambda>u. u) ((pl_used p)[i := False]))) + 1"
    using count_set [of i "pl_used p" False] assms by (simp add: pool_ok_def)
  then have c: "length (filter (\<lambda>u. u) (pl_used p)) = Suc (length (filter (\<lambda>u. u) ((pl_used p)[i := False])))" by linarith
  have z: "\<forall>j < mb. \<forall>k < bs. (pl_sizes p)[i := 0] ! j \<le> k \<longrightarrow> pl_mem (wipe bs i p) ! (j * bs + k) = 0"
  proof (intro allI impI)
    fix j k
    assume h: "j < mb" "k < bs" "(pl_sizes p)[i := 0] ! j \<le> k"
    show "pl_mem (wipe bs i p) ! (j * bs + k) = 0"
    proof (cases "j = i")
      case True
      then show ?thesis using wipe_zero [OF assms(1,2) h(2)] by simp
    next
      case False
      then have "pl_sizes p ! j \<le> k" using h(3) by simp
      then show ?thesis using wipe_ok [OF assms(1,2)] h(1,2) by (simp add: pool_ok_def wipe_def)
    qed
  qed
  have "length (pl_mem (wipe bs i p)) = mb * bs" using wipe_ok [OF assms(1,2)] by (simp add: pool_ok_def)
  then show ?thesis using assms c z by (auto simp: pool_ok_def nth_list_update)
qed

lemma deallocate_ok: "pool_ok bs mb p \<Longrightarrow> pool_ok bs mb (deallocate bs mb i p)"
  using release_ok [of bs mb p i] by (simp add: deallocate_def)

section \<open>The cache\<close>

definition pool_block_size :: nat where "pool_block_size = 4096"
definition pool_max_blocks :: nat where "pool_max_blocks = 1024"

record metadata =
  me_id :: "64 word"
  me_timestamp :: "64 word"
  me_original_size :: nat
  me_compressed_size :: nat
  me_is_encrypted :: bool
  me_is_active :: bool
  me_url_hash :: bytes

definition new_metadata :: metadata where
  "new_metadata = \<lparr> me_id = 0, me_timestamp = 0, me_original_size = 0, me_compressed_size = 0,
     me_is_encrypted = False, me_is_active = False, me_url_hash = replicate 32 0 \<rparr>"

record ghost_cache =
  gc_pool :: pool
  gc_meta :: "metadata list"

definition new_cache :: ghost_cache where
  "new_cache = \<lparr> gc_pool = new_pool pool_block_size pool_max_blocks, gc_meta = replicate pool_max_blocks new_metadata \<rparr>"

text \<open>LZ4: \<open>LZ4_compressBound\<close>, \<open>LZ4_compress_default\<close> (source, its size, capacity; the
  result and the bytes written) and \<open>LZ4_decompress_safe\<close> (source with its size, capacity).\<close>

record lz4 =
  lz_bound :: "int \<Rightarrow> int"
  lz_compress :: "bytes \<Rightarrow> int \<Rightarrow> int \<Rightarrow> int \<times> bytes"
  lz_decompress :: "bytes \<Rightarrow> int \<Rightarrow> int \<times> bytes"

text \<open>The implementation bundled with the repository.\<close>

definition shim_lz4 :: lz4 where
  "shim_lz4 = \<lparr> lz_bound = shim_bound, lz_compress = shim_compress, lz_decompress = shim_decompress \<rparr>"

text \<open>\<open>static_cast<int>\<close> of a \<open>size_t\<close>.\<close>

definition int_of_size :: "nat \<Rightarrow> int" where
  "int_of_size n = sint (of_nat n :: 32 word)"

text \<open>\<open>static_cast<size_t>\<close> of an \<open>int\<close>.\<close>

definition size_of_int :: "int \<Rightarrow> nat" where
  "size_of_int i = unat (of_int i :: 64 word)"

definition store_session_data :: "lz4 \<Rightarrow> bytes \<Rightarrow> metadata \<Rightarrow> ghost_cache \<Rightarrow> nat option \<times> ghost_cache" where
  "store_session_data L data meta c =
     (let cap = lz_bound L (int_of_size (length data)) in
      case allocate pool_block_size pool_max_blocks (size_of_int cap) (gc_pool c) of
        (None, p) \<Rightarrow> (None, c\<lparr> gc_pool := p \<rparr>)
      | (Some i, p) \<Rightarrow>
          let (compressed_size, written) = lz_compress L data (int_of_size (length data)) cap;
              p1 = write_block pool_block_size i written p in
          if compressed_size \<le> 0 then (None, c\<lparr> gc_pool := deallocate pool_block_size pool_max_blocks i p1 \<rparr>)
          else (Some i, c\<lparr> gc_pool := p1, gc_meta := (gc_meta c)[i := meta\<lparr> me_compressed_size := size_of_int compressed_size,
                  me_original_size := length data, me_is_encrypted := False, me_is_active := True \<rparr>] \<rparr>))"

text \<open>Retrieval: the decompressed size and what was written to the caller's buffer.\<close>

definition retrieve_session_data :: "lz4 \<Rightarrow> nat \<Rightarrow> nat \<Rightarrow> ghost_cache \<Rightarrow> (nat \<times> bytes) option" where
  "retrieve_session_data L i buffer_size c =
     (if pool_max_blocks \<le> i \<or> \<not> me_is_active (gc_meta c ! i) then None
      else
        let meta = gc_meta c ! i in
        if buffer_size < me_original_size meta then None
        else
          let (n, out) = lz_decompress L (take (me_compressed_size meta) (drop (i * pool_block_size) (pl_mem (gc_pool c))))
                           (int_of_size (me_original_size meta)) in
          if n < 0 then None else Some (size_of_int n, out))"

definition close_tab :: "nat \<Rightarrow> ghost_cache \<Rightarrow> ghost_cache" where
  "close_tab i c =
     (if pool_max_blocks \<le> i then c
      else c\<lparr> gc_pool := deallocate pool_block_size pool_max_blocks i (gc_pool c), gc_meta := (gc_meta c)[i := new_metadata] \<rparr>)"

definition clear_all :: "ghost_cache \<Rightarrow> ghost_cache" where
  "clear_all c =
     (let c1 = fold (\<lambda>i c. if me_is_active (gc_meta c ! i) then close_tab i c else c) [0..<pool_max_blocks] c
      in c1\<lparr> gc_pool := clear_secure pool_block_size pool_max_blocks (gc_pool c1) \<rparr>)"

definition active_entries :: "ghost_cache \<Rightarrow> nat" where
  "active_entries c = length (filter me_is_active (gc_meta c))"

definition total_compressed_bytes :: "ghost_cache \<Rightarrow> nat" where
  "total_compressed_bytes c = sum_list (map me_compressed_size (filter me_is_active (gc_meta c)))"

definition total_uncompressed_bytes :: "ghost_cache \<Rightarrow> nat" where
  "total_uncompressed_bytes c = sum_list (map me_original_size (filter me_is_active (gc_meta c)))"

section \<open>Runs\<close>

datatype cache_event = Store bytes metadata | Close nat | Clear

definition cache_step :: "lz4 \<Rightarrow> cache_event \<Rightarrow> ghost_cache \<Rightarrow> ghost_cache" where
  "cache_step L e c =
     (case e of Store data meta \<Rightarrow> snd (store_session_data L data meta c) | Close i \<Rightarrow> close_tab i c | Clear \<Rightarrow> clear_all c)"

definition cache_run :: "lz4 \<Rightarrow> cache_event list \<Rightarrow> ghost_cache \<Rightarrow> ghost_cache" where
  "cache_run L es c = fold (cache_step L) es c"

text \<open>What LZ4 documents: given the room of \<open>LZ4_compressBound\<close>, here for data whose bound is
  at most the size of a block, it does not write beyond it \<dots>\<close>

definition lz4_bounded :: "lz4 \<Rightarrow> bool" where
  "lz4_bounded L \<longleftrightarrow>
     (\<forall>data. let n = int_of_size (length data); cap = lz_bound L n in
       cap \<le> int_max \<and> (size_of_int cap \<le> pool_block_size \<longrightarrow> length (snd (lz_compress L data n cap)) \<le> nat cap))"

text \<open>\<dots> and, for this data, compression into that room succeeds and is undone by decompression.\<close>

definition restores :: "lz4 \<Rightarrow> bytes \<Rightarrow> bool" where
  "restores L data =
     (let n = int (length data); cap = lz_bound L n; (r, out) = lz_compress L data n cap in
      0 < r \<and> r \<le> cap \<and> cap \<le> int_max \<and> r = int (length out) \<and> lz_decompress L out n = (n, data))"

definition cache_ok :: "ghost_cache \<Rightarrow> bool" where
  "cache_ok c \<longleftrightarrow>
     pool_ok pool_block_size pool_max_blocks (gc_pool c) \<and> length (gc_meta c) = pool_max_blocks \<and>
     (\<forall>i < pool_max_blocks. me_is_active (gc_meta c ! i) = pl_used (gc_pool c) ! i)"

lemma new_cache_ok: "cache_ok new_cache"
  by (simp add: cache_ok_def new_cache_def new_pool_ok, simp add: new_pool_def new_metadata_def)

text \<open>Outcomes of the allocator.\<close>

lemma allocate_Some:
  assumes "allocate bs mb n p = (Some i, q)" and "pool_ok bs mb p"
  shows "i < mb" "\<not> pl_used p ! i" "0 < n" "n \<le> bs" "pl_mem q = pl_mem p" "pl_used q = (pl_used p)[i := True]"
    "pl_sizes q = (pl_sizes p)[i := n]"
  using assms by (auto simp: allocate_def pool_ok_def find_idx_Some_iff split: if_splits option.splits)

lemma allocate_None: "allocate bs mb n p = (None, q) \<Longrightarrow> q = p"
  by (auto simp: allocate_def split: if_splits option.splits)

lemma size_of_int_eq: "0 \<le> i \<Longrightarrow> i \<le> int_max \<Longrightarrow> size_of_int i = nat i"
proof -
  assume h: "0 \<le> i" "i \<le> int_max"
  then have "uint (of_int i :: 64 word) = i" by (simp add: unsigned_of_int take_bit_int_eq_self int_max_def)
  then show "size_of_int i = nat i" unfolding size_of_int_def unat_eq_nat_uint by simp
qed

lemma size_of_int_le: "nat i \<le> size_of_int i" if "i \<le> int_max"
  using size_of_int_eq [of i] that by (cases "0 \<le> i") simp_all

lemma int_of_size_eq: "n \<le> 0x7E000000 \<Longrightarrow> int_of_size n = int n"
  by (simp add: int_of_size_def signed_of_nat signed_take_bit_int_eq_self)

lemma bounded_output:
  assumes "lz4_bounded L" and "size_of_int (lz_bound L (int_of_size (length data))) \<le> pool_block_size"
  shows "length (snd (lz_compress L data (int_of_size (length data)) (lz_bound L (int_of_size (length data))))) \<le>
    size_of_int (lz_bound L (int_of_size (length data)))"
  using assms size_of_int_le [of "lz_bound L (int_of_size (length data))"]
  by (auto simp: lz4_bounded_def Let_def intro: order_trans)

text \<open>Storing keeps the invariant: the block written is the one just allocated.\<close>

lemma store_pool:
  assumes "pool_ok bs mb p" and "allocate bs mb n p = (Some i, q)" and "length data \<le> n"
  shows "pool_ok bs mb (write_block bs i data q)" "pool_ok bs mb (deallocate bs mb i (write_block bs i data q))"
proof -
  note al = allocate_Some [OF assms(2,1)]
  have q: "pool_ok bs mb q" using allocate_ok [OF assms(1), of n] assms(2) by simp
  have "pl_sizes q ! i = n" using al assms(1) by (simp add: pool_ok_def)
  then show "pool_ok bs mb (write_block bs i data q)"
    using write_block_ok [OF q al(1), of data] assms(3) by simp
  then show "pool_ok bs mb (deallocate bs mb i (write_block bs i data q))" by (rule deallocate_ok)
qed

lemma deallocate_used:
  "pool_ok bs mb p \<Longrightarrow> j < mb \<Longrightarrow> pl_used (deallocate bs mb i p) ! j = (pl_used p ! j \<and> j \<noteq> i)"
  by (auto simp: deallocate_def pool_ok_def nth_list_update)

lemma store_ok:
  assumes "cache_ok c" and "lz4_bounded L"
  shows "cache_ok (snd (store_session_data L data meta c))"
proof -
  let ?cap = "lz_bound L (int_of_size (length data))"
  obtain r p where a: "allocate pool_block_size pool_max_blocks (size_of_int ?cap) (gc_pool c) = (r, p)"
    by (cases "allocate pool_block_size pool_max_blocks (size_of_int ?cap) (gc_pool c)")
  obtain sz out where l: "lz_compress L data (int_of_size (length data)) ?cap = (sz, out)"
    by (cases "lz_compress L data (int_of_size (length data)) ?cap")
  have ok: "pool_ok pool_block_size pool_max_blocks (gc_pool c)" using assms(1) by (simp add: cache_ok_def)
  show ?thesis
  proof (cases r)
    case None
    then show ?thesis using a assms(1) allocate_None [OF a [unfolded None]] by (simp add: store_session_data_def Let_def)
  next
    case (Some i)
    note al = allocate_Some [OF a [unfolded Some] ok]
    have out: "length out \<le> size_of_int ?cap" using bounded_output [OF assms(2) al(4)] l by simp
    note w = store_pool [OF ok a [unfolded Some] out]
    have used: "pl_used (write_block pool_block_size i out p) = (pl_used (gc_pool c))[i := True]"
      using al(6) by (simp add: write_block_def)
    show ?thesis
    proof (cases "sz \<le> 0")
      case True
      have "pl_used (deallocate pool_block_size pool_max_blocks i (write_block pool_block_size i out p)) ! j = pl_used (gc_pool c) ! j"
        if "j < pool_max_blocks" for j
        using deallocate_used [OF w(1) that, of i] used al(1,2) that ok by (auto simp: pool_ok_def nth_list_update)
      then show ?thesis using w(2) True a l Some assms(1) by (simp add: store_session_data_def cache_ok_def)
    next
      case False
      then show ?thesis using w(1) used a l Some assms(1) al(1) ok
        by (auto simp: store_session_data_def cache_ok_def pool_ok_def nth_list_update)
    qed
  qed
qed

lemma close_tab_ok: "cache_ok c \<Longrightarrow> cache_ok (close_tab i c)"
  using deallocate_ok [of pool_block_size pool_max_blocks "gc_pool c" i] deallocate_used [of pool_block_size pool_max_blocks "gc_pool c"]
  by (auto simp: cache_ok_def close_tab_def nth_list_update new_metadata_def)

text \<open>Clearing the pool empties it.\<close>

lemma clear_blocks:
  assumes "pool_ok bs mb p" and "n \<le> mb"
  shows "let q = fold (clear_block bs) [0..<n] p in
    length (pl_mem q) = mb * bs \<and> length (pl_used q) = mb \<and> length (pl_sizes q) = mb \<and>
    (\<forall>j < mb. if j < n then \<not> pl_used q ! j \<and> pl_sizes q ! j = 0 else pl_used q ! j = pl_used p ! j \<and> pl_sizes q ! j = pl_sizes p ! j) \<and>
    (\<forall>j < mb. \<forall>k < bs. pl_sizes q ! j \<le> k \<longrightarrow> pl_mem q ! (j * bs + k) = 0)"
  using assms(2)
proof (induction n)
  case 0
  then show ?case using assms(1) by (simp add: pool_ok_def)
next
  case (Suc n)
  define q where "q = fold (clear_block bs) [0..<n] p"
  have f: "fold (clear_block bs) [0..<Suc n] p = clear_block bs n q" by (simp add: q_def)
  have q: "length (pl_mem q) = mb * bs" "length (pl_used q) = mb" "length (pl_sizes q) = mb"
    "\<And>j. j < mb \<Longrightarrow> if j < n then \<not> pl_used q ! j \<and> pl_sizes q ! j = 0 else pl_used q ! j = pl_used p ! j \<and> pl_sizes q ! j = pl_sizes p ! j"
    "\<And>j k. j < mb \<Longrightarrow> k < bs \<Longrightarrow> pl_sizes q ! j \<le> k \<Longrightarrow> pl_mem q ! (j * bs + k) = 0"
    using Suc unfolding q_def [symmetric] by (simp_all add: Let_def)
  have n: "n < mb" using Suc.prems by simp
  define q1 where "q1 = q\<lparr> pl_count := of_nat (length (filter (\<lambda>u. u) (pl_used q))) \<rparr>"
  have "pl_sizes q ! j \<le> bs \<and> (pl_used q ! j \<or> pl_sizes q ! j = 0)" if "j < mb" for j
    using q(4) [OF that] assms(1) that by (cases "j < n") (simp_all add: pool_ok_def)
  then have q1: "pool_ok bs mb q1" using q by (simp add: pool_ok_def q1_def)
  have mem: "pl_mem (clear_block bs n q) = (if pl_used q ! n then pl_mem (wipe bs n q1) else pl_mem q)"
    by (simp add: clear_block_def wipe_def q1_def)
  have sz: "pl_sizes (clear_block bs n q) = (pl_sizes q)[n := 0]" "pl_used (clear_block bs n q) = (pl_used q)[n := False]"
    by (simp_all add: clear_block_def wipe_def)
  have w: "pool_ok bs mb (wipe bs n q1)" by (rule wipe_ok [OF q1 n])
  have z: "pl_mem (clear_block bs n q) ! (j * bs + k) = 0"
    if "j < mb" "k < bs" "(pl_sizes q)[n := 0] ! j \<le> k" for j k
  proof (cases "pl_used q ! n")
    case True
    show ?thesis
    proof (cases "j = n")
      case True
      then show ?thesis using wipe_zero [OF q1 n that(2)] \<open>pl_used q ! n\<close> mem by simp
    next
      case False
      then show ?thesis using w that \<open>pl_used q ! n\<close> mem by (simp add: pool_ok_def wipe_def q1_def)
    qed
  next
    case False
    then have "pl_sizes q ! n = 0" using q(4) [OF n] q1 n by (auto simp: pool_ok_def q1_def)
    then show ?thesis using False mem q(5) [OF that(1,2)] that(3) by (cases "j = n") simp_all
  qed
  have "length (pl_mem (clear_block bs n q)) = mb * bs" using mem w q(1) by (simp add: pool_ok_def)
  then show ?case unfolding f Let_def
    using sz q(2-4) z n by (auto simp: nth_list_update less_Suc_eq split: if_splits)
qed

lemma clear_secure_ok:
  assumes "pool_ok bs mb p"
  shows "pool_ok bs mb (clear_secure bs mb p)" "\<And>j. j < mb \<Longrightarrow> \<not> pl_used (clear_secure bs mb p) ! j"
proof -
  let ?q = "fold (clear_block bs) [0..<mb] p"
  have q: "length (pl_mem ?q) = mb * bs" "length (pl_used ?q) = mb" "length (pl_sizes ?q) = mb"
    "\<And>j. j < mb \<Longrightarrow> \<not> pl_used ?q ! j \<and> pl_sizes ?q ! j = 0"
    "\<And>j k. j < mb \<Longrightarrow> k < bs \<Longrightarrow> pl_sizes ?q ! j \<le> k \<Longrightarrow> pl_mem ?q ! (j * bs + k) = 0"
    using clear_blocks [OF assms order_refl] by (simp_all add: Let_def)
  then have "filter (\<lambda>u. u) (pl_used ?q) = []" by (auto simp: filter_empty_conv in_set_conv_nth)
  then show "pool_ok bs mb (clear_secure bs mb p)" "\<And>j. j < mb \<Longrightarrow> \<not> pl_used (clear_secure bs mb p) ! j"
    using q by (simp_all add: pool_ok_def clear_secure_def)
qed

lemma clear_all_ok:
  assumes "cache_ok c"
  shows "cache_ok (clear_all c)"
proof -
  let ?f = "\<lambda>i c. if me_is_active (gc_meta c ! i) then close_tab i c else c"
  let ?c = "\<lambda>n. fold ?f [0..<n] c"
  have "cache_ok (?c n) \<and> (\<forall>j < n. \<not> me_is_active (gc_meta (?c n) ! j))" if "n \<le> pool_max_blocks" for n
    using that
  proof (induction n)
    case 0
    then show ?case using assms by simp
  next
    case (Suc n)
    then have "length (gc_meta (?c n)) = pool_max_blocks" by (simp add: cache_ok_def)
    then show ?case using Suc close_tab_ok [of "?c n" n]
      by (auto simp: close_tab_def nth_list_update less_Suc_eq new_metadata_def)
  qed
  then have c: "cache_ok (?c pool_max_blocks)" "\<forall>j < pool_max_blocks. \<not> me_is_active (gc_meta (?c pool_max_blocks) ! j)" by simp_all
  have "pool_ok pool_block_size pool_max_blocks (gc_pool (?c pool_max_blocks))" using c(1) by (simp add: cache_ok_def)
  from clear_secure_ok [OF this] c show ?thesis by (simp add: clear_all_def Let_def cache_ok_def)
qed

lemma cache_run_ok: "lz4_bounded L \<Longrightarrow> cache_ok c \<Longrightarrow> cache_ok (cache_run L es c)"
  by (induction es arbitrary: c)
    (auto simp: cache_run_def cache_step_def store_ok close_tab_ok clear_all_ok split: cache_event.split)

section \<open>What is stored stays readable\<close>

text \<open>Block \<open>i\<close> holds the data: its entry is active, its size recorded, and LZ4 turns the compressed
  bytes in the block back into it.\<close>

definition holds :: "lz4 \<Rightarrow> ghost_cache \<Rightarrow> nat \<Rightarrow> bytes \<Rightarrow> bool" where
  "holds L c i data \<longleftrightarrow>
     i < pool_max_blocks \<and> me_is_active (gc_meta c ! i) \<and> me_original_size (gc_meta c ! i) = length data \<and>
     length data \<le> 0x7E000000 \<and>
     (\<exists>out. length out = me_compressed_size (gc_meta c ! i) \<and> length out \<le> pool_block_size \<and>
        (\<forall>k < length out. pl_mem (gc_pool c) ! (i * pool_block_size + k) = out ! k) \<and>
        lz_decompress L out (int (length data)) = (int (length data), data))"

lemma retrieve_held:
  assumes "holds L c i data" and "cache_ok c" and "length data \<le> n"
  shows "retrieve_session_data L i n c = Some (length data, data)"
proof -
  let ?m = "pl_mem (gc_pool c)"
  obtain out where out: "length out = me_compressed_size (gc_meta c ! i)" "length out \<le> pool_block_size"
    "\<forall>k < length out. ?m ! (i * pool_block_size + k) = out ! k"
    "lz_decompress L out (int (length data)) = (int (length data), data)"
    and h: "i < pool_max_blocks" "me_is_active (gc_meta c ! i)" "me_original_size (gc_meta c ! i) = length data"
      "length data \<le> 0x7E000000"
    using assms(1) by (auto simp: holds_def)
  have "i * pool_block_size + length out \<le> length ?m"
    using address_bound [OF h(1) out(2)] assms(2) by (simp add: cache_ok_def pool_ok_def)
  then have "take (length out) (drop (i * pool_block_size) ?m) = out"
    using out(3) by (intro nth_equalityI) simp_all
  then show ?thesis
    using h out(1,4) assms(3) size_of_int_eq [of "int (length data)"]
    by (simp add: retrieve_session_data_def int_of_size_eq int_max_def)
qed

text \<open>Cache states that differ only outside block \<open>i\<close>.\<close>

definition same_block :: "nat \<Rightarrow> ghost_cache \<Rightarrow> ghost_cache \<Rightarrow> bool" where
  "same_block i c d \<longleftrightarrow> gc_meta d ! i = gc_meta c ! i \<and>
     (\<forall>k < pool_block_size. pl_mem (gc_pool d) ! (i * pool_block_size + k) = pl_mem (gc_pool c) ! (i * pool_block_size + k))"

lemma holds_same: "holds L c i data \<Longrightarrow> same_block i c d \<Longrightarrow> holds L d i data"
  unfolding holds_def same_block_def by (elim conjE exE) (intro conjI exI; simp)

lemma write_other:
  assumes "pool_ok bs mb p" and "j < mb" and "i < mb" and "i \<noteq> j" and "length data \<le> bs" and "k < bs"
  shows "pl_mem (write_block bs j data p) ! (i * bs + k) = pl_mem p ! (i * bs + k)"
  using write_block_nth [OF assms(1,2,5,3,6)] assms(4) by simp

lemma deallocate_other:
  assumes "pool_ok bs mb p" and "i < mb" and "i \<noteq> j" and "k < bs"
  shows "pl_mem (deallocate bs mb j p) ! (i * bs + k) = pl_mem p ! (i * bs + k)"
proof (cases "j < mb \<and> pl_used p ! j")
  case True
  then have "length (replicate (pl_sizes p ! j) (0 :: byte)) \<le> bs" using assms(1) by (simp add: pool_ok_def)
  from write_other [OF assms(1) _ assms(2,3) this assms(4)] True show ?thesis
    by (simp add: deallocate_def wipe_is_write)
next
  case False
  then show ?thesis by (auto simp: deallocate_def)
qed

lemma store_same_block:
  assumes "cache_ok c" and "lz4_bounded L" and "i < pool_max_blocks" and "me_is_active (gc_meta c ! i)"
  shows "same_block i c (snd (store_session_data L data meta c))"
proof -
  let ?cap = "lz_bound L (int_of_size (length data))"
  obtain r p where a: "allocate pool_block_size pool_max_blocks (size_of_int ?cap) (gc_pool c) = (r, p)"
    by (cases "allocate pool_block_size pool_max_blocks (size_of_int ?cap) (gc_pool c)")
  obtain sz out where l: "lz_compress L data (int_of_size (length data)) ?cap = (sz, out)"
    by (cases "lz_compress L data (int_of_size (length data)) ?cap")
  have ok: "pool_ok pool_block_size pool_max_blocks (gc_pool c)" using assms(1) by (simp add: cache_ok_def)
  show ?thesis
  proof (cases r)
    case None
    then show ?thesis using a allocate_None [OF a [unfolded None]]
      by (simp add: store_session_data_def Let_def same_block_def)
  next
    case (Some j)
    note al = allocate_Some [OF a [unfolded Some] ok]
    have out: "length out \<le> size_of_int ?cap" using bounded_output [OF assms(2) al(4)] l by simp
    have ij: "i \<noteq> j" using al(2) assms by (auto simp: cache_ok_def)
    have p: "pool_ok pool_block_size pool_max_blocks p" using allocate_ok [OF ok, of "size_of_int ?cap"] a by simp
    note w = store_pool [OF ok a [unfolded Some] out]
    have m: "pl_mem (write_block pool_block_size j out p) ! (i * pool_block_size + k) = pl_mem (gc_pool c) ! (i * pool_block_size + k)"
      if "k < pool_block_size" for k
      using write_other [OF p al(1) assms(3) ij _ that, of out] out al(4,5) by simp
    then show ?thesis
      using a l Some ij deallocate_other [OF w(1) assms(3) ij]
      by (auto simp: store_session_data_def same_block_def Let_def)
  qed
qed

lemma close_same_block:
  assumes "cache_ok c" and "i < pool_max_blocks" and "i \<noteq> j"
  shows "same_block i c (close_tab j c)"
  using deallocate_other [of pool_block_size pool_max_blocks "gc_pool c" i j] assms
  by (auto simp: same_block_def close_tab_def cache_ok_def)

text \<open>An event that leaves tab \<open>i\<close> alone.\<close>

fun spares :: "nat \<Rightarrow> cache_event \<Rightarrow> bool" where
  "spares i (Store data meta) = True"
| "spares i (Close j) = (i \<noteq> j)"
| "spares i Clear = False"

lemma held_run:
  assumes "lz4_bounded L"
  shows "list_all (spares i) es \<Longrightarrow> cache_ok c \<Longrightarrow> holds L c i data \<Longrightarrow> holds L (cache_run L es c) i data"
proof (induction es arbitrary: c)
  case Nil
  then show ?case by (simp add: cache_run_def)
next
  case (Cons e es)
  have i: "i < pool_max_blocks" "me_is_active (gc_meta c ! i)" using Cons.prems(3) by (simp_all add: holds_def)
  have "same_block i c (cache_step L e c)"
    using Cons.prems(1,2) i store_same_block [OF Cons.prems(2) assms i] close_same_block [OF Cons.prems(2) i(1)]
    by (cases e) (auto simp: cache_step_def)
  then have "holds L (cache_step L e c) i data" by (rule holds_same [OF Cons.prems(3)])
  moreover have "cache_ok (cache_step L e c)"
    using cache_run_ok [OF assms Cons.prems(2), of "[e]"] by (simp add: cache_run_def)
  ultimately show ?case using Cons.IH [of "cache_step L e c"] Cons.prems(1) by (simp add: cache_run_def)
qed

lemma store_holds:
  assumes "cache_ok c" and "restores L data" and "length data \<le> 0x7E000000"
    and "store_session_data L data meta c = (Some i, d)"
  shows "holds L d i data"
proof -
  let ?n = "int (length data)"
  have n: "int_of_size (length data) = ?n" by (rule int_of_size_eq [OF assms(3)])
  obtain sz out where l: "lz_compress L data ?n (lz_bound L ?n) = (sz, out)"
    by (cases "lz_compress L data ?n (lz_bound L ?n)")
  have z: "0 < sz" "sz \<le> lz_bound L ?n" "lz_bound L ?n \<le> int_max" "sz = int (length out)"
    "lz_decompress L out ?n = (?n, data)"
    using assms(2) l by (auto simp: restores_def Let_def)
  obtain p where a: "allocate pool_block_size pool_max_blocks (size_of_int (lz_bound L ?n)) (gc_pool c) = (Some i, p)"
    and d: "d = c\<lparr> gc_pool := write_block pool_block_size i out p, gc_meta := (gc_meta c)[i := meta\<lparr> me_compressed_size := size_of_int sz,
          me_original_size := length data, me_is_encrypted := False, me_is_active := True \<rparr>] \<rparr>"
    using assms(4) l z(1) n by (auto simp: store_session_data_def Let_def split: prod.splits option.splits if_splits)
  have ok: "pool_ok pool_block_size pool_max_blocks (gc_pool c)" using assms(1) by (simp add: cache_ok_def)
  note al = allocate_Some [OF a ok]
  have p: "pool_ok pool_block_size pool_max_blocks p" using allocate_ok [OF ok] a by (metis snd_conv)
  have out: "length out \<le> pool_block_size"
    using z al(4) size_of_int_le [of "lz_bound L ?n"] by linarith
  have "size_of_int sz = length out" using z size_of_int_eq [of sz] by simp
  moreover have "pl_mem (write_block pool_block_size i out p) ! (i * pool_block_size + k) = out ! k" if "k < length out" for k
    using write_block_nth [OF p al(1) out al(1), of k] that out by simp
  moreover have "length (gc_meta c) = pool_max_blocks" using assms(1) by (simp add: cache_ok_def)
  ultimately show ?thesis
    unfolding holds_def d using al(1) out assms(3) z(5) by (intro conjI exI [of _ out]) simp_all
qed

lemma readable_after:
  assumes "lz4_bounded L" and "restores L data" and "length data \<le> 0x7E000000"
    and "store_session_data L data meta (cache_run L before new_cache) = (Some i, c)"
    and "list_all (spares i) after" and "length data \<le> n"
  shows "retrieve_session_data L i n (cache_run L after c) = Some (length data, data)"
proof -
  have b: "cache_ok (cache_run L before new_cache)" by (rule cache_run_ok [OF assms(1) new_cache_ok])
  have c: "cache_ok c" using store_ok [OF b assms(1), of data meta] assms(4) by simp
  show ?thesis
    using retrieve_held [OF held_run [OF assms(1,5) c store_holds [OF b assms(2,3,4)]] cache_run_ok [OF assms(1) c] assms(6)] .
qed

section \<open>The bundled codec\<close>

lemma shim_bound_range: "- (2 ^ 31) \<le> shim_bound n" "shim_bound n \<le> int_max"
proof -
  have "- (2 ^ 31) \<le> wrap32 v \<and> wrap32 v \<le> int_max" for v
    using sint_greater_eq [of "word_of_int v :: 32 word"] sint_lt [of "word_of_int v :: 32 word"]
    by (simp add: wrap32_def int_max_def)
  then show "- (2 ^ 31) \<le> shim_bound n" "shim_bound n \<le> int_max" by (simp_all add: shim_bound_def int_max_def)
qed

text \<open>A bound that fits into a block has not wrapped around.\<close>

lemma size_of_small: "size_of_int i \<le> pool_block_size \<Longrightarrow> - (2 ^ 31) \<le> i \<Longrightarrow> i \<le> int_max \<Longrightarrow> 0 \<le> i"
proof (rule ccontr)
  assume h: "size_of_int i \<le> pool_block_size" "- (2 ^ 31) \<le> i" "i \<le> int_max" "\<not> 0 \<le> i"
  have "i mod 2 ^ 64 = (i + 2 ^ 64) mod 2 ^ 64" by simp
  also have "\<dots> = i + 2 ^ 64" using h by (intro mod_pos_pos_trivial) simp_all
  finally have "uint (of_int i :: 64 word) = i + 2 ^ 64" by (simp add: unsigned_of_int take_bit_eq_mod)
  then have "int (size_of_int i) = i + 2 ^ 64" by (simp add: size_of_int_def)
  then show False using h by (simp add: pool_block_size_def)
qed

lemma shim_no_wrap:
  assumes "0 \<le> n" and "n \<le> int_max" and "0 \<le> shim_bound n"
  shows "shim_bound n = n + n div 255 + 16"
proof (rule ccontr)
  let ?v = "n + n div 255 + 16"
  assume w: "shim_bound n \<noteq> ?v"
  have d: "0 \<le> n div 255" "n div 255 \<le> int_max div 255"
    using assms by (simp_all add: pos_imp_zdiv_nonneg_iff zdiv_mono1)
  then have "2 ^ 31 \<le> ?v" using w assms wrap32_id [of ?v] by (fastforce simp: shim_bound_def)
  moreover have "?v < 2 ^ 32" using assms(2) d(2) by (simp add: int_max_def)
  ultimately have "signed_take_bit 31 (?v - 2 ^ 32) = ?v - 2 ^ 32"
    by (intro signed_take_bit_int_eq_self) simp_all
  then have "sint (word_of_int (?v - 2 ^ 32) :: 32 word) = ?v - 2 ^ 32" by (simp only: signed_of_int) simp
  moreover have "word_of_int (?v - 2 ^ 32) = (word_of_int ?v :: 32 word)" by simp
  ultimately have "wrap32 ?v = ?v - 2 ^ 32" by (simp only: wrap32_def)
  then show False using \<open>?v < 2 ^ 32\<close> assms by (simp add: shim_bound_def)
qed

lemma shim_bounded: "lz4_bounded shim_lz4"
proof -
  have "length (snd (shim_compress data n (shim_bound n))) \<le> nat (shim_bound n)"
    if "n = int_of_size (length data)" "size_of_int (shim_bound n) \<le> pool_block_size" for n data
  proof (cases "n < 0")
    case False
    have "n \<le> int_max" using that(1) sint_lt [of "of_nat (length data) :: 32 word"] by (simp add: int_of_size_def int_max_def)
    moreover have "0 \<le> shim_bound n" using size_of_small [OF that(2) shim_bound_range] .
    ultimately show ?thesis
      using shim_compress_code [of n data] shim_no_wrap [of n] False by auto
  qed (simp add: shim_compress_def)
  then show ?thesis using shim_bound_range(2) by (simp add: lz4_bounded_def shim_lz4_def Let_def)
qed

lemma shim_restores:
  assumes "length data \<le> 0x7E000000" and "data \<noteq> []" and "list_all readable (segments data)"
  shows "restores shim_lz4 data"
  using shim_facts [OF assms(1)] assms(2,3) shim_bound_range(2) [of "int (length data)"]
  by (auto simp: Let_def restores_def shim_lz4_def split: prod.splits)

text \<open>C19: A stored session stays readable.  If the codec stays within its bound and restores this data,
  then the data, stored at any point of any history, is returned unchanged by a retrieval with a
  large enough buffer, after any further stores and any closing of other tabs.  With the codec
  bundled with the repository this holds for all data that is not empty and in which the encoder
  finds no literal run of 128 bytes or more.\<close>

theorem stored_session_readable:
  assumes "lz4_bounded L \<and> restores L data \<or>
      L = shim_lz4 \<and> data \<noteq> [] \<and> list_all readable (segments data)"
    and "length data \<le> 0x7E000000"
    and "store_session_data L data meta (cache_run L before new_cache) = (Some i, c)"
    and "list_all (spares i) after" and "length data \<le> n"
  shows "retrieve_session_data L i n (cache_run L after c) = Some (length data, data)"
proof -
  have "lz4_bounded L" "restores L data" using assms(1,2) shim_bounded shim_restores by blast+
  then show ?thesis using readable_after assms(2-5) by blast
qed

lemma find_idx_replicate: "0 < n \<Longrightarrow> P x \<Longrightarrow> find_idx P (replicate n x) = Some 0"
  by (cases n) simp_all

lemma sample_segments: "segments [1, 2, 2, 2, 2, 2, 3] = [Literals [1], Run 5 2, Literals [3]]" by code_simp

lemma sample_store: "fst (store_session_data shim_lz4 [1, 2, 2, 2, 2, 2, 3] new_metadata new_cache) = Some 0"
proof -
  have n: "int_of_size (length [1, 2, 2, 2, 2, 2, 3 :: byte]) = 7" by (simp add: int_of_size_def)
  have b: "shim_bound 7 = 23" by (simp add: shim_bound_eq)
  have "shim_compress [1, 2, 2, 2, 2, 2, 3] 7 23 = (7, [1, 1, 0x80, 2, 2, 1, 3])" by code_simp
  moreover have "size_of_int 23 = 23" by (simp add: size_of_int_def)
  ultimately show ?thesis
    unfolding store_session_data_def n shim_lz4_def lz4.simps b Let_def
    by (simp add: new_cache_def new_pool_def allocate_def find_idx_replicate pool_max_blocks_def pool_block_size_def)
qed

lemma stored_session_readable_witness:
  "retrieve_session_data shim_lz4 0 10
     (cache_run shim_lz4 [Store [7] new_metadata, Close 5]
       (snd (store_session_data shim_lz4 [1, 2, 2, 2, 2, 2, 3] new_metadata new_cache))) = Some (7, [1, 2, 2, 2, 2, 2, 3])"
proof -
  let ?d = "[1, 2, 2, 2, 2, 2, 3] :: bytes"
  obtain c where c: "store_session_data shim_lz4 ?d new_metadata new_cache = (Some 0, c)"
    using sample_store by (cases "store_session_data shim_lz4 ?d new_metadata new_cache") simp
  then have "store_session_data shim_lz4 ?d new_metadata (cache_run shim_lz4 [] new_cache) = (Some 0, c)"
    by (simp add: cache_run_def)
  from stored_session_readable [OF _ _ this, of "[Store [7] new_metadata, Close 5]" 10]
  show ?thesis using c sample_segments by simp
qed

text \<open>C20: Closing a tab wipes it, with every codec that stays within its bound.  In every reachable state the bookkeeping of pool and cache agree, all
  memory outside the allocated part of live blocks is zero, and after closing a tab its whole block
  is zero and unallocated.\<close>

theorem close_tab_wipes:
  assumes "lz4_bounded L" and "i < pool_max_blocks"
  shows "cache_ok (cache_run L es new_cache) \<and>
    block_bytes pool_block_size i (gc_pool (close_tab i (cache_run L es new_cache))) = replicate pool_block_size 0 \<and>
    \<not> is_block_allocated pool_max_blocks i (gc_pool (close_tab i (cache_run L es new_cache)))"
proof -
  let ?c = "cache_run L es new_cache"
  have c: "cache_ok ?c" by (rule cache_run_ok [OF assms(1) new_cache_ok])
  have d: "cache_ok (close_tab i ?c)" by (rule close_tab_ok [OF c])
  then have ok: "pool_ok pool_block_size pool_max_blocks (gc_pool (close_tab i ?c))"
    and act: "me_is_active (gc_meta (close_tab i ?c) ! i) = pl_used (gc_pool (close_tab i ?c)) ! i"
    using assms(2) by (simp_all add: cache_ok_def)
  have "length (gc_meta ?c) = pool_max_blocks" using c by (simp add: cache_ok_def)
  then have free: "\<not> pl_used (gc_pool (close_tab i ?c)) ! i"
    using act assms(2) by (simp add: close_tab_def new_metadata_def)
  then have "pl_sizes (gc_pool (close_tab i ?c)) ! i = 0" using ok assms(2) by (auto simp: pool_ok_def)
  then have "\<forall>k < pool_block_size. pl_mem (gc_pool (close_tab i ?c)) ! (i * pool_block_size + k) = 0"
    using ok assms(2) by (simp add: pool_ok_def)
  moreover have "i * pool_block_size + pool_block_size \<le> length (pl_mem (gc_pool (close_tab i ?c)))"
    using address_bound [OF assms(2) order_refl] ok by (simp add: pool_ok_def)
  ultimately have "block_bytes pool_block_size i (gc_pool (close_tab i ?c)) = replicate pool_block_size 0"
    by (intro nth_equalityI) (simp_all add: block_bytes_def)
  then show ?thesis using c free by (simp add: is_block_allocated_def)
qed

lemma close_tab_wipes_witness:
  "block_bytes pool_block_size 3 (gc_pool (close_tab 3 (cache_run shim_lz4 [Store [1, 2, 3] new_metadata] new_cache))) =
    replicate pool_block_size 0"
proof -
  have "3 < pool_max_blocks" by (simp add: pool_max_blocks_def)
  from close_tab_wipes [OF shim_bounded this, of "[Store [1, 2, 3] new_metadata]"] show ?thesis by blast
qed

end
