(* ===== verification/Http_Client.thy ===== *)
theory Http_Client
  imports Color Numerals
begin

text \<open>
  \<open>network/http_client.hpp\<close> and the header parser \<open>HttpSniffer\<close> of
  \<open>network/socket_abstraction.hpp\<close>.  The socket and TLS layers are not modelled: what a
  connection does is a value of \<open>exchange\<close>, given by a parameter that also carries the state of
  the network.  A connection is the list of the results of its \<open>recv\<close> calls (\<open>None\<close> for an
  error), after which it reports the end of the stream.  \<open>None\<close> as the result of
  \<open>decode_chunked\<close> and of everything above it means that the call does not return.
\<close>

section \<open>Numbers\<close>

definition size_max :: nat where "size_max = 2 ^ 64 - 1"

text \<open>For \<open>int\<close>, a minus sign is accepted.\<close>

definition int_from_chars :: "string \<Rightarrow> int option" where
  "int_from_chars s =
     (if is_prefix ''-'' s then map_option (\<lambda>n. - int n) (from_chars dec_value 10 (2 ^ 31) (drop 1 s))
      else map_option int (from_chars dec_value 10 (2 ^ 31 - 1) s))"

definition crlf :: string where "crlf = [CHR 0x0D, CHR 0x0A]"

section \<open>Header parsing\<close>

datatype content_kind = Unknown | HTML | CSS | JavaScript | Binary | JSON | Other

record response_metadata =
  md_content_type :: content_kind
  md_content_length :: nat
  md_has_javascript :: bool
  md_status_line :: string
  md_headers :: "(string \<times> string) list"

definition new_metadata :: response_metadata where
  "new_metadata = \<lparr> md_content_type = Unknown, md_content_length = 0, md_has_javascript = False,
     md_status_line = [], md_headers = [] \<rparr>"

definition contains :: "string \<Rightarrow> string \<Rightarrow> bool" where
  "contains p s = (find_sub p s \<noteq> None)"

definition detect_content_type :: "string \<Rightarrow> content_kind" where
  "detect_content_type h =
     (let l = lower h in
      if contains ''text/html'' l then HTML
      else if contains ''text/css'' l then CSS
      else if contains ''javascript'' l \<or> contains ''application/x-javascript'' l then JavaScript
      else if contains ''application/json'' l then JSON
      else if contains ''image/'' l \<or> contains ''video/'' l \<or> contains ''audio/'' l \<or> contains ''application/octet-stream'' l then Binary
      else Other)"

text \<open>What a string holds after it was moved from (in every common standard library).\<close>

definition moved_from :: string where "moved_from = []"

definition blank_prefix :: "char \<Rightarrow> bool" where
  "blank_prefix c \<longleftrightarrow> c = CHR '' '' \<or> c = CHR 0x09"

definition sniff_line :: "string \<Rightarrow> response_metadata \<Rightarrow> response_metadata" where
  "sniff_line line md =
     (case find_idx (\<lambda>c. c = CHR '':'') line of
        None \<Rightarrow> md
      | Some i \<Rightarrow>
          let key = take i line; value0 = drop (i + 1) line; stripped = dropWhile blank_prefix value0;
              val = (if stripped = [] then value0 else stripped);
              md1 = md\<lparr> md_headers := md_headers md @ [(key, val)] \<rparr>;
              key = moved_from; val = moved_from;
              md2 = (if key = ''Content-Type'' \<or> key = ''content-type''
                     then md1\<lparr> md_content_type := detect_content_type val, md_has_javascript := contains ''javascript'' val \<rparr>
                     else md1) in
          if key = ''Content-Length'' \<or> key = ''content-length''
          then (case from_chars dec_value 10 size_max val of Some n \<Rightarrow> md2\<lparr> md_content_length := n \<rparr> | None \<Rightarrow> md2)
          else md2)"

function header_lines :: "string \<Rightarrow> response_metadata \<Rightarrow> response_metadata" where
  "header_lines rest md =
     (if rest = [] then md
      else case find_sub crlf rest of
        None \<Rightarrow> sniff_line rest md
      | Some i \<Rightarrow> header_lines (drop (i + 2) rest) (sniff_line (take i rest) md))"
  by pat_completeness auto
termination by (relation "measure (\<lambda>(r, m). length r)") auto

declare header_lines.simps [simp del]

text \<open>Without a line end in the header section the position is \<open>npos + 2\<close>, which is 1.\<close>

definition parse_response_headers :: "string \<Rightarrow> response_metadata" where
  "parse_response_headers raw =
     (case find_sub (crlf @ crlf) raw of
        None \<Rightarrow> new_metadata
      | Some e \<Rightarrow>
          let headers = take e raw in
          case find_sub crlf headers of
            Some i \<Rightarrow> header_lines (drop (i + 2) headers) (new_metadata\<lparr> md_status_line := take i headers \<rparr>)
          | None \<Rightarrow> header_lines (drop 1 headers) new_metadata)"

definition can_bypass_script_engine :: "response_metadata \<Rightarrow> bool" where
  "can_bypass_script_engine md =
     (if md_content_type md = HTML \<or> md_content_type md = CSS then \<not> md_has_javascript md
      else md_content_type md = Binary)"

section \<open>URLs\<close>

record parsed_http_url =
  pu_scheme :: string
  pu_host :: string
  pu_path :: string
  pu_port :: nat
  pu_valid :: bool

definition new_parsed_url :: parsed_http_url where
  "new_parsed_url = \<lparr> pu_scheme = [], pu_host = [], pu_path = [], pu_port = 80, pu_valid = False \<rparr>"

text \<open>Host and explicit port of an authority; the port is cut to 16 bits.\<close>

definition split_authority :: "string \<Rightarrow> string \<times> nat option" where
  "split_authority authority =
     (case rfind_idx (\<lambda>c. c = CHR '':'') authority of
        None \<Rightarrow> (authority, None)
      | Some i \<Rightarrow> (take i authority, map_option (\<lambda>n. n mod 2 ^ 16) (from_chars dec_value 10 (2 ^ 32 - 1) (drop (i + 1) authority))))"

definition parse_http_url :: "string \<Rightarrow> parsed_http_url" where
  "parse_http_url url =
     (case find_sub ''://'' url of
        None \<Rightarrow> new_parsed_url
      | Some e \<Rightarrow>
          let s = lower (take e url); out = new_parsed_url\<lparr> pu_scheme := s \<rparr> in
          if s \<noteq> ''http'' \<and> s \<noteq> ''https'' then out
          else
            let rest = drop (e + 3) url; slash = find_idx (\<lambda>c. c = CHR ''/'') rest;
                a = split_authority (take_opt slash rest) in
            out\<lparr> pu_path := (case slash of None \<Rightarrow> ''/'' | Some i \<Rightarrow> drop i rest), pu_host := fst a,
                 pu_port := (case snd a of Some p \<Rightarrow> p | None \<Rightarrow> if s = ''https'' then 443 else 80),
                 pu_valid := fst a \<noteq> [] \<rparr>)"

definition http_blank :: "char \<Rightarrow> bool" where
  "http_blank c \<longleftrightarrow> c = CHR '' '' \<or> c = CHR 0x09 \<or> c = CHR 0x0D \<or> c = CHR 0x0A"

definition http_trim :: "string \<Rightarrow> string" where
  "http_trim s = trim_by http_blank s"

definition http_resolve_url :: "string \<Rightarrow> string \<Rightarrow> string" where
  "http_resolve_url base location =
     (if is_prefix ''http://'' location \<or> is_prefix ''https://'' location then location
      else
        let parsed = parse_http_url base in
        if \<not> pu_valid parsed then location
        else
          let origin = pu_scheme parsed @ ''://'' @ pu_host parsed @
                (if pu_scheme parsed = ''http'' \<and> pu_port parsed \<noteq> 80 \<or> pu_scheme parsed = ''https'' \<and> pu_port parsed \<noteq> 443
                 then '':'' @ dec_text (pu_port parsed) else []) in
          if is_prefix ''/'' location then origin @ location
          else
            let directory = (case rfind_idx (\<lambda>c. c = CHR ''/'') (pu_path parsed) of
                None \<Rightarrow> ''/'' | Some i \<Rightarrow> take (i + 1) (pu_path parsed)) in
            origin @ directory @ location)"

section \<open>Responses and cookies\<close>

record response_data =
  rd_status :: int
  rd_status_line :: string
  rd_headers :: "(string \<times> string) list"
  rd_body :: string
  rd_error :: string

definition new_response :: response_data where
  "new_response = \<lparr> rd_status = 0, rd_status_line = [], rd_headers = [], rd_body = [], rd_error = [] \<rparr>"

definition response_ok :: "response_data \<Rightarrow> bool" where
  "response_ok r \<longleftrightarrow> 200 \<le> rd_status r \<and> rd_status r < 400"

definition lower_equals :: "string \<Rightarrow> string \<Rightarrow> bool" where
  "lower_equals a b \<longleftrightarrow> lower a = lower b"

definition response_header :: "string \<Rightarrow> response_data \<Rightarrow> string" where
  "response_header name r =
     (case find (\<lambda>h. lower_equals (fst h) name) (rd_headers r) of Some h \<Rightarrow> snd h | None \<Rightarrow> [])"

record http_cookie =
  hc_host :: string
  hc_name :: string
  hc_value :: string

definition put_cookie :: "string \<Rightarrow> string \<Rightarrow> string \<Rightarrow> http_cookie list \<Rightarrow> http_cookie list" where
  "put_cookie host name val jar =
     (if list_ex (\<lambda>c. hc_host c = host \<and> hc_name c = name) jar
      then map (\<lambda>c. if hc_host c = host \<and> hc_name c = name then c\<lparr> hc_value := val \<rparr> else c) jar
      else jar @ [\<lparr> hc_host = host, hc_name = name, hc_value = val \<rparr>])"

definition store_cookie :: "string \<Rightarrow> string \<times> string \<Rightarrow> http_cookie list \<Rightarrow> http_cookie list" where
  "store_cookie host h jar =
     (if lower (fst h) \<noteq> ''set-cookie'' then jar
      else
        let pair = take_opt (find_idx (\<lambda>c. c = CHR '';'') (snd h)) (snd h) in
        case find_idx (\<lambda>c. c = CHR ''='') pair of
          None \<Rightarrow> jar
        | Some i \<Rightarrow>
            let name = http_trim (take i pair) in
            if name = [] then jar else put_cookie host name (http_trim (drop (i + 1) pair)) jar)"

definition http_store_cookies :: "string \<Rightarrow> response_data \<Rightarrow> http_cookie list \<Rightarrow> http_cookie list" where
  "http_store_cookies host r jar = fold (store_cookie host) (rd_headers r) jar"

definition http_cookie_header :: "string \<Rightarrow> http_cookie list \<Rightarrow> string" where
  "http_cookie_header host jar =
     fold (\<lambda>c acc. if hc_host c \<noteq> host then acc
                   else (if acc = [] then [] else acc @ ''; '') @ hc_name c @ ''='' @ hc_value c) jar []"

section \<open>Reading a response\<close>

type_synonym connection = "string option list"

fun read_headers :: "connection \<Rightarrow> string \<Rightarrow> (string + string) \<times> connection" where
  "read_headers conn out =
     (if contains (crlf @ crlf) out then (Inr out, conn)
      else case conn of
        [] \<Rightarrow> (Inr out, [])
      | None # r \<Rightarrow> (Inl ''Failed while reading response'', r)
      | Some b # r \<Rightarrow>
          if b = [] then (Inr out, r)
          else if 256 * 1024 < length (out @ b) \<and> \<not> contains (crlf @ crlf) (out @ b)
          then (Inl ''Response headers too large'', r)
          else read_headers r (out @ b))"

declare read_headers.simps [simp del]

fun read_until :: "connection \<Rightarrow> string \<Rightarrow> nat \<Rightarrow> string" where
  "read_until conn out wanted =
     (if length out < wanted then
        (case conn of
           Some (c # b) # r \<Rightarrow> read_until r (out @ c # b) wanted
         | _ \<Rightarrow> out)
      else out)"

declare read_until.simps [simp del]

fun read_remaining :: "connection \<Rightarrow> string \<Rightarrow> string" where
  "read_remaining (Some (c # b) # r) out = read_remaining r (out @ c # b)"
| "read_remaining _ out = out"

text \<open>One chunk at \<open>pos\<close>: the data to append and the next position, both in \<open>size_t\<close>
  arithmetic, or \<open>None\<close> where the loop ends.\<close>

definition chunk_step :: "string \<Rightarrow> nat \<Rightarrow> (string \<times> nat) option" where
  "chunk_step data pos =
     (if length data \<le> pos then None
      else case find_sub_from crlf data pos of
        None \<Rightarrow> None
      | Some e \<Rightarrow>
          (case from_chars hex_value 16 size_max (take (e - pos) (drop pos data)) of
             None \<Rightarrow> None
           | Some n \<Rightarrow>
               if n = 0 then None
               else
                 let p = e + 2; n = (if length data < (p + n) mod 2 ^ 64 then length data - p else n);
                     next = (p + n) mod 2 ^ 64 in
                 Some (take n (drop p data), if take 2 (drop next data) = crlf then next + 2 else next)))"

partial_function (option) chunk_loop :: "string \<Rightarrow> nat \<Rightarrow> string \<Rightarrow> string option" where
  "chunk_loop data pos out =
     (case chunk_step data pos of
        None \<Rightarrow> Some out
      | Some (piece, next) \<Rightarrow> chunk_loop data next (out @ piece))"

definition decode_chunked :: "string \<Rightarrow> string option" where
  "decode_chunked data = chunk_loop data 0 []"

definition parse_size :: "string \<Rightarrow> nat" where
  "parse_size s = (case from_chars dec_value 10 size_max s of Some n \<Rightarrow> n | None \<Rightarrow> 0)"

section \<open>Requests\<close>

datatype exchange = Connect_failed | Tls_failed string | Send_failed | Stream connection

definition request_text :: "string \<Rightarrow> parsed_http_url \<Rightarrow> string \<Rightarrow> (string \<times> string) list \<Rightarrow> string \<Rightarrow> string" where
  "request_text verb parsed cookies headers body =
     verb @ '' '' @ pu_path parsed @ '' HTTP/1.1'' @ crlf @
     ''Host: '' @ pu_host parsed @ crlf @
     ''User-Agent: Aetheris/1.0'' @ crlf @
     ''Accept: */*'' @ crlf @
     (if cookies = [] then [] else ''Cookie: '' @ cookies @ crlf) @
     ''Connection: close'' @ crlf @
     concat (map (\<lambda>h. fst h @ '': '' @ snd h @ crlf) headers) @
     (if body = [] then [] else ''Content-Length: '' @ dec_text (length body) @ crlf) @
     crlf @ body"

text \<open>The response to what was read up to the end of the headers.\<close>

definition response_start :: "string \<Rightarrow> nat \<Rightarrow> response_data" where
  "response_start raw header_end =
     (let md = parse_response_headers (take (header_end + 4) raw);
          status = (case find_idx (\<lambda>c. c = CHR '' '') (md_status_line md) of
              None \<Rightarrow> None | Some i \<Rightarrow> int_from_chars (drop (i + 1) (md_status_line md))) in
      new_response\<lparr> rd_status_line := md_status_line md, rd_headers := md_headers md,
        rd_status := (case status of Some n \<Rightarrow> n | None \<Rightarrow> 0) \<rparr>)"

definition read_body :: "response_data \<Rightarrow> connection \<Rightarrow> string \<Rightarrow> string option" where
  "read_body r conn remainder =
     (if lower_equals (response_header ''Transfer-Encoding'' r) ''chunked''
      then decode_chunked (read_remaining conn remainder)
      else
        let content_length = response_header ''Content-Length'' r in
        if content_length \<noteq> [] then
          let wanted = parse_size content_length in Some (take wanted (read_until conn remainder wanted))
        else Some (read_remaining conn remainder))"

definition read_response :: "connection \<Rightarrow> response_data option" where
  "read_response conn =
     (case read_headers conn [] of
        (Inl e, _) \<Rightarrow> Some (new_response\<lparr> rd_error := e \<rparr>)
      | (Inr raw, conn) \<Rightarrow>
          (case find_sub (crlf @ crlf) raw of
             None \<Rightarrow> Some (new_response\<lparr> rd_error := ''Malformed response'' \<rparr>)
           | Some e \<Rightarrow>
               let r = response_start raw e in
               map_option (\<lambda>b. r\<lparr> rd_body := b \<rparr>) (read_body r conn (drop (e + 4) raw))))"

record 'n client =
  cl_cookies :: "http_cookie list"
  cl_net :: 'n

type_synonym 'n network = "parsed_http_url \<Rightarrow> string \<Rightarrow> 'n \<Rightarrow> exchange \<times> 'n"

definition fail_with :: "string \<Rightarrow> response_data" where
  "fail_with e = new_response\<lparr> rd_error := e \<rparr>"

definition request_once ::
  "bool \<Rightarrow> 'n network \<Rightarrow> string \<Rightarrow> string \<Rightarrow> (string \<times> string) list \<Rightarrow> string \<Rightarrow> 'n client \<Rightarrow> (response_data \<times> 'n client) option" where
  "request_once tls_available network url verb headers body c =
     (let parsed = parse_http_url url in
      if \<not> pu_valid parsed then Some (fail_with ''Invalid or unsupported URL'', c)
      else if pu_scheme parsed = ''https'' \<and> \<not> tls_available then Some (fail_with ''TLS support is not built in'', c)
      else
        let (x, n) = network parsed (request_text verb parsed (http_cookie_header (pu_host parsed) (cl_cookies c)) headers body) (cl_net c);
            c1 = c\<lparr> cl_net := n \<rparr> in
        case x of
          Connect_failed \<Rightarrow> Some (fail_with (''Could not connect to '' @ pu_host parsed), c1)
        | Tls_failed e \<Rightarrow> Some (fail_with e, c1)
        | Send_failed \<Rightarrow> Some (fail_with ''Failed to send request'', c1)
        | Stream conn \<Rightarrow>
            map_option (\<lambda>r. (r, if rd_error r = [] then c1\<lparr> cl_cookies := http_store_cookies (pu_host parsed) r (cl_cookies c1) \<rparr> else c1))
              (read_response conn))"

definition is_redirect :: "int \<Rightarrow> bool" where
  "is_redirect s \<longleftrightarrow> s = 301 \<or> s = 302 \<or> s = 303 \<or> s = 307 \<or> s = 308"

text \<open>The redirect loop: \<open>n\<close> more hops are allowed.\<close>

primrec request_loop ::
  "nat \<Rightarrow> bool \<Rightarrow> 'n network \<Rightarrow> string \<Rightarrow> string \<Rightarrow> (string \<times> string) list \<Rightarrow> string \<Rightarrow> 'n client \<Rightarrow> (response_data \<times> 'n client) option" where
  "request_loop 0 tls network url verb headers body c = Some (fail_with ''Too many redirects'', c)"
| "request_loop (Suc n) tls network url verb headers body c =
     (case request_once tls network url verb headers body c of
        None \<Rightarrow> None
      | Some (r, c) \<Rightarrow>
          if rd_error r \<noteq> [] then Some (r, c)
          else if is_redirect (rd_status r) then
            let location = response_header ''Location'' r in
            if location = [] then Some (r, c)
            else request_loop n tls network (http_resolve_url url location)
                   (if rd_status r = 303 then ''GET'' else verb) headers (if rd_status r = 303 then [] else body) c
          else Some (r, c))"

definition http_client_request ::
  "bool \<Rightarrow> 'n network \<Rightarrow> string \<Rightarrow> string \<Rightarrow> (string \<times> string) list \<Rightarrow> string \<Rightarrow> 'n client \<Rightarrow> (response_data \<times> 'n client) option" where
  "http_client_request = request_loop 6"

definition http_client_get :: "bool \<Rightarrow> 'n network \<Rightarrow> string \<Rightarrow> 'n client \<Rightarrow> (response_data \<times> 'n client) option" where
  "http_client_get tls network url = http_client_request tls network url ''GET'' [] []"

definition clear_cookies :: "'n client \<Rightarrow> 'n client" where
  "clear_cookies c = c\<lparr> cl_cookies := [] \<rparr>"

section \<open>Hexadecimal numbers\<close>

fun hex_number :: "nat \<Rightarrow> string" where
  "hex_number n = (if n < 16 then [hex_char n] else hex_number (n div 16) @ [hex_char (n mod 16)])"

declare hex_number.simps [simp del]

interpretation hex: positional 16 hex_value hex_char hex_number
  by unfold_locales (simp_all add: hex_value_char hex_number.simps)

section \<open>Chunked bodies\<close>

text \<open>A chunk: an extension (empty, or starting with a semicolon and free of carriage returns) and its data.\<close>

definition chunk_text :: "string \<times> string \<Rightarrow> string" where
  "chunk_text c = hex_number (length (snd c)) @ fst c @ crlf @ snd c @ crlf"

definition chunk_ok :: "string \<times> string \<Rightarrow> bool" where
  "chunk_ok c \<longleftrightarrow> snd c \<noteq> [] \<and> (fst c = [] \<or> hd (fst c) = CHR '';'') \<and> CHR 0x0D \<notin> set (fst c)"

definition encode_chunks :: "(string \<times> string) list \<Rightarrow> string" where
  "encode_chunks cs = concat (map chunk_text cs) @ ''0'' @ crlf @ crlf"

lemma is_prefix_Cons_iff [simp]: "is_prefix (a # p) s \<longleftrightarrow> s \<noteq> [] \<and> hd s = a \<and> is_prefix p (tl s)"
  by (cases s) auto

text \<open>A pattern that starts with a carriage return is not found before the first one.\<close>

lemma find_sub_skip:
  "a \<notin> set s \<Longrightarrow> find_sub (a # p) (s @ t) = map_option (\<lambda>i. length s + i) (find_sub (a # p) t)"
  by (induction s; cases "find_sub (a # p) t") auto

lemma hex_digit_not_cr: "hex_value c \<noteq> None \<Longrightarrow> c \<noteq> CHR 0x0D \<and> c \<noteq> CHR '';''"
  by (auto simp: hex_value_def Let_def split: if_splits)

lemma no_cr_hex_number: "CHR 0x0D \<notin> set (hex_number n)"
  using hex.shown_digits [of n] hex_digit_not_cr by (auto simp: list_all_iff)

lemma chunk_step_inside:
  assumes "pos < length data" and "find_sub_from crlf data pos = Some e"
    and "from_chars hex_value 16 size_max (take (e - pos) (drop pos data)) = Some n" and "n \<noteq> 0"
    and "e + 2 + n \<le> length data" and "length data < 2 ^ 63"
  shows "chunk_step data pos =
    Some (take n (drop (e + 2) data), if take 2 (drop (e + 2 + n) data) = crlf then e + 2 + n + 2 else e + 2 + n)"
proof -
  have "(e + 2 + n) mod 2 ^ 64 = e + 2 + n" using assms(5,6) by (intro mod_less) simp
  then show ?thesis using assms(1,4,5) by (simp add: chunk_step_def assms(2,3) Let_def)
qed

lemma chunk_step_chunk:
  assumes "chunk_ok c" and "length (pre @ chunk_text c @ post) < 2 ^ 63"
  shows "chunk_step (pre @ chunk_text c @ post) (length pre) = Some (snd c, length (pre @ chunk_text c))"
proof -
  let ?data = "pre @ chunk_text c @ post"
  let ?h = "hex_number (length (snd c)) @ fst c"
  have d: "drop (length pre) ?data = ?h @ crlf @ snd c @ crlf @ post" by (simp add: chunk_text_def)
  have len: "length ?data = length pre + length ?h + 2 + length (snd c) + 2 + length post"
    by (simp add: chunk_text_def crlf_def)
  have "CHR 0x0D \<notin> set ?h" using assms(1) no_cr_hex_number by (simp add: chunk_ok_def)
  then have "find_sub crlf (?h @ crlf @ snd c @ crlf @ post) = Some (length ?h)"
    unfolding crlf_def by (subst find_sub_skip) auto
  then have e: "find_sub_from crlf ?data (length pre) = Some (length pre + length ?h)"
    unfolding find_sub_from_def d by simp
  have tk: "take (length pre + length ?h - length pre) (drop (length pre) ?data) = ?h" unfolding d by simp
  have "length (snd c) \<le> size_max" using assms(2) len by (simp add: size_max_def)
  then have n: "from_chars hex_value 16 size_max ?h = Some (length (snd c))"
    using assms(1) by (intro hex.from_chars_shown) (auto simp: chunk_ok_def hex_value_def)
  have dp: "drop (length pre + length ?h + 2) ?data = snd c @ crlf @ post"
    by (simp add: chunk_text_def crlf_def)
  have "drop (length pre + length ?h + 2 + length (snd c)) ?data = drop (length (snd c)) (drop (length pre + length ?h + 2) ?data)"
    by (simp only: drop_drop add.commute)
  then have dq: "drop (length pre + length ?h + 2 + length (snd c)) ?data = crlf @ post" unfolding dp by simp
  have "chunk_step ?data (length pre) = Some (take (length (snd c)) (drop (length pre + length ?h + 2) ?data),
      if take 2 (drop (length pre + length ?h + 2 + length (snd c)) ?data) = crlf
      then length pre + length ?h + 2 + length (snd c) + 2 else length pre + length ?h + 2 + length (snd c))"
    by (rule chunk_step_inside [OF _ e]) (use assms tk n len in \<open>auto simp: chunk_ok_def\<close>)
  then show ?thesis unfolding dp dq by (simp add: chunk_text_def crlf_def)
qed

lemma chunk_step_last: "chunk_step (pre @ ''0'' @ crlf @ crlf) (length pre) = None"
proof -
  have "find_sub crlf (''0'' @ crlf @ crlf) = Some 1" by (simp add: crlf_def)
  moreover have "from_chars hex_value 16 size_max ''0'' = Some 0"
    by (simp add: from_chars_def hex_value_def Let_def)
  ultimately show ?thesis by (simp add: chunk_step_def find_sub_from_def)
qed

lemma chunk_loop_chunks:
  assumes "list_all chunk_ok cs" and "length (pre @ encode_chunks cs) < 2 ^ 63"
  shows "chunk_loop (pre @ encode_chunks cs) (length pre) out = Some (out @ concat (map snd cs))"
  using assms
proof (induction cs arbitrary: pre out)
  case Nil
  show ?case using chunk_step_last [of pre] by (subst chunk_loop.simps) (simp add: encode_chunks_def)
next
  case (Cons c cs)
  have e: "pre @ encode_chunks (c # cs) = pre @ chunk_text c @ encode_chunks cs"
    by (simp add: encode_chunks_def)
  have s: "chunk_step (pre @ encode_chunks (c # cs)) (length pre) = Some (snd c, length (pre @ chunk_text c))"
    unfolding e by (rule chunk_step_chunk) (use Cons.prems e in auto)
  have "chunk_loop ((pre @ chunk_text c) @ encode_chunks cs) (length (pre @ chunk_text c)) (out @ snd c) =
      Some ((out @ snd c) @ concat (map snd cs))"
    by (rule Cons.IH) (use Cons.prems e in auto)
  then show ?case using s unfolding e by (subst chunk_loop.simps) simp
qed

text \<open>C17: Chunked bodies are decoded exactly.  For any sequence of non-empty chunks, each with any
  extension, \<open>decode_chunked\<close> returns and gives the concatenation of the chunks.\<close>

theorem decode_chunked_roundtrip:
  assumes "list_all chunk_ok cs" and "length (encode_chunks cs) < 2 ^ 63"
  shows "decode_chunked (encode_chunks cs) = Some (concat (map snd cs))"
  using chunk_loop_chunks [of cs "[]" "[]"] assms by (simp add: decode_chunked_def)

lemma decode_chunked_roundtrip_witness:
  "decode_chunked (encode_chunks [(''; a=b'', ''Wiki''), ([], ''pedia in chunks.'')]) = Some ''Wikipedia in chunks.''"
proof -
  have "list_all chunk_ok [('';a=b'', ''Wiki''), ([], ''pedia in chunks.'')]" by (simp add: chunk_ok_def)
  moreover have "list_all chunk_ok [(''; a=b'', ''Wiki''), ([], ''pedia in chunks.'')]" by (simp add: chunk_ok_def)
  moreover have "length (encode_chunks [(''; a=b'', ''Wiki''), ([], ''pedia in chunks.'')]) < 2 ^ 63"
    by (simp add: encode_chunks_def chunk_text_def hex_number.simps crlf_def)
  ultimately show ?thesis using decode_chunked_roundtrip [of "[(''; a=b'', ''Wiki''), ([], ''pedia in chunks.'')]"] by simp
qed

text \<open>A hostile server can hang the client.  With a first chunk size of 2^64 - 18 the sum
  \<open>pos + chunk_size\<close> wraps to 0, passes the bounds check and sends the loop back to the start:
  whatever follows, \<open>decode_chunked\<close> never returns.\<close>

theorem decode_chunked_hangs: "decode_chunked (''FFFFFFFFFFFFFFEE'' @ crlf @ rest) = None"
proof (rule ccontr)
  let ?data = "''FFFFFFFFFFFFFFEE'' @ crlf @ rest"
  assume "decode_chunked ?data \<noteq> None"
  then obtain r where r: "chunk_loop ?data 0 [] = Some r" by (auto simp: decode_chunked_def)
  have e: "find_sub_from crlf ?data 0 = Some 16"
    by (simp add: find_sub_from_def crlf_def)
  have n: "from_chars hex_value 16 size_max (take (16 - 0) (drop 0 ?data)) = Some (2 ^ 64 - 18)"
    by (simp add: from_chars_def hex_value_def Let_def size_max_def)
  have s: "\<exists>piece. chunk_step ?data 0 = Some (piece, 0)"
    unfolding chunk_step_def e option.case n Let_def by (simp add: crlf_def)
  have "\<not> (?data = ?data \<and> (0 :: nat) = 0)"
  proof (rule chunk_loop.raw_induct [where P = "\<lambda>d p out r. \<not> (d = ?data \<and> p = 0)", OF _ r])
    fix f d p out q
    assume IH: "\<And>d p out q. f d p out = Some q \<Longrightarrow> \<not> (d = ?data \<and> p = 0)"
      and step: "(case chunk_step d p of None \<Rightarrow> Some out | Some (piece, next) \<Rightarrow> f d next (out @ piece)) = Some q"
    show "\<not> (d = ?data \<and> p = 0)"
    proof
      assume h: "d = ?data \<and> p = 0"
      obtain piece where "chunk_step ?data 0 = Some (piece, 0)" using s by blast
      then have "f ?data 0 (out @ piece) = Some q" using step unfolding conjunct1 [OF h] conjunct2 [OF h] by simp
      from IH [OF this] show False by simp
    qed
  qed
  then show False by simp
qed

section \<open>The header sniffer\<close>

lemma sniff_line_blind:
  "md_content_type (sniff_line line md) = md_content_type md" "md_content_length (sniff_line line md) = md_content_length md"
  "md_status_line (sniff_line line md) = md_status_line md"
  by (simp_all add: sniff_line_def moved_from_def Let_def split: option.split)

lemma header_lines_blind:
  "md_content_type (header_lines rest md) = md_content_type md \<and> md_content_length (header_lines rest md) = md_content_length md \<and>
   md_status_line (header_lines rest md) = md_status_line md"
  by (induction rest md rule: header_lines.induct)
    (subst (1 2 3) header_lines.simps, auto simp: sniff_line_blind split: option.split)

text \<open>The sniffer is blind.  \<open>parse_response_headers\<close> moves the header's key into the result before
  it compares it, so for every response the content type stays \<open>Unknown\<close>, the content length
  stays 0 and the script engine is never bypassed.\<close>

theorem sniffer_blind:
  "md_content_type (parse_response_headers raw) = Unknown \<and> md_content_length (parse_response_headers raw) = 0 \<and>
   \<not> can_bypass_script_engine (parse_response_headers raw)"
proof -
  have "md_content_type (parse_response_headers raw) = Unknown \<and> md_content_length (parse_response_headers raw) = 0"
    by (simp add: parse_response_headers_def new_metadata_def header_lines_blind Let_def split: option.split)
  then show ?thesis by (simp add: can_bypass_script_engine_def)
qed

section \<open>Delivering a response\<close>

fun join_lines :: "string list \<Rightarrow> string" where
  "join_lines [] = []"
| "join_lines [l] = l"
| "join_lines (l # m # ls) = l @ crlf @ join_lines (m # ls)"

definition line_ok :: "string \<Rightarrow> bool" where
  "line_ok l \<longleftrightarrow> l \<noteq> [] \<and> CHR 0x0D \<notin> set l"

definition header_text :: "string \<times> string \<Rightarrow> string" where
  "header_text h = fst h @ '': '' @ snd h"

definition header_ok :: "string \<times> string \<Rightarrow> bool" where
  "header_ok h \<longleftrightarrow> CHR '':'' \<notin> set (fst h) \<and> CHR 0x0D \<notin> set (fst h) \<and> snd h \<noteq> [] \<and>
     \<not> blank_prefix (hd (snd h)) \<and> CHR 0x0D \<notin> set (snd h)"

lemma header_line_ok: "header_ok h \<Longrightarrow> line_ok (header_text h)"
  by (simp add: header_ok_def line_ok_def header_text_def)

lemma find_blank_line:
  "list_all line_ok ls \<Longrightarrow> ls \<noteq> [] \<Longrightarrow>
    find_sub (crlf @ crlf) (join_lines ls @ crlf @ crlf @ body) = Some (length (join_lines ls))"
proof (induction ls rule: join_lines.induct)
  case 1
  then show ?case by simp
next
  case (2 l)
  then show ?case unfolding crlf_def by (simp add: line_ok_def) (subst find_sub_skip; simp)
next
  case (3 l m ls)
  let ?r = "join_lines (m # ls)"
  have m: "?r \<noteq> [] \<and> hd ?r \<noteq> CHR 0x0D" using 3(2) by (cases m; cases ls) (auto simp: line_ok_def)
  then obtain c t where c: "?r = c # t" "c \<noteq> CHR 0x0D" by (cases ?r) auto
  have IH: "find_sub (crlf @ crlf) (?r @ crlf @ crlf @ body) = Some (length ?r)" using 3 by simp
  have "find_sub (crlf @ crlf) (crlf @ ?r @ crlf @ crlf @ body) = map_option (\<lambda>i. i + 2) (find_sub (crlf @ crlf) (?r @ crlf @ crlf @ body))"
    unfolding c(1) using c(2)
    by (cases "find_sub (crlf @ crlf) ((c # t) @ crlf @ crlf @ body)") (auto simp: crlf_def)
  then have s: "find_sub (crlf @ crlf) (crlf @ ?r @ crlf @ crlf @ body) = Some (length ?r + 2)" using IH by simp
  have "find_sub (crlf @ crlf) (l @ crlf @ ?r @ crlf @ crlf @ body) =
      map_option (\<lambda>i. length l + i) (find_sub (crlf @ crlf) (crlf @ ?r @ crlf @ crlf @ body))"
    unfolding crlf_def append_Cons by (rule find_sub_skip) (use 3(2) in \<open>simp add: line_ok_def\<close>)
  then show ?case unfolding s by (simp add: crlf_def)
qed

lemma find_line_end:
  "CHR 0x0D \<notin> set l \<Longrightarrow> find_sub crlf (l @ crlf @ r) = Some (length l)" "CHR 0x0D \<notin> set l \<Longrightarrow> find_sub crlf l = None"
proof -
  assume l: "CHR 0x0D \<notin> set l"
  show "find_sub crlf (l @ crlf @ r) = Some (length l)"
    unfolding crlf_def append_Cons by (subst find_sub_skip [OF l]) simp
  have "find_sub crlf (l @ []) = map_option (\<lambda>i. length l + i) (find_sub crlf [])"
    unfolding crlf_def by (rule find_sub_skip [OF l])
  then show "find_sub crlf l = None" by (simp add: crlf_def)
qed

lemma sniff_header: "header_ok h \<Longrightarrow> sniff_line (header_text h) md = md\<lparr> md_headers := md_headers md @ [h] \<rparr>"
proof -
  assume h: "header_ok h"
  have i: "find_idx (\<lambda>c. c = CHR '':'') (header_text h) = Some (length (fst h))"
  proof -
    have "find_idx (\<lambda>c. c = CHR '':'') (fst h) = None" using h by (auto simp: find_idx_None_iff header_ok_def)
    then show ?thesis by (simp add: header_text_def find_idx_append)
  qed
  have d: "dropWhile blank_prefix ('' '' @ snd h) = snd h" using h
    by (cases "snd h") (simp_all add: header_ok_def, simp_all add: blank_prefix_def)
  have nb: "\<not> Ball (set (snd h)) blank_prefix" using h by (meson hd_in_set header_ok_def)
  show ?thesis unfolding sniff_line_def i using h d nb
    by (auto simp add: header_text_def Let_def moved_from_def header_ok_def)
qed

lemma header_lines_headers:
  "list_all header_ok hs \<Longrightarrow> header_lines (join_lines (map header_text hs)) md = md\<lparr> md_headers := md_headers md @ hs \<rparr>"
proof (induction "map header_text hs" arbitrary: hs md rule: join_lines.induct)
  case 1
  then show ?case by (subst header_lines.simps) simp
next
  case (2 l)
  then obtain h where h: "hs = [h]" "l = header_text h" by (cases hs) auto
  then have l: "line_ok l" "header_ok h" using 2 header_line_ok by simp_all
  then show ?case unfolding h(1) using find_line_end(2) [of l] h(2)
    by (subst header_lines.simps) (simp add: line_ok_def sniff_header)
next
  case (3 l m ls)
  then obtain h g gs where h: "hs = h # g # gs" "l = header_text h" "m # ls = map header_text (g # gs)"
    by (cases hs; cases "tl hs") auto
  then have l: "line_ok l" "header_ok h" using 3(3) header_line_ok by simp_all
  have j: "join_lines (map header_text hs) = l @ crlf @ join_lines (map header_text (g # gs))" using h by simp
  have "header_lines (join_lines (map header_text hs)) md = header_lines (join_lines (map header_text (g # gs))) (sniff_line l md)"
    unfolding j using l(1) find_line_end(1) [of l "join_lines (map header_text (g # gs))"]
    by (subst header_lines.simps) (simp add: line_ok_def crlf_def)
  also have "\<dots> = (sniff_line l md)\<lparr> md_headers := md_headers (sniff_line l md) @ (g # gs) \<rparr>"
    by (rule 3(1) [OF h(3)]) (use 3(3) h in simp)
  finally show ?case unfolding h(2) sniff_header [OF l(2)] h(1) by simp
qed

lemma parse_headers_joined:
  assumes "line_ok status_line" and "hs \<noteq> []" and "list_all header_ok hs"
  shows "parse_response_headers (join_lines (status_line # map header_text hs) @ crlf @ crlf) =
    new_metadata\<lparr> md_status_line := status_line, md_headers := hs \<rparr>"
proof -
  let ?j = "join_lines (status_line # map header_text hs)"
  have "list_all line_ok (status_line # map header_text hs)"
    using assms header_line_ok by (auto simp: list_all_iff)
  from find_blank_line [OF this, of "[]"]
  have f: "find_sub (crlf @ crlf) (?j @ crlf @ crlf) = Some (length ?j)" by simp
  have j: "?j = status_line @ crlf @ join_lines (map header_text hs)" using assms(2) by (cases hs) simp_all
  have g: "find_sub crlf ?j = Some (length status_line)"
    unfolding j using assms(1) by (intro find_line_end) (simp add: line_ok_def)
  show ?thesis
    unfolding parse_response_headers_def f using g header_lines_headers [OF assms(3)]
    by (simp add: Let_def) (simp add: j crlf_def new_metadata_def)
qed

text \<open>The pieces a connection delivers.\<close>

definition delivers :: "string list \<Rightarrow> string \<Rightarrow> bool" where
  "delivers pieces whole \<longleftrightarrow> [] \<notin> set pieces \<and> concat pieces = whole"

lemma find_sub_prefix:
  assumes "find_sub p (u @ v) = Some h" and "p \<noteq> []"
  shows "find_sub p u = (if h + length p \<le> length u then Some h else None)"
proof (cases "h + length p \<le> length u")
  case True
  then show ?thesis using find_sub_replace_tail [OF assms(1) True, of "[]"] by simp
next
  case False
  have "find_sub p u = None"
  proof (rule ccontr)
    assume "find_sub p u \<noteq> None"
    then obtain i where i: "find_sub p u = Some i" by blast
    have "find_sub p (u @ v) = Some i"
      using find_sub_replace_tail [of p u "[]" i v] i find_sub_bound [OF i] by simp
    then show False using assms(1) find_sub_bound [OF i] False by simp
  qed
  then show ?thesis using False by simp
qed

lemma read_headers_delivered:
  assumes "find_sub (crlf @ crlf) whole = Some h" and "h + 4 \<le> 256 * 1024"
  shows "[] \<notin> set pieces \<Longrightarrow> out @ concat pieces = whole \<Longrightarrow>
    \<exists>raw rest. read_headers (map Some pieces) out = (Inr raw, map Some rest) \<and> raw @ concat rest = whole \<and>
      h + 4 \<le> length raw \<and> [] \<notin> set rest"
proof (induction pieces arbitrary: out)
  case Nil
  then have "contains (crlf @ crlf) out" using assms(1) by (simp add: contains_def)
  moreover have "h + 4 \<le> length out" using Nil find_sub_bound [OF assms(1)] by (simp add: crlf_def)
  ultimately show ?case using Nil by (subst read_headers.simps) (auto intro: exI [of _ "[]"])
next
  case (Cons b bs)
  have four: "length (crlf @ crlf) = 4" by (simp add: crlf_def)
  have c: "contains (crlf @ crlf) u \<longleftrightarrow> h + 4 \<le> length u" if "u @ v = whole" for u v
    using find_sub_prefix [of "crlf @ crlf" u v h] assms(1) that four by (auto simp: contains_def crlf_def)
  show ?case
  proof (cases "contains (crlf @ crlf) out")
    case True
    then show ?thesis using c [OF Cons.prems(2)] Cons.prems
      by (subst read_headers.simps) (auto intro!: exI [of _ "b # bs"])
  next
    case False
    have w: "(out @ b) @ concat bs = whole" using Cons.prems(2) by simp
    have "\<not> (256 * 1024 < length (out @ b) \<and> \<not> contains (crlf @ crlf) (out @ b))"
      using c [OF w] assms(2) by linarith
    then have "read_headers (map Some (b # bs)) out = read_headers (map Some bs) (out @ b)"
      using False Cons.prems(1) by (subst read_headers.simps) auto
    then show ?thesis using Cons.IH [OF _ w] Cons.prems(1) by simp
  qed
qed

lemma read_remaining_delivered: "[] \<notin> set pieces \<Longrightarrow> read_remaining (map Some pieces) out = out @ concat pieces"
proof (induction pieces arbitrary: out)
  case Nil
  then show ?case by simp
next
  case (Cons b bs)
  then show ?case by (cases b) auto
qed

lemma read_until_delivered:
  "[] \<notin> set pieces \<Longrightarrow> wanted \<le> length (out @ concat pieces) \<Longrightarrow>
    take wanted (read_until (map Some pieces) out wanted) = take wanted (out @ concat pieces)"
proof (induction pieces arbitrary: out)
  case Nil
  then show ?case by (subst read_until.simps) simp
next
  case (Cons b bs)
  show ?case
  proof (cases "length out < wanted")
    case True
    have "b \<noteq> []" using Cons.prems(1) by auto
    then have "read_until (map Some (b # bs)) out wanted = read_until (map Some bs) (out @ b) wanted"
      using True by (subst read_until.simps) (cases b; simp)
    then show ?thesis using Cons.IH [of "out @ b"] Cons.prems by simp
  next
    case False
    then show ?thesis by (subst read_until.simps) simp
  qed
qed

text \<open>How a body is framed, by the headers that are sent with it: chunked, with its length (and
  anything behind it), or up to the end of the stream.\<close>

definition framed :: "(string \<times> string) list \<Rightarrow> string \<Rightarrow> string \<Rightarrow> bool" where
  "framed hs body payload \<longleftrightarrow>
     (let r = new_response\<lparr> rd_headers := hs \<rparr> in
      if lower_equals (response_header ''Transfer-Encoding'' r) ''chunked''
      then \<exists>cs. list_all chunk_ok cs \<and> length payload < 2 ^ 63 \<and> payload = encode_chunks cs \<and> body = concat (map snd cs)
      else if response_header ''Content-Length'' r \<noteq> []
      then response_header ''Content-Length'' r = dec_text (length body) \<and> length body \<le> size_max \<and> (\<exists>more. payload = body @ more)
      else payload = body)"

lemma read_body_framed:
  assumes "framed hs body payload" and "rd_headers r = hs" and "[] \<notin> set rest" and "remainder @ concat rest = payload"
  shows "read_body r (map Some rest) remainder = Some body"
proof -
  let ?r = "new_response\<lparr> rd_headers := hs \<rparr>"
  have h: "response_header n r = response_header n ?r" for n using assms(2) by (simp add: response_header_def)
  show ?thesis
  proof (cases "lower_equals (response_header ''Transfer-Encoding'' ?r) ''chunked''")
    case True
    then obtain cs where cs: "list_all chunk_ok cs" "length payload < 2 ^ 63" "payload = encode_chunks cs" "body = concat (map snd cs)"
      using assms(1) by (auto simp: framed_def Let_def)
    have "decode_chunked payload = Some body"
      using chunk_loop_chunks [of cs "[]" "[]"] cs by (simp add: decode_chunked_def)
    then show ?thesis using True assms(3,4) by (simp add: read_body_def h read_remaining_delivered)
  next
    case False
    show ?thesis
    proof (cases "response_header ''Content-Length'' ?r = []")
      case True
      then show ?thesis using False assms by (simp add: read_body_def h read_remaining_delivered framed_def Let_def)
    next
      case len: False
      then obtain more where m: "response_header ''Content-Length'' ?r = dec_text (length body)" "length body \<le> size_max"
        "payload = body @ more" using assms(1) False by (auto simp: framed_def Let_def)
      have "parse_size (dec_text (length body)) = length body"
        using dec.from_chars_shown [of "length body" size_max "[]"] m(2) by (simp add: parse_size_def)
      moreover have "take (length body) (read_until (map Some rest) remainder (length body)) = body"
        using read_until_delivered [of rest "length body" remainder] assms(3,4) m(3) by simp
      ultimately show ?thesis using False len m(1) by (simp add: read_body_def h)
    qed
  qed
qed

definition status_line_for :: "nat \<Rightarrow> string \<Rightarrow> string" where
  "status_line_for code reason = ''HTTP/1.1 '' @ dec_text code @ '' '' @ reason"

lemma status_code_read:
  assumes "code < 1000"
  shows "int_from_chars (dec_text code @ '' '' @ reason) = Some (int code)"
proof -
  obtain c t where c: "dec_text code = c # t" using dec.shown_not_empty [of code] by (cases "dec_text code") auto
  then have "c \<noteq> CHR ''-''" using dec_text_safe [of code] by simp
  then have "int_from_chars (dec_text code @ '' '' @ reason) = map_option int (from_chars dec_value 10 (2 ^ 31 - 1) (dec_text code @ '' '' @ reason))"
    unfolding int_from_chars_def c by simp
  also have "from_chars dec_value 10 (2 ^ 31 - 1) (dec_text code @ '' '' @ reason) = Some code"
    by (rule dec.from_chars_shown) (use assms in \<open>auto simp: dec_value_def isdigit_def\<close>)
  finally show ?thesis by simp
qed

text \<open>C16: The client delivers the server's response.  Let a server send a status line with a code
  below 1000, at least one header and a body, cut into \<open>recv\<close> results in any way.  The reason has no
  carriage return; the headers have no carriage return, no colon in the name and a value that is
  neither empty nor starts with a blank (an empty value would be delivered as a blank); the section
  of the headers is at most 256 KiB long; and the body is framed in one of three ways: in chunks,
  by its length, or by the end of the stream when neither header is there.  Then the client
  returns, without an error, exactly the status, the headers in order and the body.\<close>

theorem read_response_delivers:
  assumes "code < 1000" and "CHR 0x0D \<notin> set reason" and "hs \<noteq> []" and "list_all header_ok hs"
    and "framed hs body payload"
    and "length (join_lines (status_line_for code reason # map header_text hs)) + 4 \<le> 256 * 1024"
    and "delivers pieces (join_lines (status_line_for code reason # map header_text hs) @ crlf @ crlf @ payload)"
  shows "read_response (map Some pieces) =
    Some \<lparr> rd_status = int code, rd_status_line = status_line_for code reason, rd_headers = hs, rd_body = body, rd_error = [] \<rparr>"
proof -
  let ?s = "status_line_for code reason"
  let ?j = "join_lines (?s # map header_text hs)"
  let ?w = "?j @ crlf @ crlf @ payload"
  have s: "line_ok ?s" using assms(2) dec_text_safe [of code]
    by (auto simp: line_ok_def status_line_for_def list_all_iff)
  then have "list_all line_ok (?s # map header_text hs)" using assms(4) header_line_ok by (auto simp: list_all_iff)
  then have f: "find_sub (crlf @ crlf) ?w = Some (length ?j)" by (rule find_blank_line) simp
  obtain raw rest where r: "read_headers (map Some pieces) [] = (Inr raw, map Some rest)" "raw @ concat rest = ?w"
    "length ?j + 4 \<le> length raw" "[] \<notin> set rest"
    using read_headers_delivered [OF f assms(6), of pieces "[]"] assms(7) by (auto simp: delivers_def)
  have four: "length (crlf @ crlf) = 4" by (simp add: crlf_def)
  have fr: "find_sub (crlf @ crlf) raw = Some (length ?j)"
    using find_sub_prefix [of "crlf @ crlf" raw "concat rest" "length ?j"] f r(2,3) four by (simp add: crlf_def)
  have "take (length ?j + 4) raw = take (length ?j + 4) (raw @ concat rest)" using r(3) by simp
  then have tk: "take (length ?j + 4) raw = ?j @ crlf @ crlf" unfolding r(2) by (simp add: crlf_def)
  have "drop (length ?j + 4) raw @ concat rest = drop (length ?j + 4) (raw @ concat rest)" using r(3) by simp
  then have dr: "drop (length ?j + 4) raw @ concat rest = payload" unfolding r(2) by (simp add: crlf_def)
  have md: "parse_response_headers (?j @ crlf @ crlf) = new_metadata\<lparr> md_status_line := ?s, md_headers := hs \<rparr>"
    by (rule parse_headers_joined [OF s assms(3,4)])
  have sp: "find_idx (\<lambda>c. c = CHR '' '') ?s = Some 8" by (simp add: status_line_for_def)
  have "int_from_chars (drop (8 + 1) ?s) = Some (int code)"
    using status_code_read [OF assms(1), of reason] by (simp add: status_line_for_def)
  then have start: "response_start raw (length ?j) = new_response\<lparr> rd_status_line := ?s, rd_headers := hs, rd_status := int code \<rparr>"
    unfolding response_start_def tk md Let_def using sp by simp
  have "read_body (response_start raw (length ?j)) (map Some rest) (drop (length ?j + 4) raw) = Some body"
    by (rule read_body_framed [OF assms(5) _ r(4) dr]) (simp add: start)
  then show ?thesis unfolding read_response_def using r(1) fr start by (simp add: Let_def new_response_def)
qed

definition sample_headers :: "(string \<times> string) list" where
  "sample_headers = [(''Content-Type'', ''text/plain''), (''content-length'', ''5'')]"

lemma read_response_delivers_witness:
  "read_response (map Some [''HTTP/1.1 200 OK'' @ [CHR 0x0D], [CHR 0x0A] @ ''Content-Type: text/plain'' @ crlf @ ''content-length: 5'' @ crlf,
      crlf @ ''hel'', ''lo!'']) =
    Some \<lparr> rd_status = 200, rd_status_line = ''HTTP/1.1 200 OK'', rd_headers = sample_headers, rd_body = ''hello'', rd_error = [] \<rparr>"
proof -
  have d: "dec_text 200 = ''200''" "dec_text 5 = ''5''" by code_simp+
  have s: "status_line_for 200 ''OK'' = ''HTTP/1.1 200 OK''" by (simp add: status_line_for_def d)
  have "header_ok (''Content-Type'', ''text/plain'')" "header_ok (''content-length'', ''5'')"
    by (simp_all add: header_ok_def blank_prefix_def)
  then have h: "list_all header_ok sample_headers" by (simp add: sample_headers_def)
  have "lower_equals (response_header ''Transfer-Encoding'' (new_response\<lparr> rd_headers := sample_headers \<rparr>)) ''chunked'' = False"
    "response_header ''Content-Length'' (new_response\<lparr> rd_headers := sample_headers \<rparr>) = ''5''"
    by code_simp+
  moreover have "dec_text (length ''hello'') = ''5''" by code_simp
  ultimately have f: "framed sample_headers ''hello'' ''hello!''" by (simp add: framed_def size_max_def)
  have l: "length (join_lines (status_line_for 200 ''OK'' # map header_text sample_headers)) + 4 \<le> 256 * 1024"
    by (simp add: s sample_headers_def header_text_def crlf_def)
  have p: "delivers [''HTTP/1.1 200 OK'' @ [CHR 0x0D], [CHR 0x0A] @ ''Content-Type: text/plain'' @ crlf @ ''content-length: 5'' @ crlf, crlf @ ''hel'', ''lo!'']
      (join_lines (status_line_for 200 ''OK'' # map header_text sample_headers) @ crlf @ crlf @ ''hello!'')"
    by (simp add: delivers_def s sample_headers_def header_text_def crlf_def)
  have "(200 :: nat) < 1000" "CHR 0x0D \<notin> set ''OK''" "sample_headers \<noteq> []" by (simp_all add: sample_headers_def)
  from read_response_delivers [OF this h f l p] show ?thesis by (simp add: s)
qed

text \<open>A response without any header line loses its status line, and with it the status.\<close>

lemma status_lost_without_headers:
  assumes "CHR 0x0D \<notin> set line" and "line \<noteq> []"
  shows "rd_status (response_start (line @ crlf @ crlf) (length line)) = 0"
proof -
  have "find_sub (crlf @ crlf) (join_lines [line] @ crlf @ crlf @ []) = Some (length (join_lines [line]))"
    using assms by (intro find_blank_line) (simp_all add: line_ok_def)
  then have "find_sub (crlf @ crlf) (line @ crlf @ crlf) = Some (length line)" by simp
  then have "md_status_line (parse_response_headers (line @ crlf @ crlf)) = []"
    using find_line_end(2) [OF assms(1)] by (simp add: parse_response_headers_def header_lines_blind new_metadata_def Let_def)
  then show ?thesis by (simp add: response_start_def Let_def new_response_def crlf_def)
qed

end
