(* ===== verification/Spec2Isabelle.thy ===== *)
theory Spec2Isabelle
  imports Application Js_Safety Js_Fuel Js_Core Huffman_Code Gif_File Jpeg_Block Js_Roundtrip Ghost_Cache Http_Client
begin

text \<open>
  The core of the Aetheris browser: what its own code under \<open>src/rendering\<close>, \<open>src/js\<close>,
  \<open>include/aetheris/network\<close> and \<open>include/aetheris/cache\<close> computes, from the bytes of a response to
  the boxes on the screen, and what can be relied on.

  \<^bold>\<open>The parts of the program and how they meet.\<close>  A navigation asks the resource loader for a document
  and its style sheets; the loader asks the security policy, its cache and its backends (files, HTTP).
  The HTML tokenizer and tree builder make the document tree, the CSS tokenizer and parser the style
  sheet; the style resolver matches selectors and cascades declarations for each node, with the
  visual state of the page (hover, focus) as an argument; the layout engine makes boxes of the styled
  nodes and places them; the painter draws them through a stack of clips; forms keep their controls
  beside the document and turn them into a request body.  Images are decoded from PNG, GIF, JPEG and PPM.
  A session keeps the history of a tab, the application its tabs, and the chrome drives it.
  Scripts are lexed and parsed into trees; their regular expressions have an engine of their own.
  The ghost cache keeps the data of tabs in wiped blocks of memory.

  \<^bold>\<open>Theories and sources.\<close>
    \<^item> \<open>Prelude\<close>: strings, bytes, exceptions and the standard library calls the sources share; \<open>Scan\<close>: the
      interface both tokenizers scan their input through (a locale over the rest of the input and the place
      in it), \<open>Floating\<close>: \<open>float\<close> and \<open>double\<close> with correct rounding, and \<open>strtod\<close>/\<open>strtof\<close>.
    \<^item> \<open>Url\<close> (\<open>url.cpp\<close>), \<open>Resource\<close> (\<open>resource.cpp\<close>, \<open>content_type.cpp\<close>), \<open>Security\<close>
      (\<open>security_policy.cpp\<close>), \<open>Cookies\<close> (\<open>cookie_jar.cpp\<close>), \<open>Loader\<close> (the resource backends,
      \<open>resource_loader.cpp\<close>, \<open>secure_resource_loader.cpp\<close>).  Classes are records, \<open>const\<close> members functions of
      them, the others return the changed record; what is outside (file system, network) is the world a
      backend transforms.
    \<^item> \<open>Html_Tokenizer\<close>, \<open>Dom\<close>, \<open>Html_Tree\<close> (\<open>html_tokenizer.cpp\<close>, \<open>dom.cpp\<close>,
      \<open>html_tree_builder.cpp\<close>, \<open>document.cpp\<close>): a node pointer is a path from the root.
    \<^item> \<open>Css_Tokenizer\<close>, \<open>Css_Parser\<close> (\<open>css_tokenizer.cpp\<close>, \<open>css_parser.cpp\<close>), \<open>Visual_State\<close>, \<open>Style\<close>
      (\<open>visual_state.cpp\<close>, \<open>style.cpp\<close>), \<open>Forms\<close> (\<open>form_runtime.cpp\<close>).
    \<^item> \<open>Geometry\<close> (\<open>viewport.cpp\<close>, \<open>geometry.cpp\<close>, \<open>clip.cpp\<close>), \<open>Text_Layout\<close> (\<open>text_layout.cpp\<close>,
      \<open>font.cpp\<close>), \<open>Layout\<close> (\<open>layout.cpp\<close>): all in \<open>float\<close>.
    \<^item> \<open>Gif\<close> models \<open>gif.cpp\<close>: LZW, sub-blocks, extensions, interlacing and the drawing of the first
      frame; \<open>Gif_Codec\<close> holds an LZW encoder from the specification and proves that the decoder, whose
      table is one string behind, returns the data; \<open>Gif_File\<close> does the same for whole files.
    \<^item> \<open>Effects\<close>: the results of calls that may return, throw, hang or be undefined, and loops over them.
      \<open>Image_Cache\<close> (\<open>image.cpp\<close>): the PPM reader and the cache of decoded images.
    \<^item> \<open>Render_Tree\<close>, \<open>Bitmap_Font\<close>, \<open>Surface\<close>, \<open>Painter\<close> (\<open>render_tree.cpp\<close>, \<open>bitmap_font.cpp\<close>,
      \<open>software_surface.cpp\<close>, \<open>paint_executor.cpp\<close>): boxes become a list of commands, commands pixels.
    \<^item> \<open>Render_Document\<close>, \<open>Interaction\<close> (\<open>render_document.cpp\<close>, \<open>document_interaction.cpp\<close>): a page
      and what lies under a point of it; a layout node pointer is the node itself, a DOM pointer its path.
    \<^item> \<open>Navigation\<close>, \<open>Session\<close>, \<open>Application\<close> (\<open>navigation.cpp\<close>, \<open>browser_session.cpp\<close>,
      \<open>browser_application.cpp\<close>, \<open>browser_chrome.cpp\<close>): from a request to a page, the history of a tab, the
      tabs, the events of the window and the address bar.
    \<^item> \<open>Jpeg\<close> models \<open>jpeg.cpp\<close>: markers, tables, baseline and progressive scans, the inverse transform in
      \<open>float\<close> arithmetic and the conversion of colours; \<open>Jpeg_Block\<close> has the coding of a block from the
      standard and shows that it is decoded to itself.
    \<^item> \<open>Js_Numbers\<close>, \<open>Js_Values\<close>, \<open>Js_Json\<close>, \<open>Js_Runtime\<close>, \<open>Js_Interpreter\<close> (\<open>js/js.cpp\<close>): the numbers,
      values and store of the script interpreter, JSON, the library with its promises, and the evaluation
      of expressions, statements, scripts and events.  An interpreter is a function of requests with fuel
      (\<open>interp\<close>); \<open>Js_Fuel\<close> shows that more fuel changes no answer, \<open>Js_Safety\<close> that no reference dangles and
      that promises settle once, \<open>Js_Library\<close> what maps and splitting do, and
      \<open>Js_Core\<close> that programs of a core language, with a semantics of its own, run as they mean.  A nesting of calls
      deep enough to overflow the stack is not told from one that does not end.
    \<^item> \<open>Inflate\<close>, \<open>Huffman_Code\<close>, \<open>Png\<close>, \<open>Png_Codec\<close>, \<open>Color\<close> (\<open>png.cpp\<close>, \<open>color.cpp\<close>): bytes and the bit
      buffer are words.
    \<^item> \<open>Js_Lexer\<close>, \<open>Js_Parser\<close>, \<open>Js_Roundtrip\<close> (\<open>js/js.cpp\<close>), \<open>Regex\<close> (\<open>js/regex.cpp\<close>).
    \<^item> \<open>Http_Client\<close> (\<open>network/http_client.hpp\<close>, and the \<open>HttpSniffer\<close> of
      \<open>network/socket_abstraction.hpp\<close>), \<open>Ghost_Cache\<close> (\<open>cache/ghost_cache.hpp\<close>), \<open>Lz4_Shim\<close>
      (\<open>cmake/fallback/include/lz4.h\<close>): the compressor of the ghost cache is a record of functions, of which the
      bundled codec is one value.

  \<^bold>\<open>What the lemmas show.\<close>  Round trips: URLs, rendered markup, style sheets, form bodies, Huffman
  codes and whole PNG files, chunked bodies, JSON, scripts, the bundled codec (exactly when).  Abstract specifications: the greedy walk of the selector
  matcher against the meaning of the selector, the backtracking regular expressions against the
  leftmost match of a compositional relation, the Huffman decoder against the canonical code, the clip
  stack against the set of visible pixels, the history of a session against a zipper, the hit test
  against the document order, the script interpreter against a core language with a big-step semantics.  Invariants of every run: form state, ghost cache memory,
  the document tree.  Safety: which requests the policy lets through, that whole runs of
  requests leave behind only what it permits, that no byte of a closed tab stays, that hidden
  overflow paints nothing outside its box.  Layout shows exactly the boxes it should, in order,
  and loses no word.  Termination where it holds
  and, where it does not, exactly when: the loop of \<open>Url::resolve\<close>, the chunk decoder, patterns with a
  NUL character.

  \<^bold>\<open>Failures and fuel.\<close>  Exceptions are \<open>Inl\<close>; a call that does not return is \<^term>\<open>None\<close> of a
  \<^theory_text>\<open>partial_function (option)\<close>; signed overflow and other undefined behaviour is an outcome of its
  own.  Three recursions have fuel: the regular-expression parser (three calls per character), the script
  parser (three calls per token, plus five) and layout (the height of the tree).  That it is
  enough is proved: \<open>compile_total\<close>, \<open>parse_program_returns\<close>, \<open>layout_fuel_enough\<close>.

  \<^bold>\<open>Interfaces.\<close>  Where components meet, the contract is a locale that is interpreted on the model's own
  definitions: \<open>keyed_store\<close> (the resource cache), \<open>resource_backend\<close> (both backends), \<open>scanner\<close> (both
  tokenizers), \<open>positional\<close> (numbers in headers), \<open>two_placers\<close> (the recursive call of layout),
  \<open>images\<close> (the image cache as a keyed store), \<open>handed_over\<close> (operations the application hands to its active session), \<open>dictionary\<close> (the properties of objects and the entries of a \<open>Map\<close>).

  \<^bold>\<open>Not modelled.\<close>  The libraries the sources call (an installed LZ4, libwebp, TLS, sockets) are parameters or left
  out; the LZ4 codec that the repository bundles for when none is installed is modelled; allocation succeeds.  The SVG decoder and the WebP wrapper are a parameter of the image cache, with the cosine of the JPEG decoder; the window and the start-up code are not modelled. The upstream browser tree that shares the repository (\<open>AK\<close>,
  \<open>Libraries\<close>, \<open>Services\<close>, \<open>UI\<close>) is third-party code that this program does not link.
\<close>

end
